(* ===== verification/Kaworu_Prelude.thy ===== *)
theory Kaworu_Prelude
  imports Main "HOL-Library.Word"
begin

text \<open>
  The vocabulary every component theory shares.

  \<^item> The C integer types of \<open>lib/include/types.h\<close> as machine words, and pointers
    as 64-bit addresses (AArch64, LP64).
  \<^item> Fallible code: a value of \<open>kerror + 'a\<close>, with \<open>Inl\<close> for code that does not return
    to its caller: a \<open>panic\<close> (or a failed \<open>ASSERT\<close>), a wild or null
    dereference, a spin on a lock that nobody releases, or a loop that does not end.
    \<open>bindE\<close> sequences such code.  Error \<^emph>\<open>codes\<close> are ordinary return values of the
    kernel (negative \<open>errno_t\<close> values and error pointers) and are not of this kind.
  \<^item> Loops over a half-open range of machine words (\<open>forE\<close>, \<open>word_range\<close>).
  \<^item> A little-endian byte-addressed memory with 64-bit loads and stores, for the code that
    keeps its data structures inside the memory it manages.
\<close>

unbundle bit_operations_syntax

section \<open>Integers and pointers\<close>

type_synonym u8 = "8 word"
type_synonym u32 = "32 word"
type_synonym u64 = "64 word"
type_synonym usize = "64 word"
type_synonym ptr = "64 word"

abbreviation nullptr :: ptr where
  "nullptr \<equiv> 0"

section \<open>Code that may not return\<close>

text \<open>
  \<open>Panic msg\<close> is a call of the \<open>panic\<close> macro, also through a failed \<open>ASSERT\<close>;
  \<open>Fault p\<close> an access through the bad pointer \<open>p\<close>; \<open>Spinning\<close> the wait for a
  spinlock that another cpu holds; \<open>Diverge\<close> a loop that does not end;
  \<open>DivByZero\<close> a division or remainder by zero.
\<close>

datatype kerror = Panic string | Fault ptr | Spinning | Diverge | DivByZero

definition bindE :: "'e + 'a \<Rightarrow> ('a \<Rightarrow> 'e + 'b) \<Rightarrow> 'e + 'b" where
  "bindE m f = (case m of Inl e \<Rightarrow> Inl e | Inr x \<Rightarrow> f x)"

definition assertE :: "bool \<Rightarrow> string \<Rightarrow> kerror + unit" where
  "assertE b msg = (if b then Inr () else Inl (Panic msg))"

named_theorems bind_rules "rules to take sequenced code apart"

lemma bindE_simps [simp]:
  "bindE (Inl e) f = Inl e"
  "bindE (Inr x) f = f x"
  by (simp_all add: bindE_def)

lemma bindE_assoc: "bindE (bindE m f) g = bindE m (\<lambda>x. bindE (f x) g)"
  by (cases m) simp_all

lemma bindE_Inr_iff [bind_rules]:
  "bindE m f = Inr y \<longleftrightarrow> (\<exists>x. m = Inr x \<and> f x = Inr y)"
  by (cases m) simp_all

lemma bindE_Inl_iff [bind_rules]:
  "bindE m f = Inl e \<longleftrightarrow> m = Inl e \<or> (\<exists>x. m = Inr x \<and> f x = Inl e)"
  by (cases m) auto

lemma bindE_cong [fundef_cong]:
  "m = m' \<Longrightarrow> (\<And>x. m' = Inr x \<Longrightarrow> f x = g x) \<Longrightarrow> bindE m f = bindE m' g"
  by (cases m') simp_all

lemma assertE_simps [simp]:
  "assertE True msg = Inr ()"
  "assertE False msg = Inl (Panic msg)"
  by (simp_all add: assertE_def)

lemma assertE_Inr_iff [bind_rules]: "assertE b msg = Inr u \<longleftrightarrow> b"
  by (simp add: assertE_def)

lemma assertE_Inl_iff [bind_rules]: "assertE b msg = Inl e \<longleftrightarrow> \<not> b \<and> e = Panic msg"
  by (auto simp: assertE_def)

section \<open>Loops over ranges of words\<close>

text \<open>
  \<open>for (usize i = lo; i < hi; i++)\<close> visits the words from \<open>lo\<close> up to but not including
  \<open>hi\<close> in the unsigned order; the counter never wraps, since it stays below \<open>hi\<close>.
\<close>

definition word_range :: "usize \<Rightarrow> usize \<Rightarrow> usize list" where
  "word_range lo hi = map of_nat [unat lo..<unat hi]"

fun forE :: "'i list \<Rightarrow> ('i \<Rightarrow> 's \<Rightarrow> 'e + 's) \<Rightarrow> 's \<Rightarrow> 'e + 's" where
  "forE [] f s = Inr s"
| "forE (i # is) f s = bindE (f i s) (forE is f)"

lemma forE_append: "forE (is @ js) f s = bindE (forE is f s) (forE js f)"
proof (induction "is" arbitrary: s)
  case Nil
  then show ?case by simp
next
  case (Cons i "is")
  then show ?case by (cases "f i s") simp_all
qed

lemma forE_map_const: "forE (map g xs) (\<lambda>_. f) s = forE xs (\<lambda>_. f) s"
proof (induction xs arbitrary: s)
  case (Cons x xs)
  then show ?case by (cases "f s") simp_all
qed simp

lemma forE_invariant:
  assumes "forE is f s = Inr t" and "P s"
    and "\<And>i s s'. i \<in> set is \<Longrightarrow> P s \<Longrightarrow> f i s = Inr s' \<Longrightarrow> P s'"
  shows "P t"
  using assms
proof (induction "is" arbitrary: s)
  case Nil
  then show ?case by simp
next
  case (Cons i "is")
  then obtain s' where s': "f i s = Inr s'" "forE is f s' = Inr t"
    by (auto simp: bind_rules)
  then have "P s'" using Cons.prems by auto
  then show ?case using Cons.IH s' Cons.prems(3) by (meson list.set_intros(2))
qed

lemma unat_of_nat_u64: "n < 2 ^ 64 \<Longrightarrow> unat (of_nat n :: 64 word) = n"
  by (simp add: unat_of_nat)

lemma unat_lt_u64: "unat (w :: 64 word) < 2 ^ 64"
  using unsigned_less [of w, where ?'a = nat] by simp

lemma unat_add_u64: "unat a + unat b < 2 ^ 64 \<Longrightarrow> unat (a + b :: 64 word) = unat a + unat b"
  by (simp add: unat_add_lem [THEN iffD1])

lemma unat_sub_u64: "b \<le> a \<Longrightarrow> unat (a - b :: 64 word) = unat a - unat b"
  by (rule unat_sub)

lemma unat_mult_u64: "unat a * unat b < 2 ^ 64 \<Longrightarrow> unat (a * b :: 64 word) = unat a * unat b"
  by (simp add: unat_mult_lem [THEN iffD1])

lemma set_word_range: "set (word_range lo hi) = {i. lo \<le> i \<and> i < hi}"
proof (intro set_eqI iffI)
  fix i assume "i \<in> set (word_range lo hi)"
  then obtain n where n: "unat lo \<le> n" "n < unat hi" "i = of_nat n"
    by (auto simp: word_range_def)
  then have "unat i = n"
    using unat_lt_u64 [of hi] by (simp add: unat_of_nat_u64)
  with n show "i \<in> {i. lo \<le> i \<and> i < hi}"
    by (simp add: word_le_nat_alt word_less_nat_alt)
next
  fix i assume "i \<in> {i. lo \<le> i \<and> i < hi}"
  then have "unat lo \<le> unat i" "unat i < unat hi" "i = of_nat (unat i)"
    by (simp_all add: word_le_nat_alt word_less_nat_alt)
  then show "i \<in> set (word_range lo hi)"
    unfolding word_range_def by (metis atLeastLessThan_iff image_eqI list.set_map set_upt)
qed

lemma distinct_word_range: "distinct (word_range lo hi)"
proof -
  have "inj_on (of_nat :: nat \<Rightarrow> 64 word) {unat lo..<unat hi}"
    by (rule inj_on_subset [OF inj_on_word_of_nat]) (use unat_lt_u64 [of hi] in auto)
  then show ?thesis by (simp add: word_range_def distinct_map)
qed

lemma length_word_range: "length (word_range lo hi) = unat hi - unat lo"
  by (simp add: word_range_def)

end
