(* ===== verification/Byte_Memory.thy ===== *)
theory Byte_Memory
  imports Kaworu_Prelude
begin

text \<open>
  Byte-addressed memory, for the allocators and page tables that keep their own state in the
  memory they manage: a total function from addresses to bytes, with the little-endian 64-bit
  accesses of AArch64.  \<open>in_region a p n\<close> says that the address \<open>a\<close> is one of the
  \<open>n\<close> bytes that start at \<open>p\<close>.  The lemmas are the read-over-write laws that
  component proofs use: a load sees the last store to its address, and no store outside its
  eight bytes.
\<close>

type_synonym mem = "ptr \<Rightarrow> u8"

definition in_region :: "ptr \<Rightarrow> ptr \<Rightarrow> nat \<Rightarrow> bool" where
  "in_region a p n \<longleftrightarrow> unat (a - p) < n"

fun join_bytes :: "u8 list \<Rightarrow> u64" where
  "join_bytes [] = 0"
| "join_bytes (b # bs) = push_bit 8 (join_bytes bs) OR ucast b"

definition load64 :: "mem \<Rightarrow> ptr \<Rightarrow> u64" where
  "load64 m p = join_bytes (map (\<lambda>i. m (p + i)) [0, 1, 2, 3, 4, 5, 6, 7])"

definition store64 :: "mem \<Rightarrow> ptr \<Rightarrow> u64 \<Rightarrow> mem" where
  "store64 m p v = (\<lambda>a. if a - p < 8 then ucast (drop_bit (8 * unat (a - p)) v) else m a)"

section \<open>Regions\<close>

lemma in_region_iff:
  assumes "unat p + n \<le> 2 ^ 64"
  shows "in_region a p n \<longleftrightarrow> unat p \<le> unat a \<and> unat a < unat p + n"
proof (cases "p \<le> a")
  case True
  then show ?thesis
    by (auto simp: in_region_def unat_sub_u64 word_le_nat_alt)
next
  case False
  then have "unat a < unat p" by (simp add: word_le_nat_alt)
  moreover have "unat (a - p) = unat a + 2 ^ 64 - unat p"
    using \<open>unat a < unat p\<close> by (simp add: unat_sub_if')
  ultimately show ?thesis
    using assms unat_lt_u64 [of p] by (auto simp: in_region_def)
qed

lemma in_region_self [simp]: "0 < n \<Longrightarrow> in_region p p n"
  by (simp add: in_region_def)

lemma in_region_offset: "unat i < n \<Longrightarrow> in_region (p + i) p n"
  by (simp add: in_region_def)

lemma in_regionE:
  assumes "in_region a p n"
  obtains i where "unat i < n" and "a = p + i"
  using assms by (metis add.commute diff_add_cancel in_region_def)

definition disjoint_regions :: "ptr \<Rightarrow> nat \<Rightarrow> ptr \<Rightarrow> nat \<Rightarrow> bool" where
  "disjoint_regions p n q k \<longleftrightarrow> (\<forall>a. \<not> (in_region a p n \<and> in_region a q k))"

lemma disjoint_regions_sym: "disjoint_regions p n q k \<longleftrightarrow> disjoint_regions q k p n"
  by (auto simp: disjoint_regions_def)

lemma disjoint_regionsI:
  assumes "unat p + n \<le> unat q \<or> unat q + k \<le> unat p"
    and "unat p + n \<le> 2 ^ 64" and "unat q + k \<le> 2 ^ 64"
  shows "disjoint_regions p n q k"
  using assms by (auto simp: disjoint_regions_def in_region_iff)

section \<open>Loads and stores\<close>

lemma bit_join_bytes:
  "bit (join_bytes bs) n \<longleftrightarrow> n < 64 \<and> n div 8 < length bs \<and> bit (bs ! (n div 8)) (n mod 8)"
proof (induction bs arbitrary: n)
  case Nil
  then show ?case by simp
next
  case (Cons b bs)
  show ?case
  proof (cases "n < 8")
    case True
    then show ?thesis by (auto simp: bit_simps)
  next
    case False
    then have "n div 8 = Suc ((n - 8) div 8)" "n mod 8 = (n - 8) mod 8"
      by (simp_all add: le_div_geq le_mod_geq)
    moreover have "\<not> bit b n"
      using False by (auto dest: bit_imp_le_length)
    ultimately show ?thesis
      using False Cons.IH [of "n - 8"] by (auto simp: bit_simps)
  qed
qed

lemma load64_eq: "load64 m p = join_bytes (map (\<lambda>i. m (p + of_nat i)) [0..<8])"
  by (simp add: load64_def upt_rec numeral_eq_Suc)

lemma bit_load64:
  "bit (load64 m p) n \<longleftrightarrow> n < 64 \<and> bit (m (p + of_nat (n div 8))) (n mod 8)"
  by (auto simp: load64_eq bit_join_bytes less_mult_imp_div_less)

lemma load64_cong:
  assumes "\<And>a. in_region a p 8 \<Longrightarrow> m a = m' a"
  shows "load64 m p = load64 m' p"
proof -
  have "m (p + of_nat i) = m' (p + of_nat i)" if "i < 8" for i
    using that by (intro assms in_region_offset) (simp add: unat_of_nat)
  then have "map (\<lambda>i. m (p + of_nat i)) [0..<8] = map (\<lambda>i. m' (p + of_nat i)) [0..<8]"
    by (intro map_cong) auto
  then show ?thesis by (simp only: load64_eq)
qed

lemma store64_in: "in_region a p 8 \<Longrightarrow> store64 m p v a = ucast (drop_bit (8 * unat (a - p)) v)"
  by (simp add: store64_def in_region_def word_less_nat_alt)

lemma store64_out: "\<not> in_region a p 8 \<Longrightarrow> store64 m p v a = m a"
  by (simp add: store64_def in_region_def word_less_nat_alt)

lemma load64_store64_same [simp]: "load64 (store64 m p v) p = v"
proof (rule bit_word_eqI)
  fix n assume n: "n < LENGTH(64)"
  then have u: "unat (of_nat (n div 8) :: 64 word) = n div 8"
    by (simp add: unat_of_nat)
  then have "store64 m p v (p + of_nat (n div 8)) = ucast (drop_bit (8 * (n div 8)) v)"
    using n by (subst store64_in) (auto simp: in_region_def)
  then show "bit (load64 (store64 m p v) p) n \<longleftrightarrow> bit v n"
    using n by (simp add: bit_load64 bit_simps)
qed

lemma load64_store64_disjoint:
  assumes "disjoint_regions p 8 q 8"
  shows "load64 (store64 m p v) q = load64 m q"
  by (rule load64_cong) (use assms in \<open>metis disjoint_regions_def store64_out\<close>)

end
