(* ===== verification/CString.thy ===== *)
theory CString
  imports Byte_Memory
begin

text \<open>
  The memory and string routines of \<open>lib/string.c\<close>, on byte memory.  The counted
  routines recurse on the count; the routines that stop at a terminating NUL only are
  \<open>partial_function\<close>s, whose \<open>None\<close> is a scan that never stops.  Closed forms say what each
  routine leaves in memory or returns; in particular \<open>memmove\<close> copies the \<^emph>\<open>original\<close>
  bytes for every overlap, \<open>strlen\<close> returns the length of a C string, and \<open>strcmp\<close>
  compares two C strings.
\<close>

definition endsE :: "'a option \<Rightarrow> kerror + 'a" where
  "endsE r = (case r of None \<Rightarrow> Inl Diverge | Some x \<Rightarrow> Inr x)"

lemma endsE_simps [simp]: "endsE None = Inl Diverge" "endsE (Some x) = Inr x"
  by (simp_all add: endsE_def)

section \<open>Filling and copying\<close>

fun memset_loop :: "mem \<Rightarrow> ptr \<Rightarrow> u8 \<Rightarrow> nat \<Rightarrow> mem" where
  "memset_loop m p byte 0 = m"
| "memset_loop m p byte (Suc n) = memset_loop (m(p := byte)) (p + 1) byte n"

definition memset :: "mem \<Rightarrow> ptr \<Rightarrow> u8 \<Rightarrow> usize \<Rightarrow> mem" where
  "memset m s byte count = memset_loop m s byte (unat count)"

fun copy_up :: "mem \<Rightarrow> ptr \<Rightarrow> ptr \<Rightarrow> nat \<Rightarrow> mem" where
  "copy_up m d s 0 = m"
| "copy_up m d s (Suc n) = copy_up (m(d := m s)) (d + 1) (s + 1) n"

fun copy_down :: "mem \<Rightarrow> ptr \<Rightarrow> ptr \<Rightarrow> nat \<Rightarrow> mem" where
  "copy_down m lastd lasts 0 = m"
| "copy_down m lastd lasts (Suc n) =
     copy_down (m(lastd := m lasts)) (lastd - 1) (lasts - 1) n"

definition memcpy :: "mem \<Rightarrow> ptr \<Rightarrow> ptr \<Rightarrow> usize \<Rightarrow> mem" where
  "memcpy m dest src sz = copy_up m dest src (unat sz)"

definition memmove :: "mem \<Rightarrow> ptr \<Rightarrow> ptr \<Rightarrow> usize \<Rightarrow> mem" where
  "memmove m dest src len =
     (if dest < src then copy_up m dest src (unat len)
      else copy_down m (dest + (len - 1)) (src + (len - 1)) (unat len))"

section \<open>Searching and comparing\<close>

fun memchr_loop :: "mem \<Rightarrow> ptr \<Rightarrow> u8 \<Rightarrow> nat \<Rightarrow> ptr" where
  "memchr_loop m s c 0 = nullptr"
| "memchr_loop m s c (Suc n) = (if m s \<noteq> c then memchr_loop m (s + 1) c n else s)"

definition memchr :: "mem \<Rightarrow> ptr \<Rightarrow> u32 \<Rightarrow> usize \<Rightarrow> ptr" where
  "memchr m src c n = memchr_loop m src (ucast c) (unat n)"

fun memrchr_loop :: "mem \<Rightarrow> ptr \<Rightarrow> u8 \<Rightarrow> nat \<Rightarrow> ptr" where
  "memrchr_loop m s c 0 = nullptr"
| "memrchr_loop m s c (Suc n) =
     (if m (s + of_nat n) = c then s + of_nat n else memrchr_loop m s c n)"

definition memrchr :: "mem \<Rightarrow> ptr \<Rightarrow> u32 \<Rightarrow> usize \<Rightarrow> ptr" where
  "memrchr m s c n = memrchr_loop m s (ucast c) (unat n)"

definition byte_diff :: "u8 \<Rightarrow> u8 \<Rightarrow> int" where
  "byte_diff a b = int (unat a) - int (unat b)"

fun memcmp_loop :: "mem \<Rightarrow> ptr \<Rightarrow> ptr \<Rightarrow> nat \<Rightarrow> int" where
  "memcmp_loop m p1 p2 0 = 0"
| "memcmp_loop m p1 p2 (Suc n) =
     (let diff = byte_diff (m p1) (m p2)
      in if diff \<noteq> 0 then diff else memcmp_loop m (p1 + 1) (p2 + 1) n)"

definition memcmp :: "mem \<Rightarrow> ptr \<Rightarrow> ptr \<Rightarrow> usize \<Rightarrow> int" where
  "memcmp m s1 s2 n = memcmp_loop m s1 s2 (unat n)"

partial_function (option) strlen_loop :: "mem \<Rightarrow> ptr \<Rightarrow> ptr option" where
  "strlen_loop m p = (if 0 \<noteq> m p then strlen_loop m (p + 1) else Some (p + 1))"

definition strlen :: "mem \<Rightarrow> ptr \<Rightarrow> kerror + usize" where
  "strlen m s = bindE (endsE (strlen_loop m s)) (\<lambda>p. Inr (p - s - 1))"

function strncmp :: "mem \<Rightarrow> ptr \<Rightarrow> ptr \<Rightarrow> u32 \<Rightarrow> int" where
  "strncmp m a b n =
     (if m a \<noteq> 0 \<and> m a = m b \<and> n - 1 > 0 then strncmp m (a + 1) (b + 1) (n - 1)
      else byte_diff (m a) (m b))"
  by pat_completeness auto
termination
proof (relation "measure (\<lambda>(m, a, b, n). unat (n - 1))", goal_cases)
  case (2 m a b n)
  then have "n - 1 \<noteq> 0" by auto
  then have "unat (n - 1 - 1) = unat (n - 1) - 1" "0 < unat (n - 1)"
    by (rule unat_minus_one) (use \<open>n - 1 \<noteq> 0\<close> in \<open>simp add: unat_gt_0\<close>)
  then show ?case by (simp del: diff_diff_eq)
qed simp

declare strncmp.simps [simp del]

partial_function (option) strcmp_loop :: "mem \<Rightarrow> ptr \<Rightarrow> ptr \<Rightarrow> int option" where
  "strcmp_loop m a b =
     (if m a \<noteq> 0 \<and> m a = m b then strcmp_loop m (a + 1) (b + 1)
      else Some (byte_diff (m a) (m b)))"

definition strcmp :: "mem \<Rightarrow> ptr \<Rightarrow> ptr \<Rightarrow> kerror + int" where
  "strcmp m a b = endsE (strcmp_loop m a b)"

definition strnlen :: "mem \<Rightarrow> ptr \<Rightarrow> usize \<Rightarrow> usize" where
  "strnlen m s n = (let p = memchr m s 0 n in if p \<noteq> nullptr then p - s else n)"

definition strrchr :: "mem \<Rightarrow> ptr \<Rightarrow> u32 \<Rightarrow> kerror + ptr" where
  "strrchr m s c = bindE (strlen m s) (\<lambda>n. Inr (memrchr m s c (n + 1)))"

text \<open>The loop of \<open>strchrnul\<close> tests \<open>*s\<close>, which it never advances, and not \<open>*_s\<close>.\<close>

partial_function (option) strchrnul_loop :: "mem \<Rightarrow> ptr \<Rightarrow> ptr \<Rightarrow> u8 \<Rightarrow> ptr option" where
  "strchrnul_loop m s s' c =
     (if m s \<noteq> 0 \<and> m s' \<noteq> c then strchrnul_loop m s (s' + 1) c else Some s')"

definition strchrnul :: "mem \<Rightarrow> ptr \<Rightarrow> u32 \<Rightarrow> kerror + ptr" where
  "strchrnul m s c =
     (let c8 = ucast c :: u8
      in if c8 = 0 then bindE (strlen m s) (\<lambda>n. Inr (s + n))
         else endsE (strchrnul_loop m s s c8))"

definition strchr :: "mem \<Rightarrow> ptr \<Rightarrow> u32 \<Rightarrow> kerror + ptr" where
  "strchr m s c =
     bindE (strchrnul m s c) (\<lambda>r. Inr (if m r = ucast c then r else nullptr))"

section \<open>What the fills and copies leave in memory\<close>

lemma unat_offset_Suc:
  fixes a p :: "64 word"
  assumes "a \<noteq> p"
  shows "unat (a - p) = Suc (unat (a - (p + 1)))"
proof -
  have "a - p \<noteq> 0" using assms by simp
  then have "unat ((a - p) - 1) = unat (a - p) - 1" "0 < unat (a - p)"
    by (rule unat_minus_one) (simp add: unat_gt_0 assms)
  then show ?thesis by (simp add: diff_diff_eq)
qed

lemma in_region_Suc: "in_region a p (Suc n) \<longleftrightarrow> a = p \<or> in_region a (p + 1) n"
  by (cases "a = p") (auto simp: in_region_def unat_offset_Suc)

lemma in_region_Suc_last:
  assumes "n < 2 ^ 64"
  shows "in_region a p (Suc n) \<longleftrightarrow> in_region a p n \<or> a = p + of_nat n"
proof -
  have "unat (a - p) = n \<longleftrightarrow> a = p + of_nat n"
  proof
    assume "unat (a - p) = n"
    then have "a - p = of_nat n" by auto
    then show "a = p + of_nat n" by (simp add: diff_eq_eq)
  qed (use assms in \<open>simp add: unat_of_nat_u64\<close>)
  then show ?thesis by (auto simp: in_region_def less_Suc_eq)
qed

lemma memset_loop_eq: "memset_loop m p b n = (\<lambda>a. if in_region a p n then b else m a)"
proof (induction n arbitrary: m p)
  case 0
  then show ?case by (simp add: in_region_def)
next
  case (Suc n)
  then show ?case by (auto simp: in_region_Suc)
qed

lemma memset_eq: "memset m s b count = (\<lambda>a. if in_region a s (unat count) then b else m a)"
  by (simp add: memset_def memset_loop_eq)

text \<open>A copy with rising addresses is right unless the target starts inside the source.\<close>

lemma copy_up_eq:
  assumes "d = s \<or> n \<le> unat (d - s)"
  shows "copy_up m d s n = (\<lambda>a. if in_region a d n then m (s + (a - d)) else m a)"
  using assms
proof (induction n arbitrary: m d s)
  case 0
  then show ?case by (simp add: in_region_def)
next
  case (Suc n)
  let ?m = "m(d := m s)"
  have "copy_up ?m (d + 1) (s + 1) n =
      (\<lambda>a. if in_region a (d + 1) n then ?m (s + 1 + (a - (d + 1))) else ?m a)"
    using Suc.prems by (intro Suc.IH) auto
  moreover have "?m (s + 1 + (a - (d + 1))) = m (s + (a - d))" if "in_region a (d + 1) n" for a
  proof (cases "d = s \<or> a = d")
    case False
    then have "Suc n \<le> unat (d - s)" and "unat (a - d) \<le> n"
      using Suc.prems that by (auto simp: in_region_def unat_offset_Suc)
    then have "s + (a - d) \<noteq> d"
      by (metis add_diff_cancel_left' not_less_eq_eq)
    then show ?thesis by (simp add: algebra_simps)
  qed (auto simp: algebra_simps)
  ultimately show ?case by (auto simp: in_region_Suc fun_eq_iff)
qed

text \<open>A copy with falling addresses is right unless the source starts inside the target.\<close>

lemma copy_down_eq:
  assumes "s = d \<or> n \<le> unat (s - d)" and "n < 2 ^ 64"
  shows "copy_down m (d + of_nat n - 1) (s + of_nat n - 1) n =
    (\<lambda>a. if in_region a d n then m (s + (a - d)) else m a)"
  using assms
proof (induction n arbitrary: m)
  case 0
  then show ?case by (simp add: in_region_def)
next
  case (Suc n)
  let ?m = "m(d + of_nat n := m (s + of_nat n))"
  have "copy_down m (d + of_nat (Suc n) - 1) (s + of_nat (Suc n) - 1) (Suc n) =
      copy_down ?m (d + of_nat n - 1) (s + of_nat n - 1) n"
    by (simp add: algebra_simps)
  also have "\<dots> = (\<lambda>a. if in_region a d n then ?m (s + (a - d)) else ?m a)"
    using Suc.prems by (intro Suc.IH) auto
  also have "\<dots> = (\<lambda>a. if in_region a d n then m (s + (a - d)) else ?m a)"
  proof (rule ext)
    fix a
    have "?m (s + (a - d)) = m (s + (a - d))" if "in_region a d n"
    proof (cases "s = d")
      case False
      then have n: "Suc n \<le> unat (s - d)" "unat (a - d) < n"
        using Suc.prems that by (auto simp: in_region_def)
      have "s + (a - d) \<noteq> d + of_nat n"
      proof
        assume "s + (a - d) = d + of_nat n"
        then have "s - d = of_nat n - (a - d)" by (simp add: algebra_simps)
        moreover have "a - d \<le> of_nat n"
          using n(2) Suc.prems(2) by (simp add: word_le_nat_alt unat_of_nat_u64)
        then have "unat (of_nat n - (a - d)) \<le> n"
          using Suc.prems(2) by (subst unat_sub_u64) (simp_all add: unat_of_nat_u64)
        ultimately have "unat (s - d) \<le> n" by (simp only:)
        with n(1) show False by simp
      qed
      then show ?thesis by simp
    qed auto
    then show "(if in_region a d n then ?m (s + (a - d)) else ?m a) =
        (if in_region a d n then m (s + (a - d)) else ?m a)" by simp
  qed
  finally show ?case
    using Suc.prems(2) by (auto simp: in_region_Suc_last fun_eq_iff)
qed

lemma memcpy_eq:
  assumes "disjoint_regions dest (unat n) src (unat n)"
  shows "memcpy m dest src n =
    (\<lambda>a. if in_region a dest (unat n) then m (src + (a - dest)) else m a)"
proof -
  have "dest = src \<or> unat n \<le> unat (dest - src)"
    using assms by (metis disjoint_regions_def in_region_def in_region_self not_le_imp_less
        gr_zeroI le0)
  then show ?thesis by (simp add: memcpy_def copy_up_eq)
qed

section \<open>C strings\<close>

text \<open>
  \<open>cstr m s bs\<close>: the bytes \<open>bs\<close>, none of them NUL, stand at \<open>s\<close> and are followed by
  a NUL.
\<close>

fun cstr :: "mem \<Rightarrow> ptr \<Rightarrow> u8 list \<Rightarrow> bool" where
  "cstr m s [] \<longleftrightarrow> m s = 0"
| "cstr m s (b # bs) \<longleftrightarrow> m s = b \<and> b \<noteq> 0 \<and> cstr m (s + 1) bs"

lemma strlen_loop_cstr: "cstr m s bs \<Longrightarrow> strlen_loop m s = Some (s + of_nat (length bs) + 1)"
  by (induction bs arbitrary: s) (auto simp: strlen_loop.simps [of m] algebra_simps)

lemma strlen_cstr: "cstr m s bs \<Longrightarrow> strlen m s = Inr (of_nat (length bs))"
  by (simp add: strlen_def strlen_loop_cstr)

lemma byte_diff_0_iff [simp]: "byte_diff a b = 0 \<longleftrightarrow> a = b"
  by (simp add: byte_diff_def word_uint_eq_iff)

text \<open>The comparison of two strings with the C order: the first difference decides.\<close>

fun cstr_diff :: "u8 list \<Rightarrow> u8 list \<Rightarrow> int" where
  "cstr_diff [] [] = 0"
| "cstr_diff [] (b # bs) = byte_diff 0 b"
| "cstr_diff (a # as) [] = byte_diff a 0"
| "cstr_diff (a # as) (b # bs) = (if a = b then cstr_diff as bs else byte_diff a b)"

lemma cstr_diff_0_iff: "0 \<notin> set as \<Longrightarrow> 0 \<notin> set bs \<Longrightarrow> cstr_diff as bs = 0 \<longleftrightarrow> as = bs"
  by (induction as bs rule: cstr_diff.induct) auto

lemma cstr_no_nul: "cstr m s bs \<Longrightarrow> 0 \<notin> set bs"
  by (induction bs arbitrary: s) auto

lemma strcmp_loop_cstr:
  "cstr m a as \<Longrightarrow> cstr m b bs \<Longrightarrow> strcmp_loop m a b = Some (cstr_diff as bs)"
  by (induction as bs arbitrary: a b rule: cstr_diff.induct)
    (auto simp: strcmp_loop.simps [of m] byte_diff_def)

lemma strcmp_cstr:
  "cstr m a as \<Longrightarrow> cstr m b bs \<Longrightarrow> strcmp m a b = Inr (cstr_diff as bs)"
  by (simp add: strcmp_def strcmp_loop_cstr)

lemma memchr_loop_nul:
  assumes "cstr m s bs" and "n < 2 ^ 64" and "unat s + n < 2 ^ 64" and "0 < unat s"
  shows "memchr_loop m s 0 n = (if length bs < n then s + of_nat (length bs) else nullptr)"
  using assms
proof (induction bs arbitrary: s n)
  case Nil
  then show ?case by (cases n) auto
next
  case (Cons b bs)
  show ?case
  proof (cases n)
    case (Suc k)
    have "unat (s + 1) = unat s + 1"
      using Cons.prems Suc by (subst unat_add_u64) auto
    then have "memchr_loop m (s + 1) 0 k =
        (if length bs < k then s + 1 + of_nat (length bs) else nullptr)"
      using Cons.prems Suc by (intro Cons.IH) auto
    with Suc Cons.prems(1) show ?thesis by (auto simp: algebra_simps)
  qed simp
qed

text \<open>\<open>strnlen\<close> is the length of the string, cut off at the bound.\<close>

lemma strnlen_cstr:
  assumes "cstr m s bs" and "unat s + unat n < 2 ^ 64" and "s \<noteq> nullptr"
  shows "strnlen m s n = (if length bs < unat n then of_nat (length bs) else n)"
proof -
  have "0 < unat s" using assms(3) by (simp add: unat_gt_0)
  then have eq: "memchr m s 0 n = (if length bs < unat n then s + of_nat (length bs) else nullptr)"
    using assms unat_lt_u64 [of n] by (simp add: memchr_def memchr_loop_nul)
  have "s + of_nat (length bs) \<noteq> 0" if "length bs < unat n"
  proof -
    have "unat (s + of_nat (length bs)) = unat s + length bs"
      using that assms(2) by (subst unat_add_u64) (auto simp: unat_of_nat_u64)
    then show ?thesis using \<open>0 < unat s\<close> by (metis add_is_0 not_gr_zero unat_0)
  qed
  then show ?thesis by (simp add: strnlen_def eq Let_def)
qed

section \<open>Properties\<close>

text \<open>
  C22. \<open>memmove\<close> copies the \<open>len\<close> original bytes of the source to the destination and changes
  nothing else, however the two regions overlap, as long as neither wraps around the end of the
  address space.
\<close>

theorem memmove_copies_original:
  assumes "unat dest + unat len \<le> 2 ^ 64" and "unat src + unat len \<le> 2 ^ 64"
  shows "memmove m dest src len =
    (\<lambda>a. if in_region a dest (unat len) then m (src + (a - dest)) else m a)"
proof (cases "dest < src")
  case True
  then have "unat (dest - src) = unat dest + 2 ^ 64 - unat src"
    by (simp add: unat_sub_if' word_less_nat_alt)
  then have "unat len \<le> unat (dest - src)"
    using assms(2) by simp
  with True show ?thesis by (simp add: memmove_def copy_up_eq)
next
  case False
  have "src = dest \<or> unat len \<le> unat (src - dest)"
  proof (cases "src = dest")
    case False
    with \<open>\<not> dest < src\<close> have "unat src < unat dest"
      by (simp add: word_less_nat_alt word_unat_eq_iff)
    then have "unat (src - dest) = unat src + 2 ^ 64 - unat dest"
      by (simp add: unat_sub_if')
    then have "unat len \<le> unat (src - dest)" using assms(1) by simp
    then show ?thesis ..
  qed simp
  then have "copy_down m (dest + of_nat (unat len) - 1) (src + of_nat (unat len) - 1) (unat len) =
      (\<lambda>a. if in_region a dest (unat len) then m (src + (a - dest)) else m a)"
    using unat_lt_u64 [of len] by (rule copy_down_eq)
  moreover have "dest + (len - 1) = dest + of_nat (unat len) - 1"
    and "src + (len - 1) = src + of_nat (unat len) - 1" by simp_all
  ultimately show ?thesis
    using False by (simp only: memmove_def if_False)
qed

definition ramp :: mem where
  "ramp = (\<lambda>a. ucast a)"

theorem memmove_copies_original_witness:
  "unat (101 :: 64 word) + unat (3 :: 64 word) \<le> 2 ^ 64 \<and>
   unat (100 :: 64 word) + unat (3 :: 64 word) \<le> 2 ^ 64 \<and>
   memmove ramp 101 100 3 =
     (\<lambda>a. if in_region a 101 (unat (3 :: 64 word)) then ramp (100 + (a - 101)) else ramp a)"
  using memmove_copies_original [of 101 3 100 ramp] by simp

text \<open>
  on two C strings \<open>strcmp\<close> always returns, and returns 0 exactly when the strings are equal.
\<close>

lemma strcmp_zero_iff_equal:
  assumes "cstr m a as" and "cstr m b bs"
  shows "\<exists>r. strcmp m a b = Inr r \<and> (r = 0 \<longleftrightarrow> as = bs)"
  using assms by (auto simp: strcmp_cstr cstr_diff_0_iff cstr_no_nul)

definition two_strings :: mem where
  "two_strings = (\<lambda>_. 0)(10 := 104, 11 := 105, 20 := 104, 21 := 111)"

text \<open>
  Two deviations from the C library.  With a bound of 0 \<open>strncmp\<close> still compares (the bound
  wraps), and \<open>strchr\<close> runs over the terminating NUL: looking for a character that the string
  does not contain, it returns a pointer behind the end of the string.
\<close>

lemma strncmp_bound_0: "strncmp two_strings 10 20 0 = -6"
  by (simp add: strncmp.simps two_strings_def byte_diff_def word_gt_0)

lemma strchr_past_the_end:
  "cstr two_strings 10 [104, 105] \<and> strchr two_strings 10 111 = Inr 21"
  by (simp add: strchr_def strchrnul_def two_strings_def strchrnul_loop.simps)

end
