(* ===== verification/Common_Defs.thy ===== *)
theory Common_Defs
  imports Kaworu_Prelude
begin

text \<open>
  The macros of \<open>lib/include/common_defs.h\<close>, the error numbers and error pointers of
  \<open>lib/include/error.h\<close> with \<open>lib/error.c\<close>, and the constants of
  \<open>kernel/include/memlayout.h\<close>.  The lemmas say what the bit tricks compute: rounding to a
  power of two in terms of \<open>div\<close>, and that the nine topmost addresses, and no others,
  are error pointers, so that page aligned pointers never are.
\<close>

section \<open>Rounding, alignment and bits (common\_defs.h)\<close>

definition round_mask :: "usize \<Rightarrow> usize" where
  "round_mask y = y - 1"

definition round_up :: "usize \<Rightarrow> usize \<Rightarrow> usize" where
  "round_up x y = ((x - 1) OR round_mask y) + 1"

definition round_down :: "usize \<Rightarrow> usize \<Rightarrow> usize" where
  "round_down x y = x AND NOT (round_mask y)"

definition div_round_up :: "usize \<Rightarrow> usize \<Rightarrow> usize" where
  "div_round_up n d = (n + d - 1) div d"

definition IS_ALIGNED :: "usize \<Rightarrow> usize \<Rightarrow> bool" where
  "IS_ALIGNED v a \<longleftrightarrow> v mod a = 0"

definition BIT :: "nat \<Rightarrow> u64" where
  "BIT n = push_bit n 1"

definition SET_BIT :: "'a::len word \<Rightarrow> usize \<Rightarrow> 'a word" where
  "SET_BIT v i = v OR push_bit (unat i) 1"

definition CLEAR_BIT :: "'a::len word \<Rightarrow> usize \<Rightarrow> 'a word" where
  "CLEAR_BIT v i = v AND NOT (push_bit (unat i) 1)"

definition GET_BIT :: "'a::len word \<Rightarrow> usize \<Rightarrow> bool" where
  "GET_BIT v i \<longleftrightarrow> drop_bit (unat i) v AND 1 \<noteq> 0"

definition EXTRACT_BITS :: "u64 \<Rightarrow> nat \<Rightarrow> nat \<Rightarrow> u64" where
  "EXTRACT_BITS v high low = drop_bit low v AND (push_bit (high - low + 1) 1 - 1)"

definition container_of_impl :: "ptr \<Rightarrow> usize \<Rightarrow> ptr" where
  "container_of_impl p off = p - off"

section \<open>Memory layout (memlayout.h)\<close>

definition PAGE_SIZE :: usize where
  "PAGE_SIZE = 4096"

definition IS_PAGE_ALIGNED :: "usize \<Rightarrow> bool" where
  "IS_PAGE_ALIGNED v \<longleftrightarrow> IS_ALIGNED v PAGE_SIZE"

definition KERNEL_VM_RANGE_BASE :: usize where
  "KERNEL_VM_RANGE_BASE = 0xffffffffa0000000"

definition KERNEL_VM_RANGE_SIZE :: usize where
  "KERNEL_VM_RANGE_SIZE = push_bit 30 1"

definition KERNEL_MMIO_RANGE_START :: usize where
  "KERNEL_MMIO_RANGE_START = 0xffffffff90000000"

definition KERNEL_MMIO_RANGE_SIZE :: usize where
  "KERNEL_MMIO_RANGE_SIZE = push_bit 20 256"

section \<open>Error numbers and error pointers (error.h, error.c)\<close>

datatype errno =
  EOK | ENOMEM | EINVAL | ENODEV | ENOENT | EBUSY | EPERM | ENOSYS | EFAULT | EMAXERR

fun errnum :: "errno \<Rightarrow> 64 word" where
  "errnum EOK = 0"
| "errnum ENOMEM = 1"
| "errnum EINVAL = 2"
| "errnum ENODEV = 3"
| "errnum ENOENT = 4"
| "errnum EBUSY = 5"
| "errnum EPERM = 6"
| "errnum ENOSYS = 7"
| "errnum EFAULT = 8"
| "errnum EMAXERR = 9"

definition error_strings :: "string list" where
  "error_strings = [''EOK'', ''ENOMEM'', ''EINVAL'', ''ENODEV'', ''ENOENT'', ''EBUSY'',
     ''EPERM'', ''ENOSYS'', ''EFAULT'', ''EMAXERR'']"

definition IS_ERR :: "ptr \<Rightarrow> bool" where
  "IS_ERR p \<longleftrightarrow> p \<ge> - errnum EMAXERR"

definition ERR_TO_PTR :: "64 word \<Rightarrow> ptr" where
  "ERR_TO_PTR error = error"

definition PTR_TO_ERR :: "ptr \<Rightarrow> 64 word" where
  "PTR_TO_ERR p = p"

definition PTR_ERR_OR_OK :: "ptr \<Rightarrow> 64 word" where
  "PTR_ERR_OR_OK p = (if IS_ERR p then PTR_TO_ERR p else errnum EOK)"

text \<open>Reading \<open>error_strings\<close> outside its ten entries is an out-of-bounds access.\<close>

definition str_err_raw :: "64 word \<Rightarrow> kerror + string" where
  "str_err_raw err =
     (if unat err < length error_strings then Inr (error_strings ! unat err)
      else Inl (Fault err))"

definition str_err :: "64 word \<Rightarrow> kerror + string" where
  "str_err err =
     (let err = (if sint err < 0 then - err else err)
      in if sint err \<ge> sint (errnum EOK) \<and> sint err \<le> sint (errnum EMAXERR)
         then str_err_raw err else Inr ''nil'')"

section \<open>What the macros compute\<close>

lemma round_mask_pow2: "round_mask (2 ^ k) = mask k"
  by (simp add: round_mask_def mask_eq_exp_minus_1)

lemma and_not_mask: "(x :: 64 word) AND NOT (mask k) = push_bit k (drop_bit k x)"
  by (rule bit_word_eqI) (auto simp: bit_simps)

lemma and_not_mask_add: "(x :: 64 word) AND NOT (mask k) = x - take_bit k x"
  unfolding and_not_mask using bits_ident [of k x] by (simp add: eq_diff_eq)

lemma unat_take_bit: "unat (take_bit k (x :: 64 word)) = unat x mod 2 ^ k"
  by (subst unsigned_take_bit_eq) (rule take_bit_eq_mod)

lemma unat_and_not_mask: "unat ((x :: 64 word) AND NOT (mask k)) = unat x div 2 ^ k * 2 ^ k"
proof -
  have "take_bit k x \<le> x"
    by (simp add: word_le_nat_alt unat_take_bit)
  then have "unat (x - take_bit k x) = unat x - unat x mod 2 ^ k"
    by (simp add: unat_sub unat_take_bit)
  then show ?thesis
    by (simp add: and_not_mask_add minus_mod_eq_div_mult)
qed

lemma or_mask_add: "(z :: 64 word) OR mask k = (z AND NOT (mask k)) + mask k"
proof -
  have "(z AND NOT (mask k)) AND mask k = 0"
    by (rule bit_word_eqI) (auto simp: bit_simps)
  then have "(z AND NOT (mask k)) + mask k = (z AND NOT (mask k)) OR mask k"
    by (simp add: disjunctive_add_eq_or)
  also have "\<dots> = z OR mask k"
    by (rule bit_word_eqI) (auto simp: bit_simps)
  finally show ?thesis by simp
qed

lemma unat_round_down:
  "unat (round_down x (2 ^ k)) = unat x div 2 ^ k * 2 ^ k"
  by (simp add: round_down_def round_mask_pow2 unat_and_not_mask)

text \<open>
  Rounding up gives the least multiple of \<open>2 ^ k\<close> that is not below \<open>x\<close>, as long as
  that multiple is a 64-bit value; otherwise it wraps to 0.
\<close>

lemma round_up_eq:
  "round_up x (2 ^ k) = ((x - 1) AND NOT (mask k)) + 2 ^ k"
proof -
  have "round_up x (2 ^ k) = ((x - 1) AND NOT (mask k)) + mask k + 1"
    by (simp only: round_up_def round_mask_pow2 or_mask_add)
  moreover have "mask k + 1 = (2 ^ k :: 64 word)"
    by (simp add: mask_eq_exp_minus_1)
  ultimately show ?thesis by (simp only: add.assoc)
qed

lemma unat_round_up:
  assumes "k < 64" and "(unat x + 2 ^ k - 1) div 2 ^ k * 2 ^ k < 2 ^ 64"
  shows "unat (round_up x (2 ^ k)) = (unat x + 2 ^ k - 1) div 2 ^ k * 2 ^ k"
proof (cases "x = 0")
  case True
  have "(- 1 :: 64 word) AND NOT (mask k) = - (2 ^ k)"
    by (simp flip: minus_exp_eq_not_mask)
  with True show ?thesis by (simp add: round_up_eq)
next
  case False
  then have x: "unat (x - 1) = unat x - 1" "1 \<le> unat x"
    by (simp_all add: unat_minus_one unat_gt_0 Suc_leI)
  have p: "unat (2 ^ k :: 64 word) = 2 ^ k"
    using unat_of_nat_u64 [OF power_strict_increasing [OF assms(1), of 2]] by simp
  have q: "(unat x + 2 ^ k - 1) div 2 ^ k = (unat x - 1) div 2 ^ k + 1"
    using x(2) by (simp add: div_add_self2 flip: Nat.add_diff_assoc2)
  have "unat ((x - 1) AND NOT (mask k)) + unat (2 ^ k :: 64 word) < 2 ^ 64"
    using assms(2) unfolding q by (simp add: unat_and_not_mask x p)
  then show ?thesis
    unfolding q by (simp add: round_up_eq unat_add_u64 unat_and_not_mask x p)
qed

lemma GET_BIT_iff: "GET_BIT v i \<longleftrightarrow> bit v (unat i)"
  by (simp add: GET_BIT_def and_one_eq even_drop_bit_iff_not_bit flip: odd_iff_mod_2_eq_one)

lemma GET_SET_BIT:
  fixes v :: "'a::len word"
  assumes "unat i < LENGTH('a)"
  shows "GET_BIT (SET_BIT v i) j \<longleftrightarrow> i = j \<or> GET_BIT v j"
  using assms by (auto simp: GET_BIT_iff SET_BIT_def bit_simps word_unat_eq_iff)

lemma GET_CLEAR_BIT:
  fixes v :: "'a::len word"
  assumes "unat i < LENGTH('a)"
  shows "GET_BIT (CLEAR_BIT v i) j \<longleftrightarrow> i \<noteq> j \<and> GET_BIT v j"
  using assms by (auto simp: GET_BIT_iff CLEAR_BIT_def bit_simps word_unat_eq_iff
      dest: bit_imp_le_length)

lemma PAGE_SIZE_pow2: "PAGE_SIZE = 2 ^ 12"
  by (simp add: PAGE_SIZE_def)

lemma unat_PAGE_SIZE [simp]: "unat PAGE_SIZE = 4096"
  by (simp add: PAGE_SIZE_def)

lemma IS_PAGE_ALIGNED_iff: "IS_PAGE_ALIGNED v \<longleftrightarrow> unat v mod 4096 = 0"
  by (simp add: IS_PAGE_ALIGNED_def IS_ALIGNED_def word_unat_eq_iff unat_mod)

section \<open>Error pointers\<close>

lemma IS_ERR_iff: "IS_ERR p \<longleftrightarrow> 2 ^ 64 - 9 \<le> unat p"
  by (simp add: IS_ERR_def word_le_nat_alt)

lemma not_IS_ERR_aligned: "IS_PAGE_ALIGNED p \<Longrightarrow> \<not> IS_ERR p"
proof
  assume "IS_PAGE_ALIGNED p" and err: "IS_ERR p"
  then obtain k where k: "unat p = 4096 * k"
    by (auto simp: IS_PAGE_ALIGNED_iff mod_eq_0_iff_dvd)
  then have "k < 4503599627370496"
    using unat_lt_u64 [of p] by simp
  with k err show False
    by (simp add: IS_ERR_iff)
qed

lemma IS_ERR_errnum [simp]: "IS_ERR (ERR_TO_PTR (- errnum e)) \<longleftrightarrow> e \<noteq> EOK"
  by (cases e) (simp_all add: IS_ERR_def ERR_TO_PTR_def)

end
