(* ===== verification/Intrusive_List.thy ===== *)
theory Intrusive_List
  imports Common_Defs
begin

text \<open>
  The doubly linked intrusive list of \<open>lib/ds/intrusivelist.c\<close>.  The nodes live inside the
  objects of the client, so they are kept in a store from addresses to nodes, and the
  operations update fields of that store in the order of the C code; an access to an address
  that holds no node is a \<open>Fault\<close>.  \<open>il_rep\<close> relates a list header and a store to the
  sequence of node addresses that they represent; the lemmas show that every operation
  implements the operation of the same name on sequences and leaves all other nodes alone.
  The locale \<open>node_queue\<close> is the contract the queues of the scheduler rely on.
\<close>

section \<open>Nodes, headers and operations\<close>

record intrusive_node =
  n_next :: ptr
  n_prev :: ptr

record intrusive_list =
  il_head :: ptr
  il_tail :: ptr
  il_count :: usize

type_synonym nodes = "ptr \<rightharpoonup> intrusive_node"

definition node_at :: "nodes \<Rightarrow> ptr \<Rightarrow> kerror + intrusive_node" where
  "node_at h p = (case h p of None \<Rightarrow> Inl (Fault p)
     | Some n \<Rightarrow> if p = nullptr then Inl (Fault p) else Inr n)"

definition set_next :: "ptr \<Rightarrow> ptr \<Rightarrow> nodes \<Rightarrow> kerror + nodes" where
  "set_next p q h = bindE (node_at h p) (\<lambda>n. Inr (h(p \<mapsto> n\<lparr>n_next := q\<rparr>)))"

definition set_prev :: "ptr \<Rightarrow> ptr \<Rightarrow> nodes \<Rightarrow> kerror + nodes" where
  "set_prev p q h = bindE (node_at h p) (\<lambda>n. Inr (h(p \<mapsto> n\<lparr>n_prev := q\<rparr>)))"

definition intrusivelist_node_init :: "ptr \<Rightarrow> nodes \<Rightarrow> kerror + nodes" where
  "intrusivelist_node_init p h = bindE (set_next p nullptr h) (set_prev p nullptr)"

definition intrusivelist_init :: intrusive_list where
  "intrusivelist_init = \<lparr>il_head = nullptr, il_tail = nullptr, il_count = 0\<rparr>"

definition intrusivelist_insert_head ::
  "intrusive_list \<Rightarrow> ptr \<Rightarrow> nodes \<Rightarrow> kerror + intrusive_list \<times> nodes" where
  "intrusivelist_insert_head il node h =
     bindE (set_next node (il_head il) h) (\<lambda>h.
     bindE (set_prev node nullptr h) (\<lambda>h.
     bindE (if il_head il \<noteq> nullptr
            then bindE (set_prev (il_head il) node h) (\<lambda>h. Inr (il, h))
            else Inr (il\<lparr>il_tail := node\<rparr>, h)) (\<lambda>(il, h).
     Inr (il\<lparr>il_count := il_count il + 1, il_head := node\<rparr>, h))))"

definition intrusivelist_insert_tail ::
  "intrusive_list \<Rightarrow> ptr \<Rightarrow> nodes \<Rightarrow> kerror + intrusive_list \<times> nodes" where
  "intrusivelist_insert_tail il node h =
     bindE (set_next node nullptr h) (\<lambda>h.
     bindE (set_prev node (il_tail il) h) (\<lambda>h.
     bindE (if il_tail il \<noteq> nullptr
            then bindE (set_next (il_tail il) node h) (\<lambda>h. Inr (il, h))
            else Inr (il\<lparr>il_head := node\<rparr>, h)) (\<lambda>(il, h).
     Inr (il\<lparr>il_tail := node, il_count := il_count il + 1\<rparr>, h))))"

definition intrusivelist_remove ::
  "intrusive_list \<Rightarrow> ptr \<Rightarrow> nodes \<Rightarrow> kerror + intrusive_list \<times> nodes" where
  "intrusivelist_remove il node h =
     bindE (node_at h node) (\<lambda>n.
     bindE (if n_prev n \<noteq> nullptr
            then bindE (set_next (n_prev n) (n_next n) h) (\<lambda>h. Inr (il, h))
            else Inr (il\<lparr>il_head := n_next n\<rparr>, h)) (\<lambda>(il, h).
     bindE (node_at h node) (\<lambda>n.
     bindE (if n_next n \<noteq> nullptr
            then bindE (set_prev (n_next n) (n_prev n) h) (\<lambda>h. Inr (il, h))
            else Inr (il\<lparr>il_tail := n_prev n\<rparr>, h)) (\<lambda>(il, h).
     bindE (set_next node nullptr h) (\<lambda>h.
     bindE (set_prev node nullptr h) (\<lambda>h.
     Inr (il\<lparr>il_count := il_count il - 1\<rparr>, h)))))))"

definition intrusivelist_remove_head ::
  "intrusive_list \<Rightarrow> nodes \<Rightarrow> kerror + ptr \<times> intrusive_list \<times> nodes" where
  "intrusivelist_remove_head il h =
     (let current_head = il_head il in
      if current_head = nullptr then Inr (nullptr, il, h)
      else
        bindE (node_at h current_head) (\<lambda>n.
        let il = il\<lparr>il_head := n_next n\<rparr> in
        bindE (if il_head il \<noteq> nullptr
               then bindE (set_prev (il_head il) nullptr h) (\<lambda>h. Inr (il, h))
               else Inr (il\<lparr>il_tail := nullptr\<rparr>, h)) (\<lambda>(il, h).
        bindE (set_next current_head nullptr h) (\<lambda>h.
        bindE (set_prev current_head nullptr h) (\<lambda>h.
        Inr (current_head, il\<lparr>il_count := il_count il - 1\<rparr>, h))))))"

definition intrusivelist_remove_tail ::
  "intrusive_list \<Rightarrow> nodes \<Rightarrow> kerror + ptr \<times> intrusive_list \<times> nodes" where
  "intrusivelist_remove_tail il h =
     (let current_tail = il_tail il in
      bindE (node_at h current_tail) (\<lambda>n.
      let il = il\<lparr>il_tail := n_prev n\<rparr> in
      bindE (if il_tail il \<noteq> nullptr
             then bindE (set_next (il_tail il) nullptr h) (\<lambda>h. Inr (il, h))
             else Inr (il\<lparr>il_head := nullptr\<rparr>, h)) (\<lambda>(il, h).
      bindE (set_next current_tail nullptr h) (\<lambda>h.
      bindE (set_prev current_tail nullptr h) (\<lambda>h.
      Inr (current_tail, il\<lparr>il_count := il_count il - 1\<rparr>, h))))))"

definition intrusivelist_peek_head :: "intrusive_list \<Rightarrow> ptr" where
  "intrusivelist_peek_head il = (if il_head il = nullptr then nullptr else il_head il)"

definition intrusivelist_peek_tail :: "intrusive_list \<Rightarrow> ptr" where
  "intrusivelist_peek_tail il = (if il_tail il = nullptr then nullptr else il_tail il)"

definition intrusivelist_count :: "intrusive_list \<Rightarrow> usize" where
  "intrusivelist_count il = il_count il"

definition intrusivelist_is_empty :: "intrusive_list \<Rightarrow> bool" where
  "intrusivelist_is_empty il \<longleftrightarrow> il_count il = 0"

section \<open>The sequence a list represents\<close>

definition first_of :: "ptr list \<Rightarrow> ptr \<Rightarrow> ptr" where
  "first_of xs d = (case xs of [] \<Rightarrow> d | x # _ \<Rightarrow> x)"

definition last_of :: "ptr \<Rightarrow> ptr list \<Rightarrow> ptr" where
  "last_of d xs = (if xs = [] then d else last xs)"

fun dlseg :: "nodes \<Rightarrow> ptr \<Rightarrow> ptr list \<Rightarrow> ptr \<Rightarrow> bool" where
  "dlseg h pv [] nx \<longleftrightarrow> True"
| "dlseg h pv (x # xs) nx \<longleftrightarrow>
     x \<noteq> nullptr \<and> h x = Some \<lparr>n_next = first_of xs nx, n_prev = pv\<rparr> \<and> dlseg h x xs nx"

definition il_rep :: "intrusive_list \<Rightarrow> nodes \<Rightarrow> ptr list \<Rightarrow> bool" where
  "il_rep il h xs \<longleftrightarrow> distinct xs \<and> dlseg h nullptr xs nullptr \<and>
     il_head il = first_of xs nullptr \<and> il_tail il = last_of nullptr xs \<and>
     il_count il = of_nat (length xs)"

lemma first_of_simps [simp]: "first_of [] d = d" "first_of (x # xs) d = x"
  by (simp_all add: first_of_def)

lemma first_of_append [simp]: "first_of (xs @ ys) d = first_of xs (first_of ys d)"
  by (cases xs) simp_all

lemma last_of_simps [simp]: "last_of d [] = d" "last_of d (x # xs) = last_of x xs"
  by (simp_all add: last_of_def)

lemma last_of_append [simp]: "last_of d (xs @ ys) = last_of (last_of d xs) ys"
  by (simp add: last_of_def)

lemma dlseg_append [simp]:
  "dlseg h pv (xs @ ys) nx \<longleftrightarrow>
   dlseg h pv xs (first_of ys nx) \<and> dlseg h (last_of pv xs) ys nx"
  by (induction xs arbitrary: pv) auto

lemma dlseg_cong:
  "(\<And>x. x \<in> set xs \<Longrightarrow> h x = h' x) \<Longrightarrow> dlseg h pv xs nx \<longleftrightarrow> dlseg h' pv xs nx"
  by (induction xs arbitrary: pv) auto

lemma dlseg_upd [simp]: "p \<notin> set xs \<Longrightarrow> dlseg (h(p := v)) pv xs nx \<longleftrightarrow> dlseg h pv xs nx"
  by (rule dlseg_cong) auto

lemma dlseg_nonnull: "dlseg h pv xs nx \<Longrightarrow> nullptr \<notin> set xs"
  by (induction xs arbitrary: pv) auto

lemma node_update_both [simp]:
  "(n :: intrusive_node)\<lparr>n_next := p, n_prev := q\<rparr> = \<lparr>n_next = p, n_prev = q\<rparr>"
  by (cases n) simp

lemma node_at_Some [simp]: "h p = Some n \<Longrightarrow> p \<noteq> nullptr \<Longrightarrow> node_at h p = Inr n"
  by (simp add: node_at_def)

lemma node_at_null [simp]: "node_at h nullptr = Inl (Fault nullptr)"
  by (simp add: node_at_def split: option.split)

text \<open>Store updates at the two ends of a segment.\<close>

lemma dlseg_set_prev:
  "dlseg h pv (x # xs) nx \<Longrightarrow> x \<notin> set xs \<Longrightarrow>
   dlseg (h(x \<mapsto> \<lparr>n_next = first_of xs nx, n_prev = pv'\<rparr>)) pv' (x # xs) nx"
  by simp

lemma dlseg_set_next:
  "dlseg h pv (xs @ [x]) nx \<Longrightarrow> x \<notin> set xs \<Longrightarrow>
   dlseg (h(x \<mapsto> \<lparr>n_next = nx', n_prev = last_of pv xs\<rparr>)) pv (xs @ [x]) nx'"
  by simp

lemma length_nodes:
  assumes "il_rep il h xs"
  shows "length xs < 2 ^ 64"
proof -
  have "distinct (nullptr # xs)"
    using assms by (auto simp: il_rep_def dest: dlseg_nonnull)
  then have "card (set (nullptr # xs)) = Suc (length xs)"
    by (metis distinct_card length_Cons)
  moreover have "card (set (nullptr # xs)) \<le> card (UNIV :: 64 word set)"
    by (rule card_mono) auto
  ultimately show ?thesis by (simp add: card_word)
qed

section \<open>Every operation implements its counterpart on sequences\<close>

text \<open>\<open>only_nodes S h h'\<close>: the stores hold nodes at the same addresses and differ on \<open>S\<close> at most.\<close>

definition only_nodes :: "ptr set \<Rightarrow> nodes \<Rightarrow> nodes \<Rightarrow> bool" where
  "only_nodes S h h' \<longleftrightarrow> dom h' = dom h \<and> (\<forall>p. p \<notin> S \<longrightarrow> h' p = h p)"

lemma only_nodesD: "only_nodes S h h' \<Longrightarrow> p \<notin> S \<Longrightarrow> h' p = h p"
  by (simp add: only_nodes_def)

lemma only_nodes_dom: "only_nodes S h h' \<Longrightarrow> p \<in> dom h' \<longleftrightarrow> p \<in> dom h"
  by (simp add: only_nodes_def)

lemma il_rep_frame:
  assumes "il_rep il h xs" and "only_nodes S h h'" and "set xs \<inter> S = {}"
  shows "il_rep il h' xs"
proof -
  have "dlseg h' nullptr xs nullptr \<longleftrightarrow> dlseg h nullptr xs nullptr"
    using assms(2,3) by (intro dlseg_cong only_nodesD) auto
  with assms(1) show ?thesis by (simp add: il_rep_def)
qed

lemma il_rep_init: "il_rep intrusivelist_init h []"
  by (simp add: il_rep_def intrusivelist_init_def)

lemma il_rep_Nil_iff: "il_rep il h [] \<longleftrightarrow> il = intrusivelist_init"
  by (cases il) (auto simp: il_rep_def intrusivelist_init_def)

lemma il_rep_in_store: "il_rep il h xs \<Longrightarrow> x \<in> set xs \<Longrightarrow> x \<in> dom h \<and> x \<noteq> nullptr"
  by (auto simp: il_rep_def in_set_conv_decomp)

lemma il_rep_distinct: "il_rep il h xs \<Longrightarrow> distinct xs"
  by (simp add: il_rep_def)

lemma node_init_store:
  assumes "p \<in> dom h" and "p \<noteq> nullptr"
  shows "intrusivelist_node_init p h = Inr (h(p \<mapsto> \<lparr>n_next = nullptr, n_prev = nullptr\<rparr>))"
  using assms by (auto simp: intrusivelist_node_init_def set_next_def set_prev_def)

text \<open>Detached nodes (neither in a list nor linked) are what the removals leave behind.\<close>

abbreviation detached :: intrusive_node where
  "detached \<equiv> \<lparr>n_next = nullptr, n_prev = nullptr\<rparr>"

lemma insert_tail_rep:
  assumes rep: "il_rep il h xs" and node: "node \<noteq> nullptr" "node \<in> dom h" "node \<notin> set xs"
  shows "\<exists>il' h'. intrusivelist_insert_tail il node h = Inr (il', h') \<and>
    il_rep il' h' (xs @ [node]) \<and> only_nodes (insert node (set xs)) h h'"
proof (cases xs rule: rev_cases)
  case Nil
  with assms show ?thesis
    by (auto simp: intrusivelist_insert_tail_def set_next_def set_prev_def il_rep_def only_nodes_def)
next
  case (snoc ys y)
  from node(2) obtain n where n: "h node = Some n" by auto
  let ?h1 = "h(node \<mapsto> \<lparr>n_next = nullptr, n_prev = y\<rparr>)"
  let ?h2 = "?h1(y \<mapsto> \<lparr>n_next = node, n_prev = last_of nullptr ys\<rparr>)"
  have y: "y \<noteq> nullptr" "y \<noteq> node" "y \<notin> set ys" "il_tail il = y"
    "h y = Some \<lparr>n_next = nullptr, n_prev = last_of nullptr ys\<rparr>" "dlseg h nullptr ys y"
    using rep node snoc by (auto simp: il_rep_def)
  have "intrusivelist_insert_tail il node h =
      Inr (il\<lparr>il_tail := node, il_count := il_count il + 1\<rparr>, ?h2)"
    using y n node by (simp add: intrusivelist_insert_tail_def set_next_def set_prev_def)
  moreover have "il_rep (il\<lparr>il_tail := node, il_count := il_count il + 1\<rparr>) ?h2 (xs @ [node])"
    using y rep node snoc by (auto simp: il_rep_def)
  moreover have "only_nodes (insert node (set xs)) h ?h2"
    using snoc node y by (auto simp: only_nodes_def)
  ultimately show ?thesis by blast
qed

lemma insert_head_rep:
  assumes rep: "il_rep il h xs" and node: "node \<noteq> nullptr" "node \<in> dom h" "node \<notin> set xs"
  shows "\<exists>il' h'. intrusivelist_insert_head il node h = Inr (il', h') \<and>
    il_rep il' h' (node # xs) \<and> only_nodes (insert node (set xs)) h h'"
proof (cases xs)
  case Nil
  with assms show ?thesis
    by (auto simp: intrusivelist_insert_head_def set_next_def set_prev_def il_rep_def only_nodes_def)
next
  case (Cons y ys)
  from node(2) obtain n where n: "h node = Some n" by auto
  let ?h1 = "h(node \<mapsto> \<lparr>n_next = y, n_prev = nullptr\<rparr>)"
  let ?h2 = "?h1(y \<mapsto> \<lparr>n_next = first_of ys nullptr, n_prev = node\<rparr>)"
  have y: "y \<noteq> nullptr" "y \<noteq> node" "y \<notin> set ys" "il_head il = y"
    "h y = Some \<lparr>n_next = first_of ys nullptr, n_prev = nullptr\<rparr>" "dlseg h y ys nullptr"
    using rep node Cons by (auto simp: il_rep_def)
  have "intrusivelist_insert_head il node h =
      Inr (il\<lparr>il_count := il_count il + 1, il_head := node\<rparr>, ?h2)"
    using y n node by (simp add: intrusivelist_insert_head_def set_next_def set_prev_def)
  moreover have "il_rep (il\<lparr>il_count := il_count il + 1, il_head := node\<rparr>) ?h2 (node # xs)"
    using y rep node Cons by (auto simp: il_rep_def)
  moreover have "only_nodes (insert node (set xs)) h ?h2"
    using Cons node y by (auto simp: only_nodes_def)
  ultimately show ?thesis by blast
qed

text \<open>
  Unlinking \<open>x\<close> from between \<open>as\<close> and \<open>bs\<close>: the store after the neighbours have been
  joined and \<open>x\<close> has been detached.
\<close>

definition unlinked :: "nodes \<Rightarrow> ptr list \<Rightarrow> ptr \<Rightarrow> ptr list \<Rightarrow> nodes" where
  "unlinked h as x bs =
     (let h1 = (if as = [] then h
                else h(last as \<mapsto> \<lparr>n_next = first_of bs nullptr,
                        n_prev = last_of nullptr (butlast as)\<rparr>));
          h2 = (if bs = [] then h1
                else h1(hd bs \<mapsto> \<lparr>n_next = first_of (tl bs) nullptr, n_prev = last_of nullptr as\<rparr>))
      in h2(x \<mapsto> detached))"

lemma unlinked_rep:
  assumes "il_rep il h (as @ x # bs)"
  shows "distinct (as @ bs)" and "dlseg (unlinked h as x bs) nullptr (as @ bs) nullptr"
    and "unlinked h as x bs x = Some detached"
    and "only_nodes (set (as @ x # bs)) h (unlinked h as x bs)"
  using assms
  by (cases as rule: rev_cases; cases bs;
      auto simp: il_rep_def unlinked_def only_nodes_def Let_def)+

lemma remove_rep:
  assumes rep: "il_rep il h (as @ x # bs)"
  shows "\<exists>il'. intrusivelist_remove il x h = Inr (il', unlinked h as x bs) \<and>
    il_rep il' (unlinked h as x bs) (as @ bs)"
proof -
  let ?il = "\<lparr>il_head = first_of (as @ bs) nullptr, il_tail = last_of nullptr (as @ bs),
      il_count = of_nat (length (as @ bs))\<rparr>"
  have "intrusivelist_remove il x h = Inr (?il, unlinked h as x bs)"
    using rep
    by (cases il; cases as rule: rev_cases; cases bs)
      (auto simp: il_rep_def unlinked_def Let_def intrusivelist_remove_def set_next_def set_prev_def
        fun_upd_twist)
  moreover have "il_rep ?il (unlinked h as x bs) (as @ bs)"
    using unlinked_rep [OF rep] by (simp add: il_rep_def)
  ultimately show ?thesis by blast
qed

lemma remove_head_rep:
  assumes rep: "il_rep il h (x # xs)"
  shows "\<exists>il'. intrusivelist_remove_head il h = Inr (x, il', unlinked h [] x xs) \<and>
    il_rep il' (unlinked h [] x xs) xs"
proof -
  let ?il = "\<lparr>il_head = first_of xs nullptr, il_tail = last_of nullptr xs,
      il_count = of_nat (length xs)\<rparr>"
  have "intrusivelist_remove_head il h = Inr (x, ?il, unlinked h [] x xs)"
    using rep
    by (cases il; cases xs)
      (auto simp: il_rep_def unlinked_def intrusivelist_remove_head_def set_next_def set_prev_def)
  moreover have "il_rep ?il (unlinked h [] x xs) xs"
    using unlinked_rep [of il h "[]" x xs] rep by (simp add: il_rep_def)
  ultimately show ?thesis by blast
qed

lemma remove_head_empty: "il_rep il h [] \<Longrightarrow> intrusivelist_remove_head il h = Inr (nullptr, il, h)"
  by (simp add: il_rep_def intrusivelist_remove_head_def)

lemma remove_tail_rep:
  assumes rep: "il_rep il h (xs @ [x])"
  shows "\<exists>il'. intrusivelist_remove_tail il h = Inr (x, il', unlinked h xs x []) \<and>
    il_rep il' (unlinked h xs x []) xs"
proof -
  let ?il = "\<lparr>il_head = first_of xs nullptr, il_tail = last_of nullptr xs,
      il_count = of_nat (length xs)\<rparr>"
  have "intrusivelist_remove_tail il h = Inr (x, ?il, unlinked h xs x [])"
    using rep
    by (cases il; cases xs rule: rev_cases)
      (auto simp: il_rep_def unlinked_def intrusivelist_remove_tail_def set_next_def set_prev_def)
  moreover have "il_rep ?il (unlinked h xs x []) xs"
    using unlinked_rep [of il h xs x "[]"] rep by (simp add: il_rep_def)
  ultimately show ?thesis by blast
qed

text \<open>On the empty list \<open>remove_tail\<close>, unlike \<open>remove_head\<close>, dereferences the null tail.\<close>

lemma remove_tail_empty:
  "il_rep il h [] \<Longrightarrow> intrusivelist_remove_tail il h = Inl (Fault nullptr)"
  by (simp add: il_rep_def intrusivelist_remove_tail_def)

lemma count_rep: "il_rep il h xs \<Longrightarrow> unat (intrusivelist_count il) = length xs"
  using length_nodes [of il h xs] by (simp add: intrusivelist_count_def il_rep_def unat_of_nat_u64)

lemma is_empty_rep: "il_rep il h xs \<Longrightarrow> intrusivelist_is_empty il \<longleftrightarrow> xs = []"
  using count_rep [of il h xs]
  by (auto simp: intrusivelist_is_empty_def intrusivelist_count_def il_rep_def)

lemma peek_head_rep: "il_rep il h xs \<Longrightarrow> intrusivelist_peek_head il = first_of xs nullptr"
  by (simp add: il_rep_def intrusivelist_peek_head_def)

lemma peek_tail_rep: "il_rep il h xs \<Longrightarrow> intrusivelist_peek_tail il = last_of nullptr xs"
  by (simp add: il_rep_def intrusivelist_peek_tail_def)

section \<open>The contract of a queue of nodes\<close>

text \<open>
  What the run queues, wait queues and the task manager rely on: a representation relation, and
  that \<open>enq\<close> appends a fresh node, that \<open>deq\<close> takes the oldest one and returns null exactly
  on the empty queue, and that neither changes which addresses can hold nodes.
\<close>

locale node_queue =
  fixes rep :: "'l \<Rightarrow> 'h \<Rightarrow> ptr list \<Rightarrow> bool"
    and storable :: "'h \<Rightarrow> ptr \<Rightarrow> bool"
    and enq :: "'l \<Rightarrow> ptr \<Rightarrow> 'h \<Rightarrow> kerror + 'l \<times> 'h"
    and deq :: "'l \<Rightarrow> 'h \<Rightarrow> kerror + ptr \<times> 'l \<times> 'h"
  assumes rep_distinct: "rep l h xs \<Longrightarrow> distinct xs"
    and rep_storable: "rep l h xs \<Longrightarrow> x \<in> set xs \<Longrightarrow> storable h x"
    and enq_law: "rep l h xs \<Longrightarrow> storable h p \<Longrightarrow> p \<notin> set xs \<Longrightarrow>
      \<exists>l' h'. enq l p h = Inr (l', h') \<and> rep l' h' (xs @ [p]) \<and>
        (\<forall>q. storable h' q \<longleftrightarrow> storable h q)"
    and deq_empty_law: "rep l h [] \<Longrightarrow> deq l h = Inr (nullptr, l, h)"
    and deq_law: "rep l h (x # xs) \<Longrightarrow>
      \<exists>l' h'. deq l h = Inr (x, l', h') \<and> rep l' h' xs \<and>
        (\<forall>q. storable h' q \<longleftrightarrow> storable h q)"
begin

lemma enq_all:
  assumes "rep l h xs" and "distinct (xs @ ps)" and "\<forall>p \<in> set ps. storable h p"
  shows "\<exists>l' h'. forE ps (\<lambda>p (l, h). enq l p h) (l, h) = Inr (l', h') \<and> rep l' h' (xs @ ps)"
  using assms
proof (induction ps arbitrary: l h xs)
  case Nil
  then show ?case by simp
next
  case (Cons p ps)
  then obtain l' h' where step: "enq l p h = Inr (l', h')" "rep l' h' (xs @ [p])"
    "\<forall>q. storable h' q \<longleftrightarrow> storable h q"
    using enq_law [of l h xs p] by auto
  then have "\<exists>l'' h''. forE ps (\<lambda>p (l, h). enq l p h) (l', h') = Inr (l'', h'') \<and>
      rep l'' h'' ((xs @ [p]) @ ps)"
    using Cons.prems by (intro Cons.IH) auto
  with step show ?case by auto
qed

lemma deq_all:
  assumes "rep l h xs"
  shows "\<exists>l' h'. forE xs (\<lambda>_ (out, l, h). bindE (deq l h) (\<lambda>(p, l, h). Inr (out @ [p], l, h)))
    (out, l, h) = Inr (out @ xs, l', h') \<and> rep l' h' []"
  using assms
proof (induction xs arbitrary: l h out)
  case Nil
  then show ?case by auto
next
  case (Cons x xs)
  then obtain l' h' where step: "deq l h = Inr (x, l', h')" "rep l' h' xs"
    using deq_law by blast
  from Cons.IH [OF step(2), of "out @ [x]"] step(1) show ?case by auto
qed

text \<open>First in, first out: what was appended to an empty queue comes out in the same order.\<close>

lemma fifo:
  assumes "rep l h []" and "distinct ps" and "\<forall>p \<in> set ps. storable h p"
  shows "\<exists>l' h' l'' h''. forE ps (\<lambda>p (l, h). enq l p h) (l, h) = Inr (l', h') \<and>
    forE ps (\<lambda>_ (out, l, h). bindE (deq l h) (\<lambda>(p, l, h). Inr (out @ [p], l, h)))
      ([], l', h') = Inr (ps, l'', h'')"
proof -
  from assms obtain l' h' where
    "forE ps (\<lambda>p (l, h). enq l p h) (l, h) = Inr (l', h')" "rep l' h' ps"
    using enq_all [of l h "[]" ps] by auto
  with deq_all [of l' h' ps "[]"] show ?thesis by auto
qed

end

interpretation inq: node_queue il_rep "\<lambda>h p. p \<in> dom h \<and> p \<noteq> nullptr"
  intrusivelist_insert_tail intrusivelist_remove_head
proof unfold_locales
  fix l h xs p
  assume "il_rep l h xs" and "p \<in> dom h \<and> p \<noteq> nullptr" and "p \<notin> set xs"
  then show "\<exists>l' h'. intrusivelist_insert_tail l p h = Inr (l', h') \<and> il_rep l' h' (xs @ [p]) \<and>
      (\<forall>q. (q \<in> dom h' \<and> q \<noteq> nullptr) = (q \<in> dom h \<and> q \<noteq> nullptr))"
    using insert_tail_rep [of l h xs p] only_nodes_dom by metis
next
  fix l h x xs
  assume rep: "il_rep l h (x # xs)"
  then have "only_nodes (set ([] @ x # xs)) h (unlinked h [] x xs)"
    by (intro unlinked_rep(4)) simp
  then have "q \<in> dom (unlinked h [] x xs) \<longleftrightarrow> q \<in> dom h" for q
    by (rule only_nodes_dom)
  with remove_head_rep [OF rep]
  show "\<exists>l' h'. intrusivelist_remove_head l h = Inr (x, l', h') \<and> il_rep l' h' xs \<and>
      (\<forall>q. (q \<in> dom h' \<and> q \<noteq> nullptr) = (q \<in> dom h \<and> q \<noteq> nullptr))"
    by blast
qed (auto simp: remove_head_empty dest: il_rep_in_store il_rep_distinct)

section \<open>Properties\<close>

text \<open>
  removing a node from anywhere in an intrusive list leaves the list of the other nodes in
  their order, detaches the removed node (both links null) and touches no node outside the list.
\<close>

lemma intrusivelist_remove_correct:
  assumes "il_rep il h (as @ x # bs)"
  shows "\<exists>il' h'. intrusivelist_remove il x h = Inr (il', h') \<and> il_rep il' h' (as @ bs) \<and>
    h' x = Some \<lparr>n_next = nullptr, n_prev = nullptr\<rparr> \<and>
    (\<forall>p. p \<notin> set (as @ x # bs) \<longrightarrow> h' p = h p)"
  using remove_rep [OF assms] unlinked_rep(3,4) [OF assms] by (auto simp: only_nodes_def)

text \<open>
  an intrusive list used with \<open>insert_tail\<close> and \<open>remove_head\<close> is a FIFO queue: nodes that
  were appended to the empty list come out in the order in which they went in.
\<close>

lemma intrusivelist_fifo:
  assumes "distinct ps" and "\<forall>p \<in> set ps. p \<in> dom h \<and> p \<noteq> nullptr"
  shows "\<exists>il h' il' h''.
    forE ps (\<lambda>p (l, h). intrusivelist_insert_tail l p h) (intrusivelist_init, h) = Inr (il, h') \<and>
    forE ps (\<lambda>_ (out, l, h). bindE (intrusivelist_remove_head l h)
        (\<lambda>(p, l, h). Inr (out @ [p], l, h))) ([], il, h') = Inr (ps, il', h'')"
  by (rule inq.fifo [OF il_rep_init assms])

end
