(* ===== verification/Ring_Buffer.thy ===== *)
theory Ring_Buffer
  imports Common_Defs CString
begin

text \<open>
  The ring buffer of \<open>lib/ds/ringbuffer.c\<close>: a header with two indices and a byte array in
  memory of \<open>capacity\<close> slots of \<open>element_size\<close> bytes, one of which always stays free.
  \<open>rb_list\<close> reads the queued elements off the memory; the lemmas show that \<open>push\<close> and
  \<open>pop\<close> are the operations of a FIFO queue bounded by \<open>capacity - 1\<close>, with the error code
  \<open>-ENOMEM\<close> and an unchanged buffer when the queue is full or empty.  The locale
  \<open>bounded_fifo\<close> is that contract, without the representation.
\<close>

section \<open>Header and operations\<close>

record ring_buffer =
  rb_buffer :: ptr
  rb_capacity :: usize
  rb_element_size :: usize
  rb_head :: usize
  rb_tail :: usize

definition ringbuffer_init :: "usize \<Rightarrow> ptr \<Rightarrow> usize \<Rightarrow> ring_buffer" where
  "ringbuffer_init element_size buffer buffer_size =
     \<lparr>rb_buffer = buffer, rb_capacity = buffer_size, rb_element_size = element_size,
      rb_head = 0, rb_tail = 0\<rparr>"

definition umodE :: "usize \<Rightarrow> usize \<Rightarrow> kerror + usize" where
  "umodE a b = (if b = 0 then Inl DivByZero else Inr (a mod b))"

definition slot_addr :: "ring_buffer \<Rightarrow> usize \<Rightarrow> ptr" where
  "slot_addr rb i = rb_buffer rb + i * rb_element_size rb"

definition ringbuffer_push ::
  "ring_buffer \<Rightarrow> ptr \<Rightarrow> mem \<Rightarrow> kerror + 64 word \<times> ring_buffer \<times> mem" where
  "ringbuffer_push rb data m =
     bindE (umodE (rb_head rb + 1) (rb_capacity rb)) (\<lambda>next.
     if next = rb_tail rb then Inr (- errnum ENOMEM, rb, m)
     else Inr (errnum EOK, rb\<lparr>rb_head := next\<rparr>,
            memcpy m (slot_addr rb (rb_head rb)) data (rb_element_size rb)))"

definition ringbuffer_pop ::
  "ring_buffer \<Rightarrow> ptr \<Rightarrow> mem \<Rightarrow> kerror + 64 word \<times> ring_buffer \<times> mem" where
  "ringbuffer_pop rb data m =
     (if rb_head rb = rb_tail rb then Inr (- errnum ENOMEM, rb, m)
      else let m' = memcpy m data (slot_addr rb (rb_tail rb)) (rb_element_size rb) in
        bindE (umodE (rb_tail rb + 1) (rb_capacity rb)) (\<lambda>tail.
        Inr (errnum EOK, rb\<lparr>rb_tail := tail\<rparr>, m')))"

definition ringbuffer_full :: "ring_buffer \<Rightarrow> kerror + bool" where
  "ringbuffer_full rb =
     bindE (umodE (rb_head rb + 1) (rb_capacity rb)) (\<lambda>next. Inr (next = rb_tail rb))"

definition ringbuffer_empty :: "ring_buffer \<Rightarrow> bool" where
  "ringbuffer_empty rb \<longleftrightarrow> rb_head rb = rb_tail rb"

section \<open>The queue a ring buffer represents\<close>

definition bytes_at :: "mem \<Rightarrow> ptr \<Rightarrow> nat \<Rightarrow> u8 list" where
  "bytes_at m p n = map (\<lambda>j. m (p + of_nat j)) [0..<n]"

abbreviation rb_cap :: "ring_buffer \<Rightarrow> nat" where
  "rb_cap rb \<equiv> unat (rb_capacity rb)"

abbreviation rb_esize :: "ring_buffer \<Rightarrow> nat" where
  "rb_esize rb \<equiv> unat (rb_element_size rb)"

definition rb_len :: "ring_buffer \<Rightarrow> nat" where
  "rb_len rb = (unat (rb_head rb) + rb_cap rb - unat (rb_tail rb)) mod rb_cap rb"

definition rb_slot :: "ring_buffer \<Rightarrow> mem \<Rightarrow> nat \<Rightarrow> u8 list" where
  "rb_slot rb m i = bytes_at m (slot_addr rb (of_nat i)) (rb_esize rb)"

definition rb_list :: "ring_buffer \<Rightarrow> mem \<Rightarrow> u8 list list" where
  "rb_list rb m = map (\<lambda>k. rb_slot rb m ((unat (rb_tail rb) + k) mod rb_cap rb)) [0..<rb_len rb]"

definition rb_inv :: "ring_buffer \<Rightarrow> bool" where
  "rb_inv rb \<longleftrightarrow> rb_head rb < rb_capacity rb \<and> rb_tail rb < rb_capacity rb \<and>
     unat (rb_buffer rb) + rb_cap rb * rb_esize rb \<le> 2 ^ 64"

text \<open>The client's element lies in memory outside the buffer.\<close>

definition rb_foreign :: "ring_buffer \<Rightarrow> ptr \<Rightarrow> bool" where
  "rb_foreign rb data \<longleftrightarrow>
     disjoint_regions (rb_buffer rb) (rb_cap rb * rb_esize rb) data (rb_esize rb)"

subsection \<open>Index arithmetic\<close>

lemma rb_inv_nat:
  assumes "rb_inv rb"
  shows "unat (rb_head rb) < rb_cap rb" and "unat (rb_tail rb) < rb_cap rb" and "rb_capacity rb \<noteq> 0"
  using assms by (auto simp: rb_inv_def word_less_nat_alt)

lemma unat_succ_mod:
  fixes i c :: "64 word"
  assumes "i < c"
  shows "unat ((i + 1) mod c) = Suc (unat i) mod unat c"
proof -
  have "unat (i + 1) = unat i + 1"
    using assms unat_lt_u64 [of c] by (subst unat_add_u64) (auto simp: word_less_nat_alt)
  then show ?thesis by (simp add: unat_mod)
qed

lemma ring_len_cases:
  assumes "h < c" and "t < (c :: nat)"
  shows "(h + c - t) mod c = (if t \<le> h then h - t else h + c - t)"
proof (cases "t \<le> h")
  case True
  then have eq: "h + c - t = h - t + c" by simp
  have "(h - t + c) mod c = h - t" using assms by simp
  with True show ?thesis unfolding eq by simp
qed (use assms in simp)

lemma Suc_mod_cases: "h < c \<Longrightarrow> Suc h mod c = (if Suc h = c then 0 else Suc h)"
  by (simp add: mod_Suc)

lemma ring_arith:
  assumes "h < c" and "t < (c :: nat)"
  shows "(h + c - t) mod c < c"
    and "(t + (h + c - t) mod c) mod c = h"
    and "Suc h mod c = t \<longleftrightarrow> Suc ((h + c - t) mod c) = c"
    and "Suc h mod c \<noteq> t \<Longrightarrow> (Suc h mod c + c - t) mod c = Suc ((h + c - t) mod c)"
    and "(h + c - t) mod c = 0 \<longleftrightarrow> h = t"
    and "h \<noteq> t \<Longrightarrow> Suc ((h + c - Suc t mod c) mod c) = (h + c - t) mod c"
proof -
  have S: "Suc h mod c < c" "Suc t mod c < c" using assms by simp_all
  show "(h + c - t) mod c < c" using assms by simp
  show "(t + (h + c - t) mod c) mod c = h" using assms by (simp add: ring_len_cases)
  show "Suc h mod c = t \<longleftrightarrow> Suc ((h + c - t) mod c) = c"
    using assms by (auto simp: ring_len_cases Suc_mod_cases)
  show "Suc h mod c \<noteq> t \<Longrightarrow> (Suc h mod c + c - t) mod c = Suc ((h + c - t) mod c)"
    using assms S(1) by (auto simp: ring_len_cases Suc_mod_cases)
  show "(h + c - t) mod c = 0 \<longleftrightarrow> h = t" using assms by (auto simp: ring_len_cases)
  show "h \<noteq> t \<Longrightarrow> Suc ((h + c - Suc t mod c) mod c) = (h + c - t) mod c"
    using assms S(2) by (auto simp: ring_len_cases Suc_mod_cases)
qed

lemma ring_slots_distinct:
  assumes "h < c" and "t < (c :: nat)" and "k < (h + c - t) mod c"
  shows "(t + k) mod c \<noteq> h" and "(t + k) mod c < c"
proof -
  show "(t + k) mod c < c" using assms by simp
  have "t + k < 2 * c" using assms by (auto simp: ring_len_cases split: if_splits)
  then have "(t + k) mod c = (if t + k < c then t + k else t + k - c)"
    by (simp add: mod_if)
  then show "(t + k) mod c \<noteq> h"
    using assms by (auto simp: ring_len_cases split: if_splits)
qed

subsection \<open>Slots in memory\<close>

lemma bytes_at_cong:
  assumes "\<And>a. in_region a p n \<Longrightarrow> m a = m' a" and "n \<le> 2 ^ 64"
  shows "bytes_at m p n = bytes_at m' p n"
  using assms by (auto simp: bytes_at_def in_region_def unat_of_nat_u64)

lemma length_bytes_at [simp]: "length (bytes_at m p n) = n"
  by (simp add: bytes_at_def)

lemma slot_addr_of_nat: "slot_addr rb (of_nat i) = rb_buffer rb + of_nat (i * rb_esize rb)"
  by (simp add: slot_addr_def)

lemma slot_bounds:
  assumes "rb_inv rb" and "i < rb_cap rb"
  shows "unat (slot_addr rb (of_nat i)) = (unat (rb_buffer rb) + i * rb_esize rb) mod 2 ^ 64"
    and "unat (rb_buffer rb) + i * rb_esize rb + rb_esize rb \<le> 2 ^ 64"
proof -
  show "unat (slot_addr rb (of_nat i)) = (unat (rb_buffer rb) + i * rb_esize rb) mod 2 ^ 64"
    by (simp add: slot_addr_of_nat unat_word_ariths unat_of_nat mod_simps)
  have "Suc i * rb_esize rb \<le> rb_cap rb * rb_esize rb"
    using assms(2) by (intro mult_le_mono1) simp
  then show "unat (rb_buffer rb) + i * rb_esize rb + rb_esize rb \<le> 2 ^ 64"
    using assms(1) by (simp add: rb_inv_def)
qed

lemma in_slot_iff:
  assumes "rb_inv rb" and "i < rb_cap rb"
  shows "in_region a (slot_addr rb (of_nat i)) (rb_esize rb) \<longleftrightarrow>
    unat (rb_buffer rb) + i * rb_esize rb \<le> unat a \<and>
    unat a < unat (rb_buffer rb) + i * rb_esize rb + rb_esize rb"
proof (cases "rb_esize rb = 0")
  case True
  then show ?thesis by (simp add: in_region_def)
next
  case False
  then have "unat (slot_addr rb (of_nat i)) = unat (rb_buffer rb) + i * rb_esize rb"
    using slot_bounds [OF assms] by simp
  with slot_bounds(2) [OF assms] show ?thesis by (simp add: in_region_iff)
qed

lemma slots_disjoint:
  assumes "rb_inv rb" and "i < rb_cap rb" and "j < rb_cap rb" and "i \<noteq> j"
  shows "disjoint_regions (slot_addr rb (of_nat i)) (rb_esize rb)
    (slot_addr rb (of_nat j)) (rb_esize rb)"
proof -
  have "Suc i * rb_esize rb \<le> j * rb_esize rb \<or> Suc j * rb_esize rb \<le> i * rb_esize rb"
    using assms(4) by (auto intro!: mult_le_mono1 simp del: mult_Suc)
  then show ?thesis
    using assms by (auto simp: disjoint_regions_def in_slot_iff)
qed

lemma slot_in_buffer:
  assumes "rb_inv rb" and "i < rb_cap rb"
    and "in_region a (slot_addr rb (of_nat i)) (rb_esize rb)"
  shows "in_region a (rb_buffer rb) (rb_cap rb * rb_esize rb)"
proof -
  have "Suc i * rb_esize rb \<le> rb_cap rb * rb_esize rb"
    using assms(2) by (intro mult_le_mono1) simp
  then show ?thesis
    using assms by (auto simp: in_slot_iff in_region_iff rb_inv_def)
qed

lemma slot_foreign:
  assumes "rb_inv rb" and "rb_foreign rb data" and "i < rb_cap rb"
  shows "disjoint_regions (slot_addr rb (of_nat i)) (rb_esize rb) data (rb_esize rb)"
  using assms slot_in_buffer by (auto simp: rb_foreign_def disjoint_regions_def)

lemma bytes_at_memcpy:
  assumes "disjoint_regions dest (unat n) src (unat n)"
  shows "bytes_at (memcpy m dest src n) dest (unat n) = bytes_at m src (unat n)"
  using unat_lt_u64 [of n]
  by (auto simp: bytes_at_def memcpy_eq [OF assms] in_region_def unat_of_nat_u64)

lemma bytes_at_memcpy_other:
  assumes "disjoint_regions dest (unat n) src (unat n)" and "disjoint_regions dest (unat n) p k"
    and "k \<le> 2 ^ 64"
  shows "bytes_at (memcpy m dest src n) p k = bytes_at m p k"
  using assms by (intro bytes_at_cong) (auto simp: memcpy_eq disjoint_regions_def)

subsection \<open>Push and pop on the represented queue\<close>

lemma rb_list_length [simp]: "length (rb_list rb m) = rb_len rb"
  by (simp add: rb_list_def)

lemma rb_len_bound: "rb_inv rb \<Longrightarrow> rb_len rb < rb_cap rb"
  by (simp add: rb_len_def rb_inv_nat ring_arith(1))

lemma rb_list_init: "rb_list (ringbuffer_init es b n) m = []"
  by (simp add: rb_list_def rb_len_def ringbuffer_init_def)

lemma push_full:
  assumes "rb_inv rb" and "Suc (rb_len rb) = rb_cap rb"
  shows "ringbuffer_push rb data m = Inr (- errnum ENOMEM, rb, m)"
proof -
  have "unat ((rb_head rb + 1) mod rb_capacity rb) = unat (rb_tail rb)"
    using assms by (simp add: rb_inv_def unat_succ_mod rb_len_def ring_arith(3) rb_inv_nat)
  then show ?thesis
    using rb_inv_nat(3) [OF assms(1)]
    by (simp add: ringbuffer_push_def umodE_def word_unat_eq_iff)
qed

lemma push_not_full:
  assumes inv: "rb_inv rb" and room: "Suc (rb_len rb) < rb_cap rb" and "rb_foreign rb data"
  shows "\<exists>rb' m'. ringbuffer_push rb data m = Inr (errnum EOK, rb', m') \<and> rb_inv rb' \<and>
    rb_list rb' m' = rb_list rb m @ [bytes_at m data (rb_esize rb)] \<and>
    (\<forall>a. \<not> in_region a (rb_buffer rb) (rb_cap rb * rb_esize rb) \<longrightarrow> m' a = m a) \<and>
    (\<exists>i. rb' = rb\<lparr>rb_head := i\<rparr>)"
proof -
  let ?h = "unat (rb_head rb)" and ?t = "unat (rb_tail rb)" and ?c = "rb_cap rb"
  let ?n = "(rb_head rb + 1) mod rb_capacity rb"
  let ?rb = "rb\<lparr>rb_head := ?n\<rparr>"
  let ?m = "memcpy m (slot_addr rb (rb_head rb)) data (rb_element_size rb)"
  note nat = rb_inv_nat [OF inv]
  have n: "unat ?n = Suc ?h mod ?c"
    using inv by (simp add: rb_inv_def unat_succ_mod)
  have neq: "Suc ?h mod ?c \<noteq> ?t"
    using room nat by (simp add: rb_len_def ring_arith(3))
  have push: "ringbuffer_push rb data m = Inr (errnum EOK, ?rb, ?m)"
    using nat(3) neq n by (auto simp: ringbuffer_push_def umodE_def)
  have inv': "rb_inv ?rb"
    using inv nat by (auto simp: rb_inv_def word_less_nat_alt unat_mod)
  have len: "rb_len ?rb = Suc (rb_len rb)"
    using nat neq by (simp add: rb_len_def n ring_arith(4))
  have dis: "disjoint_regions (slot_addr rb (of_nat ?h)) (rb_esize rb) data (rb_esize rb)"
    using inv assms(3) nat(1) by (rule slot_foreign)
  have new: "rb_slot ?rb ?m ?h = bytes_at m data (rb_esize rb)"
    using bytes_at_memcpy [of "slot_addr rb (of_nat ?h)" "rb_element_size rb" data m] dis
    by (simp add: rb_slot_def slot_addr_def)
  have old: "rb_slot ?rb ?m i = rb_slot rb m i" if "i < ?c" "i \<noteq> ?h" for i
    using bytes_at_memcpy_other [OF _ slots_disjoint [OF inv nat(1) that(1)], of data m] dis that
      unat_lt_u64 [of "rb_element_size rb"]
    by (simp add: rb_slot_def slot_addr_def)
  have "rb_list ?rb ?m = map (\<lambda>k. rb_slot ?rb ?m ((?t + k) mod ?c)) [0..<rb_len rb] @
      [rb_slot ?rb ?m ((?t + rb_len rb) mod ?c)]"
    by (simp add: rb_list_def len)
  also have "\<dots> = rb_list rb m @ [bytes_at m data (rb_esize rb)]"
    using nat ring_slots_distinct [OF nat(1,2)] new old
    by (simp add: rb_list_def rb_len_def ring_arith(2))
  finally have list: "rb_list ?rb ?m = rb_list rb m @ [bytes_at m data (rb_esize rb)]" .
  have frame: "?m a = m a" if "\<not> in_region a (rb_buffer rb) (?c * rb_esize rb)" for a
    using that memcpy_eq [OF dis] slot_in_buffer [OF inv nat(1), of a] by (auto simp: fun_eq_iff)
  show ?thesis
    by (intro exI conjI) (use push inv' list frame in auto)
qed

lemma pop_empty:
  assumes "rb_inv rb" and "rb_len rb = 0"
  shows "ringbuffer_pop rb data m = Inr (- errnum ENOMEM, rb, m)"
  using assms rb_inv_nat [OF assms(1)]
  by (simp add: ringbuffer_pop_def rb_len_def ring_arith(5) word_unat_eq_iff)

lemma pop_not_empty:
  assumes inv: "rb_inv rb" and "rb_len rb \<noteq> 0" and "rb_foreign rb data"
  shows "\<exists>rb' m'. ringbuffer_pop rb data m = Inr (errnum EOK, rb', m') \<and> rb_inv rb' \<and>
    rb_list rb m = bytes_at m' data (rb_esize rb) # rb_list rb' m' \<and>
    (\<forall>a. \<not> in_region a data (rb_esize rb) \<longrightarrow> m' a = m a) \<and>
    (\<exists>i. rb' = rb\<lparr>rb_tail := i\<rparr>)"
proof -
  let ?h = "unat (rb_head rb)" and ?t = "unat (rb_tail rb)" and ?c = "rb_cap rb"
  let ?n = "(rb_tail rb + 1) mod rb_capacity rb"
  let ?rb = "rb\<lparr>rb_tail := ?n\<rparr>"
  let ?m = "memcpy m data (slot_addr rb (rb_tail rb)) (rb_element_size rb)"
  note nat = rb_inv_nat [OF inv]
  have n: "unat ?n = Suc ?t mod ?c"
    using inv by (simp add: rb_inv_def unat_succ_mod)
  have neq: "?h \<noteq> ?t"
    using assms(2) nat by (simp add: rb_len_def ring_arith(5))
  then have pop: "ringbuffer_pop rb data m = Inr (errnum EOK, ?rb, ?m)"
    using nat(3) by (auto simp: ringbuffer_pop_def umodE_def Let_def)
  have inv': "rb_inv ?rb"
    using inv nat by (auto simp: rb_inv_def word_less_nat_alt unat_mod)
  have len: "rb_len rb = Suc (rb_len ?rb)"
    using nat neq by (simp add: rb_len_def n ring_arith(6))
  have dis: "disjoint_regions data (rb_esize rb) (slot_addr rb (of_nat i)) (rb_esize rb)"
    if "i < ?c" for i
    using slot_foreign [OF inv assms(3) that] by (simp add: disjoint_regions_sym)
  have t: "slot_addr rb (rb_tail rb) = slot_addr rb (of_nat ?t)" by simp
  have first: "rb_slot rb m ?t = bytes_at ?m data (rb_esize rb)"
    using bytes_at_memcpy [OF dis [OF nat(2)], of m] unfolding t by (simp only: rb_slot_def)
  have rest: "rb_slot ?rb ?m i = rb_slot rb m i" if "i < ?c" for i
    using bytes_at_memcpy_other [OF dis [OF nat(2)] dis [OF that], of m]
      unat_lt_u64 [of "rb_element_size rb"]
    unfolding t by (simp add: rb_slot_def slot_addr_def)
  have "rb_list rb m = rb_slot rb m ?t #
      map (\<lambda>k. rb_slot rb m ((?t + Suc k) mod ?c)) [0..<rb_len ?rb]"
    using nat(2) by (simp add: rb_list_def len upt_conv_Cons map_Suc_upt [symmetric] o_def
        del: upt_Suc)
  also have "map (\<lambda>k. rb_slot rb m ((?t + Suc k) mod ?c)) [0..<rb_len ?rb] = rb_list ?rb ?m"
    using nat rest by (simp add: rb_list_def n mod_simps)
  finally have list: "rb_list rb m = bytes_at ?m data (rb_esize rb) # rb_list ?rb ?m"
    using first by simp
  have frame: "?m a = m a" if "\<not> in_region a data (rb_esize rb)" for a
    using that memcpy_eq [OF dis [OF nat(2)], of m] unfolding t by (simp add: fun_eq_iff)
  show ?thesis
    by (intro exI conjI) (use pop inv' list frame in auto)
qed

lemma full_iff: "rb_inv rb \<Longrightarrow> ringbuffer_full rb = Inr (Suc (rb_len rb) = rb_cap rb)"
  using rb_inv_nat [of rb]
  by (auto simp: ringbuffer_full_def umodE_def word_unat_eq_iff unat_succ_mod rb_inv_def rb_len_def
      ring_arith(3))

lemma empty_iff: "rb_inv rb \<Longrightarrow> ringbuffer_empty rb \<longleftrightarrow> rb_list rb m = []"
  using rb_inv_nat [of rb]
  by (simp add: ringbuffer_empty_def word_unat_eq_iff ring_arith(5) rb_len_def
      flip: length_0_conv)

section \<open>The contract of a bounded queue\<close>

text \<open>
  The client hands over elements by reference: \<open>val s x\<close> is what the reference \<open>x\<close>
  denotes in state \<open>s\<close>, and \<open>arg s x\<close> says that it may be passed.
\<close>

locale bounded_fifo =
  fixes inv :: "'s \<Rightarrow> bool"
    and elems :: "'s \<Rightarrow> 'a list"
    and bound :: "'s \<Rightarrow> nat"
    and arg :: "'s \<Rightarrow> 'x \<Rightarrow> bool"
    and val :: "'s \<Rightarrow> 'x \<Rightarrow> 'a"
    and push :: "'s \<Rightarrow> 'x \<Rightarrow> kerror + 64 word \<times> 's"
    and pop :: "'s \<Rightarrow> 'x \<Rightarrow> kerror + 64 word \<times> 's"
  assumes bounded: "inv s \<Longrightarrow> length (elems s) \<le> bound s"
    and push_full_law: "inv s \<Longrightarrow> length (elems s) = bound s \<Longrightarrow>
      push s x = Inr (- errnum ENOMEM, s)"
    and push_law: "inv s \<Longrightarrow> arg s x \<Longrightarrow> length (elems s) < bound s \<Longrightarrow>
      \<exists>s'. push s x = Inr (errnum EOK, s') \<and> inv s' \<and> bound s' = bound s \<and>
        elems s' = elems s @ [val s x] \<and>
        (\<forall>y. arg s' y \<longleftrightarrow> arg s y) \<and> (\<forall>y. arg s y \<longrightarrow> val s' y = val s y)"
    and pop_empty_law: "inv s \<Longrightarrow> elems s = [] \<Longrightarrow> pop s x = Inr (- errnum ENOMEM, s)"
    and pop_law: "inv s \<Longrightarrow> arg s x \<Longrightarrow> elems s = v # vs \<Longrightarrow>
      \<exists>s'. pop s x = Inr (errnum EOK, s') \<and> inv s' \<and> bound s' = bound s \<and>
        elems s' = vs \<and> val s' x = v \<and> (\<forall>y. arg s' y \<longleftrightarrow> arg s y)"
begin

lemma push_all:
  assumes "inv s" and "\<forall>x \<in> set xs. arg s x" and "length (elems s) + length xs \<le> bound s"
  shows "\<exists>s'. forE xs (\<lambda>x s. bindE (push s x) (\<lambda>(e, s). Inr s)) s = Inr s' \<and> inv s' \<and>
    bound s' = bound s \<and> elems s' = elems s @ map (val s) xs \<and> (\<forall>y. arg s' y \<longleftrightarrow> arg s y)"
  using assms
proof (induction xs arbitrary: s)
  case Nil
  then show ?case by auto
next
  case (Cons x xs)
  then obtain s1 where s1: "push s x = Inr (errnum EOK, s1)" "inv s1" "bound s1 = bound s"
    "elems s1 = elems s @ [val s x]" "\<forall>y. arg s1 y \<longleftrightarrow> arg s y" "\<forall>y. arg s y \<longrightarrow> val s1 y = val s y"
    using push_law [of s x] by auto
  moreover have "map (val s1) xs = map (val s) xs"
    using Cons.prems(2) s1(6) by auto
  ultimately show ?case
    using Cons.IH [of s1] Cons.prems by auto
qed

lemma pop_all:
  assumes "inv s" and "arg s x"
  shows "\<exists>s'. forE (elems s) (\<lambda>_ (out, s). bindE (pop s x) (\<lambda>(e, s). Inr (out @ [val s x], s)))
    (out, s) = Inr (out @ elems s, s') \<and> elems s' = []"
  using assms
proof (induction "elems s" arbitrary: s out)
  case Nil
  show ?case by (simp flip: Nil.hyps)
next
  case (Cons v vs)
  then obtain s1 where s1: "pop s x = Inr (errnum EOK, s1)" "inv s1" "elems s1 = vs" "val s1 x = v"
    "arg s1 x"
    using pop_law [of s x v vs] by auto
  from Cons.hyps(1) [OF s1(3) [symmetric] s1(2,5), of "out @ [v]"] s1 show ?case
    by (simp flip: Cons.hyps(2))
qed

text \<open>A burst that fits is queued completely and comes out again in order.\<close>

lemma burst:
  assumes "inv s" and "elems s = []" and "\<forall>y \<in> set ys. arg s y" and "length ys \<le> bound s"
    and "arg s x"
  shows "\<exists>s1 s2. forE ys (\<lambda>y s. bindE (push s y) (\<lambda>(e, s). Inr s)) s = Inr s1 \<and>
    forE ys (\<lambda>_ (out, s). bindE (pop s x) (\<lambda>(e, s). Inr (out @ [val s x], s))) ([], s1) =
      Inr (map (val s) ys, s2)"
proof -
  from push_all [of s ys] assms obtain s1 where s1:
    "forE ys (\<lambda>y s. bindE (push s y) (\<lambda>(e, s). Inr s)) s = Inr s1" "inv s1"
    "elems s1 = map (val s) ys" "arg s1 x" by auto
  from pop_all [OF s1(2,4), of "[]"] s1 show ?thesis by (auto simp: forE_map_const)
qed

end

interpretation rbq: bounded_fifo "\<lambda>(rb, m). rb_inv rb" "\<lambda>(rb, m). rb_list rb m"
  "\<lambda>(rb, m). rb_cap rb - 1" "\<lambda>s d. case s of (rb, m) \<Rightarrow> rb_foreign rb d"
  "\<lambda>s d. case s of (rb, m) \<Rightarrow> bytes_at m d (rb_esize rb)"
  "\<lambda>s d. case s of (rb, m) \<Rightarrow> ringbuffer_push rb d m"
  "\<lambda>s d. case s of (rb, m) \<Rightarrow> ringbuffer_pop rb d m"
proof (unfold_locales, goal_cases)
  case (1 s)
  then show ?case using rb_len_bound [of "fst s"] by (auto split: prod.splits)
next
  case (2 s x)
  then show ?case
    using rb_len_bound [of "fst s"] by (auto simp: push_full split: prod.splits)
next
  case (3 s x)
  obtain rb m where s: "s = (rb, m)" by fastforce
  with 3 have "Suc (rb_len rb) < rb_cap rb" by simp
  with s 3 obtain rb' m' where p: "ringbuffer_push rb x m = Inr (errnum EOK, rb', m')" "rb_inv rb'"
    "rb_list rb' m' = rb_list rb m @ [bytes_at m x (rb_esize rb)]"
    "\<forall>a. \<not> in_region a (rb_buffer rb) (rb_cap rb * rb_esize rb) \<longrightarrow> m' a = m a"
    "\<exists>i. rb' = rb\<lparr>rb_head := i\<rparr>"
    using push_not_full [of rb x m] by auto
  from p(5) have geo: "rb_buffer rb' = rb_buffer rb" "rb_capacity rb' = rb_capacity rb"
    "rb_element_size rb' = rb_element_size rb" by auto
  have "bytes_at m' y (rb_esize rb) = bytes_at m y (rb_esize rb)" if "rb_foreign rb y" for y
    using that p(4) unat_lt_u64 [of "rb_element_size rb"]
    by (intro bytes_at_cong) (auto simp: rb_foreign_def disjoint_regions_def)
  with s p(1-3) geo show ?case by (auto simp: rb_foreign_def)
next
  case (4 s x)
  then show ?case
    using pop_empty [of "fst s" x "snd s"] by (auto split: prod.splits simp flip: length_0_conv)
next
  case (5 s x v vs)
  obtain rb m where s: "s = (rb, m)" by fastforce
  with 5 have "rb_len rb \<noteq> 0" using rb_list_length [of rb m] by auto
  with s 5 obtain rb' m' where p: "ringbuffer_pop rb x m = Inr (errnum EOK, rb', m')" "rb_inv rb'"
    "rb_list rb m = bytes_at m' x (rb_esize rb) # rb_list rb' m'" "\<exists>i. rb' = rb\<lparr>rb_tail := i\<rparr>"
    using pop_not_empty [of rb x m] by auto
  from p(4) have geo: "rb_buffer rb' = rb_buffer rb" "rb_capacity rb' = rb_capacity rb"
    "rb_element_size rb' = rb_element_size rb" by auto
  with s p 5 show ?case by (auto simp: rb_foreign_def)
qed

section \<open>Properties\<close>

text \<open>
  C21. pushing an element that lies outside the buffer always returns; on a full buffer (one slot
  short of the capacity) it reports \<open>-ENOMEM\<close> and changes nothing, otherwise it appends exactly
  the bytes of the element to the queue and keeps the invariant.
\<close>

theorem ringbuffer_push_refines:
  assumes "rb_inv rb" and "rb_foreign rb data"
  shows "\<exists>e rb' m'. ringbuffer_push rb data m = Inr (e, rb', m') \<and> rb_inv rb' \<and>
    (if length (rb_list rb m) = rb_cap rb - 1
     then e = - errnum ENOMEM \<and> rb' = rb \<and> m' = m
     else e = errnum EOK \<and> rb_list rb' m' = rb_list rb m @ [bytes_at m data (rb_esize rb)])"
proof (cases "Suc (rb_len rb) = rb_cap rb")
  case True
  then show ?thesis using assms by (auto simp: push_full)
next
  case False
  then have "Suc (rb_len rb) < rb_cap rb" "rb_len rb \<noteq> rb_cap rb - 1"
    using rb_len_bound [OF assms(1)] by auto
  with push_not_full [OF assms(1) _ assms(2), of m] show ?thesis by fastforce
qed

definition demo_ring :: ring_buffer where
  "demo_ring = ringbuffer_init 1 4096 8"

theorem ringbuffer_push_refines_witness:
  "rb_inv demo_ring \<and> rb_foreign demo_ring 100 \<and>
   (\<exists>e rb' m'. ringbuffer_push demo_ring 100 ramp = Inr (e, rb', m') \<and> rb_inv rb' \<and>
    (if length (rb_list demo_ring ramp) = rb_cap demo_ring - 1
     then e = - errnum ENOMEM \<and> rb' = demo_ring \<and> m' = ramp
     else e = errnum EOK \<and>
       rb_list rb' m' = rb_list demo_ring ramp @ [bytes_at ramp 100 (rb_esize demo_ring)]))"
proof -
  have i: "rb_inv demo_ring" by (simp add: demo_ring_def ringbuffer_init_def rb_inv_def)
  have f: "rb_foreign demo_ring 100"
    unfolding rb_foreign_def by (rule disjoint_regionsI)
      (simp_all add: demo_ring_def ringbuffer_init_def)
  show ?thesis by (intro conjI i f ringbuffer_push_refines [OF i f])
qed

text \<open>
  a freshly initialised ring buffer takes any burst of at most \<open>capacity - 1\<close> elements, and
  popping as many returns their contents in the order in which they were pushed.
\<close>

lemma ringbuffer_burst_roundtrip:
  assumes "rb = ringbuffer_init es buf n" and "0 < n" and "unat buf + unat n * unat es \<le> 2 ^ 64"
    and "\<forall>d \<in> set ds. rb_foreign rb d" and "length ds < unat n" and "rb_foreign rb out"
  shows "\<exists>s1 s2.
    forE ds (\<lambda>d s. bindE (case s of (rb, m) \<Rightarrow> ringbuffer_push rb d m) (\<lambda>(e, s). Inr s)) (rb, m) =
      Inr s1 \<and>
    forE ds (\<lambda>_ (acc, s). bindE (case s of (rb, m) \<Rightarrow> ringbuffer_pop rb out m) (\<lambda>(e, s).
        Inr (acc @ [case s of (rb, m) \<Rightarrow> bytes_at m out (rb_esize rb)], s))) ([], s1) =
      Inr (map (\<lambda>d. bytes_at m d (unat es)) ds, s2)"
proof -
  have "rb_inv rb" using assms(1-3) by (simp add: ringbuffer_init_def rb_inv_def)
  moreover have "rb_list rb m = []" "rb_cap rb = unat n" "rb_esize rb = unat es"
    using assms(1) rb_list_init [of es buf n m] by (simp_all add: ringbuffer_init_def)
  moreover have "length ds \<le> unat n - 1" using assms(5) by simp
  ultimately show ?thesis
    using rbq.burst [of "(rb, m)" ds out] assms(4,6) by simp
qed

end
