(* ===== verification/Arena_Allocator.thy ===== *)
theory Arena_Allocator
  imports Common_Defs Byte_Memory
begin

text \<open>
  The bump allocator of \<open>lib/allocator/arena.c\<close>.  The lemmas show that allocations are carved
  from the pool without overlap until \<open>arena_reset\<close>, and when a request is refused.
\<close>

record arena =
  ar_pool :: ptr
  ar_count :: usize
  ar_capacity :: usize

text \<open>\<open>arena_init\<close> sets the pool and the capacity and leaves \<open>count\<close> as it is.\<close>

definition arena_init :: "arena \<Rightarrow> ptr \<Rightarrow> usize \<Rightarrow> arena" where
  "arena_init a pool cap = a\<lparr>ar_pool := pool, ar_capacity := cap\<rparr>"

definition arena_count :: "arena \<Rightarrow> usize" where
  "arena_count a = ar_count a"

definition arena_get_capacity :: "arena \<Rightarrow> usize" where
  "arena_get_capacity a = ar_capacity a"

definition arena_is_full :: "arena \<Rightarrow> bool" where
  "arena_is_full a \<longleftrightarrow> ar_count a = ar_capacity a"

definition arena_is_empty :: "arena \<Rightarrow> bool" where
  "arena_is_empty a \<longleftrightarrow> ar_count a = 0"

definition arena_left :: "arena \<Rightarrow> usize" where
  "arena_left a = ar_capacity a - ar_count a"

definition arena_can_fit :: "arena \<Rightarrow> usize \<Rightarrow> bool" where
  "arena_can_fit a sz \<longleftrightarrow> ar_capacity a - ar_count a \<ge> sz"

definition arena_alloc :: "arena \<Rightarrow> usize \<Rightarrow> ptr \<times> arena" where
  "arena_alloc a sz =
     (if arena_left a < sz then (ERR_TO_PTR (- errnum ENOMEM), a)
      else (ar_pool a + ar_count a, a\<lparr>ar_count := ar_count a + sz\<rparr>))"

definition arena_reset :: "arena \<Rightarrow> arena" where
  "arena_reset a = a\<lparr>ar_count := 0\<rparr>"

definition arena_base :: "arena \<Rightarrow> ptr" where
  "arena_base a = ar_pool a"

section \<open>Lemmas\<close>

definition arena_inv :: "arena \<Rightarrow> bool" where
  "arena_inv a \<longleftrightarrow> ar_count a \<le> ar_capacity a \<and>
     unat (ar_pool a) + unat (ar_capacity a) < 2 ^ 64 - 9"

lemma arena_inv_reset [simp]: "arena_inv a \<Longrightarrow> arena_inv (arena_reset a)"
  by (auto simp: arena_inv_def arena_reset_def)

lemma unat_arena_left: "arena_inv a \<Longrightarrow> unat (arena_left a) = unat (ar_capacity a) - unat (ar_count a)"
  by (simp add: arena_inv_def arena_left_def unat_sub_u64)

lemma can_fit_iff_left: "arena_can_fit a sz \<longleftrightarrow> \<not> arena_left a < sz"
  by (auto simp: arena_can_fit_def arena_left_def)

lemma arena_alloc_fits:
  assumes "arena_inv a" and "arena_can_fit a sz"
  shows "arena_alloc a sz = (ar_pool a + ar_count a, a\<lparr>ar_count := ar_count a + sz\<rparr>)"
    and "unat (ar_count a + sz) = unat (ar_count a) + unat sz"
    and "unat (ar_count a) + unat sz \<le> unat (ar_capacity a)"
    and "unat (ar_pool a + ar_count a) = unat (ar_pool a) + unat (ar_count a)"
proof -
  show "arena_alloc a sz = (ar_pool a + ar_count a, a\<lparr>ar_count := ar_count a + sz\<rparr>)"
    using assms(2) by (simp add: arena_alloc_def can_fit_iff_left)
  have "unat sz \<le> unat (ar_capacity a) - unat (ar_count a)"
    using assms unat_arena_left [OF assms(1)]
    by (simp add: arena_can_fit_def arena_left_def word_le_nat_alt)
  then show le: "unat (ar_count a) + unat sz \<le> unat (ar_capacity a)"
    using assms(1) by (auto simp: arena_inv_def word_le_nat_alt)
  then show "unat (ar_count a + sz) = unat (ar_count a) + unat sz"
    using unat_lt_u64 [of "ar_capacity a"] by (intro unat_add_u64) simp
  show "unat (ar_pool a + ar_count a) = unat (ar_pool a) + unat (ar_count a)"
    using assms(1) by (intro unat_add_u64) (simp add: arena_inv_def word_le_nat_alt)
qed

lemma arena_alloc_inv: "arena_inv a \<Longrightarrow> arena_alloc a sz = (p, a') \<Longrightarrow> arena_inv a'"
  using arena_alloc_fits(2,3) [of a sz]
  by (cases "arena_can_fit a sz")
    (auto simp: arena_alloc_def can_fit_iff_left arena_inv_def word_le_nat_alt split: if_splits)

section \<open>Property\<close>

text \<open>
  an arena allocation either fails with the error pointer \<open>-ENOMEM\<close> and leaves the arena as it
  is, exactly when fewer bytes are left than asked for, or returns a valid pointer to \<open>sz\<close>
  bytes inside the pool that no earlier allocation since the last reset (the first \<open>count\<close>
  bytes of the pool) covers, and accounts for them.
\<close>

lemma arena_alloc_correct:
  assumes "arena_inv a" and "arena_alloc a sz = (p, a')"
  shows "arena_inv a' \<and>
    (if unat (ar_capacity a) < unat (ar_count a) + unat sz
     then p = ERR_TO_PTR (- errnum ENOMEM) \<and> a' = a
     else \<not> IS_ERR p \<and> unat (ar_count a') = unat (ar_count a) + unat sz \<and>
       unat p = unat (ar_pool a) + unat (ar_count a) \<and>
       disjoint_regions (ar_pool a) (unat (ar_count a)) p (unat sz) \<and>
       unat p + unat sz \<le> unat (ar_pool a) + unat (ar_capacity a))"
proof (cases "arena_can_fit a sz")
  case True
  note fits = arena_alloc_fits [OF assms(1) True]
  have p: "p = ar_pool a + ar_count a" "a' = a\<lparr>ar_count := ar_count a + sz\<rparr>"
    using assms(2) fits(1) by simp_all
  have u: "unat p = unat (ar_pool a) + unat (ar_count a)"
    using fits(4) p(1) by simp
  have b: "unat (ar_pool a) + unat (ar_capacity a) < 2 ^ 64 - 9"
    using assms(1) by (simp add: arena_inv_def)
  have "disjoint_regions (ar_pool a) (unat (ar_count a)) p (unat sz)"
    using u b fits(3) by (intro disjoint_regionsI) auto
  moreover have "\<not> IS_ERR p"
    using u b fits(3) by (simp add: IS_ERR_iff)
  ultimately show ?thesis
    using u fits(2,3) p(2) arena_alloc_inv [OF assms] by simp
next
  case False
  then have "unat (arena_left a) < unat sz"
    by (simp add: can_fit_iff_left word_less_nat_alt)
  then have "unat (ar_capacity a) < unat (ar_count a) + unat sz"
    using unat_arena_left [OF assms(1)] by simp
  with False assms show ?thesis
    by (auto simp: arena_alloc_def can_fit_iff_left)
qed

end
