(* ===== verification/Spinlock.thy ===== *)
theory Spinlock
  imports Common_Defs
begin

text \<open>
  Interrupt masking (\<open>irq_push_intr\<close> and \<open>irq_pop_intr\<close> of
  \<open>kernel/irq/irq_controller.c\<close> with the \<open>DAIF\<close> accessors of \<open>aarch64.h\<close>) and the
  spinlock of \<open>kernel/sync/spinlock.c\<close>.

  The sequential functions run a lock operation on one cpu while nobody else moves: a lock that
  another cpu holds makes the acquire spin for ever.  \<open>spinlock_scoped\<close> is the macro
  \<open>spinlock_acquire_scoped\<close>: the critical section is what the rest of the enclosing C scope
  does.  The step relation \<open>lock_step\<close> splits the operations at their memory accesses and
  interleaves any number of cpus; mutual exclusion is an invariant of its reachable states.
\<close>

section \<open>Interrupt masking\<close>

text \<open>
  \<open>core\<close> is the executing cpu: the registers \<open>TPIDR_EL1\<close> (the address of its \<open>Cpu\<close>
  object, read by \<open>this_cpu\<close>) and \<open>DAIF\<close>, and the two fields of its \<open>Cpu\<close> object that
  count nested interrupt masking.
\<close>

record core =
  this_cpu :: ptr
  daif :: u64
  irq_disable_depth :: "32 word"
  irq_was_enabled :: bool

definition DAIF_I :: u64 where "DAIF_I = push_bit 7 1"
definition DAIF_F :: u64 where "DAIF_F = push_bit 6 1"

definition r_intrd_enabled :: "core \<Rightarrow> bool" where
  "r_intrd_enabled c \<longleftrightarrow> daif c AND (DAIF_F OR DAIF_I) = 0"

definition w_intrd_disable :: "core \<Rightarrow> core" where
  "w_intrd_disable c = c\<lparr>daif := daif c OR (DAIF_F OR DAIF_I)\<rparr>"

definition w_intrd_enable :: "core \<Rightarrow> core" where
  "w_intrd_enable c = c\<lparr>daif := daif c AND NOT (DAIF_F OR DAIF_I)\<rparr>"

definition irq_push_intr :: "core \<Rightarrow> core" where
  "irq_push_intr c =
     (let enabled_previously = r_intrd_enabled c;
          c = w_intrd_disable c;
          c = (if irq_disable_depth c = 0 then c\<lparr>irq_was_enabled := enabled_previously\<rparr> else c)
      in c\<lparr>irq_disable_depth := irq_disable_depth c + 1\<rparr>)"

definition irq_pop_intr :: "core \<Rightarrow> kerror + core" where
  "irq_pop_intr c =
     (if r_intrd_enabled c then Inl (Panic ''interrupts are already enabled'')
      else if sint (irq_disable_depth c) < 1 then Inl (Panic ''underflow'')
      else let c = c\<lparr>irq_disable_depth := irq_disable_depth c - 1\<rparr>
        in Inr (if irq_disable_depth c = 0 \<and> irq_was_enabled c then w_intrd_enable c else c))"

section \<open>The lock, run by one cpu\<close>

record spinlock =
  sl_locked :: bool
  sl_name :: string
  sl_cpu :: ptr

definition holding :: "core \<Rightarrow> spinlock \<Rightarrow> bool" where
  "holding c sp \<longleftrightarrow> sl_locked sp \<and> sl_cpu sp = this_cpu c"

definition spinlock_init :: "string \<Rightarrow> spinlock" where
  "spinlock_init name = \<lparr>sl_locked = False, sl_name = name, sl_cpu = nullptr\<rparr>"

definition spinlock_acquire :: "core \<Rightarrow> spinlock \<Rightarrow> kerror + core \<times> spinlock" where
  "spinlock_acquire c sp =
     (let c = irq_push_intr c in
      if holding c sp then Inl (Panic ''failed to acquire lock, already holding it.'')
      else if sl_locked sp then Inl Spinning
      else Inr (c, sp\<lparr>sl_locked := True, sl_cpu := this_cpu c\<rparr>))"

definition spinlock_release :: "core \<Rightarrow> spinlock \<Rightarrow> kerror + core \<times> spinlock" where
  "spinlock_release c sp =
     (if \<not> holding c sp then Inl (Panic ''failed to release lock, not holding it.'')
      else let sp = sp\<lparr>sl_cpu := nullptr\<rparr>; sp = sp\<lparr>sl_locked := False\<rparr>
        in bindE (irq_pop_intr c) (\<lambda>c. Inr (c, sp)))"

definition spinlock_scoped ::
  "core \<Rightarrow> spinlock \<Rightarrow> (core \<Rightarrow> kerror + 'a \<times> core) \<Rightarrow> kerror + 'a \<times> core \<times> spinlock" where
  "spinlock_scoped c sp body =
     bindE (spinlock_acquire c sp) (\<lambda>(c, sp).
     bindE (body c) (\<lambda>(a, c).
     bindE (spinlock_release c sp) (\<lambda>(c, sp). Inr (a, c, sp))))"

section \<open>Masking nests\<close>

text \<open>
  The invariant of a cpu between lock operations: the depth is a count with room for \<open>n\<close> more
  levels below the overflow of \<open>i32\<close>, and interrupts are masked while it is positive.
\<close>

definition core_ok :: "nat \<Rightarrow> core \<Rightarrow> bool" where
  "core_ok n c \<longleftrightarrow> 0 \<le> sint (irq_disable_depth c) \<and>
     sint (irq_disable_depth c) + int n < 2 ^ 31 \<and>
     (irq_disable_depth c \<noteq> 0 \<longrightarrow> \<not> r_intrd_enabled c) \<and> this_cpu c \<noteq> nullptr"

text \<open>
  The interrupt state of a cpu that callers can observe: whether interrupts are enabled, the
  depth, and, while masked, what the outermost pop will do.
\<close>

definition irq_view :: "core \<Rightarrow> ptr \<times> bool \<times> 32 word \<times> bool" where
  "irq_view c = (this_cpu c, r_intrd_enabled c, irq_disable_depth c,
     irq_disable_depth c \<noteq> 0 \<and> irq_was_enabled c)"

lemma mask_daif [simp]:
  "\<not> r_intrd_enabled (w_intrd_disable c)"
  "r_intrd_enabled (w_intrd_enable c)"
proof -
  have "(daif c OR (DAIF_F OR DAIF_I)) AND (DAIF_F OR DAIF_I) = DAIF_F OR DAIF_I"
    by (rule bit_word_eqI) (auto simp: bit_simps)
  moreover have "DAIF_F OR DAIF_I \<noteq> 0" by (simp add: DAIF_F_def DAIF_I_def)
  ultimately show "\<not> r_intrd_enabled (w_intrd_disable c)"
    by (simp add: r_intrd_enabled_def w_intrd_disable_def)
  have "(daif c AND NOT (DAIF_F OR DAIF_I)) AND (DAIF_F OR DAIF_I) = 0"
    by (rule bit_word_eqI) (auto simp: bit_simps)
  then show "r_intrd_enabled (w_intrd_enable c)"
    by (simp add: r_intrd_enabled_def w_intrd_enable_def)
qed

lemma r_intrd_enabled_upd [simp]:
  "r_intrd_enabled (c\<lparr>irq_disable_depth := d\<rparr>) = r_intrd_enabled c"
  "r_intrd_enabled (c\<lparr>irq_was_enabled := b\<rparr>) = r_intrd_enabled c"
  by (simp_all add: r_intrd_enabled_def)

lemma intrd_fields [simp]:
  "this_cpu (w_intrd_disable c) = this_cpu c" "this_cpu (w_intrd_enable c) = this_cpu c"
  "irq_disable_depth (w_intrd_disable c) = irq_disable_depth c"
  "irq_disable_depth (w_intrd_enable c) = irq_disable_depth c"
  "irq_was_enabled (w_intrd_disable c) = irq_was_enabled c"
  "irq_was_enabled (w_intrd_enable c) = irq_was_enabled c"
  by (simp_all add: w_intrd_disable_def w_intrd_enable_def)

lemma push_intr_fields [simp]:
  "this_cpu (irq_push_intr c) = this_cpu c"
  "irq_disable_depth (irq_push_intr c) = irq_disable_depth c + 1"
  "\<not> r_intrd_enabled (irq_push_intr c)"
  "irq_was_enabled (irq_push_intr c) =
     (if irq_disable_depth c = 0 then r_intrd_enabled c else irq_was_enabled c)"
  by (simp_all add: irq_push_intr_def Let_def)

lemma sint_inc:
  fixes d :: "32 word"
  assumes "0 \<le> sint d" and "sint d + 1 < 2 ^ 31"
  shows "sint (d + 1) = sint d + 1"
  using assms by (simp add: sint_word_ariths signed_take_bit_int_eq_self)

lemma core_ok_mono: "core_ok n c \<Longrightarrow> k \<le> n \<Longrightarrow> core_ok k c"
  by (auto simp: core_ok_def)

lemma core_ok_depth: "core_ok (Suc n) c \<Longrightarrow>
    sint (irq_disable_depth c + 1) = sint (irq_disable_depth c) + 1"
  by (rule sint_inc) (auto simp: core_ok_def)

lemma core_ok_push: "core_ok (Suc n) c \<Longrightarrow> core_ok n (irq_push_intr c)"
  using core_ok_depth [of n c] by (auto simp: core_ok_def)

lemma core_ok_view: "irq_view c' = irq_view c \<Longrightarrow> core_ok n c' \<longleftrightarrow> core_ok n c"
  by (auto simp: irq_view_def core_ok_def)

text \<open>
  Whatever runs between a push and its pop, if it leaves the interrupt state as it found it then
  the pop succeeds and gives back the state before the push.
\<close>

lemma pop_after_push:
  assumes ok: "core_ok (Suc n) c" and view: "irq_view c' = irq_view (irq_push_intr c)"
  shows "\<exists>c''. irq_pop_intr c' = Inr c'' \<and> irq_view c'' = irq_view c"
proof -
  have d: "sint (irq_disable_depth c + 1) = sint (irq_disable_depth c) + 1"
    using ok by (rule core_ok_depth)
  then have nz: "irq_disable_depth c + 1 \<noteq> 0"
    using ok by (auto simp: core_ok_def)
  from view nz have c': "this_cpu c' = this_cpu c" "\<not> r_intrd_enabled c'"
    "irq_disable_depth c' = irq_disable_depth c + 1"
    "irq_was_enabled c' = irq_was_enabled (irq_push_intr c)"
    by (auto simp: irq_view_def)
  show ?thesis
    using ok d c' by (auto simp: irq_pop_intr_def irq_view_def core_ok_def Let_def)
qed

section \<open>Lock scopes\<close>

definition lock_free :: "spinlock \<Rightarrow> bool" where
  "lock_free sp \<longleftrightarrow> \<not> sl_locked sp \<and> sl_cpu sp = nullptr"

lemma lock_free_init [simp]: "lock_free (spinlock_init name)"
  by (simp add: lock_free_def spinlock_init_def)

lemma acquire_free:
  assumes "lock_free sp"
  shows "spinlock_acquire c sp = Inr (irq_push_intr c, sp\<lparr>sl_locked := True, sl_cpu := this_cpu c\<rparr>)"
  using assms by (simp add: lock_free_def spinlock_acquire_def holding_def Let_def)

lemma acquire_not_free:
  assumes "sl_locked sp"
  shows "\<exists>e. spinlock_acquire c sp = Inl e"
  using assms by (simp add: spinlock_acquire_def Let_def)

lemma release_held:
  assumes "lock_free sp" and "this_cpu c' = this_cpu c" and "irq_pop_intr c' = Inr c''"
  shows "spinlock_release c' (sp\<lparr>sl_locked := True, sl_cpu := this_cpu c\<rparr>) = Inr (c'', sp)"
  using assms by (cases sp) (simp add: spinlock_release_def holding_def lock_free_def Let_def)

text \<open>
  A scope entered with a free lock runs its body with interrupts masked and gives the lock and
  the interrupt state back; it stops where the body stops.
\<close>

lemma scoped_returns:
  assumes ok: "core_ok (Suc n) c" and free: "lock_free sp"
    and body: "body (irq_push_intr c) = Inr (a, c1)" and view: "irq_view c1 = irq_view (irq_push_intr c)"
  shows "\<exists>c'. spinlock_scoped c sp body = Inr (a, c', sp) \<and> irq_view c' = irq_view c"
proof -
  obtain c' where c': "irq_pop_intr c1 = Inr c'" "irq_view c' = irq_view c"
    using pop_after_push [OF ok view] by blast
  have "this_cpu c1 = this_cpu c" using view by (simp add: irq_view_def)
  with c' free body show ?thesis
    by (auto simp: spinlock_scoped_def acquire_free release_held)
qed

lemma scoped_stops:
  assumes "lock_free sp" and "body (irq_push_intr c) = Inl e"
  shows "spinlock_scoped c sp body = Inl e"
  using assms by (simp add: spinlock_scoped_def acquire_free)

text \<open>The common case of a body that does not touch the interrupt state at all.\<close>

definition irq_cycle :: "core \<Rightarrow> core" where
  "irq_cycle c = (case irq_pop_intr (irq_push_intr c) of Inl e \<Rightarrow> c | Inr c' \<Rightarrow> c')"

lemma pop_push_cycle:
  assumes "core_ok (Suc n) c"
  shows "irq_pop_intr (irq_push_intr c) = Inr (irq_cycle c)" and "irq_view (irq_cycle c) = irq_view c"
  using pop_after_push [OF assms refl] by (auto simp: irq_cycle_def)

lemma core_ok_cycle [simp]:
  assumes "core_ok (Suc n) c"
  shows "core_ok (Suc n) (irq_cycle c)"
  using assms core_ok_view [OF pop_push_cycle(2) [OF assms]] by blast

lemma scoped_pure:
  assumes "core_ok (Suc n) c" and "lock_free sp"
  shows "spinlock_scoped c sp (\<lambda>c. bindE f (\<lambda>a. Inr (a, c))) = bindE f (\<lambda>a. Inr (a, irq_cycle c, sp))"
  using assms release_held [OF assms(2) _ pop_push_cycle(1) [OF assms(1)], of c]
  by (cases f) (simp_all add: spinlock_scoped_def acquire_free)

lemmas scoped_return = scoped_pure [where f = "Inr x" for x, simplified]

end
