(* ===== verification/Lock_Protocol.thy ===== *)
theory Lock_Protocol
  imports Spinlock
begin

text \<open>
  The spinlock under interleaving.  Each cpu (identified by the address of its \<open>Cpu\<close> object)
  runs \<open>spinlock_acquire\<close>, its critical section and \<open>spinlock_release\<close> again and again.
  A step is one access of one cpu to the lock word, the owner field or its own interrupt state,
  in the program order of \<open>kernel/sync/spinlock.c\<close>; the two reads of \<open>holding\<close> are two
  steps, and the atomic exchange is one.  The memory barriers of the code are what makes the
  steps of different cpus take effect in one order.
\<close>

section \<open>The step relation\<close>

datatype pc =
  Outside        \<comment> \<open>not using the lock\<close>
| Pushed         \<comment> \<open>acquire: interrupts masked\<close>
| SawLocked      \<comment> \<open>acquire: \<open>holding\<close> has read \<open>locked\<close> as true\<close>
| Exchanging     \<comment> \<open>acquire: in the exchange loop\<close>
| GotLock        \<comment> \<open>acquire: exchange returned false, owner not recorded yet\<close>
| Critical       \<comment> \<open>acquire returned\<close>
| RSawLocked     \<comment> \<open>release: \<open>holding\<close> has read \<open>locked\<close> as true\<close>
| RHolding       \<comment> \<open>release: \<open>holding\<close> returned true\<close>
| Cleared        \<comment> \<open>release: owner cleared, lock word still set\<close>
| Unlocked       \<comment> \<open>release: lock word cleared, interrupts still masked\<close>
| Panicked

record lock_sys =
  ls_lock :: spinlock
  ls_pc :: "ptr \<Rightarrow> pc"
  ls_core :: "ptr \<Rightarrow> core"

abbreviation goto :: "ptr \<Rightarrow> pc \<Rightarrow> lock_sys \<Rightarrow> lock_sys" where
  "goto i q s \<equiv> s\<lparr>ls_pc := (ls_pc s)(i := q)\<rparr>"

inductive lock_step :: "lock_sys \<Rightarrow> lock_sys \<Rightarrow> bool" where
  push: "ls_pc s i = Outside \<Longrightarrow> i \<noteq> nullptr \<Longrightarrow>
     lock_step s (goto i Pushed (s\<lparr>ls_core := (ls_core s)(i := irq_push_intr (ls_core s i))\<rparr>))"
| read_unlocked: "ls_pc s i = Pushed \<Longrightarrow> \<not> sl_locked (ls_lock s) \<Longrightarrow>
     lock_step s (goto i Exchanging s)"
| read_locked: "ls_pc s i = Pushed \<Longrightarrow> sl_locked (ls_lock s) \<Longrightarrow>
     lock_step s (goto i SawLocked s)"
| read_other: "ls_pc s i = SawLocked \<Longrightarrow> sl_cpu (ls_lock s) \<noteq> this_cpu (ls_core s i) \<Longrightarrow>
     lock_step s (goto i Exchanging s)"
| read_self: "ls_pc s i = SawLocked \<Longrightarrow> sl_cpu (ls_lock s) = this_cpu (ls_core s i) \<Longrightarrow>
     lock_step s (goto i Panicked s)"
| exchange_fails: "ls_pc s i = Exchanging \<Longrightarrow> sl_locked (ls_lock s) \<Longrightarrow>
     lock_step s s"
| exchange_succeeds: "ls_pc s i = Exchanging \<Longrightarrow> \<not> sl_locked (ls_lock s) \<Longrightarrow>
     lock_step s (goto i GotLock (s\<lparr>ls_lock := (ls_lock s)\<lparr>sl_locked := True\<rparr>\<rparr>))"
| record_owner: "ls_pc s i = GotLock \<Longrightarrow>
     lock_step s (goto i Critical
       (s\<lparr>ls_lock := (ls_lock s)\<lparr>sl_cpu := this_cpu (ls_core s i)\<rparr>\<rparr>))"
| release_locked: "ls_pc s i = Critical \<Longrightarrow> sl_locked (ls_lock s) \<Longrightarrow>
     lock_step s (goto i RSawLocked s)"
| release_unlocked: "ls_pc s i = Critical \<Longrightarrow> \<not> sl_locked (ls_lock s) \<Longrightarrow>
     lock_step s (goto i Panicked s)"
| release_self: "ls_pc s i = RSawLocked \<Longrightarrow> sl_cpu (ls_lock s) = this_cpu (ls_core s i) \<Longrightarrow>
     lock_step s (goto i RHolding s)"
| release_other: "ls_pc s i = RSawLocked \<Longrightarrow> sl_cpu (ls_lock s) \<noteq> this_cpu (ls_core s i) \<Longrightarrow>
     lock_step s (goto i Panicked s)"
| clear_owner: "ls_pc s i = RHolding \<Longrightarrow>
     lock_step s (goto i Cleared (s\<lparr>ls_lock := (ls_lock s)\<lparr>sl_cpu := nullptr\<rparr>\<rparr>))"
| clear_locked: "ls_pc s i = Cleared \<Longrightarrow>
     lock_step s (goto i Unlocked (s\<lparr>ls_lock := (ls_lock s)\<lparr>sl_locked := False\<rparr>\<rparr>))"
| pop: "ls_pc s i = Unlocked \<Longrightarrow> irq_pop_intr (ls_core s i) = Inr c \<Longrightarrow>
     lock_step s (goto i Outside (s\<lparr>ls_core := (ls_core s)(i := c)\<rparr>))"
| pop_panics: "ls_pc s i = Unlocked \<Longrightarrow> irq_pop_intr (ls_core s i) = Inl e \<Longrightarrow>
     lock_step s (goto i Panicked s)"

definition lock_start :: "lock_sys \<Rightarrow> bool" where
  "lock_start s \<longleftrightarrow> lock_free (ls_lock s) \<and> (\<forall>i. ls_pc s i = Outside) \<and>
     (\<forall>i. i \<noteq> nullptr \<longrightarrow> core_ok (Suc 0) (ls_core s i) \<and> this_cpu (ls_core s i) = i)"

inductive lock_reachable :: "lock_sys \<Rightarrow> bool" where
  start: "lock_start s \<Longrightarrow> lock_reachable s"
| step: "lock_reachable s \<Longrightarrow> lock_step s t \<Longrightarrow> lock_reachable t"

section \<open>The invariant\<close>

definition owns_word :: "pc \<Rightarrow> bool" where
  "owns_word q \<longleftrightarrow> q \<in> {GotLock, Critical, RSawLocked, RHolding, Cleared}"

definition owner_recorded :: "pc \<Rightarrow> bool" where
  "owner_recorded q \<longleftrightarrow> q \<in> {Critical, RSawLocked, RHolding}"

definition word_inv :: "lock_sys \<Rightarrow> bool" where
  "word_inv s \<longleftrightarrow> (\<forall>i j. owns_word (ls_pc s i) \<longrightarrow> owns_word (ls_pc s j) \<longrightarrow> i = j) \<and>
     (\<forall>i. owns_word (ls_pc s i) \<longrightarrow> sl_locked (ls_lock s)) \<and>
     (\<forall>i. owner_recorded (ls_pc s i) \<longrightarrow> sl_cpu (ls_lock s) = i) \<and>
     (sl_cpu (ls_lock s) \<noteq> nullptr \<longrightarrow> owner_recorded (ls_pc s (sl_cpu (ls_lock s))))"

definition core_inv :: "lock_sys \<Rightarrow> bool" where
  "core_inv s \<longleftrightarrow> (\<forall>i. (ls_pc s i \<noteq> Outside \<longrightarrow> i \<noteq> nullptr) \<and>
     (i \<noteq> nullptr \<longrightarrow> this_cpu (ls_core s i) = i \<and>
        (if ls_pc s i = Outside then core_ok (Suc 0) (ls_core s i)
         else \<exists>c. core_ok (Suc 0) c \<and> ls_core s i = irq_push_intr c)))"

definition lock_inv :: "lock_sys \<Rightarrow> bool" where
  "lock_inv s \<longleftrightarrow> word_inv s \<and> core_inv s \<and> (\<forall>i. ls_pc s i \<noteq> Panicked)"

lemma pc_class [simp]:
  "owns_word Outside = False" "owns_word Pushed = False" "owns_word SawLocked = False"
  "owns_word Exchanging = False" "owns_word GotLock = True" "owns_word Critical = True"
  "owns_word RSawLocked = True" "owns_word RHolding = True" "owns_word Cleared = True"
  "owns_word Unlocked = False" "owns_word Panicked = False"
  "owner_recorded Outside = False" "owner_recorded Pushed = False" "owner_recorded SawLocked = False"
  "owner_recorded Exchanging = False" "owner_recorded GotLock = False" "owner_recorded Critical = True"
  "owner_recorded RSawLocked = True" "owner_recorded RHolding = True" "owner_recorded Cleared = False"
  "owner_recorded Unlocked = False" "owner_recorded Panicked = False"
  by (simp_all add: owns_word_def owner_recorded_def)

lemma owner_recorded_owns: "owner_recorded q \<Longrightarrow> owns_word q"
  by (auto simp: owns_word_def owner_recorded_def)

lemmas word_inv_unique = word_inv_def [THEN iffD1, THEN conjunct1, rule_format]

lemma word_inv_locked: "word_inv s \<Longrightarrow> owns_word (ls_pc s i) \<Longrightarrow> sl_locked (ls_lock s)"
  by (auto simp: word_inv_def)

lemma word_inv_recorded: "word_inv s \<Longrightarrow> owner_recorded (ls_pc s i) \<Longrightarrow> sl_cpu (ls_lock s) = i"
  by (auto simp: word_inv_def)

text \<open>Steps that do not write the lock and keep the class of the cpu that moves.\<close>

lemma word_inv_same:
  assumes "word_inv s" and "ls_lock t = ls_lock s" and "ls_pc t = (ls_pc s)(i := q)"
    and "owns_word q = owns_word (ls_pc s i)" and "owner_recorded q = owner_recorded (ls_pc s i)"
  shows "word_inv t"
proof -
  have "owns_word (ls_pc t j) = owns_word (ls_pc s j)"
    "owner_recorded (ls_pc t j) = owner_recorded (ls_pc s j)" for j
    using assms(3-5) by simp_all
  with assms(1,2) show ?thesis by (simp add: word_inv_def)
qed

lemma word_inv_exchange:
  assumes inv: "word_inv s" and "ls_pc s i = Exchanging" and "\<not> sl_locked (ls_lock s)"
  shows "word_inv (goto i GotLock (s\<lparr>ls_lock := (ls_lock s)\<lparr>sl_locked := True\<rparr>\<rparr>))"
proof -
  have "\<not> owns_word (ls_pc s j)" "\<not> owner_recorded (ls_pc s j)" for j
    using word_inv_locked [OF inv] assms(3) owner_recorded_owns by blast+
  with inv show ?thesis by (auto simp: word_inv_def)
qed

lemma word_inv_record:
  assumes inv: "word_inv s" and "ls_pc s i = GotLock" and "this_cpu (ls_core s i) = i"
  shows "word_inv (goto i Critical (s\<lparr>ls_lock := (ls_lock s)\<lparr>sl_cpu := this_cpu (ls_core s i)\<rparr>\<rparr>))"
proof -
  have i: "owns_word (ls_pc s i)" using assms(2) by simp
  have "owns_word (ls_pc s j) \<longleftrightarrow> j = i" "owner_recorded (ls_pc s j) \<longrightarrow> j = i" for j
    using word_inv_unique [OF inv _ i] i owner_recorded_owns by blast+
  with inv i assms(3) word_inv_locked [OF inv i] show ?thesis by (auto simp: word_inv_def)
qed

lemma word_inv_clear_owner:
  assumes inv: "word_inv s" and "ls_pc s i = RHolding"
  shows "word_inv (goto i Cleared (s\<lparr>ls_lock := (ls_lock s)\<lparr>sl_cpu := nullptr\<rparr>\<rparr>))"
proof -
  have i: "owns_word (ls_pc s i)" using assms(2) by simp
  have "owns_word (ls_pc s j) \<longleftrightarrow> j = i" "owner_recorded (ls_pc s j) \<longrightarrow> j = i" for j
    using word_inv_unique [OF inv _ i] i owner_recorded_owns by blast+
  with inv i word_inv_locked [OF inv i] show ?thesis by (auto simp: word_inv_def)
qed

lemma word_inv_clear_locked:
  assumes inv: "word_inv s" and "ls_pc s i = Cleared"
  shows "word_inv (goto i Unlocked (s\<lparr>ls_lock := (ls_lock s)\<lparr>sl_locked := False\<rparr>\<rparr>))"
proof -
  have i: "owns_word (ls_pc s i)" using assms(2) by simp
  have o: "owns_word (ls_pc s j) \<longleftrightarrow> j = i" for j
    using word_inv_unique [OF inv _ i] i by blast
  have r: "\<not> owner_recorded (ls_pc s j)" for j
    using o [of j] owner_recorded_owns [of "ls_pc s j"] assms(2) by (cases "j = i") auto
  with inv o r show ?thesis by (auto simp: word_inv_def)
qed

lemma core_inv_same:
  assumes "core_inv s" and "ls_core t = ls_core s" and "ls_pc t = (ls_pc s)(i := q)"
    and "ls_pc s i \<noteq> Outside" and "q \<noteq> Outside"
  shows "core_inv t"
  unfolding core_inv_def
proof
  fix j
  have "(ls_pc t j = Outside) = (ls_pc s j = Outside)" using assms(3-5) by simp
  with assms(1,2) show "(ls_pc t j \<noteq> Outside \<longrightarrow> j \<noteq> nullptr) \<and>
      (j \<noteq> nullptr \<longrightarrow> this_cpu (ls_core t j) = j \<and>
        (if ls_pc t j = Outside then core_ok (Suc 0) (ls_core t j)
         else \<exists>c. core_ok (Suc 0) c \<and> ls_core t j = irq_push_intr c))"
    by (simp add: core_inv_def)
qed

text \<open>In a state with the invariant a cpu knows itself and can always pop what it pushed.\<close>

lemma core_inv_this: "core_inv s \<Longrightarrow> ls_pc s i \<noteq> Outside \<Longrightarrow> this_cpu (ls_core s i) = i \<and> i \<noteq> nullptr"
  by (auto simp: core_inv_def)

lemma core_inv_pushed:
  "core_inv s \<Longrightarrow> ls_pc s i \<noteq> Outside \<Longrightarrow> \<exists>c. core_ok (Suc 0) c \<and> ls_core s i = irq_push_intr c"
  by (auto simp: core_inv_def)

lemma core_inv_pop:
  assumes "core_inv s" and "ls_pc s i \<noteq> Outside"
  shows "\<exists>c. irq_pop_intr (ls_core s i) = Inr c \<and> core_ok (Suc 0) c \<and> this_cpu c = i"
proof -
  from assms obtain c where c: "core_ok (Suc 0) c" "ls_core s i = irq_push_intr c" "this_cpu (ls_core s i) = i"
    using core_inv_pushed core_inv_this by metis
  then show ?thesis
    using pop_push_cycle [of 0 c] core_ok_view [of "irq_cycle c" c "Suc 0"] by (auto simp: irq_view_def)
qed

lemma core_inv_push:
  assumes c: "core_inv s" and "ls_pc s i = Outside" and "i \<noteq> nullptr"
  shows "core_inv (goto i Pushed (s\<lparr>ls_core := (ls_core s)(i := irq_push_intr (ls_core s i))\<rparr>))"
proof -
  have "core_ok (Suc 0) (ls_core s i)" "this_cpu (ls_core s i) = i"
    using assms by (auto simp: core_inv_def)
  then have "\<exists>c. core_ok (Suc 0) c \<and> irq_push_intr (ls_core s i) = irq_push_intr c" by blast
  with c assms(3) \<open>this_cpu (ls_core s i) = i\<close> show ?thesis by (simp add: core_inv_def)
qed

lemma lock_inv_step:
  assumes "lock_step s t" and inv: "lock_inv s"
  shows "lock_inv t"
proof -
  have w: "word_inv s" and c: "core_inv s" and p: "\<And>i. ls_pc s i \<noteq> Panicked"
    using inv by (auto simp: lock_inv_def)
  have self: "owner_recorded (ls_pc s i)" if "sl_cpu (ls_lock s) = i" "i \<noteq> nullptr" for i
    using w that by (auto simp: word_inv_def)
  from assms(1) have "word_inv t \<and> core_inv t \<and> (\<forall>i. ls_pc t i \<noteq> Panicked)"
  proof cases
    case (push i)
    with p core_inv_push [OF c, of i] word_inv_same [OF w, of t i Pushed] show ?thesis by simp
  next
    case (read_self i)
    then show ?thesis using core_inv_this [OF c, of i] self [of i] by auto
  next
    case (record_owner i)
    then show ?thesis
      using p word_inv_record [OF w] core_inv_this [OF c, of i]
        core_inv_same [OF c, of t i Critical] by auto
  next
    case (release_unlocked i)
    then show ?thesis using word_inv_locked [OF w, of i] by auto
  next
    case (release_other i)
    then show ?thesis using word_inv_recorded [OF w, of i] core_inv_this [OF c, of i] by auto
  next
    case (pop i c')
    then obtain c0 where "irq_pop_intr (ls_core s i) = Inr c0" "core_ok (Suc 0) c0" "this_cpu c0 = i"
      using core_inv_pop [OF c, of i] by auto
    with pop w c p show ?thesis
      by (auto intro: word_inv_same [OF w, of _ i Outside] simp: core_inv_def)
  next
    case (pop_panics i e)
    then show ?thesis using core_inv_pop [OF c, of i] by auto
  next
    case (exchange_succeeds i)
    with p word_inv_exchange [OF w, of i] core_inv_same [OF c, of t i GotLock] show ?thesis by simp
  next
    case (clear_owner i)
    with p word_inv_clear_owner [OF w, of i] core_inv_same [OF c, of t i Cleared] show ?thesis by simp
  next
    case (clear_locked i)
    with p word_inv_clear_locked [OF w, of i] core_inv_same [OF c, of t i Unlocked] show ?thesis by simp
  qed (use p w c in \<open>auto intro: word_inv_same [OF w] core_inv_same [OF c]\<close>)
  then show ?thesis by (simp add: lock_inv_def)
qed

lemma lock_inv_start: "lock_start s \<Longrightarrow> lock_inv s"
  by (auto simp: lock_start_def lock_inv_def word_inv_def core_inv_def lock_free_def)

lemma reachable_inv: "lock_reachable s \<Longrightarrow> lock_inv s"
  by (induction rule: lock_reachable.induct) (auto intro: lock_inv_start lock_inv_step)

inductive_cases lock_stepE: "lock_step s t"
inductive_simps lock_reachable_iff: "lock_reachable s"

section \<open>Sequential operations are runs of the protocol\<close>

lemma lock_reachable_run: "lock_step\<^sup>*\<^sup>* s t \<Longrightarrow> lock_reachable s \<Longrightarrow> lock_reachable t"
  by (induction rule: rtranclp_induct) (auto intro: lock_reachable.step)

definition put_lock :: "ptr \<Rightarrow> pc \<Rightarrow> core \<times> spinlock \<Rightarrow> lock_sys \<Rightarrow> lock_sys" where
  "put_lock i q cl s = s\<lparr>ls_lock := snd cl, ls_pc := (ls_pc s)(i := q), ls_core := (ls_core s)(i := fst cl)\<rparr>"

lemma acquire_run:
  assumes "ls_pc s i = Outside" and "i \<noteq> nullptr"
    and acq: "spinlock_acquire (ls_core s i) (ls_lock s) = Inr r"
  shows "lock_step\<^sup>*\<^sup>* s (put_lock i Critical r s)"
proof -
  have free: "\<not> sl_locked (ls_lock s)"
    and r: "r = (irq_push_intr (ls_core s i), (ls_lock s)\<lparr>sl_locked := True, sl_cpu := this_cpu (ls_core s i)\<rparr>)"
    using acq by (auto simp: spinlock_acquire_def Let_def split: if_splits)
  let ?s1 = "goto i Pushed (s\<lparr>ls_core := (ls_core s)(i := irq_push_intr (ls_core s i))\<rparr>)"
  let ?s2 = "goto i Exchanging ?s1"
  let ?s3 = "goto i GotLock (?s2\<lparr>ls_lock := (ls_lock ?s2)\<lparr>sl_locked := True\<rparr>\<rparr>)"
  let ?s4 = "goto i Critical (?s3\<lparr>ls_lock := (ls_lock ?s3)\<lparr>sl_cpu := this_cpu (ls_core ?s3 i)\<rparr>\<rparr>)"
  have "lock_step\<^sup>*\<^sup>* s ?s1" by (rule r_into_rtranclp, rule lock_step.push) (use assms(1,2) in simp_all)
  also have "lock_step ?s1 ?s2" by (rule lock_step.read_unlocked) (use free in simp_all)
  also have "lock_step ?s2 ?s3" by (rule lock_step.exchange_succeeds) (use free in simp_all)
  also have "lock_step ?s3 ?s4" by (rule lock_step.record_owner) simp
  finally have "lock_step\<^sup>*\<^sup>* s ?s4" .
  moreover have "?s4 = put_lock i Critical r s" using r by (simp add: put_lock_def)
  ultimately show ?thesis by simp
qed

lemma release_run:
  assumes "ls_pc s i = Critical"
    and rel: "spinlock_release (ls_core s i) (ls_lock s) = Inr r"
  shows "lock_step\<^sup>*\<^sup>* s (put_lock i Outside r s)"
proof -
  obtain c where hold: "sl_locked (ls_lock s)" "sl_cpu (ls_lock s) = this_cpu (ls_core s i)"
    and pop: "irq_pop_intr (ls_core s i) = Inr c"
    and r: "r = (c, (ls_lock s)\<lparr>sl_locked := False, sl_cpu := nullptr\<rparr>)"
    using rel by (auto simp: spinlock_release_def holding_def Let_def bind_rules split: if_splits)
  let ?s2 = "goto i RHolding (goto i RSawLocked s)"
  let ?s3 = "goto i Cleared (?s2\<lparr>ls_lock := (ls_lock ?s2)\<lparr>sl_cpu := nullptr\<rparr>\<rparr>)"
  let ?s4 = "goto i Unlocked (?s3\<lparr>ls_lock := (ls_lock ?s3)\<lparr>sl_locked := False\<rparr>\<rparr>)"
  let ?s5 = "goto i Outside (?s4\<lparr>ls_core := (ls_core ?s4)(i := c)\<rparr>)"
  have "lock_step\<^sup>*\<^sup>* s (goto i RSawLocked s)"
    by (rule r_into_rtranclp, rule lock_step.release_locked) (use assms(1) hold(1) in simp_all)
  also have "lock_step (goto i RSawLocked s) ?s2"
    by (rule lock_step.release_self) (use hold in simp_all)
  also have "lock_step ?s2 ?s3" by (rule lock_step.clear_owner) simp
  also have "lock_step ?s3 ?s4" by (rule lock_step.clear_locked) simp
  also have "lock_step ?s4 ?s5" by (rule lock_step.pop) (use pop in simp_all)
  finally have "lock_step\<^sup>*\<^sup>* s ?s5" .
  moreover have "?s5 = put_lock i Outside r s" using r by (simp add: put_lock_def)
  ultimately show ?thesis by simp
qed

lemma acquire_possible:
  "\<not> sl_locked (ls_lock s) \<Longrightarrow> \<exists>r. spinlock_acquire (ls_core s i) (ls_lock s) = Inr r"
  by (auto simp: spinlock_acquire_def holding_def Let_def)

lemma release_possible:
  assumes "lock_reachable s" and "ls_pc s i = Critical"
  shows "\<exists>r. spinlock_release (ls_core s i) (ls_lock s) = Inr r \<and> \<not> sl_locked (snd r)"
proof -
  have w: "word_inv s" and c: "core_inv s"
    using reachable_inv [OF assms(1)] by (simp_all add: lock_inv_def)
  then have "holding (ls_core s i) (ls_lock s)" "\<exists>c. irq_pop_intr (ls_core s i) = Inr c"
    using assms(2) word_inv_locked [OF w, of i] word_inv_recorded [OF w, of i] core_inv_this [OF c, of i]
      core_inv_pop [OF c, of i] by (auto simp: holding_def)
  then show ?thesis by (auto simp: spinlock_release_def Let_def)
qed

section \<open>Mutual exclusion\<close>

definition boot_locks :: lock_sys where
  "boot_locks = \<lparr>ls_lock = spinlock_init ''irq lock'', ls_pc = (\<lambda>_. Outside),
     ls_core = (\<lambda>i. \<lparr>this_cpu = i, daif = 0, irq_disable_depth = 0, irq_was_enabled = False\<rparr>)\<rparr>"

definition cpu1_inside :: lock_sys where
  "cpu1_inside = put_lock 0x1000 Critical
     (irq_push_intr (ls_core boot_locks 0x1000),
      \<lparr>sl_locked = True, sl_name = ''irq lock'', sl_cpu = 0x1000\<rparr>) boot_locks"

lemma boot_locks_reachable: "lock_reachable boot_locks"
  by (rule lock_reachable.start) (simp add: lock_start_def boot_locks_def core_ok_def)

lemma cpu1_inside_reachable: "lock_reachable cpu1_inside"
proof -
  have "spinlock_acquire (ls_core boot_locks 0x1000) (ls_lock boot_locks) =
      Inr (irq_push_intr (ls_core boot_locks 0x1000),
        \<lparr>sl_locked = True, sl_name = ''irq lock'', sl_cpu = 0x1000\<rparr>)"
    by (simp add: spinlock_acquire_def boot_locks_def spinlock_init_def holding_def Let_def)
  then have "lock_step\<^sup>*\<^sup>* boot_locks cpu1_inside"
    unfolding cpu1_inside_def by (intro acquire_run) (simp_all add: boot_locks_def)
  then show ?thesis using boot_locks_reachable by (rule lock_reachable_run)
qed

text \<open>
  C3.  Mutual exclusion.  In every state that any number of cpus can reach by interleaving
  \<open>spinlock_acquire\<close> and \<open>spinlock_release\<close> at their memory accesses, a cpu between the two
  calls is alone there: no other cpu has its exchange won, the lock word is set, the owner
  field names it, and its interrupts are masked.
\<close>

theorem spinlock_mutual_exclusion:
  assumes "lock_reachable s" and "ls_pc s i = Critical"
  shows "(\<forall>j. owns_word (ls_pc s j) = (j = i)) \<and> sl_locked (ls_lock s) \<and>
    sl_cpu (ls_lock s) = this_cpu (ls_core s i) \<and> holding (ls_core s i) (ls_lock s) \<and>
    \<not> r_intrd_enabled (ls_core s i)"
proof -
  have w: "word_inv s" and c: "core_inv s"
    using reachable_inv [OF assms(1)] by (simp_all add: lock_inv_def)
  have i: "owns_word (ls_pc s i)" "owner_recorded (ls_pc s i)" "ls_pc s i \<noteq> Outside"
    using assms(2) by simp_all
  have "\<forall>j. owns_word (ls_pc s j) = (j = i)" using word_inv_unique [OF w _ i(1)] i(1) by blast
  moreover have "this_cpu (ls_core s i) = i" using core_inv_this [OF c i(3)] by simp
  moreover have "\<not> r_intrd_enabled (ls_core s i)" using core_inv_pushed [OF c i(3)] by auto
  ultimately show ?thesis
    using word_inv_locked [OF w i(1)] word_inv_recorded [OF w i(2)] by (simp add: holding_def)
qed

theorem spinlock_mutual_exclusion_witness:
  "lock_reachable cpu1_inside \<and> ls_pc cpu1_inside 0x1000 = Critical \<and>
   (\<forall>j. owns_word (ls_pc cpu1_inside j) = (j = 0x1000)) \<and> sl_locked (ls_lock cpu1_inside)"
proof -
  have crit: "ls_pc cpu1_inside 0x1000 = Critical" by (simp add: cpu1_inside_def put_lock_def)
  show ?thesis
    using spinlock_mutual_exclusion [OF cpu1_inside_reachable crit] cpu1_inside_reachable crit by simp
qed

text \<open>
  The lock operations are safe under every interleaving: no reachable step ends in the
  panics \<open>already holding it\<close>, \<open>not holding it\<close>, \<open>interrupts are already enabled\<close> or
  \<open>underflow\<close>, although \<open>holding\<close> reads the lock word and the owner without the lock.
\<close>

lemma spinlock_never_panics:
  assumes "lock_reachable s" and "lock_step s t"
  shows "ls_pc t i \<noteq> Panicked"
  using reachable_inv [OF lock_reachable.step [OF assms]] by (simp add: lock_inv_def)

text \<open>
  The sequential functions refine the protocol: where \<open>spinlock_acquire\<close> run alone
  returns, its effect is a run of steps of that cpu from outside the lock into the critical
  section, and a \<open>spinlock_release\<close> that returns is a run back out; and in a reachable
  state a cpu inside its critical section can always release, while a cpu outside can always
  acquire a lock that is not held.
\<close>

lemma spinlock_sequential_refines:
  assumes "lock_reachable s" and "i \<noteq> nullptr"
  shows "(ls_pc s i = Outside \<and> \<not> sl_locked (ls_lock s) \<longrightarrow>
      (\<exists>r. spinlock_acquire (ls_core s i) (ls_lock s) = Inr r \<and> lock_step\<^sup>*\<^sup>* s (put_lock i Critical r s))) \<and>
    (ls_pc s i = Critical \<longrightarrow>
      (\<exists>r. spinlock_release (ls_core s i) (ls_lock s) = Inr r \<and> \<not> sl_locked (snd r) \<and>
           lock_step\<^sup>*\<^sup>* s (put_lock i Outside r s)))"
  using acquire_possible [of s i] release_possible [OF assms(1), of i] acquire_run [of s i] release_run [of s i] assms(2)
  by blast

end
