(* ===== verification/Free_List.thy ===== *)
theory Free_List
  imports Common_Defs CString
begin

text \<open>
  The first-fit free list of \<open>lib/allocator/freelist.c\<close>, the allocator below the kernel heap.
  Free blocks are chained through a 16-byte header at their start (size, then next pointer) in
  the memory they describe; an allocated block keeps its header in front of the pointer handed
  out.

  \<open>fl_seg\<close> relates a chain in memory to the list of its blocks, and \<open>fl_wf\<close> says that
  the blocks are sorted by address with a gap between neighbours.  On such lists allocation is
  \<open>first fit, split when another header fits\<close>, and free is \<open>insert in order and merge\<close>
  (\<open>fl_insert\<close>).  Allocated blocks are outside the listed blocks, and no operation writes outside
  the listed blocks and the block it is given, so that allocations never disturb each other.
\<close>

section \<open>Blocks and operations\<close>

record free_list =
  fl_head :: ptr
  fl_capacity :: usize

definition sizeof_entry :: usize where
  "sizeof_entry = 16"

definition be_size :: "mem \<Rightarrow> ptr \<Rightarrow> usize" where
  "be_size m e = load64 m e"

definition be_next :: "mem \<Rightarrow> ptr \<Rightarrow> ptr" where
  "be_next m e = load64 m (e + 8)"

definition put_size :: "mem \<Rightarrow> ptr \<Rightarrow> usize \<Rightarrow> mem" where
  "put_size m e v = store64 m e v"

definition put_next :: "mem \<Rightarrow> ptr \<Rightarrow> ptr \<Rightarrow> mem" where
  "put_next m e v = store64 m (e + 8) v"

definition freelist_init :: "ptr \<Rightarrow> usize \<Rightarrow> mem \<Rightarrow> free_list \<times> mem" where
  "freelist_init pool sz m = (\<lparr>fl_head = pool, fl_capacity = sz\<rparr>, put_size m pool sz)"

text \<open>The search of \<open>freelist_alloc\<close>: the values of \<open>prev\<close> and \<open>curr\<close> behind its loop.\<close>

partial_function (option) find_fit :: "mem \<Rightarrow> usize \<Rightarrow> ptr \<Rightarrow> ptr \<Rightarrow> (ptr \<times> ptr) option" where
  "find_fit m actual_size prev cur =
     (if nullptr \<noteq> cur then
        if be_size m cur \<ge> actual_size then Some (prev, cur)
        else find_fit m actual_size cur (be_next m cur)
      else Some (prev, cur))"

definition relink :: "free_list \<Rightarrow> ptr \<Rightarrow> ptr \<Rightarrow> mem \<Rightarrow> free_list \<times> mem" where
  "relink fl prev new m =
     (if prev \<noteq> nullptr then (fl, put_next m prev new) else (fl\<lparr>fl_head := new\<rparr>, m))"

definition freelist_alloc :: "free_list \<Rightarrow> usize \<Rightarrow> mem \<Rightarrow> kerror + ptr \<times> free_list \<times> mem" where
  "freelist_alloc fl sz m =
     bindE (assertE (nullptr \<noteq> fl_head fl) ''head is null'') (\<lambda>_.
     bindE (assertE (0 \<noteq> sz) ''allocation size is zero'') (\<lambda>_.
     let actual_size = sz + sizeof_entry in
     bindE (endsE (find_fit m actual_size nullptr (fl_head fl))) (\<lambda>(prev, cur).
     if nullptr = cur then Inr (ERR_TO_PTR (- errnum ENOMEM), fl, m)
     else let remain = be_size m cur - actual_size in
       if remain \<ge> sizeof_entry then
         let new = cur + actual_size;
             m = put_size m new remain;
             m = put_next m new (be_next m cur);
             (fl, m) = relink fl prev new m;
             m = put_size m cur actual_size
         in Inr (cur + sizeof_entry, fl, m)
       else
         let (fl, m) = relink fl prev (be_next m cur) m
         in Inr (cur + sizeof_entry, fl, m))))"

definition coalesce :: "mem \<Rightarrow> ptr \<Rightarrow> ptr \<Rightarrow> mem" where
  "coalesce m left right =
     (if nullptr = left \<or> nullptr = right then m
      else if left + be_size m left \<noteq> right then m
      else let m = put_size m left (be_size m left + be_size m right)
           in put_next m left (be_next m right))"

text \<open>The loop that looks for the predecessor of an entry: the last value of \<open>curr\<close>.\<close>

partial_function (option) find_spot :: "mem \<Rightarrow> ptr \<Rightarrow> ptr \<Rightarrow> ptr option" where
  "find_spot m entry cur =
     (if nullptr \<noteq> be_next m cur \<and> be_next m cur < entry then find_spot m entry (be_next m cur)
      else Some cur)"

definition freelist_insert :: "free_list \<Rightarrow> ptr \<Rightarrow> mem \<Rightarrow> kerror + free_list \<times> mem" where
  "freelist_insert fl entry m =
     (if nullptr = fl_head fl \<or> entry < fl_head fl then
        let m = put_next m entry (fl_head fl);
            fl = fl\<lparr>fl_head := entry\<rparr>
        in Inr (fl, coalesce m entry (be_next m entry))
      else
        bindE (endsE (find_spot m entry (fl_head fl))) (\<lambda>cur.
        let m = put_next m entry (be_next m cur);
            m = put_next m cur entry;
            m = coalesce m entry (be_next m entry);
            m = coalesce m cur entry
        in Inr (fl, m)))"

definition freelist_free :: "free_list \<Rightarrow> ptr \<Rightarrow> mem \<Rightarrow> kerror + free_list \<times> mem" where
  "freelist_free fl p m =
     bindE (assertE (nullptr \<noteq> fl_head fl) ''head is null'') (\<lambda>_.
     bindE (assertE (nullptr \<noteq> p) ''ptr is null'') (\<lambda>_.
     freelist_insert fl (p - sizeof_entry) m))"

definition freelist_add_region :: "free_list \<Rightarrow> ptr \<Rightarrow> usize \<Rightarrow> mem \<Rightarrow> kerror + free_list \<times> mem" where
  "freelist_add_region fl pool sz m =
     bindE (assertE (nullptr \<noteq> pool) ''pool is null'') (\<lambda>_.
     bindE (assertE (0 \<noteq> sz) ''size is zero'') (\<lambda>_.
     let m = put_size m pool sz;
         fl = fl\<lparr>fl_capacity := fl_capacity fl + sz\<rparr>
     in freelist_insert fl pool m))"

section \<open>Blocks in memory\<close>

type_synonym blocks = "(ptr \<times> usize) list"

definition span :: "ptr \<Rightarrow> nat \<Rightarrow> ptr set" where
  "span a n = {x. unat a \<le> unat x \<and> unat x < unat a + n}"

abbreviation block :: "ptr \<times> usize \<Rightarrow> ptr set" where
  "block b \<equiv> span (fst b) (unat (snd b))"

definition block_ok :: "ptr \<times> usize \<Rightarrow> bool" where
  "block_ok b \<longleftrightarrow> fst b \<noteq> nullptr \<and> 16 \<le> unat (snd b) \<and> unat (fst b) + unat (snd b) + 4096 \<le> 2 ^ 64"

definition before :: "ptr \<times> usize \<Rightarrow> ptr \<times> usize \<Rightarrow> bool" where
  "before b b' \<longleftrightarrow> unat (fst b) + unat (snd b) < unat (fst b')"

definition fl_wf :: "blocks \<Rightarrow> bool" where
  "fl_wf bs \<longleftrightarrow> (\<forall>b \<in> set bs. block_ok b) \<and> sorted_wrt before bs"

fun fl_seg :: "mem \<Rightarrow> ptr \<Rightarrow> blocks \<Rightarrow> ptr \<Rightarrow> bool" where
  "fl_seg m p [] q \<longleftrightarrow> p = q"
| "fl_seg m p (b # bs) q \<longleftrightarrow> p = fst b \<and> be_size m (fst b) = snd b \<and> fl_seg m (be_next m (fst b)) bs q"

definition fl_rep :: "free_list \<Rightarrow> mem \<Rightarrow> blocks \<Rightarrow> bool" where
  "fl_rep fl m bs \<longleftrightarrow> fl_wf bs \<and> fl_seg m (fl_head fl) bs nullptr"

definition fl_bytes :: "blocks \<Rightarrow> ptr set" where
  "fl_bytes bs = (\<Union>b \<in> set bs. block b)"

text \<open>Memory is the same outside a set of addresses.\<close>

definition same_outside :: "ptr set \<Rightarrow> mem \<Rightarrow> mem \<Rightarrow> bool" where
  "same_outside S m m' \<longleftrightarrow> (\<forall>x. x \<notin> S \<longrightarrow> m' x = m x)"

lemma same_outside_refl [simp]: "same_outside S m m"
  by (simp add: same_outside_def)

lemma same_outside_trans:
  "same_outside S m m' \<Longrightarrow> same_outside T m' m'' \<Longrightarrow> same_outside (S \<union> T) m m''"
  by (simp add: same_outside_def)

lemma same_outside_mono: "same_outside S m m' \<Longrightarrow> S \<subseteq> T \<Longrightarrow> same_outside T m m'"
  by (auto simp: same_outside_def)

subsection \<open>Reading and writing headers\<close>

lemma span_in_region: "unat a + n \<le> 2 ^ 64 \<Longrightarrow> x \<in> span a n \<longleftrightarrow> in_region x a n"
  by (auto simp: span_def in_region_iff)

lemma unat_plus_8: "unat a + 16 \<le> 2 ^ 64 \<Longrightarrow> unat (a + 8 :: ptr) = unat a + 8"
  by (subst unat_add_u64) simp_all

lemma load64_same:
  assumes "same_outside S m m'" and "unat p + 8 \<le> 2 ^ 64" and "span p 8 \<inter> S = {}"
  shows "load64 m' p = load64 m p"
  by (rule load64_cong) (use assms in \<open>auto simp: same_outside_def simp flip: span_in_region\<close>)

lemma store64_span:
  assumes "unat p + 8 \<le> 2 ^ 64"
  shows "same_outside (span p 8) m (store64 m p v)"
  using assms by (auto simp: same_outside_def span_in_region store64_out)

lemma put_same:
  assumes "unat a + 16 \<le> 2 ^ 64"
  shows "same_outside (span a 16) m (put_size m a v)" and "same_outside (span a 16) m (put_next m a v)"
proof -
  have "span a 8 \<subseteq> span a 16" "span (a + 8) 8 \<subseteq> span a 16"
    using assms by (auto simp: span_def unat_plus_8)
  then show "same_outside (span a 16) m (put_size m a v)" "same_outside (span a 16) m (put_next m a v)"
    using assms store64_span [of a m v] store64_span [of "a + 8" m v]
    by (auto simp: put_size_def put_next_def unat_plus_8 intro: same_outside_mono)
qed

lemma header_same:
  assumes "same_outside S m m'" and "unat a + 16 \<le> 2 ^ 64" and "span a 16 \<inter> S = {}"
  shows "be_size m' a = be_size m a" and "be_next m' a = be_next m a"
proof -
  have "span a 8 \<subseteq> span a 16" "span (a + 8) 8 \<subseteq> span a 16"
    using assms(2) by (auto simp: span_def unat_plus_8)
  then have "span a 8 \<inter> S = {}" "span (a + 8) 8 \<inter> S = {}" using assms(3) by blast+
  then show "be_size m' a = be_size m a" "be_next m' a = be_next m a"
    using assms(1,2) load64_same [of S m m' a] load64_same [of S m m' "a + 8"]
    by (simp_all add: be_size_def be_next_def unat_plus_8)
qed

lemma header_put [simp]:
  assumes "unat a + 16 \<le> 2 ^ 64"
  shows "be_size (put_size m a v) a = v" and "be_next (put_next m a v) a = v"
    and "be_size (put_next m a v) a = be_size m a" and "be_next (put_size m a v) a = be_next m a"
proof -
  have "disjoint_regions a 8 (a + 8) 8"
    by (rule disjoint_regionsI) (use assms in \<open>simp_all add: unat_plus_8\<close>)
  moreover from this have "disjoint_regions (a + 8) 8 a 8" by (simp add: disjoint_regions_sym)
  ultimately show "be_size (put_size m a v) a = v" "be_next (put_next m a v) a = v"
    "be_size (put_next m a v) a = be_size m a" "be_next (put_size m a v) a = be_next m a"
    by (simp_all add: be_size_def be_next_def put_size_def put_next_def load64_store64_disjoint)
qed

lemma spans_disjoint:
  "unat a + n \<le> unat b \<or> unat b + k \<le> unat a \<Longrightarrow> span a n \<inter> span b k = {}"
  by (auto simp: span_def)

subsection \<open>Chains\<close>

lemma fl_seg_append: "fl_seg m p (xs @ ys) q \<longleftrightarrow> (\<exists>r. fl_seg m p xs r \<and> fl_seg m r ys q)"
  by (induction xs arbitrary: p) auto

lemma block_ok_room: "block_ok b \<Longrightarrow> unat (fst b) + 16 \<le> 2 ^ 64"
  by (auto simp: block_ok_def)

lemma fl_seg_frame:
  assumes "fl_seg m p bs q" and "same_outside S m m'"
    and "\<And>b. b \<in> set bs \<Longrightarrow> block_ok b \<and> span (fst b) 16 \<inter> S = {}"
  shows "fl_seg m' p bs q"
  using assms(1,3)
proof (induction bs arbitrary: p)
  case (Cons b bs)
  then have "block_ok b" "span (fst b) 16 \<inter> S = {}" by simp_all
  note same = header_same [OF assms(2) block_ok_room [OF this(1)] this(2)]
  have "fl_seg m' (be_next m (fst b)) bs q" by (rule Cons.IH) (use Cons.prems in auto)
  then show ?case using Cons.prems(1) same by simp
qed simp

lemma fl_wf_append:
  "fl_wf (xs @ ys) \<longleftrightarrow> fl_wf xs \<and> fl_wf ys \<and> (\<forall>x \<in> set xs. \<forall>y \<in> set ys. before x y)"
  by (auto simp: fl_wf_def sorted_wrt_append)

lemma fl_wf_Cons: "fl_wf (b # bs) \<longleftrightarrow> block_ok b \<and> fl_wf bs \<and> (\<forall>y \<in> set bs. before b y)"
  by (auto simp: fl_wf_def)

lemma fl_wf_Nil [simp]: "fl_wf []"
  by (simp add: fl_wf_def)

lemma fl_wf_block: "fl_wf bs \<Longrightarrow> b \<in> set bs \<Longrightarrow> block_ok b"
  by (simp add: fl_wf_def)

text \<open>Headers and whole blocks of blocks in order do not overlap.\<close>

lemma before_disjoint:
  assumes "before b b'" and "n \<le> unat (snd b)"
  shows "span (fst b) n \<inter> span (fst b') k = {}" and "span (fst b') k \<inter> span (fst b) n = {}"
  using assms by (auto simp: before_def span_def)

definition last_addr :: "ptr \<Rightarrow> blocks \<Rightarrow> ptr" where
  "last_addr prev xs = (if xs = [] then prev else fst (last xs))"

lemma last_addr_Cons: "last_addr prev (b # bs) = last_addr (fst b) bs"
  by (simp add: last_addr_def)

lemma relink_spec:
  assumes "fl_seg m (fl_head fl) pre r" and "fl_wf pre"
  shows "\<exists>fl' m'. relink fl (last_addr nullptr pre) new m = (fl', m') \<and> fl_seg m' (fl_head fl') pre new \<and>
    same_outside (fl_bytes pre) m m' \<and> fl_capacity fl' = fl_capacity fl"
proof (cases pre rule: rev_cases)
  case Nil
  then show ?thesis by (simp add: relink_def last_addr_def)
next
  case (snoc xs b)
  have b: "block_ok b" "\<forall>x \<in> set xs. block_ok x \<and> before x b"
    using assms(2) unfolding fl_wf_def snoc by (auto simp: sorted_wrt_append)
  let ?m = "put_next m (fst b) new"
  note room = block_ok_room [OF b(1)]
  have seg: "fl_seg m (fl_head fl) xs (fst b)" "be_size m (fst b) = snd b"
    using assms(1) snoc by (auto simp: fl_seg_append)
  have same: "same_outside (span (fst b) 16) m ?m" using room by (rule put_same)
  have "fl_seg ?m (fl_head fl) xs (fst b)"
    using seg(1) same
  proof (rule fl_seg_frame)
    fix x assume "x \<in> set xs"
    then show "block_ok x \<and> span (fst x) 16 \<inter> span (fst b) 16 = {}"
      using b(2) before_disjoint(1) [of x b 16 16] by (auto simp: block_ok_def)
  qed
  then have "fl_seg ?m (fl_head fl) pre new"
    using seg(2) room snoc by (simp add: fl_seg_append)
  moreover have "span (fst b) 16 \<subseteq> fl_bytes pre"
    using b(1) snoc by (auto simp: fl_bytes_def span_def block_ok_def)
  moreover have "relink fl (last_addr nullptr pre) new m = (fl, ?m)"
    using snoc b(1) by (simp add: relink_def last_addr_def block_ok_def)
  ultimately show ?thesis using same_outside_mono [OF same] by simp
qed

section \<open>First fit\<close>

lemma find_fit_spec:
  assumes "fl_seg m cur bs nullptr" and "\<forall>b \<in> set bs. block_ok b"
  shows "find_fit m act prev cur = Some (
      last_addr prev (takeWhile (\<lambda>b. snd b < act) bs),
      case dropWhile (\<lambda>b. snd b < act) bs of [] \<Rightarrow> nullptr | b # _ \<Rightarrow> fst b)"
  using assms
proof (induction bs arbitrary: prev cur)
  case Nil
  then show ?case by (subst find_fit.simps) (simp add: last_addr_def)
next
  case (Cons b bs)
  then have b: "cur = fst b" "be_size m (fst b) = snd b" "fst b \<noteq> nullptr" by (auto simp: block_ok_def)
  show ?case
  proof (cases "snd b < act")
    case True
    then have "\<not> act \<le> snd b" by simp
    then have "find_fit m act prev cur = find_fit m act (fst b) (be_next m (fst b))"
      using b by (subst find_fit.simps) simp
    with Cons True show ?thesis by (simp add: last_addr_Cons)
  next
    case False
    then show ?thesis using b by (subst find_fit.simps) (auto simp: last_addr_def dest: leD)
  qed
qed

text \<open>
  What an allocation does to the list of blocks: the block taken (with the size recorded in its
  header), and the blocks left.
\<close>

definition fl_take :: "usize \<Rightarrow> blocks \<Rightarrow> ((ptr \<times> usize) \<times> blocks) option" where
  "fl_take act bs =
     (case dropWhile (\<lambda>b. snd b < act) bs of
        [] \<Rightarrow> None
      | (a, n) # post \<Rightarrow>
        let pre = takeWhile (\<lambda>b. snd b < act) bs in
        if 16 \<le> n - act then Some ((a, act), pre @ (a + act, n - act) # post)
        else Some ((a, n), pre @ post))"

lemma freelist_alloc_none:
  assumes "fl_rep fl m bs" and "bs \<noteq> []" and "sz \<noteq> 0" and "fl_take (sz + 16) bs = None"
  shows "freelist_alloc fl sz m = Inr (ERR_TO_PTR (- errnum ENOMEM), fl, m)"
proof -
  have none: "dropWhile (\<lambda>b. snd b < sz + 16) bs = []"
    using assms(4) by (auto simp: fl_take_def Let_def split: list.splits if_splits)
  have "fl_head fl \<noteq> nullptr"
    using assms(1,2) by (cases bs) (auto simp: fl_rep_def fl_wf_def block_ok_def)
  moreover have "fl_seg m (fl_head fl) bs nullptr" "\<forall>b \<in> set bs. block_ok b"
    using assms(1) by (auto simp: fl_rep_def fl_wf_def)
  moreover from this have "find_fit m (sz + 16) nullptr (fl_head fl) =
      Some (last_addr nullptr (takeWhile (\<lambda>b. snd b < sz + 16) bs), nullptr)"
    using find_fit_spec [of m "fl_head fl" bs "sz + 16" nullptr] unfolding none by simp
  ultimately show ?thesis using assms(3) by (simp add: freelist_alloc_def sizeof_entry_def)
qed

lemma fl_take_Some:
  assumes "fl_take act bs = Some (b, bs')"
  obtains pre a n post where "bs = pre @ (a, n) # post" and "act \<le> n" and "\<forall>x \<in> set pre. snd x < act"
    and "takeWhile (\<lambda>b. snd b < act) bs = pre" and "dropWhile (\<lambda>b. snd b < act) bs = (a, n) # post"
    and "b = (a, if 16 \<le> n - act then act else n)"
    and "bs' = pre @ (if 16 \<le> n - act then [(a + act, n - act)] else []) @ post"
proof -
  let ?P = "\<lambda>b :: ptr \<times> usize. snd b < act"
  from assms obtain a n post where d: "dropWhile ?P bs = (a, n) # post"
    "(b, bs') = (if 16 \<le> n - act then ((a, act), takeWhile ?P bs @ (a + act, n - act) # post)
       else ((a, n), takeWhile ?P bs @ post))"
    by (auto simp: fl_take_def Let_def split: list.splits if_splits)
  have "bs = takeWhile ?P bs @ (a, n) # post" using d(1) by (metis takeWhile_dropWhile_id)
  moreover have "\<not> ?P (a, n)" using d(1) hd_dropWhile [of ?P bs] by simp
  moreover have "\<forall>x \<in> set (takeWhile ?P bs). snd x < act" by (auto dest: set_takeWhileD)
  ultimately show thesis using that [of "takeWhile ?P bs" a n post] d by (simp split: if_splits)
qed

lemma fl_take_wf:
  assumes "fl_wf bs" and "fl_take act bs = Some (b, bs')" and "16 \<le> unat act"
  shows "fl_wf bs'" and "block_ok b" and "unat act \<le> unat (snd b)" and "block b \<subseteq> fl_bytes bs"
    and "block b \<inter> fl_bytes bs' = {}" and "fl_bytes bs = block b \<union> fl_bytes bs'"
proof -
  from fl_take_Some [OF assms(2)] obtain pre a n post where t: "bs = pre @ (a, n) # post" "act \<le> n"
    "b = (a, if 16 \<le> n - act then act else n)"
    "bs' = pre @ (if 16 \<le> n - act then [(a + act, n - act)] else []) @ post" by metis
  have an: "block_ok (a, n)" "\<forall>x \<in> set pre. before x (a, n)" "\<forall>y \<in> set post. before (a, n) y"
    "fl_wf pre" "fl_wf post" "\<forall>x \<in> set pre. \<forall>y \<in> set post. before x y"
    using assms(1) by (auto simp: t fl_wf_append fl_wf_Cons)
  have len: "unat act \<le> unat n" "unat (n - act) = unat n - unat act" "unat a + unat n < 2 ^ 64"
    using t(2) an(1) by (simp_all add: word_le_nat_alt unat_sub block_ok_def)
  then have addr: "unat (a + act) = unat a + unat act" by (simp add: unat_add_u64)
  have sixteen: "16 \<le> n - act \<longleftrightarrow> 16 \<le> unat n - unat act" using len(2) by (simp add: word_le_nat_alt)
  have a_nz: "a \<noteq> nullptr" using an(1) by (simp add: block_ok_def)
  show ok: "block_ok b" "unat act \<le> unat (snd b)"
    using t(3) len a_nz assms(3) an(1) by (auto simp: block_ok_def)
  have split_ok: "block_ok (a + act, n - act)" if "16 \<le> n - act"
  proof -
    have "unat (a + act) \<noteq> 0" using addr assms(3) by simp
    then have "a + act \<noteq> 0" by (metis unat_0)
    then show ?thesis using that sixteen addr len an(1) by (simp add: block_ok_def)
  qed
  show "fl_wf bs'"
    using an split_ok addr len
    by (auto simp: t(4) fl_wf_append fl_wf_Cons before_def)
  have cut: "span a (unat n) = span a (unat act) \<union> span (a + act) (unat (n - act))"
    using addr len by (auto simp: span_def)
  show bytes: "fl_bytes bs = block b \<union> fl_bytes bs'"
    using cut by (auto simp: t fl_bytes_def)
  then show "block b \<subseteq> fl_bytes bs" by blast
  have "span a (unat n) \<inter> block x = {}" if "x \<in> set pre \<union> set post" for x
    using that an(2,3) before_disjoint(2) [of x "(a, n)" "unat (snd x)" "unat n"]
      before_disjoint(1) [of "(a, n)" x "unat n" "unat (snd x)"] by auto
  moreover have "span a (unat act) \<inter> span (a + act) (unat (n - act)) = {}"
    using addr by (auto simp: span_def)
  ultimately show "block b \<inter> fl_bytes bs' = {}"
    using cut by (auto simp: t fl_bytes_def)
qed

lemma fl_wf_middle:
  assumes "fl_wf (pre @ b # post)"
  shows "block_ok b" and "\<forall>x \<in> set pre. block_ok x \<and> before x b" and "fl_wf pre"
    and "\<forall>y \<in> set post. block_ok y \<and> before b y" and "\<forall>x \<in> set pre. \<forall>y \<in> set post. before x y"
    and "fl_wf post"
  using assms by (auto simp: fl_wf_def sorted_wrt_append)

lemma bytes_before:
  assumes "\<forall>x \<in> set xs. before x y"
  shows "span (fst y) k \<inter> fl_bytes xs = {}"
  using assms by (fastforce simp: fl_bytes_def before_def span_def)

lemma span_mono: "n \<le> k \<Longrightarrow> span a n \<subseteq> span a k"
  by (auto simp: span_def)

text \<open>Taking the rest of a block off the list, with and without splitting it.\<close>

lemma alloc_split_spec:
  assumes seg: "fl_seg m (fl_head fl) (pre @ (a, n) # post) nullptr" and wf: "fl_wf (pre @ (a, n) # post)"
    and act: "16 \<le> unat act" "unat act + 16 \<le> unat n"
  defines "m2 \<equiv> put_next (put_size m (a + act) (n - act)) (a + act) (be_next (put_size m (a + act) (n - act)) a)"
  shows "\<exists>fl' m3. relink fl (last_addr nullptr pre) (a + act) m2 = (fl', m3) \<and>
    fl_seg (put_size m3 a act) (fl_head fl') (pre @ (a + act, n - act) # post) nullptr \<and>
    be_size (put_size m3 a act) a = act \<and>
    same_outside (fl_bytes (pre @ (a, n) # post)) m (put_size m3 a act) \<and> fl_capacity fl' = fl_capacity fl"
proof -
  note w = fl_wf_middle [OF wf]
  have n: "unat a + unat n < 2 ^ 64" using w(1) by (simp add: block_ok_def)
  have new: "unat (a + act) = unat a + unat act" using act n by (simp add: unat_add_u64)
  have room: "unat a + 16 \<le> 2 ^ 64" "unat (a + act) + 16 \<le> 2 ^ 64" using act n new by simp_all
  have seg': "fl_seg m (fl_head fl) pre a" "be_size m a = n" "fl_seg m (be_next m a) post nullptr"
    using seg by (auto simp: fl_seg_append)
  have hdrs: "span a 16 \<inter> span (a + act) 16 = {}" using act new by (intro spans_disjoint) simp
  have m1: "same_outside (span (a + act) 16) m (put_size m (a + act) (n - act))" using room(2) by (rule put_same)
  have nx: "be_next (put_size m (a + act) (n - act)) a = be_next m a" by (rule header_same [OF m1 room(1) hdrs])
  have m2: "same_outside (span (a + act) 16) m m2"
    unfolding m2_def using same_outside_trans [OF m1 put_same(2) [OF room(2)]] by simp
  have pre_new: "span (fst x) 16 \<inter> span (a + act) 16 = {}" "span (fst x) 16 \<inter> span a 16 = {}" if "x \<in> set pre" for x
    using w(2) that new by (auto simp: block_ok_def before_def span_def)
  have "fl_seg m2 (fl_head fl) pre a" using seg'(1) m2 by (rule fl_seg_frame) (use w(2) pre_new in auto)
  from relink_spec [OF this w(3), of "a + act"] obtain fl' m3 where
    r: "relink fl (last_addr nullptr pre) (a + act) m2 = (fl', m3)" "fl_seg m3 (fl_head fl') pre (a + act)"
      "same_outside (fl_bytes pre) m2 m3" "fl_capacity fl' = fl_capacity fl" by blast
  let ?m4 = "put_size m3 a act"
  have m34: "same_outside (span a 16) m3 ?m4" using room(1) by (rule put_same)
  have m24: "same_outside (fl_bytes pre \<union> span a 16) m2 ?m4" using r(3) m34 by (rule same_outside_trans)
  have m4: "same_outside (span (a + act) 16 \<union> (fl_bytes pre \<union> span a 16)) m ?m4"
    using m2 m24 by (rule same_outside_trans)
  have pre4: "fl_seg ?m4 (fl_head fl') pre (a + act)"
    using r(2) m34 by (rule fl_seg_frame) (use w(2) pre_new in auto)
  have "span (a + act) 16 \<inter> (fl_bytes pre \<union> span a 16) = {}"
  proof -
    have "\<forall>x \<in> set pre. before x (a + act, n - act)" using w(2) new by (auto simp: before_def)
    from bytes_before [OF this, of 16] hdrs show ?thesis by auto
  qed
  from header_same [OF m24 room(2) this]
  have new4: "be_size ?m4 (a + act) = n - act" "be_next ?m4 (a + act) = be_next m a"
    using room(2) nx by (simp_all add: m2_def)
  have post4: "fl_seg ?m4 (be_next m a) post nullptr"
    using seg'(3) m4
  proof (rule fl_seg_frame)
    fix y assume y: "y \<in> set post"
    then have "span (fst y) 16 \<inter> fl_bytes pre = {}" using w(5) by (intro bytes_before) auto
    moreover have "span (fst y) 16 \<inter> span (a + act) 16 = {}" "span (fst y) 16 \<inter> span a 16 = {}"
      using w(4) y new act by (auto simp: before_def span_def)
    ultimately show "block_ok y \<and> span (fst y) 16 \<inter> (span (a + act) 16 \<union> (fl_bytes pre \<union> span a 16)) = {}"
      using w(4) y by blast
  qed
  have "span (a + act) 16 \<union> (fl_bytes pre \<union> span a 16) \<subseteq> fl_bytes (pre @ (a, n) # post)"
    using new act by (auto simp: fl_bytes_def span_def)
  with m4 have frame: "same_outside (fl_bytes (pre @ (a, n) # post)) m ?m4" by (rule same_outside_mono)
  have "fl_seg ?m4 (fl_head fl') (pre @ (a + act, n - act) # post) nullptr"
    using pre4 new4 post4 by (auto simp: fl_seg_append)
  with r(1,4) frame room(1) show ?thesis by auto
qed

lemma alloc_whole_spec:
  assumes seg: "fl_seg m (fl_head fl) (pre @ (a, n) # post) nullptr" and wf: "fl_wf (pre @ (a, n) # post)"
  shows "\<exists>fl' m'. relink fl (last_addr nullptr pre) (be_next m a) m = (fl', m') \<and>
    fl_seg m' (fl_head fl') (pre @ post) nullptr \<and> be_size m' a = n \<and>
    same_outside (fl_bytes (pre @ (a, n) # post)) m m' \<and> fl_capacity fl' = fl_capacity fl"
proof -
  note w = fl_wf_middle [OF wf]
  have seg': "fl_seg m (fl_head fl) pre a" "be_size m a = n" "fl_seg m (be_next m a) post nullptr"
    using seg by (auto simp: fl_seg_append)
  from relink_spec [OF seg'(1) w(3), of "be_next m a"] obtain fl' m' where
    r: "relink fl (last_addr nullptr pre) (be_next m a) m = (fl', m')" "fl_seg m' (fl_head fl') pre (be_next m a)"
      "same_outside (fl_bytes pre) m m'" "fl_capacity fl' = fl_capacity fl" by blast
  have "fl_seg m' (be_next m a) post nullptr"
    using seg'(3) r(3) by (rule fl_seg_frame) (use w(4,5) bytes_before [of pre _ 16] in auto)
  moreover have "be_size m' a = n"
    using header_same(1) [OF r(3), of a] block_ok_room [OF w(1)] bytes_before [of pre "(a, n)" 16] w(2) seg'(2)
    by simp
  moreover have "same_outside (fl_bytes (pre @ (a, n) # post)) m m'"
    using r(3) by (rule same_outside_mono) (auto simp: fl_bytes_def)
  ultimately show ?thesis using r by (auto simp: fl_seg_append)
qed

lemma freelist_alloc_some:
  assumes rep: "fl_rep fl m bs" and sz: "sz \<noteq> 0" "unat sz + 16 < 2 ^ 64"
    and take: "fl_take (sz + 16) bs = Some (b, bs')"
  shows "\<exists>fl' m'. freelist_alloc fl sz m = Inr (fst b + 16, fl', m') \<and> fl_rep fl' m' bs' \<and>
    be_size m' (fst b) = snd b \<and> same_outside (fl_bytes bs) m m' \<and> fl_capacity fl' = fl_capacity fl"
proof -
  let ?act = "sz + 16"
  have act: "unat ?act = unat sz + 16" using sz(2) by (simp add: unat_add_u64)
  have wf: "fl_wf bs" and seg: "fl_seg m (fl_head fl) bs nullptr" using rep by (simp_all add: fl_rep_def)
  have wf': "fl_wf bs'" using fl_take_wf(1) [OF wf take] act by simp
  from fl_take_Some [OF take] obtain pre a n post where t: "bs = pre @ (a, n) # post" "?act \<le> n"
    "takeWhile (\<lambda>b. snd b < ?act) bs = pre" "dropWhile (\<lambda>b. snd b < ?act) bs = (a, n) # post"
    "b = (a, if 16 \<le> n - ?act then ?act else n)"
    "bs' = pre @ (if 16 \<le> n - ?act then [(a + ?act, n - ?act)] else []) @ post" by metis
  have a: "a \<noteq> nullptr" "be_size m a = n" using wf seg by (auto simp: t(1) fl_wf_def block_ok_def fl_seg_append)
  have find: "find_fit m ?act nullptr (fl_head fl) = Some (last_addr nullptr pre, a)"
    using find_fit_spec [OF seg, of ?act nullptr] wf unfolding t(3,4) by (simp add: fl_wf_def)
  have hd: "fl_head fl \<noteq> nullptr"
  proof -
    have "\<forall>x \<in> set bs. fst x \<noteq> nullptr" using wf by (simp add: fl_wf_def block_ok_def)
    then show ?thesis using seg t(1) by (cases pre) auto
  qed
  note alloc = freelist_alloc_def [of fl sz m, unfolded Let_def sizeof_entry_def]
  show ?thesis
  proof (cases "16 \<le> n - ?act")
    case True
    then have len: "unat ?act + 16 \<le> unat n"
      using t(2) by (auto simp: word_le_nat_alt unat_sub)
    have "16 \<le> unat ?act" using act by simp
    from alloc_split_spec [OF seg [unfolded t(1)] wf [unfolded t(1)] this len]
    show ?thesis
      using True a hd sz(1) find wf' unfolding alloc t(1,5,6) by (auto simp: fl_rep_def)
  next
    case False
    from alloc_whole_spec [OF seg [unfolded t(1)] wf [unfolded t(1)]]
    show ?thesis
      using False a hd sz(1) find wf' unfolding alloc t(1,5,6) by (auto simp: fl_rep_def)
  qed
qed

section \<open>Inserting and merging\<close>

definition ahead :: "ptr \<times> usize \<Rightarrow> ptr \<times> usize \<Rightarrow> bool" where
  "ahead b b' \<longleftrightarrow> unat (fst b) + unat (snd b) \<le> unat (fst b')"

lemma before_ahead: "before b b' \<Longrightarrow> ahead b b'"
  by (simp add: before_def ahead_def)

fun fl_join :: "ptr \<times> usize \<Rightarrow> blocks \<Rightarrow> blocks" where
  "fl_join b [] = [b]"
| "fl_join b (c # bs) = (if fst b + snd b = fst c then (fst b, snd b + snd c) # bs else b # c # bs)"

definition fl_insert :: "ptr \<times> usize \<Rightarrow> blocks \<Rightarrow> blocks" where
  "fl_insert e bs =
     (let pre = takeWhile (\<lambda>b. fst b < fst e) bs; post = dropWhile (\<lambda>b. fst b < fst e) bs in
      if pre = [] then fl_join e post else butlast pre @ fl_join (last pre) (fl_join e post))"

lemma merged_block:
  assumes "block_ok b" and "block_ok c" and "fst b + snd b = fst c"
  shows "block_ok (fst b, snd b + snd c)" and "unat (snd b + snd c) = unat (snd b) + unat (snd c)"
    and "unat (fst c) = unat (fst b) + unat (snd b)"
proof -
  show c: "unat (fst c) = unat (fst b) + unat (snd b)"
    using assms(1) unfolding assms(3) [symmetric] by (intro unat_add_u64) (simp add: block_ok_def)
  show sum: "unat (snd b + snd c) = unat (snd b) + unat (snd c)"
    using assms(1,2) c by (intro unat_add_u64) (simp add: block_ok_def)
  show "block_ok (fst b, snd b + snd c)" using assms(1,2) c sum by (simp add: block_ok_def)
qed

lemma fl_join_wf:
  assumes "block_ok b" and "fl_wf rest" and "\<forall>y \<in> set rest. ahead b y"
  shows "fl_wf (fl_join b rest)" and "fl_bytes (fl_join b rest) = block b \<union> fl_bytes rest"
    and "\<forall>y \<in> set (fl_join b rest). unat (fst b) \<le> unat (fst y)"
proof (atomize (full), cases rest)
  case Nil
  then show "fl_wf (fl_join b rest) \<and> fl_bytes (fl_join b rest) = block b \<union> fl_bytes rest \<and>
      (\<forall>y \<in> set (fl_join b rest). unat (fst b) \<le> unat (fst y))"
    using assms(1) by (simp add: fl_wf_Cons fl_bytes_def)
next
  case (Cons c bs)
  have c: "block_ok c" "fl_wf bs" "\<forall>y \<in> set bs. before c y" "ahead b c" "\<forall>y \<in> set bs. ahead b y"
    using assms Cons by (auto simp: fl_wf_Cons)
  have ge: "\<forall>y \<in> set rest. unat (fst b) \<le> unat (fst y)" using assms(3) by (auto simp: ahead_def)
  show "fl_wf (fl_join b rest) \<and> fl_bytes (fl_join b rest) = block b \<union> fl_bytes rest \<and>
      (\<forall>y \<in> set (fl_join b rest). unat (fst b) \<le> unat (fst y))"
  proof (cases "fst b + snd b = fst c")
    case True
    note mg = merged_block [OF assms(1) c(1) True]
    have "fl_wf ((fst b, snd b + snd c) # bs)"
      using mg c(2,3) by (auto simp: fl_wf_Cons before_def)
    moreover have "span (fst b) (unat (snd b + snd c)) = block b \<union> block c"
      using mg by (auto simp: span_def)
    ultimately show ?thesis using True ge Cons by (auto simp: fl_bytes_def)
  next
    case False
    have "unat (fst b + snd b) = unat (fst b) + unat (snd b)"
      using assms(1) by (intro unat_add_u64) (simp add: block_ok_def)
    then have "unat (fst b) + unat (snd b) \<noteq> unat (fst c)" using False by (metis word_unat_eq_iff)
    then have "before b c" using c(4) by (simp add: ahead_def before_def)
    moreover have "before b y" if "y \<in> set bs" for y
      using \<open>before b c\<close> c(3) that by (auto simp: before_def)
    ultimately show ?thesis using False ge Cons assms(1,2) c by (auto simp: fl_wf_Cons fl_bytes_def)
  qed
qed

text \<open>Merging a block with its successor, in memory.\<close>

lemma coalesce_spec:
  assumes seg: "fl_seg m (fst b) (b # rest) nullptr" and b: "block_ok b"
    and rest: "\<forall>y \<in> set rest. block_ok y \<and> ahead b y"
  shows "fl_seg (coalesce m (fst b) (be_next m (fst b))) (fst b) (fl_join b rest) nullptr"
    and "same_outside (span (fst b) 16) m (coalesce m (fst b) (be_next m (fst b)))"
proof (atomize (full), cases rest)
  case Nil
  then show "fl_seg (coalesce m (fst b) (be_next m (fst b))) (fst b) (fl_join b rest) nullptr \<and>
      same_outside (span (fst b) 16) m (coalesce m (fst b) (be_next m (fst b)))"
    using seg by (simp add: coalesce_def)
next
  case (Cons c bs)
  have h: "be_size m (fst b) = snd b" "be_next m (fst b) = fst c" "be_size m (fst c) = snd c"
    "fl_seg m (be_next m (fst c)) bs nullptr" "fst b \<noteq> nullptr" "fst c \<noteq> nullptr"
    using seg b rest Cons by (auto simp: block_ok_def)
  note room = block_ok_room [OF b]
  show "fl_seg (coalesce m (fst b) (be_next m (fst b))) (fst b) (fl_join b rest) nullptr \<and>
      same_outside (span (fst b) 16) m (coalesce m (fst b) (be_next m (fst b)))"
  proof (cases "fst b + snd b = fst c")
    case False
    then have "coalesce m (fst b) (be_next m (fst b)) = m" using h by (simp add: coalesce_def)
    then show ?thesis using False seg Cons by simp
  next
    case True
    let ?m1 = "put_size m (fst b) (snd b + snd c)"
    let ?m2 = "put_next ?m1 (fst b) (be_next ?m1 (fst c))"
    have m1: "same_outside (span (fst b) 16) m ?m1" using room by (rule put_same)
    have m2: "same_outside (span (fst b) 16) m ?m2"
      using same_outside_trans [OF m1 put_same(2) [OF room]] by simp
    have hdr: "span (fst y) 16 \<inter> span (fst b) 16 = {}" if "y \<in> set rest" for y
      using rest that b by (auto simp: ahead_def block_ok_def span_def)
    have "be_next ?m1 (fst c) = be_next m (fst c)"
      by (rule header_same(2) [OF m1]) (use rest Cons hdr block_ok_room [of c] in auto)
    moreover have "fl_seg ?m2 (be_next m (fst c)) bs nullptr"
      using h(4) m2 by (rule fl_seg_frame) (use rest hdr Cons in auto)
    moreover have "coalesce m (fst b) (be_next m (fst b)) = ?m2"
      using h True by (simp add: coalesce_def Let_def)
    ultimately show ?thesis using True room Cons m2 by simp
  qed
qed

lemma find_spot_spec:
  assumes "fl_seg m (fst b) (b # bs) nullptr" and "\<forall>x \<in> set bs. fst x \<noteq> nullptr"
  shows "find_spot m a (fst b) = Some (fst (last (b # takeWhile (\<lambda>x. fst x < a) bs)))"
  using assms
proof (induction bs arbitrary: b)
  case Nil
  then show ?case by (subst find_spot.simps) simp
next
  case (Cons c bs)
  then have "be_next m (fst b) = fst c" "fl_seg m (fst c) (c # bs) nullptr" by auto
  with Cons show ?case by (subst find_spot.simps) auto
qed

text \<open>A block outside the free blocks splits them into those before and those behind it.\<close>

lemma insert_split:
  assumes "fl_wf bs" and "block_ok e" and "\<forall>b \<in> set bs. ahead b e \<or> ahead e b"
  shows "\<forall>x \<in> set (takeWhile (\<lambda>b. fst b < fst e) bs). ahead x e"
    and "\<forall>y \<in> set (dropWhile (\<lambda>b. fst b < fst e) bs). ahead e y"
proof -
  let ?P = "\<lambda>b :: ptr \<times> usize. fst b < fst e"
  show "\<forall>x \<in> set (takeWhile ?P bs). ahead x e"
  proof
    fix x assume "x \<in> set (takeWhile ?P bs)"
    then have "x \<in> set bs" "unat (fst x) < unat (fst e)"
      by (auto dest: set_takeWhileD simp: word_less_nat_alt)
    then show "ahead x e" using assms(3) by (auto simp: ahead_def)
  qed
  show "\<forall>y \<in> set (dropWhile ?P bs). ahead e y"
  proof (cases "dropWhile ?P bs")
    case (Cons d ds)
    then have d: "\<not> fst d < fst e" using hd_dropWhile [of ?P bs] by simp
    have bs: "bs = takeWhile ?P bs @ d # ds" using Cons by (metis takeWhile_dropWhile_id)
    then have wf: "fl_wf (d # ds)" using assms(1) by (metis fl_wf_append)
    have "unat (fst e) \<le> unat (fst y)" if "y \<in> set (d # ds)" for y
      using that d wf by (auto simp: fl_wf_Cons before_def word_less_nat_alt not_less)
    moreover have "y \<in> set bs \<and> 16 \<le> unat (snd y)" if "y \<in> set (d # ds)" for y
      using that wf bs by (metis Un_iff block_ok_def fl_wf_block set_append)
    ultimately show ?thesis using assms(3) Cons by (fastforce simp: ahead_def)
  next
    case Nil
    show ?thesis unfolding Nil by simp
  qed
qed

lemma fl_insert_wf:
  assumes "fl_wf bs" and "block_ok e" and "\<forall>b \<in> set bs. ahead b e \<or> ahead e b"
  shows "fl_wf (fl_insert e bs)" and "fl_bytes (fl_insert e bs) = fl_bytes bs \<union> block e"
    and "fl_insert e bs \<noteq> []"
proof -
  let ?P = "\<lambda>b :: ptr \<times> usize. fst b < fst e"
  let ?pre = "takeWhile ?P bs" and ?post = "dropWhile ?P bs"
  note sp = insert_split [OF assms]
  have wf: "fl_wf ?pre" "fl_wf ?post" "\<forall>x \<in> set ?pre. \<forall>y \<in> set ?post. before x y"
    using assms(1) fl_wf_append [of ?pre ?post] by auto
  have app: "fl_bytes (xs @ ys) = fl_bytes xs \<union> fl_bytes ys" for xs ys by (auto simp: fl_bytes_def)
  from app [of ?pre ?post] have bytes: "fl_bytes bs = fl_bytes ?pre \<union> fl_bytes ?post" by simp
  note j = fl_join_wf [OF assms(2) wf(2) sp(2)]
  have ne: "fl_join b rest \<noteq> []" for b rest by (cases rest) auto
  show "fl_insert e bs \<noteq> []" by (auto simp: fl_insert_def Let_def ne)
  have "fl_wf (fl_insert e bs) \<and> fl_bytes (fl_insert e bs) = fl_bytes bs \<union> block e"
  proof (cases "?pre = []")
    case True
    have "fl_insert e bs = fl_join e ?post" unfolding fl_insert_def Let_def True by simp
    moreover have "fl_bytes ?pre = {}" unfolding True by (simp add: fl_bytes_def)
    ultimately show ?thesis using j(1,2) bytes by auto
  next
    case False
    define xs l where xl: "xs = butlast ?pre" "l = last ?pre"
    then have pre: "?pre = xs @ [l]" using False by simp
    have l: "block_ok l" "ahead l e" "fl_wf xs" "\<forall>x \<in> set xs. before x l"
      using wf(1) sp(1) unfolding pre by (auto simp: fl_wf_append fl_wf_Cons)
    have "\<forall>y \<in> set (fl_join e ?post). ahead l y" using j(3) l(2) by (auto simp: ahead_def)
    note jl = fl_join_wf [OF l(1) j(1) this]
    have eq: "fl_insert e bs = xs @ fl_join l (fl_join e ?post)"
      using False by (simp only: fl_insert_def Let_def if_False xl)
    have "before x y" if "x \<in> set xs" "y \<in> set (fl_join l (fl_join e ?post))" for x y
      using jl(3) l(4) that by (fastforce simp: before_def)
    then have "fl_wf (fl_insert e bs)" using eq l(3) jl(1) by (simp add: fl_wf_append)
    moreover have "fl_bytes ?pre = fl_bytes xs \<union> block l" unfolding pre by (auto simp: fl_bytes_def)
    ultimately show ?thesis using eq jl(2) j(2) bytes app by auto
  qed
  then show "fl_wf (fl_insert e bs)" "fl_bytes (fl_insert e bs) = fl_bytes bs \<union> block e" by simp_all
qed

lemma headers_disjoint:
  assumes "block_ok x" and "block_ok y" and "ahead x y \<or> ahead y x"
  shows "span (fst x) 16 \<inter> span (fst y) 16 = {}"
  using assms by (auto simp: ahead_def block_ok_def span_def)

lemma fl_join_member:
  assumes "block_ok b" and "fl_wf rest" and "\<forall>y \<in> set rest. ahead b y" and "y \<in> set (fl_join b rest)"
  shows "block_ok y" and "ahead x b \<Longrightarrow> ahead x y"
  using fl_join_wf(1,3) [OF assms(1-3)] assms(4) by (auto simp: fl_wf_def ahead_def)

lemma insert_head_spec:
  assumes seg: "fl_seg m h bs nullptr" and wf: "fl_wf bs" and e: "block_ok e" "be_size m (fst e) = snd e"
    and behind: "\<forall>y \<in> set bs. ahead e y"
  defines "m1 \<equiv> put_next m (fst e) h"
  shows "fl_seg (coalesce m1 (fst e) (be_next m1 (fst e))) (fst e) (fl_join e bs) nullptr"
    and "same_outside (span (fst e) 16) m (coalesce m1 (fst e) (be_next m1 (fst e)))"
proof -
  note room = block_ok_room [OF e(1)]
  have m1: "same_outside (span (fst e) 16) m m1" unfolding m1_def using room by (rule put_same)
  have bs: "\<forall>y \<in> set bs. block_ok y \<and> ahead e y" using wf behind by (simp add: fl_wf_def)
  have "fl_seg m1 h bs nullptr"
    using seg m1 by (rule fl_seg_frame) (use bs headers_disjoint e(1) in blast)
  then have "fl_seg m1 (fst e) (e # bs) nullptr" using e(2) room by (simp add: m1_def)
  note co = coalesce_spec [OF this e(1) bs]
  show "fl_seg (coalesce m1 (fst e) (be_next m1 (fst e))) (fst e) (fl_join e bs) nullptr" by (rule co(1))
  show "same_outside (span (fst e) 16) m (coalesce m1 (fst e) (be_next m1 (fst e)))"
    using same_outside_trans [OF m1 co(2)] by simp
qed

lemma insert_middle_spec:
  assumes seg: "fl_seg m h (xs @ l # post) nullptr" and wf: "fl_wf (xs @ l # post)"
    and e: "block_ok e" "be_size m (fst e) = snd e"
    and xs: "\<forall>x \<in> set xs. ahead x e" and l: "ahead l e" and post: "\<forall>y \<in> set post. ahead e y"
  defines "m2 \<equiv> put_next (put_next m (fst e) (be_next m (fst l))) (fst l) (fst e)"
  defines "m3 \<equiv> coalesce m2 (fst e) (be_next m2 (fst e))"
  defines "m4 \<equiv> coalesce m3 (fst l) (fst e)"
  shows "fl_seg m4 h (xs @ fl_join l (fl_join e post)) nullptr"
    and "same_outside (span (fst e) 16 \<union> span (fst l) 16) m m4"
proof -
  note w = fl_wf_middle [OF wf]
  note room = block_ok_room [OF e(1)] block_ok_room [OF w(1)]
  let ?m1 = "put_next m (fst e) (be_next m (fst l))"
  have sg: "fl_seg m h xs (fst l)" "be_size m (fst l) = snd l" "fl_seg m (be_next m (fst l)) post nullptr"
    using seg by (auto simp: fl_seg_append)
  have le: "span (fst l) 16 \<inter> span (fst e) 16 = {}" using headers_disjoint [OF w(1) e(1)] l by simp
  have m1: "same_outside (span (fst e) 16) m ?m1" using room(1) by (rule put_same)
  have m12: "same_outside (span (fst l) 16) ?m1 m2" unfolding m2_def using room(2) by (rule put_same)
  have m2: "same_outside (span (fst e) 16 \<union> span (fst l) 16) m m2" using m1 m12 by (rule same_outside_trans)
  have e2: "be_size m2 (fst e) = snd e" "be_next m2 (fst e) = be_next m (fst l)"
    using header_same [OF m12 room(1)] le room(1) e(2) by auto
  have l2: "be_size m2 (fst l) = snd l" "be_next m2 (fst l) = fst e"
    using header_same [OF m1 room(2)] le room(2) sg(2) by (auto simp: m2_def)
  have po: "\<forall>y \<in> set post. block_ok y \<and> ahead e y" using w(4) post by blast
  have hp: "span (fst y) 16 \<inter> (span (fst e) 16 \<union> span (fst l) 16) = {}" if "y \<in> set post" for y
    using headers_disjoint [of y e] headers_disjoint [of y l] w(1,4) po e(1) before_ahead that by blast
  have "fl_seg m2 (be_next m (fst l)) post nullptr"
    using sg(3) m2 by (rule fl_seg_frame) (use po hp in blast)
  then have "fl_seg m2 (fst e) (e # post) nullptr" using e2 by simp
  note c3 = coalesce_spec [OF this e(1) po, folded m3_def]
  have l3: "be_size m3 (fst l) = snd l" "be_next m3 (fst l) = fst e"
    using header_same [OF c3(2) room(2) le] l2 by simp_all
  have jn: "\<forall>y \<in> set (fl_join e post). block_ok y \<and> ahead l y"
    using fl_join_member [OF e(1) w(6) post] l by blast
  have "fl_seg m3 (fst l) (l # fl_join e post) nullptr" using l3 c3(1) by simp
  note c4 = coalesce_spec [OF this w(1) jn, unfolded l3(2), folded m4_def]
  have all: "same_outside ((span (fst e) 16 \<union> span (fst l) 16) \<union> (span (fst e) 16 \<union> span (fst l) 16)) m m4"
    using same_outside_trans [OF m2 same_outside_trans [OF c3(2) c4(2)]] .
  then show frame: "same_outside (span (fst e) 16 \<union> span (fst l) 16) m m4" by simp
  have "fl_seg m4 h xs (fst l)"
    using sg(1) frame
  proof (rule fl_seg_frame)
    fix x assume "x \<in> set xs"
    then show "block_ok x \<and> span (fst x) 16 \<inter> (span (fst e) 16 \<union> span (fst l) 16) = {}"
      using headers_disjoint [of x e] headers_disjoint [of x l] w(1,2) xs e(1) before_ahead by blast
  qed
  then show "fl_seg m4 h (xs @ fl_join l (fl_join e post)) nullptr"
    using c4(1) by (auto simp: fl_seg_append)
qed

lemma freelist_insert_spec:
  assumes rep: "fl_rep fl m bs" and e: "block_ok e" "be_size m (fst e) = snd e"
    and out: "\<forall>b \<in> set bs. ahead b e \<or> ahead e b"
  shows "\<exists>fl' m'. freelist_insert fl (fst e) m = Inr (fl', m') \<and> fl_rep fl' m' (fl_insert e bs) \<and>
    same_outside (fl_bytes bs \<union> block e) m m' \<and> fl_capacity fl' = fl_capacity fl"
proof -
  have wf: "fl_wf bs" and seg: "fl_seg m (fl_head fl) bs nullptr" using rep by (simp_all add: fl_rep_def)
  let ?P = "\<lambda>b :: ptr \<times> usize. fst b < fst e"
  note sp = insert_split [OF wf e(1) out]
  note wf' = fl_insert_wf(1) [OF wf e(1) out]
  have sub: "span (fst b) 16 \<subseteq> block b" if "block_ok b" for b
    using that by (intro span_mono) (simp add: block_ok_def)
  show ?thesis
  proof (cases "takeWhile ?P bs")
    case Nil
    then have all: "dropWhile ?P bs = bs" by (metis self_append_conv2 takeWhile_dropWhile_id)
    have guard: "nullptr = fl_head fl \<or> fst e < fl_head fl"
    proof (cases bs)
      case (Cons b bs')
      then have "ahead e b" "fl_head fl = fst b" using sp(2) seg all by simp_all
      then show ?thesis using e(1) by (auto simp: ahead_def block_ok_def word_less_nat_alt)
    qed (use seg in simp)
    have eq: "fl_insert e bs = fl_join e bs" unfolding fl_insert_def Let_def Nil all by simp
    note ih = insert_head_spec [OF seg wf e sp(2) [unfolded all]]
    show ?thesis
      using guard ih wf' sub [OF e(1)] unfolding eq
      by (auto simp: freelist_insert_def Let_def fl_rep_def intro: same_outside_mono)
  next
    case (Cons b pre')
    obtain xs l where pre: "takeWhile ?P bs = xs @ [l]" using Cons by (metis list.distinct(1) rev_exhaust)
    define post where "post = dropWhile ?P bs"
    have bs: "bs = xs @ l # post"
      using takeWhile_dropWhile_id [of ?P bs] unfolding pre post_def by simp
    have b: "fst b < fst e" "bs = b # tl bs" "takeWhile ?P (tl bs) = pre'"
      using Cons by (cases bs; simp split: if_splits)+
    have hd: "fl_head fl = fst b" using seg b(2) by (metis fl_seg.simps(2))
    have nz: "\<forall>x \<in> set bs. fst x \<noteq> nullptr" using wf by (simp add: fl_wf_def block_ok_def)
    have spot: "find_spot m (fst e) (fl_head fl) = Some (fst l)"
    proof -
      have "fl_seg m (fst b) (b # tl bs) nullptr" using seg hd b(2) by simp
      moreover have "\<forall>x \<in> set (tl bs). fst x \<noteq> nullptr" using nz b(2) by (metis list.set_intros(2))
      moreover have "last (b # pre') = l" using Cons pre by (metis last_snoc)
      ultimately show ?thesis using find_spot_spec [of m b "tl bs" "fst e"] hd b(3) by simp
    qed
    have guard: "\<not> (nullptr = fl_head fl \<or> fst e < fl_head fl)"
      using hd b nz by (metis less_not_sym list.set_intros(1))
    have xs: "\<forall>x \<in> set xs. ahead x e" "ahead l e" "\<forall>y \<in> set post. ahead e y"
      using sp unfolding pre post_def by auto
    have eq: "fl_insert e bs = xs @ fl_join l (fl_join e post)"
      unfolding fl_insert_def Let_def pre post_def by simp
    have wfm: "fl_wf (xs @ l # post)" and segm: "fl_seg m (fl_head fl) (xs @ l # post) nullptr"
      using wf seg bs by simp_all
    note im = insert_middle_spec [OF segm wfm e xs]
    have "span (fst e) 16 \<union> span (fst l) 16 \<subseteq> fl_bytes bs \<union> block e"
      using sub [OF e(1)] sub [OF fl_wf_middle(1) [OF wfm]] bs by (auto simp: fl_bytes_def)
    note frame = same_outside_mono [OF im(2) this]
    show ?thesis
      using guard spot im(1) wf' frame unfolding eq
      by (simp add: freelist_insert_def Let_def fl_rep_def)
  qed
qed

section \<open>Free and allocated blocks together\<close>

definition heap_rep :: "free_list \<Rightarrow> mem \<Rightarrow> blocks \<Rightarrow> (ptr \<times> usize) set \<Rightarrow> bool" where
  "heap_rep fl m bs U \<longleftrightarrow> fl_rep fl m bs \<and>
     (\<forall>u \<in> U. block_ok u \<and> be_size m (fst u) = snd u \<and> block u \<inter> fl_bytes bs = {}) \<and>
     (\<forall>u \<in> U. \<forall>v \<in> U. u \<noteq> v \<longrightarrow> block u \<inter> block v = {})"

lemma disjoint_blocks_ahead:
  assumes "block_ok x" and "block_ok y" and "block x \<inter> block y = {}"
  shows "ahead x y \<or> ahead y x"
proof (rule ccontr)
  assume n: "\<not> (ahead x y \<or> ahead y x)"
  then have "unat (fst x) < unat (fst y) + unat (snd y)" "unat (fst y) < unat (fst x) + unat (snd x)"
    by (simp_all add: ahead_def)
  then have "fst x \<in> block x \<inter> block y \<or> fst y \<in> block x \<inter> block y"
    using assms(1,2) by (auto simp: span_def block_ok_def)
  with assms(3) show False by auto
qed

lemma used_disjoint_from_free:
  assumes "heap_rep fl m bs U" and "u \<in> U"
  shows "\<forall>b \<in> set bs. ahead b u \<or> ahead u b"
proof
  fix b assume b: "b \<in> set bs"
  have "block_ok u" "block u \<inter> fl_bytes bs = {}" "block_ok b"
    using assms b by (auto simp: heap_rep_def fl_rep_def fl_wf_def)
  moreover have "block b \<subseteq> fl_bytes bs" using b by (auto simp: fl_bytes_def)
  ultimately show "ahead b u \<or> ahead u b" by (intro disjoint_blocks_ahead) auto
qed

lemma used_header_frame:
  assumes "same_outside S m m'" and "block_ok u" and "block u \<inter> S = {}"
  shows "be_size m' (fst u) = be_size m (fst u)"
proof -
  have "span (fst u) 16 \<subseteq> block u" using assms(2) by (intro span_mono) (simp add: block_ok_def)
  then show ?thesis using assms block_ok_room [OF assms(2)] by (intro header_same(1)) auto
qed

lemma heap_alloc_spec:
  assumes rep: "heap_rep fl m bs U" and "bs \<noteq> []" and sz: "sz \<noteq> 0" "unat sz + 16 < 2 ^ 64"
  shows "(freelist_alloc fl sz m = Inr (ERR_TO_PTR (- errnum ENOMEM), fl, m) \<and>
      (\<forall>b \<in> set bs. unat (snd b) < unat sz + 16)) \<or>
    (\<exists>b bs' fl' m'. fl_take (sz + 16) bs = Some (b, bs') \<and> freelist_alloc fl sz m = Inr (fst b + 16, fl', m') \<and>
      heap_rep fl' m' bs' (insert b U) \<and> b \<notin> U \<and> unat sz + 16 \<le> unat (snd b) \<and>
      fl_bytes bs = block b \<union> fl_bytes bs' \<and> same_outside (fl_bytes bs) m m' \<and> fl_capacity fl' = fl_capacity fl)"
proof -
  have act: "unat (sz + 16) = unat sz + 16" using sz(2) by (simp add: unat_add_u64)
  have fr: "fl_rep fl m bs" and wf: "fl_wf bs" using rep by (simp_all add: heap_rep_def fl_rep_def)
  show ?thesis
  proof (cases "fl_take (sz + 16) bs")
    case None
    then have "dropWhile (\<lambda>b. snd b < sz + 16) bs = []"
      by (auto simp: fl_take_def Let_def split: list.splits if_splits)
    then have "\<forall>b \<in> set bs. unat (snd b) < unat sz + 16" using act by (simp add: word_less_nat_alt)
    then show ?thesis using freelist_alloc_none [OF fr assms(2) sz(1) None] by simp
  next
    case (Some r)
    obtain b bs' where r: "fl_take (sz + 16) bs = Some (b, bs')" using Some by (cases r) simp
    have "16 \<le> unat (sz + 16)" using act by simp
    note t = fl_take_wf [OF wf r this]
    obtain fl' m' where a: "freelist_alloc fl sz m = Inr (fst b + 16, fl', m')" "fl_rep fl' m' bs'"
      "be_size m' (fst b) = snd b" "same_outside (fl_bytes bs) m m'" "fl_capacity fl' = fl_capacity fl"
      using freelist_alloc_some [OF fr sz r] by blast
    have U: "block_ok u \<and> be_size m' (fst u) = snd u \<and> block u \<inter> fl_bytes bs' = {} \<and> block u \<inter> block b = {}"
      if "u \<in> U" for u
    proof -
      have u: "block_ok u" "be_size m (fst u) = snd u" "block u \<inter> fl_bytes bs = {}"
        using rep that by (simp_all add: heap_rep_def)
      then show ?thesis using used_header_frame [OF a(4) u(1,3)] t(4,6) by auto
    qed
    have "fst b \<in> block b" using t(2) by (auto simp: span_def block_ok_def)
    then have "b \<notin> U" using U by blast
    moreover have "heap_rep fl' m' bs' (insert b U)"
      using a(2,3) t(2,5) U rep unfolding heap_rep_def by blast
    ultimately show ?thesis using r a t(3,6) act by auto
  qed
qed

lemma heap_insert_spec:
  assumes rep: "heap_rep fl m bs U" and u: "u \<in> U"
  shows "\<exists>fl' m'. freelist_insert fl (fst u) m = Inr (fl', m') \<and> heap_rep fl' m' (fl_insert u bs) (U - {u}) \<and>
    same_outside (fl_bytes bs \<union> block u) m m' \<and> fl_capacity fl' = fl_capacity fl"
proof -
  have fr: "fl_rep fl m bs" and wf: "fl_wf bs" and uo: "block_ok u" "be_size m (fst u) = snd u"
    using rep u by (simp_all add: heap_rep_def fl_rep_def)
  note out = used_disjoint_from_free [OF rep u]
  obtain fl' m' where f: "freelist_insert fl (fst u) m = Inr (fl', m')" "fl_rep fl' m' (fl_insert u bs)"
    "same_outside (fl_bytes bs \<union> block u) m m'" "fl_capacity fl' = fl_capacity fl"
    using freelist_insert_spec [OF fr uo out] by blast
  have v: "block_ok v \<and> be_size m' (fst v) = snd v \<and> block v \<inter> fl_bytes (fl_insert u bs) = {}" if "v \<in> U - {u}" for v
  proof -
    have "block_ok v" "be_size m (fst v) = snd v" "block v \<inter> (fl_bytes bs \<union> block u) = {}"
      using rep u that unfolding heap_rep_def by (simp_all, blast)
    then show ?thesis using used_header_frame [OF f(3)] fl_insert_wf(2) [OF wf uo(1) out] by auto
  qed
  have "heap_rep fl' m' (fl_insert u bs) (U - {u})"
    using f(2) v rep unfolding heap_rep_def by blast
  with f show ?thesis by blast
qed

lemma heap_free_spec:
  assumes rep: "heap_rep fl m bs U" and "bs \<noteq> []" and u: "u \<in> U"
  shows "\<exists>fl' m'. freelist_free fl (fst u + 16) m = Inr (fl', m') \<and> heap_rep fl' m' (fl_insert u bs) (U - {u}) \<and>
    same_outside (fl_bytes bs \<union> block u) m m' \<and> fl_capacity fl' = fl_capacity fl"
proof -
  have "fl_head fl \<noteq> nullptr"
    using rep assms(2) by (cases bs) (auto simp: heap_rep_def fl_rep_def fl_wf_def block_ok_def)
  moreover have "fst u + 16 \<noteq> nullptr"
  proof -
    have "unat (fst u + 16) = unat (fst u) + 16"
      using rep u by (subst unat_add_u64) (auto simp: heap_rep_def block_ok_def)
    then show ?thesis by (metis add_eq_0_iff_both_eq_0 unat_0 zero_neq_numeral)
  qed
  ultimately show ?thesis
    using heap_insert_spec [OF rep u] by (simp add: freelist_free_def sizeof_entry_def)
qed

section \<open>Allocating and freeing is the identity\<close>

lemma fl_join_apart:
  assumes "block_ok b" and "\<forall>y \<in> set bs. before b y"
  shows "fl_join b bs = b # bs"
proof (cases bs)
  case (Cons c cs)
  have "unat (fst b + snd b) = unat (fst b) + unat (snd b)"
    using assms(1) by (intro unat_add_u64) (simp add: block_ok_def)
  then have "fst b + snd b \<noteq> fst c" using assms(2) Cons by (auto simp: before_def)
  with Cons show ?thesis by simp
qed simp

lemma takeWhile_dropWhile_split:
  assumes "\<forall>x \<in> set xs. P x" and "ys \<noteq> [] \<Longrightarrow> \<not> P (hd ys)"
  shows "takeWhile P (xs @ ys) = xs" and "dropWhile P (xs @ ys) = ys"
  using assms by (cases ys; simp add: takeWhile_append2)+

lemma fl_insert_take:
  assumes wf: "fl_wf bs" and take: "fl_take act bs = Some (b, bs')" and act: "16 \<le> unat act"
  shows "fl_insert b bs' = bs"
proof -
  from fl_take_Some [OF take] obtain pre a n post where t: "bs = pre @ (a, n) # post" "act \<le> n"
    "b = (a, if 16 \<le> n - act then act else n)"
    "bs' = pre @ (if 16 \<le> n - act then [(a + act, n - act)] else []) @ post" by metis
  define rest where "rest = (if 16 \<le> n - act then [(a + act, n - act)] else []) @ post"
  note w = fl_wf_middle [OF wf [unfolded t(1)]]
  have n: "unat act \<le> unat n" "unat a + unat n < 2 ^ 64"
    using t(2) w(1) by (simp_all add: word_le_nat_alt block_ok_def)
  then have addr: "unat (a + act) = unat a + unat act" by (simp add: unat_add_u64)
  have below: "\<forall>x \<in> set pre. fst x < fst b"
    using w(2) by (auto simp: t(3) before_def word_less_nat_alt)
  have above: "\<not> fst (hd rest) < fst b" if "rest \<noteq> []"
    using that w(4) addr by (cases post) (auto simp: rest_def t(3) before_def word_less_nat_alt not_less)
  note sp = takeWhile_dropWhile_split [of pre "\<lambda>x. fst x < fst b" rest, OF below above]
  have join: "fl_join b rest = (a, n) # post"
  proof (cases "16 \<le> n - act")
    case True
    then show ?thesis by (simp add: rest_def t(3))
  next
    case False
    then show ?thesis using fl_join_apart [OF w(1)] w(4) by (simp add: rest_def t(3))
  qed
  show ?thesis
  proof (cases pre rule: rev_cases)
    case Nil
    then show ?thesis
      using join sp unfolding fl_insert_def Let_def t(4) rest_def [symmetric] by (simp add: t(1))
  next
    case (snoc xs l)
    have "fl_join l ((a, n) # post) = l # (a, n) # post"
      using w(2,5) snoc by (intro fl_join_apart) auto
    then show ?thesis
      using join sp snoc unfolding fl_insert_def Let_def t(4) rest_def [symmetric] by (simp add: t(1))
  qed
qed

section \<open>The contract of the heap\<close>

text \<open>
  What the kernel heap relies on: allocated blocks (header and payload) are disjoint, an allocation
  is large enough and fresh, and neither allocation nor free writes into another allocated block.
  \<open>ready\<close> is the assertion of the code that some block is free.
\<close>

locale heap_blocks =
  fixes rep :: "'s \<Rightarrow> (ptr \<times> usize) set \<Rightarrow> bool"
    and ready :: "'s \<Rightarrow> bool"
    and memof :: "'s \<Rightarrow> mem"
    and take :: "'s \<Rightarrow> usize \<Rightarrow> kerror + ptr \<times> 's"
    and give :: "'s \<Rightarrow> ptr \<Rightarrow> kerror + 's"
  assumes blocks_disjoint: "rep s U \<Longrightarrow> u \<in> U \<Longrightarrow> v \<in> U \<Longrightarrow> u \<noteq> v \<Longrightarrow> block u \<inter> block v = {}"
    and take_cases: "rep s U \<Longrightarrow> ready s \<Longrightarrow> sz \<noteq> 0 \<Longrightarrow> unat sz + 16 < 2 ^ 64 \<Longrightarrow>
      (\<exists>e. take s sz = Inr (e, s) \<and> IS_ERR e) \<or>
      (\<exists>b s'. take s sz = Inr (fst b + 16, s') \<and> \<not> IS_ERR (fst b + 16) \<and> b \<notin> U \<and> rep s' (insert b U) \<and>
         unat sz + 16 \<le> unat (snd b) \<and> (\<forall>u \<in> U. \<forall>x \<in> block u. memof s' x = memof s x))"
    and give_used: "rep s U \<Longrightarrow> ready s \<Longrightarrow> u \<in> U \<Longrightarrow>
      \<exists>s'. give s (fst u + 16) = Inr s' \<and> rep s' (U - {u}) \<and> ready s' \<and>
        (\<forall>v \<in> U - {u}. \<forall>x \<in> block v. memof s' x = memof s x)"
begin

text \<open>An allocation can be given back as long as some block is free, and leaves no trace in others.\<close>

lemma take_give:
  assumes "rep s U" and "ready s" and "sz \<noteq> 0" and "unat sz + 16 < 2 ^ 64"
    and "take s sz = Inr (p, s1)" and "\<not> IS_ERR p" and "ready s1"
  shows "\<exists>s2. give s1 p = Inr s2 \<and> rep s2 U \<and> (\<forall>u \<in> U. \<forall>x \<in> block u. memof s2 x = memof s x)"
proof -
  obtain b where b: "p = fst b + 16" "b \<notin> U" "rep s1 (insert b U)"
    "\<forall>u \<in> U. \<forall>x \<in> block u. memof s1 x = memof s x"
    using take_cases [OF assms(1-4)] assms(5,6) by auto
  obtain s2 where "give s1 p = Inr s2" "rep s2 (insert b U - {b})"
    "\<forall>v \<in> insert b U - {b}. \<forall>x \<in> block v. memof s2 x = memof s1 x"
    using give_used [OF b(3) assms(7), of b] b(1) by auto
  with b show ?thesis by auto
qed

end

lemma head_ready: "heap_rep fl m bs U \<Longrightarrow> fl_head fl \<noteq> nullptr \<longleftrightarrow> bs \<noteq> []"
  by (cases bs) (auto simp: heap_rep_def fl_rep_def fl_wf_def block_ok_def)

lemma payload_not_err:
  assumes "block_ok b" and "17 \<le> unat (snd b)"
  shows "\<not> IS_ERR (fst b + 16)" and "unat (fst b + 16) = unat (fst b) + 16"
proof -
  show u: "unat (fst b + 16) = unat (fst b) + 16"
    using assms by (subst unat_add_u64) (auto simp: block_ok_def)
  then show "\<not> IS_ERR (fst b + 16)" using assms by (simp add: IS_ERR_iff block_ok_def)
qed

lemma size_at_least:
  assumes "(sz :: usize) \<noteq> 0" and "unat sz + 16 \<le> n"
  shows "17 \<le> n"
  using assms unat_gt_0 [of sz] by linarith

interpretation flh: heap_blocks "\<lambda>s U. case s of (fl, m) \<Rightarrow> \<exists>bs. heap_rep fl m bs U"
  "\<lambda>(fl, m). fl_head fl \<noteq> nullptr" "\<lambda>(fl, m). m"
  "\<lambda>s n. case s of (fl, m) \<Rightarrow> freelist_alloc fl n m"
  "\<lambda>s p. case s of (fl, m) \<Rightarrow> freelist_free fl p m"
proof (unfold_locales, goal_cases)
  case (1 s U u v)
  obtain fl m where s: "s = (fl, m)" by (cases s)
  then obtain bs where "heap_rep fl m bs U" using 1(1) by auto
  then show ?case using 1(2-4) unfolding heap_rep_def by blast
next
  case (2 s U sz)
  obtain fl m where s: "s = (fl, m)" by (cases s)
  obtain bs where rep: "heap_rep fl m bs U" using 2(1) s by auto
  have ne: "bs \<noteq> []" using 2(2) head_ready [OF rep] by (simp add: s)
  from heap_alloc_spec [OF rep ne 2(3,4)] show ?case
  proof (elim disjE exE conjE)
    fix b bs' fl' m'
    assume a: "freelist_alloc fl sz m = Inr (fst b + 16, fl', m')" "heap_rep fl' m' bs' (insert b U)" "b \<notin> U"
      "unat sz + 16 \<le> unat (snd b)" "same_outside (fl_bytes bs) m m'"
    have "block_ok b" using a(2) by (simp add: heap_rep_def)
    then have "\<not> IS_ERR (fst b + 16)" using payload_not_err size_at_least [OF 2(3) a(4)] by blast
    moreover have "\<forall>u \<in> U. \<forall>x \<in> block u. m' x = m x"
      using a(5) rep unfolding same_outside_def heap_rep_def by blast
    ultimately show ?thesis
      unfolding s using a by (intro disjI2 exI [of _ b] exI [of _ "(fl', m')"]) auto
  qed (simp add: s IS_ERR_def ERR_TO_PTR_def)
next
  case (3 s U u)
  obtain fl m where s: "s = (fl, m)" by (cases s)
  obtain bs where rep: "heap_rep fl m bs U" using 3(1) s by auto
  have ne: "bs \<noteq> []" using 3(2) head_ready [OF rep] by (simp add: s)
  from heap_free_spec [OF rep ne 3(3)] obtain fl' m' where
    f: "freelist_free fl (fst u + 16) m = Inr (fl', m')" "heap_rep fl' m' (fl_insert u bs) (U - {u})"
      "same_outside (fl_bytes bs \<union> block u) m m'" by blast
  have "fl_insert u bs \<noteq> []" using 3(3) rep used_disjoint_from_free [OF rep 3(3)]
    by (intro fl_insert_wf) (simp_all add: heap_rep_def fl_rep_def)
  then have "fl_head fl' \<noteq> nullptr" using head_ready [OF f(2)] by simp
  moreover have "\<forall>v \<in> U - {u}. \<forall>x \<in> block v. m' x = m x"
    using f(3) rep 3(3) unfolding same_outside_def heap_rep_def by blast
  ultimately show ?case unfolding s using f by (intro exI [of _ "(fl', m')"]) auto
qed

section \<open>Initialisation and new regions\<close>

lemma freelist_init_rep:
  assumes "block_ok (pool, sz)" and "be_next m pool = nullptr"
  shows "heap_rep (fst (freelist_init pool sz m)) (snd (freelist_init pool sz m)) [(pool, sz)] {}"
  using assms block_ok_room [OF assms(1)]
  by (simp add: freelist_init_def heap_rep_def fl_rep_def fl_wf_Cons)

lemma heap_add_used:
  assumes rep: "heap_rep fl m bs U" and e: "block_ok e"
    and free: "block e \<inter> fl_bytes bs = {}" and used: "\<forall>u \<in> U. block e \<inter> block u = {}"
  shows "heap_rep fl (put_size m (fst e) (snd e)) bs (insert e U)"
proof -
  let ?m = "put_size m (fst e) (snd e)"
  note room = block_ok_room [OF e]
  have hdr: "span (fst e) 16 \<subseteq> block e" using e by (intro span_mono) (simp add: block_ok_def)
  have same: "same_outside (block e) m ?m" using same_outside_mono [OF put_same(1) [OF room] hdr] .
  have seg: "fl_seg m (fl_head fl) bs nullptr" and wf: "fl_wf bs" using rep by (simp_all add: heap_rep_def fl_rep_def)
  have "fl_seg ?m (fl_head fl) bs nullptr"
    using seg same
  proof (rule fl_seg_frame)
    fix b assume b: "b \<in> set bs"
    then have ok: "block_ok b" using wf by (simp add: fl_wf_def)
    moreover have "span (fst b) 16 \<subseteq> fl_bytes bs"
      using span_mono [of 16 "unat (snd b)" "fst b"] ok b by (auto simp: fl_bytes_def block_ok_def)
    ultimately show "block_ok b \<and> span (fst b) 16 \<inter> block e = {}" using free by blast
  qed
  moreover have "be_size ?m (fst u) = snd u" if "u \<in> U" for u
  proof -
    have "block_ok u" "be_size m (fst u) = snd u" "block u \<inter> block e = {}"
      using rep used that unfolding heap_rep_def by (simp_all, blast)
    then show ?thesis using used_header_frame [OF same] by metis
  qed
  ultimately show ?thesis
    using rep e free used room unfolding heap_rep_def fl_rep_def by (simp add: Int_commute)
qed

lemma heap_add_region_spec:
  assumes rep: "heap_rep fl m bs U" and e: "block_ok (pool, sz)"
    and free: "block (pool, sz) \<inter> fl_bytes bs = {}" and used: "\<forall>u \<in> U. block (pool, sz) \<inter> block u = {}"
  shows "\<exists>fl' m'. freelist_add_region fl pool sz m = Inr (fl', m') \<and>
    heap_rep fl' m' (fl_insert (pool, sz) bs) U \<and> fl_capacity fl' = fl_capacity fl + sz \<and>
    fl_bytes (fl_insert (pool, sz) bs) = fl_bytes bs \<union> block (pool, sz) \<and>
    (\<forall>u \<in> U. \<forall>x \<in> block u. m' x = m x) \<and> same_outside (fl_bytes bs \<union> block (pool, sz)) m m'"
proof -
  let ?e = "(pool, sz)" and ?m = "put_size m pool sz" and ?fl = "fl\<lparr>fl_capacity := fl_capacity fl + sz\<rparr>"
  have rep1: "heap_rep ?fl ?m bs (insert ?e U)"
    using heap_add_used [OF rep e free used] by (simp add: heap_rep_def fl_rep_def)
  note out = used_disjoint_from_free [OF rep1, of ?e, simplified]
  have wf: "fl_wf bs" using rep by (simp add: heap_rep_def fl_rep_def)
  obtain fl' m' where f: "freelist_insert ?fl pool ?m = Inr (fl', m')"
    "heap_rep fl' m' (fl_insert ?e bs) (insert ?e U - {?e})"
    "same_outside (fl_bytes bs \<union> block ?e) ?m m'" "fl_capacity fl' = fl_capacity fl + sz"
    using heap_insert_spec [OF rep1, of ?e] by auto
  have "?e \<notin> U"
  proof
    assume "?e \<in> U"
    then have "block ?e \<inter> block ?e = {}" using used by blast
    moreover have "pool \<in> block ?e" using e by (auto simp: span_def block_ok_def)
    ultimately show False by blast
  qed
  then have "insert ?e U - {?e} = U" by simp
  moreover have so: "same_outside (fl_bytes bs \<union> block ?e) m m'"
  proof -
    have sub: "span pool 16 \<union> (fl_bytes bs \<union> block ?e) \<subseteq> fl_bytes bs \<union> block ?e"
      using e span_mono [of 16 "unat sz" pool] by (auto simp: block_ok_def)
    have "same_outside (span pool 16) m ?m" using block_ok_room [OF e] by (intro put_same) simp
    from same_outside_mono [OF same_outside_trans [OF this f(3)] sub] show ?thesis .
  qed
  moreover have "\<forall>u \<in> U. \<forall>x \<in> block u. m' x = m x"
    using so rep used unfolding same_outside_def heap_rep_def by blast
  moreover have "pool \<noteq> nullptr" "sz \<noteq> 0" using e by (auto simp: block_ok_def)
  ultimately show ?thesis
    using f fl_insert_wf(2) [OF wf e] out by (simp add: freelist_add_region_def Let_def)
qed

section \<open>Properties\<close>

definition demo_heap :: "free_list \<times> mem" where
  "demo_heap = freelist_init 0x10000 0x100 (\<lambda>_. 0)"

lemma demo_heap_rep: "heap_rep (fst demo_heap) (snd demo_heap) [(0x10000, 0x100)] {}"
proof -
  have "block_ok (0x10000, 0x100)" by (simp add: block_ok_def)
  moreover have "be_next (\<lambda>_. 0) 0x10000 = nullptr" by (simp add: be_next_def load64_def)
  ultimately show ?thesis unfolding demo_heap_def by (rule freelist_init_rep)
qed

lemma demo_take: "fl_take 0x38 [(0x10000, 0x100)] = Some ((0x10000, 0x38), [(0x10038, 0xc8)])"
  by (simp add: fl_take_def)

text \<open>
  C11.  First fit.  With some block free, an allocation of a positive size returns: with
  \<open>-ENOMEM\<close> and nothing changed when every free block is smaller than size and header together; else
  with a pointer 16 bytes into a fresh block, at least as large as size and header, that was cut
  from the free blocks: the new free blocks and the block make up the old free bytes, no byte
  outside the old free blocks has changed, and all allocated blocks are still disjoint with
  their sizes recorded.
\<close>

theorem freelist_alloc_first_fit:
  assumes "heap_rep fl m bs U" and "bs \<noteq> []" and "sz \<noteq> 0" and "unat sz + 16 < 2 ^ 64"
  shows "(freelist_alloc fl sz m = Inr (ERR_TO_PTR (- errnum ENOMEM), fl, m) \<and>
      (\<forall>b \<in> set bs. unat (snd b) < unat sz + 16)) \<or>
    (\<exists>b bs' fl' m'. fl_take (sz + 16) bs = Some (b, bs') \<and> freelist_alloc fl sz m = Inr (fst b + 16, fl', m') \<and>
      heap_rep fl' m' bs' (insert b U) \<and> b \<notin> U \<and> unat sz + 16 \<le> unat (snd b) \<and>
      fl_bytes bs = block b \<union> fl_bytes bs' \<and> same_outside (fl_bytes bs) m m' \<and> fl_capacity fl' = fl_capacity fl)"
  using assms by (rule heap_alloc_spec)

theorem freelist_alloc_first_fit_witness:
  "\<exists>fl' m'. freelist_alloc (fst demo_heap) 0x28 (snd demo_heap) = Inr (0x10010, fl', m') \<and>
     heap_rep fl' m' [(0x10038, 0xc8)] {(0x10000, 0x38)}"
  using freelist_alloc_first_fit [OF demo_heap_rep, of "0x28"] demo_take by auto

text \<open>
  C20.  Free.  Freeing the payload pointer of an allocated block, while some block is free, puts
  the block into the sorted list and merges it with its neighbours (the free blocks stay
  separated by gaps), adds exactly its bytes to the free bytes, and writes nowhere else.
\<close>

theorem freelist_free_merges:
  assumes "heap_rep fl m bs U" and "bs \<noteq> []" and "u \<in> U"
  shows "\<exists>fl' m'. freelist_free fl (fst u + 16) m = Inr (fl', m') \<and> heap_rep fl' m' (fl_insert u bs) (U - {u}) \<and>
    fl_wf (fl_insert u bs) \<and> fl_bytes (fl_insert u bs) = fl_bytes bs \<union> block u \<and>
    same_outside (fl_bytes bs \<union> block u) m m'"
proof -
  have "fl_wf bs" "block_ok u" using assms by (auto simp: heap_rep_def fl_rep_def)
  note ins = fl_insert_wf(1,2) [OF this used_disjoint_from_free [OF assms(1,3)]]
  show ?thesis using heap_free_spec [OF assms] ins by blast
qed

theorem freelist_free_merges_witness:
  "\<exists>fl m fl' m'. heap_rep fl m [(0x10038, 0xc8)] {(0x10000, 0x38)} \<and>
     freelist_free fl 0x10010 m = Inr (fl', m') \<and> heap_rep fl' m' [(0x10000, 0x100)] {}"
proof -
  obtain fl m where rep: "heap_rep fl m [(0x10038, 0xc8)] {(0x10000, 0x38)}"
    using heap_alloc_spec [OF demo_heap_rep, of "0x28"] demo_take by auto
  have ins: "fl_insert (0x10000, 0x38) [(0x10038, 0xc8)] = [(0x10000, 0x100)]"
    by (simp add: fl_insert_def)
  have ne: "[(0x10038, 0xc8) :: ptr \<times> usize] \<noteq> []" by simp
  show ?thesis
    using freelist_free_merges [OF rep ne, of "(0x10000, 0x38)"] rep unfolding ins by auto
qed

text \<open>
  Allocating and freeing again gives the very same list of free blocks back: a split is
  undone by the merge, and a block that was handed out whole returns to its place.
\<close>

lemma freelist_alloc_free_roundtrip:
  assumes "heap_rep fl m bs U" and "bs \<noteq> []" and "sz \<noteq> 0" and "unat sz + 16 < 2 ^ 64"
    and "freelist_alloc fl sz m = Inr (p, fl1, m1)" and "\<not> IS_ERR p" and "fl_head fl1 \<noteq> nullptr"
  shows "\<exists>fl2 m2. freelist_free fl1 p m1 = Inr (fl2, m2) \<and> heap_rep fl2 m2 bs U \<and>
    same_outside (fl_bytes bs) m m2"
proof -
  have wf: "fl_wf bs" using assms(1) by (simp add: heap_rep_def fl_rep_def)
  have err: "IS_ERR (ERR_TO_PTR (- errnum ENOMEM))" by (simp add: IS_ERR_def ERR_TO_PTR_def)
  obtain b bs' where b: "fl_take (sz + 16) bs = Some (b, bs')" "p = fst b + 16" "b \<notin> U"
    "heap_rep fl1 m1 bs' (insert b U)" "fl_bytes bs = block b \<union> fl_bytes bs'" "same_outside (fl_bytes bs) m m1"
    using heap_alloc_spec [OF assms(1-4)] assms(5,6) err by auto
  have "16 \<le> unat (sz + 16)" using assms(4) by (simp add: unat_add_u64)
  note same = fl_insert_take [OF wf b(1) this]
  have ne: "bs' \<noteq> []" using head_ready [OF b(4)] assms(7) by simp
  obtain fl2 m2 where f: "freelist_free fl1 p m1 = Inr (fl2, m2)" "heap_rep fl2 m2 bs (insert b U - {b})"
    "same_outside (fl_bytes bs' \<union> block b) m1 m2"
    using heap_free_spec [OF b(4) ne, of b] b(2) unfolding same by auto
  have "same_outside (fl_bytes bs \<union> (fl_bytes bs' \<union> block b)) m m2" using b(6) f(3) by (rule same_outside_trans)
  with f b(3,5) show ?thesis by (simp add: Un_commute)
qed

text \<open>
  Growing.  A region that overlaps no block, of at least a header's size, is added to the
  free blocks and to the capacity, also when no block is free; allocated blocks keep their
  contents.
\<close>

lemma freelist_add_region_correct:
  assumes "heap_rep fl m bs U" and "block_ok (pool, sz)" and "block (pool, sz) \<inter> fl_bytes bs = {}"
    and "\<forall>u \<in> U. block (pool, sz) \<inter> block u = {}"
  shows "\<exists>fl' m'. freelist_add_region fl pool sz m = Inr (fl', m') \<and>
    heap_rep fl' m' (fl_insert (pool, sz) bs) U \<and> fl_capacity fl' = fl_capacity fl + sz \<and>
    fl_bytes (fl_insert (pool, sz) bs) = fl_bytes bs \<union> block (pool, sz) \<and>
    (\<forall>u \<in> U. \<forall>x \<in> block u. m' x = m x)"
  using heap_add_region_spec [OF assms] by blast

text \<open>Once every block is allocated the head is null, and the assertions panic.\<close>

lemma freelist_exhausted:
  assumes "heap_rep fl m [] U"
  shows "freelist_alloc fl sz m = Inl (Panic ''head is null'')" and "freelist_free fl p m = Inl (Panic ''head is null'')"
  using head_ready [OF assms] by (simp_all add: freelist_alloc_def freelist_free_def)

end
