(* ===== verification/Bitmap_Allocator.thy ===== *)
theory Bitmap_Allocator
  imports Common_Defs CString
begin

text \<open>
  The bitmap page allocator of \<open>lib/allocator/bitmap.c\<close>: a pool of pages and, somewhere in
  memory, one bit per page.  The header is a record, the bitmap is bytes of memory.

  The allocator is related to the set of page numbers whose bit is set (\<open>bm_pages\<close>): an
  allocation takes the \<^emph>\<open>first\<close> run of free pages that is long enough, adds exactly that run,
  and fails with \<open>-ENOMEM\<close> and an unchanged bitmap if and only if there is no such run;
  a free removes exactly its pages and panics when one of them is free already.  The search
  loop has no bound of its own: it ends because the assertion of
  \<open>bm_is_page_allocated\<close> stops a counter that reaches the page count.  The locale
  \<open>page_pool\<close> is the contract that the regions of the virtual memory manager use.
\<close>

section \<open>Header and operations\<close>

record alloc_bitmap =
  bm_bitmap :: ptr
  bm_page_count :: usize
  bm_pool :: ptr

definition SIZE_MAX :: usize where
  "SIZE_MAX = - 1"

definition SIZE_TO_BITMAP_BYTES :: "usize \<Rightarrow> usize" where
  "SIZE_TO_BITMAP_BYTES sz = (sz div PAGE_SIZE + 7) div 8"

definition alloc_bitmap_init :: "ptr \<Rightarrow> usize \<Rightarrow> mem \<Rightarrow> kerror + alloc_bitmap \<times> mem" where
  "alloc_bitmap_init pool pool_size m =
     bindE (assertE (IS_PAGE_ALIGNED pool) ''pool is not page aligned'') (\<lambda>_.
     bindE (assertE (IS_PAGE_ALIGNED pool_size) ''pool_size is not page aligned'') (\<lambda>_.
     let bitmap_bytes = SIZE_TO_BITMAP_BYTES pool_size;
         bitmap = round_down (pool + pool_size - bitmap_bytes) PAGE_SIZE;
         alloc = \<lparr>bm_bitmap = bitmap, bm_page_count = (bitmap - pool) div PAGE_SIZE, bm_pool = pool\<rparr>
     in bindE (assertE (bm_page_count alloc > 0) ''pool too small to hold bitmap'') (\<lambda>_.
        Inr (alloc, memset m (bm_bitmap alloc) 0 bitmap_bytes))))"

definition bm_get_page_allocated :: "alloc_bitmap \<Rightarrow> mem \<Rightarrow> usize \<Rightarrow> bool" where
  "bm_get_page_allocated alloc m page = GET_BIT (m (bm_bitmap alloc + page div 8)) (page mod 8)"

definition bm_set_page_allocate :: "alloc_bitmap \<Rightarrow> usize \<Rightarrow> mem \<Rightarrow> mem" where
  "bm_set_page_allocate alloc page m =
     (let byte = bm_bitmap alloc + page div 8 in m(byte := SET_BIT (m byte) (page mod 8)))"

definition bm_set_page_free :: "alloc_bitmap \<Rightarrow> usize \<Rightarrow> mem \<Rightarrow> mem" where
  "bm_set_page_free alloc page m =
     (let byte = bm_bitmap alloc + page div 8 in m(byte := CLEAR_BIT (m byte) (page mod 8)))"

definition bm_page_to_addr :: "alloc_bitmap \<Rightarrow> usize \<Rightarrow> ptr" where
  "bm_page_to_addr alloc page = bm_pool alloc + page * PAGE_SIZE"

definition bm_addr_to_page :: "alloc_bitmap \<Rightarrow> ptr \<Rightarrow> kerror + usize" where
  "bm_addr_to_page alloc addr =
     bindE (assertE (addr \<ge> bm_pool alloc) ''addr smaller than pool'') (\<lambda>_.
     bindE (assertE (addr < bm_pool alloc + bm_page_count alloc * PAGE_SIZE)
              ''addr larger than max pool'') (\<lambda>_.
     Inr ((addr - bm_pool alloc) div PAGE_SIZE)))"

definition bm_is_page_allocated :: "alloc_bitmap \<Rightarrow> mem \<Rightarrow> usize \<Rightarrow> kerror + bool" where
  "bm_is_page_allocated alloc m page =
     bindE (assertE (bm_page_count alloc > page) ''checking page larger than total pages'') (\<lambda>_.
     bindE (assertE (page \<ge> 0) ''page is less than zero?'') (\<lambda>_.
     Inr (bm_get_page_allocated alloc m page)))"

text \<open>The inner loop of \<open>bm_find_n_free_pages\<close>: the value of \<open>i\<close> when it is left.\<close>

function bm_free_run :: "alloc_bitmap \<Rightarrow> mem \<Rightarrow> usize \<Rightarrow> usize \<Rightarrow> usize \<Rightarrow> kerror + usize" where
  "bm_free_run alloc m start page_count i =
     (if i < page_count then
        bindE (bm_is_page_allocated alloc m (start + i)) (\<lambda>allocated.
        if allocated then Inr i else bm_free_run alloc m start page_count (i + 1))
      else Inr i)"
  by pat_completeness auto
termination
proof (relation "measure (\<lambda>(alloc, m, start, page_count, i). unat page_count - unat i)")
  fix page_count i :: usize
  assume "i < page_count"
  then have "unat (i + 1) = unat i + 1" "unat i < unat page_count"
    using unat_lt_u64 [of page_count] by (auto simp: word_less_nat_alt unat_add_u64)
  then show "((alloc, m, start, page_count, i + 1), alloc, m, start, page_count, i)
      \<in> measure (\<lambda>(alloc, m, start, page_count, i). unat page_count - unat i)"
    for alloc :: alloc_bitmap and m :: mem and start :: usize by simp
qed simp

declare bm_free_run.simps [simp del]

lemma unat_inc_less: "(i :: 64 word) < n \<Longrightarrow> unat (i + 1) = unat i + 1"
  using unat_lt_u64 [of n] by (simp add: word_less_nat_alt unat_add_u64)

text \<open>
  Where the inner loop is left: at the first allocated page, or at \<open>page_count\<close>.  All pages
  up to there have passed the assertion, so that \<open>start + i\<close> has not wrapped.
\<close>

lemma bm_free_run_sound:
  assumes "bm_free_run alloc m start n i = Inr k" and "i \<le> n"
    and "i = 0 \<or> start + (i - 1) < bm_page_count alloc \<and> unat (start + (i - 1)) = unat start + unat (i - 1)"
  shows "i \<le> k \<and> k \<le> n \<and> (\<forall>j. i \<le> j \<and> j < k \<longrightarrow> \<not> bm_get_page_allocated alloc m (start + j)) \<and>
    (k < n \<longrightarrow> bm_get_page_allocated alloc m (start + k) \<and> start + k < bm_page_count alloc \<and>
       unat (start + k) = unat start + unat k)"
  using assms
proof (induction alloc m start n i rule: bm_free_run.induct)
  case (1 alloc m start n i)
  show ?case
  proof (cases "i < n")
    case False
    with "1.prems"(1,2) show ?thesis by (auto simp: bm_free_run.simps)
  next
    case True
    then have i1: "unat (i + 1) = unat i + 1" by (rule unat_inc_less)
    from "1.prems"(1) True have in_pool: "start + i < bm_page_count alloc"
      by (auto simp: bm_free_run.simps [of alloc m start n i] bm_is_page_allocated_def bind_rules)
    have nowrap: "unat (start + i) = unat start + unat i"
    proof (cases "i = 0")
      case False
      then have "unat (i - 1) = unat i - 1" "unat i > 0" by (simp_all add: unat_minus_one unat_gt_0)
      moreover have "start + i = start + (i - 1) + 1" by simp
      ultimately show ?thesis
        using "1.prems"(3) False unat_inc_less [of "start + (i - 1)" "bm_page_count alloc"] by auto
    qed simp
    show ?thesis
    proof (cases "bm_get_page_allocated alloc m (start + i)")
      case True
      with \<open>i < n\<close> in_pool "1.prems"(1) have "k = i"
        by (simp add: bm_free_run.simps [of alloc m start n i] bm_is_page_allocated_def)
      with True \<open>i < n\<close> in_pool nowrap show ?thesis by auto
    next
      case False
      with \<open>i < n\<close> in_pool "1.prems"(1) have rec: "bm_free_run alloc m start n (i + 1) = Inr k"
        by (simp add: bm_free_run.simps [of alloc m start n i] bm_is_page_allocated_def)
      have le: "i + 1 \<le> n" using \<open>i < n\<close> i1 by (simp add: word_le_nat_alt word_less_nat_alt)
      have "bm_is_page_allocated alloc m (start + i) = Inr False"
        using in_pool False by (simp add: bm_is_page_allocated_def)
      note IH = "1.IH" [OF \<open>i < n\<close> this _ rec le]
      have "i + 1 \<le> k \<and> k \<le> n \<and>
          (\<forall>j. i + 1 \<le> j \<and> j < k \<longrightarrow> \<not> bm_get_page_allocated alloc m (start + j)) \<and>
          (k < n \<longrightarrow> bm_get_page_allocated alloc m (start + k) \<and> start + k < bm_page_count alloc \<and>
             unat (start + k) = unat start + unat k)"
        by (rule IH) (use in_pool nowrap in simp_all)
      moreover have "i \<le> j \<longleftrightarrow> j = i \<or> i + 1 \<le> j" for j
        using i1 by (auto simp: word_le_nat_alt word_unat_eq_iff)
      ultimately show ?thesis using False by auto
    qed
  qed
qed

lemmas bm_free_run_start = bm_free_run_sound [where i = 0, simplified]

text \<open>The search.\<close>

function bm_find_from :: "alloc_bitmap \<Rightarrow> mem \<Rightarrow> usize \<Rightarrow> usize \<Rightarrow> kerror + usize" where
  "bm_find_from alloc m page_count start =
     (if start + page_count \<le> bm_page_count alloc then
        bindE (bm_free_run alloc m start page_count 0) (\<lambda>i.
        if i = page_count then Inr start
        else bm_find_from alloc m page_count (start + (i + 1)))
      else Inr SIZE_MAX)"
  by pat_completeness auto
termination
proof (relation "measure (\<lambda>(alloc, m, page_count, start). unat (bm_page_count alloc) - unat start)")
  fix alloc :: alloc_bitmap and m :: mem and page_count start i :: usize
  assume "bm_free_run alloc m start page_count 0 = Inr i" and "i \<noteq> page_count"
  then have k: "start + i < bm_page_count alloc" "unat (start + i) = unat start + unat i"
    using bm_free_run_start [of alloc m start page_count i] by auto
  then have "unat (start + i + 1) = unat start + unat i + 1"
    using unat_inc_less [OF k(1)] by simp
  with k show "((alloc, m, page_count, start + (i + 1)), alloc, m, page_count, start)
      \<in> measure (\<lambda>(alloc, m, page_count, start). unat (bm_page_count alloc) - unat start)"
    by (simp add: word_less_nat_alt add.assoc)
qed simp

declare bm_find_from.simps [simp del]

definition bm_find_n_free_pages :: "alloc_bitmap \<Rightarrow> mem \<Rightarrow> usize \<Rightarrow> kerror + usize" where
  "bm_find_n_free_pages alloc m page_count = bm_find_from alloc m page_count 0"

definition bm_allocate :: "alloc_bitmap \<Rightarrow> usize \<Rightarrow> usize \<Rightarrow> mem \<Rightarrow> kerror + ptr \<times> mem" where
  "bm_allocate alloc page page_count m =
     bindE (assertE (bm_page_count alloc > page) ''page larger than total pages'') (\<lambda>_.
     bindE (assertE (bm_page_count alloc \<ge> page + page_count) ''page + size larger than total pages'') (\<lambda>_.
     bindE (assertE (page \<ge> 0) ''page index is less than zero?'') (\<lambda>_.
     bindE (assertE (page_count > 0) ''size is less than or equal to zero?'') (\<lambda>_.
     bindE (forE (word_range page (page + page_count)) (\<lambda>pos m. Inr (bm_set_page_allocate alloc pos m)) m) (\<lambda>m.
     Inr (bm_page_to_addr alloc page, m))))))"

definition bm_free :: "alloc_bitmap \<Rightarrow> ptr \<Rightarrow> usize \<Rightarrow> mem \<Rightarrow> kerror + mem" where
  "bm_free alloc addr page_count m =
     bindE (bm_addr_to_page alloc addr) (\<lambda>page.
     bindE (assertE (bm_page_count alloc > page) ''checking page larger than total pages'') (\<lambda>_.
     bindE (assertE (bm_page_count alloc \<ge> page + page_count) ''page + size larger than total pages'') (\<lambda>_.
     bindE (assertE (page \<ge> 0) ''page index is less than zero?'') (\<lambda>_.
     bindE (assertE (page_count > 0) ''size is less than or equal to zero?'') (\<lambda>_.
     bindE (forE (word_range page (page + page_count)) (\<lambda>pos m.
         if \<not> bm_get_page_allocated alloc m pos
         then Inl (Panic ''freeing pages which arent allocated'') else Inr m) m) (\<lambda>m.
     forE (word_range page (page + page_count)) (\<lambda>pos m. Inr (bm_set_page_free alloc pos m)) m))))))"

definition bitmap_alloc :: "alloc_bitmap \<Rightarrow> usize \<Rightarrow> mem \<Rightarrow> kerror + ptr \<times> mem" where
  "bitmap_alloc alloc page_count m =
     bindE (bm_find_n_free_pages alloc m page_count) (\<lambda>free_n_pos.
     if SIZE_MAX = free_n_pos then Inr (ERR_TO_PTR (- errnum ENOMEM), m)
     else bm_allocate alloc free_n_pos page_count m)"

definition bitmap_free :: "alloc_bitmap \<Rightarrow> ptr \<Rightarrow> usize \<Rightarrow> mem \<Rightarrow> kerror + mem" where
  "bitmap_free alloc addr page_count m = bm_free alloc addr page_count m"

section \<open>The set of allocated pages\<close>

abbreviation bm_count :: "alloc_bitmap \<Rightarrow> nat" where
  "bm_count alloc \<equiv> unat (bm_page_count alloc)"

definition bm_pages :: "alloc_bitmap \<Rightarrow> mem \<Rightarrow> nat set" where
  "bm_pages alloc m = set (filter (\<lambda>k. bm_get_page_allocated alloc m (of_nat k)) [0..<bm_count alloc])"

lemma bm_pages_eq: "bm_pages alloc m = {k. k < bm_count alloc \<and> bm_get_page_allocated alloc m (of_nat k)}"
  by (auto simp: bm_pages_def)

definition bm_inv :: "alloc_bitmap \<Rightarrow> bool" where
  "bm_inv alloc \<longleftrightarrow> 0 < bm_count alloc \<and> IS_PAGE_ALIGNED (bm_pool alloc) \<and>
     unat (bm_pool alloc) + bm_count alloc * 4096 < 2 ^ 64"

definition bm_run :: "alloc_bitmap \<Rightarrow> mem \<Rightarrow> nat \<Rightarrow> nat \<Rightarrow> bool" where
  "bm_run alloc m n k \<longleftrightarrow> k + n \<le> bm_count alloc \<and> {k..<k + n} \<inter> bm_pages alloc m = {}"

definition bm_addr :: "alloc_bitmap \<Rightarrow> nat \<Rightarrow> ptr" where
  "bm_addr alloc k = bm_page_to_addr alloc (of_nat k)"

text \<open>Only the bytes of the bitmap change.\<close>

definition bm_frame :: "alloc_bitmap \<Rightarrow> mem \<Rightarrow> mem \<Rightarrow> bool" where
  "bm_frame alloc m m' \<longleftrightarrow>
     (\<forall>a. \<not> in_region a (bm_bitmap alloc) ((bm_count alloc + 7) div 8) \<longrightarrow> m' a = m a)"

subsection \<open>Single bits\<close>

lemma div_mod_8_eq: "(p :: 64 word) div 8 = q div 8 \<Longrightarrow> p mod 8 = q mod 8 \<Longrightarrow> p = q"
  by (metis div_mult_mod_eq)

lemma unat_mod_8: "unat ((p :: 64 word) mod 8) < 8"
  by (simp add: unat_mod)

lemma get_set_page:
  "bm_get_page_allocated alloc (bm_set_page_allocate alloc p m) q \<longleftrightarrow>
     p = q \<or> bm_get_page_allocated alloc m q"
  using div_mod_8_eq [of p q] unat_mod_8 [of p]
  by (auto simp: bm_get_page_allocated_def bm_set_page_allocate_def Let_def GET_SET_BIT)

lemma get_free_page:
  "bm_get_page_allocated alloc (bm_set_page_free alloc p m) q \<longleftrightarrow>
     p \<noteq> q \<and> bm_get_page_allocated alloc m q"
  using div_mod_8_eq [of p q] unat_mod_8 [of p]
  by (auto simp: bm_get_page_allocated_def bm_set_page_free_def Let_def GET_CLEAR_BIT)

lemma byte_in_bitmap:
  assumes "p < bm_page_count alloc"
  shows "in_region (bm_bitmap alloc + p div 8) (bm_bitmap alloc) ((bm_count alloc + 7) div 8)"
proof -
  have "unat p < bm_count alloc" using assms by (simp add: word_less_nat_alt)
  then have "unat p div 8 < (bm_count alloc + 7) div 8" by linarith
  then show ?thesis by (intro in_region_offset) (simp add: unat_div)
qed

lemma bm_frame_set:
  assumes "p < bm_page_count alloc"
  shows "bm_frame alloc m (bm_set_page_allocate alloc p m)" "bm_frame alloc m (bm_set_page_free alloc p m)"
  using byte_in_bitmap [OF assms]
  by (auto simp: bm_frame_def bm_set_page_allocate_def bm_set_page_free_def Let_def)

lemma bm_frame_refl [simp]: "bm_frame alloc m m"
  by (simp add: bm_frame_def)

lemma bm_frame_trans: "bm_frame alloc m m' \<Longrightarrow> bm_frame alloc m' m'' \<Longrightarrow> bm_frame alloc m m''"
  by (simp add: bm_frame_def)

subsection \<open>Marking a run\<close>

lemma set_pages_loop:
  assumes "\<forall>p \<in> set ps. p < bm_page_count alloc"
  shows "\<exists>m'. forE ps (\<lambda>pos m. Inr (bm_set_page_allocate alloc pos m)) m = (Inr m' :: kerror + mem) \<and> bm_frame alloc m m' \<and>
     (\<forall>q. bm_get_page_allocated alloc m' q \<longleftrightarrow> q \<in> set ps \<or> bm_get_page_allocated alloc m q)"
  using assms
proof (induction ps arbitrary: m)
  case (Cons p ps)
  have ps: "\<forall>p \<in> set ps. p < bm_page_count alloc" using Cons.prems by simp
  obtain m' where "forE ps (\<lambda>pos m. Inr (bm_set_page_allocate alloc pos m)) (bm_set_page_allocate alloc p m) = (Inr m' :: kerror + mem)"
    "bm_frame alloc (bm_set_page_allocate alloc p m) m'"
    "\<forall>q. bm_get_page_allocated alloc m' q \<longleftrightarrow>
       q \<in> set ps \<or> bm_get_page_allocated alloc (bm_set_page_allocate alloc p m) q"
    using Cons.IH [OF ps, of "bm_set_page_allocate alloc p m"] by blast
  with Cons.prems show ?case
    using bm_frame_trans [OF bm_frame_set(1)] by (auto simp: get_set_page)
qed simp

lemma free_pages_loop:
  assumes "\<forall>p \<in> set ps. p < bm_page_count alloc"
  shows "\<exists>m'. forE ps (\<lambda>pos m. Inr (bm_set_page_free alloc pos m)) m = (Inr m' :: kerror + mem) \<and> bm_frame alloc m m' \<and>
     (\<forall>q. bm_get_page_allocated alloc m' q \<longleftrightarrow> q \<notin> set ps \<and> bm_get_page_allocated alloc m q)"
  using assms
proof (induction ps arbitrary: m)
  case (Cons p ps)
  have ps: "\<forall>p \<in> set ps. p < bm_page_count alloc" using Cons.prems by simp
  obtain m' where "forE ps (\<lambda>pos m. Inr (bm_set_page_free alloc pos m)) (bm_set_page_free alloc p m) = (Inr m' :: kerror + mem)"
    "bm_frame alloc (bm_set_page_free alloc p m) m'"
    "\<forall>q. bm_get_page_allocated alloc m' q \<longleftrightarrow>
       q \<notin> set ps \<and> bm_get_page_allocated alloc (bm_set_page_free alloc p m) q"
    using Cons.IH [OF ps, of "bm_set_page_free alloc p m"] by blast
  with Cons.prems show ?case
    using bm_frame_trans [OF bm_frame_set(2)] by (auto simp: get_free_page)
qed simp

lemma check_pages_loop:
  "forE ps (\<lambda>pos m. if \<not> bm_get_page_allocated alloc m pos then Inl e else Inr m) m =
     (if \<forall>p \<in> set ps. bm_get_page_allocated alloc m p then Inr m else Inl e)"
  by (induction ps) auto

text \<open>A run of words that starts at page \<open>k\<close>, as page numbers.\<close>

lemma run_pages:
  assumes "k + n \<le> bm_count alloc" and "unat w = k" and "unat c = n"
  shows "set (word_range w (w + c)) = of_nat ` {k..<k + n}"
    and "\<forall>p \<in> set (word_range w (w + c)). p < bm_page_count alloc"
    and "w + c \<le> bm_page_count alloc"
proof -
  have wc: "unat (w + c) = k + n"
    using assms unat_lt_u64 [of "bm_page_count alloc"] by (simp add: unat_add_u64)
  then show "w + c \<le> bm_page_count alloc" using assms(1) by (simp add: word_le_nat_alt)
  show "set (word_range w (w + c)) = of_nat ` {k..<k + n}"
    using wc assms(2) by (simp add: word_range_def)
  show "\<forall>p \<in> set (word_range w (w + c)). p < bm_page_count alloc"
    using wc assms(1) by (auto simp: set_word_range word_less_nat_alt)
qed

lemma of_nat_page_eq: "j < bm_count alloc \<Longrightarrow> k < bm_count alloc \<Longrightarrow>
    (of_nat j :: 64 word) = of_nat k \<longleftrightarrow> j = k"
  using unat_lt_u64 [of "bm_page_count alloc"] unat_of_nat_u64 [of j] unat_of_nat_u64 [of k]
  by (metis order.strict_trans)

lemma of_nat_page_in_run:
  assumes "k + n \<le> bm_count alloc" and "j < bm_count alloc"
  shows "(of_nat j :: 64 word) \<in> of_nat ` {k..<k + n} \<longleftrightarrow> j \<in> {k..<k + n}"
proof
  assume "(of_nat j :: 64 word) \<in> of_nat ` {k..<k + n}"
  then obtain i where i: "i \<in> {k..<k + n}" "(of_nat j :: 64 word) = of_nat i" by auto
  then have "i < bm_count alloc" using assms(1) by simp
  then have "j = i" using i(2) of_nat_page_eq [OF assms(2)] by blast
  with i show "j \<in> {k..<k + n}" by simp
qed simp

subsection \<open>The search\<close>

lemma bm_free_run_total:
  assumes "unat start + unat n \<le> bm_count alloc" and "i \<le> n"
  shows "\<exists>k. bm_free_run alloc m start n i = Inr k"
  using assms
proof (induction alloc m start n i rule: bm_free_run.induct)
  case (1 alloc m start n i)
  show ?case
  proof (cases "i < n")
    case True
    then have i: "unat i < unat n" "unat (i + 1) = unat i + 1"
      using unat_inc_less by (auto simp: word_less_nat_alt)
    have "unat (start + i) = unat start + unat i"
      using "1.prems"(1) i unat_lt_u64 [of "bm_page_count alloc"] by (intro unat_add_u64) simp
    then have chk: "bm_is_page_allocated alloc m (start + i) = Inr (bm_get_page_allocated alloc m (start + i))"
      using "1.prems"(1) i by (simp add: bm_is_page_allocated_def word_less_nat_alt)
    have "i + 1 \<le> n" using i by (simp add: word_le_nat_alt)
    with "1.IH" [OF True chk] "1.prems"(1) True chk show ?thesis
      by (cases "bm_get_page_allocated alloc m (start + i)")
         (simp_all add: bm_free_run.simps [of alloc m start n i])
  qed (simp add: bm_free_run.simps)
qed

text \<open>What the inner loop says about runs that start at or after \<open>start\<close>.\<close>

lemma bm_free_run_runs:
  assumes run: "bm_free_run alloc m start n 0 = Inr i" and fits: "unat start + unat n \<le> bm_count alloc"
  shows "i = n \<Longrightarrow> bm_run alloc m (unat n) (unat start)"
    and "i \<noteq> n \<Longrightarrow> unat start \<le> k \<Longrightarrow> k \<le> unat start + unat i \<Longrightarrow> \<not> bm_run alloc m (unat n) k"
    and "i \<noteq> n \<Longrightarrow> unat (start + (i + 1)) = unat start + unat i + 1"
proof -
  note s = bm_free_run_start [OF run]
  show "bm_run alloc m (unat n) (unat start)" if "i = n"
  proof -
    have "\<not> bm_get_page_allocated alloc m (of_nat q)" if q: "q \<in> {unat start..<unat start + unat n}" for q
    proof -
      have "unat (of_nat (q - unat start) :: 64 word) = q - unat start"
        using q fits unat_lt_u64 [of n] by (intro unat_of_nat_u64) auto
      moreover have "q - unat start < unat n" using q by auto
      ultimately have "of_nat (q - unat start) < n" by (simp only: word_less_nat_alt)
      moreover have "start + of_nat (q - unat start) = of_nat q" using q by (simp add: of_nat_diff)
      ultimately show ?thesis using s \<open>i = n\<close> by (metis bit.conj_zero_right word_coorder.extremum)
    qed
    then show ?thesis using fits by (auto simp: bm_run_def bm_pages_eq)
  qed
  assume i: "i \<noteq> n"
  then have i': "i < n" "bm_get_page_allocated alloc m (start + i)" "start + i < bm_page_count alloc"
    "unat (start + i) = unat start + unat i" using s by auto
  then show "unat (start + (i + 1)) = unat start + unat i + 1"
    using unat_inc_less [OF i'(3)] by (simp add: add.assoc)
  show "\<not> bm_run alloc m (unat n) k" if "unat start \<le> k" "k \<le> unat start + unat i"
  proof -
    have "of_nat (unat start + unat i) = start + i" by simp
    then have "unat start + unat i \<in> bm_pages alloc m"
      using i'(2-4) by (simp add: bm_pages_eq word_less_nat_alt del: of_nat_add)
    moreover have "unat start + unat i \<in> {k..<k + unat n}"
      using that i'(1) by (simp add: word_less_nat_alt)
    ultimately show ?thesis by (auto simp: bm_run_def)
  qed
qed

lemma bm_find_from_spec:
  assumes "bm_count alloc + unat n < 2 ^ 64" and "unat start \<le> bm_count alloc"
    and "\<forall>k < unat start. \<not> bm_run alloc m (unat n) k"
  shows "(bm_find_from alloc m n start = Inr SIZE_MAX \<and> (\<forall>k. \<not> bm_run alloc m (unat n) k)) \<or>
    (\<exists>w. bm_find_from alloc m n start = Inr w \<and> bm_run alloc m (unat n) (unat w) \<and>
       (\<forall>k < unat w. \<not> bm_run alloc m (unat n) k))"
  using assms
proof (induction alloc m n start rule: bm_find_from.induct)
  case (1 alloc m n start)
  have sum: "unat (start + n) = unat start + unat n"
    using "1.prems"(1,2) by (intro unat_add_u64) simp
  show ?case
  proof (cases "start + n \<le> bm_page_count alloc")
    case False
    then have "\<not> bm_run alloc m (unat n) k" if "unat start \<le> k" for k
      using that sum by (auto simp: bm_run_def word_le_nat_alt)
    with "1.prems"(3) False show ?thesis
      by (meson bm_find_from.simps linorder_not_less)
  next
    case True
    then have fits: "unat start + unat n \<le> bm_count alloc" using sum by (simp add: word_le_nat_alt)
    then obtain i where i: "bm_free_run alloc m start n 0 = Inr i"
      using bm_free_run_total [of start n alloc 0 m] by auto
    note runs = bm_free_run_runs [OF i fits]
    show ?thesis
    proof (cases "i = n")
      case found: True
      with i True have "bm_find_from alloc m n start = Inr start" by (simp add: bm_find_from.simps [of alloc m n start])
      with runs(1) [OF found] "1.prems"(3) show ?thesis by blast
    next
      case next_start: False
      have eq: "bm_find_from alloc m n start = bm_find_from alloc m n (start + (i + 1))"
        using i True next_start by (simp add: bm_find_from.simps [of alloc m n start])
      have "i < n" using bm_free_run_start [OF i] next_start by auto
      then have "unat i < unat n" by (simp only: word_less_nat_alt)
      then have le: "unat (start + (i + 1)) \<le> bm_count alloc" using runs(3) [OF next_start] fits by simp
      have none: "\<forall>k < unat (start + (i + 1)). \<not> bm_run alloc m (unat n) k"
        using runs(2) [OF next_start] "1.prems"(3) runs(3) [OF next_start]
        by (metis Suc_eq_plus1 less_Suc_eq_le linorder_not_less)
      show ?thesis unfolding eq by (rule "1.IH" [OF True i next_start "1.prems"(1) le none])
    qed
  qed
qed

lemma bm_find_spec:
  assumes "bm_inv alloc"
  shows "(bm_find_n_free_pages alloc m n = Inr SIZE_MAX \<and> (\<forall>k. \<not> bm_run alloc m (unat n) k)) \<or>
    (\<exists>w. bm_find_n_free_pages alloc m n = Inr w \<and> bm_run alloc m (unat n) (unat w) \<and>
       (\<forall>k < unat w. \<not> bm_run alloc m (unat n) k))"
proof (cases "n \<le> bm_page_count alloc")
  case True
  then have "bm_count alloc + unat n < 2 ^ 64"
    using assms by (simp add: bm_inv_def word_le_nat_alt)
  then show ?thesis unfolding bm_find_n_free_pages_def by (rule bm_find_from_spec) simp_all
next
  case False
  then have "bm_find_n_free_pages alloc m n = Inr SIZE_MAX"
    by (simp add: bm_find_n_free_pages_def bm_find_from.simps)
  with False show ?thesis by (auto simp: bm_run_def word_le_nat_alt)
qed

section \<open>Allocation and free\<close>

lemma bm_pages_allocate:
  assumes "k + n \<le> bm_count alloc"
    and "\<forall>q. bm_get_page_allocated alloc m' q \<longleftrightarrow> q \<in> of_nat ` {k..<k + n} \<or> bm_get_page_allocated alloc m q"
  shows "bm_pages alloc m' = bm_pages alloc m \<union> {k..<k + n}"
proof (rule set_eqI)
  show "j \<in> bm_pages alloc m' \<longleftrightarrow> j \<in> bm_pages alloc m \<union> {k..<k + n}" for j
    using assms of_nat_page_in_run [OF assms(1), of j] by (cases "j < bm_count alloc") (auto simp: bm_pages_eq simp del: image_iff)
qed

lemma bm_pages_free:
  assumes "k + n \<le> bm_count alloc"
    and "\<forall>q. bm_get_page_allocated alloc m' q \<longleftrightarrow> q \<notin> of_nat ` {k..<k + n} \<and> bm_get_page_allocated alloc m q"
  shows "bm_pages alloc m' = bm_pages alloc m - {k..<k + n}"
proof (rule set_eqI)
  show "j \<in> bm_pages alloc m' \<longleftrightarrow> j \<in> bm_pages alloc m - {k..<k + n}" for j
    using assms of_nat_page_in_run [OF assms(1), of j] by (cases "j < bm_count alloc") (auto simp: bm_pages_eq simp del: image_iff)
qed

lemma bm_allocate_spec:
  assumes "unat w + unat n \<le> bm_count alloc" and "0 < n"
  shows "\<exists>m'. bm_allocate alloc w n m = Inr (bm_page_to_addr alloc w, m') \<and> bm_frame alloc m m' \<and>
    bm_pages alloc m' = bm_pages alloc m \<union> {unat w..<unat w + unat n}"
proof -
  note run = run_pages [OF assms(1) refl refl]
  obtain m' where "forE (word_range w (w + n)) (\<lambda>pos m. Inr (bm_set_page_allocate alloc pos m)) m = (Inr m' :: kerror + mem)"
    "bm_frame alloc m m'"
    "\<forall>q. bm_get_page_allocated alloc m' q \<longleftrightarrow> q \<in> of_nat ` {unat w..<unat w + unat n} \<or> bm_get_page_allocated alloc m q"
    using set_pages_loop [OF run(2), of m] unfolding run(1) by blast
  moreover have "w < bm_page_count alloc" using assms by (simp add: word_less_nat_alt)
  ultimately show ?thesis
    using run(3) assms(2) bm_pages_allocate [OF assms(1)] by (simp add: bm_allocate_def)
qed

lemma unat_bm_addr:
  assumes "bm_inv alloc" and "k < bm_count alloc"
  shows "unat (bm_addr alloc k) = unat (bm_pool alloc) + k * 4096"
proof -
  have k: "k * 4096 < bm_count alloc * 4096" "k < 2 ^ 64"
    using assms unat_lt_u64 [of "bm_page_count alloc"] by simp_all
  then have "k * 4096 < 2 ^ 64" "unat (bm_pool alloc) + k * 4096 < 2 ^ 64"
    using assms(1) by (auto simp: bm_inv_def)
  moreover from k(2) have "unat (of_nat k :: 64 word) = k" by (rule unat_of_nat_u64)
  ultimately show ?thesis
    by (simp add: bm_addr_def bm_page_to_addr_def unat_add_u64 unat_mult_u64)
qed

lemma bm_addr_not_err:
  assumes "bm_inv alloc" and "k < bm_count alloc"
  shows "IS_PAGE_ALIGNED (bm_addr alloc k)" and "\<not> IS_ERR (bm_addr alloc k)"
proof -
  show "IS_PAGE_ALIGNED (bm_addr alloc k)"
    using assms(1) by (simp add: IS_PAGE_ALIGNED_iff unat_bm_addr [OF assms] bm_inv_def)
  then show "\<not> IS_ERR (bm_addr alloc k)" by (rule not_IS_ERR_aligned)
qed

lemma bm_addr_to_page_addr:
  assumes "bm_inv alloc" and "k < bm_count alloc"
  shows "bm_addr_to_page alloc (bm_addr alloc k) = Inr (of_nat k)"
proof -
  note a = unat_bm_addr [OF assms]
  have top: "unat (bm_pool alloc + bm_page_count alloc * PAGE_SIZE) = unat (bm_pool alloc) + bm_count alloc * 4096"
    using assms(1) by (simp add: bm_inv_def unat_add_u64 unat_mult_u64)
  have "bm_pool alloc \<le> bm_addr alloc k" using a by (simp add: word_le_nat_alt)
  moreover have "bm_addr alloc k < bm_pool alloc + bm_page_count alloc * PAGE_SIZE"
    using a top assms(2) by (simp add: word_less_nat_alt)
  moreover have "(bm_addr alloc k - bm_pool alloc) div PAGE_SIZE = of_nat k"
  proof -
    have "unat (of_nat k :: 64 word) = k"
      using assms(2) unat_lt_u64 [of "bm_page_count alloc"] by (intro unat_of_nat_u64) simp
    then show ?thesis
      using a \<open>bm_pool alloc \<le> bm_addr alloc k\<close> by (simp add: word_unat_eq_iff unat_div unat_sub)
  qed
  ultimately show ?thesis by (simp add: bm_addr_to_page_def)
qed

lemma bitmap_free_spec:
  assumes inv: "bm_inv alloc" and "0 < n" and run: "k + unat n \<le> bm_count alloc"
  shows "if {k..<k + unat n} \<subseteq> bm_pages alloc m
    then \<exists>m'. bitmap_free alloc (bm_addr alloc k) n m = Inr m' \<and> bm_frame alloc m m' \<and>
           bm_pages alloc m' = bm_pages alloc m - {k..<k + unat n}
    else bitmap_free alloc (bm_addr alloc k) n m = Inl (Panic ''freeing pages which arent allocated'')"
proof -
  have n: "0 < unat n" using assms(2) by (simp add: word_less_nat_alt)
  then have k: "k < bm_count alloc" "unat (of_nat k :: 64 word) = k"
    using run unat_lt_u64 [of "bm_page_count alloc"] by (auto intro: unat_of_nat_u64)
  note run' = run_pages [OF run k(2) refl]
  have "of_nat k < bm_page_count alloc" using k by (simp add: word_less_nat_alt)
  then have eq: "bitmap_free alloc (bm_addr alloc k) n m =
      bindE (if \<forall>p \<in> set (word_range (of_nat k) (of_nat k + n)). bm_get_page_allocated alloc m p
             then Inr m else Inl (Panic ''freeing pages which arent allocated''))
        (forE (word_range (of_nat k) (of_nat k + n)) (\<lambda>pos m. Inr (bm_set_page_free alloc pos m)))"
    using bm_addr_to_page_addr [OF inv k(1)] run'(3) assms(2)
    by (simp add: bitmap_free_def bm_free_def check_pages_loop)
  have all: "(\<forall>p \<in> set (word_range (of_nat k) (of_nat k + n)). bm_get_page_allocated alloc m p) \<longleftrightarrow>
      {k..<k + unat n} \<subseteq> bm_pages alloc m"
    using run by (auto simp: run'(1) bm_pages_eq)
  show ?thesis
  proof (cases "{k..<k + unat n} \<subseteq> bm_pages alloc m")
    case True
    obtain m' where "forE (word_range (of_nat k) (of_nat k + n)) (\<lambda>pos m. Inr (bm_set_page_free alloc pos m)) m = (Inr m' :: kerror + mem)"
      "bm_frame alloc m m'"
      "\<forall>q. bm_get_page_allocated alloc m' q \<longleftrightarrow> q \<notin> of_nat ` {k..<k + unat n} \<and> bm_get_page_allocated alloc m q"
      using free_pages_loop [OF run'(2), of m] unfolding run'(1) by blast
    with True show ?thesis using eq all bm_pages_free [OF run] by simp
  next
    case False
    then show ?thesis using eq all by (simp only: if_False) simp
  qed
qed

lemma bitmap_alloc_spec:
  assumes inv: "bm_inv alloc" and "0 < n"
  shows "(bitmap_alloc alloc n m = Inr (ERR_TO_PTR (- errnum ENOMEM), m) \<and> (\<forall>k. \<not> bm_run alloc m (unat n) k)) \<or>
    (\<exists>k m'. bitmap_alloc alloc n m = Inr (bm_addr alloc k, m') \<and> bm_run alloc m (unat n) k \<and>
       (\<forall>j < k. \<not> bm_run alloc m (unat n) j) \<and> bm_frame alloc m m' \<and>
       bm_pages alloc m' = bm_pages alloc m \<union> {k..<k + unat n})"
  using bm_find_spec [OF inv, of m n]
proof
  assume "bm_find_n_free_pages alloc m n = Inr SIZE_MAX \<and> (\<forall>k. \<not> bm_run alloc m (unat n) k)"
  then show ?thesis by (simp add: bitmap_alloc_def)
next
  assume "\<exists>w. bm_find_n_free_pages alloc m n = Inr w \<and> bm_run alloc m (unat n) (unat w) \<and>
       (\<forall>k < unat w. \<not> bm_run alloc m (unat n) k)"
  then obtain w where w: "bm_find_n_free_pages alloc m n = Inr w" "bm_run alloc m (unat n) (unat w)"
    "\<forall>k < unat w. \<not> bm_run alloc m (unat n) k" by blast
  then have fits: "unat w + unat n \<le> bm_count alloc" by (simp add: bm_run_def)
  have "bm_count alloc < 2 ^ 52" using inv by (simp add: bm_inv_def)
  moreover have "unat SIZE_MAX = 2 ^ 64 - 1" by (simp add: SIZE_MAX_def unsigned_minus_1_eq_mask mask_eq_exp_minus_1)
  ultimately have "SIZE_MAX \<noteq> w" using fits by auto
  then obtain m' where "bitmap_alloc alloc n m = Inr (bm_addr alloc (unat w), m')" "bm_frame alloc m m'"
    "bm_pages alloc m' = bm_pages alloc m \<union> {unat w..<unat w + unat n}"
    using w(1) bm_allocate_spec [OF fits assms(2), of m] by (auto simp: bitmap_alloc_def bm_addr_def)
  then show ?thesis using w(2,3) by blast
qed

section \<open>The contract of a page pool\<close>

text \<open>
  What the region code relies on, for any provider with a set of held pages and an address for
  each page: an allocation that does not report an error takes fresh pages, one that does
  changes nothing, and held pages can be given back.
\<close>

locale page_pool =
  fixes inv :: "'s \<Rightarrow> bool"
    and held :: "'s \<Rightarrow> nat set"
    and addr :: "'s \<Rightarrow> nat \<Rightarrow> ptr"
    and take :: "'s \<Rightarrow> usize \<Rightarrow> kerror + ptr \<times> 's"
    and give :: "'s \<Rightarrow> ptr \<Rightarrow> usize \<Rightarrow> kerror + 's"
  assumes take_cases: "inv s \<Longrightarrow> 0 < n \<Longrightarrow>
      (\<exists>p. take s n = Inr (p, s) \<and> IS_ERR p) \<or>
      (\<exists>k s'. take s n = Inr (addr s k, s') \<and> \<not> IS_ERR (addr s k) \<and> inv s' \<and> addr s' = addr s \<and>
         held s \<inter> {k..<k + unat n} = {} \<and> held s' = held s \<union> {k..<k + unat n})"
    and give_held: "inv s \<Longrightarrow> 0 < n \<Longrightarrow> {k..<k + unat n} \<subseteq> held s \<Longrightarrow>
      \<exists>s'. give s (addr s k) n = Inr s' \<and> inv s' \<and> addr s' = addr s \<and> held s' = held s - {k..<k + unat n}"
begin

lemma take_total: "inv s \<Longrightarrow> 0 < n \<Longrightarrow> \<exists>p s'. take s n = Inr (p, s') \<and> inv s'"
  using take_cases [of s n] by blast

text \<open>Giving back what was just taken restores the set of held pages.\<close>

lemma take_give:
  assumes "inv s" and "0 < n" and "take s n = Inr (p, s1)" and "\<not> IS_ERR p"
  shows "\<exists>s2. give s1 p n = Inr s2 \<and> inv s2 \<and> held s2 = held s"
proof -
  obtain k where k: "p = addr s k" "inv s1" "addr s1 = addr s"
    "held s \<inter> {k..<k + unat n} = {}" "held s1 = held s \<union> {k..<k + unat n}"
    using take_cases [OF assms(1,2)] assms(3,4) by auto
  then show ?thesis using give_held [OF k(2) assms(2), of k] by auto
qed

text \<open>Two allocations never share a page, and the second can be undone without the first.\<close>

lemma take_twice:
  assumes "inv s" and "0 < n" "take s n = Inr (p, s1)" "\<not> IS_ERR p"
    and "0 < n'" "take s1 n' = Inr (q, s2)" "\<not> IS_ERR q"
  shows "\<exists>k k'. p = addr s k \<and> q = addr s k' \<and> {k..<k + unat n} \<inter> {k'..<k' + unat n'} = {} \<and>
    (\<exists>s3. give s2 p n = Inr s3 \<and> inv s3 \<and> held s3 = held s \<union> {k'..<k' + unat n'})"
proof -
  obtain k where k: "p = addr s k" "inv s1" "addr s1 = addr s"
    "held s \<inter> {k..<k + unat n} = {}" "held s1 = held s \<union> {k..<k + unat n}"
    using take_cases [OF assms(1,2)] assms(3,4) by auto
  obtain k' where k': "q = addr s k'" "inv s2" "addr s2 = addr s"
    "held s1 \<inter> {k'..<k' + unat n'} = {}" "held s2 = held s1 \<union> {k'..<k' + unat n'}"
    using take_cases [OF k(2) assms(5)] assms(6,7) k(3) by auto
  have disj: "{k..<k + unat n} \<inter> {k'..<k' + unat n'} = {}" using k(5) k'(4) by blast
  obtain s3 where s3: "give s2 (addr s2 k) n = Inr s3" "inv s3" "held s3 = held s2 - {k..<k + unat n}"
    using give_held [OF k'(2) assms(2), of k] k(5) k'(5) by auto
  have "held s3 = held s \<union> {k'..<k' + unat n'}" using s3(3) k(4,5) k'(5) disj by blast
  then show ?thesis using disj s3 k(1) k'(1,3) by auto
qed

end

lemma bm_pages_bound: "bm_pages alloc m \<subseteq> {..<bm_count alloc}"
  by (auto simp: bm_pages_eq)

lemma run_subset_fits:
  assumes "{k..<k + unat n} \<subseteq> bm_pages alloc m" and "0 < (n :: 64 word)"
  shows "k + unat n \<le> bm_count alloc"
proof -
  have "0 < unat n" using assms(2) by (simp add: word_less_nat_alt)
  then have "k + unat n - 1 \<in> {k..<k + unat n}" by simp
  then have "k + unat n - 1 < bm_count alloc" using assms(1) bm_pages_bound by blast
  then show ?thesis by simp
qed

interpretation bmp: page_pool "\<lambda>(alloc, m). bm_inv alloc" "\<lambda>(alloc, m). bm_pages alloc m"
  "\<lambda>(alloc, m). bm_addr alloc"
  "\<lambda>s n. case s of (alloc, m) \<Rightarrow> bindE (bitmap_alloc alloc n m) (\<lambda>(p, m). Inr (p, (alloc, m)))"
  "\<lambda>s p n. case s of (alloc, m) \<Rightarrow> bindE (bitmap_free alloc p n m) (\<lambda>m. Inr (alloc, m))"
proof (unfold_locales, goal_cases)
  case (1 s n)
  obtain alloc m where s: "s = (alloc, m)" by (cases s)
  from 1 have inv: "bm_inv alloc" and n: "0 < n" by (simp_all add: s)
  show ?case
    using bitmap_alloc_spec [OF inv n, of m]
  proof (elim disjE exE conjE)
    fix k m' assume k: "bitmap_alloc alloc n m = Inr (bm_addr alloc k, m')" "bm_run alloc m (unat n) k"
      "bm_pages alloc m' = bm_pages alloc m \<union> {k..<k + unat n}"
    have "k < bm_count alloc" using k(2) n by (auto simp: bm_run_def word_less_nat_alt)
    with k inv show ?thesis
      unfolding s by (intro disjI2 exI [of _ k] exI [of _ "(alloc, m')"])
        (auto simp: bm_run_def bm_addr_not_err(2))
  qed (simp add: s IS_ERR_def ERR_TO_PTR_def)
next
  case (2 s n k)
  obtain alloc m where s: "s = (alloc, m)" by (cases s)
  from 2 have inv: "bm_inv alloc" and n: "0 < n" and sub: "{k..<k + unat n} \<subseteq> bm_pages alloc m"
    by (simp_all add: s)
  show ?case
    using bitmap_free_spec [OF inv n run_subset_fits [OF sub n], of m] sub inv by (auto simp: s)
qed

section \<open>Initialisation\<close>

lemma unat_bitmap_bytes: "unat (SIZE_TO_BITMAP_BYTES sz) = (unat sz div 4096 + 7) div 8"
proof -
  have "unat sz div 4096 < 2 ^ 64 - 7" using unat_lt_u64 [of sz] by simp
  then have "unat (sz div PAGE_SIZE + 7) = unat sz div 4096 + 7"
    by (subst unat_add_u64) (simp_all add: unat_div)
  then show ?thesis by (simp add: SIZE_TO_BITMAP_BYTES_def unat_div)
qed

text \<open>The bitmap starts at the first page boundary that leaves room for it at the end of the pool.\<close>

lemma bitmap_place:
  assumes "unat pool mod 4096 = 0" and "unat sz = 4096 * k" and "2 \<le> k"
    and "unat pool + unat sz < 2 ^ 64"
  defines "bytes \<equiv> SIZE_TO_BITMAP_BYTES sz"
  defines "bitmap \<equiv> round_down (pool + sz - bytes) PAGE_SIZE"
  shows "unat bitmap + unat bytes \<le> unat pool + unat sz"
    and "unat bitmap = unat pool + 4096 * ((4096 * k - (k + 7) div 8) div 4096)"
proof -
  have b: "unat bytes = (k + 7) div 8" using assms(2) by (simp add: bytes_def unat_bitmap_bytes)
  have ps: "unat (pool + sz) = unat pool + unat sz" using assms(4) by (rule unat_add_u64)
  then have "bytes \<le> pool + sz" using b assms(2,3) by (simp add: word_le_nat_alt)
  then have d: "unat (pool + sz - bytes) = unat pool + unat sz - unat bytes" using ps by (simp add: unat_sub)
  then have m: "unat bitmap = (unat pool + unat sz - unat bytes) div 4096 * 4096"
    unfolding bitmap_def PAGE_SIZE_pow2 unat_round_down by simp
  then have "unat bitmap \<le> unat pool + unat sz - unat bytes" by simp
  moreover have "unat bytes \<le> unat sz" using b assms(2,3) by simp
  ultimately show "unat bitmap + unat bytes \<le> unat pool + unat sz" by linarith
  obtain j where j: "unat pool = 4096 * j" using assms(1) by auto
  have "unat pool + unat sz - unat bytes = (4096 * k - (k + 7) div 8) + j * 4096"
    using j b assms(2,3) by simp
  then have "unat bitmap = ((4096 * k - (k + 7) div 8) div 4096 + j) * 4096"
    unfolding m by (simp only: div_mult_self1 zero_neq_numeral not_False_eq_True add.commute [of j])
  then show "unat bitmap = unat pool + 4096 * ((4096 * k - (k + 7) div 8) div 4096)"
    using j by simp
qed

lemma alloc_bitmap_init_spec:
  assumes al: "IS_PAGE_ALIGNED pool" "IS_PAGE_ALIGNED sz" and two: "8192 \<le> unat sz"
    and fits: "unat pool + unat sz < 2 ^ 64"
  shows "\<exists>alloc m'. alloc_bitmap_init pool sz m = Inr (alloc, m') \<and> bm_inv alloc \<and>
    bm_pages alloc m' = {} \<and> bm_pool alloc = pool \<and>
    unat (bm_bitmap alloc) = unat pool + bm_count alloc * 4096 \<and>
    unat (bm_bitmap alloc) + (bm_count alloc + 7) div 8 \<le> unat pool + unat sz"
proof -
  obtain k where k: "unat sz = 4096 * k" using al(2) by (auto simp: IS_PAGE_ALIGNED_iff)
  have k2: "2 \<le> k" using two k by simp
  let ?bytes = "SIZE_TO_BITMAP_BYTES sz"
  let ?bm = "round_down (pool + sz - ?bytes) PAGE_SIZE"
  let ?c = "(4096 * k - (k + 7) div 8) div 4096"
  have al': "unat pool mod 4096 = 0" using al(1) by (simp add: IS_PAGE_ALIGNED_iff)
  note place = bitmap_place [OF al' k k2 fits]
  have bytes: "unat ?bytes = (k + 7) div 8" using k by (simp add: unat_bitmap_bytes)
  have c: "0 < ?c" "?c \<le> k" using k2 by (auto simp: div_greater_zero_iff)
  have le: "pool \<le> ?bm" using place(2) by (simp add: word_le_nat_alt)
  have count: "unat ((?bm - pool) div PAGE_SIZE) = ?c"
    using place(2) le by (simp add: unat_div unat_sub)
  let ?a = "\<lparr>bm_bitmap = ?bm, bm_page_count = (?bm - pool) div PAGE_SIZE, bm_pool = pool\<rparr>"
  have "0 < bm_page_count ?a" using count c(1) by (simp add: word_less_nat_alt)
  then have init: "alloc_bitmap_init pool sz m = Inr (?a, memset m ?bm 0 ?bytes)"
    using al by (simp add: alloc_bitmap_init_def Let_def)
  have inv: "bm_inv ?a" using count c al(1) place fits k by (simp add: bm_inv_def)
  have "bm_pages ?a (memset m ?bm 0 ?bytes) = {}"
  proof -
    have "\<not> bm_get_page_allocated ?a (memset m ?bm 0 ?bytes) (of_nat j)" if j: "j < ?c" for j
    proof -
      have u: "unat (of_nat j :: 64 word) = j"
        using j count unat_lt_u64 [of "(?bm - pool) div PAGE_SIZE"] by (intro unat_of_nat_u64) linarith
      have "j div 8 < (k + 7) div 8" using j c(2) by linarith
      then have "in_region (?bm + of_nat j div 8) ?bm (unat ?bytes)"
        using u bytes by (intro in_region_offset) (simp add: unat_div)
      then show ?thesis by (simp add: bm_get_page_allocated_def memset_eq GET_BIT_iff)
    qed
    then show ?thesis using count by (auto simp: bm_pages_eq)
  qed
  moreover have "(?c + 7) div 8 \<le> (k + 7) div 8" using c(2) by (intro div_le_mono) simp
  ultimately show ?thesis
    using init inv count place bytes k by (intro exI [of _ ?a] exI [of _ "memset m ?bm 0 ?bytes"]) simp
qed

section \<open>The allocator as a whole\<close>

definition demo_pages :: alloc_bitmap where
  "demo_pages = \<lparr>bm_bitmap = 0x8000, bm_page_count = 20, bm_pool = 0x10000\<rparr>"

text \<open>Pages 0, 1 and 4 are in use.\<close>

definition demo_bits :: mem where
  "demo_bits = (\<lambda>_. 0)(0x8000 := 0x13)"

text \<open>
  C14.  First fit.  For a positive number of pages, \<open>bitmap_alloc\<close> returns: either there is no
  run of that many free pages in the pool, and it returns \<open>-ENOMEM\<close> with memory unchanged; or
  it returns the page aligned address, which is no error pointer, of the lowest such run, the
  pages of the run and no others have become allocated, and no byte outside the bitmap has
  changed.
\<close>

theorem bitmap_alloc_first_fit:
  assumes "bm_inv alloc" and "0 < n"
  shows "(bitmap_alloc alloc n m = Inr (ERR_TO_PTR (- errnum ENOMEM), m) \<and> (\<forall>k. \<not> bm_run alloc m (unat n) k)) \<or>
    (\<exists>k m'. bitmap_alloc alloc n m = Inr (bm_pool alloc + of_nat k * PAGE_SIZE, m') \<and>
       IS_PAGE_ALIGNED (bm_pool alloc + of_nat k * PAGE_SIZE) \<and> \<not> IS_ERR (bm_pool alloc + of_nat k * PAGE_SIZE) \<and>
       bm_run alloc m (unat n) k \<and> (\<forall>j < k. \<not> bm_run alloc m (unat n) j) \<and>
       bm_pages alloc m' = bm_pages alloc m \<union> {k..<k + unat n} \<and> bm_frame alloc m m')"
  using bitmap_alloc_spec [OF assms, of m]
proof (elim disjE exE conjE)
  fix k m' assume k: "bitmap_alloc alloc n m = Inr (bm_addr alloc k, m')" "bm_run alloc m (unat n) k"
    "\<forall>j < k. \<not> bm_run alloc m (unat n) j" "bm_frame alloc m m'"
    "bm_pages alloc m' = bm_pages alloc m \<union> {k..<k + unat n}"
  have "k < bm_count alloc" using k(2) assms(2) by (auto simp: bm_run_def word_less_nat_alt)
  then show ?thesis
    using k bm_addr_not_err [OF assms(1)] unfolding bm_addr_def bm_page_to_addr_def by blast
qed simp

theorem bitmap_alloc_first_fit_witness:
  "bm_inv demo_pages \<and>
   (\<exists>m'. bitmap_alloc demo_pages 3 demo_bits = Inr (0x15000, m') \<and> bm_frame demo_pages demo_bits m')"
proof -
  have inv: "bm_inv demo_pages" by (simp add: demo_pages_def bm_inv_def IS_PAGE_ALIGNED_iff)
  have run5: "bm_run demo_pages demo_bits 3 5" and no: "\<forall>j < 5. \<not> bm_run demo_pages demo_bits 3 j"
    by code_simp+
  have none_ne: "\<not> (\<forall>k. \<not> bm_run demo_pages demo_bits (unat (3 :: usize)) k)" using run5 by auto
  obtain k m' where k: "bitmap_alloc demo_pages 3 demo_bits = Inr (bm_pool demo_pages + of_nat k * PAGE_SIZE, m')"
    "bm_run demo_pages demo_bits (unat (3 :: usize)) k"
    "\<forall>j < k. \<not> bm_run demo_pages demo_bits (unat (3 :: usize)) j" "bm_frame demo_pages demo_bits m'"
    using bitmap_alloc_first_fit [OF inv, of 3 demo_bits] none_ne by auto
  have u: "unat (3 :: usize) = 3" by simp
  have "\<not> k < 5" "\<not> 5 < k" using k(2,3) run5 no unfolding u by blast+
  then have "k = 5" by simp
  with k(1,4) inv show ?thesis by (simp add: demo_pages_def PAGE_SIZE_def)
qed

text \<open>
  Freeing.  For a run of pages inside the pool, \<open>bitmap_free\<close> frees exactly the pages of
  the run when all of them are allocated; when one of them is not (a double free), it panics,
  before it has cleared any bit.
\<close>

lemma bitmap_free_exact:
  assumes "bm_inv alloc" and "0 < n" and "k + unat n \<le> bm_count alloc"
  shows "if {k..<k + unat n} \<subseteq> bm_pages alloc m
    then \<exists>m'. bitmap_free alloc (bm_pool alloc + of_nat k * PAGE_SIZE) n m = Inr m' \<and> bm_frame alloc m m' \<and>
           bm_pages alloc m' = bm_pages alloc m - {k..<k + unat n}
    else bitmap_free alloc (bm_pool alloc + of_nat k * PAGE_SIZE) n m =
           Inl (Panic ''freeing pages which arent allocated'')"
  using bitmap_free_spec [OF assms, of m] unfolding bm_addr_def bm_page_to_addr_def .

text \<open>
  Take and give back.  An allocation that succeeded can be freed with the address and size
  it was made with, and the set of allocated pages is then the one before the allocation.
\<close>

lemma bitmap_alloc_free_roundtrip:
  assumes "bm_inv alloc" and "0 < n" and "bitmap_alloc alloc n m = Inr (p, m1)" and "\<not> IS_ERR p"
  shows "\<exists>m2. bitmap_free alloc p n m1 = Inr m2 \<and> bm_pages alloc m2 = bm_pages alloc m"
  using bmp.take_give [of "(alloc, m)" n p "(alloc, m1)"] assms by (auto simp: bind_rules)

text \<open>
  Initialisation.  A page aligned pool of at least two pages becomes an allocator with no
  page allocated, whose pages are the front of the pool, whose bitmap starts right behind its
  last page and, with a bit for every page, ends inside the pool.
\<close>

lemma alloc_bitmap_init_ok:
  assumes "IS_PAGE_ALIGNED pool" and "IS_PAGE_ALIGNED sz" and "8192 \<le> unat sz"
    and "unat pool + unat sz < 2 ^ 64"
  shows "\<exists>alloc m'. alloc_bitmap_init pool sz m = Inr (alloc, m') \<and> bm_inv alloc \<and>
    bm_pages alloc m' = {} \<and> bm_pool alloc = pool \<and>
    unat (bm_bitmap alloc) = unat pool + bm_count alloc * 4096 \<and>
    unat (bm_bitmap alloc) + (bm_count alloc + 7) div 8 \<le> unat pool + unat sz"
  using assms by (rule alloc_bitmap_init_spec)

end
