(* ===== verification/Vm_Region.thy ===== *)
theory Vm_Region
  imports Bitmap_Allocator Spinlock
begin

text \<open>
  The virtual address regions of \<open>kernel/mm/vmm_region.c\<close>: a bitmap allocator, a table that
  remembers the size of every allocation, and a lock around both.  A pointer to a table entry
  is the index of the entry.

  The abstract view of a region is the set of its live allocations (\<open>region_live\<close>, pairs of
  an address and a page count).  The invariant ties the table to the bitmap: the live
  allocations are disjoint and cover exactly the allocated pages.  The locale
  \<open>allocation_map\<close> is the contract of the region towards the virtual memory manager.
\<close>

section \<open>Regions and their operations\<close>

record vm_allocation =
  va_addr :: ptr
  va_page_count :: usize

record vm_region =
  vr_lock :: spinlock
  vr_allocator :: alloc_bitmap
  vr_allocations :: "vm_allocation list"
  vr_allocations_size :: usize

definition free_slot :: vm_allocation where
  "free_slot = \<lparr>va_addr = nullptr, va_page_count = 0\<rparr>"

text \<open>
  The macro that allocates a region statically; \<open>bitmap\<close> is the address of its storage.
\<close>

definition STATIC_ALLOC_VM_REGION :: "ptr \<Rightarrow> ptr \<Rightarrow> usize \<Rightarrow> vm_region" where
  "STATIC_ALLOC_VM_REGION bitmap addr sz =
     \<lparr>vr_lock = \<lparr>sl_locked = False, sl_name = [], sl_cpu = nullptr\<rparr>,
      vr_allocator = \<lparr>bm_bitmap = bitmap, bm_page_count = sz div PAGE_SIZE, bm_pool = addr\<rparr>,
      vr_allocations = replicate (unat (sz div PAGE_SIZE)) free_slot,
      vr_allocations_size = SIZE_TO_BITMAP_BYTES sz\<rparr>"

text \<open>
  Clearing more entries than the table has is an access out of bounds.
\<close>

definition region_init :: "vm_region \<Rightarrow> string \<Rightarrow> mem \<Rightarrow> kerror + vm_region \<times> mem" where
  "region_init region msg m =
     (let alloc = vr_allocator region;
          m = memset m (bm_bitmap alloc) 0 (SIZE_TO_BITMAP_BYTES (bm_page_count alloc * PAGE_SIZE));
          n = unat (vr_allocations_size region)
      in if n \<le> length (vr_allocations region)
         then Inr (region\<lparr>vr_lock := spinlock_init msg,
                vr_allocations := replicate n free_slot @ drop n (vr_allocations region)\<rparr>, m)
         else Inl (Fault nullptr))"

fun find_slot :: "vm_allocation list \<Rightarrow> ptr \<Rightarrow> usize list \<Rightarrow> kerror + errno + usize" where
  "find_slot allocations addr [] = Inr (Inl ENOENT)"
| "find_slot allocations addr (i # is) =
     (if unat i < length allocations then
        if addr = va_addr (allocations ! unat i) then Inr (Inr i) else find_slot allocations addr is
      else Inl (Fault i))"

definition region_find :: "vm_region \<Rightarrow> ptr \<Rightarrow> kerror + errno + usize" where
  "region_find region addr =
     find_slot (vr_allocations region) addr (word_range 0 (vr_allocations_size region))"

definition set_slot :: "vm_region \<Rightarrow> usize \<Rightarrow> vm_allocation \<Rightarrow> vm_region" where
  "set_slot region i e = region\<lparr>vr_allocations := (vr_allocations region)[unat i := e]\<rparr>"

text \<open>The two operations, first their critical sections.\<close>

definition region_alloc_locked :: "vm_region \<Rightarrow> usize \<Rightarrow> mem \<Rightarrow> kerror + ptr \<times> vm_region \<times> mem" where
  "region_alloc_locked region page_count m =
     bindE (region_find region nullptr) (\<lambda>vm_allocation.
     case vm_allocation of
       Inl _ \<Rightarrow> Inr (ERR_TO_PTR (- errnum ENOMEM), region, m)
     | Inr i \<Rightarrow>
       bindE (bitmap_alloc (vr_allocator region) page_count m) (\<lambda>(va, m).
       if IS_ERR va then Inr (va, region, m)
       else Inr (va, set_slot region i \<lparr>va_addr = va, va_page_count = page_count\<rparr>, m)))"

definition region_free_locked :: "vm_region \<Rightarrow> ptr \<Rightarrow> mem \<Rightarrow> kerror + usize \<times> vm_region \<times> mem" where
  "region_free_locked region addr m =
     bindE (region_find region addr) (\<lambda>vm_allocation.
     case vm_allocation of
       Inl _ \<Rightarrow> Inl (Panic ''tried freeing non existent allocation'')
     | Inr i \<Rightarrow>
       let page_count = va_page_count (vr_allocations region ! unat i) in
       bindE (bitmap_free (vr_allocator region) addr page_count m) (\<lambda>m.
       Inr (page_count, set_slot region i free_slot, m)))"

definition region_alloc ::
  "vm_region \<Rightarrow> usize \<Rightarrow> core \<Rightarrow> mem \<Rightarrow> kerror + ptr \<times> vm_region \<times> core \<times> mem" where
  "region_alloc region page_count c m =
     bindE (assertE (page_count > 0) ''Page count is zero?'') (\<lambda>_.
     bindE (spinlock_scoped c (vr_lock region)
              (\<lambda>c. bindE (region_alloc_locked region page_count m) (\<lambda>a. Inr (a, c))))
       (\<lambda>((p, region, m), c, lock). Inr (p, region\<lparr>vr_lock := lock\<rparr>, c, m)))"

definition region_free ::
  "vm_region \<Rightarrow> ptr \<Rightarrow> core \<Rightarrow> mem \<Rightarrow> kerror + usize \<times> vm_region \<times> core \<times> mem" where
  "region_free region addr c m =
     bindE (spinlock_scoped c (vr_lock region)
              (\<lambda>c. bindE (region_free_locked region addr m) (\<lambda>a. Inr (a, c))))
       (\<lambda>((n, region, m), c, lock). Inr (n, region\<lparr>vr_lock := lock\<rparr>, c, m))"

section \<open>The invariant\<close>

definition slots :: "vm_region \<Rightarrow> vm_allocation list" where
  "slots r = take (unat (vr_allocations_size r)) (vr_allocations r)"

definition slot_pages :: "alloc_bitmap \<Rightarrow> vm_allocation \<Rightarrow> nat set" where
  "slot_pages a e = (if va_addr e = nullptr then {} else
     let k = unat (va_addr e - bm_pool a) div 4096 in {k..<k + unat (va_page_count e)})"

definition slot_ok :: "alloc_bitmap \<Rightarrow> vm_allocation \<Rightarrow> bool" where
  "slot_ok a e \<longleftrightarrow> va_addr e = nullptr \<or>
     (\<exists>k. va_addr e = bm_addr a k \<and> 0 < va_page_count e \<and> k + unat (va_page_count e) \<le> bm_count a)"

definition region_live :: "vm_region \<Rightarrow> (ptr \<times> usize) set" where
  "region_live r = {(va_addr e, va_page_count e) |e. e \<in> set (slots r) \<and> va_addr e \<noteq> nullptr}"

definition region_inv :: "vm_region \<Rightarrow> mem \<Rightarrow> bool" where
  "region_inv r m \<longleftrightarrow> bm_inv (vr_allocator r) \<and> bm_pool (vr_allocator r) \<noteq> nullptr \<and>
     lock_free (vr_lock r) \<and> unat (vr_allocations_size r) \<le> length (vr_allocations r) \<and>
     (\<forall>e \<in> set (slots r). slot_ok (vr_allocator r) e) \<and>
     (\<forall>i < length (slots r). \<forall>j < length (slots r). i \<noteq> j \<longrightarrow>
        slot_pages (vr_allocator r) (slots r ! i) \<inter> slot_pages (vr_allocator r) (slots r ! j) = {}) \<and>
     (\<Union>e \<in> set (slots r). slot_pages (vr_allocator r) e) = bm_pages (vr_allocator r) m"

lemma bm_addr_inj:
  assumes "bm_inv a" and "j < bm_count a" and "k < bm_count a"
  shows "bm_addr a j = bm_addr a k \<longleftrightarrow> j = k"
  using unat_bm_addr [OF assms(1,2)] unat_bm_addr [OF assms(1,3)]
  by (metis add_left_cancel mult_right_cancel zero_neq_numeral)

lemma bm_addr_not_null:
  assumes "bm_inv a" and "k < bm_count a" and "bm_pool a \<noteq> nullptr"
  shows "bm_addr a k \<noteq> nullptr"
proof
  assume "bm_addr a k = nullptr"
  then have "unat (bm_pool a) = 0" using unat_bm_addr [OF assms(1,2)] by simp
  with assms(3) show False by (simp add: unat_eq_zero)
qed

lemma slot_pages_addr:
  assumes "bm_inv a" and "k < bm_count a" and "bm_pool a \<noteq> nullptr"
  shows "slot_pages a \<lparr>va_addr = bm_addr a k, va_page_count = n\<rparr> = {k..<k + unat n}"
proof -
  have "bm_pool a \<le> bm_addr a k" using unat_bm_addr [OF assms(1,2)] by (simp add: word_le_nat_alt)
  then have "unat (bm_addr a k - bm_pool a) = k * 4096"
    using unat_bm_addr [OF assms(1,2)] by (simp add: unat_sub)
  then show ?thesis using bm_addr_not_null [OF assms] by (simp add: slot_pages_def)
qed

lemma slot_pages_free [simp]: "slot_pages a free_slot = {}" "slot_ok a free_slot"
  by (simp_all add: slot_pages_def free_slot_def slot_ok_def)

lemma slots_set_slot:
  assumes "unat i < unat (vr_allocations_size r)"
  shows "slots (set_slot r i e) = (slots r)[unat i := e]"
  by (simp add: slots_def set_slot_def take_update_swap)

lemma length_slots:
  "unat (vr_allocations_size r) \<le> length (vr_allocations r) \<Longrightarrow> length (slots r) = unat (vr_allocations_size r)"
  by (simp add: slots_def)

lemma set_slot_fields [simp]:
  "vr_allocator (set_slot r i e) = vr_allocator r" "vr_lock (set_slot r i e) = vr_lock r"
  "vr_allocations_size (set_slot r i e) = vr_allocations_size r"
  "length (vr_allocations (set_slot r i e)) = length (vr_allocations r)"
  by (simp_all add: set_slot_def)

lemma set_list_update:
  assumes "i < length xs"
  shows "set (xs[i := y]) = insert y {xs ! j |j. j < length xs \<and> j \<noteq> i}"
proof -
  have "set (xs[i := y]) = {xs[i := y] ! j |j. j < length xs}" by (simp add: set_conv_nth)
  also have "\<dots> = insert y {xs ! j |j. j < length xs \<and> j \<noteq> i}"
    using assms by (auto simp: nth_list_update)
  finally show ?thesis .
qed

section \<open>Searching the table\<close>

lemma find_slot_spec:
  assumes "\<forall>i \<in> set is. unat i < length xs"
  shows "case find_slot xs addr is of
      Inr (Inl e) \<Rightarrow> e = ENOENT \<and> (\<forall>i \<in> set is. va_addr (xs ! unat i) \<noteq> addr)
    | Inr (Inr i) \<Rightarrow> i \<in> set is \<and> va_addr (xs ! unat i) = addr
    | Inl _ \<Rightarrow> False"
  using assms by (induction "is") (auto split: sum.splits)

lemma region_find_spec:
  assumes "unat (vr_allocations_size r) \<le> length (vr_allocations r)"
  shows "(region_find r addr = Inr (Inl ENOENT) \<and> (\<forall>e \<in> set (slots r). va_addr e \<noteq> addr)) \<or>
    (\<exists>i. region_find r addr = Inr (Inr i) \<and> unat i < unat (vr_allocations_size r) \<and>
       slots r ! unat i = vr_allocations r ! unat i \<and> va_addr (slots r ! unat i) = addr)"
proof -
  let ?is = "word_range 0 (vr_allocations_size r)"
  have range: "i \<in> set ?is \<longleftrightarrow> unat i < unat (vr_allocations_size r)" for i
    by (simp add: set_word_range word_less_nat_alt)
  have nth: "slots r ! k = vr_allocations r ! k" if "k < unat (vr_allocations_size r)" for k
    using that by (simp add: slots_def)
  have "\<forall>i \<in> set ?is. unat i < length (vr_allocations r)" using range assms by fastforce
  note spec = find_slot_spec [OF this, of addr]
  show ?thesis
  proof (cases "find_slot (vr_allocations r) addr ?is")
    case (Inr res)
    show ?thesis
    proof (cases res)
      case (Inl e)
      have "va_addr x \<noteq> addr" if "x \<in> set (slots r)" for x
      proof -
        obtain k where k: "k < unat (vr_allocations_size r)" "x = slots r ! k"
          using \<open>x \<in> set (slots r)\<close> length_slots [OF assms] by (auto simp: in_set_conv_nth)
        then have "unat (of_nat k :: 64 word) = k"
          using unat_lt_u64 [of "vr_allocations_size r"] by (intro unat_of_nat_u64) simp
        then have "va_addr (vr_allocations r ! k) \<noteq> addr"
          using spec Inr Inl range [of "of_nat k"] k(1) by auto
        with k nth show ?thesis by simp
      qed
      with Inr Inl spec show ?thesis by (simp add: region_find_def)
    next
      case i: (Inr i)
      then have "unat i < unat (vr_allocations_size r)" "va_addr (vr_allocations r ! unat i) = addr"
        using Inr spec range [of i] by simp_all
      with Inr i nth show ?thesis by (simp add: region_find_def)
    qed
  qed (use spec in simp)
qed

section \<open>Updating one entry\<close>

abbreviation pages_of :: "vm_region \<Rightarrow> nat \<Rightarrow> nat set" where
  "pages_of r i \<equiv> slot_pages (vr_allocator r) (slots r ! i)"

lemma other_pages:
  assumes inv: "region_inv r m" and i: "i < length (slots r)"
  shows "(\<Union>j \<in> {j. j < length (slots r) \<and> j \<noteq> i}. pages_of r j) = bm_pages (vr_allocator r) m - pages_of r i"
proof -
  have all: "(\<Union>j \<in> {j. j < length (slots r)}. pages_of r j) = bm_pages (vr_allocator r) m"
  proof -
    have "(\<Union>j \<in> {j. j < length (slots r)}. pages_of r j) = (\<Union>e \<in> set (slots r). slot_pages (vr_allocator r) e)"
      by (auto simp: set_conv_nth)
    with inv show ?thesis by (simp add: region_inv_def)
  qed
  have "pages_of r j \<inter> pages_of r i = {}" if "j < length (slots r)" "j \<noteq> i" for j
    using inv that i by (simp add: region_inv_def)
  with all i show ?thesis by blast
qed

lemma region_inv_set_slot:
  assumes inv: "region_inv r m" and i: "unat i < length (slots r)"
    and ok: "slot_ok (vr_allocator r) e"
    and fresh: "slot_pages (vr_allocator r) e \<inter> (bm_pages (vr_allocator r) m - pages_of r (unat i)) = {}"
    and pages: "bm_pages (vr_allocator r) m' =
      slot_pages (vr_allocator r) e \<union> (bm_pages (vr_allocator r) m - pages_of r (unat i))"
  shows "region_inv (set_slot r i e) m'"
proof -
  let ?a = "vr_allocator r" and ?xs = "slots r"
  have sz: "unat (vr_allocations_size r) \<le> length (vr_allocations r)"
    using inv by (simp add: region_inv_def)
  then have i': "unat i < unat (vr_allocations_size r)" using i by (simp add: length_slots)
  note upd = slots_set_slot [OF i', of e]
  note others = other_pages [OF inv i]
  have oth: "slot_pages ?a e \<inter> pages_of r j = {}" if "j < length ?xs" "j \<noteq> unat i" for j
    using fresh others that by blast
  have "(\<Union>x \<in> set (?xs[unat i := e]). slot_pages ?a x) =
      slot_pages ?a e \<union> (\<Union>j \<in> {j. j < length ?xs \<and> j \<noteq> unat i}. pages_of r j)"
    unfolding set_list_update [OF i] by auto
  then have cover: "(\<Union>x \<in> set (?xs[unat i := e]). slot_pages ?a x) = bm_pages ?a m'"
    using pages others by simp
  have disj: "slot_pages ?a (?xs[unat i := e] ! j) \<inter> slot_pages ?a (?xs[unat i := e] ! k) = {}"
    if "j < length ?xs" "k < length ?xs" "j \<noteq> k" for j k
  proof -
    have "pages_of r j \<inter> pages_of r k = {}" using inv that by (simp add: region_inv_def)
    with oth [of j] oth [of k] that show ?thesis
      by (cases "j = unat i"; cases "k = unat i") (auto simp: nth_list_update)
  qed
  have "\<forall>x \<in> set (?xs[unat i := e]). slot_ok ?a x"
    using inv ok set_update_subset_insert [of ?xs "unat i" e] by (auto simp: region_inv_def)
  with inv cover disj sz show ?thesis by (simp add: region_inv_def upd)
qed

lemma region_live_eq:
  "region_live r = {(va_addr (slots r ! j), va_page_count (slots r ! j)) |j.
     j < length (slots r) \<and> va_addr (slots r ! j) \<noteq> nullptr}"
  by (auto simp: region_live_def set_conv_nth)

lemma region_live_set_slot:
  assumes "unat i < length (slots r)" and "unat (vr_allocations_size r) \<le> length (vr_allocations r)"
  shows "region_live (set_slot r i e) =
    (if va_addr e = nullptr then {} else {(va_addr e, va_page_count e)}) \<union>
    {(va_addr (slots r ! j), va_page_count (slots r ! j)) |j.
       j < length (slots r) \<and> j \<noteq> unat i \<and> va_addr (slots r ! j) \<noteq> nullptr}"
proof -
  have "unat i < unat (vr_allocations_size r)" using assms by (simp add: length_slots)
  note upd = slots_set_slot [OF this, of e]
  show ?thesis
    unfolding region_live_def upd set_list_update [OF assms(1)] by auto
qed

text \<open>A live entry owns at least the page it starts at, so no two entries have one address.\<close>

lemma live_slot_pages:
  assumes "region_inv r m" and "j < length (slots r)" and "va_addr (slots r ! j) \<noteq> nullptr"
  obtains k where "va_addr (slots r ! j) = bm_addr (vr_allocator r) k" and "0 < va_page_count (slots r ! j)"
    and "k + unat (va_page_count (slots r ! j)) \<le> bm_count (vr_allocator r)" and "k < bm_count (vr_allocator r)"
    and "pages_of r j = {k..<k + unat (va_page_count (slots r ! j))}"
proof -
  have inv: "bm_inv (vr_allocator r)" "bm_pool (vr_allocator r) \<noteq> nullptr"
    "slot_ok (vr_allocator r) (slots r ! j)"
    using assms(1,2) by (simp_all add: region_inv_def)
  then obtain k where k: "va_addr (slots r ! j) = bm_addr (vr_allocator r) k" "0 < va_page_count (slots r ! j)"
    "k + unat (va_page_count (slots r ! j)) \<le> bm_count (vr_allocator r)"
    using assms(3) by (auto simp: slot_ok_def)
  then have lt: "k < bm_count (vr_allocator r)" by (simp add: word_less_nat_alt)
  have "slots r ! j = \<lparr>va_addr = bm_addr (vr_allocator r) k, va_page_count = va_page_count (slots r ! j)\<rparr>"
    using k(1) by simp
  then have "pages_of r j = {k..<k + unat (va_page_count (slots r ! j))}"
    using slot_pages_addr [OF inv(1) lt inv(2)] by metis
  with k lt that show thesis by blast
qed

lemma live_addr_unique:
  assumes inv: "region_inv r m" and "i < length (slots r)" "j < length (slots r)"
    and "va_addr (slots r ! i) \<noteq> nullptr" and "va_addr (slots r ! j) = va_addr (slots r ! i)"
  shows "i = j"
proof (rule ccontr)
  assume "i \<noteq> j"
  then have disj: "pages_of r i \<inter> pages_of r j = {}" using assms by (simp add: region_inv_def)
  obtain k where k: "va_addr (slots r ! i) = bm_addr (vr_allocator r) k" "0 < va_page_count (slots r ! i)"
    "k < bm_count (vr_allocator r)" "pages_of r i = {k..<k + unat (va_page_count (slots r ! i))}"
    using live_slot_pages [OF inv assms(2,4)] by metis
  obtain k' where k': "va_addr (slots r ! j) = bm_addr (vr_allocator r) k'" "0 < va_page_count (slots r ! j)"
    "k' < bm_count (vr_allocator r)" "pages_of r j = {k'..<k' + unat (va_page_count (slots r ! j))}"
    using live_slot_pages [OF inv assms(3)] assms(4,5) by metis
  have "bm_inv (vr_allocator r)" using inv by (simp add: region_inv_def)
  then have "k = k'" using bm_addr_inj k(1,3) k'(1,3) assms(5) by metis
  then have "k \<in> pages_of r i \<inter> pages_of r j" using k k' by (simp add: word_less_nat_alt)
  with disj show False by simp
qed

section \<open>Allocation and free\<close>

text \<open>The number of entries of the table that are not in use.\<close>

definition free_slots :: "vm_region \<Rightarrow> nat" where
  "free_slots r = length (filter (\<lambda>e. va_addr e = nullptr) (slots r))"

lemma free_slots_use:
  assumes "unat i < length (slots r)" and "unat (vr_allocations_size r) \<le> length (vr_allocations r)"
    and "va_addr (slots r ! unat i) = nullptr" and "va_addr e \<noteq> nullptr"
  shows "free_slots r = Suc (free_slots (set_slot r i e))"
proof -
  let ?i = "unat i" and ?P = "\<lambda>e. va_addr e = nullptr"
  have "unat i < unat (vr_allocations_size r)" using assms(1,2) by (simp add: length_slots)
  from slots_set_slot [OF this] have "slots (set_slot r i e) = take ?i (slots r) @ e # drop (Suc ?i) (slots r)"
    using assms(1) by (simp add: upd_conv_take_nth_drop)
  moreover have "slots r = take ?i (slots r) @ slots r ! ?i # drop (Suc ?i) (slots r)" by (rule id_take_nth_drop [OF assms(1)])
  then have "length (filter ?P (slots r)) = length (filter ?P (take ?i (slots r) @ slots r ! ?i # drop (Suc ?i) (slots r)))"
    by (rule arg_cong)
  ultimately show ?thesis using assms(3,4) by (simp add: free_slots_def)
qed

lemma region_alloc_locked_spec:
  assumes inv: "region_inv r m" and n: "0 < n"
  shows "(\<exists>p. region_alloc_locked r n m = Inr (p, r, m) \<and> p = ERR_TO_PTR (- errnum ENOMEM) \<and>
      ((\<forall>e \<in> set (slots r). va_addr e \<noteq> nullptr) \<or> (\<forall>k. \<not> bm_run (vr_allocator r) m (unat n) k))) \<or>
    (\<exists>k r' m'. region_alloc_locked r n m = Inr (bm_addr (vr_allocator r) k, r', m') \<and>
      region_inv r' m' \<and> vr_allocator r' = vr_allocator r \<and> vr_lock r' = vr_lock r \<and>
      bm_run (vr_allocator r) m (unat n) k \<and> bm_frame (vr_allocator r) m m' \<and>
      bm_pages (vr_allocator r) m' = bm_pages (vr_allocator r) m \<union> {k..<k + unat n} \<and>
      free_slots r = Suc (free_slots r') \<and>
      region_live r' = insert (bm_addr (vr_allocator r) k, n) (region_live r))"
proof -
  let ?a = "vr_allocator r"
  have a: "bm_inv ?a" "bm_pool ?a \<noteq> nullptr" and sz: "unat (vr_allocations_size r) \<le> length (vr_allocations r)"
    using inv by (simp_all add: region_inv_def)
  from region_find_spec [OF sz, of nullptr] show ?thesis
  proof (elim disjE exE conjE)
    fix i assume find: "region_find r nullptr = Inr (Inr i)" and i: "unat i < unat (vr_allocations_size r)"
      "va_addr (slots r ! unat i) = nullptr"
    have il: "unat i < length (slots r)" using i(1) sz by (simp add: length_slots)
    from bitmap_alloc_spec [OF a(1) n, of m] show ?thesis
    proof (elim disjE exE conjE)
      fix k m' assume k: "bitmap_alloc ?a n m = Inr (bm_addr ?a k, m')" "bm_run ?a m (unat n) k"
        "bm_frame ?a m m'" "bm_pages ?a m' = bm_pages ?a m \<union> {k..<k + unat n}"
      have lt: "k < bm_count ?a" using k(2) n by (auto simp: bm_run_def word_less_nat_alt)
      let ?e = "\<lparr>va_addr = bm_addr ?a k, va_page_count = n\<rparr>"
      have eq: "region_alloc_locked r n m = Inr (bm_addr ?a k, set_slot r i ?e, m')"
        using find k(1) bm_addr_not_err(2) [OF a(1) lt] by (simp add: region_alloc_locked_def)
      have e: "slot_pages ?a ?e = {k..<k + unat n}" using a lt by (intro slot_pages_addr)
      have old: "pages_of r (unat i) = {}" using i(2) by (simp add: slot_pages_def)
      have ok: "slot_ok ?a ?e" using k(2) n by (auto simp: slot_ok_def bm_run_def)
      have inv': "region_inv (set_slot r i ?e) m'"
        by (rule region_inv_set_slot [OF inv il ok]) (use e old k in \<open>auto simp: bm_run_def\<close>)
      have nz: "bm_addr ?a k \<noteq> nullptr" using bm_addr_not_null [OF a(1) lt a(2)] .
      have live: "region_live (set_slot r i ?e) = insert (bm_addr ?a k, n) (region_live r)"
        unfolding region_live_set_slot [OF il sz] region_live_eq [of r] using i(2) nz by auto
      have "free_slots r = Suc (free_slots (set_slot r i ?e))" using nz by (intro free_slots_use [OF il sz i(2)]) simp
      with eq inv' live k show ?thesis
        by (intro disjI2 exI [of _ k] exI [of _ "set_slot r i ?e"] exI [of _ m']) simp
    qed (use find in \<open>simp add: region_alloc_locked_def IS_ERR_def ERR_TO_PTR_def\<close>)
  qed (simp add: region_alloc_locked_def)
qed

lemma region_free_locked_spec:
  assumes inv: "region_inv r m" and live: "(p, n) \<in> region_live r"
  shows "\<exists>k r' m'. region_free_locked r p m = Inr (n, r', m') \<and> p = bm_addr (vr_allocator r) k \<and>
      region_inv r' m' \<and> vr_allocator r' = vr_allocator r \<and> vr_lock r' = vr_lock r \<and>
      bm_frame (vr_allocator r) m m' \<and>
      bm_pages (vr_allocator r) m' = bm_pages (vr_allocator r) m - {k..<k + unat n} \<and>
      region_live r' = region_live r - {(p, n)} \<and>
      0 < unat n \<and> k + unat n \<le> bm_count (vr_allocator r) \<and> {k..<k + unat n} \<subseteq> bm_pages (vr_allocator r) m \<and>
      (\<exists>i. region_find r p = Inr (Inr i) \<and> unat i < length (vr_allocations r) \<and>
         va_page_count (vr_allocations r ! unat i) = n \<and> r' = set_slot r i free_slot)"
proof -
  let ?a = "vr_allocator r"
  have a: "bm_inv ?a" and sz: "unat (vr_allocations_size r) \<le> length (vr_allocations r)"
    using inv by (simp_all add: region_inv_def)
  from live obtain l where l: "l < length (slots r)" "va_addr (slots r ! l) = p" "va_page_count (slots r ! l) = n"
    "p \<noteq> nullptr" by (auto simp: region_live_eq)
  from region_find_spec [OF sz, of p] obtain i where find: "region_find r p = Inr (Inr i)"
    and i: "unat i < unat (vr_allocations_size r)" "slots r ! unat i = vr_allocations r ! unat i"
      "va_addr (slots r ! unat i) = p"
    using l nth_mem by blast
  have il: "unat i < length (slots r)" using i(1) sz by (simp add: length_slots)
  have "unat i = l" using live_addr_unique [OF inv l(1) il] l(2,4) i(3) by simp
  then have n: "va_page_count (slots r ! unat i) = n" using l(3) by simp
  obtain k where k: "p = bm_addr ?a k" "0 < n" "k + unat n \<le> bm_count ?a" "pages_of r (unat i) = {k..<k + unat n}"
    using live_slot_pages [OF inv il] i(3) l(4) n by metis
  have sub: "{k..<k + unat n} \<subseteq> bm_pages ?a m"
    using inv k(4) il nth_mem [OF il] unfolding region_inv_def by blast
  obtain m' where m': "bitmap_free ?a p n m = Inr m'" "bm_frame ?a m m'"
    "bm_pages ?a m' = bm_pages ?a m - {k..<k + unat n}"
    using bitmap_free_spec [OF a k(2,3), of m] sub k(1) by auto
  have eq: "region_free_locked r p m = Inr (n, set_slot r i free_slot, m')"
    using find m'(1) n i(2) by (simp add: region_free_locked_def)
  have inv': "region_inv (set_slot r i free_slot) m'"
    by (rule region_inv_set_slot [OF inv il]) (use k(4) m'(3) in auto)
  have uniq: "j = unat i" if "j < length (slots r)" "va_addr (slots r ! j) = p" for j
    using live_addr_unique [OF inv il that(1)] i(3) l(4) that(2) by simp
  have live': "region_live (set_slot r i free_slot) = region_live r - {(p, n)}"
    unfolding region_live_set_slot [OF il sz] region_live_eq [of r]
    using i(3) n by (auto simp: free_slot_def dest: uniq)
  show ?thesis
    using eq inv' live' k(1-3) m' sub find n i(1,2) sz
    by (intro exI [of _ k] exI [of _ "set_slot r i free_slot"] exI [of _ m']) (auto simp: word_less_nat_alt)
qed

lemma region_free_locked_unknown:
  assumes inv: "region_inv r m" and "p \<notin> fst ` region_live r" and "p \<noteq> nullptr"
  shows "region_free_locked r p m = Inl (Panic ''tried freeing non existent allocation'')"
proof -
  have sz: "unat (vr_allocations_size r) \<le> length (vr_allocations r)"
    using inv by (simp add: region_inv_def)
  have "\<not> (\<exists>i. unat i < unat (vr_allocations_size r) \<and> va_addr (slots r ! unat i) = p)"
    using assms(2,3) sz by (force simp: region_live_eq length_slots)
  then have "region_find r p = Inr (Inl ENOENT)" using region_find_spec [OF sz, of p] by blast
  then show ?thesis by (simp add: region_free_locked_def)
qed

text \<open>With the lock around them.\<close>

lemma region_alloc_eq:
  assumes "region_inv r m" and "core_ok (Suc d) c" and "0 < n"
  shows "region_alloc r n c m =
    bindE (region_alloc_locked r n m) (\<lambda>(p, r', m'). Inr (p, r'\<lparr>vr_lock := vr_lock r\<rparr>, irq_cycle c, m'))"
proof -
  have "lock_free (vr_lock r)" using assms(1) by (simp add: region_inv_def)
  note scoped = scoped_pure [OF assms(2) this]
  show ?thesis
    using assms(3) unfolding region_alloc_def scoped by (cases "region_alloc_locked r n m") auto
qed

lemma region_free_eq:
  assumes "region_inv r m" and "core_ok (Suc d) c"
  shows "region_free r p c m =
    bindE (region_free_locked r p m) (\<lambda>(n, r', m'). Inr (n, r'\<lparr>vr_lock := vr_lock r\<rparr>, irq_cycle c, m'))"
proof -
  have "lock_free (vr_lock r)" using assms(1) by (simp add: region_inv_def)
  note scoped = scoped_pure [OF assms(2) this]
  show ?thesis
    unfolding region_free_def scoped by (cases "region_free_locked r p m") auto
qed

lemma vr_lock_same [simp]: "vr_lock r' = l \<Longrightarrow> r'\<lparr>vr_lock := l\<rparr> = r'"
  by auto

lemma live_page_used:
  assumes inv: "region_inv r m" and live: "(bm_addr (vr_allocator r) k, n) \<in> region_live r"
    and k: "k < bm_count (vr_allocator r)"
  shows "k \<in> bm_pages (vr_allocator r) m"
proof -
  have a: "bm_inv (vr_allocator r)" using inv by (simp add: region_inv_def)
  from live obtain j where j: "j < length (slots r)" "va_addr (slots r ! j) = bm_addr (vr_allocator r) k"
    "va_addr (slots r ! j) \<noteq> nullptr" by (auto simp: region_live_eq)
  obtain k' where k': "va_addr (slots r ! j) = bm_addr (vr_allocator r) k'" "0 < va_page_count (slots r ! j)"
    "k' < bm_count (vr_allocator r)" "pages_of r j = {k'..<k' + unat (va_page_count (slots r ! j))}"
    using live_slot_pages [OF inv j(1,3)] by metis
  then have "k' = k" using bm_addr_inj [OF a k'(3) k] j(2) by metis
  then have "k \<in> pages_of r j" using k' by (simp add: word_less_nat_alt)
  then show ?thesis using inv nth_mem [OF j(1)] unfolding region_inv_def by blast
qed

lemma region_free_null:
  assumes "region_inv r m"
  shows "\<exists>e. region_free_locked r nullptr m = Inl e"
proof -
  have a: "bm_pool (vr_allocator r) \<noteq> nullptr" and sz: "unat (vr_allocations_size r) \<le> length (vr_allocations r)"
    using assms by (simp_all add: region_inv_def)
  have "bitmap_free (vr_allocator r) nullptr n m = Inl (Panic ''addr smaller than pool'')" for n
    using a by (simp add: bitmap_free_def bm_free_def bm_addr_to_page_def)
  then show ?thesis
    using region_find_spec [OF sz, of nullptr] by (auto simp: region_free_locked_def Let_def)
qed

section \<open>The contract of a region\<close>

text \<open>
  An allocator that remembers sizes: allocations are named by their address, and giving one back
  needs only the address.
\<close>

locale allocation_map =
  fixes inv :: "'s \<Rightarrow> bool"
    and live :: "'s \<Rightarrow> (ptr \<times> usize) set"
    and take :: "'s \<Rightarrow> usize \<Rightarrow> kerror + ptr \<times> 's"
    and give :: "'s \<Rightarrow> ptr \<Rightarrow> kerror + usize \<times> 's"
  assumes take_cases: "inv s \<Longrightarrow> 0 < n \<Longrightarrow> \<exists>p s'. take s n = Inr (p, s') \<and> inv s' \<and>
      (if IS_ERR p then live s' = live s
       else p \<notin> fst ` live s \<and> live s' = insert (p, n) (live s))"
    and give_live: "inv s \<Longrightarrow> (p, n) \<in> live s \<Longrightarrow>
      \<exists>s'. give s p = Inr (n, s') \<and> inv s' \<and> live s' = live s - {(p, n)}"
    and give_dead: "inv s \<Longrightarrow> p \<notin> fst ` live s \<Longrightarrow> \<exists>e. give s p = Inl e"
begin

text \<open>An address names one allocation: giving it back twice would otherwise return twice.\<close>

lemma live_functional:
  assumes "inv s" and "(p, n) \<in> live s" and "(p, n') \<in> live s"
  shows "n' = n"
proof -
  obtain t t' where "give s p = Inr (n, t)" "give s p = Inr (n', t')"
    using give_live [OF assms(1,2)] give_live [OF assms(1,3)] by blast
  then show ?thesis by simp
qed

lemma take_give:
  assumes "inv s" and "0 < n" and "take s n = Inr (p, s1)" and "\<not> IS_ERR p"
  shows "\<exists>s2. give s1 p = Inr (n, s2) \<and> inv s2 \<and> live s2 = live s"
proof -
  have s1: "inv s1" "p \<notin> fst ` live s" "live s1 = insert (p, n) (live s)"
    using take_cases [OF assms(1,2)] assms(3,4) by auto
  obtain s2 where s2: "give s1 p = Inr (n, s2)" "inv s2" "live s2 = live s1 - {(p, n)}"
    using give_live [OF s1(1), of p n] s1(3) by auto
  have "(p, n) \<notin> live s" using s1(2) by force
  with s1(3) s2 show ?thesis by auto
qed

lemma give_twice:
  assumes "inv s" and "give s p = Inr (n, s1)"
  shows "\<exists>e. give s1 p = Inl e"
proof -
  obtain k where k: "(p, k) \<in> live s" using give_dead [OF assms(1), of p] assms(2) by fastforce
  then have s1: "inv s1" "live s1 = live s - {(p, k)}" using give_live [OF assms(1) k] assms(2) by auto
  have "p \<notin> fst ` live s1" using s1(2) live_functional [OF assms(1) k] by auto
  then show ?thesis by (rule give_dead [OF s1(1)])
qed

end

definition region_state_inv :: "vm_region \<times> core \<times> mem \<Rightarrow> bool" where
  "region_state_inv s = (case s of (r, c, m) \<Rightarrow> region_inv r m \<and> core_ok (Suc 0) c)"

lemma taken_address:
  assumes inv: "region_inv r m" and n: "0 < n" and run: "bm_run (vr_allocator r) m (unat n) k"
  shows "\<not> IS_ERR (bm_addr (vr_allocator r) k)" and "bm_addr (vr_allocator r) k \<notin> fst ` region_live r"
proof -
  have "k \<in> {k..<k + unat n}" using n by (simp add: word_less_nat_alt)
  then have lt: "k < bm_count (vr_allocator r)" "k \<notin> bm_pages (vr_allocator r) m"
    using run unfolding bm_run_def by (simp, blast)
  show "\<not> IS_ERR (bm_addr (vr_allocator r) k)"
    using inv lt(1) by (intro bm_addr_not_err) (simp_all add: region_inv_def)
  show "bm_addr (vr_allocator r) k \<notin> fst ` region_live r"
    using live_page_used [OF inv _ lt(1)] lt(2) by fastforce
qed

lemma region_take_cases:
  assumes inv: "region_inv r m" and c: "core_ok (Suc d) c" and n: "0 < n"
  shows "\<exists>p r' m'. region_alloc r n c m = Inr (p, r', irq_cycle c, m') \<and> region_inv r' m' \<and>
      vr_allocator r' = vr_allocator r \<and> bm_frame (vr_allocator r) m m' \<and>
      (if IS_ERR p then r' = r \<and> m' = m
       else p \<notin> fst ` region_live r \<and> region_live r' = insert (p, n) (region_live r))"
  using region_alloc_locked_spec [OF inv n]
proof (elim disjE exE conjE)
  fix k r' m' assume k: "region_alloc_locked r n m = Inr (bm_addr (vr_allocator r) k, r', m')"
    "region_inv r' m'" "vr_allocator r' = vr_allocator r" "vr_lock r' = vr_lock r" "bm_run (vr_allocator r) m (unat n) k"
    "bm_frame (vr_allocator r) m m'" "region_live r' = insert (bm_addr (vr_allocator r) k, n) (region_live r)"
  note ne = taken_address [OF inv n k(5)]
  with k ne show ?thesis
    by (intro exI [of _ "bm_addr (vr_allocator r) k"] exI [of _ r'] exI [of _ m'])
       (simp add: region_alloc_eq [OF inv c n])
qed (use inv in \<open>auto simp: region_alloc_eq [OF inv c n] IS_ERR_def ERR_TO_PTR_def\<close>)

lemma region_give_live:
  assumes inv: "region_inv r m" and c: "core_ok (Suc d) c" and live: "(p, n) \<in> region_live r"
  shows "\<exists>r' m'. region_free r p c m = Inr (n, r', irq_cycle c, m') \<and> region_inv r' m' \<and>
      vr_allocator r' = vr_allocator r \<and> bm_frame (vr_allocator r) m m' \<and>
      region_live r' = region_live r - {(p, n)}"
proof -
  obtain r' m' where "region_free_locked r p m = Inr (n, r', m')" "region_inv r' m'"
    "vr_allocator r' = vr_allocator r" "vr_lock r' = vr_lock r" "bm_frame (vr_allocator r) m m'"
    "region_live r' = region_live r - {(p, n)}"
    using region_free_locked_spec [OF inv live] by metis
  then show ?thesis by (intro exI [of _ r'] exI [of _ m']) (simp add: region_free_eq [OF inv c])
qed

lemma region_give_dead:
  assumes inv: "region_inv r m" and c: "core_ok (Suc d) c" and "p \<notin> fst ` region_live r"
  shows "\<exists>e. region_free r p c m = Inl e"
proof -
  have "\<exists>e. region_free_locked r p m = Inl e"
    using region_free_null [OF inv] region_free_locked_unknown [OF inv assms(3)]
    by (cases "p = nullptr") auto
  then show ?thesis by (auto simp: region_free_eq [OF inv c])
qed

text \<open>The same with the pages of the bitmap, for clients that tie the region to something else.\<close>

definition region_exhausted :: "vm_region \<Rightarrow> mem \<Rightarrow> nat \<Rightarrow> bool" where
  "region_exhausted r m n \<longleftrightarrow>
     (\<forall>e \<in> set (slots r). va_addr e \<noteq> nullptr) \<or> (\<forall>k. \<not> bm_run (vr_allocator r) m n k)"

lemma not_exhausted:
  assumes "region_inv r m" and "region_live r = {}" and "0 < vr_allocations_size r" and "n \<le> bm_count (vr_allocator r)"
  shows "\<not> region_exhausted r m n"
proof -
  have sz: "unat (vr_allocations_size r) \<le> length (vr_allocations r)" using assms(1) by (simp add: region_inv_def)
  have free: "va_addr e = nullptr" if "e \<in> set (slots r)" for e
    using assms(2) that unfolding region_live_def by blast
  have "slots r \<noteq> []" using length_slots [OF sz] assms(3) by (auto simp: word_less_nat_alt)
  then obtain e where "e \<in> set (slots r)" by (metis list.set_intros(1) neq_Nil_conv)
  moreover have "bm_pages (vr_allocator r) m = {}"
  proof -
    have "(\<Union>e \<in> set (slots r). slot_pages (vr_allocator r) e) = {}" using free by (simp add: slot_pages_def)
    then show ?thesis using assms(1) unfolding region_inv_def by metis
  qed
  then have "bm_run (vr_allocator r) m n 0" using assms(4) by (simp add: bm_run_def)
  ultimately show ?thesis using free unfolding region_exhausted_def by metis
qed

lemma region_alloc_pages:
  assumes inv: "region_inv r m" and c: "core_ok (Suc d) c" and n: "0 < n"
  shows "region_alloc r n c m = Inr (ERR_TO_PTR (- errnum ENOMEM), r, irq_cycle c, m) \<and> region_exhausted r m (unat n) \<or>
    (\<exists>k r' m'. region_alloc r n c m = Inr (bm_addr (vr_allocator r) k, r', irq_cycle c, m') \<and>
      region_inv r' m' \<and> vr_allocator r' = vr_allocator r \<and>
      bm_run (vr_allocator r) m (unat n) k \<and> bm_frame (vr_allocator r) m m' \<and>
      bm_pages (vr_allocator r) m' = bm_pages (vr_allocator r) m \<union> {k..<k + unat n} \<and>
      free_slots r = Suc (free_slots r') \<and>
      region_live r' = insert (bm_addr (vr_allocator r) k, n) (region_live r))"
  using region_alloc_locked_spec [OF inv n]
proof (elim disjE exE conjE)
  fix k r' m' assume "region_alloc_locked r n m = Inr (bm_addr (vr_allocator r) k, r', m')"
    "region_inv r' m'" "vr_allocator r' = vr_allocator r" "vr_lock r' = vr_lock r" "bm_run (vr_allocator r) m (unat n) k"
    "bm_frame (vr_allocator r) m m'" "region_live r' = insert (bm_addr (vr_allocator r) k, n) (region_live r)"
    "bm_pages (vr_allocator r) m' = bm_pages (vr_allocator r) m \<union> {k..<k + unat n}" "free_slots r = Suc (free_slots r')"
  then show ?thesis
    by (intro disjI2 exI [of _ k] exI [of _ r'] exI [of _ m']) (simp add: region_alloc_eq [OF inv c n])
qed (auto simp: region_alloc_eq [OF inv c n] region_exhausted_def)

lemma region_free_pages:
  assumes inv: "region_inv r m" and c: "core_ok (Suc d) c" and live: "(p, n) \<in> region_live r"
  shows "\<exists>k r' m'. region_free r p c m = Inr (n, r', irq_cycle c, m') \<and> p = bm_addr (vr_allocator r) k \<and>
      region_inv r' m' \<and> vr_allocator r' = vr_allocator r \<and> bm_frame (vr_allocator r) m m' \<and>
      bm_pages (vr_allocator r) m' = bm_pages (vr_allocator r) m - {k..<k + unat n} \<and>
      region_live r' = region_live r - {(p, n)} \<and>
      0 < unat n \<and> k + unat n \<le> bm_count (vr_allocator r) \<and> {k..<k + unat n} \<subseteq> bm_pages (vr_allocator r) m \<and>
      (\<exists>i. region_find r p = Inr (Inr i) \<and> unat i < length (vr_allocations r) \<and>
         va_page_count (vr_allocations r ! unat i) = n \<and> r' = set_slot r i free_slot)"
proof -
  obtain k r' m' where k: "region_free_locked r p m = Inr (n, r', m')" "p = bm_addr (vr_allocator r) k" "region_inv r' m'"
    "vr_allocator r' = vr_allocator r" "vr_lock r' = vr_lock r" "bm_frame (vr_allocator r) m m'"
    "bm_pages (vr_allocator r) m' = bm_pages (vr_allocator r) m - {k..<k + unat n}"
    "region_live r' = region_live r - {(p, n)}"
    "0 < unat n" "k + unat n \<le> bm_count (vr_allocator r)" "{k..<k + unat n} \<subseteq> bm_pages (vr_allocator r) m"
    "\<exists>i. region_find r p = Inr (Inr i) \<and> unat i < length (vr_allocations r) \<and>
       va_page_count (vr_allocations r ! unat i) = n \<and> r' = set_slot r i free_slot"
    using region_free_locked_spec [OF inv live] by (elim exE conjE) (rule that; (assumption | blast))
  have "region_free r p c m = Inr (n, r', irq_cycle c, m')"
    using k(1,5) by (simp add: region_free_eq [OF inv c])
  with k show ?thesis by (intro exI [of _ k] exI [of _ r'] exI [of _ m'] conjI)
qed

interpretation vrm: allocation_map region_state_inv "\<lambda>(r, c, m). region_live r"
  "\<lambda>s n. case s of (r, c, m) \<Rightarrow> region_alloc r n c m"
  "\<lambda>s p. case s of (r, c, m) \<Rightarrow> region_free r p c m"
proof (unfold_locales, goal_cases)
  case (1 s n)
  obtain r c m where s: "s = (r, c, m)" by (cases s)
  from 1 have inv: "region_inv r m" and c: "core_ok (Suc 0) c" and n: "0 < n"
    by (simp_all add: s region_state_inv_def)
  from region_take_cases [OF inv c n] obtain p r' m' where
    p: "region_alloc r n c m = Inr (p, r', irq_cycle c, m')" "region_inv r' m'"
      "if IS_ERR p then r' = r \<and> m' = m
       else p \<notin> fst ` region_live r \<and> region_live r' = insert (p, n) (region_live r)" by blast
  then show ?case
    using c unfolding s by (intro exI [of _ p] exI [of _ "(r', irq_cycle c, m')"])
      (auto simp: region_state_inv_def split: if_splits)
next
  case (2 s p n)
  obtain r c m where s: "s = (r, c, m)" by (cases s)
  from 2 have inv: "region_inv r m" and c: "core_ok (Suc 0) c" and l: "(p, n) \<in> region_live r"
    by (simp_all add: s region_state_inv_def)
  from region_give_live [OF inv c l] obtain r' m' where
    "region_free r p c m = Inr (n, r', irq_cycle c, m')" "region_inv r' m'"
    "region_live r' = region_live r - {(p, n)}" by blast
  then show ?case
    using c unfolding s by (intro exI [of _ "(r', irq_cycle c, m')"]) (simp add: region_state_inv_def)
next
  case (3 s p)
  then show ?case by (cases s) (auto simp: region_state_inv_def dest: region_give_dead)
qed

section \<open>Initialisation and the properties of a region\<close>

definition demo_core :: core where
  "demo_core = \<lparr>this_cpu = 0x500, daif = 0, irq_disable_depth = 0, irq_was_enabled = False\<rparr>"

definition demo_region :: vm_region where
  "demo_region = STATIC_ALLOC_VM_REGION 0x8000 0x100000 0x20000"

lemma demo_core_ok: "core_ok (Suc n) demo_core \<longleftrightarrow> Suc n < 2 ^ 31"
  by (auto simp: demo_core_def core_ok_def)

lemma region_init_spec:
  fixes bitmap addr :: ptr and sz :: usize
  assumes sz: "unat sz mod 4096 = 0" "0 < unat sz" and pool: "IS_PAGE_ALIGNED addr" "addr \<noteq> nullptr"
    and fits: "unat addr + unat sz < 2 ^ 64"
  defines "r \<equiv> STATIC_ALLOC_VM_REGION bitmap addr sz"
  shows "\<exists>r' m'. region_init r name m = Inr (r', m') \<and> region_inv r' m' \<and> region_live r' = {} \<and>
    vr_allocator r' = vr_allocator r \<and> bm_pages (vr_allocator r') m' = {} \<and> bm_frame (vr_allocator r) m m'"
proof -
  let ?a = "vr_allocator r" and ?bytes = "SIZE_TO_BITMAP_BYTES (sz div PAGE_SIZE * PAGE_SIZE)"
  have a: "?a = \<lparr>bm_bitmap = bitmap, bm_page_count = sz div PAGE_SIZE, bm_pool = addr\<rparr>"
    by (simp add: r_def STATIC_ALLOC_VM_REGION_def)
  obtain k where k: "unat sz = 4096 * k" "0 < k" using sz by auto
  have pc: "unat (sz div PAGE_SIZE) = k" using k by (simp add: unat_div)
  then have "unat (sz div PAGE_SIZE * PAGE_SIZE) = k * 4096"
    using k unat_lt_u64 [of sz] by (simp add: unat_mult_u64)
  then have "unat (sz div PAGE_SIZE * PAGE_SIZE) = unat sz" using k by simp
  then have full: "sz div PAGE_SIZE * PAGE_SIZE = sz" by (simp only: word_unat_eq_iff)
  have bytes: "unat (SIZE_TO_BITMAP_BYTES sz) = (k + 7) div 8" using k by (simp add: unat_bitmap_bytes)
  let ?m = "memset m bitmap 0 (SIZE_TO_BITMAP_BYTES sz)"
  let ?r = "r\<lparr>vr_lock := spinlock_init name, vr_allocations := replicate ((k + 7) div 8) free_slot @
      drop ((k + 7) div 8) (vr_allocations r)\<rparr>"
  have le: "(k + 7) div 8 \<le> k" using k(2) by linarith
  have init: "region_init r name m = Inr (?r, ?m)"
    using le pc full bytes by (simp add: region_init_def r_def STATIC_ALLOC_VM_REGION_def Let_def)
  have slots: "slots ?r = replicate ((k + 7) div 8) free_slot"
    using bytes by (simp add: slots_def r_def STATIC_ALLOC_VM_REGION_def)
  have inv: "bm_inv ?a" using pool fits k pc by (simp add: a bm_inv_def)
  have "\<not> bm_get_page_allocated ?a ?m (of_nat j)" if j: "j < k" for j
  proof -
    have "unat (of_nat j :: 64 word) = j" using j pc unat_lt_u64 [of "sz div PAGE_SIZE"]
      by (intro unat_of_nat_u64) linarith
    moreover have "j div 8 < (k + 7) div 8" using j by linarith
    ultimately have "in_region (bitmap + of_nat j div 8) bitmap (unat (SIZE_TO_BITMAP_BYTES sz))"
      using bytes by (intro in_region_offset) (simp add: unat_div)
    then show ?thesis by (simp add: a bm_get_page_allocated_def memset_eq GET_BIT_iff)
  qed
  then have none: "bm_pages ?a ?m = {}" using pc by (auto simp: bm_pages_eq a)
  have "region_inv ?r ?m"
    unfolding region_inv_def slots using inv none pool(2) bytes le
    by (simp add: a) (simp add: r_def STATIC_ALLOC_VM_REGION_def pc)
  moreover have "region_live ?r = {}"
    unfolding region_live_def slots by (auto simp: free_slot_def)
  moreover have "bm_frame ?a m ?m" by (simp add: bm_frame_def a pc memset_eq bytes)
  ultimately show ?thesis using init none by (intro exI [of _ ?r] exI [of _ ?m]) simp
qed

text \<open>
  C12.  \<open>region_alloc\<close> refines the abstract table of live allocations.  In a region that
  satisfies its invariant it returns, with the lock free again and the interrupt state of the cpu
  restored.  Exactly when no entry of the table is free or no run of pages is long enough, it
  reports \<open>-ENOMEM\<close> and leaves region and memory as they were.  Otherwise it takes a run of the
  requested length that was free, marks exactly these pages, adds one allocation of the
  requested size at an address that was not in use, and keeps the invariant: the live allocations
  stay disjoint and cover exactly the allocated pages.
\<close>

theorem region_alloc_refines:
  assumes "region_inv r m" and "core_ok (Suc d) c" and "0 < n"
  shows "if region_exhausted r m (unat n)
    then \<exists>c'. region_alloc r n c m = Inr (ERR_TO_PTR (- errnum ENOMEM), r, c', m) \<and> irq_view c' = irq_view c
    else \<exists>k p r' c' m'. region_alloc r n c m = Inr (p, r', c', m') \<and> p = bm_addr (vr_allocator r) k \<and> \<not> IS_ERR p \<and>
      region_inv r' m' \<and> irq_view c' = irq_view c \<and> bm_frame (vr_allocator r) m m' \<and>
      bm_run (vr_allocator r) m (unat n) k \<and>
      bm_pages (vr_allocator r) m' = bm_pages (vr_allocator r) m \<union> {k..<k + unat n} \<and>
      p \<notin> fst ` region_live r \<and> region_live r' = insert (p, n) (region_live r)"
  using region_alloc_pages [OF assms]
proof (elim disjE exE conjE)
  let ?a = "vr_allocator r"
  fix k r' m' assume k: "region_alloc r n c m = Inr (bm_addr ?a k, r', irq_cycle c, m')" "region_inv r' m'"
    "bm_run ?a m (unat n) k" "bm_frame ?a m m'" "bm_pages ?a m' = bm_pages ?a m \<union> {k..<k + unat n}"
    "free_slots r = Suc (free_slots r')" "region_live r' = insert (bm_addr ?a k, n) (region_live r)"
  have "\<exists>e \<in> set (slots r). va_addr e = nullptr"
  proof (rule ccontr)
    assume "\<not> ?thesis"
    then have "filter (\<lambda>e. va_addr e = nullptr) (slots r) = []" by (simp add: filter_empty_conv)
    then show False using k(6) by (simp add: free_slots_def)
  qed
  then have "\<not> region_exhausted r m (unat n)" using k(3) unfolding region_exhausted_def by blast
  moreover have "\<not> IS_ERR (bm_addr ?a k)" "bm_addr ?a k \<notin> fst ` region_live r"
    using taken_address [OF assms(1,3) k(3)] by auto
  ultimately show ?thesis using k pop_push_cycle(2) [OF assms(2)] by auto
qed (use pop_push_cycle(2) [OF assms(2)] in auto)

theorem region_alloc_refines_witness:
  "\<exists>r m p r' c' m'. region_init demo_region ''vm'' (\<lambda>_. 0xff) = Inr (r, m) \<and>
     region_alloc r 5 demo_core m = Inr (p, r', c', m') \<and> \<not> IS_ERR p \<and> region_inv r' m' \<and>
     region_live r' = {(p, 5)} \<and> irq_view c' = irq_view demo_core"
proof -
  obtain r m where r: "region_init demo_region ''vm'' (\<lambda>_. 0xff) = Inr (r, m)" "region_inv r m" "region_live r = {}"
    "vr_allocator r = vr_allocator demo_region"
    using region_init_spec [of "0x20000" "0x100000" "0x8000" "''vm''" "\<lambda>_. 0xff"]
    by (auto simp: demo_region_def IS_PAGE_ALIGNED_iff)
  have c: "core_ok (Suc 0) demo_core" by (simp add: demo_core_ok)
  have n: "(0 :: usize) < 5" by simp
  have "0 < vr_allocations_size r"
    using r(1) by (auto simp: region_init_def Let_def demo_region_def STATIC_ALLOC_VM_REGION_def
        SIZE_TO_BITMAP_BYTES_def PAGE_SIZE_def split: if_splits)
  then have "\<not> region_exhausted r m (unat (5 :: usize))"
    by (intro not_exhausted [OF r(2,3)]) (simp_all add: r(4) demo_region_def STATIC_ALLOC_VM_REGION_def PAGE_SIZE_def)
  then show ?thesis using region_alloc_refines [OF r(2) c n] r(1,3) by auto
qed

text \<open>
  \<open>region_free\<close> by address.  Freeing a live allocation returns the page count it was made
  with and removes it and nothing else; freeing an address that is not live, the null
  pointer included, does not return.
\<close>

lemma region_free_refines:
  assumes "region_inv r m" and "core_ok (Suc d) c"
  shows "if p \<in> fst ` region_live r
    then \<exists>n r' c' m'. (p, n) \<in> region_live r \<and> region_free r p c m = Inr (n, r', c', m') \<and>
        region_inv r' m' \<and> irq_view c' = irq_view c \<and> bm_frame (vr_allocator r) m m' \<and>
        region_live r' = region_live r - {(p, n)}
    else \<exists>e. region_free r p c m = Inl e"
proof (cases "p \<in> fst ` region_live r")
  case True
  then obtain n where n: "(p, n) \<in> region_live r" by auto
  show ?thesis
    using region_give_live [OF assms n] n True pop_push_cycle(2) [OF assms(2)]
    by (simp only: if_True) metis
next
  case False
  with region_give_dead [OF assms False] show ?thesis by simp
qed

text \<open>
  Alloc and free are inverse: an allocation that succeeded can be freed by its address,
  the free returns its size, the live allocations are those before, and a second free of
  the same address does not return.
\<close>

lemma region_alloc_free_roundtrip:
  assumes "region_inv r m" and "core_ok (Suc 0) c" and "0 < n"
    and "region_alloc r n c m = Inr (p, r1, c1, m1)" and "\<not> IS_ERR p"
  shows "\<exists>r2 c2 m2. region_free r1 p c1 m1 = Inr (n, r2, c2, m2) \<and> region_inv r2 m2 \<and>
    region_live r2 = region_live r \<and> (\<exists>e. region_free r2 p c2 m2 = Inl e)"
proof -
  have s: "region_state_inv (r, c, m)" using assms(1,2) by (simp add: region_state_inv_def)
  obtain s2 where s2: "region_free r1 p c1 m1 = Inr (n, s2)" "region_state_inv s2"
    "(\<lambda>(r, c, m). region_live r) s2 = region_live r"
    using vrm.take_give [OF s assms(3), of p "(r1, c1, m1)"] assms(4,5) by auto
  have s1: "region_state_inv (r1, c1, m1)"
    using vrm.take_cases [OF s assms(3)] assms(4) by auto
  obtain r2 c2 m2 where eq: "s2 = (r2, c2, m2)" by (cases s2)
  have "\<exists>e. region_free r2 p c2 m2 = Inl e"
    using vrm.give_twice [OF s1, of p n s2] s2(1) eq by simp
  with s2 eq show ?thesis by (auto simp: region_state_inv_def)
qed

end
