(* ===== verification/Kmem.thy ===== *)
theory Kmem
  imports Spinlock CString
begin

text \<open>
  The physical page allocator of \<open>kernel/mm/kmem.c\<close>: free pages are chained through their first
  word, and the head of the chain is a global behind a lock.  What the bootloader reports (memory
  map, offset of the direct map, load address of the kernel) is a parameter, the record
  \<open>limine\<close>; addresses of pages are addresses in the direct map.

  \<open>kmem_rep\<close> relates the chain in memory to the list of free pages.  Allocation and free are
  push and pop on that list; an allocated page is zero and no byte outside the page changes.
  The loop that frees a range has no bound when the range ends in the last page of the address
  space; it is a \<open>partial_function\<close>, and is shown to end for every other range.
\<close>

section \<open>Boot information\<close>

record memmap_entry =
  me_base :: usize
  me_length :: usize
  me_type :: u64

record limine =
  limine_memmap :: "memmap_entry list option"
  limine_hhdm :: "usize option"
  limine_kernel_address :: "(usize \<times> usize) option"   \<comment> \<open>physical and virtual base\<close>

definition LIMINE_MEMMAP_USABLE :: u64 where "LIMINE_MEMMAP_USABLE = 0"
definition LIMINE_MEMMAP_BOOTLOADER_RECLAIMABLE :: u64 where "LIMINE_MEMMAP_BOOTLOADER_RECLAIMABLE = 5"
definition LIMINE_MEMMAP_EXECUTABLE_AND_MODULES :: u64 where "LIMINE_MEMMAP_EXECUTABLE_AND_MODULES = 6"
definition LIMINE_MEMMAP_FRAMEBUFFER :: u64 where "LIMINE_MEMMAP_FRAMEBUFFER = 7"

definition derefE :: "'a option \<Rightarrow> kerror + 'a" where
  "derefE r = (case r of None \<Rightarrow> Inl (Fault nullptr) | Some x \<Rightarrow> Inr x)"

lemma derefE_simps [simp]: "derefE None = Inl (Fault nullptr)" "derefE (Some x) = Inr x"
  by (simp_all add: derefE_def)

definition phys_to_virt :: "limine \<Rightarrow> usize \<Rightarrow> kerror + ptr" where
  "phys_to_virt li phy = bindE (derefE (limine_hhdm li)) (\<lambda>offset. Inr (phy + offset))"

definition virt_to_phys :: "limine \<Rightarrow> ptr \<Rightarrow> kerror + usize" where
  "virt_to_phys li v = bindE (derefE (limine_hhdm li)) (\<lambda>offset.
     bindE (assertE (v \<ge> offset) ''virtual address is smaller than hhdm offset'') (\<lambda>_.
     Inr (v - offset)))"

definition kernel_virt_to_phys :: "limine \<Rightarrow> usize \<Rightarrow> kerror + usize" where
  "kernel_virt_to_phys li va =
     bindE (derefE (limine_kernel_address li)) (\<lambda>(physical_base, virtual_base).
     Inr (physical_base + (va - virtual_base)))"

section \<open>The allocator\<close>

record kmem =
  km_spinlock :: spinlock
  km_free_list :: ptr

definition kmem_alloc :: "kmem \<Rightarrow> core \<Rightarrow> mem \<Rightarrow> kerror + ptr \<times> kmem \<times> core \<times> mem" where
  "kmem_alloc k c m =
     bindE (spinlock_scoped c (km_spinlock k) (\<lambda>c.
       let ret = km_free_list k in
       if nullptr = ret then Inr ((ERR_TO_PTR (- errnum ENOMEM), nullptr, m), c)
       else Inr ((ret, load64 m ret, memset m ret 0 PAGE_SIZE), c)))
     (\<lambda>((ret, free_list, m), c, lock). Inr (ret, k\<lparr>km_spinlock := lock, km_free_list := free_list\<rparr>, c, m))"

definition kmem_free :: "ptr \<Rightarrow> kmem \<Rightarrow> core \<Rightarrow> mem \<Rightarrow> kerror + kmem \<times> core \<times> mem" where
  "kmem_free py_addr k c m =
     (if py_addr mod PAGE_SIZE \<noteq> 0 then Inl (Panic ''physical address not aligned with PAGE_SIZE'')
      else let m = memset m py_addr 0 PAGE_SIZE in
        bindE (spinlock_scoped c (km_spinlock k) (\<lambda>c.
          Inr ((store64 m py_addr (km_free_list k), py_addr), c)))
        (\<lambda>((m, free_list), c, lock). Inr (k\<lparr>km_spinlock := lock, km_free_list := free_list\<rparr>, c, m)))"

partial_function (option) free_range_loop ::
  "limine \<Rightarrow> ptr \<Rightarrow> ptr \<Rightarrow> kmem \<times> core \<times> mem \<Rightarrow> (kerror + kmem \<times> core \<times> mem) option" where
  "free_range_loop li p e s =
     (if p + PAGE_SIZE \<le> e then
        (case bindE (phys_to_virt li p) (\<lambda>v. case s of (k, c, m) \<Rightarrow> kmem_free v k c m) of
           Inl err \<Rightarrow> Some (Inl err)
         | Inr s \<Rightarrow> free_range_loop li (p + PAGE_SIZE) e s)
      else Some (Inr s))"

definition kmem_free_range ::
  "limine \<Rightarrow> usize \<Rightarrow> usize \<Rightarrow> kmem \<times> core \<times> mem \<Rightarrow> kerror + kmem \<times> core \<times> mem" where
  "kmem_free_range li start e s = bindE (endsE (free_range_loop li start e s)) (\<lambda>r. r)"

definition kmem_init :: "limine \<Rightarrow> kmem \<Rightarrow> core \<Rightarrow> mem \<Rightarrow> kerror + kmem \<times> core \<times> mem" where
  "kmem_init li k c m =
     (case limine_memmap li of
        None \<Rightarrow> Inl (Panic ''memory was not mapped by limine'')
      | Some entries \<Rightarrow>
        if limine_hhdm li = None then Inl (Panic ''hhdm failed?'')
        else let k = k\<lparr>km_spinlock := spinlock_init ''kmem''\<rparr> in
          forE entries (\<lambda>entry s.
            if me_type entry = LIMINE_MEMMAP_USABLE
            then kmem_free_range li (me_base entry) (me_base entry + me_length entry) s
            else Inr s) (k, c, m))"

section \<open>The list of free pages\<close>

fun km_chain :: "mem \<Rightarrow> ptr \<Rightarrow> ptr list \<Rightarrow> bool" where
  "km_chain m p [] \<longleftrightarrow> p = nullptr"
| "km_chain m p (x # xs) \<longleftrightarrow> p = x \<and> x \<noteq> nullptr \<and> IS_PAGE_ALIGNED x \<and> km_chain m (load64 m x) xs"

definition kmem_rep :: "kmem \<Rightarrow> mem \<Rightarrow> ptr list \<Rightarrow> bool" where
  "kmem_rep k m xs \<longleftrightarrow> lock_free (km_spinlock k) \<and> km_chain m (km_free_list k) xs \<and> distinct xs"

lemma aligned_page_bound: "IS_PAGE_ALIGNED x \<Longrightarrow> unat x + 4096 \<le> 2 ^ 64"
proof -
  assume "IS_PAGE_ALIGNED x"
  then obtain k where k: "unat x = 4096 * k" by (auto simp: IS_PAGE_ALIGNED_iff)
  then have "k < 2 ^ 52" using unat_lt_u64 [of x] by simp
  with k show ?thesis by simp
qed

lemma aligned_pages_disjoint:
  assumes "IS_PAGE_ALIGNED x" and "IS_PAGE_ALIGNED y" and "x \<noteq> y"
  shows "disjoint_regions x 4096 y 4096"
proof (rule disjoint_regionsI)
  have "4096 dvd unat x" "4096 dvd unat y" using assms(1,2) by (auto simp: IS_PAGE_ALIGNED_iff)
  then obtain j k where jk: "unat x = 4096 * j" "unat y = 4096 * k" by (elim dvdE)
  with assms(3) have "j \<noteq> k" by (metis word_unat_eq_iff)
  then have "j + 1 \<le> k \<or> k + 1 \<le> j" by linarith
  with jk show "unat x + 4096 \<le> unat y \<or> unat y + 4096 \<le> unat x" by auto
qed (use assms aligned_page_bound in auto)

lemma in_region_le: "in_region a p n \<Longrightarrow> n \<le> k \<Longrightarrow> in_region a p k"
  by (simp add: in_region_def)

lemma not_in_other_page:
  assumes "IS_PAGE_ALIGNED x" and "IS_PAGE_ALIGNED y" and "x \<noteq> y" and "in_region a x 4096"
  shows "\<not> in_region a y 4096"
  using aligned_pages_disjoint [OF assms(1-3)] assms(4) by (auto simp: disjoint_regions_def)

lemma km_chain_aligned: "km_chain m p xs \<Longrightarrow> x \<in> set xs \<Longrightarrow> IS_PAGE_ALIGNED x \<and> x \<noteq> nullptr"
  by (induction xs arbitrary: p) auto

text \<open>A chain depends only on the contents of its pages.\<close>

lemma km_chain_frame:
  assumes "km_chain m p xs" and "\<And>a x. x \<in> set xs \<Longrightarrow> in_region a x 4096 \<Longrightarrow> m' a = m a"
  shows "km_chain m' p xs"
  using assms
proof (induction xs arbitrary: p)
  case (Cons x xs)
  have "load64 m' x = load64 m x"
  proof (rule load64_cong)
    fix a assume "in_region a x 8"
    then have "in_region a x 4096" by (rule in_region_le) simp
    then show "m' a = m a" by (rule Cons.prems(2) [rotated]) simp
  qed
  moreover have "km_chain m' (load64 m x) xs"
    by (rule Cons.IH) (use Cons.prems in \<open>auto\<close>)
  ultimately show ?case using Cons.prems(1) by simp
qed simp

lemma kmem_rep_page: "kmem_rep k m xs \<Longrightarrow> x \<in> set xs \<Longrightarrow> IS_PAGE_ALIGNED x \<and> x \<noteq> nullptr"
  by (auto simp: kmem_rep_def dest: km_chain_aligned)

lemma chain_outside_page:
  assumes "km_chain m p xs" and "IS_PAGE_ALIGNED y" and "y \<notin> set xs"
    and "\<And>a. \<not> in_region a y 4096 \<Longrightarrow> m' a = m a"
  shows "km_chain m' p xs"
proof (rule km_chain_frame [OF assms(1)])
  fix a x assume x: "x \<in> set xs" "in_region a x 4096"
  then have "IS_PAGE_ALIGNED x" "x \<noteq> y" using km_chain_aligned [OF assms(1)] assms(3) by auto
  then show "m' a = m a" using not_in_other_page [OF _ assms(2) _ x(2)] assms(4) by blast
qed

subsection \<open>Allocation and free\<close>

lemma kmem_alloc_nil:
  assumes "kmem_rep k m []" and "core_ok (Suc d) c"
  shows "kmem_alloc k c m = Inr (ERR_TO_PTR (- errnum ENOMEM), k, irq_cycle c, m)"
proof -
  have k: "lock_free (km_spinlock k)" "km_free_list k = nullptr" using assms(1) by (simp_all add: kmem_rep_def)
  have same: "k\<lparr>km_spinlock := km_spinlock k, km_free_list := nullptr\<rparr> = k" using k(2) by simp
  show ?thesis using k(2) same by (simp add: kmem_alloc_def scoped_return [OF assms(2) k(1)])
qed

lemma kmem_alloc_cons:
  assumes rep: "kmem_rep k m (x # xs)" and "core_ok (Suc d) c"
  shows "\<exists>k'. kmem_alloc k c m = Inr (x, k', irq_cycle c, memset m x 0 PAGE_SIZE) \<and>
    kmem_rep k' (memset m x 0 PAGE_SIZE) xs"
proof -
  have k: "lock_free (km_spinlock k)" "km_free_list k = x" "x \<noteq> nullptr" "IS_PAGE_ALIGNED x"
    "km_chain m (load64 m x) xs" "x \<notin> set xs" "distinct xs" using rep by (simp_all add: kmem_rep_def)
  let ?k = "k\<lparr>km_free_list := load64 m x\<rparr>" and ?m = "memset m x 0 PAGE_SIZE"
  have "kmem_alloc k c m = Inr (x, ?k, irq_cycle c, ?m)"
    using k(2,3) by (simp add: kmem_alloc_def scoped_return [OF assms(2) k(1)])
  moreover have "km_chain ?m (load64 m x) xs"
    by (rule chain_outside_page [OF k(5) k(4) k(6)]) (simp add: memset_eq)
  ultimately show ?thesis using k by (intro exI [of _ ?k]) (simp add: kmem_rep_def)
qed

lemma kmem_free_unaligned:
  "\<not> IS_PAGE_ALIGNED p \<Longrightarrow> kmem_free p k c m = Inl (Panic ''physical address not aligned with PAGE_SIZE'')"
  by (simp add: kmem_free_def IS_PAGE_ALIGNED_def IS_ALIGNED_def)

lemma kmem_free_cons:
  assumes rep: "kmem_rep k m xs" and c: "core_ok (Suc d) c"
    and p: "IS_PAGE_ALIGNED p" "p \<noteq> nullptr" "p \<notin> set xs"
  shows "\<exists>k' m'. kmem_free p k c m = Inr (k', irq_cycle c, m') \<and> kmem_rep k' m' (p # xs) \<and>
    (\<forall>a. \<not> in_region a p 4096 \<longrightarrow> m' a = m a)"
proof -
  have k: "lock_free (km_spinlock k)" "km_chain m (km_free_list k) xs" "distinct xs"
    using rep by (simp_all add: kmem_rep_def)
  let ?m = "store64 (memset m p 0 PAGE_SIZE) p (km_free_list k)" and ?k = "k\<lparr>km_free_list := p\<rparr>"
  have "kmem_free p k c m = Inr (?k, irq_cycle c, ?m)"
    using p(1)
    by (simp add: kmem_free_def scoped_return [OF c k(1)] IS_PAGE_ALIGNED_def IS_ALIGNED_def)
  moreover have out: "?m a = m a" if "\<not> in_region a p 4096" for a
  proof -
    have "\<not> in_region a p 8" using that in_region_le [of a p 8 4096] by auto
    then show ?thesis using that by (simp add: store64_out memset_eq)
  qed
  moreover have "km_chain ?m (km_free_list k) xs"
    by (rule chain_outside_page [OF k(2) p(1,3)]) (rule out)
  ultimately show ?thesis
    using k p by (intro exI [of _ ?k] exI [of _ ?m]) (simp add: kmem_rep_def)
qed

section \<open>Freeing ranges\<close>

definition range_pages :: "usize \<Rightarrow> usize \<Rightarrow> usize \<Rightarrow> ptr list" where
  "range_pages off start e = map (\<lambda>i. start + of_nat i * PAGE_SIZE + off) [0..<(unat e - unat start) div 4096]"

lemma range_pages_step:
  assumes "unat start + 4096 \<le> unat e"
  shows "range_pages off start e = (start + off) # range_pages off (start + PAGE_SIZE) e"
proof -
  have s: "unat (start + PAGE_SIZE) = unat start + 4096"
    using assms unat_lt_u64 [of e] by (simp add: unat_add_u64)
  have n: "(unat e - unat start) div 4096 = Suc ((unat e - unat (start + PAGE_SIZE)) div 4096)"
    using assms by (simp add: s le_div_geq)
  show ?thesis
    unfolding range_pages_def n
    by (simp add: upt_conv_Cons map_Suc_upt [symmetric] algebra_simps del: upt_Suc)
qed

lemma range_pages_done: "unat e < unat start + 4096 \<Longrightarrow> range_pages off start e = []"
  by (simp add: range_pages_def)

text \<open>
  The loop over a range that ends below the last page of the address space ends, with the pages
  of the range pushed one after the other.
\<close>

lemma IS_PAGE_ALIGNED_add:
  assumes "IS_PAGE_ALIGNED a" and "IS_PAGE_ALIGNED b"
  shows "IS_PAGE_ALIGNED (a + b)"
proof -
  have "unat (a + b) mod 4096 = (unat a + unat b) mod 4096"
    by (simp add: unat_word_ariths mod_mod_cancel)
  also have "\<dots> = 0" using assms by (simp add: IS_PAGE_ALIGNED_iff mod_add_eq [symmetric])
  finally show ?thesis by (simp add: IS_PAGE_ALIGNED_iff)
qed

lemma free_range_loop_spec:
  assumes hhdm: "limine_hhdm li = Some off" and top: "unat e + 4096 < 2 ^ 64"
    and al: "IS_PAGE_ALIGNED off" and s: "IS_PAGE_ALIGNED start" "start \<le> e"
    and rep: "kmem_rep k m xs" and c: "core_ok (Suc d) c"
    and dist: "distinct (range_pages off start e @ xs)" and nz: "nullptr \<notin> set (range_pages off start e)"
  shows "\<exists>k' c' m'. free_range_loop li start e (k, c, m) = Some (Inr (k', c', m')) \<and>
    kmem_rep k' m' (rev (range_pages off start e) @ xs) \<and> core_ok (Suc d) c'"
  using s rep c dist nz
proof (induction "unat e - unat start" arbitrary: start k c m xs rule: less_induct)
  case less
  have next_s: "unat (start + PAGE_SIZE) = unat start + 4096"
    using less.prems(2) top by (simp add: word_le_nat_alt unat_add_u64)
  show ?case
  proof (cases "unat start + 4096 \<le> unat e")
    case True
    have guard: "start + PAGE_SIZE \<le> e" using True next_s by (simp add: word_le_nat_alt)
    note pages = range_pages_step [OF True, of off]
    have "IS_PAGE_ALIGNED (start + off)" using less.prems(1) al by (rule IS_PAGE_ALIGNED_add)
    moreover have "start + off \<noteq> nullptr" "start + off \<notin> set xs"
      using less.prems(5,6) pages by auto
    ultimately obtain k1 m1 where f: "kmem_free (start + off) k c m = Inr (k1, irq_cycle c, m1)"
      and rep1: "kmem_rep k1 m1 ((start + off) # xs)"
      using kmem_free_cons [OF less.prems(3,4)] by metis
    have al': "IS_PAGE_ALIGNED (start + PAGE_SIZE)"
      using less.prems(1) next_s by (simp add: IS_PAGE_ALIGNED_iff)
    have c1: "core_ok (Suc d) (irq_cycle c)" using less.prems(4) by simp
    have dist1: "distinct (range_pages off (start + PAGE_SIZE) e @ (start + off) # xs)"
      and nz1: "nullptr \<notin> set (range_pages off (start + PAGE_SIZE) e)"
      using less.prems(5,6) pages by auto
    have dec: "unat e - unat (start + PAGE_SIZE) < unat e - unat start" using True next_s by simp
    obtain k' c' m' where r: "free_range_loop li (start + PAGE_SIZE) e (k1, irq_cycle c, m1) = Some (Inr (k', c', m'))"
      "kmem_rep k' m' (rev (range_pages off (start + PAGE_SIZE) e) @ (start + off) # xs)" "core_ok (Suc d) c'"
      using less.hyps [OF dec al' guard rep1 c1 dist1 nz1] by blast
    have "free_range_loop li start e (k, c, m) = Some (Inr (k', c', m'))"
      using guard f r(1) hhdm by (subst free_range_loop.simps) (simp add: phys_to_virt_def)
    with r(2,3) pages show ?thesis by simp
  next
    case False
    then have "\<not> start + PAGE_SIZE \<le> e" using next_s by (simp add: word_le_nat_alt)
    then show ?thesis
      using less.prems(3,4) range_pages_done [of e start off] False
      by (subst free_range_loop.simps) simp
  qed
qed

text \<open>The pages of a memory map, in the order in which they are freed.\<close>

definition entry_pages :: "usize \<Rightarrow> memmap_entry \<Rightarrow> ptr list" where
  "entry_pages off entry = (if me_type entry = LIMINE_MEMMAP_USABLE
     then range_pages off (me_base entry) (me_base entry + me_length entry) else [])"

definition usable_pages :: "usize \<Rightarrow> memmap_entry list \<Rightarrow> ptr list" where
  "usable_pages off entries = concat (map (entry_pages off) entries)"

definition memmap_ok :: "memmap_entry list \<Rightarrow> bool" where
  "memmap_ok entries \<longleftrightarrow> list_all (\<lambda>entry. me_type entry = LIMINE_MEMMAP_USABLE \<longrightarrow>
     IS_PAGE_ALIGNED (me_base entry) \<and> unat (me_base entry) + unat (me_length entry) + 4096 < 2 ^ 64) entries"

lemma kmem_free_entries:
  assumes hhdm: "limine_hhdm li = Some off" and al: "IS_PAGE_ALIGNED off"
    and ok: "memmap_ok entries" and rep: "kmem_rep k m xs" and c: "core_ok (Suc d) c"
    and dist: "distinct (usable_pages off entries @ xs)" and nz: "nullptr \<notin> set (usable_pages off entries)"
  shows "\<exists>k' c' m'. forE entries (\<lambda>entry s.
        if me_type entry = LIMINE_MEMMAP_USABLE
        then kmem_free_range li (me_base entry) (me_base entry + me_length entry) s
        else Inr s) (k, c, m) = Inr (k', c', m') \<and>
    kmem_rep k' m' (rev (usable_pages off entries) @ xs) \<and> core_ok (Suc d) c'"
  using ok rep c dist nz
proof (induction entries arbitrary: k c m xs)
  case Nil
  then show ?case by (simp add: usable_pages_def)
next
  case (Cons entry entries)
  let ?f = "\<lambda>entry s. if me_type entry = LIMINE_MEMMAP_USABLE
        then kmem_free_range li (me_base entry) (me_base entry + me_length entry) s else Inr s"
  have step: "\<exists>k' c' m'. ?f entry (k, c, m) = Inr (k', c', m') \<and>
      kmem_rep k' m' (rev (entry_pages off entry) @ xs) \<and> core_ok (Suc d) c'"
  proof (cases "me_type entry = LIMINE_MEMMAP_USABLE")
    case True
    let ?e = "me_base entry + me_length entry"
    have e: "unat ?e = unat (me_base entry) + unat (me_length entry)"
      and base: "IS_PAGE_ALIGNED (me_base entry)"
      using Cons.prems(1) True by (auto simp: memmap_ok_def unat_add_u64)
    then have top: "unat ?e + 4096 < 2 ^ 64" and le: "me_base entry \<le> ?e"
      using Cons.prems(1) True by (auto simp: memmap_ok_def word_le_nat_alt)
    have pages: "entry_pages off entry = range_pages off (me_base entry) ?e"
      using True by (simp add: entry_pages_def)
    have d: "distinct (range_pages off (me_base entry) ?e @ xs)"
      and z: "nullptr \<notin> set (range_pages off (me_base entry) ?e)"
      using Cons.prems(4,5) by (auto simp: usable_pages_def pages)
    show ?thesis
      using free_range_loop_spec [OF hhdm top al base le Cons.prems(2,3) d z] True
      by (auto simp: kmem_free_range_def pages)
  qed (use Cons.prems in \<open>auto simp: entry_pages_def\<close>)
  then obtain k1 c1 m1 where s1: "?f entry (k, c, m) = Inr (k1, c1, m1)"
    "kmem_rep k1 m1 (rev (entry_pages off entry) @ xs)" "core_ok (Suc d) c1" by blast
  have "memmap_ok entries" using Cons.prems(1) by (simp add: memmap_ok_def)
  moreover have "distinct (usable_pages off entries @ rev (entry_pages off entry) @ xs)"
    "nullptr \<notin> set (usable_pages off entries)"
    using Cons.prems(4,5) by (auto simp: usable_pages_def)
  ultimately show ?case
    using Cons.IH [OF _ s1(2,3)] s1(1) by (simp add: usable_pages_def)
qed

section \<open>The contract of a page source\<close>

text \<open>
  What the page tables and the virtual memory manager rely on: pages come from a list of free
  pages, arrive zeroed and aligned, and taking or giving back a page touches no byte outside it.
\<close>

locale page_source =
  fixes rep :: "'s \<Rightarrow> ptr list \<Rightarrow> bool"
    and memof :: "'s \<Rightarrow> mem"
    and take :: "'s \<Rightarrow> kerror + ptr \<times> 's"
    and put :: "ptr \<Rightarrow> 's \<Rightarrow> kerror + 's"
  assumes pages_ok: "rep s xs \<Longrightarrow> distinct xs \<and> (\<forall>x \<in> set xs. IS_PAGE_ALIGNED x \<and> x \<noteq> nullptr)"
    and take_nil: "rep s [] \<Longrightarrow> \<exists>e s'. take s = Inr (e, s') \<and> IS_ERR e \<and> rep s' [] \<and> memof s' = memof s"
    and take_cons: "rep s (x # xs) \<Longrightarrow> \<exists>s'. take s = Inr (x, s') \<and> rep s' xs \<and>
      (\<forall>a. memof s' a = (if in_region a x 4096 then 0 else memof s a))"
    and put_page: "rep s xs \<Longrightarrow> IS_PAGE_ALIGNED p \<Longrightarrow> p \<noteq> nullptr \<Longrightarrow> p \<notin> set xs \<Longrightarrow>
      \<exists>s'. put p s = Inr s' \<and> rep s' (p # xs) \<and> (\<forall>a. \<not> in_region a p 4096 \<longrightarrow> memof s' a = memof s a)"
    and put_unaligned: "\<not> IS_PAGE_ALIGNED p \<Longrightarrow> \<exists>e. put p s = Inl e"
begin

lemma take_not_err: "rep s (x # xs) \<Longrightarrow> \<not> IS_ERR x"
  using pages_ok [of s "x # xs"] not_IS_ERR_aligned by auto

text \<open>A page that was given back is the next one taken, and it is zero again.\<close>

lemma put_take:
  assumes "rep s xs" and "IS_PAGE_ALIGNED p" and "p \<noteq> nullptr" and "p \<notin> set xs"
  shows "\<exists>s1 s2. put p s = Inr s1 \<and> take s1 = Inr (p, s2) \<and> rep s2 xs \<and>
    (\<forall>a. memof s2 a = (if in_region a p 4096 then 0 else memof s a))"
proof -
  obtain s1 where s1: "put p s = Inr s1" "rep s1 (p # xs)" "\<forall>a. \<not> in_region a p 4096 \<longrightarrow> memof s1 a = memof s a"
    using put_page [OF assms] by blast
  then show ?thesis using take_cons [OF s1(2)] by fastforce
qed

text \<open>Taking pages one after the other yields the free pages in their order.\<close>

lemma take_many:
  assumes "rep s (ys @ xs)"
  shows "\<exists>s'. forE ys (\<lambda>_ (got, s). bindE (take s) (\<lambda>(p, s). Inr (got @ [p], s))) (acc, s) = Inr (acc @ ys, s') \<and>
    rep s' xs \<and> (\<forall>a. memof s' a = (if \<exists>y \<in> set ys. in_region a y 4096 then 0 else memof s a))"
  using assms
proof (induction ys arbitrary: s acc)
  case (Cons y ys)
  obtain s1 where s1: "take s = Inr (y, s1)" "rep s1 (ys @ xs)"
    "\<forall>a. memof s1 a = (if in_region a y 4096 then 0 else memof s a)"
    using take_cons [of s y "ys @ xs"] Cons.prems by auto
  obtain s' where s': "forE ys (\<lambda>_ (got, s). bindE (take s) (\<lambda>(p, s). Inr (got @ [p], s))) (acc @ [y], s1) = Inr ((acc @ [y]) @ ys, s')"
    "rep s' xs" "\<forall>a. memof s' a = (if \<exists>y \<in> set ys. in_region a y 4096 then 0 else memof s1 a)"
    using Cons.IH [OF s1(2), of "acc @ [y]"] by blast
  then show ?case using s1 by auto
qed auto

end

definition kmem_state_rep :: "kmem \<times> core \<times> mem \<Rightarrow> ptr list \<Rightarrow> bool" where
  "kmem_state_rep s xs = (case s of (k, c, m) \<Rightarrow> kmem_rep k m xs \<and> core_ok (Suc 0) c)"

interpretation kms: page_source kmem_state_rep "\<lambda>(k, c, m). m"
  "\<lambda>s. case s of (k, c, m) \<Rightarrow> kmem_alloc k c m"
  "\<lambda>p s. case s of (k, c, m) \<Rightarrow> kmem_free p k c m"
proof (unfold_locales, goal_cases)
  case (1 s xs)
  then show ?case by (auto simp: kmem_state_rep_def kmem_rep_def dest: km_chain_aligned)
next
  case (2 s)
  obtain k c m where s: "s = (k, c, m)" by (cases s)
  with 2 show ?case
    using kmem_alloc_nil [of k m 0 c] by (auto simp: kmem_state_rep_def IS_ERR_def ERR_TO_PTR_def)
next
  case (3 s x xs)
  obtain k c m where s: "s = (k, c, m)" by (cases s)
  with 3 show ?case
    using kmem_alloc_cons [of k m x xs 0 c] by (fastforce simp: kmem_state_rep_def memset_eq)
next
  case (4 s xs p)
  obtain k c m where s: "s = (k, c, m)" by (cases s)
  with 4 show ?case
    using kmem_free_cons [of k m xs 0 c p] by (fastforce simp: kmem_state_rep_def)
next
  case (5 p s)
  then show ?case by (cases s) (simp add: kmem_free_unaligned)
qed

section \<open>Properties\<close>

definition kmem_boot :: kmem where
  "kmem_boot = \<lparr>km_spinlock = \<lparr>sl_locked = False, sl_name = [], sl_cpu = nullptr\<rparr>, km_free_list = nullptr\<rparr>"

definition demo_cpu :: core where
  "demo_cpu = \<lparr>this_cpu = 0x500, daif = 0, irq_disable_depth = 0, irq_was_enabled = False\<rparr>"

lemma demo_cpu_ok: "core_ok (Suc n) demo_cpu \<longleftrightarrow> Suc n < 2 ^ 31"
  by (auto simp: demo_cpu_def core_ok_def)

text \<open>
  C23.  Allocation of a physical page.  With free pages, \<open>kmem_alloc\<close> returns the one freed last:
  page aligned, no error pointer, all of its bytes zero, no byte outside it changed, and the
  rest of the list still free; with none it returns \<open>-ENOMEM\<close> and changes nothing.  The lock is
  free and the interrupt state restored afterwards.
\<close>

theorem kmem_alloc_correct:
  assumes "kmem_rep k m xs" and "core_ok (Suc d) c"
  shows "case xs of
      [] \<Rightarrow> \<exists>c'. kmem_alloc k c m = Inr (ERR_TO_PTR (- errnum ENOMEM), k, c', m) \<and> irq_view c' = irq_view c
    | x # ys \<Rightarrow> \<exists>k' c' m'. kmem_alloc k c m = Inr (x, k', c', m') \<and> kmem_rep k' m' ys \<and>
        irq_view c' = irq_view c \<and> IS_PAGE_ALIGNED x \<and> \<not> IS_ERR x \<and>
        (\<forall>a. m' a = (if in_region a x 4096 then 0 else m a))"
proof (cases xs)
  case Nil
  then show ?thesis
    using kmem_alloc_nil [of k m, OF _ assms(2)] assms pop_push_cycle(2) [OF assms(2)] by auto
next
  case (Cons x ys)
  obtain k' where "kmem_alloc k c m = Inr (x, k', irq_cycle c, memset m x 0 PAGE_SIZE)"
    "kmem_rep k' (memset m x 0 PAGE_SIZE) ys"
    using kmem_alloc_cons [OF _ assms(2), of k m x ys] assms(1) Cons by blast
  moreover have "IS_PAGE_ALIGNED x" using kmem_rep_page [OF assms(1), of x] Cons by simp
  ultimately show ?thesis
    using Cons pop_push_cycle(2) [OF assms(2)] by (auto simp: not_IS_ERR_aligned memset_eq)
qed

definition two_free_pages :: mem where
  "two_free_pages = store64 (\<lambda>_. 7) 0x3000 0x5000"

lemma two_free_pages_rep:
  "kmem_rep (kmem_boot\<lparr>km_free_list := 0x3000\<rparr>) (store64 two_free_pages 0x5000 0) [0x3000, 0x5000]"
proof -
  have "disjoint_regions 0x5000 8 0x3000 8" by (rule disjoint_regionsI) simp_all
  then show ?thesis
    by (simp add: kmem_rep_def kmem_boot_def lock_free_def two_free_pages_def IS_PAGE_ALIGNED_iff
        load64_store64_disjoint)
qed

theorem kmem_alloc_correct_witness:
  "\<exists>k' c' m'. kmem_alloc (kmem_boot\<lparr>km_free_list := 0x3000\<rparr>) demo_cpu (store64 two_free_pages 0x5000 0) =
     Inr (0x3000, k', c', m') \<and> kmem_rep k' m' [0x5000] \<and> m' 0x3008 = 0"
proof -
  have c: "core_ok (Suc 0) demo_cpu" by (simp add: demo_cpu_ok)
  have "in_region 0x3008 0x3000 4096" by (simp add: in_region_def)
  then show ?thesis using kmem_alloc_correct [OF two_free_pages_rep c] by force
qed

text \<open>
  Freeing a physical page.  An address that is not page aligned panics.  A page that is not
  free already becomes the next one to be allocated, and allocating it again gives back
  the old list of free pages, the old memory outside the page, and zeroes inside it.
\<close>

lemma kmem_free_alloc_roundtrip:
  assumes "kmem_rep k m xs" and "core_ok (Suc 0) c" and "p \<noteq> nullptr" and "p \<notin> set xs"
  shows "if IS_PAGE_ALIGNED p
    then \<exists>k1 c1 m1 k2 c2 m2. kmem_free p k c m = Inr (k1, c1, m1) \<and> kmem_rep k1 m1 (p # xs) \<and>
      kmem_alloc k1 c1 m1 = Inr (p, k2, c2, m2) \<and> kmem_rep k2 m2 xs \<and>
      (\<forall>a. m2 a = (if in_region a p 4096 then 0 else m a))
    else kmem_free p k c m = Inl (Panic ''physical address not aligned with PAGE_SIZE'')"
proof (cases "IS_PAGE_ALIGNED p")
  case True
  have rep: "kmem_state_rep (k, c, m) xs" using assms by (simp add: kmem_state_rep_def)
  obtain s1 s2 where s: "kmem_free p k c m = Inr s1" "(case s1 of (k, c, m) \<Rightarrow> kmem_alloc k c m) = Inr (p, s2)"
    "kmem_state_rep s2 xs" "\<forall>a. (case s2 of (k, c, m) \<Rightarrow> m) a = (if in_region a p 4096 then 0 else m a)"
    using kms.put_take [OF rep True assms(3,4)] by auto
  have "kmem_state_rep s1 (p # xs)" using kms.put_page [OF rep True assms(3,4)] s(1) by auto
  with s True show ?thesis by (cases s1; cases s2) (simp add: kmem_state_rep_def)
qed (simp add: kmem_free_unaligned)

text \<open>
  Boot.  Given a memory map whose usable entries start at page boundaries, do not overlap and
  end below the last page of the address space, \<open>kmem_init\<close> returns and the free
  pages are exactly the whole pages of the usable entries, each once, at their addresses in the
  direct map.
\<close>

lemma kmem_init_frees_usable:
  assumes "limine_memmap li = Some entries" and "limine_hhdm li = Some off" and "IS_PAGE_ALIGNED off"
    and "memmap_ok entries" and "distinct (usable_pages off entries)" and "nullptr \<notin> set (usable_pages off entries)"
    and "km_free_list k = nullptr" and "core_ok (Suc d) c"
  shows "\<exists>k' c' m'. kmem_init li k c m = Inr (k', c', m') \<and> kmem_rep k' m' (rev (usable_pages off entries)) \<and>
    core_ok (Suc d) c'"
proof -
  have rep: "kmem_rep (k\<lparr>km_spinlock := spinlock_init ''kmem''\<rparr>) m []"
    using assms(7) by (simp add: kmem_rep_def)
  have d: "distinct (usable_pages off entries @ [])" using assms(5) by simp
  show ?thesis
    using kmem_free_entries [OF assms(2,3,4) rep assms(8) d assms(6)] assms(1,2)
    by (simp add: kmem_init_def Let_def)
qed

end
