(* ===== verification/Paging.thy ===== *)
theory Paging
  imports Kmem
begin

text \<open>
  The page tables of \<open>kernel/mm/paging.c\<close>: four levels of 512 descriptors of 64 bits, in pages
  taken from the physical page allocator and reached through the direct map.

  The tables in memory are related to a tree: \<open>T path = Some p\<close> says that the table reached by
  the indices \<open>path\<close> is the page \<open>p\<close>.  The invariant \<open>pt_inv\<close> says that the
  descriptors of the upper levels spell this tree, that the tables are different pages and none
  of them is free, and that an invalid leaf descriptor is zero.  \<open>pte\<close> is what the tree means:
  the leaf descriptor of each virtual page.  Walking with allocation extends the tree without
  changing \<open>pte\<close>; mapping a range is a sequence of updates of \<open>pte\<close>.
\<close>

section \<open>Descriptors\<close>

definition get_bits :: "u64 \<Rightarrow> nat \<Rightarrow> nat \<Rightarrow> u64" where
  "get_bits w lo n = take_bit n (drop_bit lo w)"

definition put_bits :: "nat \<Rightarrow> nat \<Rightarrow> u64 \<Rightarrow> u64 \<Rightarrow> u64" where
  "put_bits lo n v w = (w AND NOT (push_bit lo (mask n))) OR push_bit lo (take_bit n v)"

datatype page_perms = EL1_READ_WRITE_EL0_NONE | EL1_READ_WRITE_EL0_READ_WRITE
  | EL1_READ_ONLY_EL0_NONE | EL1_READ_ONLY_EL0_READ_ONLY

datatype attr_index = ATTR_INDEX_DEVICE | ATTR_INDEX_NORMAL

datatype page_shareability = SHAREABLE_NON_SHAREABLE | SHAREABLE_RESERVED
  | SHAREABLE_OUTER_SHAREABLE | SHAREABLE_INNER_SHAREABLE

datatype exec_perms = EXECUTABLE | NOT_EXECUTABLE

fun perms_bits :: "page_perms \<Rightarrow> u64" where
  "perms_bits EL1_READ_WRITE_EL0_NONE = 0"
| "perms_bits EL1_READ_WRITE_EL0_READ_WRITE = 1"
| "perms_bits EL1_READ_ONLY_EL0_NONE = 2"
| "perms_bits EL1_READ_ONLY_EL0_READ_ONLY = 3"

fun attr_bits :: "attr_index \<Rightarrow> u64" where
  "attr_bits ATTR_INDEX_DEVICE = 0"
| "attr_bits ATTR_INDEX_NORMAL = 1"

fun share_bits :: "page_shareability \<Rightarrow> u64" where
  "share_bits SHAREABLE_NON_SHAREABLE = 0"
| "share_bits SHAREABLE_RESERVED = 1"
| "share_bits SHAREABLE_OUTER_SHAREABLE = 2"
| "share_bits SHAREABLE_INNER_SHAREABLE = 3"

fun exec_bits :: "exec_perms \<Rightarrow> u64" where
  "exec_bits EXECUTABLE = 0"
| "exec_bits NOT_EXECUTABLE = 1"

text \<open>The attributes of a mapping: the last five parameters of \<open>paging_map\<close>.\<close>

record page_attrs =
  pa_perms :: page_perms
  pa_attr_index :: attr_index
  pa_shareability :: page_shareability
  pa_privilege_execution :: exec_perms
  pa_underprivilege_execution :: exec_perms

definition PA_TO_PAGE_DESC :: "u64 \<Rightarrow> u64" where
  "PA_TO_PAGE_DESC pa = drop_bit 12 pa"

definition PAGE_DESC_TO_PA :: "u64 \<Rightarrow> u64" where
  "PAGE_DESC_TO_PA d = push_bit 12 d"

text \<open>The bit fields of the two descriptor unions that the code uses.\<close>

definition desc_is_valid :: "u64 \<Rightarrow> bool" where
  "desc_is_valid raw \<longleftrightarrow> get_bits raw 0 1 \<noteq> 0"

definition desc_address :: "u64 \<Rightarrow> u64" where
  "desc_address raw = get_bits raw 12 36"

definition table_descriptor :: "u64 \<Rightarrow> u64" where
  "table_descriptor next_level_address =
     (let raw = 0; raw = put_bits 0 1 1 raw; raw = put_bits 1 1 1 raw
      in put_bits 12 36 next_level_address raw)"

definition page_descriptor :: "page_attrs \<Rightarrow> u64 \<Rightarrow> u64 \<Rightarrow> u64" where
  "page_descriptor attrs pa raw =
     (let raw = put_bits 1 1 1 raw;
          raw = put_bits 0 1 1 raw;
          raw = put_bits 2 3 (attr_bits (pa_attr_index attrs)) raw;
          raw = put_bits 6 2 (perms_bits (pa_perms attrs)) raw;
          raw = put_bits 8 2 (share_bits (pa_shareability attrs)) raw;
          raw = put_bits 10 1 1 raw;
          raw = put_bits 12 36 (PA_TO_PAGE_DESC pa) raw;
          raw = put_bits 53 1 (exec_bits (pa_privilege_execution attrs)) raw
      in put_bits 54 1 (exec_bits (pa_underprivilege_execution attrs)) raw)"

definition PT_INDEX_MASK :: u64 where
  "PT_INDEX_MASK = 0x1FF"

definition L0_INDEX :: "u64 \<Rightarrow> u64" where "L0_INDEX va = drop_bit 39 va AND PT_INDEX_MASK"
definition L1_INDEX :: "u64 \<Rightarrow> u64" where "L1_INDEX va = drop_bit 30 va AND PT_INDEX_MASK"
definition L2_INDEX :: "u64 \<Rightarrow> u64" where "L2_INDEX va = drop_bit 21 va AND PT_INDEX_MASK"
definition L3_INDEX :: "u64 \<Rightarrow> u64" where "L3_INDEX va = drop_bit 12 va AND PT_INDEX_MASK"

section \<open>Walking, mapping, unmapping, looking up\<close>

record mm =
  mm_kmem :: kmem
  mm_core :: core
  mm_mem :: mem

definition mm_alloc :: "mm \<Rightarrow> kerror + ptr \<times> mm" where
  "mm_alloc s = bindE (kmem_alloc (mm_kmem s) (mm_core s) (mm_mem s)) (\<lambda>(p, k, c, m).
     Inr (p, \<lparr>mm_kmem = k, mm_core = c, mm_mem = m\<rparr>))"

definition mm_free :: "ptr \<Rightarrow> mm \<Rightarrow> kerror + mm" where
  "mm_free p s = bindE (kmem_free p (mm_kmem s) (mm_core s) (mm_mem s)) (\<lambda>(k, c, m).
     Inr \<lparr>mm_kmem = k, mm_core = c, mm_mem = m\<rparr>)"

definition mm_store :: "ptr \<Rightarrow> u64 \<Rightarrow> mm \<Rightarrow> mm" where
  "mm_store p v s = s\<lparr>mm_mem := store64 (mm_mem s) p v\<rparr>"

definition table_next_table :: "limine \<Rightarrow> ptr \<Rightarrow> bool \<Rightarrow> mm \<Rightarrow> kerror + ptr \<times> mm" where
  "table_next_table li td allocate s =
     (let raw = load64 (mm_mem s) td in
      if desc_is_valid raw then
        bindE (phys_to_virt li (PAGE_DESC_TO_PA (desc_address raw))) (\<lambda>v. Inr (v, s))
      else if \<not> allocate then Inr (ERR_TO_PTR (- errnum ENOMEM), s)
      else bindE (mm_alloc s) (\<lambda>(page, s).
           bindE (virt_to_phys li page) (\<lambda>pa.
           Inr (page, mm_store td (table_descriptor (PA_TO_PAGE_DESC pa)) s))))"

definition walk_pagetable :: "limine \<Rightarrow> ptr \<Rightarrow> u64 \<Rightarrow> bool \<Rightarrow> mm \<Rightarrow> kerror + ptr \<times> mm" where
  "walk_pagetable li table va allocate s =
     bindE (table_next_table li (table + L0_INDEX va * 8) allocate s) (\<lambda>(l1, s).
     if IS_ERR l1 then Inl (Panic ''failed to get next table for l1'') else
     bindE (table_next_table li (l1 + L1_INDEX va * 8) allocate s) (\<lambda>(l2, s).
     if IS_ERR l2 then Inl (Panic ''failed to get next table for l2'') else
     bindE (table_next_table li (l2 + L2_INDEX va * 8) allocate s) (\<lambda>(l3, s).
     if IS_ERR l3 then Inl (Panic ''failed to get next table for l3'') else
     Inr (l3 + L3_INDEX va * 8, s))))"

definition map_page :: "limine \<Rightarrow> ptr \<Rightarrow> page_attrs \<Rightarrow> usize \<Rightarrow> usize \<Rightarrow> mm \<Rightarrow> kerror + mm" where
  "map_page li table attrs va pa s =
     bindE (walk_pagetable li table va True s) (\<lambda>(pde, s).
     let raw = load64 (mm_mem s) pde in
     if desc_is_valid raw then Inl (Panic ''remaping an already existing page'')
     else Inr (mm_store pde (page_descriptor attrs pa raw) s))"

partial_function (option) map_loop ::
  "limine \<Rightarrow> ptr \<Rightarrow> page_attrs \<Rightarrow> usize \<Rightarrow> usize \<Rightarrow> usize \<Rightarrow> mm \<Rightarrow> (kerror + mm) option" where
  "map_loop li table attrs va pa e s =
     (if va < e then
        (case map_page li table attrs va pa s of
           Inl err \<Rightarrow> Some (Inl err)
         | Inr s \<Rightarrow> map_loop li table attrs (va + PAGE_SIZE) (pa + PAGE_SIZE) e s)
      else Some (Inr s))"

definition paging_map ::
  "limine \<Rightarrow> ptr \<Rightarrow> usize \<Rightarrow> usize \<Rightarrow> usize \<Rightarrow> page_attrs \<Rightarrow> mm \<Rightarrow> kerror + 64 word \<times> mm" where
  "paging_map li table va pa sz attrs s =
     (if \<not> IS_PAGE_ALIGNED va then Inl (Panic ''va is not page aligned'')
      else if \<not> IS_PAGE_ALIGNED sz then Inl (Panic ''size is not page aligned'')
      else bindE (endsE (map_loop li table attrs va pa (va + sz) s)) (\<lambda>r.
           bindE r (\<lambda>s. Inr (errnum EOK, s))))"

definition unmap_page :: "limine \<Rightarrow> ptr \<Rightarrow> usize \<Rightarrow> mm \<Rightarrow> kerror + mm" where
  "unmap_page li page va s =
     bindE (walk_pagetable li page va False s) (\<lambda>(pde, s).
     if \<not> desc_is_valid (load64 (mm_mem s) pde)
     then Inl (Panic ''trying to unmap which is not a mapped page'')
     else Inr (mm_store pde 0 s))"

partial_function (option) unmap_loop ::
  "limine \<Rightarrow> ptr \<Rightarrow> usize \<Rightarrow> usize \<Rightarrow> mm \<Rightarrow> (kerror + mm) option" where
  "unmap_loop li page va e s =
     (if va < e then
        (case unmap_page li page va s of
           Inl err \<Rightarrow> Some (Inl err)
         | Inr s \<Rightarrow> unmap_loop li page (va + PAGE_SIZE) e s)
      else Some (Inr s))"

definition paging_unmap :: "limine \<Rightarrow> ptr \<Rightarrow> usize \<Rightarrow> usize \<Rightarrow> mm \<Rightarrow> kerror + mm" where
  "paging_unmap li page va sz s =
     (if \<not> IS_PAGE_ALIGNED va then Inl (Panic ''va is not page aligned'')
      else if \<not> IS_PAGE_ALIGNED sz then Inl (Panic ''size is not page aligned'')
      else bindE (endsE (unmap_loop li page va (va + sz) s)) (\<lambda>r. r))"

definition paging_lookup :: "limine \<Rightarrow> ptr \<Rightarrow> u64 \<Rightarrow> mm \<Rightarrow> kerror + usize \<times> mm" where
  "paging_lookup li table va s =
     bindE (walk_pagetable li table va False s) (\<lambda>(pde, s).
     if IS_ERR pde then Inr (0, s)
     else Inr (PAGE_DESC_TO_PA (desc_address (load64 (mm_mem s) pde)) OR (va AND (PAGE_SIZE - 1)), s))"

definition map_device :: "limine \<Rightarrow> ptr \<Rightarrow> usize \<Rightarrow> usize \<Rightarrow> usize \<Rightarrow> mm \<Rightarrow> kerror + 64 word \<times> mm" where
  "map_device li page va pa sz = paging_map li page va pa sz
     \<lparr>pa_perms = EL1_READ_WRITE_EL0_NONE, pa_attr_index = ATTR_INDEX_DEVICE,
      pa_shareability = SHAREABLE_NON_SHAREABLE, pa_privilege_execution = NOT_EXECUTABLE,
      pa_underprivilege_execution = NOT_EXECUTABLE\<rparr>"

definition map_text :: "limine \<Rightarrow> ptr \<Rightarrow> usize \<Rightarrow> usize \<Rightarrow> usize \<Rightarrow> mm \<Rightarrow> kerror + 64 word \<times> mm" where
  "map_text li page va pa sz = paging_map li page va pa sz
     \<lparr>pa_perms = EL1_READ_ONLY_EL0_NONE, pa_attr_index = ATTR_INDEX_NORMAL,
      pa_shareability = SHAREABLE_INNER_SHAREABLE, pa_privilege_execution = EXECUTABLE,
      pa_underprivilege_execution = NOT_EXECUTABLE\<rparr>"

definition map_data :: "limine \<Rightarrow> ptr \<Rightarrow> usize \<Rightarrow> usize \<Rightarrow> usize \<Rightarrow> mm \<Rightarrow> kerror + 64 word \<times> mm" where
  "map_data li page va pa sz = paging_map li page va pa sz
     \<lparr>pa_perms = EL1_READ_WRITE_EL0_NONE, pa_attr_index = ATTR_INDEX_NORMAL,
      pa_shareability = SHAREABLE_INNER_SHAREABLE, pa_privilege_execution = NOT_EXECUTABLE,
      pa_underprivilege_execution = NOT_EXECUTABLE\<rparr>"

text \<open>Addresses of the linked kernel image.\<close>

record kernel_image =
  KERNEL_START :: usize
  KERNEL_TEXT_END :: usize
  KERNEL_DATA_START :: usize
  KERNEL_DATA_END :: usize

definition paging_kernel_init :: "limine \<Rightarrow> kernel_image \<Rightarrow> ptr \<Rightarrow> mm \<Rightarrow> kerror + mm" where
  "paging_kernel_init li img kernel_page_table s =
     bindE (kernel_virt_to_phys li (KERNEL_START img)) (\<lambda>text_pa.
     bindE (map_text li kernel_page_table (KERNEL_START img) text_pa
              (KERNEL_TEXT_END img - KERNEL_START img) s) (\<lambda>(_, s).
     bindE (kernel_virt_to_phys li (KERNEL_DATA_START img)) (\<lambda>data_pa.
     bindE (map_data li kernel_page_table (KERNEL_DATA_START img) data_pa
              (KERNEL_DATA_END img - KERNEL_DATA_START img) s) (\<lambda>(_, s).
     bindE (derefE (limine_memmap li)) (\<lambda>entries.
     forE entries (\<lambda>entry s.
       if me_type entry = LIMINE_MEMMAP_FRAMEBUFFER then
         bindE (phys_to_virt li (me_base entry)) (\<lambda>va.
         bindE (map_device li kernel_page_table va (me_base entry) (me_length entry) s) (\<lambda>(_, s). Inr s))
       else if me_type entry \<in> {LIMINE_MEMMAP_BOOTLOADER_RECLAIMABLE,
           LIMINE_MEMMAP_EXECUTABLE_AND_MODULES, LIMINE_MEMMAP_USABLE} then
         bindE (phys_to_virt li (me_base entry)) (\<lambda>va.
         bindE (map_data li kernel_page_table va (me_base entry) (me_length entry) s) (\<lambda>(_, s). Inr s))
       else Inr s) s)))))"

text \<open>The register \<open>TTBR1_EL1\<close> after the switch; the barriers and the TLB flush have no other effect here.\<close>

definition paging_switch_kernel_table :: "limine \<Rightarrow> ptr \<Rightarrow> kerror + u64" where
  "paging_switch_kernel_table li kernel_page_table = virt_to_phys li kernel_page_table"

section \<open>Bit fields\<close>

lemma bit_put_bits:
  "bit (put_bits lo n v w) i \<longleftrightarrow> (if lo \<le> i \<and> i < lo + n then i < 64 \<and> bit v (i - lo) else bit w i)"
proof (cases "i < 64")
  case True
  then show ?thesis by (auto simp: put_bits_def bit_simps)
next
  case False
  then show ?thesis using bit_imp_le_length [of w i] bit_imp_le_length [of "put_bits lo n v w" i] by auto
qed

lemma get_bits_put_bits_same:
  "lo + n \<le> 64 \<Longrightarrow> get_bits (put_bits lo n v w) lo n = take_bit n v"
  by (rule bit_word_eqI) (auto simp: get_bits_def bit_simps bit_put_bits)

lemma get_bits_put_bits_other:
  "lo + n \<le> lo' \<or> lo' + n' \<le> lo \<Longrightarrow> get_bits (put_bits lo n v w) lo' n' = get_bits w lo' n'"
  by (rule bit_word_eqI) (auto simp: get_bits_def bit_simps bit_put_bits)

lemma desc_is_valid_bit: "desc_is_valid raw \<longleftrightarrow> bit raw 0"
proof -
  have "get_bits raw 0 1 = of_bool (bit raw 0)"
    by (simp add: get_bits_def bit_0 take_bit_Suc mod_2_eq_odd)
  then show ?thesis by (simp add: desc_is_valid_def)
qed

lemma table_descriptor_fields:
  "desc_is_valid (table_descriptor a)" "desc_address (table_descriptor a) = take_bit 36 a"
  by (simp_all add: table_descriptor_def Let_def desc_is_valid_bit bit_put_bits desc_address_def
      get_bits_put_bits_same)

lemma page_descriptor_fields:
  "desc_is_valid (page_descriptor attrs pa raw)"
  "desc_address (page_descriptor attrs pa raw) = take_bit 36 (drop_bit 12 pa)"
  by (simp_all add: page_descriptor_def Let_def desc_is_valid_bit bit_put_bits desc_address_def
      get_bits_put_bits_same get_bits_put_bits_other PA_TO_PAGE_DESC_def)

lemma desc_is_valid_0 [simp]: "\<not> desc_is_valid 0"
  by (simp add: desc_is_valid_bit)

section \<open>Tables as trees\<close>

type_synonym tree = "u64 list \<Rightarrow> ptr option"

abbreviation entry :: "ptr \<Rightarrow> u64 \<Rightarrow> ptr" where
  "entry p i \<equiv> p + i * 8"

definition hhdm :: "limine \<Rightarrow> usize" where
  "hhdm li = (case limine_hhdm li of None \<Rightarrow> 0 | Some off \<Rightarrow> off)"

text \<open>
  Pages whose physical address fits into a descriptor, and which are not the last page of the
  address space, where pointers to entries would look like error pointers.
\<close>

definition page_ok :: "limine \<Rightarrow> ptr \<Rightarrow> bool" where
  "page_ok li p \<longleftrightarrow> IS_PAGE_ALIGNED p \<and> hhdm li \<le> p \<and> unat (p - hhdm li) < 2 ^ 48 \<and> unat p + 4096 < 2 ^ 64"

definition tree_ok :: "limine \<Rightarrow> ptr \<Rightarrow> tree \<Rightarrow> ptr list \<Rightarrow> bool" where
  "tree_ok li root T xs \<longleftrightarrow> limine_hhdm li \<noteq> None \<and> IS_PAGE_ALIGNED (hhdm li) \<and> T [] = Some root \<and>
     (\<forall>P p. T P = Some p \<longrightarrow> page_ok li p \<and> p \<notin> set xs \<and> length P \<le> 3) \<and>
     (\<forall>P i. T (P @ [i]) \<noteq> None \<longrightarrow> T P \<noteq> None \<and> i < 512) \<and>
     (\<forall>P Q p. T P = Some p \<longrightarrow> T Q = Some p \<longrightarrow> P = Q) \<and>
     (\<forall>x \<in> set xs. page_ok li x)"

definition table_entry_ok :: "limine \<Rightarrow> u64 \<Rightarrow> ptr option \<Rightarrow> bool" where
  "table_entry_ok li w q = (case q of
     None \<Rightarrow> \<not> desc_is_valid w
   | Some q \<Rightarrow> w = table_descriptor (PA_TO_PAGE_DESC (q - hhdm li)))"

definition tables_ok :: "limine \<Rightarrow> mem \<Rightarrow> tree \<Rightarrow> bool" where
  "tables_ok li m T \<longleftrightarrow>
     (\<forall>P p i. T P = Some p \<longrightarrow> i < 512 \<longrightarrow>
        (if length P < 3 then table_entry_ok li (load64 m (entry p i)) (T (P @ [i]))
         else desc_is_valid (load64 m (entry p i)) \<or> load64 m (entry p i) = 0))"

definition pt_inv :: "limine \<Rightarrow> ptr \<Rightarrow> mm \<Rightarrow> tree \<Rightarrow> ptr list \<Rightarrow> bool" where
  "pt_inv li root s T xs \<longleftrightarrow> tree_ok li root T xs \<and> tables_ok li (mm_mem s) T \<and>
     kmem_rep (mm_kmem s) (mm_mem s) xs \<and> core_ok (Suc 0) (mm_core s)"

text \<open>The leaf descriptor that a tree holds for a path of four indices; zero where there is no table.\<close>

definition leaf :: "tree \<Rightarrow> mem \<Rightarrow> u64 list \<Rightarrow> u64 \<Rightarrow> u64" where
  "leaf T m P i = (case T P of None \<Rightarrow> 0 | Some p \<Rightarrow> load64 m (entry p i))"

definition same_leaves :: "tree \<Rightarrow> mem \<Rightarrow> tree \<Rightarrow> mem \<Rightarrow> bool" where
  "same_leaves T m T' m' \<longleftrightarrow> (\<forall>P i. length P = 3 \<longrightarrow> i < 512 \<longrightarrow> leaf T' m' P i = leaf T m P i)"

text \<open>
  What every operation on the tables keeps: the pages that are tables or free stay the same set,
  memory outside them does not change, and the interrupt state is given back.
\<close>

definition pt_step :: "tree \<Rightarrow> ptr list \<Rightarrow> mm \<Rightarrow> tree \<Rightarrow> ptr list \<Rightarrow> mm \<Rightarrow> bool" where
  "pt_step T xs s T' ys s' \<longleftrightarrow> ran T' \<union> set ys = ran T \<union> set xs \<and> set ys \<subseteq> set xs \<and>
     irq_view (mm_core s') = irq_view (mm_core s) \<and>
     (\<forall>a. (\<forall>p \<in> ran T \<union> set xs. \<not> in_region a p 4096) \<longrightarrow> mm_mem s' a = mm_mem s a)"

lemma pt_step_refl [simp]: "pt_step T xs s T xs s"
  by (simp add: pt_step_def)

lemma pt_step_trans: "pt_step T xs s T1 ys s1 \<Longrightarrow> pt_step T1 ys s1 T2 zs s2 \<Longrightarrow> pt_step T xs s T2 zs s2"
  unfolding pt_step_def by (metis (no_types, lifting) subset_trans)

subsection \<open>Entries of pages\<close>

lemma unat_index: "i < 512 \<Longrightarrow> unat (i * 8 :: 64 word) = unat i * 8"
proof -
  assume "i < 512"
  then have "unat i < 512" by (simp add: word_less_nat_alt)
  then show ?thesis by (subst unat_mult_u64) simp_all
qed

lemma unat_entry:
  assumes "IS_PAGE_ALIGNED p" and "i < 512"
  shows "unat (entry p i) = unat p + unat i * 8" and "unat p + unat i * 8 + 8 \<le> unat p + 4096"
    and "unat p + 4096 \<le> 2 ^ 64"
proof -
  have i: "unat i < 512" using assms(2) by (simp add: word_less_nat_alt)
  show room: "unat p + 4096 \<le> 2 ^ 64" using assms(1) by (rule aligned_page_bound)
  show "unat p + unat i * 8 + 8 \<le> unat p + 4096" using i by simp
  show "unat (entry p i) = unat p + unat i * 8"
    using i room unat_index [OF assms(2)] by (subst unat_add_u64) simp_all
qed

lemma entry_in_page:
  assumes "IS_PAGE_ALIGNED p" and "i < 512" and "in_region a (entry p i) 8"
  shows "in_region a p 4096"
proof -
  note u = unat_entry [OF assms(1,2)]
  have "unat (entry p i) + 8 \<le> 2 ^ 64" using u by linarith
  then have "unat (entry p i) \<le> unat a" "unat a < unat (entry p i) + 8"
    using assms(3) in_region_iff by auto
  then show ?thesis using u in_region_iff [OF u(3), of a] by linarith
qed

lemma entries_disjoint:
  assumes "IS_PAGE_ALIGNED p" and "i < 512" and "IS_PAGE_ALIGNED q" and "j < 512"
    and "p \<noteq> q \<or> i \<noteq> j"
  shows "disjoint_regions (entry p i) 8 (entry q j) 8"
proof (cases "p = q")
  case False
  then have "disjoint_regions p 4096 q 4096" using assms(1,3) by (intro aligned_pages_disjoint)
  then show ?thesis
    using entry_in_page [OF assms(1,2)] entry_in_page [OF assms(3,4)] unfolding disjoint_regions_def by blast
next
  case True
  note u = unat_entry [OF assms(1,2)] and v = unat_entry [OF assms(3,4)]
  have "unat i \<noteq> unat j" using True assms(5) by (simp add: word_unat_eq_iff)
  then have "unat i + 1 \<le> unat j \<or> unat j + 1 \<le> unat i" by linarith
  then show ?thesis using u v True by (intro disjoint_regionsI) auto
qed

lemma load_entry_store:
  assumes "IS_PAGE_ALIGNED p" and "i < 512" and "IS_PAGE_ALIGNED q" and "j < 512"
  shows "load64 (store64 m (entry p i) v) (entry q j) = (if p = q \<and> i = j then v else load64 m (entry q j))"
  using entries_disjoint [OF assms] by (auto intro: load64_store64_disjoint)

lemma load_entry_frame:
  assumes "IS_PAGE_ALIGNED p" and "i < 512" and "IS_PAGE_ALIGNED x" and "x \<noteq> p"
    and "\<And>a. \<not> in_region a x 4096 \<Longrightarrow> m' a = m a"
  shows "load64 m' (entry p i) = load64 m (entry p i)"
proof (rule load64_cong)
  fix a assume "in_region a (entry p i) 8"
  then have "in_region a p 4096" using assms(1,2) by (intro entry_in_page)
  then have "\<not> in_region a x 4096" using not_in_other_page [OF assms(1,3)] assms(4) by auto
  then show "m' a = m a" by (rule assms(5))
qed

lemma load_entry_zero:
  assumes "IS_PAGE_ALIGNED p" and "i < 512" and "\<And>a. in_region a p 4096 \<Longrightarrow> m a = 0"
  shows "load64 m (entry p i) = 0"
proof -
  have "load64 m (entry p i) = load64 (\<lambda>_. 0) (entry p i)"
    by (rule load64_cong) (use assms entry_in_page in auto)
  then show ?thesis by (simp add: load64_def)
qed

lemma pt_inv_page:
  assumes "pt_inv li root s T xs" and "T P = Some p"
  shows "page_ok li p" and "IS_PAGE_ALIGNED p" and "p \<notin> set xs" and "length P \<le> 3" and "\<not> IS_ERR p"
  using assms by (auto simp: pt_inv_def tree_ok_def page_ok_def not_IS_ERR_aligned)

text \<open>The descriptor of a table leads back to it.\<close>

lemma table_descriptor_back:
  assumes "page_ok li q" and "IS_PAGE_ALIGNED (hhdm li)"
  shows "PAGE_DESC_TO_PA (desc_address (table_descriptor (PA_TO_PAGE_DESC (q - hhdm li)))) + hhdm li = q"
proof -
  let ?pa = "q - hhdm li"
  have u: "unat ?pa = unat q - unat (hhdm li)" using assms(1) by (simp add: page_ok_def unat_sub)
  have le: "unat (hhdm li) \<le> unat q" using assms(1) by (simp add: page_ok_def word_le_nat_alt)
  have "4096 dvd unat q - unat (hhdm li)"
    using assms by (intro dvd_diff_nat) (auto simp: page_ok_def IS_PAGE_ALIGNED_iff)
  then have al: "unat ?pa mod 4096 = 0" using u by simp
  have "unat (drop_bit 12 ?pa) = unat ?pa div 4096" by (simp add: drop_bit_eq_div unat_div)
  moreover have "unat ?pa < 2 ^ 36 * 4096" using assms(1) by (simp add: page_ok_def)
  ultimately have "unat (drop_bit 12 ?pa) < 2 ^ 36" by (simp only: less_mult_imp_div_less)
  then have "unat (take_bit 36 (drop_bit 12 ?pa)) = unat (drop_bit 12 ?pa)"
    by (simp only: unat_take_bit mod_less)
  then have "take_bit 36 (drop_bit 12 ?pa) = drop_bit 12 ?pa" by (simp only: word_unat_eq_iff)
  moreover have "push_bit 12 (drop_bit 12 ?pa) = ?pa"
  proof -
    have "unat (take_bit 12 ?pa) = 0" using al unat_take_bit [of 12 ?pa] by simp
    then have "take_bit 12 ?pa = 0" by (simp add: unat_eq_zero)
    then show ?thesis using bits_ident [of 12 ?pa] by simp
  qed
  ultimately show ?thesis
    by (simp add: PAGE_DESC_TO_PA_def PA_TO_PAGE_DESC_def table_descriptor_fields)
qed

section \<open>One level\<close>

lemma next_table_existing:
  assumes inv: "pt_inv li root s T xs" and P: "T P = Some p" "length P < 3" and i: "i < 512"
    and q: "T (P @ [i]) = Some q"
  shows "table_next_table li (entry p i) allocate s = Inr (q, s)"
proof -
  have w: "load64 (mm_mem s) (entry p i) = table_descriptor (PA_TO_PAGE_DESC (q - hhdm li))"
    using inv P i q by (auto simp: pt_inv_def tables_ok_def table_entry_ok_def dest!: spec)
  obtain off where off: "limine_hhdm li = Some off" "IS_PAGE_ALIGNED (hhdm li)" "hhdm li = off"
    using inv by (auto simp: pt_inv_def tree_ok_def hhdm_def)
  have "page_ok li q" using pt_inv_page [OF inv q] by simp
  note bk = table_descriptor_back [OF this off(2)]
  show ?thesis
    using bk off by (simp add: table_next_table_def w table_descriptor_fields phys_to_virt_def Let_def)
qed

lemma next_table_missing:
  assumes inv: "pt_inv li root s T xs" and P: "T P = Some p" "length P < 3" and i: "i < 512"
    and q: "T (P @ [i]) = None"
  shows "table_next_table li (entry p i) False s = Inr (ERR_TO_PTR (- errnum ENOMEM), s)"
    and "\<not> desc_is_valid (load64 (mm_mem s) (entry p i))"
proof -
  show "\<not> desc_is_valid (load64 (mm_mem s) (entry p i))"
    using inv P i q by (auto simp: pt_inv_def tables_ok_def table_entry_ok_def dest!: spec)
  then show "table_next_table li (entry p i) False s = Inr (ERR_TO_PTR (- errnum ENOMEM), s)"
    by (simp add: table_next_table_def)
qed

text \<open>A fresh table: the tree grows by one page of the free list, all of whose entries are zero.\<close>

lemma tree_ok_extend:
  assumes "tree_ok li root T (x # xs)" and "distinct (x # xs)" and "T P = Some p" and "length P < 3"
    and "i < 512" and "T (P @ [i]) = None"
  shows "tree_ok li root (T(P @ [i] \<mapsto> x)) xs"
proof -
  have t: "limine_hhdm li \<noteq> None" "IS_PAGE_ALIGNED (hhdm li)" "T [] = Some root"
    "\<And>P p. T P = Some p \<Longrightarrow> page_ok li p \<and> p \<noteq> x \<and> p \<notin> set xs \<and> length P \<le> 3"
    "\<And>P i. T (P @ [i]) \<noteq> None \<Longrightarrow> T P \<noteq> None \<and> i < 512"
    "\<And>P Q p. T P = Some p \<Longrightarrow> T Q = Some p \<Longrightarrow> P = Q" "\<And>y. y \<in> set (x # xs) \<Longrightarrow> page_ok li y"
    using assms(1) unfolding tree_ok_def by auto
  let ?T = "T(P @ [i] \<mapsto> x)"
  have A: "page_ok li q \<and> q \<notin> set xs \<and> length Q \<le> 3" if "?T Q = Some q" for Q q
    using that t(4) [of Q q] t(7) [of x] assms(2,4) by (auto split: if_splits)
  have B: "?T Q \<noteq> None \<and> j < 512" if "?T (Q @ [j]) \<noteq> None" for Q j
  proof (cases "Q @ [j] = P @ [i]")
    case False
    then have "T (Q @ [j]) \<noteq> None" using that by (simp only: fun_upd_other not_False_eq_True)
    from t(5) [OF this] show ?thesis by auto
  qed (use assms(3,5) in auto)
  have C: "Q = R" if "?T Q = Some q" "?T R = Some q" for Q R q
  proof (cases "q = x")
    case True
    then show ?thesis using that t(4) [of Q x] t(4) [of R x] by (metis fun_upd_other)
  next
    case False
    then have "T Q = Some q" "T R = Some q" using that by (auto split: if_splits)
    then show ?thesis by (rule t(6))
  qed
  have "?T [] = Some root" "\<forall>y \<in> set xs. page_ok li y" using t(3,7) by simp_all
  then show ?thesis unfolding tree_ok_def using t(1,2) A B C by blast
qed

lemma tables_ok_extend:
  assumes tree: "tree_ok li root T (x # xs)" and tabs: "tables_ok li m T"
    and P: "T P = Some p" "length P < 3" "i < 512" "T (P @ [i]) = None"
    and zero: "\<And>a. m1 a = (if in_region a x 4096 then 0 else m a)"
  defines "m2 \<equiv> store64 m1 (entry p i) (table_descriptor (PA_TO_PAGE_DESC (x - hhdm li)))"
  shows "tables_ok li m2 (T(P @ [i] \<mapsto> x))" and "same_leaves T m (T(P @ [i] \<mapsto> x)) m2"
proof -
  have pg: "\<And>Q q. T Q = Some q \<Longrightarrow> IS_PAGE_ALIGNED q \<and> q \<noteq> x \<and> length Q \<le> 3"
    and x: "IS_PAGE_ALIGNED x" and inj: "\<And>Q R q. T Q = Some q \<Longrightarrow> T R = Some q \<Longrightarrow> Q = R"
    and par: "\<And>Q j. T (Q @ [j]) \<noteq> None \<Longrightarrow> T Q \<noteq> None"
    using tree unfolding tree_ok_def by (auto simp: page_ok_def)
  have old: "load64 m2 (entry q j) = (if Q = P \<and> j = i
      then table_descriptor (PA_TO_PAGE_DESC (x - hhdm li)) else load64 m (entry q j))"
    if "T Q = Some q" "j < 512" for Q q j
  proof -
    have "load64 m1 (entry q j) = load64 m (entry q j)"
      using pg [OF that(1)] x zero that(2) by (intro load_entry_frame) auto
    moreover have "p = q \<longleftrightarrow> Q = P" using inj P(1) that(1) by (metis option.inject)
    ultimately show ?thesis
      unfolding m2_def using load_entry_store [of p i q j m1] pg [OF P(1)] pg [OF that(1)] P(3) that(2) by auto
  qed
  have new: "load64 m2 (entry x j) = 0" if "j < 512" for j
  proof -
    have "load64 m1 (entry x j) = 0" using x that zero by (intro load_entry_zero) auto
    then show ?thesis
      unfolding m2_def using load_entry_store [of p i x j m1] pg [OF P(1)] x P(3) that by auto
  qed
  have no_child: "T ((P @ [i]) @ [j]) = None" for j using par [of "P @ [i]" j] P(4) by metis
  show "tables_ok li m2 (T(P @ [i] \<mapsto> x))"
    unfolding tables_ok_def
  proof (intro allI impI)
    fix Q q j assume Q: "(T(P @ [i] \<mapsto> x)) Q = Some q" and j: "j < (512 :: u64)"
    show "if length Q < 3 then table_entry_ok li (load64 m2 (entry q j)) ((T(P @ [i] \<mapsto> x)) (Q @ [j]))
        else desc_is_valid (load64 m2 (entry q j)) \<or> load64 m2 (entry q j) = 0"
    proof (cases "Q = P @ [i]")
      case True
      then show ?thesis using Q new [OF j] no_child [of j] by (auto simp: table_entry_ok_def)
    next
      case False
      then have TQ: "T Q = Some q" using Q by simp
      have t: "if length Q < 3 then table_entry_ok li (load64 m (entry q j)) (T (Q @ [j]))
          else desc_is_valid (load64 m (entry q j)) \<or> load64 m (entry q j) = 0"
        using tabs TQ j unfolding tables_ok_def by blast
      show ?thesis
      proof (cases "Q = P \<and> j = i")
        case True
        then show ?thesis using old [OF TQ j] P(2) by (simp add: table_entry_ok_def)
      next
        case False
        then show ?thesis using old [OF TQ j] t by auto
      qed
    qed
  qed
  show "same_leaves T m (T(P @ [i] \<mapsto> x)) m2"
    unfolding same_leaves_def leaf_def
    using old new P by (auto split: option.splits)
qed

lemma mm_alloc_cons:
  assumes "kmem_rep (mm_kmem s) (mm_mem s) (x # xs)" and "core_ok (Suc 0) (mm_core s)"
  shows "\<exists>s'. mm_alloc s = Inr (x, s') \<and> kmem_rep (mm_kmem s') (mm_mem s') xs \<and> core_ok (Suc 0) (mm_core s') \<and>
    irq_view (mm_core s') = irq_view (mm_core s) \<and>
    (\<forall>a. mm_mem s' a = (if in_region a x 4096 then 0 else mm_mem s a))"
proof -
  obtain k' where "kmem_alloc (mm_kmem s) (mm_core s) (mm_mem s) =
      Inr (x, k', irq_cycle (mm_core s), memset (mm_mem s) x 0 PAGE_SIZE)"
    "kmem_rep k' (memset (mm_mem s) x 0 PAGE_SIZE) xs"
    using kmem_alloc_cons [OF assms] by blast
  then show ?thesis using assms(2) pop_push_cycle(2) [OF assms(2)] by (auto simp: mm_alloc_def memset_eq)
qed

lemma kmem_rep_store:
  assumes "kmem_rep k m xs" and "IS_PAGE_ALIGNED p" and "p \<notin> set xs" and "i < 512"
  shows "kmem_rep k (store64 m (entry p i) v) xs"
proof -
  have out: "store64 m (entry p i) v a = m a" if "\<not> in_region a p 4096" for a
    using that entry_in_page [OF assms(2,4)] by (intro store64_out) blast
  have "km_chain (store64 m (entry p i) v) (km_free_list k) xs"
    by (rule chain_outside_page [OF _ assms(2,3) out]) (use assms(1) in \<open>simp add: kmem_rep_def\<close>)
  then show ?thesis using assms(1) by (simp add: kmem_rep_def)
qed

lemma next_table_fresh:
  assumes inv: "pt_inv li root s T (x # xs)" and P: "T P = Some p" "length P < 3" and i: "i < 512"
    and q: "T (P @ [i]) = None"
  shows "\<exists>s'. table_next_table li (entry p i) True s = Inr (x, s') \<and> pt_inv li root s' (T(P @ [i] \<mapsto> x)) xs \<and>
    same_leaves T (mm_mem s) (T(P @ [i] \<mapsto> x)) (mm_mem s') \<and> pt_step T (x # xs) s (T(P @ [i] \<mapsto> x)) xs s'"
proof -
  have tree: "tree_ok li root T (x # xs)" and tabs: "tables_ok li (mm_mem s) T"
    and rep: "kmem_rep (mm_kmem s) (mm_mem s) (x # xs)" and c: "core_ok (Suc 0) (mm_core s)"
    using inv by (simp_all add: pt_inv_def)
  obtain s1 where s1: "mm_alloc s = Inr (x, s1)" "kmem_rep (mm_kmem s1) (mm_mem s1) xs" "core_ok (Suc 0) (mm_core s1)"
    "\<And>a. mm_mem s1 a = (if in_region a x 4096 then 0 else mm_mem s a)" "irq_view (mm_core s1) = irq_view (mm_core s)"
    using mm_alloc_cons [OF rep c] by blast
  let ?d = "table_descriptor (PA_TO_PAGE_DESC (x - hhdm li))"
  let ?s = "mm_store (entry p i) ?d s1"
  have x: "page_ok li x" and off: "limine_hhdm li \<noteq> None" using tree by (simp_all add: tree_ok_def)
  have "virt_to_phys li x = Inr (x - hhdm li)"
    using x off by (auto simp: virt_to_phys_def hhdm_def page_ok_def)
  then have next_eq: "table_next_table li (entry p i) True s = Inr (x, ?s)"
    using next_table_missing(2) [OF inv P i q] s1(1) by (simp add: table_next_table_def)
  note ext = tables_ok_extend [OF tree tabs P i q s1(4)]
  have "distinct (x # xs)" using rep by (simp add: kmem_rep_def)
  note tree' = tree_ok_extend [OF tree this P i q]
  have "kmem_rep (mm_kmem s1) (store64 (mm_mem s1) (entry p i) ?d) xs"
    using s1(2) pt_inv_page [OF inv P(1)] i by (intro kmem_rep_store) auto
  then have "pt_inv li root ?s (T(P @ [i] \<mapsto> x)) xs"
    using tree' ext(1) s1(3) by (simp add: pt_inv_def mm_store_def)
  moreover have "pt_step T (x # xs) s (T(P @ [i] \<mapsto> x)) xs ?s"
  proof -
    have "ran (T(P @ [i] \<mapsto> x)) \<union> set xs = ran T \<union> set (x # xs)" using q by simp
    moreover have "mm_mem ?s a = mm_mem s a" if a: "\<forall>q \<in> ran T \<union> set (x # xs). \<not> in_region a q 4096" for a
    proof -
      have "p \<in> ran T" using P(1) by (rule ranI)
      then have "\<not> in_region a p 4096" "\<not> in_region a x 4096" using a by auto
      moreover from this have "\<not> in_region a (entry p i) 8"
        using entry_in_page [OF pt_inv_page(2) [OF inv P(1)] i, of a] by blast
      ultimately show ?thesis using s1(4) [of a] by (simp add: mm_store_def store64_out)
    qed
    ultimately show ?thesis unfolding pt_step_def using s1(5) by (auto simp: mm_store_def)
  qed
  ultimately show ?thesis using next_eq ext(2) by (auto simp: mm_store_def)
qed

text \<open>With a page to spare, a step down the tree succeeds and changes no leaf.\<close>

lemma next_table_spec:
  assumes inv: "pt_inv li root s T xs" and P: "T P = Some p" "length P < 3" and i: "i < 512"
    and room: "0 < length xs"
  shows "\<exists>q s' T' ys. table_next_table li (entry p i) True s = Inr (q, s') \<and> \<not> IS_ERR q \<and>
    pt_inv li root s' T' ys \<and> T' (P @ [i]) = Some q \<and> T \<subseteq>\<^sub>m T' \<and> length xs \<le> Suc (length ys) \<and>
    same_leaves T (mm_mem s) T' (mm_mem s') \<and> pt_step T xs s T' ys s' \<and> dom T' \<subseteq> insert (P @ [i]) (dom T)"
proof (cases "T (P @ [i])")
  case (Some q)
  have "same_leaves T (mm_mem s) T (mm_mem s)" by (simp add: same_leaves_def)
  then show ?thesis
    using next_table_existing [OF inv P i Some, of True] pt_inv_page(5) [OF inv Some] inv Some
    by (intro exI [of _ q] exI [of _ s] exI [of _ T] exI [of _ xs]) auto
next
  case None
  obtain x ys where xs: "xs = x # ys" using room by (cases xs) auto
  obtain s' where s': "table_next_table li (entry p i) True s = Inr (x, s')" "pt_inv li root s' (T(P @ [i] \<mapsto> x)) ys"
    "same_leaves T (mm_mem s) (T(P @ [i] \<mapsto> x)) (mm_mem s')" "pt_step T (x # ys) s (T(P @ [i] \<mapsto> x)) ys s'"
    using next_table_fresh [OF inv [unfolded xs] P i None] by blast
  have "\<not> IS_ERR x" using pt_inv_page(5) [OF s'(2), of "P @ [i]"] by simp
  moreover have "T \<subseteq>\<^sub>m T(P @ [i] \<mapsto> x)" using None by (auto simp: map_le_def)
  ultimately show ?thesis
    using s' xs by (intro exI [of _ x] exI [of _ s'] exI [of _ "T(P @ [i] \<mapsto> x)"] exI [of _ ys]) simp
qed

section \<open>The walk\<close>

definition vpath :: "u64 \<Rightarrow> u64 list" where
  "vpath va = [L0_INDEX va, L1_INDEX va, L2_INDEX va]"

text \<open>The tables below the root that a walk to an address passes.\<close>

definition table_paths :: "u64 \<Rightarrow> u64 list set" where
  "table_paths va = {[L0_INDEX va], [L0_INDEX va, L1_INDEX va], vpath va}"

lemma index_bound [simp]:
  "L0_INDEX va < 512" "L1_INDEX va < 512" "L2_INDEX va < 512" "L3_INDEX va < 512"
proof -
  have "w AND PT_INDEX_MASK < 512" for w :: u64
  proof -
    have "w AND PT_INDEX_MASK = take_bit 9 w"
      by (simp add: PT_INDEX_MASK_def take_bit_eq_mask mask_eq_exp_minus_1)
    moreover have "unat (take_bit 9 w) < 512" by (simp add: unat_take_bit)
    ultimately show ?thesis by (simp add: word_less_nat_alt)
  qed
  then show "L0_INDEX va < 512" "L1_INDEX va < 512" "L2_INDEX va < 512" "L3_INDEX va < 512"
    by (simp_all only: L0_INDEX_def L1_INDEX_def L2_INDEX_def L3_INDEX_def)
qed

lemma same_leaves_trans:
  "same_leaves T m T' m' \<Longrightarrow> same_leaves T' m' T'' m'' \<Longrightarrow> same_leaves T m T'' m''"
  by (simp add: same_leaves_def)

lemma pt_inv_root: "pt_inv li root s T xs \<Longrightarrow> T [] = Some root"
  by (simp add: pt_inv_def tree_ok_def)

lemma walk_allocates:
  assumes inv: "pt_inv li root s T xs" and room: "3 \<le> length xs"
  shows "\<exists>l3 s' T' ys. walk_pagetable li root va True s = Inr (entry l3 (L3_INDEX va), s') \<and>
    pt_inv li root s' T' ys \<and> T' (vpath va) = Some l3 \<and> length xs \<le> length ys + 3 \<and>
    same_leaves T (mm_mem s) T' (mm_mem s') \<and> pt_step T xs s T' ys s' \<and> dom T' \<subseteq> dom T \<union> table_paths va"
proof -
  let ?i0 = "L0_INDEX va" and ?i1 = "L1_INDEX va" and ?i2 = "L2_INDEX va"
  obtain l1 s1 T1 ys1 where 1: "table_next_table li (entry root ?i0) True s = Inr (l1, s1)" "\<not> IS_ERR l1"
    "pt_inv li root s1 T1 ys1" "T1 [?i0] = Some l1" "length xs \<le> Suc (length ys1)" "same_leaves T (mm_mem s) T1 (mm_mem s1)"
    "pt_step T xs s T1 ys1 s1" "dom T1 \<subseteq> insert [?i0] (dom T)"
  proof -
    have "0 < length xs" using room by linarith
    from next_table_spec [OF inv pt_inv_root [OF inv] _ index_bound(1) this, of va] that show thesis by auto
  qed
  obtain l2 s2 T2 ys2 where 2: "table_next_table li (entry l1 ?i1) True s1 = Inr (l2, s2)" "\<not> IS_ERR l2"
    "pt_inv li root s2 T2 ys2" "T2 [?i0, ?i1] = Some l2" "length ys1 \<le> Suc (length ys2)"
    "same_leaves T1 (mm_mem s1) T2 (mm_mem s2)" "pt_step T1 ys1 s1 T2 ys2 s2" "dom T2 \<subseteq> insert [?i0, ?i1] (dom T1)"
  proof -
    have "0 < length ys1" using room 1(5) by linarith
    from next_table_spec [OF 1(3,4) _ index_bound(2) this, of va] that show thesis by auto
  qed
  obtain l3 s3 T3 ys3 where 3: "table_next_table li (entry l2 ?i2) True s2 = Inr (l3, s3)" "\<not> IS_ERR l3"
    "pt_inv li root s3 T3 ys3" "T3 [?i0, ?i1, ?i2] = Some l3" "length ys2 \<le> Suc (length ys3)"
    "same_leaves T2 (mm_mem s2) T3 (mm_mem s3)" "pt_step T2 ys2 s2 T3 ys3 s3" "dom T3 \<subseteq> insert [?i0, ?i1, ?i2] (dom T2)"
  proof -
    have "0 < length ys2" using room 1(5) 2(5) by linarith
    from next_table_spec [OF 2(3,4) _ index_bound(3) this, of va] that show thesis by auto
  qed
  have "walk_pagetable li root va True s = Inr (entry l3 (L3_INDEX va), s3)"
    using 1(1,2) 2(1,2) 3(1,2) by (simp add: walk_pagetable_def)
  moreover have "same_leaves T (mm_mem s) T3 (mm_mem s3)"
    using 1(6) 2(6) 3(6) same_leaves_trans by blast
  moreover have "pt_step T xs s T3 ys3 s3" using 1(7) 2(7) 3(7) pt_step_trans by blast
  moreover have "dom T3 \<subseteq> dom T \<union> table_paths va" using 1(8) 2(8) 3(8) unfolding table_paths_def vpath_def by blast
  ultimately show ?thesis using 3(3,4) 1(5) 2(5) 3(5)
    by (intro exI [of _ l3] exI [of _ s3] exI [of _ T3] exI [of _ ys3]) (simp add: vpath_def)
qed

text \<open>Without allocation the walk changes nothing; it panics where the tree has no leaf table.\<close>

lemma walk_reads:
  assumes inv: "pt_inv li root s T xs"
  shows "case T (vpath va) of
      Some l3 \<Rightarrow> walk_pagetable li root va a s = Inr (entry l3 (L3_INDEX va), s)
    | None \<Rightarrow> \<exists>msg. walk_pagetable li root va False s = Inl (Panic msg)"
proof -
  let ?i0 = "L0_INDEX va" and ?i1 = "L1_INDEX va" and ?i2 = "L2_INDEX va"
  have par: "\<exists>p. T P = Some p" if "T (P @ [i]) = Some q" for P i q
  proof -
    have "T (P @ [i]) \<noteq> None" using that by simp
    then have "T P \<noteq> None" using inv unfolding pt_inv_def tree_ok_def by blast
    then show ?thesis by auto
  qed
  have err: "IS_ERR (ERR_TO_PTR (- 1))" by (simp add: IS_ERR_def ERR_TO_PTR_def)
  note r = pt_inv_root [OF inv]
  show ?thesis
  proof (cases "T (vpath va)")
    case (Some l3)
    obtain l2 where l2: "T [?i0, ?i1] = Some l2" using par [of "[?i0, ?i1]" ?i2] Some by (auto simp: vpath_def)
    obtain l1 where l1: "T [?i0] = Some l1" using par [of "[?i0]" ?i1] l2 by auto
    show ?thesis
      using Some next_table_existing [OF inv r, of ?i0 l1 a] next_table_existing [OF inv l1, of ?i1 l2 a]
        next_table_existing [OF inv l2, of ?i2 l3 a] l1 l2 pt_inv_page(5) [OF inv]
      by (simp add: walk_pagetable_def vpath_def)
  next
    case None
    show ?thesis
    proof (cases "T [?i0]")
      case n: None
      then show ?thesis using None next_table_missing(1) [OF inv r, of ?i0] err by (simp add: walk_pagetable_def)
    next
      case l1: (Some l1)
      note e1 = next_table_existing [OF inv r, of ?i0 l1 False]
      show ?thesis
      proof (cases "T [?i0, ?i1]")
        case n: None
        then show ?thesis
          using None e1 l1 next_table_missing(1) [OF inv l1, of ?i1] err pt_inv_page(5) [OF inv l1]
          by (simp add: walk_pagetable_def)
      next
        case l2: (Some l2)
        then show ?thesis
          using None e1 l1 next_table_existing [OF inv l1, of ?i1 l2 False] next_table_missing(1) [OF inv l2, of ?i2]
            err pt_inv_page(5) [OF inv]
          by (simp add: walk_pagetable_def vpath_def)
      qed
    qed
  qed
qed

section \<open>Leaf updates\<close>

text \<open>The virtual page number of an address, and the descriptor the tables hold for an address.\<close>

definition vpn :: "u64 \<Rightarrow> u64" where
  "vpn va = take_bit 36 (drop_bit 12 va)"

definition pte :: "tree \<Rightarrow> mm \<Rightarrow> u64 \<Rightarrow> u64" where
  "pte T s va = leaf T (mm_mem s) (vpath va) (L3_INDEX va)"

lemma bit_index:
  "bit (L0_INDEX va) n \<longleftrightarrow> n < 9 \<and> bit va (39 + n)" "bit (L1_INDEX va) n \<longleftrightarrow> n < 9 \<and> bit va (30 + n)"
  "bit (L2_INDEX va) n \<longleftrightarrow> n < 9 \<and> bit va (21 + n)" "bit (L3_INDEX va) n \<longleftrightarrow> n < 9 \<and> bit va (12 + n)"
proof -
  have mask: "PT_INDEX_MASK = mask 9" by (simp add: PT_INDEX_MASK_def mask_eq_exp_minus_1)
  have "bit PT_INDEX_MASK n \<longleftrightarrow> n < 9" unfolding mask by (auto simp only: bit_mask_iff possible_bit_def) simp
  then show "bit (L0_INDEX va) n \<longleftrightarrow> n < 9 \<and> bit va (39 + n)" "bit (L1_INDEX va) n \<longleftrightarrow> n < 9 \<and> bit va (30 + n)"
    "bit (L2_INDEX va) n \<longleftrightarrow> n < 9 \<and> bit va (21 + n)" "bit (L3_INDEX va) n \<longleftrightarrow> n < 9 \<and> bit va (12 + n)"
    by (auto simp: L0_INDEX_def L1_INDEX_def L2_INDEX_def L3_INDEX_def bit_simps add.commute)
qed

lemma bit_vpn: "bit (vpn va) n \<longleftrightarrow> n < 36 \<and> bit va (12 + n)"
  by (auto simp: vpn_def bit_simps add.commute)

lemma same_slot:
  "vpath u = vpath v \<and> L3_INDEX u = L3_INDEX v \<longleftrightarrow> vpn u = vpn v"
proof
  assume eq: "vpath u = vpath v \<and> L3_INDEX u = L3_INDEX v"
  then have i: "L0_INDEX u = L0_INDEX v" "L1_INDEX u = L1_INDEX v" "L2_INDEX u = L2_INDEX v" "L3_INDEX u = L3_INDEX v"
    by (simp_all add: vpath_def)
  show "vpn u = vpn v"
  proof (rule bit_word_eqI)
    fix n :: nat
    have "bit u (12 + n) \<longleftrightarrow> bit v (12 + n)" if n36: "n < 36"
    proof -
      consider "n < 9" | "9 \<le> n" "n < 18" | "18 \<le> n" "n < 27" | "27 \<le> n" "n < 36" using n36 by linarith
      then show ?thesis
      proof cases
        case 1
        then show ?thesis using bit_index(4) [of u n] bit_index(4) [of v n] i(4) by simp
      next
        case 2
        then show ?thesis using bit_index(3) [of u "n - 9"] bit_index(3) [of v "n - 9"] i(3) by auto
      next
        case 3
        then show ?thesis using bit_index(2) [of u "n - 18"] bit_index(2) [of v "n - 18"] i(2) by auto
      next
        case 4
        then show ?thesis using bit_index(1) [of u "n - 27"] bit_index(1) [of v "n - 27"] i(1) by auto
      qed
    qed
    then show "bit (vpn u) n = bit (vpn v) n" by (auto simp: bit_vpn)
  qed
next
  assume eq: "vpn u = vpn v"
  have b: "bit u (12 + n) \<longleftrightarrow> bit v (12 + n)" if "n < 36" for n
    using that arg_cong [OF eq, of "\<lambda>w. bit w n"] by (simp add: bit_vpn)
  have "L0_INDEX u = L0_INDEX v" by (rule bit_word_eqI) (use b [of "27 + n" for n] in \<open>auto simp: bit_index\<close>)
  moreover have "L1_INDEX u = L1_INDEX v" by (rule bit_word_eqI) (use b [of "18 + n" for n] in \<open>auto simp: bit_index\<close>)
  moreover have "L2_INDEX u = L2_INDEX v" by (rule bit_word_eqI) (use b [of "9 + n" for n] in \<open>auto simp: bit_index\<close>)
  moreover have "L3_INDEX u = L3_INDEX v" by (rule bit_word_eqI) (use b in \<open>auto simp: bit_index\<close>)
  ultimately show "vpath u = vpath v \<and> L3_INDEX u = L3_INDEX v" by (simp add: vpath_def)
qed

lemma same_leaves_pte: "same_leaves T (mm_mem s) T' (mm_mem s') \<Longrightarrow> pte T' s' va = pte T s va"
  by (simp add: same_leaves_def pte_def vpath_def)

lemma store_leaf:
  assumes inv: "pt_inv li root s T xs" and l3: "T (vpath va) = Some l3" and w: "desc_is_valid w \<or> w = 0"
  defines "s' \<equiv> mm_store (entry l3 (L3_INDEX va)) w s"
  shows "pt_inv li root s' T xs" and "pte T s' v = (if vpn v = vpn va then w else pte T s v)"
    and "pt_step T xs s T xs s'"
proof -
  let ?m = "store64 (mm_mem s) (entry l3 (L3_INDEX va)) w"
  have mem: "mm_mem s' = ?m" "mm_kmem s' = mm_kmem s" "mm_core s' = mm_core s" by (simp_all add: s'_def mm_store_def)
  have len: "length (vpath va) = 3" by (simp add: vpath_def)
  note pg = pt_inv_page [OF inv l3]
  have inj: "T Q = Some l3 \<longleftrightarrow> Q = vpath va" for Q
    using inv l3 unfolding pt_inv_def tree_ok_def by blast
  have ld: "load64 ?m (entry q j) = (if Q = vpath va \<and> j = L3_INDEX va then w else load64 (mm_mem s) (entry q j))"
    if "T Q = Some q" "j < 512" for Q q j
    using load_entry_store [OF pg(2) index_bound(4) pt_inv_page(2) [OF inv that(1)] that(2), of "mm_mem s" va w]
      inj [of Q] that(1) by auto
  have "tables_ok li ?m T"
    unfolding tables_ok_def
  proof (intro allI impI)
    fix Q q j assume Q: "T Q = Some q" and j: "j < (512 :: u64)"
    have "if length Q < 3 then table_entry_ok li (load64 (mm_mem s) (entry q j)) (T (Q @ [j]))
        else desc_is_valid (load64 (mm_mem s) (entry q j)) \<or> load64 (mm_mem s) (entry q j) = 0"
      using inv Q j unfolding pt_inv_def tables_ok_def by blast
    then show "if length Q < 3 then table_entry_ok li (load64 ?m (entry q j)) (T (Q @ [j]))
        else desc_is_valid (load64 ?m (entry q j)) \<or> load64 ?m (entry q j) = 0"
      using ld [OF Q j] len w by (cases "Q = vpath va \<and> j = L3_INDEX va") auto
  qed
  moreover have "kmem_rep (mm_kmem s) ?m xs"
    using inv pg(2,3) by (intro kmem_rep_store) (simp_all add: pt_inv_def)
  ultimately show "pt_inv li root s' T xs" using inv by (simp add: pt_inv_def mem)
  show "pte T s' v = (if vpn v = vpn va then w else pte T s v)"
    using ld [of "vpath v" _ "L3_INDEX v"] l3 same_slot [of v va]
    by (auto simp: pte_def leaf_def mem split: option.splits)
  have "mm_mem s' a = mm_mem s a" if a: "\<forall>p \<in> ran T \<union> set xs. \<not> in_region a p 4096" for a
  proof -
    have "l3 \<in> ran T" using l3 by (rule ranI)
    then have "\<not> in_region a l3 4096" using a by blast
    then have "\<not> in_region a (entry l3 (L3_INDEX va)) 8"
      using entry_in_page [OF pg(2) index_bound(4), of a va] by blast
    then show ?thesis by (simp add: mem store64_out)
  qed
  then show "pt_step T xs s T xs s'" by (simp add: pt_step_def mem)
qed

section \<open>Mapping, unmapping and looking up\<close>

lemma invalid_pte_zero:
  assumes "pt_inv li root s T xs" and "\<not> desc_is_valid (pte T s va)"
  shows "pte T s va = 0"
proof (cases "T (vpath va)")
  case (Some l3)
  have "if length (vpath va) < 3
      then table_entry_ok li (load64 (mm_mem s) (entry l3 (L3_INDEX va))) (T (vpath va @ [L3_INDEX va]))
      else desc_is_valid (load64 (mm_mem s) (entry l3 (L3_INDEX va))) \<or> load64 (mm_mem s) (entry l3 (L3_INDEX va)) = 0"
    using assms(1) Some index_bound(4) unfolding pt_inv_def tables_ok_def by blast
  then show ?thesis using assms(2) Some by (simp add: pte_def leaf_def vpath_def)
qed (simp add: pte_def leaf_def)

lemma map_page_spec:
  assumes inv: "pt_inv li root s T xs" and room: "3 \<le> length xs"
  shows "if desc_is_valid (pte T s va)
    then map_page li root attrs va pa s = Inl (Panic ''remaping an already existing page'')
    else \<exists>s' T' ys. map_page li root attrs va pa s = Inr s' \<and> pt_inv li root s' T' ys \<and>
      length xs \<le> length ys + 3 \<and> pt_step T xs s T' ys s' \<and> dom T' \<subseteq> dom T \<union> table_paths va \<and>
      (\<forall>v. pte T' s' v = (if vpn v = vpn va then page_descriptor attrs pa 0 else pte T s v))"
proof -
  obtain l3 s1 T1 ys where w: "walk_pagetable li root va True s = Inr (entry l3 (L3_INDEX va), s1)"
    "pt_inv li root s1 T1 ys" "T1 (vpath va) = Some l3" "length xs \<le> length ys + 3"
    "same_leaves T (mm_mem s) T1 (mm_mem s1)" "pt_step T xs s T1 ys s1" "dom T1 \<subseteq> dom T \<union> table_paths va"
    using walk_allocates [OF inv room] by blast
  have raw: "load64 (mm_mem s1) (entry l3 (L3_INDEX va)) = pte T s va"
    using same_leaves_pte [OF w(5), of va] w(3) by (simp add: pte_def leaf_def)
  show ?thesis
  proof (cases "desc_is_valid (pte T s va)")
    case True
    then show ?thesis using w(1) raw by (simp add: map_page_def)
  next
    case False
    then have zero: "pte T s va = 0" by (rule invalid_pte_zero [OF inv])
    let ?s = "mm_store (entry l3 (L3_INDEX va)) (page_descriptor attrs pa 0) s1"
    have "map_page li root attrs va pa s = Inr ?s"
      using w(1) raw zero False by (simp add: map_page_def Let_def)
    moreover have "desc_is_valid (page_descriptor attrs pa 0) \<or> page_descriptor attrs pa 0 = 0"
      by (simp add: page_descriptor_fields)
    note st = store_leaf [OF w(2,3) this]
    have "\<forall>v. pte T1 ?s v = (if vpn v = vpn va then page_descriptor attrs pa 0 else pte T s v)"
      using st(2) same_leaves_pte [OF w(5)] by simp
    moreover have "pt_step T xs s T1 ys ?s" using w(6) st(3) by (rule pt_step_trans)
    ultimately show ?thesis using st(1) w(4,7) False by (simp only: if_False) blast
  qed
qed

lemma unmap_page_spec:
  assumes inv: "pt_inv li root s T xs"
  shows "if desc_is_valid (pte T s va)
    then \<exists>s'. unmap_page li root va s = Inr s' \<and> pt_inv li root s' T xs \<and> pt_step T xs s T xs s' \<and>
      (\<forall>v. pte T s' v = (if vpn v = vpn va then 0 else pte T s v))
    else \<exists>msg. unmap_page li root va s = Inl (Panic msg)"
proof (cases "T (vpath va)")
  case None
  then have "\<not> desc_is_valid (pte T s va)" by (simp add: pte_def leaf_def)
  moreover obtain msg where "walk_pagetable li root va False s = Inl (Panic msg)"
    using walk_reads [OF inv, of va] None by auto
  ultimately show ?thesis by (simp add: unmap_page_def)
next
  case (Some l3)
  then have w: "walk_pagetable li root va False s = Inr (entry l3 (L3_INDEX va), s)"
    using walk_reads [OF inv, of va False] by simp
  have raw: "load64 (mm_mem s) (entry l3 (L3_INDEX va)) = pte T s va" using Some by (simp add: pte_def leaf_def)
  have "desc_is_valid 0 \<or> (0 :: u64) = 0" by simp
  note st = store_leaf [OF inv Some this]
  show ?thesis using w raw st by (auto simp: unmap_page_def)
qed

text \<open>Looking up a mapped address.\<close>

lemma paging_lookup_spec:
  assumes inv: "pt_inv li root s T xs"
  shows "case T (vpath va) of
      None \<Rightarrow> \<exists>msg. paging_lookup li root va s = Inl (Panic msg)
    | Some _ \<Rightarrow> paging_lookup li root va s =
        Inr (PAGE_DESC_TO_PA (desc_address (pte T s va)) OR (va AND (PAGE_SIZE - 1)), s)"
proof (cases "T (vpath va)")
  case None
  then show ?thesis using walk_reads [OF inv, of va False] by (auto simp: paging_lookup_def)
next
  case (Some l3)
  note pg = pt_inv_page [OF inv Some]
  have "unat (entry l3 (L3_INDEX va)) + 8 < 2 ^ 64"
    using unat_entry(1,2) [OF pg(2) index_bound(4), of va] pg(1) by (simp add: page_ok_def)
  moreover obtain k where "unat (entry l3 (L3_INDEX va)) = 8 * k"
  proof -
    have "4096 dvd unat l3" using pg(2) by (auto simp: IS_PAGE_ALIGNED_iff)
    then obtain j where "unat l3 = 4096 * j" by (elim dvdE)
    then have "unat (entry l3 (L3_INDEX va)) = 8 * (512 * j + unat (L3_INDEX va))"
      using unat_entry(1) [OF pg(2) index_bound(4), of va] by simp
    then show thesis by (rule that)
  qed
  ultimately have "\<not> IS_ERR (entry l3 (L3_INDEX va))" by (simp add: IS_ERR_iff)
  then show ?thesis
    using walk_reads [OF inv, of va False] Some by (simp add: paging_lookup_def pte_def leaf_def)
qed

section \<open>Ranges\<close>

lemma unat_vpn: "unat (vpn va) = unat va div 4096 mod 2 ^ 36"
  unfolding vpn_def unat_take_bit by (simp add: drop_bit_eq_div unat_div)

lemma unat_page_step:
  assumes "unat va + k * 4096 < 2 ^ 64"
  shows "unat (va + of_nat k * PAGE_SIZE) = unat va + k * 4096"
proof -
  have "k < 2 ^ 64" "k * 4096 < 2 ^ 64" using assms by simp_all
  then have "unat (of_nat k * PAGE_SIZE :: 64 word) = k * 4096"
    by (subst unat_mult_u64) (simp_all add: unat_of_nat_u64)
  then show ?thesis using assms by (simp add: unat_add_u64)
qed

lemma vpn_step_inj:
  assumes "unat va + k * 4096 < 2 ^ 64" and "j < k" and "k < 2 ^ 36"
  shows "vpn (va + of_nat j * PAGE_SIZE) \<noteq> vpn (va + of_nat k * PAGE_SIZE)"
proof
  assume eq: "vpn (va + of_nat j * PAGE_SIZE) = vpn (va + of_nat k * PAGE_SIZE)"
  have uj: "unat (va + of_nat j * PAGE_SIZE) = unat va + j * 4096"
    using assms by (intro unat_page_step) simp
  have uk: "unat (va + of_nat k * PAGE_SIZE) = unat va + k * 4096"
    using assms(1) by (rule unat_page_step)
  let ?b = "unat va div 4096 + j"
  have "(?b + (k - j)) mod 2 ^ 36 = ?b mod 2 ^ 36"
    using arg_cong [OF eq, of unat] assms(2) by (simp add: unat_vpn uj uk add.commute)
  then have "2 ^ 36 dvd k - j" using mod_eq_dvd_iff_nat [of ?b "?b + (k - j)" "2 ^ 36"] by simp
  moreover have "0 < k - j" "k - j < 2 ^ 36" using assms(2,3) by simp_all
  ultimately show False by (meson dvd_imp_le linorder_not_less)
qed

text \<open>What mapping a range does to the descriptors.\<close>

definition range_pte :: "page_attrs \<Rightarrow> usize \<Rightarrow> usize \<Rightarrow> nat \<Rightarrow> (u64 \<Rightarrow> u64) \<Rightarrow> u64 \<Rightarrow> u64" where
  "range_pte attrs va pa n f v =
     (case List.find (\<lambda>k. vpn v = vpn (va + of_nat k * PAGE_SIZE)) [0..<n] of
        None \<Rightarrow> f v | Some k \<Rightarrow> page_descriptor attrs (pa + of_nat k * PAGE_SIZE) 0)"

lemma range_pte_at:
  assumes "k < n" and "unat va + n * 4096 \<le> 2 ^ 64" and "n \<le> 2 ^ 36" and "vpn v = vpn (va + of_nat k * PAGE_SIZE)"
  shows "range_pte attrs va pa n f v = page_descriptor attrs (pa + of_nat k * PAGE_SIZE) 0"
proof -
  have "vpn v \<noteq> vpn (va + of_nat j * PAGE_SIZE)" if "j < k" for j
    using vpn_step_inj [of va k j] that assms by auto
  then have "List.find (\<lambda>k. vpn v = vpn (va + of_nat k * PAGE_SIZE)) [0..<n] = Some k"
    using assms(1,4) unfolding find_Some_iff by (intro exI [of _ k]) auto
  then show ?thesis by (simp add: range_pte_def)
qed

lemma range_pte_outside:
  assumes "\<And>k. k < n \<Longrightarrow> vpn v \<noteq> vpn (va + of_nat k * PAGE_SIZE)"
  shows "range_pte attrs va pa n f v = f v"
proof -
  have "List.find (\<lambda>k. vpn v = vpn (va + of_nat k * PAGE_SIZE)) [0..<n] = None"
    using assms by (auto simp: find_None_iff)
  then show ?thesis by (simp add: range_pte_def)
qed

lemma page_step_Suc: "va + PAGE_SIZE + of_nat k * PAGE_SIZE = va + of_nat (Suc k) * PAGE_SIZE"
  by (simp add: algebra_simps)

lemma range_pte_Suc:
  assumes b: "unat va + Suc n * 4096 < 2 ^ 64" "Suc n \<le> 2 ^ 36"
    and g: "\<forall>v. g v = (if vpn v = vpn va then page_descriptor attrs pa 0 else f v)"
  shows "range_pte attrs (va + PAGE_SIZE) (pa + PAGE_SIZE) n g v = range_pte attrs va pa (Suc n) f v"
proof -
  have u1: "unat (va + PAGE_SIZE) = unat va + 4096" using b(1) by (subst unat_add_u64) simp_all
  have others: "vpn (va + PAGE_SIZE + of_nat k * PAGE_SIZE) \<noteq> vpn va" if "k < n" for k
    using vpn_step_inj [of va "Suc k" 0] that b unfolding page_step_Suc by fastforce
  show ?thesis
  proof (cases "\<exists>k < Suc n. vpn v = vpn (va + of_nat k * PAGE_SIZE)")
    case True
    then obtain k where k: "k < Suc n" "vpn v = vpn (va + of_nat k * PAGE_SIZE)" by blast
    have r: "range_pte attrs va pa (Suc n) f v = page_descriptor attrs (pa + of_nat k * PAGE_SIZE) 0"
      using k b by (intro range_pte_at) auto
    show ?thesis
    proof (cases k)
      case 0
      then have "vpn v \<noteq> vpn (va + PAGE_SIZE + of_nat j * PAGE_SIZE)" if "j < n" for j
        using k(2) others [OF that] by simp
      then show ?thesis using g k(2) 0 r range_pte_outside by simp
    next
      case (Suc j)
      then have "vpn v = vpn (va + PAGE_SIZE + of_nat j * PAGE_SIZE)" unfolding page_step_Suc using k(2) by simp
      then have "range_pte attrs (va + PAGE_SIZE) (pa + PAGE_SIZE) n g v =
          page_descriptor attrs (pa + PAGE_SIZE + of_nat j * PAGE_SIZE) 0"
        using k(1) Suc u1 b by (intro range_pte_at) auto
      then show ?thesis using r Suc unfolding page_step_Suc by simp
    qed
  next
    case False
    then have "vpn v \<noteq> vpn va" "\<And>j. j < n \<Longrightarrow> vpn v \<noteq> vpn (va + PAGE_SIZE + of_nat j * PAGE_SIZE)"
      using page_step_Suc [of va] by (force, metis Suc_less_eq)
    then show ?thesis using g False range_pte_outside by simp
  qed
qed

lemma map_loop_spec:
  assumes "pt_inv li root s T xs" and "3 * n \<le> length xs" and "unat va + n * 4096 < 2 ^ 64" and "n \<le> 2 ^ 36"
    and "\<And>k. k < n \<Longrightarrow> \<not> desc_is_valid (pte T s (va + of_nat k * PAGE_SIZE))"
  shows "\<exists>s' T' ys. map_loop li root attrs va pa (va + of_nat n * PAGE_SIZE) s = Some (Inr s') \<and>
    pt_inv li root s' T' ys \<and> length xs \<le> length ys + 3 * n \<and> pt_step T xs s T' ys s' \<and>
    (\<forall>v. pte T' s' v = range_pte attrs va pa n (pte T s) v)"
  using assms
proof (induction n arbitrary: va pa s T xs)
  case 0
  then show ?case
    by (subst map_loop.simps) (auto simp: range_pte_def intro!: exI [of _ T] exI [of _ xs])
next
  case (Suc n)
  have ne: "\<not> desc_is_valid (pte T s va)" using Suc.prems(5) [of 0] by simp
  have "3 \<le> length xs" using Suc.prems(2) by simp
  with map_page_spec [OF Suc.prems(1), of va attrs pa] ne obtain s1 T1 ys1 where
    1: "map_page li root attrs va pa s = Inr s1" "pt_inv li root s1 T1 ys1" "length xs \<le> length ys1 + 3"
      "\<forall>v. pte T1 s1 v = (if vpn v = vpn va then page_descriptor attrs pa 0 else pte T s v)"
      "pt_step T xs s T1 ys1 s1" by auto
  have u1: "unat (va + PAGE_SIZE) = unat va + 4096" using Suc.prems(3) by (subst unat_add_u64) simp_all
  have others: "vpn (va + PAGE_SIZE + of_nat k * PAGE_SIZE) \<noteq> vpn va" if "k < n" for k
    using vpn_step_inj [of va "Suc k" 0] that Suc.prems(3,4) unfolding page_step_Suc by fastforce
  have "\<not> desc_is_valid (pte T1 s1 (va + PAGE_SIZE + of_nat k * PAGE_SIZE))" if "k < n" for k
    using 1(4) others [OF that] Suc.prems(5) [of "Suc k"] that unfolding page_step_Suc by simp
  moreover have "3 * n \<le> length ys1" "unat (va + PAGE_SIZE) + n * 4096 < 2 ^ 64" "n \<le> 2 ^ 36"
    using Suc.prems(2-4) 1(3) u1 by simp_all
  ultimately obtain s' T' ys where 2: "map_loop li root attrs (va + PAGE_SIZE) (pa + PAGE_SIZE)
        (va + PAGE_SIZE + of_nat n * PAGE_SIZE) s1 = Some (Inr s')" "pt_inv li root s' T' ys"
      "length ys1 \<le> length ys + 3 * n"
      "\<forall>v. pte T' s' v = range_pte attrs (va + PAGE_SIZE) (pa + PAGE_SIZE) n (pte T1 s1) v"
      "pt_step T1 ys1 s1 T' ys s'"
    using Suc.IH [OF 1(2), of "va + PAGE_SIZE" "pa + PAGE_SIZE"] by blast
  have "va < va + of_nat (Suc n) * PAGE_SIZE"
    unfolding word_less_nat_alt unat_page_step [OF Suc.prems(3)] by simp
  then have "map_loop li root attrs va pa (va + of_nat (Suc n) * PAGE_SIZE) s = Some (Inr s')"
    using 1(1) 2(1) unfolding page_step_Suc by (subst map_loop.simps) simp
  moreover have "pte T' s' v = range_pte attrs va pa (Suc n) (pte T s) v" for v
    using 2(4) range_pte_Suc [OF Suc.prems(3,4) 1(4)] by simp
  ultimately show ?case using 2(2,3) 1(3) pt_step_trans [OF 1(5) 2(5)]
    by (intro exI [of _ s'] exI [of _ T'] exI [of _ ys]) simp
qed

lemma unmap_loop_spec:
  assumes "pt_inv li root s T xs" and "unat va + n * 4096 < 2 ^ 64" and "n \<le> 2 ^ 36"
    and "\<And>k. k < n \<Longrightarrow> desc_is_valid (pte T s (va + of_nat k * PAGE_SIZE))"
  shows "\<exists>s'. unmap_loop li root va (va + of_nat n * PAGE_SIZE) s = Some (Inr s') \<and> pt_inv li root s' T xs \<and>
    pt_step T xs s T xs s' \<and> (\<forall>v. pte T s' v = (if \<exists>k < n. vpn v = vpn (va + of_nat k * PAGE_SIZE) then 0 else pte T s v))"
  using assms
proof (induction n arbitrary: va s)
  case 0
  then show ?case by (subst unmap_loop.simps) auto
next
  case (Suc n)
  have "desc_is_valid (pte T s va)" using Suc.prems(4) [of 0] by simp
  with unmap_page_spec [OF Suc.prems(1), of va] obtain s1 where
    1: "unmap_page li root va s = Inr s1" "pt_inv li root s1 T xs"
      "\<forall>v. pte T s1 v = (if vpn v = vpn va then 0 else pte T s v)" "pt_step T xs s T xs s1" by auto
  have u1: "unat (va + PAGE_SIZE) = unat va + 4096" using Suc.prems(2) by (subst unat_add_u64) simp_all
  have others: "vpn (va + PAGE_SIZE + of_nat k * PAGE_SIZE) \<noteq> vpn va" if "k < n" for k
    using vpn_step_inj [of va "Suc k" 0] that Suc.prems(2,3) unfolding page_step_Suc by fastforce
  have "desc_is_valid (pte T s1 (va + PAGE_SIZE + of_nat k * PAGE_SIZE))" if "k < n" for k
    using 1(3) others [OF that] Suc.prems(4) [of "Suc k"] that unfolding page_step_Suc by simp
  moreover have "unat (va + PAGE_SIZE) + n * 4096 < 2 ^ 64" "n \<le> 2 ^ 36" using Suc.prems(2,3) u1 by simp_all
  ultimately obtain s' where 2: "unmap_loop li root (va + PAGE_SIZE) (va + PAGE_SIZE + of_nat n * PAGE_SIZE) s1 = Some (Inr s')"
    "pt_inv li root s' T xs"
    "\<forall>v. pte T s' v = (if \<exists>k < n. vpn v = vpn (va + PAGE_SIZE + of_nat k * PAGE_SIZE) then 0 else pte T s1 v)"
    "pt_step T xs s1 T xs s'"
    using Suc.IH [OF 1(2), of "va + PAGE_SIZE"] by blast
  have "va < va + of_nat (Suc n) * PAGE_SIZE"
    unfolding word_less_nat_alt unat_page_step [OF Suc.prems(2)] by simp
  then have "unmap_loop li root va (va + of_nat (Suc n) * PAGE_SIZE) s = Some (Inr s')"
    using 1(1) 2(1) unfolding page_step_Suc by (subst unmap_loop.simps) simp
  moreover have split: "(\<exists>k < Suc n. vpn v = vpn (va + of_nat k * PAGE_SIZE)) \<longleftrightarrow>
      vpn v = vpn va \<or> (\<exists>k < n. vpn v = vpn (va + PAGE_SIZE + of_nat k * PAGE_SIZE))" for v
    unfolding page_step_Suc Ex_less_Suc2 by simp
  ultimately show ?case using 2(2,3) 1(3) pt_step_trans [OF 1(4) 2(4)] unfolding split
    by (intro exI [of _ s']) auto
qed

lemma aligned_size:
  assumes "IS_PAGE_ALIGNED sz"
  obtains n where "sz = of_nat n * PAGE_SIZE" and "unat sz = n * 4096"
proof -
  obtain n where n: "unat sz = n * 4096" using assms by (auto simp: IS_PAGE_ALIGNED_iff)
  then have "n < 2 ^ 64" "n * 4096 < 2 ^ 64" using unat_lt_u64 [of sz] by simp_all
  then have "unat (of_nat n * PAGE_SIZE :: 64 word) = n * 4096"
    by (subst unat_mult_u64) (simp_all add: unat_of_nat_u64)
  then have "sz = of_nat n * PAGE_SIZE" using n by (simp add: word_unat_eq_iff)
  with n that show thesis by blast
qed

text \<open>The pages of a range all lack a mapping, or all have one.\<close>

definition range_free :: "(u64 \<Rightarrow> u64) \<Rightarrow> usize \<Rightarrow> nat \<Rightarrow> bool" where
  "range_free f va n \<longleftrightarrow> list_all (\<lambda>k. \<not> desc_is_valid (f (va + of_nat k * PAGE_SIZE))) [0..<n]"

definition range_mapped :: "(u64 \<Rightarrow> u64) \<Rightarrow> usize \<Rightarrow> nat \<Rightarrow> bool" where
  "range_mapped f va n \<longleftrightarrow> list_all (\<lambda>k. desc_is_valid (f (va + of_nat k * PAGE_SIZE))) [0..<n]"

lemma paging_map_spec:
  assumes inv: "pt_inv li root s T xs" and al: "IS_PAGE_ALIGNED va" "unat sz = n * 4096"
    and fits: "unat va + unat sz < 2 ^ 64" "n \<le> 2 ^ 36" and room: "3 * n \<le> length xs"
    and fresh: "range_free (pte T s) va n"
  shows "\<exists>s' T' ys. paging_map li root va pa sz attrs s = Inr (errnum EOK, s') \<and> pt_inv li root s' T' ys \<and>
    length xs \<le> length ys + 3 * n \<and> pt_step T xs s T' ys s' \<and>
    (\<forall>v. pte T' s' v = range_pte attrs va pa n (pte T s) v)"
proof -
  have szal: "IS_PAGE_ALIGNED sz" using al(2) by (simp add: IS_PAGE_ALIGNED_iff)
  then have sz: "sz = of_nat n * PAGE_SIZE" by (rule aligned_size) (use al(2) in simp)
  have "\<And>k. k < n \<Longrightarrow> \<not> desc_is_valid (pte T s (va + of_nat k * PAGE_SIZE))"
    using fresh by (auto simp: range_free_def list_all_iff)
  with map_loop_spec [OF inv room _ fits(2), of va attrs pa] fits(1) al(2) obtain s' T' ys where
    "map_loop li root attrs va pa (va + sz) s = Some (Inr s')" "pt_inv li root s' T' ys"
    "length xs \<le> length ys + 3 * n" "\<forall>v. pte T' s' v = range_pte attrs va pa n (pte T s) v"
    "pt_step T xs s T' ys s'" unfolding sz by auto
  then show ?thesis using al(1) szal by (auto simp: paging_map_def)
qed

lemma paging_unmap_spec:
  assumes inv: "pt_inv li root s T xs" and al: "IS_PAGE_ALIGNED va" "unat sz = n * 4096"
    and fits: "unat va + unat sz < 2 ^ 64" "n \<le> 2 ^ 36" and mapped: "range_mapped (pte T s) va n"
  shows "\<exists>s'. paging_unmap li root va sz s = Inr s' \<and> pt_inv li root s' T xs \<and> pt_step T xs s T xs s' \<and>
    (\<forall>v. pte T s' v = (if \<exists>k < n. vpn v = vpn (va + of_nat k * PAGE_SIZE) then 0 else pte T s v))"
proof -
  have szal: "IS_PAGE_ALIGNED sz" using al(2) by (simp add: IS_PAGE_ALIGNED_iff)
  then have sz: "sz = of_nat n * PAGE_SIZE" by (rule aligned_size) (use al(2) in simp)
  have "\<And>k. k < n \<Longrightarrow> desc_is_valid (pte T s (va + of_nat k * PAGE_SIZE))"
    using mapped by (auto simp: range_mapped_def list_all_iff)
  with unmap_loop_spec [OF inv _ fits(2), of va] fits(1) al(2) obtain s' where
    "unmap_loop li root va (va + sz) s = Some (Inr s')" "pt_inv li root s' T xs"
    "\<forall>v. pte T s' v = (if \<exists>k < n. vpn v = vpn (va + of_nat k * PAGE_SIZE) then 0 else pte T s v)"
    "pt_step T xs s T xs s'" unfolding sz by auto
  then show ?thesis using al(1) szal by (auto simp: paging_unmap_def)
qed

text \<open>The output address of a mapped page, and the whole translation.\<close>

lemma output_address:
  assumes "IS_PAGE_ALIGNED pa" and "unat pa < 2 ^ 48"
  shows "PAGE_DESC_TO_PA (desc_address (page_descriptor attrs pa raw)) = pa"
proof -
  have "unat (drop_bit 12 pa) = unat pa div 4096" by (simp add: drop_bit_eq_div unat_div)
  moreover have "unat pa < 2 ^ 36 * 4096" using assms(2) by simp
  ultimately have "unat (drop_bit 12 pa) < 2 ^ 36" by (simp only: less_mult_imp_div_less)
  then have "unat (take_bit 36 (drop_bit 12 pa)) = unat (drop_bit 12 pa)" by (simp only: unat_take_bit mod_less)
  then have t: "take_bit 36 (drop_bit 12 pa) = drop_bit 12 pa" by (simp only: word_unat_eq_iff)
  have "unat (take_bit 12 pa) = 0" using assms(1) unat_take_bit [of 12 pa] by (simp add: IS_PAGE_ALIGNED_iff)
  then have "take_bit 12 pa = 0" by (simp add: unat_eq_zero)
  then show ?thesis using bits_ident [of 12 pa] by (simp add: PAGE_DESC_TO_PA_def page_descriptor_fields t)
qed

lemma lookup_valid:
  assumes inv: "pt_inv li root s T xs" and "desc_is_valid (pte T s va)"
  shows "paging_lookup li root va s =
    Inr (PAGE_DESC_TO_PA (desc_address (pte T s va)) OR (va AND (PAGE_SIZE - 1)), s)"
proof -
  have "T (vpath va) \<noteq> None" using assms(2) by (auto simp: pte_def leaf_def split: option.splits)
  then show ?thesis using paging_lookup_spec [OF inv, of va] by auto
qed

section \<open>A fresh table\<close>

lemma tree_ok_root:
  assumes "limine_hhdm li \<noteq> None" and "IS_PAGE_ALIGNED (hhdm li)" and "\<forall>y \<in> set (x # xs). page_ok li y"
    and "x \<notin> set xs"
  shows "tree_ok li x [[] \<mapsto> x] xs"
  using assms unfolding tree_ok_def by (auto split: if_splits)

lemma pt_inv_boot:
  assumes "limine_hhdm li \<noteq> None" and "IS_PAGE_ALIGNED (hhdm li)" and "\<forall>y \<in> set (x # xs). page_ok li y"
    and rep: "kmem_rep (mm_kmem s) (mm_mem s) (x # xs)" and c: "core_ok (Suc 0) (mm_core s)"
  shows "\<exists>s'. mm_alloc s = Inr (x, s') \<and> pt_inv li x s' [[] \<mapsto> x] xs \<and> (\<forall>v. pte [[] \<mapsto> x] s' v = 0)"
proof -
  obtain s' where s': "mm_alloc s = Inr (x, s')" "kmem_rep (mm_kmem s') (mm_mem s') xs" "core_ok (Suc 0) (mm_core s')"
    "\<forall>a. mm_mem s' a = (if in_region a x 4096 then 0 else mm_mem s a)"
    using mm_alloc_cons [OF rep c] by blast
  have x: "IS_PAGE_ALIGNED x" "x \<notin> set xs" using assms(3) rep by (simp_all add: page_ok_def kmem_rep_def)
  have "load64 (mm_mem s') (entry x i) = 0" if "i < 512" for i
    using x(1) that s'(4) by (intro load_entry_zero) auto
  then have "tables_ok li (mm_mem s') [[] \<mapsto> x]"
    by (auto simp: tables_ok_def table_entry_ok_def split: if_splits)
  then have "pt_inv li x s' [[] \<mapsto> x] xs"
    using tree_ok_root [OF assms(1-3) x(2)] s'(2,3) by (simp add: pt_inv_def)
  moreover have "pte [[] \<mapsto> x] s' v = 0" for v by (simp add: pte_def leaf_def vpath_def)
  ultimately show ?thesis using s'(1) by blast
qed

section \<open>Properties\<close>

definition demo_map :: limine where
  "demo_map = \<lparr>limine_memmap = Some [\<lparr>me_base = 0x1000, me_length = 0x5000, me_type = 0\<rparr>],
     limine_hhdm = Some 0xffff000000000000, limine_kernel_address = None\<rparr>"

definition demo_attrs :: page_attrs where
  "demo_attrs = \<lparr>pa_perms = EL1_READ_WRITE_EL0_NONE, pa_attr_index = ATTR_INDEX_NORMAL,
     pa_shareability = SHAREABLE_INNER_SHAREABLE, pa_privilege_execution = NOT_EXECUTABLE,
     pa_underprivilege_execution = NOT_EXECUTABLE\<rparr>"

lemma demo_tables:
  "\<exists>s T xs. pt_inv demo_map 0xffff000000005000 s T xs \<and> length xs = 4 \<and> (\<forall>v. pte T s v = 0) \<and>
    ran T \<union> set xs = {0xffff000000001000, 0xffff000000002000, 0xffff000000003000, 0xffff000000004000, 0xffff000000005000}"
proof -
  let ?off = "0xffff000000000000 :: usize" and ?es = "the (limine_memmap demo_map)"
  have pages: "usable_pages ?off ?es = [0xffff000000001000, 0xffff000000002000, 0xffff000000003000,
      0xffff000000004000, 0xffff000000005000]"
    by (simp add: demo_map_def usable_pages_def entry_pages_def range_pages_def
        LIMINE_MEMMAP_USABLE_def PAGE_SIZE_def upt_rec)
  have rest: "limine_memmap demo_map = Some ?es" "limine_hhdm demo_map = Some ?off" "IS_PAGE_ALIGNED ?off"
    "memmap_ok ?es" "km_free_list kmem_boot = nullptr" "core_ok (Suc 0) demo_cpu"
    by (simp_all add: demo_map_def memmap_ok_def IS_PAGE_ALIGNED_iff kmem_boot_def demo_cpu_ok)
  have d: "distinct (usable_pages ?off ?es @ [])" and z: "nullptr \<notin> set (usable_pages ?off ?es)"
    unfolding pages by simp_all
  have "kmem_rep kmem_boot (\<lambda>_. 1) []" by (simp add: kmem_rep_def kmem_boot_def lock_free_def)
  from kmem_free_entries [OF rest(2,3,4) this rest(6) d z] obtain k c m where
    r: "kmem_rep k m (rev (usable_pages ?off ?es))" "core_ok (Suc 0) c" by auto
  let ?s = "\<lparr>mm_kmem = k, mm_core = c, mm_mem = m\<rparr>"
  let ?xs = "[0xffff000000004000, 0xffff000000003000, 0xffff000000002000, 0xffff000000001000] :: ptr list"
  have off: "hhdm demo_map = ?off" by (simp add: hhdm_def rest(2))
  have "\<forall>y \<in> set (0xffff000000005000 # ?xs). page_ok demo_map y"
    by (simp add: page_ok_def off IS_PAGE_ALIGNED_iff)
  moreover have "kmem_rep (mm_kmem ?s) (mm_mem ?s) (0xffff000000005000 # ?xs)" using r(1) unfolding pages by simp
  ultimately obtain s' where "pt_inv demo_map 0xffff000000005000 s' [[] \<mapsto> 0xffff000000005000] ?xs"
    "\<forall>v. pte [[] \<mapsto> 0xffff000000005000] s' v = 0"
    using pt_inv_boot [of demo_map "0xffff000000005000" ?xs ?s] r(2) rest(2,3) off by auto
  then show ?thesis by (intro exI [of _ s'] exI [of _ "[[] \<mapsto> 0xffff000000005000]"] exI [of _ ?xs]) auto
qed

text \<open>
  C1.  Mapping a range.  With aligned address and size, no page of the range mapped yet and three
  free pages per page of the range for tables, \<open>paging_map\<close> returns \<open>EOK\<close>; the tables
  again spell a tree of distinct pages that are not free; and the leaf descriptors are as before
  except for the pages of the range, which have the descriptor with the requested attributes
  for their physical page.
\<close>

theorem paging_map_refines:
  assumes "pt_inv li root s T xs" and "IS_PAGE_ALIGNED va" and "unat sz = n * 4096"
    and "unat va + unat sz < 2 ^ 64" and "n \<le> 2 ^ 36" and "3 * n \<le> length xs"
    and "range_free (pte T s) va n"
  shows "\<exists>s' T' ys. paging_map li root va pa sz attrs s = Inr (errnum EOK, s') \<and> pt_inv li root s' T' ys \<and>
    (\<forall>v. pte T' s' v = range_pte attrs va pa n (pte T s) v)"
  using paging_map_spec [OF assms] by blast

theorem paging_map_refines_witness:
  "\<exists>s T xs s' T' ys. pt_inv demo_map 0xffff000000005000 s T xs \<and>
     paging_map demo_map 0xffff000000005000 0xffffffffa0000000 0x7000 0x1000 demo_attrs s = Inr (errnum EOK, s') \<and>
     pt_inv demo_map 0xffff000000005000 s' T' ys \<and>
     pte T' s' 0xffffffffa0000123 = page_descriptor demo_attrs 0x7000 0"
proof -
  obtain s T xs where s: "pt_inv demo_map 0xffff000000005000 s T xs" "length xs = 4" "\<forall>v. pte T s v = 0"
    using demo_tables by blast
  have h: "IS_PAGE_ALIGNED 0xffffffffa0000000" "unat (0x1000 :: usize) = 1 * 4096"
    "unat (0xffffffffa0000000 :: usize) + unat (0x1000 :: usize) < 2 ^ 64" "(1 :: nat) \<le> 2 ^ 36" "3 * 1 \<le> length xs"
    "range_free (pte T s) 0xffffffffa0000000 1"
    using s(2,3) by (simp_all add: IS_PAGE_ALIGNED_iff range_free_def)
  have "range_pte demo_attrs 0xffffffffa0000000 0x7000 1 (pte T s) 0xffffffffa0000123 = page_descriptor demo_attrs 0x7000 0"
    using range_pte_at [of 0 1 "0xffffffffa0000000" "0xffffffffa0000123" demo_attrs "0x7000" "pte T s"] by (simp add: vpn_def)
  then show ?thesis using paging_map_refines [OF s(1) h, of "0x7000" demo_attrs] s(1) by metis
qed

text \<open>
  Translation.  After mapping a range to an aligned physical range below \<open>2 ^ 48\<close>, looking
  up any address of its \<open>k\<close>-th page returns the physical address of that page with the page
  offset of the address, and changes nothing.
\<close>

lemma paging_lookup_after_map:
  assumes "pt_inv li root s T xs" and "IS_PAGE_ALIGNED va" and "unat sz = n * 4096"
    and "unat va + unat sz < 2 ^ 64" and "n \<le> 2 ^ 36" and "3 * n \<le> length xs"
    and "range_free (pte T s) va n" and "IS_PAGE_ALIGNED pa" and "unat pa + unat sz \<le> 2 ^ 48"
    and "k < n" and "vpn v = vpn (va + of_nat k * PAGE_SIZE)"
  shows "\<exists>s'. paging_map li root va pa sz attrs s = Inr (errnum EOK, s') \<and>
    paging_lookup li root v s' = Inr ((pa + of_nat k * PAGE_SIZE) OR (v AND (PAGE_SIZE - 1)), s')"
proof -
  obtain s' T' ys where m: "paging_map li root va pa sz attrs s = Inr (errnum EOK, s')" "pt_inv li root s' T' ys"
    "\<forall>v. pte T' s' v = range_pte attrs va pa n (pte T s) v"
    using paging_map_spec [OF assms(1-7)] by blast
  have "pte T' s' v = page_descriptor attrs (pa + of_nat k * PAGE_SIZE) 0"
    using m(3) range_pte_at [OF assms(10) _ assms(5,11)] assms(3,4) by simp
  moreover have u: "unat (pa + of_nat k * PAGE_SIZE) = unat pa + k * 4096"
    using assms(3,9,10) by (intro unat_page_step) simp
  moreover have "IS_PAGE_ALIGNED (pa + of_nat k * PAGE_SIZE)"
    using assms(8) u by (simp add: IS_PAGE_ALIGNED_iff)
  moreover have "unat (pa + of_nat k * PAGE_SIZE) < 2 ^ 48" using u assms(3,9,10) by simp
  ultimately show ?thesis
    using lookup_valid [OF m(2), of v] m(1) output_address by (simp add: page_descriptor_fields)
qed

text \<open>
  No silent remapping.  When the first page of the range is mapped already, \<open>paging_map\<close>
  panics; when it is not, unmapping panics; so that a mapping is neither overwritten nor
  removed twice.
\<close>

lemma paging_no_silent_remap:
  assumes "pt_inv li root s T xs" and "IS_PAGE_ALIGNED va" and "IS_PAGE_ALIGNED sz" and "va < va + sz"
    and "3 \<le> length xs"
  shows "if desc_is_valid (pte T s va)
    then paging_map li root va pa sz attrs s = Inl (Panic ''remaping an already existing page'')
    else \<exists>msg. paging_unmap li root va sz s = Inl (Panic msg)"
proof (cases "desc_is_valid (pte T s va)")
  case True
  then have "map_page li root attrs va pa s = Inl (Panic ''remaping an already existing page'')"
    using map_page_spec [OF assms(1,5), of va attrs pa] by simp
  then have "map_loop li root attrs va pa (va + sz) s = Some (Inl (Panic ''remaping an already existing page''))"
    using assms(4) by (subst map_loop.simps) simp
  then show ?thesis using True assms(2,3) by (simp add: paging_map_def)
next
  case False
  then obtain msg where "unmap_page li root va s = Inl (Panic msg)"
    using unmap_page_spec [OF assms(1), of va] by auto
  then have "unmap_loop li root va (va + sz) s = Some (Inl (Panic msg))"
    using assms(4) by (subst unmap_loop.simps) simp
  then show ?thesis using False assms(2,3) by (simp add: paging_unmap_def)
qed

text \<open>
  Unmapping undoes mapping: after \<open>paging_map\<close> and \<open>paging_unmap\<close> of the same
  range every leaf descriptor is the one it was before.
\<close>

lemma paging_map_unmap_roundtrip:
  assumes "pt_inv li root s T xs" and "IS_PAGE_ALIGNED va" and "unat sz = n * 4096"
    and "unat va + unat sz < 2 ^ 64" and "n \<le> 2 ^ 36" and "3 * n \<le> length xs"
    and "range_free (pte T s) va n"
  shows "\<exists>s1 s2 T' ys. paging_map li root va pa sz attrs s = Inr (errnum EOK, s1) \<and>
    paging_unmap li root va sz s1 = Inr s2 \<and> pt_inv li root s2 T' ys \<and> (\<forall>v. pte T' s2 v = pte T s v)"
proof -
  obtain s1 T' ys where m: "paging_map li root va pa sz attrs s = Inr (errnum EOK, s1)" "pt_inv li root s1 T' ys"
    "\<forall>v. pte T' s1 v = range_pte attrs va pa n (pte T s) v"
    using paging_map_spec [OF assms] by blast
  have top: "unat va + n * 4096 \<le> 2 ^ 64" using assms(3,4) by simp
  have "range_mapped (pte T' s1) va n"
    using m(3) range_pte_at [OF _ top assms(5)] by (auto simp: range_mapped_def list_all_iff page_descriptor_fields)
  then obtain s2 where u: "paging_unmap li root va sz s1 = Inr s2" "pt_inv li root s2 T' ys"
    "\<forall>v. pte T' s2 v = (if \<exists>k < n. vpn v = vpn (va + of_nat k * PAGE_SIZE) then 0 else pte T' s1 v)"
    using paging_unmap_spec [OF m(2) assms(2,3,4,5)] by blast
  have "pte T' s2 v = pte T s v" for v
  proof (cases "\<exists>k < n. vpn v = vpn (va + of_nat k * PAGE_SIZE)")
    case True
    then obtain k where k: "k < n" "vpn v = vpn (va + of_nat k * PAGE_SIZE)" by blast
    then have "pte T s v = pte T s (va + of_nat k * PAGE_SIZE)"
      using same_slot [of v "va + of_nat k * PAGE_SIZE"] by (simp add: pte_def)
    moreover have "\<not> desc_is_valid (pte T s (va + of_nat k * PAGE_SIZE))"
      using assms(7) k(1) by (auto simp: range_free_def list_all_iff)
    ultimately have "pte T s v = 0" using invalid_pte_zero [OF assms(1)] by metis
    with True u(3) show ?thesis by auto
  next
    case False
    then have "range_pte attrs va pa n (pte T s) v = pte T s v" by (intro range_pte_outside) auto
    with False u(3) m(3) show ?thesis by metis
  qed
  with m(1) u(1,2) show ?thesis by blast
qed

end
