(* ===== verification/Vmm.thy ===== *)
theory Vmm
  imports Vm_Region Paging
begin

text \<open>
  The virtual memory manager of \<open>kernel/mm/vmm.c\<close>: the kernel page table, the two regions of
  virtual addresses (kernel memory and device memory), and the operations that combine a region,
  the page allocator and the tables.

  Memory is indexed by virtual addresses.  The direct map is the part of it that the page
  allocator and the tables use; a fresh mapping made by \<open>vm_alloc\<close> shows the bytes of its
  physical page at the new address (\<open>show_page\<close>), and the code does not use the direct-map
  alias of a page while it is mapped.

  The invariant ties the three parts together: a page of a region is allocated in the bitmap
  exactly when the tables map it.
\<close>

section \<open>State and operations\<close>

datatype region_id = KernelMemRegion | MmioRegion

record vmm =
  vm_mm :: mm
  kernel_page_table :: ptr
  kernel_mem_region :: vm_region
  mmio_region :: vm_region
  ttbr1_el1 :: u64

fun region_of :: "region_id \<Rightarrow> vmm \<Rightarrow> vm_region" where
  "region_of KernelMemRegion v = kernel_mem_region v"
| "region_of MmioRegion v = mmio_region v"

fun set_region :: "region_id \<Rightarrow> vm_region \<Rightarrow> vmm \<Rightarrow> vmm" where
  "set_region KernelMemRegion r v = v\<lparr>kernel_mem_region := r\<rparr>"
| "set_region MmioRegion r v = v\<lparr>mmio_region := r\<rparr>"

text \<open>Calls of the components below, on the state they own.\<close>

definition vm_region_alloc :: "region_id \<Rightarrow> usize \<Rightarrow> vmm \<Rightarrow> kerror + ptr \<times> vmm" where
  "vm_region_alloc region n v =
     bindE (region_alloc (region_of region v) n (mm_core (vm_mm v)) (mm_mem (vm_mm v))) (\<lambda>(p, r, c, m).
     Inr (p, set_region region r (v\<lparr>vm_mm := (vm_mm v)\<lparr>mm_core := c, mm_mem := m\<rparr>\<rparr>)))"

definition vm_region_free :: "region_id \<Rightarrow> ptr \<Rightarrow> vmm \<Rightarrow> kerror + usize \<times> vmm" where
  "vm_region_free region p v =
     bindE (region_free (region_of region v) p (mm_core (vm_mm v)) (mm_mem (vm_mm v))) (\<lambda>(n, r, c, m).
     Inr (n, set_region region r (v\<lparr>vm_mm := (vm_mm v)\<lparr>mm_core := c, mm_mem := m\<rparr>\<rparr>)))"

definition on_mm :: "(mm \<Rightarrow> kerror + 'a \<times> mm) \<Rightarrow> vmm \<Rightarrow> kerror + 'a \<times> vmm" where
  "on_mm f v = bindE (f (vm_mm v)) (\<lambda>(a, s). Inr (a, v\<lparr>vm_mm := s\<rparr>))"

definition vm_set_kernel_page_table :: "limine \<Rightarrow> vmm \<Rightarrow> kerror + vmm" where
  "vm_set_kernel_page_table li v =
     bindE (paging_switch_kernel_table li (kernel_page_table v)) (\<lambda>t. Inr (v\<lparr>ttbr1_el1 := t\<rparr>))"

definition vm_init :: "limine \<Rightarrow> kernel_image \<Rightarrow> vmm \<Rightarrow> kerror + vmm" where
  "vm_init li img v =
     bindE (on_mm mm_alloc v) (\<lambda>(table, v).
     let v = v\<lparr>kernel_page_table := table\<rparr> in
     if IS_ERR (kernel_page_table v) then Inl (Panic ''could not allocate for kernel page table'')
     else
       let v = v\<lparr>vm_mm := (vm_mm v)\<lparr>mm_mem := memset (mm_mem (vm_mm v)) (kernel_page_table v) 0 PAGE_SIZE\<rparr>\<rparr> in
       bindE (paging_kernel_init li img (kernel_page_table v) (vm_mm v)) (\<lambda>s.
       bindE (vm_set_kernel_page_table li (v\<lparr>vm_mm := s\<rparr>)) (\<lambda>v.
       bindE (region_init (kernel_mem_region v) ''kernel heap region'' (mm_mem (vm_mm v))) (\<lambda>(r, m).
       let v = v\<lparr>kernel_mem_region := r, vm_mm := (vm_mm v)\<lparr>mm_mem := m\<rparr>\<rparr> in
       bindE (region_init (mmio_region v) ''mmio region'' (mm_mem (vm_mm v))) (\<lambda>(r, m).
       Inr (v\<lparr>mmio_region := r, vm_mm := (vm_mm v)\<lparr>mm_mem := m\<rparr>\<rparr>))))))"

definition vm_map :: "limine \<Rightarrow> usize \<Rightarrow> usize \<Rightarrow> region_id \<Rightarrow> page_attrs \<Rightarrow> vmm \<Rightarrow> kerror + ptr \<times> vmm" where
  "vm_map li pa sz region attrs v =
     (if \<not> IS_PAGE_ALIGNED sz then Inr (ERR_TO_PTR (- errnum EINVAL), v)
      else
        bindE (vm_region_alloc region (sz div PAGE_SIZE) v) (\<lambda>(va, v).
        bindE (on_mm (paging_map li (kernel_page_table v) va pa sz attrs) v) (\<lambda>(err, v).
        if errnum EOK \<noteq> err then Inr (ERR_TO_PTR err, v) else Inr (va, v))))"

definition mem_attrs :: page_attrs where
  "mem_attrs = \<lparr>pa_perms = EL1_READ_WRITE_EL0_NONE, pa_attr_index = ATTR_INDEX_NORMAL,
     pa_shareability = SHAREABLE_INNER_SHAREABLE, pa_privilege_execution = NOT_EXECUTABLE,
     pa_underprivilege_execution = NOT_EXECUTABLE\<rparr>"

definition mmio_attrs :: page_attrs where
  "mmio_attrs = \<lparr>pa_perms = EL1_READ_WRITE_EL0_NONE, pa_attr_index = ATTR_INDEX_DEVICE,
     pa_shareability = SHAREABLE_NON_SHAREABLE, pa_privilege_execution = NOT_EXECUTABLE,
     pa_underprivilege_execution = NOT_EXECUTABLE\<rparr>"

definition vm_mem_map :: "limine \<Rightarrow> usize \<Rightarrow> usize \<Rightarrow> vmm \<Rightarrow> kerror + ptr \<times> vmm" where
  "vm_mem_map li pa sz = vm_map li pa sz KernelMemRegion mem_attrs"

definition vm_mmio_map :: "limine \<Rightarrow> usize \<Rightarrow> usize \<Rightarrow> vmm \<Rightarrow> kerror + ptr \<times> vmm" where
  "vm_mmio_map li pa sz = vm_map li pa sz MmioRegion mmio_attrs"

definition vm_unmap :: "limine \<Rightarrow> ptr \<Rightarrow> usize \<Rightarrow> region_id \<Rightarrow> vmm \<Rightarrow> kerror + 64 word \<times> vmm" where
  "vm_unmap li va sz region v =
     (if \<not> IS_PAGE_ALIGNED sz then Inr (- errnum EINVAL, v)
      else
        bindE (vm_region_free region va v) (\<lambda>(_, v).
        bindE (paging_unmap li (kernel_page_table v) va sz (vm_mm v)) (\<lambda>s.
        Inr (errnum EOK, v\<lparr>vm_mm := s\<rparr>))))"

definition vm_mem_unmap :: "limine \<Rightarrow> ptr \<Rightarrow> usize \<Rightarrow> vmm \<Rightarrow> kerror + vmm" where
  "vm_mem_unmap li addr sz v = bindE (vm_unmap li addr sz KernelMemRegion v) (\<lambda>(_, v). Inr v)"

definition vm_mmio_unmap :: "limine \<Rightarrow> ptr \<Rightarrow> usize \<Rightarrow> vmm \<Rightarrow> kerror + vmm" where
  "vm_mmio_unmap li addr sz v = bindE (vm_unmap li addr sz MmioRegion v) (\<lambda>(_, v). Inr v)"

text \<open>The bytes of the page at \<open>p\<close> in the direct map appear at \<open>va\<close>.\<close>

definition show_page :: "ptr \<Rightarrow> ptr \<Rightarrow> mm \<Rightarrow> mm" where
  "show_page va p s = s\<lparr>mm_mem := (\<lambda>a. if in_region a va 4096 then mm_mem s (p + (a - va)) else mm_mem s a)\<rparr>"

fun vm_alloc_pages ::
  "limine \<Rightarrow> ptr \<Rightarrow> page_attrs \<Rightarrow> usize list \<Rightarrow> ptr \<Rightarrow> mm \<Rightarrow> kerror + 64 word \<times> mm" where
  "vm_alloc_pages li table attrs [] va s = Inr (errnum EOK, s)"
| "vm_alloc_pages li table attrs (page # pages) va s =
     bindE (mm_alloc s) (\<lambda>(pa_as_virt, s).
     if IS_ERR pa_as_virt then Inl (Panic ''ran out of physical memory'')
     else
       bindE (virt_to_phys li pa_as_virt) (\<lambda>pa.
       bindE (paging_map li table va pa PAGE_SIZE attrs s) (\<lambda>(err, s).
       if errnum EOK \<noteq> err then Inr (err, s)
       else vm_alloc_pages li table attrs pages (va + PAGE_SIZE) (show_page va pa_as_virt s))))"

definition vm_alloc :: "limine \<Rightarrow> usize \<Rightarrow> region_id \<Rightarrow> page_attrs \<Rightarrow> vmm \<Rightarrow> kerror + ptr \<times> vmm" where
  "vm_alloc li sz region attrs v =
     (let page_count = sz div PAGE_SIZE in
      bindE (vm_region_alloc region page_count v) (\<lambda>(start, v).
      if IS_ERR start then Inr (ERR_TO_PTR (- errnum ENOMEM), v)
      else
        bindE (on_mm (vm_alloc_pages li (kernel_page_table v) attrs (word_range 0 page_count) start) v) (\<lambda>(err, v).
        if errnum EOK \<noteq> err then Inr (ERR_TO_PTR err, v) else Inr (start, v))))"

definition vm_alloc_mem :: "limine \<Rightarrow> usize \<Rightarrow> vmm \<Rightarrow> kerror + ptr \<times> vmm" where
  "vm_alloc_mem li sz = vm_alloc li sz KernelMemRegion mem_attrs"

definition vm_alloc_mmio :: "limine \<Rightarrow> usize \<Rightarrow> vmm \<Rightarrow> kerror + ptr \<times> vmm" where
  "vm_alloc_mmio li sz = vm_alloc li sz MmioRegion mmio_attrs"

text \<open>
  The loop of \<open>vm_free\<close> reads the page count through the pointer to the table entry (here its
  index \<open>i\<close>) in every round.
\<close>

definition vm_free_page :: "limine \<Rightarrow> ptr \<Rightarrow> usize \<Rightarrow> region_id \<Rightarrow> vmm \<Rightarrow> kerror + vmm" where
  "vm_free_page li addr page region v =
     (let va = addr + page * PAGE_SIZE in
      bindE (on_mm (paging_lookup li (kernel_page_table v) va) v) (\<lambda>(pa, v).
      bindE (vm_unmap li va PAGE_SIZE region v) (\<lambda>(_, v).
      bindE (phys_to_virt li pa) (\<lambda>p.
      bindE (mm_free p (vm_mm v)) (\<lambda>s. Inr (v\<lparr>vm_mm := s\<rparr>))))))"

partial_function (option) vm_free_loop ::
  "limine \<Rightarrow> ptr \<Rightarrow> usize \<Rightarrow> usize \<Rightarrow> region_id \<Rightarrow> vmm \<Rightarrow> (kerror + vmm) option" where
  "vm_free_loop li addr i page region v =
     (if page < va_page_count (vr_allocations (region_of region v) ! unat i) then
        (case vm_free_page li addr page region v of
           Inl e \<Rightarrow> Some (Inl e)
         | Inr v \<Rightarrow> vm_free_loop li addr i (page + 1) region v)
      else Some (Inr v))"

definition vm_free :: "limine \<Rightarrow> ptr \<Rightarrow> region_id \<Rightarrow> vmm \<Rightarrow> kerror + vmm" where
  "vm_free li addr region v =
     bindE (region_find (region_of region v) addr) (\<lambda>allocation.
     case allocation of
       Inl _ \<Rightarrow> Inl (Panic ''trying to free non existent pages'')
     | Inr i \<Rightarrow>
       bindE (endsE (vm_free_loop li addr i 0 region v)) (\<lambda>r.
       bindE r (\<lambda>v.
       bindE (vm_region_free region addr v) (\<lambda>(_, v). Inr v))))"

definition vm_free_mem :: "limine \<Rightarrow> ptr \<Rightarrow> vmm \<Rightarrow> kerror + vmm" where
  "vm_free_mem li addr = vm_free li addr KernelMemRegion"

definition vm_free_mmio :: "limine \<Rightarrow> ptr \<Rightarrow> vmm \<Rightarrow> kerror + vmm" where
  "vm_free_mmio li addr = vm_free li addr MmioRegion"

section \<open>What the parts depend on\<close>

abbreviation page_bytes :: "ptr \<Rightarrow> ptr set" where
  "page_bytes p \<equiv> {a. in_region a p 4096}"

definition bitmap_bytes :: "alloc_bitmap \<Rightarrow> ptr set" where
  "bitmap_bytes a = {x. in_region x (bm_bitmap a) ((bm_count a + 7) div 8)}"

definition range_bytes :: "alloc_bitmap \<Rightarrow> ptr set" where
  "range_bytes a = {x. in_region x (bm_pool a) (bm_count a * 4096)}"

lemma bm_frame_bytes: "bm_frame a m m' \<longleftrightarrow> (\<forall>x. x \<notin> bitmap_bytes a \<longrightarrow> m' x = m x)"
  by (simp add: bm_frame_def bitmap_bytes_def)

lemma bm_pages_cong:
  assumes "\<And>x. x \<in> bitmap_bytes a \<Longrightarrow> m' x = m x"
  shows "bm_pages a m' = bm_pages a m"
proof -
  have "bm_get_page_allocated a m' (of_nat k) = bm_get_page_allocated a m (of_nat k)" if k: "k < bm_count a" for k
  proof -
    have "k < 2 ^ 64" using k unat_lt_u64 [of "bm_page_count a"] by linarith
    then have "unat (of_nat k div 8 :: 64 word) = k div 8" by (simp add: unat_div unat_of_nat_u64)
    moreover have "k div 8 < (bm_count a + 7) div 8" using k by linarith
    ultimately have "bm_bitmap a + of_nat k div 8 \<in> bitmap_bytes a"
      unfolding bitmap_bytes_def by (simp add: in_region_offset)
    then show ?thesis by (simp add: bm_get_page_allocated_def assms)
  qed
  then show ?thesis by (auto simp: bm_pages_eq)
qed

lemma region_inv_cong:
  assumes "region_inv r m" and "\<And>x. x \<in> bitmap_bytes (vr_allocator r) \<Longrightarrow> m' x = m x"
  shows "region_inv r m'"
proof -
  have eq: "bm_pages (vr_allocator r) m' = bm_pages (vr_allocator r) m" using assms(2) by (rule bm_pages_cong)
  show ?thesis using assms(1) unfolding region_inv_def eq .
qed

lemma load_entry_cong:
  assumes "IS_PAGE_ALIGNED p" and "i < 512" and "\<And>a. a \<in> page_bytes p \<Longrightarrow> m' a = m a"
  shows "load64 m' (entry p i) = load64 m (entry p i)"
  by (rule load64_cong) (use assms entry_in_page [OF assms(1,2)] in auto)

lemma tables_ok_cong:
  assumes tree: "tree_ok li root T xs" and "tables_ok li m T"
    and eq: "\<And>p a. p \<in> ran T \<Longrightarrow> a \<in> page_bytes p \<Longrightarrow> m' a = m a"
  shows "tables_ok li m' T" and "i < 512 \<Longrightarrow> leaf T m' P i = leaf T m P i"
proof -
  have ld: "load64 m' (entry p i) = load64 m (entry p i)" if "T P = Some p" "i < 512" for P p i
  proof (rule load_entry_cong [OF _ that(2)])
    show "IS_PAGE_ALIGNED p" using tree that(1) unfolding tree_ok_def page_ok_def by blast
    show "m' a = m a" if "a \<in> page_bytes p" for a using eq ranI [of T P p] \<open>T P = Some p\<close> that by blast
  qed
  show "tables_ok li m' T" unfolding tables_ok_def
  proof (intro allI impI)
    fix P p i assume P: "T P = Some p" and i: "i < (512 :: u64)"
    show "if length P < 3 then table_entry_ok li (load64 m' (entry p i)) (T (P @ [i]))
      else desc_is_valid (load64 m' (entry p i)) \<or> load64 m' (entry p i) = 0"
      unfolding ld [OF P i] using assms(2) P i unfolding tables_ok_def by blast
  qed
  show "leaf T m' P i = leaf T m P i" if "i < 512"
    using ld [of P _ i] that by (auto simp: leaf_def split: option.splits)
qed

text \<open>Tables and free pages are untouched when their pages keep their bytes.\<close>

lemma pt_inv_cong:
  assumes inv: "pt_inv li root s T xs" and "mm_kmem s' = mm_kmem s" and "irq_view (mm_core s') = irq_view (mm_core s)"
    and eq: "\<And>p a. p \<in> ran T \<union> set xs \<Longrightarrow> a \<in> page_bytes p \<Longrightarrow> mm_mem s' a = mm_mem s a"
  shows "pt_inv li root s' T xs" and "pte T s' va = pte T s va"
proof -
  have tree: "tree_ok li root T xs" and tabs: "tables_ok li (mm_mem s) T"
    using inv by (simp_all add: pt_inv_def)
  note tc = tables_ok_cong [OF tree tabs, of "mm_mem s'"]
  have "km_chain (mm_mem s') (km_free_list (mm_kmem s)) xs"
    by (rule km_chain_frame [of "mm_mem s"]) (use inv eq in \<open>auto simp: pt_inv_def kmem_rep_def\<close>)
  moreover have "tables_ok li (mm_mem s') T" using tc(1) eq by blast
  ultimately show "pt_inv li root s' T xs"
    using inv core_ok_view [OF assms(3), of "Suc 0"] assms(2) by (simp add: pt_inv_def kmem_rep_def)
  show "pte T s' va = pte T s va"
    unfolding pte_def by (rule tc(2)) (use eq in auto)
qed

text \<open>A page leaves the free list for use as data.\<close>

lemma take_data_page:
  assumes inv: "pt_inv li root s T (x # xs)"
  shows "\<exists>s'. mm_alloc s = Inr (x, s') \<and> pt_inv li root s' T xs \<and> page_ok li x \<and> x \<notin> ran T \<union> set xs \<and>
    virt_to_phys li x = Inr (x - hhdm li) \<and> (\<forall>va. pte T s' va = pte T s va) \<and>
    irq_view (mm_core s') = irq_view (mm_core s) \<and>
    (\<forall>a. mm_mem s' a = (if in_region a x 4096 then 0 else mm_mem s a))"
proof -
  have tree: "tree_ok li root T (x # xs)" and tabs: "tables_ok li (mm_mem s) T"
    and rep: "kmem_rep (mm_kmem s) (mm_mem s) (x # xs)" and c: "core_ok (Suc 0) (mm_core s)"
    using inv by (simp_all add: pt_inv_def)
  obtain s' where s': "mm_alloc s = Inr (x, s')" "kmem_rep (mm_kmem s') (mm_mem s') xs" "core_ok (Suc 0) (mm_core s')"
    "irq_view (mm_core s') = irq_view (mm_core s)"
    "\<forall>a. mm_mem s' a = (if in_region a x 4096 then 0 else mm_mem s a)"
    using mm_alloc_cons [OF rep c] by blast
  have x: "page_ok li x" "x \<notin> ran T" "x \<notin> set xs" "limine_hhdm li \<noteq> None"
    using tree rep by (auto simp: tree_ok_def kmem_rep_def ran_def)
  have eq: "mm_mem s' a = mm_mem s a" if p: "p \<in> ran T" and a: "a \<in> page_bytes p" for p a
  proof -
    have "IS_PAGE_ALIGNED p" using tree p unfolding tree_ok_def page_ok_def ran_def by blast
    moreover have "p \<noteq> x" using x(2) p by blast
    ultimately have "\<not> in_region a x 4096" using not_in_other_page [of p x a] x(1) a by (simp add: page_ok_def)
    then show ?thesis using s'(5) by simp
  qed
  note tc = tables_ok_cong(1) [OF tree tabs eq]
  have "tree_ok li root T xs" using tree unfolding tree_ok_def by auto
  with tc s'(2,3) have "pt_inv li root s' T xs" by (simp add: pt_inv_def)
  moreover have "pte T s' va = pte T s va" for va
    unfolding pte_def by (rule tables_ok_cong(2) [OF tree tabs eq]) auto
  moreover have "virt_to_phys li x = Inr (x - hhdm li)"
    using x(1,4) by (auto simp: virt_to_phys_def hhdm_def page_ok_def)
  ultimately show ?thesis using s'(1,4,5) x(1-3) by blast
qed

section \<open>Allocating and mapping pages\<close>

lemma region_head_tail:
  assumes "unat va + Suc n * 4096 < 2 ^ 64"
  shows "in_region a va (Suc n * 4096) \<longleftrightarrow> in_region a va 4096 \<or> in_region a (va + PAGE_SIZE) (n * 4096)"
    and "\<not> (in_region a va 4096 \<and> in_region a (va + PAGE_SIZE) (n * 4096))"
proof -
  have u: "unat (va + PAGE_SIZE) = unat va + 4096" using assms by (subst unat_add_u64) simp_all
  have 1: "in_region a va (Suc n * 4096) \<longleftrightarrow> unat va \<le> unat a \<and> unat a < unat va + Suc n * 4096"
    using assms by (intro in_region_iff) simp
  have 2: "in_region a va 4096 \<longleftrightarrow> unat va \<le> unat a \<and> unat a < unat va + 4096"
    using assms by (intro in_region_iff) simp
  have 3: "in_region a (va + PAGE_SIZE) (n * 4096) \<longleftrightarrow> unat va + 4096 \<le> unat a \<and> unat a < unat va + 4096 + n * 4096"
    using assms u by (subst in_region_iff) simp_all
  show "in_region a va (Suc n * 4096) \<longleftrightarrow> in_region a va 4096 \<or> in_region a (va + PAGE_SIZE) (n * 4096)"
    unfolding 1 2 3 by auto
  show "\<not> (in_region a va 4096 \<and> in_region a (va + PAGE_SIZE) (n * 4096))" unfolding 2 3 by auto
qed

lemma aligned_step: "IS_PAGE_ALIGNED va \<Longrightarrow> unat va + 4096 < 2 ^ 64 \<Longrightarrow> IS_PAGE_ALIGNED (va + PAGE_SIZE)"
  by (simp add: IS_PAGE_ALIGNED_iff unat_add_u64)

text \<open>One round of the loop: a zeroed page is mapped at \<open>va\<close> and shows up there.\<close>

lemma alloc_page_step:
  assumes inv: "pt_inv li root s T (x # xs)" and va: "IS_PAGE_ALIGNED va" "unat va + 4096 < 2 ^ 64"
    and room: "3 \<le> length xs" and fresh: "\<not> desc_is_valid (pte T s va)"
    and apart: "\<And>p. p \<in> ran T \<union> set (x # xs) \<Longrightarrow> page_bytes p \<inter> page_bytes va = {}"
  shows "\<exists>s' T' ys. (\<forall>pages. vm_alloc_pages li root attrs (page # pages) va s =
        vm_alloc_pages li root attrs pages (va + PAGE_SIZE) s') \<and>
      pt_inv li root s' T' ys \<and> length xs \<le> length ys + 3 \<and> set ys \<subseteq> set xs \<and> page_ok li x \<and>
      ran T' \<union> set ys = ran T \<union> set xs \<and> x \<notin> ran T \<union> set xs \<and>
      irq_view (mm_core s') = irq_view (mm_core s) \<and>
      (\<forall>v. pte T' s' v = (if vpn v = vpn va then page_descriptor attrs (x - hhdm li) 0 else pte T s v)) \<and>
      (\<forall>a \<in> page_bytes va. mm_mem s' a = 0) \<and>
      (\<forall>a. a \<notin> page_bytes va \<longrightarrow> (\<forall>p \<in> ran T \<union> set (x # xs). a \<notin> page_bytes p) \<longrightarrow> mm_mem s' a = mm_mem s a)"
proof -
  obtain s1 where s1: "mm_alloc s = Inr (x, s1)" "pt_inv li root s1 T xs" "page_ok li x" "x \<notin> ran T \<union> set xs"
    "virt_to_phys li x = Inr (x - hhdm li)" "\<forall>va. pte T s1 va = pte T s va"
    "irq_view (mm_core s1) = irq_view (mm_core s)"
    "\<forall>a. mm_mem s1 a = (if in_region a x 4096 then 0 else mm_mem s a)"
    using take_data_page [OF inv] by blast
  have "range_free (pte T s1) va 1" using fresh s1(6) by (simp add: range_free_def)
  with paging_map_spec [OF s1(2) va(1), of PAGE_SIZE 1 "x - hhdm li" attrs] va(2) room obtain s2 T' ys where
    s2: "paging_map li root va (x - hhdm li) PAGE_SIZE attrs s1 = Inr (errnum EOK, s2)" "pt_inv li root s2 T' ys"
      "length xs \<le> length ys + 3" "pt_step T xs s1 T' ys s2"
      "\<forall>v. pte T' s2 v = range_pte attrs va (x - hhdm li) 1 (pte T s1) v" by auto
  have st: "ran T' \<union> set ys = ran T \<union> set xs" "set ys \<subseteq> set xs" "irq_view (mm_core s2) = irq_view (mm_core s1)"
    "\<And>a. \<forall>p \<in> ran T \<union> set xs. \<not> in_region a p 4096 \<Longrightarrow> mm_mem s2 a = mm_mem s1 a"
    using s2(4) by (simp_all add: pt_step_def)
  let ?s = "show_page va x s2"
  have mem: "mm_mem ?s a = (if in_region a va 4096 then mm_mem s2 (x + (a - va)) else mm_mem s2 a)" for a
    by (simp add: show_page_def)
  have rest: "mm_kmem ?s = mm_kmem s2" "mm_core ?s = mm_core s2" by (simp_all add: show_page_def)
  have keep: "mm_mem ?s a = mm_mem s2 a" if "p \<in> ran T' \<union> set ys" "a \<in> page_bytes p" for p a
    using apart [of p] that st(1) mem [of a] by auto
  have "irq_view (mm_core ?s) = irq_view (mm_core s2)" using rest(2) by simp
  note cong = pt_inv_cong [OF s2(2) rest(1) this keep]
  have pte': "pte T' ?s v = (if vpn v = vpn va then page_descriptor attrs (x - hhdm li) 0 else pte T s v)" for v
    using cong(2) [where va = v] s2(5) s1(6) by (simp add: range_pte_def)
  have zero: "mm_mem ?s a = 0" if a: "a \<in> page_bytes va" for a
  proof -
    have in_x: "in_region (x + (a - va)) x 4096" using a by (simp add: in_region_def)
    have "\<not> in_region (x + (a - va)) p 4096" if p: "p \<in> ran T \<union> set xs" for p
    proof -
      have "IS_PAGE_ALIGNED p" using s1(2) p unfolding pt_inv_def tree_ok_def page_ok_def ran_def by blast
      moreover have "x \<noteq> p" using s1(4) p by blast
      ultimately show ?thesis using not_in_other_page [of x p] s1(3) in_x by (simp add: page_ok_def)
    qed
    then have "mm_mem s2 (x + (a - va)) = mm_mem s1 (x + (a - va))" by (intro st(4)) blast
    then show ?thesis using mem [of a] a in_x s1(8) by simp
  qed
  have out: "mm_mem ?s a = mm_mem s a"
    if "a \<notin> page_bytes va" "\<forall>p \<in> ran T \<union> set (x # xs). a \<notin> page_bytes p" for a
    using that st(4) [of a] s1(8) mem [of a] by simp
  have "vm_alloc_pages li root attrs (page # pages) va s = vm_alloc_pages li root attrs pages (va + PAGE_SIZE) ?s" for pages
    using s1(1,3,5) s2(1) not_IS_ERR_aligned [of x] by (simp add: page_ok_def)
  then show ?thesis
    using cong(1) s2(3) st(1-3) s1(3,4,7) pte' zero out rest(2)
    by (intro exI [of _ ?s] exI [of _ T'] exI [of _ ys]) simp
qed

text \<open>
  The effect of mapping fresh pages at \<open>n\<close> pages from \<open>va\<close> on: \<open>ps\<close> are the pages of the
  free list that end up mapped there, in order; they are neither tables nor free any more; their
  bytes are zero; other translations and other memory stay.
\<close>

definition pages_mapped ::
  "limine \<Rightarrow> page_attrs \<Rightarrow> ptr \<Rightarrow> nat \<Rightarrow> tree \<Rightarrow> ptr list \<Rightarrow> mm \<Rightarrow> tree \<Rightarrow> ptr list \<Rightarrow> ptr list \<Rightarrow> mm \<Rightarrow> bool" where
  "pages_mapped li attrs va n T xs s T' ys ps s' \<longleftrightarrow>
     ran T' \<union> set ys \<subseteq> ran T \<union> set xs \<and> length xs \<le> length ys + 4 * n \<and>
     length ps = n \<and> distinct ps \<and> set ps \<subseteq> set xs \<and> set ps \<inter> (ran T' \<union> set ys) = {} \<and>
     list_all (page_ok li) ps \<and> irq_view (mm_core s') = irq_view (mm_core s) \<and>
     (\<forall>k < n. \<forall>v. vpn v = vpn (va + of_nat k * PAGE_SIZE) \<longrightarrow>
        pte T' s' v = page_descriptor attrs (ps ! k - hhdm li) 0) \<and>
     (\<forall>v. (\<forall>k < n. vpn v \<noteq> vpn (va + of_nat k * PAGE_SIZE)) \<longrightarrow> pte T' s' v = pte T s v) \<and>
     (\<forall>a. in_region a va (n * 4096) \<longrightarrow> mm_mem s' a = 0) \<and>
     (\<forall>a. \<not> in_region a va (n * 4096) \<longrightarrow> (\<forall>p \<in> ran T \<union> set xs. a \<notin> page_bytes p) \<longrightarrow>
        mm_mem s' a = mm_mem s a)"

lemma pages_mapped_Nil: "pages_mapped li attrs va 0 T xs s T xs [] s"
  by (simp add: pages_mapped_def in_region_def)

lemma alloc_pages_spec:
  assumes "pt_inv li root s T xs" and "IS_PAGE_ALIGNED va" and "unat va + length pages * 4096 < 2 ^ 64"
    and "length pages \<le> 2 ^ 36" and "4 * length pages \<le> length xs"
    and "\<And>k. k < length pages \<Longrightarrow> \<not> desc_is_valid (pte T s (va + of_nat k * PAGE_SIZE))"
    and "\<And>p a. p \<in> ran T \<union> set xs \<Longrightarrow> a \<in> page_bytes p \<Longrightarrow> \<not> in_region a va (length pages * 4096)"
  shows "\<exists>s' T' ys ps. vm_alloc_pages li root attrs pages va s = Inr (errnum EOK, s') \<and>
      pt_inv li root s' T' ys \<and> pages_mapped li attrs va (length pages) T xs s T' ys ps s'"
  using assms
proof (induction pages arbitrary: va s T xs)
  case Nil
  show ?case
    by (rule exI [of _ s], rule exI [of _ T], rule exI [of _ xs], rule exI [of _ "[]"])
       (use Nil.prems(1) pages_mapped_Nil in simp)
next
  case (Cons page pages)
  let ?n = "length pages"
  have bound: "unat va + Suc ?n * 4096 < 2 ^ 64" using Cons.prems(3) by simp
  note split = region_head_tail [OF bound]
  obtain x xs' where xs: "xs = x # xs'" using Cons.prems(5) by (cases xs) auto
  have va: "unat va + 4096 < 2 ^ 64" using bound by simp
  have room: "3 \<le> length xs'" using Cons.prems(5) xs by simp
  have fresh: "\<not> desc_is_valid (pte T s va)" using Cons.prems(6) [of 0] by simp
  have apart: "page_bytes p \<inter> page_bytes va = {}" if "p \<in> ran T \<union> set (x # xs')" for p
    using Cons.prems(7) [of p] that split(1) unfolding xs by auto
  obtain s1 T1 ys1 where 1: "vm_alloc_pages li root attrs (page # pages) va s =
        vm_alloc_pages li root attrs pages (va + PAGE_SIZE) s1"
      "pt_inv li root s1 T1 ys1" "length xs' \<le> length ys1 + 3" "set ys1 \<subseteq> set xs'" "page_ok li x"
      "ran T1 \<union> set ys1 = ran T \<union> set xs'" "x \<notin> ran T \<union> set xs'"
      "irq_view (mm_core s1) = irq_view (mm_core s)"
      "\<forall>v. pte T1 s1 v = (if vpn v = vpn va then page_descriptor attrs (x - hhdm li) 0 else pte T s v)"
      "\<forall>a \<in> page_bytes va. mm_mem s1 a = 0"
      "\<forall>a. a \<notin> page_bytes va \<longrightarrow> (\<forall>p \<in> ran T \<union> set (x # xs'). a \<notin> page_bytes p) \<longrightarrow> mm_mem s1 a = mm_mem s a"
    using alloc_page_step [OF Cons.prems(1) [unfolded xs] Cons.prems(2) va room fresh apart, of attrs page] by blast
  have u1: "unat (va + PAGE_SIZE) = unat va + 4096" using va by (subst unat_add_u64) simp_all
  have others: "vpn (va + PAGE_SIZE + of_nat k * PAGE_SIZE) \<noteq> vpn va" if "k < ?n" for k
    using vpn_step_inj [of va "Suc k" 0] that bound Cons.prems(4) unfolding page_step_Suc by fastforce
  have nv: "\<not> desc_is_valid (pte T1 s1 (va + PAGE_SIZE + of_nat k * PAGE_SIZE))" if "k < ?n" for k
    using 1(9) others [OF that] Cons.prems(6) [of "Suc k"] that unfolding page_step_Suc by simp
  have ap: "\<not> in_region a (va + PAGE_SIZE) (?n * 4096)" if "p \<in> ran T1 \<union> set ys1" "a \<in> page_bytes p" for p a
    using Cons.prems(7) [of p a] that 1(6) split(1) [of a] xs by auto
  have bounds: "unat (va + PAGE_SIZE) + ?n * 4096 < 2 ^ 64" "?n \<le> 2 ^ 36" "4 * ?n \<le> length ys1"
    using bound u1 Cons.prems(4,5) 1(3) xs by simp_all
  have "\<exists>s' T' ys ps. vm_alloc_pages li root attrs pages (va + PAGE_SIZE) s1 = Inr (errnum EOK, s') \<and>
      pt_inv li root s' T' ys \<and> pages_mapped li attrs (va + PAGE_SIZE) ?n T1 ys1 s1 T' ys ps s'"
    by (rule Cons.IH [OF 1(2) aligned_step [OF Cons.prems(2) va] bounds]) (use nv ap in blast)+
  then obtain s' T' ys ps where
    2: "vm_alloc_pages li root attrs pages (va + PAGE_SIZE) s1 = Inr (errnum EOK, s')"
      "pt_inv li root s' T' ys" "ran T' \<union> set ys \<subseteq> ran T1 \<union> set ys1"
      "length ps = ?n" "distinct ps" "set ps \<subseteq> set ys1" "set ps \<inter> (ran T' \<union> set ys) = {}"
      "list_all (page_ok li) ps" "irq_view (mm_core s') = irq_view (mm_core s1)"
      "\<And>k v. k < ?n \<Longrightarrow> vpn v = vpn (va + PAGE_SIZE + of_nat k * PAGE_SIZE) \<Longrightarrow>
         pte T' s' v = page_descriptor attrs (ps ! k - hhdm li) 0"
      "\<And>v. (\<forall>k < ?n. vpn v \<noteq> vpn (va + PAGE_SIZE + of_nat k * PAGE_SIZE)) \<Longrightarrow> pte T' s' v = pte T1 s1 v"
      "\<And>a. in_region a (va + PAGE_SIZE) (?n * 4096) \<Longrightarrow> mm_mem s' a = 0"
      "\<And>a. \<not> in_region a (va + PAGE_SIZE) (?n * 4096) \<Longrightarrow> \<forall>p \<in> ran T1 \<union> set ys1. a \<notin> page_bytes p \<Longrightarrow>
         mm_mem s' a = mm_mem s1 a"
      "length ys1 \<le> length ys + 4 * ?n"
    unfolding pages_mapped_def by blast
  have sub: "ran T' \<union> set ys \<subseteq> ran T \<union> set xs" "x \<notin> ran T' \<union> set ys" using 2(3) 1(6,7) xs by auto
  have ps: "distinct (x # ps)" "set (x # ps) \<subseteq> set xs" "set (x # ps) \<inter> (ran T' \<union> set ys) = {}"
    using 2(5-7) 1(4,7) sub(2) xs by auto
  have pte_at: "pte T' s' v = page_descriptor attrs ((x # ps) ! k - hhdm li) 0"
    if k: "k < Suc ?n" "vpn v = vpn (va + of_nat k * PAGE_SIZE)" for k v
  proof (cases k)
    case 0
    then have "vpn v = vpn va" using k(2) by simp
    then have "pte T' s' v = pte T1 s1 v" using others by (intro 2(11)) metis
    then show ?thesis using 1(9) 0 k(2) by simp
  next
    case (Suc j)
    then show ?thesis using 2(10) [of j v] k unfolding page_step_Suc by simp
  qed
  have pte_out: "pte T' s' v = pte T s v" if v: "\<forall>k < Suc ?n. vpn v \<noteq> vpn (va + of_nat k * PAGE_SIZE)" for v
  proof -
    have "vpn v \<noteq> vpn va" using v [rule_format, of 0] by simp
    moreover have "\<forall>k < ?n. vpn v \<noteq> vpn (va + PAGE_SIZE + of_nat k * PAGE_SIZE)"
      using v unfolding page_step_Suc by blast
    ultimately show ?thesis using 2(11) [of v] 1(9) by simp
  qed
  have zero: "mm_mem s' a = 0" if a: "in_region a va (Suc ?n * 4096)" for a
  proof (cases "in_region a (va + PAGE_SIZE) (?n * 4096)")
    case False
    then have h: "a \<in> page_bytes va" using a split(1) by simp
    then have "\<forall>p \<in> ran T1 \<union> set ys1. a \<notin> page_bytes p" using apart unfolding 1(6) by auto
    then show ?thesis using 2(13) [OF False] 1(10) h by simp
  qed (rule 2(12))
  have out: "mm_mem s' a = mm_mem s a"
    if a: "\<not> in_region a va (Suc ?n * 4096)" "\<forall>p \<in> ran T \<union> set xs. a \<notin> page_bytes p" for a
  proof -
    have "a \<notin> page_bytes va" "\<not> in_region a (va + PAGE_SIZE) (?n * 4096)" using a(1) split(1) [of a] by auto
    moreover have "\<forall>p \<in> ran T1 \<union> set ys1. a \<notin> page_bytes p" using a(2) unfolding 1(6) xs by simp
    ultimately show ?thesis using 2(13) [of a] 1(11) a(2) unfolding xs by simp
  qed
  have "pages_mapped li attrs va (length (page # pages)) T xs s T' ys (x # ps) s'"
    unfolding pages_mapped_def length_Cons
  proof (intro conjI allI impI)
    show "irq_view (mm_core s') = irq_view (mm_core s)" using 2(9) 1(8) by simp
    show "Suc (length ps) = Suc ?n" using 2(4) by simp
    show "length xs \<le> length ys + 4 * Suc ?n" using 2(14) 1(3) xs by simp
    show "list_all (page_ok li) (x # ps)" using 2(8) 1(5) by simp
  qed (use sub(1) ps pte_at pte_out zero out in \<open>(assumption | blast)+\<close>)
  with 1(1) 2(1,2) show ?case by (metis (no_types))
qed

section \<open>The invariant\<close>

definition regions_apart :: "ptr set \<Rightarrow> vmm \<Rightarrow> bool" where
  "regions_apart S v \<longleftrightarrow> (\<forall>i. let a = vr_allocator (region_of i v) in
     bm_count a \<le> 2 ^ 36 \<and>
     (\<forall>p \<in> S. page_bytes p \<inter> (bitmap_bytes a \<union> range_bytes a) = {}) \<and>
     (\<forall>j. let b = vr_allocator (region_of j v) in
        range_bytes a \<inter> bitmap_bytes b = {} \<and>
        (i \<noteq> j \<longrightarrow> bitmap_bytes a \<inter> bitmap_bytes b = {} \<and>
           (\<forall>k < bm_count a. \<forall>l < bm_count b. vpn (bm_addr a k) \<noteq> vpn (bm_addr b l)))))"

definition mapped_iff_used :: "vm_region \<Rightarrow> tree \<Rightarrow> mm \<Rightarrow> bool" where
  "mapped_iff_used r T s \<longleftrightarrow> (\<forall>k < bm_count (vr_allocator r).
     desc_is_valid (pte T s (bm_addr (vr_allocator r) k)) \<longleftrightarrow> k \<in> bm_pages (vr_allocator r) (mm_mem s))"

definition vmm_inv :: "limine \<Rightarrow> vmm \<Rightarrow> tree \<Rightarrow> ptr list \<Rightarrow> bool" where
  "vmm_inv li v T xs \<longleftrightarrow> pt_inv li (kernel_page_table v) (vm_mm v) T xs \<and>
     (\<forall>i. region_inv (region_of i v) (mm_mem (vm_mm v)) \<and> mapped_iff_used (region_of i v) T (vm_mm v)) \<and>
     regions_apart (ran T \<union> set xs) v"

lemma regions_apart_mono: "regions_apart S v \<Longrightarrow> S' \<subseteq> S \<Longrightarrow> regions_apart S' v"
  unfolding regions_apart_def Let_def by blast

lemma regions_apart_same:
  "(\<And>i. vr_allocator (region_of i v') = vr_allocator (region_of i v)) \<Longrightarrow> regions_apart S v' = regions_apart S v"
  by (simp add: regions_apart_def)

lemma region_of_set_region [simp]:
  "region_of i (set_region j r v) = (if i = j then r else region_of i v)"
  "region_of i (v\<lparr>vm_mm := s\<rparr>) = region_of i v"
  "vm_mm (set_region j r v) = vm_mm v" "kernel_page_table (set_region j r v) = kernel_page_table v"
  by (cases i; cases j; simp)+

lemma bm_addr_step: "bm_addr a (k + j) = bm_addr a k + of_nat j * PAGE_SIZE"
  by (simp add: bm_addr_def bm_page_to_addr_def algebra_simps)

lemma bm_addr_range:
  assumes "bm_inv a" and "k + n \<le> bm_count a" and "0 < n"
  shows "IS_PAGE_ALIGNED (bm_addr a k)" and "unat (bm_addr a k) + n * 4096 < 2 ^ 64"
    and "in_region x (bm_addr a k) (n * 4096) \<Longrightarrow> x \<in> range_bytes a"
proof -
  have k: "k < bm_count a" using assms by simp
  have u: "unat (bm_addr a k) = unat (bm_pool a) + k * 4096" by (rule unat_bm_addr [OF assms(1) k])
  have b: "unat (bm_pool a) + bm_count a * 4096 < 2 ^ 64" "(k + n) * 4096 \<le> bm_count a * 4096"
    using assms by (simp_all add: bm_inv_def del: add_mult_distrib)
  show "IS_PAGE_ALIGNED (bm_addr a k)" using assms(1) u by (simp add: bm_inv_def IS_PAGE_ALIGNED_iff)
  show 1: "unat (bm_addr a k) + n * 4096 < 2 ^ 64" using u b by simp
  assume "in_region x (bm_addr a k) (n * 4096)"
  then have "unat (bm_addr a k) \<le> unat x" "unat x < unat (bm_addr a k) + n * 4096"
    using 1 by (simp_all add: in_region_iff)
  then show "x \<in> range_bytes a" unfolding range_bytes_def using u b by (simp add: in_region_iff)
qed

lemma vmm_invD:
  assumes "vmm_inv li v T xs"
  shows "pt_inv li (kernel_page_table v) (vm_mm v) T xs" and "region_inv (region_of i v) (mm_mem (vm_mm v))"
    and "mapped_iff_used (region_of i v) T (vm_mm v)" and "regions_apart (ran T \<union> set xs) v"
    and "core_ok (Suc 0) (mm_core (vm_mm v))" and "bm_inv (vr_allocator (region_of i v))"
  using assms by (simp_all add: vmm_inv_def pt_inv_def region_inv_def)

lemma regions_apartD:
  assumes "regions_apart S v"
  shows "bm_count (vr_allocator (region_of i v)) \<le> 2 ^ 36"
    and "p \<in> S \<Longrightarrow> x \<in> page_bytes p \<Longrightarrow>
      x \<notin> bitmap_bytes (vr_allocator (region_of i v)) \<and> x \<notin> range_bytes (vr_allocator (region_of i v))"
    and "x \<in> range_bytes (vr_allocator (region_of i v)) \<Longrightarrow> x \<notin> bitmap_bytes (vr_allocator (region_of j v))"
    and "i \<noteq> j \<Longrightarrow> x \<in> bitmap_bytes (vr_allocator (region_of i v)) \<Longrightarrow> x \<notin> bitmap_bytes (vr_allocator (region_of j v))"
    and "i \<noteq> j \<Longrightarrow> k < bm_count (vr_allocator (region_of i v)) \<Longrightarrow> l < bm_count (vr_allocator (region_of j v)) \<Longrightarrow>
      vpn (bm_addr (vr_allocator (region_of i v)) k) \<noteq> vpn (bm_addr (vr_allocator (region_of j v)) l)"
  using assms unfolding regions_apart_def Let_def by blast+

text \<open>Page numbers within a region differ, too.\<close>

lemma vpn_bm_addr_inj:
  assumes inv: "vmm_inv li v T xs" and "k < bm_count (vr_allocator (region_of i v))"
    and "l < bm_count (vr_allocator (region_of i v))" and "k \<noteq> l"
  shows "vpn (bm_addr (vr_allocator (region_of i v)) k) \<noteq> vpn (bm_addr (vr_allocator (region_of i v)) l)"
proof -
  let ?a = "vr_allocator (region_of i v)"
  have a: "bm_inv ?a" "bm_count ?a \<le> 2 ^ 36" using vmm_invD [OF inv] regions_apartD(1) by blast+
  have base: "bm_addr ?a m = bm_addr ?a 0 + of_nat m * PAGE_SIZE" for m using bm_addr_step [of ?a 0 m] by simp
  have u0: "unat (bm_addr ?a 0) = unat (bm_pool ?a)" using unat_bm_addr [OF a(1), of 0] a(1) by (simp add: bm_inv_def)
  have main: "vpn (bm_addr ?a m) \<noteq> vpn (bm_addr ?a n)" if "m < n" "n < bm_count ?a" for m n
  proof -
    have "n * 4096 < bm_count ?a * 4096" using that by simp
    then have "unat (bm_addr ?a 0) + n * 4096 < 2 ^ 64" "n < 2 ^ 36"
      using u0 a that by (simp_all add: bm_inv_def)
    then show ?thesis using vpn_step_inj [of "bm_addr ?a 0" n m] that(1) base by metis
  qed
  show ?thesis using main [of k l] main [of l k] assms(2-4) by (metis linorder_neqE_nat)
qed

text \<open>
  Taking pages \<open>k\<close> to \<open>k + n\<close> of one region: afterwards nothing but the bitmap and the table of
  that region has changed, and the new pages are not mapped yet.
\<close>

definition pages_taken :: "limine \<Rightarrow> vmm \<Rightarrow> tree \<Rightarrow> ptr list \<Rightarrow> region_id \<Rightarrow> nat \<Rightarrow> nat \<Rightarrow> vmm \<Rightarrow> bool" where
  "pages_taken li v T xs i n k v1 \<longleftrightarrow> (let a = vr_allocator (region_of i v) in
     (\<forall>j. vr_allocator (region_of j v1) = vr_allocator (region_of j v)) \<and>
     (\<forall>j. j \<noteq> i \<longrightarrow> region_of j v1 = region_of j v) \<and>
     region_live (region_of i v1) = insert (bm_addr a k, of_nat n) (region_live (region_of i v)) \<and>
     free_slots (region_of i v) = Suc (free_slots (region_of i v1)) \<and> bm_run a (mm_mem (vm_mm v)) n k \<and>
     bm_pages a (mm_mem (vm_mm v1)) = bm_pages a (mm_mem (vm_mm v)) \<union> {k..<k + n} \<and>
     bm_frame a (mm_mem (vm_mm v)) (mm_mem (vm_mm v1)) \<and>
     (\<forall>j. region_inv (region_of j v1) (mm_mem (vm_mm v1))) \<and>
     pt_inv li (kernel_page_table v) (vm_mm v1) T xs \<and> (\<forall>va. pte T (vm_mm v1) va = pte T (vm_mm v) va) \<and>
     kernel_page_table v1 = kernel_page_table v \<and> irq_view (mm_core (vm_mm v1)) = irq_view (mm_core (vm_mm v)))"

lemma vm_region_alloc_spec:
  assumes inv: "vmm_inv li v T xs" and n: "0 < n"
  shows "vm_region_alloc i n v =
      Inr (ERR_TO_PTR (- errnum ENOMEM), v\<lparr>vm_mm := (vm_mm v)\<lparr>mm_core := irq_cycle (mm_core (vm_mm v))\<rparr>\<rparr>) \<and>
      region_exhausted (region_of i v) (mm_mem (vm_mm v)) (unat n) \<or>
    (\<exists>k v1. vm_region_alloc i n v = Inr (bm_addr (vr_allocator (region_of i v)) k, v1) \<and>
      pages_taken li v T xs i (unat n) k v1)"
proof -
  let ?r = "region_of i v" and ?c = "mm_core (vm_mm v)" and ?m = "mm_mem (vm_mm v)"
  note vd = vmm_invD [OF inv]
  note ap = regions_apartD [OF vd(4)]
  from region_alloc_pages [OF vd(2) [of i] vd(5) n] show ?thesis
  proof (elim disjE exE conjE)
    assume "region_alloc ?r n ?c ?m = Inr (ERR_TO_PTR (- errnum ENOMEM), ?r, irq_cycle ?c, ?m)"
      "region_exhausted ?r ?m (unat n)"
    moreover have "set_region i ?r (v\<lparr>vm_mm := s\<rparr>) = v\<lparr>vm_mm := s\<rparr>" for s by (cases i) simp_all
    ultimately show ?thesis by (simp add: vm_region_alloc_def)
  next
    fix k r' m'
    assume k: "region_alloc ?r n ?c ?m = Inr (bm_addr (vr_allocator ?r) k, r', irq_cycle ?c, m')" "region_inv r' m'"
      "vr_allocator r' = vr_allocator ?r" "bm_run (vr_allocator ?r) ?m (unat n) k" "bm_frame (vr_allocator ?r) ?m m'"
      "bm_pages (vr_allocator ?r) m' = bm_pages (vr_allocator ?r) ?m \<union> {k..<k + unat n}"
      "region_live r' = insert (bm_addr (vr_allocator ?r) k, n) (region_live ?r)" "free_slots ?r = Suc (free_slots r')"
    let ?s = "(vm_mm v)\<lparr>mm_core := irq_cycle ?c, mm_mem := m'\<rparr>"
    let ?v = "set_region i r' (v\<lparr>vm_mm := ?s\<rparr>)"
    have out: "m' x = ?m x" if "x \<notin> bitmap_bytes (vr_allocator ?r)" for x
      using k(5) that by (simp add: bm_frame_bytes)
    have view: "irq_view (irq_cycle ?c) = irq_view ?c" by (rule pop_push_cycle(2) [OF vd(5)])
    have same: "mm_mem ?s x = mm_mem (vm_mm v) x" if "p \<in> ran T \<union> set xs" "x \<in> page_bytes p" for p x
      using out [of x] ap(2) [OF that, of i] by simp
    have cong: "pt_inv li (kernel_page_table v) ?s T xs" "\<And>va. pte T ?s va = pte T (vm_mm v) va"
      by (rule pt_inv_cong [OF vd(1)]; use view same in simp)+
    have others: "region_inv (region_of j v) m'" if "j \<noteq> i" for j
      by (rule region_inv_cong [OF vd(2)]) (use out ap(4) [OF that] in blast)
    have "pages_taken li v T xs i (unat n) k ?v"
      unfolding pages_taken_def Let_def using k cong others view by simp
    moreover have "vm_region_alloc i n v = Inr (bm_addr (vr_allocator ?r) k, ?v)"
      using k(1) by (simp add: vm_region_alloc_def)
    ultimately show ?thesis by blast
  qed
qed

lemma pages_takenD:
  assumes "vmm_inv li v T xs" and "pages_taken li v T xs i n k v1" and "0 < n"
  defines "a \<equiv> vr_allocator (region_of i v)"
  shows "k + n \<le> bm_count a" and "n \<le> 2 ^ 36" and "IS_PAGE_ALIGNED (bm_addr a k)" and "unat (bm_addr a k) + n * 4096 < 2 ^ 64"
    and "in_region x (bm_addr a k) (n * 4096) \<Longrightarrow> x \<in> range_bytes a"
    and "p \<in> ran T \<union> set xs \<Longrightarrow> x \<in> page_bytes p \<Longrightarrow> \<not> in_region x (bm_addr a k) (n * 4096)"
    and "l < n \<Longrightarrow> \<not> desc_is_valid (pte T (vm_mm v1) (bm_addr a k + of_nat l * PAGE_SIZE))"
proof -
  note vd = vmm_invD [OF assms(1)]
  note ap = regions_apartD [OF vd(4)]
  have a: "bm_inv a" "bm_count a \<le> 2 ^ 36" using vd(6) ap(1) by (simp_all add: a_def)
  show run: "k + n \<le> bm_count a" using assms(2) by (simp add: pages_taken_def Let_def bm_run_def a_def)
  then show "n \<le> 2 ^ 36" using a(2) by simp
  note addr = bm_addr_range [OF a(1) run assms(3)]
  show "IS_PAGE_ALIGNED (bm_addr a k)" "unat (bm_addr a k) + n * 4096 < 2 ^ 64" by (rule addr)+
  show in_range: "x \<in> range_bytes a" if "in_region x (bm_addr a k) (n * 4096)" for x using that by (rule addr(3))
  show "\<not> in_region x (bm_addr a k) (n * 4096)" if "p \<in> ran T \<union> set xs" "x \<in> page_bytes p"
    using ap(2) [OF that, of i] in_range [of x] by (auto simp: a_def)
  show "\<not> desc_is_valid (pte T (vm_mm v1) (bm_addr a k + of_nat l * PAGE_SIZE))" if l: "l < n"
  proof -
    have "{k..<k + n} \<inter> bm_pages a (mm_mem (vm_mm v)) = {}"
      using assms(2) by (simp add: pages_taken_def Let_def bm_run_def a_def)
    moreover have "k + l \<in> {k..<k + n}" using l by simp
    ultimately have "k + l < bm_count a" "k + l \<notin> bm_pages a (mm_mem (vm_mm v))" using run l by (simp, blast)
    then show ?thesis
      using vd(3) [of i] assms(2) unfolding pages_taken_def Let_def mapped_iff_used_def bm_addr_step [symmetric] a_def
      by simp
  qed
qed

lemma phys_page:
  assumes "page_ok li p" and "IS_PAGE_ALIGNED (hhdm li)"
  shows "IS_PAGE_ALIGNED (p - hhdm li)" and "unat (p - hhdm li) < 2 ^ 48"
proof -
  have le: "unat (hhdm li) \<le> unat p" using assms(1) by (simp add: page_ok_def word_le_nat_alt)
  have "unat (p - hhdm li) = unat p - unat (hhdm li)" using assms(1) by (simp add: page_ok_def unat_sub)
  moreover have "4096 dvd unat p - unat (hhdm li)"
    using assms by (intro dvd_diff_nat) (auto simp: page_ok_def IS_PAGE_ALIGNED_iff)
  ultimately show "IS_PAGE_ALIGNED (p - hhdm li)" by (simp add: IS_PAGE_ALIGNED_iff)
  show "unat (p - hhdm li) < 2 ^ 48" using assms(1) by (simp add: page_ok_def)
qed

lemma aligned_offset_0: "IS_PAGE_ALIGNED va \<Longrightarrow> va AND (PAGE_SIZE - 1) = 0"
proof -
  assume "IS_PAGE_ALIGNED va"
  moreover have "va AND (PAGE_SIZE - 1) = take_bit 12 va"
    by (simp add: PAGE_SIZE_def take_bit_eq_mask mask_eq_exp_minus_1)
  ultimately have "unat (va AND (PAGE_SIZE - 1)) = 0" by (simp add: unat_take_bit IS_PAGE_ALIGNED_iff)
  then show ?thesis by (simp add: unat_eq_zero)
qed

text \<open>A page that was mapped to the physical page of \<open>p\<close> is looked up as that page.\<close>

lemma lookup_mapped_page:
  assumes inv: "pt_inv li root s T xs" and "pte T s va = page_descriptor attrs (p - hhdm li) 0"
    and "page_ok li p" and "IS_PAGE_ALIGNED va"
  shows "paging_lookup li root va s = Inr (p - hhdm li, s)"
proof -
  have "IS_PAGE_ALIGNED (hhdm li)" using inv by (simp add: pt_inv_def tree_ok_def)
  note ph = phys_page [OF assms(3) this]
  have "desc_is_valid (pte T s va)" using assms(2) by (simp add: page_descriptor_fields)
  note lookup_valid [OF inv this]
  moreover have "PAGE_DESC_TO_PA (desc_address (pte T s va)) = p - hhdm li"
    unfolding assms(2) by (rule output_address [OF ph])
  ultimately show ?thesis using aligned_offset_0 [OF assms(4)] by simp
qed

text \<open>After mapping \<open>n\<close> pages from page \<open>k\<close> of a region on, the invariant is back.\<close>

lemma pages_mapped_used:
  assumes inv: "vmm_inv li v T xs" and run: "k + n \<le> bm_count (vr_allocator (region_of i v))"
    and at: "\<And>l u. l < n \<Longrightarrow> vpn u = vpn (bm_addr (vr_allocator (region_of i v)) k + of_nat l * PAGE_SIZE) \<Longrightarrow> pte T' s' u = d l"
    and out: "\<And>u. \<forall>l < n. vpn u \<noteq> vpn (bm_addr (vr_allocator (region_of i v)) k + of_nat l * PAGE_SIZE) \<Longrightarrow>
      pte T' s' u = pte T (vm_mm v) u"
  shows "l < bm_count (vr_allocator (region_of i v)) \<Longrightarrow> pte T' s' (bm_addr (vr_allocator (region_of i v)) l) =
      (if l \<in> {k..<k + n} then d (l - k) else pte T (vm_mm v) (bm_addr (vr_allocator (region_of i v)) l))"
    and "j \<noteq> i \<Longrightarrow> l < bm_count (vr_allocator (region_of j v)) \<Longrightarrow>
      pte T' s' (bm_addr (vr_allocator (region_of j v)) l) = pte T (vm_mm v) (bm_addr (vr_allocator (region_of j v)) l)"
proof -
  let ?a = "vr_allocator (region_of i v)"
  have step: "bm_addr ?a k + of_nat m * PAGE_SIZE = bm_addr ?a (k + m)" for m by (simp add: bm_addr_step)
  show "pte T' s' (bm_addr ?a l) = (if l \<in> {k..<k + n} then d (l - k) else pte T (vm_mm v) (bm_addr ?a l))"
    if l: "l < bm_count ?a"
  proof (cases "l \<in> {k..<k + n}")
    case True
    then have "bm_addr ?a k + of_nat (l - k) * PAGE_SIZE = bm_addr ?a l" using step [of "l - k"] by simp
    then show ?thesis using True at [of "l - k" "bm_addr ?a l"] by auto
  next
    case False
    have "vpn (bm_addr ?a l) \<noteq> vpn (bm_addr ?a (k + m))" if "m < n" for m
      using vpn_bm_addr_inj [OF inv l, of "k + m"] that run False by auto
    then show ?thesis using False out [of "bm_addr ?a l"] by (simp only: step if_False) blast
  qed
  show "pte T' s' (bm_addr (vr_allocator (region_of j v)) l) = pte T (vm_mm v) (bm_addr (vr_allocator (region_of j v)) l)"
    if "j \<noteq> i" "l < bm_count (vr_allocator (region_of j v))"
    using regions_apartD(5) [OF vmm_invD(4) [OF inv] that(1,2)] run by (intro out) (simp add: step)
qed

lemma mapping_keeps_inv:
  assumes inv: "vmm_inv li v T xs" and taken: "pages_taken li v T xs i n k v1" and n: "0 < n"
  defines "a \<equiv> vr_allocator (region_of i v)"
  assumes pt: "pt_inv li (kernel_page_table v) s' T' ys" and sub: "ran T' \<union> set ys \<subseteq> ran T \<union> set xs"
    and at: "\<And>l u. l < n \<Longrightarrow> vpn u = vpn (bm_addr a k + of_nat l * PAGE_SIZE) \<Longrightarrow> pte T' s' u = d l"
    and valid: "\<And>l. l < n \<Longrightarrow> desc_is_valid (d l)"
    and out: "\<And>u. \<forall>l < n. vpn u \<noteq> vpn (bm_addr a k + of_nat l * PAGE_SIZE) \<Longrightarrow> pte T' s' u = pte T (vm_mm v) u"
    and mem: "\<And>x. \<not> in_region x (bm_addr a k) (n * 4096) \<Longrightarrow> \<forall>p \<in> ran T \<union> set xs. x \<notin> page_bytes p \<Longrightarrow>
      mm_mem s' x = mm_mem (vm_mm v1) x"
  shows "vmm_inv li (v1\<lparr>vm_mm := s'\<rparr>) T' ys"
proof -
  note vd = vmm_invD [OF inv]
  note ap = regions_apartD [OF vd(4)]
  note td = pages_takenD [OF inv taken n, folded a_def]
  have tk: "\<And>j. vr_allocator (region_of j v1) = vr_allocator (region_of j v)" "kernel_page_table v1 = kernel_page_table v"
    "bm_pages a (mm_mem (vm_mm v1)) = bm_pages a (mm_mem (vm_mm v)) \<union> {k..<k + n}"
    "bm_frame a (mm_mem (vm_mm v)) (mm_mem (vm_mm v1))" "\<And>j. region_inv (region_of j v1) (mm_mem (vm_mm v1))"
    using taken by (simp_all add: pages_taken_def Let_def a_def)
  have keep: "mm_mem s' x = mm_mem (vm_mm v1) x" if x: "x \<in> bitmap_bytes (vr_allocator (region_of j v))" for j x
    using ap(2) [of _ x j] ap(3) [of x i j] td(5) [of x] x by (intro mem) (auto simp: a_def)
  have bmp: "bm_pages (vr_allocator (region_of j v)) (mm_mem s') =
      bm_pages (vr_allocator (region_of j v)) (mm_mem (vm_mm v)) \<union> (if j = i then {k..<k + n} else {})" for j
  proof (cases "j = i")
    case True
    have "bm_pages a (mm_mem s') = bm_pages a (mm_mem (vm_mm v1))"
      unfolding a_def by (rule bm_pages_cong) (rule keep)
    then show ?thesis using True tk(3) by (simp add: a_def)
  next
    case False
    then have "mm_mem s' x = mm_mem (vm_mm v) x" if "x \<in> bitmap_bytes (vr_allocator (region_of j v))" for x
      using keep [OF that] tk(4) ap(4) [OF False that] by (simp add: bm_frame_bytes a_def)
    then have "bm_pages (vr_allocator (region_of j v)) (mm_mem s') = bm_pages (vr_allocator (region_of j v)) (mm_mem (vm_mm v))"
      by (rule bm_pages_cong)
    then show ?thesis using False by simp
  qed
  have used_i: "pte T' s' (bm_addr a l) = (if l \<in> {k..<k + n} then d (l - k) else pte T (vm_mm v) (bm_addr a l))"
    if "l < bm_count a" for l
    using that unfolding a_def
    by (intro pages_mapped_used(1) [OF inv]) (use td(1) at out in \<open>simp_all add: a_def\<close>)
  have used_j: "pte T' s' (bm_addr (vr_allocator (region_of j v)) l) = pte T (vm_mm v) (bm_addr (vr_allocator (region_of j v)) l)"
    if "j \<noteq> i" "l < bm_count (vr_allocator (region_of j v))" for j l
    by (rule pages_mapped_used(2) [OF inv _ _ _ that]) (use td(1) at out in \<open>simp_all add: a_def\<close>)
  have "mapped_iff_used (region_of j v1) T' s'" for j
    unfolding mapped_iff_used_def tk(1) bmp
  proof (intro allI impI)
    fix l assume l: "l < bm_count (vr_allocator (region_of j v))"
    have old: "desc_is_valid (pte T (vm_mm v) (bm_addr (vr_allocator (region_of j v)) l)) \<longleftrightarrow>
        l \<in> bm_pages (vr_allocator (region_of j v)) (mm_mem (vm_mm v))"
      using vd(3) [of j] l by (simp add: mapped_iff_used_def)
    show "desc_is_valid (pte T' s' (bm_addr (vr_allocator (region_of j v)) l)) \<longleftrightarrow>
        l \<in> bm_pages (vr_allocator (region_of j v)) (mm_mem (vm_mm v)) \<union> (if j = i then {k..<k + n} else {})"
    proof (cases "j = i")
      case True
      then show ?thesis using used_i [of l] valid [of "l - k"] l old by (auto simp: a_def)
    next
      case False
      then show ?thesis using used_j [OF False l] old by simp
    qed
  qed
  moreover have "region_inv (region_of j v1) (mm_mem s')" for j
    by (rule region_inv_cong [OF tk(5)]) (use keep tk(1) in simp)
  moreover have "regions_apart (ran T' \<union> set ys) (v1\<lparr>vm_mm := s'\<rparr>)"
    using regions_apart_mono [OF vd(4) sub] tk(1) by (subst regions_apart_same [of _ v]) auto
  ultimately show ?thesis unfolding vmm_inv_def using pt tk(2) by simp
qed

lemma vm_alloc_spec:
  fixes sz :: usize and v :: vmm and i :: region_id
  defines "n \<equiv> unat sz div 4096" and "a \<equiv> vr_allocator (region_of i v)"
  assumes inv: "vmm_inv li v T xs" and n: "0 < n" and room: "4 * n \<le> length xs"
  shows "vm_alloc li sz i attrs v =
      Inr (ERR_TO_PTR (- errnum ENOMEM), v\<lparr>vm_mm := (vm_mm v)\<lparr>mm_core := irq_cycle (mm_core (vm_mm v))\<rparr>\<rparr>) \<and>
      region_exhausted (region_of i v) (mm_mem (vm_mm v)) n \<or>
    (\<exists>k v1 s' T' ys ps. vm_alloc li sz i attrs v = Inr (bm_addr a k, v1\<lparr>vm_mm := s'\<rparr>) \<and>
      vmm_inv li (v1\<lparr>vm_mm := s'\<rparr>) T' ys \<and> pages_taken li v T xs i n k v1 \<and>
      pages_mapped li attrs (bm_addr a k) n T xs (vm_mm v1) T' ys ps s')"
proof -
  have pc: "unat (sz div PAGE_SIZE) = n" by (simp add: n_def unat_div PAGE_SIZE_def)
  then have "0 < sz div PAGE_SIZE" using n by (simp add: word_less_nat_alt)
  from vm_region_alloc_spec [OF inv this, of i] show ?thesis
  proof (elim disjE exE conjE)
    assume "vm_region_alloc i (sz div PAGE_SIZE) v =
      Inr (ERR_TO_PTR (- errnum ENOMEM), v\<lparr>vm_mm := (vm_mm v)\<lparr>mm_core := irq_cycle (mm_core (vm_mm v))\<rparr>\<rparr>)"
    moreover assume "region_exhausted (region_of i v) (mm_mem (vm_mm v)) (unat (sz div PAGE_SIZE))"
    ultimately show ?thesis by (intro disjI1) (simp add: vm_alloc_def IS_ERR_def ERR_TO_PTR_def pc)
  next
    fix k v1
    assume ra: "vm_region_alloc i (sz div PAGE_SIZE) v = Inr (bm_addr (vr_allocator (region_of i v)) k, v1)"
      and taken: "pages_taken li v T xs i (unat (sz div PAGE_SIZE)) k v1"
    note taken = taken [unfolded pc]
    note td = pages_takenD [OF inv taken n, folded a_def]
    have pt: "pt_inv li (kernel_page_table v) (vm_mm v1) T xs" "kernel_page_table v1 = kernel_page_table v"
      and same: "\<forall>va. pte T (vm_mm v1) va = pte T (vm_mm v) va"
      using taken by (simp_all add: pages_taken_def Let_def)
    let ?pages = "word_range 0 (sz div PAGE_SIZE)"
    have len: "length ?pages = n" by (simp add: length_word_range pc)
    obtain s' T' ys ps where
      al: "vm_alloc_pages li (kernel_page_table v) attrs ?pages (bm_addr a k) (vm_mm v1) = Inr (errnum EOK, s')"
        "pt_inv li (kernel_page_table v) s' T' ys" "pages_mapped li attrs (bm_addr a k) n T xs (vm_mm v1) T' ys ps s'"
      using alloc_pages_spec [OF pt(1) td(3), of ?pages attrs] td(2,4,6,7) room unfolding len by blast
    have "vmm_inv li (v1\<lparr>vm_mm := s'\<rparr>) T' ys"
      by (rule mapping_keeps_inv [OF inv taken n al(2), of "\<lambda>l. page_descriptor attrs (ps ! l - hhdm li) 0", folded a_def])
         (use al(3) same in \<open>auto simp: pages_mapped_def page_descriptor_fields\<close>)
    moreover have "vm_alloc li sz i attrs v = Inr (bm_addr a k, v1\<lparr>vm_mm := s'\<rparr>)"
      using ra al(1) pt(2) not_IS_ERR_aligned [OF td(3)] by (simp add: vm_alloc_def on_mm_def Let_def a_def)
    ultimately show ?thesis using taken al(3) by blast
  qed
qed

section \<open>Mapping given physical pages\<close>

lemma vm_map_spec:
  fixes sz :: usize and v :: vmm and i :: region_id
  defines "n \<equiv> unat sz div 4096" and "a \<equiv> vr_allocator (region_of i v)"
  assumes inv: "vmm_inv li v T xs" and sz: "IS_PAGE_ALIGNED sz" and n: "0 < n" and room: "3 * n \<le> length xs"
  shows "vm_map li pa sz i attrs v = Inl (Panic ''va is not page aligned'') \<and>
      region_exhausted (region_of i v) (mm_mem (vm_mm v)) n \<or>
    (\<exists>k v1 s' T' ys. vm_map li pa sz i attrs v = Inr (bm_addr a k, v1\<lparr>vm_mm := s'\<rparr>) \<and>
      vmm_inv li (v1\<lparr>vm_mm := s'\<rparr>) T' ys \<and> pages_taken li v T xs i n k v1 \<and>
      length xs \<le> length ys + 3 * n \<and> pt_step T xs (vm_mm v1) T' ys s' \<and>
      (\<forall>u. pte T' s' u = range_pte attrs (bm_addr a k) pa n (pte T (vm_mm v)) u))"
proof -
  have pc: "unat (sz div PAGE_SIZE) = n" by (simp add: n_def unat_div PAGE_SIZE_def)
  then have "0 < sz div PAGE_SIZE" using n by (simp add: word_less_nat_alt)
  have usz: "unat sz = n * 4096" using sz by (auto simp: n_def IS_PAGE_ALIGNED_iff)
  from vm_region_alloc_spec [OF inv \<open>0 < sz div PAGE_SIZE\<close>, of i] show ?thesis
  proof (elim disjE exE conjE)
    assume "vm_region_alloc i (sz div PAGE_SIZE) v =
      Inr (ERR_TO_PTR (- errnum ENOMEM), v\<lparr>vm_mm := (vm_mm v)\<lparr>mm_core := irq_cycle (mm_core (vm_mm v))\<rparr>\<rparr>)"
    moreover have "\<not> IS_PAGE_ALIGNED (ERR_TO_PTR (- errnum ENOMEM))"
      using not_IS_ERR_aligned by (auto simp: IS_ERR_def ERR_TO_PTR_def)
    moreover assume "region_exhausted (region_of i v) (mm_mem (vm_mm v)) (unat (sz div PAGE_SIZE))"
    ultimately show ?thesis
      using sz by (intro disjI1) (simp add: vm_map_def on_mm_def paging_map_def pc del: errnum.simps)
  next
    fix k v1
    assume ra: "vm_region_alloc i (sz div PAGE_SIZE) v = Inr (bm_addr (vr_allocator (region_of i v)) k, v1)"
      and taken: "pages_taken li v T xs i (unat (sz div PAGE_SIZE)) k v1"
    note taken = taken [unfolded pc]
    note td = pages_takenD [OF inv taken n, folded a_def]
    have pt: "pt_inv li (kernel_page_table v) (vm_mm v1) T xs" "kernel_page_table v1 = kernel_page_table v"
      and same: "pte T (vm_mm v1) = pte T (vm_mm v)"
      using taken by (auto simp: pages_taken_def Let_def)
    have "range_free (pte T (vm_mm v1)) (bm_addr a k) n" using td(7) by (simp add: range_free_def list_all_iff)
    then obtain s' T' ys where
      m: "paging_map li (kernel_page_table v) (bm_addr a k) pa sz attrs (vm_mm v1) = Inr (errnum EOK, s')"
        "pt_inv li (kernel_page_table v) s' T' ys" "pt_step T xs (vm_mm v1) T' ys s'"
        "length xs \<le> length ys + 3 * n" "\<And>u. pte T' s' u = range_pte attrs (bm_addr a k) pa n (pte T (vm_mm v)) u"
      using paging_map_spec [OF pt(1) td(3) usz _ td(2) room, of pa attrs] td(4) usz same by auto
    have "vmm_inv li (v1\<lparr>vm_mm := s'\<rparr>) T' ys"
    proof (rule mapping_keeps_inv [OF inv taken n m(2), of "\<lambda>l. page_descriptor attrs (pa + of_nat l * PAGE_SIZE) 0", folded a_def])
      show "pte T' s' u = page_descriptor attrs (pa + of_nat l * PAGE_SIZE) 0"
        if "l < n" "vpn u = vpn (bm_addr a k + of_nat l * PAGE_SIZE)" for l u
        unfolding m(5) using that td(2,4) by (intro range_pte_at) simp_all
      show "pte T' s' u = pte T (vm_mm v) u" if "\<forall>l<n. vpn u \<noteq> vpn (bm_addr a k + of_nat l * PAGE_SIZE)" for u
        unfolding m(5) using that by (intro range_pte_outside) blast
    qed (use m(3) in \<open>auto simp: pt_step_def page_descriptor_fields\<close>)
    moreover have "vm_map li pa sz i attrs v = Inr (bm_addr a k, v1\<lparr>vm_mm := s'\<rparr>)"
      using ra m(1) pt(2) sz by (simp add: vm_map_def on_mm_def a_def)
    ultimately show ?thesis using taken m(3-5) by blast
  qed
qed

section \<open>Unmapping\<close>

text \<open>Giving the pages of a live allocation back; they are still mapped then.\<close>

definition pages_given :: "limine \<Rightarrow> vmm \<Rightarrow> tree \<Rightarrow> ptr list \<Rightarrow> region_id \<Rightarrow> nat \<Rightarrow> nat \<Rightarrow> vmm \<Rightarrow> bool" where
  "pages_given li v T xs i n k v1 \<longleftrightarrow> (let a = vr_allocator (region_of i v) in
     (\<forall>j. vr_allocator (region_of j v1) = vr_allocator (region_of j v)) \<and>
     (\<forall>j. j \<noteq> i \<longrightarrow> region_of j v1 = region_of j v) \<and>
     region_live (region_of i v1) = region_live (region_of i v) - {(bm_addr a k, of_nat n)} \<and>
     k + n \<le> bm_count a \<and> 0 < n \<and> {k..<k + n} \<subseteq> bm_pages a (mm_mem (vm_mm v)) \<and>
     bm_pages a (mm_mem (vm_mm v1)) = bm_pages a (mm_mem (vm_mm v)) - {k..<k + n} \<and>
     bm_frame a (mm_mem (vm_mm v)) (mm_mem (vm_mm v1)) \<and>
     (\<forall>j. region_inv (region_of j v1) (mm_mem (vm_mm v1))) \<and>
     pt_inv li (kernel_page_table v) (vm_mm v1) T xs \<and> (\<forall>va. pte T (vm_mm v1) va = pte T (vm_mm v) va) \<and>
     kernel_page_table v1 = kernel_page_table v \<and> irq_view (mm_core (vm_mm v1)) = irq_view (mm_core (vm_mm v)))"

lemma vm_region_free_spec:
  assumes inv: "vmm_inv li v T xs" and live: "(p, n) \<in> region_live (region_of i v)"
  shows "\<exists>k v1 l. vm_region_free i p v = Inr (n, v1) \<and> p = bm_addr (vr_allocator (region_of i v)) k \<and>
    pages_given li v T xs i (unat n) k v1 \<and> region_find (region_of i v) p = Inr (Inr l) \<and>
    unat l < length (vr_allocations (region_of i v)) \<and> va_page_count (vr_allocations (region_of i v) ! unat l) = n \<and>
    region_of i v1 = set_slot (region_of i v) l free_slot"
proof -
  let ?r = "region_of i v" and ?c = "mm_core (vm_mm v)" and ?m = "mm_mem (vm_mm v)"
  note vd = vmm_invD [OF inv]
  note ap = regions_apartD [OF vd(4)]
  obtain k r' m' l where k: "region_free ?r p ?c ?m = Inr (n, r', irq_cycle ?c, m')" "p = bm_addr (vr_allocator ?r) k"
    "region_inv r' m'" "vr_allocator r' = vr_allocator ?r" "bm_frame (vr_allocator ?r) ?m m'"
    "bm_pages (vr_allocator ?r) m' = bm_pages (vr_allocator ?r) ?m - {k..<k + unat n}"
    "region_live r' = region_live ?r - {(p, n)}"
    "0 < unat n" "k + unat n \<le> bm_count (vr_allocator ?r)" "{k..<k + unat n} \<subseteq> bm_pages (vr_allocator ?r) ?m"
    and l: "region_find ?r p = Inr (Inr l)" "unat l < length (vr_allocations ?r)"
      "va_page_count (vr_allocations ?r ! unat l) = n" "r' = set_slot ?r l free_slot"
    using region_free_pages [OF vd(2) vd(5) live] by blast
  let ?s = "(vm_mm v)\<lparr>mm_core := irq_cycle ?c, mm_mem := m'\<rparr>"
  let ?v = "set_region i r' (v\<lparr>vm_mm := ?s\<rparr>)"
  have out: "m' x = ?m x" if "x \<notin> bitmap_bytes (vr_allocator ?r)" for x
    using k(5) that by (simp add: bm_frame_bytes)
  have view: "irq_view (irq_cycle ?c) = irq_view ?c" by (rule pop_push_cycle(2) [OF vd(5)])
  have same: "mm_mem ?s x = mm_mem (vm_mm v) x" if "q \<in> ran T \<union> set xs" "x \<in> page_bytes q" for q x
    using out [of x] ap(2) [OF that, of i] by simp
  have cong: "pt_inv li (kernel_page_table v) ?s T xs" "\<And>va. pte T ?s va = pte T (vm_mm v) va"
    by (rule pt_inv_cong [OF vd(1)]; use view same in simp)+
  have others: "region_inv (region_of j v) m'" if "j \<noteq> i" for j
    by (rule region_inv_cong [OF vd(2)]) (use out ap(4) [OF that] in blast)
  have "pages_given li v T xs i (unat n) k ?v"
    unfolding pages_given_def Let_def using k cong others view by simp
  moreover have "vm_region_free i p v = Inr (n, ?v)" using k(1) by (simp add: vm_region_free_def)
  ultimately show ?thesis using k(2) l by (intro exI [of _ k] exI [of _ ?v] exI [of _ l]) simp
qed

lemma unmapping_keeps_inv:
  assumes inv: "vmm_inv li v T xs" and given: "pages_given li v T xs i n k v1"
  defines "a \<equiv> vr_allocator (region_of i v)"
  assumes pt: "pt_inv li (kernel_page_table v) s' T xs" and step: "pt_step T xs (vm_mm v1) T xs s'"
    and pte: "\<And>u. pte T s' u = (if \<exists>l < n. vpn u = vpn (bm_addr a k + of_nat l * PAGE_SIZE) then 0 else pte T (vm_mm v) u)"
  shows "vmm_inv li (v1\<lparr>vm_mm := s'\<rparr>) T xs"
proof -
  note vd = vmm_invD [OF inv]
  note ap = regions_apartD [OF vd(4)]
  have tk: "\<And>j. vr_allocator (region_of j v1) = vr_allocator (region_of j v)" "kernel_page_table v1 = kernel_page_table v"
    "bm_pages a (mm_mem (vm_mm v1)) = bm_pages a (mm_mem (vm_mm v)) - {k..<k + n}" "k + n \<le> bm_count a"
    "bm_frame a (mm_mem (vm_mm v)) (mm_mem (vm_mm v1))" "\<And>j. region_inv (region_of j v1) (mm_mem (vm_mm v1))"
    using given by (simp_all add: pages_given_def Let_def a_def)
  have keep: "mm_mem s' x = mm_mem (vm_mm v1) x" if x: "x \<in> bitmap_bytes (vr_allocator (region_of j v))" for j x
    using step ap(2) [of _ x j] x unfolding pt_step_def by blast
  have bmp: "bm_pages (vr_allocator (region_of j v)) (mm_mem s') =
      bm_pages (vr_allocator (region_of j v)) (mm_mem (vm_mm v)) - (if j = i then {k..<k + n} else {})" for j
  proof (cases "j = i")
    case True
    have "bm_pages a (mm_mem s') = bm_pages a (mm_mem (vm_mm v1))"
      unfolding a_def by (rule bm_pages_cong) (rule keep)
    then show ?thesis using True tk(3) by (simp add: a_def)
  next
    case False
    then have "mm_mem s' x = mm_mem (vm_mm v) x" if "x \<in> bitmap_bytes (vr_allocator (region_of j v))" for x
      using keep [OF that] tk(5) ap(4) [OF False that] by (simp add: bm_frame_bytes a_def)
    then have "bm_pages (vr_allocator (region_of j v)) (mm_mem s') = bm_pages (vr_allocator (region_of j v)) (mm_mem (vm_mm v))"
      by (rule bm_pages_cong)
    then show ?thesis using False by simp
  qed
  have used_i: "pte T s' (bm_addr a l) = (if l \<in> {k..<k + n} then 0 else pte T (vm_mm v) (bm_addr a l))"
    if "l < bm_count a" for l
    using that unfolding a_def
    by (intro pages_mapped_used(1) [OF inv, where d = "\<lambda>_. 0"]) (use tk(4) in \<open>auto simp: pte a_def\<close>)
  have used_j: "pte T s' (bm_addr (vr_allocator (region_of j v)) l) = pte T (vm_mm v) (bm_addr (vr_allocator (region_of j v)) l)"
    if "j \<noteq> i" "l < bm_count (vr_allocator (region_of j v))" for j l
    by (rule pages_mapped_used(2) [OF inv _ _ _ that, where d = "\<lambda>_. 0"]) (use tk(4) in \<open>auto simp: pte a_def\<close>)
  have "mapped_iff_used (region_of j v1) T s'" for j
    unfolding mapped_iff_used_def tk(1) bmp
  proof (intro allI impI)
    fix l assume l: "l < bm_count (vr_allocator (region_of j v))"
    have "desc_is_valid (pte T (vm_mm v) (bm_addr (vr_allocator (region_of j v)) l)) \<longleftrightarrow>
        l \<in> bm_pages (vr_allocator (region_of j v)) (mm_mem (vm_mm v))"
      using vd(3) [of j] l by (simp add: mapped_iff_used_def)
    then show "desc_is_valid (pte T s' (bm_addr (vr_allocator (region_of j v)) l)) \<longleftrightarrow>
        l \<in> bm_pages (vr_allocator (region_of j v)) (mm_mem (vm_mm v)) - (if j = i then {k..<k + n} else {})"
      using used_i [of l] used_j [of j l] l by (cases "j = i") (auto simp: a_def)
  qed
  moreover have "region_inv (region_of j v1) (mm_mem s')" for j
    by (rule region_inv_cong [OF tk(6)]) (use keep tk(1) in simp)
  moreover have "regions_apart (ran T \<union> set xs) (v1\<lparr>vm_mm := s'\<rparr>)"
    using vd(4) tk(1) by (subst regions_apart_same [of _ v]) auto
  ultimately show ?thesis unfolding vmm_inv_def using pt tk(2) by simp
qed

lemma vm_unmap_spec:
  assumes inv: "vmm_inv li v T xs" and live: "(p, n) \<in> region_live (region_of i v)"
    and sz: "unat sz = unat n * 4096"
  shows "\<exists>v'. vm_unmap li p sz i v = Inr (errnum EOK, v') \<and> vmm_inv li v' T xs \<and>
    region_live (region_of i v') = region_live (region_of i v) - {(p, n)} \<and>
    (\<forall>j. j \<noteq> i \<longrightarrow> region_of j v' = region_of j v) \<and> kernel_page_table v' = kernel_page_table v \<and>
    (\<forall>u. pte T (vm_mm v') u =
       (if \<exists>l < unat n. vpn u = vpn (p + of_nat l * PAGE_SIZE) then 0 else pte T (vm_mm v) u))"
proof -
  obtain k v1 where g: "vm_region_free i p v = Inr (n, v1)" "p = bm_addr (vr_allocator (region_of i v)) k"
    "pages_given li v T xs i (unat n) k v1" using vm_region_free_spec [OF inv live] by blast
  let ?a = "vr_allocator (region_of i v)"
  note vd = vmm_invD [OF inv]
  have gd: "k + unat n \<le> bm_count ?a" "0 < unat n" "{k..<k + unat n} \<subseteq> bm_pages ?a (mm_mem (vm_mm v))"
    "pt_inv li (kernel_page_table v) (vm_mm v1) T xs" "pte T (vm_mm v1) = pte T (vm_mm v)"
    "kernel_page_table v1 = kernel_page_table v" "\<forall>j. j \<noteq> i \<longrightarrow> region_of j v1 = region_of j v"
    "region_live (region_of i v1) = region_live (region_of i v) - {(p, n)}"
    using g(2,3) by (auto simp: pages_given_def Let_def)
  note addr = bm_addr_range [OF vd(6) gd(1,2), folded g(2)]
  have "unat n \<le> 2 ^ 36" using gd(1) regions_apartD(1) [OF vd(4), of i] by simp
  moreover have "range_mapped (pte T (vm_mm v1)) p (unat n)"
    unfolding range_mapped_def list_all_iff
  proof
    fix l assume "l \<in> set [0..<unat n]"
    then have "k + l < bm_count ?a" "k + l \<in> bm_pages ?a (mm_mem (vm_mm v))" using gd(1,3) by auto
    then show "desc_is_valid (pte T (vm_mm v1) (p + of_nat l * PAGE_SIZE))"
      using vd(3) [of i] unfolding mapped_iff_used_def g(2) bm_addr_step [symmetric] gd(5) by simp
  qed
  ultimately obtain s' where u: "paging_unmap li (kernel_page_table v) p sz (vm_mm v1) = Inr s'"
    "pt_inv li (kernel_page_table v) s' T xs" "pt_step T xs (vm_mm v1) T xs s'"
    "\<forall>u. pte T s' u = (if \<exists>k < unat n. vpn u = vpn (p + of_nat k * PAGE_SIZE) then 0 else pte T (vm_mm v1) u)"
    using paging_unmap_spec [OF gd(4) addr(1) sz] addr(2) sz by auto
  note u = u [unfolded gd(5)]
  have "vmm_inv li (v1\<lparr>vm_mm := s'\<rparr>) T xs"
    by (rule unmapping_keeps_inv [OF inv g(3) u(2,3)]) (use u(4) in \<open>simp add: g(2)\<close>)
  moreover have "IS_PAGE_ALIGNED sz" using sz by (simp add: IS_PAGE_ALIGNED_iff)
  then have "vm_unmap li p sz i v = Inr (errnum EOK, v1\<lparr>vm_mm := s'\<rparr>)"
    using g(1) u(1) gd(6) by (simp add: vm_unmap_def)
  ultimately show ?thesis using gd(6-8) u(4) by (intro exI [of _ "v1\<lparr>vm_mm := s'\<rparr>"]) simp
qed

section \<open>The layout of the kernel\<close>

lemma unat_vpn_bm_addr:
  assumes "bm_inv a" and "k < bm_count a"
  shows "unat (vpn (bm_addr a k)) = (unat (bm_pool a) div 4096 + k) mod 2 ^ 36"
  using unat_bm_addr [OF assms] by (simp add: unat_vpn add.commute)

lemma all_regions: "(\<forall>i. P i) \<longleftrightarrow> P KernelMemRegion \<and> P MmioRegion"
  by (metis region_id.exhaust)

text \<open>
  The ranges of \<open>memlayout.h\<close> are apart from each other, from pages below the kernel image, and
  from bitmaps inside the image.
\<close>

lemma layout_apart:
  assumes k: "vr_allocator (kernel_mem_region v) =
      \<lparr>bm_bitmap = b1, bm_page_count = KERNEL_VM_RANGE_SIZE div PAGE_SIZE, bm_pool = KERNEL_VM_RANGE_BASE\<rparr>"
    and m: "vr_allocator (mmio_region v) =
      \<lparr>bm_bitmap = b2, bm_page_count = KERNEL_MMIO_RANGE_SIZE div PAGE_SIZE, bm_pool = KERNEL_MMIO_RANGE_START\<rparr>"
    and image: "0xffffffff80000000 \<le> unat b1" "unat b1 + 32768 \<le> unat b2" "unat b2 + 8192 \<le> 0xffffffff90000000"
    and pages: "\<forall>p \<in> S. unat p + 4096 \<le> 0xffffffff80000000"
  shows "regions_apart S v"
proof -
  let ?K = "vr_allocator (kernel_mem_region v)" and ?M = "vr_allocator (mmio_region v)"
  have c: "bm_count ?K = 262144" "bm_count ?M = 65536"
    by (simp_all add: k m KERNEL_VM_RANGE_SIZE_def KERNEL_MMIO_RANGE_SIZE_def PAGE_SIZE_def)
  have pl: "unat (bm_pool ?K) = 0xffffffffa0000000" "unat (bm_pool ?M) = 0xffffffff90000000"
    by (simp_all add: k m KERNEL_VM_RANGE_BASE_def KERNEL_MMIO_RANGE_START_def)
  have bm: "bm_bitmap ?K = b1" "bm_bitmap ?M = b2" by (simp_all add: k m)
  have bytes: "bitmap_bytes ?K = {x. unat b1 \<le> unat x \<and> unat x < unat b1 + 32768}"
    "bitmap_bytes ?M = {x. unat b2 \<le> unat x \<and> unat x < unat b2 + 8192}"
    "range_bytes ?K = {x. 0xffffffffa0000000 \<le> unat x \<and> unat x < 0xffffffffe0000000}"
    "range_bytes ?M = {x. 0xffffffff90000000 \<le> unat x \<and> unat x < 0xffffffffa0000000}"
    using image by (auto simp: bitmap_bytes_def range_bytes_def c bm in_region_iff pl)
  have pb: "page_bytes p = {x. unat p \<le> unat x \<and> unat x < unat p + 4096}" if "p \<in> S" for p
    using pages that by (auto simp: in_region_iff)
  have inv: "bm_inv ?K" "bm_inv ?M"
    unfolding bm_inv_def IS_PAGE_ALIGNED_iff by (simp_all only: c pl) simp_all
  have vK: "unat (vpn (bm_addr ?K x)) = 0xffffa0000 + x" if "x < 262144" for x
  proof -
    have "0xffffffffa0000000 div 4096 + x = 0xffffa0000 + x + 65535 * 2 ^ 36" by simp
    then show ?thesis using that by (simp only: unat_vpn_bm_addr [OF inv(1)] c pl mod_mult_self1) simp
  qed
  have vM: "unat (vpn (bm_addr ?M x)) = 0xffff90000 + x" if "x < 65536" for x
  proof -
    have "0xffffffff90000000 div 4096 + x = 0xffff90000 + x + 65535 * 2 ^ 36" by simp
    then show ?thesis using that by (simp only: unat_vpn_bm_addr [OF inv(2)] c pl mod_mult_self1) simp
  qed
  have vKM: "vpn (bm_addr ?K x) \<noteq> vpn (bm_addr ?M y)" if "x < 262144" "y < 65536" for x y
    using vK [OF that(1)] vM [OF that(2)] that by auto
  have disj: "bitmap_bytes ?K \<inter> bitmap_bytes ?M = {}" "range_bytes ?K \<inter> bitmap_bytes ?K = {}"
    "range_bytes ?K \<inter> bitmap_bytes ?M = {}" "range_bytes ?M \<inter> bitmap_bytes ?K = {}" "range_bytes ?M \<inter> bitmap_bytes ?M = {}"
    unfolding bytes using image by auto
  have pd: "page_bytes p \<inter> (bitmap_bytes ?K \<union> range_bytes ?K) = {}" "page_bytes p \<inter> (bitmap_bytes ?M \<union> range_bytes ?M) = {}"
    if "p \<in> S" for p
    unfolding bytes pb [OF that] using image pages that by fastforce+
  show ?thesis
    unfolding regions_apart_def Let_def all_regions region_of.simps c
    using disj pd vKM by (auto simp: Int_commute dest: sym)
qed

text \<open>
  \<open>vm_unmap\<close> of the first page, as the first round of the loop of \<open>vm_free\<close> calls it, takes the whole
  allocation out of the table.
\<close>

lemma unmap_first_page:
  assumes inv: "vmm_inv li v T xs" and live: "(p, n) \<in> region_live (region_of i v)"
  shows "\<exists>v1 l. vm_unmap li p PAGE_SIZE i v = Inr (errnum EOK, v1) \<and>
    region_find (region_of i v) p = Inr (Inr l) \<and> unat l < length (vr_allocations (region_of i v)) \<and>
    0 < va_page_count (vr_allocations (region_of i v) ! unat l) \<and>
    region_of i v1 = set_slot (region_of i v) l free_slot \<and>
    lock_free (vr_lock (region_of i v1)) \<and> lock_free (km_spinlock (mm_kmem (vm_mm v1))) \<and>
    core_ok (Suc 0) (mm_core (vm_mm v1)) \<and>
    region_find (region_of i v1) p = Inr (Inl ENOENT) \<and>
    IS_PAGE_ALIGNED p \<and> desc_is_valid (pte T (vm_mm v) p)"
proof -
  obtain k v1 l where g: "vm_region_free i p v = Inr (n, v1)" "p = bm_addr (vr_allocator (region_of i v)) k"
    "pages_given li v T xs i (unat n) k v1" and l: "region_find (region_of i v) p = Inr (Inr l)"
    "unat l < length (vr_allocations (region_of i v))" "va_page_count (vr_allocations (region_of i v) ! unat l) = n"
    "region_of i v1 = set_slot (region_of i v) l free_slot"
    using vm_region_free_spec [OF inv live] by (elim exE conjE) (rule that; assumption)
  let ?a = "vr_allocator (region_of i v)"
  note vd = vmm_invD [OF inv]
  have gd: "k + unat n \<le> bm_count ?a" "0 < unat n" "{k..<k + unat n} \<subseteq> bm_pages ?a (mm_mem (vm_mm v))"
    "pt_inv li (kernel_page_table v) (vm_mm v1) T xs" "pte T (vm_mm v1) p = pte T (vm_mm v) p"
    "kernel_page_table v1 = kernel_page_table v" "region_inv (region_of i v1) (mm_mem (vm_mm v1))"
    "region_live (region_of i v1) = region_live (region_of i v) - {(p, n)}"
    using g(2,3) by (auto simp: pages_given_def Let_def)
  note addr = bm_addr_range [OF vd(6) gd(1,2), folded g(2)]
  have "k < bm_count ?a" "k \<in> bm_pages ?a (mm_mem (vm_mm v))" using gd(1-3) by auto
  then have valid: "desc_is_valid (pte T (vm_mm v) p)" using vd(3) [of i] g(2) by (simp add: mapped_iff_used_def)
  then have "desc_is_valid (pte T (vm_mm v1) p)" using gd(5) by simp
  then have "range_mapped (pte T (vm_mm v1)) p 1" by (simp add: range_mapped_def)
  then obtain s' where u: "paging_unmap li (kernel_page_table v) p PAGE_SIZE (vm_mm v1) = Inr s'"
    "pt_inv li (kernel_page_table v) s' T xs"
    using paging_unmap_spec [OF gd(4) addr(1), of PAGE_SIZE 1] addr(2) gd(2) by auto
  have "vm_unmap li p PAGE_SIZE i v = Inr (errnum EOK, v1\<lparr>vm_mm := s'\<rparr>)"
    using g(1) u(1) gd(6) by (simp add: vm_unmap_def IS_PAGE_ALIGNED_iff)
  moreover have "region_find (region_of i v1) p = Inr (Inl ENOENT)"
  proof -
    have "(p, m) \<notin> region_live (region_of i v1)" for m
      using vrm.live_functional [of "(region_of i v, mm_core (vm_mm v), mm_mem (vm_mm v))" p n m] live vd(2,5)
      by (auto simp: gd(8) region_state_inv_def)
    moreover have "p \<noteq> nullptr" using live by (auto simp: region_live_def)
    ultimately have "\<forall>e \<in> set (slots (region_of i v1)). va_addr e \<noteq> p" unfolding region_live_def by blast
    moreover have sz: "unat (vr_allocations_size (region_of i v1)) \<le> length (vr_allocations (region_of i v1))"
      using gd(7) by (simp add: region_inv_def)
    ultimately show ?thesis using region_find_spec [OF sz, of p] nth_mem length_slots [OF sz] by metis
  qed
  ultimately show ?thesis
    using l gd(2,7) u(2) valid addr(1)
    by (intro exI [of _ "v1\<lparr>vm_mm := s'\<rparr>"] exI [of _ l])
       (auto simp: pt_inv_def kmem_rep_def region_inv_def word_less_nat_alt)
qed

lemma page_aligned_desc: "IS_PAGE_ALIGNED (PAGE_DESC_TO_PA d)"
proof -
  have "take_bit 12 (push_bit 12 d) = 0" by (rule bit_word_eqI) (auto simp: bit_simps)
  moreover have "unat (push_bit 12 d) mod 4096 = unat (take_bit 12 (push_bit 12 d))" by (simp add: unat_take_bit)
  ultimately show ?thesis by (simp add: IS_PAGE_ALIGNED_iff PAGE_DESC_TO_PA_def)
qed

lemma mm_free_returns:
  assumes "lock_free (km_spinlock (mm_kmem s))" and "core_ok (Suc 0) (mm_core s)" and "IS_PAGE_ALIGNED p"
  shows "\<exists>s'. mm_free p s = Inr s'"
proof -
  have "p mod PAGE_SIZE = 0" using assms(3) by (simp add: IS_PAGE_ALIGNED_iff word_unat_eq_iff unat_mod PAGE_SIZE_def)
  then show ?thesis
    by (simp add: mm_free_def kmem_free_def Let_def scoped_return [OF assms(2,1)])
qed

text \<open>
  The loop of \<open>vm_free\<close> runs once: its \<open>vm_unmap\<close> already empties the entry whose page count the
  loop condition reads; then \<open>region_free\<close> looks for the entry in vain.
\<close>

lemma vm_free_panics:
  assumes inv: "vmm_inv li v T xs" and live: "(p, n) \<in> region_live (region_of i v)"
  shows "vm_free li p i v = Inl (Panic ''tried freeing non existent allocation'')"
proof -
  obtain v1 l where u: "vm_unmap li p PAGE_SIZE i v = Inr (errnum EOK, v1)"
    "region_find (region_of i v) p = Inr (Inr l)" "unat l < length (vr_allocations (region_of i v))"
    "0 < va_page_count (vr_allocations (region_of i v) ! unat l)" "region_of i v1 = set_slot (region_of i v) l free_slot"
    "lock_free (vr_lock (region_of i v1))" "lock_free (km_spinlock (mm_kmem (vm_mm v1)))"
    "core_ok (Suc 0) (mm_core (vm_mm v1))" "region_find (region_of i v1) p = Inr (Inl ENOENT)"
    "IS_PAGE_ALIGNED p" "desc_is_valid (pte T (vm_mm v) p)"
    using unmap_first_page [OF inv live] by (elim exE conjE) (rule that; assumption)
  note vd = vmm_invD [OF inv]
  let ?pa = "PAGE_DESC_TO_PA (desc_address (pte T (vm_mm v) p))"
  have lookup: "on_mm (paging_lookup li (kernel_page_table v) p) v = Inr (?pa, v)"
    using lookup_valid [OF vd(1) u(11)] aligned_offset_0 [OF u(10)] by (simp add: on_mm_def)
  obtain off where off: "limine_hhdm li = Some off" "IS_PAGE_ALIGNED off"
    using vd(1) by (auto simp: pt_inv_def tree_ok_def hhdm_def)
  obtain s2 where s2: "mm_free (?pa + off) (vm_mm v1) = Inr s2"
    using mm_free_returns [OF u(7,8) IS_PAGE_ALIGNED_add [OF page_aligned_desc off(2)]] by blast
  let ?v = "v1\<lparr>vm_mm := s2\<rparr>"
  have "vm_free_page li p 0 i v = Inr ?v"
    using lookup u(1) off(1) s2 by (simp add: vm_free_page_def phys_to_virt_def)
  moreover have "va_page_count (vr_allocations (region_of i ?v) ! unat l) = 0"
    using u(3,5) by (simp add: set_slot_def free_slot_def)
  ultimately have "vm_free_loop li p l 0 i v = Some (Inr ?v)"
    using u(4) by (simp add: vm_free_loop.simps)
  moreover have "vm_region_free i p ?v = Inl (Panic ''tried freeing non existent allocation'')"
    using u(6,9) by (simp add: vm_region_free_def region_free_def region_free_locked_def scoped_stops)
  ultimately show ?thesis using u(2) by (simp add: vm_free_def)
qed

section \<open>Boot\<close>

text \<open>
  The last two calls of \<open>vm_init\<close>: with the tables set up, no page of the two ranges mapped, and
  the bitmaps inside the kernel image, initialising the regions establishes the invariant.
\<close>

definition boot_regions :: "ptr \<Rightarrow> ptr \<Rightarrow> mm \<Rightarrow> ptr \<Rightarrow> vmm" where
  "boot_regions b1 b2 s root = \<lparr>vm_mm = s, kernel_page_table = root,
     kernel_mem_region = STATIC_ALLOC_VM_REGION b1 KERNEL_VM_RANGE_BASE KERNEL_VM_RANGE_SIZE,
     mmio_region = STATIC_ALLOC_VM_REGION b2 KERNEL_MMIO_RANGE_START KERNEL_MMIO_RANGE_SIZE, ttbr1_el1 = 0\<rparr>"

lemma boot_regions_inv:
  assumes pt: "pt_inv li root s T xs"
    and image: "0xffffffff80000000 \<le> unat b1" "unat b1 + 32768 \<le> unat b2" "unat b2 + 8192 \<le> 0xffffffff90000000"
    and pages: "\<forall>p \<in> ran T \<union> set xs. unat p + 4096 \<le> 0xffffffff80000000"
    and unmapped: "\<forall>k < 262144. \<not> desc_is_valid (pte T s (KERNEL_VM_RANGE_BASE + of_nat k * PAGE_SIZE))"
      "\<forall>k < 65536. \<not> desc_is_valid (pte T s (KERNEL_MMIO_RANGE_START + of_nat k * PAGE_SIZE))"
  defines "v \<equiv> boot_regions b1 b2 s root"
  shows "\<exists>r1 m1 r2 m2. region_init (kernel_mem_region v) ''kernel heap region'' (mm_mem s) = Inr (r1, m1) \<and>
    region_init (mmio_region v) ''mmio region'' m1 = Inr (r2, m2) \<and>
    region_live r1 = {} \<and> region_live r2 = {} \<and> (\<forall>u. pte T (s\<lparr>mm_mem := m2\<rparr>) u = pte T s u) \<and>
    vmm_inv li (v\<lparr>kernel_mem_region := r1, mmio_region := r2, vm_mm := s\<lparr>mm_mem := m2\<rparr>\<rparr>) T xs"
proof -
  have al: "IS_PAGE_ALIGNED KERNEL_VM_RANGE_BASE" "IS_PAGE_ALIGNED KERNEL_MMIO_RANGE_START"
    by (simp_all add: IS_PAGE_ALIGNED_iff KERNEL_VM_RANGE_BASE_def KERNEL_MMIO_RANGE_START_def)
  obtain r1 m1 where r1: "region_init (kernel_mem_region v) ''kernel heap region'' (mm_mem s) = Inr (r1, m1)"
    "region_inv r1 m1" "region_live r1 = {}" "vr_allocator r1 = vr_allocator (kernel_mem_region v)"
    "bm_pages (vr_allocator r1) m1 = {}" "bm_frame (vr_allocator r1) (mm_mem s) m1"
    using region_init_spec [of KERNEL_VM_RANGE_SIZE KERNEL_VM_RANGE_BASE b1 "''kernel heap region''" "mm_mem s"] al(1)
    by (auto simp: v_def boot_regions_def KERNEL_VM_RANGE_SIZE_def KERNEL_VM_RANGE_BASE_def)
  obtain r2 m2 where r2: "region_init (mmio_region v) ''mmio region'' m1 = Inr (r2, m2)"
    "region_inv r2 m2" "region_live r2 = {}" "vr_allocator r2 = vr_allocator (mmio_region v)"
    "bm_pages (vr_allocator r2) m2 = {}" "bm_frame (vr_allocator r2) m1 m2"
    using region_init_spec [of KERNEL_MMIO_RANGE_SIZE KERNEL_MMIO_RANGE_START b2 "''mmio region''" m1] al(2)
    by (auto simp: v_def boot_regions_def KERNEL_MMIO_RANGE_SIZE_def KERNEL_MMIO_RANGE_START_def)
  let ?s = "s\<lparr>mm_mem := m2\<rparr>"
  let ?v = "v\<lparr>kernel_mem_region := r1, mmio_region := r2, vm_mm := ?s\<rparr>"
  have al: "vr_allocator (kernel_mem_region ?v) =
      \<lparr>bm_bitmap = b1, bm_page_count = KERNEL_VM_RANGE_SIZE div PAGE_SIZE, bm_pool = KERNEL_VM_RANGE_BASE\<rparr>"
    "vr_allocator (mmio_region ?v) =
      \<lparr>bm_bitmap = b2, bm_page_count = KERNEL_MMIO_RANGE_SIZE div PAGE_SIZE, bm_pool = KERNEL_MMIO_RANGE_START\<rparr>"
    using r1(4) r2(4) by (simp_all add: v_def boot_regions_def STATIC_ALLOC_VM_REGION_def)
  then have n: "bm_count (vr_allocator r1) = 262144" "bm_count (vr_allocator r2) = 65536"
    "bm_addr (vr_allocator r1) k = KERNEL_VM_RANGE_BASE + of_nat k * PAGE_SIZE"
    "bm_addr (vr_allocator r2) k = KERNEL_MMIO_RANGE_START + of_nat k * PAGE_SIZE" for k
    by (simp_all add: bm_addr_def bm_page_to_addr_def KERNEL_VM_RANGE_SIZE_def KERNEL_MMIO_RANGE_SIZE_def PAGE_SIZE_def)
  from layout_apart [OF al image pages] have apart: "regions_apart (ran T \<union> set xs) ?v" .
  note ap = regions_apartD [OF apart]
  have same: "m2 x = mm_mem s x" if "p \<in> ran T \<union> set xs" "x \<in> page_bytes p" for p x
    using ap(2) [OF that, of KernelMemRegion] ap(2) [OF that, of MmioRegion] r1(6) r2(6) by (simp add: bm_frame_bytes)
  have cong: "pt_inv li root ?s T xs" "\<And>u. pte T ?s u = pte T s u"
    by (rule pt_inv_cong [OF pt]; use same in simp)+
  have keep: "m2 x = m1 x" if "x \<in> bitmap_bytes (vr_allocator r1)" for x
    using ap(4) [of KernelMemRegion MmioRegion x] that r2(6) by (simp add: bm_frame_bytes)
  have "region_inv r1 m2" by (rule region_inv_cong [OF r1(2) keep])
  moreover have "bm_pages (vr_allocator r1) m2 = {}" using bm_pages_cong [of "vr_allocator r1" m2 m1] keep r1(5) by simp
  ultimately have "vmm_inv li ?v T xs"
    unfolding vmm_inv_def all_regions mapped_iff_used_def
    using apart cong r2(2,5) unmapped n by (simp add: v_def boot_regions_def)
  then show ?thesis using r1(1,3) r2(1,3) cong(2) by blast
qed

text \<open>A machine with five pages of memory and the regions of the kernel.\<close>

lemma demo_vmm:
  "\<exists>v T xs. vmm_inv demo_map v T xs \<and> length xs = 4 \<and> region_live (region_of i v) = {} \<and>
     \<not> region_exhausted (region_of i v) (mm_mem (vm_mm v)) 1"
proof -
  obtain s T xs where d: "pt_inv demo_map 0xffff000000005000 s T xs" "length xs = 4" "\<forall>v. pte T s v = 0"
    "ran T \<union> set xs = {0xffff000000001000, 0xffff000000002000, 0xffff000000003000, 0xffff000000004000, 0xffff000000005000}"
    using demo_tables by blast
  let ?v = "boot_regions 0xffffffff80200000 0xffffffff80300000 s 0xffff000000005000"
  obtain r1 m1 r2 m2 where r: "region_init (kernel_mem_region ?v) ''kernel heap region'' (mm_mem s) = Inr (r1, m1)"
    "region_init (mmio_region ?v) ''mmio region'' m1 = Inr (r2, m2)" "region_live r1 = {}" "region_live r2 = {}"
    "vmm_inv demo_map (?v\<lparr>kernel_mem_region := r1, mmio_region := r2, vm_mm := s\<lparr>mm_mem := m2\<rparr>\<rparr>) T xs"
    using boot_regions_inv [OF d(1), of "0xffffffff80200000" "0xffffffff80300000"] d(3,4) by auto
  let ?w = "?v\<lparr>kernel_mem_region := r1, mmio_region := r2, vm_mm := s\<lparr>mm_mem := m2\<rparr>\<rparr>"
  have size: "0 < vr_allocations_size r1" "0 < vr_allocations_size r2"
    using r(1,2) by (auto simp: region_init_def Let_def boot_regions_def STATIC_ALLOC_VM_REGION_def
        SIZE_TO_BITMAP_BYTES_def PAGE_SIZE_def KERNEL_VM_RANGE_SIZE_def KERNEL_MMIO_RANGE_SIZE_def split: if_splits)
  have live: "region_live (region_of i ?w) = {}" using r(3,4) by (cases i) simp_all
  have "0 < vr_allocations_size (region_of i ?w)" using size by (cases i) simp_all
  moreover have "1 \<le> bm_count (vr_allocator (region_of i ?w))"
    using vmm_invD(6) [OF r(5), of i] by (simp add: bm_inv_def)
  ultimately have "\<not> region_exhausted (region_of i ?w) (mm_mem (vm_mm ?w)) 1"
    by (rule not_exhausted [OF vmm_invD(2) [OF r(5)] live])
  with r(5) d(2) live show ?thesis by blast
qed

section \<open>Properties\<close>

lemma taken_fresh:
  assumes inv: "vmm_inv li v T xs" and taken: "pages_taken li v T xs i n k v1" and n: "0 < n"
  shows "bm_addr (vr_allocator (region_of i v)) k \<notin> fst ` region_live (region_of i v)"
proof
  let ?a = "vr_allocator (region_of i v)"
  assume "bm_addr ?a k \<in> fst ` region_live (region_of i v)"
  then obtain m where "(bm_addr ?a k, m) \<in> region_live (region_of i v)" by force
  moreover have "k < bm_count ?a" using pages_takenD(1) [OF inv taken n] n by simp
  ultimately have "k \<in> bm_pages ?a (mm_mem (vm_mm v))" by (rule live_page_used [OF vmm_invD(2) [OF inv]])
  moreover have "k \<in> {k..<k + n}" using n by simp
  ultimately show False using taken unfolding pages_taken_def Let_def bm_run_def by blast
qed

text \<open>
  C13.  Allocating virtual memory.  With four free pages for every page asked for (one for the data
  and three for tables), \<open>vm_alloc\<close> returns.  Either the region has no entry or no run of pages
  left, and the result is \<open>-ENOMEM\<close> with nothing changed; or the result is a new allocation of
  the region, its pages are mapped to pairwise different pages that were free and are not free
  any more, its bytes are zero, all other translations are as before, and the invariant that ties
  regions and tables together holds again.
\<close>

theorem vm_alloc_maps_fresh_pages:
  assumes "vmm_inv li v T xs" and "unat sz div 4096 = n" and "0 < n" and "4 * n \<le> length xs"
  shows "(\<exists>c. vm_alloc li sz i attrs v = Inr (ERR_TO_PTR (- errnum ENOMEM), v\<lparr>vm_mm := (vm_mm v)\<lparr>mm_core := c\<rparr>\<rparr>) \<and>
      irq_view c = irq_view (mm_core (vm_mm v)) \<and> region_exhausted (region_of i v) (mm_mem (vm_mm v)) n) \<or>
    (\<exists>start v' T' ys ps. vm_alloc li sz i attrs v = Inr (start, v') \<and> vmm_inv li v' T' ys \<and>
      start \<notin> fst ` region_live (region_of i v) \<and>
      region_live (region_of i v') = insert (start, of_nat n) (region_live (region_of i v)) \<and>
      length ps = n \<and> distinct ps \<and> set ps \<subseteq> set xs \<and> set ps \<inter> set ys = {} \<and>
      (\<forall>k < n. paging_lookup li (kernel_page_table v') (start + of_nat k * PAGE_SIZE) (vm_mm v') =
         Inr (ps ! k - hhdm li, vm_mm v')) \<and>
      (\<forall>x. in_region x start (n * 4096) \<longrightarrow> mm_mem (vm_mm v') x = 0) \<and>
      (\<forall>u. (\<forall>k < n. vpn u \<noteq> vpn (start + of_nat k * PAGE_SIZE)) \<longrightarrow> pte T' (vm_mm v') u = pte T (vm_mm v) u))"
  using vm_alloc_spec [OF assms(1), of sz i attrs, unfolded assms(2), OF assms(3,4)]
proof (elim disjE exE conjE)
  let ?a = "vr_allocator (region_of i v)"
  fix k v1 s' T' ys ps
  assume al: "vm_alloc li sz i attrs v = Inr (bm_addr ?a k, v1\<lparr>vm_mm := s'\<rparr>)" "vmm_inv li (v1\<lparr>vm_mm := s'\<rparr>) T' ys"
    and tk: "pages_taken li v T xs i n k v1"
    and pm: "pages_mapped li attrs (bm_addr ?a k) n T xs (vm_mm v1) T' ys ps s'"
  note td = pages_takenD [OF assms(1) tk assms(3)]
  have same: "kernel_page_table v1 = kernel_page_table v" "\<And>u. pte T (vm_mm v1) u = pte T (vm_mm v) u"
    "region_live (region_of i v1) = insert (bm_addr ?a k, of_nat n) (region_live (region_of i v))"
    using tk by (simp_all add: pages_taken_def Let_def)
  have pt: "pt_inv li (kernel_page_table v) s' T' ys" using vmm_invD(1) [OF al(2)] same(1) by simp
  have lookup: "paging_lookup li (kernel_page_table v) (bm_addr ?a k + of_nat l * PAGE_SIZE) s' = Inr (ps ! l - hhdm li, s')"
    if l: "l < n" for l
  proof (rule lookup_mapped_page [OF pt])
    show "pte T' s' (bm_addr ?a k + of_nat l * PAGE_SIZE) = page_descriptor attrs (ps ! l - hhdm li) 0"
      using pm l unfolding pages_mapped_def by blast
    show "page_ok li (ps ! l)" using pm l unfolding pages_mapped_def list_all_length by metis
    have "k + l + 1 \<le> bm_count ?a" using td(1) l by simp
    from bm_addr_range(1) [OF vmm_invD(6) [OF assms(1)] this] show "IS_PAGE_ALIGNED (bm_addr ?a k + of_nat l * PAGE_SIZE)"
      by (simp add: bm_addr_step)
  qed
  show ?thesis
    by (rule disjI2, rule exI [of _ "bm_addr ?a k"], rule exI [of _ "v1\<lparr>vm_mm := s'\<rparr>"], rule exI [of _ T'],
        rule exI [of _ ys], rule exI [of _ ps])
       (use al(1,2) taken_fresh [OF assms(1) tk assms(3)] same lookup pm in \<open>auto simp: pages_mapped_def\<close>)
qed (use pop_push_cycle(2) [OF vmm_invD(5) [OF assms(1)]] in blast)

theorem vm_alloc_maps_fresh_pages_witness:
  "\<exists>v T xs start v'. vmm_inv demo_map v T xs \<and> vm_alloc_mem demo_map 0x1800 v = Inr (start, v') \<and>
     region_live (kernel_mem_region v') = {(start, 1)} \<and> mm_mem (vm_mm v') start = 0"
proof -
  obtain v T xs where d: "vmm_inv demo_map v T xs" "length xs = 4" "region_live (kernel_mem_region v) = {}"
    "\<not> region_exhausted (kernel_mem_region v) (mm_mem (vm_mm v)) 1"
    using demo_vmm [of KernelMemRegion] by auto
  have "unat (0x1800 :: usize) div 4096 = 1" "0 < (1 :: nat)" "4 * 1 \<le> length xs" using d(2) by simp_all
  from vm_alloc_maps_fresh_pages [OF d(1) this, of KernelMemRegion mem_attrs] d(3,4)
  obtain start v' where r: "vm_alloc demo_map 0x1800 KernelMemRegion mem_attrs v = Inr (start, v')"
    "region_live (kernel_mem_region v') = {(start, 1)}" "\<forall>x. in_region x start (1 * 4096) \<longrightarrow> mm_mem (vm_mm v') x = 0"
    by auto
  have "mm_mem (vm_mm v') start = 0" using r(3) by simp
  with d(1) r(1,2) show ?thesis unfolding vm_alloc_mem_def by blast
qed

text \<open>
  C30.  Unmapping undoes mapping.  As long as the region is not exhausted, \<open>vm_map\<close> of whole pages
  returns a fresh address, records the allocation and maps every page there to its page of the given
  physical range; \<open>vm_unmap\<close> of that address and size returns \<open>EOK\<close>, and then the live
  allocations of the region and all leaf descriptors are those from before.  The invariant holds in
  between and at the end.
\<close>

theorem vm_map_unmap_roundtrip:
  assumes "vmm_inv li v T xs" and "unat sz = n * 4096" and "0 < n" and "3 * n \<le> length xs"
    and "\<not> region_exhausted (region_of i v) (mm_mem (vm_mm v)) n"
  shows "\<exists>va v1 v2 T' ys. vm_map li pa sz i attrs v = Inr (va, v1) \<and> va \<notin> fst ` region_live (region_of i v) \<and>
    (\<exists>T1 ys1. vmm_inv li v1 T1 ys1 \<and> region_live (region_of i v1) = insert (va, of_nat n) (region_live (region_of i v)) \<and>
      (\<forall>k < n. pte T1 (vm_mm v1) (va + of_nat k * PAGE_SIZE) = page_descriptor attrs (pa + of_nat k * PAGE_SIZE) 0)) \<and>
    vm_unmap li va sz i v1 = Inr (errnum EOK, v2) \<and> vmm_inv li v2 T' ys \<and>
    region_live (region_of i v2) = region_live (region_of i v) \<and>
    (\<forall>u. pte T' (vm_mm v2) u = pte T (vm_mm v) u)"
proof -
  let ?a = "vr_allocator (region_of i v)"
  have n: "unat sz div 4096 = n" "IS_PAGE_ALIGNED sz" using assms(2) by (simp_all add: IS_PAGE_ALIGNED_iff)
  obtain k v1 s' T' ys where m: "vm_map li pa sz i attrs v = Inr (bm_addr ?a k, v1\<lparr>vm_mm := s'\<rparr>)"
    "vmm_inv li (v1\<lparr>vm_mm := s'\<rparr>) T' ys" and tk: "pages_taken li v T xs i n k v1"
    and p: "\<And>u. pte T' s' u = range_pte attrs (bm_addr ?a k) pa n (pte T (vm_mm v)) u"
    using vm_map_spec [OF assms(1) n(2), unfolded n(1), OF assms(3,4), where i = i and pa = pa and attrs = attrs] assms(5)
    by blast
  let ?v = "v1\<lparr>vm_mm := s'\<rparr>"
  note td = pages_takenD [OF assms(1) tk assms(3)]
  have live: "region_live (region_of i ?v) = insert (bm_addr ?a k, of_nat n) (region_live (region_of i v))"
    "pte T (vm_mm v1) = pte T (vm_mm v)" using tk by (auto simp: pages_taken_def Let_def)
  have un: "unat (of_nat n :: usize) = n" using td(2) by (intro unat_of_nat_u64) simp
  have "(bm_addr ?a k, of_nat n) \<in> region_live (region_of i ?v)" using live(1) by simp
  from vm_unmap_spec [OF m(2) this, of sz] obtain v2 where u: "vm_unmap li (bm_addr ?a k) sz i ?v = Inr (errnum EOK, v2)"
    "vmm_inv li v2 T' ys" "region_live (region_of i v2) = region_live (region_of i ?v) - {(bm_addr ?a k, of_nat n)}"
    "\<forall>u. pte T' (vm_mm v2) u = (if \<exists>l < n. vpn u = vpn (bm_addr ?a k + of_nat l * PAGE_SIZE) then 0 else pte T' (vm_mm ?v) u)"
    using assms(2) un by auto
  have fr: "bm_addr ?a k \<notin> fst ` region_live (region_of i v)" by (rule taken_fresh [OF assms(1) tk assms(3)])
  then have same_live: "region_live (region_of i v2) = region_live (region_of i v)" unfolding u(3) live(1) by force
  have "pte T' (vm_mm v2) w = pte T (vm_mm v) w" for w
  proof (cases "\<exists>l < n. vpn w = vpn (bm_addr ?a k + of_nat l * PAGE_SIZE)")
    case True
    then obtain l where l: "l < n" "vpn w = vpn (bm_addr ?a k + of_nat l * PAGE_SIZE)" by blast
    have "pte T (vm_mm v) w = pte T (vm_mm v) (bm_addr ?a k + of_nat l * PAGE_SIZE)"
      unfolding pte_def using l(2) same_slot by metis
    then have "\<not> desc_is_valid (pte T (vm_mm v) w)" using td(7) [OF l(1)] live(2) by simp
    then have "pte T (vm_mm v) w = 0" by (rule invalid_pte_zero [OF vmm_invD(1) [OF assms(1)]])
    then show ?thesis using u(4) [rule_format, of w] True by (simp only: if_True)
  next
    case False
    then have "pte T' s' w = pte T (vm_mm v) w" unfolding p by (intro range_pte_outside) blast
    then show ?thesis using u(4) [rule_format, of w] False by (simp only: if_False) simp
  qed
  moreover have "pte T' (vm_mm ?v) (bm_addr ?a k + of_nat l * PAGE_SIZE) = page_descriptor attrs (pa + of_nat l * PAGE_SIZE) 0" if "l < n" for l
    using p range_pte_at [OF that _ td(2) refl, of "bm_addr ?a k"] td(4) by simp
  ultimately show ?thesis using m u(1,2) same_live fr live(1)
    by (intro exI [of _ "bm_addr ?a k"] exI [of _ ?v] exI [of _ v2] exI [of _ T'] exI [of _ ys]) blast
qed

theorem vm_map_unmap_roundtrip_witness:
  "\<exists>v va v1 v2. vm_map demo_map 0x9000000 0x1000 MmioRegion mmio_attrs v = Inr (va, v1) \<and>
     region_live (mmio_region v1) = {(va, 1)} \<and> vm_unmap demo_map va 0x1000 MmioRegion v1 = Inr (errnum EOK, v2) \<and>
     region_live (mmio_region v2) = {}"
proof -
  obtain v T xs where d: "vmm_inv demo_map v T xs" "length xs = 4" "region_live (region_of MmioRegion v) = {}"
    "\<not> region_exhausted (region_of MmioRegion v) (mm_mem (vm_mm v)) 1"
    using demo_vmm [of MmioRegion] by auto
  have "unat (0x1000 :: usize) = 1 * 4096" "0 < (1 :: nat)" "3 * 1 \<le> length xs" using d(2) by simp_all
  from vm_map_unmap_roundtrip [OF d(1) this d(4), of "0x9000000" mmio_attrs] d(3) show ?thesis by auto
qed

text \<open>
  C24.  \<open>vm_free\<close> never returns: for a live allocation it panics with the message of \<open>region_free\<close>,
  since the \<open>vm_unmap\<close> of its first page has already freed the entry.
\<close>

theorem vm_free_always_panics:
  assumes "vmm_inv li v T xs" and "(p, n) \<in> region_live (region_of i v)"
  shows "vm_free li p i v = Inl (Panic ''tried freeing non existent allocation'')"
  using assms by (rule vm_free_panics)

theorem vm_free_always_panics_witness:
  "\<exists>v start v'. vm_alloc demo_map 0x1000 KernelMemRegion mem_attrs v = Inr (start, v') \<and>
     vm_free_mem demo_map start v' = Inl (Panic ''tried freeing non existent allocation'')"
proof -
  obtain v T xs where d: "vmm_inv demo_map v T xs" "length xs = 4"
    "\<not> region_exhausted (region_of KernelMemRegion v) (mm_mem (vm_mm v)) 1"
    using demo_vmm [of KernelMemRegion] by auto
  obtain k v1 s' T' ys where m: "vm_alloc demo_map 0x1000 KernelMemRegion mem_attrs v =
      Inr (bm_addr (vr_allocator (region_of KernelMemRegion v)) k, v1\<lparr>vm_mm := s'\<rparr>)" "vmm_inv demo_map (v1\<lparr>vm_mm := s'\<rparr>) T' ys"
    "pages_taken demo_map v T xs KernelMemRegion 1 k v1"
    using vm_alloc_spec [OF d(1), of "0x1000" KernelMemRegion mem_attrs] d(2,3) by auto
  have "(bm_addr (vr_allocator (region_of KernelMemRegion v)) k, 1) \<in> region_live (region_of KernelMemRegion (v1\<lparr>vm_mm := s'\<rparr>))"
    using m(3) by (simp add: pages_taken_def Let_def)
  from vm_free_always_panics [OF m(2) this] m(1) show ?thesis unfolding vm_free_mem_def by blast
qed

end
