(* ===== verification/Kheap.thy ===== *)
theory Kheap
  imports Free_List Vmm
begin

text \<open>
  The kernel heap of \<open>kernel/mm/kheap.c\<close>: a free list over pools of mapped kernel memory, behind
  a lock.  An allocation that does not fit makes the heap ask the virtual memory manager for
  another pool.

  The invariant puts the parts below together: the blocks of the free list, free or allocated,
  lie inside live allocations of the kernel memory region, so that writing to them touches
  neither page tables nor free pages nor the bitmaps of the regions.
\<close>

section \<open>State and operations\<close>

definition INITIAL_HEAP_SIZE :: usize where
  "INITIAL_HEAP_SIZE = round_up (5 * 1000 * 1000) PAGE_SIZE"

definition MAX_HEAP_SIZE :: usize where
  "MAX_HEAP_SIZE = 50 * 1000 * 1000"

record kheap =
  kh_lock :: spinlock
  kh_freelist :: free_list

abbreviation vm_mem :: "vmm \<Rightarrow> mem" where
  "vm_mem v \<equiv> mm_mem (vm_mm v)"

abbreviation vm_core :: "vmm \<Rightarrow> core" where
  "vm_core v \<equiv> mm_core (vm_mm v)"

definition set_mem :: "mem \<Rightarrow> vmm \<Rightarrow> vmm" where
  "set_mem m v = v\<lparr>vm_mm := (vm_mm v)\<lparr>mm_mem := m\<rparr>\<rparr>"

definition set_core :: "core \<Rightarrow> vmm \<Rightarrow> vmm" where
  "set_core c v = v\<lparr>vm_mm := (vm_mm v)\<lparr>mm_core := c\<rparr>\<rparr>"

text \<open>
  The pool that \<open>vm_alloc_mem\<close> returns is not tested for an error; a write through an error
  pointer goes to the last page of the address space, which the kernel never maps.
\<close>

definition pool_access :: "ptr \<Rightarrow> kerror + unit" where
  "pool_access pool = (if IS_ERR pool then Inl (Fault pool) else Inr ())"

definition kheap_init :: "limine \<Rightarrow> vmm \<Rightarrow> kerror + kheap \<times> vmm" where
  "kheap_init li v =
     (let lock = spinlock_init ''kheap'' in
      bindE (vm_alloc_mem li INITIAL_HEAP_SIZE v) (\<lambda>(pool, v).
      bindE (pool_access pool) (\<lambda>_.
      let (fl, m) = freelist_init pool INITIAL_HEAP_SIZE (vm_mem v)
      in Inr (\<lparr>kh_lock = lock, kh_freelist = fl\<rparr>, set_mem m v))))"

definition grow_heap :: "limine \<Rightarrow> usize \<Rightarrow> free_list \<Rightarrow> vmm \<Rightarrow> kerror + free_list \<times> vmm" where
  "grow_heap li sz fl v =
     bindE (assertE (sz \<noteq> 0) ''size is 0'') (\<lambda>_.
     if fl_capacity fl + sz > MAX_HEAP_SIZE then Inr (fl, v)
     else
       let rounded_size = round_up sz PAGE_SIZE in
       bindE (vm_alloc_mem li rounded_size v) (\<lambda>(pool, v).
       bindE (pool_access pool) (\<lambda>_.
       bindE (freelist_add_region fl pool rounded_size (vm_mem v)) (\<lambda>(fl, m).
       Inr (fl, set_mem m v)))))"

definition heap_alloc :: "usize \<Rightarrow> free_list \<Rightarrow> vmm \<Rightarrow> kerror + ptr \<times> free_list \<times> vmm" where
  "heap_alloc sz fl v = bindE (freelist_alloc fl sz (vm_mem v)) (\<lambda>(p, fl, m). Inr (p, fl, set_mem m v))"

definition kalloc_locked :: "limine \<Rightarrow> usize \<Rightarrow> free_list \<Rightarrow> vmm \<Rightarrow> kerror + ptr \<times> free_list \<times> vmm" where
  "kalloc_locked li sz fl v =
     bindE (heap_alloc sz fl v) (\<lambda>(alloc, fl, v).
     bindE (if IS_ERR alloc
            then bindE (grow_heap li sz fl v) (\<lambda>(fl, v). heap_alloc sz fl v)
            else Inr (alloc, fl, v)) (\<lambda>(alloc, fl, v).
     if IS_ERR alloc then Inr (ERR_TO_PTR (- errnum ENOMEM), fl, v) else Inr (alloc, fl, v)))"

definition kalloc :: "limine \<Rightarrow> usize \<Rightarrow> kheap \<Rightarrow> vmm \<Rightarrow> kerror + ptr \<times> kheap \<times> vmm" where
  "kalloc li sz kh v =
     bindE (spinlock_scoped (vm_core v) (kh_lock kh) (\<lambda>c.
       bindE (kalloc_locked li sz (kh_freelist kh) (set_core c v)) (\<lambda>(p, fl, v). Inr ((p, fl, v), vm_core v))))
     (\<lambda>((p, fl, v), c, lock). Inr (p, \<lparr>kh_lock = lock, kh_freelist = fl\<rparr>, set_core c v))"

definition kfree :: "ptr \<Rightarrow> kheap \<Rightarrow> vmm \<Rightarrow> kerror + kheap \<times> vmm" where
  "kfree p kh v =
     bindE (assertE (p \<noteq> nullptr) ''ptr is null'') (\<lambda>_.
     bindE (spinlock_scoped (vm_core v) (kh_lock kh) (\<lambda>c.
       bindE (freelist_free (kh_freelist kh) p (vm_mem v)) (\<lambda>a. Inr (a, c))))
     (\<lambda>((fl, m), c, lock). Inr (\<lparr>kh_lock = lock, kh_freelist = fl\<rparr>, set_core c (set_mem m v))))"

section \<open>Bytes of live allocations\<close>

definition live_bytes :: "vm_region \<Rightarrow> ptr set" where
  "live_bytes r = (\<Union>(p, n) \<in> region_live r. {x. in_region x p (unat n * 4096)})"

lemma range_index:
  assumes "bm_inv a" and "k + n \<le> bm_count a" and "0 < n"
  shows "in_region x (bm_addr a k) (n * 4096) \<longleftrightarrow>
    unat (bm_pool a) \<le> unat x \<and> (unat x - unat (bm_pool a)) div 4096 \<in> {k..<k + n}"
proof -
  have u: "unat (bm_addr a k) = unat (bm_pool a) + k * 4096" using assms by (intro unat_bm_addr) auto
  have "in_region x (bm_addr a k) (n * 4096) \<longleftrightarrow>
      unat (bm_pool a) + k * 4096 \<le> unat x \<and> unat x < unat (bm_pool a) + (k + n) * 4096"
    using bm_addr_range(2) [OF assms] u by (subst in_region_iff) (simp_all add: algebra_simps)
  also have "\<dots> \<longleftrightarrow> unat (bm_pool a) \<le> unat x \<and> (unat x - unat (bm_pool a)) div 4096 \<in> {k..<k + n}"
    by (auto simp: less_eq_div_iff_mult_less_eq div_less_iff_less_mult)
  finally show ?thesis .
qed

lemma live_index:
  assumes inv: "vmm_inv li v T xs" and x: "x \<in> live_bytes (region_of i v)"
  defines "a \<equiv> vr_allocator (region_of i v)"
  shows "x \<in> range_bytes a" and "unat (bm_pool a) \<le> unat x"
    and "(unat x - unat (bm_pool a)) div 4096 \<in> bm_pages a (vm_mem v)"
proof -
  obtain p n where pn: "(p, n) \<in> region_live (region_of i v)" "in_region x p (unat n * 4096)"
    using x by (auto simp: live_bytes_def)
  obtain k v1 where k: "p = bm_addr a k" "pages_given li v T xs i (unat n) k v1"
    using vm_region_free_spec [OF inv pn(1)] unfolding a_def by blast
  have g: "k + unat n \<le> bm_count a" "0 < unat n" "{k..<k + unat n} \<subseteq> bm_pages a (vm_mem v)"
    using k(2) by (simp_all add: pages_given_def Let_def a_def)
  have a: "bm_inv a" using vmm_invD(6) [OF inv] by (simp add: a_def)
  have ri: "unat (bm_pool a) \<le> unat x \<and> (unat x - unat (bm_pool a)) div 4096 \<in> {k..<k + unat n}"
    using pn(2) unfolding k(1) range_index [OF a g(1,2)] .
  then show "unat (bm_pool a) \<le> unat x" by blast
  show "(unat x - unat (bm_pool a)) div 4096 \<in> bm_pages a (vm_mem v)" using ri g(3) by blast
  show "x \<in> range_bytes a" using bm_addr_range(3) [OF a g(1,2)] pn(2) k(1) by blast
qed

lemma live_bytes_insert: "live_bytes r' = live_bytes r \<union> {x. in_region x p (unat n * 4096)}"
  if "region_live r' = insert (p, n) (region_live r)"
  unfolding live_bytes_def that by auto

text \<open>A fresh allocation shares no byte with the live ones.\<close>

lemma taken_disjoint:
  assumes inv: "vmm_inv li v T xs" and tk: "pages_taken li v T xs i n k v1" and n: "0 < n"
    and x: "x \<in> live_bytes (region_of i v)"
  shows "\<not> in_region x (bm_addr (vr_allocator (region_of i v)) k) (n * 4096)"
proof -
  let ?a = "vr_allocator (region_of i v)"
  have "{k..<k + n} \<inter> bm_pages ?a (vm_mem v) = {}"
    using tk by (simp add: pages_taken_def Let_def bm_run_def)
  then show ?thesis
    using live_index [OF inv x] range_index [OF vmm_invD(6) [OF inv] pages_takenD(1) [OF inv tk n] n]
    by blast
qed

section \<open>Frames\<close>

lemma set_mem_simps [simp]:
  "vm_mem (set_mem m v) = m" "vm_core (set_mem m v) = vm_core v" "region_of i (set_mem m v) = region_of i v"
  "vm_mem (set_core c v) = vm_mem v" "vm_core (set_core c v) = c" "region_of i (set_core c v) = region_of i v"
  "mm_kmem (vm_mm (set_mem m v)) = mm_kmem (vm_mm v)" "mm_kmem (vm_mm (set_core c v)) = mm_kmem (vm_mm v)"
  "kernel_page_table (set_mem m v) = kernel_page_table v" "kernel_page_table (set_core c v) = kernel_page_table v"
  by (simp_all add: set_mem_def set_core_def)

lemma vmm_inv_write:
  assumes inv: "vmm_inv li v T xs" and same: "same_outside (live_bytes (region_of i v)) (vm_mem v) m"
  shows "vmm_inv li (set_mem m v) T xs" and "\<And>u. pte T (vm_mm (set_mem m v)) u = pte T (vm_mm v) u"
proof -
  note vd = vmm_invD [OF inv] and ap = regions_apartD [OF vmm_invD(4) [OF inv]]
  have out: "m x = vm_mem v x" if "x \<notin> range_bytes (vr_allocator (region_of i v))" for x
    using same live_index(1) [OF inv] that unfolding same_outside_def by blast
  have pages: "vm_mem (set_mem m v) x = vm_mem v x" if "p \<in> ran T \<union> set xs" "x \<in> page_bytes p" for p x
    using ap(2) [OF that, of i] out by simp
  have bits: "m x = vm_mem v x" if "x \<in> bitmap_bytes (vr_allocator (region_of j v))" for j x
    using ap(3) [of x i j] that out by blast
  have "pt_inv li (kernel_page_table v) (vm_mm (set_mem m v)) T xs"
    by (rule pt_inv_cong [OF vd(1)]) (use pages in simp_all)
  moreover show "\<And>u. pte T (vm_mm (set_mem m v)) u = pte T (vm_mm v) u"
    by (rule pt_inv_cong [OF vd(1)]) (use pages in simp_all)
  moreover have "region_inv (region_of j v) m" for j by (rule region_inv_cong [OF vd(2) bits])
  moreover have "bm_pages (vr_allocator (region_of j v)) m = bm_pages (vr_allocator (region_of j v)) (vm_mem v)" for j
    by (rule bm_pages_cong) (rule bits)
  ultimately show "vmm_inv li (set_mem m v) T xs"
    using inv unfolding vmm_inv_def mapped_iff_used_def by (simp add: regions_apart_same [of "set_mem m v" v])
qed

lemma vmm_inv_core:
  assumes "vmm_inv li v T xs" and "core_ok (Suc 0) c"
  shows "vmm_inv li (set_core c v) T xs"
proof -
  have "pte T (vm_mm (set_core c v)) u = pte T (vm_mm v) u" for u by (simp add: pte_def)
  then show ?thesis
    using assms unfolding vmm_inv_def mapped_iff_used_def pt_inv_def
    by (simp add: regions_apart_same [of "set_core c v" v])
qed

lemma heap_rep_frame:
  assumes rep: "heap_rep fl m bs U" and same: "same_outside S m m'"
    and "fl_bytes bs \<inter> S = {}" and "\<forall>u \<in> U. block u \<inter> S = {}"
  shows "heap_rep fl m' bs U"
proof -
  have fr: "fl_wf bs" "fl_seg m (fl_head fl) bs nullptr" using rep by (simp_all add: heap_rep_def fl_rep_def)
  have "fl_seg m' (fl_head fl) bs nullptr"
    using fr(2) same
  proof (rule fl_seg_frame)
    fix b assume b: "b \<in> set bs"
    then have ok: "block_ok b" using fr(1) by (rule fl_wf_block [rotated])
    moreover have "span (fst b) 16 \<subseteq> fl_bytes bs"
      using span_mono [of 16 "unat (snd b)" "fst b"] ok b by (auto simp: fl_bytes_def block_ok_def)
    ultimately show "block_ok b \<and> span (fst b) 16 \<inter> S = {}" using assms(3) by blast
  qed
  moreover have "be_size m' (fst u) = snd u" if "u \<in> U" for u
    using used_header_frame [OF same] rep assms(4) that unfolding heap_rep_def by metis
  ultimately show ?thesis using rep fr(1) unfolding heap_rep_def fl_rep_def by simp
qed

section \<open>The invariant and the critical sections\<close>

definition heap_inv ::
  "limine \<Rightarrow> free_list \<Rightarrow> vmm \<Rightarrow> tree \<Rightarrow> ptr list \<Rightarrow> blocks \<Rightarrow> (ptr \<times> usize) set \<Rightarrow> bool" where
  "heap_inv li fl v T xs bs U \<longleftrightarrow> vmm_inv li v T xs \<and> heap_rep fl (vm_mem v) bs U \<and>
     fl_bytes bs \<union> (\<Union>u \<in> U. block u) \<subseteq> live_bytes (region_of KernelMemRegion v)"

lemma heap_alloc_inv:
  assumes inv: "heap_inv li fl v T xs bs U" and "bs \<noteq> []" and sz: "sz \<noteq> 0" "unat sz + 16 < 2 ^ 64"
  shows "heap_alloc sz fl v = Inr (ERR_TO_PTR (- errnum ENOMEM), fl, v) \<and> (\<forall>b \<in> set bs. unat (snd b) < unat sz + 16) \<or>
    (\<exists>b bs' fl' m'. heap_alloc sz fl v = Inr (fst b + 16, fl', set_mem m' v) \<and> \<not> IS_ERR (fst b + 16) \<and>
      heap_inv li fl' (set_mem m' v) T xs bs' (insert b U) \<and> b \<notin> U \<and> unat sz + 16 \<le> unat (snd b) \<and>
      same_outside (fl_bytes bs) (vm_mem v) m' \<and> fl_take (sz + 16) bs = Some (b, bs'))"
proof -
  have i: "vmm_inv li v T xs" "heap_rep fl (vm_mem v) bs U"
    "fl_bytes bs \<union> (\<Union>u \<in> U. block u) \<subseteq> live_bytes (region_of KernelMemRegion v)"
    using inv by (simp_all add: heap_inv_def)
  have same: "set_mem (vm_mem v) v = v" by (simp add: set_mem_def)
  from heap_alloc_spec [OF i(2) assms(2) sz] show ?thesis
  proof (elim disjE exE conjE)
    fix b bs' fl' m'
    assume a: "freelist_alloc fl sz (vm_mem v) = Inr (fst b + 16, fl', m')" "heap_rep fl' m' bs' (insert b U)" "b \<notin> U"
      "unat sz + 16 \<le> unat (snd b)" "fl_bytes bs = block b \<union> fl_bytes bs'" "same_outside (fl_bytes bs) (vm_mem v) m'"
      "fl_take (sz + 16) bs = Some (b, bs')"
    have "vmm_inv li (set_mem m' v) T xs"
      using i(3) by (intro vmm_inv_write [OF i(1), of KernelMemRegion] same_outside_mono [OF a(6)]) blast
    then have "heap_inv li fl' (set_mem m' v) T xs bs' (insert b U)"
      using a(2,5) i(3) by (auto simp: heap_inv_def)
    moreover have "block_ok b" using a(2) by (simp add: heap_rep_def)
    then have "\<not> IS_ERR (fst b + 16)" using payload_not_err size_at_least [OF sz(1) a(4)] by blast
    ultimately show ?thesis using a by (intro disjI2 exI [of _ b] exI [of _ bs'] exI [of _ fl'] exI [of _ m'])
        (simp add: heap_alloc_def)
  qed (simp add: heap_alloc_def same)
qed

text \<open>A fresh pool of whole pages is a block apart from all others.\<close>

lemma pool_block:
  assumes inv: "vmm_inv li v T xs" and tk: "pages_taken li v T xs i n k v1" and n: "0 < n"
    and sz: "unat sz = n * 4096"
  defines "a \<equiv> vr_allocator (region_of i v)"
  shows "block_ok (bm_addr a k, sz)" and "block (bm_addr a k, sz) = {x. in_region x (bm_addr a k) (n * 4096)}"
    and "\<not> IS_ERR (bm_addr a k)"
proof -
  note td = pages_takenD [OF inv tk n, folded a_def]
  have a: "bm_inv a" using vmm_invD(6) [OF inv] by (simp add: a_def)
  have "4096 dvd unat (bm_addr a k) + n * 4096" using td(3) by (auto simp: IS_PAGE_ALIGNED_iff)
  then obtain q where q: "unat (bm_addr a k) + n * 4096 = 4096 * q" by blast
  then have "q < 2 ^ 52" using td(4) by simp
  then have end_le: "unat (bm_addr a k) + n * 4096 + 4096 \<le> 2 ^ 64" using q by simp
  have "bm_pool a \<noteq> nullptr" using vmm_invD(2) [OF inv, of i] by (simp add: region_inv_def a_def)
  then have "bm_addr a k \<noteq> nullptr" using td(1) n by (intro bm_addr_not_null [OF a]) auto
  then show "block_ok (bm_addr a k, sz)" using end_le sz n by (simp add: block_ok_def)
  show "block (bm_addr a k, sz) = {x. in_region x (bm_addr a k) (n * 4096)}"
    using end_le sz by (auto simp: span_in_region)
  show "\<not> IS_ERR (bm_addr a k)" by (rule not_IS_ERR_aligned [OF td(3)])
qed

lemma unat_round_up_page:
  assumes "unat sz + 4096 < 2 ^ 64"
  shows "unat (round_up sz PAGE_SIZE) = (unat sz + 4095) div 4096 * 4096"
  using unat_round_up [of 12 sz] assms by (simp add: PAGE_SIZE_def)

text \<open>
  \<open>vm_alloc_mem\<close> seen from the heap: all live bytes keep their value, the new pool is mapped
  and zero, and only pages of the region change their translation.
\<close>

definition outside_region :: "vm_region \<Rightarrow> usize \<Rightarrow> bool" where
  "outside_region r u \<longleftrightarrow> (\<forall>k < bm_count (vr_allocator r). vpn u \<noteq> vpn (bm_addr (vr_allocator r) k))"

lemma vm_alloc_mem_live:
  assumes inv: "vmm_inv li v T xs" and sz: "unat sz = n * 4096" and n: "0 < n" and room: "4 * n \<le> length xs"
  shows "(\<exists>v'. vm_alloc_mem li sz v = Inr (ERR_TO_PTR (- errnum ENOMEM), v') \<and>
      region_exhausted (region_of KernelMemRegion v) (vm_mem v) n) \<or>
    (\<exists>pool v' T' ys. vm_alloc_mem li sz v = Inr (pool, v') \<and> vmm_inv li v' T' ys \<and> block_ok (pool, sz) \<and>
      \<not> IS_ERR pool \<and> live_bytes (region_of KernelMemRegion v') = live_bytes (region_of KernelMemRegion v) \<union> block (pool, sz) \<and>
      block (pool, sz) \<inter> live_bytes (region_of KernelMemRegion v) = {} \<and>
      irq_view (vm_core v') = irq_view (vm_core v) \<and> (\<forall>x \<in> block (pool, sz). vm_mem v' x = 0) \<and>
      length xs \<le> length ys + 4 * n \<and> mmio_region v' = mmio_region v \<and>
      (\<forall>x \<in> bitmap_bytes (vr_allocator (mmio_region v)). vm_mem v' x = vm_mem v x) \<and>
      (\<forall>x \<in> live_bytes (region_of KernelMemRegion v). vm_mem v' x = vm_mem v x) \<and>
      (\<forall>u. outside_region (region_of KernelMemRegion v) u \<longrightarrow> pte T' (vm_mm v') u = pte T (vm_mm v) u))"
proof -
  let ?r = "region_of KernelMemRegion v"
  let ?a = "vr_allocator ?r"
  have d: "unat sz div 4096 = n" using sz by simp
  from vm_alloc_spec [OF inv, of sz KernelMemRegion mem_attrs, unfolded d, OF n room] show ?thesis
  proof (elim disjE exE conjE)
    fix k v1 s' T' ys ps
    assume al: "vm_alloc li sz KernelMemRegion mem_attrs v = Inr (bm_addr ?a k, v1\<lparr>vm_mm := s'\<rparr>)"
      "vmm_inv li (v1\<lparr>vm_mm := s'\<rparr>) T' ys" and tk: "pages_taken li v T xs KernelMemRegion n k v1"
      and pm: "pages_mapped li mem_attrs (bm_addr ?a k) n T xs (vm_mm v1) T' ys ps s'"
    note pb = pool_block [OF inv tk n sz]
    note ap = regions_apartD [OF vmm_invD(4) [OF inv]]
    have t: "region_live (region_of KernelMemRegion v1) = insert (bm_addr ?a k, of_nat n) (region_live ?r)"
      "bm_frame ?a (vm_mem v) (vm_mem v1)" "irq_view (vm_core v1) = irq_view (vm_core v)"
      using tk by (simp_all add: pages_taken_def Let_def)
    have un: "unat (of_nat n :: usize) = n" using pages_takenD(2) [OF inv tk n] by (intro unat_of_nat_u64) simp
    have live: "live_bytes (region_of KernelMemRegion v1) = live_bytes ?r \<union> block (bm_addr ?a k, sz)"
      using live_bytes_insert [OF t(1)] pb(2) un by simp
    have disj: "block (bm_addr ?a k, sz) \<inter> live_bytes ?r = {}" using taken_disjoint [OF inv tk n] pb(2) by blast
    have keep: "mm_mem s' x = vm_mem v x" if x: "x \<in> live_bytes ?r" for x
    proof -
      have r: "x \<in> range_bytes ?a" by (rule live_index(1) [OF inv x])
      then have "x \<notin> bitmap_bytes ?a" using ap(3) by blast
      moreover have "\<forall>p \<in> ran T \<union> set xs. x \<notin> page_bytes p" using ap(2) [of _ x KernelMemRegion] r by blast
      moreover have "\<not> in_region x (bm_addr ?a k) (n * 4096)" by (rule taken_disjoint [OF inv tk n x])
      ultimately show ?thesis using pm t(2) unfolding pages_mapped_def bm_frame_bytes by simp
    qed
    have bits: "mm_mem s' x = vm_mem v x" if x: "x \<in> bitmap_bytes (vr_allocator (region_of MmioRegion v))" for x
    proof -
      have "x \<notin> bitmap_bytes ?a" using ap(4) [of MmioRegion KernelMemRegion x] x by simp
      moreover have "\<forall>p \<in> ran T \<union> set xs. x \<notin> page_bytes p" using ap(2) [of _ x MmioRegion] x by blast
      moreover have "\<not> in_region x (bm_addr ?a k) (n * 4096)"
        using pages_takenD(5) [OF inv tk n, of x] ap(3) [of x KernelMemRegion MmioRegion] x by blast
      ultimately show ?thesis using pm t(2) unfolding pages_mapped_def bm_frame_bytes by simp
    qed
    have other: "pte T' s' u = pte T (vm_mm v) u" if u: "outside_region ?r u" for u
    proof -
      have "vpn u \<noteq> vpn (bm_addr ?a k + of_nat l * PAGE_SIZE)" if "l < n" for l
        unfolding bm_addr_step [symmetric] using u that pages_takenD(1) [OF inv tk n] by (simp add: outside_region_def)
      then have "pte T' s' u = pte T (vm_mm v1) u" using pm unfolding pages_mapped_def by blast
      then show ?thesis using tk by (simp add: pages_taken_def Let_def)
    qed
    have "\<forall>j. j \<noteq> KernelMemRegion \<longrightarrow> region_of j v1 = region_of j v" using tk unfolding pages_taken_def Let_def by blast
    then have "region_of MmioRegion v1 = region_of MmioRegion v" by blast
    moreover have "irq_view (mm_core s') = irq_view (vm_core v)" "\<forall>x \<in> block (bm_addr ?a k, sz). mm_mem s' x = 0"
      "length xs \<le> length ys + 4 * n"
      using pm t(3) pb(2) by (simp_all add: pages_mapped_def)
    ultimately show ?thesis
      using al pb(1,3) live disj keep bits other
      by (intro disjI2 exI [of _ "bm_addr ?a k"] exI [of _ "v1\<lparr>vm_mm := s'\<rparr>"] exI [of _ T'] exI [of _ ys])
         (simp add: vm_alloc_mem_def)
  qed (auto simp: vm_alloc_mem_def)
qed

abbreviation pages_for :: "usize \<Rightarrow> nat" where
  "pages_for sz \<equiv> (unat sz + 4095) div 4096"

definition no_fit :: "usize \<Rightarrow> blocks \<Rightarrow> bool" where
  "no_fit sz bs \<longleftrightarrow> (\<forall>b \<in> set bs. unat (snd b) < unat sz + 16)"

text \<open>
  Why growing does not help: the limit is reached, or rounding the size to whole pages leaves no
  room for the header.
\<close>

definition grow_refused :: "usize \<Rightarrow> free_list \<Rightarrow> bool" where
  "grow_refused sz fl \<longleftrightarrow> MAX_HEAP_SIZE < fl_capacity fl + sz \<or> unat (round_up sz PAGE_SIZE) < unat sz + 16"

text \<open>Free blocks are separated by gaps, so a contiguous piece of free memory lies in one of them.\<close>

lemma contiguous_in_block:
  assumes "fl_wf bs" and "block_ok e" and "block e \<subseteq> fl_bytes bs"
  shows "\<exists>b \<in> set bs. unat (snd e) \<le> unat (snd b)"
proof -
  have e: "16 \<le> unat (snd e)" "unat (fst e) + unat (snd e) \<le> 2 ^ 64" using assms(2) by (simp_all add: block_ok_def)
  then have "fst e \<in> block e" by (simp add: span_def)
  then obtain b where b: "b \<in> set bs" "fst e \<in> block b" using assms(3) by (auto simp: fl_bytes_def)
  have "unat (fst e) + unat (snd e) \<le> unat (fst b) + unat (snd b)"
  proof (rule ccontr)
    assume "\<not> ?thesis"
    then have n: "unat (fst b) + unat (snd b) < unat (fst e) + unat (snd e)" by simp
    let ?x = "of_nat (unat (fst b) + unat (snd b)) :: ptr"
    have x: "unat ?x = unat (fst b) + unat (snd b)" using n e(2) by (intro unat_of_nat_u64) simp
    then have "?x \<in> block e" using n b(2) by (auto simp: span_def)
    then obtain c where c: "c \<in> set bs" "?x \<in> block c" using assms(3) by (auto simp: fl_bytes_def)
    then have ne: "c \<noteq> b" using x by (auto simp: span_def)
    have "before b c \<or> before c b" using assms(1) b(1) c(1) ne
      unfolding fl_wf_def by (metis sorted_wrt_iff_nth_less in_set_conv_nth linorder_neqE_nat)
    then show False using c(2) x b(2) by (auto simp: before_def span_def)
  qed
  moreover have "unat (fst b) \<le> unat (fst e)" using b(2) by (auto simp: span_def)
  ultimately show ?thesis using b(1) by (intro bexI [of _ b]) linarith
qed

lemma grow_heap_inv:
  assumes inv: "heap_inv li fl v T xs bs U" and sz: "sz \<noteq> 0" "unat sz + 4096 < 2 ^ 64"
    and room: "4 * pages_for sz \<le> length xs"
  shows "fl_capacity fl + sz > MAX_HEAP_SIZE \<and> grow_heap li sz fl v = Inr (fl, v) \<or>
    (\<exists>p. grow_heap li sz fl v = Inl (Fault p) \<and> region_exhausted (region_of KernelMemRegion v) (vm_mem v) (pages_for sz)) \<or>
    (\<exists>pool fl' v' T' ys. grow_heap li sz fl v = Inr (fl', v') \<and>
      heap_inv li fl' v' T' ys (fl_insert (pool, round_up sz PAGE_SIZE) bs) U \<and>
      fl_insert (pool, round_up sz PAGE_SIZE) bs \<noteq> [] \<and> irq_view (vm_core v') = irq_view (vm_core v) \<and>
      length xs \<le> length ys + 4 * pages_for sz \<and>
      (\<forall>u \<in> U. \<forall>x \<in> block u. vm_mem v' x = vm_mem v x) \<and>
      (\<exists>b \<in> set (fl_insert (pool, round_up sz PAGE_SIZE) bs). unat (round_up sz PAGE_SIZE) \<le> unat (snd b)))"
proof (cases "fl_capacity fl + sz > MAX_HEAP_SIZE")
  case True
  then show ?thesis using sz(1) by (simp add: grow_heap_def)
next
  case False
  let ?sz = "round_up sz PAGE_SIZE" and ?L = "live_bytes (region_of KernelMemRegion v)"
  have i: "vmm_inv li v T xs" "heap_rep fl (vm_mem v) bs U" "fl_bytes bs \<union> (\<Union>u \<in> U. block u) \<subseteq> ?L"
    using inv by (simp_all add: heap_inv_def)
  have n: "0 < pages_for sz" using sz(1) unat_gt_0 [of sz] by (simp add: div_greater_zero_iff)
  from vm_alloc_mem_live [OF i(1) unat_round_up_page [OF sz(2)] n room] show ?thesis
  proof (elim disjE exE conjE)
    fix v' assume "vm_alloc_mem li ?sz v = Inr (ERR_TO_PTR (- errnum ENOMEM), v')"
      "region_exhausted (region_of KernelMemRegion v) (vm_mem v) (pages_for sz)"
    then show ?thesis using False sz(1)
      by (auto simp: grow_heap_def Let_def pool_access_def IS_ERR_def ERR_TO_PTR_def)
  next
    fix pool v1 T' ys
    assume v1: "vm_alloc_mem li ?sz v = Inr (pool, v1)" "vmm_inv li v1 T' ys" "block_ok (pool, ?sz)" "\<not> IS_ERR pool"
      "live_bytes (region_of KernelMemRegion v1) = ?L \<union> block (pool, ?sz)" "block (pool, ?sz) \<inter> ?L = {}"
      "irq_view (vm_core v1) = irq_view (vm_core v)" "\<forall>x \<in> ?L. vm_mem v1 x = vm_mem v x"
      "length xs \<le> length ys + 4 * pages_for sz"
    have "same_outside (- ?L) (vm_mem v) (vm_mem v1)" using v1(8) by (simp add: same_outside_def)
    then have rep1: "heap_rep fl (vm_mem v1) bs U" by (rule heap_rep_frame [OF i(2)]) (use i(3) in blast)+
    obtain fl' m' where f: "freelist_add_region fl pool ?sz (vm_mem v1) = Inr (fl', m')"
      "heap_rep fl' m' (fl_insert (pool, ?sz) bs) U"
      "fl_bytes (fl_insert (pool, ?sz) bs) = fl_bytes bs \<union> block (pool, ?sz)" "\<forall>u \<in> U. \<forall>x \<in> block u. m' x = vm_mem v1 x"
      "same_outside (fl_bytes bs \<union> block (pool, ?sz)) (vm_mem v1) m'"
      using heap_add_region_spec [OF rep1 v1(3)] i(3) v1(6) by blast
    have "vmm_inv li (set_mem m' v1) T' ys"
      using i(3) v1(5) by (intro vmm_inv_write [OF v1(2), of KernelMemRegion] same_outside_mono [OF f(5)]) blast
    then have hi: "heap_inv li fl' (set_mem m' v1) T' ys (fl_insert (pool, ?sz) bs) U"
      using f(2,3) i(3) v1(5) by (auto simp: heap_inv_def)
    have "fl_bytes (fl_insert (pool, ?sz) bs) \<noteq> {}"
      using f(3) v1(3) by (auto simp: span_def block_ok_def)
    then have "fl_insert (pool, ?sz) bs \<noteq> []" by (auto simp: fl_bytes_def)
    moreover have "grow_heap li sz fl v = Inr (fl', set_mem m' v1)"
      using False sz(1) v1(1,4) f(1) by (simp add: grow_heap_def Let_def pool_access_def)
    moreover have "\<forall>u \<in> U. \<forall>x \<in> block u. m' x = vm_mem v x" using f(4) v1(8) i(3) by fastforce
    moreover have "\<exists>b \<in> set (fl_insert (pool, ?sz) bs). unat ?sz \<le> unat (snd b)"
      using contiguous_in_block [of "fl_insert (pool, ?sz) bs" "(pool, ?sz)"] f(2,3) v1(3) by (simp add: heap_rep_def fl_rep_def)
    ultimately show ?thesis
      using hi v1(7,9) by (intro disjI2 exI [of _ pool] exI [of _ fl'] exI [of _ "set_mem m' v1"] exI [of _ T'] exI [of _ ys]) simp
  qed
qed

text \<open>What an allocation leaves behind: \<open>U'\<close> are the blocks allocated afterwards.\<close>

definition alloc_outcome :: "usize \<Rightarrow> ptr \<Rightarrow> (ptr \<times> usize) set \<Rightarrow> (ptr \<times> usize) set \<Rightarrow> bool" where
  "alloc_outcome sz p U U' \<longleftrightarrow> (if IS_ERR p then p = ERR_TO_PTR (- errnum ENOMEM) \<and> U' = U
     else \<exists>b. p = fst b + 16 \<and> b \<notin> U \<and> U' = insert b U \<and> unat sz + 16 \<le> unat (snd b))"

lemma heap_alloc_outcome:
  assumes inv: "heap_inv li fl v T xs bs U" and "bs \<noteq> []" and sz: "sz \<noteq> 0" "unat sz + 16 < 2 ^ 64"
  shows "\<exists>p fl' m' bs' U'. heap_alloc sz fl v = Inr (p, fl', set_mem m' v) \<and>
    heap_inv li fl' (set_mem m' v) T xs bs' U' \<and> alloc_outcome sz p U U' \<and>
    (\<forall>u \<in> U. \<forall>x \<in> block u. m' x = vm_mem v x) \<and> (IS_ERR p \<longrightarrow> fl' = fl \<and> m' = vm_mem v \<and> bs' = bs \<and> no_fit sz bs)"
proof -
  have same: "set_mem (vm_mem v) v = v" by (simp add: set_mem_def)
  from heap_alloc_inv [OF assms] show ?thesis
  proof (elim disjE exE conjE)
    assume "heap_alloc sz fl v = Inr (ERR_TO_PTR (- errnum ENOMEM), fl, v)" "\<forall>b \<in> set bs. unat (snd b) < unat sz + 16"
    moreover have "alloc_outcome sz (ERR_TO_PTR (- errnum ENOMEM)) U U"
      by (simp add: alloc_outcome_def IS_ERR_def ERR_TO_PTR_def)
    ultimately show ?thesis
      using inv same by (intro exI [of _ "ERR_TO_PTR (- errnum ENOMEM)"] exI [of _ fl] exI [of _ "vm_mem v"] exI [of _ bs] exI [of _ U])
        (simp add: no_fit_def)
  next
    fix b bs' fl' m'
    assume a: "heap_alloc sz fl v = Inr (fst b + 16, fl', set_mem m' v)" "\<not> IS_ERR (fst b + 16)"
      "heap_inv li fl' (set_mem m' v) T xs bs' (insert b U)" "b \<notin> U" "unat sz + 16 \<le> unat (snd b)"
      "same_outside (fl_bytes bs) (vm_mem v) m'"
    have "alloc_outcome sz (fst b + 16) U (insert b U)" using a(2,4,5) unfolding alloc_outcome_def by (simp only: if_False) blast
    moreover have "\<forall>u \<in> U. \<forall>x \<in> block u. m' x = vm_mem v x"
      using a(6) inv unfolding same_outside_def heap_inv_def heap_rep_def by blast
    ultimately show ?thesis using a(1-3)
      by (intro exI [of _ "fst b + 16"] exI [of _ fl'] exI [of _ m'] exI [of _ bs'] exI [of _ "insert b U"]) simp
  qed
qed

lemma kalloc_locked_spec:
  assumes inv: "heap_inv li fl v T xs bs U" and "bs \<noteq> []" and sz: "sz \<noteq> 0" "unat sz + 4096 < 2 ^ 64"
    and room: "4 * pages_for sz \<le> length xs"
  shows "(\<exists>p. kalloc_locked li sz fl v = Inl (Fault p) \<and>
      region_exhausted (region_of KernelMemRegion v) (vm_mem v) (pages_for sz) \<and> no_fit sz bs) \<or>
    (\<exists>p fl' v' T' ys bs' U'. kalloc_locked li sz fl v = Inr (p, fl', v') \<and> heap_inv li fl' v' T' ys bs' U' \<and>
      alloc_outcome sz p U U' \<and> (IS_ERR p \<longrightarrow> no_fit sz bs \<and> grow_refused sz fl) \<and> irq_view (vm_core v') = irq_view (vm_core v) \<and>
      length xs \<le> length ys + 4 * pages_for sz \<and>
      (\<forall>u \<in> U. \<forall>x \<in> block u. vm_mem v' x = vm_mem v x))"
proof -
  have sz': "unat sz + 16 < 2 ^ 64" using sz(2) by simp
  obtain p fl1 m1 bs1 U1 where a: "heap_alloc sz fl v = Inr (p, fl1, set_mem m1 v)"
    "heap_inv li fl1 (set_mem m1 v) T xs bs1 U1" "alloc_outcome sz p U U1" "\<forall>u \<in> U. \<forall>x \<in> block u. m1 x = vm_mem v x"
    "IS_ERR p \<longrightarrow> fl1 = fl \<and> m1 = vm_mem v \<and> bs1 = bs \<and> no_fit sz bs"
    using heap_alloc_outcome [OF inv assms(2) sz(1) sz'] by blast
  show ?thesis
  proof (cases "IS_ERR p")
    case False
    then have "kalloc_locked li sz fl v = Inr (p, fl1, set_mem m1 v)" using a(1) by (simp add: kalloc_locked_def)
    then show ?thesis using a(2-4) False
      by (intro disjI2 exI [of _ p] exI [of _ fl1] exI [of _ "set_mem m1 v"] exI [of _ T] exI [of _ xs] exI [of _ bs1] exI [of _ U1]) simp
  next
    case True
    have same: "set_mem (vm_mem v) v = v" by (simp add: set_mem_def)
    have e: "heap_alloc sz fl v = Inr (p, fl, v)" and nf: "no_fit sz bs" using a(1,5) True same by simp_all
    have fin: "\<exists>q fl' v' T' ys bs' U'. kalloc_locked li sz fl v = Inr (q, fl', v') \<and> heap_inv li fl' v' T' ys bs' U' \<and>
        alloc_outcome sz q U U' \<and> (IS_ERR q \<longrightarrow> no_fit sz bs \<and> grow_refused sz fl) \<and> irq_view (vm_core v') = irq_view (vm_core v) \<and>
        length xs \<le> length ys + 4 * pages_for sz \<and>
        (\<forall>u \<in> U. \<forall>x \<in> block u. vm_mem v' x = vm_mem v x)"
      if g: "grow_heap li sz fl v = Inr (fl2, v2)" "heap_inv li fl2 v2 T2 xs2 bs2 U" "bs2 \<noteq> []"
        "irq_view (vm_core v2) = irq_view (vm_core v)" "\<forall>u \<in> U. \<forall>x \<in> block u. vm_mem v2 x = vm_mem v x"
        "length xs \<le> length xs2 + 4 * pages_for sz" "no_fit sz bs2 \<Longrightarrow> grow_refused sz fl" for fl2 v2 T2 xs2 bs2
    proof -
      obtain q fl3 m3 bs3 U3 where h: "heap_alloc sz fl2 v2 = Inr (q, fl3, set_mem m3 v2)"
        "heap_inv li fl3 (set_mem m3 v2) T2 xs2 bs3 U3" "alloc_outcome sz q U U3" "\<forall>u \<in> U. \<forall>x \<in> block u. m3 x = vm_mem v2 x"
        "IS_ERR q \<longrightarrow> no_fit sz bs2" using heap_alloc_outcome [OF g(2,3) sz(1) sz'] by blast
      have "kalloc_locked li sz fl v = Inr (q, fl3, set_mem m3 v2)"
        using e True g(1) h(1,3) by (auto simp: kalloc_locked_def alloc_outcome_def)
      then show ?thesis using h(2-5) g(4-7) nf
        by (intro exI [of _ q] exI [of _ fl3] exI [of _ "set_mem m3 v2"] exI [of _ T2] exI [of _ xs2] exI [of _ bs3] exI [of _ U3]) simp
    qed
    from grow_heap_inv [OF inv sz room] show ?thesis
    proof (elim disjE exE conjE)
      assume "grow_heap li sz fl v = Inr (fl, v)" "MAX_HEAP_SIZE < fl_capacity fl + sz"
      then show ?thesis using fin [OF _ inv assms(2) refl _ le_add1] unfolding grow_refused_def by blast
    next
      fix q assume "grow_heap li sz fl v = Inl (Fault q)"
        "region_exhausted (region_of KernelMemRegion v) (vm_mem v) (pages_for sz)"
      then show ?thesis using e True nf by (auto simp: kalloc_locked_def)
    next
      fix pool fl2 v2 T2 xs2
      let ?bs = "fl_insert (pool, round_up sz PAGE_SIZE) bs"
      assume g: "grow_heap li sz fl v = Inr (fl2, v2)" "heap_inv li fl2 v2 T2 xs2 ?bs U" "?bs \<noteq> []"
        "irq_view (vm_core v2) = irq_view (vm_core v)" "\<forall>u \<in> U. \<forall>x \<in> block u. vm_mem v2 x = vm_mem v x"
        "length xs \<le> length xs2 + 4 * pages_for sz" "\<exists>b \<in> set ?bs. unat (round_up sz PAGE_SIZE) \<le> unat (snd b)"
      have "grow_refused sz fl" if "no_fit sz ?bs" using that g(7) by (fastforce simp: no_fit_def grow_refused_def)
      then show ?thesis using fin [OF g(1-6)] by blast
    qed
  qed
qed

section \<open>The heap behind its lock\<close>

definition kheap_inv ::
  "limine \<Rightarrow> kheap \<Rightarrow> vmm \<Rightarrow> tree \<Rightarrow> ptr list \<Rightarrow> blocks \<Rightarrow> (ptr \<times> usize) set \<Rightarrow> bool" where
  "kheap_inv li kh v T xs bs U \<longleftrightarrow> lock_free (kh_lock kh) \<and> core_ok (Suc (Suc 0)) (vm_core v) \<and>
     heap_inv li (kh_freelist kh) v T xs bs U"

lemma heap_inv_core:
  "heap_inv li fl v T xs bs U \<Longrightarrow> core_ok (Suc 0) c \<Longrightarrow> heap_inv li fl (set_core c v) T xs bs U"
  by (simp add: heap_inv_def vmm_inv_core)

lemma kheap_inv_again:
  assumes "core_ok (Suc (Suc 0)) c" and "irq_view c' = irq_view c" and "heap_inv li fl v T xs bs U" and "lock_free lock"
  shows "kheap_inv li \<lparr>kh_lock = lock, kh_freelist = fl\<rparr> (set_core c' v) T xs bs U"
proof -
  have "core_ok (Suc (Suc 0)) c'" using core_ok_view [OF assms(2)] assms(1) by blast
  moreover from this have "core_ok (Suc 0) c'" by (rule core_ok_mono) simp
  ultimately show ?thesis using assms(3,4) by (simp add: kheap_inv_def heap_inv_core)
qed

lemma kalloc_spec:
  assumes inv: "kheap_inv li kh v T xs bs U" and "bs \<noteq> []" and sz: "sz \<noteq> 0" "unat sz + 4096 < 2 ^ 64"
    and room: "4 * pages_for sz \<le> length xs"
  shows "(\<exists>p. kalloc li sz kh v = Inl (Fault p) \<and>
      region_exhausted (region_of KernelMemRegion v) (vm_mem v) (pages_for sz) \<and> no_fit sz bs) \<or>
    (\<exists>p kh' v' T' ys bs' U'. kalloc li sz kh v = Inr (p, kh', v') \<and> kheap_inv li kh' v' T' ys bs' U' \<and>
      alloc_outcome sz p U U' \<and> (IS_ERR p \<longrightarrow> no_fit sz bs \<and> grow_refused sz (kh_freelist kh)) \<and> irq_view (vm_core v') = irq_view (vm_core v) \<and>
      length xs \<le> length ys + 4 * pages_for sz \<and>
      (\<forall>u \<in> U. \<forall>x \<in> block u. vm_mem v' x = vm_mem v x))"
proof -
  have i: "lock_free (kh_lock kh)" "core_ok (Suc (Suc 0)) (vm_core v)" "heap_inv li (kh_freelist kh) v T xs bs U"
    using inv by (simp_all add: kheap_inv_def)
  let ?c = "irq_push_intr (vm_core v)"
  have "heap_inv li (kh_freelist kh) (set_core ?c v) T xs bs U"
    by (rule heap_inv_core [OF i(3) core_ok_push [OF i(2)]])
  from kalloc_locked_spec [OF this assms(2) sz room] show ?thesis
  proof (elim disjE exE conjE)
    fix p assume "kalloc_locked li sz (kh_freelist kh) (set_core ?c v) = Inl (Fault p)"
      "region_exhausted (region_of KernelMemRegion (set_core ?c v)) (vm_mem (set_core ?c v)) (pages_for sz)" "no_fit sz bs"
    then show ?thesis by (auto simp: kalloc_def scoped_stops [OF i(1)])
  next
    fix p fl' v1 T' ys bs' U'
    assume a: "kalloc_locked li sz (kh_freelist kh) (set_core ?c v) = Inr (p, fl', v1)" "heap_inv li fl' v1 T' ys bs' U'"
      "alloc_outcome sz p U U'" "irq_view (vm_core v1) = irq_view (vm_core (set_core ?c v))"
      "\<forall>u \<in> U. \<forall>x \<in> block u. vm_mem v1 x = vm_mem (set_core ?c v) x" "IS_ERR p \<longrightarrow> no_fit sz bs \<and> grow_refused sz (kh_freelist kh)"
      "length xs \<le> length ys + 4 * pages_for sz"
    have "irq_view (vm_core v1) = irq_view ?c" using a(4) by simp
    then obtain c' where c': "spinlock_scoped (vm_core v) (kh_lock kh) (\<lambda>c.
          bindE (kalloc_locked li sz (kh_freelist kh) (set_core c v)) (\<lambda>(p, fl, v). Inr ((p, fl, v), vm_core v))) =
        Inr ((p, fl', v1), c', kh_lock kh)" "irq_view c' = irq_view (vm_core v)"
      using scoped_returns [OF i(2,1), of "\<lambda>c. bindE (kalloc_locked li sz (kh_freelist kh) (set_core c v))
          (\<lambda>(p, fl, v). Inr ((p, fl, v), vm_core v))" "(p, fl', v1)" "vm_core v1"] a(1) by auto
    have "kalloc li sz kh v = Inr (p, \<lparr>kh_lock = kh_lock kh, kh_freelist = fl'\<rparr>, set_core c' v1)"
      using c'(1) by (simp add: kalloc_def)
    moreover have "kheap_inv li \<lparr>kh_lock = kh_lock kh, kh_freelist = fl'\<rparr> (set_core c' v1) T' ys bs' U'"
      by (rule kheap_inv_again [OF i(2) c'(2) a(2) i(1)])
    ultimately show ?thesis using a(3,5-7) c'(2)
      by (intro disjI2 exI [of _ p] exI [of _ "\<lparr>kh_lock = kh_lock kh, kh_freelist = fl'\<rparr>"] exI [of _ "set_core c' v1"]
          exI [of _ T'] exI [of _ ys] exI [of _ bs'] exI [of _ U']) simp
  qed
qed

text \<open>When a free block is large enough, the heap does not grow and the outcome is that of the free list.\<close>

lemma kalloc_fits_frame:
  assumes inv: "kheap_inv li kh v T xs bs U" and fit: "fl_take (sz + 16) bs = Some (b, bs')" and sz: "sz \<noteq> 0" "unat sz + 16 < 2 ^ 64"
  shows "\<exists>kh' m' c'. kalloc li sz kh v = Inr (fst b + 16, kh', set_core c' (set_mem m' v)) \<and>
    kheap_inv li kh' (set_core c' (set_mem m' v)) T xs bs' (insert b U) \<and> b \<notin> U \<and>
    unat sz + 16 \<le> unat (snd b) \<and> \<not> IS_ERR (fst b + 16) \<and> irq_view c' = irq_view (vm_core v) \<and>
    same_outside (fl_bytes bs) (vm_mem v) m'"
proof -
  have i: "lock_free (kh_lock kh)" "core_ok (Suc (Suc 0)) (vm_core v)" "heap_inv li (kh_freelist kh) v T xs bs U"
    using inv by (simp_all add: kheap_inv_def)
  let ?c = "irq_push_intr (vm_core v)"
  have hi: "heap_inv li (kh_freelist kh) (set_core ?c v) T xs bs U" by (rule heap_inv_core [OF i(3) core_ok_push [OF i(2)]])
  have ne: "bs \<noteq> []" using fit by (auto simp: fl_take_def)
  have act: "unat (sz + 16) = unat sz + 16" using sz(2) by (simp add: unat_add_u64)
  have "\<not> (\<forall>b \<in> set bs. unat (snd b) < unat sz + 16)"
  proof
    assume "\<forall>b \<in> set bs. unat (snd b) < unat sz + 16"
    then have "dropWhile (\<lambda>b. snd b < sz + 16) bs = []" using act by (simp add: word_less_nat_alt)
    then show False using fit unfolding fl_take_def by (simp only: list.case option.distinct)
  qed
  with heap_alloc_inv [OF hi ne sz] fit obtain fl' m' where
    a: "heap_alloc sz (kh_freelist kh) (set_core ?c v) = Inr (fst b + 16, fl', set_mem m' (set_core ?c v))" "\<not> IS_ERR (fst b + 16)"
      "heap_inv li fl' (set_mem m' (set_core ?c v)) T xs bs' (insert b U)" "b \<notin> U" "unat sz + 16 \<le> unat (snd b)"
      "same_outside (fl_bytes bs) (vm_mem v) m'"
    by auto
  have "kalloc_locked li sz (kh_freelist kh) (set_core ?c v) = Inr (fst b + 16, fl', set_mem m' (set_core ?c v))"
    using a(1,2) by (simp add: kalloc_locked_def)
  then obtain c' where c': "spinlock_scoped (vm_core v) (kh_lock kh) (\<lambda>c.
        bindE (kalloc_locked li sz (kh_freelist kh) (set_core c v)) (\<lambda>(p, fl, v). Inr ((p, fl, v), vm_core v))) =
      Inr ((fst b + 16, fl', set_mem m' (set_core ?c v)), c', kh_lock kh)" "irq_view c' = irq_view (vm_core v)"
    using scoped_returns [OF i(2,1), of "\<lambda>c. bindE (kalloc_locked li sz (kh_freelist kh) (set_core c v))
        (\<lambda>(p, fl, v). Inr ((p, fl, v), vm_core v))" "(fst b + 16, fl', set_mem m' (set_core ?c v))" ?c] by auto
  have swap: "set_core c' (set_mem m' (set_core ?c v)) = set_core c' (set_mem m' v)" by (simp add: set_core_def set_mem_def)
  show ?thesis
    using a kheap_inv_again [OF i(2) c'(2) a(3) i(1)] c'
    by (intro exI [of _ "\<lparr>kh_lock = kh_lock kh, kh_freelist = fl'\<rparr>"] exI [of _ m'] exI [of _ c']) (simp add: kalloc_def swap)
qed

lemma kalloc_fits:
  assumes "kheap_inv li kh v T xs bs U" and "fl_take (sz + 16) bs = Some (b, bs')" and "sz \<noteq> 0" and "unat sz + 16 < 2 ^ 64"
  shows "\<exists>kh' v'. kalloc li sz kh v = Inr (fst b + 16, kh', v') \<and> kheap_inv li kh' v' T xs bs' (insert b U) \<and> b \<notin> U \<and>
    unat sz + 16 \<le> unat (snd b) \<and> \<not> IS_ERR (fst b + 16) \<and> irq_view (vm_core v') = irq_view (vm_core v)"
  using kalloc_fits_frame [OF assms] by (metis set_mem_simps(5))

lemma kfree_spec:
  assumes inv: "kheap_inv li kh v T xs bs U" and "bs \<noteq> []" and u: "u \<in> U"
  shows "\<exists>kh' v'. kfree (fst u + 16) kh v = Inr (kh', v') \<and> kheap_inv li kh' v' T xs (fl_insert u bs) (U - {u}) \<and>
    irq_view (vm_core v') = irq_view (vm_core v) \<and> (\<forall>w \<in> U - {u}. \<forall>x \<in> block w. vm_mem v' x = vm_mem v x)"
proof -
  have i: "lock_free (kh_lock kh)" "core_ok (Suc (Suc 0)) (vm_core v)" "vmm_inv li v T xs"
    "heap_rep (kh_freelist kh) (vm_mem v) bs U" "fl_bytes bs \<union> (\<Union>u \<in> U. block u) \<subseteq> live_bytes (region_of KernelMemRegion v)"
    using inv by (simp_all add: kheap_inv_def heap_inv_def)
  obtain fl' m' where f: "freelist_free (kh_freelist kh) (fst u + 16) (vm_mem v) = Inr (fl', m')"
    "heap_rep fl' m' (fl_insert u bs) (U - {u})" "same_outside (fl_bytes bs \<union> block u) (vm_mem v) m'"
    using heap_free_spec [OF i(4) assms(2) u] by blast
  have wf: "fl_wf bs" "block_ok u" using i(4) u by (simp_all add: heap_rep_def fl_rep_def)
  have ins: "fl_bytes (fl_insert u bs) = fl_bytes bs \<union> block u"
    by (rule fl_insert_wf(2) [OF wf used_disjoint_from_free [OF i(4) u]])
  have "vmm_inv li (set_mem m' v) T xs"
    using i(5) u by (intro vmm_inv_write [OF i(3), of KernelMemRegion] same_outside_mono [OF f(3)]) blast
  then have hi: "heap_inv li fl' (set_mem m' v) T xs (fl_insert u bs) (U - {u})"
    using f(2) i(5) u ins by (auto simp: heap_inv_def)
  have "fst u + 16 \<noteq> nullptr" using f(1) by (auto simp: freelist_free_def bind_rules)
  then have k: "kfree (fst u + 16) kh v =
      Inr (\<lparr>kh_lock = kh_lock kh, kh_freelist = fl'\<rparr>, set_core (irq_cycle (vm_core v)) (set_mem m' v))"
    using f(1) by (simp add: kfree_def scoped_return [OF i(2,1)])
  have view: "irq_view (irq_cycle (vm_core v)) = irq_view (vm_core v)" by (rule pop_push_cycle(2) [OF i(2)])
  have "\<forall>w \<in> U - {u}. \<forall>x \<in> block w. m' x = vm_mem v x"
    using f(3) i(4) u unfolding same_outside_def heap_rep_def by blast
  with k kheap_inv_again [OF i(2) view hi i(1)] view show ?thesis by (intro exI conjI) (assumption | simp)+
qed

lemma kheap_init_spec:
  assumes inv: "vmm_inv li v T xs" and core: "core_ok (Suc (Suc 0)) (vm_core v)" and room: "4 * 1221 \<le> length xs"
    and "\<not> region_exhausted (region_of KernelMemRegion v) (vm_mem v) 1221"
  shows "\<exists>pool kh v' T' ys. kheap_init li v = Inr (kh, v') \<and> kheap_inv li kh v' T' ys [(pool, INITIAL_HEAP_SIZE)] {} \<and>
    length xs \<le> length ys + 4 * 1221 \<and> mmio_region v' = mmio_region v \<and>
    bm_pages (vr_allocator (mmio_region v)) (vm_mem v') = bm_pages (vr_allocator (mmio_region v)) (vm_mem v) \<and>
    (\<forall>u. outside_region (region_of KernelMemRegion v) u \<longrightarrow> pte T' (vm_mm v') u = pte T (vm_mm v) u)"
proof -
  have sz: "unat INITIAL_HEAP_SIZE = 1221 * 4096"
    using unat_round_up_page [of 5000000] by (simp add: INITIAL_HEAP_SIZE_def)
  from vm_alloc_mem_live [OF inv sz _ room] assms(4) obtain pool v1 T' ys where
    v1: "vm_alloc_mem li INITIAL_HEAP_SIZE v = Inr (pool, v1)" "vmm_inv li v1 T' ys" "block_ok (pool, INITIAL_HEAP_SIZE)"
      "\<not> IS_ERR pool" "block (pool, INITIAL_HEAP_SIZE) \<subseteq> live_bytes (region_of KernelMemRegion v1)"
      "irq_view (vm_core v1) = irq_view (vm_core v)" "\<forall>x \<in> block (pool, INITIAL_HEAP_SIZE). vm_mem v1 x = 0"
      "length xs \<le> length ys + 4 * 1221" "mmio_region v1 = mmio_region v"
      "\<forall>x \<in> bitmap_bytes (vr_allocator (mmio_region v)). vm_mem v1 x = vm_mem v x"
      "\<forall>u. outside_region (region_of KernelMemRegion v) u \<longrightarrow> pte T' (vm_mm v1) u = pte T (vm_mm v) u"
    by auto
  let ?B = "block (pool, INITIAL_HEAP_SIZE)"
  let ?f = "freelist_init pool INITIAL_HEAP_SIZE (vm_mem v1)"
  have room: "unat pool + 16 \<le> 2 ^ 64" using block_ok_room [OF v1(3)] by (simp only: fst_conv)
  have hdr: "span pool 16 \<subseteq> ?B" using v1(3) by (simp add: span_mono block_ok_def)
  have "same_outside (- ?B) (\<lambda>_. 0) (vm_mem v1)" using v1(7) by (simp add: same_outside_def)
  then have "be_next (vm_mem v1) pool = be_next (\<lambda>_. 0) pool"
    using hdr by (intro header_same(2) [OF _ room]) auto
  then have "be_next (vm_mem v1) pool = nullptr" by (simp add: be_next_def load64_def)
  note rep = freelist_init_rep [OF v1(3) this]
  have so: "same_outside (span pool 16) (vm_mem v1) (snd ?f)"
    using put_same(1) [OF room] by (simp add: freelist_init_def)
  have "span pool 16 \<subseteq> live_bytes (region_of KernelMemRegion v1)" using hdr v1(5) by blast
  note w = vmm_inv_write [OF v1(2) same_outside_mono [OF so this]]
  then have "heap_inv li (fst ?f) (set_mem (snd ?f) v1) T' ys [(pool, INITIAL_HEAP_SIZE)] {}"
    using rep v1(5) by (simp add: heap_inv_def fl_bytes_def)
  moreover have "core_ok (Suc (Suc 0)) (vm_core v1)" using core_ok_view [OF v1(6)] core by blast
  moreover have "kheap_init li v = Inr (\<lparr>kh_lock = spinlock_init ''kheap'', kh_freelist = fst ?f\<rparr>, set_mem (snd ?f) v1)"
    using v1(1,4) by (simp add: kheap_init_def Let_def pool_access_def split: prod.split)
  moreover have "snd ?f x = vm_mem v x" if x: "x \<in> bitmap_bytes (vr_allocator (mmio_region v))" for x
  proof -
    have "x \<notin> range_bytes (vr_allocator (region_of KernelMemRegion v1))"
      using regions_apartD(3) [OF vmm_invD(4) [OF v1(2)], of x KernelMemRegion MmioRegion] x v1(9) by auto
    then have "x \<notin> span pool 16" using hdr v1(5) live_index(1) [OF v1(2), of x KernelMemRegion] by blast
    then show ?thesis using so v1(10) x by (simp add: same_outside_def)
  qed
  then have "bm_pages (vr_allocator (mmio_region v)) (snd ?f) = bm_pages (vr_allocator (mmio_region v)) (vm_mem v)"
    by (rule bm_pages_cong)
  moreover have "mmio_region (set_mem (snd ?f) v1) = mmio_region v" using v1(9) by (simp add: set_mem_def)
  ultimately show ?thesis using v1(8,11) w(2)
    by (intro exI [of _ pool] exI [of _ "\<lparr>kh_lock = spinlock_init ''kheap'', kh_freelist = fst ?f\<rparr>"]
        exI [of _ "set_mem (snd ?f) v1"] exI [of _ T'] exI [of _ ys]) (simp add: kheap_inv_def)
qed

section \<open>A machine of any size\<close>

definition sized_map :: "nat \<Rightarrow> limine" where
  "sized_map n = \<lparr>limine_memmap = Some [\<lparr>me_base = 0x1000, me_length = of_nat n * PAGE_SIZE, me_type = 0\<rparr>],
     limine_hhdm = Some 0xffff000000000000, limine_kernel_address = None\<rparr>"

lemma sized_pages:
  assumes "n \<le> 2 ^ 20"
  shows "usable_pages 0xffff000000000000 (the (limine_memmap (sized_map n))) =
    map (\<lambda>i. 0xffff000000001000 + of_nat i * PAGE_SIZE) [0..<n]"
proof -
  have n: "unat (0x1000 + of_nat n * PAGE_SIZE :: usize) = 4096 + n * 4096"
    using unat_page_step [of "0x1000" n] assms by simp
  have "range_pages 0xffff000000000000 0x1000 (0x1000 + of_nat n * PAGE_SIZE) =
      map (\<lambda>i. 0xffff000000001000 + of_nat i * PAGE_SIZE) [0..<n]"
  proof -
    have "(4096 + n * 4096 - unat (0x1000 :: usize)) div 4096 = n" by simp
    then show ?thesis unfolding range_pages_def n by (simp add: algebra_simps)
  qed
  then show ?thesis by (simp add: sized_map_def usable_pages_def entry_pages_def LIMINE_MEMMAP_USABLE_def)
qed

lemma sized_page:
  assumes "n \<le> 2 ^ 20" and "i < n"
  shows "unat (0xffff000000001000 + of_nat i * PAGE_SIZE :: ptr) = 0xffff000000001000 + i * 4096"
  using unat_page_step [of "0xffff000000001000" i] assms by simp

lemma sized_tables:
  assumes n: "0 < n" "n \<le> 2 ^ 20"
  shows "\<exists>root s T xs. pt_inv (sized_map n) root s T xs \<and> length xs = n - 1 \<and> (\<forall>v. pte T s v = 0) \<and>
    (\<forall>p \<in> ran T \<union> set xs. unat p + 4096 \<le> 0xffffffff80000000) \<and> core_ok (Suc (Suc 0)) (mm_core s)"
proof -
  let ?li = "sized_map n" and ?off = "0xffff000000000000 :: usize" and ?c = "demo_cpu"
  let ?es = "the (limine_memmap ?li)" and ?ps = "map (\<lambda>i. 0xffff000000001000 + of_nat i * PAGE_SIZE :: ptr) [0..<n]"
  note pages = sized_pages [OF n(2)] and up = sized_page [OF n(2)]
  have mm: "limine_hhdm ?li = Some ?off" "IS_PAGE_ALIGNED ?off" "core_ok (Suc (Suc 0)) demo_cpu"
    by (simp_all add: sized_map_def IS_PAGE_ALIGNED_iff demo_cpu_ok)
  have len: "unat (of_nat n * PAGE_SIZE :: usize) = n * 4096"
    using unat_page_step [of 0 n] n by simp
  have ok: "memmap_ok ?es" using n by (simp add: sized_map_def memmap_ok_def IS_PAGE_ALIGNED_iff len)
  have inj: "distinct (usable_pages ?off ?es @ [])"
    unfolding pages append_Nil2 distinct_map
  proof (intro conjI inj_onI)
    fix i j assume i: "i \<in> set [0..<n]" and j: "j \<in> set [0..<n]"
      and "0xffff000000001000 + of_nat i * PAGE_SIZE = (0xffff000000001000 + of_nat j * PAGE_SIZE :: ptr)"
    then have "unat (0xffff000000001000 + of_nat i * PAGE_SIZE :: ptr) = unat (0xffff000000001000 + of_nat j * PAGE_SIZE :: ptr)"
      by (simp only:)
    then show "i = j" using up [of i] up [of j] i j by simp
  qed simp
  have page: "unat p \<le> 0xffff000000001000 + 2 ^ 32 \<and> ?off \<le> p \<and> IS_PAGE_ALIGNED p \<and> p \<noteq> nullptr"
    if mem: "p \<in> set ?ps" for p
  proof -
    obtain i where "i \<in> set [0..<n]" and p: "p = 0xffff000000001000 + of_nat i * PAGE_SIZE"
      using mem unfolding set_map by blast
    then have i: "i < n" by simp
    then show ?thesis using up [OF i] n(2) unfolding p by (auto simp: word_le_nat_alt IS_PAGE_ALIGNED_iff)
  qed
  then have nz: "nullptr \<notin> set (usable_pages ?off ?es)" unfolding pages by blast
  have "kmem_rep kmem_boot (\<lambda>_. 1) []" by (simp add: kmem_rep_def kmem_boot_def lock_free_def)
  from kmem_free_entries [OF mm(1,2) ok this mm(3) inj nz] obtain k c m where
    r: "kmem_rep k m (rev ?ps)" "core_ok (Suc (Suc 0)) c" unfolding pages by auto
  let ?s = "\<lparr>mm_kmem = k, mm_core = c, mm_mem = m\<rparr>"
  obtain x xs where xs: "rev ?ps = x # xs" "length xs = n - 1"
    using n(1) by (cases "rev ?ps") (auto dest: arg_cong [of _ _ length])
  have off: "hhdm ?li = ?off" by (simp add: hhdm_def mm(1))
  have set: "set (x # xs) = set ?ps" using arg_cong [OF xs(1), of set] by simp
  have "page_ok ?li p" if "p \<in> set ?ps" for p
    using page [OF that] by (auto simp: page_ok_def off unat_sub)
  then have pk: "\<forall>y \<in> set (x # xs). page_ok ?li y" unfolding set by blast
  have c1: "core_ok (Suc 0) (mm_core ?s)" using core_ok_mono [OF r(2)] by simp
  obtain s' where s': "mm_alloc ?s = Inr (x, s')" "pt_inv ?li x s' [[] \<mapsto> x] xs" "\<forall>v. pte [[] \<mapsto> x] s' v = 0"
    using pt_inv_boot [OF _ _ pk, of ?s] r(1) c1 mm(1,2) off unfolding xs(1) by auto
  have "mm_core s' = irq_cycle c"
    using s'(1) kmem_alloc_cons [of k m x xs "Suc 0" c] r unfolding xs(1) by (auto simp: mm_alloc_def)
  then have "core_ok (Suc (Suc 0)) (mm_core s')" using r(2) by simp
  moreover have "ran [[] \<mapsto> x] \<union> set xs = set ?ps" using set by auto
  moreover have "unat p + 4096 \<le> 0xffffffff80000000" if "p \<in> set ?ps" for p using page [OF that] by simp
  ultimately show ?thesis using s'(2,3) xs(2) by (intro exI [of _ x] exI [of _ s'] exI [of _ "[[] \<mapsto> x]"] exI [of _ xs]) blast
qed

lemma sized_vmm:
  assumes n: "0 < n" "n \<le> 2 ^ 20" and m: "m \<le> 2 ^ 18"
  shows "\<exists>v T xs. vmm_inv (sized_map n) v T xs \<and> length xs = n - 1 \<and> core_ok (Suc (Suc 0)) (vm_core v) \<and>
     \<not> region_exhausted (region_of KernelMemRegion v) (vm_mem v) m \<and>
     bm_run (vr_allocator (mmio_region v)) (vm_mem v) 1024 0 \<and> 8 \<le> free_slots (mmio_region v)"
proof -
  obtain root s T xs where d: "pt_inv (sized_map n) root s T xs" "length xs = n - 1" "\<forall>v. pte T s v = 0"
    "\<forall>p \<in> ran T \<union> set xs. unat p + 4096 \<le> 0xffffffff80000000" "core_ok (Suc (Suc 0)) (mm_core s)"
    using sized_tables [OF n] by blast
  let ?v = "boot_regions 0xffffffff80200000 0xffffffff80300000 s root"
  obtain r1 m1 r2 m2 where r: "region_init (kernel_mem_region ?v) ''kernel heap region'' (mm_mem s) = Inr (r1, m1)"
    "region_live r1 = {}" "region_init (mmio_region ?v) ''mmio region'' m1 = Inr (r2, m2)" "region_live r2 = {}"
    "vmm_inv (sized_map n) (?v\<lparr>kernel_mem_region := r1, mmio_region := r2, vm_mm := s\<lparr>mm_mem := m2\<rparr>\<rparr>) T xs"
    using boot_regions_inv [OF d(1), of "0xffffffff80200000" "0xffffffff80300000"] d(3,4) by auto
  let ?w = "?v\<lparr>kernel_mem_region := r1, mmio_region := r2, vm_mm := s\<lparr>mm_mem := m2\<rparr>\<rparr>"
  have size: "0 < vr_allocations_size r1" and count: "bm_count (vr_allocator r1) = 2 ^ 18"
    using r(1) by (auto simp: region_init_def Let_def boot_regions_def STATIC_ALLOC_VM_REGION_def
        SIZE_TO_BITMAP_BYTES_def PAGE_SIZE_def KERNEL_VM_RANGE_SIZE_def split: if_splits)
  have "\<not> region_exhausted (region_of KernelMemRegion ?w) (mm_mem (vm_mm ?w)) m"
    by (rule not_exhausted [OF vmm_invD(2) [OF r(5)]]) (use r(2) size count m in simp_all)
  moreover have size2: "8 \<le> unat (vr_allocations_size r2)" and count2: "1024 \<le> bm_count (vr_allocator r2)"
    using r(3) by (auto simp: region_init_def Let_def boot_regions_def STATIC_ALLOC_VM_REGION_def
        SIZE_TO_BITMAP_BYTES_def PAGE_SIZE_def KERNEL_MMIO_RANGE_SIZE_def split: if_splits)
  have ri: "region_inv r2 m2" using vmm_invD(2) [OF r(5), of MmioRegion] by simp
  have free: "va_addr e = nullptr" if "e \<in> set (slots r2)" for e using r(4) that unfolding region_live_def by blast
  then have "free_slots r2 = length (slots r2)" by (simp add: free_slots_def cong: filter_cong)
  then have "8 \<le> free_slots r2" using size2 ri by (simp add: length_slots region_inv_def)
  moreover have "bm_pages (vr_allocator r2) m2 = {}"
  proof -
    have "(\<Union>e \<in> set (slots r2). slot_pages (vr_allocator r2) e) = {}" using free by (simp add: slot_pages_def)
    then show ?thesis using ri unfolding region_inv_def by metis
  qed
  then have "bm_run (vr_allocator r2) m2 1024 0" using count2 by (simp add: bm_run_def)
  ultimately show ?thesis using r(5) d(2,5) by (intro exI [of _ ?w] exI [of _ T] exI [of _ xs]) simp
qed

section \<open>Properties\<close>

text \<open>
  The heap starts.  With the invariant of the virtual memory manager, free pages for the
  initial pool and its tables, and room in the kernel memory region, \<open>kheap_init\<close> returns a heap
  whose invariant holds with one free block, the whole initial pool, and nothing allocated.
\<close>

lemma kheap_init_ready:
  assumes "vmm_inv li v T xs" and "core_ok (Suc (Suc 0)) (vm_core v)" and "4 * 1221 \<le> length xs"
    and "\<not> region_exhausted (region_of KernelMemRegion v) (vm_mem v) 1221"
  shows "\<exists>pool kh v' T' ys. kheap_init li v = Inr (kh, v') \<and> kheap_inv li kh v' T' ys [(pool, INITIAL_HEAP_SIZE)] {} \<and>
    length xs \<le> length ys + 4 * 1221"
  using kheap_init_spec [OF assms] by blast

text \<open>
  C4.  Allocation on the kernel heap.  With some block free and free pages for growing,
  \<open>kalloc\<close> of a positive size returns with lock and interrupt state given back, unless the heap
  has to grow and the kernel memory region is exhausted.  The result is \<open>-ENOMEM\<close> only if no
  free block is large enough and growing does not help (the limit of the heap is reached, or the
  size rounded to whole pages has no room for the header), with the same blocks allocated as
  before; in all other cases the heap has grown as needed and the result points 16
  bytes into a new block that is disjoint from all allocated ones and at least as large as size
  and header.  Allocated blocks keep their bytes, and
  the invariants of heap, regions, page tables and page allocator hold again.
\<close>

theorem kalloc_correct:
  assumes "kheap_inv li kh v T xs bs U" and "bs \<noteq> []" and "sz \<noteq> 0" and "unat sz + 4096 < 2 ^ 64"
    and "4 * pages_for sz \<le> length xs"
  shows "(\<exists>p. kalloc li sz kh v = Inl (Fault p) \<and>
      region_exhausted (region_of KernelMemRegion v) (vm_mem v) (pages_for sz) \<and> no_fit sz bs) \<or>
    (\<exists>p kh' v' T' ys bs' U'. kalloc li sz kh v = Inr (p, kh', v') \<and> kheap_inv li kh' v' T' ys bs' U' \<and>
      irq_view (vm_core v') = irq_view (vm_core v) \<and>
      (if IS_ERR p then p = ERR_TO_PTR (- errnum ENOMEM) \<and> U' = U \<and> no_fit sz bs \<and> grow_refused sz (kh_freelist kh)
       else \<exists>b. p = fst b + 16 \<and> b \<notin> U \<and> U' = insert b U \<and> unat sz + 16 \<le> unat (snd b)) \<and>
      (\<forall>u \<in> U. \<forall>x \<in> block u. vm_mem v' x = vm_mem v x))"
proof -
  have "(if IS_ERR p then p = ERR_TO_PTR (- errnum ENOMEM) \<and> U' = U \<and> no_fit sz bs \<and> grow_refused sz (kh_freelist kh)
       else \<exists>b. p = fst b + 16 \<and> b \<notin> U \<and> U' = insert b U \<and> unat sz + 16 \<le> unat (snd b)) \<longleftrightarrow>
      alloc_outcome sz p U U' \<and> (IS_ERR p \<longrightarrow> no_fit sz bs \<and> grow_refused sz (kh_freelist kh))" for p U'
    by (auto simp: alloc_outcome_def)
  then show ?thesis using kalloc_spec [OF assms] by (simp only:) blast
qed

theorem kalloc_correct_witness:
  "\<exists>li kh v p kh' v' T' ys bs' b. kalloc li 216 kh v = Inr (p, kh', v') \<and> kheap_inv li kh' v' T' ys bs' {b} \<and>
     p = fst b + 16 \<and> 232 \<le> unat (snd b)"
proof -
  let ?li = "sized_map 8000"
  obtain v T xs where d: "vmm_inv ?li v T xs" "length xs = 8000 - 1" "core_ok (Suc (Suc 0)) (vm_core v)"
    "\<not> region_exhausted (region_of KernelMemRegion v) (vm_mem v) 1221"
    using sized_vmm [of 8000 1221] by auto
  have "4 * 1221 \<le> length xs" using d(2) by simp
  from kheap_init_spec [OF d(1,3) this d(4)] obtain pool kh v1 T1 ys where
    h: "kheap_inv ?li kh v1 T1 ys [(pool, INITIAL_HEAP_SIZE)] {}" "length xs \<le> length ys + 4 * 1221" by blast
  have fit: "\<not> no_fit 216 [(pool, INITIAL_HEAP_SIZE)]"
    using unat_round_up_page [of 5000000] by (simp add: no_fit_def INITIAL_HEAP_SIZE_def)
  have "4 * pages_for (216 :: usize) \<le> length ys" using h(2) d(2) by simp
  from kalloc_correct [OF h(1) _ _ _ this] fit obtain p kh' v' T' zs bs' U' where
    k: "kalloc ?li 216 kh v1 = Inr (p, kh', v')" "kheap_inv ?li kh' v' T' zs bs' U'"
      "\<exists>b. p = fst b + 16 \<and> b \<notin> {} \<and> U' = insert b {} \<and> unat (216 :: usize) + 16 \<le> unat (snd b)"
    by (auto split: if_splits)
  then obtain b where "p = fst b + 16" "U' = {b}" "232 \<le> unat (snd b)" by auto
  with k(1,2) show ?thesis by (intro exI [of _ ?li] exI [of _ kh] exI [of _ v1] exI [of _ p] exI [of _ kh'] exI [of _ v']
        exI [of _ T'] exI [of _ zs] exI [of _ bs'] exI [of _ b]) simp
qed

text \<open>
  C26.  The last block wedges the heap.  When one block is free and an allocation leaves less than a
  header of it, the block is handed out whole and the list is empty.  From then on every \<open>kalloc\<close>
  panics on the assertion of \<open>freelist_alloc\<close> before it could report \<open>-ENOMEM\<close> or grow the heap, and
  every \<open>kfree\<close>, that of the block just returned included, panics too.
\<close>

theorem kalloc_last_block_wedges:
  assumes "kheap_inv li kh v T xs [b] U" and "sz \<noteq> 0" and "unat sz + 16 \<le> unat (snd b)" and "unat (snd b) < unat sz + 32"
  shows "\<exists>kh' v'. kalloc li sz kh v = Inr (fst b + 16, kh', v') \<and> kheap_inv li kh' v' T xs [] (insert b U) \<and> b \<notin> U \<and>
    (\<forall>sz'. kalloc li sz' kh' v' = Inl (Panic ''head is null'')) \<and>
    (\<forall>p. p \<noteq> nullptr \<longrightarrow> kfree p kh' v' = Inl (Panic ''head is null''))"
proof -
  have sz: "unat sz + 16 < 2 ^ 64" using assms(3,4) unat_lt_u64 [of "snd b"] assms(1)
    by (auto simp: kheap_inv_def heap_inv_def heap_rep_def fl_rep_def fl_wf_def block_ok_def)
  then have act: "unat (sz + 16) = unat sz + 16" by (simp add: unat_add_u64)
  have le: "sz + 16 \<le> snd b" using assms(3) act by (simp add: word_le_nat_alt)
  then have "unat (snd b - (sz + 16)) < 16" using assms(3,4) act by (simp add: unat_sub_u64)
  then have "\<not> 16 \<le> snd b - (sz + 16)" by (simp add: word_le_nat_alt)
  then have take: "fl_take (sz + 16) [b] = Some (b, [])" using le by (cases b) (simp add: fl_take_def Let_def not_less)
  obtain kh' v' where k: "kalloc li sz kh v = Inr (fst b + 16, kh', v')" "kheap_inv li kh' v' T xs [] (insert b U)" "b \<notin> U"
    using kalloc_fits [OF assms(1) take assms(2) sz] by blast
  have i: "lock_free (kh_lock kh')" "heap_rep (kh_freelist kh') (vm_mem v') [] (insert b U)"
    using k(2) by (simp_all add: kheap_inv_def heap_inv_def)
  note ex = freelist_exhausted [OF i(2)]
  have "kalloc li sz' kh' v' = Inl (Panic ''head is null'')" for sz'
    using ex(1) by (simp add: kalloc_def kalloc_locked_def heap_alloc_def scoped_stops [OF i(1)])
  moreover have "kfree p kh' v' = Inl (Panic ''head is null'')" if "p \<noteq> nullptr" for p
    using ex(2) that by (simp add: kfree_def scoped_stops [OF i(1)])
  ultimately show ?thesis using k by blast
qed

theorem kalloc_last_block_wedges_witness:
  "\<exists>li kh v p kh' v'. kalloc li 5001190 kh v = Inr (p, kh', v') \<and> kfree p kh' v' = Inl (Panic ''head is null'') \<and>
     kalloc li 8 kh' v' = Inl (Panic ''head is null'')"
proof -
  let ?li = "sized_map 8000"
  obtain v T xs where d: "vmm_inv ?li v T xs" "length xs = 8000 - 1" "core_ok (Suc (Suc 0)) (vm_core v)"
    "\<not> region_exhausted (region_of KernelMemRegion v) (vm_mem v) 1221"
    using sized_vmm [of 8000 1221] by auto
  have "4 * 1221 \<le> length xs" using d(2) by simp
  from kheap_init_spec [OF d(1,3) this d(4)] obtain pool kh v1 T1 ys where
    h: "kheap_inv ?li kh v1 T1 ys [(pool, INITIAL_HEAP_SIZE)] {}" by blast
  have size: "unat INITIAL_HEAP_SIZE = 5001216" using unat_round_up_page [of 5000000] by (simp add: INITIAL_HEAP_SIZE_def)
  have ok: "block_ok (pool, INITIAL_HEAP_SIZE)" using h by (simp add: kheap_inv_def heap_inv_def heap_rep_def fl_rep_def fl_wf_def)
  have nz: "pool + 16 \<noteq> nullptr"
  proof -
    have "unat (pool + 16) = unat pool + 16" using ok size by (intro unat_add_u64 [of pool 16, simplified]) (simp add: block_ok_def)
    then show ?thesis by (auto simp: word_unat_eq_iff)
  qed
  from kalloc_last_block_wedges [OF h, of 5001190] size nz show ?thesis by fastforce
qed

end
