(* ===== verification/Boot_Memory.thy ===== *)
theory Boot_Memory
  imports Kheap
begin

text \<open>
  Setting up memory: \<open>kmem_init\<close>, \<open>vm_init\<close> and \<open>kheap_init\<close> as \<open>kernel_main\<close> calls them.

  \<open>paging_kernel_init\<close> maps the text and the data of the kernel and then every range of the memory map
  that the direct map needs, so the tables are large; the pages for them come from the memory that is being
  mapped.  The first part counts tables: a range of \<open>n\<close> pages needs about one table per 512 pages, not
  three per page.  The second part follows the calls and establishes the invariant of the kernel heap.
\<close>

section \<open>Counting tables\<close>

lemma pt_pages:
  assumes "pt_inv li root s T xs"
  shows "finite (dom T)" and "card (dom T) + length xs = card (ran T \<union> set xs)"
proof -
  have t: "\<And>P p. T P = Some p \<Longrightarrow> p \<notin> set xs" "\<And>P P' p. T P = Some p \<Longrightarrow> T P' = Some p \<Longrightarrow> P = P'"
    "distinct xs" using assms unfolding pt_inv_def tree_ok_def kmem_rep_def by blast+
  have inj: "inj_on (\<lambda>P. the (T P)) (dom T)" using t(2) by (intro inj_onI) (auto simp: domIff)
  have img: "(\<lambda>P. the (T P)) ` dom T = ran T" by (force simp: ran_def image_iff)
  show "finite (dom T)" by (rule finite_imageD [OF _ inj]) simp
  have "card (ran T) = card (dom T)" using card_image [OF inj] img by simp
  moreover have "ran T \<inter> set xs = {}" using t(1) by (auto simp: ran_def)
  ultimately show "card (dom T) + length xs = card (ran T \<union> set xs)"
    using distinct_card [OF t(3)] by (subst card_Un_disjoint) simp_all
qed

text \<open>The tables that the walks to \<open>n\<close> pages pass.\<close>

definition range_tables :: "u64 \<Rightarrow> nat \<Rightarrow> u64 list set" where
  "range_tables va n = (\<Union>k < n. table_paths (va + of_nat k * PAGE_SIZE))"

lemma finite_table_paths [simp]: "finite (table_paths va)" "finite (range_tables va n)"
  by (simp_all add: table_paths_def range_tables_def)

lemma range_tables_Suc: "range_tables va (Suc n) = table_paths va \<union> range_tables (va + PAGE_SIZE) n"
  unfolding range_tables_def lessThan_Suc_eq_insert_0 by (simp add: image_image page_step_Suc algebra_simps)

text \<open>Mapping needs a page for each table that is missing, and three to spare.\<close>

lemma first_page_tables:
  assumes inv: "pt_inv li root s T xs" and room: "card (dom T \<union> range_tables va (Suc n)) + 3 \<le> card (ran T \<union> set xs)"
  shows "if desc_is_valid (pte T s va)
    then map_page li root attrs va pa s = Inl (Panic ''remaping an already existing page'')
    else \<exists>s1 T1 ys1. map_page li root attrs va pa s = Inr s1 \<and> pt_inv li root s1 T1 ys1 \<and> pt_step T xs s T1 ys1 s1 \<and>
      (\<forall>v. pte T1 s1 v = (if vpn v = vpn va then page_descriptor attrs pa 0 else pte T s v)) \<and>
      dom T1 \<subseteq> dom T \<union> table_paths va \<and> card (dom T1 \<union> range_tables (va + PAGE_SIZE) n) + 3 \<le> card (ran T1 \<union> set ys1)"
proof -
  note fin = pt_pages [OF inv]
  have "card (dom T) \<le> card (dom T \<union> range_tables va (Suc n))" by (rule card_mono) (use fin in auto)
  then have len: "3 \<le> length xs" using room fin(2) by linarith
  have "card (dom T1 \<union> range_tables (va + PAGE_SIZE) n) + 3 \<le> card (ran T1 \<union> set ys1)"
    if "dom T1 \<subseteq> dom T \<union> table_paths va" "pt_step T xs s T1 ys1 s1" for T1 ys1 s1
  proof -
    have "dom T1 \<union> range_tables (va + PAGE_SIZE) n \<subseteq> dom T \<union> range_tables va (Suc n)" using that(1) by (auto simp: range_tables_Suc)
    then have "card (dom T1 \<union> range_tables (va + PAGE_SIZE) n) \<le> card (dom T \<union> range_tables va (Suc n))"
      by (rule card_mono [rotated]) (use fin in simp)
    moreover have "ran T1 \<union> set ys1 = ran T \<union> set xs" using that(2) by (simp add: pt_step_def)
    ultimately show ?thesis using room by simp
  qed
  then show ?thesis using map_page_spec [OF inv len, of va attrs pa] by (auto split: if_splits) blast
qed

lemma next_pages_other:
  assumes "unat va + Suc n * 4096 < 2 ^ 64" and "Suc n \<le> 2 ^ 36" and "k < n"
  shows "vpn (va + PAGE_SIZE + of_nat k * PAGE_SIZE) \<noteq> vpn va"
  using vpn_step_inj [of va "Suc k" 0] assms unfolding page_step_Suc by fastforce

lemma map_loop_tables:
  assumes "pt_inv li root s T xs" and "card (dom T \<union> range_tables va n) + 3 \<le> card (ran T \<union> set xs)"
    and "unat va + n * 4096 < 2 ^ 64" and "n \<le> 2 ^ 36" and "\<And>k. k < n \<Longrightarrow> \<not> desc_is_valid (pte T s (va + of_nat k * PAGE_SIZE))"
  shows "\<exists>s' T' ys. map_loop li root attrs va pa (va + of_nat n * PAGE_SIZE) s = Some (Inr s') \<and>
    pt_inv li root s' T' ys \<and> dom T' \<subseteq> dom T \<union> range_tables va n \<and> pt_step T xs s T' ys s' \<and>
    (\<forall>v. pte T' s' v = range_pte attrs va pa n (pte T s) v)"
  using assms
proof (induction n arbitrary: va pa s T xs)
  case 0
  then show ?case by (subst map_loop.simps) (auto simp: range_pte_def range_tables_def intro!: exI [of _ T] exI [of _ xs])
next
  case (Suc n)
  have ne: "\<not> desc_is_valid (pte T s va)" using Suc.prems(5) [of 0] by simp
  with first_page_tables [OF Suc.prems(1,2), of attrs pa] obtain s1 T1 ys1 where
    1: "map_page li root attrs va pa s = Inr s1" "pt_inv li root s1 T1 ys1" "pt_step T xs s T1 ys1 s1"
      "\<forall>v. pte T1 s1 v = (if vpn v = vpn va then page_descriptor attrs pa 0 else pte T s v)"
      "dom T1 \<subseteq> dom T \<union> table_paths va" "card (dom T1 \<union> range_tables (va + PAGE_SIZE) n) + 3 \<le> card (ran T1 \<union> set ys1)" by auto
  have u1: "unat (va + PAGE_SIZE) = unat va + 4096" using Suc.prems(3) by (subst unat_add_u64) simp_all
  have "\<not> desc_is_valid (pte T1 s1 (va + PAGE_SIZE + of_nat k * PAGE_SIZE))" if "k < n" for k
    using 1(4) next_pages_other [OF Suc.prems(3,4) that] Suc.prems(5) [of "Suc k"] that unfolding page_step_Suc by simp
  moreover have "unat (va + PAGE_SIZE) + n * 4096 < 2 ^ 64" "n \<le> 2 ^ 36" using Suc.prems(3,4) u1 by simp_all
  ultimately obtain s' T' ys where 2: "map_loop li root attrs (va + PAGE_SIZE) (pa + PAGE_SIZE) (va + PAGE_SIZE + of_nat n * PAGE_SIZE) s1 = Some (Inr s')"
    "pt_inv li root s' T' ys" "dom T' \<subseteq> dom T1 \<union> range_tables (va + PAGE_SIZE) n" "pt_step T1 ys1 s1 T' ys s'"
    "\<forall>v. pte T' s' v = range_pte attrs (va + PAGE_SIZE) (pa + PAGE_SIZE) n (pte T1 s1) v"
    using Suc.IH [OF 1(2,6), of "pa + PAGE_SIZE"] by blast
  have lt: "va < va + of_nat (Suc n) * PAGE_SIZE"
    unfolding word_less_nat_alt unat_page_step [OF Suc.prems(3)] by simp
  have "map_loop li root attrs va pa (va + of_nat (Suc n) * PAGE_SIZE) s = Some (Inr s')"
    using 1(1) 2(1) lt unfolding page_step_Suc by (subst map_loop.simps) simp
  moreover have "\<forall>v. pte T' s' v = range_pte attrs va pa (Suc n) (pte T s) v"
    using 2(5) range_pte_Suc [OF Suc.prems(3,4) 1(4)] by simp
  moreover have "dom T' \<subseteq> dom T \<union> range_tables va (Suc n)" using 2(3) 1(5) by (auto simp: range_tables_Suc)
  ultimately show ?case using 2(2) pt_step_trans [OF 1(3) 2(4)] by blast
qed

text \<open>With the same room, a page that is mapped already stops the loop.\<close>

lemma map_loop_clash:
  assumes "pt_inv li root s T xs" and "card (dom T \<union> range_tables va n) + 3 \<le> card (ran T \<union> set xs)"
    and "unat va + n * 4096 < 2 ^ 64" and "n \<le> 2 ^ 36" and "k < n" and "desc_is_valid (pte T s (va + of_nat k * PAGE_SIZE))"
  shows "map_loop li root attrs va pa (va + of_nat n * PAGE_SIZE) s = Some (Inl (Panic ''remaping an already existing page''))"
  using assms
proof (induction n arbitrary: va pa s T xs k)
  case (Suc n)
  have lt: "va < va + of_nat (Suc n) * PAGE_SIZE"
    unfolding word_less_nat_alt unat_page_step [OF Suc.prems(3)] by simp
  show ?case
  proof (cases "desc_is_valid (pte T s va)")
    case True
    then show ?thesis using first_page_tables [OF Suc.prems(1,2), of attrs pa] lt by (subst map_loop.simps) simp
  next
    case False
    then obtain s1 T1 ys1 where 1: "map_page li root attrs va pa s = Inr s1" "pt_inv li root s1 T1 ys1"
      "\<forall>v. pte T1 s1 v = (if vpn v = vpn va then page_descriptor attrs pa 0 else pte T s v)"
      "card (dom T1 \<union> range_tables (va + PAGE_SIZE) n) + 3 \<le> card (ran T1 \<union> set ys1)"
      using first_page_tables [OF Suc.prems(1,2), of attrs pa] by auto
    obtain j where j: "k = Suc j" "j < n" using False Suc.prems(5,6) by (cases k) auto
    have "unat (va + PAGE_SIZE) = unat va + 4096" using Suc.prems(3) by (subst unat_add_u64) simp_all
    then have "unat (va + PAGE_SIZE) + n * 4096 < 2 ^ 64" "n \<le> 2 ^ 36" using Suc.prems(3,4) by simp_all
    moreover have "desc_is_valid (pte T1 s1 (va + PAGE_SIZE + of_nat j * PAGE_SIZE))"
      using 1(3) Suc.prems(6) next_pages_other [OF Suc.prems(3,4) j(2)] unfolding j(1) page_step_Suc by simp
    ultimately have "map_loop li root attrs (va + PAGE_SIZE) (pa + PAGE_SIZE) (va + PAGE_SIZE + of_nat n * PAGE_SIZE) s1 =
        Some (Inl (Panic ''remaping an already existing page''))" using Suc.IH [OF 1(2,4) _ _ j(2)] by blast
    then show ?thesis using 1(1) lt unfolding page_step_Suc by (subst map_loop.simps) simp
  qed
qed simp

lemma paging_map_tables:
  assumes inv: "pt_inv li root s T xs" and al: "IS_PAGE_ALIGNED va" "unat sz = n * 4096"
    and fits: "unat va + n * 4096 < 2 ^ 64" "n \<le> 2 ^ 36" and room: "card (dom T \<union> range_tables va n) + 3 \<le> card (ran T \<union> set xs)"
    and fresh: "\<And>k. k < n \<Longrightarrow> \<not> desc_is_valid (pte T s (va + of_nat k * PAGE_SIZE))"
  shows "\<exists>s' T' ys. paging_map li root va pa sz attrs s = Inr (errnum EOK, s') \<and> pt_inv li root s' T' ys \<and>
    dom T' \<subseteq> dom T \<union> range_tables va n \<and> pt_step T xs s T' ys s' \<and> (\<forall>v. pte T' s' v = range_pte attrs va pa n (pte T s) v)"
proof -
  have szal: "IS_PAGE_ALIGNED sz" using al(2) by (simp add: IS_PAGE_ALIGNED_iff)
  then have sz: "sz = of_nat n * PAGE_SIZE" by (rule aligned_size) (use al(2) in simp)
  from map_loop_tables [OF inv room fits fresh, of attrs pa] obtain s' T' ys where
    "map_loop li root attrs va pa (va + sz) s = Some (Inr s')" "pt_inv li root s' T' ys" "dom T' \<subseteq> dom T \<union> range_tables va n"
    "pt_step T xs s T' ys s'" "\<forall>v. pte T' s' v = range_pte attrs va pa n (pte T s) v" unfolding sz by auto
  then show ?thesis using al(1) szal by (auto simp: paging_map_def)
qed

text \<open>A range of \<open>n\<close> pages passes about \<open>n div 512\<close> leaf tables and a few tables above them.\<close>

lemma card_div_image: "card ((\<lambda>k. f ((a + k) div d)) ` {..<n}) \<le> n div d + 2" if "0 < (d :: nat)" for f :: "nat \<Rightarrow> 'a"
proof -
  have "(\<lambda>k. (a + k) div d) ` {..<n} \<subseteq> {a div d .. a div d + n div d + 1}"
  proof clarify
    fix k assume "k < n"
    then have "(a + k) div d \<le> (a + n) div d" by (intro div_le_mono) simp
    also have "\<dots> \<le> a div d + n div d + 1"
      using that by (metis Suc_eq_plus1 div_add1_eq less_Suc_eq_le add_left_mono One_nat_def mod_less_divisor nat_less_le div_less_iff_less_mult add_less_mono mult_2 numeral_2_eq_2 mult.commute)
    finally show "(a + k) div d \<in> {a div d .. a div d + n div d + 1}" by (simp add: div_le_mono)
  qed
  then have "card ((\<lambda>k. (a + k) div d) ` {..<n}) \<le> n div d + 2" using card_mono [of "{a div d .. a div d + n div d + 1}"] by fastforce
  moreover have "card (f ` (\<lambda>k. (a + k) div d) ` {..<n}) \<le> card ((\<lambda>k. (a + k) div d) ` {..<n})" by (rule card_image_le) simp
  ultimately show ?thesis by (simp add: image_image)
qed


lemma index_div:
  "L0_INDEX va = of_nat (unat va div 2 ^ 39 mod 512)" "L1_INDEX va = of_nat (unat va div 2 ^ 30 mod 512)"
  "L2_INDEX va = of_nat (unat va div 2 ^ 21 mod 512)"
proof -
  have m: "w AND PT_INDEX_MASK = take_bit 9 w" for w :: u64
    by (simp add: PT_INDEX_MASK_def take_bit_eq_mask mask_eq_exp_minus_1)
  have "drop_bit i va AND PT_INDEX_MASK = of_nat (unat va div 2 ^ i mod 512)" if "i < 64" for i
  proof -
    have "unat (drop_bit i va AND PT_INDEX_MASK) = unat va div 2 ^ i mod 512"
      unfolding m unat_take_bit unat_drop_bit_eq by (simp add: drop_bit_eq_div)
    moreover have "unat (of_nat (unat va div 2 ^ i mod 512) :: u64) = unat va div 2 ^ i mod 512"
      by (rule unat_of_nat_u64) (rule less_trans [OF mod_less_divisor]; simp)
    ultimately show ?thesis by (simp only: word_unat_eq_iff)
  qed
  then show "L0_INDEX va = of_nat (unat va div 2 ^ 39 mod 512)" "L1_INDEX va = of_nat (unat va div 2 ^ 30 mod 512)"
    "L2_INDEX va = of_nat (unat va div 2 ^ 21 mod 512)" by (simp_all add: L0_INDEX_def L1_INDEX_def L2_INDEX_def)
qed

definition tables_bound :: "nat \<Rightarrow> nat" where
  "tables_bound n = n div 512 + n div 2 ^ 18 + n div 2 ^ 27 + 6"

lemma card_range_tables:
  assumes "IS_PAGE_ALIGNED va" and "unat va + n * 4096 < 2 ^ 64"
  shows "card (range_tables va n) \<le> tables_bound n"
proof -
  let ?w = "\<lambda>q. of_nat (q mod 512) :: u64"
  let ?f1 = "\<lambda>q. [?w q]" and ?f2 = "\<lambda>q. [?w (q div 512), ?w q]" and ?f3 = "\<lambda>q. [?w (q div 512 div 512), ?w (q div 512), ?w q]"
  define a where "a = unat va div 4096"
  have a: "unat va = 4096 * a" using assms(1) by (auto simp: IS_PAGE_ALIGNED_iff a_def)
  let ?S = "\<lambda>f d. (\<lambda>k. f ((a + k) div d)) ` {..<n} :: u64 list set"
  have "range_tables va n \<subseteq> ?S ?f3 512 \<union> ?S ?f2 (2 ^ 18) \<union> ?S ?f1 (2 ^ 27)"
    unfolding range_tables_def
  proof (intro UN_least)
    fix k assume "k \<in> {..<n}"
    then have k: "k < n" by simp
    then have u: "unat (va + of_nat k * PAGE_SIZE) = 4096 * (a + k)"
      using unat_page_step [of va k] assms(2) a by simp
    have d: "4096 * (a + k) div 2 ^ 21 = (a + k) div 512" "4096 * (a + k) div 2 ^ 30 = (a + k) div 2 ^ 18"
      "4096 * (a + k) div 2 ^ 39 = (a + k) div 2 ^ 27"
      using div_mult_mult1 [of 4096 "a + k" 512] div_mult_mult1 [of 4096 "a + k" "2 ^ 18"] div_mult_mult1 [of 4096 "a + k" "2 ^ 27"] by simp_all
    have e: "(a + k) div 512 div 512 = (a + k) div 2 ^ 18" "(a + k) div 2 ^ 18 div 512 = (a + k) div 2 ^ 27"
      by (simp_all flip: div_mult2_eq)
    have "table_paths (va + of_nat k * PAGE_SIZE) = {?f1 ((a + k) div 2 ^ 27), ?f2 ((a + k) div 2 ^ 18), ?f3 ((a + k) div 512)}"
      unfolding table_paths_def vpath_def index_div u d e by (simp only: e)
    then show "table_paths (va + of_nat k * PAGE_SIZE) \<subseteq> ?S ?f3 512 \<union> ?S ?f2 (2 ^ 18) \<union> ?S ?f1 (2 ^ 27)" using k by auto
  qed
  then have "card (range_tables va n) \<le> card (?S ?f3 512 \<union> ?S ?f2 (2 ^ 18) \<union> ?S ?f1 (2 ^ 27))" by (rule card_mono [rotated]) simp
  also have "\<dots> \<le> card (?S ?f3 512) + card (?S ?f2 (2 ^ 18)) + card (?S ?f1 (2 ^ 27))"
    by (meson add_le_mono1 card_Un_le le_trans)
  also have "\<dots> \<le> tables_bound n"
  proof -
    have "card (?S ?f3 512) \<le> n div 512 + 2" "card (?S ?f2 (2 ^ 18)) \<le> n div 2 ^ 18 + 2" "card (?S ?f1 (2 ^ 27)) \<le> n div 2 ^ 27 + 2"
      by (rule card_div_image; simp)+
    then show ?thesis unfolding tables_bound_def by linarith
  qed
  finally show ?thesis .
qed

section \<open>Mapping a list of ranges\<close>

text \<open>
  A range is a virtual address, a physical address, a size and attributes.  All ranges of the kernel are in
  the half of the address space that \<open>TTBR1_EL1\<close> translates.
\<close>

type_synonym vrange = "usize \<times> usize \<times> usize \<times> page_attrs"

fun pages_of :: "vrange \<Rightarrow> nat" where
  "pages_of (va, pa, sz, attrs) = unat sz div 4096"

fun within :: "vrange \<Rightarrow> usize \<Rightarrow> bool" where
  "within (va, pa, sz, attrs) v \<longleftrightarrow> va \<le> v \<and> unat v < unat va + unat sz"

fun range_aligned :: "vrange \<Rightarrow> bool" where
  "range_aligned (va, pa, sz, attrs) \<longleftrightarrow> IS_PAGE_ALIGNED va \<and> IS_PAGE_ALIGNED sz"

fun range_fits :: "vrange \<Rightarrow> bool" where
  "range_fits (va, pa, sz, attrs) \<longleftrightarrow> 0xffff000000000000 \<le> va \<and> unat va + unat sz < 2 ^ 64"

fun range_ok :: "vrange \<Rightarrow> bool" where
  "range_ok (va, pa, sz, attrs) \<longleftrightarrow> IS_PAGE_ALIGNED va \<and> IS_PAGE_ALIGNED sz \<and> 0xffff000000000000 \<le> va \<and> unat va + unat sz < 2 ^ 64"

lemma range_ok_iff: "range_ok r \<longleftrightarrow> range_aligned r \<and> range_fits r"
  by (cases r) simp

text \<open>Two ranges have no byte in common.\<close>

fun apart :: "vrange \<Rightarrow> vrange \<Rightarrow> bool" where
  "apart (va, pa, sz, attrs) (va', pa', sz', attrs') \<longleftrightarrow>
     sz = 0 \<or> sz' = 0 \<or> unat va + unat sz \<le> unat va' \<or> unat va' + unat sz' \<le> unat va"

text \<open>Ranges that can be mapped one after the other.\<close>

definition mappable :: "vrange list \<Rightarrow> bool" where
  "mappable rs \<longleftrightarrow> list_all range_aligned rs \<and> sorted_wrt apart rs"

definition map_ranges :: "limine \<Rightarrow> ptr \<Rightarrow> vrange list \<Rightarrow> mm \<Rightarrow> kerror + mm" where
  "map_ranges li root rs = forE rs (\<lambda>(va, pa, sz, attrs) s. bindE (paging_map li root va pa sz attrs s) (\<lambda>(_, s). Inr s))"

text \<open>Page \<open>k\<close> of a range, and its descriptor.\<close>

fun range_page :: "vrange \<Rightarrow> nat \<Rightarrow> usize" where
  "range_page (va, pa, sz, attrs) k = va + of_nat k * PAGE_SIZE"

fun range_desc :: "vrange \<Rightarrow> nat \<Rightarrow> u64" where
  "range_desc (va, pa, sz, attrs) k = page_descriptor attrs (pa + of_nat k * PAGE_SIZE) 0"

lemma vpn_kernel_eq:
  assumes "0xffff000000000000 \<le> u" and "0xffff000000000000 \<le> v"
  shows "vpn u = vpn v \<longleftrightarrow> unat u div 4096 = unat v div 4096"
proof -
  have d: "unat w div 4096 mod 2 ^ 36 = unat w div 4096 - 0xffff * 2 ^ 36" if "0xffff000000000000 \<le> w" for w :: u64
  proof -
    have "0xffff000000000000 \<le> unat w" using that by (simp add: word_le_nat_alt)
    then have "0xffff * 2 ^ 36 \<le> unat w div 4096" using div_le_mono [of "0xffff000000000000" "unat w" 4096] by simp
    moreover have "unat w div 4096 < 2 ^ 52" using unat_lt_u64 [of w] by (intro less_mult_imp_div_less) simp
    ultimately obtain y where "unat w div 4096 = 0xffff * 2 ^ 36 + y" "y < 2 ^ 36" by (auto dest: le_Suc_ex)
    then show ?thesis by (simp only: mod_mult_self3 mod_less diff_add_inverse)
  qed
  have "0xffff * 2 ^ 36 \<le> unat w div 4096" if "0xffff000000000000 \<le> w" for w :: u64
    using that div_le_mono [of "0xffff000000000000" "unat w" 4096] by (simp add: word_le_nat_alt)
  then show ?thesis unfolding word_unat_eq_iff unat_vpn d [OF assms(1)] d [OF assms(2)] using assms by (metis eq_diff_iff)
qed

lemma range_page_facts:
  assumes "range_ok r"
  shows "k < pages_of r \<Longrightarrow> within r (range_page r k)" "k < pages_of r \<Longrightarrow> 0xffff000000000000 \<le> range_page r k"
    "k < pages_of r \<Longrightarrow> 0xffff000000000000 \<le> v \<Longrightarrow> vpn v = vpn (range_page r k) \<Longrightarrow> within r v"
proof -
  obtain va pa sz attrs where r: "r = (va, pa, sz, attrs)" by (cases r)
  note ok = assms [unfolded r, simplified]
  obtain n where n: "unat sz = n * 4096" using ok by (auto simp: IS_PAGE_ALIGNED_iff)
  obtain a where a: "unat va = a * 4096" using ok by (auto simp: IS_PAGE_ALIGNED_iff)
  assume "k < pages_of r"
  then have k: "k < n" using n by (simp add: r)
  then have u: "unat (va + of_nat k * PAGE_SIZE) = (a + k) * 4096" using unat_page_step [of va k] ok a n by simp
  show "within r (range_page r k)" and ge: "0xffff000000000000 \<le> range_page r k"
    using u k a n ok by (simp_all add: r word_le_nat_alt)
  assume v: "0xffff000000000000 \<le> v" "vpn v = vpn (range_page r k)"
  then have "unat v div 4096 = a + k" using vpn_kernel_eq [OF v(1) ge] u by (simp add: r)
  then have "unat v = (a + k) * 4096 + unat v mod 4096" using div_mult_mod_eq [of "unat v" 4096] by simp
  moreover have "unat v mod 4096 < 4096" by simp
  ultimately have "(a + k) * 4096 \<le> unat v \<and> unat v < (a + k) * 4096 + 4096" by linarith
  then show "within r v" using k a n by (simp add: r word_le_nat_alt)
qed

lemma apart_within: "apart r r' \<Longrightarrow> within r v \<Longrightarrow> \<not> within r' v"
  by (cases r; cases r') (auto simp: word_le_nat_alt)


lemma range_sizes:
  assumes "range_ok (va, pa, sz, attrs)"
  shows "unat va + unat sz div 4096 * 4096 < 2 ^ 64" and "unat sz div 4096 \<le> 2 ^ 36"
proof -
  note o = assms [simplified]
  have n: "unat sz = unat sz div 4096 * 4096" using o by (auto simp: IS_PAGE_ALIGNED_iff)
  show "unat va + unat sz div 4096 * 4096 < 2 ^ 64" using o n by simp
  have "0xffff000000000000 \<le> unat va" using o by (simp add: word_le_nat_alt)
  then have "unat sz div 4096 * 4096 < 2 ^ 36 * 4096" using o n by simp
  then show "unat sz div 4096 \<le> 2 ^ 36" by simp
qed

text \<open>Mapping one range, in these terms.\<close>

lemma paging_map_range:
  assumes inv: "pt_inv li root s T xs" and ok: "range_ok (va, pa, sz, attrs)"
    and room: "card (dom T) + tables_bound (unat sz div 4096) + 3 \<le> card (ran T \<union> set xs)"
    and fresh: "\<And>k. k < pages_of (va, pa, sz, attrs) \<Longrightarrow> \<not> desc_is_valid (pte T s (range_page (va, pa, sz, attrs) k))"
  shows "\<exists>s' T' ys. paging_map li root va pa sz attrs s = Inr (errnum EOK, s') \<and> pt_inv li root s' T' ys \<and> pt_step T xs s T' ys s' \<and>
    card (dom T') \<le> card (dom T) + tables_bound (unat sz div 4096) \<and>
    (\<forall>k < pages_of (va, pa, sz, attrs). pte T' s' (range_page (va, pa, sz, attrs) k) = range_desc (va, pa, sz, attrs) k) \<and>
    (\<forall>v. 0xffff000000000000 \<le> v \<longrightarrow> \<not> within (va, pa, sz, attrs) v \<longrightarrow> pte T' s' v = pte T s v)"
proof -
  let ?r = "(va, pa, sz, attrs)" and ?n = "unat sz div 4096"
  note o = ok [simplified]
  have n: "unat sz = ?n * 4096" using o by (auto simp: IS_PAGE_ALIGNED_iff)
  note fits = range_sizes [OF ok]
  have card: "card (dom T \<union> range_tables va ?n) \<le> card (dom T) + tables_bound ?n"
    using card_Un_le [of "dom T" "range_tables va ?n"] card_range_tables [OF _ fits(1)] o by linarith
  from paging_map_tables [OF inv _ n fits _ fresh [simplified], where attrs = attrs and pa = pa] o card room
  obtain s' T' ys where m: "paging_map li root va pa sz attrs s = Inr (errnum EOK, s')" "pt_inv li root s' T' ys"
    "dom T' \<subseteq> dom T \<union> range_tables va ?n" "pt_step T xs s T' ys s'" "\<forall>v. pte T' s' v = range_pte attrs va pa ?n (pte T s) v"
    by fastforce
  have "card (dom T') \<le> card (dom T \<union> range_tables va ?n)"
    by (rule card_mono [OF _ m(3)]) (use pt_pages(1) [OF inv] in simp)
  moreover have "pte T' s' (range_page ?r k) = range_desc ?r k" if "k < pages_of ?r" for k
    unfolding m(5) [rule_format] using range_pte_at [of k ?n va "range_page ?r k" attrs pa "pte T s"] that fits by simp
  moreover have "pte T' s' v = pte T s v" if "0xffff000000000000 \<le> v" "\<not> within ?r v" for v
    unfolding m(5) [rule_format] using range_page_facts(3) [OF ok _ that(1)] that(2)
    by (intro range_pte_outside) fastforce
  moreover have "card (dom T') \<le> card (dom T) + tables_bound ?n" using calculation(1) card by (rule le_trans)
  ultimately show ?thesis using m(1,2,4) by (intro exI [of _ s'] exI [of _ T'] exI [of _ ys]) blast
qed

lemma map_ranges_spec:
  assumes "pt_inv li root s T xs" and "list_all range_ok rs" and "sorted_wrt apart rs"
    and "card (dom T) + (\<Sum>r\<leftarrow>rs. tables_bound (pages_of r)) + 3 \<le> card (ran T \<union> set xs)"
    and "\<forall>r \<in> set rs. \<forall>k < pages_of r. \<not> desc_is_valid (pte T s (range_page r k))"
  shows "\<exists>s' T' ys. map_ranges li root rs s = Inr s' \<and> pt_inv li root s' T' ys \<and> pt_step T xs s T' ys s' \<and>
    card (dom T') \<le> card (dom T) + (\<Sum>r\<leftarrow>rs. tables_bound (pages_of r)) \<and>
    (\<forall>r \<in> set rs. \<forall>k < pages_of r. pte T' s' (range_page r k) = range_desc r k) \<and>
    (\<forall>v. 0xffff000000000000 \<le> v \<longrightarrow> (\<forall>r \<in> set rs. \<not> within r v) \<longrightarrow> pte T' s' v = pte T s v)"
  using assms
proof (induction rs arbitrary: s T xs)
  case Nil
  then show ?case by (auto simp: map_ranges_def intro!: exI [of _ T] exI [of _ xs])
next
  case (Cons r rs)
  obtain va pa sz attrs where r: "r = (va, pa, sz, attrs)" by (cases r)
  have ok: "range_ok r" "\<And>q. q \<in> set rs \<Longrightarrow> range_ok q" "\<And>q. q \<in> set rs \<Longrightarrow> apart r q"
    using Cons.prems(2,3) by (auto simp: list_all_iff)
  from paging_map_range [OF Cons.prems(1) ok(1) [unfolded r]] Cons.prems(4,5) obtain s1 T1 ys1 where
    1: "paging_map li root va pa sz attrs s = Inr (errnum EOK, s1)" "pt_inv li root s1 T1 ys1" "pt_step T xs s T1 ys1 s1"
      "card (dom T1) \<le> card (dom T) + tables_bound (pages_of r)" "\<forall>k < pages_of r. pte T1 s1 (range_page r k) = range_desc r k"
      "\<And>v. 0xffff000000000000 \<le> v \<Longrightarrow> \<not> within r v \<Longrightarrow> pte T1 s1 v = pte T s v" unfolding r by auto
  have out: "pte T1 s1 (range_page q k) = pte T s (range_page q k)" if q: "q \<in> set rs" "k < pages_of q" for q k
    by (rule 1(6) [OF range_page_facts(2) [OF ok(2) [OF q(1)] q(2)]])
       (use apart_within [OF ok(3) [OF q(1)]] range_page_facts(1) [OF ok(2) [OF q(1)] q(2)] in blast)
  have "ran T1 \<union> set ys1 = ran T \<union> set xs" using 1(3) by (simp add: pt_step_def)
  then have "card (dom T1) + (\<Sum>r\<leftarrow>rs. tables_bound (pages_of r)) + 3 \<le> card (ran T1 \<union> set ys1)" using Cons.prems(4) 1(4) by simp
  from Cons.IH [OF 1(2) _ _ this] Cons.prems(2,3,5) out obtain s' T' ys where
    2: "map_ranges li root rs s1 = Inr s'" "pt_inv li root s' T' ys" "pt_step T1 ys1 s1 T' ys s'"
      "card (dom T') \<le> card (dom T1) + (\<Sum>r\<leftarrow>rs. tables_bound (pages_of r))"
      "\<forall>r \<in> set rs. \<forall>k < pages_of r. pte T' s' (range_page r k) = range_desc r k"
      "\<And>v. 0xffff000000000000 \<le> v \<Longrightarrow> \<forall>r \<in> set rs. \<not> within r v \<Longrightarrow> pte T' s' v = pte T1 s1 v" by auto
  have "pte T' s' (range_page r k) = range_desc r k" if k: "k < pages_of r" for k
  proof -
    have "\<forall>q \<in> set rs. \<not> within q (range_page r k)" using apart_within [OF ok(3)] range_page_facts(1) [OF ok(1) k] by blast
    then show ?thesis using 2(6) range_page_facts(2) [OF ok(1) k] 1(5) k by metis
  qed
  moreover have "map_ranges li root (r # rs) s = Inr s'" using 1(1) 2(1) by (simp add: map_ranges_def r)
  moreover have "pte T' s' v = pte T s v" if "0xffff000000000000 \<le> v" "\<forall>q \<in> set (r # rs). \<not> within q v" for v
    using that 1(6) 2(6) by simp
  moreover have "card (dom T') \<le> card (dom T) + (\<Sum>r\<leftarrow>r # rs. tables_bound (pages_of r))" using 2(4) 1(4) by simp
  ultimately show ?case using 2(2,5) pt_step_trans [OF 1(3) 2(3)] by (intro exI [of _ s'] exI [of _ T'] exI [of _ ys]) simp
qed


text \<open>
  Otherwise the mapping panics: \<open>paging_map\<close> refuses a range that does not consist of whole pages, and finds the
  first page of an overlap mapped already.
\<close>

lemma overlap_page:
  assumes r: "range_ok r" and q: "range_ok q" and n: "\<not> apart q r"
  shows "\<exists>k < pages_of r. \<exists>j < pages_of q. range_page r k = range_page q j"
proof -
  obtain va pa sz attrs va' pa' sz' attrs' where e: "r = (va, pa, sz, attrs)" "q = (va', pa', sz', attrs')" by (cases r; cases q)
  define a n a' n' where "a = unat va div 4096" "n = unat sz div 4096" "a' = unat va' div 4096" "n' = unat sz' div 4096"
  then have u: "unat va = a * 4096" "unat sz = n * 4096" "unat va' = a' * 4096" "unat sz' = n' * 4096"
    using r q unfolding e by (auto simp: IS_PAGE_ALIGNED_iff)
  have ov: "a' < a + n" "a < a' + n'" using n unfolding e by (simp_all add: u)
  have "unat sz \<noteq> 0" "unat sz' \<noteq> 0" using n unfolding e by (auto simp: word_unat_eq_iff)
  then have pos: "0 < n" "0 < n'" using u by auto
  have pages: "pages_of r = n" "pages_of q = n'" by (simp_all add: e u)
  have pr: "unat (range_page r k) = (a + k) * 4096" if "k < n" for k
    using unat_page_step [of va k] r that unfolding e by (simp add: u algebra_simps)
  have pq: "unat (range_page q j) = (a' + j) * 4096" if "j < n'" for j
    using unat_page_step [of va' j] q that unfolding e by (simp add: u algebra_simps)
  have "range_page r (max a a' - a) = range_page q (max a a' - a')"
    using pr [of "max a a' - a"] pq [of "max a a' - a'"] ov pos by (auto simp: word_unat_eq_iff max_def)
  moreover have "max a a' - a < n" "max a a' - a' < n'" using ov pos by auto
  ultimately show ?thesis unfolding pages by blast
qed

lemma paging_map_clash:
  assumes inv: "pt_inv li root s T xs" and ok: "range_ok (va, pa, sz, attrs)"
    and room: "card (dom T) + tables_bound (unat sz div 4096) + 3 \<le> card (ran T \<union> set xs)"
    and k: "k < pages_of (va, pa, sz, attrs)" "desc_is_valid (pte T s (range_page (va, pa, sz, attrs) k))"
  shows "paging_map li root va pa sz attrs s = Inl (Panic ''remaping an already existing page'')"
proof -
  let ?n = "unat sz div 4096"
  note o = ok [simplified]
  have n: "unat sz = ?n * 4096" using o by (auto simp: IS_PAGE_ALIGNED_iff)
  note fits = range_sizes [OF ok]
  have "card (dom T \<union> range_tables va ?n) \<le> card (dom T) + tables_bound ?n"
    using card_Un_le [of "dom T" "range_tables va ?n"] card_range_tables [OF _ fits(1)] o by linarith
  then have r: "card (dom T \<union> range_tables va ?n) + 3 \<le> card (ran T \<union> set xs)" using room by linarith
  have "IS_PAGE_ALIGNED sz" using o by simp
  then have "sz = of_nat ?n * PAGE_SIZE" by (rule aligned_size) (use n in simp)
  then show ?thesis using map_loop_clash [OF inv r fits, of k attrs pa] k o by (simp add: paging_map_def)
qed

lemma map_ranges_panics:
  assumes "pt_inv li root s T xs" and "list_all range_fits rs" and "\<not> mappable rs"
    and "card (dom T) + (\<Sum>r\<leftarrow>rs. tables_bound (pages_of r)) + 3 \<le> card (ran T \<union> set xs)"
    and new: "\<forall>v. \<not> desc_is_valid (pte T s v)"
  shows "\<exists>msg. map_ranges li root rs s = Inl (Panic msg)"
  using assms(2-4)
proof (induction rs rule: rev_induct)
  case Nil
  then show ?case by (simp add: mappable_def)
next
  case (snoc r rs)
  have app: "map_ranges li root (rs @ [r]) s = bindE (map_ranges li root rs s) (map_ranges li root [r])"
    by (simp add: map_ranges_def forE_append)
  show ?case
  proof (cases "mappable rs")
    case False
    with snoc show ?thesis unfolding app by auto
  next
    case True
    obtain va pa sz attrs where r: "r = (va, pa, sz, attrs)" by (cases r)
    have ok: "list_all range_ok rs" "sorted_wrt apart rs" "range_fits r"
      using True snoc.prems(1) by (simp_all add: mappable_def list_all_iff range_ok_iff)
    have room: "card (dom T) + (\<Sum>r\<leftarrow>rs. tables_bound (pages_of r)) + 3 \<le> card (ran T \<union> set xs)" using snoc.prems(3) by simp
    from map_ranges_spec [OF assms(1) ok(1,2) room] new obtain s' T' ys where
      m: "map_ranges li root rs s = Inr s'" "pt_inv li root s' T' ys" "pt_step T xs s T' ys s'"
        "card (dom T') \<le> card (dom T) + (\<Sum>r\<leftarrow>rs. tables_bound (pages_of r))"
        "\<forall>r \<in> set rs. \<forall>k < pages_of r. pte T' s' (range_page r k) = range_desc r k" by blast
    have "\<exists>msg. paging_map li root va pa sz attrs s' = Inl (Panic msg)"
    proof (cases "range_aligned r")
      case False
      then show ?thesis by (auto simp: r paging_map_def)
    next
      case al: True
      then have "\<not> (\<forall>q \<in> set rs. apart q r)" using True snoc.prems(2) by (auto simp: mappable_def sorted_wrt_append)
      then obtain q where q: "q \<in> set rs" "\<not> apart q r" by blast
      have rok: "range_ok r" "range_ok q" using al ok(1,3) q(1) by (auto simp: range_ok_iff list_all_iff)
      obtain k j where k: "k < pages_of r" "j < pages_of q" "range_page r k = range_page q j"
        using overlap_page [OF rok q(2)] by blast
      have "desc_is_valid (pte T' s' (range_page r k))" using m(5) q(1) k(2) unfolding k(3) by (cases q) (metis page_descriptor_fields(1) range_desc.simps)
      moreover have "card (dom T') + tables_bound (unat sz div 4096) + 3 \<le> card (ran T' \<union> set ys)"
        using m(3,4) snoc.prems(3) by (simp add: pt_step_def r)
      ultimately show ?thesis using paging_map_clash [OF m(2) rok(1) [unfolded r]] k(1) unfolding r by blast
    qed
    then show ?thesis using m(1) unfolding app by (auto simp: map_ranges_def r)
  qed
qed

section \<open>The ranges of the kernel\<close>

definition text_attrs :: page_attrs where
  "text_attrs = \<lparr>pa_perms = EL1_READ_ONLY_EL0_NONE, pa_attr_index = ATTR_INDEX_NORMAL,
     pa_shareability = SHAREABLE_INNER_SHAREABLE, pa_privilege_execution = EXECUTABLE,
     pa_underprivilege_execution = NOT_EXECUTABLE\<rparr>"

text \<open>The part of the direct map for an entry of the memory map.\<close>

definition direct_range :: "usize \<Rightarrow> memmap_entry \<Rightarrow> vrange list" where
  "direct_range off e =
     (if me_type e = LIMINE_MEMMAP_FRAMEBUFFER then [(me_base e + off, me_base e, me_length e, mmio_attrs)]
      else if me_type e \<in> {LIMINE_MEMMAP_BOOTLOADER_RECLAIMABLE, LIMINE_MEMMAP_EXECUTABLE_AND_MODULES, LIMINE_MEMMAP_USABLE}
      then [(me_base e + off, me_base e, me_length e, mem_attrs)] else [])"

definition direct_ranges :: "usize \<Rightarrow> memmap_entry list \<Rightarrow> vrange list" where
  "direct_ranges off es = concat (map (direct_range off) es)"

definition image_ranges :: "usize \<times> usize \<Rightarrow> kernel_image \<Rightarrow> vrange list" where
  "image_ranges base img =
     [(KERNEL_START img, fst base + (KERNEL_START img - snd base), KERNEL_TEXT_END img - KERNEL_START img, text_attrs),
      (KERNEL_DATA_START img, fst base + (KERNEL_DATA_START img - snd base), KERNEL_DATA_END img - KERNEL_DATA_START img, mem_attrs)]"

definition kernel_ranges :: "usize \<Rightarrow> usize \<times> usize \<Rightarrow> kernel_image \<Rightarrow> memmap_entry list \<Rightarrow> vrange list" where
  "kernel_ranges off base img es = image_ranges base img @ direct_ranges off es"

lemma direct_map_loop:
  assumes "limine_hhdm li = Some off"
  shows "forE es (\<lambda>entry s.
       if me_type entry = LIMINE_MEMMAP_FRAMEBUFFER then
         bindE (phys_to_virt li (me_base entry)) (\<lambda>va.
         bindE (map_device li root va (me_base entry) (me_length entry) s) (\<lambda>(_, s). Inr s))
       else if me_type entry \<in> {LIMINE_MEMMAP_BOOTLOADER_RECLAIMABLE,
           LIMINE_MEMMAP_EXECUTABLE_AND_MODULES, LIMINE_MEMMAP_USABLE} then
         bindE (phys_to_virt li (me_base entry)) (\<lambda>va.
         bindE (map_data li root va (me_base entry) (me_length entry) s) (\<lambda>(_, s). Inr s))
       else Inr s) s = map_ranges li root (direct_ranges off es) s" (is "forE es ?f s = _")
proof (induction es arbitrary: s)
  case Nil
  then show ?case by (simp add: map_ranges_def direct_ranges_def)
next
  case (Cons e es)
  have "map_ranges li root (direct_ranges off (e # es)) s =
      bindE (map_ranges li root (direct_range off e) s) (map_ranges li root (direct_ranges off es))"
    by (simp add: map_ranges_def direct_ranges_def forE_append)
  moreover have "map_ranges li root (direct_range off e) s = ?f e s"
    by (simp add: map_ranges_def direct_range_def phys_to_virt_def assms map_device_def map_data_def
        mmio_attrs_def mem_attrs_def bindE_assoc case_prod_unfold)
  moreover have "forE es ?f = map_ranges li root (direct_ranges off es)" by (rule ext) (rule Cons.IH)
  ultimately show ?case by (simp only: forE.simps)
qed

lemma paging_kernel_init_ranges:
  assumes "limine_memmap li = Some es" and "limine_hhdm li = Some off" and "limine_kernel_address li = Some base"
  shows "paging_kernel_init li img root s = map_ranges li root (kernel_ranges off base img es) s"
  unfolding paging_kernel_init_def direct_map_loop [OF assms(2)]
  by (simp add: assms kernel_ranges_def image_ranges_def map_ranges_def kernel_virt_to_phys_def case_prod_unfold map_text_def map_data_def
      text_attrs_def mem_attrs_def bindE_assoc)


section \<open>The layout at boot\<close>

text \<open>
  What the boot protocol and the linker script promise.  The protocol
  (\<open>thirdparty/limine-protocol/PROTOCOL.md\<close>, memory map feature): entries of usable and of reclaimable memory
  consist of whole pages and overlap no other entry; about the other entries, those of kernel and modules and of
  framebuffers among them, nothing is promised.  The direct map is in the upper half and starts at a page; the
  image is at or above \<open>0xffffffff80000000\<close>, and the direct map, in which physical memory has its place, ends below.
  The linker script \<open>kernel/kernel.ld\<close>: text and data of the image are whole pages, apart from each other, and end
  below the two ranges that the kernel keeps for its regions.
\<close>

definition region_ranges :: "vrange list" where
  "region_ranges = [(KERNEL_VM_RANGE_BASE, 0, KERNEL_VM_RANGE_SIZE, mem_attrs),
     (KERNEL_MMIO_RANGE_START, 0, KERNEL_MMIO_RANGE_SIZE, mmio_attrs)]"

definition free_entry :: "memmap_entry \<Rightarrow> bool" where
  "free_entry e \<longleftrightarrow> me_type e \<in> {LIMINE_MEMMAP_USABLE, LIMINE_MEMMAP_BOOTLOADER_RECLAIMABLE}"

definition entry_ok :: "usize \<Rightarrow> memmap_entry \<Rightarrow> bool" where
  "entry_ok off e \<longleftrightarrow> (free_entry e \<longrightarrow> IS_PAGE_ALIGNED (me_base e) \<and> IS_PAGE_ALIGNED (me_length e)) \<and>
     (direct_range off e \<noteq> [] \<longrightarrow> unat (me_base e) + unat (me_length e) + unat off \<le> 0xffffffff80000000)"

definition entries_apart :: "memmap_entry \<Rightarrow> memmap_entry \<Rightarrow> bool" where
  "entries_apart e e' \<longleftrightarrow> (free_entry e \<or> free_entry e' \<longrightarrow>
     unat (me_base e) + unat (me_length e) \<le> unat (me_base e') \<or> unat (me_base e') + unat (me_length e') \<le> unat (me_base e))"

definition image_ok :: "usize \<times> usize \<Rightarrow> kernel_image \<Rightarrow> bool" where
  "image_ok base img \<longleftrightarrow> list_all range_ok (image_ranges base img) \<and> sorted_wrt apart (image_ranges base img @ region_ranges) \<and>
     0xffffffff80000000 \<le> KERNEL_START img \<and> 0xffffffff80000000 \<le> KERNEL_DATA_START img"

definition boot_layout :: "usize \<Rightarrow> usize \<times> usize \<Rightarrow> kernel_image \<Rightarrow> memmap_entry list \<Rightarrow> bool" where
  "boot_layout off base img es \<longleftrightarrow> IS_PAGE_ALIGNED off \<and> 0xffff000000000000 \<le> off \<and> list_all (entry_ok off) es \<and>
     sorted_wrt entries_apart es \<and> image_ok base img"

text \<open>What follows for the ranges, whatever the entries without a promise are.\<close>

lemma layout_range:
  assumes lay: "boot_layout off base img es" and r: "r \<in> set (kernel_ranges off base img es)"
  shows "range_fits r" and "q \<in> set region_ranges \<Longrightarrow> apart r q"
proof -
  have "range_fits r \<and> (\<forall>q \<in> set region_ranges. apart r q)"
  proof (cases "r \<in> set (image_ranges base img)")
    case True
    then show ?thesis using lay by (auto simp: boot_layout_def image_ok_def list_all_iff range_ok_iff sorted_wrt_append)
  next
    case False
    then obtain e where e: "e \<in> set es" "r \<in> set (direct_range off e)" using r by (auto simp: kernel_ranges_def direct_ranges_def)
    then have sum: "unat (me_base e) + unat (me_length e) + unat off \<le> 0xffffffff80000000" "0xffff000000000000 \<le> unat off"
      using lay unfolding boot_layout_def by (auto simp: list_all_iff entry_ok_def word_le_nat_alt)
    then have u: "unat (me_base e + off) = unat (me_base e) + unat off" by (intro unat_add_u64) simp
    obtain attrs where "r = (me_base e + off, me_base e, me_length e, attrs)" using e(2) by (auto simp: direct_range_def split: if_splits)
    then show ?thesis using sum u
      by (auto simp: word_le_nat_alt region_ranges_def KERNEL_VM_RANGE_BASE_def KERNEL_MMIO_RANGE_START_def)
  qed
  then show "range_fits r" and "q \<in> set region_ranges \<Longrightarrow> apart r q" by blast+
qed

text \<open>The usable pages are pages of the direct map.\<close>

abbreviation usable_range :: "usize \<Rightarrow> memmap_entry \<Rightarrow> vrange" where
  "usable_range off e \<equiv> (me_base e + off, me_base e, me_length e, mem_attrs)"

lemma usable_entry:
  assumes "entry_ok off e" and "me_type e = LIMINE_MEMMAP_USABLE" and "IS_PAGE_ALIGNED off" and "0xffff000000000000 \<le> off"
  shows "unat (me_base e) + unat (me_length e) + unat off \<le> 0xffffffff80000000" and "unat (me_base e + off) = unat (me_base e) + unat off"
    and "range_ok (usable_range off e)" and "free_entry e" and "IS_PAGE_ALIGNED (me_base e)"
proof -
  have "direct_range off e \<noteq> []" using assms(2) by (simp add: direct_range_def)
  then show sum: "unat (me_base e) + unat (me_length e) + unat off \<le> 0xffffffff80000000" using assms(1) by (simp add: entry_ok_def)
  then show u: "unat (me_base e + off) = unat (me_base e) + unat off" by (intro unat_add_u64) simp
  show free: "free_entry e" using assms(2) by (simp add: free_entry_def)
  then show "IS_PAGE_ALIGNED (me_base e)" using assms(1) by (simp add: entry_ok_def)
  have "IS_PAGE_ALIGNED (me_base e)" "IS_PAGE_ALIGNED (me_length e)" using assms(1) free by (simp_all add: entry_ok_def)
  then show "range_ok (usable_range off e)" using u sum assms(3,4) by (auto simp: IS_PAGE_ALIGNED_iff word_le_nat_alt)
qed

lemma entry_pages_direct:
  assumes "unat (me_base e) + unat (me_length e) < 2 ^ 64" and "me_type e = LIMINE_MEMMAP_USABLE"
  shows "entry_pages off e = map (range_page (usable_range off e)) [0..<unat (me_length e) div 4096]"
proof -
  have "unat (me_base e + me_length e) - unat (me_base e) = unat (me_length e)" using assms(1) by (simp add: unat_add_u64)
  then show ?thesis using assms(2) by (simp add: entry_pages_def range_pages_def algebra_simps)
qed

lemma distinct_range_pages:
  assumes "range_ok r"
  shows "distinct (map (range_page r) [0..<pages_of r])"
proof -
  obtain va pa sz attrs where r: "r = (va, pa, sz, attrs)" by (cases r)
  have u: "unat (va + of_nat k * PAGE_SIZE) = unat va + k * 4096" if "k < unat sz div 4096" for k
  proof (rule unat_page_step)
    have "k * 4096 \<le> unat sz" using that by linarith
    then show "unat va + k * 4096 < 2 ^ 64" using assms by (simp add: r)
  qed
  have "inj_on (range_page r) {..<pages_of r}"
  proof (rule inj_onI)
    fix i j assume "i \<in> {..<pages_of r}" "j \<in> {..<pages_of r}" "range_page r i = range_page r j"
    then have "unat (va + of_nat i * PAGE_SIZE) = unat (va + of_nat j * PAGE_SIZE)" "i < unat sz div 4096" "j < unat sz div 4096"
      by (simp_all add: r)
    then show "i = j" using u [of i] u [of j] by linarith
  qed
  then show ?thesis by (simp add: distinct_map atLeast0LessThan)
qed

definition entries_ok :: "usize \<Rightarrow> memmap_entry list \<Rightarrow> bool" where
  "entries_ok off es \<longleftrightarrow> IS_PAGE_ALIGNED off \<and> 0xffff000000000000 \<le> off \<and> list_all (entry_ok off) es \<and> sorted_wrt entries_apart es"

lemma layout_entries: "boot_layout off base img es \<Longrightarrow> entries_ok off es"
  by (simp add: boot_layout_def entries_ok_def)

lemma usable_pages_within:
  assumes "entries_ok off es" and "p \<in> set (usable_pages off es)"
  shows "\<exists>e \<in> set es. entry_ok off e \<and> me_type e = LIMINE_MEMMAP_USABLE \<and> within (usable_range off e) p \<and>
    (\<exists>k < unat (me_length e) div 4096. p = me_base e + off + of_nat k * PAGE_SIZE)"
proof -
  obtain e where e: "e \<in> set es" "p \<in> set (entry_pages off e)" using assms(2) by (auto simp: usable_pages_def)
  then have t: "me_type e = LIMINE_MEMMAP_USABLE" by (auto simp: entry_pages_def split: if_splits)
  have ok: "entry_ok off e" "IS_PAGE_ALIGNED off" "0xffff000000000000 \<le> off" using assms(1) e(1) by (auto simp: entries_ok_def list_all_iff)
  note u = usable_entry [OF ok(1) t ok(2,3)]
  have "unat (me_base e) + unat (me_length e) < 2 ^ 64" using u(1) by simp
  then obtain k where k: "k < pages_of (usable_range off e)" "p = range_page (usable_range off e) k"
    using e(2) t by (auto simp: entry_pages_direct)
  then have "within (usable_range off e) p" using range_page_facts(1) [OF u(3)] by blast
  with e(1) ok(1) t k show ?thesis by (metis pages_of.simps range_page.simps)
qed

lemma usable_pages_distinct:
  assumes "entries_ok off es"
  shows "distinct (usable_pages off es)"
  using assms
proof (induction es)
  case Nil
  then show ?case by (simp add: usable_pages_def)
next
  case (Cons e es)
  have us: "usable_pages off (e # es) = usable_pages off [e] @ usable_pages off es" by (simp add: usable_pages_def)
  have one: "entries_ok off [e]" and rest: "entries_ok off es" and ap: "\<And>e'. e' \<in> set es \<Longrightarrow> entries_apart e e'"
    using Cons.prems by (simp_all add: entries_ok_def)
  have off: "IS_PAGE_ALIGNED off" "0xffff000000000000 \<le> off" using Cons.prems by (simp_all add: entries_ok_def)
  have "distinct (usable_pages off [e])"
  proof (cases "me_type e = LIMINE_MEMMAP_USABLE")
    case True
    have "entry_ok off e" using one by (simp add: entries_ok_def)
    note u = usable_entry [OF this True off]
    have "unat (me_base e) + unat (me_length e) < 2 ^ 64" using u(1) by simp
    then show ?thesis using distinct_range_pages [OF u(3)] True by (simp add: usable_pages_def entry_pages_direct)
  next
    case False
    then show ?thesis by (simp add: usable_pages_def entry_pages_def)
  qed
  moreover have "set (usable_pages off [e]) \<inter> set (usable_pages off es) = {}"
  proof (intro equals0I, elim IntE)
    fix p assume p: "p \<in> set (usable_pages off [e])" "p \<in> set (usable_pages off es)"
    have e: "entry_ok off e" "me_type e = LIMINE_MEMMAP_USABLE" "within (usable_range off e) p" using usable_pages_within [OF one p(1)] by auto
    obtain e' where e': "e' \<in> set es" "entry_ok off e'" "me_type e' = LIMINE_MEMMAP_USABLE" "within (usable_range off e') p"
      using usable_pages_within [OF rest p(2)] by blast
    note u = usable_entry [OF e(1,2) off] and u' = usable_entry [OF e'(2,3) off]
    have "apart (usable_range off e) (usable_range off e')" using ap [OF e'(1)] u(2,4) u'(2) by (auto simp: entries_apart_def)
    then show False using apart_within e(3) e'(4) by blast
  qed
  ultimately show ?case unfolding us using Cons.IH rest by simp
qed

lemma usable_page_ok:
  assumes "entries_ok off es" and "limine_hhdm li = Some off" and "p \<in> set (usable_pages off es)"
  shows "page_ok li p" and "unat p + 4096 \<le> 0xffffffff80000000" and "p \<noteq> nullptr"
proof -
  have off: "IS_PAGE_ALIGNED off" "0xffff000000000000 \<le> off" using assms(1) by (simp_all add: entries_ok_def)
  obtain e k where e: "entry_ok off e" "me_type e = LIMINE_MEMMAP_USABLE"
    "k < unat (me_length e) div 4096" "p = me_base e + off + of_nat k * PAGE_SIZE"
    using usable_pages_within [OF assms(1,3)] by auto
  note ue = usable_entry [OF e(1,2) off]
  have k: "k * 4096 + 4096 \<le> unat (me_length e)" using e(3) by linarith
  have u: "unat p = unat (me_base e) + unat off + k * 4096"
    unfolding e(4) ue(2) [symmetric] by (rule unat_page_step) (use ue(1,2) k in simp)
  have o: "0xffff000000000000 \<le> unat off" using off(2) by (simp add: word_le_nat_alt)
  show "unat p + 4096 \<le> 0xffffffff80000000" using u ue(1) k by linarith
  show "p \<noteq> nullptr" using u o by (auto simp: word_unat_eq_iff)
  have le: "off \<le> p" using u by (simp add: word_le_nat_alt)
  have "IS_PAGE_ALIGNED p" using ue(3) u ue(2) by (auto simp: IS_PAGE_ALIGNED_iff)
  moreover have "unat (p - off) < 2 ^ 48" unfolding unat_sub_u64 [OF le] using u ue(1) k o by simp
  ultimately show "page_ok li p" using le u ue(1) k by (simp add: page_ok_def hhdm_def assms(2))
qed


section \<open>Initialising virtual memory\<close>

text \<open>The pages of the regions are outside the ranges that are mapped at boot.\<close>

lemma region_pages_outside:
  assumes "boot_layout off base img es" and "q \<in> set region_ranges" and "k < pages_of q"
  shows "0xffff000000000000 \<le> range_page q k" and "\<forall>r \<in> set (kernel_ranges off base img es). \<not> within r (range_page q k)"
proof -
  have ok: "range_ok q" using assms(2)
    by (auto simp: region_ranges_def IS_PAGE_ALIGNED_iff KERNEL_VM_RANGE_BASE_def KERNEL_VM_RANGE_SIZE_def
        KERNEL_MMIO_RANGE_START_def KERNEL_MMIO_RANGE_SIZE_def)
  show "0xffff000000000000 \<le> range_page q k" by (rule range_page_facts(2) [OF ok assms(3)])
  have "apart r q" if "r \<in> set (kernel_ranges off base img es)" for r
    by (rule layout_range(2) [OF assms(1) that assms(2)])
  then show "\<forall>r \<in> set (kernel_ranges off base img es). \<not> within r (range_page q k)"
    using apart_within range_page_facts(1) [OF ok assms(3)] by blast
qed

lemma mapped_pages_outside:
  assumes lay: "boot_layout off base img es" and ok: "range_ok r" and r: "r \<in> set (kernel_ranges off base img es)" "k < pages_of r"
    and a: "bm_bitmap (vr_allocator g) = b" "bm_page_count (vr_allocator g) = KERNEL_VM_RANGE_SIZE div PAGE_SIZE" "bm_pool (vr_allocator g) = KERNEL_VM_RANGE_BASE"
  shows "outside_region g (range_page r k)"
  unfolding outside_region_def
proof (intro allI impI)
  let ?q = "(KERNEL_VM_RANGE_BASE, 0, KERNEL_VM_RANGE_SIZE, mem_attrs) :: vrange"
  fix l assume "l < bm_count (vr_allocator g)"
  then have l: "l < pages_of ?q" by (simp add: a KERNEL_VM_RANGE_SIZE_def PAGE_SIZE_def)
  have g: "bm_addr (vr_allocator g) l = range_page ?q l" by (simp add: bm_addr_def bm_page_to_addr_def a)
  have q: "?q \<in> set region_ranges" by (simp add: region_ranges_def)
  note out = region_pages_outside [OF lay q l]
  show "vpn (range_page r k) \<noteq> vpn (bm_addr (vr_allocator g) l)"
    unfolding g using range_page_facts(3) [OF ok r(2) out(1)] out(2) r(1) by metis
qed

text \<open>How many tables the ranges may need.\<close>

definition boot_tables :: "vrange list \<Rightarrow> nat" where
  "boot_tables rs = Suc (\<Sum>r\<leftarrow>rs. tables_bound (pages_of r))"

lemma memset_zero_page:
  assumes "\<forall>a. m a = (if in_region a x 4096 then 0 else m0 a)"
  shows "memset m x 0 PAGE_SIZE = m"
  using assms by (auto simp: memset_eq fun_eq_iff)

lemma first_table:
  assumes li: "limine_hhdm li = Some off" "IS_PAGE_ALIGNED off"
    and rep: "kmem_rep (mm_kmem s) (mm_mem s) (x # xs)" and c: "core_ok (Suc 0) (mm_core s)"
    and pages: "\<forall>p \<in> set (x # xs). page_ok li p" and room: "boot_tables rs + 3 \<le> Suc (length xs)"
  shows "\<exists>s0. mm_alloc s = Inr (x, s0) \<and> memset (mm_mem s0) x 0 PAGE_SIZE = mm_mem s0 \<and> pt_inv li x s0 [[] \<mapsto> x] xs \<and>
    (\<forall>v. pte [[] \<mapsto> x] s0 v = 0) \<and> irq_view (mm_core s0) = irq_view (mm_core s) \<and> card (insert x (set xs)) = Suc (length xs) \<and>
    card (dom ([[] \<mapsto> x] :: tree)) + (\<Sum>r\<leftarrow>rs. tables_bound (pages_of r)) + 3 \<le> card (ran ([[] \<mapsto> x] :: tree) \<union> set xs)"
proof -
  let ?T = "[[] \<mapsto> x] :: tree"
  have off: "hhdm li = off" using li(1) by (simp add: hhdm_def)
  from pt_inv_boot [OF _ _ pages rep c] li off obtain s0 where s0: "mm_alloc s = Inr (x, s0)" "pt_inv li x s0 ?T xs"
    "\<forall>v. pte ?T s0 v = 0" by auto
  have view: "irq_view (mm_core s0) = irq_view (mm_core s)" and "\<forall>a. mm_mem s0 a = (if in_region a x 4096 then 0 else mm_mem s a)"
    using mm_alloc_cons [OF rep c] s0(1) by auto
  then have z: "memset (mm_mem s0) x 0 PAGE_SIZE = mm_mem s0" by (intro memset_zero_page)
  have dist: "distinct (x # xs)" using rep by (simp add: kmem_rep_def)
  then have cd: "card (insert x (set xs)) = Suc (length xs)" using distinct_card [OF dist] by simp
  have "card (dom ?T) + (\<Sum>r\<leftarrow>rs. tables_bound (pages_of r)) + 3 \<le> card (ran ?T \<union> set xs)" using room cd by (simp add: boot_tables_def)
  then show ?thesis using s0 z view cd by blast
qed

lemma kernel_tables:
  assumes li: "limine_memmap li = Some es" "limine_hhdm li = Some off" "limine_kernel_address li = Some base"
    and lay: "boot_layout off base img es" and rep: "kmem_rep (mm_kmem s) (mm_mem s) (x # xs)" and c: "core_ok (Suc 0) (mm_core s)"
    and pages: "\<forall>p \<in> set (x # xs). page_ok li p" and room: "boot_tables (kernel_ranges off base img es) + 3 \<le> Suc (length xs)"
    and good: "mappable (kernel_ranges off base img es)"
  shows "\<exists>s0 s' T ys. mm_alloc s = Inr (x, s0) \<and> memset (mm_mem s0) x 0 PAGE_SIZE = mm_mem s0 \<and>
    paging_kernel_init li img x s0 = Inr s' \<and> pt_inv li x s' T ys \<and> ran T \<union> set ys = set (x # xs) \<and>
    irq_view (mm_core s') = irq_view (mm_core s) \<and> Suc (length xs) \<le> length ys + boot_tables (kernel_ranges off base img es) \<and>
    (\<forall>r \<in> set (kernel_ranges off base img es). \<forall>k < pages_of r. pte T s' (range_page r k) = range_desc r k) \<and>
    (\<forall>v. 0xffff000000000000 \<le> v \<longrightarrow> (\<forall>r \<in> set (kernel_ranges off base img es). \<not> within r v) \<longrightarrow> pte T s' v = 0)"
proof -
  let ?rs = "kernel_ranges off base img es" and ?T = "[[] \<mapsto> x] :: tree"
  have al: "IS_PAGE_ALIGNED off" using lay by (simp add: boot_layout_def)
  from first_table [OF li(2) al rep c pages room] obtain s0 where s0: "mm_alloc s = Inr (x, s0)" "memset (mm_mem s0) x 0 PAGE_SIZE = mm_mem s0"
    "pt_inv li x s0 ?T xs" "\<forall>v. pte ?T s0 v = 0" "irq_view (mm_core s0) = irq_view (mm_core s)" "card (insert x (set xs)) = Suc (length xs)"
    "card (dom ?T) + (\<Sum>r\<leftarrow>?rs. tables_bound (pages_of r)) + 3 \<le> card (ran ?T \<union> set xs)" by blast
  have ok: "list_all range_ok ?rs" "sorted_wrt apart ?rs"
    using good layout_range(1) [OF lay] by (auto simp: mappable_def list_all_iff range_ok_iff)
  from map_ranges_spec [OF s0(3) ok s0(7)] s0(4) obtain s' T ys where
    m: "map_ranges li x ?rs s0 = Inr s'" "pt_inv li x s' T ys" "pt_step ?T xs s0 T ys s'"
      "card (dom T) \<le> card (dom ?T) + (\<Sum>r\<leftarrow>?rs. tables_bound (pages_of r))"
      "\<forall>r \<in> set ?rs. \<forall>k < pages_of r. pte T s' (range_page r k) = range_desc r k"
      "\<forall>v. 0xffff000000000000 \<le> v \<longrightarrow> (\<forall>r \<in> set ?rs. \<not> within r v) \<longrightarrow> pte T s' v = 0"
    by auto
  have r: "ran T \<union> set ys = set (x # xs)" "irq_view (mm_core s') = irq_view (mm_core s)" using m(3) s0(5) by (auto simp: pt_step_def)
  have "Suc (length xs) \<le> length ys + boot_tables ?rs"
    using pt_pages(2) [OF m(2)] m(4) s0(6) r(1) by (simp add: boot_tables_def)
  moreover have "paging_kernel_init li img x s0 = Inr s'" using paging_kernel_init_ranges [OF li, of img x s0] m(1) by simp
  ultimately show ?thesis using s0(1,2) m(2,5,6) r
    by (intro exI [of _ s0] exI [of _ s'] exI [of _ T] exI [of _ ys]) (intro conjI)
qed

text \<open>Ranges that cannot all be mapped make \<open>vm_init\<close> panic.\<close>

lemma vm_init_panics:
  assumes li: "limine_memmap li = Some es" "limine_hhdm li = Some off" "limine_kernel_address li = Some base"
    and lay: "boot_layout off base img es" and rep: "kmem_rep (mm_kmem s) (mm_mem s) (x # xs)" and c: "core_ok (Suc (Suc 0)) (mm_core s)"
    and pages: "\<forall>p \<in> set (x # xs). page_ok li p \<and> unat p + 4096 \<le> 0xffffffff80000000"
    and room: "boot_tables (kernel_ranges off base img es) + 3 \<le> Suc (length xs)"
    and bad: "\<not> mappable (kernel_ranges off base img es)"
  shows "\<exists>msg. vm_init li img (boot_regions b1 b2 s root) = Inl (Panic msg)"
proof -
  let ?rs = "kernel_ranges off base img es" and ?T = "[[] \<mapsto> x] :: tree"
  have al: "IS_PAGE_ALIGNED off" using lay by (simp add: boot_layout_def)
  have c1: "core_ok (Suc 0) (mm_core s)" using core_ok_mono [OF c] by simp
  have pg: "\<forall>p \<in> set (x # xs). page_ok li p" using pages by blast
  from first_table [OF li(2) al rep c1 pg room] obtain s0 where s0: "mm_alloc s = Inr (x, s0)" "memset (mm_mem s0) x 0 PAGE_SIZE = mm_mem s0"
    "pt_inv li x s0 ?T xs" "\<forall>v. pte ?T s0 v = 0"
    "card (dom ?T) + (\<Sum>r\<leftarrow>?rs. tables_bound (pages_of r)) + 3 \<le> card (ran ?T \<union> set xs)" by blast
  have fits: "list_all range_fits ?rs" using layout_range(1) [OF lay] by (auto simp: list_all_iff)
  obtain msg where "map_ranges li x ?rs s0 = Inl (Panic msg)" using map_ranges_panics [OF s0(3) fits bad s0(5)] s0(4) by auto
  then have "paging_kernel_init li img x s0 = Inl (Panic msg)" using paging_kernel_init_ranges [OF li, of img x s0] by simp
  moreover have "\<not> IS_ERR x" using pages by (auto simp: IS_ERR_def word_le_nat_alt page_ok_def)
  ultimately show ?thesis using s0(1,2) by (simp add: vm_init_def on_mm_def Let_def boot_regions_def)
qed

lemma vmm_inv_ttbr: "vmm_inv li (v\<lparr>ttbr1_el1 := t\<rparr>) T xs \<longleftrightarrow> vmm_inv li v T xs"
proof -
  have "region_of i (v\<lparr>ttbr1_el1 := t\<rparr>) = region_of i v" for i by (cases i) simp_all
  then show ?thesis by (simp add: vmm_inv_def regions_apart_def)
qed

lemma vm_init_spec:
  assumes li: "limine_memmap li = Some es" "limine_hhdm li = Some off" "limine_kernel_address li = Some base"
    and lay: "boot_layout off base img es" and rep: "kmem_rep (mm_kmem s) (mm_mem s) (x # xs)" and c: "core_ok (Suc (Suc 0)) (mm_core s)"
    and pages: "\<forall>p \<in> set (x # xs). page_ok li p \<and> unat p + 4096 \<le> 0xffffffff80000000"
    and room: "boot_tables (kernel_ranges off base img es) + 3 \<le> Suc (length xs)" and good: "mappable (kernel_ranges off base img es)"
    and image: "0xffffffff80000000 \<le> unat b1" "unat b1 + 32768 \<le> unat b2" "unat b2 + 8192 \<le> 0xffffffff90000000"
  shows "\<exists>v T ys. vm_init li img (boot_regions b1 b2 s root) = Inr v \<and> vmm_inv li v T ys \<and> core_ok (Suc (Suc 0)) (vm_core v) \<and>
    kernel_page_table v = x \<and> ttbr1_el1 v = x - off \<and> Suc (length xs) \<le> length ys + boot_tables (kernel_ranges off base img es) \<and>
    \<not> region_exhausted (region_of KernelMemRegion v) (vm_mem v) 1221 \<and>
    (\<forall>r \<in> set (kernel_ranges off base img es). \<forall>k < pages_of r. outside_region (region_of KernelMemRegion v) (range_page r k)) \<and>
    (\<forall>r \<in> set (kernel_ranges off base img es). \<forall>k < pages_of r. pte T (vm_mm v) (range_page r k) = range_desc r k) \<and>
    (\<forall>v'. 0xffff000000000000 \<le> v' \<longrightarrow> (\<forall>r \<in> set (kernel_ranges off base img es). \<not> within r v') \<longrightarrow> pte T (vm_mm v) v' = 0)"
proof -
  let ?rs = "kernel_ranges off base img es"
  have c1: "core_ok (Suc 0) (mm_core s)" using core_ok_mono [OF c] by simp
  from kernel_tables [OF li lay rep c1 _ room good] pages obtain s0 s' T ys where
    t: "mm_alloc s = Inr (x, s0)" "memset (mm_mem s0) x 0 PAGE_SIZE = mm_mem s0" "paging_kernel_init li img x s0 = Inr s'"
      "pt_inv li x s' T ys" "ran T \<union> set ys = set (x # xs)" "irq_view (mm_core s') = irq_view (mm_core s)"
      "Suc (length xs) \<le> length ys + boot_tables ?rs"
      "\<forall>r \<in> set ?rs. \<forall>k < pages_of r. pte T s' (range_page r k) = range_desc r k"
      "\<And>v. 0xffff000000000000 \<le> v \<Longrightarrow> \<forall>r \<in> set ?rs. \<not> within r v \<Longrightarrow> pte T s' v = 0" by metis
  have x: "page_ok li x" using pages by simp
  have sw: "paging_switch_kernel_table li x = Inr (x - off)"
    using x li(2) by (simp add: paging_switch_kernel_table_def virt_to_phys_def page_ok_def hhdm_def)
  have ne: "\<not> IS_ERR x" using x pages by (auto simp: IS_ERR_def word_le_nat_alt page_ok_def)
  let ?b = "boot_regions b1 b2 s' x"
  have un: "\<not> desc_is_valid (pte T s' (range_page q k))" if "q \<in> set region_ranges" "k < pages_of q" for q k
    using t(9) region_pages_outside [OF lay that] by simp
  have "\<forall>k < 262144. \<not> desc_is_valid (pte T s' (KERNEL_VM_RANGE_BASE + of_nat k * PAGE_SIZE))"
    "\<forall>k < 65536. \<not> desc_is_valid (pte T s' (KERNEL_MMIO_RANGE_START + of_nat k * PAGE_SIZE))"
    using un [of "region_ranges ! 0"] un [of "region_ranges ! 1"]
    by (simp_all add: region_ranges_def KERNEL_VM_RANGE_SIZE_def KERNEL_MMIO_RANGE_SIZE_def)
  from boot_regions_inv [OF t(4) image _ this] pages t(5) obtain r1 m1 r2 m2 where
    r: "region_init (kernel_mem_region ?b) ''kernel heap region'' (mm_mem s') = Inr (r1, m1)"
      "region_init (mmio_region ?b) ''mmio region'' m1 = Inr (r2, m2)" "region_live r1 = {}"
      "\<forall>u. pte T (s'\<lparr>mm_mem := m2\<rparr>) u = pte T s' u"
      "vmm_inv li (?b\<lparr>kernel_mem_region := r1, mmio_region := r2, vm_mm := s'\<lparr>mm_mem := m2\<rparr>\<rparr>) T ys"
    by auto
  let ?v = "?b\<lparr>kernel_mem_region := r1, mmio_region := r2, vm_mm := s'\<lparr>mm_mem := m2\<rparr>, ttbr1_el1 := x - off\<rparr>"
  have inv: "vmm_inv li ?v T ys" using r(5) vmm_inv_ttbr by blast
  have "vm_init li img (boot_regions b1 b2 s root) = Inr ?v"
    using t(1-3) sw ne r(1,2) by (simp add: vm_init_def on_mm_def Let_def boot_regions_def vm_set_kernel_page_table_def)
  moreover have "\<not> region_exhausted (region_of KernelMemRegion ?v) (vm_mem ?v) 1221"
  proof -
    have "0 < vr_allocations_size r1" "bm_count (vr_allocator r1) = 2 ^ 18"
      using r(1) by (auto simp: region_init_def Let_def boot_regions_def STATIC_ALLOC_VM_REGION_def
          SIZE_TO_BITMAP_BYTES_def PAGE_SIZE_def KERNEL_VM_RANGE_SIZE_def split: if_splits)
    then show ?thesis using r(3) by (intro not_exhausted [OF vmm_invD(2) [OF inv]]) simp_all
  qed
  moreover have "outside_region (region_of KernelMemRegion ?v) (range_page q k)" if "q \<in> set ?rs" "k < pages_of q" for q k
  proof (rule mapped_pages_outside [OF lay _ that refl])
    show "range_ok q" using good layout_range(1) [OF lay that(1)] that(1) by (auto simp: mappable_def list_all_iff range_ok_iff)
    have "vr_allocator r1 = vr_allocator (kernel_mem_region ?b)" using r(1) by (auto simp: region_init_def Let_def split: if_splits)
    then show "bm_page_count (vr_allocator (region_of KernelMemRegion ?v)) = KERNEL_VM_RANGE_SIZE div PAGE_SIZE"
      "bm_pool (vr_allocator (region_of KernelMemRegion ?v)) = KERNEL_VM_RANGE_BASE"
      by (simp_all add: boot_regions_def STATIC_ALLOC_VM_REGION_def)
  qed
  moreover have "core_ok (Suc (Suc 0)) (vm_core ?v)" using core_ok_view [OF t(6)] c by simp
  ultimately show ?thesis using inv t(7-9) r(4) by (intro exI [of _ ?v] exI [of _ T] exI [of _ ys]) (simp add: boot_regions_def)
qed


section \<open>The calls of \<open>kernel_main\<close>\<close>

definition kernel_main_memory :: "limine \<Rightarrow> kernel_image \<Rightarrow> vmm \<Rightarrow> kerror + kheap \<times> vmm" where
  "kernel_main_memory li img v =
     bindE (kmem_init li (mm_kmem (vm_mm v)) (mm_core (vm_mm v)) (mm_mem (vm_mm v))) (\<lambda>(k, c, m).
     bindE (vm_init li img (v\<lparr>vm_mm := \<lparr>mm_kmem = k, mm_core = c, mm_mem = m\<rparr>\<rparr>)) (\<lambda>v.
     kheap_init li v))"

lemma set_region_ttbr [simp]: "ttbr1_el1 (set_region i r v) = ttbr1_el1 v" "kernel_page_table (set_region i r v) = kernel_page_table v"
  by (cases i; simp)+

lemma kheap_init_tables:
  "kheap_init li v = Inr (kh, v') \<Longrightarrow> kernel_page_table v' = kernel_page_table v \<and> ttbr1_el1 v' = ttbr1_el1 v"
  by (auto simp: kheap_init_def Let_def vm_alloc_mem_def vm_alloc_def on_mm_def vm_region_alloc_def set_mem_def freelist_init_def
      bind_rules split: if_splits)

lemma boot_memmap_ok:
  assumes "entries_ok off es"
  shows "memmap_ok es"
  unfolding memmap_ok_def list_all_iff
proof (intro ballI impI conjI)
  fix e assume e: "e \<in> set es" "me_type e = LIMINE_MEMMAP_USABLE"
  have "entry_ok off e" "IS_PAGE_ALIGNED off" "0xffff000000000000 \<le> off" using assms e(1) by (auto simp: entries_ok_def list_all_iff)
  from usable_entry(1,5) [OF this(1) e(2) this(2,3)] this(3)
  show "IS_PAGE_ALIGNED (me_base e)" "unat (me_base e) + unat (me_length e) + 4096 < 2 ^ 64" by (simp_all add: word_le_nat_alt)
qed


section \<open>Properties\<close>

text \<open>The state after \<open>kmem_init\<close>: the usable pages are free.\<close>

lemma kmem_ready:
  assumes "limine_memmap li = Some es" and "limine_hhdm li = Some off" and e: "entries_ok off es" and "n + 4 * 1221 \<le> length (usable_pages off es)"
    and "km_free_list (mm_kmem s) = nullptr" and "core_ok (Suc (Suc 0)) (mm_core s)"
  shows "\<exists>k c m x xs. kmem_init li (mm_kmem s) (mm_core s) (mm_mem s) = Inr (k, c, m) \<and> kmem_rep k m (x # xs) \<and> core_ok (Suc (Suc 0)) c \<and>
    (\<forall>p \<in> set (x # xs). page_ok li p \<and> unat p + 4096 \<le> 0xffffffff80000000) \<and> n + 4 * 1221 \<le> Suc (length xs) \<and> x \<in> set (usable_pages off es)"
proof -
  let ?us = "usable_pages off es"
  note page = usable_page_ok [OF e assms(2)]
  have nz: "nullptr \<notin> set ?us" using page(3) by blast
  have al: "IS_PAGE_ALIGNED off" using e by (simp add: entries_ok_def)
  from kmem_init_frees_usable [OF assms(1,2) al boot_memmap_ok [OF e] usable_pages_distinct [OF e] nz assms(5,6)]
  obtain k c m where k: "kmem_init li (mm_kmem s) (mm_core s) (mm_mem s) = Inr (k, c, m)" "kmem_rep k m (rev ?us)" "core_ok (Suc (Suc 0)) c"
    by blast
  obtain x xs where xs: "rev ?us = x # xs" using assms(4) by (cases "rev ?us") simp_all
  then have len: "length ?us = Suc (length xs)" "set (x # xs) = set ?us" by (metis length_rev length_Cons, metis set_rev)
  then have "\<forall>p \<in> set (x # xs). page_ok li p \<and> unat p + 4096 \<le> 0xffffffff80000000" using page(1,2) by blast
  moreover have "x \<in> set ?us" using len(2) by auto
  ultimately show ?thesis using k xs assms(4) len(1) by (intro exI [of _ k] exI [of _ c] exI [of _ m] exI [of _ x] exI [of _ xs]) simp
qed

text \<open>
  C5.  Memory at boot.  Given what the boot protocol and the linker script promise, the bitmaps of the two regions
  inside the image, and enough usable pages for the tables and the first pool of the heap, the calls of \<open>kmem_init\<close>,
  \<open>vm_init\<close> and \<open>kheap_init\<close> have one of two outcomes.  If all ranges to be mapped, with those of kernel and modules and of
  framebuffers about which nothing is promised, consist of whole pages and do not overlap, the calls return one after the
  other.  Then \<open>TTBR1_EL1\<close> holds the physical address of the root table; every page of the kernel text is mapped read-only
  and executable, every page of the kernel data and of the direct map of usable, reclaimable and kernel memory read-write
  and not executable, and every page of the framebuffer as device memory, each to its own physical page; and the invariants
  of page allocator, tables, regions and heap hold with the whole pool free.  Otherwise the kernel panics.
\<close>

theorem memory_ready_at_boot:
  assumes "limine_memmap li = Some es" and "limine_hhdm li = Some off" and "limine_kernel_address li = Some base"
    and "boot_layout off base img es"
    and "0xffffffff80000000 \<le> unat b1" and "unat b1 + 32768 \<le> unat b2" and "unat b2 + 8192 \<le> 0xffffffff90000000"
    and "boot_tables (kernel_ranges off base img es) + 4 * 1221 \<le> length (usable_pages off es)"
    and "km_free_list (mm_kmem s) = nullptr" and "core_ok (Suc (Suc 0)) (mm_core s)"
  shows "if mappable (kernel_ranges off base img es)
    then \<exists>kh v T ys pool. kernel_main_memory li img (boot_regions b1 b2 s root) = Inr (kh, v) \<and>
      kheap_inv li kh v T ys [(pool, INITIAL_HEAP_SIZE)] {} \<and>
      ttbr1_el1 v = kernel_page_table v - off \<and> kernel_page_table v \<in> set (usable_pages off es) \<and>
      (\<forall>r \<in> set (kernel_ranges off base img es). \<forall>k < pages_of r. pte T (vm_mm v) (range_page r k) = range_desc r k)
    else \<exists>msg. kernel_main_memory li img (boot_regions b1 b2 s root) = Inl (Panic msg)"
proof -
  let ?rs = "kernel_ranges off base img es"
  obtain k c m x xs where k: "kmem_init li (mm_kmem s) (mm_core s) (mm_mem s) = Inr (k, c, m)" "kmem_rep k m (x # xs)" "core_ok (Suc (Suc 0)) c"
    "\<forall>p \<in> set (x # xs). page_ok li p \<and> unat p + 4096 \<le> 0xffffffff80000000" "boot_tables ?rs + 4 * 1221 \<le> Suc (length xs)"
    "x \<in> set (usable_pages off es)"
    using kmem_ready [OF assms(1,2) layout_entries [OF assms(4)] assms(8-10)] by blast
  let ?s = "\<lparr>mm_kmem = k, mm_core = c, mm_mem = m\<rparr>"
  have mm: "kmem_rep (mm_kmem ?s) (mm_mem ?s) (x # xs)" "core_ok (Suc (Suc 0)) (mm_core ?s)" "boot_tables ?rs + 3 \<le> Suc (length xs)"
    using k(2,3,5) by simp_all
  have "(boot_regions b1 b2 s root)\<lparr>vm_mm := ?s\<rparr> = boot_regions b1 b2 ?s root" by (simp add: boot_regions_def)
  then have run: "kernel_main_memory li img (boot_regions b1 b2 s root) = bindE (vm_init li img (boot_regions b1 b2 ?s root)) (kheap_init li)"
    using k(1) by (simp add: kernel_main_memory_def boot_regions_def)
  show ?thesis
  proof (cases "mappable ?rs")
    case False
    with vm_init_panics [OF assms(1-4) mm(1,2) k(4) mm(3) False, of b1 b2 root] show ?thesis unfolding run by auto
  next
    case True
    obtain v T ys where v: "vm_init li img (boot_regions b1 b2 ?s root) = Inr v" "vmm_inv li v T ys" "core_ok (Suc (Suc 0)) (vm_core v)"
      "kernel_page_table v = x" "ttbr1_el1 v = x - off" "Suc (length xs) \<le> length ys + boot_tables ?rs"
      "\<not> region_exhausted (region_of KernelMemRegion v) (vm_mem v) 1221"
      "\<forall>r \<in> set ?rs. \<forall>k < pages_of r. outside_region (region_of KernelMemRegion v) (range_page r k)"
      "\<forall>r \<in> set ?rs. \<forall>k < pages_of r. pte T (vm_mm v) (range_page r k) = range_desc r k"
      using vm_init_spec [OF assms(1-4) mm(1,2) k(4) mm(3) True assms(5-7), of root] by blast
    have "4 * 1221 \<le> length ys" using v(6) k(5) by simp
    from kheap_init_spec [OF v(2,3) this v(7)] obtain pool kh v' T' zs where
      h: "kheap_init li v = Inr (kh, v')" "kheap_inv li kh v' T' zs [(pool, INITIAL_HEAP_SIZE)] {}"
        "\<forall>u. outside_region (region_of KernelMemRegion v) u \<longrightarrow> pte T' (vm_mm v') u = pte T (vm_mm v) u" by blast
    have "kernel_page_table v' = x" "ttbr1_el1 v' = x - off" using kheap_init_tables [OF h(1)] v(4,5) by simp_all
    moreover have "\<forall>r \<in> set ?rs. \<forall>k < pages_of r. pte T' (vm_mm v') (range_page r k) = range_desc r k" using h(3) v(8,9) by simp
    ultimately show ?thesis using True h(1,2) v(1) k(6) unfolding run
      by (simp only: if_True) (intro exI [of _ kh] exI [of _ v'] exI [of _ T'] exI [of _ zs] exI [of _ pool], simp)
  qed
qed

text \<open>A machine with a gigabyte of memory, a framebuffer and a kernel image of two megabytes.\<close>

definition boot_limine :: limine where
  "boot_limine = \<lparr>limine_memmap = Some [\<lparr>me_base = 0x40000000, me_length = 0x200000, me_type = 6\<rparr>,
      \<lparr>me_base = 0x40200000, me_length = 0x3fe00000, me_type = 0\<rparr>, \<lparr>me_base = 0x80000000, me_length = 0x1000000, me_type = 5\<rparr>,
      \<lparr>me_base = 0x90000000, me_length = 0x400000, me_type = 7\<rparr>],
     limine_hhdm = Some 0xffff000000000000, limine_kernel_address = Some (0x40000000, 0xffffffff80000000)\<rparr>"

definition boot_image :: kernel_image where
  "boot_image = \<lparr>KERNEL_START = 0xffffffff80000000, KERNEL_TEXT_END = 0xffffffff80080000,
     KERNEL_DATA_START = 0xffffffff80080000, KERNEL_DATA_END = 0xffffffff80200000\<rparr>"

theorem memory_ready_at_boot_witness:
  "\<exists>kh v T pool ys. kernel_main_memory boot_limine boot_image (boot_regions 0xffffffff80100000 0xffffffff80180000
       \<lparr>mm_kmem = kmem_boot, mm_core = demo_cpu, mm_mem = (\<lambda>_. 1)\<rparr> 0) = Inr (kh, v) \<and>
     kheap_inv boot_limine kh v T ys [(pool, INITIAL_HEAP_SIZE)] {} \<and>
     pte T (vm_mm v) 0xffffffff80001000 = page_descriptor text_attrs 0x40001000 0"
proof -
  let ?es = "the (limine_memmap boot_limine)" and ?off = "0xffff000000000000 :: usize" and ?base = "(0x40000000, 0xffffffff80000000) :: usize \<times> usize"
  let ?s = "\<lparr>mm_kmem = kmem_boot, mm_core = demo_cpu, mm_mem = (\<lambda>_. 1)\<rparr>"
  have li: "limine_memmap boot_limine = Some ?es" "limine_hhdm boot_limine = Some ?off" "limine_kernel_address boot_limine = Some ?base"
    by (simp_all add: boot_limine_def)
  note types = LIMINE_MEMMAP_USABLE_def LIMINE_MEMMAP_FRAMEBUFFER_def LIMINE_MEMMAP_BOOTLOADER_RECLAIMABLE_def
    LIMINE_MEMMAP_EXECUTABLE_AND_MODULES_def
  have rs: "kernel_ranges ?off ?base boot_image ?es =
      [(0xffffffff80000000, 0x40000000, 0x80000, text_attrs), (0xffffffff80080000, 0x40080000, 0x180000, mem_attrs),
       (0xffff000040000000, 0x40000000, 0x200000, mem_attrs), (0xffff000040200000, 0x40200000, 0x3fe00000, mem_attrs),
       (0xffff000080000000, 0x80000000, 0x1000000, mem_attrs), (0xffff000090000000, 0x90000000, 0x400000, mmio_attrs)]"
    by (simp add: kernel_ranges_def image_ranges_def boot_limine_def boot_image_def direct_ranges_def direct_range_def types)
  have "image_ok ?base boot_image"
    by (simp add: image_ok_def image_ranges_def region_ranges_def boot_image_def IS_PAGE_ALIGNED_iff KERNEL_VM_RANGE_BASE_def
        KERNEL_VM_RANGE_SIZE_def KERNEL_MMIO_RANGE_START_def KERNEL_MMIO_RANGE_SIZE_def)
  then have lay: "boot_layout ?off ?base boot_image ?es"
    by (simp add: boot_layout_def boot_limine_def entry_ok_def entries_apart_def free_entry_def types IS_PAGE_ALIGNED_iff)
  have good: "mappable (kernel_ranges ?off ?base boot_image ?es)" unfolding rs by (simp add: mappable_def IS_PAGE_ALIGNED_iff)
  have "length (usable_pages ?off ?es) = 261632"
    by (simp add: boot_limine_def usable_pages_def entry_pages_def range_pages_def types del: upt_rec_numeral)
  then have room: "boot_tables (kernel_ranges ?off ?base boot_image ?es) + 4 * 1221 \<le> length (usable_pages ?off ?es)"
    unfolding rs by (simp add: boot_tables_def tables_bound_def)
  have rest: "0xffffffff80000000 \<le> unat (0xffffffff80100000 :: ptr)" "unat (0xffffffff80100000 :: ptr) + 32768 \<le> unat (0xffffffff80180000 :: ptr)"
    "unat (0xffffffff80180000 :: ptr) + 8192 \<le> 0xffffffff90000000" "km_free_list (mm_kmem ?s) = nullptr" "core_ok (Suc (Suc 0)) (mm_core ?s)"
    by (simp_all add: kmem_boot_def demo_cpu_ok)
  from memory_ready_at_boot [OF li lay rest(1-3) room rest(4,5), of 0] good obtain kh v T ys pool where
    w: "kernel_main_memory boot_limine boot_image (boot_regions 0xffffffff80100000 0xffffffff80180000 ?s 0) = Inr (kh, v)"
      "kheap_inv boot_limine kh v T ys [(pool, INITIAL_HEAP_SIZE)] {}"
      "\<forall>r \<in> set (kernel_ranges ?off ?base boot_image ?es). \<forall>k < pages_of r. pte T (vm_mm v) (range_page r k) = range_desc r k" by auto
  have "pte T (vm_mm v) 0xffffffff80001000 = page_descriptor text_attrs 0x40001000 0"
    using w(3) [rule_format, of "(0xffffffff80000000, 0x40000000, 0x80000, text_attrs)" 1] unfolding rs by (simp add: PAGE_SIZE_def)
  with w(1,2) show ?thesis by blast
qed

end
