(* ===== verification/Exceptions.thy ===== *)
theory Exceptions
  imports Common_Defs Byte_Memory
begin

text \<open>
  Exceptions: the frame of \<open>kernel/include/arch/aarch64/exception.h\<close>, the handlers of
  \<open>kernel/arch/aarch64/exception.c\<close>, and the register save and restore sequences of
  \<open>exception.S\<close> around them.  The frame is 304 bytes of stack memory; the handlers work on it
  in place.  What they print is a list of outputs.  The main result follows an exception all the
  way from the save through the handler to the restore: every general register but the scratch register
  \<open>x18\<close> comes back, the return address moves on exactly for a \<open>BRK\<close>, and the floating-point and
  vector registers, which the kernel enables but \<open>exception.S\<close> does not save, are what the handler left.
\<close>

section \<open>The frame\<close>

definition ExceptionFrame :: "string list" where
  "ExceptionFrame = [''sp'', ''reserved1'', ''x0'', ''x1'', ''x2'', ''x3'', ''x4'', ''x5'', ''x6'', ''x7'', ''x8'', ''x9'',
     ''x10'', ''x11'', ''x12'', ''x13'', ''x14'', ''x15'', ''x16'', ''x17'', ''x19'', ''x20'', ''x21'', ''x22'', ''x23'',
     ''x24'', ''x25'', ''x26'', ''x27'', ''x28'', ''x29'', ''x30'', ''ELR_EL1'', ''SPSR_EL1'', ''ESR_EL1'', ''FAR_EL1'',
     ''SP_EL0'', ''reserved2'']"

text \<open>The structure is packed and all its fields have eight bytes.\<close>

definition offsetof :: "string \<Rightarrow> usize" where
  "offsetof field = of_nat (8 * length (takeWhile (\<lambda>f. f \<noteq> field) ExceptionFrame))"

definition frame_get :: "mem \<Rightarrow> ptr \<Rightarrow> string \<Rightarrow> u64" where
  "frame_get m frame field = load64 m (frame + offsetof field)"

definition frame_put :: "mem \<Rightarrow> ptr \<Rightarrow> string \<Rightarrow> u64 \<Rightarrow> mem" where
  "frame_put m frame field v = store64 m (frame + offsetof field) v"

section \<open>Exception classes\<close>

record EcDecoded =
  ec_description :: string
  ec_skip_instr :: bool
  ec_halt :: bool

text \<open>The labels of the \<open>switch\<close> with their descriptions; class 0 is the default.\<close>

definition ec_descriptions :: "(u64 \<times> string) list" where
  "ec_descriptions = [
     (0x01, ''Wrapped WF* instruction execution''),
     (0x03, ''Trapped MCR or MRC access with coproc=0b1111''),
     (0x04, ''Trapped MCRR or MRRC access with coproc=0b1111''),
     (0x05, ''Trapped MCR or MRC access with coproc=0b1110''),
     (0x06, ''Trapped LDC or STC access''),
     (0x07, ''Trapped access to SVE, Advanced SIMD or floating point''),
     (0x0a, ''Trapped execution of an LD64B, ST64B, ST64BV, or ST64BV0 instruction''),
     (0x0c, ''Trapped MRRC access with (coproc==0b1110)''),
     (0x0d, ''Branch Target Exception''),
     (0x0e, ''Illegal Execution state''),
     (0x11, ''SVC instruction execution in AArch32 state''),
     (0x15, ''SVC instruction execution in AArch64 state''),
     (0x16, ''HVC instruction execution in AArch64 state''),
     (0x17, ''SMC instruction execution in AArch64 state''),
     (0x18, ''Trapped MSR, MRS or System instruction execution in AArch64 state''),
     (0x19, ''Access to SVE functionality trapped as a result of CPACR_EL1.ZEN, CPTR_EL2.ZEN, CPTR_EL2.TZ, or CPTR_EL3.EZ''),
     (0x1c, ''Exception from a Pointer Authentication instruction authentication failure''),
     (0x20, ''Instruction Abort from a lower Exception level''),
     (0x21, ''Instruction Abort taken without a change in Exception level''),
     (0x22, ''PC alignment fault exception''),
     (0x24, ''Data Abort from a lower Exception level''),
     (0x25, ''Data Abort taken without a change in Exception level''),
     (0x26, ''SP alignment fault exception''),
     (0x28, ''Trapped floating-point exception taken from AArch32 state''),
     (0x2c, ''Trapped floating-point exception taken from AArch64 state''),
     (0x2f, ''SError interrupt''),
     (0x30, ''Breakpoint exception from a lower Exception level''),
     (0x31, ''Breakpoint exception taken without a change in Exception level''),
     (0x32, ''Software Step exception from a lower Exception level''),
     (0x33, ''Software Step exception taken without a change in Exception level''),
     (0x34, ''Watchpoint exception from a lower Exception level''),
     (0x35, ''Watchpoint exception taken without a change in Exception level''),
     (0x38, ''BKPT instruction execution in AArch32 state''),
     (0x3c, ''BRK instruction execution in AArch64 state'')]"

definition esr_ec_decode :: "u64 \<Rightarrow> u64 \<Rightarrow> EcDecoded" where
  "esr_ec_decode ec iss =
     (let ret = \<lparr>ec_description = (case map_of ec_descriptions ec of Some d \<Rightarrow> d | None \<Rightarrow> ''Unknown reason''),
                 ec_skip_instr = False, ec_halt = True\<rparr>
      in if ec = 0x3c then ret\<lparr>ec_skip_instr := True\<rparr> else ret)"

definition decode_esr :: "u64 \<Rightarrow> EcDecoded" where
  "decode_esr esr =
     (let ec = EXTRACT_BITS esr 31 26; iss = EXTRACT_BITS esr 24 0 in esr_ec_decode ec iss)"

section \<open>The handlers\<close>

text \<open>
  What a handler does to the outside: lines printed, with a string or a register value in them,
  and the wait for an interrupt.
\<close>

datatype console_line = Line string | Line_class string | Line_reg string u64 | Wfi

definition print_exception_class_info :: "mem \<Rightarrow> ptr \<Rightarrow> EcDecoded \<times> mem \<times> console_line list" where
  "print_exception_class_info m frame =
     (let ec = decode_esr (frame_get m frame ''ESR_EL1'');
          m = (if ec_skip_instr ec then frame_put m frame ''ELR_EL1'' (frame_get m frame ''ELR_EL1'' + 4) else m)
      in (ec, m, [Line_class (ec_description ec)]))"

definition print_regs :: "mem \<Rightarrow> ptr \<Rightarrow> console_line list" where
  "print_regs m frame =
     Line ''Registers:'' #
     map (\<lambda>r. Line_reg r (frame_get m frame r)) [''sp'', ''SP_EL0'', ''ELR_EL1'', ''SPSR_EL1'', ''ESR_EL1'', ''FAR_EL1''] @
     Line ''----------------------'' #
     map (\<lambda>r. Line_reg r (frame_get m frame r)) [''x0'', ''x1'', ''x2'', ''x3'', ''x4'', ''x5'', ''x6'', ''x7'', ''x8'', ''x9'',
       ''x10'', ''x11'', ''x12'', ''x13'', ''x14'', ''x15'', ''x16'', ''x17'', ''x19'', ''x20'', ''x21'', ''x22'', ''x23'',
       ''x24'', ''x25'', ''x26'', ''x27'', ''x28'', ''x29'', ''x30'']"

definition exception_handler :: "mem \<Rightarrow> ptr \<Rightarrow> mem \<times> console_line list" where
  "exception_handler m frame =
     (let (ec, m, out) = print_exception_class_info m frame
      in (m, Line ''Caught exception:'' # out @ print_regs m frame @ (if ec_halt ec then [Wfi] else [])))"

definition unhandled_exception_handler :: "mem \<Rightarrow> ptr \<Rightarrow> mem \<times> console_line list" where
  "unhandled_exception_handler m frame =
     (let (ec, m, out) = print_exception_class_info m frame
      in (m, Line ''Unhandled exception:'' # out @ print_regs m frame @ [Wfi]))"

section \<open>Saving and restoring the registers (exception.S)\<close>

record exc_regs =
  xr :: "nat \<Rightarrow> u64"
  xr_sp :: ptr
  xr_elr :: u64
  xr_spsr :: u64
  xr_esr :: u64
  xr_far :: u64
  xr_sp_el0 :: u64
  xr_v :: "nat \<Rightarrow> 128 word"   \<comment> \<open>the vector registers, and their status and control\<close>
  xr_fpsr :: u64
  xr_fpcr :: u64

definition TF_SIZE :: usize where "TF_SIZE = 304"

definition stp :: "ptr \<Rightarrow> u64 \<Rightarrow> u64 \<Rightarrow> mem \<Rightarrow> mem" where
  "stp p a b m = store64 (store64 m p a) (p + 8) b"

definition set_x :: "nat \<Rightarrow> u64 \<Rightarrow> exc_regs \<Rightarrow> exc_regs" where
  "set_x i v r = r\<lparr>xr := (xr r)(i := v)\<rparr>"

definition ldp :: "nat \<Rightarrow> nat \<Rightarrow> ptr \<Rightarrow> mem \<Rightarrow> exc_regs \<Rightarrow> exc_regs" where
  "ldp i j p m r = set_x j (load64 m (p + 8)) (set_x i (load64 m p) r)"

text \<open>The general registers the sequences pair, with the offsets of the pairs.\<close>

definition reg_pairs :: "(nat \<times> nat \<times> usize) list" where
  "reg_pairs = [(0, 1, 16), (2, 3, 32), (4, 5, 48), (6, 7, 64), (8, 9, 80), (10, 11, 96), (12, 13, 112), (14, 15, 128),
     (16, 17, 144), (19, 20, 160), (21, 22, 176), (23, 24, 192), (25, 26, 208), (27, 28, 224), (29, 30, 240)]"

definition save_registers :: "exc_regs \<Rightarrow> mem \<Rightarrow> exc_regs \<times> mem" where
  "save_registers r m =
     (let r = set_x 18 (xr_sp r) r;
          r = r\<lparr>xr_sp := xr_sp r - TF_SIZE\<rparr>;
          sp = xr_sp r;
          m = store64 m sp (xr r 18);
          m = fold (\<lambda>(i, j, off) m. stp (sp + off) (xr r i) (xr r j) m) reg_pairs m;
          m = stp (sp + 256) (xr_elr r) (xr_spsr r) m;
          m = stp (sp + 272) (xr_esr r) (xr_far r) m;
          r = set_x 1 (xr_far r) r;
          m = store64 m (sp + 288) (xr_sp_el0 r);
          r = set_x 0 sp r
      in (r, m))"

definition restore_registers :: "exc_regs \<Rightarrow> mem \<Rightarrow> exc_regs" where
  "restore_registers r m =
     (let sp = xr_sp r;
          r = set_x 2 (load64 m (sp + 288)) r;
          r = r\<lparr>xr_sp_el0 := xr r 2\<rparr>;
          r = ldp 2 3 (sp + 256) m r;
          r = r\<lparr>xr_elr := xr r 2\<rparr>;
          r = r\<lparr>xr_spsr := xr r 3\<rparr>;
          r = ldp 2 3 (sp + 272) m r;
          r = fold (\<lambda>(i, j, off) r. ldp i j (sp + off) m r) (rev reg_pairs) r
      in r\<lparr>xr_sp := sp + TF_SIZE\<rparr>)"

section \<open>Eight-byte slots of the frame\<close>

lemma slots_apart:
  assumes "unat a < 304" and "unat b < 304" and "unat a mod 8 = 0" and "unat b mod 8 = 0" and "a \<noteq> b"
  shows "disjoint_regions (p + a) 8 (p + b) 8"
proof (rule ccontr)
  assume "\<not> ?thesis"
  then obtain i j where ij: "unat i < 8" "unat j < 8" "p + a + i = p + b + j"
    unfolding disjoint_regions_def by (metis in_regionE)
  then have "a + i = b + j" by (simp add: add.assoc)
  moreover have "unat (a + i) = unat a + unat i" "unat (b + j) = unat b + unat j"
    using assms(1,2) ij(1,2) by (simp_all add: unat_add_u64)
  ultimately have eq: "unat a + unat i = unat b + unat j" by metis
  have same: "q = r" if "8 * q + x = 8 * r + y" "x < 8" "y < 8" for q r x y :: nat
    using that by presburger
  obtain q r where qr: "unat a = 8 * q" "unat b = 8 * r" using assms(3,4) by (metis mod_0_imp_dvd dvdE)
  then have "q = r" using same [of q "unat i" r "unat j"] eq ij(1,2) by simp
  then have "unat a = unat b" using qr by simp
  with assms(5) show False by (simp add: word_unat_eq_iff)
qed

definition is_slot :: "usize \<Rightarrow> bool" where
  "is_slot a \<longleftrightarrow> unat a < 304 \<and> unat a mod 8 = 0"

lemma load_slot:
  assumes "is_slot a" and "is_slot b"
  shows "load64 (store64 m (p + a) v) (p + b) = (if a = b then v else load64 m (p + b))"
  using assms slots_apart [of a b p] by (auto simp: is_slot_def load64_store64_disjoint)

lemma slot_in_frame:
  assumes "is_slot a" and "\<And>x. in_region x p 304 \<Longrightarrow> m' x = m x"
  shows "load64 m' (p + a) = load64 m (p + a)"
proof (rule load64_cong)
  fix x assume "in_region x (p + a) 8"
  then obtain i where i: "unat i < 8" "x = p + a + i" by (rule in_regionE)
  obtain q where "unat a = 8 * q" "8 * q < 304" using assms(1) unfolding is_slot_def by (metis mod_0_imp_dvd dvdE)
  moreover from this have "q < 38" by simp
  ultimately have "unat a + 8 \<le> 304" by simp
  then have "unat (a + i) < 304" using i(1) assms(1) by (subst unat_add_u64) (auto simp: is_slot_def)
  then have "in_region x p 304" using i(2) by (simp add: in_region_def add.assoc)
  then show "m' x = m x" by (rule assms(2))
qed

lemma load_frame:
  assumes "is_slot a" and "is_slot b" and "is_slot (b + 8)"
  shows "load64 (stp (p + b) u v m) (p + a) = (if a = b + 8 then v else if a = b then u else load64 m (p + a))"
  using assms by (auto simp: stp_def load_slot add.assoc)

lemma offsets:
  "offsetof ''ELR_EL1'' = 256" "offsetof ''SPSR_EL1'' = 264" "offsetof ''ESR_EL1'' = 272" "offsetof ''SP_EL0'' = 288"
  "offsetof ''sp'' = 0" "offsetof ''x0'' = 16" "offsetof ''reserved2'' = 296" "8 * length ExceptionFrame = unat TF_SIZE"
  by (simp_all add: offsetof_def ExceptionFrame_def TF_SIZE_def)

text \<open>What stands in the frame after the registers are saved.\<close>

definition saved :: "ptr \<Rightarrow> mem \<Rightarrow> exc_regs \<Rightarrow> bool" where
  "saved p m r \<longleftrightarrow>
     list_all (\<lambda>(i, j, off). load64 m (p + off) = xr r i \<and> load64 m (p + (off + 8)) = xr r j) reg_pairs \<and>
     load64 m (p + 256) = xr_elr r \<and> load64 m (p + 264) = xr_spsr r \<and>
     load64 m (p + 272) = xr_esr r \<and> load64 m (p + 288) = xr_sp_el0 r"

lemma saved_stores:
  "saved p (store64 (stp (p + 272) (xr_esr r) (xr_far r) (stp (p + 256) (xr_elr r) (xr_spsr r)
      (fold (\<lambda>(i, j, off) m. stp (p + off) (xr r i) (xr r j) m) reg_pairs (store64 m p sp)))) (p + 288) (xr_sp_el0 r)) r"
  using load_slot [of 0 _ m p sp] by (simp add: saved_def load_slot load_frame is_slot_def reg_pairs_def)

lemma save_registers_saved:
  assumes "save_registers r m = (r', m')"
  shows "xr r' 0 = xr_sp r - 304" and "xr_sp r' = xr_sp r - 304" and "saved (xr_sp r - 304) m' r"
proof -
  show "xr r' 0 = xr_sp r - 304" "xr_sp r' = xr_sp r - 304"
    using assms by (auto simp: save_registers_def Let_def set_x_def TF_SIZE_def)
  have "m' = store64 (stp (p + 272) (xr_esr r) (xr_far r) (stp (p + 256) (xr_elr r) (xr_spsr r)
      (fold (\<lambda>(i, j, off) m. stp (p + off) (xr r i) (xr r j) m) reg_pairs (store64 m p (xr_sp r))))) (p + 288) (xr_sp_el0 r)"
    if "p = xr_sp r - 304" for p
    using assms that by (auto simp: save_registers_def Let_def set_x_def TF_SIZE_def reg_pairs_def)
  then show "saved (xr_sp r - 304) m' r" using saved_stores by metis
qed

text \<open>The floating-point and vector registers and \<open>x18\<close> pass through the restore.\<close>

lemma restore_other:
  "xr_v (restore_registers r m) = xr_v r" "xr_fpsr (restore_registers r m) = xr_fpsr r"
  "xr_fpcr (restore_registers r m) = xr_fpcr r" "xr (restore_registers r m) 18 = xr r 18"
  by (simp_all add: restore_registers_def Let_def ldp_def set_x_def reg_pairs_def)

lemma restore_saved:
  assumes "saved p m r" and "xr_sp r' = p"
  shows "\<And>i. i \<le> 30 \<Longrightarrow> i \<noteq> 18 \<Longrightarrow> xr (restore_registers r' m) i = xr r i"
    and "xr_sp (restore_registers r' m) = p + 304"
    and "xr_elr (restore_registers r' m) = xr_elr r" and "xr_spsr (restore_registers r' m) = xr_spsr r"
    and "xr_sp_el0 (restore_registers r' m) = xr_sp_el0 r"
proof -
  show "xr (restore_registers r' m) i = xr r i" if "i \<le> 30" "i \<noteq> 18" for i
  proof -
    have "i \<in> set [0, 1, 2, 3, 4, 5, 6, 7, 8, 9, 10, 11, 12, 13, 14, 15, 16, 17, 19, 20, 21, 22, 23, 24, 25, 26, 27, 28, 29, 30]"
      using that by (simp, arith)
    then show ?thesis using assms
      by (auto simp: restore_registers_def Let_def ldp_def set_x_def saved_def reg_pairs_def add.assoc)
  qed
  show "xr_sp (restore_registers r' m) = p + 304"
    "xr_elr (restore_registers r' m) = xr_elr r" "xr_spsr (restore_registers r' m) = xr_spsr r"
    "xr_sp_el0 (restore_registers r' m) = xr_sp_el0 r"
    using assms by (simp_all add: restore_registers_def Let_def ldp_def set_x_def saved_def reg_pairs_def TF_SIZE_def add.assoc)
qed

section \<open>The class decides\<close>

lemma ec_class: "EXTRACT_BITS esr 31 26 = 0x3c \<longleftrightarrow> ec_skip_instr (decode_esr esr)"
  by (simp add: decode_esr_def esr_ec_decode_def Let_def)

lemma ec_halts: "ec_halt (decode_esr esr)"
  by (simp add: decode_esr_def esr_ec_decode_def Let_def)

text \<open>The labels of the switch are distinct six-bit classes.\<close>

lemma ec_labels: "distinct (map fst ec_descriptions)" "list_all (\<lambda>ec. 0 < ec \<and> ec < 64) (map fst ec_descriptions)"
  by (simp_all add: ec_descriptions_def)

lemma handler_memory:
  "fst (exception_handler m frame) =
     (if EXTRACT_BITS (load64 m (frame + 272)) 31 26 = 0x3c
      then store64 m (frame + 256) (load64 m (frame + 256) + 4) else m)"
  by (simp add: exception_handler_def print_exception_class_info_def Let_def frame_get_def frame_put_def offsets
      ec_class [symmetric])

lemma saved_after_handler:
  assumes "saved p m r"
  shows "saved p (fst (exception_handler m p))
    (r\<lparr>xr_elr := if EXTRACT_BITS (xr_esr r) 31 26 = 0x3c then xr_elr r + 4 else xr_elr r\<rparr>)"
  using assms
  by (auto simp: handler_memory saved_def reg_pairs_def load_slot is_slot_def)

lemma saved_cong:
  assumes "saved p m r" and "\<And>a. in_region a p 304 \<Longrightarrow> m' a = m a"
  shows "saved p m' r"
proof -
  have "load64 m' (p + off) = load64 m (p + off)" if "is_slot off" for off
    using that assms(2) by (rule slot_in_frame)
  then show ?thesis using assms(1) by (simp add: saved_def reg_pairs_def is_slot_def)
qed

section \<open>Property\<close>

text \<open>
  C35. Returning from an exception.  The registers are saved, the handler runs on the frame, and the
  registers are restored; in between the compiled handler may use every register except the stack
  pointer, and all memory except the frame.  Then the interrupted code goes on with its general
  registers \<open>x0\<close> to \<open>x30\<close> but \<open>x18\<close>, its stack pointers and its saved status; it
  goes on at the same instruction, except after a \<open>BRK\<close>, where it goes on at the next one.
  The frame holds nothing else: \<open>x18\<close>, the vector registers and the floating-point status and control
  are those of the handler (\<open>r2\<close>).  The handler always ends with the wait for an interrupt.
\<close>

theorem exception_resumes:
  assumes "save_registers r m = (r1, m1)" and "exception_handler m1 (xr r1 0) = (m2, out)"
    and "xr_sp r2 = xr_sp r1" and "\<forall>a. in_region a (xr_sp r1) 304 \<longrightarrow> m3 a = m2 a"
  shows "(\<forall>i \<le> 30. i \<noteq> 18 \<longrightarrow> xr (restore_registers r2 m3) i = xr r i) \<and> xr_sp (restore_registers r2 m3) = xr_sp r \<and>
    xr_spsr (restore_registers r2 m3) = xr_spsr r \<and> xr_sp_el0 (restore_registers r2 m3) = xr_sp_el0 r \<and>
    xr_elr (restore_registers r2 m3) = (if EXTRACT_BITS (xr_esr r) 31 26 = 0x3c then xr_elr r + 4 else xr_elr r) \<and>
    xr (restore_registers r2 m3) 18 = xr r2 18 \<and> xr_v (restore_registers r2 m3) = xr_v r2 \<and>
    xr_fpsr (restore_registers r2 m3) = xr_fpsr r2 \<and> xr_fpcr (restore_registers r2 m3) = xr_fpcr r2 \<and>
    last out = Wfi"
proof -
  let ?r = "r\<lparr>xr_elr := if EXTRACT_BITS (xr_esr r) 31 26 = 0x3c then xr_elr r + 4 else xr_elr r\<rparr>"
  note s = save_registers_saved [OF assms(1)]
  have "saved (xr_sp r1) m2 ?r" using saved_after_handler [OF s(3)] assms(2) s(1,2) by simp
  then have "saved (xr_sp r1) m3 ?r" by (rule saved_cong) (use assms(4) in blast)
  note restored = restore_saved [OF this assms(3)]
  have "last out = Wfi"
    using assms(2) by (auto simp: exception_handler_def print_exception_class_info_def Let_def ec_halts)
  with restored s(2) show ?thesis by (simp add: restore_other)
qed

definition brk_regs :: exc_regs where
  "brk_regs = \<lparr>xr = of_nat, xr_sp = 0x8000, xr_elr = 0x4000, xr_spsr = 5, xr_esr = 0xf2000000, xr_far = 0, xr_sp_el0 = 0,
     xr_v = (\<lambda>_. 0), xr_fpsr = 0, xr_fpcr = 0\<rparr>"

theorem exception_resumes_witness:
  "\<exists>r1 m1 m2 out. save_registers brk_regs (\<lambda>_. 0) = (r1, m1) \<and> exception_handler m1 (xr r1 0) = (m2, out) \<and>
     (\<forall>v. let r' = restore_registers (r1\<lparr>xr := (\<lambda>_. 0xdead), xr_v := (\<lambda>_. v)\<rparr>) m2 in
        xr_elr r' = 0x4004 \<and> xr r' 7 = 7 \<and> xr r' 18 = 0xdead \<and> xr_sp r' = 0x8000 \<and> xr_v r' 0 = v)"
proof -
  obtain r1 m1 where s: "save_registers brk_regs (\<lambda>_. 0) = (r1, m1)" by (metis surj_pair)
  obtain m2 out where h: "exception_handler m1 (xr r1 0) = (m2, out)" by (metis surj_pair)
  have "EXTRACT_BITS 0xf2000000 31 26 = 0x3c" by (simp add: EXTRACT_BITS_def)
  moreover have "xr_sp (r1\<lparr>xr := (\<lambda>_. 0xdead), xr_v := (\<lambda>_. v)\<rparr>) = xr_sp r1" for v by simp
  ultimately show ?thesis using exception_resumes [OF s h, of "r1\<lparr>xr := (\<lambda>_. 0xdead), xr_v := (\<lambda>_. v)\<rparr>" m2 for v] s h
    by (simp add: brk_regs_def Let_def)
qed

end
