(* ===== verification/Task_Queues.thy ===== *)
theory Task_Queues
  imports Intrusive_List Spinlock
begin

text \<open>
  Tasks (\<open>kernel/include/core/task.h\<close>, \<open>kernel/include/arch/aarch64/context.h\<close>) and the two
  kinds of queue they stand in: the run queue of a cpu (\<open>kernel/sync/run_queue.c\<close>) and wait
  queues (\<open>kernel/sync/wait_queue.c\<close>).

  A task is an object at an address.  Its three list nodes stand at fixed offsets inside the
  object and live in the node store, all other fields in the task store.  A queue is a lock and
  an intrusive list; the predicates \<open>rq_rep\<close> and \<open>wq_rep\<close> say which sequence of tasks it holds,
  and the operations are shown to be the operations of a FIFO queue of tasks.
\<close>

section \<open>Tasks\<close>

record execution_context =
  x19 :: u64
  x20 :: u64
  x21 :: u64
  x22 :: u64
  x23 :: u64
  x24 :: u64
  x25 :: u64
  x26 :: u64
  x27 :: u64
  x28 :: u64
  cx_fp :: u64
  cx_lr :: u64
  cx_sp :: u64

text \<open>The context after \<open>memset\<close> with zero.\<close>

definition zero_context :: execution_context where
  "zero_context = \<lparr>x19 = 0, x20 = 0, x21 = 0, x22 = 0, x23 = 0, x24 = 0, x25 = 0, x26 = 0, x27 = 0, x28 = 0,
     cx_fp = 0, cx_lr = 0, cx_sp = 0\<rparr>"

datatype task_state = TASK_READY | TASK_RUNNING | TASK_BLOCKED | TASK_DEAD

record task =
  t_tid :: usize
  t_name :: string
  t_cpu :: ptr
  t_stack :: ptr
  t_context :: execution_context
  t_state :: task_state
  t_waiting_on :: ptr
  t_entry :: ptr
  t_arg :: ptr

text \<open>Offsets of the nodes in \<open>Task\<close> (LP64: 104 bytes of context at offset 32, a 4 byte enum).\<close>

definition global_node :: usize where "global_node = 144"
definition runnable_node :: usize where "runnable_node = 160"
definition wait_node :: usize where "wait_node = 176"
definition sizeof_task :: usize where "sizeof_task = 216"

record task_store =
  ts_tasks :: "ptr \<rightharpoonup> task"
  ts_nodes :: nodes
  ts_core :: core

definition task_at :: "ptr \<Rightarrow> 'a task_store_scheme \<Rightarrow> kerror + task" where
  "task_at p s = (case ts_tasks s p of None \<Rightarrow> Inl (Fault p) | Some t \<Rightarrow> Inr t)"

definition set_task :: "ptr \<Rightarrow> task \<Rightarrow> 'a task_store_scheme \<Rightarrow> 'a task_store_scheme" where
  "set_task p t s = s\<lparr>ts_tasks := (ts_tasks s)(p \<mapsto> t)\<rparr>"

text \<open>A write to one field of the task at \<open>p\<close>.\<close>

definition update_task :: "ptr \<Rightarrow> (task \<Rightarrow> task) \<Rightarrow> 'a task_store_scheme \<Rightarrow> kerror + 'a task_store_scheme" where
  "update_task p f s = bindE (task_at p s) (\<lambda>t. Inr (set_task p (f t) s))"

section \<open>Run queues\<close>

record run_queue =
  rq_lock :: spinlock
  rq_runnables :: intrusive_list

definition runqueue_init :: "string \<Rightarrow> run_queue" where
  "runqueue_init name = \<lparr>rq_lock = spinlock_init name, rq_runnables = intrusivelist_init\<rparr>"

definition runqueue_enqueue ::
  "run_queue \<Rightarrow> ptr \<Rightarrow> 'a task_store_scheme \<Rightarrow> kerror + run_queue \<times> 'a task_store_scheme" where
  "runqueue_enqueue rq task s =
     bindE (task_at task s) (\<lambda>t.
     bindE (assertE (t_state t = TASK_READY) ''only READY tasks may enter runqueue'') (\<lambda>_.
     bindE (spinlock_scoped (ts_core s) (rq_lock rq) (\<lambda>c.
       bindE (intrusivelist_insert_tail (rq_runnables rq) (task + runnable_node) (ts_nodes s)) (\<lambda>r. Inr (r, c))))
     (\<lambda>((il, h), c, lock). Inr (\<lparr>rq_lock = lock, rq_runnables = il\<rparr>, s\<lparr>ts_nodes := h, ts_core := c\<rparr>))))"

definition runqueue_dequeue ::
  "run_queue \<Rightarrow> 'a task_store_scheme \<Rightarrow> kerror + ptr \<times> run_queue \<times> 'a task_store_scheme" where
  "runqueue_dequeue rq s =
     bindE (spinlock_scoped (ts_core s) (rq_lock rq) (\<lambda>c.
       bindE (bindE (intrusivelist_remove_head (rq_runnables rq) (ts_nodes s)) (\<lambda>(run_node, il, h).
         if nullptr = run_node then Inr (nullptr, il, h)
         else Inr (container_of_impl run_node runnable_node, il, h))) (\<lambda>r. Inr (r, c))))
     (\<lambda>((p, il, h), c, lock). Inr (p, \<lparr>rq_lock = lock, rq_runnables = il\<rparr>, s\<lparr>ts_nodes := h, ts_core := c\<rparr>))"

definition runqueue_remove ::
  "run_queue \<Rightarrow> ptr \<Rightarrow> 'a task_store_scheme \<Rightarrow> kerror + run_queue \<times> 'a task_store_scheme" where
  "runqueue_remove rq task s =
     bindE (spinlock_scoped (ts_core s) (rq_lock rq) (\<lambda>c.
       bindE (intrusivelist_remove (rq_runnables rq) (task + runnable_node) (ts_nodes s)) (\<lambda>r. Inr (r, c))))
     (\<lambda>((il, h), c, lock). Inr (\<lparr>rq_lock = lock, rq_runnables = il\<rparr>, s\<lparr>ts_nodes := h, ts_core := c\<rparr>))"

definition runqueue_is_empty :: "run_queue \<Rightarrow> bool" where
  "runqueue_is_empty rq \<longleftrightarrow> intrusivelist_is_empty (rq_runnables rq)"

definition runqueue_count :: "run_queue \<Rightarrow> usize" where
  "runqueue_count rq = intrusivelist_count (rq_runnables rq)"

definition runqueue_peek :: "run_queue \<Rightarrow> ptr" where
  "runqueue_peek rq =
     (let run_node = intrusivelist_peek_head (rq_runnables rq) in
      if nullptr = run_node then nullptr else container_of_impl run_node wait_node)"

section \<open>Wait queues\<close>

record wait_queue =
  wq_lock :: spinlock
  wq_waiters :: intrusive_list

definition waitqueue_init :: "string \<Rightarrow> wait_queue" where
  "waitqueue_init name = \<lparr>wq_lock = spinlock_init name, wq_waiters = intrusivelist_init\<rparr>"

text \<open>The address of the queue is an argument of its own: a waiting task points to the queue.\<close>

definition waitqueue_enqueue ::
  "ptr \<Rightarrow> wait_queue \<Rightarrow> ptr \<Rightarrow> 'a task_store_scheme \<Rightarrow> kerror + wait_queue \<times> 'a task_store_scheme" where
  "waitqueue_enqueue wqp wq task s =
     bindE (task_at task s) (\<lambda>t.
     bindE (assertE (t_state t \<noteq> TASK_READY) ''only NOT READY tasks may enter waitqueue'') (\<lambda>_.
     bindE (spinlock_scoped (ts_core s) (wq_lock wq) (\<lambda>c.
       bindE (bindE (intrusivelist_insert_tail (wq_waiters wq) (task + wait_node) (ts_nodes s)) (\<lambda>(il, h).
         bindE (update_task task (\<lambda>t. t\<lparr>t_waiting_on := wqp\<rparr>) (s\<lparr>ts_nodes := h\<rparr>)) (\<lambda>s. Inr (il, s))))
       (\<lambda>r. Inr (r, c))))
     (\<lambda>((il, s), c, lock). Inr (\<lparr>wq_lock = lock, wq_waiters = il\<rparr>, s\<lparr>ts_core := c\<rparr>))))"

definition waitqueue_dequeue ::
  "wait_queue \<Rightarrow> 'a task_store_scheme \<Rightarrow> kerror + ptr \<times> wait_queue \<times> 'a task_store_scheme" where
  "waitqueue_dequeue wq s =
     bindE (spinlock_scoped (ts_core s) (wq_lock wq) (\<lambda>c.
       bindE (bindE (intrusivelist_remove_head (wq_waiters wq) (ts_nodes s)) (\<lambda>(node, il, h).
         let s = s\<lparr>ts_nodes := h\<rparr> in
         if nullptr = node then Inr (nullptr, il, s)
         else let waiting_task = container_of_impl node wait_node in
           bindE (update_task waiting_task (\<lambda>t. t\<lparr>t_waiting_on := nullptr\<rparr>) s) (\<lambda>s. Inr (waiting_task, il, s))))
       (\<lambda>r. Inr (r, c))))
     (\<lambda>((p, il, s), c, lock). Inr (p, \<lparr>wq_lock = lock, wq_waiters = il\<rparr>, s\<lparr>ts_core := c\<rparr>))"

definition waitqueue_remove ::
  "wait_queue \<Rightarrow> ptr \<Rightarrow> 'a task_store_scheme \<Rightarrow> kerror + wait_queue \<times> 'a task_store_scheme" where
  "waitqueue_remove wq task s =
     bindE (spinlock_scoped (ts_core s) (wq_lock wq) (\<lambda>c.
       bindE (intrusivelist_remove (wq_waiters wq) (task + wait_node) (ts_nodes s)) (\<lambda>r. Inr (r, c))))
     (\<lambda>((il, h), c, lock). Inr (\<lparr>wq_lock = lock, wq_waiters = il\<rparr>, s\<lparr>ts_nodes := h, ts_core := c\<rparr>))"

definition waitqueue_is_empty :: "wait_queue \<Rightarrow> bool" where
  "waitqueue_is_empty wq \<longleftrightarrow> intrusivelist_is_empty (wq_waiters wq)"

definition waitqueue_count :: "wait_queue \<Rightarrow> usize" where
  "waitqueue_count wq = intrusivelist_count (wq_waiters wq)"

definition waitqueue_peek :: "wait_queue \<Rightarrow> ptr" where
  "waitqueue_peek wq =
     (let node = intrusivelist_peek_head (wq_waiters wq) in
      if nullptr = node then nullptr else container_of_impl node wait_node)"

section \<open>The store of tasks\<close>

text \<open>
  Tasks are objects of 216 bytes that do not overlap and do not wrap around, so no two nodes of
  tasks share an address; every task has its three nodes in the node store.
\<close>

definition tasks_apart :: "ptr set \<Rightarrow> bool" where
  "tasks_apart D \<longleftrightarrow> (\<forall>t \<in> D. t \<noteq> nullptr \<and> unat t + 216 \<le> 2 ^ 64 \<and>
     (\<forall>u \<in> D. t \<noteq> u \<longrightarrow> unat t + 216 \<le> unat u \<or> unat u + 216 \<le> unat t))"

definition node_offset :: "usize \<Rightarrow> bool" where
  "node_offset off \<longleftrightarrow> off = global_node \<or> off = runnable_node \<or> off = wait_node"

definition store_ok :: "'a task_store_scheme \<Rightarrow> bool" where
  "store_ok s \<longleftrightarrow> tasks_apart (dom (ts_tasks s)) \<and>
     (\<forall>t \<in> dom (ts_tasks s). \<forall>off. node_offset off \<longrightarrow> t + off \<in> dom (ts_nodes s))"

lemmas node_offsets = global_node_def runnable_node_def wait_node_def

lemma node_offset_simps [simp]:
  "node_offset global_node" "node_offset runnable_node" "node_offset wait_node"
  "runnable_node \<noteq> wait_node" "runnable_node \<noteq> global_node" "wait_node \<noteq> global_node"
  "wait_node \<noteq> runnable_node" "global_node \<noteq> runnable_node" "global_node \<noteq> wait_node"
  by (simp_all add: node_offset_def node_offsets)

lemma node_address:
  assumes "tasks_apart D" and "t \<in> D" and "node_offset off"
  shows "unat (t + off) = unat t + unat off" and "unat off + 16 \<le> 216" and "144 \<le> unat off"
proof -
  show b: "unat off + 16 \<le> 216" "144 \<le> unat off" using assms(3) by (auto simp: node_offset_def node_offsets)
  show "unat (t + off) = unat t + unat off"
    using assms(1,2) b by (intro unat_add_u64) (auto simp: tasks_apart_def)
qed

lemma nodes_inj:
  assumes D: "tasks_apart D" "t \<in> D" "u \<in> D" and off: "node_offset i" "node_offset j" and eq: "t + i = u + j"
  shows "t = u \<and> i = j"
proof -
  note a = node_address [OF D(1,2) off(1)] and b = node_address [OF D(1,3) off(2)]
  have e: "unat t + unat i = unat u + unat j" using arg_cong [OF eq, of unat] a(1) b(1) by simp
  have "t = u"
  proof (rule ccontr)
    assume "t \<noteq> u"
    then have "unat t + 216 \<le> unat u \<or> unat u + 216 \<le> unat t" using D by (auto simp: tasks_apart_def)
    then show False using e a(2) b(2) by linarith
  qed
  with eq show ?thesis by simp
qed

lemma node_nonnull: "tasks_apart D \<Longrightarrow> t \<in> D \<Longrightarrow> node_offset off \<Longrightarrow> t + off \<noteq> nullptr"
  using node_address [of D t off] by (metis add_is_0 le_zero_eq unat_0 zero_neq_numeral)

lemma store_okD:
  assumes "store_ok s" and "ts_tasks s t = Some tk" and "node_offset off"
  shows "t + off \<in> dom (ts_nodes s)" and "t + off \<noteq> nullptr" and "t \<noteq> nullptr"
proof -
  have t: "t \<in> dom (ts_tasks s)" using assms(2) by (rule domI)
  have a: "tasks_apart (dom (ts_tasks s))" using assms(1) by (simp add: store_ok_def)
  show "t + off \<noteq> nullptr" by (rule node_nonnull [OF a t assms(3)])
  show "t \<noteq> nullptr" using a t unfolding tasks_apart_def by blast
  show "t + off \<in> dom (ts_nodes s)" using assms(1,3) t unfolding store_ok_def by blast
qed

lemma container_of_node [simp]: "container_of_impl (t + off) off = t"
  by (simp add: container_of_impl_def)

lemma set_task_simps [simp]:
  "ts_tasks (set_task p t s) = (ts_tasks s)(p \<mapsto> t)" "ts_nodes (set_task p t s) = ts_nodes s"
  "ts_core (set_task p t s) = ts_core s"
  "(set_task p t s)\<lparr>ts_core := c\<rparr> = set_task p t (s\<lparr>ts_core := c\<rparr>)"
  "(set_task p t s)\<lparr>ts_nodes := h\<rparr> = set_task p t (s\<lparr>ts_nodes := h\<rparr>)"
  by (simp_all add: set_task_def)

lemma task_at_simp [simp]: "ts_tasks s p = Some t \<Longrightarrow> task_at p s = Inr t"
  by (simp add: task_at_def)

lemma update_task_simp [simp]: "ts_tasks s p = Some t \<Longrightarrow> update_task p f s = Inr (set_task p (f t) s)"
  by (simp add: update_task_def)

lemma store_ok_set_task: "store_ok s \<Longrightarrow> p \<in> dom (ts_tasks s) \<Longrightarrow> store_ok (set_task p t s)"
  by (auto simp: store_ok_def insert_absorb)

lemma store_ok_nodes:
  assumes "store_ok s" and "ts_tasks s' = ts_tasks s" and "only_nodes S (ts_nodes s) (ts_nodes s')"
  shows "store_ok s'"
  using assms by (simp add: store_ok_def only_nodes_def)

section \<open>Sequences of tasks in a list\<close>

text \<open>\<open>list_rep off il h ts\<close>: the intrusive list links the nodes at offset \<open>off\<close> of the tasks \<open>ts\<close>.\<close>

definition list_rep :: "usize \<Rightarrow> intrusive_list \<Rightarrow> nodes \<Rightarrow> ptr list \<Rightarrow> bool" where
  "list_rep off il h ts \<longleftrightarrow> il_rep il h (map (\<lambda>t. t + off) ts)"

definition node_set :: "usize \<Rightarrow> ptr list \<Rightarrow> ptr set" where
  "node_set off ts = (\<lambda>t. t + off) ` set ts"

lemma list_rep_distinct: "list_rep off il h ts \<Longrightarrow> distinct ts"
  by (auto simp: list_rep_def distinct_map dest: il_rep_distinct)

lemma list_rep_init: "list_rep off intrusivelist_init h []"
  by (simp add: list_rep_def il_rep_init)

lemma list_rep_empty: "list_rep off il h ts \<Longrightarrow> intrusivelist_is_empty il \<longleftrightarrow> ts = []"
  using is_empty_rep by (fastforce simp: list_rep_def)

lemma list_rep_count: "list_rep off il h ts \<Longrightarrow> unat (intrusivelist_count il) = length ts"
  using count_rep by (fastforce simp: list_rep_def)

lemma list_rep_frame:
  "list_rep off il h ts \<Longrightarrow> only_nodes S h h' \<Longrightarrow> node_set off ts \<inter> S = {} \<Longrightarrow> list_rep off il h' ts"
  using il_rep_frame by (simp add: list_rep_def node_set_def)

lemma list_rep_insert:
  assumes "list_rep off il h ts" and "t + off \<in> dom h" and "t + off \<noteq> nullptr" and "t \<notin> set ts"
  shows "\<exists>il' h'. intrusivelist_insert_tail il (t + off) h = Inr (il', h') \<and> list_rep off il' h' (ts @ [t]) \<and>
    only_nodes (node_set off (t # ts)) h h'"
proof -
  have "t + off \<notin> set (map (\<lambda>t. t + off) ts)" using assms(4) by auto
  from insert_tail_rep [OF assms(1) [unfolded list_rep_def] assms(3,2) this] show ?thesis
    by (auto simp: list_rep_def node_set_def)
qed

lemma list_rep_remove_head:
  assumes "list_rep off il h (t # ts)"
  shows "\<exists>il' h'. intrusivelist_remove_head il h = Inr (t + off, il', h') \<and> list_rep off il' h' ts \<and>
    only_nodes (node_set off (t # ts)) h h' \<and> t + off \<noteq> nullptr"
proof -
  have r: "il_rep il h ((t + off) # map (\<lambda>t. t + off) ts)" using assms by (simp add: list_rep_def)
  have "only_nodes (set ([] @ (t + off) # map (\<lambda>t. t + off) ts)) h (unlinked h [] (t + off) (map (\<lambda>t. t + off) ts))"
    using r by (intro unlinked_rep(4)) simp
  with remove_head_rep [OF r] il_rep_in_store [OF r, of "t + off"] show ?thesis
    by (auto simp: list_rep_def node_set_def)
qed

lemma list_rep_remove:
  assumes "list_rep off il h (as @ t # bs)"
  shows "\<exists>il' h'. intrusivelist_remove il (t + off) h = Inr (il', h') \<and> list_rep off il' h' (as @ bs) \<and>
    only_nodes (node_set off (as @ t # bs)) h h'"
proof -
  have r: "il_rep il h (map (\<lambda>t. t + off) as @ (t + off) # map (\<lambda>t. t + off) bs)" using assms by (simp add: list_rep_def)
  with remove_rep [OF r] unlinked_rep(4) [OF r] show ?thesis by (auto simp: list_rep_def node_set_def image_Un)
qed

lemma node_set_disjoint:
  assumes D: "tasks_apart D" and "node_offset i" "node_offset j" and "set ts \<subseteq> D" "set us \<subseteq> D"
    and "i \<noteq> j \<or> set ts \<inter> set us = {}"
  shows "node_set i ts \<inter> node_set j us = {}"
proof (rule ccontr)
  assume "node_set i ts \<inter> node_set j us \<noteq> {}"
  then obtain t u where "t \<in> set ts" "u \<in> set us" "t + i = u + j" by (auto simp: node_set_def)
  moreover from this have "t = u \<and> i = j" using nodes_inj [OF D _ _ assms(2,3)] assms(4,5) by blast
  ultimately show False using assms(6) by blast
qed

section \<open>Queues of tasks\<close>

definition rq_rep :: "run_queue \<Rightarrow> nodes \<Rightarrow> ptr list \<Rightarrow> bool" where
  "rq_rep rq h ts \<longleftrightarrow> lock_free (rq_lock rq) \<and> list_rep runnable_node (rq_runnables rq) h ts"

definition wq_rep :: "wait_queue \<Rightarrow> nodes \<Rightarrow> ptr list \<Rightarrow> bool" where
  "wq_rep wq h ts \<longleftrightarrow> lock_free (wq_lock wq) \<and> list_rep wait_node (wq_waiters wq) h ts"

lemma runqueue_init_rep: "rq_rep (runqueue_init name) h []"
  by (simp add: rq_rep_def runqueue_init_def list_rep_init)

lemma waitqueue_init_rep: "wq_rep (waitqueue_init name) h []"
  by (simp add: wq_rep_def waitqueue_init_def list_rep_init)

lemma runqueue_enqueue_spec:
  assumes rep: "rq_rep rq (ts_nodes s) ts" and core: "core_ok (Suc n) (ts_core s)" and "store_ok s"
    and t: "ts_tasks s t = Some tk" "t_state tk = TASK_READY" "t \<notin> set ts"
  shows "\<exists>rq' h'. runqueue_enqueue rq t s = Inr (rq', s\<lparr>ts_nodes := h', ts_core := irq_cycle (ts_core s)\<rparr>) \<and>
    rq_rep rq' h' (ts @ [t]) \<and> only_nodes (node_set runnable_node (t # ts)) (ts_nodes s) h'"
proof -
  have r: "lock_free (rq_lock rq)" "list_rep runnable_node (rq_runnables rq) (ts_nodes s) ts"
    using rep by (simp_all add: rq_rep_def)
  from list_rep_insert [OF r(2) store_okD(1,2) [OF assms(3) t(1)] t(3)] show ?thesis
    using t r(1) by (auto simp: runqueue_enqueue_def rq_rep_def scoped_return [OF core r(1)])
qed

lemma runqueue_dequeue_empty:
  assumes rep: "rq_rep rq (ts_nodes s) []" and core: "core_ok (Suc n) (ts_core s)"
  shows "runqueue_dequeue rq s = Inr (nullptr, rq, s\<lparr>ts_core := irq_cycle (ts_core s)\<rparr>)"
proof -
  have r: "lock_free (rq_lock rq)" "il_rep (rq_runnables rq) (ts_nodes s) []"
    using rep by (simp_all add: rq_rep_def list_rep_def)
  with core show ?thesis
    by (cases s; cases rq) (simp add: runqueue_dequeue_def remove_head_empty scoped_return)
qed

lemma runqueue_dequeue_spec:
  assumes rep: "rq_rep rq (ts_nodes s) (t # ts)" and core: "core_ok (Suc n) (ts_core s)"
  shows "\<exists>rq' h'. runqueue_dequeue rq s = Inr (t, rq', s\<lparr>ts_nodes := h', ts_core := irq_cycle (ts_core s)\<rparr>) \<and>
    rq_rep rq' h' ts \<and> only_nodes (node_set runnable_node (t # ts)) (ts_nodes s) h'"
proof -
  have r: "lock_free (rq_lock rq)" "list_rep runnable_node (rq_runnables rq) (ts_nodes s) (t # ts)"
    using rep by (simp_all add: rq_rep_def)
  from list_rep_remove_head [OF r(2)] show ?thesis
    using r(1) by (auto simp: runqueue_dequeue_def rq_rep_def scoped_return [OF core r(1)])
qed

lemma runqueue_remove_spec:
  assumes rep: "rq_rep rq (ts_nodes s) (as @ t # bs)" and core: "core_ok (Suc n) (ts_core s)"
  shows "\<exists>rq' h'. runqueue_remove rq t s = Inr (rq', s\<lparr>ts_nodes := h', ts_core := irq_cycle (ts_core s)\<rparr>) \<and>
    rq_rep rq' h' (as @ bs) \<and> only_nodes (node_set runnable_node (as @ t # bs)) (ts_nodes s) h'"
proof -
  have r: "lock_free (rq_lock rq)" "list_rep runnable_node (rq_runnables rq) (ts_nodes s) (as @ t # bs)"
    using rep by (simp_all add: rq_rep_def)
  from list_rep_remove [OF r(2)] show ?thesis
    using r(1) by (auto simp: runqueue_remove_def rq_rep_def scoped_return [OF core r(1)])
qed

lemma runqueue_observers:
  assumes "rq_rep rq h ts"
  shows "runqueue_is_empty rq \<longleftrightarrow> ts = []" and "unat (runqueue_count rq) = length ts"
  using assms list_rep_empty list_rep_count
  by (fastforce simp: rq_rep_def runqueue_is_empty_def runqueue_count_def)+

lemma waitqueue_enqueue_spec:
  assumes rep: "wq_rep wq (ts_nodes s) ts" and core: "core_ok (Suc n) (ts_core s)" and "store_ok s"
    and t: "ts_tasks s t = Some tk" "t_state tk \<noteq> TASK_READY" "t \<notin> set ts"
  shows "\<exists>wq' h'. waitqueue_enqueue wqp wq t s =
      Inr (wq', set_task t (tk\<lparr>t_waiting_on := wqp\<rparr>) (s\<lparr>ts_nodes := h', ts_core := irq_cycle (ts_core s)\<rparr>)) \<and>
    wq_rep wq' h' (ts @ [t]) \<and> only_nodes (node_set wait_node (t # ts)) (ts_nodes s) h'"
proof -
  have r: "lock_free (wq_lock wq)" "list_rep wait_node (wq_waiters wq) (ts_nodes s) ts"
    using rep by (simp_all add: wq_rep_def)
  from list_rep_insert [OF r(2) store_okD(1,2) [OF assms(3) t(1)] t(3)] show ?thesis
    using t r(1) by (auto simp: waitqueue_enqueue_def wq_rep_def scoped_return [OF core r(1)])
qed

lemma waitqueue_dequeue_empty:
  assumes rep: "wq_rep wq (ts_nodes s) []" and core: "core_ok (Suc n) (ts_core s)"
  shows "waitqueue_dequeue wq s = Inr (nullptr, wq, s\<lparr>ts_core := irq_cycle (ts_core s)\<rparr>)"
proof -
  have r: "lock_free (wq_lock wq)" "il_rep (wq_waiters wq) (ts_nodes s) []"
    using rep by (simp_all add: wq_rep_def list_rep_def)
  with core show ?thesis
    by (cases s; cases wq) (simp add: waitqueue_dequeue_def remove_head_empty scoped_return)
qed

lemma waitqueue_dequeue_spec:
  assumes rep: "wq_rep wq (ts_nodes s) (t # ts)" and core: "core_ok (Suc n) (ts_core s)"
    and t: "ts_tasks s t = Some tk"
  shows "\<exists>wq' h'. waitqueue_dequeue wq s =
      Inr (t, wq', set_task t (tk\<lparr>t_waiting_on := nullptr\<rparr>) (s\<lparr>ts_nodes := h', ts_core := irq_cycle (ts_core s)\<rparr>)) \<and>
    wq_rep wq' h' ts \<and> only_nodes (node_set wait_node (t # ts)) (ts_nodes s) h'"
proof -
  have r: "lock_free (wq_lock wq)" "list_rep wait_node (wq_waiters wq) (ts_nodes s) (t # ts)"
    using rep by (simp_all add: wq_rep_def)
  from list_rep_remove_head [OF r(2)] show ?thesis
    using t r(1) by (auto simp: waitqueue_dequeue_def wq_rep_def scoped_return [OF core r(1)])
qed

lemma waitqueue_remove_spec:
  assumes rep: "wq_rep wq (ts_nodes s) (as @ t # bs)" and core: "core_ok (Suc n) (ts_core s)"
  shows "\<exists>wq' h'. waitqueue_remove wq t s = Inr (wq', s\<lparr>ts_nodes := h', ts_core := irq_cycle (ts_core s)\<rparr>) \<and>
    wq_rep wq' h' (as @ bs) \<and> only_nodes (node_set wait_node (as @ t # bs)) (ts_nodes s) h'"
proof -
  have r: "lock_free (wq_lock wq)" "list_rep wait_node (wq_waiters wq) (ts_nodes s) (as @ t # bs)"
    using rep by (simp_all add: wq_rep_def)
  from list_rep_remove [OF r(2)] show ?thesis
    using r(1) by (auto simp: waitqueue_remove_def wq_rep_def scoped_return [OF core r(1)])
qed

lemma waitqueue_observers:
  assumes "wq_rep wq h ts"
  shows "waitqueue_is_empty wq \<longleftrightarrow> ts = []" and "unat (waitqueue_count wq) = length ts"
    and "ts = [] \<Longrightarrow> waitqueue_peek wq = nullptr"
    and "ts = t # us \<Longrightarrow> waitqueue_peek wq = t"
proof -
  have r: "il_rep (wq_waiters wq) h (map (\<lambda>t. t + wait_node) ts)" using assms by (simp add: wq_rep_def list_rep_def)
  show "waitqueue_is_empty wq \<longleftrightarrow> ts = []" using is_empty_rep [OF r] by (simp add: waitqueue_is_empty_def)
  show "unat (waitqueue_count wq) = length ts" using count_rep [OF r] by (simp add: waitqueue_count_def)
  show "waitqueue_peek wq = nullptr" if "ts = []" using peek_head_rep [OF r] that by (simp add: waitqueue_peek_def)
  show "waitqueue_peek wq = t" if "ts = t # us"
    using peek_head_rep [OF r] il_rep_in_store [OF r, of "t + wait_node"] that by (auto simp: waitqueue_peek_def)
qed

text \<open>
  \<open>runqueue_peek\<close> computes the address of the task from the offset of the wrong node: the result
  lies 16 bytes before the first task of the queue.
\<close>

lemma runqueue_peek_wrong_node:
  assumes "rq_rep rq h (t # ts)"
  shows "runqueue_peek rq = t - 16"
proof -
  have r: "il_rep (rq_runnables rq) h (map (\<lambda>t. t + runnable_node) (t # ts))"
    using assms by (simp only: rq_rep_def list_rep_def)
  show ?thesis
    using peek_head_rep [OF r] il_rep_in_store [OF r, of "t + runnable_node"]
    by (auto simp: runqueue_peek_def container_of_impl_def node_offsets)
qed

end
