(* ===== verification/Scheduler.thy ===== *)
theory Scheduler
  imports Task_Queues
begin

text \<open>
  The scheduler: \<open>kernel/sched/scheduler.c\<close> and \<open>scheduler_policy.c\<close>, the part of
  \<open>kernel/core/cpu.c\<close> that names cpus, and \<open>context_switch.S\<close>.

  The state is the task store with the \<open>Cpu\<close> objects, the wait queues and the callee-saved
  registers of the executing cpu.  An operation runs on one cpu while the others stand still, so
  it finds all locks free; the interrupt fields of the executing \<open>Cpu\<close> object are in \<open>ts_core\<close>.
  A context switch ends the call in one task and returns from an earlier call in another: the
  model returns the state in which the other task goes on.

  The invariant says which tasks each queue holds, that those in a run queue are ready and those
  in a wait queue blocked and waiting on it, and that a task which is running is the current or
  the idle task of its cpu.  \<open>scheduler_switch\<close> is shown to be a round robin step, every
  operation to keep the invariant, and each queued task to run after as many scheduling events
  as it has predecessors.
\<close>

section \<open>Cpus\<close>

record cpu_timer =
  ct_ticks :: usize
  ct_resched_after :: usize

record cpu =
  cpu_online :: bool
  cpu_cpuid :: u32
  cpu_timer :: cpu_timer
  cpu_current :: ptr
  cpu_idle :: ptr
  cpu_runnable_tasks :: run_queue

record sched = task_store +
  CPUS :: ptr
  sc_cpus :: "ptr \<rightharpoonup> cpu"
  sc_waits :: "ptr \<rightharpoonup> wait_queue"
  sc_regs :: execution_context

definition CONFIG_MAX_CPU_COUNT :: usize where "CONFIG_MAX_CPU_COUNT = 8"
definition sizeof_cpu :: usize where "sizeof_cpu = 96"

text \<open>\<open>&CPUS[i]\<close>\<close>

definition cpu_slot :: "'a sched_scheme \<Rightarrow> usize \<Rightarrow> ptr" where
  "cpu_slot s i = CPUS s + i * sizeof_cpu"

definition cpu_at :: "ptr \<Rightarrow> 'a sched_scheme \<Rightarrow> kerror + cpu" where
  "cpu_at p s = (case sc_cpus s p of None \<Rightarrow> Inl (Fault p) | Some c \<Rightarrow> Inr c)"

definition set_cpu :: "ptr \<Rightarrow> cpu \<Rightarrow> 'a sched_scheme \<Rightarrow> 'a sched_scheme" where
  "set_cpu p c s = s\<lparr>sc_cpus := (sc_cpus s)(p \<mapsto> c)\<rparr>"

definition wait_at :: "ptr \<Rightarrow> 'a sched_scheme \<Rightarrow> kerror + wait_queue" where
  "wait_at p s = (case sc_waits s p of None \<Rightarrow> Inl (Fault p) | Some q \<Rightarrow> Inr q)"

definition set_wait :: "ptr \<Rightarrow> wait_queue \<Rightarrow> 'a sched_scheme \<Rightarrow> 'a sched_scheme" where
  "set_wait p q s = s\<lparr>sc_waits := (sc_waits s)(p \<mapsto> q)\<rparr>"

section \<open>Operations\<close>

text \<open>The queue operations on \<open>&cpu->runnable_tasks\<close> and on a wait queue in memory.\<close>

definition cpu_enqueue :: "ptr \<Rightarrow> ptr \<Rightarrow> 'a sched_scheme \<Rightarrow> kerror + 'a sched_scheme" where
  "cpu_enqueue cpu task s =
     bindE (cpu_at cpu s) (\<lambda>c.
     bindE (runqueue_enqueue (cpu_runnable_tasks c) task s) (\<lambda>(rq, s).
     Inr (set_cpu cpu (c\<lparr>cpu_runnable_tasks := rq\<rparr>) s)))"

definition cpu_dequeue :: "ptr \<Rightarrow> 'a sched_scheme \<Rightarrow> kerror + ptr \<times> 'a sched_scheme" where
  "cpu_dequeue cpu s =
     bindE (cpu_at cpu s) (\<lambda>c.
     bindE (runqueue_dequeue (cpu_runnable_tasks c) s) (\<lambda>(p, rq, s).
     Inr (p, set_cpu cpu (c\<lparr>cpu_runnable_tasks := rq\<rparr>) s)))"

definition cpu_remove :: "ptr \<Rightarrow> ptr \<Rightarrow> 'a sched_scheme \<Rightarrow> kerror + 'a sched_scheme" where
  "cpu_remove cpu task s =
     bindE (cpu_at cpu s) (\<lambda>c.
     bindE (runqueue_remove (cpu_runnable_tasks c) task s) (\<lambda>(rq, s).
     Inr (set_cpu cpu (c\<lparr>cpu_runnable_tasks := rq\<rparr>) s)))"

definition wait_enqueue :: "ptr \<Rightarrow> ptr \<Rightarrow> 'a sched_scheme \<Rightarrow> kerror + 'a sched_scheme" where
  "wait_enqueue wq task s =
     bindE (wait_at wq s) (\<lambda>q.
     bindE (waitqueue_enqueue wq q task s) (\<lambda>(q, s). Inr (set_wait wq q s)))"

definition wait_dequeue :: "ptr \<Rightarrow> 'a sched_scheme \<Rightarrow> kerror + ptr \<times> 'a sched_scheme" where
  "wait_dequeue wq s =
     bindE (wait_at wq s) (\<lambda>q.
     bindE (waitqueue_dequeue q s) (\<lambda>(p, q, s). Inr (p, set_wait wq q s)))"

definition scheduler_enqueue :: "ptr \<Rightarrow> 'a sched_scheme \<Rightarrow> kerror + 'a sched_scheme" where
  "scheduler_enqueue task s =
     bindE (task_at task s) (\<lambda>t.
     bindE (assertE (t_cpu t \<noteq> nullptr) ''task cpu is null'') (\<lambda>_.
     bindE (assertE (t_state t \<noteq> TASK_RUNNING) ''cannot enqueue a running task'') (\<lambda>_.
     bindE (assertE (t_state t \<noteq> TASK_BLOCKED) ''cannot enqueue a blocked task'') (\<lambda>_.
     bindE (assertE (t_waiting_on t = nullptr) ''cannot enqueue task that is waiting'') (\<lambda>_.
     let cpu = t_cpu t in
     bindE (update_task task (\<lambda>t. t\<lparr>t_waiting_on := nullptr\<rparr>) s) (\<lambda>s.
     bindE (update_task task (\<lambda>t. t\<lparr>t_state := TASK_READY\<rparr>) s) (\<lambda>s.
     cpu_enqueue cpu task s)))))))"

definition scheduler_dequeue :: "ptr \<Rightarrow> 'a sched_scheme \<Rightarrow> kerror + 'a sched_scheme" where
  "scheduler_dequeue task s =
     bindE (task_at task s) (\<lambda>t.
     bindE (assertE (t_cpu t \<noteq> nullptr) ''task cpu is null'') (\<lambda>_.
     bindE (assertE (t_state t = TASK_READY) ''only ready tasks can be dequeued'') (\<lambda>_.
     bindE (assertE (t_waiting_on t = nullptr) ''runnable task is waiting on a wait queue'') (\<lambda>_.
     cpu_remove (t_cpu t) task s))))"

definition scheduler_cpu_has_runnable_tasks :: "'a sched_scheme \<Rightarrow> kerror + bool" where
  "scheduler_cpu_has_runnable_tasks s =
     bindE (cpu_at (this_cpu (ts_core s)) s) (\<lambda>c. Inr (runqueue_count (cpu_runnable_tasks c) > 0))"

definition sched_policy_round_robin :: "ptr \<Rightarrow> ptr \<Rightarrow> 'a sched_scheme \<Rightarrow> kerror + ptr \<times> 'a sched_scheme" where
  "sched_policy_round_robin cpu current s = cpu_dequeue cpu s"

definition scheduler_policy_pick_next :: "ptr \<Rightarrow> 'a sched_scheme \<Rightarrow> kerror + ptr \<times> 'a sched_scheme" where
  "scheduler_policy_pick_next cpu s =
     bindE (cpu_at cpu s) (\<lambda>c.
     if runqueue_is_empty (cpu_runnable_tasks c) then Inr (nullptr, s)
     else sched_policy_round_robin cpu (cpu_current c) s)"

text \<open>
  \<open>context_switch(&old->context, &new->context)\<close>: the callee-saved registers, the frame pointer,
  the link register and the stack pointer are stored to the old context and loaded from the new
  one; the return then goes to the loaded link register.
\<close>

definition load_context :: "ptr \<Rightarrow> 'a sched_scheme \<Rightarrow> kerror + 'a sched_scheme" where
  "load_context new s = bindE (task_at new s) (\<lambda>t. Inr (s\<lparr>sc_regs := t_context t\<rparr>))"

definition context_switch :: "ptr \<Rightarrow> ptr \<Rightarrow> 'a sched_scheme \<Rightarrow> kerror + 'a sched_scheme" where
  "context_switch old new s =
     bindE (update_task old (\<lambda>t. t\<lparr>t_context := sc_regs s\<rparr>) s) (load_context new)"

text \<open>The assertions on the task that is switched out.\<close>

definition check_prev :: "ptr \<Rightarrow> ptr \<Rightarrow> 'a sched_scheme \<Rightarrow> kerror + unit" where
  "check_prev cpu prev s =
     (if nullptr \<noteq> prev then
        bindE (task_at prev s) (\<lambda>t.
        bindE (assertE (t_cpu t = cpu) ''current task belongs to another cpu'') (\<lambda>_.
        bindE (assertE (t_state t \<noteq> TASK_BLOCKED \<or> t_waiting_on t \<noteq> nullptr)
                 ''blocked task is not waiting on a wait queue'') (\<lambda>_.
        bindE (assertE (t_state t = TASK_BLOCKED \<or> t_waiting_on t = nullptr)
                 ''non blocked task is waiting on a wait queue'') (\<lambda>_.
        assertE (t_state t \<noteq> TASK_READY \<or> t_waiting_on t = nullptr) ''ready task is waiting on a wait queue''))))
      else Inr ())"

definition requeue_prev :: "ptr \<Rightarrow> ptr \<Rightarrow> 'a sched_scheme \<Rightarrow> kerror + 'a sched_scheme" where
  "requeue_prev cpu prev s =
     (if nullptr = prev then Inr s
      else
        bindE (cpu_at cpu s) (\<lambda>c.
        bindE (task_at prev s) (\<lambda>t.
        if prev \<noteq> cpu_idle c \<and> t_state t = TASK_RUNNING then
          bindE (assertE (t_waiting_on t = nullptr) ''running task is waiting on a wait queue'') (\<lambda>_.
          bindE (assertE (t_cpu t = cpu) ''running task belongs to another cpu'') (\<lambda>_.
          bindE (update_task prev (\<lambda>t. t\<lparr>t_state := TASK_READY\<rparr>) s) (\<lambda>s.
          cpu_enqueue cpu prev s)))
        else Inr s)))"

definition run_next :: "ptr \<Rightarrow> ptr \<Rightarrow> ptr \<Rightarrow> 'a sched_scheme \<Rightarrow> kerror + 'a sched_scheme" where
  "run_next cpu prev next s =
     bindE (cpu_at cpu s) (\<lambda>c.
     bindE (task_at next s) (\<lambda>t.
     bindE (assertE (t_cpu t = cpu) ''selected task belongs to another cpu'') (\<lambda>_.
     bindE (assertE (t_state t = TASK_READY \<or> next = cpu_idle c) ''scheduler selected non ready task'') (\<lambda>_.
     bindE (assertE (t_waiting_on t = nullptr) ''scheduler selected task waiting on a wait queue'') (\<lambda>_.
     bindE (update_task next (\<lambda>t. t\<lparr>t_state := TASK_RUNNING\<rparr>) s) (\<lambda>s.
     let s = set_cpu cpu (c\<lparr>cpu_current := next\<rparr>) s in
     if prev = next then
       bindE (task_at next s) (\<lambda>t.
       bindE (assertE (next = cpu_idle c \<or> t_state t = TASK_RUNNING) ''current task is not running'') (\<lambda>_. Inr s))
     else if nullptr \<noteq> prev then context_switch prev next s
     else
       bindE (scheduler_cpu_has_runnable_tasks s) (\<lambda>has.
       bindE (assertE (next \<noteq> cpu_idle c \<or> has = False) ''idle selected while runnable task exists'') (\<lambda>_.
       load_context next s))))))))"

definition scheduler_switch :: "'a sched_scheme \<Rightarrow> kerror + 'a sched_scheme" where
  "scheduler_switch s =
     (let cpu = this_cpu (ts_core s) in
      bindE (cpu_at cpu s) (\<lambda>c.
      let prev = cpu_current c in
      bindE (check_prev cpu prev s) (\<lambda>_.
      bindE (requeue_prev cpu prev s) (\<lambda>s.
      bindE (scheduler_policy_pick_next cpu s) (\<lambda>(next, s).
      bindE (cpu_at cpu s) (\<lambda>c.
      let next = (if next = nullptr then cpu_idle c else next) in
      run_next cpu prev next s))))))"

definition scheduler_init :: "'a sched_scheme \<Rightarrow> kerror + 'a sched_scheme" where
  "scheduler_init s = scheduler_switch s"

definition yield :: "'a sched_scheme \<Rightarrow> kerror + 'a sched_scheme" where
  "yield s = scheduler_switch s"

definition scheduler_block_current :: "ptr \<Rightarrow> 'a sched_scheme \<Rightarrow> kerror + 'a sched_scheme" where
  "scheduler_block_current wq s =
     (let cpu = this_cpu (ts_core s) in
      bindE (cpu_at cpu s) (\<lambda>c.
      let current = cpu_current c in
      bindE (assertE (current \<noteq> nullptr) ''current is null'') (\<lambda>_.
      bindE (assertE (current \<noteq> cpu_idle c) ''idle task cannot block'') (\<lambda>_.
      bindE (task_at current s) (\<lambda>t.
      bindE (assertE (t_cpu t = cpu) ''current task belongs to another cpu'') (\<lambda>_.
      bindE (assertE (TASK_RUNNING = t_state t) ''only running task can block'') (\<lambda>_.
      bindE (assertE (t_waiting_on t = nullptr) ''running task is already waiting'') (\<lambda>_.
      bindE (update_task current (\<lambda>t. t\<lparr>t_state := TASK_BLOCKED\<rparr>) s) (\<lambda>s.
      bindE (wait_enqueue wq current s) scheduler_switch)))))))))"

definition scheduler_wake_one :: "ptr \<Rightarrow> 'a sched_scheme \<Rightarrow> kerror + 'a sched_scheme" where
  "scheduler_wake_one wq s =
     bindE (wait_dequeue wq s) (\<lambda>(blocked, s).
     if nullptr = blocked then Inr s
     else
       bindE (task_at blocked s) (\<lambda>t.
       bindE (assertE (TASK_BLOCKED = t_state t) ''wait queue contains non blocked task'') (\<lambda>_.
       bindE (assertE (t_waiting_on t = nullptr \<or> t_waiting_on t = wq) ''task is waiting on a different wait queue'') (\<lambda>_.
       scheduler_enqueue blocked s))))"

text \<open>The loop of \<open>scheduler_wake_all\<close> ends only when the queue is empty.\<close>

partial_function (option) scheduler_wake_all :: "ptr \<Rightarrow> 'a sched_scheme \<Rightarrow> (kerror + 'a sched_scheme) option" where
  "scheduler_wake_all wq s =
     (case wait_dequeue wq s of Inl e \<Rightarrow> Some (Inl e)
      | Inr (blocked, s) \<Rightarrow>
        if nullptr = blocked then Some (Inr s)
        else
          (case bindE (task_at blocked s) (\<lambda>t.
             bindE (assertE (t_state t = TASK_BLOCKED) ''wait queue contains non-blocked task'') (\<lambda>_.
             bindE (assertE (t_waiting_on t = nullptr \<or> t_waiting_on t = wq) ''task is waiting on a different wait queue'') (\<lambda>_.
             scheduler_enqueue blocked s)))
           of Inl e \<Rightarrow> Some (Inl e) | Inr s \<Rightarrow> scheduler_wake_all wq s))"

definition INT64_MAX :: usize where "INT64_MAX = 0x7fffffffffffffff"

definition pick_cpu_step :: "usize \<Rightarrow> ptr \<times> usize \<times> 'a sched_scheme \<Rightarrow> kerror + ptr \<times> usize \<times> 'a sched_scheme" where
  "pick_cpu_step i = (\<lambda>(best_cpu, best_count, s).
     let cpu = cpu_slot s i in
     bindE (assertE (cpu \<noteq> nullptr) ''cpu is null'') (\<lambda>_.
     bindE (cpu_at cpu s) (\<lambda>c.
     if \<not> cpu_online c then Inr (best_cpu, best_count, s)
     else let task_count = runqueue_count (cpu_runnable_tasks c) in
       if task_count < best_count then Inr (cpu, task_count, s) else Inr (best_cpu, best_count, s))))"

definition scheduler_pick_cpu :: "'a sched_scheme \<Rightarrow> kerror + ptr" where
  "scheduler_pick_cpu s =
     bindE (forE (word_range 0 CONFIG_MAX_CPU_COUNT) pick_cpu_step (nullptr, INT64_MAX, s)) (\<lambda>(best_cpu, _, _).
     bindE (assertE (best_cpu \<noteq> nullptr) ''no cpu was picked'') (\<lambda>_. Inr best_cpu))"

text \<open>\<open>task_exit\<close> of \<open>kernel/core/task.c\<close>.\<close>

definition task_exit :: "ptr \<Rightarrow> 'a sched_scheme \<Rightarrow> kerror + 'a sched_scheme" where
  "task_exit task s = bindE (update_task task (\<lambda>t. t\<lparr>t_state := TASK_DEAD\<rparr>) s) yield"

section \<open>The invariant\<close>

type_synonym queues = "ptr \<Rightarrow> ptr list"

text \<open>What the lists in memory hold: \<open>Q p\<close> is the run queue of cpu \<open>p\<close>, \<open>W w\<close> the wait queue at \<open>w\<close>.\<close>

definition queues_ok :: "'a sched_scheme \<Rightarrow> queues \<Rightarrow> queues \<Rightarrow> bool" where
  "queues_ok s Q W \<longleftrightarrow> store_ok s \<and> core_ok (Suc (Suc 0)) (ts_core s) \<and>
     (\<forall>p c. sc_cpus s p = Some c \<longrightarrow> rq_rep (cpu_runnable_tasks c) (ts_nodes s) (Q p)) \<and>
     (\<forall>w q. sc_waits s w = Some q \<longrightarrow> w \<noteq> nullptr \<and> wq_rep q (ts_nodes s) (W w))"

text \<open>A cpu: its run queue holds ready tasks of its own; an online one has an idle task.\<close>

definition cpu_ok :: "(ptr \<rightharpoonup> task) \<Rightarrow> queues \<Rightarrow> ptr \<Rightarrow> cpu \<Rightarrow> bool" where
  "cpu_ok tasks Q p c \<longleftrightarrow> p \<noteq> nullptr \<and>
     (\<forall>t \<in> set (Q p). t \<noteq> cpu_idle c \<and> (\<exists>tk. tasks t = Some tk \<and> t_state tk = TASK_READY \<and> t_cpu tk = p)) \<and>
     (cpu_online c \<longrightarrow> (\<exists>tk. tasks (cpu_idle c) = Some tk \<and> t_cpu tk = p \<and> t_state tk \<in> {TASK_READY, TASK_RUNNING}))"

text \<open>A task: blocked exactly when it stands in a wait queue, running only as current or idle.\<close>

definition task_ok :: "(ptr \<rightharpoonup> cpu) \<Rightarrow> (ptr \<rightharpoonup> wait_queue) \<Rightarrow> queues \<Rightarrow> ptr \<Rightarrow> task \<Rightarrow> bool" where
  "task_ok cpus waits W t tk \<longleftrightarrow>
     (if t_state tk = TASK_BLOCKED then t_waiting_on tk \<in> dom waits \<and> t \<in> set (W (t_waiting_on tk)) \<and> t_cpu tk \<noteq> nullptr
      else t_waiting_on tk = nullptr) \<and>
     (t_state tk = TASK_RUNNING \<longrightarrow> (\<exists>c. cpus (t_cpu tk) = Some c \<and> (cpu_current c = t \<or> cpu_idle c = t)))"

definition states_ok :: "(ptr \<rightharpoonup> task) \<Rightarrow> (ptr \<rightharpoonup> cpu) \<Rightarrow> (ptr \<rightharpoonup> wait_queue) \<Rightarrow> queues \<Rightarrow> queues \<Rightarrow> bool" where
  "states_ok tasks cpus waits Q W \<longleftrightarrow>
     (\<forall>p c. cpus p = Some c \<longrightarrow> cpu_ok tasks Q p c) \<and>
     (\<forall>t tk. tasks t = Some tk \<longrightarrow> task_ok cpus waits W t tk) \<and>
     (\<forall>w q. waits w = Some q \<longrightarrow> (\<forall>t \<in> set (W w). \<exists>tk. tasks t = Some tk \<and> t_state tk = TASK_BLOCKED \<and> t_waiting_on tk = w))"

abbreviation sched_base :: "'a sched_scheme \<Rightarrow> queues \<Rightarrow> queues \<Rightarrow> bool" where
  "sched_base s Q W \<equiv> queues_ok s Q W \<and> states_ok (ts_tasks s) (sc_cpus s) (sc_waits s) Q W"

definition current_ok :: "(ptr \<rightharpoonup> task) \<Rightarrow> ptr \<Rightarrow> cpu \<Rightarrow> bool" where
  "current_ok tasks p c \<longleftrightarrow> (cpu_current c \<noteq> nullptr \<longrightarrow>
     (\<exists>tk. tasks (cpu_current c) = Some tk \<and> t_cpu tk = p \<and> t_state tk \<noteq> TASK_READY))"

definition sched_inv :: "'a sched_scheme \<Rightarrow> queues \<Rightarrow> queues \<Rightarrow> bool" where
  "sched_inv s Q W \<longleftrightarrow> queues_ok s Q W \<and> states_ok (ts_tasks s) (sc_cpus s) (sc_waits s) Q W \<and>
     (\<forall>p c. sc_cpus s p = Some c \<longrightarrow> current_ok (ts_tasks s) p c) \<and>
     (\<exists>c. sc_cpus s (this_cpu (ts_core s)) = Some c \<and> cpu_online c)"

lemma sched_simps [simp]:
  "sc_cpus (set_cpu p c s) = (sc_cpus s)(p \<mapsto> c)" "sc_waits (set_cpu p c s) = sc_waits s"
  "ts_tasks (set_cpu p c s) = ts_tasks s" "ts_nodes (set_cpu p c s) = ts_nodes s" "ts_core (set_cpu p c s) = ts_core s"
  "sc_regs (set_cpu p c s) = sc_regs s" "CPUS (set_cpu p c s) = CPUS s"
  "sc_waits (set_wait w q s) = (sc_waits s)(w \<mapsto> q)" "sc_cpus (set_wait w q s) = sc_cpus s"
  "ts_tasks (set_wait w q s) = ts_tasks s" "ts_nodes (set_wait w q s) = ts_nodes s" "ts_core (set_wait w q s) = ts_core s"
  "sc_regs (set_wait w q s) = sc_regs s" "CPUS (set_wait w q s) = CPUS s"
  "sc_cpus (set_task t tk s) = sc_cpus s" "sc_waits (set_task t tk s) = sc_waits s"
  "sc_regs (set_task t tk s) = sc_regs s" "CPUS (set_task t tk s) = CPUS s"
  by (simp_all add: set_cpu_def set_wait_def set_task_def)

lemma cpu_at_simp [simp]: "sc_cpus s p = Some c \<Longrightarrow> cpu_at p s = Inr c"
  by (simp add: cpu_at_def)

lemma wait_at_simp [simp]: "sc_waits s p = Some q \<Longrightarrow> wait_at p s = Inr q"
  by (simp add: wait_at_def)

lemma states_okD:
  assumes "states_ok tasks cpus waits Q W"
  shows "cpus p = Some c \<Longrightarrow> cpu_ok tasks Q p c" and "tasks t = Some tk \<Longrightarrow> task_ok cpus waits W t tk"
    and "waits w = Some q \<Longrightarrow> t \<in> set (W w) \<Longrightarrow> \<exists>tk. tasks t = Some tk \<and> t_state tk = TASK_BLOCKED \<and> t_waiting_on tk = w"
  using assms unfolding states_ok_def by blast+

lemma queued_task:
  assumes "states_ok tasks cpus waits Q W" and "cpus p = Some c" and "t \<in> set (Q p)"
  shows "\<exists>tk. tasks t = Some tk \<and> t_state tk = TASK_READY \<and> t_cpu tk = p" and "t \<noteq> cpu_idle c"
  using states_okD(1) [OF assms(1,2)] assms(3) unfolding cpu_ok_def by blast+

text \<open>Tasks in different queues are different.\<close>

lemma queues_disjoint:
  assumes "states_ok tasks cpus waits Q W"
  shows "cpus p = Some c \<Longrightarrow> cpus p' = Some c' \<Longrightarrow> p \<noteq> p' \<Longrightarrow> set (Q p) \<inter> set (Q p') = {}"
    and "waits w = Some q \<Longrightarrow> waits w' = Some q' \<Longrightarrow> w \<noteq> w' \<Longrightarrow> set (W w) \<inter> set (W w') = {}"
proof -
  show "set (Q p) \<inter> set (Q p') = {}" if "cpus p = Some c" "cpus p' = Some c'" "p \<noteq> p'"
    using queued_task(1) [OF assms that(1)] queued_task(1) [OF assms that(2)] that(3) by fastforce
  show "set (W w) \<inter> set (W w') = {}" if "waits w = Some q" "waits w' = Some q'" "w \<noteq> w'"
    using states_okD(3) [OF assms that(1)] states_okD(3) [OF assms that(2)] that(3) by fastforce
qed

lemma queues_in_store:
  assumes "states_ok tasks cpus waits Q W"
  shows "cpus p = Some c \<Longrightarrow> set (Q p) \<subseteq> dom tasks" and "waits w = Some q \<Longrightarrow> set (W w) \<subseteq> dom tasks"
  using queued_task(1) [OF assms] states_okD(3) [OF assms] by blast+

section \<open>Frames\<close>

text \<open>
  A change of one queue: the nodes of its tasks are rewritten, all other queues keep what they
  hold.  \<open>us\<close> are the tasks whose nodes at offset \<open>off\<close> may have changed.
\<close>

lemma queues_ok_relink:
  assumes ok: "queues_ok s Q W" and us: "set us \<subseteq> dom (ts_tasks s)" and off: "node_offset off"
    and nodes: "only_nodes (node_set off us) (ts_nodes s) h'"
    and s': "ts_tasks s' = ts_tasks s" "ts_nodes s' = h'" "core_ok (Suc (Suc 0)) (ts_core s')"
    and cpus: "\<And>p c'. sc_cpus s' p = Some c' \<Longrightarrow> rq_rep (cpu_runnable_tasks c') h' (Q' p) \<or>
        (\<exists>c. sc_cpus s p = Some c \<and> cpu_runnable_tasks c' = cpu_runnable_tasks c \<and> Q' p = Q p \<and>
          set (Q p) \<subseteq> dom (ts_tasks s) \<and> (off = runnable_node \<longrightarrow> set (Q p) \<inter> set us = {}))"
    and waits: "\<And>w q'. sc_waits s' w = Some q' \<Longrightarrow> w \<noteq> nullptr \<and> wq_rep q' h' (W' w) \<or>
        (sc_waits s w = Some q' \<and> W' w = W w \<and>
          set (W w) \<subseteq> dom (ts_tasks s) \<and> (off = wait_node \<longrightarrow> set (W w) \<inter> set us = {}))"
  shows "queues_ok s' Q' W'"
proof -
  have st: "store_ok s" "tasks_apart (dom (ts_tasks s))" using ok by (simp_all add: queues_ok_def store_ok_def)
  have st': "store_ok s'" using store_ok_nodes [OF st(1) s'(1)] nodes s'(2) by blast
  have keep: "list_rep off' il h' ts"
    if "list_rep off' il (ts_nodes s) ts" "node_offset off'" "set ts \<subseteq> dom (ts_tasks s)" "off = off' \<longrightarrow> set ts \<inter> set us = {}"
    for off' il ts
    using that(4) by (intro list_rep_frame [OF that(1) nodes] node_set_disjoint [OF st(2) that(2) off that(3) us]) blast
  have "rq_rep (cpu_runnable_tasks c') h' (Q' p)" if p: "sc_cpus s' p = Some c'" for p c'
    using cpus [OF p]
  proof (elim disjE exE conjE)
    fix c assume c: "sc_cpus s p = Some c" "cpu_runnable_tasks c' = cpu_runnable_tasks c" "Q' p = Q p"
      "set (Q p) \<subseteq> dom (ts_tasks s)" "off = runnable_node \<longrightarrow> set (Q p) \<inter> set us = {}"
    then have "rq_rep (cpu_runnable_tasks c) (ts_nodes s) (Q p)" using ok by (simp add: queues_ok_def)
    then show ?thesis using c keep [of runnable_node] by (simp add: rq_rep_def)
  qed
  moreover have "w \<noteq> nullptr \<and> wq_rep q' h' (W' w)" if w: "sc_waits s' w = Some q'" for w q'
    using waits [OF w]
  proof (elim disjE)
    assume q: "sc_waits s w = Some q' \<and> W' w = W w \<and>
        set (W w) \<subseteq> dom (ts_tasks s) \<and> (off = wait_node \<longrightarrow> set (W w) \<inter> set us = {})"
    then have "w \<noteq> nullptr \<and> wq_rep q' (ts_nodes s) (W w)" using ok by (simp add: queues_ok_def)
    then show ?thesis using q keep [of wait_node] by (simp add: wq_rep_def)
  qed
  ultimately show ?thesis using st' s'(2,3) by (simp add: queues_ok_def)
qed

lemma queues_ok_cong:
  assumes "queues_ok s Q W" and "dom (ts_tasks s') = dom (ts_tasks s)" and "ts_nodes s' = ts_nodes s"
    and "core_ok (Suc (Suc 0)) (ts_core s')" and "sc_waits s' = sc_waits s"
    and "\<And>p c'. sc_cpus s' p = Some c' \<Longrightarrow> \<exists>c. sc_cpus s p = Some c \<and> cpu_runnable_tasks c' = cpu_runnable_tasks c"
  shows "queues_ok s' Q W"
proof -
  have "rq_rep (cpu_runnable_tasks c') (ts_nodes s') (Q p)" if "sc_cpus s' p = Some c'" for p c'
    using assms(6) [OF that] assms(1,3) unfolding queues_ok_def by force
  then show ?thesis using assms(1-5) unfolding queues_ok_def store_ok_def by simp
qed

section \<open>Steps of the task states\<close>

lemma states_okI:
  assumes "\<And>p c. cpus p = Some c \<Longrightarrow> cpu_ok tasks Q p c"
    and "\<And>t tk. tasks t = Some tk \<Longrightarrow> task_ok cpus waits W t tk"
    and "\<And>w q t. waits w = Some q \<Longrightarrow> t \<in> set (W w) \<Longrightarrow> \<exists>tk. tasks t = Some tk \<and> t_state tk = TASK_BLOCKED \<and> t_waiting_on tk = w"
  shows "states_ok tasks cpus waits Q W"
  using assms unfolding states_ok_def by blast

lemma cpu_ok_other_task:
  assumes "cpu_ok tasks Q p c" and "\<And>u. u \<noteq> t \<Longrightarrow> tasks' u = tasks u" and "t \<notin> set (Q p)"
    and "cpu_online c \<Longrightarrow> t \<noteq> cpu_idle c" and "Q' p = Q p"
  shows "cpu_ok tasks' Q' p c"
  using assms unfolding cpu_ok_def by metis

lemma task_cpu_unique:
  assumes ok: "states_ok tasks cpus waits Q W" and t: "tasks t = Some tk" and p: "cpus p = Some c" and ne: "t_cpu tk \<noteq> p"
  shows "t \<notin> set (Q p)" and "cpu_online c \<Longrightarrow> t \<noteq> cpu_idle c"
  using states_okD(1) [OF ok p] t ne unfolding cpu_ok_def by fastforce+

lemma not_blocked_not_waiting:
  assumes ok: "states_ok tasks cpus waits Q W" and t: "tasks t = Some tk" "t_state tk \<noteq> TASK_BLOCKED"
    and w: "waits w = Some q"
  shows "t \<notin> set (W w)"
  using states_okD(3) [OF ok w] t by fastforce

lemma task_ok_cpus:
  assumes "task_ok cpus waits W t tk"
    and "\<And>c. cpus (t_cpu tk) = Some c \<Longrightarrow> t_state tk = TASK_RUNNING \<Longrightarrow> cpu_current c = t \<or> cpu_idle c = t \<Longrightarrow>
      \<exists>c'. cpus' (t_cpu tk) = Some c' \<and> (cpu_current c' = t \<or> cpu_idle c' = t)"
  shows "task_ok cpus' waits W t tk"
  using assms unfolding task_ok_def by blast

text \<open>
  One task changes and the cpu it belongs to: the conditions on all other tasks, cpus and wait
  queues are untouched.
\<close>

lemma states_ok_task_step:
  assumes ok: "states_ok tasks cpus waits Q W" and c: "cpus p = Some c"
    and t: "tasks t = Some tk" "t_cpu tk = p" "t_cpu tk' = p" "t_state tk \<noteq> TASK_BLOCKED" "t_state tk' \<noteq> TASK_BLOCKED"
    and c': "cpu_idle c' = cpu_idle c" "cpu_online c' = cpu_online c"
    and cpu: "cpu_ok (tasks(t \<mapsto> tk')) Q' p c'" and Q': "\<And>p'. p' \<noteq> p \<Longrightarrow> Q' p' = Q p'"
    and wait: "t_waiting_on tk' = nullptr"
    and run: "t_state tk' = TASK_RUNNING \<Longrightarrow> cpu_current c' = t \<or> cpu_idle c' = t"
    and others: "\<And>u uk. u \<noteq> t \<Longrightarrow> tasks u = Some uk \<Longrightarrow> t_cpu uk = p \<Longrightarrow> t_state uk = TASK_RUNNING \<Longrightarrow>
      cpu_current c' = u \<or> cpu_idle c' = u"
  shows "states_ok (tasks(t \<mapsto> tk')) (cpus(p \<mapsto> c')) waits Q' W"
proof (rule states_okI)
  fix p1 c1 assume c1: "(cpus(p \<mapsto> c')) p1 = Some c1"
  show "cpu_ok (tasks(t \<mapsto> tk')) Q' p1 c1"
  proof (cases "p1 = p")
    case True
    then show ?thesis using c1 cpu by simp
  next
    case False
    then have p1: "cpus p1 = Some c1" "Q' p1 = Q p1" using c1 Q' by simp_all
    have nq: "t \<notin> set (Q p1)" and ni: "cpu_online c1 \<Longrightarrow> t \<noteq> cpu_idle c1"
      using task_cpu_unique [OF ok t(1) p1(1)] t(2) False by auto
    then show ?thesis
      by (intro cpu_ok_other_task [OF states_okD(1) [OF ok p1(1)] _ nq]) (use p1(2) ni in simp_all)
  qed
next
  fix u uk assume u: "(tasks(t \<mapsto> tk')) u = Some uk"
  show "task_ok (cpus(p \<mapsto> c')) waits W u uk"
  proof (cases "u = t")
    case True
    then show ?thesis using u t(3,5) wait run by (auto simp: task_ok_def)
  next
    case False
    then have "tasks u = Some uk" using u by simp
    then show ?thesis
      using others [OF False] by (intro task_ok_cpus [OF states_okD(2) [OF ok]]) (auto split: if_splits)
  qed
next
  fix w q u assume w: "waits w = Some q" "u \<in> set (W w)"
  then have "u \<noteq> t" using not_blocked_not_waiting [OF ok t(1,4)] by blast
  then show "\<exists>tk. (tasks(t \<mapsto> tk')) u = Some tk \<and> t_state tk = TASK_BLOCKED \<and> t_waiting_on tk = w"
    using states_okD(3) [OF ok w] by simp
qed

lemma states_enqueue:
  assumes ok: "states_ok tasks cpus waits Q W" and c: "cpus p = Some c" and t: "tasks t = Some tk" "t_cpu tk = p"
    "t_state tk \<noteq> TASK_BLOCKED" "t \<noteq> cpu_idle c"
  shows "states_ok (tasks(t \<mapsto> tk\<lparr>t_state := TASK_READY\<rparr>)) (cpus(p \<mapsto> c\<lparr>cpu_runnable_tasks := rq\<rparr>)) waits
    (Q(p := Q p @ [t])) W"
proof (rule states_ok_task_step [OF ok c t(1,2)])
  show "cpu_ok (tasks(t \<mapsto> tk\<lparr>t_state := TASK_READY\<rparr>)) (Q(p := Q p @ [t])) p (c\<lparr>cpu_runnable_tasks := rq\<rparr>)"
    using states_okD(1) [OF ok c] t by (auto simp: cpu_ok_def)
  show "t_waiting_on (tk\<lparr>t_state := TASK_READY\<rparr>) = nullptr" using states_okD(2) [OF ok t(1)] t(3) by (simp add: task_ok_def)
next
  fix u uk assume "tasks u = Some uk" "t_cpu uk = p" "t_state uk = TASK_RUNNING"
  then show "cpu_current (c\<lparr>cpu_runnable_tasks := rq\<rparr>) = u \<or> cpu_idle (c\<lparr>cpu_runnable_tasks := rq\<rparr>) = u"
    using states_okD(2) [OF ok, of u uk] c by (auto simp: task_ok_def)
qed (use t in simp_all)

lemma states_run:
  assumes ok: "states_ok tasks cpus waits Q W" and c: "cpus p = Some c" and t: "tasks t = Some tk" "t_cpu tk = p"
    "t_state tk \<noteq> TASK_BLOCKED" "t \<notin> set (Q p)"
    and others: "\<And>u uk. u \<noteq> t \<Longrightarrow> tasks u = Some uk \<Longrightarrow> t_cpu uk = p \<Longrightarrow> t_state uk = TASK_RUNNING \<Longrightarrow> cpu_idle c = u"
  shows "states_ok (tasks(t \<mapsto> tk\<lparr>t_state := TASK_RUNNING\<rparr>)) (cpus(p \<mapsto> c\<lparr>cpu_current := t\<rparr>)) waits Q W"
proof (rule states_ok_task_step [OF ok c t(1,2)])
  have "u \<in> set (Q p) \<Longrightarrow> u \<noteq> t" for u using t(4) by blast
  then show "cpu_ok (tasks(t \<mapsto> tk\<lparr>t_state := TASK_RUNNING\<rparr>)) Q p (c\<lparr>cpu_current := t\<rparr>)"
    using states_okD(1) [OF ok c] t by (simp add: cpu_ok_def)
  show "t_waiting_on (tk\<lparr>t_state := TASK_RUNNING\<rparr>) = nullptr" using states_okD(2) [OF ok t(1)] t(3) by (simp add: task_ok_def)
qed (use t others in auto)

lemma states_dead:
  assumes ok: "states_ok tasks cpus waits Q W" and c: "cpus p = Some c" and t: "tasks t = Some tk" "t_cpu tk = p"
    "t_state tk \<noteq> TASK_BLOCKED" "t \<notin> set (Q p)" "t \<noteq> cpu_idle c"
  shows "states_ok (tasks(t \<mapsto> tk\<lparr>t_state := TASK_DEAD\<rparr>)) cpus waits Q W"
proof -
  have "states_ok (tasks(t \<mapsto> tk\<lparr>t_state := TASK_DEAD\<rparr>)) (cpus(p \<mapsto> c)) waits Q W"
  proof (rule states_ok_task_step [OF ok c t(1,2)])
    show "cpu_ok (tasks(t \<mapsto> tk\<lparr>t_state := TASK_DEAD\<rparr>)) Q p c"
      by (rule cpu_ok_other_task [OF states_okD(1) [OF ok c], where t = t]) (use t in simp_all)
    show "t_waiting_on (tk\<lparr>t_state := TASK_DEAD\<rparr>) = nullptr" using states_okD(2) [OF ok t(1)] t(3) by (simp add: task_ok_def)
  next
    fix u uk assume "tasks u = Some uk" "t_cpu uk = p" "t_state uk = TASK_RUNNING"
    then show "cpu_current c = u \<or> cpu_idle c = u" using states_okD(2) [OF ok, of u uk] c by (auto simp: task_ok_def)
  qed (use t in simp_all)
  moreover have "cpus(p \<mapsto> c) = cpus" using c by (simp add: fun_upd_idem)
  ultimately show ?thesis by simp
qed

text \<open>Writes to the other fields of a task, and taking a task out of a run queue.\<close>

lemma states_ok_fields:
  assumes ok: "states_ok tasks cpus waits Q W" and t: "tasks t = Some tk"
    and same: "t_cpu tk' = t_cpu tk" "t_state tk' = t_state tk" "t_waiting_on tk' = t_waiting_on tk"
  shows "states_ok (tasks(t \<mapsto> tk')) cpus waits Q W"
proof (rule states_okI)
  show "cpu_ok (tasks(t \<mapsto> tk')) Q p c" if "cpus p = Some c" for p c
    using states_okD(1) [OF ok that] t same unfolding cpu_ok_def by fastforce
  show "task_ok cpus waits W u uk" if "(tasks(t \<mapsto> tk')) u = Some uk" for u uk
    using states_okD(2) [OF ok, of u "if u = t then tk else uk"] t same that by (auto simp: task_ok_def split: if_splits)
  show "\<exists>tk. (tasks(t \<mapsto> tk')) u = Some tk \<and> t_state tk = TASK_BLOCKED \<and> t_waiting_on tk = w"
    if "waits w = Some q" "u \<in> set (W w)" for w q u
    using states_okD(3) [OF ok that] t same by (cases "u = t") auto
qed

lemma states_ok_shrink:
  assumes ok: "states_ok tasks cpus waits Q W" and c: "cpus p = Some c" and "set ts \<subseteq> set (Q p)"
  shows "states_ok tasks (cpus(p \<mapsto> c\<lparr>cpu_runnable_tasks := rq\<rparr>)) waits (Q(p := ts)) W"
proof (rule states_okI)
  show "cpu_ok tasks (Q(p := ts)) p1 c1" if "(cpus(p \<mapsto> c\<lparr>cpu_runnable_tasks := rq\<rparr>)) p1 = Some c1" for p1 c1
    using that states_okD(1) [OF ok, of p1 "if p1 = p then c else c1"] c assms(3)
    by (cases "p1 = p") (auto simp: cpu_ok_def)
  show "task_ok (cpus(p \<mapsto> c\<lparr>cpu_runnable_tasks := rq\<rparr>)) waits W t tk" if "tasks t = Some tk" for t tk
    using c by (intro task_ok_cpus [OF states_okD(2) [OF ok that]]) auto
qed (rule states_okD(3) [OF ok])

lemma states_block:
  assumes ok: "states_ok tasks cpus waits Q W" and c: "cpus p = Some c"
    and t: "tasks t = Some tk" "t_cpu tk = p" "t_state tk \<noteq> TASK_BLOCKED" "t \<noteq> cpu_idle c" "t \<notin> set (Q p)"
    and w: "waits w = Some q"
  shows "states_ok (tasks(t \<mapsto> tk\<lparr>t_state := TASK_BLOCKED, t_waiting_on := w\<rparr>)) cpus (waits(w \<mapsto> q')) Q (W(w := W w @ [t]))"
    (is "states_ok (tasks(t \<mapsto> ?tk)) _ _ _ _")
proof (rule states_okI)
  fix p1 c1 assume c1: "cpus p1 = Some c1"
  have nq: "t \<notin> set (Q p1)" and i: "cpu_online c1 \<Longrightarrow> t \<noteq> cpu_idle c1"
    using task_cpu_unique [OF ok t(1) c1] t(2,4,5) c c1 by (cases "p1 = p"; simp)+
  show "cpu_ok (tasks(t \<mapsto> ?tk)) Q p1 c1"
    by (rule cpu_ok_other_task [OF states_okD(1) [OF ok c1] _ nq]) (use i in simp_all)
next
  fix u uk assume u: "(tasks(t \<mapsto> ?tk)) u = Some uk"
  have "p \<noteq> nullptr" using states_okD(1) [OF ok c] by (simp add: cpu_ok_def)
  then show "task_ok cpus (waits(w \<mapsto> q')) (W(w := W w @ [t])) u uk"
    using u t(2) states_okD(2) [OF ok, of u uk] by (cases "u = t") (auto simp: task_ok_def)
next
  fix w1 q1 u assume w1: "(waits(w \<mapsto> q')) w1 = Some q1" "u \<in> set ((W(w := W w @ [t])) w1)"
  show "\<exists>tk'. (tasks(t \<mapsto> ?tk)) u = Some tk' \<and> t_state tk' = TASK_BLOCKED \<and> t_waiting_on tk' = w1"
  proof (cases "u = t")
    case True
    then show ?thesis using w1 not_blocked_not_waiting [OF ok t(1,3)] by (auto split: if_splits)
  next
    case False
    then show ?thesis using w1 w states_okD(3) [OF ok, of w1 _ u] by (auto split: if_splits)
  qed
qed

section \<open>The queue operations keep the invariant\<close>

lemma queues_okD:
  assumes "queues_ok s Q W"
  shows "store_ok s" and "core_ok (Suc (Suc 0)) (ts_core s)" and "core_ok (Suc 0) (ts_core s)"
    and "sc_cpus s p = Some c \<Longrightarrow> rq_rep (cpu_runnable_tasks c) (ts_nodes s) (Q p)"
    and "sc_waits s w = Some q \<Longrightarrow> w \<noteq> nullptr \<and> wq_rep q (ts_nodes s) (W w)"
  using assms core_ok_mono [of "Suc (Suc 0)" "ts_core s" "Suc 0"] by (simp_all add: queues_ok_def)

lemma core_cycle_ok: "queues_ok s Q W \<Longrightarrow> core_ok (Suc (Suc 0)) (irq_cycle (ts_core s))"
  by (simp add: queues_okD)

lemma queues_ok_task:
  assumes "queues_ok s Q W" and "t \<in> dom (ts_tasks s)"
  shows "queues_ok (set_task t tk s) Q W"
  by (rule queues_ok_cong [OF assms(1)]) (use assms(2) queues_okD(2) [OF assms(1)] in auto)

text \<open>One run queue is relinked.\<close>

lemma queues_ok_runqueue:
  assumes base: "sched_base s Q W" and c: "sc_cpus s p = Some c" and us: "set us \<subseteq> dom (ts_tasks s)"
    and fresh: "\<And>p' c'. sc_cpus s p' = Some c' \<Longrightarrow> p' \<noteq> p \<Longrightarrow> set (Q p') \<inter> set us = {}"
    and nodes: "only_nodes (node_set runnable_node us) (ts_nodes s) h'" and rep: "rq_rep rq' h' ts"
  shows "queues_ok (set_cpu p (c\<lparr>cpu_runnable_tasks := rq'\<rparr>) (s\<lparr>ts_nodes := h', ts_core := irq_cycle (ts_core s)\<rparr>))
    (Q(p := ts)) W"
proof -
  have q: "queues_ok s Q W" and st: "states_ok (ts_tasks s) (sc_cpus s) (sc_waits s) Q W" using base by simp_all
  note in_store = queues_in_store [OF st]
  show ?thesis
  proof (rule queues_ok_relink [OF q us node_offset_simps(2) nodes], goal_cases)
    case (4 p' c')
    show ?case
    proof (cases "p' = p")
      case True
      then show ?thesis using 4 rep by auto
    next
      case False
      then have "sc_cpus s p' = Some c'" using 4 by simp
      then show ?thesis using False fresh in_store(1) by auto
    qed
  next
    case (5 w q')
    then show ?case using in_store(2) by simp
  qed (use core_cycle_ok [OF q] in simp_all)
qed

lemma cpu_enqueue_base:
  assumes base: "sched_base s Q W" and c: "sc_cpus s p = Some c" and t: "ts_tasks s t = Some tk" "t_cpu tk = p"
    "t_state tk \<noteq> TASK_BLOCKED" "t \<noteq> cpu_idle c" "t \<notin> set (Q p)"
  shows "\<exists>rq' h' s'. cpu_enqueue p t (set_task t (tk\<lparr>t_state := TASK_READY\<rparr>) s) = Inr s' \<and>
    s' = set_cpu p (c\<lparr>cpu_runnable_tasks := rq'\<rparr>)
      ((set_task t (tk\<lparr>t_state := TASK_READY\<rparr>) s)\<lparr>ts_nodes := h', ts_core := irq_cycle (ts_core s)\<rparr>) \<and>
    sched_base s' (Q(p := Q p @ [t])) W"
proof -
  let ?s = "set_task t (tk\<lparr>t_state := TASK_READY\<rparr>) s"
  have q: "queues_ok s Q W" and st: "states_ok (ts_tasks s) (sc_cpus s) (sc_waits s) Q W" using base by simp_all
  have q1: "queues_ok ?s Q W" using t(1) by (intro queues_ok_task [OF q]) auto
  obtain rq' h' where e: "runqueue_enqueue (cpu_runnable_tasks c) t ?s =
      Inr (rq', ?s\<lparr>ts_nodes := h', ts_core := irq_cycle (ts_core ?s)\<rparr>)"
    "rq_rep rq' h' (Q p @ [t])" "only_nodes (node_set runnable_node (t # Q p)) (ts_nodes ?s) h'"
    using runqueue_enqueue_spec [OF _ queues_okD(3) [OF q1] queues_okD(1) [OF q1], of "cpu_runnable_tasks c" "Q p" t "tk\<lparr>t_state := TASK_READY\<rparr>"]
      queues_okD(4) [OF q c] t(5) by (auto simp del: set_task_simps(4,5))
  have st1: "states_ok (ts_tasks ?s) ((sc_cpus s)(p \<mapsto> c\<lparr>cpu_runnable_tasks := rq'\<rparr>)) (sc_waits s) (Q(p := Q p @ [t])) W"
    using states_enqueue [OF st c t(1-4)] by simp
  have base1: "states_ok (ts_tasks ?s) (sc_cpus ?s) (sc_waits ?s) Q W"
  proof -
    have "states_ok (ts_tasks ?s) ((sc_cpus s)(p \<mapsto> c\<lparr>cpu_runnable_tasks := cpu_runnable_tasks c\<rparr>)) (sc_waits s) (Q(p := Q p @ [t])) W"
      using states_enqueue [OF st c t(1-4), of "cpu_runnable_tasks c"] by simp
    from states_ok_shrink [OF this, of p c "Q p" "cpu_runnable_tasks c"] c show ?thesis
      by (auto simp: fun_upd_idem)
  qed
  have "queues_ok (set_cpu p (c\<lparr>cpu_runnable_tasks := rq'\<rparr>) (?s\<lparr>ts_nodes := h', ts_core := irq_cycle (ts_core ?s)\<rparr>))
      (Q(p := Q p @ [t])) W"
  proof (rule queues_ok_runqueue [OF conjI [OF q1 base1] _ _ _ e(3,2)])
    show "sc_cpus ?s p = Some c" using c by simp
    show "set (t # Q p) \<subseteq> dom (ts_tasks ?s)" using queues_in_store(1) [OF st c] by auto
    fix p' c' assume p': "sc_cpus ?s p' = Some c'" "p' \<noteq> p"
    then have "set (Q p') \<inter> set (Q p) = {}" using queues_disjoint(1) [OF st _ c] by simp
    moreover have "t \<notin> set (Q p')" using task_cpu_unique(1) [OF st t(1)] p' t(2) by auto
    ultimately show "set (Q p') \<inter> set (t # Q p) = {}" by auto
  qed
  then show ?thesis using e(1) c st1 by (auto simp: cpu_enqueue_def)
qed

lemma cpu_dequeue_base:
  assumes base: "sched_base s Q W" and c: "sc_cpus s p = Some c" and Q: "Q p = t # ts"
  shows "\<exists>rq' h' s'. cpu_dequeue p s = Inr (t, s') \<and>
    s' = set_cpu p (c\<lparr>cpu_runnable_tasks := rq'\<rparr>) (s\<lparr>ts_nodes := h', ts_core := irq_cycle (ts_core s)\<rparr>) \<and>
    sched_base s' (Q(p := ts)) W \<and> t \<notin> set ts"
proof -
  have q: "queues_ok s Q W" and st: "states_ok (ts_tasks s) (sc_cpus s) (sc_waits s) Q W" using base by simp_all
  have rep: "rq_rep (cpu_runnable_tasks c) (ts_nodes s) (t # ts)" using queues_okD(4) [OF q c] Q by simp
  obtain rq' h' where d: "runqueue_dequeue (cpu_runnable_tasks c) s = Inr (t, rq', s\<lparr>ts_nodes := h', ts_core := irq_cycle (ts_core s)\<rparr>)"
    "rq_rep rq' h' ts" "only_nodes (node_set runnable_node (t # ts)) (ts_nodes s) h'"
    using runqueue_dequeue_spec [OF rep queues_okD(3) [OF q]] by blast
  have us: "set (t # ts) \<subseteq> dom (ts_tasks s)" using queues_in_store(1) [OF st c] unfolding Q .
  have dis: "set (Q p') \<inter> set (t # ts) = {}" if "sc_cpus s p' = Some c'" "p' \<noteq> p" for p' c'
    using queues_disjoint(1) [OF st that(1) c that(2)] unfolding Q .
  have "t \<notin> set ts" using rep list_rep_distinct by (fastforce simp: rq_rep_def)
  then show ?thesis
    using d(1) c queues_ok_runqueue [OF base c us dis d(3,2)] states_ok_shrink [OF st c, of ts rq'] Q
    by (auto simp: cpu_dequeue_def)
qed

lemma wait_enqueue_base:
  assumes base: "sched_base s Q W" and c: "sc_cpus s p = Some c" and t: "ts_tasks s t = Some tk" "t_cpu tk = p"
    "t_state tk \<noteq> TASK_BLOCKED" "t \<noteq> cpu_idle c" "t \<notin> set (Q p)" and w: "sc_waits s w = Some q"
  shows "\<exists>q' h' s'. wait_enqueue w t (set_task t (tk\<lparr>t_state := TASK_BLOCKED\<rparr>) s) = Inr s' \<and>
    s' = set_wait w q' (set_task t (tk\<lparr>t_state := TASK_BLOCKED, t_waiting_on := w\<rparr>)
      (s\<lparr>ts_nodes := h', ts_core := irq_cycle (ts_core s)\<rparr>)) \<and>
    sched_base s' Q (W(w := W w @ [t]))"
proof -
  let ?s = "set_task t (tk\<lparr>t_state := TASK_BLOCKED\<rparr>) s"
  have qo: "queues_ok s Q W" and st: "states_ok (ts_tasks s) (sc_cpus s) (sc_waits s) Q W" using base by simp_all
  have q1: "queues_ok ?s Q W" using t(1) by (intro queues_ok_task [OF qo]) auto
  have twice: "set_task t b (set_task t a x) = set_task t b x" for a b :: task and x :: "'a sched_scheme"
    by (simp add: set_task_def)
  have nw: "t \<notin> set (W w')" if "sc_waits s w' = Some q'" for w' q'
    by (rule not_blocked_not_waiting [OF st t(1,3) that])
  obtain q' h' where e: "waitqueue_enqueue w q t ?s =
      Inr (q', set_task t (tk\<lparr>t_state := TASK_BLOCKED, t_waiting_on := w\<rparr>) (s\<lparr>ts_nodes := h', ts_core := irq_cycle (ts_core s)\<rparr>))"
    "wq_rep q' h' (W w @ [t])" "only_nodes (node_set wait_node (t # W w)) (ts_nodes s) h'"
    using waitqueue_enqueue_spec [OF _ queues_okD(3) [OF q1] queues_okD(1) [OF q1], of q "W w" t "tk\<lparr>t_state := TASK_BLOCKED\<rparr>" w]
      queues_okD(5) [OF qo w] nw [OF w] by (auto simp: twice)
  let ?s' = "set_wait w q' (set_task t (tk\<lparr>t_state := TASK_BLOCKED, t_waiting_on := w\<rparr>)
      (s\<lparr>ts_nodes := h', ts_core := irq_cycle (ts_core s)\<rparr>))"
  have us: "set (t # W w) \<subseteq> dom (ts_tasks s)" using queues_in_store(2) [OF st w] t(1) by auto
  let ?s1 = "set_wait w q' (s\<lparr>ts_nodes := h', ts_core := irq_cycle (ts_core s)\<rparr>)"
  have "queues_ok ?s1 Q (W(w := W w @ [t]))"
  proof (rule queues_ok_relink [OF qo us node_offset_simps(3) e(3)], goal_cases)
    case (4 p' c')
    then show ?case using queues_in_store(1) [OF st] by simp
  next
    case (5 w' r)
    show ?case
    proof (cases "w' = w")
      case True
      then show ?thesis using 5 e(2) queues_okD(5) [OF qo w] by simp
    next
      case False
      then have "sc_waits s w' = Some r" using 5 by simp
      then show ?thesis
        using False nw queues_in_store(2) [OF st] queues_disjoint(2) [OF st _ w False] by simp
    qed
  qed (use core_cycle_ok [OF qo] in simp_all)
  then have "queues_ok ?s' Q (W(w := W w @ [t]))"
    by (rule queues_ok_cong) (use t(1) core_cycle_ok [OF qo] in auto)
  moreover have "states_ok (ts_tasks ?s') (sc_cpus ?s') (sc_waits ?s') Q (W(w := W w @ [t]))"
    using states_block [OF st c t w, of q'] by simp
  ultimately show ?thesis using e(1) w by (auto simp: wait_enqueue_def)
qed

section \<open>A scheduling step\<close>

text \<open>
  What an operation of cpu \<open>p\<close> leaves alone: the other cpus and their tasks, the wait queues, the
  interrupt state, and of its own tasks everything but state and context.
\<close>

definition same_task :: "ptr \<Rightarrow> task \<Rightarrow> task \<Rightarrow> bool" where
  "same_task p tk tk' \<longleftrightarrow>
     tk' = (if t_cpu tk = p then tk\<lparr>t_context := t_context tk', t_state := t_state tk'\<rparr> else tk)"

definition same_cpu :: "cpu \<Rightarrow> cpu \<Rightarrow> bool" where
  "same_cpu c c' \<longleftrightarrow> cpu_online c' = cpu_online c \<and> cpu_cpuid c' = cpu_cpuid c \<and> cpu_timer c' = cpu_timer c \<and>
     cpu_idle c' = cpu_idle c"

definition cpu_frame :: "ptr \<Rightarrow> 'a sched_scheme \<Rightarrow> 'a sched_scheme \<Rightarrow> bool" where
  "cpu_frame p s s' \<longleftrightarrow> CPUS s' = CPUS s \<and> sc_waits s' = sc_waits s \<and> irq_view (ts_core s') = irq_view (ts_core s) \<and>
     (\<forall>p'. p' \<noteq> p \<longrightarrow> sc_cpus s' p' = sc_cpus s p') \<and> rel_option same_cpu (sc_cpus s p) (sc_cpus s' p) \<and>
     (\<forall>t. rel_option (same_task p) (ts_tasks s t) (ts_tasks s' t))"

lemma same_task_refl [simp]: "same_task p tk tk"
  by (simp add: same_task_def)

lemma same_task_trans: "same_task p a b \<Longrightarrow> same_task p b c \<Longrightarrow> same_task p a c"
  by (cases a; cases b; cases c) (auto simp: same_task_def split: if_splits)

lemma rel_option_trans:
  assumes "\<And>x y z. R x y \<Longrightarrow> R y z \<Longrightarrow> R x z" and "rel_option R a b" and "rel_option R b c"
  shows "rel_option R a c"
  using assms by (cases a; cases b; cases c) auto

lemma cpu_frame_refl [simp]: "cpu_frame p s s"
  by (simp add: cpu_frame_def option.rel_refl same_cpu_def)

lemma cpu_frame_trans:
  assumes "cpu_frame p a b" and "cpu_frame p b c"
  shows "cpu_frame p a c"
proof -
  have "rel_option (same_task p) (ts_tasks a t) (ts_tasks c t)" for t
    by (rule rel_option_trans [of "same_task p" _ "ts_tasks b t"])
       (use assms same_task_trans in \<open>auto simp: cpu_frame_def\<close>)
  moreover have "rel_option same_cpu (sc_cpus a p) (sc_cpus c p)"
    by (rule rel_option_trans [of same_cpu _ "sc_cpus b p"]) (use assms in \<open>simp_all add: cpu_frame_def same_cpu_def\<close>)
  ultimately show ?thesis using assms by (simp add: cpu_frame_def)
qed

lemma cpu_frame_this:
  assumes "cpu_frame p s s'"
  shows "this_cpu (ts_core s') = this_cpu (ts_core s)"
  using assms by (auto simp: cpu_frame_def irq_view_def)

text \<open>No task of the cpu runs, except perhaps its idle task.\<close>

definition quiet :: "ptr \<Rightarrow> 'a sched_scheme \<Rightarrow> bool" where
  "quiet p s \<longleftrightarrow> (\<forall>u uk c. sc_cpus s p = Some c \<longrightarrow> ts_tasks s u = Some uk \<longrightarrow> t_cpu uk = p \<longrightarrow>
     t_state uk = TASK_RUNNING \<longrightarrow> cpu_idle c = u)"

definition still_runs :: "'a sched_scheme \<Rightarrow> cpu \<Rightarrow> bool" where
  "still_runs s c \<longleftrightarrow> cpu_current c \<noteq> cpu_idle c \<and>
     (\<exists>tk. ts_tasks s (cpu_current c) = Some tk \<and> t_state tk = TASK_RUNNING)"

text \<open>The run queue of the cpu after a task that is still runnable has been put back.\<close>

definition requeued :: "'a sched_scheme \<Rightarrow> queues \<Rightarrow> ptr \<Rightarrow> cpu \<Rightarrow> ptr list" where
  "requeued s Q p c = Q p @ (if still_runs s c then [cpu_current c] else [])"

lemma null_no_task: "queues_ok s Q W \<Longrightarrow> ts_tasks s nullptr = None"
  using store_okD(3) [OF queues_okD(1), of s Q W nullptr _ global_node] by fastforce

lemma requeue_prev_spec:
  assumes base: "sched_base s Q W" and c: "sc_cpus s p = Some c" and cur: "current_ok (ts_tasks s) p c"
  shows "\<exists>s1 c1. requeue_prev p (cpu_current c) s = Inr s1 \<and> sched_base s1 (Q(p := requeued s Q p c)) W \<and>
    sc_cpus s1 p = Some c1 \<and> cpu_frame p s s1 \<and> quiet p s1 \<and> cpu_current c1 = cpu_current c \<and> sc_regs s1 = sc_regs s \<and>
    (\<forall>t. map_option t_context (ts_tasks s1 t) = map_option t_context (ts_tasks s t))"
proof -
  have q: "queues_ok s Q W" and st: "states_ok (ts_tasks s) (sc_cpus s) (sc_waits s) Q W" using base by simp_all
  have run: "cpu_current c = u \<or> cpu_idle c = u" if "ts_tasks s u = Some uk" "t_cpu uk = p" "t_state uk = TASK_RUNNING" for u uk
    using states_okD(2) [OF st that(1)] that(2,3) c by (auto simp: task_ok_def)
  show ?thesis
  proof (cases "still_runs s c")
    case True
    then obtain tk where tk: "ts_tasks s (cpu_current c) = Some tk" "t_state tk = TASK_RUNNING" "cpu_current c \<noteq> cpu_idle c"
      by (auto simp: still_runs_def)
    have nn: "cpu_current c \<noteq> nullptr" using tk(1) null_no_task [OF q] by auto
    have cpu: "t_cpu tk = p" using cur nn tk(1) by (auto simp: current_ok_def)
    have wait: "t_waiting_on tk = nullptr" using states_okD(2) [OF st tk(1)] tk(2) by (simp add: task_ok_def)
    have nq: "cpu_current c \<notin> set (Q p)" using queued_task(1) [OF st c] tk(1,2) by fastforce
    let ?t = "tk\<lparr>t_state := TASK_READY\<rparr>"
    obtain rq' h' s' where e: "cpu_enqueue p (cpu_current c) (set_task (cpu_current c) ?t s) = Inr s'"
      "s' = set_cpu p (c\<lparr>cpu_runnable_tasks := rq'\<rparr>)
        ((set_task (cpu_current c) ?t s)\<lparr>ts_nodes := h', ts_core := irq_cycle (ts_core s)\<rparr>)"
      "sched_base s' (Q(p := Q p @ [cpu_current c])) W"
      using cpu_enqueue_base [OF base c tk(1) cpu _ tk(3) nq] tk(2) by auto
    have "requeue_prev p (cpu_current c) s = Inr s'"
      using c tk nn wait cpu e(1) by (simp add: requeue_prev_def)
    moreover have "cpu_frame p s s'"
      unfolding e(2) cpu_frame_def
      using c tk(1) cpu pop_push_cycle(2) [OF queues_okD(3) [OF q]]
      by (auto simp: same_cpu_def same_task_def option.rel_refl)
    moreover have "quiet p s'" using run by (auto simp: e(2) quiet_def split: if_splits)
    ultimately show ?thesis
      using e(3) True by (intro exI [of _ s'] exI [of _ "c\<lparr>cpu_runnable_tasks := rq'\<rparr>"]) (simp add: requeued_def e(2) tk(1))
  next
    case False
    have e: "requeue_prev p (cpu_current c) s = Inr s"
    proof (cases "cpu_current c = nullptr")
      case nz: False
      then obtain tk where "ts_tasks s (cpu_current c) = Some tk" using cur by (auto simp: current_ok_def)
      with False nz c show ?thesis by (auto simp: requeue_prev_def still_runs_def)
    qed (simp add: requeue_prev_def)
    have "quiet p s" using run False c unfolding quiet_def still_runs_def by fastforce
    with e base c False show ?thesis by (intro exI [of _ s] exI [of _ c]) (simp add: requeued_def)
  qed
qed

lemma pick_next_spec:
  assumes base: "sched_base s Q W" and c: "sc_cpus s p = Some c" and quiet: "quiet p s"
  shows "\<exists>s1 c1. scheduler_policy_pick_next p s = Inr (first_of (Q p) nullptr, s1) \<and> sched_base s1 (Q(p := tl (Q p))) W \<and>
    sc_cpus s1 p = Some c1 \<and> cpu_frame p s s1 \<and> quiet p s1 \<and> cpu_current c1 = cpu_current c \<and> sc_regs s1 = sc_regs s \<and>
    ts_tasks s1 = ts_tasks s \<and> (Q p \<noteq> [] \<longrightarrow> hd (Q p) \<notin> set (tl (Q p)))"
proof -
  have q: "queues_ok s Q W" using base by simp
  have empty: "runqueue_is_empty (cpu_runnable_tasks c) \<longleftrightarrow> Q p = []" by (rule runqueue_observers(1) [OF queues_okD(4) [OF q c]])
  show ?thesis
  proof (cases "Q p")
    case Nil
    then have "Q(p := tl (Q p)) = Q" by auto
    with Nil show ?thesis using c empty base quiet
      by (intro exI [of _ s] exI [of _ c]) (simp add: scheduler_policy_pick_next_def)
  next
    case (Cons t ts)
    obtain rq' h' s' where d: "cpu_dequeue p s = Inr (t, s')"
      "s' = set_cpu p (c\<lparr>cpu_runnable_tasks := rq'\<rparr>) (s\<lparr>ts_nodes := h', ts_core := irq_cycle (ts_core s)\<rparr>)"
      "sched_base s' (Q(p := ts)) W" "t \<notin> set ts"
      using cpu_dequeue_base [OF base c Cons] by blast
    have "scheduler_policy_pick_next p s = Inr (t, s')"
      using c empty Cons d(1) by (simp add: scheduler_policy_pick_next_def sched_policy_round_robin_def)
    moreover have "cpu_frame p s s'"
      unfolding d(2) cpu_frame_def using c pop_push_cycle(2) [OF queues_okD(3) [OF q]]
      by (auto simp: same_cpu_def option.rel_refl)
    moreover have "quiet p s'" using quiet c by (simp add: quiet_def d(2))
    ultimately show ?thesis
      using d(3,4) Cons by (intro exI [of _ s'] exI [of _ "c\<lparr>cpu_runnable_tasks := rq'\<rparr>"]) (simp add: d(2))
  qed
qed

text \<open>
  The registers over a switch from \<open>prev\<close> to \<open>next\<close>: those of the old task are saved in its
  context, those of the new one are what its context held.
\<close>

definition switched :: "ptr \<Rightarrow> ptr \<Rightarrow> 'a sched_scheme \<Rightarrow> 'a sched_scheme \<Rightarrow> bool" where
  "switched prev next s s' \<longleftrightarrow>
     (if prev = next then sc_regs s' = sc_regs s
      else map_option t_context (ts_tasks s next) = Some (sc_regs s') \<and>
        (prev \<noteq> nullptr \<longrightarrow> map_option t_context (ts_tasks s' prev) = Some (sc_regs s))) \<and>
     (\<forall>t. t \<noteq> prev \<longrightarrow> map_option t_context (ts_tasks s' t) = map_option t_context (ts_tasks s t))"

lemma switched_cong:
  assumes "sc_regs a = sc_regs b" and "\<forall>t. map_option t_context (ts_tasks a t) = map_option t_context (ts_tasks b t)"
  shows "switched prev next a s' = switched prev next b s'"
  using assms by (simp only: switched_def)

lemma queues_ok_regs [simp]: "queues_ok (s\<lparr>sc_regs := r\<rparr>) Q W = queues_ok s Q W"
  by (simp add: queues_ok_def store_ok_def)

lemma run_next_spec:
  assumes base: "sched_base s Q W" and c: "sc_cpus s p = Some c" and cpu: "this_cpu (ts_core s) = p" and quiet: "quiet p s"
    and t: "ts_tasks s t = Some tk" "t_cpu tk = p" "t \<notin> set (Q p)" "t_state tk \<noteq> TASK_BLOCKED" "t_state tk = TASK_READY \<or> t = cpu_idle c"
    and prev: "prev \<noteq> nullptr \<Longrightarrow> \<exists>pk. ts_tasks s prev = Some pk \<and> t_cpu pk = p" and idle: "t = cpu_idle c \<Longrightarrow> Q p = []"
  shows "\<exists>s1 c1. run_next p prev t s = Inr s1 \<and> sched_base s1 Q W \<and> sc_cpus s1 p = Some c1 \<and> cpu_current c1 = t \<and>
    cpu_frame p s s1 \<and> switched prev t s s1 \<and>
    (\<forall>u. map_option t_state (ts_tasks s1 u) = (if u = t then Some TASK_RUNNING else map_option t_state (ts_tasks s u)))"
proof -
  have q: "queues_ok s Q W" and st: "states_ok (ts_tasks s) (sc_cpus s) (sc_waits s) Q W" using base by simp_all
  let ?c = "c\<lparr>cpu_current := t\<rparr>" and ?tk = "tk\<lparr>t_state := TASK_RUNNING\<rparr>"
  let ?s = "set_cpu p ?c (set_task t ?tk s)"
  have wait: "t_waiting_on tk = nullptr" using states_okD(2) [OF st t(1)] t(4) by (simp add: task_ok_def)
  have "states_ok (ts_tasks ?s) (sc_cpus ?s) (sc_waits ?s) Q W"
    using states_run [OF st c t(1,2,4,3)] quiet c unfolding quiet_def by simp
  moreover have "queues_ok ?s Q W"
    by (rule queues_ok_cong [OF q]) (use t(1) c queues_okD(2) [OF q] in \<open>auto split: if_splits\<close>)
  ultimately have base1: "sched_base ?s Q W" by simp
  have run: "run_next p prev t s = (if prev = t then Inr ?s
      else if nullptr \<noteq> prev then context_switch prev t ?s
      else bindE (scheduler_cpu_has_runnable_tasks ?s) (\<lambda>has.
        bindE (assertE (t \<noteq> cpu_idle c \<or> has = False) ''idle selected while runnable task exists'') (\<lambda>_. load_context t ?s)))"
    using c t wait by (simp add: run_next_def Let_def)
  have fr: "cpu_frame p s (?s\<lparr>sc_regs := r\<rparr>)" for r
    using c t by (auto simp: cpu_frame_def same_cpu_def same_task_def option.rel_refl)
  show ?thesis
  proof (cases "prev = t \<or> prev = nullptr")
    case True
    let ?r = "if prev = t then sc_regs s else t_context tk"
    have "scheduler_cpu_has_runnable_tasks ?s = Inr (Q p \<noteq> [])"
      using cpu runqueue_observers(2) [OF queues_okD(4) [OF q c]]
      by (auto simp: scheduler_cpu_has_runnable_tasks_def word_less_nat_alt)
    then have "run_next p prev t s = Inr (?s\<lparr>sc_regs := ?r\<rparr>)"
      using True t(1) run idle by (auto simp: load_context_def set_cpu_def set_task_def)
    moreover have "switched prev t s (?s\<lparr>sc_regs := ?r\<rparr>)" using True t(1) by (auto simp: switched_def)
    ultimately show ?thesis using base1 fr by (intro exI [of _ "?s\<lparr>sc_regs := ?r\<rparr>"] exI [of _ ?c]) (simp add: t(1))
  next
    case False
    then obtain pk where pk: "ts_tasks s prev = Some pk" "t_cpu pk = p" using prev by blast
    let ?pk = "pk\<lparr>t_context := sc_regs s\<rparr>"
    let ?s1 = "(set_task prev ?pk ?s)\<lparr>sc_regs := t_context tk\<rparr>"
    have "run_next p prev t s = Inr ?s1"
      using run False pk by (auto simp: context_switch_def load_context_def task_at_def update_task_def)
    moreover have "sched_base ?s1 Q W"
      using queues_ok_task [of ?s Q W prev ?pk] states_ok_fields [of "ts_tasks ?s" "sc_cpus ?s" "sc_waits ?s" Q W prev pk ?pk]
        base1 False pk by auto
    moreover have "switched prev t s ?s1" using False t(1) by (simp add: switched_def)
    moreover have "cpu_frame p s ?s1"
      using c t pk by (auto simp: cpu_frame_def same_cpu_def same_task_def option.rel_refl)
    ultimately show ?thesis using False pk t(1) by (intro exI [of _ ?s1] exI [of _ ?c]) simp
  qed
qed

lemma cpu_frame_task:
  assumes "cpu_frame p s s'" and "ts_tasks s t = Some tk"
  shows "\<exists>tk'. ts_tasks s' t = Some tk' \<and> same_task p tk tk'"
proof -
  have "rel_option (same_task p) (Some tk) (ts_tasks s' t)" using assms by (metis cpu_frame_def)
  then show ?thesis by (cases "ts_tasks s' t") auto
qed

lemma cpu_frame_cpu:
  assumes "cpu_frame p s s'" and "sc_cpus s p = Some c"
  shows "\<exists>c'. sc_cpus s' p = Some c' \<and> same_cpu c c'"
proof -
  have "rel_option same_cpu (Some c) (sc_cpus s' p)" using assms by (metis cpu_frame_def)
  then show ?thesis by (cases "sc_cpus s' p") auto
qed

lemma same_taskD: "same_task p tk tk' \<Longrightarrow> t_cpu tk' = t_cpu tk \<and> t_waiting_on tk' = t_waiting_on tk"
  by (cases tk; cases tk') (auto simp: same_task_def split: if_splits)

lemma current_ok_frame:
  assumes "cpu_frame p s s'" and "p' \<noteq> p" and "current_ok (ts_tasks s) p' c"
  shows "current_ok (ts_tasks s') p' c"
proof -
  have "ts_tasks s' t = Some tk" if "ts_tasks s t = Some tk" "t_cpu tk = p'" for t tk
    using cpu_frame_task [OF assms(1) that(1)] that(2) assms(2) by (auto simp: same_task_def)
  then show ?thesis using assms(3) unfolding current_ok_def by blast
qed

lemma check_prev_ok:
  assumes st: "states_ok (ts_tasks s) (sc_cpus s) (sc_waits s) Q W" and q: "queues_ok s Q W"
    and cur: "current_ok (ts_tasks s) p c"
  shows "check_prev p (cpu_current c) s = Inr ()"
proof (cases "cpu_current c = nullptr")
  case False
  then obtain tk where tk: "ts_tasks s (cpu_current c) = Some tk" "t_cpu tk = p" "t_state tk \<noteq> TASK_READY"
    using cur by (auto simp: current_ok_def)
  have "t_state tk = TASK_BLOCKED \<longleftrightarrow> t_waiting_on tk \<noteq> nullptr"
    using states_okD(2) [OF st tk(1)] queues_okD(5) [OF q] unfolding task_ok_def by (metis domD)
  then show ?thesis using False tk by (simp add: check_prev_def)
qed (simp add: check_prev_def)

lemma sched_invD:
  assumes "sched_inv s Q W"
  shows "sched_base s Q W" and "sc_cpus s p = Some c \<Longrightarrow> current_ok (ts_tasks s) p c"
  using assms unfolding sched_inv_def by blast+

lemma scheduler_switch_spec:
  assumes inv: "sched_inv s Q W" and cpu: "p = this_cpu (ts_core s)" and c: "sc_cpus s p = Some c"
  shows "\<exists>s' c'. scheduler_switch s = Inr s' \<and> sched_inv s' (Q(p := tl (requeued s Q p c))) W \<and> sc_cpus s' p = Some c' \<and>
    cpu_current c' = first_of (requeued s Q p c) (cpu_idle c) \<and> cpu_frame p s s' \<and>
    switched (cpu_current c) (cpu_current c') s s' \<and> map_option t_state (ts_tasks s' (cpu_current c')) = Some TASK_RUNNING"
proof -
  let ?q = "requeued s Q p c"
  have base: "sched_base s Q W" and cur: "current_ok (ts_tasks s) p c" and on: "cpu_online c"
    using sched_invD [OF inv] inv c cpu unfolding sched_inv_def by fastforce+
  obtain s1 c1 where 1: "requeue_prev p (cpu_current c) s = Inr s1" "sched_base s1 (Q(p := ?q)) W" "sc_cpus s1 p = Some c1"
    "cpu_frame p s s1" "quiet p s1" "cpu_current c1 = cpu_current c" "sc_regs s1 = sc_regs s"
    "\<forall>t. map_option t_context (ts_tasks s1 t) = map_option t_context (ts_tasks s t)"
    using requeue_prev_spec [OF base c cur] by blast
  have Q1: "(Q(p := ?q)) p = ?q" "(Q(p := ?q))(p := tl ?q) = Q(p := tl ?q)" by simp_all
  obtain s2 c2 where 2: "scheduler_policy_pick_next p s1 = Inr (first_of ?q nullptr, s2)"
    "sched_base s2 (Q(p := tl ?q)) W" "sc_cpus s2 p = Some c2" "cpu_frame p s1 s2" "quiet p s2"
    "cpu_current c2 = cpu_current c1" "sc_regs s2 = sc_regs s1" "ts_tasks s2 = ts_tasks s1" "?q \<noteq> [] \<longrightarrow> hd ?q \<notin> set (tl ?q)"
    using pick_next_spec [OF 1(2,3,5), unfolded Q1] by blast
  have fr: "cpu_frame p s s2" by (rule cpu_frame_trans [OF 1(4) 2(4)])
  have c2: "cpu_idle c2 = cpu_idle c" "cpu_online c2"
    using cpu_frame_cpu [OF fr c] 2(3) on by (auto simp: same_cpu_def)
  have st1: "states_ok (ts_tasks s1) (sc_cpus s1) (sc_waits s1) (Q(p := ?q)) W" using 1(2) by simp
  have i1: "cpu_idle c1 = cpu_idle c" using cpu_frame_cpu [OF 1(4) c] 1(3) by (auto simp: same_cpu_def)
  let ?n = "if first_of ?q nullptr = nullptr then cpu_idle c2 else first_of ?q nullptr"
  have queued: "\<exists>tk. ts_tasks s1 u = Some tk \<and> t_state tk = TASK_READY \<and> t_cpu tk = p" "u \<noteq> cpu_idle c" "u \<noteq> nullptr"
    if u: "u \<in> set ?q" for u
    using queued_task [OF st1 1(3), of u] u i1 null_no_task [of s1] 1(2) by auto
  have n: "?n = first_of ?q (cpu_idle c)" using queued(3) c2(1) by (cases ?q) auto
  have next_ok: "\<exists>tk. ts_tasks s2 ?n = Some tk \<and> t_cpu tk = p \<and> ?n \<notin> set ((Q(p := tl ?q)) p) \<and> t_state tk \<noteq> TASK_BLOCKED \<and>
      (t_state tk = TASK_READY \<or> ?n = cpu_idle c2) \<and> (?n = cpu_idle c2 \<longrightarrow> (Q(p := tl ?q)) p = [])"
  proof (cases ?q)
    case Nil
    have "cpu_ok (ts_tasks s2) (Q(p := tl ?q)) p c2" using states_okD(1) 2(2,3) by blast
    then show ?thesis using c2 n Nil unfolding cpu_ok_def by auto
  next
    case (Cons t ts)
    then show ?thesis using queued [of t] 2(8,9) n c2(1) by auto
  qed
  then obtain tk where tk: "ts_tasks s2 ?n = Some tk" "t_cpu tk = p" "?n \<notin> set ((Q(p := tl ?q)) p)" "t_state tk \<noteq> TASK_BLOCKED"
    "t_state tk = TASK_READY \<or> ?n = cpu_idle c2" "?n = cpu_idle c2 \<Longrightarrow> (Q(p := tl ?q)) p = []" by blast
  have prev: "\<exists>pk. ts_tasks s2 (cpu_current c) = Some pk \<and> t_cpu pk = p" if "cpu_current c \<noteq> nullptr"
    using cur that cpu_frame_task [OF fr] same_taskD unfolding current_ok_def by metis
  have this2: "this_cpu (ts_core s2) = p" using cpu_frame_this [OF fr] cpu by simp
  obtain s3 c3 where 3: "run_next p (cpu_current c) ?n s2 = Inr s3" "sched_base s3 (Q(p := tl ?q)) W" "sc_cpus s3 p = Some c3"
    "cpu_current c3 = ?n" "cpu_frame p s2 s3" "switched (cpu_current c) ?n s2 s3"
    "\<forall>u. map_option t_state (ts_tasks s3 u) = (if u = ?n then Some TASK_RUNNING else map_option t_state (ts_tasks s2 u))"
    using run_next_spec [OF 2(2,3) this2 2(5) tk(1-5) prev tk(6)] by blast
  have fr3: "cpu_frame p s s3" by (rule cpu_frame_trans [OF fr 3(5)])
  have run: "scheduler_switch s = Inr s3"
    using check_prev_ok [OF conjunct2 [OF base] conjunct1 [OF base] cur] 1(1) 2(1,3) 3(1) c
    by (simp add: scheduler_switch_def cpu [symmetric])
  obtain tk3 where tk3: "ts_tasks s3 ?n = Some tk3" "t_cpu tk3 = p" "t_state tk3 = TASK_RUNNING"
  proof -
    obtain tk' where tk': "ts_tasks s3 ?n = Some tk'" "same_task p tk tk'" using cpu_frame_task [OF 3(5) tk(1)] by (elim exE conjE)
    moreover have "t_state tk' = TASK_RUNNING" using 3(7) [rule_format, of ?n] unfolding tk'(1) by simp
    ultimately show ?thesis using that same_taskD tk(2) by simp
  qed
  have "current_ok (ts_tasks s3) p' c'" if "sc_cpus s3 p' = Some c'" for p' c'
  proof (cases "p' = p")
    case True
    then show ?thesis using that 3(3,4) tk3 by (auto simp: current_ok_def)
  next
    case False
    then have "sc_cpus s p' = Some c'" using fr3 that by (simp add: cpu_frame_def)
    then show ?thesis by (intro current_ok_frame [OF fr3 False] sched_invD(2) [OF inv])
  qed
  moreover have "\<exists>c. sc_cpus s3 (this_cpu (ts_core s3)) = Some c \<and> cpu_online c"
    using cpu_frame_this [OF fr3] cpu cpu_frame_cpu [OF fr3 c] on by (auto simp: same_cpu_def)
  ultimately have "sched_inv s3 (Q(p := tl ?q)) W" using 3(2) unfolding sched_inv_def by blast
  moreover have "switched (cpu_current c) ?n s s3"
    using 3(6) switched_cong [of s2 s "cpu_current c" ?n s3] 1(7,8) 2(7,8) by simp
  ultimately show ?thesis
    using run 3(3,4) fr3 tk3(1,3) n by (intro exI [of _ s3] exI [of _ c3]) simp
qed

section \<open>Blocking and exiting\<close>

lemma running_current:
  assumes inv: "sched_inv s Q W" and c: "sc_cpus s p = Some c" and run: "still_runs s c"
  shows "\<exists>tk. ts_tasks s (cpu_current c) = Some tk \<and> t_state tk = TASK_RUNNING \<and> t_cpu tk = p \<and> t_waiting_on tk = nullptr"
    and "cpu_current c \<noteq> nullptr" and "cpu_current c \<noteq> cpu_idle c" and "cpu_current c \<notin> set (Q p)"
proof -
  have st: "states_ok (ts_tasks s) (sc_cpus s) (sc_waits s) Q W" and q: "queues_ok s Q W" using sched_invD(1) [OF inv] by simp_all
  obtain tk where tk: "ts_tasks s (cpu_current c) = Some tk" "t_state tk = TASK_RUNNING" using run by (auto simp: still_runs_def)
  show nn: "cpu_current c \<noteq> nullptr" using tk(1) null_no_task [OF q] by auto
  then have "t_cpu tk = p" using sched_invD(2) [OF inv c] tk(1) by (auto simp: current_ok_def)
  moreover have "t_waiting_on tk = nullptr" using states_okD(2) [OF st tk(1)] tk(2) by (simp add: task_ok_def)
  ultimately show "\<exists>tk. ts_tasks s (cpu_current c) = Some tk \<and> t_state tk = TASK_RUNNING \<and> t_cpu tk = p \<and> t_waiting_on tk = nullptr"
    using tk by blast
  show "cpu_current c \<noteq> cpu_idle c" using run by (simp add: still_runs_def)
  show "cpu_current c \<notin> set (Q p)" using queued_task(1) [OF st c] tk by fastforce
qed

text \<open>Once the current task has been taken out of the run, the switch serves the queue as it stands.\<close>

lemma switch_away:
  assumes base: "sched_base s1 Q W'" and c: "sc_cpus s1 p = Some c" and on: "cpu_online c" and cpu: "this_cpu (ts_core s1) = p"
    and t: "ts_tasks s1 (cpu_current c) = Some tk'" "t_cpu tk' = p" "t_state tk' \<noteq> TASK_READY" "t_state tk' \<noteq> TASK_RUNNING"
    and others: "\<forall>p' c'. p' \<noteq> p \<longrightarrow> sc_cpus s1 p' = Some c' \<longrightarrow> current_ok (ts_tasks s1) p' c'"
  shows "\<exists>s' c'. scheduler_switch s1 = Inr s' \<and> sched_inv s' (Q(p := tl (Q p))) W' \<and> sc_cpus s' p = Some c' \<and>
    cpu_current c' = first_of (Q p) (cpu_idle c) \<and> cpu_frame p s1 s' \<and> switched (cpu_current c) (cpu_current c') s1 s' \<and>
    map_option t_state (ts_tasks s' (cpu_current c')) = Some TASK_RUNNING"
proof -
  have "current_ok (ts_tasks s1) p c" using t by (simp add: current_ok_def)
  then have "current_ok (ts_tasks s1) p' c'" if "sc_cpus s1 p' = Some c'" for p' c'
    using others that c by (cases "p' = p") auto
  then have "sched_inv s1 Q W'" using base c on cpu unfolding sched_inv_def by blast
  moreover have "requeued s1 Q p c = Q p" using t by (simp add: requeued_def still_runs_def)
  ultimately show ?thesis using scheduler_switch_spec [OF _ cpu [symmetric] c, of Q W'] by simp
qed

lemma current_ok_same:
  assumes "current_ok (ts_tasks s) p' c'" and "p' \<noteq> p" and "\<And>u. u \<noteq> t \<Longrightarrow> T u = ts_tasks s u"
    and "ts_tasks s t = Some tk" and "t_cpu tk = p"
  shows "current_ok T p' c'"
  using assms unfolding current_ok_def by (metis option.inject)

lemma scheduler_block_spec:
  assumes inv: "sched_inv s Q W" and cpu: "p = this_cpu (ts_core s)" and c: "sc_cpus s p = Some c" and run: "still_runs s c"
    and w: "sc_waits s w = Some q"
  shows "\<exists>s' c'. scheduler_block_current w s = Inr s' \<and> sched_inv s' (Q(p := tl (Q p))) (W(w := W w @ [cpu_current c])) \<and>
    sc_cpus s' p = Some c' \<and> same_cpu c c' \<and> cpu_current c' = first_of (Q p) (cpu_idle c) \<and>
    dom (sc_waits s') = dom (sc_waits s) \<and> irq_view (ts_core s') = irq_view (ts_core s) \<and>
    map_option t_state (ts_tasks s' (cpu_current c')) = Some TASK_RUNNING"
proof -
  let ?t = "cpu_current c"
  obtain tk where tk: "ts_tasks s ?t = Some tk" "t_state tk = TASK_RUNNING" "t_cpu tk = p" "t_waiting_on tk = nullptr"
    using running_current(1) [OF inv c run] by blast
  note cur = running_current(2-4) [OF inv c run]
  have on: "cpu_online c" using inv c cpu unfolding sched_inv_def by fastforce
  have q: "queues_ok s Q W" using sched_invD(1) [OF inv] by simp
  obtain q' h' s1 where e: "wait_enqueue w ?t (set_task ?t (tk\<lparr>t_state := TASK_BLOCKED\<rparr>) s) = Inr s1"
    "s1 = set_wait w q' (set_task ?t (tk\<lparr>t_state := TASK_BLOCKED, t_waiting_on := w\<rparr>)
      (s\<lparr>ts_nodes := h', ts_core := irq_cycle (ts_core s)\<rparr>))"
    "sched_base s1 Q (W(w := W w @ [?t]))"
    using wait_enqueue_base [OF sched_invD(1) [OF inv] c tk(1,3) _ cur(2,3) w] tk(2) by auto
  have view: "irq_view (ts_core s1) = irq_view (ts_core s)"
    using pop_push_cycle(2) [OF queues_okD(3) [OF q]] by (simp add: e(2))
  have c1: "sc_cpus s1 p = Some c" and this1: "this_cpu (ts_core s1) = p"
    and t1: "ts_tasks s1 ?t = Some (tk\<lparr>t_state := TASK_BLOCKED, t_waiting_on := w\<rparr>)"
    using c cpu view by (simp_all add: e(2) irq_view_def)
  have others: "current_ok (ts_tasks s1) p' c'" if "p' \<noteq> p" "sc_cpus s1 p' = Some c'" for p' c'
  proof (rule current_ok_same [OF _ that(1) _ tk(1,3)])
    show "current_ok (ts_tasks s) p' c'" using sched_invD(2) [OF inv] that(2) by (simp add: e(2))
  qed (simp add: e(2))
  have st: "t_cpu (tk\<lparr>t_state := TASK_BLOCKED, t_waiting_on := w\<rparr>) = p"
    "t_state (tk\<lparr>t_state := TASK_BLOCKED, t_waiting_on := w\<rparr>) \<noteq> TASK_READY"
    "t_state (tk\<lparr>t_state := TASK_BLOCKED, t_waiting_on := w\<rparr>) \<noteq> TASK_RUNNING" using tk(3) by simp_all
  obtain s' c' where s': "scheduler_switch s1 = Inr s'" "sched_inv s' (Q(p := tl (Q p))) (W(w := W w @ [?t]))" "sc_cpus s' p = Some c'"
    "cpu_current c' = first_of (Q p) (cpu_idle c)" "cpu_frame p s1 s'" "map_option t_state (ts_tasks s' (cpu_current c')) = Some TASK_RUNNING"
    using switch_away [OF e(3) c1 on this1 t1 st] others by blast
  have "scheduler_block_current w s = Inr s'"
    using c cur tk cpu e(1) s'(1) by (simp add: scheduler_block_current_def Let_def)
  moreover have "same_cpu c c'" using cpu_frame_cpu [OF s'(5) c1] s'(3) by auto
  moreover have "dom (sc_waits s') = dom (sc_waits s)" using s'(5) w by (auto simp: cpu_frame_def e(2))
  moreover have "irq_view (ts_core s') = irq_view (ts_core s)" using s'(5) view by (simp add: cpu_frame_def)
  ultimately show ?thesis using s'(2-4,6) by blast
qed

lemma task_exit_spec:
  assumes inv: "sched_inv s Q W" and cpu: "p = this_cpu (ts_core s)" and c: "sc_cpus s p = Some c" and run: "still_runs s c"
  shows "\<exists>s' c'. task_exit (cpu_current c) s = Inr s' \<and> sched_inv s' (Q(p := tl (Q p))) W \<and>
    sc_cpus s' p = Some c' \<and> cpu_frame p s s' \<and> cpu_current c' = first_of (Q p) (cpu_idle c) \<and>
    map_option t_state (ts_tasks s' (cpu_current c')) = Some TASK_RUNNING"
proof -
  let ?t = "cpu_current c"
  obtain tk where tk: "ts_tasks s ?t = Some tk" "t_state tk = TASK_RUNNING" "t_cpu tk = p"
    using running_current(1) [OF inv c run] by blast
  note cur = running_current(2-4) [OF inv c run]
  have on: "cpu_online c" using inv c cpu unfolding sched_inv_def by fastforce
  let ?s1 = "set_task ?t (tk\<lparr>t_state := TASK_DEAD\<rparr>) s"
  have q: "queues_ok ?s1 Q W" using sched_invD(1) [OF inv] tk(1) by (intro queues_ok_task) auto
  have "states_ok (ts_tasks ?s1) (sc_cpus ?s1) (sc_waits ?s1) Q W"
    using states_dead [OF conjunct2 [OF sched_invD(1) [OF inv]] c tk(1,3) _ cur(3,2)] tk(2) by simp
  with q have base: "sched_base ?s1 Q W" by simp
  have others: "current_ok (ts_tasks ?s1) p' c'" if "p' \<noteq> p" "sc_cpus ?s1 p' = Some c'" for p' c'
    by (rule current_ok_same [OF sched_invD(2) [OF inv] that(1) _ tk(1,3)]) (use that(2) in simp_all)
  have pre: "sc_cpus ?s1 p = Some c" "this_cpu (ts_core ?s1) = p" "ts_tasks ?s1 ?t = Some (tk\<lparr>t_state := TASK_DEAD\<rparr>)"
    using c cpu by simp_all
  have st: "t_cpu (tk\<lparr>t_state := TASK_DEAD\<rparr>) = p" "t_state (tk\<lparr>t_state := TASK_DEAD\<rparr>) \<noteq> TASK_READY"
    "t_state (tk\<lparr>t_state := TASK_DEAD\<rparr>) \<noteq> TASK_RUNNING" using tk(3) by simp_all
  obtain s' c' where s': "scheduler_switch ?s1 = Inr s'" "sched_inv s' (Q(p := tl (Q p))) W" "sc_cpus s' p = Some c'"
    "cpu_current c' = first_of (Q p) (cpu_idle c)" "cpu_frame p ?s1 s'" "map_option t_state (ts_tasks s' (cpu_current c')) = Some TASK_RUNNING"
    using switch_away [OF base pre(1) on pre(2,3) st] others by blast
  have "task_exit ?t s = Inr s'" using tk(1) s'(1) by (simp add: task_exit_def yield_def)
  moreover have "cpu_frame p s ?s1"
    using tk(1,3) by (auto simp: cpu_frame_def same_task_def same_cpu_def option.rel_refl)
  ultimately show ?thesis using s'(2-4,6) cpu_frame_trans [OF _ s'(5)] by blast
qed

section \<open>Entering and leaving a run queue from outside\<close>

lemma scheduler_enqueue_spec:
  assumes inv: "sched_inv s Q W" and t: "ts_tasks s t = Some tk" "t_state tk = TASK_READY \<or> t_state tk = TASK_DEAD"
    and c: "sc_cpus s (t_cpu tk) = Some c" and out: "t \<noteq> cpu_idle c" "t \<noteq> cpu_current c" "t \<notin> set (Q (t_cpu tk))"
  shows "\<exists>s' c'. scheduler_enqueue t s = Inr s' \<and> sched_inv s' (Q(t_cpu tk := Q (t_cpu tk) @ [t])) W \<and>
    cpu_frame (t_cpu tk) s s' \<and> sc_cpus s' (t_cpu tk) = Some c' \<and> cpu_current c' = cpu_current c"
proof -
  let ?p = "t_cpu tk"
  have base: "sched_base s Q W" and st: "states_ok (ts_tasks s) (sc_cpus s) (sc_waits s) Q W" and q: "queues_ok s Q W"
    using sched_invD(1) [OF inv] by simp_all
  have nb: "t_state tk \<noteq> TASK_BLOCKED" "t_state tk \<noteq> TASK_RUNNING" using t(2) by auto
  have wait: "t_waiting_on tk = nullptr" using states_okD(2) [OF st t(1)] nb by (simp add: task_ok_def)
  have p: "?p \<noteq> nullptr" using states_okD(1) [OF st c] by (simp add: cpu_ok_def)
  obtain rq' h' s' where e: "cpu_enqueue ?p t (set_task t (tk\<lparr>t_state := TASK_READY\<rparr>) s) = Inr s'"
    "s' = set_cpu ?p (c\<lparr>cpu_runnable_tasks := rq'\<rparr>)
      ((set_task t (tk\<lparr>t_state := TASK_READY\<rparr>) s)\<lparr>ts_nodes := h', ts_core := irq_cycle (ts_core s)\<rparr>)"
    "sched_base s' (Q(?p := Q ?p @ [t])) W"
    using cpu_enqueue_base [OF base c t(1) refl nb(1) out(1,3)] by blast
  have clear: "set_task t (tk\<lparr>t_waiting_on := nullptr, t_state := TASK_READY\<rparr>) (set_task t (tk\<lparr>t_waiting_on := nullptr\<rparr>) s) =
      set_task t (tk\<lparr>t_state := TASK_READY\<rparr>) s"
    using wait by (cases tk) (simp add: set_task_def)
  have run: "scheduler_enqueue t s = Inr s'"
    using t(1) nb wait p e(1) clear by (simp add: scheduler_enqueue_def Let_def update_task_def task_at_def)
  have "same_cpu c (c\<lparr>cpu_runnable_tasks := rq'\<rparr>)" by (simp add: same_cpu_def)
  then have fr: "cpu_frame ?p s s'"
    using c t(1) pop_push_cycle(2) [OF queues_okD(3) [OF q]]
    by (auto simp: e(2) cpu_frame_def same_task_def option.rel_refl)
  have "current_ok (ts_tasks s') p' c'" if "sc_cpus s' p' = Some c'" for p' c'
  proof (cases "p' = ?p")
    case True
    then show ?thesis using sched_invD(2) [OF inv c] that out(2) by (auto simp: current_ok_def e(2))
  next
    case False
    then show ?thesis using sched_invD(2) [OF inv] that by (intro current_ok_frame [OF fr False]) (simp add: e(2))
  qed
  moreover have "\<exists>c. sc_cpus s' (this_cpu (ts_core s')) = Some c \<and> cpu_online c"
    using cpu_frame_this [OF fr] inv c unfolding sched_inv_def e(2) by fastforce
  ultimately have "sched_inv s' (Q(?p := Q ?p @ [t])) W" using e(3) unfolding sched_inv_def by blast
  then show ?thesis using run fr by (intro exI [of _ s'] exI [of _ "c\<lparr>cpu_runnable_tasks := rq'\<rparr>"]) (simp add: e(2))
qed

lemma scheduler_dequeue_spec:
  assumes inv: "sched_inv s Q W" and c: "sc_cpus s p = Some c" and Q: "Q p = as @ t # bs"
  shows "\<exists>s'. scheduler_dequeue t s = Inr s' \<and> sched_inv s' (Q(p := as @ bs)) W \<and> cpu_frame p s s'"
proof -
  have base: "sched_base s Q W" and st: "states_ok (ts_tasks s) (sc_cpus s) (sc_waits s) Q W" and q: "queues_ok s Q W"
    using sched_invD(1) [OF inv] by simp_all
  obtain tk where tk: "ts_tasks s t = Some tk" "t_state tk = TASK_READY" "t_cpu tk = p"
    using queued_task(1) [OF st c, of t] Q by auto
  have wait: "t_waiting_on tk = nullptr" using states_okD(2) [OF st tk(1)] tk(2) by (simp add: task_ok_def)
  have p: "p \<noteq> nullptr" using states_okD(1) [OF st c] by (simp add: cpu_ok_def)
  have rep: "rq_rep (cpu_runnable_tasks c) (ts_nodes s) (as @ t # bs)" using queues_okD(4) [OF q c] Q by simp
  obtain rq' h' where r: "runqueue_remove (cpu_runnable_tasks c) t s = Inr (rq', s\<lparr>ts_nodes := h', ts_core := irq_cycle (ts_core s)\<rparr>)"
    "rq_rep rq' h' (as @ bs)" "only_nodes (node_set runnable_node (as @ t # bs)) (ts_nodes s) h'"
    using runqueue_remove_spec [OF rep queues_okD(3) [OF q]] by blast
  let ?s = "set_cpu p (c\<lparr>cpu_runnable_tasks := rq'\<rparr>) (s\<lparr>ts_nodes := h', ts_core := irq_cycle (ts_core s)\<rparr>)"
  have us: "set (as @ t # bs) \<subseteq> dom (ts_tasks s)" using queues_in_store(1) [OF st c] unfolding Q .
  have dis: "set (Q p') \<inter> set (as @ t # bs) = {}" if "sc_cpus s p' = Some c'" "p' \<noteq> p" for p' c'
    using queues_disjoint(1) [OF st that(1) c that(2)] unfolding Q .
  have run: "scheduler_dequeue t s = Inr ?s" using tk wait p c r(1) by (simp add: scheduler_dequeue_def cpu_remove_def)
  have "sched_base ?s (Q(p := as @ bs)) W"
    using queues_ok_runqueue [OF base c us dis r(3,2)] states_ok_shrink [OF st c, of "as @ bs" rq'] Q by auto
  moreover have "current_ok (ts_tasks ?s) p' c'" if "sc_cpus ?s p' = Some c'" for p' c'
    using sched_invD(2) [OF inv] c that by (cases "p' = p") (auto simp: current_ok_def)
  moreover have fr: "cpu_frame p s ?s"
    using c pop_push_cycle(2) [OF queues_okD(3) [OF q]] by (auto simp: cpu_frame_def same_cpu_def option.rel_refl)
  moreover have "\<exists>c. sc_cpus ?s (this_cpu (ts_core ?s)) = Some c \<and> cpu_online c"
    using cpu_frame_this [OF fr] inv c unfolding sched_inv_def by fastforce
  ultimately show ?thesis using run unfolding sched_inv_def by blast
qed

section \<open>Waking\<close>

lemma wait_dequeue_spec:
  assumes inv: "sched_inv s Q W" and w: "sc_waits s w = Some q"
  shows "W w = [] \<Longrightarrow> wait_dequeue w s = Inr (nullptr, set_wait w q (s\<lparr>ts_core := irq_cycle (ts_core s)\<rparr>))"
    and "W w = t # ts \<Longrightarrow> \<exists>s' tk. wait_dequeue w s = Inr (t, s') \<and> ts_tasks s' t = Some tk \<and> t_state tk = TASK_BLOCKED \<and>
      t_waiting_on tk = nullptr \<and> t_cpu tk \<noteq> nullptr \<and> t \<noteq> nullptr"
proof -
  have st: "states_ok (ts_tasks s) (sc_cpus s) (sc_waits s) Q W" and qo: "queues_ok s Q W"
    using sched_invD(1) [OF inv] by simp_all
  have rep: "wq_rep q (ts_nodes s) (W w)" using queues_okD(5) [OF qo w] by blast
  show "wait_dequeue w s = Inr (nullptr, set_wait w q (s\<lparr>ts_core := irq_cycle (ts_core s)\<rparr>))" if "W w = []"
    using waitqueue_dequeue_empty [OF rep [unfolded that] queues_okD(3) [OF qo]] w by (simp add: wait_dequeue_def)
  show "\<exists>s' tk. wait_dequeue w s = Inr (t, s') \<and> ts_tasks s' t = Some tk \<and> t_state tk = TASK_BLOCKED \<and>
      t_waiting_on tk = nullptr \<and> t_cpu tk \<noteq> nullptr \<and> t \<noteq> nullptr" if W: "W w = t # ts"
  proof -
    obtain tk where tk: "ts_tasks s t = Some tk" "t_state tk = TASK_BLOCKED" using states_okD(3) [OF st w, of t] W by auto
    then have "t_cpu tk \<noteq> nullptr" using states_okD(2) [OF st tk(1)] by (simp add: task_ok_def)
    with waitqueue_dequeue_spec [OF rep [unfolded W] queues_okD(3) [OF qo] tk(1)] tk w null_no_task [OF qo] show ?thesis
      by (auto simp: wait_dequeue_def)
  qed
qed

lemma wake_panics:
  assumes inv: "sched_inv s Q W" and w: "sc_waits s w = Some q" and W: "W w = t # ts"
  shows "scheduler_wake_one w s = Inl (Panic ''cannot enqueue a blocked task'')"
    and "scheduler_wake_all w s = Some (Inl (Panic ''cannot enqueue a blocked task''))"
proof -
  obtain s' tk where d: "wait_dequeue w s = Inr (t, s')" "ts_tasks s' t = Some tk" "t_state tk = TASK_BLOCKED"
    "t_waiting_on tk = nullptr" "t_cpu tk \<noteq> nullptr" "t \<noteq> nullptr"
    using wait_dequeue_spec(2) [OF inv w W] by blast
  then have "scheduler_enqueue t s' = Inl (Panic ''cannot enqueue a blocked task'')" by (simp add: scheduler_enqueue_def)
  with d show "scheduler_wake_one w s = Inl (Panic ''cannot enqueue a blocked task'')"
    "scheduler_wake_all w s = Some (Inl (Panic ''cannot enqueue a blocked task''))"
    by (simp_all add: scheduler_wake_one_def scheduler_wake_all.simps)
qed

lemma wake_empty:
  assumes inv: "sched_inv s Q W" and w: "sc_waits s w = Some q" and W: "W w = []"
  shows "scheduler_wake_one w s = Inr (s\<lparr>ts_core := irq_cycle (ts_core s)\<rparr>)"
    and "scheduler_wake_all w s = Some (Inr (s\<lparr>ts_core := irq_cycle (ts_core s)\<rparr>))"
proof -
  have "set_wait w q (s\<lparr>ts_core := irq_cycle (ts_core s)\<rparr>) = s\<lparr>ts_core := irq_cycle (ts_core s)\<rparr>"
    using w by (simp add: set_wait_def fun_upd_idem)
  with wait_dequeue_spec(1) [OF inv w W] show "scheduler_wake_one w s = Inr (s\<lparr>ts_core := irq_cycle (ts_core s)\<rparr>)"
    "scheduler_wake_all w s = Some (Inr (s\<lparr>ts_core := irq_cycle (ts_core s)\<rparr>))"
    by (simp_all add: scheduler_wake_one_def scheduler_wake_all.simps)
qed

end
