(* ===== verification/Scheduling.thy ===== *)
theory Scheduling
  imports Scheduler
begin

text \<open>
  The behaviour of the scheduler over time and over cpus: any sequence of scheduling events on a
  cpu serves its run queue in order, so that no task waits for ever, and new tasks go to an
  online cpu with the fewest queued tasks.  The theory ends with the properties of the scheduler
  and a concrete machine on which they are applied.
\<close>

section \<open>Sequences of scheduling events\<close>

text \<open>What the task that runs on a cpu can do to give the cpu away.\<close>

datatype cpu_event = Yield | Block ptr | Exit

definition cpu_event_step :: "cpu_event \<Rightarrow> 'a sched_scheme \<Rightarrow> kerror + 'a sched_scheme" where
  "cpu_event_step ev s = (case ev of
     Yield \<Rightarrow> yield s
   | Block w \<Rightarrow> scheduler_block_current w s
   | Exit \<Rightarrow> bindE (cpu_at (this_cpu (ts_core s)) s) (\<lambda>c. task_exit (cpu_current c) s))"

definition waits_exist :: "'a sched_scheme \<Rightarrow> cpu_event \<Rightarrow> bool" where
  "waits_exist s ev \<longleftrightarrow> (\<forall>w. ev = Block w \<longrightarrow> w \<in> dom (sc_waits s))"

lemma cpu_event_spec:
  assumes inv: "sched_inv s Q W" and cpu: "p = this_cpu (ts_core s)" and c: "sc_cpus s p = Some c"
    and ev: "waits_exist s ev" "ev = Yield \<or> still_runs s c"
  shows "\<exists>s' c' r W'. cpu_event_step ev s = Inr s' \<and> sched_inv s' (Q(p := tl (Q p @ r))) W' \<and>
    sc_cpus s' p = Some c' \<and> cpu_current c' = first_of (Q p @ r) (cpu_idle c) \<and> cpu_idle c' = cpu_idle c \<and>
    this_cpu (ts_core s') = p \<and> dom (sc_waits s') = dom (sc_waits s) \<and>
    map_option t_state (ts_tasks s' (cpu_current c')) = Some TASK_RUNNING"
proof (cases ev)
  case Yield
  from scheduler_switch_spec [OF inv cpu c] obtain s' c' where
    s': "scheduler_switch s = Inr s'" "sched_inv s' (Q(p := tl (requeued s Q p c))) W" "sc_cpus s' p = Some c'"
      "cpu_current c' = first_of (requeued s Q p c) (cpu_idle c)" "cpu_frame p s s'"
      "map_option t_state (ts_tasks s' (cpu_current c')) = Some TASK_RUNNING" by blast
  let ?r = "if still_runs s c then [cpu_current c] else []"
  have "cpu_idle c' = cpu_idle c" using cpu_frame_cpu [OF s'(5) c] s'(3) by (auto simp: same_cpu_def)
  moreover have "dom (sc_waits s') = dom (sc_waits s)" using s'(5) by (simp add: cpu_frame_def)
  ultimately show ?thesis
    using s' Yield cpu cpu_frame_this [OF s'(5)]
    by (intro exI [of _ s'] exI [of _ c'] exI [of _ ?r] exI [of _ W]) (simp add: cpu_event_step_def yield_def requeued_def)
next
  case (Block w)
  then obtain q where w: "sc_waits s w = Some q" and run: "still_runs s c" using ev by (auto simp: waits_exist_def)
  from scheduler_block_spec [OF inv cpu c run w] obtain s' c' where
    s': "scheduler_block_current w s = Inr s'" "sched_inv s' (Q(p := tl (Q p))) (W(w := W w @ [cpu_current c]))"
      "sc_cpus s' p = Some c'" "same_cpu c c'" "cpu_current c' = first_of (Q p) (cpu_idle c)"
      "dom (sc_waits s') = dom (sc_waits s)" "irq_view (ts_core s') = irq_view (ts_core s)"
      "map_option t_state (ts_tasks s' (cpu_current c')) = Some TASK_RUNNING" by blast
  then show ?thesis
    using Block cpu by (intro exI [of _ s'] exI [of _ c'] exI [of _ "[]"] exI [of _ "W(w := W w @ [cpu_current c])"])
      (simp add: cpu_event_step_def same_cpu_def irq_view_def)
next
  case Exit
  then have run: "still_runs s c" using ev by simp
  from task_exit_spec [OF inv cpu c run] obtain s' c' where
    s': "task_exit (cpu_current c) s = Inr s'" "sched_inv s' (Q(p := tl (Q p))) W" "sc_cpus s' p = Some c'" "cpu_frame p s s'"
      "cpu_current c' = first_of (Q p) (cpu_idle c)" "map_option t_state (ts_tasks s' (cpu_current c')) = Some TASK_RUNNING" by blast
  have "cpu_idle c' = cpu_idle c" using cpu_frame_cpu [OF s'(4) c] s'(3) by (auto simp: same_cpu_def)
  moreover have "dom (sc_waits s') = dom (sc_waits s)" using s'(4) by (simp add: cpu_frame_def)
  ultimately show ?thesis
    using s' Exit cpu c cpu_frame_this [OF s'(4)]
    by (intro exI [of _ s'] exI [of _ c'] exI [of _ "[]"] exI [of _ W]) (simp add: cpu_event_step_def)
qed

text \<open>A task with \<open>length ts\<close> predecessors in the queue runs after one event more.\<close>

lemma queue_served:
  assumes "sched_inv s Q W" and "p = this_cpu (ts_core s)" and "sc_cpus s p = Some c" and "Q p = ts @ t # us"
    and "length evs = length ts" and "\<forall>ev \<in> set (e # evs). waits_exist s ev" and "e = Yield \<or> still_runs s c"
  shows "\<exists>s' c' Q' W'. forE (e # evs) cpu_event_step s = Inr s' \<and> sched_inv s' Q' W' \<and> sc_cpus s' p = Some c' \<and>
    cpu_current c' = t \<and> map_option t_state (ts_tasks s' t) = Some TASK_RUNNING"
  using assms
proof (induction ts arbitrary: s Q W c e evs us)
  case Nil
  then obtain s' c' r W' where "cpu_event_step e s = Inr s'" "sched_inv s' (Q(p := tl (Q p @ r))) W'" "sc_cpus s' p = Some c'"
    "cpu_current c' = first_of (Q p @ r) (cpu_idle c)" "map_option t_state (ts_tasks s' (cpu_current c')) = Some TASK_RUNNING"
    using cpu_event_spec [OF Nil.prems(1-3), of e] by auto
  with Nil.prems(4,5) show ?case by auto
next
  case (Cons x xs)
  have we: "waits_exist s e" using Cons.prems(6) by simp
  obtain s' c' r W' where s': "cpu_event_step e s = Inr s'" "sched_inv s' (Q(p := tl (Q p @ r))) W'" "sc_cpus s' p = Some c'"
    "cpu_current c' = first_of (Q p @ r) (cpu_idle c)" "cpu_idle c' = cpu_idle c" "this_cpu (ts_core s') = p"
    "dom (sc_waits s') = dom (sc_waits s)" "map_option t_state (ts_tasks s' (cpu_current c')) = Some TASK_RUNNING"
    using cpu_event_spec [OF Cons.prems(1-3) we Cons.prems(7)] by (elim exE conjE) (rule that; assumption)
  obtain e' evs' where evs: "evs = e' # evs'" using Cons.prems(5) by (cases evs) auto
  have x: "cpu_current c' = x" using s'(4) Cons.prems(4) by simp
  have "x \<noteq> cpu_idle c"
    using queued_task(2) [OF conjunct2 [OF sched_invD(1) [OF Cons.prems(1)]] Cons.prems(3), of x] Cons.prems(4) by simp
  then have run: "still_runs s' c'" using s'(5,8) x by (auto simp: still_runs_def)
  have Q': "(Q(p := tl (Q p @ r))) p = xs @ t # us @ r" using Cons.prems(4) by simp
  have "\<forall>ev \<in> set (e' # evs'). waits_exist s' ev" using Cons.prems(6) evs s'(7) by (simp add: waits_exist_def)
  from Cons.IH [OF s'(2) s'(6) [symmetric] s'(3) Q' _ this disjI2 [OF run]] Cons.prems(5) evs s'(1)
  show ?case by simp
qed

section \<open>The choice of a cpu\<close>

lemma tasks_apart_card:
  assumes "tasks_apart D"
  shows "finite D" and "card D \<le> 2 ^ 57"
proof -
  show fin: "finite D" by (rule finite_subset [OF subset_UNIV]) simp
  have "inj_on (\<lambda>t. unat t div 216) D"
  proof (rule inj_onI)
    fix t u assume D: "t \<in> D" "u \<in> D" and eq: "unat t div 216 = unat u div 216"
    have "unat t < unat u + 216" "unat u < unat t + 216"
      using eq div_mult_mod_eq [of "unat t" 216] div_mult_mod_eq [of "unat u" 216]
        mod_less_divisor [of 216 "unat t"] mod_less_divisor [of 216 "unat u"] by linarith+
    moreover have "t \<noteq> u \<Longrightarrow> unat t + 216 \<le> unat u \<or> unat u + 216 \<le> unat t" using assms D unfolding tasks_apart_def by blast
    ultimately show "t = u" by fastforce
  qed
  moreover have "(\<lambda>t. unat t div 216) ` D \<subseteq> {..<2 ^ 57}"
  proof (clarsimp)
    fix t assume "t \<in> D"
    show "unat t div 216 < 144115188075855872" using unat_lt_u64 [of t] by (simp add: div_less_iff_less_mult)
  qed
  ultimately show "card D \<le> 2 ^ 57" using card_inj_on_le [of _ D "{..<2 ^ 57 :: nat}"] by simp
qed

lemma queue_short:
  assumes inv: "sched_inv s Q W" and c: "sc_cpus s p = Some c"
  shows "length (Q p) \<le> 2 ^ 57" and "unat (runqueue_count (cpu_runnable_tasks c)) = length (Q p)"
proof -
  have st: "states_ok (ts_tasks s) (sc_cpus s) (sc_waits s) Q W" and q: "queues_ok s Q W"
    using sched_invD(1) [OF inv] by simp_all
  have ap: "tasks_apart (dom (ts_tasks s))" using queues_okD(1) [OF q] by (simp add: store_ok_def)
  have rep: "rq_rep (cpu_runnable_tasks c) (ts_nodes s) (Q p)" by (rule queues_okD(4) [OF q c])
  then have "distinct (Q p)" using list_rep_distinct by (auto simp: rq_rep_def)
  then have "length (Q p) = card (set (Q p))" by (simp add: distinct_card)
  also have "\<dots> \<le> card (dom (ts_tasks s))" by (rule card_mono [OF tasks_apart_card(1) [OF ap] queues_in_store(1) [OF st c]])
  finally show "length (Q p) \<le> 2 ^ 57" using tasks_apart_card(2) [OF ap] by simp
  show "unat (runqueue_count (cpu_runnable_tasks c)) = length (Q p)" by (rule runqueue_observers(2) [OF rep])
qed

lemma pick_cpu_loop:
  assumes "\<forall>i \<in> set is. cpu_slot s i \<noteq> nullptr \<and> cpu_slot s i \<in> dom (sc_cpus s)"
  shows "\<exists>b' n'. forE is pick_cpu_step (b, n, s) = Inr (b', n', s) \<and> n' \<le> n \<and>
    (\<forall>i \<in> set is. \<forall>c. sc_cpus s (cpu_slot s i) = Some c \<longrightarrow> cpu_online c \<longrightarrow> n' \<le> runqueue_count (cpu_runnable_tasks c)) \<and>
    (b' = b \<and> n' = n \<or> (\<exists>i \<in> set is. \<exists>c. b' = cpu_slot s i \<and> sc_cpus s b' = Some c \<and> cpu_online c \<and>
       n' = runqueue_count (cpu_runnable_tasks c)))"
  using assms
proof (induction "is" arbitrary: b n)
  case Nil
  then show ?case by simp
next
  case (Cons i "is")
  obtain c where c: "sc_cpus s (cpu_slot s i) = Some c" "cpu_slot s i \<noteq> nullptr" using Cons.prems by auto
  let ?take = "cpu_online c \<and> runqueue_count (cpu_runnable_tasks c) < n"
  let ?b = "if ?take then cpu_slot s i else b" and ?n = "if ?take then runqueue_count (cpu_runnable_tasks c) else n"
  have step: "pick_cpu_step i (b, n, s) = Inr (?b, ?n, s)" using c by (simp add: pick_cpu_step_def Let_def)
  obtain b' n' where r: "forE is pick_cpu_step (?b, ?n, s) = Inr (b', n', s)" "n' \<le> ?n"
    "\<forall>i \<in> set is. \<forall>c. sc_cpus s (cpu_slot s i) = Some c \<longrightarrow> cpu_online c \<longrightarrow> n' \<le> runqueue_count (cpu_runnable_tasks c)"
    "b' = ?b \<and> n' = ?n \<or> (\<exists>i \<in> set is. \<exists>c. b' = cpu_slot s i \<and> sc_cpus s b' = Some c \<and> cpu_online c \<and>
       n' = runqueue_count (cpu_runnable_tasks c))"
    using Cons.IH [of ?b ?n] Cons.prems by auto
  have le: "n' \<le> n" "cpu_online c \<Longrightarrow> n' \<le> runqueue_count (cpu_runnable_tasks c)"
    using r(2) by (auto split: if_splits)
  have "b' = b \<and> n' = n \<or> (\<exists>i \<in> set (i # is). \<exists>c. b' = cpu_slot s i \<and> sc_cpus s b' = Some c \<and> cpu_online c \<and>
       n' = runqueue_count (cpu_runnable_tasks c))"
    using r(4) c by (cases ?take) auto
  then show ?case using step r(1,3) le c by (intro exI [of _ b'] exI [of _ n']) simp
qed

text \<open>The static array \<open>CPUS\<close>: the \<open>Cpu\<close> objects are its slots.\<close>

definition cpu_array :: "'a sched_scheme \<Rightarrow> bool" where
  "cpu_array s \<longleftrightarrow> dom (sc_cpus s) = cpu_slot s ` set (word_range 0 CONFIG_MAX_CPU_COUNT)"

lemma scheduler_pick_cpu_spec:
  assumes inv: "sched_inv s Q W" and arr: "cpu_array s"
  shows "\<exists>p c. scheduler_pick_cpu s = Inr p \<and> sc_cpus s p = Some c \<and> cpu_online c \<and>
    (\<forall>p' c'. sc_cpus s p' = Some c' \<longrightarrow> cpu_online c' \<longrightarrow> length (Q p) \<le> length (Q p'))"
proof -
  let ?is = "word_range 0 CONFIG_MAX_CPU_COUNT"
  have st: "states_ok (ts_tasks s) (sc_cpus s) (sc_waits s) Q W" using sched_invD(1) [OF inv] by simp
  have nn: "p \<noteq> nullptr" if "sc_cpus s p = Some c" for p c using states_okD(1) [OF st that] by (simp add: cpu_ok_def)
  have slots: "\<forall>i \<in> set ?is. cpu_slot s i \<noteq> nullptr \<and> cpu_slot s i \<in> dom (sc_cpus s)"
    using arr nn by (auto simp: cpu_array_def set_eq_iff)
  obtain b n where l: "forE ?is pick_cpu_step (nullptr, INT64_MAX, s) = Inr (b, n, s)" "n \<le> INT64_MAX"
    "\<forall>i \<in> set ?is. \<forall>c. sc_cpus s (cpu_slot s i) = Some c \<longrightarrow> cpu_online c \<longrightarrow> n \<le> runqueue_count (cpu_runnable_tasks c)"
    "b = nullptr \<and> n = INT64_MAX \<or> (\<exists>i \<in> set ?is. \<exists>c. b = cpu_slot s i \<and> sc_cpus s b = Some c \<and> cpu_online c \<and>
       n = runqueue_count (cpu_runnable_tasks c))"
    using pick_cpu_loop [OF slots] by blast
  have best: "unat n \<le> length (Q p')" if p': "sc_cpus s p' = Some c'" "cpu_online c'" for p' c'
  proof -
    obtain i where i: "i \<in> set ?is" "p' = cpu_slot s i" using arr p'(1) unfolding cpu_array_def by blast
    then have "n \<le> runqueue_count (cpu_runnable_tasks c')" using l(3) p' by blast
    then show ?thesis using queue_short(2) [OF inv p'(1)] by (simp add: word_le_nat_alt)
  qed
  obtain c0 where c0: "sc_cpus s (this_cpu (ts_core s)) = Some c0" "cpu_online c0" using inv by (auto simp: sched_inv_def)
  have "n \<noteq> INT64_MAX" using best [OF c0] queue_short(1) [OF inv c0(1)] by (auto simp: INT64_MAX_def)
  then obtain c where c: "sc_cpus s b = Some c" "cpu_online c" "n = runqueue_count (cpu_runnable_tasks c)" using l(4) by auto
  have "scheduler_pick_cpu s = Inr b" using l(1) nn [OF c(1)] by (simp add: scheduler_pick_cpu_def)
  moreover have "unat n = length (Q b)" using queue_short(2) [OF inv c(1)] c(3) by simp
  ultimately show ?thesis using c best by fastforce
qed

section \<open>All operations, on all cpus\<close>

text \<open>
  The scheduler as a transition system.  In each step one cpu performs one operation; \<open>st_cpu\<close>
  lets another online cpu go on, with its own registers.  A task that is put into or taken out
  of a run queue from outside has to be outside or inside, which callers keep track of.
\<close>

definition queued :: "'a sched_scheme \<Rightarrow> ptr \<Rightarrow> bool" where
  "queued s t \<longleftrightarrow> (\<forall>Q W. sched_inv s Q W \<longrightarrow> (\<exists>p c. sc_cpus s p = Some c \<and> t \<in> set (Q p)))"

definition unqueued :: "'a sched_scheme \<Rightarrow> ptr \<Rightarrow> bool" where
  "unqueued s t \<longleftrightarrow> (\<exists>tk c. ts_tasks s t = Some tk \<and> sc_cpus s (t_cpu tk) = Some c \<and> t \<noteq> cpu_idle c \<and> t \<noteq> cpu_current c) \<and>
     (\<forall>Q W p c. sched_inv s Q W \<longrightarrow> sc_cpus s p = Some c \<longrightarrow> t \<notin> set (Q p))"

inductive sched_step :: "'a sched_scheme \<Rightarrow> 'a sched_scheme \<Rightarrow> bool" where
  st_yield: "yield s = Inr s' \<Longrightarrow> sched_step s s'"
| st_block: "scheduler_block_current w s = Inr s' \<Longrightarrow> sched_step s s'"
| st_exit: "sc_cpus s (this_cpu (ts_core s)) = Some c \<Longrightarrow> still_runs s c \<Longrightarrow> task_exit (cpu_current c) s = Inr s' \<Longrightarrow>
    sched_step s s'"
| st_enqueue: "unqueued s t \<Longrightarrow> scheduler_enqueue t s = Inr s' \<Longrightarrow> sched_step s s'"
| st_dequeue: "queued s t \<Longrightarrow> scheduler_dequeue t s = Inr s' \<Longrightarrow> sched_step s s'"
| st_wake_one: "w \<in> dom (sc_waits s) \<Longrightarrow> scheduler_wake_one w s = Inr s' \<Longrightarrow> sched_step s s'"
| st_wake_all: "w \<in> dom (sc_waits s) \<Longrightarrow> scheduler_wake_all w s = Some (Inr s') \<Longrightarrow> sched_step s s'"
| st_cpu: "core_ok (Suc (Suc 0)) k \<Longrightarrow> sc_cpus s (this_cpu k) = Some c \<Longrightarrow> cpu_online c \<Longrightarrow>
    sched_step s (s\<lparr>ts_core := k, sc_regs := r\<rparr>)"

lemma sched_inv_core:
  assumes "sched_inv s Q W" and "core_ok (Suc (Suc 0)) k" and "sc_cpus s (this_cpu k) = Some c" and "cpu_online c"
  shows "sched_inv (s\<lparr>ts_core := k, sc_regs := r\<rparr>) Q W"
  using assms by (simp add: sched_inv_def queues_ok_def store_ok_def)

lemma block_returns:
  assumes "scheduler_block_current w s = Inr s'" and "sc_cpus s (this_cpu (ts_core s)) = Some c"
  shows "still_runs s c" and "w \<in> dom (sc_waits s)"
proof -
  have r: "cpu_current c \<noteq> cpu_idle c" "\<exists>t. task_at (cpu_current c) s = Inr t \<and> t_state t = TASK_RUNNING"
    using assms by (auto simp: scheduler_block_current_def Let_def bind_rules)
  then show "still_runs s c" by (auto simp: still_runs_def task_at_def split: option.splits)
  show "w \<in> dom (sc_waits s)"
    using assms by (auto simp: scheduler_block_current_def Let_def bind_rules wait_enqueue_def wait_at_def update_task_def split: option.splits)
qed

lemma wake_returns:
  assumes inv: "sched_inv s Q W" and w: "w \<in> dom (sc_waits s)"
    and r: "scheduler_wake_one w s = Inr s' \<or> scheduler_wake_all w s = Some (Inr s')"
  shows "sched_inv s' Q W"
proof -
  obtain q where q: "sc_waits s w = Some q" using w by blast
  have st: "states_ok (ts_tasks s) (sc_cpus s) (sc_waits s) Q W" and qo: "queues_ok s Q W" using sched_invD(1) [OF inv] by simp_all
  have "W w = []"
  proof (cases "W w")
    case (Cons t ts)
    obtain s1 tk where d: "wait_dequeue w s = Inr (t, s1)" "ts_tasks s1 t = Some tk" "t_state tk = TASK_BLOCKED" "t \<noteq> nullptr"
      using wait_dequeue_spec(2) [OF inv q Cons] by blast
    then have "\<exists>e. scheduler_enqueue t s1 = Inl e" by (cases "t_cpu tk = nullptr") (simp_all add: scheduler_enqueue_def)
    then obtain e where e: "scheduler_enqueue t s1 = Inl e" by blast
    have "scheduler_wake_one w s \<noteq> Inr s'" using d e by (auto simp: scheduler_wake_one_def bind_rules)
    moreover have "scheduler_wake_all w s \<noteq> Some (Inr s')"
      using d e by (cases "t_waiting_on tk = nullptr \<or> t_waiting_on tk = w") (simp_all add: scheduler_wake_all.simps)
    ultimately show ?thesis using r by blast
  qed
  then have s': "s' = s\<lparr>ts_core := irq_cycle (ts_core s)\<rparr>" using wake_empty [OF inv q] r by auto
  obtain c where c: "sc_cpus s (this_cpu (ts_core s)) = Some c" "cpu_online c" using inv by (auto simp: sched_inv_def)
  have "this_cpu (irq_cycle (ts_core s)) = this_cpu (ts_core s)"
    using pop_push_cycle(2) [OF queues_okD(3) [OF qo]] by (simp add: irq_view_def)
  then show ?thesis
    using sched_inv_core [OF inv core_cycle_ok [OF qo], of c "sc_regs s"] c unfolding s' by simp
qed

lemma sched_step_inv:
  assumes "sched_step s s'" and "sched_inv s Q W"
  shows "\<exists>Q' W'. sched_inv s' Q' W'"
  using assms
proof (induction arbitrary: Q W rule: sched_step.induct)
  case (st_yield s s')
  obtain c where "sc_cpus s (this_cpu (ts_core s)) = Some c" using st_yield.prems by (auto simp: sched_inv_def)
  from scheduler_switch_spec [OF st_yield.prems refl this] st_yield.hyps show ?case by (auto simp: yield_def)
next
  case (st_block w s s')
  obtain c where c: "sc_cpus s (this_cpu (ts_core s)) = Some c" using st_block.prems by (auto simp: sched_inv_def)
  note b = block_returns [OF st_block.hyps c]
  obtain q where "sc_waits s w = Some q" using b(2) by blast
  from scheduler_block_spec [OF st_block.prems refl c b(1) this] st_block.hyps show ?case by auto
next
  case (st_exit s c s')
  from task_exit_spec [OF st_exit.prems refl st_exit.hyps(1,2)] st_exit.hyps(3) show ?case by auto
next
  case (st_enqueue s t s')
  obtain tk c where t: "ts_tasks s t = Some tk" "sc_cpus s (t_cpu tk) = Some c" "t \<noteq> cpu_idle c" "t \<noteq> cpu_current c"
    "t \<notin> set (Q (t_cpu tk))"
    using st_enqueue.hyps(1) st_enqueue.prems by (auto simp: unqueued_def)
  have "t_state tk \<noteq> TASK_RUNNING \<and> t_state tk \<noteq> TASK_BLOCKED"
    using st_enqueue.hyps(2) t(1) by (auto simp: scheduler_enqueue_def bind_rules)
  then have "t_state tk = TASK_READY \<or> t_state tk = TASK_DEAD" by (cases "t_state tk") auto
  from scheduler_enqueue_spec [OF st_enqueue.prems t(1) this t(2-5)] st_enqueue.hyps(2) show ?case by auto
next
  case (st_dequeue s t s')
  obtain p c where p: "sc_cpus s p = Some c" "t \<in> set (Q p)" using st_dequeue.hyps(1) st_dequeue.prems by (auto simp: queued_def)
  then obtain as bs where "Q p = as @ t # bs" by (auto simp: in_set_conv_decomp)
  from scheduler_dequeue_spec [OF st_dequeue.prems p(1) this] st_dequeue.hyps(2) show ?case by auto
next
  case (st_wake_one w s s')
  from wake_returns [OF st_wake_one.prems st_wake_one.hyps(1)] st_wake_one.hyps(2) show ?case by blast
next
  case (st_wake_all w s s')
  from wake_returns [OF st_wake_all.prems st_wake_all.hyps(1)] st_wake_all.hyps(2) show ?case by blast
next
  case (st_cpu k s c r)
  from sched_inv_core [OF st_cpu.prems st_cpu.hyps] show ?case by blast
qed

lemma sched_steps_inv:
  assumes "sched_step\<^sup>*\<^sup>* s s'" and "sched_inv s Q W"
  shows "\<exists>Q' W'. sched_inv s' Q' W'"
  using assms
proof (induction arbitrary: Q W rule: rtranclp_induct)
  case base
  then show ?case by blast
next
  case (step s1 s2)
  then show ?case using sched_step_inv by blast
qed

section \<open>A machine with one cpu, an idle task and two others\<close>

definition demo_task :: "string \<Rightarrow> u64 \<Rightarrow> task" where
  "demo_task name sp = \<lparr>t_tid = 1, t_name = name, t_cpu = 0x10000, t_stack = 0, t_context = zero_context\<lparr>cx_sp := sp\<rparr>,
     t_state = TASK_READY, t_waiting_on = 0, t_entry = 0, t_arg = 0\<rparr>"

definition demo_tasks :: "ptr \<rightharpoonup> task" where
  "demo_tasks = [0x20000 \<mapsto> demo_task ''idle'' 1, 0x30000 \<mapsto> demo_task ''a'' 2, 0x40000 \<mapsto> demo_task ''b'' 3]"

definition demo_nodes :: nodes where
  "demo_nodes = [0x20090 \<mapsto> detached, 0x200a0 \<mapsto> detached, 0x200b0 \<mapsto> detached,
     0x30090 \<mapsto> detached, 0x300a0 \<mapsto> \<lparr>n_next = 0x400a0, n_prev = 0\<rparr>, 0x300b0 \<mapsto> detached,
     0x40090 \<mapsto> detached, 0x400a0 \<mapsto> \<lparr>n_next = 0, n_prev = 0x300a0\<rparr>, 0x400b0 \<mapsto> detached]"

definition demo_queue :: run_queue where
  "demo_queue = \<lparr>rq_lock = spinlock_init ''Runnable Task'',
     rq_runnables = \<lparr>il_head = 0x300a0, il_tail = 0x400a0, il_count = 2\<rparr>\<rparr>"

definition offline_cpu :: cpu where
  "offline_cpu = \<lparr>cpu_online = False, cpu_cpuid = 0, cpu_timer = \<lparr>ct_ticks = 0, ct_resched_after = 0\<rparr>, cpu_current = 0,
     cpu_idle = 0, cpu_runnable_tasks = runqueue_init ''''\<rparr>"

definition demo_cpus :: "ptr \<rightharpoonup> cpu" where
  "demo_cpus = (\<lambda>p. if p = 0x10000 then Some (offline_cpu\<lparr>cpu_online := True, cpu_idle := 0x20000, cpu_runnable_tasks := demo_queue\<rparr>)
     else if p \<in> set (map (\<lambda>i. 0x10000 + i * sizeof_cpu) (word_range 0 CONFIG_MAX_CPU_COUNT)) then Some offline_cpu else None)"

definition demo_sched :: sched where
  "demo_sched = \<lparr>ts_tasks = demo_tasks, ts_nodes = demo_nodes,
     ts_core = \<lparr>this_cpu = 0x10000, daif = 0, irq_disable_depth = 0, irq_was_enabled = False\<rparr>,
     CPUS = 0x10000, sc_cpus = demo_cpus, sc_waits = [0x50000 \<mapsto> waitqueue_init ''wait''], sc_regs = zero_context\<rparr>"

abbreviation demo_Q :: queues where
  "demo_Q \<equiv> (\<lambda>_. [])(0x10000 := [0x30000, 0x40000])"

abbreviation demo_W :: queues where
  "demo_W \<equiv> (\<lambda>_. [])"

lemma demo_range: "word_range 0 CONFIG_MAX_CPU_COUNT = [0, 1, 2, 3, 4, 5, 6, 7]"
  by (simp add: word_range_def CONFIG_MAX_CPU_COUNT_def upt_rec)

lemma demo_cpu_cases: "demo_cpus p = Some c \<Longrightarrow> p \<noteq> 0x10000 \<Longrightarrow> c = offline_cpu \<and> p \<noteq> nullptr"
  by (auto simp: demo_cpus_def demo_range sizeof_cpu_def split: if_splits)

lemma demo_store: "store_ok demo_sched"
  by (auto simp: store_ok_def demo_sched_def demo_tasks_def demo_nodes_def tasks_apart_def node_offset_def node_offsets)

lemma demo_queues: "queues_ok demo_sched demo_Q demo_W"
proof -
  have "core_ok (Suc (Suc 0)) (ts_core demo_sched)" by (simp add: demo_sched_def core_ok_def)
  moreover have "rq_rep (cpu_runnable_tasks c) (ts_nodes demo_sched) (demo_Q p)" if c: "sc_cpus demo_sched p = Some c" for p c
  proof (cases "p = 0x10000")
    case True
    then have "cpu_runnable_tasks c = demo_queue" using c by (auto simp: demo_sched_def demo_cpus_def)
    then show ?thesis
      using True by (simp add: rq_rep_def demo_queue_def list_rep_def il_rep_def demo_sched_def demo_nodes_def node_offsets)
  next
    case False
    then have "c = offline_cpu" using demo_cpu_cases c by (simp add: demo_sched_def)
    then show ?thesis using False by (simp add: offline_cpu_def runqueue_init_rep)
  qed
  moreover have "w \<noteq> nullptr \<and> wq_rep q (ts_nodes demo_sched) (demo_W w)" if "sc_waits demo_sched w = Some q" for w q
    using that by (auto simp: demo_sched_def waitqueue_init_rep split: if_splits)
  ultimately show ?thesis using demo_store unfolding queues_ok_def by blast
qed

lemma demo_inv: "sched_inv demo_sched demo_Q demo_W"
proof -
  have "states_ok demo_tasks demo_cpus [0x50000 \<mapsto> waitqueue_init ''wait''] demo_Q demo_W"
  proof (rule states_okI)
    show "cpu_ok demo_tasks demo_Q p c" if "demo_cpus p = Some c" for p c
    proof (cases "p = 0x10000")
      case True
      then show ?thesis using that by (auto simp: cpu_ok_def demo_cpus_def demo_tasks_def demo_task_def)
    next
      case False
      then show ?thesis using demo_cpu_cases [OF that] by (simp add: cpu_ok_def offline_cpu_def)
    qed
    show "task_ok demo_cpus [0x50000 \<mapsto> waitqueue_init ''wait''] demo_W t tk" if "demo_tasks t = Some tk" for t tk
      using that by (auto simp: demo_tasks_def demo_task_def task_ok_def split: if_splits)
  qed simp
  moreover have "current_ok demo_tasks p c" if "demo_cpus p = Some c" for p c
    using that by (auto simp: current_ok_def demo_cpus_def offline_cpu_def split: if_splits)
  moreover have "\<exists>c. demo_cpus 0x10000 = Some c \<and> cpu_online c" by (simp add: demo_cpus_def)
  ultimately show ?thesis using demo_queues unfolding sched_inv_def by (simp add: demo_sched_def)
qed

lemma demo_this:
  "this_cpu (ts_core demo_sched) = 0x10000"
  "sc_cpus demo_sched 0x10000 = Some (offline_cpu\<lparr>cpu_online := True, cpu_idle := 0x20000, cpu_runnable_tasks := demo_queue\<rparr>)"
  "cpu_array demo_sched"
  by (auto simp: demo_sched_def demo_cpus_def cpu_array_def cpu_slot_def demo_range sizeof_cpu_def split: if_splits)

lemma demo_first_switch:
  "\<exists>s c. yield demo_sched = Inr s \<and> sc_cpus s 0x10000 = Some c \<and> cpu_current c = 0x30000 \<and> still_runs s c \<and>
     sched_inv s (demo_Q(0x10000 := [0x40000])) demo_W \<and> this_cpu (ts_core s) = 0x10000 \<and> sc_waits s = sc_waits demo_sched"
proof -
  let ?c = "offline_cpu\<lparr>cpu_online := True, cpu_idle := 0x20000, cpu_runnable_tasks := demo_queue\<rparr>"
  have q: "requeued demo_sched demo_Q 0x10000 ?c = [0x30000, 0x40000]"
    by (simp add: requeued_def still_runs_def offline_cpu_def demo_sched_def demo_tasks_def)
  obtain s c where s: "scheduler_switch demo_sched = Inr s" "sched_inv s (demo_Q(0x10000 := [0x40000])) demo_W"
    "sc_cpus s 0x10000 = Some c" "cpu_current c = 0x30000" "cpu_frame 0x10000 demo_sched s"
    "map_option t_state (ts_tasks s (cpu_current c)) = Some TASK_RUNNING"
    using scheduler_switch_spec [OF demo_inv demo_this(1) [symmetric] demo_this(2), unfolded q]
    by (auto simp del: map_option_eq_Some)
  have "cpu_idle c = 0x20000" using cpu_frame_cpu [OF s(5) demo_this(2)] s(3) by (auto simp: same_cpu_def)
  then have "still_runs s c" using s(4,6) by (auto simp: still_runs_def)
  moreover have "sc_waits s = sc_waits demo_sched" using s(5) by (simp add: cpu_frame_def)
  ultimately show ?thesis using s(1-4) cpu_frame_this [OF s(5)] demo_this(1) by (auto simp: yield_def)
qed

section \<open>Properties\<close>

text \<open>
  C2.  A scheduling step is a step of round robin.  A task that is still running goes to the end
  of the run queue of its cpu; then the first task of the queue, or the idle task if there is
  none, becomes the current one and runs.  Its registers are those it had when it last gave the
  cpu away, and the registers of the old task are saved in its context.  The invariant holds
  again, no other cpu and no task of another cpu changes, and none of the assertions fails.
\<close>

theorem scheduler_switch_round_robin:
  assumes "sched_inv s Q W" and "p = this_cpu (ts_core s)" and "sc_cpus s p = Some c"
  shows "\<exists>s' c'. scheduler_switch s = Inr s' \<and> sc_cpus s' p = Some c' \<and>
    sched_inv s' (Q(p := tl (requeued s Q p c))) W \<and> cpu_frame p s s' \<and>
    cpu_current c' = first_of (requeued s Q p c) (cpu_idle c) \<and>
    map_option t_state (ts_tasks s' (cpu_current c')) = Some TASK_RUNNING \<and>
    switched (cpu_current c) (cpu_current c') s s'"
  using scheduler_switch_spec [OF assms] by blast

theorem scheduler_switch_round_robin_witness:
  "\<exists>s' c'. scheduler_switch demo_sched = Inr s' \<and> sc_cpus s' 0x10000 = Some c' \<and> cpu_current c' = 0x30000 \<and>
     cx_sp (sc_regs s') = 2"
proof -
  obtain s' c' where s': "scheduler_switch demo_sched = Inr s'" "sc_cpus s' 0x10000 = Some c'" "cpu_current c' = 0x30000"
    "switched 0 0x30000 demo_sched s'"
    using scheduler_switch_round_robin [OF demo_inv demo_this(1) [symmetric] demo_this(2)]
    by (auto simp: requeued_def still_runs_def offline_cpu_def demo_sched_def demo_tasks_def)
  have "Some (zero_context\<lparr>cx_sp := 2\<rparr>) = Some (sc_regs s')"
    using s'(4) by (simp add: switched_def demo_sched_def demo_tasks_def demo_task_def)
  then have "sc_regs s' = zero_context\<lparr>cx_sp := 2\<rparr>" by simp
  then show ?thesis using s'(1-3) by (intro exI [of _ s'] exI [of _ c']) simp
qed

text \<open>
  C6.  No task starves.  A task with \<open>k\<close> predecessors in the run queue of a cpu is the running
  task of that cpu after any \<open>k + 1\<close> scheduling events: the task that runs now and each task that
  runs in between may yield, block on any wait queue or exit.  Only when no task runs on the cpu at
  the start (it is idle or has just come up) the first event is a yield.
\<close>

theorem queued_task_runs:
  assumes "sched_inv s Q W" and "p = this_cpu (ts_core s)" and "sc_cpus s p = Some c" and "k < length (Q p)"
    and "length evs = Suc k" and "\<forall>ev \<in> set evs. waits_exist s ev" and "\<not> still_runs s c \<longrightarrow> hd evs = Yield"
  shows "\<exists>s' c'. forE evs cpu_event_step s = Inr s' \<and> sc_cpus s' p = Some c' \<and> cpu_current c' = Q p ! k \<and>
    map_option t_state (ts_tasks s' (Q p ! k)) = Some TASK_RUNNING"
proof -
  have Q: "Q p = take k (Q p) @ Q p ! k # drop (Suc k) (Q p)" using assms(4) by (rule id_take_nth_drop)
  obtain e es where evs: "evs = e # es" using assms(5) by (cases evs) simp_all
  have "length es = length (take k (Q p))" "e = Yield \<or> still_runs s c" using assms(4,5,7) evs by auto
  then show ?thesis using queue_served [OF assms(1-3) Q, of es e] assms(6) unfolding evs by blast
qed

theorem queued_task_runs_witness:
  "\<exists>s c s' c'. yield demo_sched = Inr s \<and> sc_cpus s 0x10000 = Some c \<and> cpu_current c = 0x30000 \<and>
     forE [Block 0x50000] cpu_event_step s = Inr s' \<and> sc_cpus s' 0x10000 = Some c' \<and> cpu_current c' = 0x40000"
proof -
  obtain s c where s: "yield demo_sched = Inr s" "sc_cpus s 0x10000 = Some c" "cpu_current c = 0x30000" "still_runs s c"
    "sched_inv s (demo_Q(0x10000 := [0x40000])) demo_W" "this_cpu (ts_core s) = 0x10000" "sc_waits s = sc_waits demo_sched"
    using demo_first_switch by blast
  have "\<forall>ev \<in> set [Block 0x50000]. waits_exist s ev" using s(7) by (simp add: waits_exist_def demo_sched_def)
  from queued_task_runs [OF s(5) s(6) [symmetric] s(2) _ _ this, of 0] s(1-4) show ?thesis by auto
qed

text \<open>
  C7.  One cpu per task.  However the operations of the cpus follow each other, starting from a
  state that satisfies the invariant, no task is ever the current task of two cpus, a current
  task belongs to its cpu, and a task that runs is the current or the idle task of its cpu.
\<close>

theorem task_on_one_cpu:
  assumes "sched_inv s Q W" and "sched_step\<^sup>*\<^sup>* s s'" and "sc_cpus s' p = Some c" and "sc_cpus s' p' = Some c'"
    and "cpu_current c = t" and "t \<noteq> nullptr"
  shows "\<exists>tk. ts_tasks s' t = Some tk \<and> t_cpu tk = p \<and> (cpu_current c' = t \<longrightarrow> p' = p) \<and> t_state tk \<noteq> TASK_READY \<and>
    (\<forall>u uk. ts_tasks s' u = Some uk \<longrightarrow> t_state uk = TASK_RUNNING \<longrightarrow> t_cpu uk = p \<longrightarrow> u = t \<or> u = cpu_idle c)"
proof -
  obtain Q' W' where inv: "sched_inv s' Q' W'" using sched_steps_inv [OF assms(2,1)] by blast
  have st: "states_ok (ts_tasks s') (sc_cpus s') (sc_waits s') Q' W'" using sched_invD(1) [OF inv] by simp
  obtain tk where tk: "ts_tasks s' t = Some tk" "t_cpu tk = p" "t_state tk \<noteq> TASK_READY"
    using sched_invD(2) [OF inv assms(3)] assms(5,6) by (auto simp: current_ok_def)
  moreover have "p' = p" if "cpu_current c' = t"
    using sched_invD(2) [OF inv assms(4)] that assms(6) tk by (auto simp: current_ok_def)
  moreover have "u = t \<or> u = cpu_idle c" if "ts_tasks s' u = Some uk" "t_state uk = TASK_RUNNING" "t_cpu uk = p" for u uk
    using states_okD(2) [OF st that(1)] that(2,3) assms(3,5) by (auto simp: task_ok_def)
  ultimately show ?thesis by blast
qed

theorem task_on_one_cpu_witness:
  "\<exists>s' c tk. sched_step\<^sup>*\<^sup>* demo_sched s' \<and> sc_cpus s' 0x10000 = Some c \<and> cpu_current c = 0x30000 \<and>
     ts_tasks s' 0x30000 = Some tk \<and> t_cpu tk = 0x10000"
proof -
  obtain s' c' where s': "yield demo_sched = Inr s'" "sc_cpus s' 0x10000 = Some c'" "cpu_current c' = 0x30000"
    using demo_first_switch by blast
  have step: "sched_step\<^sup>*\<^sup>* demo_sched s'" using st_yield [OF s'(1)] by blast
  from task_on_one_cpu [OF demo_inv step s'(2,2,3)] s' step show ?thesis by auto
qed

text \<open>
  C25.  Waking a task panics.  \<open>scheduler_wake_one\<close> and \<open>scheduler_wake_all\<close> take the first task
  from the wait queue and hand it, still marked blocked, to \<open>scheduler_enqueue\<close>, which asserts
  that it is not blocked.  On every wait queue with a waiting task both functions panic; on an
  empty one they return at once.
\<close>

theorem scheduler_wake_panics:
  assumes "sched_inv s Q W" and "sc_waits s w = Some q"
  shows "scheduler_wake_one w s =
      (if W w = [] then Inr (s\<lparr>ts_core := irq_cycle (ts_core s)\<rparr>) else Inl (Panic ''cannot enqueue a blocked task'')) \<and>
    scheduler_wake_all w s =
      Some (if W w = [] then Inr (s\<lparr>ts_core := irq_cycle (ts_core s)\<rparr>) else Inl (Panic ''cannot enqueue a blocked task''))"
proof (cases "W w")
  case Nil
  then show ?thesis using wake_empty [OF assms(1,2)] by simp
next
  case (Cons t ts)
  then show ?thesis using wake_panics [OF assms(1,2) Cons] Cons by simp
qed

theorem scheduler_wake_panics_witness:
  "\<exists>s. bindE (yield demo_sched) (scheduler_block_current 0x50000) = Inr s \<and>
     scheduler_wake_one 0x50000 s = Inl (Panic ''cannot enqueue a blocked task'')"
proof -
  obtain s1 c1 where s1: "yield demo_sched = Inr s1" "sc_cpus s1 0x10000 = Some c1" "cpu_current c1 = 0x30000" "still_runs s1 c1"
    "sched_inv s1 (demo_Q(0x10000 := [0x40000])) demo_W" "this_cpu (ts_core s1) = 0x10000" "sc_waits s1 = sc_waits demo_sched"
    using demo_first_switch by blast
  have w1: "sc_waits s1 0x50000 = Some (waitqueue_init ''wait'')" using s1(7) by (simp add: demo_sched_def)
  obtain s2 Q2 where s2: "scheduler_block_current 0x50000 s1 = Inr s2"
    "sched_inv s2 Q2 (demo_W(0x50000 := [0x30000]))" "dom (sc_waits s2) = dom (sc_waits s1)"
    using scheduler_block_spec [OF s1(5) s1(6) [symmetric] s1(2,4) w1] s1(3) by auto
  obtain q where q: "sc_waits s2 0x50000 = Some q" using s2(3) w1 by blast
  show ?thesis using scheduler_wake_panics [OF s2(2) q] s1(1) s2(1) by auto
qed

text \<open>
  The cpu for a new task.  Over the array of cpus \<open>scheduler_pick_cpu\<close> returns an online
  cpu, and no online cpu has a shorter run queue.
\<close>

lemma scheduler_pick_cpu_least:
  assumes "sched_inv s Q W" and "cpu_array s"
  shows "\<exists>p c. scheduler_pick_cpu s = Inr p \<and> sc_cpus s p = Some c \<and> cpu_online c \<and>
    (\<forall>p' c'. sc_cpus s p' = Some c' \<longrightarrow> cpu_online c' \<longrightarrow> length (Q p) \<le> length (Q p'))"
  using assms by (rule scheduler_pick_cpu_spec)

end
