(* ===== verification/Task_Manager.thy ===== *)
theory Task_Manager
  imports Scheduling Kheap
begin

text \<open>
  Creation, lookup and destruction of tasks: \<open>kernel/core/task.c\<close>,
  \<open>kernel/core/task_manager.c\<close> and the per-cpu initialisation of \<open>kernel/core/cpu.c\<close>.

  This is where scheduler and memory management meet.  The state \<open>ksys\<close> extends that of the
  scheduler by the kernel heap, the virtual memory manager and the task manager; the executing
  cpu is one, so a call of the heap takes the interrupt state from the scheduler's part and
  gives it back.  The invariant ties every task object to a block of the heap, from which it
  follows that tasks do not overlap.
\<close>

section \<open>State\<close>

record task_manager =
  tm_lock :: spinlock
  tm_tasks :: intrusive_list
  tm_task_id_count :: usize

record ksys = sched +
  sys_heap :: kheap
  sys_vm :: vmm
  sys_tm :: task_manager

definition TASK_STACK_SIZE :: usize where "TASK_STACK_SIZE = push_bit 14 1"

definition sys_kalloc :: "limine \<Rightarrow> usize \<Rightarrow> 'a ksys_scheme \<Rightarrow> kerror + ptr \<times> 'a ksys_scheme" where
  "sys_kalloc li sz s =
     bindE (kalloc li sz (sys_heap s) (set_core (ts_core s) (sys_vm s))) (\<lambda>(p, kh, v).
     Inr (p, s\<lparr>ts_core := vm_core v, sys_heap := kh, sys_vm := v\<rparr>))"

definition sys_kfree :: "ptr \<Rightarrow> 'a ksys_scheme \<Rightarrow> kerror + 'a ksys_scheme" where
  "sys_kfree p s =
     bindE (kfree p (sys_heap s) (set_core (ts_core s) (sys_vm s))) (\<lambda>(kh, v).
     Inr (s\<lparr>ts_core := vm_core v, sys_heap := kh, sys_vm := v\<rparr>))"

text \<open>
  The memory at \<open>p\<close> seen as a \<open>Task\<close>: its fields hold whatever the heap left there, the
  arguments \<open>junk\<close> and \<open>jnode\<close>.  Nothing is mapped at an error pointer.
\<close>

definition as_task :: "task \<Rightarrow> intrusive_node \<Rightarrow> ptr \<Rightarrow> 'a ksys_scheme \<Rightarrow> 'a ksys_scheme" where
  "as_task junk jnode p s =
     (if IS_ERR p then s
      else s\<lparr>ts_tasks := (ts_tasks s)(p \<mapsto> junk),
        ts_nodes := (ts_nodes s)(p + global_node \<mapsto> jnode, p + runnable_node \<mapsto> jnode, p + wait_node \<mapsto> jnode)\<rparr>)"

definition node_init :: "ptr \<Rightarrow> 'a ksys_scheme \<Rightarrow> kerror + 'a ksys_scheme" where
  "node_init p s = bindE (intrusivelist_node_init p (ts_nodes s)) (\<lambda>h. Inr (s\<lparr>ts_nodes := h\<rparr>))"

section \<open>Operations\<close>

text \<open>\<open>trampoline\<close> is the address of \<open>task_trampoline\<close>, fixed by the link.\<close>

definition task_init :: "limine \<Rightarrow> ptr \<Rightarrow> ptr \<Rightarrow> ptr \<Rightarrow> ptr \<Rightarrow> string \<Rightarrow> 'a ksys_scheme \<Rightarrow> kerror + 'a ksys_scheme" where
  "task_init li trampoline task task_fn arg name s =
     bindE (update_task task (\<lambda>t. t\<lparr>t_name := name\<rparr>) s) (\<lambda>s.
     bindE (sys_kalloc li TASK_STACK_SIZE s) (\<lambda>(stack, s).
     bindE (update_task task (\<lambda>t. t\<lparr>t_stack := stack\<rparr>) s) (\<lambda>s.
     bindE (update_task task (\<lambda>t. t\<lparr>t_context := zero_context\<rparr>) s) (\<lambda>s.
     bindE (update_task task (\<lambda>t. t\<lparr>t_context := (t_context t)\<lparr>cx_sp := t_stack t + TASK_STACK_SIZE\<rparr>\<rparr>) s) (\<lambda>s.
     bindE (update_task task (\<lambda>t. t\<lparr>t_context := (t_context t)\<lparr>cx_lr := trampoline\<rparr>\<rparr>) s) (\<lambda>s.
     bindE (update_task task (\<lambda>t. t\<lparr>t_state := TASK_READY\<rparr>) s) (\<lambda>s.
     bindE (node_init (task + global_node) s) (\<lambda>s.
     bindE (node_init (task + runnable_node) s) (\<lambda>s.
     bindE (node_init (task + wait_node) s) (\<lambda>s.
     bindE (update_task task (\<lambda>t. t\<lparr>t_waiting_on := nullptr\<rparr>) s) (\<lambda>s.
     bindE (update_task task (\<lambda>t. t\<lparr>t_entry := task_fn\<rparr>) s) (\<lambda>s.
     update_task task (\<lambda>t. t\<lparr>t_arg := arg\<rparr>) s))))))))))))"

text \<open>Freeing the block of the task ends the life of the object.\<close>

definition task_destroy :: "ptr \<Rightarrow> 'a ksys_scheme \<Rightarrow> kerror + 'a ksys_scheme" where
  "task_destroy task s =
     bindE (task_at task s) (\<lambda>t.
     bindE (sys_kfree (t_stack t) s) (\<lambda>s.
     bindE (sys_kfree task s) (\<lambda>s.
     Inr (s\<lparr>ts_tasks := (ts_tasks s)(task := None),
       ts_nodes := (ts_nodes s)(task + global_node := None, task + runnable_node := None, task + wait_node := None)\<rparr>))))"

text \<open>
  \<open>task_trampoline\<close>, with the effect \<open>call\<close> of calling the entry function as an argument.  The
  panic behind \<open>task_exit\<close> would need a dead task to run again.  \<open>task_idle_round\<close> is one round of
  the loop of \<open>task_idle\<close>, up to the wait for an interrupt.
\<close>

definition task_trampoline :: "(ptr \<Rightarrow> ptr \<Rightarrow> 'a sched_scheme \<Rightarrow> kerror + 'a sched_scheme) \<Rightarrow> 'a sched_scheme \<Rightarrow> kerror + 'a sched_scheme" where
  "task_trampoline call s =
     bindE (cpu_at (this_cpu (ts_core s)) s) (\<lambda>c.
     let task = cpu_current c in
     bindE (task_at task s) (\<lambda>t.
     bindE (call (t_entry t) (t_arg t) s) (task_exit task)))"

definition task_idle_round :: "'a sched_scheme \<Rightarrow> kerror + 'a sched_scheme" where
  "task_idle_round s = bindE (scheduler_cpu_has_runnable_tasks s) (\<lambda>has. if has then yield s else Inr s)"

definition task_manager_init :: task_manager where
  "task_manager_init = \<lparr>tm_lock = spinlock_init ''TaskManager'', tm_tasks = intrusivelist_init, tm_task_id_count = 1\<rparr>"

definition task_manager_add :: "ptr \<Rightarrow> ptr \<Rightarrow> 'a ksys_scheme \<Rightarrow> kerror + 'a ksys_scheme" where
  "task_manager_add task cpu s =
     bindE (update_task task (\<lambda>t. t\<lparr>t_cpu := cpu\<rparr>) s) (\<lambda>s.
     bindE (update_task task (\<lambda>t. t\<lparr>t_tid := tm_task_id_count (sys_tm s)\<rparr>) s) (\<lambda>s.
     let s = s\<lparr>sys_tm := (sys_tm s)\<lparr>tm_task_id_count := tm_task_id_count (sys_tm s) + 1\<rparr>\<rparr> in
     bindE (intrusivelist_insert_tail (tm_tasks (sys_tm s)) (task + global_node) (ts_nodes s)) (\<lambda>(il, h).
     Inr (s\<lparr>ts_nodes := h, sys_tm := (sys_tm s)\<lparr>tm_tasks := il\<rparr>\<rparr>))))"

definition task_manager_create_with_cpu ::
  "limine \<Rightarrow> ptr \<Rightarrow> task \<Rightarrow> intrusive_node \<Rightarrow> ptr \<Rightarrow> ptr \<Rightarrow> string \<Rightarrow> ptr \<Rightarrow> 'a ksys_scheme \<Rightarrow> kerror + ptr \<times> 'a ksys_scheme" where
  "task_manager_create_with_cpu li trampoline junk jnode task_fn arg name cpu s =
     bindE (sys_kalloc li sizeof_task s) (\<lambda>(task, s).
     bindE (task_init li trampoline task task_fn arg name (as_task junk jnode task s)) (\<lambda>s.
     bindE (spinlock_scoped (ts_core s) (tm_lock (sys_tm s)) (\<lambda>c.
       bindE (task_manager_add task cpu s) (\<lambda>s. Inr (s, c)))) (\<lambda>(s, c, lock).
     Inr (task, s\<lparr>ts_core := c, sys_tm := (sys_tm s)\<lparr>tm_lock := lock\<rparr>\<rparr>))))"

definition task_manager_create ::
  "limine \<Rightarrow> ptr \<Rightarrow> task \<Rightarrow> intrusive_node \<Rightarrow> ptr \<Rightarrow> ptr \<Rightarrow> string \<Rightarrow> 'a ksys_scheme \<Rightarrow> kerror + ptr \<times> 'a ksys_scheme" where
  "task_manager_create li trampoline junk jnode task_fn arg name s =
     bindE (scheduler_pick_cpu s) (\<lambda>cpu. task_manager_create_with_cpu li trampoline junk jnode task_fn arg name cpu s)"

partial_function (option) lookup_loop :: "usize \<Rightarrow> 'a ksys_scheme \<Rightarrow> ptr \<Rightarrow> (kerror + ptr) option" where
  "lookup_loop task_id s node =
     (if node = nullptr then Some (Inr nullptr)
      else
        let task = container_of_impl node global_node in
        case task_at task s of Inl e \<Rightarrow> Some (Inl e)
        | Inr t \<Rightarrow> if task_id = t_tid t then Some (Inr task)
          else (case node_at (ts_nodes s) node of Inl e \<Rightarrow> Some (Inl e) | Inr n \<Rightarrow> lookup_loop task_id s (n_next n)))"

definition task_manager_lookup :: "usize \<Rightarrow> 'a ksys_scheme \<Rightarrow> kerror + ptr \<times> 'a ksys_scheme" where
  "task_manager_lookup task_id s =
     bindE (spinlock_scoped (ts_core s) (tm_lock (sys_tm s)) (\<lambda>c.
       bindE (case lookup_loop task_id s (il_head (tm_tasks (sys_tm s))) of None \<Rightarrow> Inl Diverge | Some r \<Rightarrow> r) (\<lambda>p. Inr (p, c))))
     (\<lambda>(p, c, lock). Inr (p, s\<lparr>ts_core := c, sys_tm := (sys_tm s)\<lparr>tm_lock := lock\<rparr>\<rparr>))"

section \<open>Cpus\<close>

text \<open>\<open>mpidr\<close> is the value of the register \<open>MPIDR_EL1\<close>, the number of the executing cpu.\<close>

definition cpu_get_cpuid :: "u64 \<Rightarrow> u32" where
  "cpu_get_cpuid mpidr = ucast (mpidr AND 0xFF)"

definition cpu_cache_current_cpu :: "u64 \<Rightarrow> 'a sched_scheme \<Rightarrow> 'a sched_scheme" where
  "cpu_cache_current_cpu mpidr s =
     (let id = cpu_get_cpuid mpidr; cpu = cpu_slot s (ucast id) in s\<lparr>ts_core := (ts_core s)\<lparr>this_cpu := cpu\<rparr>\<rparr>)"

definition common_cpu_init_tasks ::
  "limine \<Rightarrow> ptr \<Rightarrow> task \<Rightarrow> intrusive_node \<Rightarrow> ptr \<Rightarrow> u64 \<Rightarrow> 'a ksys_scheme \<Rightarrow> kerror + 'a ksys_scheme" where
  "common_cpu_init_tasks li trampoline junk jnode task_idle mpidr s =
     (let cpu = this_cpu (ts_core s) in
      bindE (cpu_at cpu s) (\<lambda>c.
      let s = set_cpu cpu (c\<lparr>cpu_cpuid := cpu_get_cpuid mpidr\<rparr>) s in
      bindE (cpu_at cpu s) (\<lambda>c.
      let s = set_cpu cpu (c\<lparr>cpu_runnable_tasks := runqueue_init ''Runnable Task''\<rparr>) s in
      bindE (task_manager_create_with_cpu li trampoline junk jnode task_idle nullptr ''idle'' cpu s) (\<lambda>(idle, s).
      bindE (cpu_at cpu s) (\<lambda>c.
      Inr (set_cpu cpu (c\<lparr>cpu_idle := idle, cpu_current := nullptr, cpu_online := True\<rparr>) s))))))"

section \<open>The invariant\<close>

text \<open>
  Every task of the store is registered, and its object stands 16 bytes into an allocated block
  of the heap that is large enough; task ids are distinct and below the next one.
\<close>

definition sys_inv ::
  "limine \<Rightarrow> 'a ksys_scheme \<Rightarrow> queues \<Rightarrow> queues \<Rightarrow> tree \<Rightarrow> ptr list \<Rightarrow> blocks \<Rightarrow> (ptr \<times> usize) set \<Rightarrow> ptr list \<Rightarrow> bool" where
  "sys_inv li s Q W T xs bs U G \<longleftrightarrow>
     sched_base s Q W \<and> (\<forall>p c. sc_cpus s p = Some c \<longrightarrow> current_ok (ts_tasks s) p c) \<and>
     kheap_inv li (sys_heap s) (set_core (ts_core s) (sys_vm s)) T xs bs U \<and>
     lock_free (tm_lock (sys_tm s)) \<and> list_rep global_node (tm_tasks (sys_tm s)) (ts_nodes s) G \<and>
     set G = dom (ts_tasks s) \<and>
     (\<forall>t \<in> dom (ts_tasks s). \<exists>b \<in> U. t = fst b + 16 \<and> 232 \<le> unat (snd b)) \<and>
     (\<forall>t tk. ts_tasks s t = Some tk \<longrightarrow> t_tid tk < tm_task_id_count (sys_tm s)) \<and>
     (\<forall>t u tk uk. ts_tasks s t = Some tk \<longrightarrow> ts_tasks s u = Some uk \<longrightarrow> t_tid tk = t_tid uk \<longrightarrow> t = u)"

lemma sys_invD:
  assumes "sys_inv li s Q W T xs bs U G"
  shows "queues_ok s Q W" and "states_ok (ts_tasks s) (sc_cpus s) (sc_waits s) Q W"
    and "sc_cpus s p = Some c \<Longrightarrow> current_ok (ts_tasks s) p c"
    and "kheap_inv li (sys_heap s) (set_core (ts_core s) (sys_vm s)) T xs bs U"
    and "lock_free (tm_lock (sys_tm s))" and "list_rep global_node (tm_tasks (sys_tm s)) (ts_nodes s) G"
    and "set G = dom (ts_tasks s)"
    and "t \<in> dom (ts_tasks s) \<Longrightarrow> \<exists>b \<in> U. t = fst b + 16 \<and> 232 \<le> unat (snd b)"
    and "ts_tasks s t = Some tk \<Longrightarrow> t_tid tk < tm_task_id_count (sys_tm s)"
    and "ts_tasks s t = Some tk \<Longrightarrow> ts_tasks s u = Some uk \<Longrightarrow> t_tid tk = t_tid uk \<Longrightarrow> t = u"
  using assms unfolding sys_inv_def by blast+

lemma heap_blocks:
  assumes "kheap_inv li kh v T xs bs U"
  shows "b \<in> U \<Longrightarrow> block_ok b" and "b \<in> U \<Longrightarrow> b' \<in> U \<Longrightarrow> b \<noteq> b' \<Longrightarrow> block b \<inter> block b' = {}"
  using assms unfolding kheap_inv_def heap_inv_def heap_rep_def by blast+

text \<open>Objects in different blocks do not overlap.\<close>

lemma objects_apart:
  assumes ok: "block_ok b" "block_ok b'" and dis: "block b \<inter> block b' = {}" and sz: "232 \<le> unat (snd b)" "232 \<le> unat (snd b')"
  shows "unat (fst b + 16) + 216 \<le> unat (fst b' + 16) \<or> unat (fst b' + 16) + 216 \<le> unat (fst b + 16)"
proof -
  have u: "unat (fst b + 16) = unat (fst b) + 16" "unat (fst b' + 16) = unat (fst b') + 16"
    using ok by (simp_all add: block_ok_def unat_add_u64)
  show ?thesis
  proof (cases "unat (fst b) \<le> unat (fst b')")
    case True
    have "fst b' \<in> block b'" using sz by (simp add: span_def)
    then have "fst b' \<notin> block b" using dis by blast
    then show ?thesis using True u sz by (auto simp: span_def)
  next
    case False
    have "fst b \<in> block b" using sz by (simp add: span_def)
    then have "fst b \<notin> block b'" using dis by blast
    then show ?thesis using False u sz by (auto simp: span_def)
  qed
qed

lemma blocks_apart:
  assumes inv: "kheap_inv li kh v T xs bs U"
    and D: "\<forall>t \<in> D. \<exists>b \<in> U. t = fst b + 16 \<and> 232 \<le> unat (snd b)"
  shows "tasks_apart D"
  unfolding tasks_apart_def
proof (intro ballI conjI impI)
  fix t assume "t \<in> D"
  then obtain b where b: "b \<in> U" "t = fst b + 16" "232 \<le> unat (snd b)" using D by blast
  have ok: "block_ok b" by (rule heap_blocks(1) [OF inv b(1)])
  then have u: "unat t = unat (fst b) + 16" unfolding b(2) by (simp add: block_ok_def unat_add_u64)
  then show "t \<noteq> nullptr" by (metis add_eq_0_iff_both_eq_0 unat_0 zero_neq_numeral)
  show "unat t + 216 \<le> 2 ^ 64" using ok b(3) u by (simp add: block_ok_def)
  fix u assume "u \<in> D" "t \<noteq> u"
  then obtain b' where b': "b' \<in> U" "u = fst b' + 16" "232 \<le> unat (snd b')" using D by blast
  then have "b \<noteq> b'" using \<open>t \<noteq> u\<close> b(2) by blast
  then show "unat t + 216 \<le> unat u \<or> unat u + 216 \<le> unat t"
    using objects_apart [OF ok heap_blocks(1) [OF inv b'(1)] heap_blocks(2) [OF inv b(1) b'(1)] b(3) b'(3)] b(2) b'(2) by simp
qed

section \<open>Creating a task\<close>

definition new_task :: "usize \<Rightarrow> string \<Rightarrow> ptr \<Rightarrow> ptr \<Rightarrow> ptr \<Rightarrow> ptr \<Rightarrow> ptr \<Rightarrow> task" where
  "new_task tid name cpu stack trampoline task_fn arg =
     \<lparr>t_tid = tid, t_name = name, t_cpu = cpu, t_stack = stack,
      t_context = zero_context\<lparr>cx_sp := stack + TASK_STACK_SIZE, cx_lr := trampoline\<rparr>, t_state = TASK_READY,
      t_waiting_on = nullptr, t_entry = task_fn, t_arg = arg\<rparr>"

definition three_nodes_at :: "ptr \<Rightarrow> nodes \<Rightarrow> nodes" where
  "three_nodes_at p h = h(p + global_node \<mapsto> detached, p + runnable_node \<mapsto> detached, p + wait_node \<mapsto> detached)"

lemma task_init_spec:
  assumes err: "\<not> IS_ERR task" and nn: "\<And>off. node_offset off \<Longrightarrow> task + off \<noteq> nullptr"
    and stack: "kalloc li TASK_STACK_SIZE (sys_heap s) (set_core (ts_core s) (sys_vm s)) = Inr (stack, kh, v)"
  shows "task_init li trampoline task task_fn arg name (as_task junk jnode task s) =
    Inr (s\<lparr>ts_tasks := (ts_tasks s)(task \<mapsto> new_task (t_tid junk) name (t_cpu junk) stack trampoline task_fn arg),
      ts_nodes := three_nodes_at task (ts_nodes s), ts_core := vm_core v, sys_heap := kh, sys_vm := v\<rparr>)"
proof -
  have diff: "task + i \<noteq> task + j" if "i \<noteq> j" for i j :: ptr using that by simp
  note ne = diff [of global_node runnable_node] diff [of global_node wait_node] diff [of runnable_node wait_node]
  have nodes: "bindE (node_init (task + global_node) z) (\<lambda>z. bindE (node_init (task + runnable_node) z) (\<lambda>z.
      bindE (node_init (task + wait_node) z) f)) = f (z\<lparr>ts_nodes := three_nodes_at task (ts_nodes z)\<rparr>)"
    if "\<And>off. node_offset off \<Longrightarrow> task + off \<in> dom (ts_nodes z)" for z :: "'a ksys_scheme" and f
    using nn that [of global_node] that [of runnable_node] that [of wait_node] ne
    by (simp add: node_init_def node_init_store three_nodes_at_def domIff)
  have dom: "\<And>off. node_offset off \<Longrightarrow> task + off \<in> dom (ts_nodes (as_task junk jnode task s))"
    using err by (auto simp: as_task_def node_offset_def)
  show ?thesis
    using err stack dom ne
    by (simp add: task_init_def as_task_def sys_kalloc_def update_task_def task_at_def set_task_def nodes
        new_task_def three_nodes_at_def zero_context_def) (cases s; cases junk; simp)
qed

lemma set_core_self [simp]: "set_core (vm_core v) v = v"
  by (simp add: set_core_def)

lemma set_core_twice [simp]: "set_core c (set_core c' v) = set_core c v"
  by (simp add: set_core_def)

lemma kheap_inv_core:
  assumes "kheap_inv li kh v T xs bs U" and "core_ok (Suc (Suc 0)) c"
  shows "kheap_inv li kh (set_core c v) T xs bs U"
  using assms heap_inv_core [of li "kh_freelist kh" v T xs bs U c] core_ok_mono [OF assms(2), of "Suc 0"]
  by (simp add: kheap_inv_def)

lemma list_rep_cong:
  assumes "list_rep off il h ts" and "\<And>t. t \<in> set ts \<Longrightarrow> h' (t + off) = h (t + off)"
  shows "list_rep off il h' ts"
proof -
  have "dlseg h' nullptr (map (\<lambda>t. t + off) ts) nullptr \<longleftrightarrow> dlseg h nullptr (map (\<lambda>t. t + off) ts) nullptr"
    using assms(2) by (intro dlseg_cong) auto
  with assms(1) show ?thesis by (simp add: list_rep_def il_rep_def)
qed

lemma three_nodes_other:
  assumes D: "tasks_apart (insert p D)" and "p \<notin> D" and t: "t \<in> D" and off: "node_offset off"
  shows "three_nodes_at p h (t + off) = h (t + off)"
proof -
  have "t + off \<noteq> p + j" if "node_offset j" for j
    using nodes_inj [OF D _ _ off that, of t p] t assms(2) by blast
  then show ?thesis by (simp add: three_nodes_at_def)
qed

lemma states_new_task:
  assumes ok: "states_ok tasks cpus waits Q W" and t: "tasks t = None" and tk: "t_state tk = TASK_READY" "t_waiting_on tk = nullptr"
  shows "states_ok (tasks(t \<mapsto> tk)) cpus waits Q W"
proof (rule states_okI)
  show "cpu_ok (tasks(t \<mapsto> tk)) Q p c" if "cpus p = Some c" for p c
  proof (rule cpu_ok_other_task [OF states_okD(1) [OF ok that], where t = t])
    show "t \<notin> set (Q p)" using queues_in_store(1) [OF ok that] t by auto
    show "t \<noteq> cpu_idle c" if "cpu_online c" using states_okD(1) [OF ok \<open>cpus p = Some c\<close>] that t by (auto simp: cpu_ok_def)
  qed simp_all
  show "task_ok cpus waits W u uk" if "(tasks(t \<mapsto> tk)) u = Some uk" for u uk
    using that tk states_okD(2) [OF ok, of u uk] by (cases "u = t") (auto simp: task_ok_def)
  show "\<exists>tk'. (tasks(t \<mapsto> tk)) u = Some tk' \<and> t_state tk' = TASK_BLOCKED \<and> t_waiting_on tk' = w"
    if "waits w = Some q" "u \<in> set (W w)" for w q u
    using states_okD(3) [OF ok that] t by auto
qed

text \<open>The scheduler's part of the invariant after a new task has been linked into the global list.\<close>

lemma queues_ok_new_task:
  assumes q: "queues_ok s Q W" and st: "states_ok (ts_tasks s) (sc_cpus s) (sc_waits s) Q W"
    and ap: "tasks_apart (insert p (dom (ts_tasks s)))" and new: "p \<notin> dom (ts_tasks s)"
    and G: "set G \<subseteq> dom (ts_tasks s)"
    and h': "only_nodes (node_set global_node (p # G)) (three_nodes_at p (ts_nodes s)) h'"
    and s': "ts_tasks s' = (ts_tasks s)(p \<mapsto> tk)" "ts_nodes s' = h'" "core_ok (Suc (Suc 0)) (ts_core s')"
      "sc_cpus s' = sc_cpus s" "sc_waits s' = sc_waits s"
  shows "queues_ok s' Q W"
proof -
  let ?D = "insert p (dom (ts_tasks s))"
  have keep: "list_rep off il h' ts"
    if "list_rep off il (ts_nodes s) ts" "set ts \<subseteq> dom (ts_tasks s)" "node_offset off" "off \<noteq> global_node" for off il ts
  proof (rule list_rep_frame [OF _ h'])
    show "list_rep off il (three_nodes_at p (ts_nodes s)) ts"
      by (rule list_rep_cong [OF that(1)]) (use three_nodes_other [OF ap new _ that(3)] that(2) in blast)
    show "node_set off ts \<inter> node_set global_node (p # G) = {}"
      using that G by (intro node_set_disjoint [OF ap]) auto
  qed
  have dom: "t + off \<in> dom h'" if "t \<in> ?D" "node_offset off" for t off
  proof -
    have "t + off \<in> dom (three_nodes_at p (ts_nodes s))"
      using that queues_okD(1) [OF q] unfolding store_ok_def three_nodes_at_def node_offset_def by auto
    then show ?thesis using h' by (simp add: only_nodes_def)
  qed
  have "store_ok s'" using ap dom s'(1,2) by (simp add: store_ok_def)
  moreover have "rq_rep (cpu_runnable_tasks c) h' (Q p')" if "sc_cpus s p' = Some c" for p' c
    using queues_okD(4) [OF q that] queues_in_store(1) [OF st that] keep by (simp add: rq_rep_def)
  moreover have "w \<noteq> nullptr \<and> wq_rep r h' (W w)" if "sc_waits s w = Some r" for w r
    using queues_okD(5) [OF q that] queues_in_store(2) [OF st that] keep by (simp add: wq_rep_def)
  ultimately show ?thesis using s' by (simp add: queues_ok_def)
qed

lemma object_fresh:
  assumes inv: "kheap_inv li kh v T xs bs (insert b U)" and b: "b \<notin> U" "232 \<le> unat (snd b)"
    and D: "\<forall>t \<in> D. \<exists>b \<in> U. t = fst b + 16 \<and> 232 \<le> unat (snd b)"
  shows "fst b + 16 \<notin> D" and "tasks_apart (insert (fst b + 16) D)"
proof -
  show "fst b + 16 \<notin> D"
  proof
    assume "fst b + 16 \<in> D"
    then obtain b' where b': "b' \<in> U" "fst b + 16 = fst b' + 16" "232 \<le> unat (snd b')" using D by blast
    then have "block b \<inter> block b' = {}" using heap_blocks(2) [OF inv, of b b'] b(1) by auto
    moreover have "fst b \<in> block b" "fst b \<in> block b'" using b(2) b'(2,3) by (auto simp: span_def)
    ultimately show False by blast
  qed
  have "\<forall>t \<in> insert (fst b + 16) D. \<exists>b' \<in> insert b U. t = fst b' + 16 \<and> 232 \<le> unat (snd b')" using D b(2) by blast
  then show "tasks_apart (insert (fst b + 16) D)" by (rule blocks_apart [OF inv])
qed

lemma three_nodes_dom: "node_offset off \<Longrightarrow> p + off \<in> dom (three_nodes_at p h)"
  by (auto simp: three_nodes_at_def node_offset_def)

lemma task_manager_add_spec:
  assumes t: "ts_tasks s p = Some tk" and rep: "list_rep global_node (tm_tasks (sys_tm s)) (ts_nodes s) G"
    and node: "p + global_node \<in> dom (ts_nodes s)" "p + global_node \<noteq> nullptr" "p \<notin> set G"
  shows "\<exists>il' h'. task_manager_add p cpu s =
      Inr (s\<lparr>ts_tasks := (ts_tasks s)(p \<mapsto> tk\<lparr>t_cpu := cpu, t_tid := tm_task_id_count (sys_tm s)\<rparr>), ts_nodes := h',
        sys_tm := (sys_tm s)\<lparr>tm_tasks := il', tm_task_id_count := tm_task_id_count (sys_tm s) + 1\<rparr>\<rparr>) \<and>
    list_rep global_node il' h' (G @ [p]) \<and> only_nodes (node_set global_node (p # G)) (ts_nodes s) h'"
proof -
  from list_rep_insert [OF rep node] obtain il' h' where
    i: "intrusivelist_insert_tail (tm_tasks (sys_tm s)) (p + global_node) (ts_nodes s) = Inr (il', h')"
      "list_rep global_node il' h' (G @ [p])" "only_nodes (node_set global_node (p # G)) (ts_nodes s) h'" by blast
  have "task_manager_add p cpu s =
      Inr (s\<lparr>ts_tasks := (ts_tasks s)(p \<mapsto> tk\<lparr>t_cpu := cpu, t_tid := tm_task_id_count (sys_tm s)\<rparr>), ts_nodes := h',
        sys_tm := (sys_tm s)\<lparr>tm_tasks := il', tm_task_id_count := tm_task_id_count (sys_tm s) + 1\<rparr>\<rparr>)"
    using t i(1) by (cases s) (simp add: task_manager_add_def update_task_def task_at_def set_task_def Let_def)
  with i(2,3) show ?thesis by blast
qed

text \<open>The outcome of creating a task, for a state \<open>s\<close> and the state \<open>s'\<close> after it.\<close>

definition task_created :: "ptr \<Rightarrow> task \<Rightarrow> 'a ksys_scheme \<Rightarrow> 'a ksys_scheme \<Rightarrow> bool" where
  "task_created task tk s s' \<longleftrightarrow> ts_tasks s task = None \<and> ts_tasks s' = (ts_tasks s)(task \<mapsto> tk) \<and>
     sc_cpus s' = sc_cpus s \<and> sc_waits s' = sc_waits s \<and> CPUS s' = CPUS s \<and> sc_regs s' = sc_regs s \<and>
     irq_view (ts_core s') = irq_view (ts_core s) \<and> ksys.more s' = ksys.more s \<and>
     ttbr1_el1 (sys_vm s') = ttbr1_el1 (sys_vm s) \<and> tm_task_id_count (sys_tm s') = tm_task_id_count (sys_tm s) + 1"

lemma add_any_cpus:
  "task_manager_add task cpu s = Inr t \<Longrightarrow> task_manager_add task cpu (s\<lparr>sc_cpus := X\<rparr>) = Inr (t\<lparr>sc_cpus := X\<rparr>)"
  by (auto simp: task_manager_add_def update_task_def task_at_def set_task_def Let_def bindE_Inr_iff split: option.splits)

lemma kalloc_fits_table:
  assumes "kheap_inv li kh v T xs bs U" and "fl_take (sz + 16) bs = Some (b, bs')" and "sz \<noteq> 0" and "unat sz + 16 < 2 ^ 64"
  shows "\<exists>kh' v'. kalloc li sz kh v = Inr (fst b + 16, kh', v') \<and> kheap_inv li kh' v' T xs bs' (insert b U) \<and> b \<notin> U \<and>
    unat sz + 16 \<le> unat (snd b) \<and> \<not> IS_ERR (fst b + 16) \<and> irq_view (vm_core v') = irq_view (vm_core v) \<and> ttbr1_el1 v' = ttbr1_el1 v"
proof -
  obtain kh' m' c' where k: "kalloc li sz kh v = Inr (fst b + 16, kh', set_core c' (set_mem m' v))"
    "kheap_inv li kh' (set_core c' (set_mem m' v)) T xs bs' (insert b U)" "b \<notin> U" "unat sz + 16 \<le> unat (snd b)"
    "\<not> IS_ERR (fst b + 16)" "irq_view c' = irq_view (vm_core v)" using kalloc_fits_frame [OF assms] by blast
  have "ttbr1_el1 (set_core c' (set_mem m' v)) = ttbr1_el1 v" "vm_core (set_core c' (set_mem m' v)) = c'"
    by (simp_all add: set_core_def set_mem_def)
  then show ?thesis using k by (intro exI [of _ kh'] exI [of _ "set_core c' (set_mem m' v)"]) simp
qed

text \<open>
  Creating a task does not look at the cpus: it runs in the same way whatever they are.
\<close>

lemma create_with_cpu_any:
  assumes inv: "sys_inv li s Q W T xs bs U G" and cnt: "tm_task_id_count (sys_tm s) \<noteq> - 1"
    and fit: "fl_take (sizeof_task + 16) bs = Some (b, bs1)" "fl_take (TASK_STACK_SIZE + 16) bs1 = Some (bk, bs2)"
  shows "\<exists>s'. (\<forall>X. task_manager_create_with_cpu li trampoline junk jnode task_fn arg name cpu (s\<lparr>sc_cpus := X\<rparr>) =
      Inr (fst b + 16, s'\<lparr>sc_cpus := X\<rparr>)) \<and>
    sys_inv li s' Q W T xs bs2 (insert bk (insert b U)) (G @ [fst b + 16]) \<and> b \<notin> U \<and> bk \<notin> insert b U \<and>
    task_created (fst b + 16) (new_task (tm_task_id_count (sys_tm s)) name cpu (fst bk + 16) trampoline task_fn arg) s s'"
proof -
  define task where "task = fst b + 16"
  define stack where "stack = fst bk + 16"
  note i = sys_invD [OF inv]
  let ?D = "dom (ts_tasks s)" and ?n = "tm_task_id_count (sys_tm s)"
  have szs: "unat sizeof_task = 216" "unat TASK_STACK_SIZE = 16384" by (simp_all add: sizeof_task_def TASK_STACK_SIZE_def)
  then have pos: "sizeof_task \<noteq> 0" "unat sizeof_task + 16 < 2 ^ 64" "TASK_STACK_SIZE \<noteq> 0" "unat TASK_STACK_SIZE + 16 < 2 ^ 64"
    by auto
  obtain kh1 v1 where a1: "kalloc li sizeof_task (sys_heap s) (set_core (ts_core s) (sys_vm s)) = Inr (task, kh1, v1)"
      "\<not> IS_ERR task"
    and 1: "kheap_inv li kh1 v1 T xs bs1 (insert b U)" "task = fst b + 16" "b \<notin> U" "232 \<le> unat (snd b)"
      "irq_view (vm_core v1) = irq_view (ts_core s)" "ttbr1_el1 v1 = ttbr1_el1 (sys_vm s)"
    using kalloc_fits_table [OF i(4) fit(1) pos(1,2)] szs(1) by (auto simp: task_def set_core_def)
  obtain kh2 v2 where a2: "kalloc li TASK_STACK_SIZE kh1 v1 = Inr (stack, kh2, v2)"
    and 2: "kheap_inv li kh2 v2 T xs bs2 (insert bk (insert b U))" "stack = fst bk + 16" "bk \<notin> insert b U"
      "irq_view (vm_core v2) = irq_view (vm_core v1)" "ttbr1_el1 v2 = ttbr1_el1 v1"
    using kalloc_fits_table [OF 1(1) fit(2) pos(3,4)] by (auto simp: stack_def)
  have D: "\<forall>t \<in> ?D. \<exists>b \<in> U. t = fst b + 16 \<and> 232 \<le> unat (snd b)" using i(8) by blast
  have fresh: "task \<notin> ?D" and ap: "tasks_apart (insert task ?D)" using object_fresh [OF 1(1,3,4) D] 1(2) by simp_all
  have nn: "task + off \<noteq> nullptr" if "node_offset off" for off by (rule node_nonnull [OF ap _ that]) simp
  let ?h = "three_nodes_at task (ts_nodes s)"
  let ?tk = "new_task (t_tid junk) name (t_cpu junk) stack trampoline task_fn arg"
  let ?s1 = "s\<lparr>ts_tasks := (ts_tasks s)(task \<mapsto> ?tk), ts_nodes := ?h, ts_core := vm_core v2, sys_heap := kh2, sys_vm := v2\<rparr>"
  have init: "task_init li trampoline task task_fn arg name (as_task junk jnode task (s\<lparr>ts_core := vm_core v1, sc_cpus := X, sys_heap := kh1, sys_vm := v1\<rparr>)) = Inr (?s1\<lparr>sc_cpus := X\<rparr>)" for X
    using task_init_spec [OF a1(2) nn, of li "s\<lparr>ts_core := vm_core v1, sc_cpus := X, sys_heap := kh1, sys_vm := v1\<rparr>"] a2 by simp
  have G: "list_rep global_node (tm_tasks (sys_tm ?s1)) (ts_nodes ?s1) G"
    using i(6,7) three_nodes_other [OF ap fresh] by (auto intro!: list_rep_cong [OF i(6)])
  obtain il' h' where add: "task_manager_add task cpu ?s1 = Inr (?s1\<lparr>ts_tasks := (ts_tasks ?s1)(task \<mapsto> ?tk\<lparr>t_cpu := cpu, t_tid := ?n\<rparr>),
      ts_nodes := h', sys_tm := (sys_tm s)\<lparr>tm_tasks := il', tm_task_id_count := ?n + 1\<rparr>\<rparr>)"
    "list_rep global_node il' h' (G @ [task])" "only_nodes (node_set global_node (task # G)) ?h h'"
    using task_manager_add_spec [OF _ G, of task ?tk cpu] three_nodes_dom nn fresh i(7) by (auto simp: domIff)
  let ?c = "irq_cycle (vm_core v2)"
  have view: "irq_view (vm_core v2) = irq_view (ts_core s)" using 2(4) 1(5) by simp
  have core: "core_ok (Suc (Suc 0)) (vm_core v2)" using 2(1) by (simp add: kheap_inv_def)
  let ?new = "new_task ?n name cpu stack trampoline task_fn arg"
  let ?s' = "s\<lparr>ts_tasks := (ts_tasks s)(task \<mapsto> ?new), ts_nodes := h', ts_core := ?c, sys_heap := kh2, sys_vm := v2,
      sys_tm := (sys_tm s)\<lparr>tm_tasks := il', tm_task_id_count := ?n + 1\<rparr>\<rparr>"
  have run: "task_manager_create_with_cpu li trampoline junk jnode task_fn arg name cpu (s\<lparr>sc_cpus := X\<rparr>) = Inr (task, ?s'\<lparr>sc_cpus := X\<rparr>)" for X
  proof -
    let ?a = "?s1\<lparr>ts_tasks := (ts_tasks ?s1)(task \<mapsto> ?tk\<lparr>t_cpu := cpu, t_tid := ?n\<rparr>),
      ts_nodes := h', sys_tm := (sys_tm s)\<lparr>tm_tasks := il', tm_task_id_count := ?n + 1\<rparr>\<rparr>\<lparr>sc_cpus := X\<rparr>"
    have f: "tm_lock (sys_tm (?s1\<lparr>sc_cpus := X\<rparr>)) = tm_lock (sys_tm s)" "ts_core (?s1\<lparr>sc_cpus := X\<rparr>) = vm_core v2"
      "sys_heap (s\<lparr>sc_cpus := X\<rparr>) = sys_heap s" "set_core (ts_core (s\<lparr>sc_cpus := X\<rparr>)) (sys_vm (s\<lparr>sc_cpus := X\<rparr>)) = set_core (ts_core s) (sys_vm s)"
      "s\<lparr>sc_cpus := X\<rparr>\<lparr>ts_core := vm_core v1, sys_heap := kh1, sys_vm := v1\<rparr> = s\<lparr>ts_core := vm_core v1, sc_cpus := X, sys_heap := kh1, sys_vm := v1\<rparr>"
      by simp_all
    have "task_manager_create_with_cpu li trampoline junk jnode task_fn arg name cpu (s\<lparr>sc_cpus := X\<rparr>) =
        Inr (task, ?a\<lparr>ts_core := ?c, sys_tm := (sys_tm ?a)\<lparr>tm_lock := tm_lock (sys_tm s)\<rparr>\<rparr>)"
      by (simp only: task_manager_create_with_cpu_def sys_kalloc_def f a1(1) bindE_simps prod.case init add_any_cpus [OF add(1)]
          scoped_return [OF core i(5)])
    also have "?a\<lparr>ts_core := ?c, sys_tm := (sys_tm ?a)\<lparr>tm_lock := tm_lock (sys_tm s)\<rparr>\<rparr> = ?s'\<lparr>sc_cpus := X\<rparr>"
      by (cases s) (simp add: new_task_def)
    finally show ?thesis .
  qed
  have q: "queues_ok ?s' Q W"
    using fresh i(7) core by (intro queues_ok_new_task [OF i(1,2) ap fresh _ add(3)]) auto
  have st: "states_ok (ts_tasks ?s') (sc_cpus ?s') (sc_waits ?s') Q W"
    using states_new_task [OF i(2), of task ?new] fresh by (auto simp: new_task_def domIff)
  have cur: "current_ok (ts_tasks ?s') p c" if "sc_cpus ?s' p = Some c" for p c
    using i(3) [of p c] that fresh by (auto simp: current_ok_def domIff)
  have heap: "kheap_inv li kh2 (set_core ?c v2) T xs bs2 (insert bk (insert b U))"
    by (rule kheap_inv_core [OF 2(1) core_ok_cycle [OF core]])
  have tids: "t_tid tk < ?n + 1" if "ts_tasks ?s' t = Some tk" for t tk
  proof -
    have "unat ?n \<noteq> unat (- 1 :: usize)" using cnt by (simp only: word_unat_eq_iff not_False_eq_True)
    moreover have "unat (- 1 :: usize) = 2 ^ 64 - 1" by (simp add: unsigned_minus_1_eq_mask mask_eq_exp_minus_1)
    ultimately have "unat ?n + 1 < 2 ^ 64" using unat_lt_u64 [of ?n] by linarith
    then have "?n < ?n + 1" by (simp add: word_less_nat_alt unat_add_u64)
    then show ?thesis using that i(9) [of t tk] by (auto simp: new_task_def split: if_splits)
  qed
  have uniq: "t = u" if "ts_tasks ?s' t = Some tk" "ts_tasks ?s' u = Some uk" "t_tid tk = t_tid uk" for t u tk uk
    using that i(9) [of t tk] i(9) [of u uk] i(10) [of t tk u uk] by (auto simp: new_task_def split: if_splits)
  have "sys_inv li ?s' Q W T xs bs2 (insert bk (insert b U)) (G @ [task])"
    unfolding sys_inv_def
  proof (intro conjI)
    show "kheap_inv li (sys_heap ?s') (set_core (ts_core ?s') (sys_vm ?s')) T xs bs2 (insert bk (insert b U))" using heap by simp
    show "list_rep global_node (tm_tasks (sys_tm ?s')) (ts_nodes ?s') (G @ [task])" using add(2) by simp
    show "set (G @ [task]) = dom (ts_tasks ?s')" using i(7) by simp
    show "lock_free (tm_lock (sys_tm ?s'))" using i(5) by simp
    show "\<forall>t \<in> dom (ts_tasks ?s'). \<exists>b' \<in> insert bk (insert b U). t = fst b' + 16 \<and> 232 \<le> unat (snd b')"
    proof
      fix t assume "t \<in> dom (ts_tasks ?s')"
      then have "t = task \<or> t \<in> ?D" by (auto split: if_splits)
      then show "\<exists>b' \<in> insert bk (insert b U). t = fst b' + 16 \<and> 232 \<le> unat (snd b')" using D 1(2,4) by blast
    qed
    show "\<forall>t tk. ts_tasks ?s' t = Some tk \<longrightarrow> t_tid tk < tm_task_id_count (sys_tm ?s')" using tids by simp
    show "\<forall>t u tk uk. ts_tasks ?s' t = Some tk \<longrightarrow> ts_tasks ?s' u = Some uk \<longrightarrow> t_tid tk = t_tid uk \<longrightarrow> t = u"
      using uniq by blast
    show "\<forall>p c. sc_cpus ?s' p = Some c \<longrightarrow> current_ok (ts_tasks ?s') p c" using cur by blast
  qed (rule q st)+
  moreover have "task_created task ?new s ?s'"
    using fresh pop_push_cycle(2) [OF core] view 1(6) 2(5) by (simp add: task_created_def domIff)
  ultimately show ?thesis
    using run 1(3) 2(3) unfolding task_def stack_def by blast
qed

lemma create_with_cpu_spec:
  assumes "sys_inv li s Q W T xs bs U G" and "tm_task_id_count (sys_tm s) \<noteq> - 1"
    and "fl_take (sizeof_task + 16) bs = Some (b, bs1)" and "fl_take (TASK_STACK_SIZE + 16) bs1 = Some (bk, bs2)"
  shows "\<exists>s'. task_manager_create_with_cpu li trampoline junk jnode task_fn arg name cpu s = Inr (fst b + 16, s') \<and>
    sys_inv li s' Q W T xs bs2 (insert bk (insert b U)) (G @ [fst b + 16]) \<and> b \<notin> U \<and> bk \<notin> insert b U \<and>
    task_created (fst b + 16) (new_task (tm_task_id_count (sys_tm s)) name cpu (fst bk + 16) trampoline task_fn arg) s s'"
proof -
  obtain s' where s': "\<forall>X. task_manager_create_with_cpu li trampoline junk jnode task_fn arg name cpu (s\<lparr>sc_cpus := X\<rparr>) =
      Inr (fst b + 16, s'\<lparr>sc_cpus := X\<rparr>)" "sys_inv li s' Q W T xs bs2 (insert bk (insert b U)) (G @ [fst b + 16])" "b \<notin> U" "bk \<notin> insert b U"
    "task_created (fst b + 16) (new_task (tm_task_id_count (sys_tm s)) name cpu (fst bk + 16) trampoline task_fn arg) s s'"
    using create_with_cpu_any [OF assms] by blast
  have "s\<lparr>sc_cpus := sc_cpus s\<rparr> = s" "s'\<lparr>sc_cpus := sc_cpus s\<rparr> = s'" using s'(5) by (simp_all add: task_created_def flip: surjective)
  then have "task_manager_create_with_cpu li trampoline junk jnode task_fn arg name cpu s = Inr (fst b + 16, s')"
    using s'(1) [rule_format, of "sc_cpus s"] by simp
  with s'(2-5) show ?thesis by blast
qed

section \<open>Looking up a task\<close>

lemma lookup_loop_spec:
  assumes "dlseg (ts_nodes s) pv (map (\<lambda>t. t + global_node) ts) nullptr" and "set ts \<subseteq> dom (ts_tasks s)"
  shows "lookup_loop tid s (first_of (map (\<lambda>t. t + global_node) ts) nullptr) =
    Some (Inr (case find (\<lambda>t. map_option t_tid (ts_tasks s t) = Some tid) ts of None \<Rightarrow> nullptr | Some t \<Rightarrow> t))"
  using assms
proof (induction ts arbitrary: pv)
  case Nil
  then show ?case by (simp add: lookup_loop.simps)
next
  case (Cons t ts)
  obtain tk where tk: "ts_tasks s t = Some tk" using Cons.prems(2) by auto
  have "t + global_node \<noteq> nullptr" "ts_nodes s (t + global_node) =
      Some \<lparr>n_next = first_of (map (\<lambda>t. t + global_node) ts) nullptr, n_prev = pv\<rparr>"
    "dlseg (ts_nodes s) (t + global_node) (map (\<lambda>t. t + global_node) ts) nullptr"
    using Cons.prems(1) by simp_all
  with tk Cons show ?case by (simp add: lookup_loop.simps [of tid s "t + global_node"] Let_def)
qed

lemma task_manager_lookup_spec:
  assumes inv: "sys_inv li s Q W T xs bs U G"
  shows "\<exists>r. task_manager_lookup tid s = Inr (r, s\<lparr>ts_core := irq_cycle (ts_core s)\<rparr>) \<and>
    (\<forall>t tk. ts_tasks s t = Some tk \<longrightarrow> t_tid tk = tid \<longrightarrow> r = t) \<and>
    ((\<forall>t tk. ts_tasks s t = Some tk \<longrightarrow> t_tid tk \<noteq> tid) \<longrightarrow> r = nullptr)"
proof -
  note i = sys_invD [OF inv]
  let ?P = "\<lambda>t. map_option t_tid (ts_tasks s t) = Some tid"
  let ?r = "case find ?P G of None \<Rightarrow> nullptr | Some t \<Rightarrow> t"
  have G: "dlseg (ts_nodes s) nullptr (map (\<lambda>t. t + global_node) G) nullptr"
    "il_head (tm_tasks (sys_tm s)) = first_of (map (\<lambda>t. t + global_node) G) nullptr"
    using i(6) by (simp_all add: list_rep_def il_rep_def)
  have "lookup_loop tid s (il_head (tm_tasks (sys_tm s))) = Some (Inr ?r)"
    using lookup_loop_spec [OF G(1)] i(7) G(2) by simp
  then have "task_manager_lookup tid s = Inr (?r, s\<lparr>ts_core := irq_cycle (ts_core s)\<rparr>)"
    using scoped_return [OF queues_okD(3) [OF i(1)] i(5), of ?r] by (cases s) (simp add: task_manager_lookup_def)
  moreover have "?r = t" if t: "ts_tasks s t = Some tk" "t_tid tk = tid" for t tk
  proof -
    have G: "t \<in> set G" "?P t" using i(7) t by auto
    obtain u where u: "find ?P G = Some u" using G by (cases "find ?P G") (auto simp: find_None_iff)
    then obtain uk where "ts_tasks s u = Some uk" "t_tid uk = tid" by (auto simp: find_Some_iff)
    then have "u = t" using i(10) [of u uk t tk] t by simp
    with u show ?thesis by simp
  qed
  moreover have "?r = nullptr" if "\<forall>t tk. ts_tasks s t = Some tk \<longrightarrow> t_tid tk \<noteq> tid"
  proof -
    have "find ?P G = None" using that by (auto simp: find_None_iff)
    then show ?thesis by simp
  qed
  ultimately show ?thesis by blast
qed

section \<open>Bringing up a cpu\<close>

lemma sys_inv_set_cpu:
  assumes inv: "sys_inv li s Q W T xs bs U G" and c: "sc_cpus s p = Some c" "cpu_current c = nullptr" "cpu_idle c = nullptr"
    and Q: "Q p = []" and c': "rq_rep (cpu_runnable_tasks c') (ts_nodes s) []" "cpu_current c' = nullptr"
    "cpu_online c' \<Longrightarrow> \<exists>tk. ts_tasks s (cpu_idle c') = Some tk \<and> t_cpu tk = p \<and> t_state tk = TASK_READY"
  shows "sys_inv li (set_cpu p c' s) Q W T xs bs U G"
proof -
  note i = sys_invD [OF inv]
  have "queues_ok (set_cpu p c' s) Q W"
    using i(1) c'(1) Q by (simp add: queues_ok_def store_ok_def)
  moreover have "states_ok (ts_tasks s) ((sc_cpus s)(p \<mapsto> c')) (sc_waits s) Q W"
  proof (rule states_okI)
    show "cpu_ok (ts_tasks s) Q p1 c1" if "((sc_cpus s)(p \<mapsto> c')) p1 = Some c1" for p1 c1
      using that states_okD(1) [OF i(2), of p1 "if p1 = p then c else c1"] c Q c'(3) by (auto simp: cpu_ok_def split: if_splits)
    show "task_ok ((sc_cpus s)(p \<mapsto> c')) (sc_waits s) W t tk" if t: "ts_tasks s t = Some tk" for t tk
    proof (rule task_ok_cpus [OF states_okD(2) [OF i(2) t]])
      fix c1 assume c1: "sc_cpus s (t_cpu tk) = Some c1" "cpu_current c1 = t \<or> cpu_idle c1 = t"
      then have "t_cpu tk \<noteq> p" using c t null_no_task [OF i(1)] by auto
      then show "\<exists>c''. ((sc_cpus s)(p \<mapsto> c')) (t_cpu tk) = Some c'' \<and> (cpu_current c'' = t \<or> cpu_idle c'' = t)" using c1 by auto
    qed
  qed (rule states_okD(3) [OF i(2)])
  moreover have "current_ok (ts_tasks s) p1 c1" if "((sc_cpus s)(p \<mapsto> c')) p1 = Some c1" for p1 c1
    using that i(3) c'(2) by (cases "p1 = p") (auto simp: current_ok_def)
  moreover have "sys_heap (set_cpu p c' s) = sys_heap s" "sys_vm (set_cpu p c' s) = sys_vm s" "sys_tm (set_cpu p c' s) = sys_tm s"
    by (simp_all add: set_cpu_def)
  ultimately show ?thesis using i(4-10) unfolding sys_inv_def by simp
qed

text \<open>
  The object of a cpu after its initialisation.  It is the only cpu that is read or written, so the
  initialisation runs in the same way whatever the others are.
\<close>

definition brought_up :: "u64 \<Rightarrow> ptr \<Rightarrow> cpu \<Rightarrow> cpu" where
  "brought_up mpidr idle c = c\<lparr>cpu_cpuid := cpu_get_cpuid mpidr, cpu_runnable_tasks := runqueue_init ''Runnable Task'',
     cpu_idle := idle, cpu_current := nullptr, cpu_online := True\<rparr>"

lemma common_cpu_init_any:
  assumes inv: "sys_inv li s Q W T xs bs U G" and cpu: "p = this_cpu (ts_core s)" and c: "sc_cpus s p = Some c"
    and new: "cpu_current c = nullptr" "cpu_idle c = nullptr" "\<not> cpu_online c" "Q p = []" and cnt: "tm_task_id_count (sys_tm s) \<noteq> - 1"
    and fit: "fl_take (sizeof_task + 16) bs = Some (b, bs1)" "fl_take (TASK_STACK_SIZE + 16) bs1 = Some (bk, bs2)"
  defines "t \<equiv> fst b + 16"
  shows "\<exists>s'. (\<forall>X c0. X p = Some c0 \<longrightarrow> common_cpu_init_tasks li trampoline junk jnode task_idle mpidr (s\<lparr>sc_cpus := X\<rparr>) =
      Inr (s'\<lparr>sc_cpus := X(p \<mapsto> brought_up mpidr t c0)\<rparr>)) \<and>
    sys_inv li (set_cpu p (brought_up mpidr t c) s') Q W T xs bs2 (insert bk (insert b U)) (G @ [t]) \<and>
    task_created t (new_task (tm_task_id_count (sys_tm s)) ''idle'' p (fst bk + 16) trampoline task_idle nullptr) s s'"
proof -
  let ?tk = "new_task (tm_task_id_count (sys_tm s)) ''idle'' p (fst bk + 16) trampoline task_idle nullptr"
  obtain s' where s': "\<And>X. task_manager_create_with_cpu li trampoline junk jnode task_idle nullptr ''idle'' p (s\<lparr>sc_cpus := X\<rparr>) =
      Inr (t, s'\<lparr>sc_cpus := X\<rparr>)"
    "sys_inv li s' Q W T xs bs2 (insert bk (insert b U)) (G @ [t])" "task_created t ?tk s s'"
    using create_with_cpu_any [OF inv cnt fit, of trampoline junk jnode task_idle nullptr "''idle''" p] unfolding t_def by blast
  have tc: "ts_tasks s' t = Some ?tk" "sc_cpus s' = sc_cpus s" "CPUS s' = CPUS s" using s'(3) by (simp_all add: task_created_def)
  have "common_cpu_init_tasks li trampoline junk jnode task_idle mpidr (s\<lparr>sc_cpus := X\<rparr>) = Inr (s'\<lparr>sc_cpus := X(p \<mapsto> brought_up mpidr t c0)\<rparr>)"
    if "X p = Some c0" for X c0
    using that s'(1) [of "X(p \<mapsto> c0\<lparr>cpu_cpuid := cpu_get_cpuid mpidr, cpu_runnable_tasks := runqueue_init ''Runnable Task''\<rparr>)"]
    by (simp add: common_cpu_init_tasks_def Let_def cpu [symmetric] cpu_at_def set_cpu_def brought_up_def)
  moreover have "sys_inv li (set_cpu p (brought_up mpidr t c) s') Q W T xs bs2 (insert bk (insert b U)) (G @ [t])"
    by (rule sys_inv_set_cpu [OF s'(2) _ _ _ new(4)])
      (use new c tc runqueue_init_rep in \<open>simp_all add: new_task_def brought_up_def\<close>)
  ultimately show ?thesis using s'(3) by blast
qed

lemma common_cpu_init_spec:
  assumes inv: "sys_inv li s Q W T xs bs U G" and cpu: "p = this_cpu (ts_core s)" and c: "sc_cpus s p = Some c"
    and new: "cpu_current c = nullptr" "cpu_idle c = nullptr" "\<not> cpu_online c" "Q p = []" and cnt: "tm_task_id_count (sys_tm s) \<noteq> - 1"
    and fit: "fl_take (sizeof_task + 16) bs = Some (b, bs1)" "fl_take (TASK_STACK_SIZE + 16) bs1 = Some (bk, bs2)"
  shows "\<exists>s' c'. common_cpu_init_tasks li trampoline junk jnode task_idle mpidr s = Inr s' \<and>
    sys_inv li s' Q W T xs bs2 (insert bk (insert b U)) (G @ [fst b + 16]) \<and> sched_inv s' Q W \<and>
    sc_cpus s' p = Some c' \<and> cpu_online c' \<and> cpu_idle c' = fst b + 16 \<and> cpu_cpuid c' = cpu_get_cpuid mpidr \<and>
    this_cpu (ts_core s') = p \<and> dom (sc_cpus s') = dom (sc_cpus s) \<and> CPUS s' = CPUS s \<and>
    tm_task_id_count (sys_tm s') = tm_task_id_count (sys_tm s) + 1"
proof -
  let ?t = "fst b + 16" and ?c = "brought_up mpidr (fst b + 16) c"
  let ?tk = "new_task (tm_task_id_count (sys_tm s)) ''idle'' p (fst bk + 16) trampoline task_idle nullptr"
  obtain s2 where s2: "\<And>X c0. X p = Some c0 \<Longrightarrow> common_cpu_init_tasks li trampoline junk jnode task_idle mpidr (s\<lparr>sc_cpus := X\<rparr>) =
      Inr (s2\<lparr>sc_cpus := X(p \<mapsto> brought_up mpidr ?t c0)\<rparr>)"
    "sys_inv li (set_cpu p ?c s2) Q W T xs bs2 (insert bk (insert b U)) (G @ [?t])" "task_created ?t ?tk s s2"
    using common_cpu_init_any [OF inv cpu c new cnt fit, of trampoline junk jnode task_idle mpidr] by blast
  have tc: "sc_cpus s2 = sc_cpus s" "CPUS s2 = CPUS s" "irq_view (ts_core s2) = irq_view (ts_core s)"
    "tm_task_id_count (sys_tm s2) = tm_task_id_count (sys_tm s) + 1" using s2(3) by (simp_all add: task_created_def)
  let ?s3 = "set_cpu p ?c s2"
  have this3: "this_cpu (ts_core ?s3) = p" using tc(3) cpu by (simp add: irq_view_def)
  have "sched_inv ?s3 Q W" using sys_invD(1-3) [OF s2(2)] this3 unfolding sched_inv_def by (simp add: brought_up_def)
  moreover have "common_cpu_init_tasks li trampoline junk jnode task_idle mpidr s = Inr ?s3"
    using s2(1) [of "sc_cpus s" c] c tc(1) by (simp add: set_cpu_def)
  ultimately show ?thesis
    using s2(2) this3 tc c by (intro exI [of _ ?s3] exI [of _ ?c]) (auto simp: set_cpu_def brought_up_def)
qed

section \<open>A system at boot\<close>

definition boot_sys :: "kheap \<Rightarrow> vmm \<Rightarrow> ksys" where
  "boot_sys kh v = \<lparr>ts_tasks = Map.empty, ts_nodes = Map.empty,
     ts_core = \<lparr>this_cpu = 0x10000, daif = 0, irq_disable_depth = 0, irq_was_enabled = False\<rparr>, CPUS = 0x10000,
     sc_cpus = (\<lambda>p. if p \<in> set (map (\<lambda>i. 0x10000 + i * sizeof_cpu) (word_range 0 CONFIG_MAX_CPU_COUNT)) then Some offline_cpu else None),
     sc_waits = Map.empty, sc_regs = zero_context, sys_heap = kh, sys_vm = v, sys_tm = task_manager_init\<rparr>"

lemma boot_sys_inv:
  assumes "kheap_inv li kh v T xs bs {}"
  shows "sys_inv li (boot_sys kh v) (\<lambda>_. []) (\<lambda>_. []) T xs bs {} []"
proof -
  let ?s = "boot_sys kh v"
  have core: "core_ok (Suc (Suc 0)) (ts_core ?s)" by (simp add: boot_sys_def core_ok_def)
  have off: "c = offline_cpu \<and> p \<noteq> nullptr" if "sc_cpus ?s p = Some c" for p c
    using that by (auto simp: boot_sys_def demo_range sizeof_cpu_def split: if_splits)
  have rq: "rq_rep (cpu_runnable_tasks c) (ts_nodes ?s) []" if "sc_cpus ?s p = Some c" for p c
    using off [OF that] runqueue_init_rep by (simp add: offline_cpu_def)
  have none: "ts_tasks ?s = Map.empty" "sc_waits ?s = Map.empty" by (simp_all add: boot_sys_def)
  have "queues_ok ?s (\<lambda>_. []) (\<lambda>_. [])"
    using core rq none unfolding queues_ok_def store_ok_def tasks_apart_def by simp
  moreover have "states_ok (ts_tasks ?s) (sc_cpus ?s) (sc_waits ?s) (\<lambda>_. []) (\<lambda>_. [])"
  proof (rule states_okI)
    show "cpu_ok (ts_tasks ?s) (\<lambda>_. []) p c" if "sc_cpus ?s p = Some c" for p c
      using off [OF that] by (simp add: cpu_ok_def offline_cpu_def)
  qed (simp_all add: none)
  moreover have "current_ok (ts_tasks ?s) p c" if "sc_cpus ?s p = Some c" for p c
    using off [OF that] by (simp add: current_ok_def offline_cpu_def)
  moreover have "kheap_inv li kh (set_core (ts_core ?s) v) T xs bs {}" by (rule kheap_inv_core [OF assms core])
  moreover have "sys_heap ?s = kh" "sys_vm ?s = v" "sys_tm ?s = task_manager_init" "dom (ts_tasks ?s) = {}"
    by (simp_all add: boot_sys_def)
  ultimately show ?thesis
    unfolding sys_inv_def by (auto simp: task_manager_init_def list_rep_init)
qed

lemma INITIAL_HEAP_SIZE_value: "INITIAL_HEAP_SIZE = 5001216"
  using unat_round_up_page [of 5000000] by (simp add: INITIAL_HEAP_SIZE_def word_unat_eq_iff)

lemma take_task_from_pool:
  assumes "248 \<le> n"
  shows "fl_take (sizeof_task + 16) [(a, n)] = Some ((a, 232), [(a + 232, n - 232)])"
proof -
  have "(16 :: usize) \<le> n - 232" "\<not> n < 232" using assms by (simp_all add: word_le_nat_alt unat_sub word_less_nat_alt)
  then show ?thesis by (simp add: fl_take_def sizeof_task_def)
qed

lemma take_stack_from_pool:
  assumes "16416 \<le> n"
  shows "fl_take (TASK_STACK_SIZE + 16) [(a, n)] = Some ((a, 16400), [(a + 16400, n - 16400)])"
proof -
  have "(16 :: usize) \<le> n - 16400" "\<not> n < 16400" using assms by (simp_all add: word_le_nat_alt unat_sub word_less_nat_alt)
  then show ?thesis by (simp add: fl_take_def TASK_STACK_SIZE_def)
qed

lemma boot_exists:
  "\<exists>li kh v T xs pool. sys_inv li (boot_sys kh v) (\<lambda>_. []) (\<lambda>_. []) T xs [(pool, 5001216)] {} []"
proof -
  obtain v T xs where d: "vmm_inv (sized_map 8000) v T xs" "length xs = 8000 - 1" "core_ok (Suc (Suc 0)) (vm_core v)"
    "\<not> region_exhausted (region_of KernelMemRegion v) (vm_mem v) 1221"
    using sized_vmm [of 8000 1221] by auto
  have "4 * 1221 \<le> length xs" using d(2) by simp
  from kheap_init_spec [OF d(1,3) this d(4)] obtain pool kh v1 T1 ys where
    "kheap_inv (sized_map 8000) kh v1 T1 ys [(pool, INITIAL_HEAP_SIZE)] {}" by blast
  from boot_sys_inv [OF this] show ?thesis unfolding INITIAL_HEAP_SIZE_value by blast
qed

lemma boot_sys_fields:
  "this_cpu (ts_core (boot_sys kh v)) = 0x10000" "sc_cpus (boot_sys kh v) 0x10000 = Some offline_cpu"
  "sys_tm (boot_sys kh v) = task_manager_init" "cpu_array (boot_sys kh v)"
  by (auto simp: boot_sys_def demo_range cpu_array_def cpu_slot_def sizeof_cpu_def split: if_splits)

section \<open>Properties\<close>

text \<open>
  Bringing up a cpu.  On a cpu that is not yet online, with room in the free list for a task
  and its stack, \<open>common_cpu_init_tasks\<close> returns with the cpu online, its idle task created and
  ready, and its run queue empty; the invariant of the scheduler then holds, and so does that
  of the whole system.
\<close>

lemma cpu_init_establishes_invariant:
  assumes "sys_inv li s Q W T xs bs U G" and "p = this_cpu (ts_core s)" and "sc_cpus s p = Some c"
    and "cpu_current c = nullptr" and "cpu_idle c = nullptr" and "\<not> cpu_online c" and "Q p = []"
    and "tm_task_id_count (sys_tm s) \<noteq> - 1"
    and "fl_take (sizeof_task + 16) bs = Some (b, bs1)" and "fl_take (TASK_STACK_SIZE + 16) bs1 = Some (bk, bs2)"
  shows "\<exists>s' c'. common_cpu_init_tasks li trampoline junk jnode task_idle mpidr s = Inr s' \<and> sched_inv s' Q W \<and>
    sys_inv li s' Q W T xs bs2 (insert bk (insert b U)) (G @ [fst b + 16]) \<and>
    sc_cpus s' p = Some c' \<and> cpu_online c' \<and> cpu_idle c' = fst b + 16 \<and> cpu_cpuid c' = cpu_get_cpuid mpidr"
  using common_cpu_init_spec [OF assms] by blast

text \<open>
  C8.  Creating a task.  With room in the free list for the task and its stack,
  \<open>task_manager_create\<close> puts a new task on an online cpu with the shortest run queue.  The task is
  ready, belongs to that cpu, has an unused id and a stack of its own, starts at the trampoline
  with the stack pointer at the top of its stack, and is registered last.  Its block and its
  stack are new blocks of the heap, all invariants of heap, scheduler and task store hold again,
  and no other task, cpu or wait queue changes.
\<close>

theorem task_create_correct:
  assumes "sys_inv li s Q W T xs bs U G" and "sched_inv s Q W" and "cpu_array s" and "tm_task_id_count (sys_tm s) \<noteq> - 1"
    and "fl_take (sizeof_task + 16) bs = Some (b, bs1)" and "fl_take (TASK_STACK_SIZE + 16) bs1 = Some (bk, bs2)"
  shows "\<exists>p c s'. task_manager_create li trampoline junk jnode task_fn arg name s = Inr (fst b + 16, s') \<and>
    sc_cpus s p = Some c \<and> cpu_online c \<and>
    (\<forall>p' c'. sc_cpus s p' = Some c' \<longrightarrow> cpu_online c' \<longrightarrow> length (Q p) \<le> length (Q p')) \<and>
    sys_inv li s' Q W T xs bs2 (insert bk (insert b U)) (G @ [fst b + 16]) \<and> sched_inv s' Q W \<and>
    b \<notin> U \<and> bk \<notin> insert b U \<and>
    task_created (fst b + 16) (new_task (tm_task_id_count (sys_tm s)) name p (fst bk + 16) trampoline task_fn arg) s s'"
proof -
  obtain p c where p: "scheduler_pick_cpu s = Inr p" "sc_cpus s p = Some c" "cpu_online c"
    "\<forall>p' c'. sc_cpus s p' = Some c' \<longrightarrow> cpu_online c' \<longrightarrow> length (Q p) \<le> length (Q p')"
    using scheduler_pick_cpu_spec [OF assms(2,3)] by blast
  obtain s' where s': "task_manager_create_with_cpu li trampoline junk jnode task_fn arg name p s = Inr (fst b + 16, s')"
    "sys_inv li s' Q W T xs bs2 (insert bk (insert b U)) (G @ [fst b + 16])" "b \<notin> U" "bk \<notin> insert b U"
    "task_created (fst b + 16) (new_task (tm_task_id_count (sys_tm s)) name p (fst bk + 16) trampoline task_fn arg) s s'"
    using create_with_cpu_spec [OF assms(1,4-6)] by blast
  have "sc_cpus s' = sc_cpus s" "this_cpu (ts_core s') = this_cpu (ts_core s)"
    using s'(5) by (simp_all add: task_created_def irq_view_def)
  then have "sched_inv s' Q W" using sys_invD(1-3) [OF s'(2)] assms(2) unfolding sched_inv_def by simp
  then show ?thesis using p s' by (intro exI [of _ p] exI [of _ c] exI [of _ s']) (simp add: task_manager_create_def)
qed

theorem task_create_correct_witness:
  "\<exists>li (s :: ksys) task s' tk. task_manager_create li 0xffffffff80000000 (demo_task '''' 0) detached 0xffffffff80002000 0 ''init'' s = Inr (task, s') \<and>
     ts_tasks s' task = Some tk \<and> t_state tk = TASK_READY \<and> t_name tk = ''init'' \<and> t_tid tk = 2 \<and>
     cx_lr (t_context tk) = 0xffffffff80000000"
proof -
  obtain li kh v T xs pool where inv: "sys_inv li (boot_sys kh v) (\<lambda>_. []) (\<lambda>_. []) T xs [(pool, 5001216)] {} []"
    using boot_exists by blast
  have fits: "fl_take (sizeof_task + 16) [(pool, 5001216)] = Some ((pool, 232), [(pool + 232, 5000984)])"
    "fl_take (TASK_STACK_SIZE + 16) [(pool + 232, 5000984)] = Some ((pool + 232, 16400), [(pool + 16632, 4984584)])"
    "fl_take (sizeof_task + 16) [(pool + 16632, 4984584)] = Some ((pool + 16632, 232), [(pool + 16864, 4984352)])"
    "fl_take (TASK_STACK_SIZE + 16) [(pool + 16864, 4984352)] = Some ((pool + 16864, 16400), [(pool + 33264, 4967952)])"
    using take_task_from_pool [of 5001216 pool] take_stack_from_pool [of 5000984 "pool + 232"]
      take_task_from_pool [of 4984584 "pool + 16632"] take_stack_from_pool [of 4984352 "pool + 16864"] by (simp_all add: add.assoc)
  have cnt: "tm_task_id_count (sys_tm (boot_sys kh v)) \<noteq> - 1" by (simp add: boot_sys_fields(3) task_manager_init_def)
  have off: "cpu_current offline_cpu = nullptr" "cpu_idle offline_cpu = nullptr" "\<not> cpu_online offline_cpu"
    by (simp_all add: offline_cpu_def)
  obtain s1 :: ksys where s1: "sys_inv li s1 (\<lambda>_. []) (\<lambda>_. []) T xs [(pool + 16632, 4984584)] (insert (pool + 232, 16400) {(pool, 232)}) [pool + 16]"
    "sched_inv s1 (\<lambda>_. []) (\<lambda>_. [])" "dom (sc_cpus s1) = dom (sc_cpus (boot_sys kh v))" "CPUS s1 = CPUS (boot_sys kh v)"
    "tm_task_id_count (sys_tm s1) = 2"
    using common_cpu_init_spec [OF inv boot_sys_fields(1) [symmetric] boot_sys_fields(2) off _ cnt fits(1,2),
        of 0 "demo_task ''x'' 0" detached 0 0]
    by (simp add: boot_sys_fields(3) task_manager_init_def) (elim exE conjE, rule that; simp)
  have arr: "cpu_array s1" using boot_sys_fields(4) s1(3,4) by (simp add: cpu_array_def cpu_slot_def)
  have "tm_task_id_count (sys_tm s1) \<noteq> - 1" using s1(5) by simp
  from task_create_correct [OF s1(1,2) arr this fits(3,4),
      of "0xffffffff80000000" "demo_task '''' 0" detached "0xffffffff80002000" 0 "''init''"] obtain p s' where
    "task_manager_create li 0xffffffff80000000 (demo_task '''' 0) detached 0xffffffff80002000 0 ''init'' s1 = Inr (pool + 16648, s')"
    "task_created (pool + 16648) (new_task 2 ''init'' p (pool + 16880) 0xffffffff80000000 0xffffffff80002000 0) s1 s'"
    using s1(5) by (auto simp: add.assoc)
  then show ?thesis
    by (intro exI [of _ li] exI [of _ s1] exI [of _ "pool + 16648"] exI [of _ s']) (simp add: task_created_def new_task_def)
qed

text \<open>
  C31.  Looking up a task.  \<open>task_manager_lookup\<close> always returns: with the task that has the given
  id, or with null if there is none.  Only the interrupt state is touched.
\<close>

theorem task_lookup_finds:
  assumes "sys_inv li s Q W T xs bs U G"
  shows "\<exists>r. task_manager_lookup tid s = Inr (r, s\<lparr>ts_core := irq_cycle (ts_core s)\<rparr>) \<and>
    (\<forall>t tk. ts_tasks s t = Some tk \<longrightarrow> t_tid tk = tid \<longrightarrow> r = t) \<and>
    ((\<forall>t tk. ts_tasks s t = Some tk \<longrightarrow> t_tid tk \<noteq> tid) \<longrightarrow> r = nullptr)"
  using assms by (rule task_manager_lookup_spec)

theorem task_lookup_finds_witness:
  "\<exists>kh v s'. task_manager_lookup 7 (boot_sys kh v) = Inr (nullptr, s')"
proof -
  obtain li kh v T xs pool where inv: "sys_inv li (boot_sys kh v) (\<lambda>_. []) (\<lambda>_. []) T xs [(pool, 5001216)] {} []"
    using boot_exists by blast
  from task_lookup_finds [OF inv, of 7] show ?thesis by (auto simp: boot_sys_def)
qed

end
