(* ===== verification/Stdlib.thy ===== *)
theory Stdlib
  imports Common_Defs CString
begin

text \<open>
  The character classes of \<open>lib/include/ctype.h\<close> and \<open>strtoul\<close> of \<open>lib/stdlib.c\<close>.
  The C function works on machine words, guards the multiplication with a precomputed cutoff and
  scans a string in memory; \<open>strtoul_ref\<close> is the reference: it takes a list of bytes apart and
  computes with unbounded numbers, saturating once at the end.  Plain \<open>char\<close> is unsigned on
  AArch64, so every read of a character is a zero extension.
\<close>

section \<open>Character classes\<close>

definition isdigit :: "32 word \<Rightarrow> bool" where
  "isdigit c \<longleftrightarrow> c - 48 < 10"

definition isalpha :: "32 word \<Rightarrow> bool" where
  "isalpha c \<longleftrightarrow> (c OR 32) - 97 < 26"

definition isupper :: "32 word \<Rightarrow> bool" where
  "isupper c \<longleftrightarrow> c - 65 < 26"

definition isspace :: "32 word \<Rightarrow> bool" where
  "isspace c \<longleftrightarrow> c = 32 \<or> c - 9 < 5"

section \<open>The conversion\<close>

partial_function (option) skip_space :: "mem \<Rightarrow> ptr \<Rightarrow> (32 word \<times> ptr) option" where
  "skip_space m s =
     (let c = ucast (m s); s = s + 1 in if isspace c then skip_space m s else Some (c, s))"

definition digit_value :: "32 word \<Rightarrow> 32 word option" where
  "digit_value c =
     (if isdigit c then Some (c - 48)
      else if isalpha c then Some (c - (if isupper c then 65 - 10 else 97 - 10))
      else None)"

partial_function (option) digits_loop ::
  "mem \<Rightarrow> 64 word \<Rightarrow> u64 \<Rightarrow> 32 word \<Rightarrow> 32 word \<Rightarrow> ptr \<Rightarrow> u64 \<Rightarrow> int \<Rightarrow> (u64 \<times> int \<times> ptr) option" where
  "digits_loop m base cutoff cutlim c s acc any =
     (case digit_value c of
        None \<Rightarrow> Some (acc, any, s)
      | Some d \<Rightarrow>
          if sint d \<ge> sint base then Some (acc, any, s)
          else if any < 0 then digits_loop m base cutoff cutlim (ucast (m s)) (s + 1) acc any
          else if acc > cutoff \<or> acc = cutoff \<and> sint d > sint cutlim
          then digits_loop m base cutoff cutlim (ucast (m s)) (s + 1) (- 1) (- 1)
          else digits_loop m base cutoff cutlim (ucast (m s)) (s + 1) (acc * base + scast d) 1)"

text \<open>The sign, then the prefix and the base it selects.\<close>

definition read_sign :: "mem \<Rightarrow> 32 word \<Rightarrow> ptr \<Rightarrow> bool \<times> 32 word \<times> ptr" where
  "read_sign m c s =
     (if c = 45 then (True, ucast (m s), s + 1)
      else if c = 43 then (False, ucast (m s), s + 1)
      else (False, c, s))"

definition read_prefix :: "mem \<Rightarrow> 64 word \<Rightarrow> 32 word \<Rightarrow> ptr \<Rightarrow> 64 word \<times> 32 word \<times> ptr" where
  "read_prefix m base c s =
     (let (base, c, s) =
        (if (base = 0 \<or> base = 16) \<and> c = 48 \<and> (m s = 120 \<or> m s = 88)
         then (16, ucast (m (s + 1)), s + 2) else (base, c, s))
      in (if base = 0 then if c = 48 then 8 else 10 else base, c, s))"

definition strtoul :: "mem \<Rightarrow> ptr \<Rightarrow> ptr \<Rightarrow> 64 word \<Rightarrow> kerror + u64 \<times> mem" where
  "strtoul m nptr endptr base =
     bindE (endsE (skip_space m nptr)) (\<lambda>(c, s).
     let (neg, c, s) = read_sign m c s;
         (base, c, s) = read_prefix m base c s;
         cutoff = (- 1) div base;
         cutlim = ucast ((- 1 :: u64) mod base)
     in bindE (endsE (digits_loop m base cutoff cutlim c s 0 0)) (\<lambda>(acc, any, s).
        let acc = (if neg \<and> any > 0 then - acc else acc)
        in Inr (acc, if endptr \<noteq> nullptr
                     then store64 m endptr (if any \<noteq> 0 then s - 1 else nptr) else m)))"

section \<open>The reference\<close>

definition space_byte :: "u8 \<Rightarrow> bool" where
  "space_byte b \<longleftrightarrow> b = 32 \<or> 9 \<le> b \<and> b \<le> 13"

definition digit_of :: "u8 \<Rightarrow> nat option" where
  "digit_of b =
     (if 48 \<le> b \<and> b \<le> 57 then Some (unat b - 48)
      else if 65 \<le> b \<and> b \<le> 90 then Some (unat b - 55)
      else if 97 \<le> b \<and> b \<le> 122 then Some (unat b - 87) else None)"

definition digit_below :: "nat \<Rightarrow> u8 \<Rightarrow> bool" where
  "digit_below base b \<longleftrightarrow> (case digit_of b of None \<Rightarrow> False | Some d \<Rightarrow> d < base)"

definition numeral_value :: "nat \<Rightarrow> u8 list \<Rightarrow> nat" where
  "numeral_value base = foldl (\<lambda>a b. a * base + the (digit_of b)) 0"

definition split_sign :: "u8 list \<Rightarrow> bool \<times> u8 list" where
  "split_sign bs =
     (case bs of [] \<Rightarrow> (False, []) | b # r \<Rightarrow> if b = 45 then (True, r) else if b = 43 then (False, r) else (False, bs))"

definition split_prefix :: "nat \<Rightarrow> u8 list \<Rightarrow> nat \<times> u8 list" where
  "split_prefix base bs =
     (if (base = 0 \<or> base = 16) \<and> (take 2 bs = [48, 120] \<or> take 2 bs = [48, 88]) then (16, drop 2 bs)
      else (if base = 0 then if take 1 bs = [48] then 8 else 10 else base, bs))"

definition saturate :: "bool \<Rightarrow> nat \<Rightarrow> u64" where
  "saturate neg v = (if v \<ge> 2 ^ 64 then - 1 else if neg then - of_nat v else of_nat v)"

text \<open>The value, and how many bytes of the string were used (none when there is no digit).\<close>

definition strtoul_ref :: "nat \<Rightarrow> u8 list \<Rightarrow> u64 \<times> nat" where
  "strtoul_ref base bs =
     (let (neg, r) = split_sign (dropWhile space_byte bs);
          (base, r) = split_prefix base r;
          ds = takeWhile (digit_below base) r
      in if ds = [] then (0, 0)
         else (saturate neg (numeral_value base ds), length bs - length r + length ds))"

section \<open>Bytes\<close>

lemma unat_byte32 [simp]: "unat (ucast (b :: u8) :: 32 word) = unat b"
  by (simp add: unsigned_ucast_eq take_bit_nat_eq_self_iff order.strict_trans [OF unsigned_less])

lemma byte32_eq: "(ucast (b :: u8) :: 32 word) = c \<longleftrightarrow> unat b = unat c"
  by (simp add: word_unat_eq_iff)

lemma unat_byte_lt: "unat (b :: u8) < 256"
  using unsigned_less [of b, where ?'a = nat] by simp

text \<open>Setting bit 5 makes a letter a lower case letter; checked on all bytes.\<close>

lemma letters: "list_all (\<lambda>n. (word_of_nat n OR 32 :: 32 word) - 97 < 26 \<longleftrightarrow> 65 \<le> n \<and> n \<le> 90 \<or> 97 \<le> n \<and> n \<le> 122) [0..<256]"
  by code_simp

lemma isalpha_byte: "isalpha (ucast (b :: u8)) \<longleftrightarrow> 65 \<le> unat b \<and> unat b \<le> 90 \<or> 97 \<le> unat b \<and> unat b \<le> 122"
proof -
  have "(ucast b :: 32 word) = word_of_nat (unat b)" by (simp add: word_unat_eq_iff unat_of_nat less_trans [OF unat_byte_lt])
  moreover have "unat b \<in> set [0..<256]" using unat_byte_lt by simp
  ultimately show ?thesis using letters unfolding list_all_iff isalpha_def by metis
qed

lemma byte_ranges:
  "isdigit (ucast (b :: u8)) \<longleftrightarrow> 48 \<le> unat b \<and> unat b \<le> 57"
  "isupper (ucast b) \<longleftrightarrow> 65 \<le> unat b \<and> unat b \<le> 90"
  "isspace (ucast b) \<longleftrightarrow> space_byte b"
  using unat_byte_lt [of b]
  by (auto simp: isdigit_def isupper_def isspace_def space_byte_def word_less_nat_alt word_le_nat_alt
      unat_sub_if' word_unat_eq_iff)

lemma digit_value_byte: "map_option unat (digit_value (ucast (b :: u8))) = digit_of b"
  using unat_byte_lt [of b]
  by (auto simp: digit_value_def digit_of_def byte_ranges isalpha_byte word_le_nat_alt unat_sub_if')

lemma byte_class:
  "isspace (ucast (b :: u8)) = space_byte b"
  "map_option unat (digit_value (ucast b)) = digit_of b"
  "digit_of b = Some d \<Longrightarrow> d < 36"
  "(ucast b :: 32 word) = 45 \<longleftrightarrow> b = 45" "(ucast b :: 32 word) = 43 \<longleftrightarrow> b = 43" "(ucast b :: 32 word) = 48 \<longleftrightarrow> b = 48"
  by (auto simp: byte_ranges digit_value_byte word_unat_eq_iff digit_of_def word_le_nat_alt split: if_splits)

section \<open>Scanning a string\<close>

definition hd0 :: "u8 list \<Rightarrow> u8" where
  "hd0 r = (case r of [] \<Rightarrow> 0 | b # _ \<Rightarrow> b)"

text \<open>
  The scanner holds the current character and the address behind it: \<open>at_rest m r c s\<close> says
  that the rest of the string, from the current character on, is \<open>r\<close>.
\<close>

definition at_rest :: "mem \<Rightarrow> u8 list \<Rightarrow> 32 word \<Rightarrow> ptr \<Rightarrow> bool" where
  "at_rest m r c s \<longleftrightarrow> cstr m (s - 1) r \<and> c = ucast (hd0 r)"

lemma hd0_simps [simp]: "hd0 [] = 0" "hd0 (b # r) = b"
  by (simp_all add: hd0_def)

lemma cstr_hd0: "cstr m s r \<Longrightarrow> m s = hd0 r"
  by (cases r) auto

lemma cstr_at_rest: "cstr m s r \<Longrightarrow> at_rest m r (ucast (m s)) (s + 1)"
  by (simp add: at_rest_def cstr_hd0)

lemma at_rest_Cons:
  assumes "at_rest m (b # r) c s"
  shows "c = ucast b" and "cstr m s r" and "m s = hd0 r" and "at_rest m r (ucast (m s)) (s + 1)"
  using assms cstr_at_rest [of m s r] by (auto simp: at_rest_def cstr_hd0)

lemma space_byte_0 [simp]: "\<not> space_byte 0"
  by (simp add: space_byte_def)

lemma digit_of_0 [simp]: "digit_of 0 = None"
  by (simp add: digit_of_def)

lemma skip_space_cstr:
  assumes "cstr m s bs"
  shows "\<exists>c. skip_space m s = Some (c, s + of_nat (length bs - length (dropWhile space_byte bs)) + 1) \<and>
    at_rest m (dropWhile space_byte bs) c (s + of_nat (length bs - length (dropWhile space_byte bs)) + 1)"
  using assms
proof (induction bs arbitrary: s)
  case Nil
  have "\<not> isspace 0" using byte_class(1) [of 0] by simp
  then show ?case using Nil cstr_at_rest [OF Nil]
    by (subst skip_space.simps) (simp add: Let_def)
next
  case (Cons b bs)
  show ?case
  proof (cases "space_byte b")
    case True
    have "length (dropWhile space_byte bs) \<le> length bs" by (rule length_dropWhile_le)
    then have n: "s + 1 + of_nat (length bs - length (dropWhile space_byte bs)) =
        s + of_nat (Suc (length bs) - length (dropWhile space_byte bs))"
      by (simp add: Suc_diff_le algebra_simps)
    have "skip_space m s = skip_space m (s + 1)"
      using True Cons.prems by (subst skip_space.simps) (simp add: Let_def byte_class)
    with Cons.IH [of "s + 1"] Cons.prems True show ?thesis by (simp add: n)
  next
    case False
    then show ?thesis using Cons.prems cstr_at_rest [OF Cons.prems]
      by (subst skip_space.simps) (auto simp: Let_def byte_class)
  qed
qed

lemma read_sign_rest:
  assumes "at_rest m r c s" and "split_sign r = (neg, r')"
  shows "\<exists>c' s'. read_sign m c s = (neg, c', s') \<and> at_rest m r' c' s' \<and>
    s' = s + of_nat (length r - length r') \<and> length r' \<le> length r"
proof (cases r)
  case Nil
  then show ?thesis using assms by (auto simp: split_sign_def read_sign_def at_rest_def)
next
  case (Cons b q)
  note q = at_rest_Cons [OF assms(1) [unfolded Cons]]
  then show ?thesis
    using assms Cons by (auto simp: split_sign_def read_sign_def byte_class split: if_splits)
qed

definition base_ok :: "nat \<Rightarrow> 64 word \<Rightarrow> bool" where
  "base_ok b base \<longleftrightarrow> base = of_nat b \<and> (b = 0 \<or> 2 \<le> b \<and> b \<le> 36)"

lemma base_ok_eqs:
  assumes "base_ok b base"
  shows "base = 0 \<longleftrightarrow> b = 0" and "base = 16 \<longleftrightarrow> b = 16"
proof -
  have "unat base = b" using assms by (auto simp: base_ok_def unat_of_nat)
  then show "base = 0 \<longleftrightarrow> b = 0" "base = 16 \<longleftrightarrow> b = 16"
    by (auto simp: word_unat_eq_iff)
qed

lemma read_prefix_rest:
  assumes "at_rest m r c s" and "base_ok b base" and "split_prefix b r = (b', r')"
  shows "\<exists>c' s'. read_prefix m base c s = (of_nat b', c', s') \<and> at_rest m r' c' s' \<and>
    s' = s + of_nat (length r - length r') \<and> length r' \<le> length r \<and> 2 \<le> b' \<and> b' \<le> 36"
proof -
  note eqs = base_ok_eqs [OF assms(2)]
  have b: "base = of_nat b" "b = 0 \<or> 2 \<le> b \<and> b \<le> 36" using assms(2) by (auto simp: base_ok_def)
  show ?thesis
  proof (cases "(b = 0 \<or> b = 16) \<and> (take 2 r = [48, 120] \<or> take 2 r = [48, 88])")
    case True
    then obtain x q where r: "r = 48 # x # q" "x = 120 \<or> x = 88"
      by (cases r; cases "tl r") auto
    note q = at_rest_Cons [OF assms(1) [unfolded r(1)]]
    note q' = at_rest_Cons [OF q(4)]
    have s': "m s = x" "at_rest m q (ucast (m (s + 1))) (s + 2)" using q(3) q'(4) by (simp_all add: add.assoc)
    have "read_prefix m base c s = (16, ucast (m (s + 1)), s + 2)"
      using True r q(1) s'(1) by (auto simp: read_prefix_def eqs Let_def)
    moreover have "b' = 16" "r' = q" using assms(3) True r by (auto simp: split_prefix_def)
    ultimately show ?thesis using s'(2) r(1) by simp
  next
    case False
    then have r': "r' = r" "b' = (if b = 0 then if take 1 r = [48] then 8 else 10 else b)"
      using assms(3) unfolding split_prefix_def if_not_P [OF False] by auto
    have no: "\<not> ((base = 0 \<or> base = 16) \<and> c = 48 \<and> (m s = 120 \<or> m s = 88))"
    proof
      assume A: "(base = 0 \<or> base = 16) \<and> c = 48 \<and> (m s = 120 \<or> m s = 88)"
      then obtain q where r: "r = 48 # q"
        using assms(1) by (cases r) (auto simp: at_rest_def byte_class)
      then have "m s = hd0 q" using at_rest_Cons(3) assms(1) by blast
      with A r False show False by (cases q) (auto simp: eqs)
    qed
    have "c = 48 \<longleftrightarrow> take 1 r = [48]"
      using assms(1) by (cases r) (auto simp: at_rest_def byte_class)
    then have "read_prefix m base c s = (of_nat b', c, s)"
      using r'(2) b(1) eqs(1) unfolding read_prefix_def if_not_P [OF no] by (auto simp del: of_nat_eq_0_iff)
    then show ?thesis using assms(1) r' b(2) by auto
  qed
qed

section \<open>The digits\<close>

lemma numeral_value_append: "numeral_value base (ds @ [b]) = numeral_value base ds * base + the (digit_of b)"
  by (simp add: numeral_value_def)

abbreviation numeral_from :: "nat \<Rightarrow> nat \<Rightarrow> u8 list \<Rightarrow> nat" where
  "numeral_from base \<equiv> foldl (\<lambda>a b. a * base + the (digit_of b))"

lemma numeral_from_mono: "0 < base \<Longrightarrow> a \<le> numeral_from base a ds"
proof (induction ds arbitrary: a)
  case (Cons b ds)
  have "a \<le> a * base + the (digit_of b)" using Cons.prems by (simp add: trans_le_add1)
  also have "\<dots> \<le> numeral_from base (a * base + the (digit_of b)) ds" using Cons by blast
  finally show ?case by simp
qed simp

text \<open>The cutoff test is the test for an overflow of the next multiplication and addition.\<close>

lemma cutoff_test:
  fixes M :: nat
  assumes "d < b"
  shows "a > M div b \<or> a = M div b \<and> d > M mod b \<longleftrightarrow> M < a * b + d"
proof -
  have M: "M = M div b * b + M mod b" by simp
  have r: "M mod b < b" using assms by simp
  consider "a < M div b" | "a = M div b" | "M div b < a" by linarith
  then show ?thesis
  proof cases
    case 1
    then have "(a + 1) * b \<le> M div b * b" by (intro mult_le_mono1) simp
    then have "a * b + d \<le> M" using M assms unfolding distrib_right by linarith
    with 1 show ?thesis by simp
  next
    case 2
    have "M < M div b * b + d \<longleftrightarrow> M mod b < d" using M by linarith
    with 2 show ?thesis by simp
  next
    case 3
    then have "(M div b + 1) * b \<le> a * b" by (intro mult_le_mono1) simp
    then have "M < a * b + d" using M r unfolding distrib_right by linarith
    with 3 show ?thesis by simp
  qed
qed

lemma sint_small32: "unat d < 2 ^ 31 \<Longrightarrow> sint (d :: 32 word) = int (unat d)"
proof -
  assume "unat d < 2 ^ 31"
  then have "int (unat d) < int (2 ^ 31)" by (simp only: of_nat_less_iff)
  moreover have "- (2 ^ 31) \<le> uint d" by (rule order_trans [of _ 0]) simp_all
  ultimately show ?thesis unfolding sint_uint by (subst signed_take_bit_int_eq_self) simp_all
qed

lemma sint_small64: "unat d < 2 ^ 63 \<Longrightarrow> sint (d :: 64 word) = int (unat d)"
proof -
  assume "unat d < 2 ^ 63"
  then have "int (unat d) < int (2 ^ 63)" by (simp only: of_nat_less_iff)
  moreover have "- (2 ^ 63) \<le> uint d" by (rule order_trans [of _ 0]) simp_all
  ultimately show ?thesis unfolding sint_uint by (subst signed_take_bit_int_eq_self) simp_all
qed

lemma digit_value_ucast:
  "digit_of x = None \<Longrightarrow> digit_value (ucast x) = None"
  "digit_of x = Some d \<Longrightarrow> \<exists>w. digit_value (ucast x) = Some w \<and> unat w = d \<and> d < 36 \<and> sint w = int d \<and> (scast w :: 64 word) = of_nat d"
proof -
  show "digit_of x = None \<Longrightarrow> digit_value (ucast x) = None"
    using byte_class(2) [of x] by simp
  assume d: "digit_of x = Some d"
  then obtain w where w: "digit_value (ucast x) = Some w" "unat w = d" using byte_class(2) [of x] by auto
  have "d < 36" using byte_class(3) [OF d] .
  then have "sint w = int d" using w(2) by (simp add: sint_small32)
  moreover have "scast w = (of_int (sint w) :: 64 word)" by simp
  ultimately show "\<exists>w. digit_value (ucast x) = Some w \<and> unat w = d \<and> d < 36 \<and> sint w = int d \<and> (scast w :: 64 word) = of_nat d"
    using w \<open>d < 36\<close> by simp
qed

lemma digits_loop_stop:
  assumes "at_rest m r c s" and "takeWhile (digit_below b) r = []" and "base = of_nat b" and "b \<le> 36"
  shows "digits_loop m base cutoff cutlim c s acc any = Some (acc, any, s)"
proof (cases "digit_of (hd0 r)")
  case None
  then show ?thesis using assms(1) digit_value_ucast(1) [OF None]
    by (subst digits_loop.simps) (simp add: at_rest_def)
next
  case (Some d)
  obtain w where w: "digit_value (ucast (hd0 r)) = Some w" "sint w = int d" using digit_value_ucast(2) [OF Some] by blast
  have "b \<le> d" using Some assms(2) by (cases r) (auto simp: digit_below_def split: if_splits)
  moreover have "sint base = int b" using assms(3,4) by (simp add: sint_small64 unat_of_nat)
  ultimately show ?thesis using w assms(1) by (subst digits_loop.simps) (simp add: at_rest_def)
qed

lemma digits_loop_step:
  assumes "at_rest m (x # r) c s" and "digit_of x = Some d" and "d < b" and "base = of_nat b" and "b \<le> 36"
    and "a < 2 ^ 64" and "cutoff = (- 1) div base" and "cutlim = ucast ((- 1 :: u64) mod base)"
  shows "any < 0 \<Longrightarrow> digits_loop m base cutoff cutlim c s acc any =
      digits_loop m base cutoff cutlim (ucast (m s)) (s + 1) acc any"
    and "0 \<le> any \<Longrightarrow> digits_loop m base cutoff cutlim c s (of_nat a) any =
      (if a * b + d < 2 ^ 64 then digits_loop m base cutoff cutlim (ucast (m s)) (s + 1) (of_nat (a * b + d)) 1
       else digits_loop m base cutoff cutlim (ucast (m s)) (s + 1) (- 1) (- 1))"
proof -
  obtain w where w: "digit_value (ucast x) = Some w" "sint w = int d" "(scast w :: 64 word) = of_nat d"
    using digit_value_ucast(2) [OF assms(2)] by blast
  have c: "c = ucast x" using assms(1) by (rule at_rest_Cons)
  have ub: "unat base = b" using assms(4,5) by (simp add: unat_of_nat)
  then have sb: "sint base = int b" using assms(5) by (simp add: sint_small64)
  show "any < 0 \<Longrightarrow> digits_loop m base cutoff cutlim c s acc any =
      digits_loop m base cutoff cutlim (ucast (m s)) (s + 1) acc any"
    using w assms(3) sb by (subst digits_loop.simps) (simp add: c)
  have ua: "unat (of_nat a :: 64 word) = a" using assms(6) by (simp add: unat_of_nat_u64)
  let ?M = "2 ^ 64 - 1 :: nat"
  have M: "unat (- 1 :: 64 word) = ?M" by (simp add: unsigned_minus_1_eq_mask mask_eq_exp_minus_1)
  have q: "unat cutoff = ?M div b" and "unat ((- 1 :: u64) mod base) = ?M mod b"
    unfolding assms(7) by (simp_all only: unat_div unat_mod M ub)
  moreover have "?M mod b < 36" using assms(3,5) by (intro order.strict_trans2 [OF mod_less_divisor]) auto
  ultimately have "unat cutlim = ?M mod b" "sint cutlim = int (?M mod b)"
    unfolding assms(8) by (simp_all add: unsigned_ucast_eq take_bit_nat_eq_self sint_small32)
  then have test: "of_nat a > cutoff \<or> of_nat a = cutoff \<and> sint w > sint cutlim \<longleftrightarrow> ?M < a * b + d"
    using cutoff_test [OF assms(3), of ?M a] q ua w(2)
    by (simp only: word_less_nat_alt word_unat_eq_iff of_nat_less_iff)
  have "(of_nat a * base + scast w :: 64 word) = of_nat (a * b + d)" using w(3) assms(4) by simp
  then show "0 \<le> any \<Longrightarrow> digits_loop m base cutoff cutlim c s (of_nat a) any =
      (if a * b + d < 2 ^ 64 then digits_loop m base cutoff cutlim (ucast (m s)) (s + 1) (of_nat (a * b + d)) 1
       else digits_loop m base cutoff cutlim (ucast (m s)) (s + 1) (- 1) (- 1))"
    using w(1,2) assms(3) sb test by (subst digits_loop.simps) (auto simp: c)
qed

lemma digits_loop_run:
  assumes "at_rest m r c s" and "base = of_nat b" and "b \<le> 36" and "0 < b"
    and "cutoff = (- 1) div base" and "cutlim = ucast ((- 1 :: u64) mod base)" and "ds = takeWhile (digit_below b) r"
  shows "any < 0 \<Longrightarrow> digits_loop m base cutoff cutlim c s acc any = Some (acc, any, s + of_nat (length ds))"
    and "a < 2 ^ 64 \<Longrightarrow> 0 \<le> any \<Longrightarrow> digits_loop m base cutoff cutlim c s (of_nat a) any =
      (let v = numeral_from b a ds in
       Some (if v < 2 ^ 64 then of_nat v else - 1, if ds = [] then any else if v < 2 ^ 64 then 1 else - 1, s + of_nat (length ds)))"
  using assms(1,7)
proof (induction r arbitrary: c s a any acc ds)
  case Nil
  { case 1 then show ?case using digits_loop_stop [of m "[]" c s b] assms(2,3) by simp }
  { case 2 then show ?case using digits_loop_stop [of m "[]" c s b] assms(2,3) by simp }
next
  case (Cons x r)
  have stop: "digits_loop m base cutoff cutlim c s acc any = Some (acc, any, s)" and "ds = []"
    if "\<not> digit_below b x" "at_rest m (x # r) c s" "ds = takeWhile (digit_below b) (x # r)" for acc any c s ds
    using that digits_loop_stop [OF that(2) _ assms(2,3)] by simp_all
  {
    case 1
    show ?case
    proof (cases "digit_below b x")
      case True
      then obtain d where d: "digit_of x = Some d" "d < b" by (auto simp: digit_below_def split: option.splits)
      note step = digits_loop_step(1) [OF 1(2) d assms(2,3) _ assms(5,6) 1(1), of 0]
      show ?thesis using step Cons.IH(1) [OF 1(1) at_rest_Cons(4) [OF 1(2)] refl] 1(3) True
        by (simp add: algebra_simps)
    qed (use stop 1 in simp)
  next
    case 2
    show ?case
    proof (cases "digit_below b x")
      case True
      then obtain d where d: "digit_of x = Some d" "d < b" by (auto simp: digit_below_def split: option.splits)
      let ?ds = "takeWhile (digit_below b) r"
      have ds: "ds = x # ?ds" using 2(4) True by simp
      note step = digits_loop_step(2) [OF 2(3) d assms(2,3) 2(1) assms(5,6) 2(2)]
      note rest = at_rest_Cons(4) [OF 2(3)]
      show ?thesis
      proof (cases "a * b + d < 2 ^ 64")
        case True
        show ?thesis using step Cons.IH(2) [OF True _ rest refl] True d(1)
          by (simp add: ds Let_def algebra_simps)
      next
        case False
        then have "\<not> numeral_from b (a * b + d) ?ds < 2 ^ 64"
          using numeral_from_mono [OF assms(4), of "a * b + d" ?ds] by linarith
        then show ?thesis using step Cons.IH(1) [OF _ rest refl, of "- 1" "- 1"] False d(1)
          by (simp add: ds Let_def algebra_simps)
      qed
    qed (use stop 2 in simp)
  }
qed

section \<open>The whole conversion\<close>

lemma strtoul_run:
  assumes "cstr m p bs" and "base_ok b base" and "strtoul_ref b bs = (v, n)"
  shows "strtoul m p endptr base =
    Inr (v, if endptr \<noteq> nullptr then store64 m endptr (p + of_nat n) else m)"
proof -
  let ?r0 = "dropWhile space_byte bs"
  obtain neg r1 b' r2 where split: "split_sign ?r0 = (neg, r1)" "split_prefix b r1 = (b', r2)"
    by (metis surj_pair)
  obtain c0 where c0: "skip_space m p = Some (c0, p + of_nat (length bs - length ?r0) + 1)"
    "at_rest m ?r0 c0 (p + of_nat (length bs - length ?r0) + 1)"
    using skip_space_cstr [OF assms(1)] by blast
  obtain c1 s1 where c1: "read_sign m c0 (p + of_nat (length bs - length ?r0) + 1) = (neg, c1, s1)" "at_rest m r1 c1 s1"
    "s1 = p + of_nat (length bs - length ?r0) + 1 + of_nat (length ?r0 - length r1)" "length r1 \<le> length ?r0"
    using read_sign_rest [OF c0(2) split(1)] by blast
  obtain c2 s2 where c2: "read_prefix m base c1 s1 = (of_nat b', c2, s2)" "at_rest m r2 c2 s2"
    "s2 = s1 + of_nat (length r1 - length r2)" "length r2 \<le> length r1" "2 \<le> b'" "b' \<le> 36"
    using read_prefix_rest [OF c1(2) assms(2) split(2)] by blast
  let ?ds = "takeWhile (digit_below b') r2"
  have "length ?r0 \<le> length bs" by (rule length_dropWhile_le)
  then have s2: "s2 = p + of_nat (length bs - length r2) + 1"
    using c1(3,4) c2(3,4) by (simp add: of_nat_diff algebra_simps)
  have loop: "digits_loop m (of_nat b') ((- 1) div of_nat b') (ucast ((- 1 :: u64) mod of_nat b')) c2 s2 0 0 =
      (let v = numeral_value b' ?ds in
       Some (if v < 2 ^ 64 then of_nat v else - 1, if ?ds = [] then 0 else if v < 2 ^ 64 then 1 else - 1, s2 + of_nat (length ?ds)))"
    using digits_loop_run(2) [OF c2(2) refl c2(6) _ refl refl refl, of 0 0] c2(5) by (simp add: numeral_value_def)
  have ref: "(v, n) = (if ?ds = [] then (0, 0) else (saturate neg (numeral_value b' ?ds), length bs - length r2 + length ?ds))"
    using assms(3) split by (simp add: strtoul_ref_def Let_def)
  have run: "strtoul m p endptr base = bindE (endsE (digits_loop m (of_nat b') ((- 1) div of_nat b') (ucast ((- 1 :: u64) mod of_nat b')) c2 s2 0 0))
      (\<lambda>(acc, any, s). let acc = (if neg \<and> any > 0 then - acc else acc)
        in Inr (acc, if endptr \<noteq> nullptr then store64 m endptr (if any \<noteq> 0 then s - 1 else p) else m))"
    unfolding strtoul_def c0(1) endsE_simps bindE_simps prod.case c1(1) c2(1) Let_def ..
  show ?thesis
  proof (cases "?ds = []")
    case True
    then show ?thesis unfolding run loop using ref by (simp add: numeral_value_def)
  next
    case False
    then show ?thesis unfolding run loop using ref s2 by (auto simp: saturate_def Let_def algebra_simps)
  qed
qed

section \<open>Properties\<close>

text \<open>
  C32. On every C string, and for base 0 or a base from 2 to 36, \<open>strtoul\<close> returns, and what it
  returns is what the reference computes with unbounded numbers: white space and a sign are
  skipped, a prefix selects base 16 or (with base 0) 8, the value saturates at the maximum instead
  of wrapping, and the end pointer, when asked for, is stored behind the last digit, or is the start
  of the string when there is no digit.
\<close>

theorem strtoul_equals_reference:
  assumes "cstr m p bs" and "base_ok b base" and "strtoul_ref b bs = (v, n)"
  shows "strtoul m p endptr base =
    Inr (v, if endptr \<noteq> nullptr then store64 m endptr (p + of_nat n) else m)"
  using strtoul_run [OF assms] .

definition hex_text :: mem where
  "hex_text = (\<lambda>_. 0)(10 := 32, 11 := 45, 12 := 48, 13 := 120, 14 := 49, 15 := 70, 16 := 44)"

theorem strtoul_equals_reference_witness:
  "cstr hex_text 10 [32, 45, 48, 120, 49, 70, 44] \<and> base_ok 0 0 \<and>
   strtoul_ref 0 [32, 45, 48, 120, 49, 70, 44] = (- 31, 6) \<and>
   strtoul hex_text 10 0 0 = Inr (- 31, hex_text)"
proof -
  have c: "cstr hex_text 10 [32, 45, 48, 120, 49, 70, 44]" by (simp add: hex_text_def)
  have b: "base_ok 0 0" by (simp add: base_ok_def)
  have r: "strtoul_ref 0 [32, 45, 48, 120, 49, 70, 44] = (- 31, 6)"
    by (simp add: strtoul_ref_def split_sign_def split_prefix_def space_byte_def digit_below_def digit_of_def
        numeral_value_def saturate_def)
  show ?thesis using c b r strtoul_equals_reference [OF c b r, of 0] by simp
qed

end
