(* ===== verification/Printf.thy ===== *)
theory Printf
  imports Common_Defs CString Stdlib Ring_Buffer
begin

text \<open>
  The formatter of \<open>kernel/debug/printf.c\<close>.  The output buffer, the format and the strings are
  byte memory; \<open>write_count\<close> is the variable of \<open>__vsnprintf\<close> that the helpers update
  through a pointer.  \<open>expand\<close> is the text a format stands for; the lemmas show that the
  formatter writes exactly that text, and where it does not: a buffer that is too small is
  overrun by a byte before the check sees it, a string with an inner newline and every
  \<open>%f\<close> make a helper advance the pointer to \<open>write_count\<close> instead of the count.

  Floating point arithmetic is not part of the logic used here; the operations that
  \<open>print_double\<close> applies are arguments of the model (\<open>f64_ops\<close>), and so are the addresses the
  compiler chooses for the variable and for three string literals.
\<close>

section \<open>Numbers\<close>

definition digits :: "u8 list" where
  "digits = map of_char ''0123456789ABCDEF'' @ [0]"

definition digit_at :: "u64 \<Rightarrow> kerror + u8" where
  "digit_at i = (if unat i < length digits then Inr (digits ! unat i) else Inl (Fault i))"

text \<open>The local buffers are arrays of fixed length; the bytes written so far, in order.\<close>

definition buf_put :: "nat \<Rightarrow> u8 \<Rightarrow> u8 list \<Rightarrow> kerror + u8 list" where
  "buf_put cap c buf = (if length buf < cap then Inr (buf @ [c]) else Inl (Fault (of_nat cap)))"

lemma buf_put_length: "buf_put cap c buf = Inr buf' \<Longrightarrow> length buf < cap \<and> buf' = buf @ [c]"
  by (auto simp: buf_put_def split: if_splits)

function print_digits :: "u64 \<Rightarrow> u64 \<Rightarrow> u8 list \<Rightarrow> kerror + u8 list" where
  "print_digits xx base buf =
     bindE (umodE xx base) (\<lambda>d.
     bindE (digit_at d) (\<lambda>c.
     bindE (buf_put 32 c buf) (\<lambda>buf.
     let xx = xx div base in if xx \<noteq> 0 then print_digits xx base buf else Inr buf)))"
  by pat_completeness auto
termination
  by (relation "measure (\<lambda>(xx, base, buf). 32 - length buf)") (auto dest: buf_put_length)

declare print_digits.simps [simp del]

text \<open>\<open>_print_int\<close>: the bytes of the number, least significant digit first, then the sign.\<close>

definition print_int_buf :: "64 word \<Rightarrow> u8 \<Rightarrow> bool \<Rightarrow> kerror + u8 list" where
  "print_int_buf x base sign =
     (let is_negative = (sign \<and> sint x < 0);
          xx = (if is_negative then - x else x)
      in bindE (print_digits xx (ucast base) []) (\<lambda>buf.
         if is_negative then buf_put 32 (of_char (CHR ''-'')) buf else Inr buf))"

definition putc :: "ptr \<Rightarrow> u8 \<Rightarrow> mem \<times> usize \<Rightarrow> mem \<times> usize" where
  "putc buffer c = (\<lambda>(m, write_count). (m(buffer + write_count := c), write_count + 1))"

definition print_int :: "ptr \<Rightarrow> mem \<times> usize \<Rightarrow> 64 word \<Rightarrow> u8 \<Rightarrow> bool \<Rightarrow> kerror + mem \<times> usize" where
  "print_int buffer st x base sign =
     bindE (print_int_buf x base sign) (\<lambda>buf. Inr (fold (putc buffer) (rev buf) st))"

section \<open>Strings and doubles\<close>

text \<open>
  What the compiler and the floating point unit provide: the address of the variable
  \<open>write_count\<close>, the addresses of three literals, and the arithmetic on \<open>f64\<close>.
\<close>

record 'f print_env =
  pe_write_count :: ptr
  pe_null :: ptr
  pe_true :: ptr
  pe_false :: ptr
  f_negative :: "'f \<Rightarrow> bool"
  f_minus :: "'f \<Rightarrow> 'f"
  f_to_u64 :: "'f \<Rightarrow> u64"
  f_of_u64 :: "u64 \<Rightarrow> 'f"
  f_sub :: "'f \<Rightarrow> 'f \<Rightarrow> 'f"
  f_times_10 :: "'f \<Rightarrow> 'f"
  f_to_i32 :: "'f \<Rightarrow> 32 word"
  f_of_i32 :: "32 word \<Rightarrow> 'f"

text \<open>
  In \<open>buffer[*write_count++] = c\<close> the increment applies to the pointer: the byte is stored at the
  current count, the count stays, and the pointer no longer points to the variable.  \<open>moved\<close>
  records that; the next access through the pointer is outside the variable.
\<close>

partial_function (option) print_string_loop ::
  "'f print_env \<Rightarrow> ptr \<Rightarrow> bool \<Rightarrow> ptr \<Rightarrow> mem \<times> usize \<Rightarrow> (kerror + mem \<times> usize) option" where
  "print_string_loop env buffer moved s st =
     (if fst st s = 0 then Some (Inr st)
      else if moved then Some (Inl (Fault (pe_write_count env + 8)))
      else let (m, write_count) = putc buffer (fst st s) st
        in if m s = of_char (CHR 0x0A)
           then print_string_loop env buffer True (s + 1) (m(buffer + write_count := of_char (CHR 0x0D)), write_count)
           else print_string_loop env buffer False (s + 1) (m, write_count))"

definition print_string :: "'f print_env \<Rightarrow> ptr \<Rightarrow> mem \<times> usize \<Rightarrow> ptr \<Rightarrow> kerror + mem \<times> usize" where
  "print_string env buffer st s = bindE (endsE (print_string_loop env buffer False s st)) (\<lambda>r. r)"

text \<open>The digits behind the point; the counter is incremented twice in each round.\<close>

function fraction_loop :: "'f print_env \<Rightarrow> nat \<Rightarrow> nat \<Rightarrow> 'f \<Rightarrow> u8 list \<Rightarrow> kerror + nat \<times> u8 list" where
  "fraction_loop env precision n fraction buf =
     (if n < precision then
        let fraction = f_times_10 env fraction; digit = f_to_i32 env fraction in
        if n < length buf
        then fraction_loop env precision (n + 2) (f_sub env fraction (f_of_i32 env digit)) (buf[n := 48 + ucast digit])
        else Inl (Fault (of_nat n))
      else Inr (n, buf))"
  by pat_completeness auto
termination
  by (relation "measure (\<lambda>(env, precision, n, fraction, buf). precision - n)") auto

declare fraction_loop.simps [simp del]

fun put_moving :: "'f print_env \<Rightarrow> ptr \<Rightarrow> u8 list \<Rightarrow> bool \<Rightarrow> mem \<times> usize \<Rightarrow> kerror + bool \<times> mem \<times> usize" where
  "put_moving env buffer [] moved st = Inr (moved, st)"
| "put_moving env buffer (c # cs) moved (m, write_count) =
     (if moved then Inl (Fault (pe_write_count env + 8))
      else put_moving env buffer cs True (m(buffer + write_count := c), write_count))"

definition print_double :: "'f print_env \<Rightarrow> ptr \<Rightarrow> mem \<times> usize \<Rightarrow> 'f \<Rightarrow> nat \<Rightarrow> kerror + mem \<times> usize" where
  "print_double env buffer st f precision =
     (let is_negative = f_negative env f;
          f = (if is_negative then f_minus env f else f);
          integer = f_to_u64 env f;
          fraction = f_sub env f (f_of_u64 env integer)
      in bindE (print_int_buf (scast (ucast integer :: 32 word)) 10 False) (\<lambda>buf_integer.
         bindE (fraction_loop env precision 0 fraction (replicate 16 0)) (\<lambda>(float_buf_size, buf_float).
         let st = (if is_negative then putc buffer (of_char (CHR ''-'')) st else st) in
         bindE (put_moving env buffer (rev buf_integer) False st) (\<lambda>(moved, st).
         if moved then Inl (Fault (pe_write_count env + 8))
         else Inr (fold (putc buffer) (of_char (CHR ''.'') # take float_buf_size buf_float) st)))))"

section \<open>The format\<close>

text \<open>
  The variable arguments: an integer or pointer is a 64-bit slot, of which \<open>va_arg(ap, i32)\<close>
  takes the low half.  Taking an argument of the other kind or one that was not passed is
  undefined.
\<close>

datatype 'f varg = VInt u64 | VDouble 'f

definition va_int :: "'f varg list \<Rightarrow> kerror + u64 \<times> 'f varg list" where
  "va_int ap = (case ap of VInt x # ap \<Rightarrow> Inr (x, ap) | _ \<Rightarrow> Inl (Fault nullptr))"

definition va_double :: "'f varg list \<Rightarrow> kerror + 'f \<times> 'f varg list" where
  "va_double ap = (case ap of VDouble x # ap \<Rightarrow> Inr (x, ap) | _ \<Rightarrow> Inl (Fault nullptr))"

abbreviation i32_of :: "u64 \<Rightarrow> 64 word" where
  "i32_of x \<equiv> scast (ucast x :: 32 word)"

definition format_spec :: "'f print_env \<Rightarrow> ptr \<Rightarrow> u8 \<Rightarrow> mem \<times> usize \<Rightarrow> 'f varg list \<Rightarrow> kerror + (mem \<times> usize) \<times> 'f varg list" where
  "format_spec env buffer ch st ap =
     (if ch = of_char (CHR ''d'') then
        bindE (va_int ap) (\<lambda>(x, ap). bindE (print_int buffer st (i32_of x) 10 True) (\<lambda>st. Inr (st, ap)))
      else if ch = of_char (CHR ''x'') then
        bindE (va_int ap) (\<lambda>(x, ap). bindE (print_int buffer st x 16 False) (\<lambda>st. Inr (st, ap)))
      else if ch = of_char (CHR ''f'') then
        bindE (va_double ap) (\<lambda>(f, ap). bindE (print_double env buffer st f 12) (\<lambda>st. Inr (st, ap)))
      else if ch = of_char (CHR ''p'') then
        let st = putc buffer (of_char (CHR ''0'')) st; st = putc buffer (of_char (CHR ''x'')) st in
        bindE (va_int ap) (\<lambda>(x, ap). bindE (print_int buffer st x 16 False) (\<lambda>st. Inr (st, ap)))
      else if ch = of_char (CHR ''s'') then
        bindE (va_int ap) (\<lambda>(s, ap).
        let s = (if nullptr = s then pe_null env else s) in
        bindE (print_string env buffer st s) (\<lambda>st. Inr (st, ap)))
      else if ch = of_char (CHR ''c'') then
        bindE (va_int ap) (\<lambda>(x, ap). Inr (putc buffer (ucast x) st, ap))
      else if ch = of_char (CHR ''b'') then
        bindE (va_int ap) (\<lambda>(x, ap).
        let v = (ucast x :: 32 word) \<noteq> 0 in
        bindE (print_string env buffer st (if v then pe_true env else pe_false env)) (\<lambda>st. Inr (st, ap)))
      else if ch = of_char (CHR ''%'') then Inr (putc buffer (of_char (CHR ''%'')) st, ap)
      else Inr (putc buffer ch (putc buffer (of_char (CHR ''%'')) st), ap))"

partial_function (option) vsnprintf_loop ::
  "'f print_env \<Rightarrow> ptr \<Rightarrow> usize \<Rightarrow> ptr \<Rightarrow> usize \<Rightarrow> bool \<Rightarrow> mem \<times> usize \<Rightarrow> 'f varg list \<Rightarrow> (kerror + usize \<times> mem) option" where
  "vsnprintf_loop env buffer buf_size fmt i state_format_specifier st ap =
     (let (m, write_count) = st; ch = m (fmt + i) in
      if ch = 0 then Some (Inr (write_count, m))
      else if write_count > buf_size then Some (Inr (0, m))
      else if \<not> state_format_specifier then
        if of_char (CHR ''%'') = ch then vsnprintf_loop env buffer buf_size fmt (i + 1) True st ap
        else let st = putc buffer ch st;
                 st = (if ch = of_char (CHR 0x0A) then putc buffer (of_char (CHR 0x0D)) st else st)
          in vsnprintf_loop env buffer buf_size fmt (i + 1) False st ap
      else case format_spec env buffer ch st ap of
        Inl e \<Rightarrow> Some (Inl e)
      | Inr (st, ap) \<Rightarrow> vsnprintf_loop env buffer buf_size fmt (i + 1) False st ap)"

definition vsnprintf :: "'f print_env \<Rightarrow> mem \<Rightarrow> ptr \<Rightarrow> usize \<Rightarrow> ptr \<Rightarrow> 'f varg list \<Rightarrow> kerror + usize \<times> mem" where
  "vsnprintf env m buffer buf_size fmt ap =
     bindE (endsE (vsnprintf_loop env buffer buf_size fmt 0 False (m, 0) ap)) (\<lambda>r. r)"

section \<open>The text a format stands for\<close>

function numeral_text :: "nat \<Rightarrow> nat \<Rightarrow> u8 list" where
  "numeral_text b n =
     (if b < 2 \<or> n < b then [digits ! n] else numeral_text b (n div b) @ [digits ! (n mod b)])"
  by pat_completeness auto
termination
  by (relation "measure snd") auto

declare numeral_text.simps [simp del]

definition int_text :: "int \<Rightarrow> u8 list" where
  "int_text i = (if i < 0 then of_char (CHR ''-'') # numeral_text 10 (nat (- i)) else numeral_text 10 (nat i))"

definition chars :: "string \<Rightarrow> u8 list" where
  "chars = map of_char"

text \<open>\<open>str\<close> gives the strings the arguments may point to.\<close>

definition spec_text :: "(ptr \<rightharpoonup> u8 list) \<Rightarrow> u8 \<Rightarrow> 'f varg list \<Rightarrow> (u8 list \<times> 'f varg list) option" where
  "spec_text str ch ap =
     (if ch = of_char (CHR ''%'') then Some (chars ''%'', ap)
      else if ch \<notin> set (chars ''dxfpscb'') then Some (chars ''%'' @ [ch], ap)
      else case ap of
        VInt x # ap \<Rightarrow>
          if ch = of_char (CHR ''d'') then Some (int_text (sint (ucast x :: 32 word)), ap)
          else if ch = of_char (CHR ''x'') then Some (numeral_text 16 (unat x), ap)
          else if ch = of_char (CHR ''p'') then Some (chars ''0x'' @ numeral_text 16 (unat x), ap)
          else if ch = of_char (CHR ''s'') then
            if x = 0 then Some (chars ''null'', ap) else map_option (\<lambda>t. (t, ap)) (str x)
          else if ch = of_char (CHR ''c'') then Some ([ucast x], ap)
          else if ch = of_char (CHR ''b'') then
            Some (chars (if (ucast x :: 32 word) \<noteq> 0 then ''true'' else ''false''), ap)
          else None
      | _ \<Rightarrow> None)"

definition newline_text :: "u8 \<Rightarrow> u8 list" where
  "newline_text c = (if c = of_char (CHR 0x0A) then [c, of_char (CHR 0x0D)] else [c])"

fun expand :: "(ptr \<rightharpoonup> u8 list) \<Rightarrow> bool \<Rightarrow> u8 list \<Rightarrow> 'f varg list \<Rightarrow> u8 list option" where
  "expand str spec [] ap = Some []"
| "expand str False (c # cs) ap =
     (if c = of_char (CHR ''%'') then expand str True cs ap
      else map_option ((@) (newline_text c)) (expand str False cs ap))"
| "expand str True (c # cs) ap =
     (case spec_text str c ap of
        None \<Rightarrow> None
      | Some (t, ap) \<Rightarrow> map_option ((@) t) (expand str False cs ap))"

section \<open>Numbers are printed right\<close>

lemma length_digits [simp]: "length digits = 17"
  by (simp add: digits_def)

lemma digit_at_ok: "unat d < 16 \<Longrightarrow> digit_at d = Inr (digits ! unat d)"
  by (simp add: digit_at_def)

lemma numeral_text_small: "n < b \<Longrightarrow> numeral_text b n = [digits ! n]"
  by (simp add: numeral_text.simps)

lemma numeral_text_big: "2 \<le> b \<Longrightarrow> b \<le> n \<Longrightarrow> numeral_text b n = numeral_text b (n div b) @ [digits ! (n mod b)]"
  by (subst numeral_text.simps) simp

lemma length_numeral_text:
  assumes "2 \<le> b" and "0 < k" and "n < b ^ k"
  shows "length (numeral_text b n) \<le> k"
  using assms(2,3)
proof (induction k arbitrary: n)
  case (Suc k)
  show ?case
  proof (cases "n < b")
    case False
    then have "k \<noteq> 0" using Suc.prems by (cases k) auto
    moreover have "n div b < b ^ k" using Suc.prems(2) assms(1) by (simp add: less_mult_imp_div_less mult.commute)
    ultimately show ?thesis using Suc.IH [of "n div b"] False assms(1) by (simp add: numeral_text_big)
  qed (simp add: numeral_text_small)
qed simp

lemma length_numeral_text_64:
  assumes "10 \<le> b"
  shows "length (numeral_text b (unat (x :: u64))) \<le> 20"
proof -
  have "unat x < 10 ^ 20" using unat_lt_u64 [of x] by simp
  also have "(10 :: nat) ^ 20 \<le> b ^ 20" using assms by (rule power_mono) simp
  finally show ?thesis using assms by (intro length_numeral_text) auto
qed

lemma print_digits_spec:
  assumes "2 \<le> b" and "b \<le> 16" and "length buf + length (numeral_text b (unat xx)) \<le> 32"
  shows "print_digits xx (of_nat b) buf = Inr (buf @ rev (numeral_text b (unat xx)))"
  using assms(3)
proof (induction "unat xx" arbitrary: xx buf rule: less_induct)
  case less
  have ub: "unat (of_nat b :: 64 word) = b" using assms(2) by (simp add: unat_of_nat)
  then have b0: "(of_nat b :: 64 word) \<noteq> 0" using assms(1) by (metis not_numeral_le_zero unat_0)
  have d: "unat (xx mod of_nat b) = unat xx mod b" "unat (xx div of_nat b) = unat xx div b"
    by (simp_all only: unat_mod unat_div ub)
  have "unat xx mod b < 16" using assms(1,2) by (intro order.strict_trans2 [OF mod_less_divisor]) auto
  then have dig: "digit_at (xx mod of_nat b) = Inr (digits ! (unat xx mod b))"
    using d(1) digit_at_ok [of "xx mod of_nat b"] by simp
  show ?case
  proof (cases "unat xx < b")
    case True
    then have "xx div of_nat b = 0" using d(2) by (simp add: word_unat_eq_iff)
    then show ?thesis using less.prems True b0 dig d(1)
      by (subst print_digits.simps) (simp add: umodE_def numeral_text_small buf_put_def)
  next
    case False
    then have nz: "xx div of_nat b \<noteq> 0" "unat xx div b < unat xx"
      using d(2) assms(1) by (auto simp: word_unat_eq_iff div_eq_0_iff)
    have split: "numeral_text b (unat xx) = numeral_text b (unat xx div b) @ [digits ! (unat xx mod b)]"
      using False assms(1) by (intro numeral_text_big) auto
    have "print_digits (xx div of_nat b) (of_nat b) (buf @ [digits ! (unat xx mod b)]) =
        Inr (buf @ [digits ! (unat xx mod b)] @ rev (numeral_text b (unat xx div b)))"
      using less.hyps [of "xx div of_nat b" "buf @ [digits ! (unat xx mod b)]"] nz(2) less.prems split d(2) by simp
    moreover have "length buf < 32" using less.prems split by simp
    ultimately show ?thesis using nz(1) b0 dig d split
      by (subst print_digits.simps) (simp add: umodE_def buf_put_def)
  qed
qed

text \<open>The text of a 64-bit number, with a sign when it is printed as a signed number.\<close>

definition word_text :: "64 word \<Rightarrow> nat \<Rightarrow> bool \<Rightarrow> u8 list" where
  "word_text x b sign =
     (if sign \<and> sint x < 0 then of_char (CHR ''-'') # numeral_text b (unat (- x)) else numeral_text b (unat x))"

lemma print_int_buf_spec:
  assumes "b = 10 \<or> b = 16"
  shows "print_int_buf x (of_nat b) sign = Inr (rev (word_text x b sign))"
proof -
  have b: "ucast (of_nat b :: u8) = (of_nat b :: 64 word)" using assms by auto
  have len: "length (numeral_text b (unat xx)) \<le> 20" for xx :: u64
    using assms by (intro length_numeral_text_64) auto
  have "print_digits xx (of_nat b) [] = Inr (rev (numeral_text b (unat xx)))" for xx :: u64
    using print_digits_spec [of b "[]" xx] assms len [of xx] by auto
  moreover have "length (numeral_text b (unat (- x))) < 32" using len [of "- x"] by simp
  ultimately show ?thesis by (simp add: print_int_buf_def word_text_def b Let_def buf_put_def)
qed

lemma print_int_spec:
  assumes "b = 10 \<or> b = 16"
  shows "print_int buffer st x (of_nat b) sign = Inr (fold (putc buffer) (word_text x b sign) st)"
  using assms by (simp add: print_int_def print_int_buf_spec)

section \<open>The output buffer\<close>

definition put_bytes :: "mem \<Rightarrow> ptr \<Rightarrow> u8 list \<Rightarrow> mem" where
  "put_bytes m p bs = (\<lambda>a. if in_region a p (length bs) then bs ! unat (a - p) else m a)"

definition out_state :: "mem \<Rightarrow> ptr \<Rightarrow> u8 list \<Rightarrow> mem \<times> usize" where
  "out_state m buffer out = (put_bytes m buffer out, of_nat (length out))"

lemma put_bytes_snoc:
  assumes "length out < 2 ^ 64"
  shows "(put_bytes m p out)(p + of_nat (length out) := c) = put_bytes m p (out @ [c])"
proof (rule ext)
  fix a
  have u: "unat (of_nat (length out) :: 64 word) = length out" using assms by (rule unat_of_nat_u64)
  show "((put_bytes m p out)(p + of_nat (length out) := c)) a = put_bytes m p (out @ [c]) a"
    using u by (auto simp: put_bytes_def in_region_Suc_last [OF assms] nth_append) (auto simp: in_region_def)
qed

lemma putc_out:
  "length out < 2 ^ 64 \<Longrightarrow> putc buffer c (out_state m buffer out) = out_state m buffer (out @ [c])"
  by (simp add: out_state_def putc_def put_bytes_snoc)

lemma fold_putc_out:
  "length out + length cs \<le> 2 ^ 64 \<Longrightarrow>
   fold (putc buffer) cs (out_state m buffer out) = out_state m buffer (out @ cs)"
  by (induction cs arbitrary: out) (simp_all add: putc_out)

text \<open>The formatter reads memory that it does not write.\<close>

definition apart :: "ptr \<Rightarrow> nat \<Rightarrow> ptr \<Rightarrow> u8 list \<Rightarrow> bool" where
  "apart buffer n s bs \<longleftrightarrow> disjoint_regions buffer n s (Suc (length bs))"

lemma apart_tl: "apart buffer n s (b # bs) \<Longrightarrow> apart buffer n (s + 1) bs"
  by (auto simp: apart_def disjoint_regions_def in_region_Suc)

lemma apart_read:
  assumes "apart buffer n s bs" and "length out \<le> n"
  shows "put_bytes m buffer out s = m s"
proof -
  have "in_region s s (Suc (length bs))" by simp
  then have "\<not> in_region s buffer n" using assms(1) unfolding apart_def disjoint_regions_def by blast
  then have "\<not> in_region s buffer (length out)" using assms(2) by (simp add: in_region_def)
  then show ?thesis by (simp add: put_bytes_def)
qed

lemma apart_write:
  assumes "apart buffer n s bs" and "length out < n" and "n < 2 ^ 64"
  shows "buffer + of_nat (length out) \<noteq> s"
proof
  assume "buffer + of_nat (length out) = s"
  then have "in_region s buffer n" using assms(2,3) by (auto intro!: in_region_offset simp: unat_of_nat_u64)
  then show False using assms(1) by (auto simp: apart_def disjoint_regions_def in_region_def)
qed

text \<open>A string that \<open>print_string\<close> prints right: no newline in it.\<close>

definition text_at :: "mem \<Rightarrow> ptr \<Rightarrow> nat \<Rightarrow> ptr \<Rightarrow> u8 list \<Rightarrow> bool" where
  "text_at m buffer n s bs \<longleftrightarrow> cstr m s bs \<and> apart buffer n s bs \<and> of_char (CHR 0x0A) \<notin> set bs"

lemma print_string_loop_spec:
  assumes "text_at m buffer n s bs" and "length out + length bs \<le> n" and "n < 2 ^ 64"
  shows "print_string_loop env buffer False s (out_state m buffer out) = Some (Inr (out_state m buffer (out @ bs)))"
  using assms(1,2)
proof (induction bs arbitrary: s out)
  case Nil
  then have "put_bytes m buffer out s = 0" using apart_read [of buffer n s "[]" out m] by (auto simp: text_at_def)
  then show ?case by (subst print_string_loop.simps) (simp add: out_state_def)
next
  case (Cons b bs)
  then have c: "cstr m s (b # bs)" and a: "apart buffer n s (b # bs)" and nl: "b \<noteq> of_char (CHR 0x0A)"
    by (auto simp: text_at_def)
  have r: "put_bytes m buffer out s = b" "put_bytes m buffer (out @ [b]) s = b"
    using apart_read [OF a, of out m] apart_read [OF a, of "out @ [b]" m] Cons.prems(2) c by auto
  have "text_at m buffer n (s + 1) bs" using Cons.prems(1) apart_tl [OF a] by (auto simp: text_at_def)
  then have "print_string_loop env buffer False (s + 1) (out_state m buffer (out @ [b])) =
      Some (Inr (out_state m buffer (out @ b # bs)))"
    using Cons.IH [of "s + 1" "out @ [b]"] Cons.prems(2) by simp
  moreover have "putc buffer b (out_state m buffer out) = out_state m buffer (out @ [b])"
    using Cons.prems(2) assms(3) by (intro putc_out) simp
  ultimately show ?case using r nl c
    by (subst print_string_loop.simps) (simp add: out_state_def del: of_char_Char)
qed

lemma print_string_spec:
  assumes "text_at m buffer n s bs" and "length out + length bs \<le> n" and "n < 2 ^ 64"
  shows "print_string env buffer (out_state m buffer out) s = Inr (out_state m buffer (out @ bs))"
  using print_string_loop_spec [OF assms, of env] by (simp add: print_string_def)

section \<open>The formatter writes the text\<close>

definition env_ok :: "'f print_env \<Rightarrow> mem \<Rightarrow> ptr \<Rightarrow> nat \<Rightarrow> (ptr \<rightharpoonup> u8 list) \<Rightarrow> bool" where
  "env_ok env m buffer n str \<longleftrightarrow>
     text_at m buffer n (pe_null env) (chars ''null'') \<and> text_at m buffer n (pe_true env) (chars ''true'') \<and>
     text_at m buffer n (pe_false env) (chars ''false'') \<and>
     (\<forall>p bs. str p = Some bs \<longrightarrow> text_at m buffer n p bs)"

lemma unat_of_small_int: "0 \<le> k \<Longrightarrow> k < 2 ^ 64 \<Longrightarrow> unat (word_of_int k :: 64 word) = nat k"
  by (simp add: unsigned_of_int take_bit_int_eq_self)

lemma sint_of_small_int: "- (2 ^ 63) \<le> k \<Longrightarrow> k < 2 ^ 63 \<Longrightarrow> sint (word_of_int k :: 64 word) = k"
  by (simp add: signed_of_int signed_take_bit_int_eq_self)

lemma word_text_i32: "word_text (i32_of x) 10 True = int_text (sint (ucast x :: 32 word))"
proof -
  let ?k = "sint (ucast x :: 32 word)"
  have e: "i32_of x = word_of_int ?k" "- i32_of x = word_of_int (- ?k)" by simp_all
  have r: "?k < 2 ^ 31" "- (2 ^ 31) \<le> ?k" using sint_lt [of "ucast x :: 32 word"] sint_ge [of "ucast x :: 32 word"] by simp_all
  have s: "sint (i32_of x) = ?k" unfolding e(1) using r by (intro sint_of_small_int) auto
  have "unat (i32_of x) = nat ?k" if "0 \<le> ?k"
    unfolding e(1) using that r by (intro unat_of_small_int) auto
  moreover have "unat (- i32_of x) = nat (- ?k)" if "?k < 0"
    unfolding e(2) using that r by (intro unat_of_small_int) auto
  ultimately show ?thesis by (auto simp: word_text_def int_text_def s simp del: word_of_int_minus)
qed

lemma print_word_out:
  assumes "b = 10 \<or> b = 16" and "length out + length (word_text x b sign) \<le> 2 ^ 64"
  shows "print_int buffer (out_state m buffer out) x (of_nat b) sign = Inr (out_state m buffer (out @ word_text x b sign))"
  using assms by (simp add: print_int_spec fold_putc_out)

lemma format_spec_writes:
  assumes env: "env_ok env m buffer n str" and n: "n < 2 ^ 64"
    and tx: "spec_text str ch ap = Some (t, ap')" and fits: "length out + length t \<le> n"
  shows "format_spec env buffer ch (out_state m buffer out) ap = Inr (out_state m buffer (out @ t), ap')"
proof -
  have strings: "print_string env buffer (out_state m buffer out) p = Inr (out_state m buffer (out @ t))"
    if "text_at m buffer n p t" for p
    using print_string_spec [OF that fits n] .
  have lits: "text_at m buffer n (pe_null env) (chars ''null'')" "text_at m buffer n (pe_true env) (chars ''true'')"
    "text_at m buffer n (pe_false env) (chars ''false'')" "\<And>p bs. str p = Some bs \<Longrightarrow> text_at m buffer n p bs"
    using env by (auto simp: env_ok_def)
  show ?thesis
  proof (cases "ch \<in> set (chars ''dxfpscb'')")
    case False
    then show ?thesis using tx fits n
      by (auto simp: spec_text_def format_spec_def chars_def putc_out split: if_splits)
  next
    case True
    then obtain x where ap: "ap = VInt x # ap'"
      using tx by (auto simp: spec_text_def chars_def split: if_splits list.splits varg.splits option.splits)
    consider "ch = of_char (CHR ''d'')" | "ch = of_char (CHR ''x'') \<or> ch = of_char (CHR ''p'')" |
      "ch = of_char (CHR ''s'')" | "ch = of_char (CHR ''c'')" | "ch = of_char (CHR ''b'')"
      using True tx ap by (auto simp: spec_text_def chars_def)
    then show ?thesis
    proof cases
      case 1
      then have t: "t = word_text (i32_of x) 10 True" using tx ap unfolding word_text_i32 by (simp add: spec_text_def chars_def)
      show ?thesis using 1 ap print_word_out [of 10 out "i32_of x" True buffer m] fits n
        by (simp add: format_spec_def va_int_def t del: ucast_id scast_id)
    next
      case 2
      then show ?thesis using tx ap fits n print_word_out [of 16 _ x False buffer m]
        by (auto simp: format_spec_def va_int_def spec_text_def chars_def putc_out word_text_def)
    next
      case 3
      then have "t = (if x = 0 then chars ''null'' else the (str x))" "x \<noteq> 0 \<Longrightarrow> str x = Some t"
        using tx ap by (auto simp: spec_text_def chars_def split: if_splits)
      then show ?thesis using 3 ap strings [of "pe_null env"] strings [of x] lits(1) lits(4) [of x t]
        by (auto simp: format_spec_def va_int_def)
    next
      case 4
      then show ?thesis using tx ap fits n by (auto simp: format_spec_def va_int_def spec_text_def chars_def putc_out)
    next
      case 5
      then have "t = chars (if (ucast x :: 32 word) \<noteq> 0 then ''true'' else ''false'')"
        using tx ap by (simp add: spec_text_def chars_def)
      then show ?thesis using 5 ap strings [of "pe_true env"] strings [of "pe_false env"] lits(2,3)
        by (auto simp: format_spec_def va_int_def)
    qed
  qed
qed

lemma newline_step:
  assumes "length out + length (newline_text c) \<le> n" and "n < 2 ^ 64"
  shows "(let st = putc buffer c (out_state m buffer out)
     in if c = of_char (CHR 0x0A) then putc buffer (of_char (CHR 0x0D)) st else st) = out_state m buffer (out @ newline_text c)"
  using assms by (auto simp: newline_text_def putc_out Let_def split: if_splits)

lemma vsnprintf_loop_spec:
  assumes env: "env_ok env m buffer n str" and n: "n < 2 ^ 64" "n \<le> unat buf_size"
    and fmt: "cstr m (fmt + i) cs" "apart buffer n (fmt + i) cs"
    and ex: "expand str spec cs ap = Some t" and fits: "length out + length t \<le> n"
  shows "vsnprintf_loop env buffer buf_size fmt i spec (out_state m buffer out) ap =
    Some (Inr (of_nat (length (out @ t)), put_bytes m buffer (out @ t)))"
  using fmt ex fits
proof (induction cs arbitrary: i spec ap t out)
  case Nil
  then show ?case using apart_read [OF Nil.prems(2), of out m]
    by (subst vsnprintf_loop.simps) (simp add: out_state_def)
next
  case (Cons c cs)
  have c: "c \<noteq> 0" "cstr m (fmt + (i + 1)) cs" "apart buffer n (fmt + (i + 1)) cs"
    using Cons.prems(1,2) apart_tl [of buffer n "fmt + i" c cs] by (auto simp: add.assoc)
  have rd: "put_bytes m buffer out (fmt + i) = c"
    using apart_read [OF Cons.prems(2), of out m] Cons.prems(1,4) by simp
  have "unat (of_nat (length out) :: 64 word) \<le> unat buf_size"
    using Cons.prems(4) n by (subst unat_of_nat_u64) auto
  then have room: "\<not> buf_size < of_nat (length out)" by (simp add: word_less_nat_alt)
  note IH = Cons.IH [OF c(2,3)]
  show ?case
  proof (cases spec)
    case True
    with Cons.prems(3) obtain t1 ap1 t2 where t: "spec_text str c ap = Some (t1, ap1)" "expand str False cs ap1 = Some t2" "t = t1 @ t2"
      by (auto split: option.splits)
    have step: "format_spec env buffer c (out_state m buffer out) ap = Inr (out_state m buffer (out @ t1), ap1)"
      using Cons.prems(4) t(3) by (intro format_spec_writes [OF env n(1) t(1)]) simp
    show ?thesis using IH [OF t(2), of "out @ t1"] Cons.prems(4) t(3) True rd c(1) room step
      by (subst vsnprintf_loop.simps) (simp add: out_state_def Let_def)
  next
    case False
    show ?thesis
    proof (cases "c = of_char (CHR ''%'')")
      case True
      then show ?thesis using IH [of True ap t out] Cons.prems(3,4) False rd c(1) room
        by (subst vsnprintf_loop.simps) (simp add: out_state_def Let_def)
    next
      case ordinary: False
      then obtain t2 where t: "expand str False cs ap = Some t2" "t = newline_text c @ t2"
        using Cons.prems(3) False by auto
      have "vsnprintf_loop env buffer buf_size fmt i spec (out_state m buffer out) ap =
          vsnprintf_loop env buffer buf_size fmt (i + 1) False (let st = putc buffer c (out_state m buffer out)
             in if c = of_char (CHR 0x0A) then putc buffer (of_char (CHR 0x0D)) st else st) ap"
        using False rd c(1) room ordinary
        by (subst vsnprintf_loop.simps) (simp add: out_state_def Let_def eq_commute [of _ c])
      also have "\<dots> = vsnprintf_loop env buffer buf_size fmt (i + 1) False (out_state m buffer (out @ newline_text c)) ap"
        using Cons.prems(4) t(2) n(1) by (subst newline_step [where n = n]) auto
      finally show ?thesis using IH [OF t(1), of "out @ newline_text c"] Cons.prems(4) t(2) by simp
    qed
  qed
qed

section \<open>Reading a printed number back\<close>

lemma digit_of_digits: "n < 16 \<Longrightarrow> digit_of (digits ! n) = Some n"
proof -
  assume "n < 16"
  then have "n \<in> set [0..<16]" by simp
  moreover have "list_all (\<lambda>n. digit_of (digits ! n) = Some n) [0..<16]"
    by code_simp
  ultimately show ?thesis unfolding list_all_iff by blast
qed

lemma digits_below: "n < b \<Longrightarrow> b \<le> 16 \<Longrightarrow> digit_below b (digits ! n)"
  by (simp add: digit_below_def digit_of_digits)

lemma numeral_text_digits:
  assumes "2 \<le> b" and "b \<le> 16"
  shows "list_all (digit_below b) (numeral_text b n)"
proof (induction n rule: less_induct)
  case (less n)
  show ?case
  proof (cases "n < b")
    case False
    then have "n div b < n" "n mod b < b" using assms(1) by auto
    then show ?thesis using less False assms by (simp add: numeral_text_big digits_below)
  qed (use assms in \<open>simp add: numeral_text_small digits_below\<close>)
qed

lemma numeral_value_text:
  assumes "2 \<le> b" and "b \<le> 16"
  shows "numeral_value b (numeral_text b n) = n"
proof (induction n rule: less_induct)
  case (less n)
  show ?case
  proof (cases "n < b")
    case True
    then show ?thesis using assms by (simp add: numeral_text_small numeral_value_def digit_of_digits)
  next
    case False
    then have "n div b < n" "n mod b < 16" using assms by (auto intro: order.strict_trans2 [OF mod_less_divisor])
    then show ?thesis using False assms less [of "n div b"]
      by (simp add: numeral_text_big numeral_value_append digit_of_digits)
  qed
qed

lemma cstr_bytes:
  "cstr m p bs \<longleftrightarrow> (\<forall>i < length bs. m (p + of_nat i) = bs ! i) \<and> 0 \<notin> set bs \<and> m (p + of_nat (length bs)) = 0"
proof (induction bs arbitrary: p)
  case (Cons b bs)
  have "(\<forall>i < Suc (length bs). m (p + of_nat i) = (b # bs) ! i) \<longleftrightarrow>
      m p = b \<and> (\<forall>i < length bs. m (p + 1 + of_nat i) = bs ! i)"
    by (auto simp: less_Suc_eq_0_disj algebra_simps)
  then show ?case using Cons.IH [of "p + 1"] by (auto simp: algebra_simps)
qed simp

lemma cstr_put_bytes:
  assumes "0 \<notin> set bs" and "length bs < 2 ^ 64" and "m (p + of_nat (length bs)) = 0"
  shows "cstr (put_bytes m p bs) p bs"
  using assms by (auto simp: cstr_bytes put_bytes_def in_region_def unat_of_nat_u64)

lemma digit_below_byte:
  assumes "digit_below b c" and "b \<le> 16"
  shows "\<not> space_byte c" and "c \<noteq> 45" and "c \<noteq> 43" and "c \<noteq> 120" and "c \<noteq> 88" and "c \<noteq> 0"
  using assms by (auto simp: digit_below_def digit_of_def space_byte_def word_le_nat_alt split: if_splits)

lemma numeral_text_nonempty: "numeral_text b n \<noteq> []"
  by (subst numeral_text.simps) simp

lemma split_numeral:
  assumes "b = 10 \<or> b = 16"
  shows "dropWhile space_byte (numeral_text b n) = numeral_text b n"
    and "split_sign (numeral_text b n) = (False, numeral_text b n)"
    and "split_prefix b (numeral_text b n) = (b, numeral_text b n)"
    and "takeWhile (digit_below b) (numeral_text b n) = numeral_text b n"
proof -
  obtain c cs where t: "numeral_text b n = c # cs" using numeral_text_nonempty by (cases "numeral_text b n") auto
  have "list_all (digit_below b) (c # cs)" using numeral_text_digits [of b n] assms t by auto
  then have d: "digit_below b c" "\<forall>x \<in> set cs. digit_below b x" and b: "b \<le> 16" using assms by (auto simp: list_all_iff)
  note no = digit_below_byte [OF d(1) b]
  show "dropWhile space_byte (numeral_text b n) = numeral_text b n" "split_sign (numeral_text b n) = (False, numeral_text b n)"
    unfolding t using no by (simp_all add: split_sign_def)
  show "takeWhile (digit_below b) (numeral_text b n) = numeral_text b n"
    unfolding t using d by (auto simp: takeWhile_eq_all_conv)
  have "cs = [] \<or> (hd cs \<noteq> 120 \<and> hd cs \<noteq> 88)" using d(2) digit_below_byte(4,5) [OF _ b] by (cases cs) auto
  then show "split_prefix b (numeral_text b n) = (b, numeral_text b n)"
    unfolding t using assms by (cases cs) (auto simp: split_prefix_def)
qed

lemma strtoul_ref_word_text:
  assumes "b = 10 \<or> b = 16"
  shows "strtoul_ref b (word_text x b sign) = (x, length (word_text x b sign))"
proof -
  have v: "numeral_value b (numeral_text b n) = n" for n using assms by (intro numeral_value_text) auto
  have s: "saturate neg (unat w) = (if neg then - w else w)" for neg and w :: u64
    using unat_lt_u64 [of w] by (simp add: saturate_def not_le)
  note t = split_numeral [OF assms] numeral_text_nonempty v s
  show ?thesis
  proof (cases "sign \<and> sint x < 0")
    case True
    then have "word_text x b sign = 45 # numeral_text b (unat (- x))" by (simp add: word_text_def)
    then show ?thesis using t(3,4) [of "unat (- x)"] by (simp add: strtoul_ref_def split_sign_def space_byte_def t Let_def)
  next
    case False
    then have "word_text x b sign = numeral_text b (unat x)" by (auto simp: word_text_def)
    then show ?thesis by (simp add: strtoul_ref_def t Let_def)
  qed
qed

lemma word_text_bytes:
  assumes "b = 10 \<or> b = 16"
  shows "length (word_text x b sign) \<le> 21" and "0 \<notin> set (word_text x b sign)"
proof -
  have "length (numeral_text b (unat w)) \<le> 20" for w :: u64 using assms by (intro length_numeral_text_64) auto
  from this [of x] this [of "- x"] show "length (word_text x b sign) \<le> 21" by (simp add: word_text_def)
  have "0 \<notin> set (numeral_text b n)" for n
    using numeral_text_digits [of b n] digit_below_byte(6) [of b 0] assms by (auto simp: list_all_iff)
  then show "0 \<notin> set (word_text x b sign)" by (simp add: word_text_def)
qed

section \<open>The pointer to the count\<close>

lemma fraction_loop_returns:
  "precision \<le> length buf \<Longrightarrow> \<exists>r. fraction_loop env precision n fraction buf = Inr r"
proof (induction env precision n fraction buf rule: fraction_loop.induct)
  case (1 env precision n fraction buf)
  then show ?case by (subst fraction_loop.simps) (auto simp: Let_def)
qed

lemma put_moving_moves:
  "cs \<noteq> [] \<Longrightarrow> put_moving env buffer cs False st = Inl (Fault (pe_write_count env + 8)) \<or>
     (\<exists>st'. put_moving env buffer cs False st = Inr (True, st'))"
  by (cases st; cases cs; cases "tl cs") auto

lemma print_double_faults:
  assumes "precision \<le> 16"
  shows "print_double env buffer st f precision = Inl (Fault (pe_write_count env + 8))"
proof -
  have int: "print_int_buf x 10 False = Inr (rev (word_text x 10 False))" for x
    using print_int_buf_spec [of 10 x False] by simp
  have ne: "word_text x 10 False \<noteq> []" for x by (simp add: word_text_def numeral_text_nonempty)
  let ?f = "if f_negative env f then f_minus env f else f"
  have "\<exists>r. fraction_loop env precision 0 g (replicate 16 0) = Inr r" for g
    using assms by (intro fraction_loop_returns) simp
  then obtain n fs where frac: "fraction_loop env precision 0 (f_sub env ?f (f_of_u64 env (f_to_u64 env ?f))) (replicate 16 0) = Inr (n, fs)"
    by (metis surj_pair)
  have "bindE (put_moving env buffer cs False st) (\<lambda>(moved, st). if moved then Inl (Fault (pe_write_count env + 8)) else k st) =
      Inl (Fault (pe_write_count env + 8))" if "cs \<noteq> []" for cs st and k :: "mem \<times> usize \<Rightarrow> kerror + mem \<times> usize"
    using put_moving_moves [OF that, of env buffer st] by auto
  from this [OF ne] show ?thesis
    unfolding print_double_def Let_def int frac bindE_simps prod.case rev_rev_ident .
qed

lemma print_string_loop_newline:
  assumes "cstr m s (xs @ of_char (CHR 0x0A) # y # ys)" and "apart buffer n s (xs @ of_char (CHR 0x0A) # y # ys)"
    and "of_char (CHR 0x0A) \<notin> set xs" and "length out + length xs + 2 \<le> n" and "n < 2 ^ 64"
  shows "print_string_loop env buffer False s (out_state m buffer out) = Some (Inl (Fault (pe_write_count env + 8)))"
  using assms(1-4)
proof (induction xs arbitrary: s out)
  case Nil
  let ?nl = "of_char (CHR 0x0A) :: u8"
  have r: "put_bytes m buffer out s = ?nl" "put_bytes m buffer (out @ [?nl]) s = ?nl"
    using apart_read [OF Nil.prems(2), of out m] apart_read [OF Nil.prems(2), of "out @ [?nl]" m] Nil.prems(1,4) by auto
  have a: "apart buffer n (s + 1) (y # ys)" using apart_tl Nil.prems(2) by fastforce
  have "put_bytes m buffer (out @ [?nl, of_char (CHR 0x0D)]) (s + 1) = y" "y \<noteq> 0"
    using apart_read [OF a, of "out @ [?nl, of_char (CHR 0x0D)]" m] Nil.prems(1,4) by auto
  moreover have "(put_bytes m buffer (out @ [?nl]))(buffer + of_nat (length (out @ [?nl])) := of_char (CHR 0x0D)) =
      put_bytes m buffer (out @ [?nl, of_char (CHR 0x0D)])"
    using put_bytes_snoc [of "out @ [?nl]" m buffer "of_char (CHR 0x0D)"] Nil.prems(4) assms(5) by simp
  ultimately have "print_string_loop env buffer True (s + 1)
      ((put_bytes m buffer (out @ [?nl]))(buffer + of_nat (length (out @ [?nl])) := of_char (CHR 0x0D)), of_nat (length (out @ [?nl]))) =
      Some (Inl (Fault (pe_write_count env + 8)))"
    by (subst print_string_loop.simps) simp
  moreover have "putc buffer ?nl (out_state m buffer out) = (put_bytes m buffer (out @ [?nl]), of_nat (length (out @ [?nl])))"
    using putc_out [of out buffer ?nl m] Nil.prems(4) assms(5) by (simp add: out_state_def)
  ultimately show ?case using r by (subst print_string_loop.simps) (simp add: out_state_def)
next
  case (Cons x xs)
  let ?rest = "xs @ of_char (CHR 0x0A) # y # ys"
  have x: "x \<noteq> of_char (CHR 0x0A)" "x \<noteq> 0" using Cons.prems(1,3) by auto
  have r: "put_bytes m buffer out s = x" "put_bytes m buffer (out @ [x]) s = x"
    using apart_read [OF Cons.prems(2), of out m] apart_read [OF Cons.prems(2), of "out @ [x]" m] Cons.prems(1,4) by auto
  have "print_string_loop env buffer False (s + 1) (out_state m buffer (out @ [x])) = Some (Inl (Fault (pe_write_count env + 8)))"
    using Cons.prems apart_tl [of buffer n s x ?rest] by (intro Cons.IH) auto
  moreover have "putc buffer x (out_state m buffer out) = out_state m buffer (out @ [x])"
    using Cons.prems(4) assms(5) by (intro putc_out) simp
  ultimately show ?case using r x by (subst print_string_loop.simps) (simp add: out_state_def)
qed

lemma vsnprintf_run:
  assumes "env_ok env m buffer (unat buf_size) str" and "cstr m fmt cs" and "apart buffer (unat buf_size) fmt cs"
    and "expand str False cs ap = Some t" and "length t \<le> unat buf_size"
  shows "vsnprintf env m buffer buf_size fmt ap = Inr (of_nat (length t), put_bytes m buffer t)"
proof -
  have "out_state m buffer [] = (m, 0)" by (simp add: out_state_def put_bytes_def in_region_def)
  then show ?thesis
    using vsnprintf_loop_spec [OF assms(1) unat_lt_u64 order_refl, of fmt 0 cs False ap t "[]"] assms(2-5)
    by (simp add: vsnprintf_def)
qed

section \<open>Properties\<close>

text \<open>
  C33. Formatted output.  When the text that a format stands for exists (every conversion has an
  argument of its kind, strings have no newline, there is no floating point conversion) and fits
  into the buffer, \<open>__vsnprintf\<close> returns its length and leaves memory as it was, except for the
  text in the buffer.  The buffer must not overlap the format or the strings.
\<close>

theorem vsnprintf_writes_expansion:
  assumes "env_ok env m buffer (unat buf_size) str" and "cstr m fmt cs" and "apart buffer (unat buf_size) fmt cs"
    and "expand str False cs ap = Some t" and "length t \<le> unat buf_size"
  shows "vsnprintf env m buffer buf_size fmt ap = Inr (of_nat (length t), put_bytes m buffer t)"
  using vsnprintf_run [OF assms] .

text \<open>
  C34. Numbers survive printing and parsing.  \<open>print_int\<close> always returns and writes at most 21
  characters; when a NUL follows them, \<open>strtoul\<close> reads back the number that was printed, signed
  or unsigned, in base 10 or 16.
\<close>

theorem print_int_strtoul_roundtrip:
  assumes "b = 10 \<or> b = 16"
  shows "\<exists>m' n. print_int buffer (m, 0) x (of_nat b) sign = Inr (m', of_nat n) \<and> 0 < n \<and> n \<le> 21 \<and>
    (\<forall>a. \<not> in_region a buffer n \<longrightarrow> m' a = m a) \<and>
    (m (buffer + of_nat n) = 0 \<longrightarrow> strtoul m' buffer nullptr (of_nat b) = Inr (x, m'))"
proof -
  let ?t = "word_text x b sign"
  note t = word_text_bytes [OF assms, of x sign]
  have "out_state m buffer [] = (m, 0)" by (simp add: out_state_def put_bytes_def in_region_def)
  then have run: "print_int buffer (m, 0) x (of_nat b) sign = Inr (put_bytes m buffer ?t, of_nat (length ?t))"
    using print_word_out [OF assms, of "[]" x sign buffer m] t(1) by (simp add: out_state_def)
  have "strtoul (put_bytes m buffer ?t) buffer nullptr (of_nat b) = Inr (x, put_bytes m buffer ?t)"
    if "m (buffer + of_nat (length ?t)) = 0"
  proof -
    have "cstr (put_bytes m buffer ?t) buffer ?t" using t that by (intro cstr_put_bytes) simp_all
    from strtoul_run [OF this _ strtoul_ref_word_text [OF assms], of "of_nat b" nullptr] show ?thesis
      using assms by (auto simp: base_ok_def)
  qed
  moreover have "0 < length ?t" using numeral_text_nonempty [of b] by (simp add: word_text_def)
  ultimately show ?thesis using run t(1)
    by (intro exI [of _ "put_bytes m buffer ?t"] exI [of _ "length ?t"]) (auto simp: put_bytes_def)
qed


text \<open>
  The bound of the buffer is checked too late.  A format of ordinary characters that is longer
  than the buffer makes \<open>__vsnprintf\<close> write one byte behind the buffer before it notices and
  returns 0.
\<close>

lemma vsnprintf_overruns_by_one:
  assumes "cstr m fmt cs" and "apart buffer (Suc (unat buf_size)) fmt cs" and "unat buf_size + 1 < length cs" and "unat buf_size < 2 ^ 64 - 1"
    and "\<forall>c \<in> set cs. c \<noteq> of_char (CHR ''%'') \<and> c \<noteq> of_char (CHR 0x0A)"
  shows "vsnprintf env m buffer buf_size fmt ap = Inr (0, put_bytes m buffer (take (Suc (unat buf_size)) cs)) \<and>
    put_bytes m buffer (take (Suc (unat buf_size)) cs) (buffer + buf_size) = cs ! unat buf_size"
proof -
  have loop: "vsnprintf_loop env buffer buf_size fmt i False (out_state m buffer out) ap =
      Some (Inr (0, put_bytes m buffer (out @ take (Suc (unat buf_size) - length out) rest)))"
    if "cstr m (fmt + i) rest" "apart buffer (Suc (unat buf_size)) (fmt + i) rest" "set rest \<subseteq> set cs"
      "length out \<le> Suc (unat buf_size)" "Suc (unat buf_size) < length out + length rest" for i out rest
    using that
  proof (induction rest arbitrary: i out)
    case (Cons c rest)
    have c: "c \<noteq> 0" "cstr m (fmt + (i + 1)) rest" "apart buffer (Suc (unat buf_size)) (fmt + (i + 1)) rest"
      "c \<noteq> of_char (CHR ''%'')" "c \<noteq> of_char (CHR 0x0A)"
      using Cons.prems(1-3) assms(5) apart_tl [of buffer _ "fmt + i" c rest] by (auto simp: add.assoc)
    have rd: "put_bytes m buffer out (fmt + i) = c"
      using apart_read [OF Cons.prems(2), of out m] Cons.prems(1,4) by simp
    have u: "unat (of_nat (length out) :: 64 word) = length out" using Cons.prems(4) assms(4) by (intro unat_of_nat_u64) simp
    show ?case
    proof (cases "length out = Suc (unat buf_size)")
      case True
      then have "buf_size < of_nat (length out)" using u by (simp add: word_less_nat_alt)
      then show ?thesis using rd c(1) True by (subst vsnprintf_loop.simps) (simp add: out_state_def)
    next
      case False
      then have le: "length out \<le> unat buf_size" using Cons.prems(4) by simp
      then have room: "\<not> buf_size < of_nat (length out)" using u by (simp add: word_less_nat_alt)
      have "putc buffer c (put_bytes m buffer out, of_nat (length out)) = out_state m buffer (out @ [c])"
        using putc_out [of out buffer c m] le assms(4) by (simp add: out_state_def)
      then have "vsnprintf_loop env buffer buf_size fmt i False (out_state m buffer out) ap =
          vsnprintf_loop env buffer buf_size fmt (i + 1) False (out_state m buffer (out @ [c])) ap"
        using rd room c(1,4,5) by (subst vsnprintf_loop.simps) (simp add: out_state_def Let_def eq_commute [of _ c])
      then show ?thesis using Cons.IH [OF c(2,3), of "out @ [c]"] Cons.prems(3,5) le by (simp add: Suc_diff_le)
    qed
  qed simp
  have st: "out_state m buffer [] = (m, 0)" by (simp add: out_state_def put_bytes_def in_region_def)
  have "vsnprintf env m buffer buf_size fmt ap = Inr (0, put_bytes m buffer (take (Suc (unat buf_size)) cs))"
    using loop [of 0 cs "[]"] st assms(1-3) by (simp add: vsnprintf_def)
  moreover have "put_bytes m buffer (take (Suc (unat buf_size)) cs) (buffer + buf_size) = cs ! unat buf_size"
    using assms(3) by (simp add: put_bytes_def in_region_def)
  ultimately show ?thesis ..
qed

text \<open>
  The pointer to the count.  No floating point conversion ever returns, whatever the arithmetic
  gives, and neither does a string conversion of a string with a newline before its last
  character: the helper advances the pointer to \<open>write_count\<close> and then reads through it.
\<close>

lemma print_moves_pointer:
  assumes "cstr m s (xs @ of_char (CHR 0x0A) # y # ys)" and "apart buffer n s (xs @ of_char (CHR 0x0A) # y # ys)"
    and "of_char (CHR 0x0A) \<notin> set xs" and "length xs + 2 \<le> n" and "n < 2 ^ 64"
  shows "print_string env buffer (m, 0) s = Inl (Fault (pe_write_count env + 8)) \<and>
    format_spec env buffer (of_char (CHR ''f'')) st (VDouble f # ap) = Inl (Fault (pe_write_count env + 8))"
proof -
  have "out_state m buffer [] = (m, 0)" by (simp add: out_state_def put_bytes_def in_region_def)
  then have "print_string env buffer (m, 0) s = Inl (Fault (pe_write_count env + 8))"
    using print_string_loop_newline [OF assms(1-3) _ assms(5), of "[]" env] assms(4) by (simp add: print_string_def)
  then show ?thesis by (simp add: format_spec_def va_double_def print_double_faults)
qed

section \<open>The properties on concrete input\<close>

definition demo_env :: "int print_env" where
  "demo_env = \<lparr>pe_write_count = 0x8000, pe_null = 0x100, pe_true = 0x110, pe_false = 0x120,
     f_negative = (\<lambda>f. f < 0), f_minus = uminus, f_to_u64 = of_int, f_of_u64 = uint, f_sub = minus,
     f_times_10 = (\<lambda>f. 10 * f), f_to_i32 = of_int, f_of_i32 = sint\<rparr>"

definition demo_text :: mem where
  "demo_text = (\<lambda>_. 0)(0x100 := 110, 0x101 := 117, 0x102 := 108, 0x103 := 108,
     0x110 := 116, 0x111 := 114, 0x112 := 117, 0x113 := 101,
     0x120 := 102, 0x121 := 97, 0x122 := 108, 0x123 := 115, 0x124 := 101,
     0x200 := 37, 0x201 := 100, 0x202 := 32, 0x203 := 37, 0x204 := 115, 0x205 := 10,
     0x300 := 111, 0x301 := 107, 0x400 := 97, 0x401 := 10, 0x402 := 98, 0x403 := 99)"

lemma demo_apart: "unat s + length bs < 0x1000 \<Longrightarrow> n \<le> 64 \<Longrightarrow> apart 0x1000 n s bs"
  unfolding apart_def by (rule disjoint_regionsI) simp_all

lemma demo_env_ok: "env_ok demo_env demo_text 0x1000 64 [0x300 \<mapsto> [111, 107]]"
  by (simp add: env_ok_def text_at_def demo_apart demo_env_def chars_def) (simp add: demo_text_def)

theorem vsnprintf_writes_expansion_witness:
  "env_ok demo_env demo_text 0x1000 (unat (64 :: usize)) [0x300 \<mapsto> [111, 107]] \<and>
   expand [0x300 \<mapsto> [111, 107]] False [37, 100, 32, 37, 115, 10] [VInt (- 5), VInt 0x300 :: int varg] =
     Some [45, 53, 32, 111, 107, 10, 13] \<and>
   vsnprintf demo_env demo_text 0x1000 64 0x200 [VInt (- 5), VInt 0x300] =
     Inr (7, put_bytes demo_text 0x1000 [45, 53, 32, 111, 107, 10, 13])"
proof -
  have e: "env_ok demo_env demo_text 0x1000 (unat (64 :: usize)) [0x300 \<mapsto> [111, 107]]" using demo_env_ok by simp
  have c: "cstr demo_text 0x200 [37, 100, 32, 37, 115, 10]" by (simp add: demo_text_def)
  have x: "expand [0x300 \<mapsto> [111, 107]] False [37, 100, 32, 37, 115, 10] [VInt (- 5), VInt 0x300 :: int varg] =
      Some [45, 53, 32, 111, 107, 10, 13]"
    by (simp add: spec_text_def chars_def newline_text_def int_text_def numeral_text_small digits_def)
  have a: "apart 0x1000 (unat (64 :: usize)) 0x200 [37, 100, 32, 37, 115, 10]" by (rule demo_apart) simp_all
  show ?thesis using vsnprintf_writes_expansion [OF e c a x] e x by simp
qed

theorem print_int_strtoul_roundtrip_witness:
  "\<exists>m' n. print_int 0x1000 (\<lambda>_. 0, 0) (- 255) 16 True = Inr (m', of_nat n) \<and> n \<le> 21 \<and>
     strtoul m' 0x1000 nullptr 16 = Inr (- 255, m')"
  using print_int_strtoul_roundtrip [of 16 "0x1000" "\<lambda>_. 0" "- 255" True] by auto

end
