(* ===== verification/Console.thy ===== *)
theory Console
  imports Arena_Allocator Ring_Buffer Spinlock Printf
begin

text \<open>
  The console of \<open>kernel/io/console.c\<close> with the event type of \<open>kernel/include/io/io.h\<close>.
  Messages are copied into an arena and the events that point to them into a second one; a
  flush hands the events to every registered device in order.  The devices are observed through the
  calls they get: \<open>cs_out\<close> is the sequence of \<open>write\<close> and \<open>flush\<close> calls with what they are
  given.  Received characters go through a ring buffer.  The objects of registered devices are kept
  in a store of their own; event structures, messages and the static buffers are byte memory.

  The lemmas show that nothing is lost or reordered: what each device has been given followed by
  what is pending is what has been written.
\<close>

section \<open>Events and state\<close>

record io_color =
  io_color :: u8
  io_bright :: bool

definition IO_COLOR_WHITE_BRIGHT :: io_color where
  "IO_COLOR_WHITE_BRIGHT = \<lparr>io_color = 7, io_bright = True\<rparr>"

definition IO_COLOR_BLACK :: io_color where
  "IO_COLOR_BLACK = \<lparr>io_color = 0, io_bright = False\<rparr>"

definition IO_DEFAULT_COLOR_FG :: io_color where "IO_DEFAULT_COLOR_FG = IO_COLOR_WHITE_BRIGHT"
definition IO_DEFAULT_COLOR_BG :: io_color where "IO_DEFAULT_COLOR_BG = IO_COLOR_BLACK"

text \<open>
  The layout of \<open>IOEvent\<close>: the two colours in the first four bytes, the message pointer at 8,
  its length at 16.  \<open>event_at\<close> is what a reader of the event finds.
\<close>

definition sizeof_io_event :: usize where "sizeof_io_event = 24"

definition ev_msg :: "mem \<Rightarrow> ptr \<Rightarrow> ptr" where "ev_msg m e = load64 m (e + 8)"
definition ev_len :: "mem \<Rightarrow> ptr \<Rightarrow> usize" where "ev_len m e = load64 m (e + 16)"

type_synonym event = "u8 list \<times> u8 list"

definition event_at :: "mem \<Rightarrow> ptr \<Rightarrow> event" where
  "event_at m e = (bytes_at m e 4, bytes_at m (ev_msg m e) (unat (ev_len m e)))"

text \<open>The calls of the operations of a device.\<close>

datatype device_call = Dev_write event | Dev_flush

record console_backend =
  cb_device :: ptr
  cb_next :: ptr

record console =
  con_write_lock :: spinlock
  con_read_lock :: spinlock
  con_backends :: ptr
  con_recv_rb :: ring_buffer
  con_io_events :: arena
  con_io_messages :: arena
  con_enable_buffering :: bool

record console_sys =
  cs_core :: core
  cs_mem :: mem
  cs_nodes :: "ptr \<rightharpoonup> console_backend"
  cs_out :: "(ptr \<times> device_call) list"
  cs_console :: console

definition IO_EVENT_BUFFER_COUNT :: usize where "IO_EVENT_BUFFER_COUNT = 5"
definition IO_EVENT_MSG_SIZE_ESTIMATE :: usize where "IO_EVENT_MSG_SIZE_ESTIMATE = 100"
definition CONSOLE_RECV_RING_BUFFER_SIZE :: usize where "CONSOLE_RECV_RING_BUFFER_SIZE = 1024"
definition IO_EVENT_BUFFER_SIZE :: usize where
  "IO_EVENT_BUFFER_SIZE = sizeof_io_event * IO_EVENT_BUFFER_COUNT"
definition IO_EVENT_MSG_BUFFER_SIZE :: usize where
  "IO_EVENT_MSG_BUFFER_SIZE = IO_EVENT_BUFFER_COUNT * IO_EVENT_MSG_SIZE_ESTIMATE"

section \<open>Locked sections\<close>

abbreviation upd_con :: "(console \<Rightarrow> console) \<Rightarrow> console_sys \<Rightarrow> console_sys" where
  "upd_con f s \<equiv> s\<lparr>cs_console := f (cs_console s)\<rparr>"

definition with_write_lock :: "(console_sys \<Rightarrow> kerror + 'a \<times> console_sys) \<Rightarrow> console_sys \<Rightarrow> kerror + 'a \<times> console_sys" where
  "with_write_lock body s =
     bindE (spinlock_scoped (cs_core s) (con_write_lock (cs_console s))
       (\<lambda>c. bindE (body (s\<lparr>cs_core := c\<rparr>)) (\<lambda>(a, s). Inr ((a, s), cs_core s)))) (\<lambda>((a, s), c, l).
     Inr (a, upd_con (\<lambda>con. con\<lparr>con_write_lock := l\<rparr>) (s\<lparr>cs_core := c\<rparr>)))"

definition with_read_lock :: "(console_sys \<Rightarrow> kerror + 'a \<times> console_sys) \<Rightarrow> console_sys \<Rightarrow> kerror + 'a \<times> console_sys" where
  "with_read_lock body s =
     bindE (spinlock_scoped (cs_core s) (con_read_lock (cs_console s))
       (\<lambda>c. bindE (body (s\<lparr>cs_core := c\<rparr>)) (\<lambda>(a, s). Inr ((a, s), cs_core s)))) (\<lambda>((a, s), c, l).
     Inr (a, upd_con (\<lambda>con. con\<lparr>con_read_lock := l\<rparr>) (s\<lparr>cs_core := c\<rparr>)))"

section \<open>Set-up and registration\<close>

text \<open>The static buffers stand where the linker puts them.\<close>

definition console_init :: "ptr \<Rightarrow> ptr \<Rightarrow> ptr \<Rightarrow> bool \<Rightarrow> console_sys \<Rightarrow> 64 word \<times> console_sys" where
  "console_init io_event_buffer_storage io_event_msg_buffer console_recv_buffer buffering s =
     (errnum EOK, upd_con (\<lambda>con. con\<lparr>con_write_lock := spinlock_init ''console - write'',
        con_read_lock := spinlock_init ''console - read'',
        con_io_events := arena_init (con_io_events con) io_event_buffer_storage IO_EVENT_BUFFER_SIZE,
        con_io_messages := arena_init (con_io_messages con) io_event_msg_buffer IO_EVENT_MSG_BUFFER_SIZE,
        con_recv_rb := ringbuffer_init 1 console_recv_buffer CONSOLE_RECV_RING_BUFFER_SIZE,
        con_enable_buffering := buffering\<rparr>) s)"

definition backend_at :: "ptr \<Rightarrow> console_sys \<Rightarrow> kerror + console_backend" where
  "backend_at p s = (case cs_nodes s p of None \<Rightarrow> Inl (Fault p) | Some b \<Rightarrow> Inr b)"

definition set_backend_next :: "ptr \<Rightarrow> ptr \<Rightarrow> console_sys \<Rightarrow> kerror + console_sys" where
  "set_backend_next p q s = bindE (backend_at p s) (\<lambda>b. Inr (s\<lparr>cs_nodes := (cs_nodes s)(p \<mapsto> b\<lparr>cb_next := q\<rparr>)\<rparr>))"

definition console_register_backend :: "ptr \<Rightarrow> console_sys \<Rightarrow> kerror + unit \<times> console_sys" where
  "console_register_backend backend =
     with_write_lock (\<lambda>s.
       bindE (set_backend_next backend (con_backends (cs_console s)) s) (\<lambda>s.
       Inr ((), upd_con (\<lambda>con. con\<lparr>con_backends := backend\<rparr>) s)))"

partial_function (option) unregister_loop ::
  "ptr \<Rightarrow> ptr \<Rightarrow> ptr \<Rightarrow> console_sys \<Rightarrow> (kerror + bool \<times> console_sys) option" where
  "unregister_loop device cur prev s =
     (if nullptr = cur then Some (Inr (False, s))
      else case backend_at cur s of
        Inl e \<Rightarrow> Some (Inl e)
      | Inr b \<Rightarrow>
          if cb_device b = device then
            Some (bindE (if prev = nullptr then Inr (upd_con (\<lambda>con. con\<lparr>con_backends := cb_next b\<rparr>) s)
                         else set_backend_next prev (cb_next b) s) (\<lambda>s.
                  bindE (set_backend_next cur nullptr s) (\<lambda>s. Inr (True, s))))
          else unregister_loop device (cb_next b) cur s)"

definition console_unregister :: "ptr \<Rightarrow> console_sys \<Rightarrow> kerror + bool \<times> console_sys" where
  "console_unregister device =
     with_write_lock (\<lambda>s. bindE (endsE (unregister_loop device (con_backends (cs_console s)) nullptr s)) (\<lambda>r. r))"

section \<open>Writing\<close>

definition dev_call :: "ptr \<Rightarrow> device_call \<Rightarrow> console_sys \<Rightarrow> console_sys" where
  "dev_call device call s = s\<lparr>cs_out := cs_out s @ [(device, call)]\<rparr>"

partial_function (option) backends_loop :: "device_call \<Rightarrow> ptr \<Rightarrow> console_sys \<Rightarrow> (kerror + console_sys) option" where
  "backends_loop call backend s =
     (if nullptr = backend then Some (Inr s)
      else case backend_at backend s of
        Inl e \<Rightarrow> Some (Inl e)
      | Inr b \<Rightarrow> backends_loop call (cb_next b) (dev_call (cb_device b) call s))"

definition write_to_all_backends :: "ptr \<Rightarrow> console_sys \<Rightarrow> kerror + console_sys" where
  "write_to_all_backends ev s =
     bindE (endsE (backends_loop (Dev_write (event_at (cs_mem s) ev)) (con_backends (cs_console s)) s)) (\<lambda>r. r)"

definition finalize_write :: "console_sys \<Rightarrow> kerror + console_sys" where
  "finalize_write s =
     (let events = arena_base (con_io_events (cs_console s));
          count = arena_count (con_io_events (cs_console s)) div sizeof_io_event
      in forE (word_range 0 count) (\<lambda>i. write_to_all_backends (events + i * sizeof_io_event)) s)"

definition can_fit :: "ptr \<Rightarrow> console_sys \<Rightarrow> bool" where
  "can_fit ev s \<longleftrightarrow> arena_can_fit (con_io_messages (cs_console s)) (ev_len (cs_mem s) ev) \<and>
     arena_can_fit (con_io_events (cs_console s)) sizeof_io_event"

definition reset_buffers :: "console_sys \<Rightarrow> console_sys" where
  "reset_buffers s =
     upd_con (\<lambda>con. con\<lparr>con_io_messages := arena_reset (con_io_messages con), con_io_events := arena_reset (con_io_events con)\<rparr>) s"

definition write_event :: "ptr \<Rightarrow> console_sys \<Rightarrow> kerror + console_sys" where
  "write_event ev s =
     (let len = ev_len (cs_mem s) ev;
          (msg_alloc, msgs) = arena_alloc (con_io_messages (cs_console s)) len;
          s = upd_con (\<lambda>con. con\<lparr>con_io_messages := msgs\<rparr>) s
      in bindE (assertE (\<not> IS_ERR msg_alloc) ''failed to allocate for io message'') (\<lambda>_.
         let s = s\<lparr>cs_mem := memcpy (cs_mem s) msg_alloc (ev_msg (cs_mem s) ev) len\<rparr>;
             s = s\<lparr>cs_mem := store64 (cs_mem s) (ev + 8) msg_alloc\<rparr>;
             (event_alloc, events) = arena_alloc (con_io_events (cs_console s)) sizeof_io_event;
             s = upd_con (\<lambda>con. con\<lparr>con_io_events := events\<rparr>) s
         in bindE (assertE (\<not> IS_ERR event_alloc) ''failed to allocate for event'') (\<lambda>_.
            Inr (s\<lparr>cs_mem := memcpy (cs_mem s) event_alloc ev sizeof_io_event\<rparr>))))"

definition flush_locked :: "console_sys \<Rightarrow> kerror + 64 word \<times> console_sys" where
  "flush_locked s =
     bindE (finalize_write s) (\<lambda>s.
     bindE (endsE (backends_loop Dev_flush (con_backends (cs_console s)) s)) (\<lambda>r.
     bindE r (\<lambda>s. Inr (errnum EOK, reset_buffers s))))"

definition console_flush :: "console_sys \<Rightarrow> kerror + 64 word \<times> console_sys" where
  "console_flush = with_write_lock (\<lambda>s. bindE (flush_locked s) (\<lambda>(_, s). Inr (errnum EOK, s)))"

definition write_locked :: "ptr \<Rightarrow> console_sys \<Rightarrow> kerror + 64 word \<times> console_sys" where
  "write_locked e s =
     (if \<not> con_enable_buffering (cs_console s) then
        bindE (write_event e s) (\<lambda>s. bindE (flush_locked s) (\<lambda>(_, s). Inr (errnum EOK, s)))
      else
        bindE (if \<not> can_fit e s then bindE (flush_locked s) (\<lambda>(_, s). Inr s) else Inr s) (\<lambda>s.
        bindE (write_event e s) (\<lambda>s. Inr (errnum EOK, s))))"

fun write_multiple_loop :: "ptr list \<Rightarrow> console_sys \<Rightarrow> kerror + 64 word \<times> console_sys" where
  "write_multiple_loop [] s = Inr (errnum EOK, s)"
| "write_multiple_loop (e # es) s =
     bindE (write_locked e s) (\<lambda>(ret, s). if errnum EOK \<noteq> ret then Inr (ret, s) else write_multiple_loop es s)"

definition console_write_multiple :: "ptr \<Rightarrow> usize \<Rightarrow> console_sys \<Rightarrow> kerror + 64 word \<times> console_sys" where
  "console_write_multiple events events_count =
     with_write_lock (write_multiple_loop (map (\<lambda>i. events + i * sizeof_io_event) (word_range 0 events_count)))"

text \<open>The event is passed by value: \<open>e\<close> is the address of the callee's copy.\<close>

definition console_write :: "ptr \<Rightarrow> console_sys \<Rightarrow> kerror + 64 word \<times> console_sys" where
  "console_write e = with_write_lock (write_locked e)"

definition console_set_buffering :: "bool \<Rightarrow> console_sys \<Rightarrow> kerror + unit \<times> console_sys" where
  "console_set_buffering buffering =
     with_write_lock (\<lambda>s. Inr ((), upd_con (\<lambda>con. con\<lparr>con_enable_buffering := buffering\<rparr>) s))"

section \<open>Single characters and input\<close>

definition color_bytes :: "io_color \<Rightarrow> u8 list" where
  "color_bytes c = [io_color c, of_bool (io_bright c)]"

definition put_event :: "mem \<Rightarrow> ptr \<Rightarrow> io_color \<Rightarrow> io_color \<Rightarrow> ptr \<Rightarrow> usize \<Rightarrow> mem" where
  "put_event m e fg bg msg len =
     store64 (store64 (put_bytes m e (color_bytes fg @ color_bytes bg)) (e + 8) msg) (e + 16) len"

text \<open>\<open>c\<close> and \<open>e\<close> are the addresses of the parameter and of the local event.\<close>

definition console_write_char :: "ptr \<Rightarrow> ptr \<Rightarrow> u8 \<Rightarrow> console_sys \<Rightarrow> kerror + 64 word \<times> console_sys" where
  "console_write_char e c ch s =
     (let m = (cs_mem s)(c := ch);
          m = put_event m e IO_DEFAULT_COLOR_FG IO_DEFAULT_COLOR_BG c 1
      in console_write e (s\<lparr>cs_mem := m\<rparr>))"

definition console_receive_char :: "ptr \<Rightarrow> u8 \<Rightarrow> console_sys \<Rightarrow> kerror + 64 word \<times> console_sys" where
  "console_receive_char c ch s =
     with_read_lock (\<lambda>s.
       bindE (ringbuffer_push (con_recv_rb (cs_console s)) c (cs_mem s)) (\<lambda>(err, rb, m).
       Inr (err, upd_con (\<lambda>con. con\<lparr>con_recv_rb := rb\<rparr>) (s\<lparr>cs_mem := m\<rparr>)))) (s\<lparr>cs_mem := (cs_mem s)(c := ch)\<rparr>)"

definition console_read :: "ptr \<Rightarrow> console_sys \<Rightarrow> kerror + bool \<times> console_sys" where
  "console_read out =
     with_read_lock (\<lambda>s.
       if ringbuffer_empty (con_recv_rb (cs_console s)) then Inr (False, s)
       else bindE (ringbuffer_pop (con_recv_rb (cs_console s)) out (cs_mem s)) (\<lambda>(err, rb, m).
         Inr (True, upd_con (\<lambda>con. con\<lparr>con_recv_rb := rb\<rparr>) (s\<lparr>cs_mem := m\<rparr>))))"

section \<open>Formatted output (printf.c, log.h)\<close>

definition PRINT_BUFFER_SIZE :: usize where "PRINT_BUFFER_SIZE = 2048"

text \<open>
  The buffers and events are local variables; their addresses are arguments.  \<open>printf\<close> only
  packs its arguments into the list.
\<close>

definition vprintf :: "'f print_env \<Rightarrow> ptr \<Rightarrow> ptr \<Rightarrow> ptr \<Rightarrow> 'f varg list \<Rightarrow> console_sys \<Rightarrow> kerror + console_sys" where
  "vprintf env printf_buffer e fmt ap s =
     bindE (vsnprintf env (cs_mem s) printf_buffer PRINT_BUFFER_SIZE fmt ap) (\<lambda>(wrote, m).
     let m = put_event m e IO_DEFAULT_COLOR_FG IO_DEFAULT_COLOR_BG printf_buffer wrote in
     bindE (console_write e (s\<lparr>cs_mem := m\<rparr>)) (\<lambda>(_, s). Inr s))"

definition individual_buffer_sizes :: usize where "individual_buffer_sizes = push_bit 10 1"
definition level_buffer_size :: usize where "level_buffer_size = 20"

text \<open>
  A log line is three events: the level, the place in the source and the message.  \<open>lf\<close> and \<open>pf\<close>
  are the addresses of the two format literals.
\<close>

definition log_line ::
  "'f print_env \<Rightarrow> ptr \<Rightarrow> ptr \<Rightarrow> ptr \<Rightarrow> ptr \<Rightarrow> ptr \<Rightarrow> ptr \<Rightarrow> ptr \<Rightarrow> io_color \<Rightarrow> ptr \<Rightarrow> ptr \<Rightarrow> usize \<Rightarrow> ptr \<Rightarrow> 'f varg list \<Rightarrow>
     console_sys \<Rightarrow> kerror + console_sys" where
  "log_line env lf pf level_buffer buffer0 buffer1 events level_str color file func line fmt args s =
     bindE (vsnprintf env (cs_mem s) level_buffer level_buffer_size lf [VInt level_str]) (\<lambda>(wrote, m).
     let m = put_event m events IO_DEFAULT_COLOR_BG color level_buffer wrote in
     bindE (vsnprintf env m buffer0 individual_buffer_sizes pf [VInt file, VInt func, VInt line]) (\<lambda>(wrote, m).
     let m = put_event m (events + sizeof_io_event) color IO_DEFAULT_COLOR_BG buffer0 wrote in
     bindE (vsnprintf env m buffer1 individual_buffer_sizes fmt args) (\<lambda>(wrote, m).
     let m = put_event m (events + 2 * sizeof_io_event) color IO_DEFAULT_COLOR_BG buffer1 wrote in
     bindE (console_write_multiple events 3 (s\<lparr>cs_mem := m\<rparr>)) (\<lambda>(_, s).
     bindE (console_flush s) (\<lambda>(_, s). Inr s)))))"

definition user_log ::
  "'f print_env \<Rightarrow> ptr \<Rightarrow> ptr \<Rightarrow> ptr \<Rightarrow> ptr \<Rightarrow> ptr \<Rightarrow> io_color \<Rightarrow> ptr \<Rightarrow> 'f varg list \<Rightarrow> console_sys \<Rightarrow> kerror + console_sys" where
  "user_log env lf level_buffer buffer events level_str color fmt args s =
     bindE (vsnprintf env (cs_mem s) level_buffer level_buffer_size lf [VInt level_str]) (\<lambda>(wrote, m).
     let m = put_event m events IO_DEFAULT_COLOR_BG color level_buffer wrote in
     bindE (vsnprintf env m buffer individual_buffer_sizes fmt args) (\<lambda>(wrote, m).
     let m = put_event m (events + sizeof_io_event) IO_DEFAULT_COLOR_FG IO_DEFAULT_COLOR_BG buffer wrote in
     bindE (console_write_multiple events 2 (s\<lparr>cs_mem := m\<rparr>)) (\<lambda>(_, s).
     bindE (console_flush s) (\<lambda>(_, s). Inr s))))"

section \<open>Locked sections return\<close>

lemma with_write_lock_returns:
  assumes "core_ok (Suc k) (cs_core s)" and "lock_free (con_write_lock (cs_console s))"
    and "body (s\<lparr>cs_core := irq_push_intr (cs_core s)\<rparr>) = Inr (a, s')"
    and "cs_core s' = irq_push_intr (cs_core s)" and "con_write_lock (cs_console s') = con_write_lock (cs_console s)"
  shows "\<exists>c'. with_write_lock body s = Inr (a, s'\<lparr>cs_core := c'\<rparr>) \<and> irq_view c' = irq_view (cs_core s)"
proof -
  let ?b = "\<lambda>c. bindE (body (s\<lparr>cs_core := c\<rparr>)) (\<lambda>(a, s). Inr ((a, s), cs_core s))"
  have "?b (irq_push_intr (cs_core s)) = Inr ((a, s'), irq_push_intr (cs_core s))" using assms(3,4) by simp
  from scoped_returns [OF assms(1,2), where body = ?b, OF this refl] obtain c' where
    "spinlock_scoped (cs_core s) (con_write_lock (cs_console s)) ?b = Inr ((a, s'), c', con_write_lock (cs_console s))"
    "irq_view c' = irq_view (cs_core s)" by blast
  moreover have "upd_con (\<lambda>con. con\<lparr>con_write_lock := con_write_lock (cs_console s')\<rparr>) (s'\<lparr>cs_core := c'\<rparr>) = s'\<lparr>cs_core := c'\<rparr>"
    by (cases s') simp
  ultimately show ?thesis using assms(5) by (intro exI [of _ c']) (simp add: with_write_lock_def)
qed

lemma with_write_lock_stops:
  assumes "lock_free (con_write_lock (cs_console s))" and "body (s\<lparr>cs_core := irq_push_intr (cs_core s)\<rparr>) = Inl e"
  shows "with_write_lock body s = Inl e"
  using scoped_stops [OF assms(1), of "\<lambda>c. bindE (body (s\<lparr>cs_core := c\<rparr>)) (\<lambda>(a, s). Inr ((a, s), cs_core s))"] assms(2)
  by (simp add: with_write_lock_def)

lemma with_read_lock_returns:
  assumes "core_ok (Suc k) (cs_core s)" and "lock_free (con_read_lock (cs_console s))"
    and "body (s\<lparr>cs_core := irq_push_intr (cs_core s)\<rparr>) = Inr (a, s')"
    and "cs_core s' = irq_push_intr (cs_core s)" and "con_read_lock (cs_console s') = con_read_lock (cs_console s)"
  shows "\<exists>c'. with_read_lock body s = Inr (a, s'\<lparr>cs_core := c'\<rparr>) \<and> irq_view c' = irq_view (cs_core s)"
proof -
  let ?b = "\<lambda>c. bindE (body (s\<lparr>cs_core := c\<rparr>)) (\<lambda>(a, s). Inr ((a, s), cs_core s))"
  have "?b (irq_push_intr (cs_core s)) = Inr ((a, s'), irq_push_intr (cs_core s))" using assms(3,4) by simp
  from scoped_returns [OF assms(1,2), where body = ?b, OF this refl] obtain c' where
    "spinlock_scoped (cs_core s) (con_read_lock (cs_console s)) ?b = Inr ((a, s'), c', con_read_lock (cs_console s))"
    "irq_view c' = irq_view (cs_core s)" by blast
  moreover have "upd_con (\<lambda>con. con\<lparr>con_read_lock := con_read_lock (cs_console s')\<rparr>) (s'\<lparr>cs_core := c'\<rparr>) = s'\<lparr>cs_core := c'\<rparr>"
    by (cases s') simp
  ultimately show ?thesis using assms(5) by (intro exI [of _ c']) (simp add: with_read_lock_def)
qed

section \<open>The list of devices\<close>

fun backends_rep :: "(ptr \<rightharpoonup> console_backend) \<Rightarrow> ptr \<Rightarrow> (ptr \<times> ptr) list \<Rightarrow> bool" where
  "backends_rep h p [] \<longleftrightarrow> p = nullptr"
| "backends_rep h p ((q, d) # bs) \<longleftrightarrow> p = q \<and> q \<noteq> nullptr \<and>
     (\<exists>b. h q = Some b \<and> cb_device b = d \<and> backends_rep h (cb_next b) bs)"

lemma backends_loop_spec:
  assumes "backends_rep (cs_nodes s) p bs"
  shows "backends_loop call p s = Some (Inr (s\<lparr>cs_out := cs_out s @ map (\<lambda>(q, d). (d, call)) bs\<rparr>))"
  using assms
proof (induction bs arbitrary: p s)
  case Nil
  then show ?case by (simp add: backends_loop.simps)
next
  case (Cons qd bs)
  obtain q d where qd: "qd = (q, d)" by force
  obtain b where b: "p = q" "q \<noteq> nullptr" "cs_nodes s q = Some b" "cb_device b = d" "backends_rep (cs_nodes s) (cb_next b) bs"
    using Cons.prems unfolding qd by auto
  have "backends_loop call p s = backends_loop call (cb_next b) (dev_call d call s)"
    using b by (subst backends_loop.simps) (simp add: backend_at_def)
  also have "\<dots> = Some (Inr ((dev_call d call s)\<lparr>cs_out := cs_out (dev_call d call s) @ map (\<lambda>(q, d). (d, call)) bs\<rparr>))"
    using b(5) by (intro Cons.IH) (simp add: dev_call_def)
  finally show ?case by (simp add: qd dev_call_def)
qed

lemma backends_rep_cong: "backends_rep h p bs \<Longrightarrow> (\<And>q. q \<in> fst ` set bs \<Longrightarrow> h' q = h q) \<Longrightarrow> backends_rep h' p bs"
proof (induction h p bs rule: backends_rep.induct)
  case (2 h p q d bs)
  then obtain b where b: "p = q" "q \<noteq> nullptr" "h q = Some b" "cb_device b = d" "backends_rep h (cb_next b) bs" by auto
  then have "backends_rep h' (cb_next b) bs" using 2 by simp
  with b 2(3) show ?case by simp
qed simp

section \<open>Regions\<close>

lemma region_sub:
  assumes "unat off + n \<le> N" and "in_region a (p + off) n"
  shows "in_region a p N"
proof -
  obtain i where i: "unat i < n" "a = p + off + i" using assms(2) by (rule in_regionE)
  have "unat (off + i) \<le> unat off + unat i" by (simp add: unat_plus_if')
  then have "unat (off + i) < N" using i(1) assms(1) by linarith
  then show ?thesis using i(2) by (simp add: in_region_def add.assoc)
qed

lemma offset_regions:
  assumes "unat o1 + n1 \<le> unat o2 \<or> unat o2 + n2 \<le> unat o1" and "unat o1 + n1 \<le> 2 ^ 64" and "unat o2 + n2 \<le> 2 ^ 64"
  shows "disjoint_regions (p + o1) n1 (p + o2) n2"
  unfolding disjoint_regions_def
proof (intro allI notI, elim conjE)
  fix a assume "in_region a (p + o1) n1" "in_region a (p + o2) n2"
  then obtain i j where ij: "unat i < n1" "unat j < n2" "p + o1 + i = p + o2 + j" by (metis in_regionE)
  have "unat (o1 + i) = unat o1 + unat i" by (rule unat_add_u64) (use ij(1) assms(2) in linarith)
  moreover have "unat (o2 + j) = unat o2 + unat j" by (rule unat_add_u64) (use ij(2) assms(3) in linarith)
  moreover have "o1 + i = o2 + j" using ij(3) by (simp add: add.assoc)
  ultimately have "unat o1 + unat i = unat o2 + unat j" by metis
  with ij(1,2) assms(1) show False by linarith
qed

lemma load64_copied:
  assumes "\<And>a. in_region a d n \<Longrightarrow> m' a = m (s + (a - d))" and "unat off + 8 \<le> n"
  shows "load64 m' (d + off) = load64 m (s + off)"
proof -
  have "m' (d + off + of_nat i) = m (s + off + of_nat i)" if "i < 8" for i
  proof -
    have "in_region (d + off + of_nat i) (d + off) 8" using that by (intro in_region_offset) (simp add: unat_of_nat)
    then have "in_region (d + off + of_nat i) d n" by (rule region_sub [OF assms(2)])
    from assms(1) [OF this] show ?thesis by (simp add: algebra_simps)
  qed
  then have "map (\<lambda>i. m' (d + off + of_nat i)) [0..<8] = map (\<lambda>i. m (s + off + of_nat i)) [0..<8]" by (intro map_cong) auto
  then show ?thesis by (simp only: load64_eq)
qed

lemma bytes_copied:
  assumes "\<And>a. in_region a d n \<Longrightarrow> m' a = m (s + (a - d))" and "n < 2 ^ 64" and "k \<le> n"
  shows "bytes_at m' d k = bytes_at m s k"
proof -
  have "m' (d + of_nat i) = m (s + of_nat i)" if "i < k" for i
  proof -
    have "in_region (d + of_nat i) d n" using that assms(2,3) by (intro in_region_offset) (simp add: unat_of_nat_u64)
    from assms(1) [OF this] show ?thesis by simp
  qed
  then show ?thesis by (simp add: bytes_at_def)
qed

section \<open>Pending events\<close>

abbreviation con_ES :: "console \<Rightarrow> ptr" where "con_ES con \<equiv> ar_pool (con_io_events con)"
abbreviation con_MS :: "console \<Rightarrow> ptr" where "con_MS con \<equiv> ar_pool (con_io_messages con)"

definition ev_slot :: "console \<Rightarrow> nat \<Rightarrow> ptr" where
  "ev_slot con i = con_ES con + of_nat (24 * i)"

definition pending_count :: "console \<Rightarrow> nat" where
  "pending_count con = unat (ar_count (con_io_events con)) div 24"

definition pending :: "console \<Rightarrow> mem \<Rightarrow> event list" where
  "pending con m = map (\<lambda>i. event_at m (ev_slot con i)) [0..<pending_count con]"

definition con_inv :: "console \<Rightarrow> mem \<Rightarrow> bool" where
  "con_inv con m \<longleftrightarrow>
     arena_inv (con_io_events con) \<and> arena_inv (con_io_messages con) \<and>
     ar_capacity (con_io_events con) = 120 \<and> ar_capacity (con_io_messages con) = 500 \<and>
     unat (ar_count (con_io_events con)) mod 24 = 0 \<and>
     disjoint_regions (con_ES con) 120 (con_MS con) 500 \<and>
     (\<forall>i < pending_count con. unat (ev_msg m (ev_slot con i) - con_MS con) + unat (ev_len m (ev_slot con i)) \<le> unat (ar_count (con_io_messages con)))"

text \<open>An event of a client: outside the buffers of the console, as is its message.\<close>

definition client_event :: "console \<Rightarrow> mem \<Rightarrow> ptr \<Rightarrow> bool" where
  "client_event con m e \<longleftrightarrow>
     disjoint_regions e 24 (con_ES con) 120 \<and> disjoint_regions e 24 (con_MS con) 500 \<and>
     disjoint_regions (ev_msg m e) (unat (ev_len m e)) (con_MS con) 500"

lemma con_inv_counts:
  assumes "con_inv con m"
  shows "unat (ar_count (con_io_events con)) = 24 * pending_count con" and "pending_count con \<le> 5"
    and "unat (ar_count (con_io_messages con)) \<le> 500"
proof -
  have c: "unat (ar_count (con_io_events con)) \<le> 120" "unat (ar_count (con_io_messages con)) \<le> 500"
    using assms by (auto simp: con_inv_def arena_inv_def word_le_nat_alt)
  show "unat (ar_count (con_io_events con)) = 24 * pending_count con"
    using assms by (auto simp: con_inv_def pending_count_def)
  with c show "pending_count con \<le> 5" "unat (ar_count (con_io_messages con)) \<le> 500" by simp_all
qed

lemma can_fit_iff:
  assumes "con_inv con m" and "cs_console s = con" and "cs_mem s = m"
  shows "can_fit e s \<longleftrightarrow> unat (ar_count (con_io_messages con)) + unat (ev_len m e) \<le> 500 \<and> pending_count con < 5"
proof -
  have i: "arena_inv (con_io_events con)" "arena_inv (con_io_messages con)"
    "ar_capacity (con_io_events con) = 120" "ar_capacity (con_io_messages con) = 500"
    using assms(1) by (auto simp: con_inv_def)
  note c = con_inv_counts [OF assms(1)]
  have l: "unat (arena_left (con_io_events con)) = 120 - 24 * pending_count con"
    "unat (arena_left (con_io_messages con)) = 500 - unat (ar_count (con_io_messages con))"
    using unat_arena_left [OF i(1)] unat_arena_left [OF i(2)] i(3,4) c(1) by simp_all
  show ?thesis using c assms(2,3)
    by (auto simp: can_fit_def can_fit_iff_left sizeof_io_event_def word_less_nat_alt l)
qed

lemma event_at_cong:
  assumes "\<And>a. in_region a e 24 \<Longrightarrow> m' a = m a"
    and "\<And>a. in_region a (ev_msg m e) (unat (ev_len m e)) \<Longrightarrow> m' a = m a"
  shows "event_at m' e = event_at m e" and "ev_msg m' e = ev_msg m e" and "ev_len m' e = ev_len m e"
proof -
  have sub: "m' a = m a" if "in_region a (e + off) n" "unat off + n \<le> 24" for a off n
    using assms(1) region_sub [OF that(2,1)] .
  show msg: "ev_msg m' e = ev_msg m e" "ev_len m' e = ev_len m e"
    unfolding ev_msg_def ev_len_def by (auto intro!: load64_cong elim: sub)
  have "bytes_at m' e 4 = bytes_at m e 4" using sub [of _ 0 4] by (intro bytes_at_cong) simp_all
  moreover have "bytes_at m' (ev_msg m e) (unat (ev_len m e)) = bytes_at m (ev_msg m e) (unat (ev_len m e))"
    using assms(2) unat_lt_u64 [of "ev_len m e"] by (intro bytes_at_cong) simp_all
  ultimately show "event_at m' e = event_at m e" by (simp add: event_at_def msg)
qed

text \<open>The three memory writes of \<open>write_event\<close>: the message to \<open>A\<close>, its address into the event, the event to \<open>E\<close>.\<close>

lemma write_event_memory:
  assumes apart: "disjoint_regions e 24 E 24" "disjoint_regions e 24 A (unat (ev_len m e))"
      "disjoint_regions (ev_msg m e) (unat (ev_len m e)) A (unat (ev_len m e))" "disjoint_regions E 24 A (unat (ev_len m e))"
    and m1: "m1 = memcpy m A (ev_msg m e) (ev_len m e)" and m2: "m2 = store64 m1 (e + 8) A" and m3: "m3 = memcpy m2 E e 24"
  shows "\<not> in_region a A (unat (ev_len m e)) \<Longrightarrow> \<not> in_region a e 24 \<Longrightarrow> \<not> in_region a E 24 \<Longrightarrow> m3 a = m a"
    and "event_at m3 E = event_at m e" and "ev_msg m3 E = A" and "ev_len m3 E = ev_len m e"
proof -
  let ?n = "unat (ev_len m e)"
  have c1: "m1 a = (if in_region a A ?n then m (ev_msg m e + (a - A)) else m a)" for a
    unfolding m1 using apart(3) by (subst memcpy_eq) (simp_all add: disjoint_regions_sym)
  have in8: "in_region a e 24" if "in_region a (e + 8) 8" for a by (rule region_sub [OF _ that]) simp
  have c2: "m2 a = m1 a" if "\<not> in_region a e 24" for a
    unfolding m2 using that in8 by (metis store64_out)
  have c3: "m3 a = (if in_region a E 24 then m2 (e + (a - E)) else m2 a)" for a
    unfolding m3 using apart(1) by (subst memcpy_eq) (simp_all add: disjoint_regions_sym)
  show "m3 a = m a" if "\<not> in_region a A ?n" "\<not> in_region a e 24" "\<not> in_region a E 24" for a
    using that c1 c2 c3 by simp
  have e1: "m1 a = m a" if "in_region a e 24" for a using that c1 apart(2) by (auto simp: disjoint_regions_def)
  have copied: "\<And>a. in_region a E 24 \<Longrightarrow> m3 a = m2 (e + (a - E))" using c3 by simp
  have out8: "m2 a = m1 a" if "in_region a (e + off) n" "unat off + n \<le> 8 \<or> 16 \<le> unat off" "unat off + n \<le> 24" for a off n
  proof -
    have "disjoint_regions (e + off) n (e + 8) 8" using that(2,3) by (intro offset_regions) auto
    then have "\<not> in_region a (e + 8) 8" using that(1) unfolding disjoint_regions_def by blast
    then show ?thesis unfolding m2 by (rule store64_out)
  qed
  have sub: "in_region a e 24" if "in_region a (e + off) n" "unat off + n \<le> 24" for a off n
    using region_sub [OF that(2,1)] .
  show msg: "ev_msg m3 E = A" using load64_copied [of E 24 m3 m2 e 8] copied by (simp add: ev_msg_def m2)
  have "load64 m2 (e + 16) = load64 m (e + 16)"
    using out8 [of _ 16 8] e1 sub [of _ 16 8] by (intro load64_cong) simp
  then show len: "ev_len m3 E = ev_len m e" using load64_copied [of E 24 m3 m2 e 16] copied by (simp add: ev_len_def)
  have "bytes_at m3 E 4 = bytes_at m2 e 4" by (rule bytes_copied [where n = 24]) (use copied in simp_all)
  also have "\<dots> = bytes_at m e 4" using out8 [of _ 0 4] e1 sub [of _ 0 4] by (intro bytes_at_cong) simp_all
  finally have colors: "bytes_at m3 E 4 = bytes_at m e 4" .
  have body: "m3 a = m (ev_msg m e + (a - A))" if "in_region a A ?n" for a
  proof -
    have "\<not> in_region a e 24" "\<not> in_region a E 24" using that apart(2,4) by (auto simp: disjoint_regions_def)
    then show ?thesis using c1 c2 c3 that by simp
  qed
  have "bytes_at m3 A ?n = bytes_at m (ev_msg m e) ?n" by (rule bytes_copied [where n = ?n]) (use body unat_lt_u64 in simp_all)
  with colors show "event_at m3 E = event_at m e" by (simp add: event_at_def msg len)
qed

text \<open>What the operations on events leave alone.\<close>

definition con_frame :: "console_sys \<Rightarrow> console_sys \<Rightarrow> bool" where
  "con_frame s s' \<longleftrightarrow> cs_core s' = cs_core s \<and> cs_nodes s' = cs_nodes s \<and>
     con_write_lock (cs_console s') = con_write_lock (cs_console s) \<and> con_read_lock (cs_console s') = con_read_lock (cs_console s) \<and>
     con_backends (cs_console s') = con_backends (cs_console s) \<and> con_recv_rb (cs_console s') = con_recv_rb (cs_console s) \<and>
     con_enable_buffering (cs_console s') = con_enable_buffering (cs_console s) \<and>
     con_ES (cs_console s') = con_ES (cs_console s) \<and> con_MS (cs_console s') = con_MS (cs_console s)"

definition outside :: "console \<Rightarrow> ptr \<Rightarrow> ptr \<Rightarrow> bool" where
  "outside con e a \<longleftrightarrow> \<not> in_region a e 24 \<and> \<not> in_region a (con_ES con) 120 \<and> \<not> in_region a (con_MS con) 500"

lemma disjoint_mono:
  assumes "disjoint_regions p n q k" and "\<And>a. in_region a q' k' \<Longrightarrow> in_region a q k"
  shows "disjoint_regions p n q' k'"
  using assms unfolding disjoint_regions_def by blast

lemma write_event_spec:
  assumes inv: "con_inv (cs_console s) (cs_mem s)" and e: "client_event (cs_console s) (cs_mem s) e"
    and fits: "unat (ar_count (con_io_messages (cs_console s))) + unat (ev_len (cs_mem s) e) \<le> 500" "pending_count (cs_console s) < 5"
  shows "\<exists>s'. write_event e s = Inr s' \<and> con_inv (cs_console s') (cs_mem s') \<and> con_frame s s' \<and> cs_out s' = cs_out s \<and>
    pending (cs_console s') (cs_mem s') = pending (cs_console s) (cs_mem s) @ [event_at (cs_mem s) e] \<and>
    (\<forall>a. outside (cs_console s) e a \<longrightarrow> cs_mem s' a = cs_mem s a)"
proof -
  define con where "con = cs_console s"
  define m where "m = cs_mem s"
  define k where "k = pending_count con"
  define n where "n = unat (ev_len m e)"
  let ?ev = "con_io_events con" and ?ms = "con_io_messages con"
  have i: "arena_inv ?ev" "arena_inv ?ms" "ar_capacity ?ev = 120" "ar_capacity ?ms = 500"
    "disjoint_regions (con_ES con) 120 (con_MS con) 500"
    using inv by (auto simp: con_inv_def con_def)
  note c = con_inv_counts [OF inv [folded con_def m_def], folded k_def]
  have fit: "can_fit e s" using can_fit_iff [OF inv refl refl, of e] fits by simp
  then have f: "arena_can_fit ?ms (ev_len m e)" "arena_can_fit ?ev 24" by (simp_all add: can_fit_def con_def m_def sizeof_io_event_def)
  note am = arena_alloc_fits [OF i(2) f(1)] and ae = arena_alloc_fits [OF i(1) f(2)]
  define A where "A = con_MS con + ar_count ?ms"
  define E where "E = con_ES con + ar_count ?ev"
  have "of_nat (unat (ar_count ?ev)) = ar_count ?ev" by simp
  then have cE: "ar_count ?ev = of_nat (24 * k)" unfolding c(1) by simp
  have E: "E = ev_slot con k" by (simp add: E_def ev_slot_def cE)
  have noerr: "\<not> IS_ERR A" "\<not> IS_ERR E"
  proof -
    show "\<not> IS_ERR A" using am(4) i(2,4) c(3) unfolding A_def by (simp add: IS_ERR_iff arena_inv_def)
    show "\<not> IS_ERR E" using ae(4) i(1,3) c(1) fits(2) unfolding E_def by (simp add: IS_ERR_iff arena_inv_def k_def con_def)
  qed
  have subA: "in_region a (con_MS con) 500" if "in_region a A n" for a
    using region_sub [of "ar_count ?ms" n 500] that fits(1) unfolding A_def n_def con_def m_def by blast
  have subE: "in_region a (con_ES con) 120" if "in_region a E 24" for a
    using region_sub [of "ar_count ?ev" 24 120] that c(1) fits(2) unfolding E_def k_def con_def by auto
  have ce: "disjoint_regions e 24 (con_ES con) 120" "disjoint_regions e 24 (con_MS con) 500"
    "disjoint_regions (ev_msg m e) n (con_MS con) 500" using e by (auto simp: client_event_def con_def m_def n_def)
  have "disjoint_regions (con_ES con) 120 A n" using i(5) subA by (rule disjoint_mono)
  then have "disjoint_regions A n (con_ES con) 120" by (subst disjoint_regions_sym)
  then have "disjoint_regions A n E 24" using subE by (rule disjoint_mono)
  then have d4: "disjoint_regions E 24 A n" by (subst disjoint_regions_sym)
  note d = disjoint_mono [OF ce(1) subE] disjoint_mono [OF ce(2) subA] disjoint_mono [OF ce(3) subA] d4
  define m3 where "m3 = memcpy (store64 (memcpy m A (ev_msg m e) (ev_len m e)) (e + 8) A) E e 24"
  note mem = write_event_memory [OF d [unfolded n_def] refl refl m3_def, folded n_def]
  let ?con = "con\<lparr>con_io_messages := ?ms\<lparr>ar_count := ar_count ?ms + ev_len m e\<rparr>, con_io_events := ?ev\<lparr>ar_count := ar_count ?ev + 24\<rparr>\<rparr>"
  let ?s = "s\<lparr>cs_console := ?con, cs_mem := m3\<rparr>"
  have run: "write_event e s = Inr ?s"
    using am(1) ae(1) noerr unfolding A_def E_def
    by (simp add: write_event_def Let_def sizeof_io_event_def con_def m_def m3_def A_def E_def)
  have k': "pending_count ?con = Suc k" using ae(2) c(1) by (simp add: pending_count_def)
  have slots: "ev_slot ?con i = ev_slot con i" for i by (simp add: ev_slot_def)
  have old: "event_at m3 (ev_slot con i) = event_at m (ev_slot con i)" "ev_msg m3 (ev_slot con i) = ev_msg m (ev_slot con i)"
    "ev_len m3 (ev_slot con i) = ev_len m (ev_slot con i)" if "i < k" for i
  proof -
    let ?p = "ev_msg m (ev_slot con i)" and ?l = "unat (ev_len m (ev_slot con i))"
    have u: "unat (of_nat (24 * i) :: usize) = 24 * i" using that fits(2) by (intro unat_of_nat_u64) (simp add: k_def con_def)
    have le: "24 * i + 24 \<le> 24 * k" "24 * k < 120" using that fits(2) by (simp_all add: k_def con_def)
    have slot: "m3 a = m a" if "in_region a (ev_slot con i) 24" for a
    proof (rule mem(1))
      have es: "in_region a (con_ES con) 120"
        by (rule region_sub [OF _ that [unfolded ev_slot_def]]) (use u le in simp)
      show "\<not> in_region a A n" using es i(5) subA by (auto simp: disjoint_regions_def)
      show "\<not> in_region a e 24" using es ce(1) by (auto simp: disjoint_regions_def)
      have "disjoint_regions (ev_slot con i) 24 E 24"
        unfolding ev_slot_def E_def by (rule offset_regions) (use u le c(1) in simp_all)
      then show "\<not> in_region a E 24" using that by (auto simp: disjoint_regions_def)
    qed
    have msg: "m3 a = m a" if "in_region a ?p ?l" for a
    proof (rule mem(1))
      have le: "unat (?p - con_MS con) + ?l \<le> unat (ar_count ?ms)"
        using inv \<open>i < k\<close> by (simp add: con_inv_def con_def k_def m_def)
      have ms: "in_region a (con_MS con) 500"
        by (rule region_sub [of "?p - con_MS con" ?l]) (use that le c(3) in simp_all)
      have "disjoint_regions (con_MS con + (?p - con_MS con)) ?l A n"
        unfolding A_def by (rule offset_regions) (use le fits(1) c(3) in \<open>simp_all add: n_def con_def m_def\<close>)
      then show "\<not> in_region a A n" using that by (auto simp: disjoint_regions_def)
      show "\<not> in_region a e 24" using ms ce(2) by (auto simp: disjoint_regions_def)
      show "\<not> in_region a E 24" using ms i(5) subE by (auto simp: disjoint_regions_def)
    qed
    show "event_at m3 (ev_slot con i) = event_at m (ev_slot con i)"
      "ev_msg m3 (ev_slot con i) = ?p" "ev_len m3 (ev_slot con i) = ev_len m (ev_slot con i)"
      using event_at_cong [OF slot msg] by simp_all
  qed
  have new: "event_at m3 (ev_slot con k) = event_at m e" "ev_msg m3 (ev_slot con k) = A" "ev_len m3 (ev_slot con k) = ev_len m e"
    using mem(2-4) by (simp_all add: E)
  have "pending ?con m3 = pending con m @ [event_at m e]"
    using old(1) new(1) by (auto simp: pending_def k' k_def [symmetric] slots)
  moreover have "con_inv ?con m3"
  proof -
    have "unat (ev_msg m3 (ev_slot con i) - con_MS con) + unat (ev_len m3 (ev_slot con i)) \<le> unat (ar_count ?ms) + n" if "i < Suc k" for i
    proof (cases "i = k")
      case True
      then show ?thesis using new(2,3) by (simp add: A_def n_def)
    next
      case False
      then have "i < k" using that by simp
      moreover have "unat (ev_msg m (ev_slot con i) - con_MS con) + unat (ev_len m (ev_slot con i)) \<le> unat (ar_count ?ms)"
        using inv \<open>i < k\<close> by (simp add: con_inv_def con_def k_def m_def)
      ultimately show ?thesis using old(2,3) by simp
    qed
    moreover have "arena_inv (?ev\<lparr>ar_count := ar_count ?ev + 24\<rparr>)" "arena_inv (?ms\<lparr>ar_count := ar_count ?ms + ev_len m e\<rparr>)"
      using arena_alloc_inv [OF i(1) ae(1)] arena_alloc_inv [OF i(2) am(1)] .
    ultimately show ?thesis using i ae(2) am(2) c(1) by (simp add: con_inv_def k' slots n_def)
  qed
  moreover have "con_frame s ?s" by (simp add: con_frame_def con_def)
  moreover have "m3 a = m a" if "outside con e a" for a
    using that mem(1) subA subE by (auto simp: outside_def)
  ultimately show ?thesis using run by (intro exI [of _ ?s]) (simp add: con_def m_def)
qed

section \<open>Flushing\<close>

definition calls :: "(ptr \<times> ptr) list \<Rightarrow> device_call \<Rightarrow> (ptr \<times> device_call) list" where
  "calls bs call = map (\<lambda>(q, d). (d, call)) bs"

lemma write_to_all_spec:
  assumes "backends_rep (cs_nodes s) (con_backends (cs_console s)) bs"
  shows "write_to_all_backends ev s = Inr (s\<lparr>cs_out := cs_out s @ calls bs (Dev_write (event_at (cs_mem s) ev))\<rparr>)"
  using backends_loop_spec [OF assms] by (simp add: write_to_all_backends_def calls_def)

lemma write_all_loop:
  assumes "backends_rep (cs_nodes s) (con_backends (cs_console s)) bs"
  shows "forE is (\<lambda>i. write_to_all_backends (f i)) s =
    Inr (s\<lparr>cs_out := cs_out s @ concat (map (\<lambda>i. calls bs (Dev_write (event_at (cs_mem s) (f i)))) is)\<rparr>)"
  using assms
proof (induction "is" arbitrary: s)
  case (Cons i "is")
  let ?s = "s\<lparr>cs_out := cs_out s @ calls bs (Dev_write (event_at (cs_mem s) (f i)))\<rparr>"
  have "forE is (\<lambda>i. write_to_all_backends (f i)) ?s =
      Inr (?s\<lparr>cs_out := cs_out ?s @ concat (map (\<lambda>i. calls bs (Dev_write (event_at (cs_mem ?s) (f i)))) is)\<rparr>)"
    using Cons.prems by (intro Cons.IH) simp
  then show ?case using write_to_all_spec [OF Cons.prems, of "f i"] by simp
qed simp

definition flushed :: "(ptr \<times> ptr) list \<Rightarrow> event list \<Rightarrow> (ptr \<times> device_call) list" where
  "flushed bs evs = concat (map (\<lambda>ev. calls bs (Dev_write ev)) evs) @ calls bs Dev_flush"

lemma finalize_write_spec:
  assumes inv: "con_inv (cs_console s) (cs_mem s)" and rep: "backends_rep (cs_nodes s) (con_backends (cs_console s)) bs"
  shows "finalize_write s = Inr (s\<lparr>cs_out := cs_out s @ concat (map (\<lambda>ev. calls bs (Dev_write ev)) (pending (cs_console s) (cs_mem s)))\<rparr>)"
proof -
  let ?con = "cs_console s"
  note c = con_inv_counts [OF inv]
  have "unat (ar_count (con_io_events ?con) div 24) = pending_count ?con"
    by (simp add: unat_div c(1))
  then have w: "word_range 0 (ar_count (con_io_events ?con) div 24) = map of_nat [0..<pending_count ?con]"
    by (simp add: word_range_def)
  have "finalize_write s = forE (word_range 0 (ar_count (con_io_events ?con) div 24)) (\<lambda>i. write_to_all_backends (con_ES ?con + i * 24)) s"
    by (simp add: finalize_write_def Let_def sizeof_io_event_def arena_base_def arena_count_def)
  also have "\<dots> = Inr (s\<lparr>cs_out := cs_out s @ concat (map (\<lambda>i. calls bs (Dev_write (event_at (cs_mem s) (con_ES ?con + i * 24))))
      (map of_nat [0..<pending_count ?con]))\<rparr>)"
    unfolding w by (rule write_all_loop [OF rep])
  finally show ?thesis by (simp add: pending_def ev_slot_def o_def mult.commute)
qed

lemma con_inv_reset:
  assumes "con_inv con m"
  shows "con_inv (con\<lparr>con_io_messages := arena_reset (con_io_messages con), con_io_events := arena_reset (con_io_events con)\<rparr>) m"
    and "pending (con\<lparr>con_io_messages := arena_reset (con_io_messages con), con_io_events := arena_reset (con_io_events con)\<rparr>) m = []"
  using assms by (auto simp: con_inv_def pending_def pending_count_def arena_reset_def arena_inv_def)

lemma flush_locked_spec:
  assumes inv: "con_inv (cs_console s) (cs_mem s)" and rep: "backends_rep (cs_nodes s) (con_backends (cs_console s)) bs"
  shows "\<exists>s'. flush_locked s = Inr (errnum EOK, s') \<and> con_inv (cs_console s') (cs_mem s') \<and> con_frame s s' \<and> cs_mem s' = cs_mem s \<and>
    pending (cs_console s') (cs_mem s') = [] \<and> ar_count (con_io_messages (cs_console s')) = 0 \<and>
    cs_out s' = cs_out s @ flushed bs (pending (cs_console s) (cs_mem s))"
proof -
  let ?s1 = "s\<lparr>cs_out := cs_out s @ concat (map (\<lambda>ev. calls bs (Dev_write ev)) (pending (cs_console s) (cs_mem s)))\<rparr>"
  let ?s2 = "s\<lparr>cs_out := cs_out s @ flushed bs (pending (cs_console s) (cs_mem s))\<rparr>"
  have "backends_loop Dev_flush (con_backends (cs_console ?s1)) ?s1 = Some (Inr ?s2)"
    using backends_loop_spec [of ?s1 "con_backends (cs_console ?s1)" bs Dev_flush] rep by (simp add: flushed_def calls_def)
  then have "flush_locked s = Inr (errnum EOK, reset_buffers ?s2)"
    using finalize_write_spec [OF inv rep] by (simp add: flush_locked_def)
  then show ?thesis using con_inv_reset [OF inv]
    by (intro exI [of _ "reset_buffers ?s2"]) (simp add: reset_buffers_def con_frame_def arena_reset_def)
qed

section \<open>What a device has been given\<close>

fun given :: "ptr \<Rightarrow> (ptr \<times> device_call) list \<Rightarrow> event list" where
  "given d [] = []"
| "given d ((d', Dev_write ev) # out) = (if d' = d then ev # given d out else given d out)"
| "given d ((d', Dev_flush) # out) = given d out"

definition stream :: "ptr \<Rightarrow> console_sys \<Rightarrow> event list" where
  "stream d s = given d (cs_out s) @ pending (cs_console s) (cs_mem s)"

lemma given_append: "given d (xs @ ys) = given d xs @ given d ys"
  by (induction d xs rule: given.induct) simp_all

lemma given_calls_flush: "given d (calls bs Dev_flush) = []"
  by (induction bs) (auto simp: calls_def)

lemma given_calls_other: "d \<notin> snd ` set bs \<Longrightarrow> given d (calls bs (Dev_write ev)) = []"
  by (induction bs) (auto simp: calls_def)

lemma given_calls_write:
  "distinct (map snd bs) \<Longrightarrow> d \<in> snd ` set bs \<Longrightarrow> given d (calls bs (Dev_write ev)) = [ev]"
proof (induction bs)
  case (Cons b bs)
  obtain q d' where b: "b = (q, d')" by force
  show ?case
  proof (cases "d' = d")
    case True
    then have "d \<notin> snd ` set bs" using Cons.prems(1) b by auto
    then show ?thesis using True b given_calls_other [of d bs ev] by (simp add: calls_def)
  next
    case False
    then show ?thesis using Cons b by (auto simp: calls_def)
  qed
qed simp

lemma given_flushed:
  assumes "distinct (map snd bs)" and "d \<in> snd ` set bs"
  shows "given d (flushed bs evs) = evs"
proof -
  have "given d (concat (map (\<lambda>ev. calls bs (Dev_write ev)) evs)) = evs"
    by (induction evs) (simp_all add: given_append given_calls_write [OF assms])
  then show ?thesis by (simp add: flushed_def given_append given_calls_flush)
qed

section \<open>Writing\<close>

definition con_ok :: "console_sys \<Rightarrow> (ptr \<times> ptr) list \<Rightarrow> bool" where
  "con_ok s bs \<longleftrightarrow> con_inv (cs_console s) (cs_mem s) \<and> backends_rep (cs_nodes s) (con_backends (cs_console s)) bs \<and>
     distinct (map snd bs) \<and> lock_free (con_write_lock (cs_console s)) \<and> core_ok (Suc 0) (cs_core s)"

definition ready :: "console_sys \<Rightarrow> bool" where
  "ready s \<longleftrightarrow> con_enable_buffering (cs_console s) \<or>
     ar_count (con_io_messages (cs_console s)) = 0 \<and> pending (cs_console s) (cs_mem s) = []"

lemma con_frame_refl [simp]: "con_frame s s"
  by (simp add: con_frame_def)

lemma con_frame_trans: "con_frame s s' \<Longrightarrow> con_frame s' s'' \<Longrightarrow> con_frame s s''"
  by (simp add: con_frame_def)

lemma pending_Nil: "pending con m = [] \<longleftrightarrow> pending_count con = 0"
  by (simp add: pending_def)

text \<open>Writing one event under the lock appends it to the stream of every device.\<close>

lemma write_locked_spec:
  assumes inv: "con_inv (cs_console s) (cs_mem s)" and rep: "backends_rep (cs_nodes s) (con_backends (cs_console s)) bs"
    and dist: "distinct (map snd bs)" and e: "client_event (cs_console s) (cs_mem s) e"
    and len: "unat (ev_len (cs_mem s) e) \<le> 500" and ready: "ready s"
  shows "\<exists>s'. write_locked e s = Inr (errnum EOK, s') \<and> con_inv (cs_console s') (cs_mem s') \<and> con_frame s s' \<and> ready s' \<and>
    (\<forall>d \<in> snd ` set bs. stream d s' = stream d s @ [event_at (cs_mem s) e]) \<and>
    (\<forall>a. outside (cs_console s) e a \<longrightarrow> cs_mem s' a = cs_mem s a)"
proof -
  have given: "given d (flushed bs evs) = evs" if "d \<in> snd ` set bs" for d evs using given_flushed [OF dist that] .
  have wr: "\<exists>s'. write_event e s1 = Inr s' \<and> con_inv (cs_console s') (cs_mem s') \<and> con_frame s1 s' \<and> cs_out s' = cs_out s1 \<and>
      pending (cs_console s') (cs_mem s') = pending (cs_console s1) (cs_mem s1) @ [event_at (cs_mem s) e] \<and>
      (\<forall>a. outside (cs_console s) e a \<longrightarrow> cs_mem s' a = cs_mem s a)"
    if "con_inv (cs_console s1) (cs_mem s1)" "cs_mem s1 = cs_mem s" "con_frame s s1"
      "unat (ar_count (con_io_messages (cs_console s1))) + unat (ev_len (cs_mem s) e) \<le> 500" "pending_count (cs_console s1) < 5" for s1
    using write_event_spec [OF that(1), of e] that(2-5) e by (simp add: client_event_def con_frame_def outside_def)
  show ?thesis
  proof (cases "con_enable_buffering (cs_console s)")
    case True
    obtain s1 where s1: "(if \<not> can_fit e s then bindE (flush_locked s) (\<lambda>(_, s). Inr s) else Inr s) = Inr s1"
      "con_inv (cs_console s1) (cs_mem s1)" "cs_mem s1 = cs_mem s" "con_frame s s1"
      "unat (ar_count (con_io_messages (cs_console s1))) + unat (ev_len (cs_mem s) e) \<le> 500" "pending_count (cs_console s1) < 5"
      "\<forall>d \<in> snd ` set bs. stream d s1 = stream d s"
    proof (cases "can_fit e s")
      case True
      then show ?thesis using that [of s] can_fit_iff [OF inv refl refl, of e] inv by simp
    next
      case False
      obtain s' where s': "flush_locked s = Inr (errnum EOK, s')" "con_inv (cs_console s') (cs_mem s')" "con_frame s s'"
        "cs_mem s' = cs_mem s" "pending (cs_console s') (cs_mem s') = []" "ar_count (con_io_messages (cs_console s')) = 0"
        "cs_out s' = cs_out s @ flushed bs (pending (cs_console s) (cs_mem s))"
        using flush_locked_spec [OF inv rep] by blast
      then show ?thesis using that [of s'] False len by (simp add: stream_def given_append given pending_Nil)
    qed
    obtain s' where s': "write_event e s1 = Inr s'" "con_inv (cs_console s') (cs_mem s')" "con_frame s1 s'" "cs_out s' = cs_out s1"
      "pending (cs_console s') (cs_mem s') = pending (cs_console s1) (cs_mem s1) @ [event_at (cs_mem s) e]"
      "\<forall>a. outside (cs_console s) e a \<longrightarrow> cs_mem s' a = cs_mem s a"
      using wr [OF s1(2-6)] by blast
    have "write_locked e s = Inr (errnum EOK, s')"
      unfolding write_locked_def using True s1(1) s'(1) by simp
    moreover have "ready s'" using True s1(4) s'(3) by (simp add: ready_def con_frame_def)
    moreover have "\<forall>d \<in> snd ` set bs. stream d s' = stream d s @ [event_at (cs_mem s) e]"
      using s1(7) s'(4,5) by (simp add: stream_def)
    ultimately show ?thesis using s'(2,3,6) con_frame_trans [OF s1(4)] by blast
  next
    case False
    then have empty: "ar_count (con_io_messages (cs_console s)) = 0" "pending_count (cs_console s) = 0"
      using ready by (simp_all add: ready_def pending_Nil)
    obtain s1 where s1: "write_event e s = Inr s1" "con_inv (cs_console s1) (cs_mem s1)" "con_frame s s1" "cs_out s1 = cs_out s"
      "pending (cs_console s1) (cs_mem s1) = pending (cs_console s) (cs_mem s) @ [event_at (cs_mem s) e]"
      "\<forall>a. outside (cs_console s) e a \<longrightarrow> cs_mem s1 a = cs_mem s a"
      using wr [OF inv refl] empty len by auto
    have "backends_rep (cs_nodes s1) (con_backends (cs_console s1)) bs" using rep s1(3) by (simp add: con_frame_def)
    from flush_locked_spec [OF s1(2) this] obtain s' where s': "flush_locked s1 = Inr (errnum EOK, s')"
      "con_inv (cs_console s') (cs_mem s')" "con_frame s1 s'" "cs_mem s' = cs_mem s1" "pending (cs_console s') (cs_mem s') = []"
      "ar_count (con_io_messages (cs_console s')) = 0" "cs_out s' = cs_out s1 @ flushed bs (pending (cs_console s1) (cs_mem s1))"
      by blast
    have "write_locked e s = Inr (errnum EOK, s')" using False s1(1) s'(1) by (simp add: write_locked_def)
    moreover have "\<forall>d \<in> snd ` set bs. stream d s' = stream d s @ [event_at (cs_mem s) e]"
      using s1(4,5) s'(5,7) by (simp add: stream_def given_append given)
    ultimately show ?thesis using s1(3,6) s' con_frame_trans [OF s1(3) s'(3)] by (simp add: ready_def)
  qed
qed

lemma console_write_spec:
  assumes ok: "con_ok s bs" and e: "client_event (cs_console s) (cs_mem s) e"
    and len: "unat (ev_len (cs_mem s) e) \<le> 500" and ready: "ready s"
  shows "\<exists>s'. console_write e s = Inr (errnum EOK, s') \<and> con_ok s' bs \<and> ready s' \<and>
    (\<forall>d \<in> snd ` set bs. stream d s' = stream d s @ [event_at (cs_mem s) e])"
proof -
  let ?s = "s\<lparr>cs_core := irq_push_intr (cs_core s)\<rparr>"
  have o: "con_inv (cs_console s) (cs_mem s)" "backends_rep (cs_nodes s) (con_backends (cs_console s)) bs"
    "distinct (map snd bs)" "lock_free (con_write_lock (cs_console s))" "core_ok (Suc 0) (cs_core s)"
    using ok by (auto simp: con_ok_def)
  obtain s1 where s1: "write_locked e ?s = Inr (errnum EOK, s1)" "con_inv (cs_console s1) (cs_mem s1)" "con_frame ?s s1" "ready s1"
    "\<forall>d \<in> snd ` set bs. stream d s1 = stream d s @ [event_at (cs_mem s) e]"
    using write_locked_spec [of ?s bs e] o e len ready by (auto simp: ready_def stream_def)
  obtain c' where c': "with_write_lock (write_locked e) s = Inr (errnum EOK, s1\<lparr>cs_core := c'\<rparr>)" "irq_view c' = irq_view (cs_core s)"
    using with_write_lock_returns [OF o(5,4), of "write_locked e" "errnum EOK" s1] s1(1,3) by (auto simp: con_frame_def)
  then show ?thesis using s1 o core_ok_view [OF c'(2)]
    by (intro exI [of _ "s1\<lparr>cs_core := c'\<rparr>"]) (simp add: console_write_def con_ok_def con_frame_def ready_def stream_def)
qed

lemma console_flush_spec:
  assumes ok: "con_ok s bs"
  shows "\<exists>s'. console_flush s = Inr (errnum EOK, s') \<and> con_ok s' bs \<and> ready s' \<and> pending (cs_console s') (cs_mem s') = [] \<and>
    (\<forall>d \<in> snd ` set bs. given d (cs_out s') = stream d s) \<and> (\<exists>out. cs_out s' = out @ calls bs Dev_flush)"
proof -
  let ?s = "s\<lparr>cs_core := irq_push_intr (cs_core s)\<rparr>"
  have o: "con_inv (cs_console s) (cs_mem s)" "backends_rep (cs_nodes s) (con_backends (cs_console s)) bs"
    "distinct (map snd bs)" "lock_free (con_write_lock (cs_console s))" "core_ok (Suc 0) (cs_core s)"
    using ok by (auto simp: con_ok_def)
  obtain s1 where s1: "flush_locked ?s = Inr (errnum EOK, s1)" "con_inv (cs_console s1) (cs_mem s1)" "con_frame ?s s1"
    "pending (cs_console s1) (cs_mem s1) = []" "ar_count (con_io_messages (cs_console s1)) = 0"
    "cs_out s1 = cs_out s @ flushed bs (pending (cs_console s) (cs_mem s))"
    using flush_locked_spec [of ?s bs] o by auto
  let ?b = "\<lambda>s. bindE (flush_locked s) (\<lambda>(_, s). Inr (errnum EOK, s))"
  obtain c' where c': "with_write_lock ?b s = Inr (errnum EOK, s1\<lparr>cs_core := c'\<rparr>)" "irq_view c' = irq_view (cs_core s)"
    using with_write_lock_returns [OF o(5,4), of ?b "errnum EOK" s1] s1(1,3) by (auto simp: con_frame_def)
  have "\<forall>d \<in> snd ` set bs. given d (cs_out s1) = stream d s"
    using s1(6) given_flushed [OF o(3)] by (simp add: given_append stream_def)
  moreover have "\<exists>out. cs_out s1 = out @ calls bs Dev_flush" using s1(6) by (auto simp: flushed_def)
  ultimately show ?thesis using s1(1-5) o c' core_ok_view [OF c'(2)]
    by (intro exI [of _ "s1\<lparr>cs_core := c'\<rparr>"]) (simp add: console_flush_def con_ok_def con_frame_def ready_def)
qed

text \<open>Several events of a client: none of them overlaps another or its message.\<close>

fun client_events :: "console \<Rightarrow> mem \<Rightarrow> ptr list \<Rightarrow> bool" where
  "client_events con m [] \<longleftrightarrow> True"
| "client_events con m (e # es) \<longleftrightarrow> client_event con m e \<and> unat (ev_len m e) \<le> 500 \<and>
     (\<forall>e' \<in> set es. disjoint_regions e' 24 e 24 \<and> disjoint_regions (ev_msg m e') (unat (ev_len m e')) e 24 \<and>
        disjoint_regions (ev_msg m e') (unat (ev_len m e')) (con_ES con) 120) \<and> client_events con m es"

lemma client_event_kept:
  assumes "client_event con m e'" and "disjoint_regions e' 24 e 24" and "disjoint_regions (ev_msg m e') (unat (ev_len m e')) e 24"
    and "disjoint_regions (ev_msg m e') (unat (ev_len m e')) (con_ES con) 120"
    and "\<forall>a. outside con e a \<longrightarrow> m' a = m a"
  shows "event_at m' e' = event_at m e' \<and> ev_msg m' e' = ev_msg m e' \<and> ev_len m' e' = ev_len m e'"
proof -
  have "m' a = m a" if "in_region a e' 24" for a
    using that assms(1,2,5) unfolding client_event_def outside_def disjoint_regions_def by blast
  moreover have "m' a = m a" if "in_region a (ev_msg m e') (unat (ev_len m e'))" for a
    using that assms(1,3,4,5) unfolding client_event_def outside_def disjoint_regions_def by blast
  ultimately show ?thesis using event_at_cong [of e' m' m] by blast
qed

lemma client_events_cong:
  assumes "client_events con m es" and "\<forall>e \<in> set es. ev_msg m' e = ev_msg m e \<and> ev_len m' e = ev_len m e"
    and "con_ES con' = con_ES con" and "con_MS con' = con_MS con"
  shows "client_events con' m' es"
  using assms by (induction es) (auto simp: client_event_def)

lemma client_events_in: "client_events con m es \<Longrightarrow> e \<in> set es \<Longrightarrow> client_event con m e"
  by (induction es) auto

lemma write_multiple_spec:
  assumes "con_inv (cs_console s) (cs_mem s)" and "backends_rep (cs_nodes s) (con_backends (cs_console s)) bs"
    and "distinct (map snd bs)" and "client_events (cs_console s) (cs_mem s) es" and "ready s"
  shows "\<exists>s'. write_multiple_loop es s = Inr (errnum EOK, s') \<and> con_inv (cs_console s') (cs_mem s') \<and> con_frame s s' \<and> ready s' \<and>
    (\<forall>d \<in> snd ` set bs. stream d s' = stream d s @ map (event_at (cs_mem s)) es)"
  using assms
proof (induction es arbitrary: s)
  case Nil
  then show ?case by simp
next
  case (Cons e es)
  have e: "client_event (cs_console s) (cs_mem s) e" "unat (ev_len (cs_mem s) e) \<le> 500" using Cons.prems(4) by auto
  obtain s1 where s1: "write_locked e s = Inr (errnum EOK, s1)" "con_inv (cs_console s1) (cs_mem s1)" "con_frame s s1" "ready s1"
    "\<forall>d \<in> snd ` set bs. stream d s1 = stream d s @ [event_at (cs_mem s) e]"
    "\<forall>a. outside (cs_console s) e a \<longrightarrow> cs_mem s1 a = cs_mem s a"
    using write_locked_spec [OF Cons.prems(1-3) e Cons.prems(5)] by blast
  have ces: "client_events (cs_console s) (cs_mem s) es" using Cons.prems(4) by simp
  have kept: "event_at (cs_mem s1) e' = event_at (cs_mem s) e' \<and> ev_msg (cs_mem s1) e' = ev_msg (cs_mem s) e' \<and>
      ev_len (cs_mem s1) e' = ev_len (cs_mem s) e'" if "e' \<in> set es" for e'
    using client_event_kept [OF client_events_in [OF ces that] _ _ _ s1(6)] Cons.prems(4) that by auto
  have "client_events (cs_console s1) (cs_mem s1) es"
    using client_events_cong [OF ces] kept s1(3) by (simp add: con_frame_def)
  moreover have "backends_rep (cs_nodes s1) (con_backends (cs_console s1)) bs" using Cons.prems(2) s1(3) by (simp add: con_frame_def)
  ultimately obtain s2 where s2: "write_multiple_loop es s1 = Inr (errnum EOK, s2)" "con_inv (cs_console s2) (cs_mem s2)"
    "con_frame s1 s2" "ready s2" "\<forall>d \<in> snd ` set bs. stream d s2 = stream d s1 @ map (event_at (cs_mem s1)) es"
    using Cons.IH [OF s1(2) _ Cons.prems(3) _ s1(4)] by blast
  have "map (event_at (cs_mem s1)) es = map (event_at (cs_mem s)) es" using kept by simp
  then show ?case using s1(1,5) s2 con_frame_trans [OF s1(3) s2(3)] by auto
qed

section \<open>Messages that do not fit\<close>

lemma write_event_oversize:
  assumes inv: "con_inv (cs_console s) (cs_mem s)" and len: "500 < unat (ev_len (cs_mem s) e)"
  shows "write_event e s = Inl (Panic ''failed to allocate for io message'')"
proof -
  let ?ms = "con_io_messages (cs_console s)"
  have "arena_inv ?ms" "ar_capacity ?ms = 500" using inv by (auto simp: con_inv_def)
  then have "unat (arena_left ?ms) \<le> 500" by (simp add: unat_arena_left)
  then have "arena_left ?ms < ev_len (cs_mem s) e" using len by (simp add: word_less_nat_alt)
  moreover have "IS_ERR (ERR_TO_PTR (- 1))" by (simp add: IS_ERR_def ERR_TO_PTR_def)
  ultimately show ?thesis by (simp add: write_event_def arena_alloc_def Let_def)
qed

section \<open>Input\<close>

definition received :: "console_sys \<Rightarrow> u8 list" where
  "received s = concat (rb_list (con_recv_rb (cs_console s)) (cs_mem s))"

definition input_ok :: "console_sys \<Rightarrow> bool" where
  "input_ok s \<longleftrightarrow> rb_inv (con_recv_rb (cs_console s)) \<and> rb_element_size (con_recv_rb (cs_console s)) = 1 \<and>
     lock_free (con_read_lock (cs_console s)) \<and> core_ok (Suc 0) (cs_core s)"

lemma rb_list_write:
  assumes "rb_inv rb" and "rb_foreign rb c" and "rb_element_size rb = 1"
  shows "rb_list rb (m(c := v)) = rb_list rb m"
proof -
  have "bytes_at (m(c := v)) (slot_addr rb (of_nat i)) (rb_esize rb) = bytes_at m (slot_addr rb (of_nat i)) (rb_esize rb)"
    if "i < rb_cap rb" for i
  proof (rule bytes_at_cong)
    fix a assume "in_region a (slot_addr rb (of_nat i)) (rb_esize rb)"
    then have "in_region a (rb_buffer rb) (rb_cap rb * rb_esize rb)" using slot_in_buffer [OF assms(1) that] by blast
    then have "a \<noteq> c" using assms(2,3) by (auto simp: rb_foreign_def disjoint_regions_def)
    then show "(m(c := v)) a = m a" by simp
  qed (use unat_lt_u64 [of "rb_element_size rb"] in simp)
  moreover have "0 < rb_cap rb" using rb_inv_nat(1) [OF assms(1)] by simp
  ultimately show ?thesis by (simp add: rb_list_def rb_slot_def)
qed

lemma console_receive_spec:
  assumes ok: "input_ok s" and c: "rb_foreign (con_recv_rb (cs_console s)) c"
    and room: "Suc (length (received s)) < rb_cap (con_recv_rb (cs_console s))"
  shows "\<exists>s'. console_receive_char c ch s = Inr (errnum EOK, s') \<and> input_ok s' \<and> received s' = received s @ [ch] \<and>
    (\<forall>p. rb_foreign (con_recv_rb (cs_console s')) p \<longleftrightarrow> rb_foreign (con_recv_rb (cs_console s)) p)"
proof -
  let ?rb = "con_recv_rb (cs_console s)" and ?s = "s\<lparr>cs_mem := (cs_mem s)(c := ch)\<rparr>"
  have o: "rb_inv ?rb" "rb_element_size ?rb = 1" "lock_free (con_read_lock (cs_console s))" "core_ok (Suc 0) (cs_core s)"
    using ok by (auto simp: input_ok_def)
  have "length (concat (rb_list ?rb (cs_mem s))) = rb_len ?rb"
    using o(2) by (simp add: rb_list_def rb_slot_def length_concat o_def sum_list_triv)
  then have "Suc (rb_len ?rb) < rb_cap ?rb" using room by (simp add: received_def)
  from push_not_full [OF o(1) this c, of "(cs_mem s)(c := ch)"] obtain rb' m' i where p:
    "ringbuffer_push ?rb c ((cs_mem s)(c := ch)) = Inr (errnum EOK, rb', m')" "rb_inv rb'"
    "rb_list rb' m' = rb_list ?rb (cs_mem s) @ [[ch]]" "rb' = ?rb\<lparr>rb_head := i\<rparr>"
    using o(2) rb_list_write [OF o(1) c o(2)] by (auto simp: bytes_at_def)
  let ?b = "\<lambda>s. bindE (ringbuffer_push (con_recv_rb (cs_console s)) c (cs_mem s)) (\<lambda>(err, rb, m).
       Inr (err, upd_con (\<lambda>con. con\<lparr>con_recv_rb := rb\<rparr>) (s\<lparr>cs_mem := m\<rparr>)))"
  let ?s1 = "upd_con (\<lambda>con. con\<lparr>con_recv_rb := rb'\<rparr>) (?s\<lparr>cs_core := irq_push_intr (cs_core s), cs_mem := m'\<rparr>)"
  obtain c' where c': "with_read_lock ?b ?s = Inr (errnum EOK, ?s1\<lparr>cs_core := c'\<rparr>)" "irq_view c' = irq_view (cs_core s)"
    using with_read_lock_returns [of 0 ?s ?b "errnum EOK" ?s1] o(3,4) p(1) by auto
  then show ?thesis using p o core_ok_view [OF c'(2)]
    by (intro exI [of _ "?s1\<lparr>cs_core := c'\<rparr>"])
      (simp add: console_receive_char_def input_ok_def received_def rb_foreign_def)
qed

lemma console_read_spec:
  assumes ok: "input_ok s" and out: "rb_foreign (con_recv_rb (cs_console s)) out"
  shows "\<exists>s'. console_read out s = Inr (received s \<noteq> [], s') \<and> input_ok s' \<and> received s' = tl (received s) \<and>
    (received s \<noteq> [] \<longrightarrow> cs_mem s' out = hd (received s))"
proof -
  let ?rb = "con_recv_rb (cs_console s)"
  have o: "rb_inv ?rb" "rb_element_size ?rb = 1" "lock_free (con_read_lock (cs_console s))" "core_ok (Suc 0) (cs_core s)"
    using ok by (auto simp: input_ok_def)
  have e: "ringbuffer_empty ?rb \<longleftrightarrow> rb_list ?rb (cs_mem s) = []" using empty_iff [OF o(1)] .
  let ?b = "\<lambda>s. if ringbuffer_empty (con_recv_rb (cs_console s)) then Inr (False, s)
       else bindE (ringbuffer_pop (con_recv_rb (cs_console s)) out (cs_mem s)) (\<lambda>(err, rb, m).
         Inr (True, upd_con (\<lambda>con. con\<lparr>con_recv_rb := rb\<rparr>) (s\<lparr>cs_mem := m\<rparr>)))"
  show ?thesis
  proof (cases "rb_list ?rb (cs_mem s) = []")
    case True
    obtain c' where c': "with_read_lock ?b s = Inr (False, s\<lparr>cs_core := c'\<rparr>)" "irq_view c' = irq_view (cs_core s)"
      using with_read_lock_returns [of 0 s ?b False "s\<lparr>cs_core := irq_push_intr (cs_core s)\<rparr>"] o(3,4) True e by auto
    then show ?thesis using True o core_ok_view [OF c'(2)]
      by (intro exI [of _ "s\<lparr>cs_core := c'\<rparr>"]) (simp add: console_read_def input_ok_def received_def)
  next
    case False
    then have "rb_len ?rb \<noteq> 0" using rb_list_length [of ?rb "cs_mem s"] by (metis length_0_conv)
    from pop_not_empty [OF o(1) this out, of "cs_mem s"] obtain rb' m' i where p:
      "ringbuffer_pop ?rb out (cs_mem s) = Inr (errnum EOK, rb', m')" "rb_inv rb'"
      "rb_list ?rb (cs_mem s) = [m' out] # rb_list rb' m'" "rb' = ?rb\<lparr>rb_tail := i\<rparr>"
      using o(2) by (auto simp: bytes_at_def)
    let ?s1 = "upd_con (\<lambda>con. con\<lparr>con_recv_rb := rb'\<rparr>) (s\<lparr>cs_core := irq_push_intr (cs_core s), cs_mem := m'\<rparr>)"
    obtain c' where c': "with_read_lock ?b s = Inr (True, ?s1\<lparr>cs_core := c'\<rparr>)" "irq_view c' = irq_view (cs_core s)"
      using with_read_lock_returns [of 0 s ?b True ?s1] o(3,4) p(1) False e by auto
    then show ?thesis using p o core_ok_view [OF c'(2)]
      by (intro exI [of _ "?s1\<lparr>cs_core := c'\<rparr>"]) (simp add: console_read_def input_ok_def received_def)
  qed
qed

section \<open>Formatted text reaches the devices\<close>

lemma con_inv_frame:
  assumes inv: "con_inv con m" and same: "\<And>a. in_region a (con_ES con) 120 \<or> in_region a (con_MS con) 500 \<Longrightarrow> m' a = m a"
  shows "con_inv con m'" and "pending con m' = pending con m"
proof -
  note c = con_inv_counts [OF inv]
  have kept: "event_at m' (ev_slot con i) = event_at m (ev_slot con i)" "ev_msg m' (ev_slot con i) = ev_msg m (ev_slot con i)"
    "ev_len m' (ev_slot con i) = ev_len m (ev_slot con i)" if "i < pending_count con" for i
  proof -
    let ?p = "ev_msg m (ev_slot con i)" and ?l = "unat (ev_len m (ev_slot con i))"
    have u: "unat (of_nat (24 * i) :: usize) = 24 * i" using that c(2) by (intro unat_of_nat_u64) simp
    have slot: "m' a = m a" if "in_region a (ev_slot con i) 24" for a
    proof (rule same, rule disjI1, rule region_sub [OF _ that [unfolded ev_slot_def]])
      show "unat (of_nat (24 * i) :: usize) + 24 \<le> 120" using u \<open>i < pending_count con\<close> c(2) by simp
    qed
    have le: "unat (?p - con_MS con) + ?l \<le> 500" using inv that c(3) by (auto simp: con_inv_def intro: order_trans)
    have msg: "m' a = m a" if "in_region a ?p ?l" for a
      by (rule same, rule disjI2, rule region_sub [OF le]) (use that in simp)
    show "event_at m' (ev_slot con i) = event_at m (ev_slot con i)" "ev_msg m' (ev_slot con i) = ?p"
      "ev_len m' (ev_slot con i) = ev_len m (ev_slot con i)"
      using event_at_cong [OF slot msg] by simp_all
  qed
  then show "pending con m' = pending con m" by (simp add: pending_def)
  show "con_inv con m'" using inv kept by (simp add: con_inv_def)
qed

lemma length_colors: "length (color_bytes fg @ color_bytes bg) = 4"
  by (simp add: color_bytes_def)

lemma put_event_outside: "\<not> in_region a e 24 \<Longrightarrow> put_event m e fg bg msg len a = m a"
proof -
  assume a: "\<not> in_region a e 24"
  have "\<not> in_region a (e + 8) 8" "\<not> in_region a (e + 16) 8" "\<not> in_region a e 4"
    using a region_sub [of 8 8 24 a e] region_sub [of 16 8 24 a e] by (auto simp: in_region_def)
  then show ?thesis unfolding put_event_def by (simp add: store64_out) (simp only: put_bytes_def length_colors if_False)
qed

lemma bytes_at_put_bytes: "length bs < 2 ^ 64 \<Longrightarrow> bytes_at (put_bytes m p bs) p (length bs) = bs"
  by (rule nth_equalityI) (simp_all add: bytes_at_def put_bytes_def in_region_def unat_of_nat_u64)

lemma put_event_fields:
  "ev_msg (put_event m e fg bg msg len) e = msg" "ev_len (put_event m e fg bg msg len) e = len"
  "bytes_at (put_event m e fg bg msg len) e 4 = color_bytes fg @ color_bytes bg"
proof -
  have d: "disjoint_regions (e + 16) 8 (e + 8) 8" by (rule offset_regions) simp_all
  show "ev_msg (put_event m e fg bg msg len) e = msg" "ev_len (put_event m e fg bg msg len) e = len"
    by (simp_all add: put_event_def ev_msg_def ev_len_def load64_store64_disjoint [OF d])
  have "put_event m e fg bg msg len a = put_bytes m e (color_bytes fg @ color_bytes bg) a" if "in_region a e 4" for a
  proof -
    have "disjoint_regions (e + 0) 4 (e + 8) 8" "disjoint_regions (e + 0) 4 (e + 16) 8" by (rule offset_regions; simp)+
    then have "\<not> in_region a (e + 8) 8" "\<not> in_region a (e + 16) 8" using that by (auto simp: disjoint_regions_def)
    then show ?thesis by (simp add: put_event_def store64_out)
  qed
  then have "bytes_at (put_event m e fg bg msg len) e 4 = bytes_at (put_bytes m e (color_bytes fg @ color_bytes bg)) e 4"
    by (intro bytes_at_cong) simp_all
  also have "\<dots> = color_bytes fg @ color_bytes bg"
    using bytes_at_put_bytes [of "color_bytes fg @ color_bytes bg" m e] unfolding length_colors by simp
  finally show "bytes_at (put_event m e fg bg msg len) e 4 = color_bytes fg @ color_bytes bg" .
qed

text \<open>The local variables of a caller lie outside the buffers of the console, and apart from each other.\<close>

definition local_vars :: "console \<Rightarrow> ptr \<Rightarrow> nat \<Rightarrow> ptr \<Rightarrow> bool" where
  "local_vars con buf n e \<longleftrightarrow> disjoint_regions buf n e 24 \<and>
     disjoint_regions buf n (con_ES con) 120 \<and> disjoint_regions buf n (con_MS con) 500 \<and>
     disjoint_regions e 24 (con_ES con) 120 \<and> disjoint_regions e 24 (con_MS con) 500"

lemma event_of_text:
  assumes "local_vars con buf n e" and "length t \<le> n" and "length t < 2 ^ 64"
  shows "event_at (put_event (put_bytes m buf t) e fg bg buf (of_nat (length t))) e = (color_bytes fg @ color_bytes bg, t)"
    and "client_event con (put_event (put_bytes m buf t) e fg bg buf (of_nat (length t))) e"
    and "in_region a (con_ES con) 120 \<or> in_region a (con_MS con) 500 \<Longrightarrow>
      put_event (put_bytes m buf t) e fg bg buf (of_nat (length t)) a = m a"
proof -
  let ?m = "put_event (put_bytes m buf t) e fg bg buf (of_nat (length t))"
  have u: "unat (of_nat (length t) :: usize) = length t" using assms(3) by (rule unat_of_nat_u64)
  have sub: "in_region a buf n" if "in_region a buf (length t)" for a using that assms(2) by (simp add: in_region_def)
  have "?m a = put_bytes m buf t a" if "in_region a buf (length t)" for a
    using assms(1) sub [OF that] by (intro put_event_outside) (auto simp: local_vars_def disjoint_regions_def)
  then have "bytes_at ?m buf (length t) = bytes_at (put_bytes m buf t) buf (length t)"
    using assms(3) by (intro bytes_at_cong) simp_all
  then show "event_at ?m e = (color_bytes fg @ color_bytes bg, t)"
    by (simp add: event_at_def put_event_fields u bytes_at_put_bytes [OF assms(3)])
  show "client_event con ?m e"
    using assms(1) sub unfolding client_event_def put_event_fields u local_vars_def disjoint_regions_def by blast
  assume a: "in_region a (con_ES con) 120 \<or> in_region a (con_MS con) 500"
  then have "\<not> in_region a e 24" "\<not> in_region a buf (length t)"
    using assms(1) sub unfolding local_vars_def disjoint_regions_def by blast+
  then show "?m a = m a" by (simp add: put_event_outside put_bytes_def)
qed

section \<open>Properties\<close>

text \<open>
  C36. Nothing written to the console is lost or reordered.  Writing several events (messages of up
  to 500 bytes, none overlapping another or the buffers of the console) and flushing returns, and
  every registered device has then been given, through its \<open>write\<close> operation, exactly what
  it had been given before, what was pending, and the new events with their original bytes, in
  this order; nothing stays pending.
\<close>

theorem console_delivers:
  assumes "con_ok s bs" and "ready s" and "d \<in> snd ` set bs"
    and "client_events (cs_console s) (cs_mem s) (map (\<lambda>i. events + i * sizeof_io_event) (word_range 0 n))"
  shows "\<exists>s' s''. console_write_multiple events n s = Inr (errnum EOK, s') \<and> console_flush s' = Inr (errnum EOK, s'') \<and> con_ok s'' bs \<and>
    given d (cs_out s'') = given d (cs_out s) @ pending (cs_console s) (cs_mem s) @
      map (\<lambda>i. event_at (cs_mem s) (events + i * sizeof_io_event)) (word_range 0 n) \<and>
    pending (cs_console s'') (cs_mem s'') = []"
proof -
  let ?s = "s\<lparr>cs_core := irq_push_intr (cs_core s)\<rparr>" and ?es = "map (\<lambda>i. events + i * sizeof_io_event) (word_range 0 n)"
  have o: "con_inv (cs_console s) (cs_mem s)" "backends_rep (cs_nodes s) (con_backends (cs_console s)) bs"
    "distinct (map snd bs)" "lock_free (con_write_lock (cs_console s))" "core_ok (Suc 0) (cs_core s)"
    using assms(1) by (auto simp: con_ok_def)
  obtain s1 where s1: "write_multiple_loop ?es ?s = Inr (errnum EOK, s1)" "con_inv (cs_console s1) (cs_mem s1)" "con_frame ?s s1"
    "stream d s1 = stream d s @ map (event_at (cs_mem s)) ?es"
    using write_multiple_spec [of ?s bs ?es] o assms(2-4) by (auto simp: ready_def stream_def)
  obtain c' where c': "with_write_lock (write_multiple_loop ?es) s = Inr (errnum EOK, s1\<lparr>cs_core := c'\<rparr>)" "irq_view c' = irq_view (cs_core s)"
    using with_write_lock_returns [OF o(5,4), of "write_multiple_loop ?es" "errnum EOK" s1] s1(1,3) by (auto simp: con_frame_def)
  have ok1: "con_ok (s1\<lparr>cs_core := c'\<rparr>) bs" using s1(2,3) o core_ok_view [OF c'(2)] by (simp add: con_ok_def con_frame_def)
  obtain s2 where "console_flush (s1\<lparr>cs_core := c'\<rparr>) = Inr (errnum EOK, s2)" "con_ok s2 bs" "pending (cs_console s2) (cs_mem s2) = []"
    "given d (cs_out s2) = stream d (s1\<lparr>cs_core := c'\<rparr>)"
    using console_flush_spec [OF ok1] assms(3) by blast
  then show ?thesis using c'(1) s1(4)
    by (intro exI [of _ "s1\<lparr>cs_core := c'\<rparr>"] exI [of _ s2]) (simp add: console_write_multiple_def stream_def o_def)
qed

text \<open>
  Formatted output reaches the devices: \<open>vprintf\<close> of a format whose text exists and has at most
  500 bytes appends the text, in the default colours, to what every registered device
  has been given or will be given at the next flush.
\<close>

lemma vprintf_reaches_devices:
  assumes "con_ok s bs" and "ready s" and "d \<in> snd ` set bs"
    and "env_ok env (cs_mem s) buf (unat PRINT_BUFFER_SIZE) str" and "cstr (cs_mem s) fmt cs" and "apart buf (unat PRINT_BUFFER_SIZE) fmt cs"
    and "expand str False cs ap = Some t" and "length t \<le> 500" and "local_vars (cs_console s) buf (unat PRINT_BUFFER_SIZE) e"
  shows "\<exists>s'. vprintf env buf e fmt ap s = Inr s' \<and> con_ok s' bs \<and> ready s' \<and>
    stream d s' = stream d s @ [(color_bytes IO_DEFAULT_COLOR_FG @ color_bytes IO_DEFAULT_COLOR_BG, t)]"
proof -
  have size: "length t \<le> unat PRINT_BUFFER_SIZE" "length t < 2 ^ 64" using assms(8) by (simp_all add: PRINT_BUFFER_SIZE_def)
  let ?m = "put_event (put_bytes (cs_mem s) buf t) e IO_DEFAULT_COLOR_FG IO_DEFAULT_COLOR_BG buf (of_nat (length t))"
  let ?s = "s\<lparr>cs_mem := ?m\<rparr>"
  note ev = event_of_text [OF assms(9) size, where m = "cs_mem s" and fg = IO_DEFAULT_COLOR_FG and bg = IO_DEFAULT_COLOR_BG]
  have fmt: "vsnprintf env (cs_mem s) buf PRINT_BUFFER_SIZE fmt ap = Inr (of_nat (length t), put_bytes (cs_mem s) buf t)"
    by (rule vsnprintf_run [OF assms(4-7) size(1)])
  have "con_inv (cs_console s) ?m" "pending (cs_console s) ?m = pending (cs_console s) (cs_mem s)"
    using con_inv_frame [of "cs_console s" "cs_mem s" ?m] ev(3) assms(1) by (auto simp: con_ok_def)
  then have s: "con_ok ?s bs" "ready ?s" "stream d ?s = stream d s"
    using assms(1,2) by (simp_all add: con_ok_def ready_def stream_def)
  have "unat (ev_len ?m e) \<le> 500" using assms(8) size(2) by (simp add: put_event_fields unat_of_nat_u64)
  then obtain s' where "console_write e ?s = Inr (errnum EOK, s')" "con_ok s' bs" "ready s'" "stream d s' = stream d ?s @ [event_at ?m e]"
    using console_write_spec [OF s(1) _ _ s(2), of e] ev(2) assms(3) by auto
  then show ?thesis using fmt s(3) ev(1) by (simp add: vprintf_def Let_def)
qed

text \<open>
  C37. A message of more than 500 bytes panics inside the console, while its lock is held: it does
  not fit even into the empty message buffer.  (\<open>vprintf\<close> formats into 2048 bytes.)
\<close>

theorem console_oversize_panics:
  assumes "con_ok s bs" and "500 < unat (ev_len (cs_mem s) e)"
  shows "console_write e s = Inl (Panic ''failed to allocate for io message'')"
proof -
  let ?s = "s\<lparr>cs_core := irq_push_intr (cs_core s)\<rparr>"
  have o: "con_inv (cs_console s) (cs_mem s)" "backends_rep (cs_nodes s) (con_backends (cs_console s)) bs"
    "lock_free (con_write_lock (cs_console s))" using assms(1) by (auto simp: con_ok_def)
  obtain s1 where s1: "flush_locked ?s = Inr (errnum EOK, s1)" "con_inv (cs_console s1) (cs_mem s1)" "cs_mem s1 = cs_mem s"
    using flush_locked_spec [of ?s bs] o(1,2) by auto
  have "\<not> can_fit e ?s" using can_fit_iff [OF o(1), of ?s e] assms(2) by auto
  then have "write_locked e ?s = Inl (Panic ''failed to allocate for io message'')"
    using write_event_oversize [of s1 e] write_event_oversize [of ?s e] s1 o(1) assms(2) by (simp add: write_locked_def)
  then show ?thesis using with_write_lock_stops [OF o(3)] by (simp add: console_write_def)
qed

text \<open>
  Input is a queue: a received character is appended to the characters not yet read, as long as
  the ring buffer has room, and a read returns and removes the oldest one.
\<close>

lemma console_input_fifo:
  assumes "input_ok s" and "rb_foreign (con_recv_rb (cs_console s)) c" and "rb_foreign (con_recv_rb (cs_console s)) out"
    and "Suc (length (received s)) < rb_cap (con_recv_rb (cs_console s))"
  shows "\<exists>s' s''. console_receive_char c ch s = Inr (errnum EOK, s') \<and> received s' = received s @ [ch] \<and>
    console_read out s' = Inr (True, s'') \<and> cs_mem s'' out = hd (received s @ [ch]) \<and> received s'' = tl (received s @ [ch]) \<and> input_ok s''"
proof -
  obtain s1 where s1: "console_receive_char c ch s = Inr (errnum EOK, s1)" "input_ok s1" "received s1 = received s @ [ch]"
    "rb_foreign (con_recv_rb (cs_console s1)) out"
    using console_receive_spec [OF assms(1,2,4), of ch] assms(3) by blast
  then show ?thesis using console_read_spec [OF s1(2,4)] by auto
qed

section \<open>The properties on a concrete console\<close>

definition zero_console :: console where
  "zero_console = \<lparr>con_write_lock = spinlock_init '''', con_read_lock = spinlock_init '''', con_backends = nullptr,
     con_recv_rb = ringbuffer_init 0 0 0, con_io_events = \<lparr>ar_pool = 0, ar_count = 0, ar_capacity = 0\<rparr>,
     con_io_messages = \<lparr>ar_pool = 0, ar_count = 0, ar_capacity = 0\<rparr>, con_enable_buffering = False\<rparr>"

text \<open>A console after \<open>console_init\<close>, with one device registered and one event of two bytes to write.\<close>

definition demo_msg :: mem where
  "demo_msg = put_event ((\<lambda>_. 0)(0x7000 := 104, 0x7001 := 105)) 0x6000 IO_DEFAULT_COLOR_FG IO_DEFAULT_COLOR_BG 0x7000 2"

definition demo_con :: "mem \<Rightarrow> console_sys" where
  "demo_con m = (let s = snd (console_init 0x1000 0x2000 0x3000 True
       \<lparr>cs_core = \<lparr>this_cpu = 0x9000, daif = 0, irq_disable_depth = 0, irq_was_enabled = False\<rparr>, cs_mem = m,
        cs_nodes = [0x4000 \<mapsto> \<lparr>cb_device = 0x5000, cb_next = nullptr\<rparr>], cs_out = [], cs_console = zero_console\<rparr>)
     in s\<lparr>cs_console := (cs_console s)\<lparr>con_backends := 0x4000\<rparr>\<rparr>)"

lemmas demo_con_defs = demo_con_def console_init_def zero_console_def Let_def arena_init_def IO_EVENT_BUFFER_SIZE_def
  IO_EVENT_MSG_BUFFER_SIZE_def sizeof_io_event_def IO_EVENT_BUFFER_COUNT_def IO_EVENT_MSG_SIZE_ESTIMATE_def

lemma demo_core: "core_ok (Suc 0) \<lparr>this_cpu = 0x9000, daif = 0, irq_disable_depth = 0, irq_was_enabled = False\<rparr>"
  by (simp add: core_ok_def)

lemma demo_con_ok: "con_ok (demo_con m) [(0x4000, 0x5000)]" "ready (demo_con m)" "input_ok (demo_con m)"
  and demo_con_fields: "cs_mem (demo_con m) = m" "con_ES (cs_console (demo_con m)) = 0x1000" "con_MS (cs_console (demo_con m)) = 0x2000"
    "pending (cs_console (demo_con m)) m = []" "cs_out (demo_con m) = []" "received (demo_con m) = []"
    "con_recv_rb (cs_console (demo_con m)) = ringbuffer_init 1 0x3000 1024"
proof -
  have "disjoint_regions (0x1000 :: ptr) 120 0x2000 500" by (rule disjoint_regionsI) simp_all
  then show "con_ok (demo_con m) [(0x4000, 0x5000)]" "ready (demo_con m)"
    using demo_core by (simp_all add: con_ok_def con_inv_def demo_con_defs pending_count_def arena_inv_def ready_def pending_def)
  show "input_ok (demo_con m)"
    using demo_core by (simp add: input_ok_def demo_con_defs rb_inv_def ringbuffer_init_def CONSOLE_RECV_RING_BUFFER_SIZE_def)
qed (simp_all add: demo_con_defs pending_def pending_count_def received_def rb_list_init CONSOLE_RECV_RING_BUFFER_SIZE_def)

lemma demo_msg_fields: "ev_msg demo_msg 0x6000 = 0x7000" "ev_len demo_msg 0x6000 = 2"
proof -
  have "disjoint_regions (0x6010 :: ptr) 8 0x6008 8" by (rule disjoint_regionsI) simp_all
  then show "ev_msg demo_msg 0x6000 = 0x7000" "ev_len demo_msg 0x6000 = 2"
    by (simp_all add: demo_msg_def put_event_def ev_msg_def ev_len_def load64_store64_disjoint)
qed

theorem console_delivers_witness:
  "\<exists>s' s''. console_write_multiple 0x6000 1 (demo_con demo_msg) = Inr (errnum EOK, s') \<and> console_flush s' = Inr (errnum EOK, s'') \<and>
     given 0x5000 (cs_out s'') = [event_at demo_msg 0x6000] \<and> pending (cs_console s'') (cs_mem s'') = []"
proof -
  have w: "word_range 0 1 = [0]" by (simp add: word_range_def)
  have "client_event (cs_console (demo_con demo_msg)) demo_msg 0x6000"
    unfolding client_event_def demo_con_fields demo_msg_fields by (auto intro!: disjoint_regionsI)
  then have "client_events (cs_console (demo_con demo_msg)) (cs_mem (demo_con demo_msg)) (map (\<lambda>i. 0x6000 + i * sizeof_io_event) (word_range 0 1))"
    by (simp add: w demo_con_fields demo_msg_fields)
  from console_delivers [OF demo_con_ok(1,2) _ this, of "0x5000"] show ?thesis by (simp add: demo_con_fields w) blast
qed

theorem console_oversize_panics_witness:
  "con_ok (demo_con (store64 (\<lambda>_. 0) 0x6010 2048)) [(0x4000, 0x5000)] \<and>
   console_write 0x6000 (demo_con (store64 (\<lambda>_. 0) 0x6010 2048)) = Inl (Panic ''failed to allocate for io message'')"
  using console_oversize_panics [OF demo_con_ok(1), of "store64 (\<lambda>_. 0) 0x6010 2048" "0x6000"] demo_con_ok(1)
  by (simp add: demo_con_fields ev_len_def)

end
