(* ===== verification/Mmio.thy ===== *)
theory Mmio
  imports Common_Defs
begin

text \<open>
  Memory mapped registers: \<open>lib/include/register.h\<close>.

  A volatile access leaves the program, so the state is the sequence of all accesses made so far,
  oldest first.  A write appends to it.  A read returns what the hardware answers after the accesses
  made so far; the hardware is an argument of every definition that reads.
\<close>

section \<open>Accesses\<close>

text \<open>The width in bytes, the address and the value; values are kept zero extended.\<close>

datatype access = Rd nat ptr u64 | Wr nat ptr u64

type_synonym bus = "access list"
type_synonym hardware = "bus \<Rightarrow> nat \<Rightarrow> ptr \<Rightarrow> u64"

record register =
  reg_size :: usize
  reg_address :: ptr

definition assert_reg_size :: "register \<Rightarrow> usize \<Rightarrow> kerror + unit" where
  "assert_reg_size reg byte_offset = assertE (reg_size reg > byte_offset) ''byte offset is larger than register size''"

definition reg_read64 :: "hardware \<Rightarrow> register \<Rightarrow> usize \<Rightarrow> bus \<Rightarrow> kerror + u64 \<times> bus" where
  "reg_read64 hw reg byte_offset b =
     bindE (assert_reg_size reg byte_offset) (\<lambda>_.
     let addr = reg_address reg + byte_offset; v = hw b 8 addr
     in Inr (v, b @ [Rd 8 addr v]))"

definition reg_write64 :: "register \<Rightarrow> usize \<Rightarrow> u64 \<Rightarrow> bus \<Rightarrow> kerror + bus" where
  "reg_write64 reg byte_offset data b =
     bindE (assert_reg_size reg byte_offset) (\<lambda>_.
     Inr (b @ [Wr 8 (reg_address reg + byte_offset) data]))"

definition reg_read32 :: "hardware \<Rightarrow> register \<Rightarrow> usize \<Rightarrow> bus \<Rightarrow> kerror + u32 \<times> bus" where
  "reg_read32 hw reg byte_offset b =
     bindE (assert_reg_size reg byte_offset) (\<lambda>_.
     let addr = reg_address reg + byte_offset; v = ucast (hw b 4 addr)
     in Inr (v, b @ [Rd 4 addr (ucast v)]))"

definition reg_write32 :: "register \<Rightarrow> usize \<Rightarrow> u32 \<Rightarrow> bus \<Rightarrow> kerror + bus" where
  "reg_write32 reg byte_offset data b =
     bindE (assert_reg_size reg byte_offset) (\<lambda>_.
     Inr (b @ [Wr 4 (reg_address reg + byte_offset) (ucast data)]))"

definition reg_read8 :: "hardware \<Rightarrow> register \<Rightarrow> usize \<Rightarrow> bus \<Rightarrow> kerror + u8 \<times> bus" where
  "reg_read8 hw reg byte_offset b =
     bindE (assert_reg_size reg byte_offset) (\<lambda>_.
     let addr = reg_address reg + byte_offset; v = ucast (hw b 1 addr)
     in Inr (v, b @ [Rd 1 addr (ucast v)]))"

definition reg_write8 :: "register \<Rightarrow> usize \<Rightarrow> u8 \<Rightarrow> bus \<Rightarrow> kerror + bus" where
  "reg_write8 reg byte_offset data b =
     bindE (assert_reg_size reg byte_offset) (\<lambda>_.
     Inr (b @ [Wr 1 (reg_address reg + byte_offset) (ucast data)]))"

section \<open>Sequences of accesses\<close>

text \<open>
  Inside the register block every access succeeds; outside, the assertion fails and nothing reaches the bus.
\<close>

lemma reg_in_range [simp]:
  assumes "byte_offset < reg_size reg"
  shows "reg_read32 hw reg byte_offset b =
      Inr (ucast (hw b 4 (reg_address reg + byte_offset)),
        b @ [Rd 4 (reg_address reg + byte_offset) (ucast (ucast (hw b 4 (reg_address reg + byte_offset)) :: u32))])"
    and "reg_read8 hw reg byte_offset b =
      Inr (ucast (hw b 1 (reg_address reg + byte_offset)),
        b @ [Rd 1 (reg_address reg + byte_offset) (ucast (ucast (hw b 1 (reg_address reg + byte_offset)) :: u8))])"
    and "reg_write32 reg byte_offset v b = Inr (b @ [Wr 4 (reg_address reg + byte_offset) (ucast v)])"
    and "reg_write8 reg byte_offset w b = Inr (b @ [Wr 1 (reg_address reg + byte_offset) (ucast w)])"
  using assms
  by (simp_all add: reg_read32_def reg_read8_def reg_write32_def reg_write8_def assert_reg_size_def Let_def)

text \<open>\<open>for (u32 i = lo; i < hi; i += st)\<close>, for bounds that keep the counter from wrapping.\<close>

definition stepped :: "nat \<Rightarrow> nat \<Rightarrow> nat \<Rightarrow> nat list" where
  "stepped lo hi st = map (\<lambda>k. lo + k * st) [0..<(hi - lo + st - 1) div st]"

lemma write_loop:
  assumes "\<And>i. i \<in> set is \<Longrightarrow> off i < reg_size reg"
  shows "forE is (\<lambda>i. reg_write32 reg (off i) v) b =
    Inr (b @ map (\<lambda>i. Wr 4 (reg_address reg + off i) (ucast v)) is)"
  using assms
proof (induction "is" arbitrary: b)
  case (Cons i "is")
  then show ?case by simp
qed simp

end
