(* ===== verification/Fdt.thy ===== *)
theory Fdt
  imports Mmio Kheap CString
begin

text \<open>
  Queries of the flattened device tree: \<open>kernel/boot/fdt.c\<close>.

  The tree itself is read by the vendored library libfdt, whose functions are the record \<open>libfdt\<close>, an
  argument of the definitions.  A property is its bytes, or the negative error number that libfdt stores
  as its length; reading a cell outside the bytes of a property is a fault.  Offsets of nodes are signed
  numbers, negative for an error.
\<close>

section \<open>The library\<close>

record libfdt =
  lib_check_header :: int
  lib_totalsize :: u32
  lib_check_full :: int
  lib_path_offset :: "string \<Rightarrow> int"
  lib_first_subnode :: "int \<Rightarrow> int"
  lib_next_subnode :: "int \<Rightarrow> int"
  lib_next_node :: "int \<Rightarrow> int"
  lib_parent_offset :: "int \<Rightarrow> int"
  lib_node_offset_by_phandle :: "u32 \<Rightarrow> int"
  lib_node_check_compatible :: "int \<Rightarrow> string \<Rightarrow> int"
  lib_get_name :: "int \<Rightarrow> string"
  lib_getprop :: "int \<Rightarrow> string \<Rightarrow> int + u8 list"

text \<open>\<open>fdt32_to_cpu(p[k])\<close>: the big-endian cell \<open>k\<close> of a property.\<close>

definition be32 :: "u8 list \<Rightarrow> u32" where
  "be32 bs = fold (\<lambda>b acc. push_bit 8 acc OR ucast b) bs 0"

definition prop_cell :: "u8 list \<Rightarrow> usize \<Rightarrow> kerror + u32" where
  "prop_cell bs k = (if 4 * unat k + 4 \<le> length bs then Inr (be32 (take 4 (drop (4 * unat k) bs))) else Inl (Fault (4 * k)))"

section \<open>Set-up\<close>

record fdt =
  fdt_fdt :: ptr
  fdt_cpu_count :: usize

partial_function (option) count_cpus :: "libfdt \<Rightarrow> int \<Rightarrow> usize \<Rightarrow> usize option" where
  "count_cpus L node n =
     (if node < 0 then Some n
      else count_cpus L (lib_next_subnode L node) (if take 4 (lib_get_name L node) = ''cpu@'' then n + 1 else n))"

text \<open>\<open>lib m p\<close> is the library on the tree at \<open>p\<close>; \<open>dtb\<close> is what the boot loader reports.\<close>

definition fdt_init :: "limine \<Rightarrow> (mem \<Rightarrow> ptr \<Rightarrow> libfdt) \<Rightarrow> ptr option \<Rightarrow> fdt \<Rightarrow> kheap \<Rightarrow> vmm \<Rightarrow> kerror + fdt \<times> kheap \<times> vmm" where
  "fdt_init li lib dtb f kh v =
     (case dtb of None \<Rightarrow> Inl (Panic ''dtb is null'')
      | Some dtb_ptr \<Rightarrow>
        if dtb_ptr = nullptr then Inl (Panic ''dtb is null'')
        else if lib_check_header (lib (vm_mem v) dtb_ptr) \<noteq> 0 then Inl (Panic ''fdt header is corrupted'')
        else
          let total_size = ucast (lib_totalsize (lib (vm_mem v) dtb_ptr)) :: usize in
          if lib_check_full (lib (vm_mem v) dtb_ptr) \<noteq> 0 then Inl (Panic ''fdt body is corrupted'')
          else
            let alloc_size = round_up total_size PAGE_SIZE in
            bindE (kalloc li (alloc_size * 3) kh v) (\<lambda>(p, kh, v).
            if IS_ERR p then Inl (Panic ''out of memory'')
            else
              let v = set_mem (memcpy (vm_mem v) p dtb_ptr total_size) v;
                  L = lib (vm_mem v) p;
                  offset = lib_path_offset L ''/cpus'' in
              if offset < 0 then Inl (Panic ''failed searching for cpu count'')
              else bindE (endsE (count_cpus L (lib_first_subnode L offset) (fdt_cpu_count f))) (\<lambda>n.
                Inr (\<lparr>fdt_fdt = p, fdt_cpu_count = n\<rparr>, kh, v))))"

section \<open>Queries\<close>

partial_function (option) query_compat_loop :: "libfdt \<Rightarrow> string \<Rightarrow> int \<Rightarrow> int option" where
  "query_compat_loop L compatible node =
     (let node = lib_next_node L node in
      if node < 0 then Some (- 2)
      else if lib_node_check_compatible L node compatible = 0 then Some node
      else query_compat_loop L compatible node)"

definition fdt_query_compat :: "libfdt \<Rightarrow> string \<Rightarrow> kerror + int" where
  "fdt_query_compat L compatible = endsE (query_compat_loop L compatible (- 2))"

definition fdt_traverse_next_node :: "libfdt \<Rightarrow> int \<Rightarrow> int" where
  "fdt_traverse_next_node L offset = lib_next_node L offset"

text \<open>The pointer to the property is read as a C string: the characters up to the first NUL.\<close>

definition fdt_get_compat :: "libfdt \<Rightarrow> int \<Rightarrow> string option" where
  "fdt_get_compat L offset =
     (case lib_getprop L offset ''compatible'' of
        Inl _ \<Rightarrow> None | Inr bs \<Rightarrow> Some (map (char_of \<circ> unat) (takeWhile (\<lambda>b. b \<noteq> 0) bs)))"

partial_function (option) parent_phandle_loop :: "libfdt \<Rightarrow> int \<Rightarrow> (kerror + int) option" where
  "parent_phandle_loop L parent =
     (let parent = lib_parent_offset L parent in
      if parent < 0 then Some (Inr (- 1))
      else case lib_getprop L parent ''interrupt-parent'' of
        Inl _ \<Rightarrow> parent_phandle_loop L parent
      | Inr bs \<Rightarrow> Some (bindE (assertE (length bs = 4) ''interrupt parent length is not 4'') (\<lambda>_.
          bindE (prop_cell bs 0) (\<lambda>ph. Inr (lib_node_offset_by_phandle L ph)))))"

definition interrupt_controller_of :: "libfdt \<Rightarrow> int \<Rightarrow> kerror + int" where
  "interrupt_controller_of L node =
     (case lib_getprop L node ''interrupt-parent'' of
        Inr bs \<Rightarrow> bindE (assertE (length bs = 4) ''interrupt parent length is not 4'') (\<lambda>_.
          bindE (prop_cell bs 0) (\<lambda>ph. Inr (lib_node_offset_by_phandle L ph)))
      | Inl _ \<Rightarrow> bindE (endsE (parent_phandle_loop L node)) (\<lambda>r. r))"

text \<open>\<open>-FDT_ERR_NOTFOUND\<close> is \<open>-1\<close>; the number of cells is converted to a signed number.\<close>

definition fdt_get_interrupt_cells_count :: "libfdt \<Rightarrow> int \<Rightarrow> kerror + int" where
  "fdt_get_interrupt_cells_count L node =
     bindE (interrupt_controller_of L node) (\<lambda>ic.
     if ic < 0 then Inr (- 1)
     else
       bindE (assertE (\<not> isl (lib_getprop L ic ''interrupt-controller''))
         ''interrupt-controller does not contain interrupt-controller'') (\<lambda>_.
       case lib_getprop L ic ''#interrupt-cells'' of
         Inl _ \<Rightarrow> Inl (Panic ''interrupt-controller does NOT contain #interrupt-cells'')
       | Inr bs \<Rightarrow> bindE (prop_cell bs 0) (\<lambda>c. Inr (sint c))))"

definition MAX_INTERRUPT_CELLS_COUNT :: nat where "MAX_INTERRUPT_CELLS_COUNT = 8"

record fdt_interrupt =
  cells_count :: int
  cells :: "u32 list"

text \<open>
  One interrupt: \<open>cells[j]\<close> with \<open>j\<close> outside the array writes behind the object.
\<close>

definition interrupt_at :: "u8 list \<Rightarrow> nat \<Rightarrow> nat \<Rightarrow> fdt_interrupt \<Rightarrow> kerror + fdt_interrupt" where
  "interrupt_at bs n i this_fdt =
     forE [0..<n] (\<lambda>j f.
       bindE (prop_cell bs (ucast (of_nat (i * n + j) :: u32))) (\<lambda>c.
       if j < length (cells f) then Inr (f\<lparr>cells := (cells f)[j := c]\<rparr>) else Inl (Fault (of_nat (4 * j)))))
     (this_fdt\<lparr>cells_count := int n\<rparr>)"

fun interrupts_loop :: "u8 list \<Rightarrow> nat \<Rightarrow> nat \<Rightarrow> fdt_interrupt list \<Rightarrow> kerror + fdt_interrupt list" where
  "interrupts_loop bs n i [] = Inr []"
| "interrupts_loop bs n i (f # fs) =
     bindE (interrupt_at bs n i f) (\<lambda>f. bindE (interrupts_loop bs n (Suc i) fs) (\<lambda>fs. Inr (f # fs)))"

text \<open>The array is the list \<open>fs\<close>; the result tells whether it was filled.\<close>

definition fdt_get_interrupt_cells :: "libfdt \<Rightarrow> int \<Rightarrow> fdt_interrupt list \<Rightarrow> kerror + bool \<times> fdt_interrupt list" where
  "fdt_get_interrupt_cells L node fs =
     (case lib_getprop L node ''interrupts'' of
        Inl _ \<Rightarrow> Inl (Panic ''device does not contain interrupts'')
      | Inr bs \<Rightarrow>
        bindE (fdt_get_interrupt_cells_count L node) (\<lambda>n.
        if n < 0 then Inr (False, fs)
        else bindE (interrupts_loop bs (nat n) 0 fs) (\<lambda>fs. Inr (True, fs))))"

definition cells_prop :: "libfdt \<Rightarrow> int \<Rightarrow> string \<Rightarrow> kerror + u32" where
  "cells_prop L node name = (case lib_getprop L node name of Inl _ \<Rightarrow> Inr 2 | Inr bs \<Rightarrow> prop_cell bs 0)"

definition CELL_UNIT_SIZE :: usize where "CELL_UNIT_SIZE = 4"

text \<open>\<open>value = (value << 32) | cell\<close> for \<open>n\<close> cells from index \<open>from\<close> on.\<close>

definition read_cells :: "u8 list \<Rightarrow> usize \<Rightarrow> u32 \<Rightarrow> kerror + u64" where
  "read_cells bs from n =
     forE [0..<unat n] (\<lambda>i acc. bindE (prop_cell bs (from + of_nat i)) (\<lambda>c. Inr (push_bit 32 acc OR ucast c))) 0"

fun read_regs :: "u8 list \<Rightarrow> u32 \<Rightarrow> u32 \<Rightarrow> nat list \<Rightarrow> kerror + register list" where
  "read_regs bs ac sc [] = Inr []"
| "read_regs bs ac sc (i_reg # is) =
     (let offset = of_nat i_reg * ucast (ac + sc) in
      bindE (read_cells bs offset ac) (\<lambda>address.
      bindE (read_cells bs (offset + ucast ac) sc) (\<lambda>size.
      bindE (read_regs bs ac sc is) (\<lambda>rs. Inr (\<lparr>reg_size = size, reg_address = address\<rparr> # rs)))))"

text \<open>
  \<open>None\<close> is the return value false; otherwise the list is the array.  The callers pass an array, so
  the test of the pointer for null does not appear.  A missing property has a negative length.
\<close>

definition fdt_get_reg :: "libfdt \<Rightarrow> int \<Rightarrow> u32 \<Rightarrow> kerror + register list option" where
  "fdt_get_reg L node reg_count =
     (let parent = lib_parent_offset L node in
      bindE (cells_prop L parent ''#address-cells'') (\<lambda>ac.
      bindE (cells_prop L parent ''#size-cells'') (\<lambda>sc.
      case lib_getprop L node ''reg'' of
        Inl _ \<Rightarrow> Inr None
      | Inr bs \<Rightarrow>
        if length bs = 0 then Inr None
        else if ac + sc = 0 then Inl DivByZero
        else
          let actual = ucast (ucast ((of_nat (length bs) :: u32) div (ac + sc)) div CELL_UNIT_SIZE) :: u32 in
          if reg_count \<noteq> actual then Inr None
          else bindE (read_regs bs ac sc [0..<unat reg_count]) (\<lambda>rs. Inr (Some rs)))))"

definition fdt_get_reg_for_compat :: "libfdt \<Rightarrow> string \<Rightarrow> u32 \<Rightarrow> kerror + register list option" where
  "fdt_get_reg_for_compat L compatible reg_count =
     bindE (fdt_query_compat L compatible) (\<lambda>node. if node < 0 then Inr None else fdt_get_reg L node reg_count)"

section \<open>Cells\<close>

text \<open>The encoding of numbers the specification of the device tree prescribes.\<close>

definition enc32 :: "u32 \<Rightarrow> u8 list" where
  "enc32 c = [ucast (drop_bit 24 c), ucast (drop_bit 16 c), ucast (drop_bit 8 c), ucast c]"

definition cells_of :: "nat \<Rightarrow> u64 \<Rightarrow> u32 list" where
  "cells_of n v = map (\<lambda>k. ucast (drop_bit (32 * (n - 1 - k)) v)) [0..<n]"

definition prop_of :: "u32 list \<Rightarrow> u8 list" where
  "prop_of cs = concat (map enc32 cs)"

lemma be32_enc32: "be32 (enc32 c) = c"
proof (rule bit_word_eqI)
  fix n assume n: "n < LENGTH(32)"
  then consider "n < 8" | "8 \<le> n" "n < 16" | "16 \<le> n" "n < 24" | "24 \<le> n" "n < 32" by fastforce
  then show "bit (be32 (enc32 c)) n \<longleftrightarrow> bit c n"
    by cases (auto simp: be32_def enc32_def bit_or_iff bit_push_bit_iff bit_ucast_iff bit_drop_bit_eq possible_bit_word)
qed

lemma length_enc32 [simp]: "length (enc32 c) = 4"
  by (simp add: enc32_def)

lemma length_prop_of [simp]: "length (prop_of cs) = 4 * length cs"
  by (induction cs) (simp_all add: prop_of_def)

lemma prop_window: "k < length cs \<Longrightarrow> take 4 (drop (4 * k) (prop_of cs)) = enc32 (cs ! k)"
proof (induction cs arbitrary: k)
  case (Cons c cs)
  then show ?case by (cases k) (simp_all add: prop_of_def)
qed simp

lemma prop_cell_of: "unat k < length cs \<Longrightarrow> prop_cell (prop_of cs) k = Inr (cs ! unat k)"
  by (simp add: prop_cell_def prop_window be32_enc32)

lemma length_cells_of [simp]: "length (cells_of n v) = n"
  by (simp add: cells_of_def)

lemma shift_in: "push_bit 32 (drop_bit 32 x) OR ucast (ucast x :: u32) = (x :: u64)"
  by (rule bit_word_eqI) (auto simp: bit_or_iff bit_push_bit_iff bit_ucast_iff bit_drop_bit_eq possible_bit_word)

lemma read_cells_of:
  assumes at: "\<And>i. i < unat n \<Longrightarrow> unat (from + of_nat i) < length cs \<and> cs ! unat (from + of_nat i) = cells_of (unat n) v ! i"
    and v: "drop_bit (32 * unat n) v = 0"
  shows "read_cells (prop_of cs) from n = Inr v"
proof -
  let ?f = "\<lambda>i acc. bindE (prop_cell (prop_of cs) (from + of_nat i)) (\<lambda>c. Inr (push_bit 32 acc OR ucast c))"
  have "forE [0..<j] ?f 0 = Inr (drop_bit (32 * (unat n - j)) v)" if "j \<le> unat n" for j
    using that
  proof (induction j)
    case 0
    then show ?case using v by simp
  next
    case (Suc j)
    have "cs ! unat (from + of_nat j) = ucast (drop_bit (32 * (unat n - Suc j)) v)"
      using at [of j] Suc.prems by (simp add: cells_of_def)
    moreover have "drop_bit (32 * (unat n - j)) v = drop_bit 32 (drop_bit (32 * (unat n - Suc j)) v)"
      using Suc.prems by (simp add: drop_bit_drop_bit Suc_diff_Suc [symmetric] algebra_simps)
    ultimately show ?case
      using Suc at [of j] shift_in [of "drop_bit (32 * (unat n - Suc j)) v"] by (simp add: forE_append prop_cell_of)
  qed
  from this [of "unat n"] show ?thesis by (simp add: read_cells_def)
qed

section \<open>Register blocks\<close>

definition reg_cells :: "nat \<Rightarrow> nat \<Rightarrow> register \<Rightarrow> u32 list" where
  "reg_cells ac sc r = cells_of ac (reg_address r) @ cells_of sc (reg_size r)"

definition fits :: "nat \<Rightarrow> nat \<Rightarrow> register \<Rightarrow> bool" where
  "fits ac sc r \<longleftrightarrow> drop_bit (32 * ac) (reg_address r) = 0 \<and> drop_bit (32 * sc) (reg_size r) = 0"

lemma concat_window:
  assumes "\<forall>xs \<in> set xss. length xs = n" and "i < length xss" and "j < n"
  shows "concat xss ! (i * n + j) = xss ! i ! j" and "i * n + j < length (concat xss)"
  using assms
proof (induction xss arbitrary: i)
  case (Cons xs xss)
  {
    case 1
    with Cons.IH(1) show ?case by (cases i) (auto simp: nth_append)
  next
    case 2
    with Cons.IH(2) show ?case by (cases i) auto
  }
qed simp_all

lemma read_regs_of:
  fixes ac sc :: u32
  defines "a \<equiv> unat ac" and "z \<equiv> unat sc"
  defines "cs \<equiv> \<lambda>regs. concat (map (reg_cells a z) regs)"
  assumes f: "\<forall>r \<in> set regs. fits a z r" and l: "length regs * (a + z) < 2 ^ 29"
    and i: "\<forall>i \<in> set is. i < length regs"
  shows "read_regs (prop_of (cs regs)) ac sc is = Inr (map ((!) regs) is)"
  using i
proof (induction "is")
  case (Cons i "is")
  have i: "i < length regs" using Cons.prems by simp
  then have "1 * (a + z) \<le> length regs * (a + z)" by (intro mult_le_mono1) linarith
  then have "a + z < 2 ^ 29" using l unfolding mult_1 by (rule order.strict_trans1)
  then have s: "unat (ac + sc) = a + z" by (simp add: a_def z_def unat_word_ariths(1))
  have uc: "ucast x = (of_nat (unat x) :: usize)" for x :: u32 by (simp only: of_nat_unat)
  let ?o = "of_nat i * ucast (ac + sc) :: usize" and ?r = "regs ! i"
  have at: "i * (a + z) + j < length (cs regs)" "cs regs ! (i * (a + z) + j) = reg_cells a z ?r ! j" if "j < a + z" for j
    using concat_window [of "map (reg_cells a z) regs" "a + z" i j] i that by (simp_all add: cs_def reg_cells_def)
  have len: "length (cs regs) = length regs * (a + z)"
    by (simp add: cs_def length_concat comp_def reg_cells_def sum_list_triv)
  have u: "unat (?o + of_nat j) = i * (a + z) + j" if "j < a + z" for j
  proof -
    have "?o + of_nat j = of_nat (i * (a + z) + j)" using uc [of "ac + sc"] s by simp
    moreover have "i * (a + z) + j < 2 ^ 64" using at(1) [OF that] len l by simp
    ultimately show ?thesis by (simp only: unat_of_nat_u64)
  qed
  have ac: "?o + ucast ac + of_nat j = ?o + of_nat (a + j)" for j using uc [of ac] by (simp add: a_def)
  have "read_cells (prop_of (cs regs)) ?o ac = Inr (reg_address ?r)"
    using f i u at by (intro read_cells_of) (simp_all add: a_def [symmetric] fits_def reg_cells_def nth_append)
  moreover have "read_cells (prop_of (cs regs)) (?o + ucast ac) sc = Inr (reg_size ?r)"
    unfolding ac using f i u at
    by (intro read_cells_of) (simp_all add: ac z_def [symmetric] fits_def reg_cells_def nth_append del: of_nat_add)
  ultimately show ?case using Cons by (simp add: Let_def)
qed simp


lemma cells_prop_enc:
  "lib_getprop L node name = Inr (enc32 c) \<Longrightarrow> cells_prop L node name = Inr c"
  using prop_cell_of [of 0 "[c]"] by (simp add: cells_prop_def prop_of_def)

lemma fdt_get_reg_run:
  fixes ac sc :: u32
  defines "bs \<equiv> \<lambda>regs. prop_of (concat (map (reg_cells (unat ac) (unat sc)) regs))"
  assumes p: "lib_getprop L (lib_parent_offset L node) ''#address-cells'' = Inr (enc32 ac)"
      "lib_getprop L (lib_parent_offset L node) ''#size-cells'' = Inr (enc32 sc)"
      "lib_getprop L node ''reg'' = Inr (bs regs)"
    and f: "\<forall>r \<in> set regs. fits (unat ac) (unat sc) r" and l: "length regs * (unat ac + unat sc) < 2 ^ 29"
    and n: "regs \<noteq> []" "0 < unat ac + unat sc"
  shows "fdt_get_reg L node reg_count = Inr (if unat reg_count = length regs then Some regs else None)"
proof -
  let ?c = "unat ac + unat sc"
  have len: "length (bs regs) = 4 * (length regs * ?c)"
    by (simp add: bs_def length_concat comp_def reg_cells_def sum_list_triv)
  have "1 \<le> length regs" using n(1) by (cases regs) simp_all
  then have "1 * ?c \<le> length regs * ?c" by (rule mult_le_mono1)
  then have c: "?c < 2 ^ 29" using l unfolding mult_1 by (rule order.strict_trans1)
  then have s: "unat (ac + sc) = ?c" by (simp add: unat_word_ariths(1))
  have "length regs * 1 \<le> length regs * ?c" using n(2) by (intro mult_le_mono2) linarith
  then have r: "length regs < 2 ^ 29" using l unfolding mult.right_neutral by (rule order.strict_trans1)
  have u: "unat (of_nat (length (bs regs)) :: u32) = length regs * 4 * ?c"
  proof -
    have "unat (of_nat m :: u32) = m" if "m < 2 ^ 32" for m using that by (simp add: unat_of_nat)
    from this [of "length (bs regs)"] show ?thesis using l by (simp add: len)
  qed
  have "unat ((of_nat (length (bs regs)) :: u32) div (ac + sc)) = length regs * 4"
    using n(2) unfolding unat_div u s by simp
  then have "unat (ucast ((of_nat (length (bs regs)) :: u32) div (ac + sc)) div CELL_UNIT_SIZE) = length regs"
    using r by (simp add: unat_div unsigned_ucast_eq CELL_UNIT_SIZE_def take_bit_nat_eq_self)
  then have "unat (ucast (ucast ((of_nat (length (bs regs)) :: u32) div (ac + sc)) div CELL_UNIT_SIZE) :: u32) = length regs"
    using r by (simp add: unsigned_ucast_eq take_bit_nat_eq_self)
  then have e: "reg_count = ucast (ucast ((of_nat (length (bs regs)) :: u32) div (ac + sc)) div CELL_UNIT_SIZE) \<longleftrightarrow>
      unat reg_count = length regs"
    by (metis unsigned_word_eqI)
  have nz: "ac + sc \<noteq> 0" "length (bs regs) \<noteq> 0" using s n len by auto
  have "read_regs (bs regs) ac sc [0..<length regs] = Inr regs"
    using read_regs_of [OF f l, of "[0..<length regs]"] by (simp add: bs_def map_nth)
  then show ?thesis
    using nz by (simp add: fdt_get_reg_def cells_prop_enc [OF p(1)] cells_prop_enc [OF p(2)] p(3) Let_def e del: length_0_conv)
qed

section \<open>Interrupts\<close>

text \<open>
  An object with enough room gets the cells of its interrupt and keeps the rest of its array; one cell
  too many is written behind the array.
\<close>

lemma interrupt_cells_upto:
  assumes l: "(i + 1) * n \<le> length cs" "length cs < 2 ^ 29" and j: "j \<le> n" "j \<le> length (cells f)"
  shows "forE [0..<j] (\<lambda>j f.
       bindE (prop_cell (prop_of cs) (ucast (of_nat (i * n + j) :: u32))) (\<lambda>c.
       if j < length (cells f) then Inr (f\<lparr>cells := (cells f)[j := c]\<rparr>) else Inl (Fault (of_nat (4 * j))))) f =
    Inr (f\<lparr>cells := take j (drop (i * n) cs) @ drop j (cells f)\<rparr>)"
  using j
proof (induction j)
  case (Suc j)
  have k: "i * n + j < length cs" using l(1) Suc.prems by (simp add: algebra_simps)
  have "unat (ucast (of_nat (i * n + j) :: u32) :: usize) = i * n + j"
    using k l(2) by (simp add: unsigned_ucast_eq take_bit_nat_eq_self unat_of_nat del: of_nat_add of_nat_mult)
  then have c: "prop_cell (prop_of cs) (ucast (of_nat (i * n + j) :: u32)) = Inr (cs ! (i * n + j))"
    using k by (simp add: prop_cell_of del: of_nat_add of_nat_mult)
  have t: "take (Suc j) (drop (i * n) cs) = take j (drop (i * n) cs) @ [cs ! (i * n + j)]"
    using k by (simp add: take_Suc_conv_app_nth)
  have d: "drop j (cells f) = cells f ! j # drop (Suc j) (cells f)" using Suc.prems by (simp add: Cons_nth_drop_Suc)
  have "forE [0..<Suc j] (\<lambda>j f.
       bindE (prop_cell (prop_of cs) (ucast (of_nat (i * n + j) :: u32))) (\<lambda>c.
       if j < length (cells f) then Inr (f\<lparr>cells := (cells f)[j := c]\<rparr>) else Inl (Fault (of_nat (4 * j))))) f =
     Inr (f\<lparr>cells := (take j (drop (i * n) cs) @ drop j (cells f))[j := cs ! (i * n + j)]\<rparr>)"
    using Suc k by (simp add: forE_append c del: of_nat_add of_nat_mult)
  then show ?case using k unfolding t d by (simp add: list_update_append)
qed simp

lemma interrupt_at_of:
  assumes "(i + 1) * n \<le> length cs" "length cs < 2 ^ 29" and "n \<le> length (cells f)"
  shows "interrupt_at (prop_of cs) n i f =
    Inr (f\<lparr>cells_count := int n, cells := take n (drop (i * n) cs) @ drop n (cells f)\<rparr>)"
  unfolding interrupt_at_def using interrupt_cells_upto [OF assms(1,2), of n "f\<lparr>cells_count := int n\<rparr>"] assms(3)
  by (simp del: of_nat_add of_nat_mult)

lemma interrupts_loop_of:
  assumes "(i + length fs) * n \<le> length cs" "length cs < 2 ^ 29" and "\<forall>f \<in> set fs. n \<le> length (cells f)"
  shows "interrupts_loop (prop_of cs) n i fs =
    Inr (map (\<lambda>k. (fs ! k)\<lparr>cells_count := int n, cells := take n (drop ((i + k) * n) cs) @ drop n (cells (fs ! k))\<rparr>) [0..<length fs])"
  using assms
proof (induction fs arbitrary: i)
  case (Cons f fs)
  have "(i + 1) * n \<le> (i + length (f # fs)) * n" by (intro mult_le_mono1) simp
  then have "interrupt_at (prop_of cs) n i f =
      Inr (f\<lparr>cells_count := int n, cells := take n (drop (i * n) cs) @ drop n (cells f)\<rparr>)"
    using Cons.prems by (intro interrupt_at_of) (blast intro: order.trans, simp_all)
  moreover have "interrupts_loop (prop_of cs) n (Suc i) fs =
      Inr (map (\<lambda>k. (fs ! k)\<lparr>cells_count := int n, cells := take n (drop ((Suc i + k) * n) cs) @ drop n (cells (fs ! k))\<rparr>) [0..<length fs])"
    using Cons.prems by (intro Cons.IH) (simp_all add: algebra_simps)
  moreover have "[0..<length (f # fs)] = 0 # map Suc [0..<length fs]" by (simp add: upt_conv_Cons map_Suc_upt del: upt_Suc)
  ultimately show ?case by (simp del: upt_Suc)
qed simp

lemma interrupt_cells_overrun:
  assumes "(i + 1) * n \<le> length cs" "length cs < 2 ^ 29" and "length (cells f) = MAX_INTERRUPT_CELLS_COUNT" and "8 < n"
  shows "interrupt_at (prop_of cs) n i f = Inl (Fault 32)"
proof -
  have n: "[0..<n] = [0..<8] @ 8 # [9..<n]"
    using assms(4) upt_add_eq_append [of 0 8 "n - 8"] by (simp add: upt_conv_Cons)
  have k: "i * n + 8 < length cs" using assms(1,4) by (simp add: algebra_simps)
  have "unat (ucast (of_nat (i * n + 8) :: u32) :: usize) = i * n + 8"
    using k assms(2) by (simp add: unsigned_ucast_eq take_bit_nat_eq_self unat_of_nat del: of_nat_add of_nat_mult)
  then have c: "prop_cell (prop_of cs) (ucast (of_nat (i * n + 8) :: u32)) = Inr (cs ! (i * n + 8))"
    using k by (simp add: prop_cell_of del: of_nat_add of_nat_mult)
  show ?thesis
    unfolding interrupt_at_def n forE_append
    using interrupt_cells_upto [OF assms(1,2), of 8 "f\<lparr>cells_count := int n\<rparr>"] assms(3,4) c k
    by (simp add: MAX_INTERRUPT_CELLS_COUNT_def del: of_nat_add of_nat_mult)
qed

section \<open>Claims\<close>

text \<open>
  C29.  \<open>fdt_get_reg\<close> reads back the register blocks a device tree describes: for a node whose \<open>reg\<close>
  property encodes the blocks \<open>regs\<close> with the cell counts of its parent, it fills an array of their number
  with exactly these blocks, and refuses every other number, reading no cell outside the property.
\<close>

theorem fdt_reg_roundtrip:
  assumes "lib_getprop L (lib_parent_offset L node) ''#address-cells'' = Inr (enc32 ac)"
    and "lib_getprop L (lib_parent_offset L node) ''#size-cells'' = Inr (enc32 sc)"
    and "lib_getprop L node ''reg'' = Inr (prop_of (concat (map (reg_cells (unat ac) (unat sc)) regs)))"
    and "\<forall>r \<in> set regs. fits (unat ac) (unat sc) r" and "length regs * (unat ac + unat sc) < 2 ^ 29"
    and "regs \<noteq> []" and "0 < unat ac + unat sc"
  shows "fdt_get_reg L node reg_count = Inr (if unat reg_count = length regs then Some regs else None)"
  using assms by (rule fdt_get_reg_run)

definition demo_regs :: "register list" where
  "demo_regs = [\<lparr>reg_size = 0x10000, reg_address = 0x8000000\<rparr>, \<lparr>reg_size = 0x10000, reg_address = 0x8010000\<rparr>]"

text \<open>The tree of a machine with a GIC at node 8 under the root.\<close>

definition demo_tree :: libfdt where
  "demo_tree = \<lparr>lib_check_header = 0, lib_totalsize = 0x1000, lib_check_full = 0, lib_path_offset = (\<lambda>_. - 1),
     lib_first_subnode = (\<lambda>_. - 1), lib_next_subnode = (\<lambda>_. - 1), lib_next_node = (\<lambda>n. if n < 0 then 0 else if n = 0 then 8 else - 1),
     lib_parent_offset = (\<lambda>n. if n = 8 then 0 else - 1), lib_node_offset_by_phandle = (\<lambda>_. - 1),
     lib_node_check_compatible = (\<lambda>_ _. 1), lib_get_name = (\<lambda>_. []),
     lib_getprop = (\<lambda>n name. if n = 0 \<and> name \<in> {''#address-cells'', ''#size-cells''} then Inr (enc32 2)
       else if n = 8 \<and> name = ''reg'' then Inr (prop_of (concat (map (reg_cells 2 2) demo_regs))) else Inl (- 1))\<rparr>"

theorem fdt_reg_roundtrip_witness: "fdt_get_reg demo_tree 8 2 = Inr (Some demo_regs) \<and> fdt_get_reg demo_tree 8 1 = Inr None"
proof -
  have "\<forall>r \<in> set demo_regs. fits (unat (2 :: u32)) (unat (2 :: u32)) r"
    by (simp add: fits_def demo_regs_def drop_bit_eq_div)
  then have "fdt_get_reg demo_tree 8 c = Inr (if unat c = length demo_regs then Some demo_regs else None)" for c
    by (intro fdt_reg_roundtrip [of _ _ 2 2]) (simp_all add: demo_tree_def demo_regs_def)
  from this [of 2] this [of 1] show ?thesis by (simp add: demo_regs_def)
qed

end
