(* ===== verification/Gic.thy ===== *)
theory Gic
  imports Mmio
begin

text \<open>
  The interrupt controller driver \<open>drivers/irqchip/arm-gicv2.c\<close>: the operations of the chip and the
  programming of the distributor, on the sequence of register accesses.  The probe and remove functions,
  which allocate and map, are in the theory of the drivers.

  What the accesses mean is the register layout of the GICv2 architecture: \<open>dist_view\<close> reads off the
  configuration of the distributor from the writes that reached it.  The lemmas say that the driver's
  offset and shift arithmetic hits exactly the interrupts it is meant to hit.
\<close>

section \<open>Registers and operations\<close>

definition GIC_SPI_INT_BASE :: nat where "GIC_SPI_INT_BASE = 32"

definition GICC_CTLR_ENABLE_MASK :: u32 where "GICC_CTLR_ENABLE_MASK = ucast (BIT 0) OR ucast (BIT 1)"

definition GICD_CTLR :: usize where "GICD_CTLR = 0x0"
definition GICD_TYPER :: usize where "GICD_TYPER = 0x4"
definition GICD_IGROUPRn :: usize where "GICD_IGROUPRn = 0x80"
definition GICD_ISENABLERn :: usize where "GICD_ISENABLERn = 0x100"
definition GICD_ICENABLERn :: usize where "GICD_ICENABLERn = 0x180"
definition GICD_IPRIORITYRn :: usize where "GICD_IPRIORITYRn = 0x400"
definition GICD_ITARGETSRn :: usize where "GICD_ITARGETSRn = 0x800"
definition GICD_ICFGRn :: usize where "GICD_ICFGRn = 0xc00"

lemmas gicd_offsets = GICD_CTLR_def GICD_TYPER_def GICD_IGROUPRn_def GICD_ISENABLERn_def
  GICD_ICENABLERn_def GICD_IPRIORITYRn_def GICD_ITARGETSRn_def GICD_ICFGRn_def

lemma gicd_nat:
  "GICD_IGROUPRn = of_nat 0x80" "GICD_ICENABLERn = of_nat 0x180" "GICD_IPRIORITYRn = of_nat 0x400"
  "GICD_ITARGETSRn = of_nat 0x800" "GICD_ICFGRn = of_nat 0xc00"
  by (simp_all add: gicd_offsets)

definition GICC_CTLR :: usize where "GICC_CTLR = 0x0"
definition GICC_PMR :: usize where "GICC_PMR = 0x4"
definition GICC_IAR :: usize where "GICC_IAR = 0xC"
definition GICC_EOIR :: usize where "GICC_EOIR = 0x10"

lemmas gicc_offsets = GICC_CTLR_def GICC_PMR_def GICC_IAR_def GICC_EOIR_def

record gicv2_data =
  gd_dist :: register
  gd_cpu :: register
  gd_interrupts_count :: usize

definition arm_gic_irq_enable :: "gicv2_data \<Rightarrow> u32 \<Rightarrow> bus \<Rightarrow> kerror + bus" where
  "arm_gic_irq_enable data irq =
     (let int_grp = ucast (irq div 32); int_off = unat (irq mod 32)
      in reg_write32 (gd_dist data) (GICD_ISENABLERn + int_grp * 4) (push_bit int_off 1))"

definition arm_gic_irq_disable :: "gicv2_data \<Rightarrow> u32 \<Rightarrow> bus \<Rightarrow> kerror + bus" where
  "arm_gic_irq_disable data irq =
     (let int_grp = ucast (irq div 32); int_off = unat (irq mod 32)
      in reg_write32 (gd_dist data) (GICD_ICENABLERn + int_grp * 4) (push_bit int_off 1))"

definition arm_gic_irq_get_active :: "hardware \<Rightarrow> gicv2_data \<Rightarrow> bus \<Rightarrow> kerror + u32 \<times> bus" where
  "arm_gic_irq_get_active hw data = reg_read32 hw (gd_cpu data) GICC_IAR"

definition arm_gic_irq_eoi :: "gicv2_data \<Rightarrow> u32 \<Rightarrow> bus \<Rightarrow> kerror + bus" where
  "arm_gic_irq_eoi data irq = reg_write32 (gd_cpu data) GICC_EOIR irq"

definition dist_interrupts_count :: "hardware \<Rightarrow> register \<Rightarrow> bus \<Rightarrow> kerror + u32 \<times> bus" where
  "dist_interrupts_count hw dist b =
     bindE (reg_read32 hw dist GICD_TYPER b) (\<lambda>(r, b).
     let typer = r AND 0x1f in Inr ((typer + 1) * 32, b))"

definition interrupts_count :: "hardware \<Rightarrow> gicv2_data \<Rightarrow> bus \<Rightarrow> kerror + u32 \<times> bus" where
  "interrupts_count hw data = dist_interrupts_count hw (gd_dist data)"

definition cpu_init :: "hardware \<Rightarrow> gicv2_data \<Rightarrow> bus \<Rightarrow> kerror + bus" where
  "cpu_init hw data b =
     (let dist = gd_dist data; cpu = gd_cpu data in
      bindE (reg_write32 dist GICD_ICENABLERn 0xffff0000 b) (\<lambda>b.
      bindE (reg_write32 dist GICD_ISENABLERn 0x0000ffff b) (\<lambda>b.
      bindE (forE (stepped 0 32 4) (\<lambda>i. reg_write32 dist (GICD_IPRIORITYRn + of_nat i) 0xa0a0a0a0) b) (\<lambda>b.
      bindE (reg_write32 cpu GICC_PMR 0xff b) (\<lambda>b.
      bindE (reg_read32 hw cpu GICC_CTLR b) (\<lambda>(val, b).
      reg_write32 cpu GICC_CTLR (val OR GICC_CTLR_ENABLE_MASK) b))))))"

text \<open>The mask of all cpus: a byte, so cpus from the ninth on have no bit.\<close>

definition cpu_mask_of :: "usize \<Rightarrow> u8" where
  "cpu_mask_of cpu_count = fold (\<lambda>i cpu_mask. ucast (ucast cpu_mask OR BIT i)) [0..<unat cpu_count] 0"

definition target_word :: "u8 \<Rightarrow> u32" where
  "target_word cpu_mask =
     (let m = ucast cpu_mask :: u32 in m OR push_bit 8 m OR push_bit 16 m OR push_bit 24 m)"

definition armgicv2_probe_dist :: "hardware \<Rightarrow> usize \<Rightarrow> register \<Rightarrow> bus \<Rightarrow> kerror + bus" where
  "armgicv2_probe_dist hw cpu_count dist b =
     bindE (dist_interrupts_count hw dist b) (\<lambda>(irqs, b).
     bindE (reg_write32 dist GICD_CTLR 0 b) (\<lambda>b.
     let cpu_mask = cpu_mask_of cpu_count; reg_val = target_word cpu_mask; n = unat irqs in
     bindE (forE (stepped GIC_SPI_INT_BASE n 4) (\<lambda>i. reg_write32 dist (GICD_ITARGETSRn + of_nat i) reg_val) b) (\<lambda>b.
     bindE (forE (stepped GIC_SPI_INT_BASE n 16) (\<lambda>i. reg_write32 dist (GICD_ICFGRn + of_nat (i div 4)) 0) b) (\<lambda>b.
     bindE (forE (stepped GIC_SPI_INT_BASE n 4) (\<lambda>i. reg_write32 dist (GICD_IPRIORITYRn + of_nat i) 0) b) (\<lambda>b.
     bindE (forE (stepped GIC_SPI_INT_BASE n 32) (\<lambda>i. reg_write32 dist (GICD_IGROUPRn + of_nat (i div 8)) 0) b) (\<lambda>b.
     bindE (forE (stepped GIC_SPI_INT_BASE n 32) (\<lambda>i. reg_write32 dist (GICD_ICENABLERn + of_nat (i div 8)) 0xffffffff) b) (\<lambda>b.
     reg_write32 dist GICD_CTLR 1 b)))))))"

section \<open>The distributor\<close>

text \<open>
  The configuration of each interrupt.  The registers hold fields of one, two or eight bits for
  consecutive interrupts; \<open>put_field w o v\<close> is a write of \<open>v\<close> at the byte offset \<open>o\<close> of an array of
  fields of \<open>w\<close> bits.  Writing a one to the set-enable and clear-enable registers enables or disables
  the interrupt, a zero leaves it alone.
\<close>

record distributor =
  ds_forward :: bool
  ds_enabled :: "nat \<Rightarrow> bool"
  ds_group :: "nat \<Rightarrow> u64"
  ds_priority :: "nat \<Rightarrow> u64"
  ds_targets :: "nat \<Rightarrow> u64"
  ds_config :: "nat \<Rightarrow> u64"

definition field_of :: "nat \<Rightarrow> nat \<Rightarrow> u64 \<Rightarrow> nat \<Rightarrow> u64 option" where
  "field_of w off v i =
     (let first = off * 8 div w
      in if first \<le> i \<and> i < first + 32 div w then Some (take_bit w (drop_bit (w * (i - first)) v)) else None)"

definition put_field :: "nat \<Rightarrow> nat \<Rightarrow> u64 \<Rightarrow> (nat \<Rightarrow> u64) \<Rightarrow> nat \<Rightarrow> u64" where
  "put_field w off v f i = (case field_of w off v i of Some x \<Rightarrow> x | None \<Rightarrow> f i)"

definition dist_write :: "nat \<Rightarrow> u64 \<Rightarrow> distributor \<Rightarrow> distributor" where
  "dist_write off v d =
     (if off = 0 then d\<lparr>ds_forward := bit v 0\<rparr>
      else if off < 0x80 then d
      else if off < 0x100 then d\<lparr>ds_group := put_field 1 (off - 0x80) v (ds_group d)\<rparr>
      else if off < 0x180 then d\<lparr>ds_enabled := (\<lambda>i. ds_enabled d i \<or> field_of 1 (off - 0x100) v i = Some 1)\<rparr>
      else if off < 0x200 then d\<lparr>ds_enabled := (\<lambda>i. ds_enabled d i \<and> field_of 1 (off - 0x180) v i \<noteq> Some 1)\<rparr>
      else if off < 0x400 then d
      else if off < 0x800 then d\<lparr>ds_priority := put_field 8 (off - 0x400) v (ds_priority d)\<rparr>
      else if off < 0xc00 then d\<lparr>ds_targets := put_field 8 (off - 0x800) v (ds_targets d)\<rparr>
      else if off < 0xd00 then d\<lparr>ds_config := put_field 2 (off - 0xc00) v (ds_config d)\<rparr>
      else d)"

fun dist_access :: "ptr \<Rightarrow> access \<Rightarrow> distributor \<Rightarrow> distributor" where
  "dist_access base (Wr n a v) d = (if n = 4 then dist_write (unat (a - base)) v d else d)"
| "dist_access base (Rd n a v) d = d"

definition dist_view :: "ptr \<Rightarrow> bus \<Rightarrow> distributor \<Rightarrow> distributor" where
  "dist_view base b = fold (dist_access base) b"

lemma dist_view_simps [simp]:
  "dist_view base [] d = d"
  "dist_view base (b @ b') d = dist_view base b' (dist_view base b d)"
  "dist_view base (a # b) d = dist_view base b (dist_access base a d)"
  by (simp_all add: dist_view_def)

section \<open>One interrupt\<close>

lemma field_bit: "field_of (Suc 0) (4 * k) v i = Some 1 \<longleftrightarrow> k = i div 32 \<and> bit v (i mod 32)"
proof -
  have r: "4 * k * 8 \<le> i \<and> i < 4 * k * 8 + 32 \<longleftrightarrow> k = i div 32" by auto
  show ?thesis
  proof (cases "k = i div 32")
    case True
    then have "i - 4 * k * 8 = i mod 32" by (simp add: minus_div_mult_eq_mod [symmetric])
    with True r show ?thesis by (simp add: field_of_def Let_def bit_iff_odd_drop_bit odd_iff_mod_2_eq_one take_bit_eq_mod)
  next
    case False
    with r show ?thesis by (auto simp: field_of_def Let_def)
  qed
qed


definition dist_block :: "register \<Rightarrow> bool" where
  "dist_block r \<longleftrightarrow> reg_size r \<ge> 0x1000"

lemma word_of_irq:
  assumes "unat (irq :: u32) < 1024"
  shows "unat (ucast (irq div 32) * 4 :: usize) = 4 * (unat irq div 32)"
proof -
  have "unat (irq div 32) = unat irq div 32" by (simp add: unat_div)
  moreover have "unat irq div 32 < 32" using assms by auto
  ultimately show ?thesis by (simp add: unat_word_ariths(2) unsigned_ucast_eq take_bit_nat_eq_self)
qed

lemma enable_writes:
  assumes "dist_block (gd_dist data)" and "unat irq < 1024"
  shows "\<exists>b'. arm_gic_irq_enable data irq b = Inr (b @ b') \<and>
      dist_view (reg_address (gd_dist data)) b' d = d\<lparr>ds_enabled := (ds_enabled d)(unat irq := True)\<rparr>"
    and "\<exists>b'. arm_gic_irq_disable data irq b = Inr (b @ b') \<and>
      dist_view (reg_address (gd_dist data)) b' d = d\<lparr>ds_enabled := (ds_enabled d)(unat irq := False)\<rparr>"
proof -
  let ?o = "ucast (irq div 32) * 4 :: usize" and ?k = "unat irq div 32"
  have k: "unat ?o = 4 * ?k" "?k < 32" using word_of_irq [OF assms(2)] assms(2) by auto
  have e: "unat (GICD_ISENABLERn + ?o) = 0x100 + 4 * ?k" "unat (GICD_ICENABLERn + ?o) = 0x180 + 4 * ?k"
    using k by (simp_all add: gicd_offsets unat_add_u64)
  have r: "GICD_ISENABLERn + ?o < reg_size (gd_dist data)" "GICD_ICENABLERn + ?o < reg_size (gd_dist data)"
    using e k(2) assms(1) by (simp_all add: dist_block_def word_less_nat_alt word_le_nat_alt)
  have m: "unat (irq mod 32) = unat irq mod 32" by (simp add: unat_mod)
  have b: "bit (ucast (2 ^ unat (irq mod 32) :: u32) :: u64) (i mod 32) \<longleftrightarrow> i mod 32 = unat irq mod 32" for i
    unfolding m by (auto simp: bit_ucast_iff bit_exp_iff possible_bit_word)
  have f: "(\<lambda>i. ds_enabled d i \<or> i = unat irq) = (ds_enabled d)(unat irq := True)"
    "(\<lambda>i. ds_enabled d i \<and> i \<noteq> unat irq) = (ds_enabled d)(unat irq := False)" by (auto simp: fun_eq_iff)
  have s: "?k = i div 32 \<and> i mod 32 = unat irq mod 32 \<longleftrightarrow> i = unat irq" for i
    by (metis div_mult_mod_eq)
  show "\<exists>b'. arm_gic_irq_enable data irq b = Inr (b @ b') \<and>
      dist_view (reg_address (gd_dist data)) b' d = d\<lparr>ds_enabled := (ds_enabled d)(unat irq := True)\<rparr>"
    using r(1) k(2) by (auto simp: arm_gic_irq_enable_def Let_def dist_write_def e field_bit b s f)
  show "\<exists>b'. arm_gic_irq_disable data irq b = Inr (b @ b') \<and>
      dist_view (reg_address (gd_dist data)) b' d = d\<lparr>ds_enabled := (ds_enabled d)(unat irq := False)\<rparr>"
    using r(2) k(2) by (auto simp: arm_gic_irq_disable_def Let_def dist_write_def e field_bit b s f)
qed

section \<open>Loops over the registers\<close>

text \<open>
  The loops of the driver write one value to all words that hold the fields of the interrupts from 32
  on.  Each loop changes the fields of exactly those interrupts.
\<close>

lemma field_of_word:
  assumes "w * st = 32" and "0 < w"
  shows "field_of w (4 * w + 4 * k) v i =
    (if 32 + k * st \<le> i \<and> i < 32 + k * st + st then Some (take_bit w (drop_bit (w * (i mod st)) v)) else None)"
proof -
  have "(4 * w + 4 * k) * 8 = w * (32 + k * st)" using assms(1) by (simp add: algebra_simps)
  then have f: "(4 * w + 4 * k) * 8 div w = 32 + k * st" using assms(2) by simp
  have d: "32 div w = st" using assms by (metis nonzero_mult_div_cancel_left less_irrefl)
  have "i - (32 + k * st) = i mod st" if "32 + k * st \<le> i" "i < 32 + k * st + st"
  proof -
    have s: "32 + k * st = (w + k) * st" using assms(1) by (simp add: algebra_simps)
    have "i div st = w + k" using that unfolding s by (intro div_nat_eqI) (simp_all add: algebra_simps)
    then show ?thesis unfolding s by (simp add: minus_div_mult_eq_mod [symmetric])
  qed
  then show ?thesis unfolding field_of_def Let_def f d by auto
qed

text \<open>The same field value in all interrupts from 32 up to \<open>hi\<close>.\<close>

definition spread :: "nat \<Rightarrow> nat \<Rightarrow> u64 \<Rightarrow> (nat \<Rightarrow> u64) \<Rightarrow> nat \<Rightarrow> u64" where
  "spread w hi v f i = (if 32 \<le> i \<and> i < hi then take_bit w (drop_bit (w * (i mod (32 div w))) v) else f i)"

lemma put_field_loop:
  assumes "w * st = 32" and "0 < w"
  shows "fold (\<lambda>k. put_field w (4 * w + 4 * k) v) [0..<n] f = spread w (32 + n * st) v f"
proof (induction n)
  case 0
  then show ?case by (auto simp: spread_def fun_eq_iff)
next
  case (Suc n)
  have d: "32 div w = st" using assms by (metis nonzero_mult_div_cancel_left less_irrefl)
  show ?case
    using Suc.IH by (auto simp: fun_eq_iff put_field_def field_of_word [OF assms] spread_def d)
qed

lemma enabled_loop:
  "fold (\<lambda>k e i. e i \<and> field_of (Suc 0) (4 + 4 * k) 0xffffffff i \<noteq> Some 1) [0..<n] e =
    (\<lambda>i. e i \<and> \<not> (32 \<le> i \<and> i < 32 + n * 32))"
proof (induction n)
  case (Suc n)
  have b: "bit (0xffffffff :: u64) j" if "j < 32" for j
  proof -
    have "bit (mask 32 :: u64) j" using that by (simp add: bit_mask_iff possible_bit_word)
    then show ?thesis by (simp add: mask_eq_exp_minus_1)
  qed
  have "field_of (Suc 0) (4 + 4 * n) 0xffffffff i = Some 1 \<longleftrightarrow> Suc n = i div 32" for i
    using field_bit [of "Suc n" "0xffffffff" i] b [of "i mod 32"] by simp
  moreover have "Suc n = i div 32 \<longleftrightarrow> 32 + n * 32 \<le> i \<and> i < 32 + n * 32 + 32" for i by auto
  ultimately have "field_of (Suc 0) (4 + 4 * n) 0xffffffff i = Some 1 \<longleftrightarrow> 32 + n * 32 \<le> i \<and> i < 32 + n * 32 + 32" for i
    by blast
  then show ?case using Suc.IH by (intro ext) (simp, linarith)
qed (simp add: fun_eq_iff)

text \<open>Writes into one of the register arrays.\<close>

lemma dist_array:
  "off < 0x80 \<Longrightarrow> dist_write (0x80 + off) v d = d\<lparr>ds_group := put_field 1 off v (ds_group d)\<rparr>"
  "off < 0x80 \<Longrightarrow> dist_write (0x180 + off) v d =
     d\<lparr>ds_enabled := (\<lambda>i. ds_enabled d i \<and> field_of (Suc 0) off v i \<noteq> Some 1)\<rparr>"
  "off < 0x400 \<Longrightarrow> dist_write (0x400 + off) v d = d\<lparr>ds_priority := put_field 8 off v (ds_priority d)\<rparr>"
  "off < 0x400 \<Longrightarrow> dist_write (0x800 + off) v d = d\<lparr>ds_targets := put_field 8 off v (ds_targets d)\<rparr>"
  "off < 0x100 \<Longrightarrow> dist_write (0xc00 + off) v d = d\<lparr>ds_config := put_field 2 off v (ds_config d)\<rparr>"
  by (simp_all add: dist_write_def)

lemma view_loop:
  assumes "\<And>k. k < n \<Longrightarrow> unat (g k - base) = off k"
    and "\<And>k d. k < n \<Longrightarrow> dist_write (off k) v d = upd (F k) d"
    and "\<And>p q d. upd p (upd q d) = upd (p \<circ> q) d" and "\<And>d. upd (\<lambda>x. x) d = d"
  shows "dist_view base (map (\<lambda>k. Wr 4 (g k) v) [0..<n]) d = upd (fold F [0..<n]) d"
  using assms(1,2)
proof (induction n)
  case (Suc n)
  have "dist_view base (map (\<lambda>k. Wr 4 (g k) v) [0..<n]) d = upd (fold F [0..<n]) d"
    by (rule Suc.IH) (use Suc.prems in simp_all)
  moreover have "F n \<circ> fold F [0..<n] = fold F [0..<Suc n]" by auto
  ultimately show ?case using Suc.prems assms(3) [of "F n" "fold F [0..<n]" d] by (simp add: comp_def)
qed (simp add: id_def assms(4))


lemma array_loop:
  assumes r: "dist_block r" and st: "\<And>k. k < m \<Longrightarrow> idx (32 + k * st) = 4 * w + 4 * k"
    and B: "4 * w + 4 * m \<le> L" "B + L \<le> 0x1000"
    and arr: "\<And>off d. off < L \<Longrightarrow> dist_write (B + off) (ucast v) d = upd (G off) d"
    and upd: "\<And>p q d. upd p (upd q d) = upd (p \<circ> q) d" "\<And>d. upd (\<lambda>x. x) d = d"
  shows "\<exists>b'. forE (map (\<lambda>k. 32 + k * st) [0..<m]) (\<lambda>i. reg_write32 r (of_nat B + of_nat (idx i)) v) b = Inr (b @ b') \<and>
    dist_view (reg_address r) b' d = upd (fold (\<lambda>k. G (4 * w + 4 * k)) [0..<m]) d"
proof -
  let ?g = "\<lambda>k. reg_address r + (of_nat B + of_nat (4 * w + 4 * k)) :: usize"
  have u: "unat (of_nat B + of_nat (4 * w + 4 * k) :: usize) = B + (4 * w + 4 * k)" if "k < m" for k
  proof -
    have "unat (of_nat (B + (4 * w + 4 * k)) :: usize) = B + (4 * w + 4 * k)"
      by (rule unat_of_nat_u64) (use that B in simp)
    then show ?thesis by simp
  qed
  have l: "of_nat B + of_nat (4 * w + 4 * k) < reg_size r" if "k < m" for k
  proof -
    have "B + (4 * w + 4 * k) < unat (reg_size r)"
      using r B that by (simp add: dist_block_def word_le_nat_alt)
    then show ?thesis using u [OF that] by (simp only: word_less_nat_alt)
  qed
  have "forE (map (\<lambda>k. 32 + k * st) [0..<m]) (\<lambda>i. reg_write32 r (of_nat B + of_nat (idx i)) v) b =
      Inr (b @ map (\<lambda>i. Wr 4 (reg_address r + (of_nat B + of_nat (idx i))) (ucast v)) (map (\<lambda>k. 32 + k * st) [0..<m]))"
    by (rule write_loop) (use l st in auto)
  also have "map (\<lambda>i. Wr 4 (reg_address r + (of_nat B + of_nat (idx i))) (ucast v)) (map (\<lambda>k. 32 + k * st) [0..<m]) =
      map (\<lambda>k. Wr 4 (?g k) (ucast v)) [0..<m]"
    using st by simp
  finally have "forE (map (\<lambda>k. 32 + k * st) [0..<m]) (\<lambda>i. reg_write32 r (of_nat B + of_nat (idx i)) v) b =
      Inr (b @ map (\<lambda>k. Wr 4 (?g k) (ucast v)) [0..<m])" .
  moreover have "dist_view (reg_address r) (map (\<lambda>k. Wr 4 (?g k) (ucast v)) [0..<m]) d =
      upd (fold (\<lambda>k. G (4 * w + 4 * k)) [0..<m]) d"
    by (rule view_loop [where off = "\<lambda>k. B + (4 * w + 4 * k)", OF _ _ upd]) (use u arr B(1) in simp_all)
  ultimately show ?thesis by blast
qed

lemma stepped_spi:
  "stepped 32 (32 * Suc t) 4 = map (\<lambda>k. 32 + k * 4) [0..<8 * t]"
  "stepped 32 (32 * Suc t) 16 = map (\<lambda>k. 32 + k * 16) [0..<2 * t]"
  "stepped 32 (32 * Suc t) 32 = map (\<lambda>k. 32 + k * 32) [0..<t]"
proof -
  have "(32 * Suc t - 32 + 4 - 1) div 4 = 8 * t" "(32 * Suc t - 32 + 16 - 1) div 16 = 2 * t"
    "(32 * Suc t - 32 + 32 - 1) div 32 = t" by presburger+
  then show "stepped 32 (32 * Suc t) 4 = map (\<lambda>k. 32 + k * 4) [0..<8 * t]"
    "stepped 32 (32 * Suc t) 16 = map (\<lambda>k. 32 + k * 16) [0..<2 * t]"
    "stepped 32 (32 * Suc t) 32 = map (\<lambda>k. 32 + k * 32) [0..<t]" by (simp_all only: stepped_def)
qed

lemma spi_loops:
  assumes r: "dist_block r" and t: "t < 32"
  defines "n \<equiv> 32 * Suc t"
  shows "\<exists>b'. forE (stepped 32 n 4) (\<lambda>i. reg_write32 r (GICD_ITARGETSRn + of_nat i) v) b = Inr (b @ b') \<and>
      dist_view (reg_address r) b' d = d\<lparr>ds_targets := spread 8 n (ucast v) (ds_targets d)\<rparr>"
    and "\<exists>b'. forE (stepped 32 n 4) (\<lambda>i. reg_write32 r (GICD_IPRIORITYRn + of_nat i) v) b = Inr (b @ b') \<and>
      dist_view (reg_address r) b' d = d\<lparr>ds_priority := spread 8 n (ucast v) (ds_priority d)\<rparr>"
    and "\<exists>b'. forE (stepped 32 n 16) (\<lambda>i. reg_write32 r (GICD_ICFGRn + of_nat (i div 4)) v) b = Inr (b @ b') \<and>
      dist_view (reg_address r) b' d = d\<lparr>ds_config := spread 2 n (ucast v) (ds_config d)\<rparr>"
    and "\<exists>b'. forE (stepped 32 n 32) (\<lambda>i. reg_write32 r (GICD_IGROUPRn + of_nat (i div 8)) v) b = Inr (b @ b') \<and>
      dist_view (reg_address r) b' d = d\<lparr>ds_group := spread 1 n (ucast v) (ds_group d)\<rparr>"
    and "\<exists>b'. forE (stepped 32 n 32) (\<lambda>i. reg_write32 r (GICD_ICENABLERn + of_nat (i div 8)) 0xffffffff) b = Inr (b @ b') \<and>
      dist_view (reg_address r) b' d = d\<lparr>ds_enabled := (\<lambda>i. ds_enabled d i \<and> \<not> (32 \<le> i \<and> i < n))\<rparr>"
proof -
  have n: "spread 8 n = spread 8 (32 + 8 * t * 4)" "spread 2 n = spread 2 (32 + 2 * t * 16)"
    "spread 1 n = spread 1 (32 + t * 32)" by (simp_all add: n_def mult.commute)
  show "\<exists>b'. forE (stepped 32 n 4) (\<lambda>i. reg_write32 r (GICD_ITARGETSRn + of_nat i) v) b = Inr (b @ b') \<and>
      dist_view (reg_address r) b' d = d\<lparr>ds_targets := spread 8 n (ucast v) (ds_targets d)\<rparr>"
    unfolding n unfolding n_def stepped_spi gicd_nat
    by (subst put_field_loop [symmetric], simp, simp,
        rule array_loop [OF r, where w = 8 and st = 4 and idx = "\<lambda>i. i" and L = "0x400"
          and upd = "\<lambda>f d. d\<lparr>ds_targets := f (ds_targets d)\<rparr>" and G = "\<lambda>k. put_field 8 k (ucast v)"])
      (use t in \<open>simp_all add: dist_array comp_def\<close>)
  show "\<exists>b'. forE (stepped 32 n 4) (\<lambda>i. reg_write32 r (GICD_IPRIORITYRn + of_nat i) v) b = Inr (b @ b') \<and>
      dist_view (reg_address r) b' d = d\<lparr>ds_priority := spread 8 n (ucast v) (ds_priority d)\<rparr>"
    unfolding n unfolding n_def stepped_spi gicd_nat
    by (subst put_field_loop [symmetric], simp, simp,
        rule array_loop [OF r, where w = 8 and st = 4 and idx = "\<lambda>i. i" and L = "0x400"
          and upd = "\<lambda>f d. d\<lparr>ds_priority := f (ds_priority d)\<rparr>" and G = "\<lambda>k. put_field 8 k (ucast v)"])
      (use t in \<open>simp_all add: dist_array comp_def\<close>)
  show "\<exists>b'. forE (stepped 32 n 16) (\<lambda>i. reg_write32 r (GICD_ICFGRn + of_nat (i div 4)) v) b = Inr (b @ b') \<and>
      dist_view (reg_address r) b' d = d\<lparr>ds_config := spread 2 n (ucast v) (ds_config d)\<rparr>"
    unfolding n unfolding n_def stepped_spi gicd_nat
    by (subst put_field_loop [symmetric], simp, simp,
        rule array_loop [OF r, where w = 2 and st = 16 and idx = "\<lambda>i. i div 4" and L = "0x100"
          and upd = "\<lambda>f d. d\<lparr>ds_config := f (ds_config d)\<rparr>" and G = "\<lambda>k. put_field 2 k (ucast v)"])
      (use t in \<open>simp_all add: dist_array comp_def\<close>)
  show "\<exists>b'. forE (stepped 32 n 32) (\<lambda>i. reg_write32 r (GICD_IGROUPRn + of_nat (i div 8)) v) b = Inr (b @ b') \<and>
      dist_view (reg_address r) b' d = d\<lparr>ds_group := spread 1 n (ucast v) (ds_group d)\<rparr>"
    unfolding n unfolding n_def stepped_spi gicd_nat
    by (subst put_field_loop [symmetric], simp, simp,
        rule array_loop [OF r, where w = 1 and st = 32 and idx = "\<lambda>i. i div 8" and L = "0x80"
          and upd = "\<lambda>f d. d\<lparr>ds_group := f (ds_group d)\<rparr>" and G = "\<lambda>k. put_field 1 k (ucast v)"])
      (use t in \<open>simp_all add: dist_array comp_def\<close>)
  have e: "(\<lambda>i. ds_enabled d i \<and> \<not> (32 \<le> i \<and> i < n)) =
      fold (\<lambda>k e i. e i \<and> field_of (Suc 0) (4 * 1 + 4 * k) (ucast (0xffffffff :: u32)) i \<noteq> Some 1) [0..<t] (ds_enabled d)"
    using enabled_loop [of t "ds_enabled d"] by (simp add: n_def mult.commute)
  show "\<exists>b'. forE (stepped 32 n 32) (\<lambda>i. reg_write32 r (GICD_ICENABLERn + of_nat (i div 8)) 0xffffffff) b = Inr (b @ b') \<and>
      dist_view (reg_address r) b' d = d\<lparr>ds_enabled := (\<lambda>i. ds_enabled d i \<and> \<not> (32 \<le> i \<and> i < n))\<rparr>"
    unfolding e unfolding n_def stepped_spi gicd_nat
    by (rule array_loop [OF r, where w = 1 and st = 32 and idx = "\<lambda>i. i div 8" and L = "0x80"
          and upd = "\<lambda>f d. d\<lparr>ds_enabled := f (ds_enabled d)\<rparr>"
          and G = "\<lambda>k e i. e i \<and> field_of (Suc 0) k (ucast (0xffffffff :: u32)) i \<noteq> Some 1"])
      (use t in \<open>simp_all add: dist_array comp_def\<close>)
qed

section \<open>Programming the distributor\<close>

lemma bit_cpu_mask: "bit (cpu_mask_of cpu_count) j \<longleftrightarrow> j < 8 \<and> j < unat cpu_count"
proof -
  have "bit (fold (\<lambda>i m. ucast (ucast m OR BIT i)) [0..<n] 0 :: u8) j \<longleftrightarrow> j < 8 \<and> j < n" for n
    by (induction n) (auto simp: bit_ucast_iff bit_or_iff BIT_def bit_exp_iff possible_bit_word less_Suc_eq)
  then show ?thesis by (simp add: cpu_mask_of_def)
qed

lemma bit_target_word:
  assumes "j < 8"
  shows "bit (take_bit 8 (drop_bit (8 * (i mod 4)) (ucast (target_word m) :: u64))) j \<longleftrightarrow> bit m j"
proof -
  have "i mod 4 < 4" by simp
  then consider "i mod 4 = 0" | "i mod 4 = 1" | "i mod 4 = 2" | "i mod 4 = 3" by linarith
  then show ?thesis
    using assms bit_imp_le_length [of m]
    by cases (auto simp: target_word_def Let_def bit_take_bit_iff bit_drop_bit_eq bit_ucast_iff bit_or_iff
        bit_push_bit_iff possible_bit_word dest: bit_imp_le_length)
qed

definition typer_lines :: "hardware \<Rightarrow> register \<Rightarrow> bus \<Rightarrow> nat" where
  "typer_lines hw r b = unat ((ucast (hw b 4 (reg_address r + GICD_TYPER)) :: u32) AND 0x1f)"

lemma typer_lines_less: "typer_lines hw r b < 32"
proof -
  have "(x :: u32) AND 0x1f \<le> 0x1f" for x by (simp add: word_and_le1)
  then have "unat (x AND (0x1f :: u32)) \<le> unat (0x1f :: u32)" for x :: u32 by (simp only: word_le_nat_alt)
  then show ?thesis unfolding typer_lines_def by (rule order.strict_trans1) simp
qed

lemma count_run:
  assumes "dist_block r"
  shows "\<exists>n a. dist_interrupts_count hw r b = Inr (n, b @ [Rd 4 (reg_address r + GICD_TYPER) a]) \<and>
    unat n = 32 * Suc (typer_lines hw r b)"
proof -
  have r: "GICD_TYPER < reg_size r"
    using assms by (simp add: dist_block_def gicd_offsets word_less_nat_alt word_le_nat_alt)
  let ?x = "(ucast (hw b 4 (reg_address r + GICD_TYPER)) :: u32) AND 0x1f"
  have x: "unat ?x < 32" using typer_lines_less [of hw r b] by (simp add: typer_lines_def)
  then have "unat (?x + 1) = unat ?x + 1" by (subst unat_add_lem [THEN iffD1]) simp_all
  then have "unat ((?x + 1) * 32) = 32 * Suc (unat ?x)"
    using x by (subst unat_mult_lem [THEN iffD1]) simp_all
  then show ?thesis using r by (simp add: dist_interrupts_count_def typer_lines_def)
qed

lemma ctlr_write:
  assumes "dist_block r"
  shows "reg_write32 r GICD_CTLR v b = Inr (b @ [Wr 4 (reg_address r + GICD_CTLR) (ucast v)])"
    and "dist_view (reg_address r) [Wr 4 (reg_address r + GICD_CTLR) (ucast v)] d = d\<lparr>ds_forward := bit v 0\<rparr>"
proof -
  have "GICD_CTLR < reg_size r"
    using assms by (simp add: dist_block_def gicd_offsets word_less_nat_alt word_le_nat_alt)
  then show "reg_write32 r GICD_CTLR v b = Inr (b @ [Wr 4 (reg_address r + GICD_CTLR) (ucast v)])" by simp
  show "dist_view (reg_address r) [Wr 4 (reg_address r + GICD_CTLR) (ucast v)] d = d\<lparr>ds_forward := bit v 0\<rparr>"
    by (simp add: dist_write_def gicd_offsets bit_ucast_iff)
qed

lemma probe_dist_run:
  fixes hw :: hardware and b :: bus
  assumes r: "dist_block r"
  defines "n \<equiv> 32 * Suc (typer_lines hw r b)"
  shows "\<exists>b'. armgicv2_probe_dist hw cpu_count r b = Inr (b @ b') \<and>
    dist_view (reg_address r) b' d =
      \<lparr>ds_forward = True, ds_enabled = (\<lambda>i. ds_enabled d i \<and> \<not> (32 \<le> i \<and> i < n)),
       ds_group = spread 1 n 0 (ds_group d), ds_priority = spread 8 n 0 (ds_priority d),
       ds_targets = spread 8 n (ucast (target_word (cpu_mask_of cpu_count))) (ds_targets d),
       ds_config = spread 2 n 0 (ds_config d)\<rparr>"
proof -
  let ?t = "typer_lines hw r b" and ?v = "target_word (cpu_mask_of cpu_count)"
  obtain c a where c: "dist_interrupts_count hw r b = Inr (c, b @ [Rd 4 (reg_address r + GICD_TYPER) a])" "unat c = n"
    using count_run [OF r] unfolding n_def by blast
  note loops = spi_loops [OF r typer_lines_less [of hw r b], folded n_def]
  let ?b0 = "(b @ [Rd 4 (reg_address r + GICD_TYPER) a]) @ [Wr 4 (reg_address r + GICD_CTLR) (ucast (0 :: u32))]"
  let ?d0 = "d\<lparr>ds_forward := False\<rparr>"
  let ?d1 = "?d0\<lparr>ds_targets := spread 8 n (ucast ?v) (ds_targets d)\<rparr>"
  let ?d2 = "?d1\<lparr>ds_config := spread 2 n 0 (ds_config d)\<rparr>"
  let ?d3 = "?d2\<lparr>ds_priority := spread 8 n 0 (ds_priority d)\<rparr>"
  let ?d4 = "?d3\<lparr>ds_group := spread 1 n 0 (ds_group d)\<rparr>"
  let ?d5 = "?d4\<lparr>ds_enabled := (\<lambda>i. ds_enabled d i \<and> \<not> (32 \<le> i \<and> i < n))\<rparr>"
  obtain b1 where b1: "forE (stepped 32 n 4) (\<lambda>i. reg_write32 r (GICD_ITARGETSRn + of_nat i) ?v) ?b0 = Inr (?b0 @ b1)"
    "dist_view (reg_address r) b1 ?d0 = ?d1" using loops(1) [of ?v ?b0 ?d0] by auto
  obtain b2 where b2: "forE (stepped 32 n 16) (\<lambda>i. reg_write32 r (GICD_ICFGRn + of_nat (i div 4)) 0) (?b0 @ b1) = Inr ((?b0 @ b1) @ b2)"
    "dist_view (reg_address r) b2 ?d1 = ?d2" using loops(3) [of 0 "?b0 @ b1" ?d1] by auto
  obtain b3 where b3: "forE (stepped 32 n 4) (\<lambda>i. reg_write32 r (GICD_IPRIORITYRn + of_nat i) 0) ((?b0 @ b1) @ b2) = Inr (((?b0 @ b1) @ b2) @ b3)"
    "dist_view (reg_address r) b3 ?d2 = ?d3" using loops(2) [of 0 "(?b0 @ b1) @ b2" ?d2] by auto
  obtain b4 where b4: "forE (stepped 32 n 32) (\<lambda>i. reg_write32 r (GICD_IGROUPRn + of_nat (i div 8)) 0) (((?b0 @ b1) @ b2) @ b3) = Inr ((((?b0 @ b1) @ b2) @ b3) @ b4)"
    "dist_view (reg_address r) b4 ?d3 = ?d4" using loops(4) [of 0 "((?b0 @ b1) @ b2) @ b3" ?d3] by auto
  obtain b5 where b5: "forE (stepped 32 n 32) (\<lambda>i. reg_write32 r (GICD_ICENABLERn + of_nat (i div 8)) 0xffffffff) ((((?b0 @ b1) @ b2) @ b3) @ b4) = Inr (((((?b0 @ b1) @ b2) @ b3) @ b4) @ b5)"
    "dist_view (reg_address r) b5 ?d4 = ?d5" using loops(5) [of "(((?b0 @ b1) @ b2) @ b3) @ b4" ?d4] by auto
  note w = ctlr_write [OF r]
  have rd: "dist_view (reg_address r) [Rd 4 (reg_address r + GICD_TYPER) a] d = d" by simp
  have f: "d\<lparr>ds_forward := bit (0 :: u32) 0\<rparr> = ?d0" by simp
  have "armgicv2_probe_dist hw cpu_count r b = Inr ((((((?b0 @ b1) @ b2) @ b3) @ b4) @ b5) @ [Wr 4 (reg_address r + GICD_CTLR) (ucast (1 :: u32))])"
    unfolding armgicv2_probe_dist_def c(1) bindE_simps prod.case w(1) Let_def c(2) GIC_SPI_INT_BASE_def b1(1) b2(1) b3(1) b4(1) b5(1) ..
  moreover have "dist_view (reg_address r) ([Rd 4 (reg_address r + GICD_TYPER) a] @ [Wr 4 (reg_address r + GICD_CTLR) (ucast (0 :: u32))] @
      b1 @ b2 @ b3 @ b4 @ b5 @ [Wr 4 (reg_address r + GICD_CTLR) (ucast (1 :: u32))]) d = ?d5\<lparr>ds_forward := True\<rparr>"
    unfolding dist_view_simps(2) w(2) rd f b1(2) b2(2) b3(2) b4(2) b5(2) by simp
  ultimately show ?thesis by (intro exI conjI) (simp, simp only: append_assoc, simp)
qed

section \<open>The cpu interface\<close>

definition cpu_block :: "register \<Rightarrow> register \<Rightarrow> bool" where
  "cpu_block dist cpu \<longleftrightarrow> reg_size cpu \<ge> 0x1000 \<and>
     (\<forall>off < 0x1000. unat (reg_address cpu + off - reg_address dist) \<ge> 0x1000)"

lemma cpu_block_view:
  assumes "cpu_block dist cpu" and "off < 0x1000"
  shows "dist_access (reg_address dist) (Wr n (reg_address cpu + off) v) d = d"
    and "off < reg_size cpu"
proof -
  have "unat (reg_address cpu + off - reg_address dist) \<ge> 0x1000" using assms by (simp add: cpu_block_def)
  then show "dist_access (reg_address dist) (Wr n (reg_address cpu + off) v) d = d" by (simp add: dist_write_def)
  show "off < reg_size cpu" using assms unfolding cpu_block_def by (meson order.strict_trans2)
qed

lemma priority_view:
  assumes "\<forall>k \<in> set ks. k < 0x400"
  shows "ds_enabled (dist_view base (map (\<lambda>k. Wr 4 (base + (GICD_IPRIORITYRn + of_nat k)) v) ks) d) = ds_enabled d"
  using assms
proof (induction ks arbitrary: d)
  case (Cons k ks)
  have "unat (GICD_IPRIORITYRn + of_nat k) = 0x400 + k"
    using Cons.prems unat_of_nat_u64 [of "0x400 + k"] by (simp add: gicd_nat)
  then have "ds_enabled (dist_access base (Wr 4 (base + (GICD_IPRIORITYRn + of_nat k)) v) d) = ds_enabled d"
    using Cons.prems by (simp add: dist_array)
  then show ?case using Cons by simp
qed simp

text \<open>
  A cpu that enables its interface masks its private peripheral interrupts, enables the software
  generated ones, and ends by opening the interface for all priorities.
\<close>

lemma cpu_init_run:
  assumes r: "dist_block (gd_dist data)" and c: "cpu_block (gd_dist data) (gd_cpu data)"
  shows "\<exists>b' v w. cpu_init hw data b = Inr (b @ b' @ [Wr 4 (reg_address (gd_cpu data) + GICC_PMR) 0xff,
        Rd 4 (reg_address (gd_cpu data) + GICC_CTLR) v, Wr 4 (reg_address (gd_cpu data) + GICC_CTLR) w]) \<and>
      bit w 0 \<and> bit w 1 \<and>
      ds_enabled (dist_view (reg_address (gd_dist data)) b' d) =
        (\<lambda>i. if i < 16 then True else if i < 32 then False else ds_enabled d i)"
proof -
  let ?D = "gd_dist data" and ?C = "gd_cpu data"
  let ?pr = "map (\<lambda>k. Wr 4 (reg_address ?D + (GICD_IPRIORITYRn + of_nat k)) 0xa0a0a0a0) [0, 4, 8, 12, 16, 20, 24, 28]"
  have st: "stepped 0 32 4 = [0, 4, 8, 12, 16, 20, 24, 28]" by (simp add: stepped_def upt_rec)
  have k: "GICD_IPRIORITYRn + of_nat k < reg_size ?D" if "k < 32" for k
  proof -
    have "unat (GICD_IPRIORITYRn + of_nat k) = 0x400 + k"
      using that unat_of_nat_u64 [of "0x400 + k"] by (simp add: gicd_nat)
    then show ?thesis using r that by (simp add: dist_block_def word_less_nat_alt word_le_nat_alt)
  qed
  have pr: "forE (stepped 0 32 4) (\<lambda>i. reg_write32 ?D (GICD_IPRIORITYRn + of_nat i) 0xa0a0a0a0) b = Inr (b @ ?pr)" for b
    unfolding st by (subst write_loop) (auto intro!: k)
  have o: "GICD_ICENABLERn < reg_size ?D" "GICD_ISENABLERn < reg_size ?D"
    using r by (simp_all add: dist_block_def gicd_offsets word_less_nat_alt word_le_nat_alt)
  have p: "GICC_PMR < reg_size ?C" "GICC_CTLR < reg_size ?C"
    using c by (simp_all add: cpu_block_def gicc_offsets word_less_nat_alt word_le_nat_alt)
  let ?b' = "[Wr 4 (reg_address ?D + GICD_ICENABLERn) 0xffff0000, Wr 4 (reg_address ?D + GICD_ISENABLERn) 0xffff] @ ?pr"
  have b16: "(bit (0xffff0000 :: u64) j \<longleftrightarrow> 16 \<le> j) \<and> (bit (0xffff :: u64) j \<longleftrightarrow> j < 16)" if j: "j < 32" for j
  proof -
    have "bit (mask 16 :: u64) j \<longleftrightarrow> j < 16" by (auto simp: bit_mask_iff possible_bit_word)
    moreover have "bit (push_bit 16 (mask 16) :: u64) j \<longleftrightarrow> 16 \<le> j"
      using j by (auto simp: bit_push_bit_iff bit_mask_iff possible_bit_word)
    ultimately show ?thesis by (simp add: mask_eq_exp_minus_1 push_bit_eq_mult)
  qed
  have e: "ds_enabled (dist_view (reg_address ?D) ?b' d) =
      (\<lambda>i. (ds_enabled d i \<and> field_of (Suc 0) (4 * 0) 0xffff0000 i \<noteq> Some 1) \<or> field_of (Suc 0) (4 * 0) 0xffff i = Some 1)"
    unfolding dist_view_simps(2) by (subst priority_view) (simp_all add: dist_write_def gicd_offsets)
  have "ds_enabled (dist_view (reg_address ?D) ?b' d) =
      (\<lambda>i. if i < 16 then True else if i < 32 then False else ds_enabled d i)"
    unfolding e field_bit
  proof (rule ext)
    fix i :: nat
    have "0 = i div 32 \<longleftrightarrow> i < 32" by auto
    then show "(ds_enabled d i \<and> \<not> (0 = i div 32 \<and> bit (0xffff0000 :: u64) (i mod 32)) \<or> 0 = i div 32 \<and> bit (0xffff :: u64) (i mod 32)) =
        (if i < 16 then True else if i < 32 then False else ds_enabled d i)"
      using b16 [of i] by (cases "i < 32") auto
  qed
  moreover have "cpu_init hw data b = Inr (b @ ?b' @ [Wr 4 (reg_address ?C + GICC_PMR) 0xff,
      Rd 4 (reg_address ?C + GICC_CTLR) v, Wr 4 (reg_address ?C + GICC_CTLR) w]) \<and> bit w 0 \<and> bit w 1"
    if "v = ucast (ucast (hw (b @ ?b' @ [Wr 4 (reg_address ?C + GICC_PMR) 0xff]) 4 (reg_address ?C + GICC_CTLR)) :: u32)"
      and "w = ucast ((ucast (hw (b @ ?b' @ [Wr 4 (reg_address ?C + GICC_PMR) 0xff]) 4 (reg_address ?C + GICC_CTLR)) :: u32) OR GICC_CTLR_ENABLE_MASK)"
    for v w
    using that o p by (simp add: cpu_init_def Let_def pr GICC_CTLR_ENABLE_MASK_def BIT_def bit_ucast_iff bit_or_iff bit_exp_iff)
  ultimately show ?thesis by blast
qed

section \<open>What a chip promises\<close>

text \<open>
  The contract the interrupt dispatch relies on: enabling and disabling reach exactly the interrupt
  they name, and nothing fails for the interrupts a chip can have.
\<close>

locale irq_chip =
  fixes ok :: "'s \<Rightarrow> bool" and enabled :: "'s \<Rightarrow> nat \<Rightarrow> bool"
    and enable :: "u32 \<Rightarrow> 's \<Rightarrow> kerror + 's" and disable :: "u32 \<Rightarrow> 's \<Rightarrow> kerror + 's"
  assumes enable_one: "ok s \<Longrightarrow> unat irq < 1024 \<Longrightarrow>
      \<exists>s'. enable irq s = Inr s' \<and> ok s' \<and> enabled s' = (enabled s)(unat irq := True)"
    and disable_one: "ok s \<Longrightarrow> unat irq < 1024 \<Longrightarrow>
      \<exists>s'. disable irq s = Inr s' \<and> ok s' \<and> enabled s' = (enabled s)(unat irq := False)"
begin

lemma enable_all:
  assumes "ok s" and "\<forall>irq \<in> set irqs. unat irq < 1024"
  shows "\<exists>s'. forE irqs enable s = Inr s' \<and> ok s' \<and> enabled s' = (\<lambda>i. enabled s i \<or> i \<in> unat ` set irqs)"
  using assms
proof (induction irqs arbitrary: s)
  case (Cons irq irqs)
  obtain s1 where s1: "enable irq s = Inr s1" "ok s1" "enabled s1 = (enabled s)(unat irq := True)"
    using enable_one [of s irq] Cons.prems by auto
  obtain s2 where "forE irqs enable s1 = Inr s2" "ok s2" "enabled s2 = (\<lambda>i. enabled s1 i \<or> i \<in> unat ` set irqs)"
    using Cons.IH [OF s1(2)] Cons.prems by auto
  with s1 show ?case by (auto simp: fun_eq_iff)
qed auto

lemma enable_disable:
  assumes "ok s" and "unat irq < 1024" and "\<not> enabled s (unat irq)"
  shows "\<exists>s'. bindE (enable irq s) (disable irq) = Inr s' \<and> ok s' \<and> enabled s' = enabled s"
proof -
  obtain s1 where s1: "enable irq s = Inr s1" "ok s1" "enabled s1 = (enabled s)(unat irq := True)"
    using enable_one assms by blast
  obtain s2 where "disable irq s1 = Inr s2" "ok s2" "enabled s2 = (enabled s1)(unat irq := False)"
    using disable_one [OF s1(2) assms(2)] by blast
  with s1 assms(3) show ?thesis by (auto simp: fun_eq_iff)
qed

end

interpretation gicv2: irq_chip "\<lambda>b. dist_block (gd_dist data)"
  "\<lambda>b. ds_enabled (dist_view (reg_address (gd_dist data)) b d)"
  "arm_gic_irq_enable data" "arm_gic_irq_disable data" for data d
proof (unfold_locales, goal_cases)
  case (1 b irq)
  obtain b' where b': "arm_gic_irq_enable data irq b = Inr (b @ b')"
    "dist_view (reg_address (gd_dist data)) b' (dist_view (reg_address (gd_dist data)) b d) =
      (dist_view (reg_address (gd_dist data)) b d)
        \<lparr>ds_enabled := (ds_enabled (dist_view (reg_address (gd_dist data)) b d))(unat irq := True)\<rparr>"
    using enable_writes(1) [OF 1] by blast
  then show ?case using 1 by (intro exI [of _ "b @ b'"]) simp
next
  case (2 b irq)
  obtain b' where b': "arm_gic_irq_disable data irq b = Inr (b @ b')"
    "dist_view (reg_address (gd_dist data)) b' (dist_view (reg_address (gd_dist data)) b d) =
      (dist_view (reg_address (gd_dist data)) b d)
        \<lparr>ds_enabled := (ds_enabled (dist_view (reg_address (gd_dist data)) b d))(unat irq := False)\<rparr>"
    using enable_writes(2) [OF 2] by blast
  then show ?case using 2 by (intro exI [of _ "b @ b'"]) simp
qed

lemma probe_dist_configures:
  assumes "dist_block r"
  shows "\<exists>b' d'. armgicv2_probe_dist hw cpu_count r b = Inr (b @ b') \<and> dist_view (reg_address r) b' d = d' \<and> ds_forward d' \<and>
    (\<forall>i. if 32 \<le> i \<and> i < 32 * (typer_lines hw r b + 1)
       then \<not> ds_enabled d' i \<and> ds_config d' i = 0 \<and> ds_group d' i = 0 \<and> ds_priority d' i = 0 \<and>
         (\<forall>j. bit (ds_targets d' i) j \<longleftrightarrow> j < 8 \<and> j < unat cpu_count)
       else ds_enabled d' i = ds_enabled d i \<and> ds_config d' i = ds_config d i \<and> ds_group d' i = ds_group d i \<and>
         ds_priority d' i = ds_priority d i \<and> ds_targets d' i = ds_targets d i)"
proof -
  have t: "bit (take_bit 8 (drop_bit (8 * (i mod 4)) (ucast (target_word (cpu_mask_of cpu_count)) :: u64))) j \<longleftrightarrow>
      j < 8 \<and> j < unat cpu_count" for i j
    using bit_target_word [of j i "cpu_mask_of cpu_count"] by (cases "j < 8") (auto simp: bit_cpu_mask bit_take_bit_iff)
  show ?thesis
    using probe_dist_run [OF assms, where hw = hw and b = b and cpu_count = cpu_count and d = d] by (fastforce simp: spread_def t)
qed

section \<open>Claims\<close>

definition demo_gic :: gicv2_data where
  "demo_gic = \<lparr>gd_dist = \<lparr>reg_size = 0x10000, reg_address = 0xffffffff90000000\<rparr>,
     gd_cpu = \<lparr>reg_size = 0x10000, reg_address = 0xffffffff90010000\<rparr>, gd_interrupts_count = 96\<rparr>"

text \<open>
  C18.  Probing the distributor leaves it forwarding, with every shared peripheral interrupt (from 32 up
  to the number the chip reports) disabled, level triggered, in group 0, of highest priority and
  targeting exactly the first \<open>min cpu_count 8\<close> cpus; the configuration of every other interrupt is
  untouched.  The driver never leaves the register block of 4 KiB the architecture gives it.
\<close>

theorem gic_probe_configures:
  assumes "dist_block r"
  shows "\<exists>b' d'. armgicv2_probe_dist hw cpu_count r b = Inr (b @ b') \<and> dist_view (reg_address r) b' d = d' \<and> ds_forward d' \<and>
    (\<forall>i. if 32 \<le> i \<and> i < 32 * (typer_lines hw r b + 1)
       then \<not> ds_enabled d' i \<and> ds_config d' i = 0 \<and> ds_group d' i = 0 \<and> ds_priority d' i = 0 \<and>
         (\<forall>j. bit (ds_targets d' i) j \<longleftrightarrow> j < 8 \<and> j < unat cpu_count)
       else ds_enabled d' i = ds_enabled d i \<and> ds_config d' i = ds_config d i \<and> ds_group d' i = ds_group d i \<and>
         ds_priority d' i = ds_priority d i \<and> ds_targets d' i = ds_targets d i)"
  using assms by (rule probe_dist_configures)

theorem gic_probe_configures_witness:
  "\<exists>b' d'. armgicv2_probe_dist (\<lambda>_ _ _. 2) 4 (gd_dist demo_gic) [] = Inr b' \<and>
    dist_view 0xffffffff90000000 b' \<lparr>ds_forward = False, ds_enabled = (\<lambda>_. True), ds_group = (\<lambda>_. 1),
      ds_priority = (\<lambda>_. 7), ds_targets = (\<lambda>_. 0), ds_config = (\<lambda>_. 2)\<rparr> = d' \<and>
    \<not> ds_enabled d' 95 \<and> bit (ds_targets d' 95) 3 \<and> \<not> bit (ds_targets d' 95) 4 \<and> ds_enabled d' 96"
proof -
  have t: "typer_lines (\<lambda>_ _ _. 2) (gd_dist demo_gic) [] = 2" by (simp add: typer_lines_def)
  have r: "dist_block (gd_dist demo_gic)" by (simp add: dist_block_def demo_gic_def)
  obtain b' d' where *: "armgicv2_probe_dist (\<lambda>_ _ _. 2) 4 (gd_dist demo_gic) [] = Inr ([] @ b')"
    "dist_view (reg_address (gd_dist demo_gic)) b' \<lparr>ds_forward = False, ds_enabled = (\<lambda>_. True), ds_group = (\<lambda>_. 1),
      ds_priority = (\<lambda>_. 7), ds_targets = (\<lambda>_. 0), ds_config = (\<lambda>_. 2)\<rparr> = d'"
    "\<not> ds_enabled d' 95 \<and> bit (ds_targets d' 95) 3 \<and> \<not> bit (ds_targets d' 95) 4 \<and> ds_enabled d' 96"
    using gic_probe_configures [OF r, of "\<lambda>_ _ _. 2" 4 "[]" "\<lparr>ds_forward = False, ds_enabled = (\<lambda>_. True), ds_group = (\<lambda>_. 1),
      ds_priority = (\<lambda>_. 7), ds_targets = (\<lambda>_. 0), ds_config = (\<lambda>_. 2)\<rparr>"]
    unfolding t by (auto dest: spec [of _ 95] spec [of _ 96])
  then show ?thesis by (intro exI [of _ b'] exI [of _ d']) (simp add: demo_gic_def)
qed

text \<open>
  Enabling any set of interrupts of the chip one after the other enables exactly those, and
  enabling and then disabling an interrupt that was off leaves the distributor as it was.
\<close>

lemma gic_enable_exact:
  assumes "dist_block (gd_dist data)" and "\<forall>irq \<in> set irqs. unat irq < 1024" and "unat irq < 1024"
  shows "(\<exists>b'. forE irqs (arm_gic_irq_enable data) b = Inr b' \<and>
      (\<forall>i. ds_enabled (dist_view (reg_address (gd_dist data)) b' d) i \<longleftrightarrow>
         ds_enabled (dist_view (reg_address (gd_dist data)) b d) i \<or> i \<in> unat ` set irqs)) \<and>
    (\<not> ds_enabled (dist_view (reg_address (gd_dist data)) b d) (unat irq) \<longrightarrow>
      (\<exists>b'. bindE (arm_gic_irq_enable data irq b) (arm_gic_irq_disable data irq) = Inr b' \<and>
        ds_enabled (dist_view (reg_address (gd_dist data)) b' d) = ds_enabled (dist_view (reg_address (gd_dist data)) b d)))"
  using gicv2.enable_all [OF assms(1,2), where s = b and d = d] gicv2.enable_disable [OF assms(1,3), where s = b and d = d]
  by (intro conjI impI) auto

end
