(* ===== verification/Device_Model.thy ===== *)
theory Device_Model
  imports Task_Manager Console Fdt Gic
begin

text \<open>
  The objects of the driver layer, \<open>drivers/include/common/manager.h\<close>, and the state of a machine with
  devices: the state of the kernel proper, extended by the device objects, the driver data, the interrupt
  controller, the timer, the console and the registers.

  Function pointers are values of small datatypes, one constructor per function the sources assign.  The
  objects live in blocks of the kernel heap; what the heap left in a block is read from memory when the
  object is made.
\<close>

section \<open>Devices and drivers\<close>

datatype device_class =
  DEVICE_UNKNOWN | DEVICE_FRAMEBUFFER | DEVICE_UART | DEVICE_IRQCHIP | DEVICE_TIMER | DEVICE_SEMIHOSTING

datatype device_state = DEVICE_DISCOVERED | DEVICE_READY | DEVICE_FAILED

text \<open>The union of operation tables: the table it points to, or whatever else its bytes are.\<close>

datatype device_ops = Pl011_ops | Gic_ops | Armv8_timer_ops | Ops_at ptr

datatype probe_fn = Pl011_probe | Armgicv2_probe | Armv8_timer_probe
datatype remove_fn = Pl011_remove | Armgicv2_remove | Armv8_timer_remove

record driver =
  dr_name :: string
  dr_compatible :: "string list"
  dr_probe :: probe_fn
  dr_remove :: remove_fn
  dr_device_class :: device_class

record device =
  dv_name :: string
  dv_driver :: driver
  dv_state :: device_state
  dv_ops :: device_ops
  dv_driver_data :: ptr
  dv_fdt_node_offset :: int
  dv_next :: ptr

text \<open>The layout of \<open>Device\<close> under LP64: the union stands at 24, the driver data at 32.\<close>

definition sizeof_device :: usize where "sizeof_device = 56"

definition pl011_driver :: driver where
  "pl011_driver = \<lparr>dr_name = ''pl011'', dr_compatible = [''arm,pl011''], dr_probe = Pl011_probe,
     dr_remove = Pl011_remove, dr_device_class = DEVICE_UART\<rparr>"

definition armgicv2_driver :: driver where
  "armgicv2_driver = \<lparr>dr_name = ''arm-gicv2'', dr_compatible = [''arm,gic-200'', ''arm,cortex-a15-gic''],
     dr_probe = Armgicv2_probe, dr_remove = Armgicv2_remove, dr_device_class = DEVICE_IRQCHIP\<rparr>"

definition armv8_timer_driver :: driver where
  "armv8_timer_driver = \<lparr>dr_name = ''armv8-timer'', dr_compatible = [''arm,armv8-timer'', ''arm,armv7-timer''],
     dr_probe = Armv8_timer_probe, dr_remove = Armv8_timer_remove, dr_device_class = DEVICE_TIMER\<rparr>"

record pl011_data =
  pd_base_addr :: register
  pd_irq :: u32

datatype irq_handler = Timer_tick | Recieve_irq_handler

record irq_desc =
  id_handler :: "irq_handler option"
  id_data :: ptr

record irq_controller =
  ic_lock :: spinlock
  ic_irq_table :: "irq_desc list"
  ic_device :: ptr
  ic_interrupts_count :: usize

record timer =
  tm_device :: ptr
  tm_frequency :: usize

record driver_manager =
  dm_device_list :: ptr
  dm_lock :: spinlock

section \<open>The machine\<close>

text \<open>
  The timer registers of the executing cpu are part of the state; \<open>CNTFRQ_EL0\<close> and \<open>CNTPCT_EL0\<close> are only
  read.
\<close>

record machine = ksys +
  mc_bus :: bus
  mc_fdt :: fdt
  mc_devices :: "ptr \<rightharpoonup> device"
  mc_gic_data :: "ptr \<rightharpoonup> gicv2_data"
  mc_pl011_data :: "ptr \<rightharpoonup> pl011_data"
  mc_dmanager :: driver_manager
  mc_irq :: irq_controller
  mc_timer :: timer
  mc_console :: console
  mc_backends :: "ptr \<rightharpoonup> console_backend"
  mc_out :: "(ptr \<times> device_call) list"
  cntfrq_el0 :: u64
  cntpct_el0 :: u64
  cntp_ctl_el0 :: u64
  cntp_tval_el0 :: u64
  cntp_cval_el0 :: u64

text \<open>What the kernel runs on: the hardware, the memory map and the device tree library.\<close>

record platform =
  pf_hw :: hardware
  pf_limine :: limine
  pf_tree :: libfdt

definition dev_at :: "ptr \<Rightarrow> machine \<Rightarrow> kerror + device" where
  "dev_at p s = (case mc_devices s p of None \<Rightarrow> Inl (Fault p) | Some d \<Rightarrow> Inr d)"

definition update_dev :: "ptr \<Rightarrow> (device \<Rightarrow> device) \<Rightarrow> machine \<Rightarrow> kerror + machine" where
  "update_dev p f s = bindE (dev_at p s) (\<lambda>d. Inr (s\<lparr>mc_devices := (mc_devices s)(p \<mapsto> f d)\<rparr>))"

definition gic_data_at :: "ptr \<Rightarrow> machine \<Rightarrow> kerror + gicv2_data" where
  "gic_data_at p s = (case mc_gic_data s p of None \<Rightarrow> Inl (Fault p) | Some d \<Rightarrow> Inr d)"

definition pl011_data_at :: "ptr \<Rightarrow> machine \<Rightarrow> kerror + pl011_data" where
  "pl011_data_at p s = (case mc_pl011_data s p of None \<Rightarrow> Inl (Fault p) | Some d \<Rightarrow> Inr d)"

text \<open>Running code on the bus, in the memory manager and in the console.\<close>

definition on_bus :: "(bus \<Rightarrow> kerror + bus) \<Rightarrow> machine \<Rightarrow> kerror + machine" where
  "on_bus f s = bindE (f (mc_bus s)) (\<lambda>b. Inr (s\<lparr>mc_bus := b\<rparr>))"

definition from_bus :: "(bus \<Rightarrow> kerror + 'a \<times> bus) \<Rightarrow> machine \<Rightarrow> kerror + 'a \<times> machine" where
  "from_bus f s = bindE (f (mc_bus s)) (\<lambda>(a, b). Inr (a, s\<lparr>mc_bus := b\<rparr>))"

definition sys_mmio_map :: "limine \<Rightarrow> usize \<Rightarrow> usize \<Rightarrow> machine \<Rightarrow> kerror + ptr \<times> machine" where
  "sys_mmio_map li pa sz s =
     bindE (vm_mmio_map li pa sz (set_core (ts_core s) (sys_vm s))) (\<lambda>(p, v).
     Inr (p, s\<lparr>ts_core := vm_core v, sys_vm := v\<rparr>))"

definition sys_mmio_unmap :: "limine \<Rightarrow> ptr \<Rightarrow> usize \<Rightarrow> machine \<Rightarrow> kerror + machine" where
  "sys_mmio_unmap li addr sz s =
     bindE (vm_mmio_unmap li addr sz (set_core (ts_core s) (sys_vm s))) (\<lambda>v.
     Inr (s\<lparr>ts_core := vm_core v, sys_vm := v\<rparr>))"

definition console_view :: "machine \<Rightarrow> console_sys" where
  "console_view s = \<lparr>cs_core = ts_core s, cs_mem = vm_mem (sys_vm s), cs_nodes = mc_backends s,
     cs_out = mc_out s, cs_console = mc_console s\<rparr>"

definition console_put :: "console_sys \<Rightarrow> machine \<Rightarrow> machine" where
  "console_put c s = s\<lparr>ts_core := cs_core c, sys_vm := set_mem (cs_mem c) (sys_vm s), mc_backends := cs_nodes c,
     mc_out := cs_out c, mc_console := cs_console c\<rparr>"

definition on_console :: "(console_sys \<Rightarrow> kerror + 'a \<times> console_sys) \<Rightarrow> machine \<Rightarrow> kerror + 'a \<times> machine" where
  "on_console f s = bindE (f (console_view s)) (\<lambda>(a, c). Inr (a, console_put c s))"

text \<open>\<open>irq_chip_ops\<close> of the device: the driver data of the interrupt controller behind it.\<close>

definition chip_data :: "ptr \<Rightarrow> machine \<Rightarrow> kerror + gicv2_data" where
  "chip_data device s =
     bindE (dev_at device s) (\<lambda>d.
     case dv_ops d of Gic_ops \<Rightarrow> gic_data_at (dv_driver_data d) s | Ops_at p \<Rightarrow> Inl (Fault p) | _ \<Rightarrow> Inl (Fault device))"

definition timer_of :: "ptr \<Rightarrow> machine \<Rightarrow> kerror + device" where
  "timer_of device s =
     bindE (dev_at device s) (\<lambda>d.
     case dv_ops d of Armv8_timer_ops \<Rightarrow> Inr d | Ops_at p \<Rightarrow> Inl (Fault p) | _ \<Rightarrow> Inl (Fault device))"

section \<open>A concrete machine\<close>

text \<open>
  After the devices are up: an interrupt controller, a serial line and a timer, listed in this order
  of the device list.  The heap and the memory manager are left open.
\<close>

definition demo_device :: "driver \<Rightarrow> device_ops \<Rightarrow> ptr \<Rightarrow> ptr \<Rightarrow> device" where
  "demo_device dr ops data next = \<lparr>dv_name = dr_name dr, dv_driver = dr, dv_state = DEVICE_READY, dv_ops = ops,
     dv_driver_data = data, dv_fdt_node_offset = 8, dv_next = next\<rparr>"

definition demo_machine :: "kheap \<Rightarrow> vmm \<Rightarrow> machine" where
  "demo_machine kh v = \<lparr>ts_tasks = Map.empty, ts_nodes = Map.empty,
     ts_core = \<lparr>this_cpu = 0x10000, daif = 0, irq_disable_depth = 0, irq_was_enabled = False\<rparr>,
     CPUS = 0x10000, sc_cpus = [0x10000 \<mapsto> offline_cpu], sc_waits = Map.empty, sc_regs = zero_context,
     sys_heap = kh, sys_vm = v, sys_tm = task_manager_init,
     mc_bus = [], mc_fdt = \<lparr>fdt_fdt = 0, fdt_cpu_count = 4\<rparr>,
     mc_devices = [0x6000 \<mapsto> demo_device armgicv2_driver Gic_ops 0x7000 0x6100,
       0x6100 \<mapsto> demo_device pl011_driver Pl011_ops 0x7100 0x6200,
       0x6200 \<mapsto> demo_device armv8_timer_driver Armv8_timer_ops 0 0],
     mc_gic_data = [0x7000 \<mapsto> demo_gic],
     mc_pl011_data = [0x7100 \<mapsto> \<lparr>pd_base_addr = \<lparr>reg_size = 0x1000, reg_address = 0xffffffff90020000\<rparr>, pd_irq = 33\<rparr>],
     mc_dmanager = \<lparr>dm_device_list = 0x6000, dm_lock = spinlock_init ''driver manager''\<rparr>,
     mc_irq = \<lparr>ic_lock = spinlock_init ''irq controller'', ic_irq_table = replicate 1024 \<lparr>id_handler = None, id_data = 0\<rparr>,
       ic_device = 0x6000, ic_interrupts_count = 1024\<rparr>,
     mc_timer = \<lparr>tm_device = 0x6200, tm_frequency = 62500000\<rparr>,
     mc_console = cs_console (demo_con (\<lambda>_. 0)), mc_backends = Map.empty, mc_out = [],
     cntfrq_el0 = 62500000, cntpct_el0 = 0, cntp_ctl_el0 = 0, cntp_tval_el0 = 0, cntp_cval_el0 = 0\<rparr>"

end
