(* ===== verification/Irq_Controller.thy ===== *)
theory Irq_Controller
  imports Device_Model
begin

text \<open>
  The interrupt dispatch of \<open>kernel/irq/irq_controller.c\<close>: the table of handlers and the dispatcher that
  the exception vector calls.  The masking functions of that file are modelled with the spinlock.
\<close>

section \<open>Operations\<close>

definition MAX_IRQ :: nat where "MAX_IRQ = 1024"

text \<open>An entry outside the table is a wild access, reported by its offset.\<close>

definition irq_set_handler :: "u32 \<Rightarrow> irq_handler \<Rightarrow> ptr \<Rightarrow> machine \<Rightarrow> kerror + machine" where
  "irq_set_handler irq handler data s =
     (let ic = mc_irq s in
      if unat irq < length (ic_irq_table ic)
      then Inr (s\<lparr>mc_irq := ic\<lparr>ic_irq_table := (ic_irq_table ic)[unat irq := \<lparr>id_handler = Some handler, id_data = data\<rparr>]\<rparr>\<rparr>)
      else Inl (Fault (16 * ucast irq)))"

definition irq_enable_irq :: "u32 \<Rightarrow> machine \<Rightarrow> kerror + machine" where
  "irq_enable_irq irq s = bindE (chip_data (ic_device (mc_irq s)) s) (\<lambda>data. on_bus (arm_gic_irq_enable data irq) s)"

definition irq_enable_cpu :: "hardware \<Rightarrow> machine \<Rightarrow> kerror + machine" where
  "irq_enable_cpu hw s = bindE (chip_data (ic_device (mc_irq s)) s) (\<lambda>data. on_bus (cpu_init hw data) s)"

definition with_irq_lock :: "(machine \<Rightarrow> kerror + machine) \<Rightarrow> machine \<Rightarrow> kerror + machine" where
  "with_irq_lock body s =
     bindE (spinlock_scoped (ts_core s) (ic_lock (mc_irq s))
       (\<lambda>c. bindE (body (s\<lparr>ts_core := c\<rparr>)) (\<lambda>s. Inr (s, ts_core s)))) (\<lambda>(s, c, l).
     Inr (s\<lparr>ts_core := c, mc_irq := (mc_irq s)\<lparr>ic_lock := l\<rparr>\<rparr>))"

definition request_irq :: "u32 \<Rightarrow> irq_handler \<Rightarrow> ptr \<Rightarrow> machine \<Rightarrow> kerror + 64 word \<times> machine" where
  "request_irq irq handler data s =
     bindE (with_irq_lock (irq_set_handler irq handler data) s) (\<lambda>s.
     bindE (irq_enable_irq irq s) (\<lambda>s. Inr (errnum EOK, s)))"

definition clear_handler :: "u32 \<Rightarrow> machine \<Rightarrow> kerror + machine" where
  "clear_handler irq s =
     (let ic = mc_irq s in
      if unat irq < length (ic_irq_table ic)
      then Inr (s\<lparr>mc_irq := ic\<lparr>ic_irq_table := (ic_irq_table ic)[unat irq := (ic_irq_table ic ! unat irq)\<lparr>id_handler := None\<rparr>]\<rparr>\<rparr>)
      else Inl (Fault (16 * ucast irq)))"

definition reject_irq :: "u32 \<Rightarrow> machine \<Rightarrow> kerror + 64 word \<times> machine" where
  "reject_irq irq s = bindE (with_irq_lock (clear_handler irq) s) (\<lambda>s. Inr (errnum EOK, s))"

text \<open>\<open>run\<close> is the call of a handler.\<close>

definition irq_dispatcher ::
  "hardware \<Rightarrow> (irq_handler \<Rightarrow> ptr \<Rightarrow> machine \<Rightarrow> kerror + machine) \<Rightarrow> machine \<Rightarrow> kerror + machine" where
  "irq_dispatcher hw run s =
     bindE (chip_data (ic_device (mc_irq s)) s) (\<lambda>data.
     bindE (from_bus (arm_gic_irq_get_active hw data) s) (\<lambda>(active, s).
     if unat active > MAX_IRQ \<or> ucast active > ic_interrupts_count (mc_irq s) then Inr s
     else
       let table = ic_irq_table (mc_irq s) in
       if unat active < length table then
         bindE (case id_handler (table ! unat active) of
                  None \<Rightarrow> Inr s
                | Some handler \<Rightarrow> run handler (id_data (table ! unat active)) s) (\<lambda>s.
         bindE (chip_data (ic_device (mc_irq s)) s) (\<lambda>data.
         on_bus (arm_gic_irq_eoi data active) s))
       else Inl (Fault (16 * ucast active))))"

section \<open>The state the dispatch relies on\<close>

definition chip_ready :: "machine \<Rightarrow> gicv2_data \<Rightarrow> bool" where
  "chip_ready s data \<longleftrightarrow> chip_data (ic_device (mc_irq s)) s = Inr data \<and> dist_block (gd_dist data) \<and>
     cpu_block (gd_dist data) (gd_cpu data) \<and> length (ic_irq_table (mc_irq s)) = MAX_IRQ"

lemma at_frame [simp]:
  "dev_at p (s\<lparr>mc_bus := b\<rparr>) = dev_at p s" "gic_data_at p (s\<lparr>mc_bus := b\<rparr>) = gic_data_at p s"
  "dev_at p (s\<lparr>mc_irq := ic\<rparr>) = dev_at p s" "gic_data_at p (s\<lparr>mc_irq := ic\<rparr>) = gic_data_at p s"
  "dev_at p (s\<lparr>ts_core := c\<rparr>) = dev_at p s" "gic_data_at p (s\<lparr>ts_core := c\<rparr>) = gic_data_at p s"
  by (simp_all add: dev_at_def gic_data_at_def)

lemma chip_data_frame [simp]:
  "chip_data p (s\<lparr>mc_bus := b\<rparr>) = chip_data p s"
  "chip_data p (s\<lparr>mc_irq := ic\<rparr>) = chip_data p s"
  "chip_data p (s\<lparr>ts_core := c\<rparr>) = chip_data p s"
  by (simp_all add: chip_data_def cong: device_ops.case_cong)

lemma chip_ready_frame [simp]:
  "chip_ready (s\<lparr>mc_bus := b\<rparr>) data = chip_ready s data"
  "chip_ready (s\<lparr>ts_core := c\<rparr>) data = chip_ready s data"
  by (simp_all add: chip_ready_def)

lemma with_irq_lock_returns:
  assumes "core_ok (Suc k) (ts_core s)" and "lock_free (ic_lock (mc_irq s))"
    and "body (s\<lparr>ts_core := irq_push_intr (ts_core s)\<rparr>) = Inr s'"
    and "ts_core s' = irq_push_intr (ts_core s)" and "ic_lock (mc_irq s') = ic_lock (mc_irq s)"
  shows "\<exists>c'. with_irq_lock body s = Inr (s'\<lparr>ts_core := c'\<rparr>) \<and> irq_view c' = irq_view (ts_core s)"
proof -
  let ?b = "\<lambda>c. bindE (body (s\<lparr>ts_core := c\<rparr>)) (\<lambda>s. Inr (s, ts_core s))"
  have "?b (irq_push_intr (ts_core s)) = Inr (s', irq_push_intr (ts_core s))" using assms(3,4) by simp
  from scoped_returns [OF assms(1,2), where body = ?b, OF this refl] obtain c' where
    "spinlock_scoped (ts_core s) (ic_lock (mc_irq s)) ?b = Inr (s', c', ic_lock (mc_irq s))"
    "irq_view c' = irq_view (ts_core s)" by blast
  moreover have "(mc_irq s')\<lparr>ic_lock := ic_lock (mc_irq s)\<rparr> = mc_irq s'" using assms(5) by (cases "mc_irq s'") simp
  ultimately show ?thesis by (intro exI [of _ c']) (simp add: with_irq_lock_def)
qed

section \<open>Dispatch\<close>

definition active_irq :: "hardware \<Rightarrow> gicv2_data \<Rightarrow> machine \<Rightarrow> u32" where
  "active_irq hw data s = ucast (hw (mc_bus s) 4 (reg_address (gd_cpu data) + GICC_IAR))"

text \<open>The state after the dispatcher asked the chip which interrupt is active, and after it signalled the end.\<close>

definition acknowledged :: "gicv2_data \<Rightarrow> u32 \<Rightarrow> machine \<Rightarrow> machine" where
  "acknowledged data irq s = s\<lparr>mc_bus := mc_bus s @ [Rd 4 (reg_address (gd_cpu data) + GICC_IAR) (ucast irq)]\<rparr>"

definition signalled :: "gicv2_data \<Rightarrow> u32 \<Rightarrow> machine \<Rightarrow> machine" where
  "signalled data irq s = s\<lparr>mc_bus := mc_bus s @ [Wr 4 (reg_address (gd_cpu data) + GICC_EOIR) (ucast irq)]\<rparr>"

lemma chip_offsets:
  assumes "chip_ready s data"
  shows "GICC_IAR < reg_size (gd_cpu data)" and "GICC_EOIR < reg_size (gd_cpu data)"
  using assms cpu_block_view(2) [of "gd_dist data" "gd_cpu data"]
  by (simp_all add: chip_ready_def gicc_offsets)

lemma get_active_run:
  assumes "chip_ready s data" and "active_irq hw data s = irq"
  shows "from_bus (arm_gic_irq_get_active hw data) s = Inr (irq, acknowledged data irq s)"
  using chip_offsets(1) [OF assms(1)] assms(2)
  by (simp add: from_bus_def arm_gic_irq_get_active_def acknowledged_def active_irq_def)

lemma eoi_run:
  assumes "chip_ready s data"
  shows "bindE (chip_data (ic_device (mc_irq s)) s) (\<lambda>data. on_bus (arm_gic_irq_eoi data irq) s) = Inr (signalled data irq s)"
  using chip_offsets(2) [OF assms] assms
  by (simp add: on_bus_def arm_gic_irq_eoi_def signalled_def chip_ready_def)

lemma dispatch_start:
  assumes "chip_ready s data" and "active_irq hw data s = irq"
  shows "irq_dispatcher hw run s =
     (let t = acknowledged data irq s; table = ic_irq_table (mc_irq s) in
      if unat irq > MAX_IRQ \<or> ucast irq > ic_interrupts_count (mc_irq s) then Inr t
      else if unat irq < MAX_IRQ then
         bindE (case id_handler (table ! unat irq) of None \<Rightarrow> Inr t | Some handler \<Rightarrow> run handler (id_data (table ! unat irq)) t) (\<lambda>s.
         bindE (chip_data (ic_device (mc_irq s)) s) (\<lambda>data. on_bus (arm_gic_irq_eoi data irq) s))
      else Inl (Fault (16 * ucast irq)))"
proof -
  have "mc_irq (acknowledged data irq s) = mc_irq s" by (simp add: acknowledged_def)
  then show ?thesis
    using assms get_active_run [OF assms] by (simp add: irq_dispatcher_def chip_ready_def Let_def)
qed

lemma dispatch_registered:
  assumes r: "chip_ready s data" and a: "active_irq hw data s = irq"
    and i: "unat irq < MAX_IRQ" "ucast irq \<le> ic_interrupts_count (mc_irq s)"
    and h: "ic_irq_table (mc_irq s) ! unat irq = \<lparr>id_handler = Some h, id_data = p\<rparr>"
    and t: "run h p (acknowledged data irq s) = Inr t" "chip_ready t data"
  shows "irq_dispatcher hw run s = Inr (signalled data irq t)"
  unfolding dispatch_start [OF r a] using i h t eoi_run [OF t(2)] by (simp add: Let_def not_less)

lemma request_irq_run:
  assumes c: "core_ok (Suc k) (ts_core s)" "lock_free (ic_lock (mc_irq s))" and r: "chip_ready s data"
    and i: "unat irq < MAX_IRQ"
  shows "\<exists>s'. request_irq irq h p s = Inr (errnum EOK, s') \<and> chip_ready s' data \<and> irq_view (ts_core s') = irq_view (ts_core s) \<and>
    mc_irq s' = (mc_irq s)\<lparr>ic_irq_table := (ic_irq_table (mc_irq s))[unat irq := \<lparr>id_handler = Some h, id_data = p\<rparr>]\<rparr> \<and>
    ds_enabled (dist_view (reg_address (gd_dist data)) (mc_bus s') d) =
      (ds_enabled (dist_view (reg_address (gd_dist data)) (mc_bus s) d))(unat irq := True)"
proof -
  let ?t = "(ic_irq_table (mc_irq s))[unat irq := \<lparr>id_handler = Some h, id_data = p\<rparr>]"
  let ?s = "s\<lparr>ts_core := irq_push_intr (ts_core s), mc_irq := (mc_irq s)\<lparr>ic_irq_table := ?t\<rparr>\<rparr>"
  have "irq_set_handler irq h p (s\<lparr>ts_core := irq_push_intr (ts_core s)\<rparr>) = Inr ?s"
    using r i by (simp add: irq_set_handler_def Let_def chip_ready_def)
  from with_irq_lock_returns [where body = "irq_set_handler irq h p", OF c this] obtain c' where
    c': "with_irq_lock (irq_set_handler irq h p) s = Inr (?s\<lparr>ts_core := c'\<rparr>)" "irq_view c' = irq_view (ts_core s)" by auto
  let ?s1 = "?s\<lparr>ts_core := c'\<rparr>"
  have r1: "chip_ready ?s1 data" using r by (simp add: chip_ready_def)
  obtain b where b: "arm_gic_irq_enable data irq (mc_bus s) = Inr b"
    "ds_enabled (dist_view (reg_address (gd_dist data)) b d) = (ds_enabled (dist_view (reg_address (gd_dist data)) (mc_bus s) d))(unat irq := True)"
    using gicv2.enable_one [of data irq "mc_bus s"] r i by (auto simp: chip_ready_def MAX_IRQ_def)
  have "irq_enable_irq irq ?s1 = Inr (?s1\<lparr>mc_bus := b\<rparr>)"
    using r1 b(1) by (simp add: irq_enable_irq_def chip_ready_def on_bus_def)
  then show ?thesis
    using c' r1 b(2) by (intro exI [of _ "?s1\<lparr>mc_bus := b\<rparr>"]) (simp add: request_irq_def)
qed

section \<open>Claims\<close>

lemma demo_chip: "chip_ready (demo_machine kh v) demo_gic"
proof -
  have "0x1000 \<le> unat (0x10000 + off :: usize)" if "off < 0x1000" for off
  proof -
    have "unat off < 0x1000" using that by (simp add: word_less_nat_alt)
    then have "unat (0x10000 + off) = 0x10000 + unat off" by (simp add: unat_add_u64)
    then show ?thesis by simp
  qed
  moreover have "0xffffffff90010000 + off - 0xffffffff90000000 = 0x10000 + off" for off :: usize by (simp add: algebra_simps)
  ultimately show ?thesis
    by (simp add: chip_ready_def chip_data_def dev_at_def gic_data_at_def demo_machine_def demo_device_def MAX_IRQ_def
        cpu_block_def dist_block_def demo_gic_def)
qed

lemma demo_machine_ok: "core_ok (Suc 0) (ts_core (demo_machine kh v))" "lock_free (ic_lock (mc_irq (demo_machine kh v)))"
  by (simp_all add: demo_machine_def core_ok_def)

text \<open>
  C15.  A requested interrupt reaches its handler.  After \<open>request_irq\<close> the interrupt is enabled in the
  distributor, every other interrupt keeps its setting and its handler, and whenever the chip reports the
  interrupt as active, the dispatcher calls the handler once, with the data it was registered with, and
  then signals the end of exactly this interrupt.
\<close>

theorem requested_irq_is_dispatched:
  assumes "core_ok (Suc k) (ts_core s)" and "lock_free (ic_lock (mc_irq s))" and "chip_ready s data"
    and "unat irq < MAX_IRQ" and "ucast irq \<le> ic_interrupts_count (mc_irq s)"
  shows "\<exists>s1. request_irq irq h p s = Inr (errnum EOK, s1) \<and> chip_ready s1 data \<and> irq_view (ts_core s1) = irq_view (ts_core s) \<and>
    ds_enabled (dist_view (reg_address (gd_dist data)) (mc_bus s1) d) =
      (ds_enabled (dist_view (reg_address (gd_dist data)) (mc_bus s) d))(unat irq := True) \<and>
    (\<forall>j. j \<noteq> unat irq \<longrightarrow> ic_irq_table (mc_irq s1) ! j = ic_irq_table (mc_irq s) ! j) \<and>
    (\<forall>hw run s2. active_irq hw data s1 = irq \<longrightarrow> run h p (acknowledged data irq s1) = Inr s2 \<longrightarrow> chip_ready s2 data \<longrightarrow>
      irq_dispatcher hw run s1 = Inr (signalled data irq s2))"
proof -
  obtain s1 where s1: "request_irq irq h p s = Inr (errnum EOK, s1)" "chip_ready s1 data" "irq_view (ts_core s1) = irq_view (ts_core s)"
    "mc_irq s1 = (mc_irq s)\<lparr>ic_irq_table := (ic_irq_table (mc_irq s))[unat irq := \<lparr>id_handler = Some h, id_data = p\<rparr>]\<rparr>"
    "ds_enabled (dist_view (reg_address (gd_dist data)) (mc_bus s1) d) =
      (ds_enabled (dist_view (reg_address (gd_dist data)) (mc_bus s) d))(unat irq := True)"
    using request_irq_run [OF assms(1-4)] by blast
  have "length (ic_irq_table (mc_irq s)) = MAX_IRQ" using assms(3) by (simp add: chip_ready_def)
  then have "ic_irq_table (mc_irq s1) ! unat irq = \<lparr>id_handler = Some h, id_data = p\<rparr>"
    "ucast irq \<le> ic_interrupts_count (mc_irq s1)" using s1(4) assms(4,5) by simp_all
  then have "irq_dispatcher hw run s1 = Inr (signalled data irq s2)"
    if "active_irq hw data s1 = irq" "run h p (acknowledged data irq s1) = Inr s2" "chip_ready s2 data" for hw run s2
    using dispatch_registered [where run = run, OF s1(2) that(1) assms(4)] that(2,3) by blast
  with s1 show ?thesis by auto
qed

theorem requested_irq_is_dispatched_witness:
  "\<forall>kh v. \<exists>s1. request_irq 33 Recieve_irq_handler 0x6100 (demo_machine kh v) = Inr (errnum EOK, s1) \<and>
    irq_dispatcher (\<lambda>_ _ _. 33) (\<lambda>h p s. Inr (s\<lparr>mc_out := [(p, Dev_flush)]\<rparr>)) s1 =
      Inr (signalled demo_gic 33 ((acknowledged demo_gic 33 s1)\<lparr>mc_out := [(0x6100, Dev_flush)]\<rparr>))"
proof (intro allI)
  fix kh v
  have i: "unat (33 :: u32) < MAX_IRQ" "ucast (33 :: u32) \<le> ic_interrupts_count (mc_irq (demo_machine kh v))"
    by (simp_all add: MAX_IRQ_def demo_machine_def)
  obtain s1 where s1: "request_irq 33 Recieve_irq_handler 0x6100 (demo_machine kh v) = Inr (errnum EOK, s1)" "chip_ready s1 demo_gic"
    "\<forall>hw run s2. active_irq hw demo_gic s1 = 33 \<longrightarrow> run Recieve_irq_handler 0x6100 (acknowledged demo_gic 33 s1) = Inr s2 \<longrightarrow>
      chip_ready s2 demo_gic \<longrightarrow> irq_dispatcher hw run s1 = Inr (signalled demo_gic 33 s2)"
    using requested_irq_is_dispatched [OF demo_machine_ok demo_chip i, of Recieve_irq_handler "0x6100" undefined] by blast
  have "chip_ready ((acknowledged demo_gic 33 s1)\<lparr>mc_out := [(0x6100, Dev_flush)]\<rparr>) demo_gic"
    using s1(2) by (simp add: chip_ready_def chip_data_def dev_at_def gic_data_at_def acknowledged_def cong: device_ops.case_cong)
  then show "\<exists>s1. request_irq 33 Recieve_irq_handler 0x6100 (demo_machine kh v) = Inr (errnum EOK, s1) \<and>
    irq_dispatcher (\<lambda>_ _ _. 33) (\<lambda>h p s. Inr (s\<lparr>mc_out := [(p, Dev_flush)]\<rparr>)) s1 =
      Inr (signalled demo_gic 33 ((acknowledged demo_gic 33 s1)\<lparr>mc_out := [(0x6100, Dev_flush)]\<rparr>))"
    using s1(1) s1(3) [rule_format, of "\<lambda>_ _ _. 33"] by (simp add: active_irq_def)
qed

text \<open>
  The bounds of the dispatcher.  An interrupt number above the table or above what the chip supports is
  dropped without signalling its end.  The number 1024, which the guard lets through on a chip with 1024
  interrupts, indexes one entry behind the table; the chip reports it for the software generated interrupt 0
  of the second cpu, since the register holds the number of that cpu above the ten bits of the interrupt.
\<close>

lemma irq_dispatcher_bounds:
  assumes "chip_ready s data" and "active_irq hw data s = irq"
  shows "irq_dispatcher hw run s =
    (if unat irq > 1024 \<or> ucast irq > ic_interrupts_count (mc_irq s) then Inr (acknowledged data irq s)
     else if irq = 1024 then Inl (Fault 0x4000)
     else bindE (case id_handler (ic_irq_table (mc_irq s) ! unat irq) of None \<Rightarrow> Inr (acknowledged data irq s)
                 | Some handler \<Rightarrow> run handler (id_data (ic_irq_table (mc_irq s) ! unat irq)) (acknowledged data irq s)) (\<lambda>s.
       bindE (chip_data (ic_device (mc_irq s)) s) (\<lambda>data. on_bus (arm_gic_irq_eoi data irq) s)))"
proof -
  have "unat irq < MAX_IRQ" if "\<not> unat irq > MAX_IRQ" "irq \<noteq> 1024"
    using that by (simp add: MAX_IRQ_def word_unat_eq_iff)
  then show ?thesis
    unfolding dispatch_start [OF assms] by (auto simp: MAX_IRQ_def Let_def)
qed

end
