(* ===== verification/Pl011.thy ===== *)
theory Pl011
  imports Irq_Controller
begin

text \<open>
  The serial line driver \<open>drivers/uart/pl011.c\<close>.

  The loops that wait for the device have no bound in the source; they end when the device lowers its flag,
  which is a hypothesis on the hardware (\<open>settles\<close>).  The lemmas say which bytes reach the line, that no
  byte is written while the transmitter is busy, and with which values the device is programmed.
\<close>

section \<open>Registers and loops\<close>

definition BAUD_RATE :: usize where "BAUD_RATE = 115200"
definition BASE_CLOCK :: usize where "BASE_CLOCK = 24000000"

definition UARTDR :: usize where "UARTDR = 0x000"
definition UARTFR :: usize where "UARTFR = 0x018"
definition UARTFR_BUSY :: usize where "UARTFR_BUSY = push_bit 3 1"
definition UARTFR_RXFE :: usize where "UARTFR_RXFE = push_bit 4 1"
definition UARTIBRD :: usize where "UARTIBRD = 0x024"
definition UARTFBRD :: usize where "UARTFBRD = 0x028"
definition UARTLCR_H :: usize where "UARTLCR_H = 0x02C"
definition UARTLCR_H_FEN :: usize where "UARTLCR_H_FEN = push_bit 4 1"
definition UARTCR :: usize where "UARTCR = 0x030"
definition UARTCR_UARTEN :: usize where "UARTCR_UARTEN = push_bit 0 1"
definition UARTCR_TEX :: usize where "UARTCR_TEX = push_bit 8 1"
definition UARTCR_REX :: usize where "UARTCR_REX = push_bit 9 1"
definition UARTIMSC :: usize where "UARTIMSC = 0x038"
definition UARTICR :: usize where "UARTICR = 0x044"
definition UARTDMACR :: usize where "UARTDMACR = 0x048"

lemmas uart_offsets = UARTDR_def UARTFR_def UARTIBRD_def UARTFBRD_def UARTLCR_H_def UARTCR_def UARTIMSC_def
  UARTICR_def UARTDMACR_def

text \<open>\<open>while ((reg_read32(reg, UARTFR) & flag) != 0);\<close>\<close>

partial_function (option) wait_flag :: "hardware \<Rightarrow> register \<Rightarrow> usize \<Rightarrow> bus \<Rightarrow> (kerror + bus) option" where
  "wait_flag hw reg flag b =
     (case reg_read32 hw reg UARTFR b of
        Inl e \<Rightarrow> Some (Inl e)
      | Inr (v, b) \<Rightarrow> if ucast v AND flag \<noteq> 0 then wait_flag hw reg flag b else Some (Inr b))"

definition wait_tx_complete :: "hardware \<Rightarrow> register \<Rightarrow> bus \<Rightarrow> kerror + bus" where
  "wait_tx_complete hw reg b = bindE (endsE (wait_flag hw reg UARTFR_BUSY b)) (\<lambda>r. r)"

definition wait_rx_ready :: "hardware \<Rightarrow> register \<Rightarrow> bus \<Rightarrow> kerror + bus" where
  "wait_rx_ready hw reg b = bindE (endsE (wait_flag hw reg UARTFR_RXFE b)) (\<lambda>r. r)"

text \<open>\<open>char\<close> is unsigned on AArch64, so a character is zero extended.\<close>

definition uart_putchar :: "hardware \<Rightarrow> register \<Rightarrow> u8 \<Rightarrow> bus \<Rightarrow> kerror + bus" where
  "uart_putchar hw reg c b = bindE (wait_tx_complete hw reg b) (reg_write32 reg UARTDR (ucast c))"

text \<open>The bytes of the message of the event.\<close>

definition pl011_write :: "hardware \<Rightarrow> register \<Rightarrow> u8 list \<Rightarrow> bus \<Rightarrow> kerror + bus" where
  "pl011_write hw reg msg = forE msg (uart_putchar hw reg)"

definition pl011_read :: "hardware \<Rightarrow> register \<Rightarrow> bus \<Rightarrow> kerror + u8 \<times> bus" where
  "pl011_read hw reg b = bindE (wait_rx_ready hw reg b) (reg_read8 hw reg UARTDR)"

definition pl011_flush :: "hardware \<Rightarrow> register \<Rightarrow> bus \<Rightarrow> kerror + bus" where
  "pl011_flush = wait_tx_complete"

definition calculate_divisor :: "u64 \<Rightarrow> u32 \<Rightarrow> kerror + u32 \<times> u32" where
  "calculate_divisor base_clock baud_rate =
     (if baud_rate = 0 then Inl DivByZero
      else let d = 4 * ucast base_clock div baud_rate in Inr (drop_bit 6 d AND 0xffff, d AND 0x3f))"

text \<open>The part of \<open>pl011_probe\<close> that programs the device: the set-up, and what comes before it.\<close>

definition pl011_setup :: "hardware \<Rightarrow> register \<Rightarrow> bus \<Rightarrow> kerror + bus" where
  "pl011_setup hw reg b =
     bindE (reg_read32 hw reg UARTLCR_H b) (\<lambda>(l, b).
     bindE (reg_write32 reg UARTLCR_H (ucast (ucast l OR UARTLCR_H_FEN)) b) (\<lambda>b.
     bindE (calculate_divisor BASE_CLOCK (ucast BAUD_RATE)) (\<lambda>(ibrd, fbrd).
     bindE (reg_write32 reg UARTIBRD ibrd b) (\<lambda>b.
     bindE (reg_write32 reg UARTFBRD fbrd b) (\<lambda>b.
     bindE (reg_write32 reg UARTICR 0x7ff b) (\<lambda>b.
     bindE (reg_write32 reg UARTIMSC (push_bit 4 1) b) (\<lambda>b.
     bindE (reg_write32 reg UARTDMACR 0 b) (\<lambda>b.
     bindE (reg_read32 hw reg UARTCR b) (\<lambda>(cr, b).
     reg_write32 reg UARTCR (ucast (ucast cr OR UARTCR_UARTEN OR UARTCR_TEX OR UARTCR_REX)) b)))))))))"

definition pl011_program :: "hardware \<Rightarrow> register \<Rightarrow> bus \<Rightarrow> kerror + bus" where
  "pl011_program hw reg b =
     bindE (reg_read32 hw reg UARTCR b) (\<lambda>(cr, b).
     bindE (reg_write32 reg UARTCR (cr AND ucast (NOT UARTCR_UARTEN)) b) (\<lambda>b.
     bindE (wait_tx_complete hw reg b) (pl011_setup hw reg)))"

section \<open>Probe, remove and the receive interrupt\<close>

definition sizeof_pl011_data :: usize where "sizeof_pl011_data = 24"

text \<open>
  The result of \<open>fdt_get_interrupt_cells\<close> is ignored: when it fails, \<open>cells[1]\<close> is what the stack held,
  the argument \<open>junk\<close>.
\<close>

definition pl011_probe :: "platform \<Rightarrow> fdt_interrupt \<Rightarrow> ptr \<Rightarrow> machine \<Rightarrow> kerror + 64 word \<times> machine" where
  "pl011_probe P junk device s =
     bindE (dev_at device s) (\<lambda>d.
     bindE (fdt_get_reg (pf_tree P) (dv_fdt_node_offset d) 1) (\<lambda>r.
     case r of None \<Rightarrow> Inr (- errnum ENODEV, s)
     | Some regs \<Rightarrow>
       let reg = regs ! 0 in
       bindE (sys_kalloc (pf_limine P) sizeof_pl011_data s) (\<lambda>(driver_data, s).
       if IS_ERR driver_data then Inr (- errnum ENOMEM, s)
       else
         bindE (sys_mmio_map (pf_limine P) (reg_address reg) (reg_size reg) s) (\<lambda>(address, s).
         let base_addr = \<lparr>reg_size = reg_size reg, reg_address = address\<rparr> in
         if IS_ERR address then bindE (sys_kfree driver_data s) (\<lambda>s. Inr (- errnum ENOMEM, s))
         else
           bindE (update_dev device (\<lambda>d. d\<lparr>dv_driver_data := driver_data\<rparr>) s) (\<lambda>s.
           bindE (on_bus (pl011_program (pf_hw P) base_addr) s) (\<lambda>s.
           bindE (fdt_get_interrupt_cells (pf_tree P) (dv_fdt_node_offset d) [junk]) (\<lambda>(_, fs).
           let irq = cells (fs ! 0) ! 1 + 32;
               s = s\<lparr>mc_pl011_data := (mc_pl011_data s)(driver_data \<mapsto> \<lparr>pd_base_addr = base_addr, pd_irq = irq\<rparr>)\<rparr> in
           bindE (request_irq irq Recieve_irq_handler device s) (\<lambda>(_, s).
           bindE (update_dev device (\<lambda>d. d\<lparr>dv_driver_data := driver_data, dv_ops := Pl011_ops, dv_name := ''uart''\<rparr>) s) (\<lambda>s.
           Inr (errnum EOK, s))))))))))"

definition pl011_remove :: "platform \<Rightarrow> ptr \<Rightarrow> machine \<Rightarrow> kerror + 64 word \<times> machine" where
  "pl011_remove P device s =
     bindE (dev_at device s) (\<lambda>d.
     bindE (pl011_data_at (dv_driver_data d) s) (\<lambda>data.
     bindE (on_bus (wait_tx_complete (pf_hw P) (pd_base_addr data)) s) (\<lambda>s.
     bindE (reject_irq (pd_irq data) s) (\<lambda>(_, s).
     bindE (sys_mmio_unmap (pf_limine P) (reg_address (pd_base_addr data)) PAGE_SIZE s) (\<lambda>s.
     bindE (sys_kfree (dv_driver_data d) s) (\<lambda>s.
     Inr (errnum EOK, s\<lparr>mc_pl011_data := (mc_pl011_data s)(dv_driver_data d := None)\<rparr>)))))))"

text \<open>\<open>c\<close> is the address of the parameter of \<open>console_receive_char\<close>.\<close>

definition recieve_irq_handler :: "hardware \<Rightarrow> ptr \<Rightarrow> ptr \<Rightarrow> machine \<Rightarrow> kerror + machine" where
  "recieve_irq_handler hw c device s =
     bindE (dev_at device s) (\<lambda>d.
     bindE (pl011_data_at (dv_driver_data d) s) (\<lambda>data.
     bindE (from_bus (reg_read8 hw (pd_base_addr data) UARTDR) s) (\<lambda>(read, s).
     bindE (on_console (console_receive_char c read) s) (\<lambda>(_, s).
     on_bus (reg_write8 (pd_base_addr data) UARTICR 0) s))))"

section \<open>Waiting\<close>

definition fr_answer :: "hardware \<Rightarrow> register \<Rightarrow> bus \<Rightarrow> u32" where
  "fr_answer hw reg b = ucast (hw b 4 (reg_address reg + UARTFR))"

definition poll :: "hardware \<Rightarrow> register \<Rightarrow> bus \<Rightarrow> bus" where
  "poll hw reg b = b @ [Rd 4 (reg_address reg + UARTFR) (ucast (fr_answer hw reg b))]"

text \<open>The device lowers the flag after finitely many polls.\<close>

definition settles :: "hardware \<Rightarrow> register \<Rightarrow> usize \<Rightarrow> bool" where
  "settles hw reg flag \<longleftrightarrow> (\<forall>b. \<exists>n. ucast (fr_answer hw reg ((poll hw reg ^^ n) b)) AND flag = 0)"

definition uart_block :: "register \<Rightarrow> bool" where
  "uart_block reg \<longleftrightarrow> reg_size reg \<ge> 0x1000"

lemma uart_in_block:
  assumes "uart_block reg" and "off < 0x1000"
  shows "off < reg_size reg"
  using assms unfolding uart_block_def by (rule order.strict_trans2 [rotated])

lemma fr_in_block: "uart_block reg \<Longrightarrow> UARTFR < reg_size reg"
  by (rule uart_in_block) (simp_all add: uart_offsets)

lemma wait_flag_step:
  assumes "uart_block reg"
  shows "wait_flag hw reg flag b =
    (if ucast (fr_answer hw reg b) AND flag \<noteq> 0 then wait_flag hw reg flag (poll hw reg b) else Some (Inr (poll hw reg b)))"
  using fr_in_block [OF assms] by (subst wait_flag.simps) (simp add: fr_answer_def poll_def)

lemma wait_flag_polls:
  assumes r: "uart_block reg" and "ucast (fr_answer hw reg ((poll hw reg ^^ n) b)) AND flag = 0"
  shows "\<exists>m. wait_flag hw reg flag b = Some (Inr (poll hw reg ((poll hw reg ^^ m) b))) \<and>
    ucast (fr_answer hw reg ((poll hw reg ^^ m) b)) AND flag = 0"
  using assms(2)
proof (induction n arbitrary: b)
  case 0
  then show ?case using wait_flag_step [OF r, of hw flag b] by (intro exI [of _ 0]) simp
next
  case (Suc n)
  show ?case
  proof (cases "ucast (fr_answer hw reg b) AND flag = 0")
    case True
    then show ?thesis using wait_flag_step [OF r, of hw flag b] by (intro exI [of _ 0]) simp
  next
    case False
    have "ucast (fr_answer hw reg ((poll hw reg ^^ n) (poll hw reg b))) AND flag = 0"
      using Suc.prems by (simp only: funpow_Suc_right comp_apply)
    from Suc.IH [OF this] obtain m where
      "wait_flag hw reg flag (poll hw reg b) = Some (Inr (poll hw reg ((poll hw reg ^^ m) (poll hw reg b))))"
      "ucast (fr_answer hw reg ((poll hw reg ^^ m) (poll hw reg b))) AND flag = 0" by blast
    then show ?thesis
      using False wait_flag_step [OF r, of hw flag b] by (intro exI [of _ "Suc m"]) (simp add: funpow_swap1)
  qed
qed

section \<open>The line\<close>

text \<open>
  The values written to the data register, and the rule for writing to it: the access before is a read of
  the flags that finds the transmitter idle.
\<close>

fun sent :: "ptr \<Rightarrow> bus \<Rightarrow> u64 list" where
  "sent base [] = []"
| "sent base (Rd n a v # b) = sent base b"
| "sent base (Wr n a v # b) = (if a = base + UARTDR then v # sent base b else sent base b)"

fun polite :: "ptr \<Rightarrow> bool \<Rightarrow> bus \<Rightarrow> bool" where
  "polite base idle [] \<longleftrightarrow> True"
| "polite base idle (Rd n a v # b) \<longleftrightarrow> polite base (a = base + UARTFR \<and> v AND UARTFR_BUSY = 0) b"
| "polite base idle (Wr n a v # b) \<longleftrightarrow> (a = base + UARTDR \<longrightarrow> idle) \<and> polite base False b"

lemma sent_append [simp]: "sent base (b @ b') = sent base b @ sent base b'"
  by (induction base b rule: sent.induct) simp_all

lemma polls_shape:
  "\<exists>rs. (poll hw reg ^^ m) b = b @ rs \<and> (\<forall>a \<in> set rs. \<exists>v. a = Rd 4 (reg_address reg + UARTFR) v)"
proof (induction m)
  case (Suc m)
  then show ?case by (auto simp: poll_def)
qed simp

lemma reads_polite:
  assumes "\<forall>a \<in> set rs. \<exists>v. a = Rd 4 (base + UARTFR) v"
  shows "sent base rs = []" and "polite base idle (rs @ Rd 4 (base + UARTFR) w # b) \<longleftrightarrow> polite base (w AND UARTFR_BUSY = 0) b"
  using assms by (induction rs arbitrary: idle) auto

lemma polite_mono: "polite base False b \<Longrightarrow> polite base idle b"
proof (cases b)
  case (Cons a b')
  assume "polite base False b"
  with Cons show ?thesis by (cases a) auto
qed simp

lemma polite_append: "polite base idle b \<Longrightarrow> polite base False b' \<Longrightarrow> polite base idle (b @ b')"
  by (induction base idle b rule: polite.induct) (auto intro: polite_mono)

lemma wide_byte: "ucast (ucast c :: u32) = (ucast (c :: u8) :: u64)"
  by (rule bit_word_eqI) (auto simp: bit_ucast_iff dest: bit_imp_le_length)

lemma wait_tx_run:
  assumes "uart_block reg" and "settles hw reg UARTFR_BUSY"
  shows "\<exists>rs v. wait_tx_complete hw reg b = Inr (b @ rs @ [Rd 4 (reg_address reg + UARTFR) v]) \<and> v AND UARTFR_BUSY = 0 \<and>
    (\<forall>a \<in> set rs. \<exists>v. a = Rd 4 (reg_address reg + UARTFR) v)"
proof -
  obtain n where "ucast (fr_answer hw reg ((poll hw reg ^^ n) b)) AND UARTFR_BUSY = 0"
    using assms(2) by (auto simp: settles_def)
  from wait_flag_polls [OF assms(1) this] obtain m where
    m: "wait_flag hw reg UARTFR_BUSY b = Some (Inr (poll hw reg ((poll hw reg ^^ m) b)))"
      "ucast (fr_answer hw reg ((poll hw reg ^^ m) b)) AND UARTFR_BUSY = 0" by blast
  obtain rs where "(poll hw reg ^^ m) b = b @ rs" "\<forall>a \<in> set rs. \<exists>v. a = Rd 4 (reg_address reg + UARTFR) v"
    using polls_shape by blast
  with m show ?thesis by (auto simp: wait_tx_complete_def poll_def)
qed

lemma putchar_run:
  assumes "uart_block reg" and "settles hw reg UARTFR_BUSY"
  shows "\<exists>b'. uart_putchar hw reg c b = Inr (b @ b') \<and> sent (reg_address reg) b' = [ucast c] \<and> polite (reg_address reg) False b'"
proof -
  obtain rs v where rs: "wait_tx_complete hw reg b = Inr (b @ rs @ [Rd 4 (reg_address reg + UARTFR) v])" "v AND UARTFR_BUSY = 0"
    "\<forall>a \<in> set rs. \<exists>v. a = Rd 4 (reg_address reg + UARTFR) v"
    using wait_tx_run [OF assms] by blast
  have "UARTDR < reg_size reg" using assms(1) by (rule uart_in_block) (simp add: uart_offsets)
  then show ?thesis
    using rs reads_polite [OF rs(3)]
    by (intro exI [of _ "rs @ [Rd 4 (reg_address reg + UARTFR) v, Wr 4 (reg_address reg + UARTDR) (ucast (ucast c :: u32))]"])
      (simp add: uart_putchar_def wide_byte)
qed

lemma pl011_write_run:
  assumes "uart_block reg" and "settles hw reg UARTFR_BUSY"
  shows "\<exists>b'. pl011_write hw reg msg b = Inr (b @ b') \<and> sent (reg_address reg) b' = map ucast msg \<and>
    polite (reg_address reg) False b'"
  unfolding pl011_write_def
proof (induction msg arbitrary: b)
  case (Cons c msg)
  obtain b1 where b1: "uart_putchar hw reg c b = Inr (b @ b1)" "sent (reg_address reg) b1 = [ucast c]" "polite (reg_address reg) False b1"
    using putchar_run [OF assms] by blast
  obtain b2 where "forE msg (uart_putchar hw reg) (b @ b1) = Inr ((b @ b1) @ b2)" "sent (reg_address reg) b2 = map ucast msg"
    "polite (reg_address reg) False b2" using Cons.IH by blast
  with b1 show ?case by (intro exI [of _ "b1 @ b2"]) (simp add: polite_append)
qed simp

section \<open>Programming\<close>

lemma calculate_divisor_run:
  assumes "unat base_clock < 2 ^ 30" and "0 < unat baud_rate" and "4 * unat base_clock div unat baud_rate < 2 ^ 22"
  shows "\<exists>ibrd fbrd. calculate_divisor base_clock baud_rate = Inr (ibrd, fbrd) \<and>
    unat ibrd * 64 + unat fbrd = 4 * unat base_clock div unat baud_rate \<and> unat fbrd < 64 \<and> unat ibrd < 2 ^ 16"
proof -
  let ?d = "4 * ucast base_clock div baud_rate :: u32"
  have "unat (4 * ucast base_clock :: u32) = 4 * unat base_clock"
    using assms(1) by (simp add: unat_word_ariths(2) unsigned_ucast_eq take_bit_nat_eq_self)
  then have d: "unat ?d = 4 * unat base_clock div unat baud_rate" by (simp only: unat_div)
  have t: "?d AND 0x3f = take_bit 6 ?d" "drop_bit 6 ?d AND 0xffff = take_bit 16 (drop_bit 6 ?d)"
    by (simp_all add: take_bit_eq_mask mask_eq_exp_minus_1)
  have "unat (take_bit 6 ?d) = unat ?d mod 64"
    by (simp only: unsigned_take_bit_eq) (simp add: take_bit_eq_mod)
  moreover have "unat (take_bit 16 (drop_bit 6 ?d)) = unat ?d div 64"
  proof -
    have "unat (drop_bit 6 ?d) = unat ?d div 64" unfolding drop_bit_eq_div unat_div by simp
    moreover have "unat ?d div 64 < 2 ^ 16" using d assms(3) by simp
    ultimately show ?thesis by (simp add: unsigned_take_bit_eq take_bit_nat_eq_self)
  qed
  moreover have "baud_rate \<noteq> 0" using assms(2) by auto
  ultimately show ?thesis
    using d assms(3) by (simp add: calculate_divisor_def Let_def t)
qed

text \<open>The writes among a sequence of accesses, in order.\<close>

fun writes :: "bus \<Rightarrow> (ptr \<times> u64) list" where
  "writes [] = []"
| "writes (Rd n a v # b) = writes b"
| "writes (Wr n a v # b) = (a, v) # writes b"

lemma writes_append [simp]: "writes (b @ b') = writes b @ writes b'"
  by (induction b rule: writes.induct) simp_all

lemma divisor_value: "calculate_divisor BASE_CLOCK (ucast BAUD_RATE) = Inr (13, 1)"
  by (simp add: calculate_divisor_def BASE_CLOCK_def BAUD_RATE_def drop_bit_eq_div)

lemma in_uart_block:
  assumes "uart_block reg"
  shows "UARTCR < reg_size reg" "UARTLCR_H < reg_size reg" "UARTIBRD < reg_size reg" "UARTFBRD < reg_size reg"
    "UARTICR < reg_size reg" "UARTIMSC < reg_size reg" "UARTDMACR < reg_size reg" "UARTDR < reg_size reg"
  by (rule uart_in_block [OF assms], simp add: uart_offsets)+

lemma setup_run:
  assumes "uart_block reg"
  shows "\<exists>b' l cr. pl011_setup hw reg b = Inr (b @ b') \<and>
    writes b' = map (\<lambda>(off, v). (reg_address reg + off, v))
      [(UARTLCR_H, l), (UARTIBRD, 13), (UARTFBRD, 1), (UARTICR, 0x7ff), (UARTIMSC, 0x10), (UARTDMACR, 0), (UARTCR, cr)] \<and>
    bit l 4 \<and> bit cr 0 \<and> bit cr 8 \<and> bit cr 9"
proof -
  have "bit (ucast (ucast (x OR UARTLCR_H_FEN) :: u32) :: u64) 4"
    "bit (ucast (ucast (x OR UARTCR_UARTEN OR UARTCR_TEX OR UARTCR_REX) :: u32) :: u64) 0"
    "bit (ucast (ucast (x OR UARTCR_UARTEN OR UARTCR_TEX OR UARTCR_REX) :: u32) :: u64) 8"
    "bit (ucast (ucast (x OR UARTCR_UARTEN OR UARTCR_TEX OR UARTCR_REX) :: u32) :: u64) 9" for x
    by (simp_all add: bit_ucast_iff bit_or_iff UARTLCR_H_FEN_def UARTCR_UARTEN_def UARTCR_TEX_def UARTCR_REX_def bit_numeral_rec)
  then show ?thesis
    using in_uart_block [OF assms] by (simp add: pl011_setup_def divisor_value)
qed

lemma program_run:
  assumes r: "uart_block reg" and "settles hw reg UARTFR_BUSY"
  shows "\<exists>b' cr l cr'. pl011_program hw reg b = Inr (b @ b') \<and>
    writes b' = map (\<lambda>(off, v). (reg_address reg + off, v))
      [(UARTCR, cr), (UARTLCR_H, l), (UARTIBRD, 13), (UARTFBRD, 1), (UARTICR, 0x7ff), (UARTIMSC, 0x10), (UARTDMACR, 0), (UARTCR, cr')] \<and>
    \<not> bit cr 0 \<and> bit l 4 \<and> bit cr' 0 \<and> bit cr' 8 \<and> bit cr' 9"
proof -
  let ?a = "reg_address reg" and ?cr = "ucast (hw b 4 (reg_address reg + UARTCR)) :: u32"
  let ?b1 = "b @ [Rd 4 (?a + UARTCR) (ucast ?cr), Wr 4 (?a + UARTCR) (ucast (?cr AND ucast (NOT UARTCR_UARTEN)))]"
  obtain rs v where rs: "wait_tx_complete hw reg ?b1 = Inr (?b1 @ rs @ [Rd 4 (?a + UARTFR) v])"
    "\<forall>a \<in> set rs. \<exists>v. a = Rd 4 (?a + UARTFR) v" using wait_tx_run [OF assms] by blast
  have w: "writes rs = []" using rs(2) by (induction rs) auto
  obtain b2 l cr where b2: "pl011_setup hw reg (?b1 @ rs @ [Rd 4 (?a + UARTFR) v]) = Inr ((?b1 @ rs @ [Rd 4 (?a + UARTFR) v]) @ b2)"
    "writes b2 = map (\<lambda>(off, v). (reg_address reg + off, v))
      [(UARTLCR_H, l), (UARTIBRD, 13), (UARTFBRD, 1), (UARTICR, 0x7ff), (UARTIMSC, 0x10), (UARTDMACR, 0), (UARTCR, cr)]"
    "bit l 4" "bit cr 0" "bit cr 8" "bit cr 9" using setup_run [OF r] by blast
  have "\<not> bit (ucast (?cr AND ucast (NOT UARTCR_UARTEN)) :: u64) 0"
    by (simp add: bit_ucast_iff bit_and_iff UARTCR_UARTEN_def bit_not_iff)
  moreover have "pl011_program hw reg b = Inr ((?b1 @ rs @ [Rd 4 (?a + UARTFR) v]) @ b2)"
    using in_uart_block(1) [OF r] rs(1) b2(1) by (simp add: pl011_program_def)
  ultimately show ?thesis using b2(2-) w
    by (intro exI [of _ "[Rd 4 (?a + UARTCR) (ucast ?cr), Wr 4 (?a + UARTCR) (ucast (?cr AND ucast (NOT UARTCR_UARTEN)))] @
        rs @ [Rd 4 (?a + UARTFR) v] @ b2"] exI [of _ "ucast (?cr AND ucast (NOT UARTCR_UARTEN))"] exI [of _ l] exI [of _ cr]) simp
qed

section \<open>From the console to the line\<close>

text \<open>The calls the console makes of the operations of a device, when the device is a serial line.\<close>

fun uart_call :: "hardware \<Rightarrow> register \<Rightarrow> device_call \<Rightarrow> bus \<Rightarrow> kerror + bus" where
  "uart_call hw reg (Dev_write ev) b = pl011_write hw reg (snd ev) b"
| "uart_call hw reg Dev_flush b = pl011_flush hw reg b"

definition uart_calls :: "hardware \<Rightarrow> register \<Rightarrow> ptr \<Rightarrow> (ptr \<times> device_call) list \<Rightarrow> bus \<Rightarrow> kerror + bus" where
  "uart_calls hw reg d out = forE (map snd (filter (\<lambda>(d', _). d' = d) out)) (uart_call hw reg)"

lemma flush_run:
  assumes "uart_block reg" and "settles hw reg UARTFR_BUSY"
  shows "\<exists>b'. pl011_flush hw reg b = Inr (b @ b') \<and> sent (reg_address reg) b' = [] \<and> polite (reg_address reg) False b'"
proof -
  obtain rs v where rs: "wait_tx_complete hw reg b = Inr (b @ rs @ [Rd 4 (reg_address reg + UARTFR) v])"
    "\<forall>a \<in> set rs. \<exists>v. a = Rd 4 (reg_address reg + UARTFR) v" using wait_tx_run [OF assms] by blast
  then show ?thesis
    using reads_polite [OF rs(2)] by (intro exI [of _ "rs @ [Rd 4 (reg_address reg + UARTFR) v]"]) (simp add: pl011_flush_def)
qed

lemma uart_calls_run:
  assumes "uart_block reg" and "settles hw reg UARTFR_BUSY"
  shows "\<exists>b'. uart_calls hw reg d out b = Inr (b @ b') \<and>
    sent (reg_address reg) b' = map ucast (concat (map snd (given d out))) \<and> polite (reg_address reg) False b'"
  unfolding uart_calls_def
proof (induction d out arbitrary: b rule: given.induct)
  case (2 d d' ev out)
  show ?case
  proof (cases "d' = d")
    case True
    obtain b1 where b1: "pl011_write hw reg (snd ev) b = Inr (b @ b1)" "sent (reg_address reg) b1 = map ucast (snd ev)"
      "polite (reg_address reg) False b1" using pl011_write_run [OF assms] by blast
    obtain b2 where "forE (map snd (filter (\<lambda>(d', _). d' = d) out)) (uart_call hw reg) (b @ b1) = Inr ((b @ b1) @ b2)"
      "sent (reg_address reg) b2 = map ucast (concat (map snd (given d out)))" "polite (reg_address reg) False b2"
      using 2(1) [OF True] by blast
    with b1 True show ?thesis by (intro exI [of _ "b1 @ b2"]) (simp add: polite_append)
  qed (use 2(2) in simp)
next
  case (3 d d' out)
  show ?case
  proof (cases "d' = d")
    case True
    obtain b1 where b1: "pl011_flush hw reg b = Inr (b @ b1)" "sent (reg_address reg) b1 = []"
      "polite (reg_address reg) False b1" using flush_run [OF assms] by blast
    obtain b2 where "forE (map snd (filter (\<lambda>(d', _). d' = d) out)) (uart_call hw reg) (b @ b1) = Inr ((b @ b1) @ b2)"
      "sent (reg_address reg) b2 = map ucast (concat (map snd (given d out)))" "polite (reg_address reg) False b2"
      using 3 by blast
    with b1 True show ?thesis by (intro exI [of _ "b1 @ b2"]) (simp add: polite_append)
  qed (use 3 in simp)
qed simp

section \<open>Claims\<close>

text \<open>
  C16.  What the kernel prints is what goes over the line.  When a format is printed and the console flushed,
  and the registered device \<open>d\<close> is a PL011 whose transmitter always becomes idle again, the driver
  returns from all calls made to it and has written to the data register exactly the bytes of everything the
  console ever had for the device followed by the text of the format, and it wrote each byte only after
  finding the transmitter idle.
\<close>

theorem printf_reaches_wire:
  assumes "con_ok s bs" and "ready s" and "d \<in> snd ` set bs"
    and "env_ok env (cs_mem s) buf (unat PRINT_BUFFER_SIZE) str" and "cstr (cs_mem s) fmt cs" and "apart buf (unat PRINT_BUFFER_SIZE) fmt cs"
    and "expand str False cs ap = Some t" and "length t \<le> 500" and "local_vars (cs_console s) buf (unat PRINT_BUFFER_SIZE) e"
    and "uart_block reg" and "settles hw reg UARTFR_BUSY"
  shows "\<exists>s' s'' b'. vprintf env buf e fmt ap s = Inr s' \<and> console_flush s' = Inr (errnum EOK, s'') \<and>
    uart_calls hw reg d (cs_out s'') b = Inr (b @ b') \<and>
    sent (reg_address reg) b' = map ucast (concat (map snd (stream d s)) @ t) \<and> polite (reg_address reg) False b'"
proof -
  obtain s' where s': "vprintf env buf e fmt ap s = Inr s'" "con_ok s' bs"
    "stream d s' = stream d s @ [(color_bytes IO_DEFAULT_COLOR_FG @ color_bytes IO_DEFAULT_COLOR_BG, t)]"
    using vprintf_reaches_devices [OF assms(1-9)] by blast
  obtain s'' where s'': "console_flush s' = Inr (errnum EOK, s'')" "given d (cs_out s'') = stream d s'"
    using console_flush_spec [OF s'(2)] assms(3) by blast
  obtain b' where "uart_calls hw reg d (cs_out s'') b = Inr (b @ b')"
    "sent (reg_address reg) b' = map ucast (concat (map snd (given d (cs_out s''))))" "polite (reg_address reg) False b'"
    using uart_calls_run [OF assms(10,11)] by blast
  with s' s'' show ?thesis by auto
qed

theorem printf_reaches_wire_witness:
  "\<exists>s' s'' b'. vprintf demo_env 0x10000 0x6000 0x200 [VInt (- 5), VInt 0x300] (demo_con demo_text) = Inr s' \<and>
     console_flush s' = Inr (errnum EOK, s'') \<and>
     uart_calls (\<lambda>_ _ _. 0) \<lparr>reg_size = 0x1000, reg_address = 0xffffffff90020000\<rparr> 0x5000 (cs_out s'') [] = Inr ([] @ b') \<and>
     sent 0xffffffff90020000 b' = [45, 53, 32, 111, 107, 10, 13]"
proof -
  let ?reg = "\<lparr>reg_size = 0x1000, reg_address = 0xffffffff90020000\<rparr> :: register"
  have a: "apart 0x10000 (unat PRINT_BUFFER_SIZE) p bs" if "unat p + length bs < 0x1000" for p :: ptr and bs
    unfolding apart_def using that by (intro disjoint_regionsI) (simp_all add: PRINT_BUFFER_SIZE_def)
  have e: "env_ok demo_env (cs_mem (demo_con demo_text)) 0x10000 (unat PRINT_BUFFER_SIZE) [0x300 \<mapsto> [111, 107]]"
    by (simp add: env_ok_def text_at_def a demo_env_def chars_def demo_con_fields) (simp add: demo_text_def)
  have c: "cstr (cs_mem (demo_con demo_text)) 0x200 [37, 100, 32, 37, 115, 10]" by (simp add: demo_con_fields demo_text_def)
  have x: "expand [0x300 \<mapsto> [111, 107]] False [37, 100, 32, 37, 115, 10] [VInt (- 5), VInt 0x300 :: int varg] =
      Some [45, 53, 32, 111, 107, 10, 13]"
    by (simp add: spec_text_def chars_def newline_text_def int_text_def numeral_text_small digits_def)
  have l: "local_vars (cs_console (demo_con demo_text)) 0x10000 (unat PRINT_BUFFER_SIZE) 0x6000"
    unfolding local_vars_def demo_con_fields by (auto intro!: disjoint_regionsI simp: PRINT_BUFFER_SIZE_def)
  have u: "uart_block ?reg" "settles (\<lambda>_ _ _. 0) ?reg UARTFR_BUSY"
    by (simp_all add: uart_block_def settles_def fr_answer_def)
  have st: "concat (map snd (stream 0x5000 (demo_con demo_text))) = []" by (simp add: stream_def demo_con_fields)
  from printf_reaches_wire [OF demo_con_ok(1,2) _ e c a x _ l u, of "0x5000" "[]"] show ?thesis
    unfolding st by auto
qed

text \<open>
  \<open>pl011_probe\<close> programs the device in the order its manual demands: it disables it and waits for the
  transmission to end, enables the FIFO, sets the divisor for 115200 baud from a clock of 24 MHz (13 + 1/64,
  the nearest not above the exact quotient), clears all interrupts, leaves only the receive interrupt
  unmasked, disables DMA, and enables the device with transmitter and receiver last.
\<close>

lemma pl011_programming:
  assumes "uart_block reg" and "settles hw reg UARTFR_BUSY"
  shows "\<exists>b' cr l cr'. pl011_program hw reg b = Inr (b @ b') \<and>
    writes b' = map (\<lambda>(off, v). (reg_address reg + off, v))
      [(UARTCR, cr), (UARTLCR_H, l), (UARTIBRD, 13), (UARTFBRD, 1), (UARTICR, 0x7ff), (UARTIMSC, 0x10), (UARTDMACR, 0), (UARTCR, cr')] \<and>
    \<not> bit cr 0 \<and> bit l 4 \<and> bit cr' 0 \<and> bit cr' 8 \<and> bit cr' 9 \<and>
    13 * 64 + 1 = 4 * unat BASE_CLOCK div unat BAUD_RATE"
  using program_run [OF assms, of b] by (simp add: BASE_CLOCK_def BAUD_RATE_def)

end
