(* ===== verification/Drivers.thy ===== *)
theory Drivers
  imports Pl011
begin

text \<open>
  The drivers as the device manager sees them: probe and remove of \<open>drivers/irqchip/arm-gicv2.c\<close>, and
  \<open>drivers/timer/arm-timer.c\<close> with the accessors of the timer registers in \<open>aarch64.h\<close>.
\<close>

section \<open>Interrupt controller\<close>

definition sizeof_gicv2_data :: usize where "sizeof_gicv2_data = 40"

text \<open>
  The test after the allocation looks at \<open>device->driver_data\<close>, which nobody has written yet, and not at
  the block; writing through an error pointer is a fault.
\<close>

definition armgicv2_probe :: "platform \<Rightarrow> ptr \<Rightarrow> machine \<Rightarrow> kerror + 64 word \<times> machine" where
  "armgicv2_probe P device s =
     (let li = pf_limine P in
      bindE (sys_kalloc li sizeof_gicv2_data s) (\<lambda>(gic_data, s).
      bindE (dev_at device s) (\<lambda>d.
      if IS_ERR (dv_driver_data d) then Inr (- errnum ENOMEM, s)
      else
        bindE (fdt_get_reg (pf_tree P) (dv_fdt_node_offset d) 2) (\<lambda>r.
        case r of None \<Rightarrow> bindE (sys_kfree gic_data s) (\<lambda>s. Inr (- errnum ENODEV, s))
        | Some reg \<Rightarrow>
          if IS_ERR gic_data then Inl (Fault gic_data)
          else
            bindE (sys_mmio_map li (reg_address (reg ! 0)) (reg_size (reg ! 0)) s) (\<lambda>(dist_address, s).
            if IS_ERR dist_address then bindE (sys_kfree gic_data s) (\<lambda>s. Inr (- errnum ENOMEM, s))
            else
              bindE (sys_mmio_map li (reg_address (reg ! 1)) (reg_size (reg ! 1)) s) (\<lambda>(cpu_address, s).
              if IS_ERR cpu_address then
                bindE (sys_mmio_unmap li dist_address (reg_size (reg ! 0)) s) (\<lambda>s.
                bindE (sys_kfree gic_data s) (\<lambda>s. Inr (- errnum ENOMEM, s)))
              else
                let dist = (reg ! 0)\<lparr>reg_address := dist_address\<rparr>; cpu = (reg ! 1)\<lparr>reg_address := cpu_address\<rparr> in
                bindE (on_bus (armgicv2_probe_dist (pf_hw P) (fdt_cpu_count (mc_fdt s)) dist) s) (\<lambda>s.
                bindE (from_bus (dist_interrupts_count (pf_hw P) dist) s) (\<lambda>(n, s).
                let s = s\<lparr>mc_gic_data := (mc_gic_data s)(gic_data \<mapsto> \<lparr>gd_dist = dist, gd_cpu = cpu, gd_interrupts_count = ucast n\<rparr>)\<rparr> in
                bindE (update_dev device (\<lambda>d. d\<lparr>dv_driver_data := gic_data, dv_name := ''gic'', dv_ops := Gic_ops\<rparr>) s) (\<lambda>s.
                Inr (errnum EOK, s))))))))))"

definition armgicv2_remove :: "platform \<Rightarrow> ptr \<Rightarrow> machine \<Rightarrow> kerror + 64 word \<times> machine" where
  "armgicv2_remove P device s =
     bindE (dev_at device s) (\<lambda>d.
     bindE (gic_data_at (dv_driver_data d) s) (\<lambda>data.
     bindE (sys_mmio_unmap (pf_limine P) (reg_address (gd_dist data)) (reg_size (gd_dist data)) s) (\<lambda>s.
     bindE (sys_mmio_unmap (pf_limine P) (reg_address (gd_cpu data)) (reg_size (gd_cpu data)) s) (\<lambda>s.
     bindE (sys_kfree (dv_driver_data d) s) (\<lambda>s.
     Inr (errnum EOK, s\<lparr>mc_gic_data := (mc_gic_data s)(dv_driver_data d := None)\<rparr>))))))"

section \<open>Timer\<close>

definition r_counter_timer_freq :: "machine \<Rightarrow> u32" where
  "r_counter_timer_freq s = ucast (EXTRACT_BITS (cntfrq_el0 s) 31 0)"

definition r_counter_timer_physical_count :: "machine \<Rightarrow> u64" where
  "r_counter_timer_physical_count s = cntpct_el0 s"

definition r_counter_is_enabled :: "machine \<Rightarrow> bool" where
  "r_counter_is_enabled s \<longleftrightarrow> cntp_ctl_el0 s AND BIT 0 \<noteq> 0"

definition w_counter_enable :: "bool \<Rightarrow> machine \<Rightarrow> machine" where
  "w_counter_enable value s =
     (let old = cntp_ctl_el0 s; new = (if value then old OR BIT 0 else old AND NOT (BIT 0))
      in s\<lparr>cntp_ctl_el0 := new\<rparr>)"

definition enable_timer :: "machine \<Rightarrow> machine" where
  "enable_timer = w_counter_enable True"

definition disable_timer :: "machine \<Rightarrow> machine" where
  "disable_timer = w_counter_enable False"

definition timer_frequency :: "machine \<Rightarrow> usize" where
  "timer_frequency s = ucast (r_counter_timer_freq s)"

text \<open>The driver's \<open>counter\<close> returns the control register.\<close>

definition timer_counter :: "machine \<Rightarrow> usize" where
  "timer_counter s = cntp_ctl_el0 s"

definition fire_from_now :: "usize \<Rightarrow> machine \<Rightarrow> machine" where
  "fire_from_now ticks s = s\<lparr>cntp_tval_el0 := ticks\<rparr>"

definition fire_at :: "usize \<Rightarrow> machine \<Rightarrow> machine" where
  "fire_at ticks s = s\<lparr>cntp_cval_el0 := ticks\<rparr>"

definition zero_interrupt :: fdt_interrupt where
  "zero_interrupt = \<lparr>cells_count = 0, cells = replicate MAX_INTERRUPT_CELLS_COUNT 0\<rparr>"

definition interrupt_id :: "libfdt \<Rightarrow> device \<Rightarrow> kerror + u32" where
  "interrupt_id L d =
     bindE (fdt_get_interrupt_cells L (dv_fdt_node_offset d) (replicate 4 zero_interrupt)) (\<lambda>(ok, interrupt_cells).
     if \<not> ok then Inr 0 else Inr (cells (interrupt_cells ! 1) ! 1 + 16))"

definition armv8_timer_probe :: "ptr \<Rightarrow> machine \<Rightarrow> kerror + 64 word \<times> machine" where
  "armv8_timer_probe device s =
     bindE (update_dev device (\<lambda>d. d\<lparr>dv_name := ''armv8-timer'', dv_ops := Armv8_timer_ops\<rparr>) s) (\<lambda>s. Inr (errnum EOK, s))"

definition armv8_timer_remove :: "ptr \<Rightarrow> machine \<Rightarrow> kerror + 64 word \<times> machine" where
  "armv8_timer_remove device s = Inr (errnum EOK, disable_timer s)"

end
