(* ===== verification/Device_Manager.thy ===== *)
theory Device_Manager
  imports Drivers
begin

text \<open>
  The device manager \<open>drivers/common/manager.c\<close>: discovery of devices in the device tree, lookup by
  class, and readying; with its clients \<open>irq_controller_init\<close> and \<open>console_register\<close>.
\<close>

section \<open>Discovery\<close>

text \<open>
  \<open>drivers\<close> is the array the linker collects in the section \<open>.driver\<close>.  \<open>strcmp\<close> is zero exactly for
  equal strings.
\<close>

definition find_compat_driver :: "driver list \<Rightarrow> string \<Rightarrow> driver option" where
  "find_compat_driver drivers req_compat = find (\<lambda>driver. req_compat \<in> set (dr_compatible driver)) drivers"

text \<open>The block from the heap seen as a \<open>Device\<close>, with the four fields the manager sets.\<close>

definition new_device :: "ptr \<Rightarrow> driver \<Rightarrow> int \<Rightarrow> machine \<Rightarrow> device" where
  "new_device p driver offset s =
     \<lparr>dv_name = dr_name driver, dv_driver = driver, dv_state = DEVICE_DISCOVERED, dv_ops = Ops_at (load64 (vm_mem (sys_vm s)) (p + 24)),
      dv_driver_data = load64 (vm_mem (sys_vm s)) (p + 32), dv_fdt_node_offset = offset, dv_next = load64 (vm_mem (sys_vm s)) (p + 48)\<rparr>"

definition insert_device :: "ptr \<Rightarrow> machine \<Rightarrow> kerror + machine" where
  "insert_device device s =
     bindE (update_dev device (\<lambda>d. d\<lparr>dv_next := dm_device_list (mc_dmanager s)\<rparr>) s) (\<lambda>s.
     Inr (s\<lparr>mc_dmanager := (mc_dmanager s)\<lparr>dm_device_list := device\<rparr>\<rparr>))"

definition discover_node :: "platform \<Rightarrow> driver list \<Rightarrow> int \<Rightarrow> machine \<Rightarrow> kerror + machine" where
  "discover_node P drivers offset s =
     (case fdt_get_compat (pf_tree P) offset of
        None \<Rightarrow> Inr s
      | Some compatible \<Rightarrow>
        (case find_compat_driver drivers compatible of
           None \<Rightarrow> Inr s
         | Some driver \<Rightarrow>
           bindE (sys_kalloc (pf_limine P) sizeof_device s) (\<lambda>(device, s).
           if IS_ERR device then Inl (Fault device)
           else insert_device device (s\<lparr>mc_devices := (mc_devices s)(device \<mapsto> new_device device driver offset s)\<rparr>))))"

partial_function (option) discover_loop :: "platform \<Rightarrow> driver list \<Rightarrow> int \<Rightarrow> machine \<Rightarrow> (kerror + machine) option" where
  "discover_loop P drivers offset s =
     (if offset < 0 then Some (Inr s)
      else case discover_node P drivers offset s of
        Inl e \<Rightarrow> Some (Inl e)
      | Inr s \<Rightarrow> discover_loop P drivers (fdt_traverse_next_node (pf_tree P) offset) s)"

definition with_dm_lock :: "(machine \<Rightarrow> kerror + 'a \<times> machine) \<Rightarrow> machine \<Rightarrow> kerror + 'a \<times> machine" where
  "with_dm_lock body s =
     bindE (spinlock_scoped (ts_core s) (dm_lock (mc_dmanager s))
       (\<lambda>c. bindE (body (s\<lparr>ts_core := c\<rparr>)) (\<lambda>(a, s). Inr ((a, s), ts_core s)))) (\<lambda>((a, s), c, l).
     Inr (a, s\<lparr>ts_core := c, mc_dmanager := (mc_dmanager s)\<lparr>dm_lock := l\<rparr>\<rparr>))"

definition dmanager_init :: "platform \<Rightarrow> driver list \<Rightarrow> machine \<Rightarrow> kerror + unit \<times> machine" where
  "dmanager_init P drivers s =
     with_dm_lock (\<lambda>s.
       bindE (endsE (discover_loop P drivers (fdt_traverse_next_node (pf_tree P) (- 1)) s)) (\<lambda>r.
       bindE r (\<lambda>s. Inr ((), s))))
     (s\<lparr>mc_dmanager := (mc_dmanager s)\<lparr>dm_lock := spinlock_init ''driver manager''\<rparr>\<rparr>)"

section \<open>Lookup and readying\<close>

partial_function (option) class_loop :: "device_class \<Rightarrow> ptr \<Rightarrow> machine \<Rightarrow> (kerror + ptr) option" where
  "class_loop cls cur s =
     (if cur = nullptr then Some (Inr (ERR_TO_PTR (- errnum ENOENT)))
      else case dev_at cur s of
        Inl e \<Rightarrow> Some (Inl e)
      | Inr d \<Rightarrow> if dr_device_class (dv_driver d) = cls then Some (Inr cur) else class_loop cls (dv_next d) s)"

definition dmanager_get_by_class :: "device_class \<Rightarrow> machine \<Rightarrow> kerror + ptr \<times> machine" where
  "dmanager_get_by_class cls =
     with_dm_lock (\<lambda>s. bindE (endsE (class_loop cls (dm_device_list (mc_dmanager s)) s)) (\<lambda>r. bindE r (\<lambda>p. Inr (p, s))))"

text \<open>\<open>driver->probe(device)\<close>; \<open>junk\<close> is the uninitialised local of the serial line's probe.\<close>

definition run_probe :: "platform \<Rightarrow> fdt_interrupt \<Rightarrow> probe_fn \<Rightarrow> ptr \<Rightarrow> machine \<Rightarrow> kerror + 64 word \<times> machine" where
  "run_probe P junk f device s =
     (case f of Pl011_probe \<Rightarrow> pl011_probe P junk device s
      | Armgicv2_probe \<Rightarrow> armgicv2_probe P device s
      | Armv8_timer_probe \<Rightarrow> armv8_timer_probe device s)"

definition dmanager_ready_device :: "platform \<Rightarrow> fdt_interrupt \<Rightarrow> ptr \<Rightarrow> machine \<Rightarrow> kerror + 64 word \<times> machine" where
  "dmanager_ready_device P junk device s =
     bindE (dev_at device s) (\<lambda>d.
     if dv_state d = DEVICE_READY then Inr (errnum EOK, s)
     else if dr_device_class (dv_driver d) = DEVICE_UNKNOWN then Inr (- errnum ENOENT, s)
     else
       bindE (run_probe P junk (dr_probe (dv_driver d)) device s) (\<lambda>(ret, s).
       bindE (if ret = errnum EOK then update_dev device (\<lambda>d. d\<lparr>dv_state := DEVICE_READY\<rparr>) s else Inr s) (\<lambda>s.
       Inr (ret, s))))"

definition dmanager_get_by_class_and_ready :: "platform \<Rightarrow> fdt_interrupt \<Rightarrow> device_class \<Rightarrow> machine \<Rightarrow> kerror + ptr \<times> machine" where
  "dmanager_get_by_class_and_ready P junk cls s =
     bindE (dmanager_get_by_class cls s) (\<lambda>(device, s).
     if IS_ERR device then Inr (device, s)
     else
       bindE (dmanager_ready_device P junk device s) (\<lambda>(ret, s).
       if ret \<noteq> errnum EOK then Inr (ERR_TO_PTR ret, s) else Inr (device, s)))"

section \<open>Clients\<close>

definition irq_controller_init :: "platform \<Rightarrow> fdt_interrupt \<Rightarrow> machine \<Rightarrow> kerror + machine" where
  "irq_controller_init P junk s =
     bindE (dmanager_get_by_class DEVICE_IRQCHIP (s\<lparr>mc_irq := (mc_irq s)\<lparr>ic_lock := spinlock_init ''irq controller''\<rparr>\<rparr>)) (\<lambda>(irq_device, s).
     if IS_ERR irq_device then Inl (Panic ''no irq chip found'')
     else
       bindE (dmanager_ready_device P junk irq_device s) (\<lambda>(ret, s).
       if ret \<noteq> errnum EOK then Inl (Panic ''failed to ready irq device'')
       else
         let s = s\<lparr>mc_irq := (mc_irq s)\<lparr>ic_device := irq_device\<rparr>\<rparr> in
         bindE (chip_data irq_device s) (\<lambda>data.
         bindE (from_bus (interrupts_count (pf_hw P) data) s) (\<lambda>(n, s).
         Inr (s\<lparr>mc_irq := (mc_irq s)\<lparr>ic_interrupts_count := ucast n\<rparr>\<rparr>)))))"

definition sizeof_console_backend :: usize where "sizeof_console_backend = 16"

text \<open>Writing to an object at an error pointer is a fault.\<close>

definition console_register :: "limine \<Rightarrow> ptr \<Rightarrow> machine \<Rightarrow> kerror + machine" where
  "console_register li device s =
     bindE (sys_kalloc li sizeof_console_backend s) (\<lambda>(backend, s).
     if IS_ERR backend then Inl (Fault backend)
     else
       let s = s\<lparr>mc_backends := (mc_backends s)(backend \<mapsto> \<lparr>cb_device = device, cb_next = load64 (vm_mem (sys_vm s)) (backend + 8)\<rparr>)\<rparr> in
       bindE (on_console (console_register_backend backend) s) (\<lambda>(_, s). Inr s))"

section \<open>The device list\<close>

fun devs_rep :: "(ptr \<rightharpoonup> device) \<Rightarrow> ptr \<Rightarrow> ptr list \<Rightarrow> bool" where
  "devs_rep h p [] \<longleftrightarrow> p = nullptr"
| "devs_rep h p (q # qs) \<longleftrightarrow> p = q \<and> q \<noteq> nullptr \<and> (\<exists>d. h q = Some d \<and> devs_rep h (dv_next d) qs)"

lemma devs_rep_frame:
  "devs_rep h p qs \<Longrightarrow> (\<And>q. q \<in> set qs \<Longrightarrow> h' q = h q) \<Longrightarrow> devs_rep h' p qs"
  by (induction qs arbitrary: p) auto

definition class_of :: "(ptr \<rightharpoonup> device) \<Rightarrow> ptr \<Rightarrow> device_class option" where
  "class_of h p = map_option (\<lambda>d. dr_device_class (dv_driver d)) (h p)"

lemma class_loop_run:
  "devs_rep (mc_devices s) p qs \<Longrightarrow> class_loop cls p s =
    Some (Inr (case find (\<lambda>q. class_of (mc_devices s) q = Some cls) qs of Some q \<Rightarrow> q | None \<Rightarrow> ERR_TO_PTR (- errnum ENOENT)))"
proof (induction qs arbitrary: p)
  case Nil
  then show ?case by (subst class_loop.simps) simp
next
  case (Cons q qs)
  then obtain d where d: "p = q" "q \<noteq> nullptr" "mc_devices s q = Some d" "devs_rep (mc_devices s) (dv_next d) qs" by auto
  then show ?case using Cons.IH [OF d(4)] by (subst class_loop.simps) (simp add: dev_at_def class_of_def)
qed

lemma with_dm_lock_returns:
  assumes "core_ok (Suc k) (ts_core s)" and "lock_free (dm_lock (mc_dmanager s))"
    and "body (s\<lparr>ts_core := irq_push_intr (ts_core s)\<rparr>) = Inr (a, s')"
    and "irq_view (ts_core s') = irq_view (irq_push_intr (ts_core s))" and "dm_lock (mc_dmanager s') = dm_lock (mc_dmanager s)"
  shows "\<exists>c'. with_dm_lock body s = Inr (a, s'\<lparr>ts_core := c'\<rparr>) \<and> irq_view c' = irq_view (ts_core s)"
proof -
  let ?b = "\<lambda>c. bindE (body (s\<lparr>ts_core := c\<rparr>)) (\<lambda>(a, s). Inr ((a, s), ts_core s))"
  have "?b (irq_push_intr (ts_core s)) = Inr ((a, s'), ts_core s')" using assms(3) by simp
  from scoped_returns [OF assms(1,2), where body = ?b, OF this assms(4)] obtain c' where
    "spinlock_scoped (ts_core s) (dm_lock (mc_dmanager s)) ?b = Inr ((a, s'), c', dm_lock (mc_dmanager s))"
    "irq_view c' = irq_view (ts_core s)" by blast
  moreover have "(mc_dmanager s')\<lparr>dm_lock := dm_lock (mc_dmanager s)\<rparr> = mc_dmanager s'" using assms(5) by (cases "mc_dmanager s'") simp
  ultimately show ?thesis by (intro exI [of _ c']) (simp add: with_dm_lock_def)
qed

lemma get_by_class_run:
  assumes "core_ok (Suc k) (ts_core s)" and "lock_free (dm_lock (mc_dmanager s))"
    and "devs_rep (mc_devices s) (dm_device_list (mc_dmanager s)) qs"
  shows "\<exists>c'. dmanager_get_by_class cls s =
      Inr (case find (\<lambda>q. class_of (mc_devices s) q = Some cls) qs of Some q \<Rightarrow> q | None \<Rightarrow> ERR_TO_PTR (- errnum ENOENT), s\<lparr>ts_core := c'\<rparr>) \<and>
    irq_view c' = irq_view (ts_core s)"
proof -
  let ?b = "\<lambda>s. bindE (endsE (class_loop cls (dm_device_list (mc_dmanager s)) s)) (\<lambda>r. bindE r (\<lambda>p. Inr (p, s)))"
  let ?s = "s\<lparr>ts_core := irq_push_intr (ts_core s)\<rparr>"
  have "?b ?s = Inr (case find (\<lambda>q. class_of (mc_devices s) q = Some cls) qs of Some q \<Rightarrow> q | None \<Rightarrow> ERR_TO_PTR (- errnum ENOENT), ?s)"
    using class_loop_run [of ?s] assms(3) by simp
  from with_dm_lock_returns [where body = ?b, OF assms(1,2) this] show ?thesis
    by (auto simp: dmanager_get_by_class_def)
qed

section \<open>Discovery, with room in the heap\<close>

text \<open>
  \<open>chain L n ns\<close>: traversing the tree from offset \<open>n\<close> visits \<open>ns\<close> and then ends.  The devices that
  discovery should find are the visited nodes with a driver, in the order of the traversal.
\<close>

fun chain :: "libfdt \<Rightarrow> int \<Rightarrow> int list \<Rightarrow> bool" where
  "chain L n [] \<longleftrightarrow> n < 0"
| "chain L n (m # ms) \<longleftrightarrow> n = m \<and> 0 \<le> m \<and> chain L (lib_next_node L m) ms"

definition match_node :: "libfdt \<Rightarrow> driver list \<Rightarrow> int \<Rightarrow> (int \<times> driver) option" where
  "match_node L drivers n =
     (case fdt_get_compat L n of None \<Rightarrow> None | Some c \<Rightarrow> map_option (Pair n) (find_compat_driver drivers c))"

definition found :: "libfdt \<Rightarrow> driver list \<Rightarrow> int list \<Rightarrow> (int \<times> driver) list" where
  "found L drivers ns = List.map_filter (match_node L drivers) ns"

lemma found_Cons:
  "found L drivers (n # ns) = (case match_node L drivers n of None \<Rightarrow> found L drivers ns | Some m \<Rightarrow> m # found L drivers ns)"
  by (simp add: found_def List.map_filter_simps cong: option.case_cong)

text \<open>What the device object of a found node shows.\<close>

definition shows_device :: "machine \<Rightarrow> ptr \<Rightarrow> int \<times> driver \<Rightarrow> bool" where
  "shows_device s p m \<longleftrightarrow> (\<exists>d. mc_devices s p = Some d \<and> dv_fdt_node_offset d = fst m \<and> dv_driver d = snd m \<and>
     dv_name d = dr_name (snd m) \<and> dv_state d = DEVICE_DISCOVERED)"

lemma take_device:
  assumes "72 + 16 \<le> unat n"
  shows "fl_take (sizeof_device + 16) [(a, n)] = Some ((a, 72), [(a + 72, n - 72)])" and "unat (n - 72) = unat n - 72"
proof -
  show u: "unat (n - 72) = unat n - 72" using assms by (subst unat_sub_u64) (simp_all add: word_le_nat_alt)
  show "fl_take (sizeof_device + 16) [(a, n)] = Some ((a, 72), [(a + 72, n - 72)])"
    using assms u by (simp add: fl_take_def sizeof_device_def word_less_nat_alt word_le_nat_alt)
qed

definition heap_at :: "limine \<Rightarrow> machine \<Rightarrow> tree \<Rightarrow> ptr list \<Rightarrow> ptr \<Rightarrow> usize \<Rightarrow> (ptr \<times> usize) set \<Rightarrow> bool" where
  "heap_at li s T xs a n U \<longleftrightarrow> kheap_inv li (sys_heap s) (set_core (ts_core s) (sys_vm s)) T xs [(a, n)] U"

definition in_blocks :: "(ptr \<times> usize) set \<Rightarrow> ptr list \<Rightarrow> bool" where
  "in_blocks U qs \<longleftrightarrow> (\<forall>q \<in> set qs. \<exists>b \<in> U. q = fst b + 16)"

lemma kalloc_device:
  assumes h: "heap_at li s T xs a n U" and z: "72 + 16 \<le> unat n" and qs: "in_blocks U qs"
  shows "\<exists>s'. sys_kalloc li sizeof_device s = Inr (a + 16, s') \<and> heap_at li s' T xs (a + 72) (n - 72) (insert (a, 72) U) \<and>
    irq_view (ts_core s') = irq_view (ts_core s) \<and> mc_devices s' = mc_devices s \<and> mc_dmanager s' = mc_dmanager s \<and>
    \<not> IS_ERR (a + 16) \<and> a + 16 \<noteq> nullptr \<and> a + 16 \<notin> set qs \<and> in_blocks (insert (a, 72) U) ((a + 16) # qs)"
proof -
  have sz: "sizeof_device \<noteq> 0" "unat sizeof_device + 16 < 2 ^ 64" by (simp_all add: sizeof_device_def)
  obtain kh v where k: "kalloc li sizeof_device (sys_heap s) (set_core (ts_core s) (sys_vm s)) = Inr (a + 16, kh, v)"
    "kheap_inv li kh v T xs [(a + 72, n - 72)] (insert (a, 72) U)" "(a, 72) \<notin> U" "\<not> IS_ERR (a + 16)"
    "irq_view (vm_core v) = irq_view (ts_core s)"
    using kalloc_fits [OF h [unfolded heap_at_def] take_device(1) [OF z] sz] by auto
  have ok: "block_ok (a, 72)" by (rule heap_blocks(1) [OF k(2)]) simp
  then have "unat (a + 16) = unat a + 16" by (simp add: block_ok_def unat_add_u64)
  then have "a + 16 \<noteq> nullptr" by (metis add_eq_0_iff_both_eq_0 unat_0 zero_neq_numeral)
  moreover have "a + 16 \<notin> set qs"
  proof
    assume "a + 16 \<in> set qs"
    then obtain b where b: "b \<in> U" "fst b = a" using qs by (auto simp: in_blocks_def)
    then have "b \<noteq> (a, 72)" using k(3) by blast
    then have "block (a, 72) \<inter> block b = {}" using heap_blocks(2) [OF k(2), of "(a, 72)" b] b(1) by blast
    moreover have "a \<in> block (a, 72)" "a \<in> block b"
      using ok heap_blocks(1) [OF k(2), of b] b by (auto simp: span_def in_region_def block_ok_def)
    ultimately show False by blast
  qed
  moreover have "in_blocks (insert (a, 72) U) ((a + 16) # qs)" using qs by (auto simp: in_blocks_def)
  moreover have "set_core (vm_core v) v = v" by (simp add: set_core_def)
  ultimately show ?thesis
    using k by (intro exI [of _ "s\<lparr>ts_core := vm_core v, sys_heap := kh, sys_vm := v\<rparr>"]) (simp add: sys_kalloc_def heap_at_def)
qed

lemma discover_node_none: "match_node (pf_tree P) drivers n = None \<Longrightarrow> discover_node P drivers n s = Inr s"
  by (auto simp: match_node_def discover_node_def split: option.splits)

lemma discover_node_run:
  assumes h: "heap_at (pf_limine P) s T xs a n U" "72 + 16 \<le> unat n" "in_blocks U qs"
    and rep: "devs_rep (mc_devices s) (dm_device_list (mc_dmanager s)) qs" and m: "match_node (pf_tree P) drivers i = Some m"
  shows "\<exists>s'. discover_node P drivers i s = Inr s' \<and> heap_at (pf_limine P) s' T xs (a + 72) (n - 72) (insert (a, 72) U) \<and>
    devs_rep (mc_devices s') (dm_device_list (mc_dmanager s')) ((a + 16) # qs) \<and> shows_device s' (a + 16) m \<and>
    (\<forall>q \<in> set qs. mc_devices s' q = mc_devices s q) \<and> in_blocks (insert (a, 72) U) ((a + 16) # qs) \<and>
    irq_view (ts_core s') = irq_view (ts_core s) \<and> dm_lock (mc_dmanager s') = dm_lock (mc_dmanager s)"
proof -
  obtain c where c: "fdt_get_compat (pf_tree P) i = Some c" "find_compat_driver drivers c = Some (snd m)" "fst m = i"
    using m by (auto simp: match_node_def split: option.splits)
  obtain s1 where s1: "sys_kalloc (pf_limine P) sizeof_device s = Inr (a + 16, s1)"
    "heap_at (pf_limine P) s1 T xs (a + 72) (n - 72) (insert (a, 72) U)"
    "irq_view (ts_core s1) = irq_view (ts_core s)" "mc_devices s1 = mc_devices s" "mc_dmanager s1 = mc_dmanager s"
    "\<not> IS_ERR (a + 16)" "a + 16 \<noteq> nullptr" "a + 16 \<notin> set qs" "in_blocks (insert (a, 72) U) ((a + 16) # qs)"
    using kalloc_device [OF h] by blast
  let ?d = "(new_device (a + 16) (snd m) i s1)\<lparr>dv_next := dm_device_list (mc_dmanager s)\<rparr>"
  let ?s = "s1\<lparr>mc_devices := (mc_devices s)(a + 16 \<mapsto> ?d), mc_dmanager := (mc_dmanager s)\<lparr>dm_device_list := a + 16\<rparr>\<rparr>"
  have run: "discover_node P drivers i s = Inr ?s"
    using c s1 by (simp add: discover_node_def insert_device_def update_dev_def dev_at_def)
  have "devs_rep (mc_devices ?s) (dm_device_list (mc_dmanager s)) qs" using s1(8) by (intro devs_rep_frame [OF rep]) auto
  then have "devs_rep (mc_devices ?s) (dm_device_list (mc_dmanager ?s)) ((a + 16) # qs)" using s1(7) by simp
  moreover have "shows_device ?s (a + 16) m" using c(3) by (simp add: shows_device_def new_device_def)
  moreover have "\<forall>q \<in> set qs. mc_devices ?s q = mc_devices s q" using s1(8) by auto
  moreover have "heap_at (pf_limine P) ?s T xs (a + 72) (n - 72) (insert (a, 72) U)" using s1(2) by (simp add: heap_at_def)
  ultimately show ?thesis using run s1(3,9) by (intro exI [of _ ?s]) (simp del: devs_rep.simps)
qed

lemma discover_loop_run:
  assumes "chain (pf_tree P) i ns" and "heap_at (pf_limine P) s T xs a n U" and "in_blocks U qs"
    and "72 * length (found (pf_tree P) drivers ns) + 16 \<le> unat n"
    and "devs_rep (mc_devices s) (dm_device_list (mc_dmanager s)) qs"
  shows "\<exists>s' ps. discover_loop P drivers i s = Some (Inr s') \<and>
    devs_rep (mc_devices s') (dm_device_list (mc_dmanager s')) (rev ps @ qs) \<and>
    list_all2 (shows_device s') ps (found (pf_tree P) drivers ns) \<and> (\<forall>q \<in> set qs. mc_devices s' q = mc_devices s q) \<and>
    irq_view (ts_core s') = irq_view (ts_core s) \<and> dm_lock (mc_dmanager s') = dm_lock (mc_dmanager s)"
  using assms
proof (induction ns arbitrary: i s a n U qs)
  case Nil
  then have "discover_loop P drivers i s = Some (Inr s)" by (subst discover_loop.simps) simp
  then show ?case using Nil by (intro exI [of _ s] exI [of _ "[]"]) (simp add: found_def List.map_filter_simps)
next
  case (Cons m ms)
  have i: "i = m" "\<not> m < 0" "chain (pf_tree P) (lib_next_node (pf_tree P) m) ms" using Cons.prems(1) by auto
  show ?case
  proof (cases "match_node (pf_tree P) drivers m")
    case None
    have "discover_loop P drivers i s = discover_loop P drivers (lib_next_node (pf_tree P) m) s"
      using i discover_node_none [OF None] by (subst discover_loop.simps) (simp add: fdt_traverse_next_node_def)
    moreover have f: "found (pf_tree P) drivers (m # ms) = found (pf_tree P) drivers ms" by (simp add: found_Cons None)
    ultimately show ?thesis using Cons.IH [OF i(3) Cons.prems(2,3) _ Cons.prems(5)] Cons.prems(4) by simp
  next
    case (Some e)
    have f: "found (pf_tree P) drivers (m # ms) = e # found (pf_tree P) drivers ms" by (simp add: found_Cons Some)
    then have z: "72 + 16 \<le> unat n" "72 * length (found (pf_tree P) drivers ms) + 16 \<le> unat (n - 72)"
      using Cons.prems(4) take_device(2) [of n] by simp_all
    obtain s1 where s1: "discover_node P drivers m s = Inr s1"
      "heap_at (pf_limine P) s1 T xs (a + 72) (n - 72) (insert (a, 72) U)"
      "devs_rep (mc_devices s1) (dm_device_list (mc_dmanager s1)) ((a + 16) # qs)" "shows_device s1 (a + 16) e"
      "\<forall>q \<in> set qs. mc_devices s1 q = mc_devices s q" "in_blocks (insert (a, 72) U) ((a + 16) # qs)"
      "irq_view (ts_core s1) = irq_view (ts_core s)" "dm_lock (mc_dmanager s1) = dm_lock (mc_dmanager s)"
      using discover_node_run [OF Cons.prems(2) z(1) Cons.prems(3,5) Some] by blast
    obtain s' ps where s': "discover_loop P drivers (lib_next_node (pf_tree P) m) s1 = Some (Inr s')"
      "devs_rep (mc_devices s') (dm_device_list (mc_dmanager s')) (rev ps @ (a + 16) # qs)"
      "list_all2 (shows_device s') ps (found (pf_tree P) drivers ms)" "\<forall>q \<in> set ((a + 16) # qs). mc_devices s' q = mc_devices s1 q"
      "irq_view (ts_core s') = irq_view (ts_core s1)" "dm_lock (mc_dmanager s') = dm_lock (mc_dmanager s1)"
      using Cons.IH [OF i(3) s1(2,6) z(2) s1(3)] by blast
    have "discover_loop P drivers i s = Some (Inr s')"
      using i s1(1) s'(1) by (subst discover_loop.simps) (simp add: fdt_traverse_next_node_def)
    moreover have "shows_device s' (a + 16) e" using s1(4) s'(4) by (simp add: shows_device_def)
    ultimately show ?thesis
      using s' s1(5,7,8) unfolding f by (intro exI [of _ s'] exI [of _ "(a + 16) # ps"]) simp
  qed
qed

section \<open>Readying\<close>

lemma ready_device_cases:
  assumes "mc_devices s device = Some d" and "dv_state d \<noteq> DEVICE_READY" and "dr_device_class (dv_driver d) \<noteq> DEVICE_UNKNOWN"
    and "run_probe P junk (dr_probe (dv_driver d)) device s = Inr (ret, s1)" and "mc_devices s1 device = Some d1"
  shows "dmanager_ready_device P junk device s =
    Inr (ret, if ret = errnum EOK then s1\<lparr>mc_devices := (mc_devices s1)(device \<mapsto> d1\<lparr>dv_state := DEVICE_READY\<rparr>)\<rparr> else s1)"
  using assms by (simp add: dmanager_ready_device_def dev_at_def update_dev_def)

section \<open>Claims\<close>

text \<open>
  C19.  Discovery is complete.  When the traversal of the device tree visits the nodes \<open>ns\<close> and the heap has
  room, \<open>dmanager_init\<close> returns with one device object per node that has a driver (the first driver in link
  order that lists the node's first compatible string), each in the state discovered and naming its node and
  driver; the device list holds exactly these, last found first.
\<close>

theorem dmanager_init_discovers:
  assumes "core_ok 3 (ts_core s)" and "chain (pf_tree P) (lib_next_node (pf_tree P) (- 1)) ns"
    and "heap_at (pf_limine P) (s\<lparr>ts_core := irq_push_intr (ts_core s)\<rparr>) T xs a n U"
    and "72 * length (found (pf_tree P) drivers ns) + 16 \<le> unat n" and "dm_device_list (mc_dmanager s) = nullptr"
  shows "\<exists>s' ps. dmanager_init P drivers s = Inr ((), s') \<and>
    devs_rep (mc_devices s') (dm_device_list (mc_dmanager s')) (rev ps) \<and>
    list_all2 (shows_device s') ps (found (pf_tree P) drivers ns) \<and>
    irq_view (ts_core s') = irq_view (ts_core s) \<and> lock_free (dm_lock (mc_dmanager s'))"
proof -
  let ?s = "s\<lparr>mc_dmanager := (mc_dmanager s)\<lparr>dm_lock := spinlock_init ''driver manager''\<rparr>\<rparr>"
  let ?p = "?s\<lparr>ts_core := irq_push_intr (ts_core s)\<rparr>"
  have c: "core_ok (Suc 2) (ts_core ?s)" using assms(1) by (simp add: numeral_3_eq_3 numeral_2_eq_2)
  have h: "heap_at (pf_limine P) ?p T xs a n U" using assms(3) by (simp add: heap_at_def)
  have b: "in_blocks U []" "devs_rep (mc_devices ?p) (dm_device_list (mc_dmanager ?p)) []"
    using assms(5) by (simp_all add: in_blocks_def)
  obtain s1 ps where s1: "discover_loop P drivers (lib_next_node (pf_tree P) (- 1)) ?p = Some (Inr s1)"
    "devs_rep (mc_devices s1) (dm_device_list (mc_dmanager s1)) (rev ps)" "list_all2 (shows_device s1) ps (found (pf_tree P) drivers ns)"
    "irq_view (ts_core s1) = irq_view (irq_push_intr (ts_core s))" "dm_lock (mc_dmanager s1) = spinlock_init ''driver manager''"
    using discover_loop_run [OF assms(2) h b(1) assms(4) b(2)] by auto
  let ?b = "\<lambda>s. bindE (endsE (discover_loop P drivers (fdt_traverse_next_node (pf_tree P) (- 1)) s)) (\<lambda>r. bindE r (\<lambda>s. Inr ((), s)))"
  have "?b (?s\<lparr>ts_core := irq_push_intr (ts_core ?s)\<rparr>) = Inr ((), s1)" using s1(1) by (simp add: fdt_traverse_next_node_def)
  from with_dm_lock_returns [where body = ?b, OF c _ this] s1(4,5) obtain c' where
    "with_dm_lock ?b ?s = Inr ((), s1\<lparr>ts_core := c'\<rparr>)" "irq_view c' = irq_view (ts_core s)" by auto
  moreover have "shows_device (s1\<lparr>ts_core := c'\<rparr>) = shows_device s1" by (intro ext) (simp add: shows_device_def)
  ultimately show ?thesis
    using s1(2,3,5) by (intro exI [of _ "s1\<lparr>ts_core := c'\<rparr>"] exI [of _ ps]) (simp add: dmanager_init_def)
qed

text \<open>A tree with an interrupt controller at node 8, a serial line at node 16 and a node without a driver.\<close>

definition prop_string :: "string \<Rightarrow> u8 list" where
  "prop_string str = map of_char str @ [0]"

lemma char_of_byte: "char_of (unat (of_char c :: u8)) = c"
proof -
  have "unat (of_char c :: u8) = of_char c"
    by (cases c) (simp add: of_char_def horner_sum_simps)
  then show ?thesis by simp
qed

definition demo_nodes_tree :: libfdt where
  "demo_nodes_tree = demo_tree\<lparr>
     lib_next_node := (\<lambda>n. if n < 0 then 0 else if n = 0 then 8 else if n = 8 then 16 else if n = 16 then 24 else - 1),
     lib_getprop := (\<lambda>n name. if name \<noteq> ''compatible'' then Inl (- 1)
       else if n = 8 then Inr (prop_string ''arm,cortex-a15-gic'') else if n = 16 then Inr (prop_string ''arm,pl011'')
       else if n = 24 then Inr (prop_string ''gpio-keys'') else Inl (- 1))\<rparr>"

lemma compat_string:
  assumes "lib_getprop L n ''compatible'' = Inr (prop_string str)" and "CHR 0x00 \<notin> set str"
  shows "fdt_get_compat L n = Some str"
proof -
  have "(of_char c :: u8) \<noteq> 0" if "c \<in> set str" for c
  proof
    assume "(of_char c :: u8) = 0"
    then have "char_of (unat (of_char c :: u8)) = CHR 0x00" by (simp add: char_of_def)
    then show False using that assms(2) by (simp only: char_of_byte)
  qed
  then have "takeWhile (\<lambda>b. b \<noteq> 0) (prop_string str) = map of_char str"
    unfolding prop_string_def by (subst takeWhile_append2) auto
  then show ?thesis using assms(1) by (simp add: fdt_get_compat_def char_of_byte o_def)
qed

lemma heap_exists:
  "\<exists>li kh v T xs pool. \<forall>c. core_ok (Suc (Suc 0)) c \<longrightarrow> kheap_inv li kh (set_core c v) T xs [(pool, 5001216)] {}"
proof -
  obtain li kh v T xs pool where "sys_inv li (boot_sys kh v) (\<lambda>_. []) (\<lambda>_. []) T xs [(pool, 5001216)] {} []"
    using boot_exists by blast
  then have k: "kheap_inv li (sys_heap (boot_sys kh v)) (set_core (ts_core (boot_sys kh v)) (sys_vm (boot_sys kh v))) T xs [(pool, 5001216)] {}"
    by (simp add: sys_inv_def)
  have "kheap_inv li (sys_heap (boot_sys kh v)) (set_core c (sys_vm (boot_sys kh v))) T xs [(pool, 5001216)] {}"
    if c: "core_ok (Suc (Suc 0)) c" for c
  proof -
    have "heap_inv li (kh_freelist (sys_heap (boot_sys kh v))) (set_core (ts_core (boot_sys kh v)) (sys_vm (boot_sys kh v))) T xs [(pool, 5001216)] {}"
      "lock_free (kh_lock (sys_heap (boot_sys kh v)))" using k by (simp_all add: kheap_inv_def)
    from kheap_inv_again [OF c refl this] show ?thesis by (cases "sys_heap (boot_sys kh v)") (simp add: set_core_def)
  qed
  then show ?thesis by blast
qed

theorem dmanager_init_discovers_witness:
  "\<exists>li kh v s' ps. dmanager_init \<lparr>pf_hw = \<lambda>_ _ _. 0, pf_limine = li, pf_tree = demo_nodes_tree\<rparr> [pl011_driver, armgicv2_driver]
      ((demo_machine kh v)\<lparr>mc_devices := Map.empty, mc_dmanager := \<lparr>dm_device_list = 0, dm_lock = spinlock_init []\<rparr>\<rparr>) = Inr ((), s') \<and>
    devs_rep (mc_devices s') (dm_device_list (mc_dmanager s')) (rev ps) \<and>
    list_all2 (shows_device s') ps [(8, armgicv2_driver), (16, pl011_driver)]"
proof -
  let ?d = "[pl011_driver, armgicv2_driver]"
  obtain li kh v T xs pool where k: "\<forall>c. core_ok (Suc (Suc 0)) c \<longrightarrow> kheap_inv li kh (set_core c v) T xs [(pool, 5001216)] {}"
    using heap_exists by blast
  let ?s = "(demo_machine kh v)\<lparr>mc_devices := Map.empty, mc_dmanager := \<lparr>dm_device_list = 0, dm_lock = spinlock_init []\<rparr>\<rparr>"
  let ?P = "\<lparr>pf_hw = \<lambda>_ _ _. 0, pf_limine = li, pf_tree = demo_nodes_tree\<rparr>"
  have c: "core_ok 3 (ts_core ?s)" by (simp add: demo_machine_def core_ok_def)
  then have "core_ok (Suc (Suc 0)) (irq_push_intr (ts_core ?s))" by (intro core_ok_push) (simp add: numeral_3_eq_3)
  then have h: "heap_at (pf_limine ?P) (?s\<lparr>ts_core := irq_push_intr (ts_core ?s)\<rparr>) T xs pool 5001216 {}"
    using k by (simp add: heap_at_def demo_machine_def)
  have ch: "chain (pf_tree ?P) (lib_next_node (pf_tree ?P) (- 1)) [0, 8, 16, 24]" by (simp add: demo_nodes_tree_def)
  have m: "match_node demo_nodes_tree ?d 0 = None" "match_node demo_nodes_tree ?d 8 = Some (8, armgicv2_driver)"
    "match_node demo_nodes_tree ?d 16 = Some (16, pl011_driver)" "match_node demo_nodes_tree ?d 24 = None"
    using compat_string [of demo_nodes_tree 8 "''arm,cortex-a15-gic''"] compat_string [of demo_nodes_tree 16 "''arm,pl011''"]
      compat_string [of demo_nodes_tree 24 "''gpio-keys''"]
    by (simp_all add: match_node_def find_compat_driver_def pl011_driver_def armgicv2_driver_def demo_nodes_tree_def fdt_get_compat_def)
  have f: "found (pf_tree ?P) ?d [0, 8, 16, 24] = [(8, armgicv2_driver), (16, pl011_driver)]"
    by (simp add: found_Cons m) (simp add: found_def List.map_filter_simps)
  have r: "72 * length (found (pf_tree ?P) ?d [0, 8, 16, 24]) + 16 \<le> unat (5001216 :: usize)" unfolding f by simp
  have n: "dm_device_list (mc_dmanager ?s) = nullptr" by simp
  obtain s' ps where "dmanager_init ?P ?d ?s = Inr ((), s')" "devs_rep (mc_devices s') (dm_device_list (mc_dmanager s')) (rev ps)"
    "list_all2 (shows_device s') ps [(8, armgicv2_driver), (16, pl011_driver)]"
    using dmanager_init_discovers [OF c ch h r n] unfolding f by blast
  then show ?thesis by blast
qed

text \<open>
  \<open>dmanager_get_by_class\<close> always returns, leaves devices, list and interrupt state alone, and finds the
  first device of the class in the list, or \<open>-ENOENT\<close> when the list has none; readying a device a second
  time does nothing.
\<close>

lemma dmanager_lookup:
  assumes "core_ok (Suc k) (ts_core s)" and "lock_free (dm_lock (mc_dmanager s))"
    and "devs_rep (mc_devices s) (dm_device_list (mc_dmanager s)) qs"
  shows "\<exists>p c'. dmanager_get_by_class cls s = Inr (p, s\<lparr>ts_core := c'\<rparr>) \<and> irq_view c' = irq_view (ts_core s) \<and>
    (if \<exists>q \<in> set qs. class_of (mc_devices s) q = Some cls
     then \<exists>pre post. qs = pre @ p # post \<and> class_of (mc_devices s) p = Some cls \<and> (\<forall>q \<in> set pre. class_of (mc_devices s) q \<noteq> Some cls) \<and>
       (map_option dv_state (mc_devices s p) = Some DEVICE_READY \<longrightarrow>
          dmanager_ready_device P junk p (s\<lparr>ts_core := c'\<rparr>) = Inr (errnum EOK, s\<lparr>ts_core := c'\<rparr>))
     else p = ERR_TO_PTR (- errnum ENOENT))"
proof -
  obtain c' where c': "dmanager_get_by_class cls s =
      Inr (case find (\<lambda>q. class_of (mc_devices s) q = Some cls) qs of Some q \<Rightarrow> q | None \<Rightarrow> ERR_TO_PTR (- errnum ENOENT), s\<lparr>ts_core := c'\<rparr>)"
    "irq_view c' = irq_view (ts_core s)" using get_by_class_run [OF assms] by blast
  show ?thesis
  proof (cases "find (\<lambda>q. class_of (mc_devices s) q = Some cls) qs")
    case None
    then have "\<not> (\<exists>q \<in> set qs. class_of (mc_devices s) q = Some cls)" by (auto simp: find_None_iff)
    with None show ?thesis using c' by (intro exI [of _ "ERR_TO_PTR (- errnum ENOENT)"] exI [of _ c']) simp
  next
    case (Some p)
    then obtain i where i: "i < length qs" "class_of (mc_devices s) (qs ! i) = Some cls" "p = qs ! i"
      "\<forall>j < i. class_of (mc_devices s) (qs ! j) \<noteq> Some cls" by (auto simp: find_Some_iff)
    have q: "qs = take i qs @ p # drop (Suc i) qs" using i(1,3) by (simp add: id_take_nth_drop)
    have pre: "\<forall>q \<in> set (take i qs). class_of (mc_devices s) q \<noteq> Some cls" using i(1,4) by (auto simp: in_set_conv_nth)
    have "dmanager_ready_device P junk p (s\<lparr>ts_core := c'\<rparr>) = Inr (errnum EOK, s\<lparr>ts_core := c'\<rparr>)"
      if "map_option dv_state (mc_devices s p) = Some DEVICE_READY"
      using that by (auto simp: dmanager_ready_device_def dev_at_def)
    moreover have "\<exists>q \<in> set qs. class_of (mc_devices s) q = Some cls" using i by auto
    ultimately show ?thesis using c' Some q pre i(2,3) by (intro exI [of _ p] exI [of _ c']) auto
  qed
qed

end
