(* ===== verification/Timer.thy ===== *)
theory Timer
  imports Device_Manager
begin

text \<open>
  The tick: \<open>kernel/core/timer.c\<close> and \<open>kernel/include/core/timer.h\<close>, and the handlers the interrupt
  dispatch can call.
\<close>

section \<open>Operations\<close>

definition CONFIG_TIMER_RESCHED_MS :: usize where "CONFIG_TIMER_RESCHED_MS = 100"

definition ticks_from_seconds :: "usize \<Rightarrow> usize \<Rightarrow> usize" where
  "ticks_from_seconds frequency seconds = frequency * seconds"

definition ticks_from_miliseconds :: "usize \<Rightarrow> usize \<Rightarrow> usize" where
  "ticks_from_miliseconds frequency ms = (let one_milisecond = frequency div 1000 in one_milisecond * ms)"

text \<open>A write to \<open>cpu->timer\<close>.\<close>

definition update_cpu_timer :: "ptr \<Rightarrow> (cpu_timer \<Rightarrow> cpu_timer) \<Rightarrow> machine \<Rightarrow> kerror + machine" where
  "update_cpu_timer p f s = bindE (cpu_at p s) (\<lambda>c. Inr (set_cpu p (c\<lparr>cpu_timer := f (cpu_timer c)\<rparr>) s))"

definition timer_global_init :: "platform \<Rightarrow> fdt_interrupt \<Rightarrow> machine \<Rightarrow> kerror + machine" where
  "timer_global_init P junk s =
     bindE (dmanager_get_by_class_and_ready P junk DEVICE_TIMER s) (\<lambda>(device, s).
     let s = s\<lparr>mc_timer := (mc_timer s)\<lparr>tm_device := device\<rparr>\<rparr> in
     if IS_ERR device then Inl (Panic ''no timer device found'')
     else
       bindE (timer_of device s) (\<lambda>d.
       let s = s\<lparr>mc_timer := (mc_timer s)\<lparr>tm_frequency := timer_frequency s\<rparr>\<rparr> in
       bindE (interrupt_id (pf_tree P) d) (\<lambda>irq. irq_set_handler irq Timer_tick nullptr s)))"

definition timer_cpu_init :: "hardware \<Rightarrow> ptr \<Rightarrow> machine \<Rightarrow> kerror + machine" where
  "timer_cpu_init hw cpu s =
     bindE (update_cpu_timer cpu (\<lambda>t. t\<lparr>ct_ticks := 0\<rparr>) s) (\<lambda>s.
     bindE (update_cpu_timer cpu (\<lambda>t. t\<lparr>ct_resched_after := ticks_from_miliseconds (tm_frequency (mc_timer s)) CONFIG_TIMER_RESCHED_MS\<rparr>) s) (\<lambda>s.
     irq_enable_cpu hw s))"

definition timer_cpu_enable :: "libfdt \<Rightarrow> ptr \<Rightarrow> machine \<Rightarrow> kerror + machine" where
  "timer_cpu_enable L cpu s =
     bindE (timer_of (tm_device (mc_timer s)) s) (\<lambda>d.
     bindE (interrupt_id L d) (\<lambda>irq.
     bindE (irq_enable_irq irq s) (\<lambda>s.
     bindE (cpu_at cpu s) (\<lambda>c.
     Inr (enable_timer (fire_from_now (ct_resched_after (cpu_timer c)) s))))))"

definition timer_init :: "platform \<Rightarrow> fdt_interrupt \<Rightarrow> machine \<Rightarrow> kerror + machine" where
  "timer_init P junk s =
     bindE (timer_global_init P junk s) (\<lambda>s.
     let cpu = this_cpu (ts_core s) in
     bindE (timer_cpu_init (pf_hw P) cpu s) (\<lambda>s. timer_cpu_enable (pf_tree P) cpu s))"

definition timer_cpu_resched :: "ptr \<Rightarrow> machine \<Rightarrow> kerror + machine" where
  "timer_cpu_resched cpu s =
     bindE (timer_of (tm_device (mc_timer s)) s) (\<lambda>_.
     bindE (cpu_at cpu s) (\<lambda>c. Inr (fire_from_now (ct_resched_after (cpu_timer c)) s)))"

definition timer_tick :: "machine \<Rightarrow> kerror + machine" where
  "timer_tick s =
     (let cpu = this_cpu (ts_core s) in
      bindE (update_cpu_timer cpu (\<lambda>t. t\<lparr>ct_ticks := ct_ticks t + 1\<rparr>) s) (timer_cpu_resched cpu))"

text \<open>The handlers the dispatcher can find in the table; \<open>c\<close> as for the receive handler.\<close>

definition run_handler :: "hardware \<Rightarrow> ptr \<Rightarrow> irq_handler \<Rightarrow> ptr \<Rightarrow> machine \<Rightarrow> kerror + machine" where
  "run_handler hw c h data s =
     (case h of Timer_tick \<Rightarrow> timer_tick s | Recieve_irq_handler \<Rightarrow> recieve_irq_handler hw c data s)"

section \<open>The period\<close>

text \<open>The rounding of the division costs less than one tick per millisecond, and nothing overflows.\<close>

lemma ticks_bounds:
  assumes "unat frequency < 2 ^ 32" and "unat ms < 2 ^ 32"
  shows "unat (ticks_from_miliseconds frequency ms) * 1000 \<le> unat frequency * unat ms"
    and "unat frequency * unat ms < unat (ticks_from_miliseconds frequency ms) * 1000 + 1000 * unat ms + 1"
proof -
  let ?q = "unat frequency div 1000" and ?m = "unat ms"
  have "?q * ?m < 2 ^ 32 * 2 ^ 32" using assms by (intro mult_strict_mono) auto
  then have u: "unat (ticks_from_miliseconds frequency ms) = ?q * ?m"
    by (simp add: ticks_from_miliseconds_def Let_def unat_mult_u64 unat_div)
  have "?q * 1000 \<le> unat frequency" by simp
  from mult_le_mono1 [OF this, of ?m] show "unat (ticks_from_miliseconds frequency ms) * 1000 \<le> unat frequency * ?m"
    unfolding u by (simp add: algebra_simps)
  have "unat frequency \<le> ?q * 1000 + 1000" by (metis div_mult_mod_eq add_le_cancel_left mod_less_divisor less_imp_le_nat zero_less_numeral)
  from mult_le_mono1 [OF this, of ?m] show "unat frequency * ?m < unat (ticks_from_miliseconds frequency ms) * 1000 + 1000 * ?m + 1"
    unfolding u by (simp add: algebra_simps)
qed

lemma timer_frequency_bound: "unat (timer_frequency s) < 2 ^ 32"
  unfolding timer_frequency_def
  using unsigned_less [of "r_counter_timer_freq s", where ?'a = nat]
  by (simp add: unsigned_ucast_eq take_bit_nat_eq_self)

section \<open>The tick\<close>

lemma timer_tick_run:
  assumes "sc_cpus s (this_cpu (ts_core s)) = Some c" and "timer_of (tm_device (mc_timer s)) s = Inr d"
  shows "timer_tick s = Inr (s\<lparr>sc_cpus := (sc_cpus s)(this_cpu (ts_core s) \<mapsto> c\<lparr>cpu_timer := (cpu_timer c)\<lparr>ct_ticks := ct_ticks (cpu_timer c) + 1\<rparr>\<rparr>),
    cntp_tval_el0 := ct_resched_after (cpu_timer c)\<rparr>)"
proof -
  have f: "timer_of p (s\<lparr>sc_cpus := x\<rparr>) = timer_of p s" for p x by (simp add: timer_of_def dev_at_def)
  show ?thesis
    using assms by (simp add: timer_tick_def update_cpu_timer_def cpu_at_def set_cpu_def timer_cpu_resched_def f fire_from_now_def Let_def)
qed

lemma chip_frame_fields [simp]:
  "chip_data p (s\<lparr>mc_timer := x\<rparr>) = chip_data p s" "chip_data p (s\<lparr>sc_cpus := y\<rparr>) = chip_data p s"
  "chip_data p (s\<lparr>cntp_tval_el0 := w\<rparr>) = chip_data p s" "chip_data p (s\<lparr>cntp_ctl_el0 := w\<rparr>) = chip_data p s"
  "chip_data p (console_put c s) = chip_data p s"
  by (simp_all add: chip_data_def dev_at_def gic_data_at_def console_put_def cong: device_ops.case_cong)

lemma chip_ready_fields [simp]:
  "chip_ready (s\<lparr>mc_timer := x\<rparr>) data = chip_ready s data" "chip_ready (s\<lparr>sc_cpus := y\<rparr>) data = chip_ready s data"
  "chip_ready (s\<lparr>cntp_tval_el0 := w\<rparr>) data = chip_ready s data" "chip_ready (s\<lparr>cntp_ctl_el0 := w\<rparr>) data = chip_ready s data"
  "chip_ready (console_put c s) data = chip_ready s data"
  by (simp_all add: chip_ready_def) (simp add: console_put_def)

lemma timer_of_frame [simp]:
  "timer_of p (s\<lparr>mc_bus := b\<rparr>) = timer_of p s" "timer_of p (s\<lparr>mc_timer := x\<rparr>) = timer_of p s"
  "timer_of p (s\<lparr>sc_cpus := y\<rparr>) = timer_of p s" "timer_of p (s\<lparr>mc_irq := z\<rparr>) = timer_of p s"
  by (simp_all add: timer_of_def dev_at_def)

section \<open>The receive interrupt\<close>

lemma receive_run:
  fixes hw :: hardware
  assumes d: "mc_devices s device = Some d" "mc_pl011_data s (dv_driver_data d) = Some data" and u: "uart_block (pd_base_addr data)"
    and i: "input_ok (console_view s)" "rb_foreign (con_recv_rb (mc_console s)) c"
      "Suc (length (received (console_view s))) < rb_cap (con_recv_rb (mc_console s))"
  defines "ch \<equiv> ucast (hw (mc_bus s) 1 (reg_address (pd_base_addr data) + UARTDR)) :: u8"
  shows "\<exists>s'. recieve_irq_handler hw c device s = Inr s' \<and> received (console_view s') = received (console_view s) @ [ch] \<and>
    input_ok (console_view s') \<and> (\<forall>g. chip_ready s' g = chip_ready s g) \<and>
    mc_bus s' = mc_bus s @ [Rd 1 (reg_address (pd_base_addr data) + UARTDR) (ucast ch), Wr 1 (reg_address (pd_base_addr data) + UARTICR) 0]"
proof -
  let ?a = "reg_address (pd_base_addr data)"
  let ?s = "s\<lparr>mc_bus := mc_bus s @ [Rd 1 (?a + UARTDR) (ucast ch)]\<rparr>"
  have v: "console_view (s\<lparr>mc_bus := b\<rparr>) = console_view s" for b by (simp add: console_view_def)
  have ch: "ucast (hw (mc_bus s) (Suc 0) (?a + UARTDR)) = ch" by (simp add: ch_def)
  have "con_recv_rb (cs_console (console_view s)) = con_recv_rb (mc_console s)" by (simp add: console_view_def)
  then obtain k where k: "console_receive_char c ch (console_view s) = Inr (errnum EOK, k)" "input_ok k" "received k = received (console_view s) @ [ch]"
    using console_receive_spec [of "console_view s" c ch] i by auto
  have p: "console_view (console_put k ?s) = k" by (simp add: console_view_def console_put_def set_mem_def)
  let ?t = "(console_put k ?s)\<lparr>mc_bus := mc_bus ?s @ [Wr 1 (?a + UARTICR) 0]\<rparr>"
  have b: "mc_bus (console_put k ?s) = mc_bus ?s" by (simp add: console_put_def)
  have "recieve_irq_handler hw c device s = Inr ?t"
    using d in_uart_block(5,8) [OF u] k(1) b
    by (simp add: recieve_irq_handler_def dev_at_def pl011_data_at_def from_bus_def on_console_def on_bus_def ch v)
  moreover have "console_view ?t = k" using p by (simp add: console_view_def)
  moreover have "chip_ready ?t g = chip_ready s g" for g by simp
  ultimately show ?thesis using k by (intro exI [of _ ?t]) simp
qed

section \<open>Arming the timer\<close>

lemma interrupt_enabled:
  assumes r: "chip_ready s data" and i: "unat irq < MAX_IRQ"
  shows "\<exists>b. irq_enable_irq irq s = Inr (s\<lparr>mc_bus := b\<rparr>) \<and>
    ds_enabled (dist_view (reg_address (gd_dist data)) b d) =
      (ds_enabled (dist_view (reg_address (gd_dist data)) (mc_bus s) d))(unat irq := True)"
proof -
  obtain b where "arm_gic_irq_enable data irq (mc_bus s) = Inr b"
    "ds_enabled (dist_view (reg_address (gd_dist data)) b d) = (ds_enabled (dist_view (reg_address (gd_dist data)) (mc_bus s) d))(unat irq := True)"
    using gicv2.enable_one [of data irq "mc_bus s"] r i by (auto simp: chip_ready_def MAX_IRQ_def)
  then show ?thesis using r by (auto simp: irq_enable_irq_def chip_ready_def on_bus_def)
qed

lemma cpu_enabled:
  assumes "chip_ready s data"
  shows "\<exists>b. irq_enable_cpu hw s = Inr (s\<lparr>mc_bus := b\<rparr>)"
proof -
  have "dist_block (gd_dist data)" "cpu_block (gd_dist data) (gd_cpu data)" using assms by (simp_all add: chip_ready_def)
  from cpu_init_run [OF this, of hw "mc_bus s" undefined] obtain b where "cpu_init hw data (mc_bus s) = Inr b" by blast
  then show ?thesis using assms by (auto simp: irq_enable_cpu_def chip_ready_def on_bus_def)
qed

lemma get_timer_run:
  assumes c: "core_ok (Suc k) (ts_core s)" "lock_free (dm_lock (mc_dmanager s))"
    and q: "devs_rep (mc_devices s) (dm_device_list (mc_dmanager s)) qs" "find (\<lambda>q. class_of (mc_devices s) q = Some DEVICE_TIMER) qs = Some p"
    and d: "mc_devices s p = Some d" "dv_driver d = armv8_timer_driver" "dv_state d \<noteq> DEVICE_READY" and e: "\<not> IS_ERR p"
  shows "\<exists>c'. dmanager_get_by_class_and_ready P junk DEVICE_TIMER s = Inr (p, s\<lparr>ts_core := c',
      mc_devices := (mc_devices s)(p \<mapsto> d\<lparr>dv_name := ''armv8-timer'', dv_ops := Armv8_timer_ops, dv_state := DEVICE_READY\<rparr>)\<rparr>) \<and>
    irq_view c' = irq_view (ts_core s)"
proof -
  obtain c' where c': "dmanager_get_by_class DEVICE_TIMER s = Inr (p, s\<lparr>ts_core := c'\<rparr>)" "irq_view c' = irq_view (ts_core s)"
    using get_by_class_run [OF c q(1), of DEVICE_TIMER] q(2) by auto
  have cl: "dr_device_class armv8_timer_driver = DEVICE_TIMER" "dr_probe armv8_timer_driver = Armv8_timer_probe"
    by (simp_all add: armv8_timer_driver_def)
  have "dmanager_ready_device P junk p (s\<lparr>ts_core := c'\<rparr>) = Inr (errnum EOK, s\<lparr>ts_core := c',
      mc_devices := (mc_devices s)(p \<mapsto> d\<lparr>dv_name := ''armv8-timer'', dv_ops := Armv8_timer_ops, dv_state := DEVICE_READY\<rparr>)\<rparr>)"
    using ready_device_cases [of "s\<lparr>ts_core := c'\<rparr>" p d P junk "errnum EOK"
        "s\<lparr>ts_core := c', mc_devices := (mc_devices s)(p \<mapsto> d\<lparr>dv_name := ''armv8-timer'', dv_ops := Armv8_timer_ops\<rparr>)\<rparr>"] d cl
    by (simp add: run_probe_def armv8_timer_probe_def update_dev_def dev_at_def)
  then show ?thesis using c' e by (intro exI [of _ c']) (simp add: dmanager_get_by_class_and_ready_def)
qed

lemma chip_ready_device:
  assumes "p \<noteq> ic_device (mc_irq s)"
  shows "chip_ready (s\<lparr>mc_devices := (mc_devices s)(p \<mapsto> d)\<rparr>) data = chip_ready s data"
proof -
  have "dev_at (ic_device (mc_irq s)) (s\<lparr>mc_devices := (mc_devices s)(p \<mapsto> d)\<rparr>) = dev_at (ic_device (mc_irq s)) s"
    "\<And>q. gic_data_at q (s\<lparr>mc_devices := (mc_devices s)(p \<mapsto> d)\<rparr>) = gic_data_at q s"
    using assms by (auto simp: dev_at_def gic_data_at_def)
  then show ?thesis by (simp add: chip_ready_def chip_data_def cong: device_ops.case_cong)
qed

definition timer_waiting :: "machine \<Rightarrow> ptr \<Rightarrow> device \<Rightarrow> bool" where
  "timer_waiting s p d \<longleftrightarrow> mc_devices s p = Some d \<and> dv_driver d = armv8_timer_driver \<and> dv_state d \<noteq> DEVICE_READY \<and>
     \<not> IS_ERR p \<and> p \<noteq> ic_device (mc_irq s)"

lemma timer_global_init_run:
  assumes c: "core_ok (Suc k) (ts_core s)" "lock_free (dm_lock (mc_dmanager s))"
    and q: "devs_rep (mc_devices s) (dm_device_list (mc_dmanager s)) qs" "find (\<lambda>q. class_of (mc_devices s) q = Some DEVICE_TIMER) qs = Some p"
    and d: "timer_waiting s p d" and i: "interrupt_id (pf_tree P) d = Inr irq" "unat irq < MAX_IRQ" and r: "chip_ready s data"
  defines "d' \<equiv> d\<lparr>dv_name := ''armv8-timer'', dv_ops := Armv8_timer_ops, dv_state := DEVICE_READY\<rparr>"
  shows "\<exists>c'. timer_global_init P junk s = Inr (s\<lparr>ts_core := c', mc_devices := (mc_devices s)(p \<mapsto> d'),
      mc_timer := \<lparr>tm_device = p, tm_frequency = timer_frequency s\<rparr>,
      mc_irq := (mc_irq s)\<lparr>ic_irq_table := (ic_irq_table (mc_irq s))[unat irq := \<lparr>id_handler = Some Timer_tick, id_data = nullptr\<rparr>]\<rparr>\<rparr>) \<and>
    irq_view c' = irq_view (ts_core s)"
proof -
  have t: "mc_devices s p = Some d" "dv_driver d = armv8_timer_driver" "dv_state d \<noteq> DEVICE_READY" "\<not> IS_ERR p"
    using d by (simp_all add: timer_waiting_def)
  obtain c' where c': "dmanager_get_by_class_and_ready P junk DEVICE_TIMER s = Inr (p, s\<lparr>ts_core := c', mc_devices := (mc_devices s)(p \<mapsto> d')\<rparr>)"
    "irq_view c' = irq_view (ts_core s)" using get_timer_run [OF c q t] unfolding d'_def by blast
  have "interrupt_id (pf_tree P) d' = Inr irq" using i(1) by (simp add: interrupt_id_def d'_def)
  moreover have "length (ic_irq_table (mc_irq s)) = MAX_IRQ" using r by (simp add: chip_ready_def)
  moreover have "timer_of p (s\<lparr>ts_core := c', mc_devices := (mc_devices s)(p \<mapsto> d')\<rparr>) = Inr d'"
    by (simp add: timer_of_def dev_at_def d'_def)
  moreover have "(mc_timer s)\<lparr>tm_device := p, tm_frequency := f\<rparr> = \<lparr>tm_device = p, tm_frequency = f\<rparr>" for f by (cases "mc_timer s") simp
  moreover have "timer_frequency (s\<lparr>ts_core := c', mc_devices := x, mc_timer := y\<rparr>) = timer_frequency s" for x y
    by (simp add: timer_frequency_def r_counter_timer_freq_def)
  ultimately show ?thesis
    using c' t(4) i(2) by (intro exI [of _ c']) (simp add: timer_global_init_def irq_set_handler_def Let_def)
qed

lemma timer_cpu_start:
  assumes r: "chip_ready s data" and c: "sc_cpus s q = Some c" and t: "timer_of (tm_device (mc_timer s)) s = Inr d"
    and i: "interrupt_id L d = Inr irq" "unat irq < MAX_IRQ"
  defines "R \<equiv> ticks_from_miliseconds (tm_frequency (mc_timer s)) CONFIG_TIMER_RESCHED_MS"
  shows "\<exists>b. bindE (timer_cpu_init hw q s) (timer_cpu_enable L q) =
      Inr (s\<lparr>sc_cpus := (sc_cpus s)(q \<mapsto> c\<lparr>cpu_timer := \<lparr>ct_ticks = 0, ct_resched_after = R\<rparr>\<rparr>), mc_bus := b,
        cntp_tval_el0 := R, cntp_ctl_el0 := cntp_ctl_el0 s OR BIT 0\<rparr>) \<and>
    ds_enabled (dist_view (reg_address (gd_dist data)) b dd) (unat irq)"
proof -
  let ?c = "c\<lparr>cpu_timer := \<lparr>ct_ticks = 0, ct_resched_after = R\<rparr>\<rparr>"
  let ?s = "s\<lparr>sc_cpus := (sc_cpus s)(q \<mapsto> ?c)\<rparr>"
  have f: "c\<lparr>cpu_timer := (cpu_timer c)\<lparr>ct_ticks := 0, ct_resched_after := x\<rparr>\<rparr> = c\<lparr>cpu_timer := \<lparr>ct_ticks = 0, ct_resched_after = x\<rparr>\<rparr>" for x
    by (cases "cpu_timer c") simp
  have r1: "chip_ready ?s data" using r by simp
  obtain b1 where b1: "irq_enable_cpu hw ?s = Inr (?s\<lparr>mc_bus := b1\<rparr>)" using cpu_enabled [OF r1] by blast
  have init: "timer_cpu_init hw q s = Inr (?s\<lparr>mc_bus := b1\<rparr>)"
    using c b1 by (simp add: timer_cpu_init_def update_cpu_timer_def cpu_at_def set_cpu_def R_def f)
  have r2: "chip_ready (?s\<lparr>mc_bus := b1\<rparr>) data" using r1 by simp
  obtain b where b: "irq_enable_irq irq (?s\<lparr>mc_bus := b1\<rparr>) = Inr (?s\<lparr>mc_bus := b1, mc_bus := b\<rparr>)"
    "ds_enabled (dist_view (reg_address (gd_dist data)) b dd) (unat irq)"
    using interrupt_enabled [OF r2 i(2), of dd] by auto
  have "timer_cpu_enable L q (?s\<lparr>mc_bus := b1\<rparr>) = Inr (?s\<lparr>mc_bus := b, cntp_tval_el0 := R, cntp_ctl_el0 := cntp_ctl_el0 s OR BIT 0\<rparr>)"
    using t i(1) b(1) by (simp add: timer_cpu_enable_def cpu_at_def fire_from_now_def enable_timer_def w_counter_enable_def Let_def)
  then show ?thesis using init b(2) by (intro exI [of _ b]) simp
qed

section \<open>Claims\<close>

text \<open>
  C27.  Starting the timer.  With the interrupt controller up and a timer discovered whose device tree node
  names interrupt \<open>irq\<close>, \<open>timer_init\<close> readies the device, registers the tick for \<open>irq\<close>, enables \<open>irq\<close> in
  the distributor, resets the tick count of the cpu and starts the countdown with a period that is at most
  the configured 100 ms and falls short of it by at most 100 ticks of the counter.
\<close>

theorem timer_init_arms:
  assumes "core_ok (Suc k) (ts_core s)" and "lock_free (dm_lock (mc_dmanager s))"
    and "devs_rep (mc_devices s) (dm_device_list (mc_dmanager s)) qs" and "find (\<lambda>q. class_of (mc_devices s) q = Some DEVICE_TIMER) qs = Some p"
    and "timer_waiting s p d" and "interrupt_id (pf_tree P) d = Inr irq" and "unat irq < MAX_IRQ" and "chip_ready s data"
    and "sc_cpus s (this_cpu (ts_core s)) = Some c"
  shows "\<exists>s' R. timer_init P junk s = Inr s' \<and> chip_ready s' data \<and> irq_view (ts_core s') = irq_view (ts_core s) \<and>
    ic_irq_table (mc_irq s') ! unat irq = \<lparr>id_handler = Some Timer_tick, id_data = nullptr\<rparr> \<and>
    ds_enabled (dist_view (reg_address (gd_dist data)) (mc_bus s') dd) (unat irq) \<and>
    map_option dv_state (mc_devices s' p) = Some DEVICE_READY \<and> tm_device (mc_timer s') = p \<and>
    sc_cpus s' (this_cpu (ts_core s)) = Some (c\<lparr>cpu_timer := \<lparr>ct_ticks = 0, ct_resched_after = R\<rparr>\<rparr>) \<and>
    cntp_tval_el0 s' = R \<and> r_counter_is_enabled s' \<and>
    unat R * 1000 \<le> unat (timer_frequency s) * 100 \<and> unat (timer_frequency s) * 100 \<le> unat R * 1000 + 100 * 1000"
proof -
  let ?d = "d\<lparr>dv_name := ''armv8-timer'', dv_ops := Armv8_timer_ops, dv_state := DEVICE_READY\<rparr>"
  let ?t = "(ic_irq_table (mc_irq s))[unat irq := \<lparr>id_handler = Some Timer_tick, id_data = nullptr\<rparr>]"
  obtain c' where c': "timer_global_init P junk s = Inr (s\<lparr>ts_core := c', mc_devices := (mc_devices s)(p \<mapsto> ?d),
      mc_timer := \<lparr>tm_device = p, tm_frequency = timer_frequency s\<rparr>, mc_irq := (mc_irq s)\<lparr>ic_irq_table := ?t\<rparr>\<rparr>)"
    "irq_view c' = irq_view (ts_core s)" using timer_global_init_run [OF assms(1-8)] by blast
  let ?s = "s\<lparr>ts_core := c', mc_devices := (mc_devices s)(p \<mapsto> ?d), mc_timer := \<lparr>tm_device = p, tm_frequency = timer_frequency s\<rparr>,
    mc_irq := (mc_irq s)\<lparr>ic_irq_table := ?t\<rparr>\<rparr>"
  have cpu: "this_cpu c' = this_cpu (ts_core s)" using c'(2) by (simp add: irq_view_def)
  have "chip_ready (s\<lparr>mc_devices := (mc_devices s)(p \<mapsto> ?d)\<rparr>) data"
    using chip_ready_device [of p s ?d data] assms(5,8) by (simp add: timer_waiting_def)
  then have r: "chip_ready ?s data"
    by (simp add: chip_ready_def chip_data_def dev_at_def gic_data_at_def cong: device_ops.case_cong)
  have t: "timer_of (tm_device (mc_timer ?s)) ?s = Inr ?d" "interrupt_id (pf_tree P) ?d = Inr irq"
    using assms(6) by (simp_all add: timer_of_def dev_at_def interrupt_id_def)
  define R where "R = ticks_from_miliseconds (tm_frequency (mc_timer ?s)) CONFIG_TIMER_RESCHED_MS"
  obtain b where b: "bindE (timer_cpu_init (pf_hw P) (this_cpu (ts_core s)) ?s) (timer_cpu_enable (pf_tree P) (this_cpu (ts_core s))) =
      Inr (?s\<lparr>sc_cpus := (sc_cpus ?s)(this_cpu (ts_core s) \<mapsto> c\<lparr>cpu_timer := \<lparr>ct_ticks = 0, ct_resched_after = R\<rparr>\<rparr>), mc_bus := b,
        cntp_tval_el0 := R, cntp_ctl_el0 := cntp_ctl_el0 ?s OR BIT 0\<rparr>)"
    "ds_enabled (dist_view (reg_address (gd_dist data)) b dd) (unat irq)"
    using timer_cpu_start [OF r _ t assms(7), of "this_cpu (ts_core s)" c "pf_hw P" dd] assms(9) unfolding R_def by auto
  have e: "(cntp_ctl_el0 s OR BIT 0) AND BIT 0 \<noteq> 0"
  proof
    assume "(cntp_ctl_el0 s OR BIT 0) AND BIT 0 = 0"
    then have "\<not> bit ((cntp_ctl_el0 s OR BIT 0) AND BIT 0) 0" by simp
    then show False by (simp add: bit_and_iff bit_or_iff BIT_def)
  qed
  have "unat (CONFIG_TIMER_RESCHED_MS) = 100" "unat CONFIG_TIMER_RESCHED_MS < 2 ^ 32" by (simp_all add: CONFIG_TIMER_RESCHED_MS_def)
  then have "unat R * 1000 \<le> unat (timer_frequency s) * 100" "unat (timer_frequency s) * 100 \<le> unat R * 1000 + 100 * 1000"
    using ticks_bounds [OF timer_frequency_bound [of s], of CONFIG_TIMER_RESCHED_MS] by (simp_all add: R_def)
  moreover have "length (ic_irq_table (mc_irq s)) = MAX_IRQ" using assms(8) by (simp add: chip_ready_def)
  moreover have "timer_init P junk s = Inr (?s\<lparr>sc_cpus := (sc_cpus s)(this_cpu (ts_core s) \<mapsto> c\<lparr>cpu_timer := \<lparr>ct_ticks = 0, ct_resched_after = R\<rparr>\<rparr>),
      mc_bus := b, cntp_tval_el0 := R, cntp_ctl_el0 := cntp_ctl_el0 s OR BIT 0\<rparr>)" (is "_ = Inr ?u")
    using c'(1) b(1) cpu by (simp add: timer_init_def Let_def)
  moreover have "chip_ready ?u data" using r by simp
  ultimately show ?thesis
    using b(2) c'(2) e assms(7) by (intro exI [of _ ?u] exI [of _ R]) (simp add: r_counter_is_enabled_def)
qed

text \<open>
  C17.  The timer interrupt.  When the chip reports the interrupt of the tick, the dispatcher counts one tick on
  the executing cpu, restarts the countdown with the cpu's period, signals the end of the interrupt, and
  changes nothing else.
\<close>

theorem timer_interrupt_ticks:
  assumes "chip_ready s data" and "active_irq hw data s = irq" and "unat irq < MAX_IRQ" and "ucast irq \<le> ic_interrupts_count (mc_irq s)"
    and "ic_irq_table (mc_irq s) ! unat irq = \<lparr>id_handler = Some Timer_tick, id_data = p\<rparr>"
    and "sc_cpus s (this_cpu (ts_core s)) = Some c" and "timer_of (tm_device (mc_timer s)) s = Inr d"
  shows "irq_dispatcher hw (run_handler hw a) s =
    Inr (signalled data irq ((acknowledged data irq s)\<lparr>
      sc_cpus := (sc_cpus s)(this_cpu (ts_core s) \<mapsto> c\<lparr>cpu_timer := (cpu_timer c)\<lparr>ct_ticks := ct_ticks (cpu_timer c) + 1\<rparr>\<rparr>),
      cntp_tval_el0 := ct_resched_after (cpu_timer c)\<rparr>))"
proof (rule dispatch_registered [OF assms(1-5)])
  let ?s = "acknowledged data irq s"
  have "sc_cpus ?s (this_cpu (ts_core ?s)) = Some c" "timer_of (tm_device (mc_timer ?s)) ?s = Inr d"
    using assms(6,7) by (simp_all add: acknowledged_def)
  from timer_tick_run [OF this] show "run_handler hw a Timer_tick p ?s = Inr (?s\<lparr>
      sc_cpus := (sc_cpus s)(this_cpu (ts_core s) \<mapsto> c\<lparr>cpu_timer := (cpu_timer c)\<lparr>ct_ticks := ct_ticks (cpu_timer c) + 1\<rparr>\<rparr>),
      cntp_tval_el0 := ct_resched_after (cpu_timer c)\<rparr>)"
    by (simp add: run_handler_def acknowledged_def)
  show "chip_ready (?s\<lparr>
      sc_cpus := (sc_cpus s)(this_cpu (ts_core s) \<mapsto> c\<lparr>cpu_timer := (cpu_timer c)\<lparr>ct_ticks := ct_ticks (cpu_timer c) + 1\<rparr>\<rparr>),
      cntp_tval_el0 := ct_resched_after (cpu_timer c)\<rparr>) data"
    using assms(1) by (simp add: acknowledged_def)
qed

text \<open>
  C28.  The receive interrupt.  When the chip reports the interrupt of the serial line and the input buffer has
  room, the dispatcher reads one character from the line, appends it to the characters waiting for
  \<open>console_read\<close>, and signals the end of the interrupt.
\<close>

theorem serial_interrupt_received:
  assumes "chip_ready s g" and "active_irq hw g s = irq" and "unat irq < MAX_IRQ" and "ucast irq \<le> ic_interrupts_count (mc_irq s)"
    and "ic_irq_table (mc_irq s) ! unat irq = \<lparr>id_handler = Some Recieve_irq_handler, id_data = device\<rparr>"
    and "mc_devices s device = Some d" and "mc_pl011_data s (dv_driver_data d) = Some data" and "uart_block (pd_base_addr data)"
    and "input_ok (console_view s)" and "rb_foreign (con_recv_rb (mc_console s)) c"
    and "Suc (length (received (console_view s))) < rb_cap (con_recv_rb (mc_console s))"
  shows "\<exists>s' ch. irq_dispatcher hw (run_handler hw c) s = Inr s' \<and>
    received (console_view s') = received (console_view s) @ [ch] \<and> input_ok (console_view s') \<and> chip_ready s' g \<and>
    ch = ucast (hw (mc_bus (acknowledged g irq s)) 1 (reg_address (pd_base_addr data) + UARTDR)) \<and>
    mc_bus s' = mc_bus s @ [Rd 4 (reg_address (gd_cpu g) + GICC_IAR) (ucast irq), Rd 1 (reg_address (pd_base_addr data) + UARTDR) (ucast ch),
      Wr 1 (reg_address (pd_base_addr data) + UARTICR) 0, Wr 4 (reg_address (gd_cpu g) + GICC_EOIR) (ucast irq)]"
proof -
  let ?s = "acknowledged g irq s"
  have v: "console_view ?s = console_view s" by (simp add: console_view_def acknowledged_def)
  have f: "mc_devices ?s device = Some d" "mc_pl011_data ?s (dv_driver_data d) = Some data" "input_ok (console_view ?s)"
    "rb_foreign (con_recv_rb (mc_console ?s)) c" "Suc (length (received (console_view ?s))) < rb_cap (con_recv_rb (mc_console ?s))"
    unfolding v using assms(6,7,9-11) by (simp_all add: acknowledged_def)
  let ?ch = "ucast (hw (mc_bus ?s) 1 (reg_address (pd_base_addr data) + UARTDR)) :: u8"
  obtain t where t: "recieve_irq_handler hw c device ?s = Inr t" "received (console_view t) = received (console_view ?s) @ [?ch]"
    "input_ok (console_view t)" "chip_ready t g = chip_ready ?s g"
    "mc_bus t = mc_bus ?s @ [Rd 1 (reg_address (pd_base_addr data) + UARTDR) (ucast ?ch), Wr 1 (reg_address (pd_base_addr data) + UARTICR) 0]"
    using receive_run [OF f(1,2) assms(8) f(3-5), of hw] by blast
  have r: "chip_ready t g" using t(4) assms(1) by (simp add: acknowledged_def)
  have "irq_dispatcher hw (run_handler hw c) s = Inr (signalled g irq t)"
    by (rule dispatch_registered [OF assms(1-5) _ r]) (use t(1) in \<open>simp add: run_handler_def\<close>)
  moreover have "console_view (signalled g irq t) = console_view t" by (simp add: console_view_def signalled_def)
  ultimately show ?thesis
    using t(2,3,5) r v by (intro exI [of _ "signalled g irq t"] exI [of _ ?ch]) (simp add: signalled_def acknowledged_def)
qed

section \<open>The properties on a concrete machine\<close>

text \<open>The node of a timer with four interrupts of three cells; the second is private interrupt 14.\<close>

definition timer_cells :: "u32 list" where
  "timer_cells = [1, 13, 4, 1, 14, 4, 1, 11, 4, 1, 10, 4]"

definition timer_tree :: libfdt where
  "timer_tree = demo_tree\<lparr>lib_node_offset_by_phandle := (\<lambda>_. 32),
     lib_getprop := (\<lambda>n name. if n = 8 \<and> name = ''interrupts'' then Inr (prop_of timer_cells)
       else if n = 8 \<and> name = ''interrupt-parent'' then Inr (enc32 1)
       else if n = 32 \<and> name = ''interrupt-controller'' then Inr []
       else if n = 32 \<and> name = ''#interrupt-cells'' then Inr (enc32 3) else Inl (- 1))\<rparr>"

lemma timer_tree_id:
  assumes "dv_fdt_node_offset d = 8"
  shows "interrupt_id timer_tree d = Inr 30"
proof -
  have c: "prop_cell (enc32 x) 0 = Inr x" for x using prop_cell_of [of 0 "[x]"] by (simp add: prop_of_def)
  have "interrupts_loop (prop_of timer_cells) 3 0 (replicate 4 zero_interrupt) =
      Inr (map (\<lambda>k. (replicate 4 zero_interrupt ! k)\<lparr>cells_count := int 3, cells := take 3 (drop ((0 + k) * 3) timer_cells) @
        drop 3 (cells (replicate 4 zero_interrupt ! k))\<rparr>) [0..<length (replicate 4 zero_interrupt)])"
    by (rule interrupts_loop_of) (simp_all add: timer_cells_def zero_interrupt_def MAX_INTERRUPT_CELLS_COUNT_def)
  then show ?thesis
    using assms c [of 1] c [of 3]
    by (simp add: interrupt_id_def fdt_get_interrupt_cells_def fdt_get_interrupt_cells_count_def interrupt_controller_of_def timer_tree_def
        upt_rec) (simp add: timer_cells_def)
qed

definition waiting_timer :: device where
  "waiting_timer = (demo_device armv8_timer_driver (Ops_at 0) 0 0)\<lparr>dv_state := DEVICE_DISCOVERED\<rparr>"

theorem timer_init_arms_witness:
  "\<forall>kh v hw li junk. \<exists>s'. timer_init \<lparr>pf_hw = hw, pf_limine = li, pf_tree = timer_tree\<rparr> junk
      ((demo_machine kh v)\<lparr>mc_devices := (mc_devices (demo_machine kh v))(0x6200 \<mapsto> waiting_timer)\<rparr>) = Inr s' \<and>
    ic_irq_table (mc_irq s') ! 30 = \<lparr>id_handler = Some Timer_tick, id_data = nullptr\<rparr> \<and> r_counter_is_enabled s' \<and>
    unat (cntp_tval_el0 s') * 1000 \<le> 6250000000"
proof (intro allI)
  fix kh v hw li junk
  let ?s = "(demo_machine kh v)\<lparr>mc_devices := (mc_devices (demo_machine kh v))(0x6200 \<mapsto> waiting_timer)\<rparr>"
  let ?P = "\<lparr>pf_hw = hw, pf_limine = li, pf_tree = timer_tree\<rparr>"
  have c: "core_ok (Suc 0) (ts_core ?s)" "lock_free (dm_lock (mc_dmanager ?s))"
    "devs_rep (mc_devices ?s) (dm_device_list (mc_dmanager ?s)) [0x6000, 0x6100, 0x6200]"
    by (simp_all add: demo_machine_def core_ok_def demo_device_def waiting_timer_def)
  have f: "find (\<lambda>q. class_of (mc_devices ?s) q = Some DEVICE_TIMER) [0x6000, 0x6100, 0x6200] = Some 0x6200"
    by (simp add: demo_machine_def class_of_def demo_device_def waiting_timer_def pl011_driver_def armgicv2_driver_def armv8_timer_driver_def)
  have w: "timer_waiting ?s 0x6200 waiting_timer"
    by (simp add: timer_waiting_def waiting_timer_def demo_device_def demo_machine_def IS_ERR_def)
  have i: "interrupt_id (pf_tree ?P) waiting_timer = Inr 30" "unat (30 :: u32) < MAX_IRQ"
    using timer_tree_id [of waiting_timer] by (simp_all add: waiting_timer_def demo_device_def MAX_IRQ_def)
  have r: "chip_ready ?s demo_gic"
    using chip_ready_device [of "0x6200" "demo_machine kh v" waiting_timer demo_gic] demo_chip [of kh v] by (simp add: demo_machine_def)
  have cpu: "sc_cpus ?s (this_cpu (ts_core ?s)) = Some offline_cpu" by (simp add: demo_machine_def)
  have fr: "unat (timer_frequency ?s) = 62500000"
    by (simp add: timer_frequency_def r_counter_timer_freq_def demo_machine_def EXTRACT_BITS_def)
  obtain s' R where s': "timer_init ?P junk ?s = Inr s'" "ic_irq_table (mc_irq s') ! unat (30 :: u32) = \<lparr>id_handler = Some Timer_tick, id_data = nullptr\<rparr>"
    "cntp_tval_el0 s' = R" "r_counter_is_enabled s'" "unat R * 1000 \<le> unat (timer_frequency ?s) * 100"
    using timer_init_arms [OF c f w i r cpu, of junk undefined] by blast
  then have "unat (cntp_tval_el0 s') * 1000 \<le> 6250000000" using fr by simp
  then show "\<exists>s'. timer_init ?P junk ?s = Inr s' \<and>
      ic_irq_table (mc_irq s') ! 30 = \<lparr>id_handler = Some Timer_tick, id_data = nullptr\<rparr> \<and> r_counter_is_enabled s' \<and>
      unat (cntp_tval_el0 s') * 1000 \<le> 6250000000" using s' by (intro exI [of _ s']) simp
qed

definition with_handler :: "nat \<Rightarrow> irq_handler \<Rightarrow> ptr \<Rightarrow> machine \<Rightarrow> machine" where
  "with_handler i h p s = s\<lparr>mc_irq := (mc_irq s)\<lparr>ic_irq_table := (ic_irq_table (mc_irq s))[i := \<lparr>id_handler = Some h, id_data = p\<rparr>]\<rparr>\<rparr>"

lemma with_handler_fields:
  "chip_ready (with_handler i h p (demo_machine kh v)) demo_gic" "ic_interrupts_count (mc_irq (with_handler i h p (demo_machine kh v))) = 1024"
  "i < 1024 \<Longrightarrow> ic_irq_table (mc_irq (with_handler i h p (demo_machine kh v))) ! i = \<lparr>id_handler = Some h, id_data = p\<rparr>"
  using demo_chip [of kh v] by (simp_all add: with_handler_def chip_ready_def) (simp_all add: demo_machine_def)

theorem timer_interrupt_ticks_witness:
  "\<forall>kh v a. \<exists>s' c. irq_dispatcher (\<lambda>_ _ _. 30) (run_handler (\<lambda>_ _ _. 30) a) (with_handler 30 Timer_tick 0 (demo_machine kh v)) = Inr s' \<and>
    sc_cpus s' 0x10000 = Some c \<and> ct_ticks (cpu_timer c) = ct_ticks (cpu_timer offline_cpu) + 1"
proof (intro allI)
  fix kh v a
  let ?s = "with_handler 30 Timer_tick 0 (demo_machine kh v)"
  have h: "active_irq (\<lambda>_ _ _. 30) demo_gic ?s = 30" "unat (30 :: u32) < MAX_IRQ" "ucast (30 :: u32) \<le> ic_interrupts_count (mc_irq ?s)"
    "ic_irq_table (mc_irq ?s) ! unat (30 :: u32) = \<lparr>id_handler = Some Timer_tick, id_data = 0\<rparr>"
    using with_handler_fields [of 30 Timer_tick 0 kh v] by (simp_all add: active_irq_def MAX_IRQ_def)
  have t: "sc_cpus ?s (this_cpu (ts_core ?s)) = Some offline_cpu"
    "timer_of (tm_device (mc_timer ?s)) ?s = Inr (demo_device armv8_timer_driver Armv8_timer_ops 0 0)"
    by (simp_all add: with_handler_def demo_machine_def timer_of_def dev_at_def demo_device_def)
  show "\<exists>s' c. irq_dispatcher (\<lambda>_ _ _. 30) (run_handler (\<lambda>_ _ _. 30) a) ?s = Inr s' \<and>
      sc_cpus s' 0x10000 = Some c \<and> ct_ticks (cpu_timer c) = ct_ticks (cpu_timer offline_cpu) + 1"
    using timer_interrupt_ticks [OF with_handler_fields(1) h t, of a]
    by (simp add: signalled_def acknowledged_def with_handler_def demo_machine_def)
qed

theorem serial_interrupt_received_witness:
  "\<forall>kh v. \<exists>s'. irq_dispatcher (\<lambda>_ _ _. 33) (run_handler (\<lambda>_ _ _. 33) 0x6000)
      (with_handler 33 Recieve_irq_handler 0x6100 (demo_machine kh v)) = Inr s' \<and> received (console_view s') = [33]"
proof (intro allI)
  fix kh v
  let ?s = "with_handler 33 Recieve_irq_handler 0x6100 (demo_machine kh v)"
  let ?d = "demo_device pl011_driver Pl011_ops 0x7100 0x6200"
  let ?data = "\<lparr>pd_base_addr = \<lparr>reg_size = 0x1000, reg_address = 0xffffffff90020000\<rparr>, pd_irq = 33\<rparr>"
  have h: "active_irq (\<lambda>_ _ _. 33) demo_gic ?s = 33" "unat (33 :: u32) < MAX_IRQ" "ucast (33 :: u32) \<le> ic_interrupts_count (mc_irq ?s)"
    "ic_irq_table (mc_irq ?s) ! unat (33 :: u32) = \<lparr>id_handler = Some Recieve_irq_handler, id_data = 0x6100\<rparr>"
    using with_handler_fields [of 33 Recieve_irq_handler "0x6100" kh v] by (simp_all add: active_irq_def MAX_IRQ_def)
  have d: "mc_devices ?s 0x6100 = Some ?d" "mc_pl011_data ?s (dv_driver_data ?d) = Some ?data" "uart_block (pd_base_addr ?data)"
    by (simp_all add: with_handler_def demo_machine_def demo_device_def uart_block_def)
  have cs: "cs_console (console_view ?s) = cs_console (demo_con (\<lambda>_. 0))" "core_ok (Suc 0) (cs_core (console_view ?s))"
    by (simp_all add: console_view_def with_handler_def demo_machine_def core_ok_def)
  have empty: "received (console_view ?s) = []"
    unfolding received_def cs(1) by (simp add: demo_con_defs rb_list_def rb_len_def ringbuffer_init_def)
  have i: "input_ok (console_view ?s)" using demo_con_ok(3) [of "\<lambda>_. 0"] cs unfolding input_ok_def by simp
  have m: "mc_console ?s = cs_console (demo_con (\<lambda>_. 0))" by (simp add: with_handler_def demo_machine_def)
  have f: "rb_foreign (con_recv_rb (mc_console ?s)) 0x6000"
    unfolding m rb_foreign_def demo_con_fields by (auto intro!: disjoint_regionsI simp: ringbuffer_init_def)
  have room: "Suc (length (received (console_view ?s))) < rb_cap (con_recv_rb (mc_console ?s))"
    unfolding empty m by (simp add: demo_con_fields ringbuffer_init_def)
  obtain s' ch where "irq_dispatcher (\<lambda>_ _ _. 33) (run_handler (\<lambda>_ _ _. 33) 0x6000) ?s = Inr s'"
    "received (console_view s') = received (console_view ?s) @ [ch]" "ch = ucast (33 :: u64)"
    using serial_interrupt_received [OF with_handler_fields(1) h d i f room] by blast
  then show "\<exists>s'. irq_dispatcher (\<lambda>_ _ _. 33) (run_handler (\<lambda>_ _ _. 33) 0x6000) ?s = Inr s' \<and> received (console_view s') = [33]"
    unfolding empty by auto
qed

end
