(* ===== verification/Interrupt_Setup.thy ===== *)
theory Interrupt_Setup
  imports Timer
begin

text \<open>
  Bringing the interrupt controller up: \<open>irq_controller_init\<close> down to the register writes of the probe
  function, over the heap, the regions and the page tables.
\<close>

section \<open>Memory: what an allocation and a mapping leave alone\<close>

text \<open>Pages of the region of device memory that stand for \<open>n\<close> physical pages from \<open>pa\<close> on.\<close>

definition mmio_mapped :: "vmm \<Rightarrow> tree \<Rightarrow> ptr \<Rightarrow> usize \<Rightarrow> nat \<Rightarrow> bool" where
  "mmio_mapped v T va pa n \<longleftrightarrow> (let a = vr_allocator (mmio_region v) in
     \<exists>k. va = bm_addr a k \<and> k + n \<le> bm_count a \<and> {k..<k + n} \<subseteq> bm_pages a (vm_mem v) \<and>
       (\<forall>l < n. pte T (vm_mm v) (va + of_nat l * PAGE_SIZE) = page_descriptor mmio_attrs (pa + of_nat l * PAGE_SIZE) 0))"

text \<open>Entries for \<open>f\<close> more allocations, together with a free run of \<open>n\<close> pages.\<close>

definition mmio_room :: "vmm \<Rightarrow> nat \<Rightarrow> nat \<Rightarrow> bool" where
  "mmio_room v f n \<longleftrightarrow> f \<le> free_slots (mmio_region v) \<and> (\<exists>k. bm_run (vr_allocator (mmio_region v)) (vm_mem v) n k)"

lemma mmio_room_not_exhausted:
  assumes "mmio_room v (Suc f) n" shows "\<not> region_exhausted (mmio_region v) (vm_mem v) n"
proof -
  have "filter (\<lambda>e. va_addr e = nullptr) (slots (mmio_region v)) \<noteq> []"
    using assms unfolding mmio_room_def free_slots_def by (metis Suc_le_length_iff list.discI)
  then obtain e where "e \<in> set (slots (mmio_region v))" "va_addr e = nullptr" by (auto simp: filter_empty_conv)
  then show ?thesis using assms unfolding region_exhausted_def mmio_room_def by metis
qed

text \<open>Cutting \<open>n\<close> pages anywhere out of a run of \<open>n + 2 w\<close> leaves a run of \<open>w\<close>.\<close>

lemma bm_run_sub:
  assumes "bm_run a m n k" and "k \<le> i" and "i + l \<le> k + n"
  shows "bm_run a m l i"
proof -
  have "{i..<i + l} \<subseteq> {k..<k + n}" using assms(2,3) by auto
  then show ?thesis using assms unfolding bm_run_def by fastforce
qed

lemma run_remains:
  assumes "bm_run a m (n + 2 * w) k" and "bm_pages a m' = bm_pages a m \<union> {j..<j + n}"
  shows "\<exists>k'. bm_run a m' w k'"
proof -
  have keep: "bm_run a m' w i" if "bm_run a m w i" "i + w \<le> j \<or> j + n \<le> i" for i
    using that assms(2) unfolding bm_run_def by auto
  show ?thesis
  proof (cases "k + w \<le> j \<or> j + n \<le> k")
    case True
    then show ?thesis using keep [OF bm_run_sub [OF assms(1), of k w]] by auto
  next
    case False
    then show ?thesis using keep [OF bm_run_sub [OF assms(1), of "k + n + w" w]] by auto
  qed
qed

lemma mmio_room_mono:
  assumes "mmio_room v f n" and "f' \<le> f" and "n' \<le> n"
  shows "mmio_room v f' n'"
proof -
  obtain k where "bm_run (vr_allocator (mmio_region v)) (vm_mem v) n k" using assms(1) by (auto simp: mmio_room_def)
  then have "bm_run (vr_allocator (mmio_region v)) (vm_mem v) n' k" by (rule bm_run_sub) (use assms(3) in simp_all)
  then show ?thesis using assms(1,2) by (auto simp: mmio_room_def)
qed

lemma mmio_mapped_frame:
  assumes inv: "vmm_inv li v T xs" and m: "mmio_mapped v T va pa n"
    and "mmio_region v' = mmio_region v" and "\<And>x. x \<in> bitmap_bytes (vr_allocator (mmio_region v)) \<Longrightarrow> vm_mem v' x = vm_mem v x"
    and "\<And>u. pte T' (vm_mm v') u = pte T (vm_mm v) u"
  shows "mmio_mapped v' T' va pa n"
  using m assms(3,5) bm_pages_cong [of "vr_allocator (mmio_region v)" "vm_mem v'" "vm_mem v"] assms(4)
  by (simp add: mmio_mapped_def Let_def)

text \<open>
  \<open>vm_mmio_map\<close> seen from its clients: the registers appear at a fresh range, mapped as device memory;
  the heap, what was mapped before and the free pages but three per page stay.
\<close>

lemma mmio_map_run:
  assumes inv: "kheap_inv li kh v T xs bs U" and sz: "unat sz = n * 4096" and n: "0 < n" and room: "3 * n \<le> length xs"
    and free: "mmio_room v (Suc f) (n + 2 * w)"
  shows "\<exists>va v' T' ys. vm_mmio_map li pa sz v = Inr (va, v') \<and> kheap_inv li kh v' T' ys bs U \<and>
    length xs \<le> length ys + 3 * n \<and> irq_view (vm_core v') = irq_view (vm_core v) \<and> \<not> IS_ERR va \<and>
    mmio_mapped v' T' va pa n \<and> mmio_room v' f w \<and>
    (\<forall>va0 pa0 n0. mmio_mapped v T va0 pa0 n0 \<longrightarrow> mmio_mapped v' T' va0 pa0 n0 \<and>
       (\<forall>x. in_region x va (n * 4096) \<longrightarrow> \<not> in_region x va0 (n0 * 4096)))"
proof -
  let ?r = "region_of MmioRegion v" and ?k = "region_of KernelMemRegion v"
  let ?a = "vr_allocator ?r"
  have h: "lock_free (kh_lock kh)" "core_ok (Suc (Suc 0)) (vm_core v)" "vmm_inv li v T xs"
    "heap_rep (kh_freelist kh) (vm_mem v) bs U" "fl_bytes bs \<union> (\<Union>u \<in> U. block u) \<subseteq> live_bytes ?k"
    using inv by (simp_all add: kheap_inv_def heap_inv_def)
  obtain k0 where k0: "bm_run ?a (vm_mem v) (n + 2 * w) k0" using free by (auto simp: mmio_room_def)
  have "\<exists>k. bm_run ?a (vm_mem v) n k" using bm_run_sub [OF k0, of k0 n] by auto
  then have "mmio_room v (Suc f) n" using free by (simp add: mmio_room_def)
  then have ne: "\<not> region_exhausted ?r (vm_mem v) n" using mmio_room_not_exhausted by simp
  have d: "unat sz div 4096 = n" "IS_PAGE_ALIGNED sz" using sz by (simp_all add: IS_PAGE_ALIGNED_iff)
  obtain k v1 s' T' ys where m: "vm_map li pa sz MmioRegion mmio_attrs v = Inr (bm_addr ?a k, v1\<lparr>vm_mm := s'\<rparr>)"
    "vmm_inv li (v1\<lparr>vm_mm := s'\<rparr>) T' ys" and tk: "pages_taken li v T xs MmioRegion n k v1"
    and l: "length xs \<le> length ys + 3 * n" and st: "pt_step T xs (vm_mm v1) T' ys s'"
    and p: "\<And>u. pte T' s' u = range_pte mmio_attrs (bm_addr ?a k) pa n (pte T (vm_mm v)) u"
    using vm_map_spec [OF h(3) d(2), unfolded d(1), OF n room, of pa MmioRegion mmio_attrs] ne by blast
  let ?v = "v1\<lparr>vm_mm := s'\<rparr>"
  note td = pages_takenD [OF h(3) tk n]
  note ap = regions_apartD [OF vmm_invD(4) [OF h(3)]]
  have "\<forall>j. j \<noteq> MmioRegion \<longrightarrow> region_of j v1 = region_of j v" using tk unfolding pages_taken_def Let_def by blast
  then have other: "region_of KernelMemRegion v1 = ?k" by blast
  have t: "\<And>j. vr_allocator (region_of j v1) = vr_allocator (region_of j v)"
    "bm_run ?a (vm_mem v) n k" "bm_pages ?a (vm_mem v1) = bm_pages ?a (vm_mem v) \<union> {k..<k + n}"
    "bm_frame ?a (vm_mem v) (vm_mem v1)" "irq_view (vm_core v1) = irq_view (vm_core v)"
    "free_slots ?r = Suc (free_slots (region_of MmioRegion v1))"
    using tk by (simp_all add: pages_taken_def Let_def)
  have mem: "mm_mem s' x = vm_mem v1 x" if "x \<in> bitmap_bytes ?a \<union> range_bytes (vr_allocator ?k)" for x
    using st ap(2) [of _ x] that unfolding pt_step_def by blast
  have pages: "bm_pages ?a (mm_mem s') = bm_pages ?a (vm_mem v) \<union> {k..<k + n}"
    using bm_pages_cong [of ?a "mm_mem s'" "vm_mem v1"] mem t(3) by simp
  have live: "mm_mem s' x = vm_mem v x" if x: "x \<in> live_bytes ?k" for x
  proof -
    have r: "x \<in> range_bytes (vr_allocator ?k)" by (rule live_index(1) [OF h(3) x])
    then have "x \<notin> bitmap_bytes ?a" using ap(3) by blast
    with r mem [of x] t(4) show ?thesis by (simp add: bm_frame_bytes)
  qed
  have view: "irq_view (vm_core ?v) = irq_view (vm_core v)" using st t(5) by (simp add: pt_step_def)
  have rep: "heap_rep (kh_freelist kh) (vm_mem ?v) bs U"
  proof (rule heap_rep_frame [OF h(4)])
    show "same_outside (- live_bytes ?k) (vm_mem v) (vm_mem ?v)" using live by (simp add: same_outside_def)
  qed (use h(5) in auto)
  have live2: "live_bytes (region_of KernelMemRegion ?v) = live_bytes ?k" using other by simp
  have "core_ok (Suc (Suc 0)) (vm_core ?v)" using core_ok_view [OF view] h(2) by blast
  then have heap: "kheap_inv li kh ?v T' ys bs U"
    using h m(2) rep live2 by (simp add: kheap_inv_def heap_inv_def)
  have al: "vr_allocator (mmio_region ?v) = ?a" using t(1) [of MmioRegion] by simp
  have here: "mmio_mapped ?v T' (bm_addr ?a k) pa n"
    unfolding mmio_mapped_def Let_def al
  proof (intro exI [of _ k] conjI allI impI)
    show "{k..<k + n} \<subseteq> bm_pages ?a (vm_mem ?v)" using pages by simp
    show "pte T' (vm_mm ?v) (bm_addr ?a k + of_nat l * PAGE_SIZE) = page_descriptor mmio_attrs (pa + of_nat l * PAGE_SIZE) 0"
      if "l < n" for l
      using td(2,4) that by (simp add: p) (intro range_pte_at; simp)
  qed (use td(1) in simp_all)
  have kept: "mmio_mapped ?v T' va0 pa0 n0 \<and> (\<forall>x. in_region x (bm_addr ?a k) (n * 4096) \<longrightarrow> \<not> in_region x va0 (n0 * 4096))"
    if m0: "mmio_mapped v T va0 pa0 n0" for va0 pa0 n0
  proof -
    obtain j where j: "va0 = bm_addr ?a j" "j + n0 \<le> bm_count ?a" "{j..<j + n0} \<subseteq> bm_pages ?a (vm_mem v)"
      "\<And>l. l < n0 \<Longrightarrow> pte T (vm_mm v) (va0 + of_nat l * PAGE_SIZE) = page_descriptor mmio_attrs (pa0 + of_nat l * PAGE_SIZE) 0"
      using m0 by (auto simp: mmio_mapped_def Let_def)
    have disj: "{k..<k + n} \<inter> {j..<j + n0} = {}" using t(2) j(3) unfolding bm_run_def by blast
    have "pte T' s' (va0 + of_nat l * PAGE_SIZE) = page_descriptor mmio_attrs (pa0 + of_nat l * PAGE_SIZE) 0" if l: "l < n0" for l
    proof -
      have "vpn (bm_addr ?a (j + l)) \<noteq> vpn (bm_addr ?a (k + i))" if i: "i < n" for i
      proof
        assume "vpn (bm_addr ?a (j + l)) = vpn (bm_addr ?a (k + i))"
        then have "j + l = k + i"
          by (rule contrapos_pp) (use vpn_bm_addr_inj [OF h(3), of "j + l" MmioRegion "k + i"] i l j(2) td(1) in simp)
        then have "j + l \<in> {k..<k + n} \<inter> {j..<j + n0}" using i l by simp
        then show False using disj by blast
      qed
      then have "pte T' s' (va0 + of_nat l * PAGE_SIZE) = pte T (vm_mm v) (va0 + of_nat l * PAGE_SIZE)"
        unfolding p by (intro range_pte_outside) (simp add: j(1) bm_addr_step)
      then show ?thesis using j(4) [OF l] by simp
    qed
    then have "mmio_mapped ?v T' va0 pa0 n0" unfolding mmio_mapped_def Let_def al
      by (intro exI [of _ j]) (use j(1-3) pages in auto)
    moreover have "\<not> in_region x va0 (n0 * 4096)" if "in_region x (bm_addr ?a k) (n * 4096)" for x
    proof
      assume x: "in_region x va0 (n0 * 4096)"
      then have "0 < n0" by (auto simp: in_region_def)
      then have "(unat x - unat (bm_pool ?a)) div 4096 \<in> {j..<j + n0}"
        using x range_index [OF vmm_invD(6) [OF h(3)] j(2)] unfolding j(1) by blast
      moreover have "(unat x - unat (bm_pool ?a)) div 4096 \<in> {k..<k + n}"
        using that range_index [OF vmm_invD(6) [OF h(3)] td(1) n] by blast
      ultimately show False using disj by blast
    qed
    ultimately show ?thesis by blast
  qed
  have "mmio_room ?v f w"
    using free t(6) run_remains [OF k0 pages] al by (simp add: mmio_room_def)
  then show ?thesis
    using m(1) heap l view here kept not_IS_ERR_aligned [OF td(3)]
    by (intro exI [of _ "bm_addr ?a k"] exI [of _ ?v] exI [of _ T'] exI [of _ ys]) (simp add: vm_mmio_map_def)
qed

section \<open>The same in the machine\<close>

abbreviation vm_of :: "machine \<Rightarrow> vmm" where
  "vm_of s \<equiv> set_core (ts_core s) (sys_vm s)"

lemma set_core_own [simp]: "set_core (vm_core v) v = v" "set_core c (set_core c' v) = set_core c v" "mmio_region (set_core c v) = mmio_region v"
  by (simp_all add: set_core_def)

lemma mmio_core [simp]: "mmio_room (set_core c v) f n = mmio_room v f n" "mmio_mapped (set_core c v) T va pa n = mmio_mapped v T va pa n"
  by (simp_all add: mmio_room_def mmio_mapped_def pte_def Let_def)

lemma sys_kalloc_run:
  assumes inv: "kheap_inv li (sys_heap s) (vm_of s) T xs bs U" and fit: "fl_take (sz + 16) bs = Some (b, bs')" "sz \<noteq> 0" "unat sz + 16 < 2 ^ 64"
  shows "\<exists>kh v. sys_kalloc li sz s = Inr (fst b + 16, s\<lparr>ts_core := vm_core v, sys_heap := kh, sys_vm := v\<rparr>) \<and>
    kheap_inv li kh v T xs bs' (insert b U) \<and> \<not> IS_ERR (fst b + 16) \<and> irq_view (vm_core v) = irq_view (ts_core s) \<and>
    (\<forall>f n. mmio_room v f n = mmio_room (sys_vm s) f n) \<and>
    (\<forall>va pa n. mmio_mapped (sys_vm s) T va pa n \<longrightarrow> mmio_mapped v T va pa n)"
proof -
  let ?a = "vr_allocator (region_of MmioRegion (vm_of s))"
  obtain kh m c where k: "kalloc li sz (sys_heap s) (vm_of s) = Inr (fst b + 16, kh, set_core c (set_mem m (vm_of s)))"
    "kheap_inv li kh (set_core c (set_mem m (vm_of s))) T xs bs' (insert b U)" "\<not> IS_ERR (fst b + 16)"
    "irq_view c = irq_view (vm_core (vm_of s))" "same_outside (fl_bytes bs) (vm_mem (vm_of s)) m"
    using kalloc_fits_frame [OF inv fit] by blast
  let ?v = "set_core c (set_mem m (vm_of s))"
  have h: "vmm_inv li (vm_of s) T xs" "fl_bytes bs \<subseteq> live_bytes (region_of KernelMemRegion (vm_of s))"
    using inv by (simp_all add: kheap_inv_def heap_inv_def)
  note ap = regions_apartD [OF vmm_invD(4) [OF h(1)]]
  have out: "m x = vm_mem (vm_of s) x" if "x \<notin> live_bytes (region_of KernelMemRegion (vm_of s))" for x
    using k(5) h(2) that unfolding same_outside_def by blast
  have bits: "m x = vm_mem (vm_of s) x" if "x \<in> bitmap_bytes ?a" for x
    using out live_index(1) [OF h(1)] ap(3) that by blast
  have region: "mmio_region ?v = mmio_region (sys_vm s)" by (simp add: set_core_def set_mem_def)
  have pages: "bm_pages ?a m = bm_pages ?a (vm_mem (vm_of s))" by (rule bm_pages_cong) (rule bits)
  then have room: "mmio_room ?v f n = mmio_room (sys_vm s) f n" for f n
    using region by (simp add: mmio_room_def bm_run_def)
  have "pte T (vm_mm ?v) u = pte T (vm_mm (vm_of s)) u" for u
  proof (rule pt_inv_cong(2) [OF vmm_invD(1) [OF h(1)]])
    show "vm_mem ?v x = vm_mem (vm_of s) x" if "p \<in> ran T \<union> set xs" "x \<in> page_bytes p" for p x
      using out [of x] live_index(1) [OF h(1), of x KernelMemRegion] ap(2) [OF that, of KernelMemRegion] by auto
  qed (use k(4) in \<open>simp_all\<close>)
  then have "mmio_mapped ?v T va pa n" if "mmio_mapped (sys_vm s) T va pa n" for va pa n
    using mmio_mapped_frame [OF h(1), of va pa n ?v T] that region bits by simp
  then show ?thesis
    using k room by (intro exI [of _ kh] exI [of _ ?v]) (simp add: sys_kalloc_def)
qed

lemma sys_mmio_map_run:
  assumes "kheap_inv li kh (vm_of s) T xs bs U" and "unat sz = n * 4096" and "0 < n" and "3 * n \<le> length xs"
    and "mmio_room (sys_vm s) (Suc f) (n + 2 * w)"
  shows "\<exists>va v T' ys. sys_mmio_map li pa sz s = Inr (va, s\<lparr>ts_core := vm_core v, sys_vm := v\<rparr>) \<and> kheap_inv li kh v T' ys bs U \<and>
    length xs \<le> length ys + 3 * n \<and> irq_view (vm_core v) = irq_view (ts_core s) \<and> \<not> IS_ERR va \<and>
    mmio_mapped v T' va pa n \<and> mmio_room v f w \<and>
    (\<forall>va0 pa0 n0. mmio_mapped (sys_vm s) T va0 pa0 n0 \<longrightarrow> mmio_mapped v T' va0 pa0 n0 \<and>
       (\<forall>x. in_region x va (n * 4096) \<longrightarrow> \<not> in_region x va0 (n0 * 4096)))"
proof -
  have "mmio_room (vm_of s) (Suc f) (n + 2 * w)" using assms(5) by simp
  from mmio_map_run [OF assms(1-4) this, of pa] obtain va v T' ys where
    m: "vm_mmio_map li pa sz (vm_of s) = Inr (va, v)" "kheap_inv li kh v T' ys bs U"
      "length xs \<le> length ys + 3 * n" "irq_view (vm_core v) = irq_view (vm_core (vm_of s))" "\<not> IS_ERR va"
      "mmio_mapped v T' va pa n" "mmio_room v f w"
      "\<forall>va0 pa0 n0. mmio_mapped (vm_of s) T va0 pa0 n0 \<longrightarrow> mmio_mapped v T' va0 pa0 n0 \<and>
        (\<forall>x. in_region x va (n * 4096) \<longrightarrow> \<not> in_region x va0 (n0 * 4096))" by blast
  have "sys_mmio_map li pa sz s = Inr (va, s\<lparr>ts_core := vm_core v, sys_vm := v\<rparr>)" using m(1) by (simp add: sys_mmio_map_def)
  with m(2-7) m(8) [unfolded mmio_core] show ?thesis
    by (intro exI [of _ va] exI [of _ v] exI [of _ T'] exI [of _ ys]) simp
qed

section \<open>Probing the chip\<close>

text \<open>
  What probing needs: a device that waits for it, whose node describes two blocks of whole pages, a heap
  block for the driver data, and room for the blocks in the region of device memory and in the free pages.
  The driver also tests the driver data of the device, which nobody has set.
\<close>

definition gic_waiting :: "platform \<Rightarrow> machine \<Rightarrow> ptr \<Rightarrow> device \<Rightarrow> register \<Rightarrow> register \<Rightarrow> bool" where
  "gic_waiting P s p d r0 r1 \<longleftrightarrow> mc_devices s p = Some d \<and> dv_state d = DEVICE_DISCOVERED \<and> dv_driver d = armgicv2_driver \<and>
     \<not> IS_ERR (dv_driver_data d) \<and> fdt_get_reg (pf_tree P) (dv_fdt_node_offset d) 2 = Inr (Some [r0, r1])"

definition page_block :: "register \<Rightarrow> nat \<Rightarrow> bool" where
  "page_block r n \<longleftrightarrow> unat (reg_size r) = n * 4096 \<and> 0 < n"

lemma page_block_size: "page_block r n \<Longrightarrow> 0x1000 \<le> reg_size r"
  by (cases n) (simp_all add: page_block_def word_le_nat_alt)

lemma pool_apart:
  assumes "page_block r0 n0" and "page_block r1 n1"
    and "\<And>x. in_region x ca (n1 * 4096) \<Longrightarrow> \<not> in_region x da (n0 * 4096)"
  shows "dist_block (r0\<lparr>reg_address := da\<rparr>)" and "cpu_block (r0\<lparr>reg_address := da\<rparr>) (r1\<lparr>reg_address := ca\<rparr>)"
proof -
  show "dist_block (r0\<lparr>reg_address := da\<rparr>)" using page_block_size [OF assms(1)] by (simp add: dist_block_def)
  have "0x1000 \<le> unat (ca + off - da)" if off: "off < 0x1000" for off
  proof -
    have "unat off < 4096" using off by (simp add: word_less_nat_alt)
    then have "in_region (ca + off) ca (n1 * 4096)" using assms(2) by (cases n1) (simp_all add: page_block_def in_region_def)
    then have "\<not> in_region (ca + off) da (n0 * 4096)" by (rule assms(3))
    then show ?thesis using assms(1) by (cases n0) (simp_all add: page_block_def in_region_def)
  qed
  then show "cpu_block (r0\<lparr>reg_address := da\<rparr>) (r1\<lparr>reg_address := ca\<rparr>)"
    using page_block_size [OF assms(2)] by (simp add: cpu_block_def)
qed

lemma gic_probe_run:
  assumes inv: "kheap_inv (pf_limine P) (sys_heap s) (vm_of s) T xs bs U" and fit: "fl_take (sizeof_gicv2_data + 16) bs = Some (b, bs')"
    and dev: "gic_waiting P s p d r0 r1" and r: "page_block r0 n0" "page_block r1 n1"
    and room: "mmio_room (sys_vm s) (Suc (Suc f)) (n0 + 2 * (n1 + 2 * w))" "3 * (n0 + n1) \<le> length xs"
  shows "\<exists>kh v T' ys da ca b1 n a. armgicv2_probe P p s = Inr (errnum EOK,
        s\<lparr>ts_core := vm_core v, sys_heap := kh, sys_vm := v,
          mc_bus := mc_bus s @ b1 @ [Rd 4 (da + GICD_TYPER) a],
          mc_gic_data := (mc_gic_data s)(fst b + 16 \<mapsto>
            \<lparr>gd_dist = r0\<lparr>reg_address := da\<rparr>, gd_cpu = r1\<lparr>reg_address := ca\<rparr>, gd_interrupts_count = n\<rparr>),
          mc_devices := (mc_devices s)(p \<mapsto> d\<lparr>dv_driver_data := fst b + 16, dv_name := ''gic'', dv_ops := Gic_ops\<rparr>)\<rparr>) \<and>
    armgicv2_probe_dist (pf_hw P) (fdt_cpu_count (mc_fdt s)) (r0\<lparr>reg_address := da\<rparr>) (mc_bus s) = Inr (mc_bus s @ b1) \<and>
    kheap_inv (pf_limine P) kh v T' ys bs' (insert b U) \<and> length xs \<le> length ys + 3 * (n0 + n1) \<and> irq_view (vm_core v) = irq_view (ts_core s) \<and>
    mmio_mapped v T' da (reg_address r0) n0 \<and> mmio_mapped v T' ca (reg_address r1) n1 \<and> mmio_room v f w \<and>
    dist_block (r0\<lparr>reg_address := da\<rparr>) \<and> cpu_block (r0\<lparr>reg_address := da\<rparr>) (r1\<lparr>reg_address := ca\<rparr>)"
proof -
  have sz: "sizeof_gicv2_data \<noteq> 0" "unat sizeof_gicv2_data + 16 < 2 ^ 64" by (simp_all add: sizeof_gicv2_data_def)
  obtain kh v1 where a: "sys_kalloc (pf_limine P) sizeof_gicv2_data s = Inr (fst b + 16, s\<lparr>ts_core := vm_core v1, sys_heap := kh, sys_vm := v1\<rparr>)"
    "kheap_inv (pf_limine P) kh v1 T xs bs' (insert b U)" "\<not> IS_ERR (fst b + 16)" "irq_view (vm_core v1) = irq_view (ts_core s)"
    "\<forall>f n. mmio_room v1 f n = mmio_room (sys_vm s) f n"
    using sys_kalloc_run [OF inv fit sz] by blast
  let ?s1 = "s\<lparr>ts_core := vm_core v1, sys_heap := kh, sys_vm := v1\<rparr>"
  have 1: "kheap_inv (pf_limine P) kh (vm_of ?s1) T xs bs' (insert b U)" "mmio_room (sys_vm ?s1) (Suc (Suc f)) (n0 + 2 * (n1 + 2 * w))"
    "3 * n0 \<le> length xs" using a(2,5) room by simp_all
  obtain da v2 T2 ys2 where d: "sys_mmio_map (pf_limine P) (reg_address r0) (reg_size r0) ?s1 = Inr (da, ?s1\<lparr>ts_core := vm_core v2, sys_vm := v2\<rparr>)"
    "kheap_inv (pf_limine P) kh v2 T2 ys2 bs' (insert b U)" "length xs \<le> length ys2 + 3 * n0" "irq_view (vm_core v2) = irq_view (ts_core ?s1)"
    "\<not> IS_ERR da" "mmio_mapped v2 T2 da (reg_address r0) n0" "mmio_room v2 (Suc f) (n1 + 2 * w)"
    using sys_mmio_map_run [OF 1(1) _ _ 1(3,2), of "reg_size r0" "reg_address r0"] r(1) unfolding page_block_def by blast
  let ?s2 = "?s1\<lparr>ts_core := vm_core v2, sys_vm := v2\<rparr>"
  have 2: "kheap_inv (pf_limine P) kh (vm_of ?s2) T2 ys2 bs' (insert b U)" "mmio_room (sys_vm ?s2) (Suc f) (n1 + 2 * w)" "3 * n1 \<le> length ys2"
    using d(2,3,7) room by simp_all
  obtain ca v T' ys where c: "sys_mmio_map (pf_limine P) (reg_address r1) (reg_size r1) ?s2 = Inr (ca, ?s2\<lparr>ts_core := vm_core v, sys_vm := v\<rparr>)"
    "kheap_inv (pf_limine P) kh v T' ys bs' (insert b U)" "length ys2 \<le> length ys + 3 * n1" "irq_view (vm_core v) = irq_view (ts_core ?s2)"
    "\<not> IS_ERR ca" "mmio_mapped v T' ca (reg_address r1) n1" "mmio_room v f w"
    "\<forall>va0 pa0 n0. mmio_mapped (sys_vm ?s2) T2 va0 pa0 n0 \<longrightarrow> mmio_mapped v T' va0 pa0 n0 \<and>
       (\<forall>x. in_region x ca (n1 * 4096) \<longrightarrow> \<not> in_region x va0 (n0 * 4096))"
    using sys_mmio_map_run [OF 2(1) _ _ 2(3,2), of "reg_size r1" "reg_address r1"] r(2) unfolding page_block_def by blast
  have apart: "mmio_mapped v T' da (reg_address r0) n0" "\<And>x. in_region x ca (n1 * 4096) \<Longrightarrow> \<not> in_region x da (n0 * 4096)"
    using c(8) d(6) by auto
  let ?d = "r0\<lparr>reg_address := da\<rparr>" and ?c = "r1\<lparr>reg_address := ca\<rparr>"
  have blk: "dist_block ?d" "cpu_block ?d ?c" using pool_apart [of r0 n0 r1 n1 ca da] r apart(2) by blast+
  obtain b1 where b1: "armgicv2_probe_dist (pf_hw P) (fdt_cpu_count (mc_fdt s)) ?d (mc_bus s) = Inr (mc_bus s @ b1)"
    using probe_dist_run [OF blk(1)] by blast
  obtain n x where n: "dist_interrupts_count (pf_hw P) ?d (mc_bus s @ b1) = Inr (n, (mc_bus s @ b1) @ [Rd 4 (da + GICD_TYPER) x])"
    using count_run [OF blk(1), where hw = "pf_hw P" and b = "mc_bus s @ b1"] by auto
  have "armgicv2_probe P p s = Inr (errnum EOK, s\<lparr>ts_core := vm_core v, sys_heap := kh, sys_vm := v,
      mc_bus := mc_bus s @ b1 @ [Rd 4 (da + GICD_TYPER) x],
      mc_gic_data := (mc_gic_data s)(fst b + 16 \<mapsto> \<lparr>gd_dist = ?d, gd_cpu = ?c, gd_interrupts_count = ucast n\<rparr>),
      mc_devices := (mc_devices s)(p \<mapsto> d\<lparr>dv_driver_data := fst b + 16, dv_name := ''gic'', dv_ops := Gic_ops\<rparr>)\<rparr>)"
    using dev a(1,3) d(1,5) c(1,5) b1 n
    by (simp add: armgicv2_probe_def Let_def gic_waiting_def dev_at_def update_dev_def on_bus_def from_bus_def)
  moreover have "length xs \<le> length ys + 3 * (n0 + n1)" using d(3) c(3) by simp
  moreover have "irq_view (vm_core v) = irq_view (ts_core s)" using a(4) d(4) c(4) by simp
  ultimately show ?thesis using b1 c(2,6,7) apart(1) blk
    by (intro exI [of _ kh] exI [of _ v] exI [of _ T'] exI [of _ ys] exI [of _ da] exI [of _ ca] exI [of _ b1] exI [of _ "ucast n"] exI [of _ x]) simp
qed

section \<open>The interrupt controller\<close>

lemma kheap_inv_view:
  assumes "kheap_inv li kh v T xs bs U" and "irq_view c = irq_view (vm_core v)"
  shows "kheap_inv li kh (set_core c v) T xs bs U"
proof -
  have "core_ok (Suc (Suc 0)) c" using core_ok_view [OF assms(2)] assms(1) unfolding kheap_inv_def by blast
  with assms(1) show ?thesis by (rule kheap_inv_core)
qed

lemma irq_controller_init_run:
  assumes inv: "kheap_inv (pf_limine P) (sys_heap s) (vm_of s) T xs bs U" and fit: "fl_take (sizeof_gicv2_data + 16) bs = Some (b, bs')"
    and devs: "lock_free (dm_lock (mc_dmanager s))" "devs_rep (mc_devices s) (dm_device_list (mc_dmanager s)) qs"
      "find (\<lambda>q. class_of (mc_devices s) q = Some DEVICE_IRQCHIP) qs = Some p"
    and dev: "gic_waiting P s p d r0 r1" "\<not> IS_ERR p" and r: "page_block r0 n0" "page_block r1 n1"
    and room: "mmio_room (sys_vm s) (Suc (Suc f)) (n0 + 2 * (n1 + 2 * w))" "3 * (n0 + n1) \<le> length xs"
    and table: "length (ic_irq_table (mc_irq s)) = MAX_IRQ"
  shows "\<exists>s' T' ys data b1 b2. irq_controller_init P junk s = Inr s' \<and> chip_ready s' data \<and>
    kheap_inv (pf_limine P) (sys_heap s') (vm_of s') T' ys bs' (insert b U) \<and> length xs \<le> length ys + 3 * (n0 + n1) \<and>
    irq_view (ts_core s') = irq_view (ts_core s) \<and> lock_free (ic_lock (mc_irq s')) \<and> ic_irq_table (mc_irq s') = ic_irq_table (mc_irq s) \<and>
    mmio_mapped (sys_vm s') T' (reg_address (gd_dist data)) (reg_address r0) n0 \<and>
    mmio_mapped (sys_vm s') T' (reg_address (gd_cpu data)) (reg_address r1) n1 \<and> mmio_room (sys_vm s') f w \<and>
    armgicv2_probe_dist (pf_hw P) (fdt_cpu_count (mc_fdt s)) (gd_dist data) (mc_bus s) = Inr (mc_bus s @ b1) \<and>
    mc_bus s' = mc_bus s @ b1 @ b2 \<and> (\<forall>d. dist_view (reg_address (gd_dist data)) b2 d = d) \<and>
    map_option dv_state (mc_devices s' p) = Some DEVICE_READY"
proof -
  let ?i = "(mc_irq s)\<lparr>ic_lock := spinlock_init ''irq controller''\<rparr>"
  let ?s0 = "s\<lparr>mc_irq := ?i\<rparr>"
  have core: "core_ok (Suc (Suc 0)) (ts_core ?s0)" using inv by (simp add: kheap_inv_def)
  obtain c where c: "dmanager_get_by_class DEVICE_IRQCHIP ?s0 = Inr (p, ?s0\<lparr>ts_core := c\<rparr>)" "irq_view c = irq_view (ts_core s)"
    using get_by_class_run [OF core, of qs DEVICE_IRQCHIP] devs by auto
  let ?s = "?s0\<lparr>ts_core := c\<rparr>"
  have 1: "kheap_inv (pf_limine P) (sys_heap ?s) (vm_of ?s) T xs bs U" "gic_waiting P ?s p d r0 r1"
    "mmio_room (sys_vm ?s) (Suc (Suc f)) (n0 + 2 * (n1 + 2 * w))"
    using kheap_inv_view [OF inv, of c] c(2) dev(1) room(1) by (simp_all add: gic_waiting_def)
  obtain kh v T' ys da ca b1 n a where g: "armgicv2_probe P p ?s = Inr (errnum EOK,
        ?s\<lparr>ts_core := vm_core v, sys_heap := kh, sys_vm := v, mc_bus := mc_bus ?s @ b1 @ [Rd 4 (da + GICD_TYPER) a],
          mc_gic_data := (mc_gic_data ?s)(fst b + 16 \<mapsto>
            \<lparr>gd_dist = r0\<lparr>reg_address := da\<rparr>, gd_cpu = r1\<lparr>reg_address := ca\<rparr>, gd_interrupts_count = n\<rparr>),
          mc_devices := (mc_devices ?s)(p \<mapsto> d\<lparr>dv_driver_data := fst b + 16, dv_name := ''gic'', dv_ops := Gic_ops\<rparr>)\<rparr>)"
      "armgicv2_probe_dist (pf_hw P) (fdt_cpu_count (mc_fdt ?s)) (r0\<lparr>reg_address := da\<rparr>) (mc_bus ?s) = Inr (mc_bus ?s @ b1)"
      "kheap_inv (pf_limine P) kh v T' ys bs' (insert b U)" "length xs \<le> length ys + 3 * (n0 + n1)" "irq_view (vm_core v) = irq_view (ts_core ?s)"
      "mmio_mapped v T' da (reg_address r0) n0" "mmio_mapped v T' ca (reg_address r1) n1" "mmio_room v f w"
      "dist_block (r0\<lparr>reg_address := da\<rparr>)" "cpu_block (r0\<lparr>reg_address := da\<rparr>) (r1\<lparr>reg_address := ca\<rparr>)"
    using gic_probe_run [OF 1(1) fit 1(2) r 1(3) room(2)] by blast
  let ?data = "\<lparr>gd_dist = r0\<lparr>reg_address := da\<rparr>, gd_cpu = r1\<lparr>reg_address := ca\<rparr>, gd_interrupts_count = n\<rparr>"
  let ?d = "d\<lparr>dv_driver_data := fst b + 16, dv_name := ''gic'', dv_ops := Gic_ops, dv_state := DEVICE_READY\<rparr>"
  let ?b = "mc_bus s @ b1 @ [Rd 4 (da + GICD_TYPER) a]"
  let ?s1 = "?s\<lparr>ts_core := vm_core v, sys_heap := kh, sys_vm := v, mc_bus := ?b,
    mc_gic_data := (mc_gic_data s)(fst b + 16 \<mapsto> ?data), mc_devices := (mc_devices s)(p \<mapsto> ?d)\<rparr>"
  have ready: "dmanager_ready_device P junk p ?s = Inr (errnum EOK, ?s1)"
    using dev(1) g(1) by (simp add: dmanager_ready_device_def gic_waiting_def dev_at_def update_dev_def run_probe_def armgicv2_driver_def)
  obtain m x where m: "dist_interrupts_count (pf_hw P) (gd_dist ?data) ?b = Inr (m, ?b @ [Rd 4 (da + GICD_TYPER) x])"
    using count_run [OF g(9), where hw = "pf_hw P" and b = ?b] by auto
  let ?s' = "?s1\<lparr>mc_irq := ?i\<lparr>ic_device := p, ic_interrupts_count := ucast m\<rparr>, mc_bus := ?b @ [Rd 4 (da + GICD_TYPER) x]\<rparr>"
  have run: "irq_controller_init P junk s = Inr ?s'"
    using c(1) ready dev(2) m
    by (simp add: irq_controller_init_def Let_def chip_data_def dev_at_def gic_data_at_def from_bus_def interrupts_count_def)
  have "chip_ready ?s' ?data"
    using g(9,10) table by (simp add: chip_ready_def chip_data_def dev_at_def gic_data_at_def)
  with run g(2-8) c(2) show ?thesis
    by (intro exI [of _ ?s'] exI [of _ T'] exI [of _ ys] exI [of _ ?data] exI [of _ b1] exI [of _ "[Rd 4 (da + GICD_TYPER) a, Rd 4 (da + GICD_TYPER) x]"]) simp
qed

text \<open>A machine just after the heap is up, with memory for everything below.\<close>

lemma booted_memory:
  "\<exists>kh v T xs pool. (\<forall>c. core_ok (Suc (Suc 0)) c \<longrightarrow> kheap_inv (sized_map 8000) kh (set_core c v) T xs [(pool, 5001216)] {}) \<and>
     3000 \<le> length xs \<and> mmio_room v 8 1024"
proof -
  obtain v T xs where d: "vmm_inv (sized_map 8000) v T xs" "length xs = 8000 - 1" "core_ok (Suc (Suc 0)) (vm_core v)"
    "\<not> region_exhausted (region_of KernelMemRegion v) (vm_mem v) 1221"
    "bm_run (vr_allocator (mmio_region v)) (vm_mem v) 1024 0" "8 \<le> free_slots (mmio_region v)"
    using sized_vmm [of 8000 1221] by auto
  have "4 * 1221 \<le> length xs" using d(2) by simp
  from kheap_init_spec [OF d(1,3) this d(4)] obtain pool kh v1 T1 ys where
    k: "kheap_inv (sized_map 8000) kh v1 T1 ys [(pool, 5001216)] {}" "length xs \<le> length ys + 4 * 1221"
      "mmio_region v1 = mmio_region v"
      "bm_pages (vr_allocator (mmio_region v)) (vm_mem v1) = bm_pages (vr_allocator (mmio_region v)) (vm_mem v)"
    unfolding INITIAL_HEAP_SIZE_value by blast
  have "mmio_room v1 8 1024" using k(3,4) d(5,6) unfolding mmio_room_def bm_run_def by (simp add: exI [of _ 0])
  moreover have "3000 \<le> length ys" using k(2) d(2) by simp
  ultimately show ?thesis using kheap_inv_core [OF k(1)] by blast
qed

section \<open>Claims\<close>

text \<open>
  C38.  The interrupt controller comes up.  With a discovered GIC whose node describes two blocks of whole
  pages, a heap block for its data and room for the blocks in the region of device memory,
  \<open>irq_controller_init\<close> returns: the chip is ready for requests, its two register blocks are mapped as device
  memory at addresses apart from each other, every shared peripheral interrupt is disabled and routed to the
  cpus of the machine, the distributor forwards, the device is marked ready, and all invariants of the memory
  management hold again.
\<close>

theorem irq_controller_init_ready:
  assumes "kheap_inv (pf_limine P) (sys_heap s) (vm_of s) T xs bs U" and "fl_take (sizeof_gicv2_data + 16) bs = Some (b, bs')"
    and "lock_free (dm_lock (mc_dmanager s))" and "devs_rep (mc_devices s) (dm_device_list (mc_dmanager s)) qs"
    and "find (\<lambda>q. class_of (mc_devices s) q = Some DEVICE_IRQCHIP) qs = Some p" and "gic_waiting P s p d r0 r1" and "\<not> IS_ERR p"
    and "page_block r0 n0" and "page_block r1 n1" and "mmio_room (sys_vm s) 2 (n0 + 2 * n1)" and "3 * (n0 + n1) \<le> length xs"
    and "length (ic_irq_table (mc_irq s)) = MAX_IRQ"
  shows "\<exists>s' T' ys data. irq_controller_init P junk s = Inr s' \<and> chip_ready s' data \<and> lock_free (ic_lock (mc_irq s')) \<and>
    kheap_inv (pf_limine P) (sys_heap s') (vm_of s') T' ys bs' (insert b U) \<and>
    mmio_mapped (sys_vm s') T' (reg_address (gd_dist data)) (reg_address r0) n0 \<and>
    mmio_mapped (sys_vm s') T' (reg_address (gd_cpu data)) (reg_address r1) n1 \<and>
    map_option dv_state (mc_devices s' p) = Some DEVICE_READY \<and>
    (\<forall>d0. \<exists>d'. dist_view (reg_address (gd_dist data)) (mc_bus s') d0 = d' \<and> ds_forward d' \<and>
      (\<forall>i. 32 \<le> i \<and> i < 32 * (typer_lines (pf_hw P) (gd_dist data) (mc_bus s) + 1) \<longrightarrow> \<not> ds_enabled d' i \<and>
         (\<forall>j. bit (ds_targets d' i) j \<longleftrightarrow> j < 8 \<and> j < unat (fdt_cpu_count (mc_fdt s)))))"
proof -
  have room: "mmio_room (sys_vm s) (Suc (Suc 0)) (n0 + 2 * (n1 + 2 * 0))" using assms(10) by (simp add: numeral_2_eq_2)
  obtain s' T' ys data b1 b2 where s': "irq_controller_init P junk s = Inr s'" "chip_ready s' data"
    "kheap_inv (pf_limine P) (sys_heap s') (vm_of s') T' ys bs' (insert b U)" "lock_free (ic_lock (mc_irq s'))"
    "mmio_mapped (sys_vm s') T' (reg_address (gd_dist data)) (reg_address r0) n0"
    "mmio_mapped (sys_vm s') T' (reg_address (gd_cpu data)) (reg_address r1) n1"
    "armgicv2_probe_dist (pf_hw P) (fdt_cpu_count (mc_fdt s)) (gd_dist data) (mc_bus s) = Inr (mc_bus s @ b1)"
    "mc_bus s' = mc_bus s @ b1 @ b2" "\<forall>d. dist_view (reg_address (gd_dist data)) b2 d = d"
    "map_option dv_state (mc_devices s' p) = Some DEVICE_READY"
    using irq_controller_init_run [OF assms(1-9) room assms(11,12), where junk = junk]
    by (elim exE conjE) (rule that; assumption)
  have "\<exists>d'. dist_view (reg_address (gd_dist data)) (mc_bus s') d0 = d' \<and> ds_forward d' \<and>
      (\<forall>i. 32 \<le> i \<and> i < 32 * (typer_lines (pf_hw P) (gd_dist data) (mc_bus s) + 1) \<longrightarrow> \<not> ds_enabled d' i \<and>
         (\<forall>j. bit (ds_targets d' i) j \<longleftrightarrow> j < 8 \<and> j < unat (fdt_cpu_count (mc_fdt s))))" for d0
  proof -
    have r: "dist_block (gd_dist data)" using s'(2) by (simp add: chip_ready_def)
    let ?d = "dist_view (reg_address (gd_dist data)) (mc_bus s) d0"
    have "dist_view (reg_address (gd_dist data)) (mc_bus s') d0 = dist_view (reg_address (gd_dist data)) b1 ?d"
      using s'(8,9) by simp
    moreover obtain b' d' where b': "Inr (mc_bus s @ b1) = (Inr (mc_bus s @ b') :: kerror + bus)" "dist_view (reg_address (gd_dist data)) b' ?d = d'"
      "ds_forward d'" "\<forall>i. if 32 \<le> i \<and> i < 32 * (typer_lines (pf_hw P) (gd_dist data) (mc_bus s) + 1)
         then \<not> ds_enabled d' i \<and> ds_config d' i = 0 \<and> ds_group d' i = 0 \<and> ds_priority d' i = 0 \<and>
           (\<forall>j. bit (ds_targets d' i) j \<longleftrightarrow> j < 8 \<and> j < unat (fdt_cpu_count (mc_fdt s)))
         else ds_enabled d' i = ds_enabled ?d i \<and> ds_config d' i = ds_config ?d i \<and> ds_group d' i = ds_group ?d i \<and>
           ds_priority d' i = ds_priority ?d i \<and> ds_targets d' i = ds_targets ?d i"
      using probe_dist_configures [OF r, where hw = "pf_hw P" and cpu_count = "fdt_cpu_count (mc_fdt s)" and b = "mc_bus s" and d = ?d]
      unfolding s'(7) by blast
    ultimately show ?thesis by (intro exI [of _ d'] conjI allI impI) (use b'(4) in \<open>simp_all split: if_splits\<close>)
  qed
  with s'(1-6,10) show ?thesis by blast
qed

text \<open>The chip of the demonstration tree before it is probed.\<close>

definition waiting_chip :: device where
  "waiting_chip = \<lparr>dv_name = ''arm-gicv2'', dv_driver = armgicv2_driver, dv_state = DEVICE_DISCOVERED, dv_ops = Ops_at 0,
     dv_driver_data = 0, dv_fdt_node_offset = 8, dv_next = 0\<rparr>"

definition waiting_machine :: "kheap \<Rightarrow> vmm \<Rightarrow> machine" where
  "waiting_machine kh v = (demo_machine kh v)\<lparr>mc_devices := [0x6000 \<mapsto> waiting_chip], mc_gic_data := Map.empty\<rparr>"

lemma demo_tree_regs: "fdt_get_reg demo_tree 8 2 = Inr (Some [demo_regs ! 0, demo_regs ! 1])"
proof -
  have "\<forall>r \<in> set demo_regs. fits (unat (2 :: u32)) (unat (2 :: u32)) r"
    by (simp add: fits_def demo_regs_def drop_bit_eq_div)
  then have "fdt_get_reg demo_tree 8 c = Inr (if unat c = length demo_regs then Some demo_regs else None)" for c
    by (intro fdt_get_reg_run [where ac = 2 and sc = 2]) (simp_all add: demo_tree_def demo_regs_def)
  from this [of 2] show ?thesis by (simp add: demo_regs_def)
qed

theorem irq_controller_init_ready_witness:
  "\<exists>kh v. \<forall>junk. \<exists>s' data d'. irq_controller_init \<lparr>pf_hw = \<lambda>_ _ _. 2, pf_limine = sized_map 8000, pf_tree = demo_tree\<rparr> junk
       (waiting_machine kh v) = Inr s' \<and> chip_ready s' data \<and>
     dist_view (reg_address (gd_dist data)) (mc_bus s') \<lparr>ds_forward = False, ds_enabled = (\<lambda>_. True), ds_group = (\<lambda>_. 1),
        ds_priority = (\<lambda>_. 7), ds_targets = (\<lambda>_. 0), ds_config = (\<lambda>_. 2)\<rparr> = d' \<and>
     \<not> ds_enabled d' 95 \<and> bit (ds_targets d' 95) 3 \<and> \<not> bit (ds_targets d' 95) 4"
proof -
  let ?P = "\<lparr>pf_hw = \<lambda>_ _ _. 2, pf_limine = sized_map 8000, pf_tree = demo_tree\<rparr>"
  obtain kh v T xs pool where k: "\<forall>c. core_ok (Suc (Suc 0)) c \<longrightarrow> kheap_inv (sized_map 8000) kh (set_core c v) T xs [(pool, 5001216)] {}"
    "3000 \<le> length xs" "mmio_room v 8 1024" using booted_memory by blast
  let ?s = "waiting_machine kh v"
  have h: "kheap_inv (pf_limine ?P) (sys_heap ?s) (vm_of ?s) T xs [(pool, 5001216)] {}"
    using k(1) [rule_format, of "ts_core ?s"] by (simp add: waiting_machine_def demo_machine_def core_ok_def)
  have fit: "fl_take (sizeof_gicv2_data + 16) [(pool, 5001216)] = Some ((pool, 56), [(pool + 56, 5001160)])"
    by (simp add: fl_take_def sizeof_gicv2_data_def word_less_nat_alt word_le_nat_alt)
  have devs: "lock_free (dm_lock (mc_dmanager ?s))" "devs_rep (mc_devices ?s) (dm_device_list (mc_dmanager ?s)) [0x6000]"
    "find (\<lambda>q. class_of (mc_devices ?s) q = Some DEVICE_IRQCHIP) [0x6000] = Some 0x6000"
    "gic_waiting ?P ?s 0x6000 waiting_chip (demo_regs ! 0) (demo_regs ! 1)" "\<not> IS_ERR 0x6000"
    using demo_tree_regs
    by (simp_all add: waiting_machine_def demo_machine_def class_of_def gic_waiting_def waiting_chip_def armgicv2_driver_def IS_ERR_def)
  have r: "page_block (demo_regs ! 0) 16" "page_block (demo_regs ! 1) 16" by (simp_all add: page_block_def demo_regs_def)
  have room: "mmio_room (sys_vm ?s) 2 (16 + 2 * 16)"
    using mmio_room_mono [OF k(3), of 2 48] by (simp add: waiting_machine_def demo_machine_def)
  have tab: "length (ic_irq_table (mc_irq ?s)) = MAX_IRQ" "3 * (16 + 16) \<le> length xs"
    using k(2) by (simp_all add: waiting_machine_def demo_machine_def MAX_IRQ_def)
  have c: "fdt_cpu_count (mc_fdt ?s) = 4" by (simp add: waiting_machine_def demo_machine_def)
  let ?d0 = "\<lparr>ds_forward = False, ds_enabled = (\<lambda>_. True), ds_group = (\<lambda>_. 1), ds_priority = (\<lambda>_. 7),
    ds_targets = (\<lambda>_. 0), ds_config = (\<lambda>_. 2)\<rparr> :: distributor"
  have "\<exists>s' data d'. irq_controller_init ?P junk ?s = Inr s' \<and> chip_ready s' data \<and>
      dist_view (reg_address (gd_dist data)) (mc_bus s') ?d0 = d' \<and>
      \<not> ds_enabled d' 95 \<and> bit (ds_targets d' 95) 3 \<and> \<not> bit (ds_targets d' 95) 4" for junk
  proof -
    obtain s' data where i: "irq_controller_init ?P junk ?s = Inr s'" "chip_ready s' data"
      "\<forall>d0. \<exists>d'. dist_view (reg_address (gd_dist data)) (mc_bus s') d0 = d' \<and> ds_forward d' \<and>
        (\<forall>i. 32 \<le> i \<and> i < 32 * (typer_lines (pf_hw ?P) (gd_dist data) (mc_bus ?s) + 1) \<longrightarrow> \<not> ds_enabled d' i \<and>
           (\<forall>j. bit (ds_targets d' i) j \<longleftrightarrow> j < 8 \<and> j < unat (fdt_cpu_count (mc_fdt ?s))))"
      using irq_controller_init_ready [OF h fit devs r room tab(2,1), where junk = junk]
      by (elim exE conjE) (rule that; assumption)
    obtain d' where d': "dist_view (reg_address (gd_dist data)) (mc_bus s') ?d0 = d'"
      "\<forall>i. 32 \<le> i \<and> i < 32 * (typer_lines (pf_hw ?P) (gd_dist data) (mc_bus ?s) + 1) \<longrightarrow> \<not> ds_enabled d' i \<and>
           (\<forall>j. bit (ds_targets d' i) j \<longleftrightarrow> j < 8 \<and> j < unat (fdt_cpu_count (mc_fdt ?s)))"
      using i(3) [rule_format, of ?d0] by blast
    have "typer_lines (pf_hw ?P) (gd_dist data) (mc_bus ?s) = 2" by (simp add: typer_lines_def)
    then show ?thesis using i(1,2) d'(1) d'(2) [rule_format, of 95] c by (intro exI [of _ s'] exI [of _ data] exI [of _ d']) simp
  qed
  then show ?thesis by blast
qed

end
