(* ===== verification/Smp_Boot.thy ===== *)
theory Smp_Boot
  imports Interrupt_Setup
begin

text \<open>
  Starting the secondary cpus: the second half of \<open>kernel/core/cpu.c\<close>.

  The boot loader has parked the other cpus; each waits for its \<open>goto_address\<close> to be set.  The boot cpu
  sets them, creates its own idle task and waits for a counter, which each secondary cpu increments once it is
  set up; a secondary cpu then enters the scheduler.  The functions run one cpu; the step relation
  \<open>smp_step\<close> interleaves all of them, and \<open>smp_fails\<close> holds of the states in which some cpu's next call panics
  or faults.  A step is one call made by \<open>init_secondary_cpu\<close>, or one round or access of the boot cpu's function;
  what a call does to shared memory, as creating a task does under the locks of heap and task table, happens in
  one step, and no interrupt is taken between the steps.  The invariant says that the counter is the number of
  cpus that are set up, so the boot cpu goes on exactly when all of them are.
\<close>

section \<open>Operations\<close>

text \<open>The response of the boot loader to the multiprocessor request, as far as the code reads or writes it.\<close>

record limine_mp_info =
  mp_mpidr :: u64
  mp_goto_address :: u64

record limine_mp_response =
  mp_bsp_mpidr :: u64
  mp_cpu_count :: u64
  mp_cpus :: "limine_mp_info list"

text \<open>
  What the code runs on: the platform, the addresses of \<open>task_trampoline\<close>, \<open>task_idle\<close> and
  \<open>secondary_entry\<close> in the image, and what the heap left in the blocks of new tasks.
\<close>

record smp_env =
  en_platform :: platform
  en_trampoline :: ptr
  en_task_idle :: ptr
  en_secondary_entry :: u64
  en_junk :: task
  en_jnode :: intrusive_node

record smp =
  sm_machine :: machine
  sm_mp :: limine_mp_response
  cpus_enabled_count :: u64

abbreviation en_init_tasks :: "smp_env \<Rightarrow> u64 \<Rightarrow> machine \<Rightarrow> kerror + machine" where
  "en_init_tasks E \<equiv> common_cpu_init_tasks (pf_limine (en_platform E)) (en_trampoline E) (en_junk E) (en_jnode E) (en_task_idle E)"

text \<open>
  \<open>init_secondary_cpu\<close> up to the interrupts being enabled; \<open>mpidr\<close> is \<open>MPIDR_EL1\<close> of the cpu.
  \<open>secondary_enter\<close> is its beginning, before the first call into the timer.
\<close>

definition secondary_enter :: "smp_env \<Rightarrow> u64 \<Rightarrow> machine \<Rightarrow> kerror + machine" where
  "secondary_enter E mpidr s =
     (let s = cpu_cache_current_cpu mpidr s in
      bindE (vm_set_kernel_page_table (pf_limine (en_platform E)) (sys_vm s)) (\<lambda>v.
      let s = s\<lparr>sys_vm := v\<rparr>; cpu = this_cpu (ts_core s) in
      bindE (cpu_at cpu s) (\<lambda>c. Inr (set_cpu cpu (c\<lparr>cpu_cpuid := cpu_get_cpuid mpidr\<rparr>) s))))"

definition secondary_setup :: "smp_env \<Rightarrow> u64 \<Rightarrow> machine \<Rightarrow> kerror + machine" where
  "secondary_setup E mpidr s =
     bindE (secondary_enter E mpidr s) (\<lambda>s.
     let cpu = this_cpu (ts_core s) in
     bindE (timer_cpu_init (pf_hw (en_platform E)) cpu s) (\<lambda>s.
     bindE (timer_cpu_enable (pf_tree (en_platform E)) cpu s) (\<lambda>s.
     bindE (en_init_tasks E mpidr s) (\<lambda>s.
     Inr (s\<lparr>ts_core := w_intrd_enable (ts_core s)\<rparr>)))))"

text \<open>The last call does not return: the result is the state in which the chosen task goes on.\<close>

definition init_secondary_cpu :: "smp_env \<Rightarrow> u64 \<Rightarrow> smp \<Rightarrow> kerror + smp" where
  "init_secondary_cpu E mpidr s =
     bindE (secondary_setup E mpidr (sm_machine s)) (\<lambda>m.
     let s = s\<lparr>sm_machine := m, cpus_enabled_count := cpus_enabled_count s + 1\<rparr> in
     bindE (yield (sm_machine s)) (\<lambda>m. Inr (s\<lparr>sm_machine := m\<rparr>)))"

definition wake_secondary_cpu :: "smp_env \<Rightarrow> nat \<Rightarrow> limine_mp_response \<Rightarrow> limine_mp_response" where
  "wake_secondary_cpu E i r = r\<lparr>mp_cpus := (mp_cpus r)[i := (mp_cpus r ! i)\<lparr>mp_goto_address := en_secondary_entry E\<rparr>]\<rparr>"

text \<open>One round of the loop; the array behind the response has as many entries as it has.\<close>

definition wake_round :: "smp_env \<Rightarrow> usize \<Rightarrow> limine_mp_response \<Rightarrow> kerror + limine_mp_response" where
  "wake_round E i r =
     (if length (mp_cpus r) \<le> unat i then Inl (Fault i)
      else if mp_bsp_mpidr r = mp_mpidr (mp_cpus r ! unat i) then Inr r
      else Inr (wake_secondary_cpu E (unat i) r))"

definition boot_online :: "machine \<Rightarrow> kerror + machine" where
  "boot_online s =
     (let cpu = this_cpu (ts_core s) in bindE (cpu_at cpu s) (\<lambda>c. Inr (set_cpu cpu (c\<lparr>cpu_online := True\<rparr>) s)))"

text \<open>Run by the boot cpu while no other moves: a counter that is not yet complete makes it spin.\<close>

definition wake_secondary_cpus_and_wait :: "smp_env \<Rightarrow> u64 \<Rightarrow> smp \<Rightarrow> kerror + smp" where
  "wake_secondary_cpus_and_wait E mpidr s =
     bindE (boot_online (sm_machine s)) (\<lambda>m.
     bindE (forE (word_range 0 (mp_cpu_count (sm_mp s))) (wake_round E) (sm_mp s)) (\<lambda>r.
     bindE (en_init_tasks E mpidr m) (\<lambda>m.
     let s = s\<lparr>sm_machine := m, sm_mp := r\<rparr> in
     if mp_cpu_count (sm_mp s) \<noteq> cpus_enabled_count s then Inl Spinning else Inr s)))"

section \<open>The interleaving\<close>

text \<open>
  Each cpu has registers of its own, and the interrupt fields of its \<open>Cpu\<close> object, which only it uses, are
  kept with them; a step loads those of the cpu that makes it.
\<close>

record cpu_regs =
  rg_core :: core
  rg_context :: execution_context
  rg_ttbr1 :: u64
  rg_ctl :: u64
  rg_tval :: u64
  rg_cval :: u64

definition load_regs :: "cpu_regs \<Rightarrow> machine \<Rightarrow> machine" where
  "load_regs r s = s\<lparr>ts_core := rg_core r, sc_regs := rg_context r, sys_vm := (sys_vm s)\<lparr>ttbr1_el1 := rg_ttbr1 r\<rparr>,
     cntp_ctl_el0 := rg_ctl r, cntp_tval_el0 := rg_tval r, cntp_cval_el0 := rg_cval r\<rparr>"

definition save_regs :: "machine \<Rightarrow> cpu_regs" where
  "save_regs s = \<lparr>rg_core = ts_core s, rg_context = sc_regs s, rg_ttbr1 = ttbr1_el1 (sys_vm s),
     rg_ctl = cntp_ctl_el0 s, rg_tval = cntp_tval_el0 s, rg_cval = cntp_cval_el0 s\<rparr>"

text \<open>Where the boot cpu is in \<open>wake_secondary_cpus_and_wait\<close>, and where a secondary cpu is in \<open>init_secondary_cpu\<close>.\<close>

datatype boot_pc = Entered | Waking usize | Waiting | Finished
datatype phase = Parked | Mapped | Clocked | Armed | Created | Set_up | Counted | Idling

record smp_run = smp +
  sr_boot :: boot_pc
  sr_phase :: "nat \<Rightarrow> phase"
  sr_regs :: "nat \<Rightarrow> cpu_regs"

definition on_cpu :: "nat \<Rightarrow> (machine \<Rightarrow> kerror + machine) \<Rightarrow> smp_run \<Rightarrow> kerror + smp_run" where
  "on_cpu k f s =
     bindE (f (load_regs (sr_regs s k) (sm_machine s))) (\<lambda>m.
     Inr (s\<lparr>sm_machine := m, sr_regs := (sr_regs s)(k := save_regs m)\<rparr>))"

abbreviation cpu_mpidr :: "smp_run \<Rightarrow> nat \<Rightarrow> u64" where
  "cpu_mpidr s k \<equiv> mp_mpidr (mp_cpus (sm_mp s) ! k)"

text \<open>
  The calls of \<open>init_secondary_cpu\<close> in their order, each with the phase it is made in; the counter, which is
  no part of the machine, is incremented in the phase \<open>Set_up\<close>.
\<close>

fun secondary_op :: "smp_env \<Rightarrow> u64 \<Rightarrow> phase \<Rightarrow> machine \<Rightarrow> kerror + machine" where
  "secondary_op E mpidr Parked m = secondary_enter E mpidr m"
| "secondary_op E mpidr Mapped m = timer_cpu_init (pf_hw (en_platform E)) (this_cpu (ts_core m)) m"
| "secondary_op E mpidr Clocked m = timer_cpu_enable (pf_tree (en_platform E)) (this_cpu (ts_core m)) m"
| "secondary_op E mpidr Armed m = en_init_tasks E mpidr m"
| "secondary_op E mpidr Created m = Inr (m\<lparr>ts_core := w_intrd_enable (ts_core m)\<rparr>)"
| "secondary_op E mpidr Counted m = yield m"
| "secondary_op E mpidr Set_up m = Inr m"
| "secondary_op E mpidr Idling m = Inr m"

fun next_phase :: "phase \<Rightarrow> phase" where
  "next_phase Parked = Mapped" | "next_phase Mapped = Clocked" | "next_phase Clocked = Armed" | "next_phase Armed = Created"
| "next_phase Created = Set_up" | "next_phase Set_up = Counted" | "next_phase Counted = Idling" | "next_phase Idling = Idling"

text \<open>
  The cpu with index \<open>b\<close> in the response is the boot cpu.  A secondary cpu runs when its goto address is set, and
  makes one call at a time.
\<close>

definition calls_next :: "smp_env \<Rightarrow> nat \<Rightarrow> smp_run \<Rightarrow> nat \<Rightarrow> bool" where
  "calls_next E b s k \<longleftrightarrow> k < length (mp_cpus (sm_mp s)) \<and> k \<noteq> b \<and> sr_phase s k \<notin> {Set_up, Idling} \<and>
     (sr_phase s k = Parked \<longrightarrow> mp_goto_address (mp_cpus (sm_mp s) ! k) = en_secondary_entry E)"

inductive smp_step :: "smp_env \<Rightarrow> nat \<Rightarrow> smp_run \<Rightarrow> smp_run \<Rightarrow> bool" for E b where
  sm_online: "sr_boot s = Entered \<Longrightarrow> on_cpu b boot_online s = Inr s' \<Longrightarrow> smp_step E b s (s'\<lparr>sr_boot := Waking 0\<rparr>)"
| sm_wake: "sr_boot s = Waking i \<Longrightarrow> i < mp_cpu_count (sm_mp s) \<Longrightarrow> wake_round E i (sm_mp s) = Inr r \<Longrightarrow>
    smp_step E b s (s\<lparr>sm_mp := r, sr_boot := Waking (i + 1)\<rparr>)"
| sm_create: "sr_boot s = Waking i \<Longrightarrow> \<not> i < mp_cpu_count (sm_mp s) \<Longrightarrow> on_cpu b (en_init_tasks E (cpu_mpidr s b)) s = Inr s' \<Longrightarrow>
    smp_step E b s (s'\<lparr>sr_boot := Waiting\<rparr>)"
| sm_spin: "sr_boot s = Waiting \<Longrightarrow> mp_cpu_count (sm_mp s) \<noteq> cpus_enabled_count s \<Longrightarrow> smp_step E b s s"
| sm_leave: "sr_boot s = Waiting \<Longrightarrow> mp_cpu_count (sm_mp s) = cpus_enabled_count s \<Longrightarrow> smp_step E b s (s\<lparr>sr_boot := Finished\<rparr>)"
| sm_call: "calls_next E b s k \<Longrightarrow> on_cpu k (secondary_op E (cpu_mpidr s k) (sr_phase s k)) s = Inr s' \<Longrightarrow>
    smp_step E b s (s'\<lparr>sr_phase := (sr_phase s)(k := next_phase (sr_phase s k))\<rparr>)"
| sm_count: "sr_phase s k = Set_up \<Longrightarrow>
    smp_step E b s (s\<lparr>cpus_enabled_count := cpus_enabled_count s + 1, sr_phase := (sr_phase s)(k := Counted)\<rparr>)"

text \<open>The other outcome of the same calls: cpu \<open>k\<close> stops with error \<open>e\<close>, a panic or a fault.\<close>

inductive smp_fails :: "smp_env \<Rightarrow> nat \<Rightarrow> smp_run \<Rightarrow> nat \<Rightarrow> kerror \<Rightarrow> bool" for E b where
  online_fails: "sr_boot s = Entered \<Longrightarrow> on_cpu b boot_online s = Inl e \<Longrightarrow> smp_fails E b s b e"
| wake_fails: "sr_boot s = Waking i \<Longrightarrow> i < mp_cpu_count (sm_mp s) \<Longrightarrow> wake_round E i (sm_mp s) = Inl e \<Longrightarrow> smp_fails E b s b e"
| create_fails: "sr_boot s = Waking i \<Longrightarrow> \<not> i < mp_cpu_count (sm_mp s) \<Longrightarrow> on_cpu b (en_init_tasks E (cpu_mpidr s b)) s = Inl e \<Longrightarrow>
    smp_fails E b s b e"
| call_fails: "calls_next E b s k \<Longrightarrow> on_cpu k (secondary_op E (cpu_mpidr s k) (sr_phase s k)) s = Inl e \<Longrightarrow> smp_fails E b s k e"

section \<open>Changing registers\<close>

text \<open>The invariant of the system does not depend on the registers, nor on the devices.\<close>

lemma kheap_inv_ttbr1:
  assumes "kheap_inv li kh v T xs bs U"
  shows "kheap_inv li kh (v\<lparr>ttbr1_el1 := x\<rparr>) T xs bs U"
proof -
  have "region_of i (v\<lparr>ttbr1_el1 := x\<rparr>) = region_of i v" for i by (cases i) simp_all
  then show ?thesis using assms by (simp add: kheap_inv_def heap_inv_def vmm_inv_def regions_apart_def)
qed

lemma sys_inv_regs:
  assumes inv: "sys_inv li s Q W T xs bs U G" and c: "core_ok (Suc (Suc 0)) (ts_core s')"
    and eq: "ts_tasks s' = ts_tasks s" "ts_nodes s' = ts_nodes s" "sc_cpus s' = sc_cpus s" "sc_waits s' = sc_waits s"
      "sys_heap s' = sys_heap s" "sys_vm s' = (sys_vm s)\<lparr>ttbr1_el1 := x\<rparr>" "sys_tm s' = sys_tm s"
  shows "sys_inv li s' Q W T xs bs U G"
proof -
  have q: "queues_ok s' Q W" using sys_invD(1) [OF inv] c by (simp add: queues_ok_def store_ok_def eq)
  have "set_core (ts_core s') (sys_vm s') = set_core (ts_core s') ((set_core (ts_core s) (sys_vm s))\<lparr>ttbr1_el1 := x\<rparr>)"
    by (simp add: set_core_def eq)
  then have "kheap_inv li (sys_heap s') (set_core (ts_core s') (sys_vm s')) T xs bs U"
    using kheap_inv_core [OF kheap_inv_ttbr1 [OF sys_invD(4) [OF inv]] c] by (simp add: eq)
  then show ?thesis using inv q unfolding sys_inv_def eq by simp
qed

lemma machine_more:
  fixes s t :: machine
  assumes "ksys.more s = ksys.more t"
  shows "mc_bus s = mc_bus t" "mc_fdt s = mc_fdt t" "mc_devices s = mc_devices t" "mc_gic_data s = mc_gic_data t"
    "mc_irq s = mc_irq t" "mc_timer s = mc_timer t" "cntp_ctl_el0 s = cntp_ctl_el0 t" "cntp_tval_el0 s = cntp_tval_el0 t"
  using assms by (cases s; cases t; simp)+

text \<open>The devices that starting a cpu relies on: the interrupt controller and the timer with interrupt \<open>irq\<close>.\<close>

definition tick_ready :: "smp_env \<Rightarrow> machine \<Rightarrow> gicv2_data \<Rightarrow> u32 \<Rightarrow> bool" where
  "tick_ready E s data irq \<longleftrightarrow> chip_ready s data \<and> unat irq < MAX_IRQ \<and>
     (\<exists>d. timer_of (tm_device (mc_timer s)) s = Inr d \<and> interrupt_id (pf_tree (en_platform E)) d = Inr irq)"

lemma tick_ready_cong:
  assumes "mc_devices s = mc_devices t" and "mc_gic_data s = mc_gic_data t" and "mc_irq s = mc_irq t" and "mc_timer s = mc_timer t"
  shows "tick_ready E s data irq = tick_ready E t data irq"
proof -
  have "dev_at p s = dev_at p t" "gic_data_at p s = gic_data_at p t" for p using assms by (simp_all add: dev_at_def gic_data_at_def)
  then show ?thesis
    using assms by (simp add: tick_ready_def chip_ready_def chip_data_def timer_of_def cong: device_ops.case_cong)
qed

section \<open>Setting up a cpu\<close>

lemma set_table_run:
  assumes "kheap_inv li kh (set_core c v) T xs bs U"
  shows "vm_set_kernel_page_table li v = Inr (v\<lparr>ttbr1_el1 := kernel_page_table v - hhdm li\<rparr>)"
proof -
  have t: "tree_ok li (kernel_page_table v) T xs"
    using assms by (simp add: kheap_inv_def heap_inv_def vmm_inv_def pt_inv_def)
  then have "page_ok li (kernel_page_table v)" "limine_hhdm li \<noteq> None" by (auto simp: tree_ok_def)
  then show ?thesis
    by (auto simp: vm_set_kernel_page_table_def paging_switch_kernel_table_def virt_to_phys_def hhdm_def page_ok_def)
qed

text \<open>What the set-up of cpu \<open>p\<close> leaves, beside the invariant: \<open>m\<close> is the state before, \<open>m'\<close> after it.\<close>

definition set_up_by :: "smp_env \<Rightarrow> gicv2_data \<Rightarrow> u32 \<Rightarrow> u64 \<Rightarrow> ptr \<Rightarrow> cpu \<Rightarrow> task \<Rightarrow> machine \<Rightarrow> machine \<Rightarrow> bool" where
  "set_up_by E data irq mpidr p c tk m m' \<longleftrightarrow>
     sc_cpus m' = (sc_cpus m)(p \<mapsto> c) \<and> cpu_online c \<and> cpu_current c = nullptr \<and> cpu_cpuid c = cpu_get_cpuid mpidr \<and>
     cpu_runnable_tasks c = runqueue_init ''Runnable Task'' \<and>
     cpu_timer c = \<lparr>ct_ticks = 0, ct_resched_after = ticks_from_miliseconds (tm_frequency (mc_timer m)) CONFIG_TIMER_RESCHED_MS\<rparr> \<and>
     ts_tasks m (cpu_idle c) = None \<and> ts_tasks m' = (ts_tasks m)(cpu_idle c \<mapsto> tk) \<and> t_name tk = ''idle'' \<and> t_cpu tk = p \<and> t_state tk = TASK_READY \<and>
     t_waiting_on tk = nullptr \<and> t_entry tk = en_task_idle E \<and> cx_lr (t_context tk) = en_trampoline E \<and>
     CPUS m' = CPUS m \<and> sc_waits m' = sc_waits m \<and> this_cpu (ts_core m') = p \<and> core_ok (Suc (Suc 0)) (ts_core m') \<and> r_intrd_enabled (ts_core m') \<and>
     ttbr1_el1 (sys_vm m') = kernel_page_table (sys_vm m) - hhdm (pf_limine (en_platform E)) \<and>
     cntp_tval_el0 m' = ct_resched_after (cpu_timer c) \<and> r_counter_is_enabled m' \<and>
     (\<forall>dd. ds_enabled (dist_view (reg_address (gd_dist data)) (mc_bus m') dd) (unat irq)) \<and>
     mc_devices m' = mc_devices m \<and> mc_gic_data m' = mc_gic_data m \<and> mc_irq m' = mc_irq m \<and> mc_timer m' = mc_timer m \<and>
     tm_task_id_count (sys_tm m') = tm_task_id_count (sys_tm m) + 1"

text \<open>A cpu that has not been initialised.\<close>

definition fresh_cpu :: "cpu \<Rightarrow> bool" where
  "fresh_cpu c \<longleftrightarrow> cpu_current c = nullptr \<and> cpu_idle c = nullptr \<and> \<not> cpu_online c"


lemma counter_enabled_or: "(w OR BIT 0) AND BIT 0 \<noteq> (0 :: u64)"
proof
  assume "(w OR BIT 0) AND BIT 0 = 0"
  then have "\<not> bit ((w OR BIT 0) AND BIT 0) 0" by simp
  then show False by (simp add: bit_and_iff bit_or_iff BIT_def)
qed

lemma timer_start_all:
  assumes r: "tick_ready E s data irq" and c: "sc_cpus s q = Some c"
  defines "R \<equiv> ticks_from_miliseconds (tm_frequency (mc_timer s)) CONFIG_TIMER_RESCHED_MS"
  shows "\<exists>b. bindE (timer_cpu_init (pf_hw (en_platform E)) q s) (timer_cpu_enable (pf_tree (en_platform E)) q) =
      Inr (s\<lparr>sc_cpus := (sc_cpus s)(q \<mapsto> c\<lparr>cpu_timer := \<lparr>ct_ticks = 0, ct_resched_after = R\<rparr>\<rparr>), mc_bus := b,
        cntp_tval_el0 := R, cntp_ctl_el0 := cntp_ctl_el0 s OR BIT 0\<rparr>) \<and>
    (\<forall>dd. ds_enabled (dist_view (reg_address (gd_dist data)) b dd) (unat irq))"
proof -
  obtain d where d: "chip_ready s data" "timer_of (tm_device (mc_timer s)) s = Inr d"
    "interrupt_id (pf_tree (en_platform E)) d = Inr irq" "unat irq < MAX_IRQ" using r by (auto simp: tick_ready_def)
  let ?f = "bindE (timer_cpu_init (pf_hw (en_platform E)) q s) (timer_cpu_enable (pf_tree (en_platform E)) q)"
  let ?s = "\<lambda>b. s\<lparr>sc_cpus := (sc_cpus s)(q \<mapsto> c\<lparr>cpu_timer := \<lparr>ct_ticks = 0, ct_resched_after = R\<rparr>\<rparr>), mc_bus := b,
    cntp_tval_el0 := R, cntp_ctl_el0 := cntp_ctl_el0 s OR BIT 0\<rparr>"
  have all: "\<exists>b. ?f = Inr (?s b) \<and> ds_enabled (dist_view (reg_address (gd_dist data)) b dd) (unat irq)" for dd
    unfolding R_def by (rule timer_cpu_start [OF d(1) c d(2-4)])
  have "mc_bus (?s b) = b" for b by simp
  then have "b = b'" if "?f = Inr (?s b)" "?f = Inr (?s b')" for b b' using that by (metis sum.inject(2))
  then show ?thesis using all by metis
qed

lemma secondary_setup_run:
  fixes E and m :: machine and mpidr
  defines "p \<equiv> cpu_slot m (ucast (cpu_get_cpuid mpidr))" and "li \<equiv> pf_limine (en_platform E)"
  assumes inv: "sys_inv li (m\<lparr>ts_core := (ts_core m)\<lparr>this_cpu := p\<rparr>, sc_cpus := Y\<rparr>) Q W T xs bs U G"
    and c: "sc_cpus m p = Some c" "Y p = Some c" "fresh_cpu c" "Q p = []" and depth: "irq_disable_depth (ts_core m) = 0"
    and r: "tick_ready E m data irq" and cnt: "tm_task_id_count (sys_tm m) \<noteq> - 1"
    and fit: "fl_take (sizeof_task + 16) bs = Some (b, bs1)" "fl_take (TASK_STACK_SIZE + 16) bs1 = Some (bk, bs2)"
  shows "\<exists>m' c' tk. secondary_setup E mpidr m = Inr m' \<and> set_up_by E data irq mpidr p c' tk m m' \<and>
    sys_inv li (m'\<lparr>sc_cpus := Y(p \<mapsto> c')\<rparr>) Q W T xs bs2 (insert bk (insert b U)) (G @ [fst b + 16])"
proof -
  let ?cr = "(ts_core m)\<lparr>this_cpu := p\<rparr>" and ?v = "(sys_vm m)\<lparr>ttbr1_el1 := kernel_page_table (sys_vm m) - hhdm li\<rparr>"
  let ?g = "m\<lparr>ts_core := ?cr, sc_cpus := Y\<rparr>" and ?c1 = "c\<lparr>cpu_cpuid := cpu_get_cpuid mpidr\<rparr>"
  let ?R = "ticks_from_miliseconds (tm_frequency (mc_timer m)) CONFIG_TIMER_RESCHED_MS"
  let ?s = "m\<lparr>ts_core := ?cr, sys_vm := ?v, sc_cpus := (sc_cpus m)(p \<mapsto> ?c1)\<rparr>"
  let ?c2 = "?c1\<lparr>cpu_timer := \<lparr>ct_ticks = 0, ct_resched_after = ?R\<rparr>\<rparr>"
  note i = sys_invD [OF inv]
  have tab: "vm_set_kernel_page_table li (sys_vm m) = Inr ?v" using set_table_run i(4) by simp
  have core: "core_ok (Suc (Suc 0)) ?cr" using i(1) by (simp add: queues_ok_def)
  have r1: "tick_ready E ?s data irq" using r by (simp cong: tick_ready_cong)
  obtain w where w: "bindE (timer_cpu_init (pf_hw (en_platform E)) p ?s) (timer_cpu_enable (pf_tree (en_platform E)) p) =
      Inr (?s\<lparr>sc_cpus := (sc_cpus m)(p \<mapsto> ?c2), mc_bus := w, cntp_tval_el0 := ?R, cntp_ctl_el0 := cntp_ctl_el0 m OR BIT 0\<rparr>)"
    "\<forall>dd. ds_enabled (dist_view (reg_address (gd_dist data)) w dd) (unat irq)"
    using timer_start_all [OF r1, of p ?c1] by auto
  let ?s3 = "?s\<lparr>sc_cpus := (sc_cpus m)(p \<mapsto> ?c2), mc_bus := w, cntp_tval_el0 := ?R, cntp_ctl_el0 := cntp_ctl_el0 m OR BIT 0\<rparr>"
  let ?g3 = "?s3\<lparr>sc_cpus := Y(p \<mapsto> ?c2)\<rparr>"
  have rq: "rq_rep (cpu_runnable_tasks c) (ts_nodes m) []" using i(1) c(2,4) unfolding queues_ok_def by fastforce
  have "sys_inv li (set_cpu p ?c2 ?g) Q W T xs bs U G"
    by (rule sys_inv_set_cpu [OF inv, of p c]) (use c rq in \<open>simp_all add: fresh_cpu_def\<close>)
  then have g3: "sys_inv li ?g3 Q W T xs bs U G" by (rule sys_inv_regs) (use core in \<open>simp_all add: set_cpu_def\<close>)
  have c2: "cpu_current ?c2 = nullptr" "cpu_idle ?c2 = nullptr" "\<not> cpu_online ?c2" using c(3) by (simp_all add: fresh_cpu_def)
  let ?tk = "new_task (tm_task_id_count (sys_tm ?g3)) ''idle'' p (fst bk + 16) (en_trampoline E) (en_task_idle E) nullptr"
  let ?c3 = "brought_up mpidr (fst b + 16) ?c2"
  obtain s' where s': "\<And>X c0. X p = Some c0 \<Longrightarrow> en_init_tasks E mpidr (?g3\<lparr>sc_cpus := X\<rparr>) = Inr (s'\<lparr>sc_cpus := X(p \<mapsto> brought_up mpidr (fst b + 16) c0)\<rparr>)"
    "sys_inv li (set_cpu p ?c3 s') Q W T xs bs2 (insert bk (insert b U)) (G @ [fst b + 16])" "task_created (fst b + 16) ?tk ?g3 s'"
    using common_cpu_init_any [OF g3, of p ?c2 b bs1 bk bs2 "en_trampoline E" "en_junk E" "en_jnode E" "en_task_idle E" mpidr]
      c(4) c2 cnt fit unfolding li_def by auto
  let ?m' = "s'\<lparr>ts_core := w_intrd_enable (ts_core s'), sc_cpus := (sc_cpus m)(p \<mapsto> ?c3)\<rparr>"
  have init: "en_init_tasks E mpidr ?s3 = Inr (s'\<lparr>sc_cpus := (sc_cpus m)(p \<mapsto> ?c3)\<rparr>)"
  proof -
    have "?g3\<lparr>sc_cpus := (sc_cpus m)(p \<mapsto> ?c2)\<rparr> = ?s3" by (rule machine.equality) simp_all
    then show ?thesis using s'(1) [of "(sc_cpus m)(p \<mapsto> ?c2)" ?c2] by (simp only: fun_upd_same fun_upd_upd refl)
  qed
  have tim: "bindE (timer_cpu_init (pf_hw (en_platform E)) p ?s) (\<lambda>s. bindE (timer_cpu_enable (pf_tree (en_platform E)) p s) f) = bindE (Inr ?s3) f" for f
    unfolding w(1) [symmetric] bindE_assoc ..
  have run: "secondary_setup E mpidr m = Inr ?m'"
    using tab c(1) init
    by (simp add: secondary_setup_def secondary_enter_def cpu_cache_current_cpu_def Let_def p_def [symmetric] li_def [symmetric] cpu_at_def set_cpu_def tim)
  have tc: "sc_cpus s' = Y(p \<mapsto> ?c2)" "irq_view (ts_core s') = irq_view ?cr" "ksys.more s' = ksys.more ?g3"
    "ttbr1_el1 (sys_vm s') = kernel_page_table (sys_vm m) - hhdm li" "ts_tasks m (fst b + 16) = None" "ts_tasks s' = (ts_tasks m)(fst b + 16 \<mapsto> ?tk)"
    "CPUS s' = CPUS m" "sc_waits s' = sc_waits m" "tm_task_id_count (sys_tm s') = tm_task_id_count (sys_tm m) + 1"
    using s'(3) by (simp_all add: task_created_def)
  have view: "this_cpu (ts_core s') = p" "irq_disable_depth (ts_core s') = 0" using tc(2) depth by (simp_all add: irq_view_def)
  have core': "core_ok (Suc (Suc 0)) (w_intrd_enable (ts_core s'))" using core view by (simp add: core_ok_def)
  have "sys_inv li (?m'\<lparr>sc_cpus := Y(p \<mapsto> ?c3)\<rparr>) Q W T xs bs2 (insert bk (insert b U)) (G @ [fst b + 16])"
    by (rule sys_inv_regs [OF s'(2), where x = "ttbr1_el1 (sys_vm s')"]) (use core' tc(1) in \<open>simp_all add: set_cpu_def\<close>)
  moreover have "set_up_by E data irq mpidr p ?c3 ?tk m ?m'"
    using tc view core' w(2) machine_more [OF tc(3)] counter_enabled_or
    by (simp add: set_up_by_def brought_up_def new_task_def li_def r_counter_is_enabled_def)
  ultimately show ?thesis using run by blast
qed

section \<open>The first switch\<close>

definition idling :: "ptr \<Rightarrow> cpu \<Rightarrow> task \<Rightarrow> 'a sched_scheme \<Rightarrow> 'a sched_scheme" where
  "idling p c tk s = s\<lparr>ts_tasks := (ts_tasks s)(cpu_idle c \<mapsto> tk\<lparr>t_state := TASK_RUNNING\<rparr>),
     sc_cpus := (sc_cpus s)(p \<mapsto> c\<lparr>cpu_current := cpu_idle c\<rparr>), sc_regs := t_context tk\<rparr>"

text \<open>A cpu that is set up and has not yet entered the scheduler, with its idle task.\<close>

definition about_to_idle :: "'a sched_scheme \<Rightarrow> ptr \<Rightarrow> cpu \<Rightarrow> task \<Rightarrow> bool" where
  "about_to_idle s p c tk \<longleftrightarrow> sc_cpus s p = Some c \<and> cpu_online c \<and> cpu_current c = nullptr \<and>
     cpu_runnable_tasks c = runqueue_init ''Runnable Task'' \<and> ts_tasks s (cpu_idle c) = Some tk \<and> cpu_idle c \<noteq> nullptr \<and>
     t_cpu tk = p \<and> t_state tk = TASK_READY \<and> t_waiting_on tk = nullptr"

lemma first_switch:
  assumes "about_to_idle s p c tk" and "this_cpu (ts_core s) = p"
  shows "yield s = Inr (idling p c tk s)"
proof -
  have a: "cpu_at p s = Inr c" "task_at (cpu_idle c) s = Inr tk" "t_cpu tk = p" "t_state tk = TASK_READY" "t_waiting_on tk = nullptr"
    "cpu_idle c \<noteq> nullptr" "cpu_current c = nullptr"
    using assms by (simp_all add: about_to_idle_def cpu_at_def task_at_def)
  have e: "runqueue_is_empty (cpu_runnable_tasks c)" "runqueue_count (cpu_runnable_tasks c) = 0"
    using assms by (simp_all add: about_to_idle_def runqueue_init_def runqueue_is_empty_def runqueue_count_def intrusivelist_init_def
        intrusivelist_is_empty_def intrusivelist_count_def)
  have "run_next p nullptr (cpu_idle c) s = Inr (idling p c tk s)"
    using a e assms(2) by (simp add: run_next_def update_task_def set_task_def set_cpu_def scheduler_cpu_has_runnable_tasks_def
        load_context_def task_at_def cpu_at_def idling_def Let_def)
  then show ?thesis
    using a(1,6,7) e(1) assms(2) by (simp add: yield_def scheduler_switch_def check_prev_def requeue_prev_def scheduler_policy_pick_next_def Let_def)
qed

lemma first_switch_inv:
  assumes inv: "sys_inv li s Q W T xs bs U G" and a: "about_to_idle s p c tk" and p: "this_cpu (ts_core s) = p" and Q: "Q p = []"
  shows "sys_inv li (idling p c tk s) Q W T xs bs U G" and "sched_inv (idling p c tk s) Q W"
proof -
  let ?s = "idling p c tk s"
  have c: "sc_cpus s p = Some c" "cpu_online c" "cpu_current c = nullptr" using a by (simp_all add: about_to_idle_def)
  have "sched_inv s Q W" using sys_invD(1-3) [OF inv] c p unfolding sched_inv_def by simp
  moreover have "requeued s Q p c = []" using Q c(3) null_no_task [OF sys_invD(1) [OF inv]] by (simp add: requeued_def still_runs_def)
  moreover have "Q(p := []) = Q" using Q by (simp add: fun_upd_idem)
  ultimately show s: "sched_inv ?s Q W"
    using scheduler_switch_spec [of s Q W p c] c(1) p first_switch [OF a p] by (auto simp: yield_def)
  have tk: "ts_tasks s (cpu_idle c) = Some tk" using a by (simp add: about_to_idle_def)
  have f: "ts_nodes ?s = ts_nodes s" "ts_core ?s = ts_core s" "sys_heap ?s = sys_heap s" "sys_vm ?s = sys_vm s" "sys_tm ?s = sys_tm s"
    "dom (ts_tasks ?s) = dom (ts_tasks s)" "\<And>t. map_option t_tid (ts_tasks ?s t) = map_option t_tid (ts_tasks s t)"
    using tk by (auto simp: idling_def)
  have tid: "\<exists>tk'. ts_tasks s t = Some tk' \<and> t_tid tk' = t_tid tk2" if "ts_tasks ?s t = Some tk2" for t tk2
    using f(7) [of t] that by (cases "ts_tasks s t") auto
  note i = sys_invD [OF inv]
  show "sys_inv li ?s Q W T xs bs U G"
    unfolding sys_inv_def f
  proof (intro conjI allI impI)
    show "queues_ok ?s Q W" "states_ok (ts_tasks ?s) (sc_cpus ?s) (sc_waits ?s) Q W" using sched_invD(1) [OF s] by simp_all
    show "current_ok (ts_tasks ?s) q d" if "sc_cpus ?s q = Some d" for q d by (rule sched_invD(2) [OF s that])
    show "t_tid tk2 < tm_task_id_count (sys_tm s)" if "ts_tasks ?s t = Some tk2" for t tk2 using tid [OF that] i(9) by metis
    show "t = u" if "ts_tasks ?s t = Some tk2" "ts_tasks ?s u = Some uk" "t_tid tk2 = t_tid uk" for t u tk2 uk
      using tid [OF that(1)] tid [OF that(2)] that(3) i(10) by metis
  qed (use i(4-8) in blast)+
qed

section \<open>The cpus while they start\<close>

text \<open>Room in the free list for \<open>n\<close> tasks with their stacks.\<close>

fun task_room :: "nat \<Rightarrow> blocks \<Rightarrow> bool" where
  "task_room 0 bs = True"
| "task_room (Suc n) bs = (case fl_take (sizeof_task + 16) bs of None \<Rightarrow> False
     | Some (b, bs1) \<Rightarrow> (case fl_take (TASK_STACK_SIZE + 16) bs1 of None \<Rightarrow> False | Some (bk, bs2) \<Rightarrow> task_room n bs2))"

text \<open>
  The state of the cpu at \<open>p\<close> in each phase, and the invariant of all cpus: \<open>sl k\<close> is the address of cpu \<open>k\<close>.
  \<open>Y\<close> are the cpu objects; the boot cpu marks itself as online before it has an idle task, so between these two
  points \<open>Y\<close> leaves out that mark.
\<close>

fun phase_ok :: "(ptr \<rightharpoonup> task) \<Rightarrow> ptr \<Rightarrow> cpu \<Rightarrow> phase \<Rightarrow> bool" where
  "phase_ok tasks p c Parked = fresh_cpu c"
| "phase_ok tasks p c Mapped = fresh_cpu c"
| "phase_ok tasks p c Clocked = fresh_cpu c"
| "phase_ok tasks p c Armed = fresh_cpu c"
| "phase_ok tasks p c Idling = (cpu_online c \<and> cpu_current c = cpu_idle c \<and>
     (\<exists>tk. tasks (cpu_idle c) = Some tk \<and> t_cpu tk = p \<and> t_state tk = TASK_RUNNING))"
| "phase_ok tasks p c _ = (cpu_online c \<and> cpu_current c = nullptr \<and> cpu_runnable_tasks c = runqueue_init ''Runnable Task'' \<and>
     (\<exists>tk. tasks (cpu_idle c) = Some tk \<and> t_cpu tk = p \<and> t_state tk = TASK_READY \<and> t_waiting_on tk = nullptr))"

text \<open>A cpu that has yet to create its idle task.\<close>

abbreviation starting :: "phase \<Rightarrow> bool" where "starting a \<equiv> a \<in> {Parked, Mapped, Clocked, Armed}"

definition parked :: "nat \<Rightarrow> (nat \<Rightarrow> phase) \<Rightarrow> nat set" where
  "parked n ph = {k. k < n \<and> starting (ph k)}"

definition memory_inv :: "limine \<Rightarrow> queues \<Rightarrow> queues \<Rightarrow> nat \<Rightarrow> machine \<Rightarrow> (ptr \<rightharpoonup> cpu) \<Rightarrow> bool" where
  "memory_inv li Q W r m Y \<longleftrightarrow> (\<exists>T xs bs U G. task_room r bs \<and>
     (\<forall>c. core_ok (Suc (Suc 0)) c \<longrightarrow> sys_inv li (m\<lparr>ts_core := c, sc_cpus := Y\<rparr>) Q W T xs bs U G)) \<and>
     unat (tm_task_id_count (sys_tm m)) + r < 2 ^ 64"

definition cpus_inv ::
  "smp_env \<Rightarrow> gicv2_data \<Rightarrow> u32 \<Rightarrow> queues \<Rightarrow> queues \<Rightarrow> nat \<Rightarrow> (nat \<Rightarrow> ptr) \<Rightarrow> (nat \<Rightarrow> phase) \<Rightarrow> machine \<Rightarrow> (ptr \<rightharpoonup> cpu) \<Rightarrow> bool" where
  "cpus_inv E data irq Q W n sl ph m Y \<longleftrightarrow> inj_on sl {..<n} \<and> tick_ready E m data irq \<and>
     (\<forall>k < n. Q (sl k) = [] \<and> (\<exists>c. Y (sl k) = Some c \<and> phase_ok (ts_tasks m) (sl k) c (ph k))) \<and>
     memory_inv (pf_limine (en_platform E)) Q W (card (parked n ph)) m Y"

lemma parked_start:
  assumes "k < n" and "starting (ph k)" and "\<not> starting a"
  shows "card (parked n ph) = Suc (card (parked n (ph(k := a))))"
proof -
  have "parked n ph = insert k (parked n (ph(k := a)))" "k \<notin> parked n (ph(k := a))" "finite (parked n (ph(k := a)))"
    using assms by (auto simp: parked_def)
  then show ?thesis by simp
qed

lemma parked_other: "starting (ph k) \<longleftrightarrow> starting a \<Longrightarrow> parked n (ph(k := a)) = parked n ph"
  by (auto simp: parked_def)

text \<open>Changes that a step makes to the store of tasks: a new task, or a new state of the idle task of its cpu.\<close>

lemma phases_keep:
  assumes old: "\<forall>k < n. Q (sl k) = [] \<and> (\<exists>c. Y (sl k) = Some c \<and> phase_ok tasks (sl k) c (ph k))" and inj: "inj_on sl {..<n}"
    and k: "k < n" "phase_ok tasks' (sl k) c' a"
    and t: "\<And>u tk. tasks u = Some tk \<Longrightarrow> t_cpu tk \<noteq> sl k \<Longrightarrow> tasks' u = Some tk"
  shows "\<forall>j < n. Q (sl j) = [] \<and> (\<exists>c. (Y(sl k \<mapsto> c')) (sl j) = Some c \<and> phase_ok tasks' (sl j) c ((ph(k := a)) j))"
proof (intro allI impI)
  fix j assume j: "j < n"
  obtain c where c: "Q (sl j) = []" "Y (sl j) = Some c" "phase_ok tasks (sl j) c (ph j)" using old j by blast
  show "Q (sl j) = [] \<and> (\<exists>c. (Y(sl k \<mapsto> c')) (sl j) = Some c \<and> phase_ok tasks' (sl j) c ((ph(k := a)) j))"
  proof (cases "j = k")
    case False
    then have ne: "sl j \<noteq> sl k" using inj j k(1) by (auto dest: inj_onD)
    have "phase_ok tasks' (sl j) c (ph j)" using c(3) t ne by (cases "ph j") auto
    then show ?thesis using c ne False by auto
  qed (use c k in auto)
qed


lemma memory_inv_regs:
  assumes "memory_inv li Q W r m Y"
    and "ts_tasks m' = ts_tasks m" "ts_nodes m' = ts_nodes m" "sc_waits m' = sc_waits m" "sys_heap m' = sys_heap m"
      "sys_vm m' = (sys_vm m)\<lparr>ttbr1_el1 := x\<rparr>" "sys_tm m' = sys_tm m"
  shows "memory_inv li Q W r m' Y"
proof -
  obtain T xs bs U G where i: "task_room r bs"
    "\<forall>c. core_ok (Suc (Suc 0)) c \<longrightarrow> sys_inv li (m\<lparr>ts_core := c, sc_cpus := Y\<rparr>) Q W T xs bs U G"
    using assms(1) unfolding memory_inv_def by blast
  have "sys_inv li (m'\<lparr>ts_core := c, sc_cpus := Y\<rparr>) Q W T xs bs U G" if "core_ok (Suc (Suc 0)) c" for c
    by (rule sys_inv_regs [OF i(2) [rule_format, OF that], where x = x]) (use that assms in simp_all)
  moreover have "unat (tm_task_id_count (sys_tm m')) + r < 2 ^ 64" using assms(1,7) by (simp add: memory_inv_def)
  ultimately show ?thesis using i(1) unfolding memory_inv_def by blast
qed

lemma memory_invI:
  assumes "sys_inv li (m\<lparr>sc_cpus := Y\<rparr>) Q W T xs bs U G" and "task_room r bs" and "unat (tm_task_id_count (sys_tm m)) + r < 2 ^ 64"
  shows "memory_inv li Q W r m Y"
proof -
  have "sys_inv li (m\<lparr>ts_core := c, sc_cpus := Y\<rparr>) Q W T xs bs U G" if "core_ok (Suc (Suc 0)) c" for c
    by (rule sys_inv_regs [OF assms(1), where x = "ttbr1_el1 (sys_vm m)"]) (use that in simp_all)
  then show ?thesis using assms(2,3) unfolding memory_inv_def by blast
qed

lemma memory_room:
  assumes "memory_inv li Q W (Suc r) m Y"
  obtains T xs bs U G b bs1 bk bs2 where
    "\<And>c. core_ok (Suc (Suc 0)) c \<Longrightarrow> sys_inv li (m\<lparr>ts_core := c, sc_cpus := Y\<rparr>) Q W T xs bs U G"
    "fl_take (sizeof_task + 16) bs = Some (b, bs1)" "fl_take (TASK_STACK_SIZE + 16) bs1 = Some (bk, bs2)" "task_room r bs2"
    "tm_task_id_count (sys_tm m) \<noteq> - 1" "unat (tm_task_id_count (sys_tm m) + 1) + r < 2 ^ 64"
proof -
  obtain T xs bs U G where i: "task_room (Suc r) bs"
    "\<forall>c. core_ok (Suc (Suc 0)) c \<longrightarrow> sys_inv li (m\<lparr>ts_core := c, sc_cpus := Y\<rparr>) Q W T xs bs U G"
    "unat (tm_task_id_count (sys_tm m)) + Suc r < 2 ^ 64"
    using assms unfolding memory_inv_def by blast
  obtain b bs1 where b: "fl_take (sizeof_task + 16) bs = Some (b, bs1)" using i(1) by (cases "fl_take (sizeof_task + 16) bs") auto
  obtain bk bs2 where bk: "fl_take (TASK_STACK_SIZE + 16) bs1 = Some (bk, bs2)" "task_room r bs2"
    using i(1) b by (cases "fl_take (TASK_STACK_SIZE + 16) bs1") auto
  have u: "unat (tm_task_id_count (sys_tm m) + 1) = unat (tm_task_id_count (sys_tm m)) + 1"
    using i(3) by (subst unat_add_u64) simp_all
  have "tm_task_id_count (sys_tm m) \<noteq> - 1" using u by (metis add.left_inverse add_eq_0_iff_both_eq_0 unat_0 zero_neq_one)
  with b bk u i(2,3) show ?thesis by (intro that [of T xs bs U G b bs1 bk bs2]) simp_all
qed

text \<open>What a step of the cpu at \<open>p\<close> does to the cpu objects and leaves in its registers.\<close>

definition stepped :: "ptr \<Rightarrow> cpu \<Rightarrow> cpu_regs \<Rightarrow> machine \<Rightarrow> machine \<Rightarrow> bool" where
  "stepped p c r m m' \<longleftrightarrow> sc_cpus m' = (sc_cpus m)(p \<mapsto> c) \<and> CPUS m' = CPUS m \<and> this_cpu (ts_core m') = p \<and>
     core_ok (Suc (Suc 0)) (ts_core m') \<and> irq_disable_depth (ts_core m') = irq_disable_depth (rg_core r)"

lemma load_regs_fields [simp]:
  "ts_tasks (load_regs r m) = ts_tasks m" "ts_nodes (load_regs r m) = ts_nodes m" "ts_core (load_regs r m) = rg_core r"
  "sc_cpus (load_regs r m) = sc_cpus m" "sc_waits (load_regs r m) = sc_waits m" "CPUS (load_regs r m) = CPUS m"
  "sys_heap (load_regs r m) = sys_heap m" "sys_tm (load_regs r m) = sys_tm m" "cpu_slot (load_regs r m) i = cpu_slot m i"
  "sys_vm (load_regs r m) = (sys_vm m)\<lparr>ttbr1_el1 := rg_ttbr1 r\<rparr>"
  "memory_inv li Q W n m Y \<Longrightarrow> memory_inv li Q W n (load_regs r m) Y"
  "tick_ready E (load_regs r m) data irq = tick_ready E m data irq"
  subgoal by (simp add: load_regs_def)
  subgoal by (simp add: load_regs_def)
  subgoal by (simp add: load_regs_def)
  subgoal by (simp add: load_regs_def)
  subgoal by (simp add: load_regs_def)
  subgoal by (simp add: load_regs_def)
  subgoal by (simp add: load_regs_def)
  subgoal by (simp add: load_regs_def)
  subgoal by (simp add: load_regs_def cpu_slot_def)
  subgoal by (simp add: load_regs_def)
  subgoal by (rule memory_inv_regs) (simp_all add: load_regs_def)
  subgoal by (rule tick_ready_cong) (simp_all add: load_regs_def)
  done

lemma cpus_invD:
  assumes "cpus_inv E data irq Q W n sl ph m Y"
  shows "inj_on sl {..<n}" and "tick_ready E (load_regs r m) data irq"
    and "\<forall>k < n. Q (sl k) = [] \<and> (\<exists>c. Y (sl k) = Some c \<and> phase_ok (ts_tasks m) (sl k) c (ph k))"
    and "memory_inv (pf_limine (en_platform E)) Q W (card (parked n ph)) (load_regs r m) Y"
  using assms by (simp_all add: cpus_inv_def)

text \<open>What a parked cpu finds when it starts.\<close>

lemma parked_room:
  assumes inv: "cpus_inv E data irq Q W n sl ph m Y" and k: "k < n" "starting (ph k)" and a: "\<not> starting a"
  obtains c T xs bs U G b bs1 bk bs2 where "Q (sl k) = []" "Y (sl k) = Some c" "fresh_cpu c"
    "\<forall>cr. core_ok (Suc (Suc 0)) cr \<longrightarrow> sys_inv (pf_limine (en_platform E)) ((load_regs r m)\<lparr>ts_core := cr, sc_cpus := Y\<rparr>) Q W T xs bs U G"
    "fl_take (sizeof_task + 16) bs = Some (b, bs1)" "fl_take (TASK_STACK_SIZE + 16) bs1 = Some (bk, bs2)"
    "task_room (card (parked n (ph(k := a)))) bs2" "tm_task_id_count (sys_tm m) \<noteq> - 1"
    "unat (tm_task_id_count (sys_tm m) + 1) + card (parked n (ph(k := a))) < 2 ^ 64"
proof -
  have "card (parked n ph) = Suc (card (parked n (ph(k := a))))" using parked_start [of k n ph a] k a by simp
  then have m: "memory_inv (pf_limine (en_platform E)) Q W (Suc (card (parked n (ph(k := a))))) (load_regs r m) Y"
    using cpus_invD(4) [OF inv] by metis
  obtain c where c: "Q (sl k) = []" "Y (sl k) = Some c" "fresh_cpu c" using cpus_invD(3) [OF inv] k by (cases "ph k") force+
  show ?thesis
  proof (rule memory_room [OF m])
    fix T xs bs U G b bs1 bk bs2
    assume h: "\<And>cr. core_ok (Suc (Suc 0)) cr \<Longrightarrow> sys_inv (pf_limine (en_platform E)) ((load_regs r m)\<lparr>ts_core := cr, sc_cpus := Y\<rparr>) Q W T xs bs U G"
      "fl_take (sizeof_task + 16) bs = Some (b, bs1)" "fl_take (TASK_STACK_SIZE + 16) bs1 = Some (bk, bs2)"
      "task_room (card (parked n (ph(k := a)))) bs2" "tm_task_id_count (sys_tm (load_regs r m)) \<noteq> - 1"
      "unat (tm_task_id_count (sys_tm (load_regs r m)) + 1) + card (parked n (ph(k := a))) < 2 ^ 64"
    show thesis by (rule that [OF c _ h(2-4)]) (use h in auto)
  qed
qed

text \<open>
  A step before the task is created: the cpu changes its number and its timer in its own object, its registers and
  the bus.
\<close>

definition local_change :: "ptr \<Rightarrow> cpu \<Rightarrow> cpu \<Rightarrow> machine \<Rightarrow> machine \<Rightarrow> bool" where
  "local_change p c c' m m' \<longleftrightarrow> cpu_current c' = cpu_current c \<and> cpu_idle c' = cpu_idle c \<and> cpu_online c' = cpu_online c \<and>
     cpu_runnable_tasks c' = cpu_runnable_tasks c \<and> (\<exists>x. sys_vm m' = (sys_vm m)\<lparr>ttbr1_el1 := x\<rparr>) \<and>
     ts_tasks m' = ts_tasks m \<and> ts_nodes m' = ts_nodes m \<and> sc_waits m' = sc_waits m \<and> sys_heap m' = sys_heap m \<and> sys_tm m' = sys_tm m \<and>
     mc_devices m' = mc_devices m \<and> mc_gic_data m' = mc_gic_data m \<and> mc_irq m' = mc_irq m \<and> mc_timer m' = mc_timer m"

lemma local_step:
  assumes inv: "cpus_inv E data irq Q W n sl ph m Y" and k: "k < n" "starting (ph k)" "starting a"
    and c: "Y (sl k) = Some c" and ch: "local_change (sl k) c c' m m'"
  shows "cpus_inv E data irq Q W n sl (ph(k := a)) m' (Y(sl k \<mapsto> c'))"
proof -
  let ?li = "pf_limine (en_platform E)" and ?p = "sl k"
  note i = inv [unfolded cpus_inv_def] and h = ch [unfolded local_change_def]
  have f: "Q ?p = []" using i k(1) by blast
  have ph: "phase_ok (ts_tasks m) ?p c (ph k)" using i k(1) c by auto
  have fr: "fresh_cpu c" using ph k(2) by auto
  obtain T xs bs U G where m: "task_room (card (parked n ph)) bs"
    "\<And>cr. core_ok (Suc (Suc 0)) cr \<Longrightarrow> sys_inv ?li (m\<lparr>ts_core := cr, sc_cpus := Y\<rparr>) Q W T xs bs U G"
    "unat (tm_task_id_count (sys_tm m)) + card (parked n ph) < 2 ^ 64" using i unfolding memory_inv_def by blast
  have "sys_inv ?li (m'\<lparr>ts_core := cr, sc_cpus := Y(?p \<mapsto> c')\<rparr>) Q W T xs bs U G" if cr: "core_ok (Suc (Suc 0)) cr" for cr
  proof -
    let ?g = "m\<lparr>ts_core := cr, sc_cpus := Y\<rparr>"
    have "rq_rep (cpu_runnable_tasks c) (ts_nodes m) []" using sys_invD(1) [OF m(2) [OF cr]] c f unfolding queues_ok_def by fastforce
    then have g: "sys_inv ?li (set_cpu ?p c' ?g) Q W T xs bs U G"
      by (intro sys_inv_set_cpu [OF m(2) [OF cr], of ?p c]) (use c f fr h in \<open>simp_all add: fresh_cpu_def\<close>)
    obtain x where "sys_vm m' = (sys_vm m)\<lparr>ttbr1_el1 := x\<rparr>" using h by blast
    then show ?thesis by (intro sys_inv_regs [OF g, where x = x]) (use cr h in \<open>simp_all add: set_cpu_def\<close>)
  qed
  moreover have n: "parked n (ph(k := a)) = parked n ph" using k by (intro parked_other) blast
  ultimately have "memory_inv ?li Q W (card (parked n (ph(k := a)))) m' (Y(?p \<mapsto> c'))"
    using m(1,3) h unfolding memory_inv_def n by metis
  moreover have "tick_ready E m' data irq" using i h by (simp cong: tick_ready_cong)
  moreover have "\<forall>j < n. Q (sl j) = [] \<and> (\<exists>c. (Y(?p \<mapsto> c')) (sl j) = Some c \<and> phase_ok (ts_tasks m') (sl j) c ((ph(k := a)) j))"
    by (rule phases_keep [where tasks = "ts_tasks m"]) (use i k fr h in \<open>auto simp: fresh_cpu_def\<close>)
  ultimately show ?thesis using i unfolding cpus_inv_def by blast
qed

lemma enter_step:
  assumes inv: "cpus_inv E data irq Q W n sl ph m Y" and k: "k < n" "ph k = Parked"
    and sl: "sl k = cpu_slot m (ucast (cpu_get_cpuid mpidr))" and same: "sc_cpus m (sl k) = Y (sl k)"
    and r: "core_ok (Suc (Suc 0)) ((rg_core r)\<lparr>this_cpu := sl k\<rparr>)"
  shows "\<exists>m' c. secondary_enter E mpidr (load_regs r m) = Inr m' \<and> stepped (sl k) c r m m' \<and>
    cpus_inv E data irq Q W n sl (ph(k := Mapped)) m' (Y(sl k \<mapsto> c))"
proof -
  let ?m = "load_regs r m" and ?li = "pf_limine (en_platform E)" and ?cr = "(rg_core r)\<lparr>this_cpu := sl k\<rparr>"
  obtain c where c: "Y (sl k) = Some c" using cpus_invD(3) [OF inv] k(1) by blast
  obtain T xs bs U G where "sys_inv ?li (?m\<lparr>ts_core := ?cr, sc_cpus := Y\<rparr>) Q W T xs bs U G"
    using cpus_invD(4) [OF inv, of r] r unfolding memory_inv_def by blast
  then have "kheap_inv ?li (sys_heap ?m) (set_core ?cr (sys_vm ?m)) T xs bs U" using sys_invD(4) by fastforce
  note tab = set_table_run [OF this]
  let ?c = "c\<lparr>cpu_cpuid := cpu_get_cpuid mpidr\<rparr>" and ?v = "(sys_vm ?m)\<lparr>ttbr1_el1 := kernel_page_table (sys_vm ?m) - hhdm ?li\<rparr>"
  let ?m' = "?m\<lparr>ts_core := ?cr, sys_vm := ?v, sc_cpus := (sc_cpus m)(sl k \<mapsto> ?c)\<rparr>"
  have "secondary_enter E mpidr ?m = Inr ?m'"
    using tab c same sl by (simp add: secondary_enter_def cpu_cache_current_cpu_def Let_def cpu_at_def set_cpu_def)
  moreover have "stepped (sl k) ?c r m ?m'" using r by (simp add: stepped_def)
  moreover have "local_change (sl k) c ?c m ?m'" by (auto simp: local_change_def load_regs_def)
  ultimately show ?thesis using local_step [OF inv k(1) _ _ c] k(2) by blast
qed

lemma clock_step:
  assumes inv: "cpus_inv E data irq Q W n sl ph m Y" and k: "k < n" "ph k = Mapped" and same: "sc_cpus m (sl k) = Y (sl k)"
    and r: "this_cpu (rg_core r) = sl k" "core_ok (Suc (Suc 0)) (rg_core r)"
  shows "\<exists>m' c. timer_cpu_init (pf_hw (en_platform E)) (sl k) (load_regs r m) = Inr m' \<and> stepped (sl k) c r m m' \<and>
    cpus_inv E data irq Q W n sl (ph(k := Clocked)) m' (Y(sl k \<mapsto> c))"
proof -
  let ?m = "load_regs r m"
  obtain c where c: "Y (sl k) = Some c" using cpus_invD(3) [OF inv] k(1) by blast
  let ?R = "ticks_from_miliseconds (tm_frequency (mc_timer ?m)) CONFIG_TIMER_RESCHED_MS"
  let ?c = "c\<lparr>cpu_timer := (cpu_timer c)\<lparr>ct_ticks := 0, ct_resched_after := ?R\<rparr>\<rparr>"
  have "chip_ready (?m\<lparr>sc_cpus := (sc_cpus m)(sl k \<mapsto> ?c)\<rparr>) data" using cpus_invD(2) [OF inv, of r] by (simp add: tick_ready_def)
  then obtain w where w: "irq_enable_cpu (pf_hw (en_platform E)) (?m\<lparr>sc_cpus := (sc_cpus m)(sl k \<mapsto> ?c)\<rparr>) =
      Inr (?m\<lparr>sc_cpus := (sc_cpus m)(sl k \<mapsto> ?c), mc_bus := w\<rparr>)" using cpu_enabled by fastforce
  let ?m' = "?m\<lparr>sc_cpus := (sc_cpus m)(sl k \<mapsto> ?c), mc_bus := w\<rparr>"
  have "timer_cpu_init (pf_hw (en_platform E)) (sl k) ?m = Inr ?m'"
    using w c same by (simp add: timer_cpu_init_def update_cpu_timer_def cpu_at_def set_cpu_def)
  moreover have "stepped (sl k) ?c r m ?m'" using r by (simp add: stepped_def)
  moreover have "local_change (sl k) c ?c m ?m'" by (auto simp: local_change_def load_regs_def)
  ultimately show ?thesis using local_step [OF inv k(1) _ _ c] k(2) by blast
qed

lemma arm_step:
  assumes inv: "cpus_inv E data irq Q W n sl ph m Y" and k: "k < n" "ph k = Clocked" and same: "sc_cpus m (sl k) = Y (sl k)"
    and r: "this_cpu (rg_core r) = sl k" "core_ok (Suc (Suc 0)) (rg_core r)"
  shows "\<exists>m' c. timer_cpu_enable (pf_tree (en_platform E)) (sl k) (load_regs r m) = Inr m' \<and> stepped (sl k) c r m m' \<and>
    cpus_inv E data irq Q W n sl (ph(k := Armed)) m' (Y(sl k \<mapsto> c))"
proof -
  let ?m = "load_regs r m"
  obtain c where c: "Y (sl k) = Some c" using cpus_invD(3) [OF inv] k(1) by blast
  obtain d where d: "chip_ready ?m data" "unat irq < MAX_IRQ" "timer_of (tm_device (mc_timer ?m)) ?m = Inr d"
    "interrupt_id (pf_tree (en_platform E)) d = Inr irq" using cpus_invD(2) [OF inv, of r] by (auto simp: tick_ready_def)
  obtain w where w: "irq_enable_irq irq ?m = Inr (?m\<lparr>mc_bus := w\<rparr>)" using interrupt_enabled [OF d(1,2)] by blast
  let ?m' = "?m\<lparr>mc_bus := w, cntp_tval_el0 := ct_resched_after (cpu_timer c), cntp_ctl_el0 := cntp_ctl_el0 ?m OR BIT 0\<rparr>"
  have "timer_cpu_enable (pf_tree (en_platform E)) (sl k) ?m = Inr ?m'"
    using d(3,4) w c same by (simp add: timer_cpu_enable_def cpu_at_def fire_from_now_def enable_timer_def w_counter_enable_def Let_def)
  moreover have "stepped (sl k) c r m ?m'" using r c same by (simp add: stepped_def fun_upd_idem)
  moreover have "local_change (sl k) c c m ?m'" by (auto simp: local_change_def load_regs_def)
  ultimately show ?thesis using local_step [OF inv k(1) _ _ c] k(2) by blast
qed

lemma unmask_step:
  assumes inv: "cpus_inv E data irq Q W n sl ph m Y" and k: "k < n" "ph k = Created" and same: "sc_cpus m (sl k) = Y (sl k)"
    and r: "this_cpu (rg_core r) = sl k" "core_ok (Suc (Suc 0)) (rg_core r)" "irq_disable_depth (rg_core r) = 0"
  defines "m' \<equiv> (load_regs r m)\<lparr>ts_core := w_intrd_enable (ts_core (load_regs r m))\<rparr>"
  shows "\<exists>c. stepped (sl k) c r m m' \<and> cpus_inv E data irq Q W n sl (ph(k := Set_up)) m' (Y(sl k \<mapsto> c))"
proof -
  obtain c where c: "Y (sl k) = Some c" "phase_ok (ts_tasks m) (sl k) c Created" using cpus_invD(3) [OF inv] k by force
  have "memory_inv (pf_limine (en_platform E)) Q W (card (parked n ph)) m' Y"
    by (rule memory_inv_regs [OF cpus_invD(4) [OF inv, of r]]) (simp_all add: m'_def)
  moreover have "parked n (ph(k := Set_up)) = parked n ph" by (rule parked_other) (simp add: k(2))
  moreover have "tick_ready E m' data irq" using cpus_invD(2) [OF inv, of r] unfolding m'_def by (simp cong: tick_ready_cong)
  moreover have "\<forall>j < n. Q (sl j) = [] \<and> (\<exists>c'. (Y(sl k \<mapsto> c)) (sl j) = Some c' \<and> phase_ok (ts_tasks m') (sl j) c' ((ph(k := Set_up)) j))"
    by (rule phases_keep [OF cpus_invD(3,1) [OF inv] k(1)]) (use c(2) in \<open>simp_all add: m'_def\<close>)
  moreover have "Y(sl k \<mapsto> c) = Y" using c(1) by (simp add: fun_upd_idem)
  ultimately have "cpus_inv E data irq Q W n sl (ph(k := Set_up)) m' (Y(sl k \<mapsto> c))" using cpus_invD(1) [OF inv] unfolding cpus_inv_def by simp
  moreover have "stepped (sl k) c r m m'" using r c(1) same by (simp add: stepped_def m'_def core_ok_def fun_upd_idem)
  ultimately show ?thesis by blast
qed

lemma create_step:
  assumes inv: "cpus_inv E data irq Q W n sl ph m Y" and k: "k < n" "starting (ph k)" "a \<in> {Created, Set_up}"
    and x: "sc_cpus m (sl k) = map_option (\<lambda>c. c\<lparr>cpu_online := w\<rparr>) (Y (sl k))"
    and r: "this_cpu (rg_core r) = sl k" "core_ok (Suc (Suc 0)) (rg_core r)"
  shows "\<exists>m' c. en_init_tasks E mpidr (load_regs r m) = Inr m' \<and> stepped (sl k) c r m m' \<and>
    cpus_inv E data irq Q W n sl (ph(k := a)) m' (Y(sl k \<mapsto> c))"
proof -
  let ?m = "load_regs r m" and ?li = "pf_limine (en_platform E)" and ?ph = "ph(k := a)"
  let ?g = "?m\<lparr>ts_core := rg_core r, sc_cpus := Y\<rparr>"
  note i = cpus_invD [OF inv]
  have na: "\<not> starting a" using k(3) by auto
  obtain c T xs bs U G b bs1 bk bs2 where c: "Q (sl k) = []" "Y (sl k) = Some c" "fresh_cpu c"
    and inv': "\<forall>cr. core_ok (Suc (Suc 0)) cr \<longrightarrow> sys_inv ?li (?m\<lparr>ts_core := cr, sc_cpus := Y\<rparr>) Q W T xs bs U G"
    and room: "fl_take (sizeof_task + 16) bs = Some (b, bs1)" "fl_take (TASK_STACK_SIZE + 16) bs1 = Some (bk, bs2)" "task_room (card (parked n ?ph)) bs2"
    "tm_task_id_count (sys_tm m) \<noteq> - 1" "unat (tm_task_id_count (sys_tm m) + 1) + card (parked n ?ph) < 2 ^ 64"
    by (rule parked_room [OF inv k(1,2) na, where r = r]) (rule that; assumption)
  have s: "sys_inv ?li ?g Q W T xs bs U G" using inv' r(2) by blast
  let ?t = "fst b + 16" and ?tk = "new_task (tm_task_id_count (sys_tm ?g)) ''idle'' (sl k) (fst bk + 16) (en_trampoline E) (en_task_idle E) nullptr"
  let ?c = "brought_up mpidr ?t c"
  obtain s' where s': "\<And>X c0. X (sl k) = Some c0 \<Longrightarrow> en_init_tasks E mpidr (?g\<lparr>sc_cpus := X\<rparr>) = Inr (s'\<lparr>sc_cpus := X(sl k \<mapsto> brought_up mpidr ?t c0)\<rparr>)"
    "sys_inv ?li (set_cpu (sl k) ?c s') Q W T xs bs2 (insert bk (insert b U)) (G @ [?t])" "task_created ?t ?tk ?g s'"
    using common_cpu_init_any [OF s, of "sl k" c b bs1 bk bs2 "en_trampoline E" "en_junk E" "en_jnode E" "en_task_idle E" mpidr]
      c r(1) room(1,2,4) by (auto simp: fresh_cpu_def)
  let ?m' = "s'\<lparr>sc_cpus := (sc_cpus m)(sl k \<mapsto> ?c)\<rparr>"
  have eq: "?g\<lparr>sc_cpus := sc_cpus m\<rparr> = ?m" by (rule machine.equality) simp_all
  have "sc_cpus m (sl k) = Some (c\<lparr>cpu_online := w\<rparr>)" "brought_up mpidr ?t (c\<lparr>cpu_online := w\<rparr>) = ?c"
    using x c(2) by (simp_all add: brought_up_def)
  then have run: "en_init_tasks E mpidr ?m = Inr ?m'" using s'(1) [of "sc_cpus m" "c\<lparr>cpu_online := w\<rparr>"] unfolding eq by (simp only:)
  have tc: "sc_cpus s' = Y" "irq_view (ts_core s') = irq_view (rg_core r)" "ksys.more s' = ksys.more ?m" "ts_tasks m ?t = None"
    "ts_tasks s' = (ts_tasks m)(?t \<mapsto> ?tk)" "CPUS s' = CPUS m" "tm_task_id_count (sys_tm s') = tm_task_id_count (sys_tm m) + 1"
    using s'(3) by (simp_all add: task_created_def)
  have core: "core_ok (Suc (Suc 0)) (ts_core s')" using sys_invD(1) [OF s'(2)] by (simp add: queues_ok_def)
  have "stepped (sl k) ?c r m ?m'" using tc(2,6) core r(1) by (simp add: stepped_def irq_view_def)
  moreover have "tick_ready E ?m' data irq" using i(2) [of r] machine_more [OF tc(3)] by (subst tick_ready_cong [where t = ?m]) simp_all
  moreover have "memory_inv ?li Q W (card (parked n ?ph)) ?m' (Y(sl k \<mapsto> ?c))"
    using s'(2) room(3,5) tc(1,7) by (intro memory_invI) (auto simp: set_cpu_def)
  moreover have "\<forall>j < n. Q (sl j) = [] \<and> (\<exists>c. (Y(sl k \<mapsto> ?c)) (sl j) = Some c \<and> phase_ok (ts_tasks ?m') (sl j) c (?ph j))"
    by (rule phases_keep [OF i(3,1) k(1)]) (use tc(4,5) k(3) in \<open>auto simp: brought_up_def new_task_def\<close>)
  ultimately show ?thesis using run i(1) unfolding cpus_inv_def by blast
qed

lemma yield_step:
  assumes inv: "cpus_inv E data irq Q W n sl ph m Y" and k: "k < n" "ph k = Counted" and same: "sc_cpus m (sl k) = Y (sl k)"
    and r: "this_cpu (rg_core r) = sl k" "core_ok (Suc (Suc 0)) (rg_core r)"
  shows "\<exists>m' c. yield (load_regs r m) = Inr m' \<and> stepped (sl k) c r m m' \<and> cpus_inv E data irq Q W n sl (ph(k := Idling)) m' (Y(sl k \<mapsto> c))"
proof -
  let ?m = "load_regs r m" and ?li = "pf_limine (en_platform E)" and ?ph = "ph(k := Idling)"
  let ?g = "?m\<lparr>ts_core := rg_core r, sc_cpus := Y\<rparr>"
  have n: "parked n ?ph = parked n ph" using parked_other [of ph k Idling n] k by simp
  note i = cpus_invD [OF inv]
  obtain c tk where c: "Q (sl k) = []" "Y (sl k) = Some c" "cpu_online c" "cpu_current c = nullptr"
      "cpu_runnable_tasks c = runqueue_init ''Runnable Task''"
    and tk: "ts_tasks m (cpu_idle c) = Some tk" "t_cpu tk = sl k" "t_state tk = TASK_READY" "t_waiting_on tk = nullptr"
    using i(3) k by force
  obtain T xs bs U G where room: "task_room (card (parked n ph)) bs" and s: "sys_inv ?li ?g Q W T xs bs U G"
    and cnt: "unat (tm_task_id_count (sys_tm ?m)) + card (parked n ph) < 2 ^ 64"
    using i(4) [of r] r(2) unfolding memory_inv_def by blast
  have nn: "cpu_idle c \<noteq> nullptr" using null_no_task [OF sys_invD(1) [OF s]] tk(1) by auto
  have a: "about_to_idle ?m (sl k) c tk" "about_to_idle ?g (sl k) c tk" using c tk nn same by (simp_all add: about_to_idle_def)
  let ?c = "c\<lparr>cpu_current := cpu_idle c\<rparr>" and ?m' = "idling (sl k) c tk ?m"
  have run: "yield ?m = Inr ?m'" using first_switch [OF a(1)] r(1) by simp
  have f: "sc_cpus ?m' = (sc_cpus m)(sl k \<mapsto> ?c)" "ts_tasks ?m' = (ts_tasks m)(cpu_idle c \<mapsto> tk\<lparr>t_state := TASK_RUNNING\<rparr>)"
    by (simp_all add: idling_def)
  have "sys_inv ?li (idling (sl k) c tk ?g) Q W T xs bs U G" using first_switch_inv(1) [OF s a(2) _ c(1)] r(1) by simp
  moreover have "idling (sl k) c tk ?g = ?m'\<lparr>sc_cpus := Y(sl k \<mapsto> ?c)\<rparr>" by (rule machine.equality) (simp_all add: idling_def)
  moreover have "sys_tm ?m' = sys_tm ?m" by (simp add: idling_def)
  ultimately have "memory_inv ?li Q W (card (parked n ?ph)) ?m' (Y(sl k \<mapsto> ?c))"
    using room cnt n by (intro memory_invI [where T = T and xs = xs and bs = bs and U = U and G = G]) (simp_all only:)
  moreover have "stepped (sl k) ?c r m ?m'" using r by (simp add: stepped_def idling_def)
  moreover have "tick_ready E ?m' data irq" using i(2) [of r] by (subst tick_ready_cong [where t = ?m]) (simp_all add: idling_def)
  moreover have "\<forall>j < n. Q (sl j) = [] \<and> (\<exists>c. (Y(sl k \<mapsto> ?c)) (sl j) = Some c \<and> phase_ok (ts_tasks ?m') (sl j) c (?ph j))"
    by (rule phases_keep [OF i(3,1) k(1)]) (use tk c f in auto)
  ultimately show ?thesis using run i(1) unfolding cpus_inv_def by blast
qed

text \<open>Whatever a secondary cpu calls next returns, and leads to the next phase.\<close>

lemma op_step:
  assumes inv: "cpus_inv E data irq Q W n sl ph m Y" and k: "k < n" "ph k \<notin> {Set_up, Idling}"
    and sl: "sl k = cpu_slot m (ucast (cpu_get_cpuid mpidr))" and same: "sc_cpus m (sl k) = Y (sl k)"
    and r: "ph k = Parked \<or> this_cpu (rg_core r) = sl k" "core_ok (Suc (Suc 0)) ((rg_core r)\<lparr>this_cpu := sl k\<rparr>)"
      "ph k = Created \<longrightarrow> irq_disable_depth (rg_core r) = 0"
  shows "\<exists>m' c. secondary_op E mpidr (ph k) (load_regs r m) = Inr m' \<and> stepped (sl k) c r m m' \<and>
    cpus_inv E data irq Q W n sl (ph(k := next_phase (ph k))) m' (Y(sl k \<mapsto> c))"
proof (cases "ph k = Parked")
  case True
  with enter_step [OF inv k(1) True sl same r(2)] show ?thesis by simp
next
  case False
  then have r': "this_cpu (rg_core r) = sl k" "core_ok (Suc (Suc 0)) (rg_core r)" using r by (auto simp: core_ok_def r_intrd_enabled_def)
  show ?thesis
  proof (cases "ph k")
    case Armed
    have st: "starting (ph k)" "Created \<in> {Created, Set_up}" using Armed by simp_all
    obtain c where c: "Y (sl k) = Some c" "\<not> cpu_online c" using cpus_invD(3) [OF inv] k(1) Armed by (force simp: fresh_cpu_def)
    have "c\<lparr>cpu_online := False\<rparr> = c" using c(2) by (cases c) simp
    then have "sc_cpus m (sl k) = map_option (\<lambda>c. c\<lparr>cpu_online := False\<rparr>) (Y (sl k))" using same c(1) by simp
    from create_step [OF inv k(1) st this r'] show ?thesis using Armed by simp
  next
    case Created
    with unmask_step [OF inv k(1) Created same r'] r(3) show ?thesis by simp
  qed (use False k(2) clock_step [OF inv k(1) _ same r'] arm_step [OF inv k(1) _ same r'] yield_step [OF inv k(1) _ same r'] r'(1) in simp_all)
qed

section \<open>The protocol\<close>

abbreviation cpus_count :: "smp_run \<Rightarrow> nat" where "cpus_count s \<equiv> length (mp_cpus (sm_mp s))"

definition slot_of :: "smp_run \<Rightarrow> nat \<Rightarrow> ptr" where
  "slot_of s k = cpu_slot (sm_machine s) (ucast (cpu_get_cpuid (cpu_mpidr s k)))"

text \<open>The cpus whose goto address the boot cpu has passed, and the phase of every cpu, the boot cpu included.\<close>

fun woken :: "boot_pc \<Rightarrow> nat \<Rightarrow> bool" where
  "woken Entered k = False"
| "woken (Waking i) k = (k < unat i)"
| "woken _ k = True"

fun boot_phase :: "boot_pc \<Rightarrow> phase" where
  "boot_phase Entered = Parked"
| "boot_phase (Waking i) = Parked"
| "boot_phase _ = Set_up"

definition phases :: "nat \<Rightarrow> smp_run \<Rightarrow> nat \<Rightarrow> phase" where
  "phases b s = (sr_phase s)(b := boot_phase (sr_boot s))"

definition counted :: "smp_run \<Rightarrow> nat set" where
  "counted s = {k. sr_phase s k \<in> {Counted, Idling}}"

definition proto_ok :: "smp_env \<Rightarrow> nat \<Rightarrow> smp_run \<Rightarrow> bool" where
  "proto_ok E b s \<longleftrightarrow> b < cpus_count s \<and> unat (mp_cpu_count (sm_mp s)) = cpus_count s \<and> mp_bsp_mpidr (sm_mp s) = cpu_mpidr s b \<and>
     en_secondary_entry E \<noteq> 0 \<and> (\<forall>k < cpus_count s. mp_goto_address (mp_cpus (sm_mp s) ! k) =
       (if k \<noteq> b \<and> woken (sr_boot s) k then en_secondary_entry E else 0)) \<and>
     (\<forall>i. sr_boot s = Waking i \<longrightarrow> unat i \<le> cpus_count s) \<and>
     (\<forall>k. k = b \<or> cpus_count s \<le> k \<longrightarrow> sr_phase s k = Parked) \<and> unat (cpus_enabled_count s) = Suc (card (counted s)) \<and>
     (sr_boot s = Finished \<longrightarrow> mp_cpu_count (sm_mp s) = cpus_enabled_count s)"

text \<open>Interrupts stay off, with nothing nested, until a secondary cpu turns them on.\<close>

abbreviation masked :: "phase \<Rightarrow> bool" where "masked a \<equiv> starting a \<or> a = Created"

definition regs_ok :: "nat \<Rightarrow> smp_run \<Rightarrow> bool" where
  "regs_ok b s \<longleftrightarrow> (\<forall>k < cpus_count s. core_ok (Suc (Suc 0)) ((rg_core (sr_regs s k))\<lparr>this_cpu := slot_of s k\<rparr>) \<and>
     (k \<noteq> b \<and> masked (sr_phase s k) \<longrightarrow> irq_disable_depth (rg_core (sr_regs s k)) = 0) \<and>
     (k \<noteq> b \<and> sr_phase s k = Parked \<or> this_cpu (rg_core (sr_regs s k)) = slot_of s k))"

definition seen :: "nat \<Rightarrow> smp_run \<Rightarrow> (ptr \<rightharpoonup> cpu) \<Rightarrow> bool" where
  "seen b s Y \<longleftrightarrow> (\<forall>p. p \<noteq> slot_of s b \<longrightarrow> Y p = sc_cpus (sm_machine s) p) \<and>
     sc_cpus (sm_machine s) (slot_of s b) =
       (case sr_boot s of Waking i \<Rightarrow> map_option (\<lambda>c. c\<lparr>cpu_online := True\<rparr>) (Y (slot_of s b)) | _ \<Rightarrow> Y (slot_of s b))"

definition smp_inv :: "smp_env \<Rightarrow> nat \<Rightarrow> gicv2_data \<Rightarrow> u32 \<Rightarrow> queues \<Rightarrow> queues \<Rightarrow> smp_run \<Rightarrow> bool" where
  "smp_inv E b data irq Q W s \<longleftrightarrow> proto_ok E b s \<and> regs_ok b s \<and>
     (\<exists>Y. seen b s Y \<and> cpus_inv E data irq Q W (cpus_count s) (slot_of s) (phases b s) (sm_machine s) Y)"

fun boot_rank :: "nat \<Rightarrow> boot_pc \<Rightarrow> nat" where
  "boot_rank n Entered = n + 3"
| "boot_rank n (Waking i) = n - unat i + 2"
| "boot_rank n Waiting = 1"
| "boot_rank n Finished = 0"

fun phase_rank :: "phase \<Rightarrow> nat" where
  "phase_rank Parked = 7" | "phase_rank Mapped = 6" | "phase_rank Clocked = 5" | "phase_rank Armed = 4" | "phase_rank Created = 3"
| "phase_rank Set_up = 2" | "phase_rank Counted = 1" | "phase_rank Idling = 0"

text \<open>The number of steps still to be made, spinning left aside.\<close>

definition smp_rank :: "smp_run \<Rightarrow> nat" where
  "smp_rank s = boot_rank (cpus_count s) (sr_boot s) + (\<Sum>k < cpus_count s. phase_rank (sr_phase s k))"

text \<open>A step of cpu \<open>k\<close> on the machine.\<close>

definition moved :: "nat \<Rightarrow> cpu \<Rightarrow> smp_run \<Rightarrow> smp_run \<Rightarrow> bool" where
  "moved k c s s' \<longleftrightarrow> (\<exists>m'. s' = s\<lparr>sm_machine := m', sr_regs := (sr_regs s)(k := save_regs m')\<rparr> \<and> stepped (slot_of s k) c (sr_regs s k) (sm_machine s) m')"

lemma moved_fields:
  assumes "moved k c s s'"
  shows "sm_mp s' = sm_mp s" "cpus_enabled_count s' = cpus_enabled_count s" "sr_boot s' = sr_boot s" "sr_phase s' = sr_phase s"
    "slot_of s' = slot_of s" "sc_cpus (sm_machine s') = (sc_cpus (sm_machine s))(slot_of s k \<mapsto> c)"
    "this_cpu (rg_core (sr_regs s' k)) = slot_of s k" "core_ok (Suc (Suc 0)) (rg_core (sr_regs s' k))"
    "j \<noteq> k \<Longrightarrow> sr_regs s' j = sr_regs s j" "irq_disable_depth (rg_core (sr_regs s' k)) = irq_disable_depth (rg_core (sr_regs s k))"
  using assms by (auto simp: moved_def stepped_def slot_of_def cpu_slot_def save_regs_def fun_eq_iff)

lemma moved_regs:
  assumes "moved k c s s'" and "regs_ok b s" and "\<And>j. j \<noteq> k \<Longrightarrow> sr_phase s'' j = sr_phase s j"
    and "sm_mp s'' = sm_mp s" "slot_of s'' = slot_of s" "sr_regs s'' = sr_regs s'"
    and "k \<noteq> b \<Longrightarrow> masked (sr_phase s'' k) \<Longrightarrow> masked (sr_phase s k)"
  shows "regs_ok b s''"
  unfolding regs_ok_def
proof (intro allI impI)
  fix j assume j: "j < cpus_count s''"
  show "core_ok (Suc (Suc 0)) ((rg_core (sr_regs s'' j))\<lparr>this_cpu := slot_of s'' j\<rparr>) \<and>
     (j \<noteq> b \<and> masked (sr_phase s'' j) \<longrightarrow> irq_disable_depth (rg_core (sr_regs s'' j)) = 0) \<and>
     (j \<noteq> b \<and> sr_phase s'' j = Parked \<or> this_cpu (rg_core (sr_regs s'' j)) = slot_of s'' j)"
  proof (cases "j = k")
    case True
    have "core_ok (Suc (Suc 0)) ((rg_core (sr_regs s'' k))\<lparr>this_cpu := slot_of s k\<rparr>)"
      using moved_fields(7,8) [OF assms(1)] assms(6) by (simp add: core_ok_def r_intrd_enabled_def)
    moreover have "k \<noteq> b \<and> masked (sr_phase s k) \<longrightarrow> irq_disable_depth (rg_core (sr_regs s k)) = 0"
      using assms(2,4) j True unfolding regs_ok_def by simp
    ultimately show ?thesis using moved_fields(7,10) [OF assms(1)] assms(5,6,7) True by auto
  next
    case False
    then show ?thesis using assms(2-6) moved_fields(9) [OF assms(1) False] j by (simp add: regs_ok_def)
  qed
qed

lemma slot_other:
  assumes "cpus_inv E data irq Q W n sl ph m Y" and "j < n" and "k < n" and "j \<noteq> k"
  shows "sl j \<noteq> sl k"
  using assms by (auto simp: cpus_inv_def dest: inj_onD)

lemma on_cpu_moved:
  assumes "f (load_regs (sr_regs s k) (sm_machine s)) = Inr m'" and "stepped (slot_of s k) c (sr_regs s k) (sm_machine s) m'"
  shows "\<exists>s'. on_cpu k f s = Inr s' \<and> moved k c s s' \<and> sm_machine s' = m'"
  using assms by (auto simp: on_cpu_def moved_def)

text \<open>A secondary cpu has made a step of its own to phase \<open>a\<close>.\<close>

lemma secondary_moved:
  assumes inv: "proto_ok E b s" "regs_ok b s" "seen b s Y" and k: "k < cpus_count s" "k \<noteq> b" "slot_of s k \<noteq> slot_of s b"
    and m: "moved k c s s'" "cpus_inv E data irq Q W (cpus_count s) (slot_of s) ((phases b s)(k := a)) (sm_machine s') (Y(slot_of s k \<mapsto> c))"
    and a: "masked a \<Longrightarrow> masked (sr_phase s k)" "a \<in> {Counted, Idling} \<longleftrightarrow> sr_phase s k \<in> {Counted, Idling}"
  shows "smp_inv E b data irq Q W (s'\<lparr>sr_phase := (sr_phase s)(k := a)\<rparr>)" (is "smp_inv _ _ _ _ _ _ ?s")
proof -
  note f = moved_fields [OF m(1)]
  have sl: "slot_of ?s = slot_of s" using f(5) by (simp add: slot_of_def fun_eq_iff)
  have "counted ?s = counted s" using a(2) by (auto simp: counted_def split: if_splits)
  then have "proto_ok E b ?s" using inv(1) k f(1-3) by (simp add: proto_ok_def)
  moreover have "regs_ok b ?s" by (rule moved_regs [OF m(1) inv(2)]) (use f a(1) sl in simp_all)
  moreover have "phases b ?s = (phases b s)(k := a)" using f(3) k(2) by (auto simp: phases_def)
  moreover have "seen b ?s (Y(slot_of s k \<mapsto> c))" using inv(3) sl f(3,6) k(3) by (auto simp: seen_def split: boot_pc.splits)
  ultimately show ?thesis using m(2) f(1) sl unfolding smp_inv_def by auto
qed

lemma call_ok:
  assumes inv: "smp_inv E b data irq Q W s" and k: "calls_next E b s k"
  shows "\<exists>s'. on_cpu k (secondary_op E (cpu_mpidr s k) (sr_phase s k)) s = Inr s' \<and>
    smp_inv E b data irq Q W (s'\<lparr>sr_phase := (sr_phase s)(k := next_phase (sr_phase s k))\<rparr>) \<and> sm_mp s' = sm_mp s \<and> sr_boot s' = sr_boot s"
proof -
  obtain Y where i: "proto_ok E b s" "regs_ok b s" "seen b s Y" "cpus_inv E data irq Q W (cpus_count s) (slot_of s) (phases b s) (sm_machine s) Y"
    using inv by (auto simp: smp_inv_def)
  have kn: "k < cpus_count s" "k \<noteq> b" and ph: "sr_phase s k \<notin> {Set_up, Idling}" using k unfolding calls_next_def by blast+
  have ne: "slot_of s k \<noteq> slot_of s b" using slot_other [OF i(4) kn(1) _ kn(2)] i(1) by (simp add: proto_ok_def)
  have same: "sc_cpus (sm_machine s) (slot_of s k) = Y (slot_of s k)" using i(3) ne by (simp add: seen_def)
  have p: "phases b s k = sr_phase s k" using kn by (simp add: phases_def)
  have r: "phases b s k = Parked \<or> this_cpu (rg_core (sr_regs s k)) = slot_of s k"
    "core_ok (Suc (Suc 0)) ((rg_core (sr_regs s k))\<lparr>this_cpu := slot_of s k\<rparr>)"
    "phases b s k = Created \<longrightarrow> irq_disable_depth (rg_core (sr_regs s k)) = 0"
    using i(2) kn unfolding regs_ok_def p by auto
  obtain m' c where m: "secondary_op E (cpu_mpidr s k) (sr_phase s k) (load_regs (sr_regs s k) (sm_machine s)) = Inr m'"
    "stepped (slot_of s k) c (sr_regs s k) (sm_machine s) m'"
    "cpus_inv E data irq Q W (cpus_count s) (slot_of s) ((phases b s)(k := next_phase (sr_phase s k))) m' (Y(slot_of s k \<mapsto> c))"
    using op_step [OF i(4) kn(1) ph [folded p] slot_of_def same r] unfolding p by blast
  from on_cpu_moved [where f = "secondary_op E (cpu_mpidr s k) (sr_phase s k)", OF m(1,2)] obtain s' where
    s': "on_cpu k (secondary_op E (cpu_mpidr s k) (sr_phase s k)) s = Inr s'" "moved k c s s'" "sm_machine s' = m'" by blast
  have "smp_inv E b data irq Q W (s'\<lparr>sr_phase := (sr_phase s)(k := next_phase (sr_phase s k))\<rparr>)"
    by (rule secondary_moved [OF i(1-3) kn ne s'(2)]) (use m(3) s'(3) ph in \<open>cases "sr_phase s k"; simp\<close>)+
  then show ?thesis using s'(1) moved_fields(1,3) [OF s'(2)] by blast
qed

lemma boot_regs:
  assumes "proto_ok E b s" and "regs_ok b s"
  shows "this_cpu (rg_core (sr_regs s b)) = slot_of s b" and "core_ok (Suc (Suc 0)) (rg_core (sr_regs s b))"
  using assms by (auto simp: regs_ok_def proto_ok_def core_ok_def r_intrd_enabled_def)

text \<open>The boot cpu has made a step on the machine to \<open>pc\<close>.\<close>

lemma boot_moved:
  assumes inv: "proto_ok E b s" "regs_ok b s" and m: "moved b c s s'"
    "cpus_inv E data irq Q W (cpus_count s) (slot_of s) ((phases b s)(b := boot_phase pc)) (sm_machine s') Y"
    and s: "seen b (s'\<lparr>sr_boot := pc\<rparr>) Y" and pc: "\<And>k. k < cpus_count s \<Longrightarrow> woken pc k = woken (sr_boot s) k" "\<And>i. pc = Waking i \<Longrightarrow> unat i \<le> cpus_count s" "pc \<noteq> Finished"
  shows "smp_inv E b data irq Q W (s'\<lparr>sr_boot := pc\<rparr>)" (is "smp_inv _ _ _ _ _ _ ?s")
proof -
  note f = moved_fields [OF m(1)]
  have sl: "slot_of ?s = slot_of s" using f(5) by (simp add: slot_of_def fun_eq_iff)
  have "counted ?s = counted s" using f(4) by (simp add: counted_def)
  then have "proto_ok E b ?s" using inv(1) f(1-4) pc by (simp add: proto_ok_def)
  moreover have "regs_ok b ?s" by (rule moved_regs [OF m(1) inv(2)]) (use f sl in simp_all)
  moreover have "phases b ?s = (phases b s)(b := boot_phase pc)" using f(4) by (auto simp: phases_def)
  ultimately show ?thesis using m(2) f(1) sl s unfolding smp_inv_def by auto
qed

lemma online_ok:
  assumes inv: "smp_inv E b data irq Q W s" and pc: "sr_boot s = Entered"
  shows "\<exists>s'. on_cpu b boot_online s = Inr s' \<and> smp_inv E b data irq Q W (s'\<lparr>sr_boot := Waking 0\<rparr>) \<and>
    sm_mp s' = sm_mp s \<and> sr_phase s' = sr_phase s"
proof -
  obtain Y where i: "proto_ok E b s" "regs_ok b s" "seen b s Y" "cpus_inv E data irq Q W (cpus_count s) (slot_of s) (phases b s) (sm_machine s) Y"
    using inv by (auto simp: smp_inv_def)
  let ?m = "sm_machine s" and ?r = "sr_regs s b" and ?p = "slot_of s b"
  have b: "b < cpus_count s" using i(1) by (simp add: proto_ok_def)
  obtain c where c: "Y ?p = Some c" using i(4) b by (auto simp: cpus_inv_def)
  have x: "sc_cpus ?m ?p = Some c" using i(3) c pc by (simp add: seen_def)
  note r = boot_regs [OF i(1,2)]
  let ?c = "c\<lparr>cpu_online := True\<rparr>"
  let ?m' = "set_cpu ?p ?c (load_regs ?r ?m)"
  have "boot_online (load_regs ?r ?m) = Inr ?m'" using r(1) x by (simp add: boot_online_def cpu_at_def Let_def)
  moreover have "stepped ?p ?c ?r ?m ?m'" using r by (simp add: stepped_def)
  ultimately obtain s' where s': "on_cpu b boot_online s = Inr s'" "moved b ?c s s'" "sm_machine s' = ?m'" using on_cpu_moved by blast
  note f = moved_fields [OF s'(2)]
  have "memory_inv (pf_limine (en_platform E)) Q W k ?m' Y" if "memory_inv (pf_limine (en_platform E)) Q W k ?m Y" for k
    by (rule memory_inv_regs [OF that, where x = "rg_ttbr1 ?r"]) (simp_all add: set_cpu_def)
  moreover have "tick_ready E ?m' data irq = tick_ready E (load_regs ?r ?m) data irq" by (rule tick_ready_cong) (simp_all add: set_cpu_def)
  ultimately have "cpus_inv E data irq Q W (cpus_count s) (slot_of s) ((phases b s)(b := boot_phase (Waking 0))) (sm_machine s') Y"
    using i(4) pc s'(3) by (simp add: cpus_inv_def phases_def)
  moreover have "slot_of (s'\<lparr>sr_boot := Waking 0\<rparr>) = slot_of s" using f(5) by (simp add: slot_of_def fun_eq_iff)
  then have "seen b (s'\<lparr>sr_boot := Waking 0\<rparr>) Y" using f(6) i(3) c by (simp add: seen_def)
  ultimately have "smp_inv E b data irq Q W (s'\<lparr>sr_boot := Waking 0\<rparr>)"
    by (intro boot_moved [OF i(1,2) s'(2)]) (use pc in auto)
  then show ?thesis using s'(1) f(1,4) by blast
qed

lemma create_ok:
  assumes inv: "smp_inv E b data irq Q W s" and pc: "sr_boot s = Waking i" "\<not> i < mp_cpu_count (sm_mp s)"
  shows "\<exists>s'. on_cpu b (en_init_tasks E (cpu_mpidr s b)) s = Inr s' \<and> smp_inv E b data irq Q W (s'\<lparr>sr_boot := Waiting\<rparr>) \<and>
    sm_mp s' = sm_mp s \<and> sr_phase s' = sr_phase s"
proof -
  obtain Y where i: "proto_ok E b s" "regs_ok b s" "seen b s Y" "cpus_inv E data irq Q W (cpus_count s) (slot_of s) (phases b s) (sm_machine s) Y"
    using inv by (auto simp: smp_inv_def)
  let ?p = "slot_of s b"
  have b: "b < cpus_count s" using i(1) by (simp add: proto_ok_def)
  have x: "sc_cpus (sm_machine s) ?p = map_option (\<lambda>c. c\<lparr>cpu_online := True\<rparr>) (Y ?p)" using i(3) pc(1) by (simp add: seen_def)
  have "starting (phases b s b)" "Set_up \<in> {Created, Set_up}" using pc(1) by (simp_all add: phases_def)
  from create_step [OF i(4) b this x boot_regs [OF i(1,2)]] obtain m' c where
    m: "en_init_tasks E (cpu_mpidr s b) (load_regs (sr_regs s b) (sm_machine s)) = Inr m'" "stepped ?p c (sr_regs s b) (sm_machine s) m'"
    "cpus_inv E data irq Q W (cpus_count s) (slot_of s) ((phases b s)(b := Set_up)) m' (Y(?p \<mapsto> c))" by blast
  from on_cpu_moved [where f = "en_init_tasks E (cpu_mpidr s b)", OF m(1,2)] obtain s' where
    s': "on_cpu b (en_init_tasks E (cpu_mpidr s b)) s = Inr s'" "moved b c s s'" "sm_machine s' = m'" by blast
  note f = moved_fields [OF s'(2)]
  have "slot_of (s'\<lparr>sr_boot := Waiting\<rparr>) = slot_of s" using f(5) by (simp add: slot_of_def fun_eq_iff)
  then have "seen b (s'\<lparr>sr_boot := Waiting\<rparr>) (Y(?p \<mapsto> c))" using f(6) i(3) by (auto simp: seen_def)
  moreover have "unat i = cpus_count s" using i(1) pc by (auto simp: proto_ok_def word_less_nat_alt)
  ultimately have "smp_inv E b data irq Q W (s'\<lparr>sr_boot := Waiting\<rparr>)"
    by (intro boot_moved [OF i(1,2) s'(2)]) (use pc m(3) s'(3) in simp_all)
  then show ?thesis using s'(1) f(1,4) by blast
qed

lemma wake_ok:
  assumes inv: "smp_inv E b data irq Q W s" and pc: "sr_boot s = Waking i" "i < mp_cpu_count (sm_mp s)"
  shows "\<exists>r. wake_round E i (sm_mp s) = Inr r \<and> smp_inv E b data irq Q W (s\<lparr>sm_mp := r, sr_boot := Waking (i + 1)\<rparr>) \<and>
    length (mp_cpus r) = cpus_count s \<and> unat (i + 1) = Suc (unat i) \<and> Suc (unat i) \<le> cpus_count s"
proof -
  obtain Y where i: "proto_ok E b s" "regs_ok b s" "seen b s Y" "cpus_inv E data irq Q W (cpus_count s) (slot_of s) (phases b s) (sm_machine s) Y"
    using inv by (auto simp: smp_inv_def)
  note p = i(1) [unfolded proto_ok_def]
  have n: "unat i < cpus_count s" using pc(2) p by (simp add: word_less_nat_alt)
  have u: "unat (i + 1) = Suc (unat i)" using n p unat_lt_u64 [of "mp_cpu_count (sm_mp s)"] by (subst unat_add_u64) simp_all
  have bsp: "mp_bsp_mpidr (sm_mp s) = cpu_mpidr s (unat i) \<longleftrightarrow> unat i = b"
    using p slot_other [OF i(4) n] by (metis slot_of_def)
  define r where "r = (if unat i = b then sm_mp s else wake_secondary_cpu E (unat i) (sm_mp s))"
  let ?s = "s\<lparr>sm_mp := r, sr_boot := Waking (i + 1)\<rparr>"
  have run: "wake_round E i (sm_mp s) = Inr r" using n bsp by (simp add: wake_round_def r_def)
  have len: "length (mp_cpus r) = cpus_count s" "mp_cpu_count r = mp_cpu_count (sm_mp s)" "mp_bsp_mpidr r = mp_bsp_mpidr (sm_mp s)"
    by (simp_all add: wake_secondary_cpu_def r_def)
  have mp: "mp_mpidr (mp_cpus r ! k) = cpu_mpidr s k" if "k < cpus_count s" for k
    using that n by (cases "k = unat i") (simp_all add: wake_secondary_cpu_def nth_list_update r_def)
  have g: "mp_goto_address (mp_cpus r ! k) = (if k \<noteq> b \<and> k < Suc (unat i) then en_secondary_entry E else 0)" if "k < cpus_count s" for k
    using that n p pc(1) by (cases "k = unat i") (auto simp: wake_secondary_cpu_def nth_list_update r_def)
  have sl: "slot_of ?s k = slot_of s k" if "k < cpus_count s" for k using mp [OF that] by (simp add: slot_of_def)
  have b: "b < cpus_count s" using p by blast
  have "counted ?s = counted s" by (simp add: counted_def)
  then have "proto_ok E b ?s" unfolding proto_ok_def using p len u n g mp [OF b] by simp
  moreover have "regs_ok b ?s" using i(2) sl len(1) by (simp add: regs_ok_def)
  moreover have "seen b ?s Y" using i(3) pc(1) sl [OF b] by (simp add: seen_def)
  moreover have "phases b ?s = phases b s" using pc(1) by (simp add: phases_def)
  moreover have "cpus_inv E data irq Q W (cpus_count s) (slot_of ?s) (phases b s) (sm_machine s) Y"
    using i(4) sl by (simp add: cpus_inv_def inj_on_def)
  ultimately have "smp_inv E b data irq Q W ?s" using len(1) unfolding smp_inv_def by auto
  then show ?thesis using run len(1) u n by auto
qed


lemma counted_bound:
  assumes "proto_ok E b s"
  shows "finite (counted s)" "counted s \<subseteq> {..<cpus_count s} - {b}" "card (counted s) < cpus_count s"
proof -
  show sub: "counted s \<subseteq> {..<cpus_count s} - {b}"
  proof
    fix k assume "k \<in> counted s"
    then have "sr_phase s k \<noteq> Parked" by (auto simp: counted_def)
    then have "\<not> (k = b \<or> cpus_count s \<le> k)" using assms by (auto simp: proto_ok_def)
    then show "k \<in> {..<cpus_count s} - {b}" by simp
  qed
  then show "finite (counted s)" by (rule finite_subset) simp
  have b: "b < cpus_count s" using assms by (simp add: proto_ok_def)
  then have "card ({..<cpus_count s} - {b}) = cpus_count s - 1" by simp
  moreover have "0 < cpus_count s" using b by linarith
  ultimately show "card (counted s) < cpus_count s" using card_mono [OF _ sub] by (metis Suc_pred' finite_Diff finite_lessThan le_imp_less_Suc)
qed

lemma count_ok:
  assumes inv: "smp_inv E b data irq Q W s" and k: "sr_phase s k = Set_up"
  shows "smp_inv E b data irq Q W (s\<lparr>cpus_enabled_count := cpus_enabled_count s + 1, sr_phase := (sr_phase s)(k := Counted)\<rparr>)"
    (is "smp_inv _ _ _ _ _ _ ?s") and "k < cpus_count s" "k \<noteq> b"
proof -
  obtain Y where i: "proto_ok E b s" "regs_ok b s" "seen b s Y" "cpus_inv E data irq Q W (cpus_count s) (slot_of s) (phases b s) (sm_machine s) Y"
    using inv by (auto simp: smp_inv_def)
  have "\<not> (k = b \<or> cpus_count s \<le> k)" using i(1) k unfolding proto_ok_def by force
  then show kn: "k < cpus_count s" "k \<noteq> b" by simp_all
  have c: "counted ?s = insert k (counted s)" "k \<notin> counted s" using k by (auto simp: counted_def)
  note fin = counted_bound [OF i(1)]
  have n: "unat (mp_cpu_count (sm_mp s)) = cpus_count s" "unat (cpus_enabled_count s) = Suc (card (counted s))"
    using i(1) by (simp_all add: proto_ok_def)
  have "card (insert k (counted s)) \<le> card ({..<cpus_count s} - {b})" by (rule card_mono) (use fin kn in auto)
  then have "Suc (Suc (card (counted s))) \<le> cpus_count s" using c(2) fin(1,3) i(1) by (simp add: proto_ok_def)
  then have u: "unat (cpus_enabled_count s + 1) = Suc (card (counted ?s))"
    using n c fin(1) unat_lt_u64 [of "mp_cpu_count (sm_mp s)"] by (subst unat_add_u64) simp_all
  have sl: "slot_of ?s = slot_of s" by (simp add: slot_of_def fun_eq_iff)
  have "sr_boot s \<noteq> Finished"
  proof
    assume "sr_boot s = Finished"
    then have "mp_cpu_count (sm_mp s) = cpus_enabled_count s" using i(1) by (simp add: proto_ok_def)
    with n \<open>Suc (Suc (card (counted s))) \<le> cpus_count s\<close> show False by simp
  qed
  then have "proto_ok E b ?s" using i(1) u kn by (simp add: proto_ok_def)
  moreover have "regs_ok b ?s" using i(2) sl k by (auto simp: regs_ok_def)
  moreover have "seen b ?s Y" using i(3) unfolding seen_def sl by simp
  moreover have ph: "phases b ?s = (phases b s)(k := Counted)" "phases b s k = Set_up" using kn(2) k by (auto simp: phases_def)
  moreover have "parked (cpus_count s) ((phases b s)(k := Counted)) = parked (cpus_count s) (phases b s)" by (rule parked_other) (simp_all add: ph(2))
  moreover have "\<forall>j < cpus_count s. Q (slot_of s j) = [] \<and> (\<exists>c. Y (slot_of s j) = Some c \<and>
      phase_ok (ts_tasks (sm_machine s)) (slot_of s j) c (((phases b s)(k := Counted)) j))"
  proof (intro allI impI)
    fix j assume "j < cpus_count s"
    then obtain c where "Q (slot_of s j) = []" "Y (slot_of s j) = Some c" "phase_ok (ts_tasks (sm_machine s)) (slot_of s j) c (phases b s j)"
      using i(4) by (auto simp: cpus_inv_def)
    then show "Q (slot_of s j) = [] \<and> (\<exists>c. Y (slot_of s j) = Some c \<and>
      phase_ok (ts_tasks (sm_machine s)) (slot_of s j) c (((phases b s)(k := Counted)) j))" using ph(2) by (cases "j = k") auto
  qed
  moreover have "inj_on (slot_of s) {..<cpus_count s}" "tick_ready E (sm_machine s) data irq"
    "memory_inv (pf_limine (en_platform E)) Q W (card (parked (cpus_count s) (phases b s))) (sm_machine s) Y"
    using i(4) by (simp_all add: cpus_inv_def)
  ultimately have "cpus_inv E data irq Q W (cpus_count s) (slot_of s) (phases b ?s) (sm_machine s) Y" unfolding cpus_inv_def by simp
  then show "smp_inv E b data irq Q W ?s"
    using \<open>proto_ok E b ?s\<close> \<open>regs_ok b ?s\<close> \<open>seen b ?s Y\<close> sl unfolding smp_inv_def by (intro conjI exI [of _ Y]) simp_all
qed

lemma leave_ok:
  assumes inv: "smp_inv E b data irq Q W s" and pc: "sr_boot s = Waiting" "mp_cpu_count (sm_mp s) = cpus_enabled_count s"
  shows "smp_inv E b data irq Q W (s\<lparr>sr_boot := Finished\<rparr>)" (is "smp_inv _ _ _ _ _ _ ?s")
proof -
  have "slot_of ?s = slot_of s" "counted ?s = counted s" "phases b ?s = phases b s"
    using pc by (simp_all add: slot_of_def counted_def phases_def fun_eq_iff)
  then show ?thesis using inv pc by (simp add: smp_inv_def proto_ok_def regs_ok_def seen_def)
qed

lemma smp_step_inv:
  assumes "smp_step E b s s'" and "smp_inv E b data irq Q W s"
  shows "smp_inv E b data irq Q W s'"
  using assms
proof (induction rule: smp_step.induct)
  case (sm_online s s')
  with online_ok [OF sm_online.prems sm_online.hyps(1)] show ?case by auto
next
  case (sm_wake s i r)
  with wake_ok [OF sm_wake.prems sm_wake.hyps(1,2)] show ?case by auto
next
  case (sm_create s i s')
  with create_ok [OF sm_create.prems sm_create.hyps(1,2)] show ?case by auto
next
  case (sm_leave s)
  with leave_ok [OF sm_leave.prems sm_leave.hyps] show ?case by simp
next
  case (sm_call s k s')
  with call_ok [OF sm_call.prems sm_call.hyps(1)] show ?case by auto
next
  case (sm_count s k)
  from count_ok(1) [OF sm_count.prems sm_count.hyps] show ?case .
qed


section \<open>Every cpu comes up\<close>

lemma phase_rank_less:
  assumes "k < n" and "phase_rank a < phase_rank (ph k)"
  shows "(\<Sum>j < n. phase_rank ((ph(k := a)) j)) < (\<Sum>j < (n :: nat). phase_rank (ph j))"
  by (rule sum_strict_mono_ex1) (use assms in auto)

lemma smp_step_rank:
  assumes "smp_step E b s s'" and "smp_inv E b data irq Q W s"
  shows "s' = s \<or> smp_rank s' < smp_rank s"
  using assms
proof (induction rule: smp_step.induct)
  case (sm_online s s')
  with online_ok [OF sm_online.prems sm_online.hyps(1)] show ?case by (auto simp: smp_rank_def)
next
  case (sm_wake s i r)
  with wake_ok [OF sm_wake.prems sm_wake.hyps(1,2)] show ?case by (auto simp: smp_rank_def)
next
  case (sm_create s i s')
  with create_ok [OF sm_create.prems sm_create.hyps(1,2)] show ?case by (auto simp: smp_rank_def)
next
  case (sm_call s k s')
  then have "k < cpus_count s" "sr_phase s k \<noteq> Idling" by (auto simp: calls_next_def)
  moreover have "phase_rank (next_phase a) < phase_rank a" if "a \<noteq> Idling" for a using that by (cases a) simp_all
  ultimately have "k < cpus_count s" "phase_rank (next_phase (sr_phase s k)) < phase_rank (sr_phase s k)" by blast+
  with call_ok [OF sm_call.prems sm_call.hyps(1)] sm_call.hyps(2) phase_rank_less [of k "cpus_count s" _ "sr_phase s"]
  show ?case by (auto simp: smp_rank_def)
next
  case (sm_count s k)
  with count_ok(2) [OF sm_count.prems sm_count.hyps] phase_rank_less [of k "cpus_count s" Counted "sr_phase s"]
  show ?case by (auto simp: smp_rank_def)
qed (simp_all add: smp_rank_def)

text \<open>No call fails, and whoever is not done can go on.\<close>

lemma smp_never_fails:
  assumes "smp_inv E b data irq Q W s"
  shows "\<not> smp_fails E b s k e"
proof
  assume "smp_fails E b s k e"
  then show False
  proof cases
    case online_fails
    with online_ok [OF assms] show False by auto
  next
    case (wake_fails i)
    with wake_ok [OF assms] show False by fastforce
  next
    case (create_fails i)
    with create_ok [OF assms] show False by fastforce
  next
    case call_fails
    with call_ok [OF assms] show False by fastforce
  qed
qed

lemma secondary_progress:
  assumes inv: "smp_inv E b data irq Q W s" and k: "k < cpus_count s" "k \<noteq> b" "sr_phase s k \<noteq> Idling"
    and g: "sr_phase s k = Parked \<longrightarrow> mp_goto_address (mp_cpus (sm_mp s) ! k) = en_secondary_entry E"
  shows "\<exists>s'. smp_step E b s s' \<and> sr_phase s' k = next_phase (sr_phase s k)"
proof (cases "sr_phase s k = Set_up")
  case True
  from sm_count [where E = E and b = b, OF this] show ?thesis using True by fastforce
next
  case False
  then have c: "calls_next E b s k" using k g by (simp add: calls_next_def)
  then obtain s' where "on_cpu k (secondary_op E (cpu_mpidr s k) (sr_phase s k)) s = Inr s'" using call_ok [OF inv] by blast
  from sm_call [OF c this] show ?thesis by fastforce
qed

lemma boot_progress:
  assumes inv: "smp_inv E b data irq Q W s"
    and pc: "sr_boot s \<noteq> Finished" "sr_boot s = Waiting \<Longrightarrow> mp_cpu_count (sm_mp s) = cpus_enabled_count s"
  shows "\<exists>s'. smp_step E b s s' \<and> sr_boot s' \<noteq> sr_boot s"
proof (cases "sr_boot s")
  case Entered
  then obtain s' where "on_cpu b boot_online s = Inr s'" using online_ok [OF inv] by blast
  from sm_online [where E = E, OF Entered this] show ?thesis using Entered by fastforce
next
  case (Waking i)
  show ?thesis
  proof (cases "i < mp_cpu_count (sm_mp s)")
    case True
    then obtain r where "wake_round E i (sm_mp s) = Inr r" using wake_ok [OF inv Waking] by blast
    from sm_wake [where b = b, OF Waking True this] show ?thesis using Waking by fastforce
  next
    case False
    then obtain s' where "on_cpu b (en_init_tasks E (cpu_mpidr s b)) s = Inr s'" using create_ok [OF inv Waking] by blast
    from sm_create [OF Waking False this] show ?thesis using Waking by fastforce
  qed
next
  case Waiting
  from sm_leave [where E = E and b = b, OF Waiting pc(2) [OF Waiting]] show ?thesis using Waiting by fastforce
qed (use pc(1) in simp)

definition all_running :: "nat \<Rightarrow> smp_run \<Rightarrow> bool" where
  "all_running b s \<longleftrightarrow> sr_boot s = Finished \<and> (\<forall>k < cpus_count s. k \<noteq> b \<longrightarrow> sr_phase s k = Idling)"

lemma not_all_counted:
  assumes p: "proto_ok E b s" and ne: "mp_cpu_count (sm_mp s) \<noteq> cpus_enabled_count s"
  shows "\<exists>k < cpus_count s. k \<noteq> b \<and> sr_phase s k \<noteq> Idling"
proof -
  have "Suc (card (counted s)) \<noteq> cpus_count s" using p ne unfolding proto_ok_def by (auto simp: word_unat_eq_iff)
  moreover have b: "b < cpus_count s" using p by (simp add: proto_ok_def)
  then have "card ({..<cpus_count s} - {b}) = cpus_count s - 1" by simp
  then have "Suc (card ({..<cpus_count s} - {b})) = cpus_count s" using b by linarith
  ultimately have "counted s \<noteq> {..<cpus_count s} - {b}" by metis
  then show ?thesis using counted_bound(2) [OF p] by (auto simp: counted_def)
qed

lemma smp_progress:
  assumes inv: "smp_inv E b data irq Q W s" and "\<not> all_running b s"
  shows "\<exists>s'. smp_step E b s s' \<and> s' \<noteq> s"
proof -
  have p: "proto_ok E b s" using inv by (simp add: smp_inv_def)
  have go: "mp_goto_address (mp_cpus (sm_mp s) ! k) = en_secondary_entry E" if "sr_boot s \<in> {Waiting, Finished}" "k < cpus_count s" "k \<noteq> b" for k
    using p that by (auto simp: proto_ok_def)
  have next_other: "next_phase a \<noteq> a" if "a \<noteq> Idling" for a using that by (cases a) simp_all
  show ?thesis
  proof (cases "sr_boot s = Finished \<or> sr_boot s = Waiting \<and> mp_cpu_count (sm_mp s) \<noteq> cpus_enabled_count s")
    case True
    then obtain k where k: "k < cpus_count s" "k \<noteq> b" "sr_phase s k \<noteq> Idling"
      using not_all_counted [OF p] assms(2) unfolding all_running_def by blast
    then show ?thesis using secondary_progress [OF inv k] go [of k] True next_other [OF k(3)] by (metis insertI1 insertI2)
  next
    case False
    then show ?thesis using boot_progress [OF inv] by fastforce
  qed
qed


text \<open>
  The state in which the boot cpu calls \<open>wake_secondary_cpus_and_wait\<close>: interrupt controller and timer are up,
  no cpu is initialised, there is room for an idle task per cpu, the cpus have different numbers below the
  size of the table, and the boot loader keeps all but the boot cpu parked.
\<close>

definition smp_start :: "smp_env \<Rightarrow> nat \<Rightarrow> gicv2_data \<Rightarrow> u32 \<Rightarrow> queues \<Rightarrow> queues \<Rightarrow> smp_run \<Rightarrow> bool" where
  "smp_start E b data irq Q W s \<longleftrightarrow> sr_boot s = Entered \<and> sr_phase s = (\<lambda>_. Parked) \<and> cpus_enabled_count s = 1 \<and>
     b < cpus_count s \<and> unat (mp_cpu_count (sm_mp s)) = cpus_count s \<and> mp_bsp_mpidr (sm_mp s) = cpu_mpidr s b \<and>
     en_secondary_entry E \<noteq> 0 \<and> (\<forall>k < cpus_count s. mp_goto_address (mp_cpus (sm_mp s) ! k) = 0) \<and> regs_ok b s \<and>
     cpus_inv E data irq Q W (cpus_count s) (slot_of s) (\<lambda>_. Parked) (sm_machine s) (sc_cpus (sm_machine s))"

lemma smp_start_inv:
  assumes "smp_start E b data irq Q W s"
  shows "smp_inv E b data irq Q W s"
proof -
  have "counted s = {}" "phases b s = (\<lambda>_. Parked)" using assms by (auto simp: smp_start_def counted_def phases_def)
  then show ?thesis using assms unfolding smp_start_def smp_inv_def proto_ok_def seen_def by (intro conjI exI [of _ "sc_cpus (sm_machine s)"]) simp_all
qed

lemma smp_reachable_inv:
  assumes "(smp_step E b)\<^sup>*\<^sup>* s s'" and "smp_inv E b data irq Q W s"
  shows "smp_inv E b data irq Q W s'"
  using assms by (induction rule: rtranclp_induct) (blast intro: smp_step_inv)+

lemma cpus_count_step:
  assumes "smp_step E b s s'" and "smp_inv E b data irq Q W s"
  shows "cpus_count s' = cpus_count s"
  using assms
proof (induction rule: smp_step.induct)
  case (sm_wake s i r)
  with wake_ok [OF sm_wake.prems sm_wake.hyps(1,2)] show ?case by auto
qed (auto simp: on_cpu_def bindE_Inr_iff)

lemma cpus_count_reachable:
  assumes "(smp_step E b)\<^sup>*\<^sup>* s s'" and "smp_inv E b data irq Q W s"
  shows "cpus_count s' = cpus_count s"
  using assms by (induction rule: rtranclp_induct) (auto dest: smp_reachable_inv cpus_count_step)

lemma smp_finishes:
  assumes "smp_inv E b data irq Q W s"
  shows "\<exists>s'. (smp_step E b)\<^sup>*\<^sup>* s s' \<and> all_running b s'"
  using assms
proof (induction "smp_rank s" arbitrary: s rule: less_induct)
  case less
  show ?case
  proof (cases "all_running b s")
    case False
    then obtain t where t: "smp_step E b s t" "t \<noteq> s" using smp_progress [OF less.prems] by blast
    then have "smp_rank t < smp_rank s" using smp_step_rank [OF t(1) less.prems] by blast
    from less.hyps [OF this smp_step_inv [OF t(1) less.prems]] show ?thesis using t(1) by (meson converse_rtranclp_into_rtranclp)
  qed blast
qed

lemma finished_all_up:
  assumes inv: "smp_inv E b data irq Q W s" and fin: "sr_boot s = Finished" and k: "k < cpus_count s"
  shows "\<exists>c tk. sc_cpus (sm_machine s) (slot_of s k) = Some c \<and> cpu_online c \<and> ts_tasks (sm_machine s) (cpu_idle c) = Some tk \<and>
    t_cpu tk = slot_of s k \<and> (k \<noteq> b \<longrightarrow> sr_phase s k \<in> {Counted, Idling})"
proof -
  obtain Y where i: "proto_ok E b s" "seen b s Y" "cpus_inv E data irq Q W (cpus_count s) (slot_of s) (phases b s) (sm_machine s) Y"
    using inv by (auto simp: smp_inv_def)
  note cb = counted_bound [OF i(1)]
  have "unat (mp_cpu_count (sm_mp s)) = cpus_count s" "mp_cpu_count (sm_mp s) = cpus_enabled_count s"
    "unat (cpus_enabled_count s) = Suc (card (counted s))" "b < cpus_count s" using i(1) fin unfolding proto_ok_def by blast+
  then have "card ({..<cpus_count s} - {b}) = card (counted s)" by simp
  then have all: "counted s = {..<cpus_count s} - {b}" using cb(2) by (intro card_subset_eq) simp_all
  have Y: "Y q = sc_cpus (sm_machine s) q" for q using i(2) fin by (cases "q = slot_of s b") (simp_all add: seen_def)
  obtain c where c: "Y (slot_of s k) = Some c" "phase_ok (ts_tasks (sm_machine s)) (slot_of s k) c (phases b s k)"
    using i(3) k by (auto simp: cpus_inv_def)
  have "k \<noteq> b \<longrightarrow> k \<in> counted s" using all k by simp
  then have "k \<noteq> b \<longrightarrow> sr_phase s k \<in> {Counted, Idling}" by (simp add: counted_def)
  moreover have "phases b s k \<in> {Set_up, Counted, Idling}" using calculation fin by (auto simp: phases_def)
  ultimately show ?thesis using c Y by auto
qed

section \<open>Properties\<close>

text \<open>
  C10.  A secondary cpu starts.  Entered by a cpu that has not been initialised, with interrupt controller and timer
  up and room for a task in the heap, \<open>init_secondary_cpu\<close> switches to the kernel page table, arms the tick of
  this cpu, creates its idle task, puts it online with interrupts enabled, counts it, and ends up running its
  idle task from the trampoline.  The other cpus and the invariants of the system are kept.
\<close>

theorem secondary_cpu_starts:
  fixes E :: smp_env and s :: smp
  defines "m \<equiv> sm_machine s" and "li \<equiv> pf_limine (en_platform E)"
  assumes "p = cpu_slot m (ucast (cpu_get_cpuid mpidr))"
    and "sys_inv li (m\<lparr>ts_core := (ts_core m)\<lparr>this_cpu := p\<rparr>\<rparr>) Q W T xs bs U G"
    and "sc_cpus m p = Some c" and "fresh_cpu c" and "Q p = []" and "irq_disable_depth (ts_core m) = 0"
    and "tick_ready E m data irq" and "tm_task_id_count (sys_tm m) \<noteq> - 1"
    and "fl_take (sizeof_task + 16) bs = Some (b, bs1)" and "fl_take (TASK_STACK_SIZE + 16) bs1 = Some (bk, bs2)"
  shows "\<exists>s' m' c' tk. init_secondary_cpu E mpidr s = Inr s' \<and> sm_machine s' = m' \<and>
    cpus_enabled_count s' = cpus_enabled_count s + 1 \<and> sm_mp s' = sm_mp s \<and>
    sys_inv li m' Q W T xs bs2 (insert bk (insert b U)) (G @ [fst b + 16]) \<and> sched_inv m' Q W \<and>
    sc_cpus m' = (sc_cpus m)(p \<mapsto> c') \<and> cpu_online c' \<and> cpu_cpuid c' = cpu_get_cpuid mpidr \<and> cpu_current c' = cpu_idle c' \<and>
    cpu_timer c' = \<lparr>ct_ticks = 0, ct_resched_after = ticks_from_miliseconds (tm_frequency (mc_timer m)) CONFIG_TIMER_RESCHED_MS\<rparr> \<and>
    ts_tasks m (cpu_idle c') = None \<and> ts_tasks m' = (ts_tasks m)(cpu_idle c' \<mapsto> tk) \<and> t_state tk = TASK_RUNNING \<and> t_cpu tk = p \<and>
    t_entry tk = en_task_idle E \<and> sc_regs m' = t_context tk \<and> cx_lr (sc_regs m') = en_trampoline E \<and>
    this_cpu (ts_core m') = p \<and> r_intrd_enabled (ts_core m') \<and> ttbr1_el1 (sys_vm m') = kernel_page_table (sys_vm m) - hhdm li \<and>
    cntp_tval_el0 m' = ct_resched_after (cpu_timer c') \<and> r_counter_is_enabled m' \<and>
    ds_enabled (dist_view (reg_address (gd_dist data)) (mc_bus m') dd) (unat irq)"
proof -
  have m: "m\<lparr>ts_core := (ts_core m)\<lparr>this_cpu := p\<rparr>, sc_cpus := sc_cpus m\<rparr> = m\<lparr>ts_core := (ts_core m)\<lparr>this_cpu := p\<rparr>\<rparr>" by simp
  obtain m1 c1 tk where 1: "secondary_setup E mpidr m = Inr m1" "set_up_by E data irq mpidr p c1 tk m m1"
    "sys_inv li (m1\<lparr>sc_cpus := (sc_cpus m)(p \<mapsto> c1)\<rparr>) Q W T xs bs2 (insert bk (insert b U)) (G @ [fst b + 16])"
    using secondary_setup_run [where E = E and m = m and mpidr = mpidr and Y = "sc_cpus m" and c = c and data = data and irq = irq,
        of Q W T xs bs U G b bs1 bk bs2] assms m unfolding li_def by auto
  note u = 1(2) [unfolded set_up_by_def]
  have "m1\<lparr>sc_cpus := (sc_cpus m)(p \<mapsto> c1)\<rparr> = m1" using u by simp
  then have inv: "sys_inv li m1 Q W T xs bs2 (insert bk (insert b U)) (G @ [fst b + 16])" using 1(3) by simp
  have "cpu_idle c1 \<noteq> nullptr" using null_no_task [OF sys_invD(1) [OF inv]] u by auto
  then have a: "about_to_idle m1 p c1 tk" using u by (simp add: about_to_idle_def)
  have cur: "this_cpu (ts_core m1) = p" using u by simp
  let ?m = "idling p c1 tk m1" and ?c = "c1\<lparr>cpu_current := cpu_idle c1\<rparr>"
  let ?s = "s\<lparr>sm_machine := ?m, cpus_enabled_count := cpus_enabled_count s + 1\<rparr>"
  have run: "init_secondary_cpu E mpidr s = Inr ?s"
    using 1(1) first_switch [OF a cur] by (simp add: init_secondary_cpu_def m_def Let_def)
  note i = first_switch_inv [OF inv a cur assms(7)]
  have "mc_bus ?m = mc_bus m1" "cntp_tval_el0 ?m = cntp_tval_el0 m1" "cntp_ctl_el0 ?m = cntp_ctl_el0 m1" "sys_vm ?m = sys_vm m1" "ts_core ?m = ts_core m1"
    by (simp_all add: idling_def)
  then show ?thesis using run i u
    by (intro exI [of _ ?s] exI [of _ ?m] exI [of _ ?c] exI [of _ "tk\<lparr>t_state := TASK_RUNNING\<rparr>"])
      (simp add: idling_def r_counter_is_enabled_def li_def)
qed

text \<open>
  C9.  All cpus come up.  However the calls of the cpus interleave, no call of any of them panics or faults, and
  a secondary cpu that has been woken and is not yet in its idle task can make its next one.  The boot cpu leaves
  \<open>wake_secondary_cpus_and_wait\<close> only when every cpu is online with an idle task of its own; until then some cpu
  can always make a step, and every step but the spinning of the boot cpu brings the system closer to the end.
  From every reachable state the end can be reached, where the boot cpu has left and all others run their idle tasks.
\<close>

theorem smp_boot_completes:
  assumes "smp_start E b data irq Q W s0" and "(smp_step E b)\<^sup>*\<^sup>* s0 s"
  shows "(sr_boot s = Finished \<longrightarrow> (\<forall>k < cpus_count s. \<exists>c tk. sc_cpus (sm_machine s) (slot_of s k) = Some c \<and> cpu_online c \<and>
      ts_tasks (sm_machine s) (cpu_idle c) = Some tk \<and> t_cpu tk = slot_of s k \<and> (k \<noteq> b \<longrightarrow> sr_phase s k \<in> {Counted, Idling}))) \<and>
    (\<forall>k e. \<not> smp_fails E b s k e) \<and>
    (\<forall>k < cpus_count s. k \<noteq> b \<and> sr_phase s k \<noteq> Idling \<and>
      (sr_phase s k = Parked \<longrightarrow> mp_goto_address (mp_cpus (sm_mp s) ! k) = en_secondary_entry E) \<longrightarrow>
      (\<exists>s'. smp_step E b s s' \<and> sr_phase s' k = next_phase (sr_phase s k))) \<and>
    (sr_boot s \<noteq> Finished \<longrightarrow> (\<exists>s'. smp_step E b s s' \<and> s' \<noteq> s)) \<and>
    (\<forall>s'. smp_step E b s s' \<longrightarrow> s' = s \<or> smp_rank s' < smp_rank s) \<and>
    (\<exists>s'. (smp_step E b)\<^sup>*\<^sup>* s s' \<and> sr_boot s' = Finished \<and> (\<forall>k < cpus_count s'. k \<noteq> b \<longrightarrow> sr_phase s' k = Idling))"
proof -
  have inv: "smp_inv E b data irq Q W s" using smp_reachable_inv [OF assms(2) smp_start_inv [OF assms(1)]] .
  have "sr_boot s \<noteq> Finished \<longrightarrow> (\<exists>s'. smp_step E b s s' \<and> s' \<noteq> s)" using smp_progress [OF inv] by (auto simp: all_running_def)
  then show ?thesis
    using finished_all_up [OF inv] smp_never_fails [OF inv] secondary_progress [OF inv] smp_step_rank [OF _ inv] smp_finishes [OF inv]
    unfolding all_running_def by blast
qed

section \<open>Two cpus\<close>

lemma sys_inv_truncate: "sys_inv li (ksys.truncate s) Q W T xs bs U G = sys_inv li s Q W T xs bs U G"
  by (cases s) (simp add: sys_inv_def queues_ok_def store_ok_def ksys.truncate_def)

definition smp_machine :: "kheap \<Rightarrow> vmm \<Rightarrow> machine" where
  "smp_machine kh v = (demo_machine kh v)\<lparr>sc_cpus := sc_cpus (boot_sys kh v)\<rparr>"

definition two_env :: smp_env where
  "two_env = \<lparr>en_platform = \<lparr>pf_hw = \<lambda>_ _ _. 2, pf_limine = sized_map 8000, pf_tree = timer_tree\<rparr>,
     en_trampoline = 0xffffffff80000000, en_task_idle = 0xffffffff80001000, en_secondary_entry = 0xffffffff80002000,
     en_junk = demo_task '''' 0, en_jnode = detached\<rparr>"

definition two_cpus :: "kheap \<Rightarrow> vmm \<Rightarrow> smp_run" where
  "two_cpus kh v = \<lparr>sm_machine = smp_machine kh v,
     sm_mp = \<lparr>mp_bsp_mpidr = 0x80000000, mp_cpu_count = 2, mp_cpus = [\<lparr>mp_mpidr = 0x80000000, mp_goto_address = 0\<rparr>, \<lparr>mp_mpidr = 0x80000001, mp_goto_address = 0\<rparr>]\<rparr>,
     cpus_enabled_count = 1, sr_boot = Entered, sr_phase = (\<lambda>_. Parked),
     sr_regs = (\<lambda>k. \<lparr>rg_core = \<lparr>this_cpu = (if k = 0 then 0x10000 else 0), daif = 0, irq_disable_depth = 0, irq_was_enabled = False\<rparr>,
       rg_context = zero_context, rg_ttbr1 = 0, rg_ctl = 0, rg_tval = 0, rg_cval = 0\<rparr>)\<rparr>"

lemma two_ids: "cpu_get_cpuid 0x80000000 = 0" "cpu_get_cpuid 0x80000001 = 1"
  by (simp_all add: cpu_get_cpuid_def)

lemma smp_machine_fields:
  "CPUS (smp_machine kh v) = 0x10000" "sys_tm (smp_machine kh v) = task_manager_init" "ts_tasks (smp_machine kh v) = Map.empty"
  "sc_cpus (smp_machine kh v) 0x10000 = Some offline_cpu" "sc_cpus (smp_machine kh v) 0x10060 = Some offline_cpu"
  "irq_disable_depth (ts_core (smp_machine kh v)) = 0"
  by (auto simp: smp_machine_def demo_machine_def boot_sys_def demo_range sizeof_cpu_def)

lemma smp_machine_ready: "tick_ready two_env (smp_machine kh v) demo_gic 30"
proof -
  let ?d = "demo_device armv8_timer_driver Armv8_timer_ops 0 0"
  have "interrupt_id timer_tree ?d = Inr 30" by (rule timer_tree_id) (simp add: demo_device_def)
  moreover have "timer_of (tm_device (mc_timer (smp_machine kh v))) (smp_machine kh v) = Inr ?d"
    by (simp add: smp_machine_def demo_machine_def timer_of_def dev_at_def demo_device_def)
  moreover have "chip_ready (smp_machine kh v) demo_gic" using demo_chip by (simp add: smp_machine_def)
  ultimately show ?thesis by (auto simp: tick_ready_def two_env_def MAX_IRQ_def)
qed


lemma smp_memory:
  "\<exists>kh v T xs pool. sys_inv (sized_map 8000) (smp_machine kh v) (\<lambda>_. []) (\<lambda>_. []) T xs [(pool, 5001216)] {} []"
proof -
  obtain kh v T xs pool where k: "\<forall>c. core_ok (Suc (Suc 0)) c \<longrightarrow> kheap_inv (sized_map 8000) kh (set_core c v) T xs [(pool, 5001216)] {}"
    using booted_memory by blast
  let ?v = "set_core \<lparr>this_cpu = 1, daif = 0, irq_disable_depth = 0, irq_was_enabled = False\<rparr> v"
  have "kheap_inv (sized_map 8000) kh ?v T xs [(pool, 5001216)] {}" using k by (simp add: core_ok_def)
  moreover have "ksys.truncate (smp_machine kh ?v) = boot_sys kh ?v"
    by (simp add: smp_machine_def demo_machine_def ksys.truncate_def boot_sys_def)
  ultimately have "sys_inv (sized_map 8000) (smp_machine kh ?v) (\<lambda>_. []) (\<lambda>_. []) T xs [(pool, 5001216)] {} []"
    using boot_sys_inv sys_inv_truncate by metis
  then show ?thesis by blast
qed

lemma two_takes:
  "fl_take (sizeof_task + 16) [(pool, 5001216)] = Some ((pool, 232), [(pool + 232, 5000984)])"
  "fl_take (TASK_STACK_SIZE + 16) [(pool + 232, 5000984)] = Some ((pool + 232, 16400), [(pool + 232 + 16400, 4984584)])"
  "task_room 2 [(pool, 5001216)]"
proof -
  show f: "fl_take (sizeof_task + 16) [(pool, 5001216)] = Some ((pool, 232), [(pool + 232, 5000984)])"
    "fl_take (TASK_STACK_SIZE + 16) [(pool + 232, 5000984)] = Some ((pool + 232, 16400), [(pool + 232 + 16400, 4984584)])"
    using take_task_from_pool [of 5001216 pool] take_stack_from_pool [of 5000984 "pool + 232"] by simp_all
  have g: "fl_take (sizeof_task + 16) [(q, 4984584)] = Some ((q, 232), [(q + 232, 4984352)])"
    "fl_take (TASK_STACK_SIZE + 16) [(q, 4984352)] = Some ((q, 16400), [(q + 16400, 4967952)])" for q :: ptr
    using take_task_from_pool [of 4984584 q] take_stack_from_pool [of 4984352 q] by simp_all
  have "task_room (Suc (Suc 0)) [(pool, 5001216)]" by (simp only: task_room.simps f g option.case prod.case)
  then show "task_room 2 [(pool, 5001216)]" by (simp only: numeral_2_eq_2)
qed

lemma two_cpus_start:
  "\<exists>kh v. smp_start two_env 0 demo_gic 30 (\<lambda>_. []) (\<lambda>_. []) (two_cpus kh v)"
proof -
  obtain kh v T xs pool where i: "sys_inv (sized_map 8000) (smp_machine kh v) (\<lambda>_. []) (\<lambda>_. []) T xs [(pool, 5001216)] {} []"
    using smp_memory by blast
  let ?s = "two_cpus kh v"
  have f: "sm_machine ?s = smp_machine kh v" "cpus_count ?s = 2" "sr_boot ?s = Entered" "sr_phase ?s = (\<lambda>_. Parked)"
    by (simp_all add: two_cpus_def)
  have sl: "slot_of ?s 0 = 0x10000" "slot_of ?s 1 = 0x10060"
    by (simp_all add: slot_of_def cpu_slot_def two_cpus_def two_ids smp_machine_fields sizeof_cpu_def)
  have two: "k < 2 \<longleftrightarrow> k = 0 \<or> k = (1 :: nat)" for k by auto
  have "parked 2 (\<lambda>_. Parked) = {0, 1}" by (auto simp: parked_def)
  then have n: "card (parked 2 (\<lambda>_. Parked)) = 2" by simp
  have "memory_inv (sized_map 8000) (\<lambda>_. []) (\<lambda>_. []) (card (parked 2 (\<lambda>_. Parked))) (smp_machine kh v) (sc_cpus (smp_machine kh v))"
    unfolding n by (rule memory_invI [OF _ two_takes(3)]) (use i in \<open>simp_all add: smp_machine_fields task_manager_init_def\<close>)
  moreover have "inj_on (slot_of ?s) {..<2}" using sl by (auto simp: inj_on_def two lessThan_def)
  moreover have "fresh_cpu offline_cpu" by (simp add: fresh_cpu_def offline_cpu_def)
  ultimately have "cpus_inv two_env demo_gic 30 (\<lambda>_. []) (\<lambda>_. []) 2 (slot_of ?s) (\<lambda>_. Parked) (smp_machine kh v) (sc_cpus (smp_machine kh v))"
    using smp_machine_ready sl smp_machine_fields(4,5) by (auto simp: cpus_inv_def two two_env_def)
  moreover have "regs_ok 0 ?s" unfolding regs_ok_def f(2) two using sl by (auto simp: two_cpus_def core_ok_def)
  ultimately have "smp_start two_env 0 demo_gic 30 (\<lambda>_. []) (\<lambda>_. []) ?s"
    unfolding smp_start_def f(2) f(1,3,4) two by (auto simp: two_cpus_def two_env_def)
  then show ?thesis by blast
qed

theorem secondary_cpu_starts_witness:
  "\<exists>kh v s' c. init_secondary_cpu two_env 0x80000001 (smp.truncate (two_cpus kh v)) = Inr s' \<and> cpus_enabled_count s' = 2 \<and>
     sc_cpus (sm_machine s') 0x10060 = Some c \<and> cpu_online c \<and> cpu_cpuid c = 1 \<and> cpu_current c = cpu_idle c \<and>
     cx_lr (sc_regs (sm_machine s')) = 0xffffffff80000000 \<and> r_intrd_enabled (ts_core (sm_machine s'))"
proof -
  obtain kh v T xs pool where i: "sys_inv (sized_map 8000) (smp_machine kh v) (\<lambda>_. []) (\<lambda>_. []) T xs [(pool, 5001216)] {} []"
    using smp_memory by blast
  let ?s = "smp.truncate (two_cpus kh v)"
  have m: "sm_machine ?s = smp_machine kh v" "cpus_enabled_count ?s = 1" by (simp_all add: smp.truncate_def two_cpus_def)
  have p: "0x10060 = cpu_slot (smp_machine kh v) (ucast (cpu_get_cpuid 0x80000001))"
    by (simp add: cpu_slot_def two_ids smp_machine_fields sizeof_cpu_def)
  have li: "pf_limine (en_platform two_env) = sized_map 8000" "en_trampoline two_env = 0xffffffff80000000" by (simp_all add: two_env_def)
  have inv: "sys_inv (sized_map 8000) ((smp_machine kh v)\<lparr>ts_core := (ts_core (smp_machine kh v))\<lparr>this_cpu := 0x10060\<rparr>\<rparr>)
      (\<lambda>_. []) (\<lambda>_. []) T xs [(pool, 5001216)] {} []"
    by (rule sys_inv_regs [OF i, where x = "ttbr1_el1 (sys_vm (smp_machine kh v))"]) (simp_all add: smp_machine_def demo_machine_def core_ok_def)
  have o: "fresh_cpu offline_cpu" "tm_task_id_count (sys_tm (smp_machine kh v)) \<noteq> - 1"
    by (simp_all add: fresh_cpu_def offline_cpu_def smp_machine_fields task_manager_init_def)
  obtain s' m' c where "init_secondary_cpu two_env 0x80000001 ?s = Inr s'" "sm_machine s' = m'" "cpus_enabled_count s' = 1 + 1"
    "sc_cpus m' = (sc_cpus (smp_machine kh v))(0x10060 \<mapsto> c)" "cpu_online c" "cpu_cpuid c = cpu_get_cpuid 0x80000001" "cpu_current c = cpu_idle c"
    "cx_lr (sc_regs m') = 0xffffffff80000000" "r_intrd_enabled (ts_core m')"
    using secondary_cpu_starts [where E = two_env and s = ?s and dd = undefined, unfolded m li, OF p inv smp_machine_fields(5) o(1) refl
      smp_machine_fields(6) smp_machine_ready o(2) two_takes(1,2)]
    by (elim exE conjE) (rule that; assumption)
  then show ?thesis unfolding two_ids by (intro exI [of _ kh] exI [of _ v] exI [of _ s'] exI [of _ c]) simp
qed

theorem smp_boot_completes_witness:
  "\<exists>kh v s c. (smp_step two_env 0)\<^sup>*\<^sup>* (two_cpus kh v) s \<and> sr_boot s = Finished \<and> cpus_count s = 2 \<and>
     sc_cpus (sm_machine s) (slot_of s 1) = Some c \<and> cpu_online c"
proof -
  obtain kh v where s: "smp_start two_env 0 demo_gic 30 (\<lambda>_. []) (\<lambda>_. []) (two_cpus kh v)" using two_cpus_start by blast
  obtain t where t: "(smp_step two_env 0)\<^sup>*\<^sup>* (two_cpus kh v) t" "sr_boot t = Finished"
    using smp_boot_completes [OF s rtranclp.rtrancl_refl] by blast
  have n: "cpus_count t = 2" using cpus_count_reachable [OF t(1) smp_start_inv [OF s]] by (simp add: two_cpus_def)
  have "\<exists>c. sc_cpus (sm_machine t) (slot_of t 1) = Some c \<and> cpu_online c"
    using smp_boot_completes [OF s t(1)] t(2) n by (metis one_less_numeral_iff semiring_norm(76))
  then show ?thesis using t n by blast
qed

end
