(* ===== verification/Linked_List.thy ===== *)
theory Linked_List
  imports Task_Manager
begin

text \<open>
  The linked list of \<open>lib/ds/linkedlist.c\<close>, whose nodes are blocks of the kernel heap: inserting allocates
  a node, removing frees it.  \<open>ll_rep\<close> reads the sequence of elements off the links; the locale \<open>deque\<close> is
  the contract of a double-ended queue with room for a number of further elements, and the list with the
  heap below it provides it.
\<close>

section \<open>Nodes and operations\<close>

record ll_node =
  ln_data :: ptr
  ln_next :: ptr
  ln_prev :: ptr

record linked_list =
  ll_head :: ptr
  ll_tail :: ptr
  ll_count :: usize

record ll_sys = ksys +
  ll_nodes :: "ptr \<rightharpoonup> ll_node"

definition sizeof_node :: usize where "sizeof_node = 24"

definition ll_node_at :: "ptr \<Rightarrow> ll_sys \<Rightarrow> kerror + ll_node" where
  "ll_node_at p s = (case ll_nodes s p of None \<Rightarrow> Inl (Fault p) | Some n \<Rightarrow> Inr n)"

definition update_node :: "ptr \<Rightarrow> (ll_node \<Rightarrow> ll_node) \<Rightarrow> ll_sys \<Rightarrow> kerror + ll_sys" where
  "update_node p f s = bindE (ll_node_at p s) (\<lambda>n. Inr (s\<lparr>ll_nodes := (ll_nodes s)(p \<mapsto> f n)\<rparr>))"

definition linkedlist_init :: linked_list where
  "linkedlist_init = \<lparr>ll_head = nullptr, ll_tail = nullptr, ll_count = 0\<rparr>"

definition linkedlist_count :: "linked_list \<Rightarrow> usize" where
  "linkedlist_count ll = ll_count ll"

text \<open>
  The result of \<open>kalloc\<close> is not tested: writing the fields through an error pointer is a fault.  All three
  fields are written before the node is linked.
\<close>

definition new_node :: "limine \<Rightarrow> ptr \<Rightarrow> ptr \<Rightarrow> ptr \<Rightarrow> ll_sys \<Rightarrow> kerror + ptr \<times> ll_sys" where
  "new_node li data next prev s =
     bindE (sys_kalloc li sizeof_node s) (\<lambda>(node, s).
     if IS_ERR node then Inl (Fault node)
     else Inr (node, s\<lparr>ll_nodes := (ll_nodes s)(node \<mapsto> \<lparr>ln_data = data, ln_next = next, ln_prev = prev\<rparr>)\<rparr>))"

definition linkedlist_insert_head :: "limine \<Rightarrow> linked_list \<Rightarrow> ptr \<Rightarrow> ll_sys \<Rightarrow> kerror + linked_list \<times> ll_sys" where
  "linkedlist_insert_head li ll data s =
     bindE (new_node li data (ll_head ll) nullptr s) (\<lambda>(node, s).
     bindE (if ll_head ll \<noteq> nullptr
            then bindE (update_node (ll_head ll) (\<lambda>n. n\<lparr>ln_prev := node\<rparr>) s) (\<lambda>s. Inr (ll, s))
            else Inr (ll\<lparr>ll_tail := node\<rparr>, s)) (\<lambda>(ll, s).
     Inr (ll\<lparr>ll_head := node, ll_count := ll_count ll + 1\<rparr>, s)))"

definition linkedlist_insert_tail :: "limine \<Rightarrow> linked_list \<Rightarrow> ptr \<Rightarrow> ll_sys \<Rightarrow> kerror + linked_list \<times> ll_sys" where
  "linkedlist_insert_tail li ll data s =
     bindE (new_node li data nullptr (ll_tail ll) s) (\<lambda>(node, s).
     bindE (if ll_tail ll \<noteq> nullptr
            then bindE (update_node (ll_tail ll) (\<lambda>n. n\<lparr>ln_next := node\<rparr>) s) (\<lambda>s. Inr (ll, s))
            else Inr (ll\<lparr>ll_head := node\<rparr>, s)) (\<lambda>(ll, s).
     Inr (ll\<lparr>ll_tail := node, ll_count := ll_count ll + 1\<rparr>, s)))"

text \<open>The end of a removal: the data is read, the node is freed and is no node any more.\<close>

definition free_node :: "ptr \<Rightarrow> linked_list \<Rightarrow> ll_sys \<Rightarrow> kerror + ptr \<times> linked_list \<times> ll_sys" where
  "free_node node ll s =
     bindE (ll_node_at node s) (\<lambda>n.
     bindE (sys_kfree node s) (\<lambda>s.
     Inr (ln_data n, ll\<lparr>ll_count := ll_count ll - 1\<rparr>, s\<lparr>ll_nodes := (ll_nodes s)(node := None)\<rparr>)))"

definition linkedlist_remove_head :: "linked_list \<Rightarrow> ll_sys \<Rightarrow> kerror + ptr \<times> linked_list \<times> ll_sys" where
  "linkedlist_remove_head ll s =
     (let current_head = ll_head ll in
      if current_head = nullptr then Inr (nullptr, ll, s)
      else
        bindE (ll_node_at current_head s) (\<lambda>n.
        let ll = ll\<lparr>ll_head := ln_next n\<rparr> in
        bindE (if ll_head ll \<noteq> nullptr
               then bindE (update_node (ll_head ll) (\<lambda>n. n\<lparr>ln_prev := nullptr\<rparr>) s) (\<lambda>s. Inr (ll, s))
               else Inr (ll\<lparr>ll_tail := nullptr\<rparr>, s)) (\<lambda>(ll, s).
        free_node current_head ll s)))"

definition linkedlist_remove_tail :: "linked_list \<Rightarrow> ll_sys \<Rightarrow> kerror + ptr \<times> linked_list \<times> ll_sys" where
  "linkedlist_remove_tail ll s =
     (let current_tail = ll_tail ll in
      bindE (ll_node_at current_tail s) (\<lambda>n.
      let ll = ll\<lparr>ll_tail := ln_prev n\<rparr> in
      bindE (if ll_tail ll \<noteq> nullptr
             then bindE (update_node (ll_tail ll) (\<lambda>n. n\<lparr>ln_next := nullptr\<rparr>) s) (\<lambda>s. Inr (ll, s))
             else Inr (ll\<lparr>ll_head := nullptr\<rparr>, s)) (\<lambda>(ll, s).
      free_node current_tail ll s)))"

definition linkedlist_peek_head :: "linked_list \<Rightarrow> ll_sys \<Rightarrow> kerror + ptr" where
  "linkedlist_peek_head ll s =
     (if ll_head ll = nullptr then Inr nullptr else bindE (ll_node_at (ll_head ll) s) (\<lambda>n. Inr (ln_data n)))"

definition linkedlist_peek_tail :: "linked_list \<Rightarrow> ll_sys \<Rightarrow> kerror + ptr" where
  "linkedlist_peek_tail ll s =
     (if ll_tail ll = nullptr then Inr nullptr else bindE (ll_node_at (ll_tail ll) s) (\<lambda>n. Inr (ln_data n)))"

section \<open>The sequence of elements\<close>

text \<open>A chain of nodes, each given by its address and its element.\<close>

fun node_chain :: "(ptr \<rightharpoonup> ll_node) \<Rightarrow> ptr \<Rightarrow> (ptr \<times> ptr) list \<Rightarrow> ptr \<Rightarrow> bool" where
  "node_chain h pv [] nx \<longleftrightarrow> True"
| "node_chain h pv ((p, d) # xs) nx \<longleftrightarrow> p \<noteq> nullptr \<and>
     h p = Some \<lparr>ln_data = d, ln_next = first_of (map fst xs) nx, ln_prev = pv\<rparr> \<and> node_chain h p xs nx"

definition ll_rep :: "linked_list \<Rightarrow> (ptr \<rightharpoonup> ll_node) \<Rightarrow> (ptr \<times> ptr) list \<Rightarrow> bool" where
  "ll_rep ll h xs \<longleftrightarrow> distinct (map fst xs) \<and> node_chain h nullptr xs nullptr \<and>
     ll_head ll = first_of (map fst xs) nullptr \<and> ll_tail ll = last_of nullptr (map fst xs) \<and>
     ll_count ll = of_nat (length xs)"

lemma node_chain_append [simp]:
  "node_chain h pv (xs @ ys) nx \<longleftrightarrow>
   node_chain h pv xs (first_of (map fst ys) nx) \<and> node_chain h (last_of pv (map fst xs)) ys nx"
  by (induction h pv xs nx rule: node_chain.induct) auto

lemma node_chain_upd [simp]: "p \<notin> fst ` set xs \<Longrightarrow> node_chain (h(p := v)) pv xs nx \<longleftrightarrow> node_chain h pv xs nx"
  by (induction h pv xs nx rule: node_chain.induct) auto

lemma ll_rep_init: "ll_rep linkedlist_init h []"
  by (simp add: ll_rep_def linkedlist_init_def)

lemmas ll_steps = update_node_def ll_node_at_def ll_rep_def

text \<open>Linking a node that stands alone, and taking the first or last one out, on the nodes alone.\<close>

lemma link_head:
  assumes "ll_rep ll h xs" and "p \<noteq> nullptr" and "p \<notin> fst ` set xs" and "ll_nodes s = h(p \<mapsto> \<lparr>ln_data = d, ln_next = ll_head ll, ln_prev = nullptr\<rparr>)"
  shows "\<exists>h'. (if ll_head ll \<noteq> nullptr then bindE (update_node (ll_head ll) (\<lambda>n. n\<lparr>ln_prev := p\<rparr>) s) (\<lambda>s. Inr (ll, s))
      else Inr (ll\<lparr>ll_tail := p\<rparr>, s)) = Inr (if xs = [] then ll\<lparr>ll_tail := p\<rparr> else ll, s\<lparr>ll_nodes := h'\<rparr>) \<and>
    ll_rep ((if xs = [] then ll\<lparr>ll_tail := p\<rparr> else ll)\<lparr>ll_head := p, ll_count := ll_count ll + 1\<rparr>) h' ((p, d) # xs)"
proof (cases xs)
  case Nil
  with assms show ?thesis by (intro exI [of _ "ll_nodes s"]) (auto simp: ll_steps)
next
  case (Cons y ys)
  obtain q e where y: "y = (q, e)" by (cases y)
  let ?h = "h(p \<mapsto> \<lparr>ln_data = d, ln_next = q, ln_prev = nullptr\<rparr>, q \<mapsto> \<lparr>ln_data = e, ln_next = first_of (map fst ys) nullptr, ln_prev = p\<rparr>)"
  show ?thesis using assms Cons y by (intro exI [of _ ?h]) (auto simp: ll_steps)
qed

lemma link_tail:
  assumes "ll_rep ll h xs" and "p \<noteq> nullptr" and "p \<notin> fst ` set xs" and "ll_nodes s = h(p \<mapsto> \<lparr>ln_data = d, ln_next = nullptr, ln_prev = ll_tail ll\<rparr>)"
  shows "\<exists>h'. (if ll_tail ll \<noteq> nullptr then bindE (update_node (ll_tail ll) (\<lambda>n. n\<lparr>ln_next := p\<rparr>) s) (\<lambda>s. Inr (ll, s))
      else Inr (ll\<lparr>ll_head := p\<rparr>, s)) = Inr (if xs = [] then ll\<lparr>ll_head := p\<rparr> else ll, s\<lparr>ll_nodes := h'\<rparr>) \<and>
    ll_rep ((if xs = [] then ll\<lparr>ll_head := p\<rparr> else ll)\<lparr>ll_tail := p, ll_count := ll_count ll + 1\<rparr>) h' (xs @ [(p, d)])"
proof (cases xs rule: rev_cases)
  case Nil
  with assms show ?thesis by (intro exI [of _ "ll_nodes s"]) (auto simp: ll_steps)
next
  case (snoc ys y)
  obtain q e where y: "y = (q, e)" by (cases y)
  let ?h = "h(p \<mapsto> \<lparr>ln_data = d, ln_next = nullptr, ln_prev = q\<rparr>, q \<mapsto> \<lparr>ln_data = e, ln_next = p, ln_prev = last_of nullptr (map fst ys)\<rparr>)"
  show ?thesis using assms snoc y by (intro exI [of _ ?h]) (auto simp: ll_steps image_iff)
qed

text \<open>Unlinking an end leaves the node readable until it is freed.\<close>

lemma unlink_head:
  assumes "ll_rep ll (ll_nodes s) ((p, d) # xs)"
  shows "\<exists>ll' h' n. linkedlist_remove_head ll s = free_node p ll' (s\<lparr>ll_nodes := h'\<rparr>) \<and> h' p = Some n \<and> ln_data n = d \<and>
    ll_rep (ll'\<lparr>ll_count := ll_count ll' - 1\<rparr>) (h'(p := None)) xs"
proof (cases xs)
  case Nil
  with assms show ?thesis
    by (intro exI [of _ "ll\<lparr>ll_head := nullptr, ll_tail := nullptr\<rparr>"] exI [of _ "ll_nodes s"]) (auto simp: ll_steps linkedlist_remove_head_def)
next
  case (Cons y ys)
  obtain q e where y: "y = (q, e)" by (cases y)
  let ?h = "(ll_nodes s)(q \<mapsto> \<lparr>ln_data = e, ln_next = first_of (map fst ys) nullptr, ln_prev = nullptr\<rparr>)"
  show ?thesis using assms Cons y
    by (intro exI [of _ "ll\<lparr>ll_head := q\<rparr>"] exI [of _ ?h]) (auto simp: ll_steps linkedlist_remove_head_def)
qed

lemma unlink_tail:
  assumes "ll_rep ll (ll_nodes s) (xs @ [(p, d)])"
  shows "\<exists>ll' h' n. linkedlist_remove_tail ll s = free_node p ll' (s\<lparr>ll_nodes := h'\<rparr>) \<and> h' p = Some n \<and> ln_data n = d \<and>
    ll_rep (ll'\<lparr>ll_count := ll_count ll' - 1\<rparr>) (h'(p := None)) xs"
proof (cases xs rule: rev_cases)
  case Nil
  with assms show ?thesis
    by (intro exI [of _ "ll\<lparr>ll_tail := nullptr, ll_head := nullptr\<rparr>"] exI [of _ "ll_nodes s"]) (auto simp: ll_steps linkedlist_remove_tail_def)
next
  case (snoc ys y)
  obtain q e where y: "y = (q, e)" by (cases y)
  let ?h = "(ll_nodes s)(q \<mapsto> \<lparr>ln_data = e, ln_next = nullptr, ln_prev = last_of nullptr (map fst ys)\<rparr>)"
  show ?thesis using assms snoc y
    by (intro exI [of _ "ll\<lparr>ll_tail := q\<rparr>"] exI [of _ ?h]) (auto simp: ll_steps linkedlist_remove_tail_def image_iff)
qed

section \<open>Room in the heap\<close>

text \<open>A free block that is large enough for \<open>n\<close> more nodes; it survives allocating one and freeing any.\<close>

definition spare :: "nat \<Rightarrow> blocks \<Rightarrow> bool" where
  "spare n bs \<longleftrightarrow> (\<exists>b \<in> set bs. 40 * n + 16 \<le> unat (snd b))"

lemma spare_mono: "spare n bs \<Longrightarrow> m \<le> n \<Longrightarrow> spare m bs"
  unfolding spare_def by (meson add_le_mono1 le_trans mult_le_mono2)

lemma spare_take:
  assumes "spare (Suc n) bs"
  shows "\<exists>b bs'. fl_take (sizeof_node + 16) bs = Some (b, bs') \<and> spare n bs'"
proof -
  let ?P = "\<lambda>b :: ptr \<times> usize. snd b < 40"
  obtain c where c: "c \<in> set bs" "40 * Suc n + 16 \<le> unat (snd c)" using assms by (auto simp: spare_def)
  have big: "\<not> ?P c" using c(2) by (simp add: word_less_nat_alt)
  then obtain a m post where dw: "dropWhile ?P bs = (a, m) # post"
    using c(1) by (cases "dropWhile ?P bs") (auto simp: dropWhile_eq_Nil_conv)
  have cin: "c \<in> set ((a, m) # post)"
  proof -
    have "c \<in> set (takeWhile ?P bs) \<or> c \<in> set (dropWhile ?P bs)" using c(1) by (metis Un_iff set_append takeWhile_dropWhile_id)
    then show ?thesis using big set_takeWhileD [of c ?P bs] dw by auto
  qed
  have "\<not> ?P (hd (dropWhile ?P bs))" by (rule hd_dropWhile) (simp add: dw)
  then have m: "40 \<le> unat m" unfolding dw by (simp add: word_less_nat_alt)
  then have um: "unat (m - 40) = unat m - 40" by (subst unat_sub_u64) (simp_all add: word_le_nat_alt)
  show ?thesis
  proof (cases "16 \<le> m - 40")
    case True
    then have "fl_take (sizeof_node + 16) bs = Some ((a, 40), takeWhile ?P bs @ (a + 40, m - 40) # post)"
      using dw by (simp add: fl_take_def sizeof_node_def)
    moreover have "spare n (takeWhile ?P bs @ (a + 40, m - 40) # post)"
      using cin c(2) um unfolding spare_def by (cases "c = (a, m)") (force+)
    ultimately show ?thesis by blast
  next
    case False
    then have "fl_take (sizeof_node + 16) bs = Some ((a, m), takeWhile ?P bs @ post)"
      using dw by (simp add: fl_take_def sizeof_node_def)
    moreover have "c \<noteq> (a, m)" using False c(2) um by (auto simp: word_le_nat_alt)
    then have "spare n (takeWhile ?P bs @ post)" using cin c(2) unfolding spare_def by force
    ultimately show ?thesis by blast
  qed
qed

lemma join_spare:
  assumes "spare n (b # bs)" and "\<forall>c \<in> set (b # bs). block_ok c"
  shows "spare n (fl_join b bs)"
proof (cases bs)
  case Nil
  with assms(1) show ?thesis by simp
next
  case (Cons c cs)
  have "unat (snd b + snd c) = unat (snd b) + unat (snd c)" if "fst b + snd b = fst c"
  proof -
    have "unat (fst c) = unat (fst b) + unat (snd b)"
      using assms(2) Cons that [symmetric] by (simp add: block_ok_def unat_add_u64)
    then show ?thesis using assms(2) Cons by (intro unat_add_u64) (auto simp: block_ok_def)
  qed
  with assms(1) Cons show ?thesis by (auto simp: spare_def)
qed

lemma spare_insert:
  assumes "spare n bs" and "fl_wf bs" and "block_ok e" and "\<forall>b \<in> set bs. ahead b e \<or> ahead e b"
  shows "spare n (fl_insert e bs)"
proof -
  let ?pre = "takeWhile (\<lambda>b. fst b < fst e) bs" and ?post = "dropWhile (\<lambda>b. fst b < fst e) bs"
  have ok: "\<forall>b \<in> set bs. block_ok b" using assms(2) by (simp add: fl_wf_def)
  have in_split: "set bs = set ?pre \<union> set ?post" by (metis set_append takeWhile_dropWhile_id)
  have post: "spare n (fl_join e ?post)" if "spare n ?post"
    using that ok assms(3) in_split by (intro join_spare) (auto simp: spare_def)
  have jok: "block_ok c" if "c \<in> set (fl_join e ?post)" for c
  proof -
    have wf: "fl_wf ?post" using assms(2) fl_wf_append [of ?pre ?post] by simp
    note fl_join_wf(1) [OF assms(3) wf insert_split(2) [OF assms(2-4)]]
    then show ?thesis using that by (simp add: fl_wf_def)
  qed
  show ?thesis
  proof (cases "?pre = []")
    case True
    have "fl_insert e bs = fl_join e ?post" unfolding fl_insert_def Let_def True by simp
    moreover have "spare n ?post" using assms(1) in_split True by (simp add: spare_def)
    ultimately show ?thesis using post by simp
  next
    case False
    define xs l where xl: "xs = butlast ?pre" "l = last ?pre"
    then have pre: "set ?pre = insert l (set xs)" using False by (metis append_butlast_last_id empty_set list.simps(15) set_append Un_insert_right sup_bot_right)
    have eq: "fl_insert e bs = xs @ fl_join l (fl_join e ?post)"
      using False by (simp only: fl_insert_def Let_def if_False xl)
    have "spare n xs \<or> spare n (l # fl_join e ?post)"
      using assms(1) post pre in_split by (auto simp: spare_def)
    moreover have "spare n (fl_join l (fl_join e ?post))" if "spare n (l # fl_join e ?post)"
      using that jok ok pre in_split by (intro join_spare) auto
    ultimately show ?thesis unfolding eq by (auto simp: spare_def)
  qed
qed

section \<open>The double-ended queue\<close>

text \<open>
  \<open>holds n xs s\<close>: the queue in \<open>s\<close> consists of \<open>xs\<close> and can take \<open>n\<close> more elements.
\<close>

locale deque =
  fixes holds :: "nat \<Rightarrow> 'a list \<Rightarrow> 's \<Rightarrow> bool"
    and push_front :: "'a \<Rightarrow> 's \<Rightarrow> kerror + 's"
    and push_back :: "'a \<Rightarrow> 's \<Rightarrow> kerror + 's"
    and pop_front :: "'s \<Rightarrow> kerror + 'a \<times> 's"
    and pop_back :: "'s \<Rightarrow> kerror + 'a \<times> 's"
  assumes push_front_law: "holds (Suc n) xs s \<Longrightarrow> \<exists>s'. push_front x s = Inr s' \<and> holds n (x # xs) s'"
    and push_back_law: "holds (Suc n) xs s \<Longrightarrow> \<exists>s'. push_back x s = Inr s' \<and> holds n (xs @ [x]) s'"
    and pop_front_law: "holds n (x # xs) s \<Longrightarrow> \<exists>s'. pop_front s = Inr (x, s') \<and> holds n xs s'"
    and pop_back_law: "holds n (xs @ [x]) s \<Longrightarrow> \<exists>s'. pop_back s = Inr (x, s') \<and> holds n xs s'"
begin

lemma push_all_back:
  "holds (n + length ys) xs s \<Longrightarrow> \<exists>s'. forE ys push_back s = Inr s' \<and> holds n (xs @ ys) s'"
proof (induction ys arbitrary: xs s)
  case (Cons y ys)
  then obtain s1 where s1: "push_back y s = Inr s1" "holds (n + length ys) (xs @ [y]) s1" using push_back_law [of "n + length ys" xs s y] by auto
  from Cons.IH [OF s1(2)] s1(1) show ?case by auto
qed simp

lemma push_all_front:
  "holds (n + length ys) xs s \<Longrightarrow> \<exists>s'. forE ys push_front s = Inr s' \<and> holds n (rev ys @ xs) s'"
proof (induction ys arbitrary: xs s)
  case (Cons y ys)
  then obtain s1 where s1: "push_front y s = Inr s1" "holds (n + length ys) (y # xs) s1" using push_front_law [of "n + length ys" xs s y] by auto
  from Cons.IH [OF s1(2)] s1(1) show ?case by auto
qed simp

lemma drain_front:
  "holds n (xs @ ys) s \<Longrightarrow>
   \<exists>s'. forE xs (\<lambda>_ (out, s). bindE (pop_front s) (\<lambda>(x, s). Inr (out @ [x], s))) (out, s) = Inr (out @ xs, s') \<and> holds n ys s'"
proof (induction xs arbitrary: s out)
  case (Cons x xs)
  then obtain s1 where s1: "pop_front s = Inr (x, s1)" "holds n (xs @ ys) s1" using pop_front_law [of n x "xs @ ys" s] by auto
  from Cons.IH [OF s1(2), of "out @ [x]"] s1(1) show ?case by auto
qed simp

text \<open>First in, first out through the two ends; last in, first out through one.\<close>

lemma back_to_front:
  assumes "holds (n + length xs) [] s"
  shows "\<exists>s1 s2. forE xs push_back s = Inr s1 \<and>
    forE xs (\<lambda>_ (out, s). bindE (pop_front s) (\<lambda>(x, s). Inr (out @ [x], s))) ([], s1) = Inr (xs, s2) \<and> holds n [] s2"
proof -
  obtain s1 where s1: "forE xs push_back s = Inr s1" "holds n xs s1" using push_all_back [OF assms] by auto
  with drain_front [of n xs "[]" s1 "[]"] show ?thesis by auto
qed

lemma front_to_front:
  assumes "holds (n + length xs) [] s"
  shows "\<exists>s1 s2. forE xs push_front s = Inr s1 \<and>
    forE (rev xs) (\<lambda>_ (out, s). bindE (pop_front s) (\<lambda>(x, s). Inr (out @ [x], s))) ([], s1) = Inr (rev xs, s2) \<and> holds n [] s2"
proof -
  obtain s1 where s1: "forE xs push_front s = Inr s1" "holds n (rev xs) s1" using push_all_front [OF assms] by auto
  with drain_front [of n "rev xs" "[]" s1 "[]"] show ?thesis by auto
qed

end

section \<open>The list provides it\<close>

text \<open>
  The heap of a list: the blocks \<open>B\<close> belong to others, the blocks \<open>N\<close> are exactly those of the nodes, and the
  free blocks, \<open>B\<close> and \<open>N\<close> together fill \<open>H\<close>.  Since \<open>B\<close> and \<open>H\<close> are fixed, a node that is taken out of the
  list has to be free again, and a node that is put in comes out of the free blocks.
\<close>

definition list_heap :: "limine \<Rightarrow> (ptr \<times> usize) set \<Rightarrow> ptr set \<Rightarrow> blocks \<Rightarrow> (ptr \<times> usize) set \<Rightarrow> ll_sys \<Rightarrow> bool" where
  "list_heap li B H bs N s \<longleftrightarrow>
     (\<exists>T xs. kheap_inv li (sys_heap s) (set_core (ts_core s) (sys_vm s)) T xs bs (B \<union> N)) \<and>
     B \<inter> N = {} \<and> fl_bytes bs \<union> (\<Union>b \<in> B \<union> N. block b) = H"

definition list_state :: "limine \<Rightarrow> (ptr \<times> usize) set \<Rightarrow> ptr set \<Rightarrow> nat \<Rightarrow> ptr list \<Rightarrow> linked_list \<times> ll_sys \<Rightarrow> bool" where
  "list_state li B H n ds ls \<longleftrightarrow> (case ls of (ll, s) \<Rightarrow> \<exists>bs N ps. list_heap li B H bs N s \<and> spare n bs \<and>
     ll_rep ll (ll_nodes s) ps \<and> map snd ps = ds \<and> (\<lambda>b. fst b + 16) ` N = fst ` set ps)"

lemma list_stateI:
  assumes "list_heap li B H bs N s" and "spare n bs" and "ll_rep ll (ll_nodes s) ps" and "(\<lambda>b. fst b + 16) ` N = fst ` set ps"
  shows "list_state li B H n (map snd ps) (ll, s)"
  using assms unfolding list_state_def by blast

lemma list_heap_nodes [simp]: "list_heap li B H bs N (s\<lparr>ll_nodes := h\<rparr>) \<longleftrightarrow> list_heap li B H bs N s"
  by (simp add: list_heap_def)

lemma payload_fresh:
  assumes "kheap_inv li kh v T xs bs U" and "b \<in> U" and "u \<in> U" and "b \<noteq> u"
  shows "fst u + 16 \<noteq> fst b + 16"
proof -
  have ok: "block_ok b" "block_ok u" using heap_blocks(1) [OF assms(1)] assms(2,3) by simp_all
  have "fst b \<in> block b" "fst u \<in> block u" using ok by (auto simp: span_def in_region_def block_ok_def)
  moreover have "block b \<inter> block u = {}" using heap_blocks(2) [OF assms(1-3)] assms(4) by simp
  ultimately show ?thesis by auto
qed

lemma payload_inj:
  assumes "list_heap li B H bs N s"
  shows "inj_on (\<lambda>b. fst b + 16) N"
  using assms payload_fresh unfolding list_heap_def inj_on_def by blast

lemma new_node_run:
  assumes h: "list_heap li B H bs N s" and sp: "spare (Suc n) bs"
  shows "\<exists>b bs' s'. new_node li d nx pv s = Inr (fst b + 16, s') \<and> list_heap li B H bs' (insert b N) s' \<and> spare n bs' \<and>
    ll_nodes s' = (ll_nodes s)(fst b + 16 \<mapsto> \<lparr>ln_data = d, ln_next = nx, ln_prev = pv\<rparr>) \<and> fst b + 16 \<noteq> nullptr \<and>
    fst b + 16 \<notin> (\<lambda>b. fst b + 16) ` N"
proof -
  obtain T xs where i: "kheap_inv li (sys_heap s) (set_core (ts_core s) (sys_vm s)) T xs bs (B \<union> N)" "B \<inter> N = {}"
    "fl_bytes bs \<union> (\<Union>b \<in> B \<union> N. block b) = H" using h by (auto simp: list_heap_def)
  obtain b bs' where t: "fl_take (sizeof_node + 16) bs = Some (b, bs')" "spare n bs'" using spare_take [OF sp] by blast
  have sz: "sizeof_node \<noteq> 0" "unat sizeof_node + 16 < 2 ^ 64" by (simp_all add: sizeof_node_def)
  obtain kh v where k: "kalloc li sizeof_node (sys_heap s) (set_core (ts_core s) (sys_vm s)) = Inr (fst b + 16, kh, v)"
    "kheap_inv li kh v T xs bs' (insert b (B \<union> N))" "b \<notin> B \<union> N" "\<not> IS_ERR (fst b + 16)"
    using kalloc_fits [OF i(1) t(1) sz] by blast
  have "fl_bytes bs = block b \<union> fl_bytes bs'"
    using i(1) by (intro fl_take_wf(6) [OF _ t(1)]) (simp_all add: sizeof_node_def kheap_inv_def heap_inv_def heap_rep_def fl_rep_def)
  then have bytes: "fl_bytes bs' \<union> (\<Union>c \<in> B \<union> insert b N. block c) = H" using i(3) by auto
  let ?s = "s\<lparr>ts_core := vm_core v, sys_heap := kh, sys_vm := v,
    ll_nodes := (ll_nodes s)(fst b + 16 \<mapsto> \<lparr>ln_data = d, ln_next = nx, ln_prev = pv\<rparr>)\<rparr>"
  have ok: "block_ok b" using heap_blocks(1) [OF k(2)] by simp
  then have "unat (fst b + 16) = unat (fst b) + 16" by (simp add: block_ok_def unat_add_u64)
  then have nn: "fst b + 16 \<noteq> nullptr" by (metis add_eq_0_iff_both_eq_0 unat_0 zero_neq_numeral)
  have "fst u + 16 \<noteq> fst b + 16" if "u \<in> N" for u using payload_fresh [OF k(2), of b u] that k(3) by blast
  then have fresh: "fst b + 16 \<notin> (\<lambda>b. fst b + 16) ` N" by fastforce
  have "list_heap li B H bs' (insert b N) ?s"
    using k(2,3) bytes i(2) unfolding list_heap_def by (auto simp: set_core_def)
  then show ?thesis using k(1,4) t(2) nn fresh
    by (intro exI [of _ b] exI [of _ bs'] exI [of _ ?s]) (simp add: new_node_def sys_kalloc_def set_core_def)
qed

lemma free_node_run:
  assumes h: "list_heap li B H bs N s" and sp: "spare n bs" and p: "b \<in> N" "p = fst b + 16" "ll_nodes s p = Some nd"
  shows "\<exists>bs' s'. free_node p ll s = Inr (ln_data nd, ll\<lparr>ll_count := ll_count ll - 1\<rparr>, s') \<and>
    list_heap li B H bs' (N - {b}) s' \<and> spare n bs' \<and> ll_nodes s' = (ll_nodes s)(p := None)"
proof -
  obtain T xs where i: "kheap_inv li (sys_heap s) (set_core (ts_core s) (sys_vm s)) T xs bs (B \<union> N)" "B \<inter> N = {}"
    "fl_bytes bs \<union> (\<Union>b \<in> B \<union> N. block b) = H" using h by (auto simp: list_heap_def)
  have ne: "bs \<noteq> []" using sp by (auto simp: spare_def)
  have bU: "b \<in> B \<union> N" and rest: "B \<union> N - {b} = B \<union> (N - {b})" using p(1) i(2) by auto
  obtain kh v where k: "kfree p (sys_heap s) (set_core (ts_core s) (sys_vm s)) = Inr (kh, v)"
    "kheap_inv li kh v T xs (fl_insert b bs) (B \<union> (N - {b}))"
    using kfree_spec [OF i(1) ne bU] p(2) unfolding rest by blast
  have rep: "heap_rep (kh_freelist (sys_heap s)) (vm_mem (set_core (ts_core s) (sys_vm s))) bs (B \<union> N)"
    using i(1) by (simp add: kheap_inv_def heap_inv_def)
  then have wf: "fl_wf bs" by (simp add: heap_rep_def fl_rep_def)
  note apart = used_disjoint_from_free [OF rep bU] and ok = heap_blocks(1) [OF i(1) bU]
  have "fl_bytes (fl_insert b bs) \<union> (\<Union>c \<in> B \<union> (N - {b}). block c) = H"
    using fl_insert_wf(2) [OF wf ok apart] i(3) p(1) by auto
  then have "list_heap li B H (fl_insert b bs) (N - {b})
      (s\<lparr>ts_core := vm_core v, sys_heap := kh, sys_vm := v, ll_nodes := (ll_nodes s)(p := None)\<rparr>)"
    using k(2) i(2) unfolding list_heap_def by (auto simp: set_core_def)
  then show ?thesis using k(1) p(3) spare_insert [OF sp wf ok apart]
    by (intro exI [of _ "fl_insert b bs"] exI [of _ "s\<lparr>ts_core := vm_core v, sys_heap := kh, sys_vm := v, ll_nodes := (ll_nodes s)(p := None)\<rparr>"])
       (simp add: free_node_def ll_node_at_def sys_kfree_def set_core_def)
qed

lemma insert_head_law:
  assumes "list_state li B H (Suc n) ds (ll, s)"
  shows "\<exists>ll' s'. linkedlist_insert_head li ll d s = Inr (ll', s') \<and> list_state li B H n (d # ds) (ll', s')"
proof -
  obtain bs N ps where a: "list_heap li B H bs N s" "spare (Suc n) bs"
    "ll_rep ll (ll_nodes s) ps" "map snd ps = ds" "(\<lambda>b. fst b + 16) ` N = fst ` set ps"
    using assms by (auto simp: list_state_def)
  obtain b bs' s1 where n: "new_node li d (ll_head ll) nullptr s = Inr (fst b + 16, s1)"
    "list_heap li B H bs' (insert b N) s1" "spare n bs'"
    "ll_nodes s1 = (ll_nodes s)(fst b + 16 \<mapsto> \<lparr>ln_data = d, ln_next = ll_head ll, ln_prev = nullptr\<rparr>)"
    "fst b + 16 \<noteq> nullptr" "fst b + 16 \<notin> fst ` set ps" using new_node_run [OF a(1,2)] a(5) by metis
  let ?l = "if ps = [] then ll\<lparr>ll_tail := fst b + 16\<rparr> else ll"
  obtain h' where l: "(if ll_head ll \<noteq> nullptr then bindE (update_node (ll_head ll) (\<lambda>n. n\<lparr>ln_prev := fst b + 16\<rparr>) s1) (\<lambda>s. Inr (ll, s))
      else Inr (ll\<lparr>ll_tail := fst b + 16\<rparr>, s1)) = Inr (?l, s1\<lparr>ll_nodes := h'\<rparr>)"
    "ll_rep (?l\<lparr>ll_head := fst b + 16, ll_count := ll_count ll + 1\<rparr>) h' ((fst b + 16, d) # ps)"
    using link_head [OF a(3) n(5,6,4)] by blast
  let ?ll = "?l\<lparr>ll_head := fst b + 16, ll_count := ll_count ll + 1\<rparr>" and ?s = "s1\<lparr>ll_nodes := h'\<rparr>"
  have "list_state li B H n (map snd ((fst b + 16, d) # ps)) (?ll, ?s)"
    by (rule list_stateI [of li B H bs' "insert b N"]) (use n(2,3) l(2) a(5) in simp_all)
  moreover have "linkedlist_insert_head li ll d s = Inr (?ll, ?s)" using n(1) l(1) by (simp add: linkedlist_insert_head_def)
  ultimately show ?thesis using a(4) by auto
qed

lemma insert_tail_law:
  assumes "list_state li B H (Suc n) ds (ll, s)"
  shows "\<exists>ll' s'. linkedlist_insert_tail li ll d s = Inr (ll', s') \<and> list_state li B H n (ds @ [d]) (ll', s')"
proof -
  obtain bs N ps where a: "list_heap li B H bs N s" "spare (Suc n) bs"
    "ll_rep ll (ll_nodes s) ps" "map snd ps = ds" "(\<lambda>b. fst b + 16) ` N = fst ` set ps"
    using assms by (auto simp: list_state_def)
  obtain b bs' s1 where n: "new_node li d nullptr (ll_tail ll) s = Inr (fst b + 16, s1)"
    "list_heap li B H bs' (insert b N) s1" "spare n bs'"
    "ll_nodes s1 = (ll_nodes s)(fst b + 16 \<mapsto> \<lparr>ln_data = d, ln_next = nullptr, ln_prev = ll_tail ll\<rparr>)"
    "fst b + 16 \<noteq> nullptr" "fst b + 16 \<notin> fst ` set ps" using new_node_run [OF a(1,2)] a(5) by metis
  let ?l = "if ps = [] then ll\<lparr>ll_head := fst b + 16\<rparr> else ll"
  obtain h' where l: "(if ll_tail ll \<noteq> nullptr then bindE (update_node (ll_tail ll) (\<lambda>n. n\<lparr>ln_next := fst b + 16\<rparr>) s1) (\<lambda>s. Inr (ll, s))
      else Inr (ll\<lparr>ll_head := fst b + 16\<rparr>, s1)) = Inr (?l, s1\<lparr>ll_nodes := h'\<rparr>)"
    "ll_rep (?l\<lparr>ll_tail := fst b + 16, ll_count := ll_count ll + 1\<rparr>) h' (ps @ [(fst b + 16, d)])"
    using link_tail [OF a(3) n(5,6,4)] by blast
  let ?ll = "?l\<lparr>ll_tail := fst b + 16, ll_count := ll_count ll + 1\<rparr>" and ?s = "s1\<lparr>ll_nodes := h'\<rparr>"
  have "list_state li B H n (map snd (ps @ [(fst b + 16, d)])) (?ll, ?s)"
    by (rule list_stateI [of li B H bs' "insert b N"]) (use n(2,3) l(2) a(5) in simp_all)
  moreover have "linkedlist_insert_tail li ll d s = Inr (?ll, ?s)" using n(1) l(1) by (simp add: linkedlist_insert_tail_def)
  ultimately show ?thesis using a(4) by auto
qed

text \<open>After unlinking, both removals free the node in the same way.\<close>

lemma free_law:
  assumes h: "list_heap li B H bs N s" and sp: "spare n bs" and p: "p \<notin> fst ` set ps" "h' p = Some nd"
    and rep: "ll_rep (ll\<lparr>ll_count := ll_count ll - 1\<rparr>) (h'(p := None)) ps"
    and q: "(\<lambda>b. fst b + 16) ` N = insert p (fst ` set ps)"
  shows "\<exists>ll' s'. free_node p ll (s\<lparr>ll_nodes := h'\<rparr>) = Inr (ln_data nd, ll', s') \<and> list_state li B H n (map snd ps) (ll', s')"
proof -
  let ?s = "s\<lparr>ll_nodes := h'\<rparr>" and ?pay = "\<lambda>b :: ptr \<times> usize. fst b + 16"
  have "p \<in> ?pay ` N" using q by simp
  then obtain b where b: "b \<in> N" "p = fst b + 16" by blast
  have "list_heap li B H bs N ?s" "ll_nodes ?s p = Some nd" using h p(2) by simp_all
  from free_node_run [OF this(1) sp b this(2), of ll] obtain bs' s' where
    f: "free_node p ll ?s = Inr (ln_data nd, ll\<lparr>ll_count := ll_count ll - 1\<rparr>, s')"
      "list_heap li B H bs' (N - {b}) s'" "spare n bs'" "ll_nodes s' = h'(p := None)"
    by auto
  have "?pay ` (N - {b}) = ?pay ` N - ?pay ` {b}" using b(1) by (intro inj_on_image_set_diff [OF payload_inj [OF h]]) auto
  then have "?pay ` (N - {b}) = fst ` set ps" using q p(1) b(2) by auto
  then show ?thesis using list_stateI [OF f(2,3)] f(1,4) rep by auto
qed

lemma remove_head_law:
  assumes "list_state li B H n (d # ds) (ll, s)"
  shows "\<exists>ll' s'. linkedlist_remove_head ll s = Inr (d, ll', s') \<and> list_state li B H n ds (ll', s')"
proof -
  obtain bs N p ps where a: "list_heap li B H bs N s" "spare n bs"
    "ll_rep ll (ll_nodes s) ((p, d) # ps)" "map snd ps = ds" "(\<lambda>b. fst b + 16) ` N = insert p (fst ` set ps)"
    using assms by (auto simp: list_state_def map_eq_Cons_conv)
  obtain ll' h' nd where u: "linkedlist_remove_head ll s = free_node p ll' (s\<lparr>ll_nodes := h'\<rparr>)" "h' p = Some nd" "ln_data nd = d"
    "ll_rep (ll'\<lparr>ll_count := ll_count ll' - 1\<rparr>) (h'(p := None)) ps" using unlink_head [OF a(3)] by blast
  have "p \<notin> fst ` set ps" using a(3) by (simp add: ll_rep_def)
  from free_law [OF a(1,2) this u(2,4) a(5)] a(4) u(1,3) show ?thesis by auto
qed

lemma remove_tail_law:
  assumes "list_state li B H n (ds @ [d]) (ll, s)"
  shows "\<exists>ll' s'. linkedlist_remove_tail ll s = Inr (d, ll', s') \<and> list_state li B H n ds (ll', s')"
proof -
  obtain bs N p ps where a: "list_heap li B H bs N s" "spare n bs"
    "ll_rep ll (ll_nodes s) (ps @ [(p, d)])" "map snd ps = ds" "(\<lambda>b. fst b + 16) ` N = insert p (fst ` set ps)"
    using assms by (auto simp: list_state_def map_eq_append_conv)
  obtain ll' h' nd where u: "linkedlist_remove_tail ll s = free_node p ll' (s\<lparr>ll_nodes := h'\<rparr>)" "h' p = Some nd" "ln_data nd = d"
    "ll_rep (ll'\<lparr>ll_count := ll_count ll' - 1\<rparr>) (h'(p := None)) ps" using unlink_tail [OF a(3)] by blast
  have "p \<notin> fst ` set ps" using a(3) by (simp add: ll_rep_def)
  from free_law [OF a(1,2) this u(2,4) a(5)] a(4) u(1,3) show ?thesis by auto
qed

interpretation kll: deque "list_state li B H" "\<lambda>d (ll, s). linkedlist_insert_head li ll d s" "\<lambda>d (ll, s). linkedlist_insert_tail li ll d s"
  "\<lambda>(ll, s). linkedlist_remove_head ll s" "\<lambda>(ll, s). linkedlist_remove_tail ll s" for li B H
  by unfold_locales (use insert_head_law insert_tail_law remove_head_law remove_tail_law in \<open>fastforce split: prod.split\<close>)+

text \<open>What goes in at the tail comes out at the head in the same order; a list used at its head only is a stack.\<close>

lemma linkedlist_fifo:
  assumes "list_state li B H (n + length ds) [] (ll, s)"
  shows "\<exists>s1 ll2 s2. forE ds (\<lambda>d (ll, s). linkedlist_insert_tail li ll d s) (ll, s) = Inr s1 \<and>
    forE ds (\<lambda>_ (out, s). bindE ((\<lambda>(ll, s). linkedlist_remove_head ll s) s) (\<lambda>(x, s). Inr (out @ [x], s))) ([], s1) =
      Inr (ds, ll2, s2) \<and> list_state li B H n [] (ll2, s2)"
  using kll.back_to_front [OF assms] by auto

lemma linkedlist_lifo:
  assumes "list_state li B H (n + length ds) [] (ll, s)"
  shows "\<exists>s1 ll2 s2. forE ds (\<lambda>d (ll, s). linkedlist_insert_head li ll d s) (ll, s) = Inr s1 \<and>
    forE (rev ds) (\<lambda>_ (out, s). bindE ((\<lambda>(ll, s). linkedlist_remove_head ll s) s) (\<lambda>(x, s). Inr (out @ [x], s))) ([], s1) =
      Inr (rev ds, ll2, s2) \<and> list_state li B H n [] (ll2, s2)"
  using kll.front_to_front [OF assms] by auto

section \<open>Reading\<close>

lemma peek_law:
  assumes "list_state li B H n ds (ll, s)"
  shows "linkedlist_peek_head ll s = Inr (first_of ds nullptr)" and "linkedlist_peek_tail ll s = Inr (last_of nullptr ds)"
    and "linkedlist_count ll = of_nat (length ds)"
proof -
  obtain ps where r: "ll_rep ll (ll_nodes s) ps" "map snd ps = ds" using assms by (auto simp: list_state_def)
  show "linkedlist_peek_head ll s = Inr (first_of ds nullptr)"
    using r by (cases ps) (auto simp: linkedlist_peek_head_def ll_steps)
  show "linkedlist_peek_tail ll s = Inr (last_of nullptr ds)"
    using r by (cases ps rule: rev_cases) (auto simp: linkedlist_peek_tail_def ll_steps)
  show "linkedlist_count ll = of_nat (length ds)" using r by (auto simp: linkedlist_count_def ll_rep_def)
qed

lemma remove_empty:
  assumes "list_state li B H n [] (ll, s)"
  shows "linkedlist_remove_head ll s = Inr (nullptr, ll, s)"
    and "ll_nodes s nullptr = None \<Longrightarrow> linkedlist_remove_tail ll s = Inl (Fault nullptr)"
  using assms by (auto simp: list_state_def ll_rep_def linkedlist_remove_head_def linkedlist_remove_tail_def ll_node_at_def)

section \<open>Claims\<close>

text \<open>
  C40.  The linked list is a double-ended queue.  While the heap has a block for one more node, inserting at
  either end returns and adds exactly the new element there; removing from a non-empty list returns the
  element of that end and leaves the others in order; the count and the two peeks agree with the sequence.
  Removing the head of the empty list returns null, while removing its tail dereferences the null pointer.
  After every operation the heap's invariants hold and the allocated blocks are those of the rest of the
  kernel, unchanged, and exactly one per node: an insertion takes its block out of the free ones, a removal
  gives the block of its node back to them, and not a byte of the heap is lost.
\<close>

theorem linkedlist_refines_deque:
  assumes "list_state li B H (Suc n) ds (ll, s)"
  shows "(\<exists>ll' s'. linkedlist_insert_head li ll d s = Inr (ll', s') \<and> list_state li B H n (d # ds) (ll', s')) \<and>
    (\<exists>ll' s'. linkedlist_insert_tail li ll d s = Inr (ll', s') \<and> list_state li B H n (ds @ [d]) (ll', s')) \<and>
    (if ds = [] then linkedlist_remove_head ll s = Inr (nullptr, ll, s) \<and>
       (ll_nodes s nullptr = None \<longrightarrow> linkedlist_remove_tail ll s = Inl (Fault nullptr))
     else (\<exists>ll' s'. linkedlist_remove_head ll s = Inr (hd ds, ll', s') \<and> list_state li B H (Suc n) (tl ds) (ll', s')) \<and>
       (\<exists>ll' s'. linkedlist_remove_tail ll s = Inr (last ds, ll', s') \<and> list_state li B H (Suc n) (butlast ds) (ll', s'))) \<and>
    linkedlist_peek_head ll s = Inr (first_of ds nullptr) \<and> linkedlist_peek_tail ll s = Inr (last_of nullptr ds) \<and>
    linkedlist_count ll = of_nat (length ds)"
proof -
  have "\<exists>ll' s'. linkedlist_insert_head li ll d s = Inr (ll', s') \<and> list_state li B H n (d # ds) (ll', s')"
    using kll.push_front_law [OF assms] by auto
  moreover have "\<exists>ll' s'. linkedlist_insert_tail li ll d s = Inr (ll', s') \<and> list_state li B H n (ds @ [d]) (ll', s')"
    using kll.push_back_law [OF assms] by auto
  moreover have "\<exists>ll' s'. linkedlist_remove_head ll s = Inr (hd ds, ll', s') \<and> list_state li B H (Suc n) (tl ds) (ll', s')" if "ds \<noteq> []"
    using remove_head_law [of li B H "Suc n" "hd ds" "tl ds"] assms that by auto
  moreover have "\<exists>ll' s'. linkedlist_remove_tail ll s = Inr (last ds, ll', s') \<and> list_state li B H (Suc n) (butlast ds) (ll', s')" if "ds \<noteq> []"
    using remove_tail_law [of li B H "Suc n" "butlast ds" "last ds"] assms that by auto
  moreover have "linkedlist_remove_head ll s = Inr (nullptr, ll, s) \<and>
      (ll_nodes s nullptr = None \<longrightarrow> linkedlist_remove_tail ll s = Inl (Fault nullptr))" if "ds = []"
    using remove_empty assms that by auto
  ultimately show ?thesis using peek_law [OF assms] by simp
qed

lemma empty_list_exists: "\<exists>li H s. list_state li {} H 100 [] (linkedlist_init, s) \<and> ll_nodes s = Map.empty"
proof -
  obtain li kh v T xs pool where "sys_inv li (boot_sys kh v) (\<lambda>_. []) (\<lambda>_. []) T xs [(pool, 5001216)] {} []"
    using boot_exists by blast
  then have k: "kheap_inv li (sys_heap (boot_sys kh v)) (set_core (ts_core (boot_sys kh v)) (sys_vm (boot_sys kh v))) T xs [(pool, 5001216)] {}"
    by (simp add: sys_inv_def)
  let ?s = "ksys.extend (boot_sys kh v) (ll_sys.fields Map.empty)" and ?bs = "[(pool, 5001216)] :: blocks"
  have "list_heap li {} (fl_bytes ?bs) ?bs {} ?s" using k by (auto simp: list_heap_def ksys.defs ll_sys.defs)
  then have "list_state li {} (fl_bytes ?bs) 100 (map snd ([] :: (ptr \<times> ptr) list)) (linkedlist_init, ?s)"
    by (rule list_stateI) (simp_all add: ll_rep_init spare_def)
  moreover have "ll_nodes ?s = Map.empty" by (simp add: ksys.defs ll_sys.defs)
  ultimately show ?thesis by auto
qed

theorem linkedlist_refines_deque_witness:
  "\<exists>li s ll1 s1 ll2 s2 ll3 s3. linkedlist_insert_tail li linkedlist_init 7 s = Inr (ll1, s1) \<and>
    linkedlist_insert_head li ll1 9 s1 = Inr (ll2, s2) \<and> linkedlist_remove_tail ll2 s2 = Inr (7, ll3, s3) \<and>
    linkedlist_count ll2 = 2 \<and> linkedlist_peek_tail ll3 s3 = Inr 9 \<and>
    linkedlist_remove_tail linkedlist_init s = Inl (Fault nullptr)"
proof -
  obtain li H s where s: "list_state li {} H (Suc 99) [] (linkedlist_init, s)" "ll_nodes s = Map.empty"
    using empty_list_exists by auto
  obtain ll1 s1 where 1: "linkedlist_insert_tail li linkedlist_init 7 s = Inr (ll1, s1)" "list_state li {} H (Suc 98) [7] (ll1, s1)"
    using linkedlist_refines_deque [OF s(1), of 7] by auto
  obtain ll2 s2 where 2: "linkedlist_insert_head li ll1 9 s1 = Inr (ll2, s2)" "list_state li {} H (Suc 97) [9, 7] (ll2, s2)"
    using linkedlist_refines_deque [OF 1(2), of 9] by auto
  obtain ll3 s3 where 3: "linkedlist_remove_tail ll2 s2 = Inr (7, ll3, s3)" "list_state li {} H (Suc 97) [9] (ll3, s3)"
    using linkedlist_refines_deque [OF 2(2), of 0] by auto
  have "linkedlist_count ll2 = 2" using linkedlist_refines_deque [OF 2(2)] by simp
  moreover have "linkedlist_peek_tail ll3 s3 = Inr 9" using linkedlist_refines_deque [OF 3(2)] by simp
  moreover have "linkedlist_remove_tail linkedlist_init s = Inl (Fault nullptr)" using linkedlist_refines_deque [OF s(1)] s(2) by simp
  ultimately show ?thesis using 1(1) 2(1) 3(1) by blast
qed

end
