(* ===== verification/Text_Devices.thy ===== *)
theory Text_Devices
  imports Pl011
begin

text \<open>
  The two other devices of the console: the framebuffer, \<open>drivers/framebuffer/framebuffer.c\<close>, which drives the
  vendored terminal flanterm, and semihosting, \<open>kernel/debug/semihosting.c\<close>, which hands characters to an
  attached debugger.  The locale \<open>console_device\<close> is what the console relies on in a device; the framebuffer,
  semihosting and the PL011 provide it.
\<close>

section \<open>What the console expects of a device\<close>

text \<open>
  \<open>call\<close> runs an operation of the device, \<open>shown\<close> is what has been handed on, \<open>look\<close> is what an event should
  become there.  Between calls the device is in a state \<open>idle\<close>; after a flush nothing waits in it (\<open>settled\<close>).
\<close>

lemma flush_calls_last:
  assumes "d \<in> snd ` set bs"
  shows "\<exists>ys. map snd (filter (\<lambda>(d', _). d' = d) (out @ calls bs Dev_flush)) = ys @ [Dev_flush]"
proof -
  let ?cs = "map snd (filter (\<lambda>(d', _). d' = d) (calls bs Dev_flush))"
  have "?cs \<noteq> []" using assms by (force simp: calls_def filter_empty_conv)
  moreover have "\<forall>c \<in> set ?cs. c = Dev_flush" by (auto simp: calls_def)
  ultimately have "?cs = butlast ?cs @ [Dev_flush]" by (metis append_butlast_last_id last_in_set)
  then show ?thesis by (metis append.assoc filter_append map_append)
qed

locale console_device =
  fixes call :: "device_call \<Rightarrow> 's \<Rightarrow> kerror + 's"
    and shown :: "'s \<Rightarrow> 'o list"
    and look :: "event \<Rightarrow> 'o list"
    and idle :: "'s \<Rightarrow> bool"
    and settled :: "'s \<Rightarrow> bool"
  assumes write_law: "idle t \<Longrightarrow> \<exists>t'. call (Dev_write ev) t = Inr t' \<and> shown t' = shown t @ look ev \<and> idle t'"
    and flush_law: "idle t \<Longrightarrow> \<exists>t'. call Dev_flush t = Inr t' \<and> shown t' = shown t \<and> idle t' \<and> settled t'"
begin

text \<open>The calls made to the device \<open>d\<close> show what it has been given, in order.\<close>

lemma calls_shown:
  "idle t \<Longrightarrow> \<exists>t'. forE (map snd (filter (\<lambda>(d', _). d' = d) out)) call t = Inr t' \<and>
     shown t' = shown t @ concat (map look (given d out)) \<and> idle t'"
proof (induction d out arbitrary: t rule: given.induct)
  case (2 d d' ev out)
  show ?case
  proof (cases "d' = d")
    case True
    obtain t1 where t1: "call (Dev_write ev) t = Inr t1" "shown t1 = shown t @ look ev" "idle t1" using write_law [OF 2(3), of ev] by blast
    from 2(1) [OF True t1(3)] t1(1,2) True show ?thesis by auto
  qed (use 2 in simp)
next
  case (3 d d' out)
  show ?case
  proof (cases "d' = d")
    case True
    obtain t1 where t1: "call Dev_flush t = Inr t1" "shown t1 = shown t" "idle t1" using flush_law [OF 3(2)] by blast
    from 3(1) [OF t1(3)] t1(1,2) True show ?thesis by auto
  qed (use 3 in simp)
qed simp

lemma calls_run: "idle t \<Longrightarrow> \<exists>t'. forE cs call t = Inr t' \<and> idle t'"
proof (induction cs arbitrary: t)
  case (Cons c cs)
  obtain t1 where "call c t = Inr t1" "idle t1" using write_law [OF Cons.prems] flush_law [OF Cons.prems] by (cases c) blast+
  with Cons.IH show ?case by simp
qed simp

lemma last_flush_settles:
  assumes "idle t" and "forE (cs @ [Dev_flush]) call t = Inr t'"
  shows "settled t'"
proof -
  obtain t1 where "forE cs call t = Inr t1" "idle t1" using calls_run [OF assms(1)] by blast
  then show ?thesis using flush_law [of t1] assms(2) by (auto simp: forE_append)
qed

text \<open>Printing and flushing hands on everything the console had for the device, and then the text.\<close>

lemma printf_shown:
  assumes "con_ok s bs" and "ready s" and "d \<in> snd ` set bs"
    and "env_ok env (cs_mem s) buf (unat PRINT_BUFFER_SIZE) str" and "cstr (cs_mem s) fmt cs" and "apart buf (unat PRINT_BUFFER_SIZE) fmt cs"
    and "expand str False cs ap = Some x" and "length x \<le> 500" and "local_vars (cs_console s) buf (unat PRINT_BUFFER_SIZE) e"
    and "idle t"
  shows "\<exists>s' s'' t'. vprintf env buf e fmt ap s = Inr s' \<and> console_flush s' = Inr (errnum EOK, s'') \<and>
    forE (map snd (filter (\<lambda>(d', _). d' = d) (cs_out s''))) call t = Inr t' \<and> idle t' \<and> settled t' \<and>
    shown t' = shown t @ concat (map look (stream d s)) @
      look (color_bytes IO_DEFAULT_COLOR_FG @ color_bytes IO_DEFAULT_COLOR_BG, x)"
proof -
  obtain s' where s': "vprintf env buf e fmt ap s = Inr s'" "con_ok s' bs"
    "stream d s' = stream d s @ [(color_bytes IO_DEFAULT_COLOR_FG @ color_bytes IO_DEFAULT_COLOR_BG, x)]"
    using vprintf_reaches_devices [OF assms(1-9)] by blast
  obtain s'' out where s'': "console_flush s' = Inr (errnum EOK, s'')" "given d (cs_out s'') = stream d s'" "cs_out s'' = out @ calls bs Dev_flush"
    using console_flush_spec [OF s'(2)] assms(3) by blast
  obtain t' where t': "forE (map snd (filter (\<lambda>(d', _). d' = d) (cs_out s''))) call t = Inr t'" "idle t'"
    "shown t' = shown t @ concat (map look (given d (cs_out s'')))" using calls_shown [OF assms(10), of d "cs_out s''"] by blast
  obtain ys where "map snd (filter (\<lambda>(d', _). d' = d) (cs_out s'')) = ys @ [Dev_flush]"
    using flush_calls_last [OF assms(3)] unfolding s''(3) by blast
  then have "settled t'" using last_flush_settles [OF assms(10)] t'(1) by metis
  then show ?thesis using s' s'' t' by auto
qed

end

text \<open>The serial line, as long as its transmitter settles: after a flush it has been seen idle.\<close>

definition line_idle :: "register \<Rightarrow> bus \<Rightarrow> bool" where
  "line_idle reg b \<longleftrightarrow> (\<exists>b0 v. b = b0 @ [Rd 4 (reg_address reg + UARTFR) v] \<and> v AND UARTFR_BUSY = 0)"

lemma pl011_console_device:
  assumes "uart_block reg" and "settles hw reg UARTFR_BUSY"
  shows "console_device (uart_call hw reg) (sent (reg_address reg)) (\<lambda>ev. map ucast (snd ev)) (\<lambda>_. True) (line_idle reg)"
proof
  show "\<exists>b'. uart_call hw reg (Dev_write ev) b = Inr b' \<and> sent (reg_address reg) b' = sent (reg_address reg) b @ map ucast (snd ev) \<and> True" for b ev
    using pl011_write_run [OF assms, of "snd ev" b] by auto
  show "\<exists>b'. uart_call hw reg Dev_flush b = Inr b' \<and> sent (reg_address reg) b' = sent (reg_address reg) b \<and> True \<and> line_idle reg b'" for b
  proof -
    obtain rs v where rs: "wait_tx_complete hw reg b = Inr (b @ rs @ [Rd 4 (reg_address reg + UARTFR) v])" "v AND UARTFR_BUSY = 0"
      using wait_tx_run [OF assms] by blast
    obtain b' where "pl011_flush hw reg b = Inr (b @ b')" "sent (reg_address reg) b' = []" using flush_run [OF assms, of b] by blast
    with rs show ?thesis by (auto simp: line_idle_def pl011_flush_def)
  qed
qed

section \<open>Registration\<close>

lemma register_backend_run:
  assumes ok: "con_ok s bs" and b: "cs_nodes s p = Some b" "p \<noteq> nullptr" "p \<notin> fst ` set bs" "cb_device b \<notin> snd ` set bs"
  shows "\<exists>c. console_register_backend p s =
      Inr ((), s\<lparr>cs_nodes := (cs_nodes s)(p \<mapsto> b\<lparr>cb_next := con_backends (cs_console s)\<rparr>),
        cs_console := (cs_console s)\<lparr>con_backends := p\<rparr>, cs_core := c\<rparr>) \<and> irq_view c = irq_view (cs_core s) \<and>
    con_ok (s\<lparr>cs_nodes := (cs_nodes s)(p \<mapsto> b\<lparr>cb_next := con_backends (cs_console s)\<rparr>),
        cs_console := (cs_console s)\<lparr>con_backends := p\<rparr>, cs_core := c\<rparr>) ((p, cb_device b) # bs)"
proof -
  let ?b = "\<lambda>s. bindE (set_backend_next p (con_backends (cs_console s)) s) (\<lambda>s. Inr ((), upd_con (\<lambda>con. con\<lparr>con_backends := p\<rparr>) s))"
  let ?h = "(cs_nodes s)(p \<mapsto> b\<lparr>cb_next := con_backends (cs_console s)\<rparr>)"
  have o: "con_inv (cs_console s) (cs_mem s)" "backends_rep (cs_nodes s) (con_backends (cs_console s)) bs"
    "distinct (map snd bs)" "lock_free (con_write_lock (cs_console s))" "core_ok (Suc 0) (cs_core s)"
    using ok by (auto simp: con_ok_def)
  have "?b (s\<lparr>cs_core := irq_push_intr (cs_core s)\<rparr>) = Inr ((), s\<lparr>cs_core := irq_push_intr (cs_core s), cs_nodes := ?h,
      cs_console := (cs_console s)\<lparr>con_backends := p\<rparr>\<rparr>)"
    using b(1) by (simp add: set_backend_next_def backend_at_def)
  from with_write_lock_returns [OF o(5,4), where body = ?b, OF this] obtain c where
    c: "with_write_lock ?b s = Inr ((), s\<lparr>cs_nodes := ?h, cs_console := (cs_console s)\<lparr>con_backends := p\<rparr>, cs_core := c\<rparr>)"
      "irq_view c = irq_view (cs_core s)" by auto
  have "con_inv ((cs_console s)\<lparr>con_backends := p\<rparr>) (cs_mem s)" using o(1) by (simp add: con_inv_def pending_count_def ev_slot_def)
  moreover have "backends_rep ?h (con_backends (cs_console s)) bs"
    by (rule backends_rep_cong [OF o(2)]) (use b(3) in auto)
  moreover have "core_ok (Suc 0) c" using core_ok_view [OF c(2)] o(5) by blast
  ultimately show ?thesis
    using c b o by (intro exI [of _ c]) (auto simp: console_register_backend_def con_ok_def)
qed

lemma pending_backends [simp]: "pending (con\<lparr>con_backends := p\<rparr>) m = pending con m"
  by (simp add: pending_def pending_count_def ev_slot_def)

section \<open>Semihosting\<close>

datatype sh_operation =
  SYS_OPEN | SYS_CLOSE | SYS_WRITEC | SYS_WRITE0 | SYS_WRITE | SYS_READ | SYS_READC | SYS_ISERROR | SYS_ISTTY | SYS_SEEK
| SYS_FLEN | SYS_TMPNAM | SYS_REMOVE | SYS_RENAME | SYS_CLOCK | SYS_TIME | SYS_SYSTEM | SYS_ERRNO | SYS_GET_CMDLINE
| SYS_HEAPINFO | SYS_EXIT | SYS_EXIT_EXTENDED | SYS_ELAPSED | SYS_TICKFREQ

fun sh_number :: "sh_operation \<Rightarrow> usize" where
  "sh_number SYS_CLOCK = 0x10" | "sh_number SYS_CLOSE = 0x02" | "sh_number SYS_ELAPSED = 0x30" | "sh_number SYS_ERRNO = 0x13"
| "sh_number SYS_EXIT = 0x18" | "sh_number SYS_EXIT_EXTENDED = 0x20" | "sh_number SYS_FLEN = 0x0c"
| "sh_number SYS_GET_CMDLINE = 0x15" | "sh_number SYS_HEAPINFO = 0x16" | "sh_number SYS_ISERROR = 0x08"
| "sh_number SYS_ISTTY = 0x09" | "sh_number SYS_OPEN = 0x01" | "sh_number SYS_READ = 0x06" | "sh_number SYS_READC = 0x07"
| "sh_number SYS_REMOVE = 0x0e" | "sh_number SYS_RENAME = 0x0f" | "sh_number SYS_SEEK = 0x0a" | "sh_number SYS_SYSTEM = 0x12"
| "sh_number SYS_TICKFREQ = 0x31" | "sh_number SYS_TIME = 0x11" | "sh_number SYS_TMPNAM = 0x0d" | "sh_number SYS_WRITE = 0x05"
| "sh_number SYS_WRITEC = 0x03" | "sh_number SYS_WRITE0 = 0x04"

text \<open>
  A trap (\<open>hlt #0xf000\<close>) hands the two registers to the debugger, which sees the memory at that moment.  What
  the debugger leaves in the first register is the argument \<open>answer\<close>.
\<close>

record sh_trap =
  tr_x0 :: usize
  tr_x1 :: ptr
  tr_mem :: mem

record sh_state =
  sh_mem :: mem
  sh_traps :: "sh_trap list"

type_synonym debugger = "sh_trap list \<Rightarrow> usize"

definition sh_call :: "debugger \<Rightarrow> sh_operation \<Rightarrow> ptr \<Rightarrow> sh_state \<Rightarrow> usize \<times> sh_state" where
  "sh_call answer op params t =
     (let traps = sh_traps t @ [\<lparr>tr_x0 = sh_number op, tr_x1 = params, tr_mem = sh_mem t\<rparr>]
      in (answer traps, t\<lparr>sh_traps := traps\<rparr>))"

text \<open>The parameters are spilled to the stack, at \<open>a\<close>, since their address is taken.\<close>

definition sh_exit :: "debugger \<Rightarrow> ptr \<Rightarrow> u64 \<Rightarrow> sh_state \<Rightarrow> sh_state" where
  "sh_exit answer a code t = snd (sh_call answer SYS_EXIT a (t\<lparr>sh_mem := store64 (sh_mem t) a code\<rparr>))"

definition sh_write0 :: "debugger \<Rightarrow> ptr \<Rightarrow> sh_state \<Rightarrow> sh_state" where
  "sh_write0 answer str t = snd (sh_call answer SYS_WRITE0 str t)"

definition sh_writec :: "debugger \<Rightarrow> ptr \<Rightarrow> u8 \<Rightarrow> sh_state \<Rightarrow> sh_state" where
  "sh_writec answer a ch t = snd (sh_call answer SYS_WRITEC a (t\<lparr>sh_mem := (sh_mem t)(a := ch)\<rparr>))"

text \<open>The event is given by its bytes, as for the other devices; \<open>sh_flush\<close> does nothing.\<close>

definition sh_write_event :: "debugger \<Rightarrow> ptr \<Rightarrow> event \<Rightarrow> sh_state \<Rightarrow> kerror + sh_state" where
  "sh_write_event answer a ev = forE (snd ev) (\<lambda>ch t. Inr (sh_writec answer a ch t))"

definition sh_flush :: "sh_state \<Rightarrow> kerror + sh_state" where
  "sh_flush t = Inr t"

fun sh_console_ops :: "debugger \<Rightarrow> ptr \<Rightarrow> device_call \<Rightarrow> sh_state \<Rightarrow> kerror + sh_state" where
  "sh_console_ops answer a (Dev_write ev) t = sh_write_event answer a ev t"
| "sh_console_ops answer a Dev_flush t = sh_flush t"

definition semihosting_init :: "ptr \<Rightarrow> console_sys \<Rightarrow> kerror + unit \<times> console_sys" where
  "semihosting_init sh_console_backend = console_register_backend sh_console_backend"

text \<open>What the debugger prints for \<open>SYS_WRITEC\<close>: the byte at the parameter.\<close>

definition trap_prints :: "sh_trap \<Rightarrow> u8 list" where
  "trap_prints tr = (if tr_x0 tr = sh_number SYS_WRITEC then [tr_mem tr (tr_x1 tr)] else [])"

definition sh_printed :: "sh_state \<Rightarrow> u8 list" where
  "sh_printed t = concat (map trap_prints (sh_traps t))"

lemma sh_writec_printed: "sh_printed (sh_writec answer a ch t) = sh_printed t @ [ch]"
  by (simp add: sh_writec_def sh_call_def sh_printed_def trap_prints_def Let_def)

lemma sh_write_printed: "\<exists>t'. sh_write_event answer a ev t = Inr t' \<and> sh_printed t' = sh_printed t @ snd ev"
proof -
  have "\<exists>t'. forE cs (\<lambda>ch t. Inr (sh_writec answer a ch t)) t = Inr t' \<and> sh_printed t' = sh_printed t @ cs" for cs
  proof (induction cs arbitrary: t)
    case (Cons c cs)
    from Cons.IH [of "sh_writec answer a c t"] show ?case by (auto simp: sh_writec_printed)
  qed simp
  then show ?thesis by (simp add: sh_write_event_def)
qed

text \<open>Every character is a trap of its own, so nothing ever waits.\<close>

interpretation semihosting: console_device "sh_console_ops answer a" sh_printed snd "\<lambda>_. True" "\<lambda>_. True" for answer a
  by unfold_locales (use sh_write_printed in \<open>auto simp: sh_flush_def\<close>)

section \<open>Framebuffer\<close>

text \<open>
  The terminal is code of another project (\<open>thirdparty/Flanterm\<close>): its context is what \<open>flanterm_fb_init\<close>, an
  argument, returns, and the calls made to it are recorded, in order and with the context they got.  What the
  terminal draws for them is not modelled.  The response of the boot loader is an argument.
\<close>

datatype term_call =
  Set_text_bg usize bool | Set_text_fg usize bool | Term_write "u8 list" | Reset_text_bg | Reset_text_fg
| Term_flush | Set_autoflush bool | Term_deinit

record limine_framebuffer =
  lf_address :: ptr
  lf_width :: usize
  lf_height :: usize
  lf_pitch :: usize
  lf_red_mask :: "u8 \<times> u8"   \<comment> \<open>size and shift\<close>
  lf_green_mask :: "u8 \<times> u8"
  lf_blue_mask :: "u8 \<times> u8"

record fb_state =
  fb_driver_data :: ptr
  fb_calls :: "(ptr \<times> term_call) list"

definition term_do :: "ptr \<Rightarrow> term_call list \<Rightarrow> fb_state \<Rightarrow> fb_state" where
  "term_do ctx cs t = t\<lparr>fb_calls := fb_calls t @ map (Pair ctx) cs\<rparr>"

definition flanterm_init :: "(limine_framebuffer \<Rightarrow> ptr) \<Rightarrow> limine_framebuffer list option \<Rightarrow> fb_state \<Rightarrow> ptr \<times> fb_state" where
  "flanterm_init flanterm_fb_init fb_response t =
     (case fb_response of
        None \<Rightarrow> (ERR_TO_PTR (- errnum ENOENT), t)
      | Some framebuffers \<Rightarrow>
        if length framebuffers < 1 then (ERR_TO_PTR (- errnum ENOENT), t)
        else
          let ft_ctx = flanterm_fb_init (framebuffers ! 0) in
          if ft_ctx = nullptr then (ERR_TO_PTR (- errnum ENOENT), t)
          else (ft_ctx, term_do ft_ctx [Reset_text_bg, Reset_text_fg, Set_autoflush False] t))"

definition framebuffer_init ::
  "(limine_framebuffer \<Rightarrow> ptr) \<Rightarrow> limine_framebuffer list option \<Rightarrow> ptr \<Rightarrow> console_sys \<Rightarrow> fb_state \<Rightarrow> kerror + 64 word \<times> console_sys \<times> fb_state" where
  "framebuffer_init flanterm_fb_init fb_response framebuffer_backend s t =
     (let (ctx, t) = flanterm_init flanterm_fb_init fb_response t; t = t\<lparr>fb_driver_data := ctx\<rparr> in
      if IS_ERR (fb_driver_data t) then Inr (- errnum EINVAL, s, t)
      else bindE (console_register_backend framebuffer_backend s) (\<lambda>(_, s). Inr (errnum EOK, s, t)))"

definition framebuffer_deinit :: "ptr \<Rightarrow> console_sys \<Rightarrow> fb_state \<Rightarrow> kerror + 64 word \<times> console_sys \<times> fb_state" where
  "framebuffer_deinit framebuffer_device s t =
     (if nullptr = fb_driver_data t then Inl (Panic ''failed to deinit framebuffer, not initialised'')
      else bindE (console_unregister framebuffer_device s) (\<lambda>(_, s).
        Inr (errnum EOK, s, term_do (fb_driver_data t) [Term_deinit] t)))"

text \<open>The colours of an event are its first four bytes: colour and brightness of the text, then of the ground.\<close>

definition framebuffer_write_event :: "event \<Rightarrow> fb_state \<Rightarrow> kerror + fb_state" where
  "framebuffer_write_event ev t =
     (let c = fst ev; ctx = fb_driver_data t in
      Inr (term_do ctx [Set_text_bg (ucast (c ! 2)) (c ! 3 \<noteq> 0), Set_text_fg (ucast (c ! 0)) (c ! 1 \<noteq> 0), Term_write (snd ev),
        Reset_text_bg, Reset_text_fg] t))"

definition framebuffer_flush :: "fb_state \<Rightarrow> kerror + fb_state" where
  "framebuffer_flush t = Inr (term_do (fb_driver_data t) [Term_flush] t)"

fun framebuffer_ops :: "device_call \<Rightarrow> fb_state \<Rightarrow> kerror + fb_state" where
  "framebuffer_ops (Dev_write ev) t = framebuffer_write_event ev t"
| "framebuffer_ops Dev_flush t = framebuffer_flush t"

text \<open>
  The calls for an event: the colours, the bytes, and the default colours again.  The state of a driver that holds
  the context \<open>ctx\<close>: the calls that are not flushes, and whether the last call was a flush.
\<close>

definition event_calls :: "event \<Rightarrow> term_call list" where
  "event_calls ev = (let c = fst ev in
     [Set_text_bg (ucast (c ! 2)) (c ! 3 \<noteq> 0), Set_text_fg (ucast (c ! 0)) (c ! 1 \<noteq> 0), Term_write (snd ev), Reset_text_bg, Reset_text_fg])"

definition drawn :: "fb_state \<Rightarrow> (ptr \<times> term_call) list" where
  "drawn t = filter (\<lambda>(_, c). c \<noteq> Term_flush) (fb_calls t)"

definition term_flushed :: "ptr \<Rightarrow> fb_state \<Rightarrow> bool" where
  "term_flushed ctx t \<longleftrightarrow> fb_calls t \<noteq> [] \<and> last (fb_calls t) = (ctx, Term_flush)"

interpretation framebuffer: console_device framebuffer_ops drawn "\<lambda>ev. map (Pair ctx) (event_calls ev)"
  "\<lambda>t. fb_driver_data t = ctx" "term_flushed ctx" for ctx
  by unfold_locales (auto simp: framebuffer_write_event_def framebuffer_flush_def Let_def term_do_def drawn_def event_calls_def term_flushed_def)

lemma framebuffer_init_run:
  assumes ok: "con_ok s bs" and b: "cs_nodes s p = Some b" "p \<noteq> nullptr" "p \<notin> fst ` set bs" "cb_device b \<notin> snd ` set bs"
    and fb: "fb_init fb = ctx" "ctx \<noteq> nullptr" "\<not> IS_ERR ctx"
  shows "\<exists>s' t'. framebuffer_init fb_init (Some (fb # fbs)) p s t = Inr (errnum EOK, s', t') \<and> con_ok s' ((p, cb_device b) # bs) \<and>
    cs_mem s' = cs_mem s \<and> cs_out s' = cs_out s \<and> cs_console s' = (cs_console s)\<lparr>con_backends := p\<rparr> \<and>
    fb_driver_data t' = ctx \<and> fb_calls t' = fb_calls t @ map (Pair ctx) [Reset_text_bg, Reset_text_fg, Set_autoflush False]"
proof -
  obtain c where c: "console_register_backend p s =
      Inr ((), s\<lparr>cs_nodes := (cs_nodes s)(p \<mapsto> b\<lparr>cb_next := con_backends (cs_console s)\<rparr>),
        cs_console := (cs_console s)\<lparr>con_backends := p\<rparr>, cs_core := c\<rparr>)"
    "con_ok (s\<lparr>cs_nodes := (cs_nodes s)(p \<mapsto> b\<lparr>cb_next := con_backends (cs_console s)\<rparr>),
        cs_console := (cs_console s)\<lparr>con_backends := p\<rparr>, cs_core := c\<rparr>) ((p, cb_device b) # bs)"
    using register_backend_run [OF ok b] by blast
  then show ?thesis using fb by (auto simp: framebuffer_init_def flanterm_init_def Let_def term_do_def)
qed

lemma framebuffer_init_fails:
  assumes "fb_response = None \<or> fb_response = Some [] \<or> (\<exists>fb fbs. fb_response = Some (fb # fbs) \<and> fb_init fb = nullptr)"
  shows "framebuffer_init fb_init fb_response p s t = Inr (- errnum EINVAL, s, t\<lparr>fb_driver_data := ERR_TO_PTR (- errnum ENOENT)\<rparr>)"
  using assms by (auto simp: framebuffer_init_def flanterm_init_def IS_ERR_def ERR_TO_PTR_def Let_def)

text \<open>After a failed start the driver data is an error pointer, which \<open>framebuffer_deinit\<close> takes for a terminal.\<close>

lemma deinit_after_failure:
  assumes "console_unregister device s = Inr (r, s')"
  shows "framebuffer_deinit device s (t\<lparr>fb_driver_data := ERR_TO_PTR (- errnum ENOENT)\<rparr>) =
    Inr (errnum EOK, s', term_do (ERR_TO_PTR (- errnum ENOENT)) [Term_deinit] (t\<lparr>fb_driver_data := ERR_TO_PTR (- errnum ENOENT)\<rparr>))"
  using assms by (simp add: framebuffer_deinit_def ERR_TO_PTR_def)

text \<open>With semihosting the debugger prints what is printed.\<close>

lemma printf_reaches_debugger:
  assumes "con_ok s bs" and "ready s" and "d \<in> snd ` set bs"
    and "env_ok env (cs_mem s) buf (unat PRINT_BUFFER_SIZE) str" and "cstr (cs_mem s) fmt cs" and "apart buf (unat PRINT_BUFFER_SIZE) fmt cs"
    and "expand str False cs ap = Some x" and "length x \<le> 500" and "local_vars (cs_console s) buf (unat PRINT_BUFFER_SIZE) e"
  shows "\<exists>s' s'' t'. vprintf env buf e fmt ap s = Inr s' \<and> console_flush s' = Inr (errnum EOK, s'') \<and>
    forE (map snd (filter (\<lambda>(d', _). d' = d) (cs_out s''))) (sh_console_ops answer a) t = Inr t' \<and>
    sh_printed t' = sh_printed t @ concat (map snd (stream d s)) @ x"
  using semihosting.printf_shown [OF assms TrueI, where answer = answer and a = a and t = t] by auto

section \<open>Claims\<close>

text \<open>
  C39.  What the kernel prints is handed to the terminal, including what was printed before there was one.  When the
  framebuffer is initialised while messages are pending, and then a format is printed and the console flushed,
  the driver has made these calls to the new terminal: both default colours and manual flushing, then for each pending
  message in order and at last for the text of the format its background and foreground, all of its bytes in one
  write, and both default colours again; apart from flushes it has made no other call, and the last one is a flush,
  so that no write is left unflushed.
\<close>

theorem printf_reaches_terminal:
  assumes "con_ok s bs" and "ready s" and "cs_nodes s p = Some b" and "p \<noteq> nullptr" and "p \<notin> fst ` set bs" and "cb_device b \<notin> snd ` set bs"
    and "given (cb_device b) (cs_out s) = []" and "fb_init fb = ctx" and "ctx \<noteq> nullptr" and "\<not> IS_ERR ctx"
    and "env_ok env (cs_mem s) buf (unat PRINT_BUFFER_SIZE) str" and "cstr (cs_mem s) fmt cs" and "apart buf (unat PRINT_BUFFER_SIZE) fmt cs"
    and "expand str False cs ap = Some x" and "length x \<le> 500" and "local_vars (cs_console s) buf (unat PRINT_BUFFER_SIZE) e"
  shows "\<exists>s1 t1 s2 s3 t2. framebuffer_init fb_init (Some (fb # fbs)) p s t = Inr (errnum EOK, s1, t1) \<and>
    vprintf env buf e fmt ap s1 = Inr s2 \<and> console_flush s2 = Inr (errnum EOK, s3) \<and>
    forE (map snd (filter (\<lambda>(d', _). d' = cb_device b) (cs_out s3))) framebuffer_ops t1 = Inr t2 \<and>
    drawn t2 = drawn t @ map (Pair ctx) ([Reset_text_bg, Reset_text_fg, Set_autoflush False] @
      concat (map event_calls (pending (cs_console s) (cs_mem s))) @
      [Set_text_bg 0 False, Set_text_fg 7 True, Term_write x, Reset_text_bg, Reset_text_fg]) \<and>
    term_flushed ctx t2"
proof -
  obtain s1 t1 where 1: "framebuffer_init fb_init (Some (fb # fbs)) p s t = Inr (errnum EOK, s1, t1)" "con_ok s1 ((p, cb_device b) # bs)"
    "cs_mem s1 = cs_mem s" "cs_out s1 = cs_out s" "cs_console s1 = (cs_console s)\<lparr>con_backends := p\<rparr>" "fb_driver_data t1 = ctx"
    "fb_calls t1 = fb_calls t @ map (Pair ctx) [Reset_text_bg, Reset_text_fg, Set_autoflush False]"
    using framebuffer_init_run [where fb_init = fb_init and fb = fb and fbs = fbs, OF assms(1,3-6,8-10)] by blast
  have r: "ready s1" "local_vars (cs_console s1) buf (unat PRINT_BUFFER_SIZE) e" "cb_device b \<in> snd ` set ((p, cb_device b) # bs)"
    "env_ok env (cs_mem s1) buf (unat PRINT_BUFFER_SIZE) str" "cstr (cs_mem s1) fmt cs"
    using assms(2,11,12,16) 1(3,5) by (simp_all add: ready_def local_vars_def)
  have st: "stream (cb_device b) s1 = pending (cs_console s) (cs_mem s)" using 1(3-5) assms(7) by (simp add: stream_def)
  have "event_calls (color_bytes IO_DEFAULT_COLOR_FG @ color_bytes IO_DEFAULT_COLOR_BG, x) =
      [Set_text_bg 0 False, Set_text_fg 7 True, Term_write x, Reset_text_bg, Reset_text_fg]"
    by (simp add: event_calls_def color_bytes_def IO_DEFAULT_COLOR_FG_def IO_DEFAULT_COLOR_BG_def IO_COLOR_WHITE_BRIGHT_def IO_COLOR_BLACK_def)
  moreover obtain s2 s3 t2 where 2: "vprintf env buf e fmt ap s1 = Inr s2" "console_flush s2 = Inr (errnum EOK, s3)"
    "forE (map snd (filter (\<lambda>(d', _). d' = cb_device b) (cs_out s3))) framebuffer_ops t1 = Inr t2" "term_flushed ctx t2"
    "drawn t2 = drawn t1 @ concat (map (\<lambda>ev. map (Pair ctx) (event_calls ev)) (pending (cs_console s) (cs_mem s))) @
      map (Pair ctx) (event_calls (color_bytes IO_DEFAULT_COLOR_FG @ color_bytes IO_DEFAULT_COLOR_BG, x))"
    using framebuffer.printf_shown [OF 1(2) r(1,3,4,5) assms(13-15) r(2) 1(6)] unfolding st by blast
  moreover have "drawn t1 = drawn t @ map (Pair ctx) [Reset_text_bg, Reset_text_fg, Set_autoflush False]"
    using 1(7) by (simp add: drawn_def)
  ultimately show ?thesis using 1(1)
    by (intro exI [of _ s1] exI [of _ t1] exI [of _ s2] exI [of _ s3] exI [of _ t2]) (simp add: map_concat o_def)
qed

definition screen_con :: console_sys where
  "screen_con = (demo_con demo_text)\<lparr>cs_nodes := (cs_nodes (demo_con demo_text))(0x4100 \<mapsto> \<lparr>cb_device = 0x5100, cb_next = nullptr\<rparr>)\<rparr>"

theorem printf_reaches_terminal_witness:
  "\<forall>fb. \<exists>s1 t1 s2 s3 t2. framebuffer_init (\<lambda>_. 0x7000) (Some [fb]) 0x4100 screen_con \<lparr>fb_driver_data = nullptr, fb_calls = []\<rparr> = Inr (errnum EOK, s1, t1) \<and>
    vprintf demo_env 0x10000 0x6000 0x200 [VInt (- 5), VInt 0x300] s1 = Inr s2 \<and> console_flush s2 = Inr (errnum EOK, s3) \<and>
    forE (map snd (filter (\<lambda>(d', _). d' = 0x5100) (cs_out s3))) framebuffer_ops t1 = Inr t2 \<and>
    Term_write [45, 53, 32, 111, 107, 10, 13] \<in> snd ` set (fb_calls t2) \<and> last (fb_calls t2) = (0x7000, Term_flush)"
proof
  fix fb :: limine_framebuffer
  let ?t = "\<lparr>fb_driver_data = nullptr, fb_calls = []\<rparr> :: fb_state"
  have a: "apart 0x10000 (unat PRINT_BUFFER_SIZE) p bs" if "unat p + length bs < 0x1000" for p :: ptr and bs
    unfolding apart_def using that by (intro disjoint_regionsI) (simp_all add: PRINT_BUFFER_SIZE_def)
  have m: "cs_mem screen_con = cs_mem (demo_con demo_text)" "cs_console screen_con = cs_console (demo_con demo_text)"
    "cs_out screen_con = []" "cs_nodes screen_con 0x4100 = Some \<lparr>cb_device = 0x5100, cb_next = nullptr\<rparr>"
    by (simp_all add: screen_con_def demo_con_fields)
  have e: "env_ok demo_env (cs_mem screen_con) 0x10000 (unat PRINT_BUFFER_SIZE) [0x300 \<mapsto> [111, 107]]"
    unfolding m(1) by (simp add: env_ok_def text_at_def a demo_env_def chars_def demo_con_fields) (simp add: demo_text_def)
  have c: "cstr (cs_mem screen_con) 0x200 [37, 100, 32, 37, 115, 10]" unfolding m(1) by (simp add: demo_con_fields demo_text_def)
  have x: "expand [0x300 \<mapsto> [111, 107]] False [37, 100, 32, 37, 115, 10] [VInt (- 5), VInt 0x300 :: int varg] =
      Some [45, 53, 32, 111, 107, 10, 13]"
    by (simp add: spec_text_def chars_def newline_text_def int_text_def numeral_text_small digits_def)
  have l: "local_vars (cs_console screen_con) 0x10000 (unat PRINT_BUFFER_SIZE) 0x6000"
    unfolding m(2) local_vars_def demo_con_fields by (auto intro!: disjoint_regionsI simp: PRINT_BUFFER_SIZE_def)
  have ok: "con_ok screen_con [(0x4000, 0x5000)]"
    using demo_con_ok(1) [of demo_text] by (simp add: con_ok_def screen_con_def)
  have r: "ready screen_con" using demo_con_ok(2) [of demo_text] by (simp add: ready_def m(1,2))
  have p: "concat (map event_calls (pending (cs_console screen_con) (cs_mem screen_con))) = []"
    unfolding m(1,2) by (simp add: demo_con_fields)
  have h: "(\<lambda>_ :: limine_framebuffer. 0x7000 :: ptr) fb = 0x7000" "(0x7000 :: ptr) \<noteq> nullptr" "\<not> IS_ERR 0x7000"
    by (simp_all add: IS_ERR_def)
  have d: "(0x4100 :: ptr) \<noteq> nullptr" "(0x4100 :: ptr) \<notin> fst ` set [(0x4000, 0x5000)]"
    "cb_device \<lparr>cb_device = 0x5100, cb_next = nullptr\<rparr> \<notin> snd ` set [(0x4000, 0x5000)]"
    "given (cb_device \<lparr>cb_device = 0x5100, cb_next = nullptr\<rparr>) (cs_out screen_con) = []" using m(3) by simp_all
  have "length [45, 53, 32, 111, 107, 10, 13 :: u8] \<le> 500" by simp
  from printf_reaches_terminal [where fb = fb and fbs = "[]" and t = ?t and fb_init = "\<lambda>_. 0x7000" and ctx = "0x7000",
      OF ok r m(4) d h e c a x this l]
  obtain s1 t1 s2 s3 t2 where w: "framebuffer_init (\<lambda>_. 0x7000) (Some [fb]) 0x4100 screen_con ?t = Inr (errnum EOK, s1, t1)"
    "vprintf demo_env 0x10000 0x6000 0x200 [VInt (- 5), VInt 0x300] s1 = Inr s2" "console_flush s2 = Inr (errnum EOK, s3)"
    "forE (map snd (filter (\<lambda>(d', _). d' = 0x5100) (cs_out s3))) framebuffer_ops t1 = Inr t2"
    "drawn t2 = drawn ?t @ map (Pair 0x7000) ([Reset_text_bg, Reset_text_fg, Set_autoflush False] @ [] @
      [Set_text_bg 0 False, Set_text_fg 7 True, Term_write [45, 53, 32, 111, 107, 10, 13], Reset_text_bg, Reset_text_fg])"
    "term_flushed 0x7000 t2" unfolding p by auto
  have "(0x7000, Term_write [45, 53, 32, 111, 107, 10, 13]) \<in> set (drawn t2)" unfolding w(5) by simp
  then have "Term_write [45, 53, 32, 111, 107, 10, 13] \<in> snd ` set (fb_calls t2)" unfolding drawn_def by force
  with w(1-4,6) show "\<exists>s1 t1 s2 s3 t2. framebuffer_init (\<lambda>_. 0x7000) (Some [fb]) 0x4100 screen_con ?t = Inr (errnum EOK, s1, t1) \<and>
    vprintf demo_env 0x10000 0x6000 0x200 [VInt (- 5), VInt 0x300] s1 = Inr s2 \<and> console_flush s2 = Inr (errnum EOK, s3) \<and>
    forE (map snd (filter (\<lambda>(d', _). d' = 0x5100) (cs_out s3))) framebuffer_ops t1 = Inr t2 \<and>
    Term_write [45, 53, 32, 111, 107, 10, 13] \<in> snd ` set (fb_calls t2) \<and> last (fb_calls t2) = (0x7000, Term_flush)"
    unfolding term_flushed_def by (intro exI [of _ s1] exI [of _ t1] exI [of _ s2] exI [of _ s3] exI [of _ t2] conjI) simp_all
qed

end
