(* ===== verification/Spec2Isabelle.thy ===== *)
theory Spec2Isabelle
  imports CString Intrusive_List Ring_Buffer Arena_Allocator Lock_Protocol Boot_Memory Exceptions Smp_Boot Linked_List Text_Devices
begin

text \<open>
  KaworuOS is a small multi-core kernel in C for AArch64, started by the Limine boot loader.
  This library models its own code (\<open>kernel/\<close>, \<open>drivers/\<close>, \<open>lib/\<close>; the code under
  \<open>thirdparty/\<close> is left aside) and proves the properties that its parts rely on.

  \<^bold>\<open>The program.\<close>  At boot \<open>kernel_main\<close> sets up, in this order, the console, the physical
  page allocator (\<open>kmem\<close>, from the memory map of the boot loader), the kernel page table and the
  two regions of kernel virtual addresses (\<open>vmm\<close>), the kernel heap (\<open>kheap\<close>), the devices, the
  interrupt controller, the timer, the task manager and the other cpus, and enters the scheduler.
  The allocators are stacked: the heap is a free list over pools that the virtual memory manager
  maps; that takes address ranges from a region (a bitmap and a table of live allocations), pages
  from \<open>kmem\<close>, and writes descriptors into page tables, which are \<open>kmem\<close> pages again.  Tasks
  and their stacks are heap blocks; a task is linked into a global list, into the run queue of its
  cpu and into at most one wait queue.  Every shared object is guarded by a spinlock that masks
  interrupts on the holder.

  \<^bold>\<open>The theories, in the order of the code.\<close>
  \<^item> \<open>Kaworu_Prelude\<close>: machine integers, code that may not return (\<open>kerror + 'a\<close>,
    sequenced by \<open>bindE\<close>), loops over ranges of words.
  \<^item> \<open>Common_Defs\<close>: \<open>lib/include/common_defs.h\<close>, \<open>error.h\<close>, \<open>lib/error.c\<close>,
    \<open>memlayout.h\<close>; what the rounding and bit macros compute, and which pointers are errors.
  \<^item> \<open>Byte_Memory\<close>: byte-addressed little-endian memory with read-over-write laws.
  \<^item> \<open>CString\<close>: \<open>lib/string.c\<close>; closed forms of the copies, C strings.
  \<^item> \<open>Stdlib\<close>: \<open>lib/include/ctype.h\<close> and \<open>lib/stdlib.c\<close>; \<open>strtoul\<close> equals a reference that
    computes with unbounded numbers.
  \<^item> \<open>Printf\<close>: the formatter of \<open>kernel/debug/printf.c\<close>; it writes the text a format stands
    for, and numbers can be read back.
  \<^item> \<open>Intrusive_List\<close>: \<open>lib/ds/intrusivelist.c\<close>; \<open>il_rep\<close> reads a list of node addresses off
    the links.  The locale \<open>node_queue\<close> is the queue contract.
  \<^item> \<open>Ring_Buffer\<close>: \<open>lib/ds/ringbuffer.c\<close>; refinement of a bounded FIFO
    (\<open>bounded_fifo\<close>).
  \<^item> \<open>Arena_Allocator\<close>: \<open>lib/allocator/arena.c\<close>.
  \<^item> \<open>Bitmap_Allocator\<close>: \<open>lib/allocator/bitmap.c\<close>; first fit over a bitmap in memory, as a
    set of allocated pages (\<open>page_pool\<close>).
  \<^item> \<open>Free_List\<close>: \<open>lib/allocator/freelist.c\<close>; a sorted list of disjoint free blocks whose
    headers stand in the blocks (\<open>heap_blocks\<close>).
  \<^item> \<open>Spinlock\<close>, \<open>Lock_Protocol\<close>: \<open>kernel/sync/spinlock.c\<close> and the interrupt masking of
    \<open>kernel/irq/irq_controller.c\<close>: the functions run by one cpu, and a step relation that
    interleaves the memory accesses of all cpus.
  \<^item> \<open>Kmem\<close>: \<open>kernel/mm/kmem.c\<close>; the list of free pages threaded through the pages
    (\<open>page_source\<close>).
  \<^item> \<open>Paging\<close>: \<open>kernel/mm/paging.c\<close>; four-level tables in byte memory, as a tree of distinct
    pages and a map from addresses to leaf descriptors.
  \<^item> \<open>Vm_Region\<close>, \<open>Vmm\<close>: \<open>kernel/mm/vmm_region.c\<close>, \<open>kernel/mm/vmm.c\<close>; live allocations
    (\<open>allocation_map\<close>), mapping and unmapping.
  \<^item> \<open>Kheap\<close>: \<open>kernel/mm/kheap.c\<close>; the whole stack of allocators under one invariant
    (\<open>kheap_inv\<close>).
  \<^item> \<open>Boot_Memory\<close>: the calls of \<open>kernel_main\<close> (\<open>kernel/init.c\<close>) that set up memory; the ranges that
    \<open>paging_kernel_init\<close> maps (\<open>kernel_ranges\<close>), and how many tables they need (\<open>tables_bound\<close>).
  \<^item> \<open>Task_Queues\<close>, \<open>Scheduler\<close>, \<open>Scheduling\<close>: \<open>kernel/sync/run_queue.c\<close>,
    \<open>wait_queue.c\<close>, \<open>kernel/sched/\<close>, \<open>context_switch.S\<close>; the state is the record
    \<open>sched\<close>, its invariant \<open>sched_inv\<close> ties task states, queues and current tasks together, and
    \<open>sched_step\<close> is the relation of all scheduler operations of all cpus.
  \<^item> \<open>Task_Manager\<close>: \<open>kernel/core/task.c\<close>, \<open>task_manager.c\<close>, \<open>cpu.c\<close>; the record
    \<open>ksys\<close> puts the scheduler on top of the heap, with the invariant \<open>sys_inv\<close>.
  \<^item> \<open>Exceptions\<close>: \<open>kernel/arch/aarch64/exception.c\<close> and the save and restore sequences of
    \<open>exception.S\<close>.
  \<^item> \<open>Console\<close>: \<open>kernel/io/console.c\<close>, \<open>vprintf\<close> and \<open>log.h\<close>; what every device has been
    given, followed by what is pending, is what was written.
  \<^item> \<open>Mmio\<close>, \<open>Gic\<close>: \<open>lib/include/register.h\<close> and \<open>drivers/irqchip/arm-gicv2.c\<close>.  A
    register access is appended to the list of accesses of the bus; what a read returns is the
    argument \<open>hardware\<close>.  \<open>dist_view\<close> is the abstract distributor that a list of accesses
    leaves behind; the locale \<open>irq_chip\<close> is the contract of the chip operations.
  \<^item> \<open>Fdt\<close>: \<open>kernel/boot/fdt.c\<close>; the functions of the vendored libfdt it calls are the
    fields of the record \<open>libfdt\<close>, an argument.
  \<^item> \<open>Device_Model\<close>: the objects of \<open>drivers/include/common/manager.h\<close> and the record
    \<open>machine\<close>, which extends \<open>ksys\<close> by devices, bus, console, interrupt table and timer registers.
  \<^item> \<open>Irq_Controller\<close>: \<open>kernel/irq/irq_controller.c\<close>, the table of handlers and the
    dispatcher, with a handler run as an argument.
  \<^item> \<open>Pl011\<close>, \<open>Drivers\<close>: \<open>drivers/uart/pl011.c\<close>, \<open>drivers/timer/arm-timer.c\<close> and
    probing the interrupt controller.
  \<^item> \<open>Device_Manager\<close>: \<open>drivers/common/manager.c\<close>, with the initialisation of the interrupt
    controller and the registration of consoles, which ready devices.
  \<^item> \<open>Timer\<close>: \<open>kernel/core/timer.c\<close>; \<open>run_handler\<close> ties the dispatcher to the two
    interrupt handlers of the kernel.
  \<^item> \<open>Interrupt_Setup\<close>: the initialisation of the interrupt controller run on the whole machine:
    lookup, readying, mapping of the register blocks, allocation and configuration of the chip.
  \<^item> \<open>Linked_List\<close>: \<open>lib/ds/linkedlist.c\<close>, whose nodes are heap blocks; refinement of a
    double-ended queue (\<open>deque\<close>).
  \<^item> \<open>Text_Devices\<close>: \<open>drivers/framebuffer/framebuffer.c\<close> and \<open>kernel/debug/semihosting.c\<close>,
    the other two devices of the console, under the contract \<open>console_device\<close>.
  \<^item> \<open>Smp_Boot\<close>: the start of the secondary cpus in \<open>kernel/core/cpu.c\<close>.  \<open>smp_step\<close> interleaves
    the calls of the boot cpu and of all others, each with its own registers, and \<open>smp_fails\<close> is a call that
    panics or faults; \<open>smp_inv\<close> counts the cpus that are up.  One call is one step, and no interrupt is taken
    in between.

  \<^bold>\<open>What is shown.\<close>  For the allocators: each operation returns the first fitting resource or
  the error code the code promises, keeps its representation invariant, and leaves everything else
  alone; freeing undoes allocating.  For the page tables: mapping changes exactly the descriptors
  of the range, lookups return what was mapped, and a mapped page is never silently remapped.  For
  the lock: mutual exclusion and freedom from its own panics in every interleaving.  For the
  scheduler: round robin order with the saved registers of the chosen task, no task current on two
  cpus, and every queued task runs after one scheduling event more than it has predecessors.
  For start-up: from the memory map of the boot loader to a heap whose invariant holds, with the kernel and
  the direct map mapped, or to a panic where entries about which the boot protocol promises nothing cannot be mapped; the interrupt controller comes up on such a memory, and the boot cpu goes on only
  when all cpus are online, which they come to be without any call failing.  For output: the formatter writes the text its format stands for, the console hands it to every
  device completely and in order, the serial driver puts it on the line byte by byte, and the
  terminal library is called with it in the colours of its event and then flushed.  For interrupts: the chip is configured as documented, a requested interrupt reaches its handler, the
  tick is counted and rearmed, received characters are queued, and an exception gives the
  interrupted code its general registers back (the vector registers are not saved).  For devices: discovery is complete and lookups end.
  Where the code deviates from its intention the theorem states what it does instead: waking a
  blocked task, freeing pages with \<open>vm_free\<close> and using an exhausted free list panic.

  \<^bold>\<open>Conventions.\<close>  Functions take and return the state they touch.  \<open>Inl\<close> is code that does
  not return (panic, failed assertion, bad pointer, spinning, divergence); error codes are return
  values.  Loops with a bound are structural recursions or \<open>function\<close>s with a measure; scans
  that only memory contents can stop are \<open>partial_function\<close>s, and the theorems about them show
  that they return.  No fuel is used.  Integers keep their width, so wrap-around is visible;
  hypotheses such as \<open>unat p + n \<le> 2 ^ 64\<close> say where it is excluded.  Log output
  (\<open>DEBUG\<close>, \<open>INFO\<close>, \<open>WARN\<close>) is left out of the state.  Responses of the boot loader are
  arguments of the functions that read them.  The scheduler theories run one cpu at a time between
  its lock operations; the interleaving below that is the subject of \<open>Lock_Protocol\<close>.

  \<^bold>\<open>Not modelled.\<close>
  \<^item> \<open>limine_responses.c\<close> (objects filled by the boot loader), and the assembly of the entry
    points and exception vectors.
  \<^item> \<open>kernel_main\<close> as one function; of its calls, those that set up memory are composed in \<open>Boot_Memory\<close>.
  \<^item> What the terminal library flanterm, third-party code, draws for the calls it receives.
  \<^item> The devices, the debugger and libfdt are arguments.  Loops that poll a
    device register end under the hypothesis \<open>settles\<close>: after finitely many reads the polled
    flag is clear.
\<close>

end
